(* ===== verification/Zen_Prelude.thy ===== *)
theory Zen_Prelude
  imports Main "HOL-Library.Word"
begin

unbundle bit_operations_syntax

text \<open>
  Shared vocabulary of the development.

  \<^item> The C integer types \<open>uint8_t\<close> to \<open>uint64_t\<close> are words of that width, so that
    \<open>+\<close>, \<open>-\<close> and \<open>*\<close> wrap around as they do in the kernel.
  \<^item> A counting loop \<^verbatim>\<open>for (i = a; i < b; i++) body\<close> over an unsigned counter is
    \<open>wfor a b body\<close>; a search loop that leaves at the first index with a property is
    \<open>wfind a b p\<close>. Both terminate for every argument, because \<open>i < b\<close> rules out that
    \<open>i + 1\<close> wraps.
  \<^item> The collection \<open>zconst\<close> holds the values of the C macros.
\<close>

type_synonym u8 = "8 word"
type_synonym u16 = "16 word"
type_synonym u32 = "32 word"
type_synonym u64 = "64 word"

named_theorems zconst "values of the C macros"

section \<open>Counting loops\<close>

lemma unat_Suc_less:
  fixes i n :: "'a::len word"
  assumes "i < n"
  shows "unat (i + 1) = Suc (unat i)"
proof -
  have "unat i < unat n" using assms by (simp add: word_less_nat_alt)
  then have "Suc (unat i) < 2 ^ LENGTH('a)"
    using unsigned_less [of n, where ?'a = nat] by linarith
  then show ?thesis by (simp add: unat_word_ariths)
qed

lemma word_less_Suc_le:
  fixes i n :: "'a::len word"
  assumes "i < n"
  shows "i + 1 \<le> n"
  using assms unat_Suc_less [OF assms] by (simp add: word_le_nat_alt word_less_nat_alt)

lemma word_less_Suc_gr:
  fixes i n :: "'a::len word"
  assumes "i < n"
  shows "i < i + 1"
  using unat_Suc_less [OF assms] by (simp add: word_less_nat_alt)

lemma word_Suc_le_iff:
  fixes i j n :: "'a::len word"
  assumes "i < n"
  shows "i + 1 \<le> j \<longleftrightarrow> i < j"
  using unat_Suc_less [OF assms] by (auto simp: word_le_nat_alt word_less_nat_alt)

function wfor :: "'a::len word \<Rightarrow> 'a word \<Rightarrow> ('a word \<Rightarrow> 's \<Rightarrow> 's) \<Rightarrow> 's \<Rightarrow> 's" where
  "wfor i n f s = (if i < n then wfor (i + 1) n f (f i s) else s)"
  by pat_completeness auto
termination
  by (relation "measure (\<lambda>(i, n, f, s). unat n - unat i)")
     (auto simp: unat_Suc_less word_less_nat_alt)

declare wfor.simps [simp del]

function wfind :: "'a::len word \<Rightarrow> 'a word \<Rightarrow> ('a word \<Rightarrow> bool) \<Rightarrow> 'a word option" where
  "wfind i n p = (if i < n then if p i then Some i else wfind (i + 1) n p else None)"
  by pat_completeness auto
termination
  by (relation "measure (\<lambda>(i, n, p). unat n - unat i)")
     (auto simp: unat_Suc_less word_less_nat_alt)

declare wfind.simps [simp del]

lemma wfor_done [simp]: "n \<le> i \<Longrightarrow> wfor i n f s = s"
  by (subst wfor.simps) (simp add: leD)

lemma wfor_step: "i < n \<Longrightarrow> wfor i n f s = wfor (i + 1) n f (f i s)"
  by (subst wfor.simps) simp

lemma wfind_done [simp]: "n \<le> i \<Longrightarrow> wfind i n p = None"
  by (subst wfind.simps) (simp add: leD)

text \<open>The loop rule: an invariant indexed by the counter.\<close>

lemma wfor_invariant:
  assumes "i \<le> n" and "P i s"
    and step: "\<And>j t. i \<le> j \<Longrightarrow> j < n \<Longrightarrow> P j t \<Longrightarrow> P (j + 1) (f j t)"
  shows "P n (wfor i n f s)"
  using assms
proof (induction i n f s rule: wfor.induct)
  case (1 i n f s)
  show ?case
  proof (cases "i < n")
    case True
    have le: "i \<le> j" if "i + 1 \<le> j" for j
      using that word_Suc_le_iff [OF True] by simp
    have "P n (wfor (i + 1) n f (f i s))"
    proof (rule "1.IH" [OF True])
      show "i + 1 \<le> n" by (rule word_less_Suc_le [OF True])
      show "P (i + 1) (f i s)" by (rule "1.prems"(3)) (use True "1.prems"(2) in simp_all)
      show "P (j + 1) (f j t)" if "i + 1 \<le> j" "j < n" "P j t" for j t
        using "1.prems"(3) [OF le [OF that(1)] that(2,3)] .
    qed
    then show ?thesis by (simp add: wfor_step [OF True])
  next
    case False
    then have "i = n" using "1.prems"(1) by simp
    then show ?thesis using "1.prems"(2) by simp
  qed
qed

text \<open>A loop whose body keeps a fact keeps that fact.\<close>

lemma wfor_preserves:
  assumes "Q s" and "\<And>j t. i \<le> j \<Longrightarrow> j < n \<Longrightarrow> Q t \<Longrightarrow> Q (f j t)"
  shows "Q (wfor i n f s)"
proof (cases "i \<le> n")
  case True
  then show ?thesis
    using wfor_invariant [where P = "\<lambda>_. Q" and f = f and s = s and i = i and n = n] assms by blast
next
  case False
  then show ?thesis using assms(1) by simp
qed

lemma wfor_fold: "wfor i n f s = fold f (map of_nat [unat i..<unat n]) s"
proof (induction i n f s rule: wfor.induct)
  case (1 i n f s)
  show ?case
  proof (cases "i < n")
    case True
    then have "unat i < unat n" by (simp add: word_less_nat_alt)
    then have "[unat i..<unat n] = unat i # [unat (i + 1)..<unat n]"
      using unat_Suc_less [OF True] by (simp add: upt_conv_Cons)
    then show ?thesis using "1.IH" [OF True] by (simp add: wfor_step [OF True])
  next
    case False
    then have "n \<le> i" and "unat n \<le> unat i" by (simp_all add: not_less word_le_nat_alt)
    then show ?thesis by simp
  qed
qed

lemma wfind_SomeD:
  "wfind i n p = Some k \<Longrightarrow> i \<le> k \<and> k < n \<and> p k \<and> (\<forall>j. i \<le> j \<and> j < k \<longrightarrow> \<not> p j)"
proof (induction i n p rule: wfind.induct)
  case (1 i n p)
  show ?case
  proof (cases "i < n")
    case True
    show ?thesis
    proof (cases "p i")
      case True
      with \<open>i < n\<close> "1.prems" show ?thesis by (auto simp: wfind.simps [of i n p])
    next
      case False
      with \<open>i < n\<close> "1.prems" have rec: "wfind (i + 1) n p = Some k"
        by (simp add: wfind.simps [of i n p])
      note IH = "1.IH" [OF \<open>i < n\<close> False rec]
      then have "i < k" using word_Suc_le_iff [OF \<open>i < n\<close>] by blast
      moreover have "\<not> p j" if "i \<le> j" "j < k" for j
      proof (cases "j = i")
        case False
        with that have "i < j" by simp
        then show ?thesis using IH that word_Suc_le_iff [OF \<open>i < n\<close>] by blast
      qed (simp add: \<open>\<not> p i\<close>)
      ultimately show ?thesis using IH by auto
    qed
  next
    case False
    with "1.prems" show ?thesis by simp
  qed
qed

lemma wfind_NoneD: "wfind i n p = None \<Longrightarrow> i \<le> j \<Longrightarrow> j < n \<Longrightarrow> \<not> p j"
proof (induction i n p rule: wfind.induct)
  case (1 i n p)
  then have "i < n" by simp
  with "1.prems" have ni: "\<not> p i" and rec: "wfind (i + 1) n p = None"
    by (auto simp: wfind.simps [of i n p] split: if_splits)
  show ?case
  proof (cases "j = i")
    case True
    with ni show ?thesis by simp
  next
    case False
    with "1.prems" have "i < j" by simp
    then have "i + 1 \<le> j" using word_Suc_le_iff [OF \<open>i < n\<close>] by simp
    then show ?thesis using "1.IH" [OF \<open>i < n\<close> ni rec] "1.prems"(3) by blast
  qed
qed

lemma wfind_eq_None_iff: "wfind i n p = None \<longleftrightarrow> (\<forall>j. i \<le> j \<and> j < n \<longrightarrow> \<not> p j)"
proof
  assume "\<forall>j. i \<le> j \<and> j < n \<longrightarrow> \<not> p j"
  then show "wfind i n p = None"
    using wfind_SomeD [of i n p] by (cases "wfind i n p") auto
qed (use wfind_NoneD in blast)

lemma wfind_eq_Some_iff:
  "wfind i n p = Some k \<longleftrightarrow> i \<le> k \<and> k < n \<and> p k \<and> (\<forall>j. i \<le> j \<and> j < k \<longrightarrow> \<not> p j)"
    (is "_ \<longleftrightarrow> ?first k")
proof
  assume k: "?first k"
  then obtain k' where k': "wfind i n p = Some k'"
    using wfind_NoneD [of i n p k] by (cases "wfind i n p") auto
  note first = wfind_SomeD [OF k']
  have "\<not> k < k'" "\<not> k' < k" using first k by auto
  then show "wfind i n p = Some k" using k' by simp
qed (use wfind_SomeD in blast)

lemma wfind_cong:
  "(\<And>j. i \<le> j \<Longrightarrow> j < n \<Longrightarrow> p j = q j) \<Longrightarrow> wfind i n p = wfind i n q"
proof (cases "wfind i n q")
  case None
  assume "\<And>j. i \<le> j \<Longrightarrow> j < n \<Longrightarrow> p j = q j"
  with None have "wfind i n p = None" by (simp add: wfind_eq_None_iff)
  with None show ?thesis by simp
next
  case (Some k)
  assume eq: "\<And>j. i \<le> j \<Longrightarrow> j < n \<Longrightarrow> p j = q j"
  note first = wfind_SomeD [OF Some]
  then have "wfind i n p = Some k" using eq by (auto simp: wfind_eq_Some_iff)
  with Some show ?thesis by simp
qed

lemma wfind_find: "wfind i n p = find p (map of_nat [unat i..<unat n])"
proof (induction i n p rule: wfind.induct)
  case (1 i n p)
  show ?case
  proof (cases "i < n")
    case True
    then have "unat i < unat n" by (simp add: word_less_nat_alt)
    then have "[unat i..<unat n] = unat i # [unat (i + 1)..<unat n]"
      using unat_Suc_less [OF True] by (simp add: upt_conv_Cons)
    then show ?thesis using "1.IH" [OF True] True by (simp add: wfind.simps [of i n p])
  next
    case False
    then have "n \<le> i" and "unat n \<le> unat i" by (simp_all add: not_less word_le_nat_alt)
    then show ?thesis by simp
  qed
qed

lemma find_map: "find p (map f xs) = map_option f (find (p \<circ> f) xs)"
  by (induction xs) auto

text \<open>
  A counting loop whose body may leave the function with a value (\<open>Some r\<close>), and the same loop
  over a body that may itself fail to return (\<open>None\<close>).
\<close>

function wtry ::
    "'a::len word \<Rightarrow> 'a word \<Rightarrow> ('a word \<Rightarrow> 's \<Rightarrow> 'r option \<times> 's) \<Rightarrow> 's \<Rightarrow> 'r option \<times> 's" where
  "wtry i n f s =
     (if i < n then case f i s of (Some r, t) \<Rightarrow> (Some r, t) | (None, t) \<Rightarrow> wtry (i + 1) n f t
      else (None, s))"
  by pat_completeness auto
termination
  by (relation "measure (\<lambda>(i, n, f, s). unat n - unat i)")
     (auto simp: unat_Suc_less word_less_nat_alt)

declare wtry.simps [simp del]

lemma wtry_preserves:
  "(\<And>j t. Q t \<Longrightarrow> Q (snd (f j t))) \<Longrightarrow> Q s \<Longrightarrow> Q (snd (wtry i n f s))"
proof (induction i n f s rule: wtry.induct)
  case (1 i n f s)
  then show ?case
    by (subst wtry.simps) (fastforce split: prod.splits option.splits dest: arg_cong [of _ _ snd])
qed

lemma wtry_rule:
  assumes "i \<le> n" and "P i s"
    and step: "\<And>j t. i \<le> j \<Longrightarrow> j < n \<Longrightarrow> P j t \<Longrightarrow>
      (case f j t of (None, u) \<Rightarrow> P (j + 1) u | (Some r, u) \<Rightarrow> R r u)"
  shows "case wtry i n f s of (None, u) \<Rightarrow> P n u | (Some r, u) \<Rightarrow> R r u"
  using assms
proof (induction i n f s rule: wtry.induct)
  case (1 i n f s)
  show ?case
  proof (cases "i < n")
    case True
    obtain r u where f: "f i s = (r, u)" by fastforce
    have st: "case (r, u) of (None, u) \<Rightarrow> P (i + 1) u | (Some r, u) \<Rightarrow> R r u"
      using "1.prems"(3) [OF _ True "1.prems"(2)] f by simp
    show ?thesis
    proof (cases r)
      case None
      have "case wtry (i + 1) n f u of (None, u) \<Rightarrow> P n u | (Some r, u) \<Rightarrow> R r u"
      proof (rule "1.IH" [OF True f [symmetric] None])
        show "i + 1 \<le> n" by (rule word_less_Suc_le [OF True])
        show "P (i + 1) u" using st None by simp
        show "case f j t of (None, u) \<Rightarrow> P (j + 1) u | (Some r, u) \<Rightarrow> R r u"
          if "i + 1 \<le> j" "j < n" "P j t" for j t
        proof -
          have "i < j" using that(1) word_Suc_le_iff [OF True] by simp
          then show ?thesis by (intro "1.prems"(3) that(2,3)) simp
        qed
      qed
      then show ?thesis using True f None by (simp add: wtry.simps [of i])
    next
      case (Some a)
      then show ?thesis using True f st by (simp add: wtry.simps [of i])
    qed
  next
    case False
    then have "i = n" using "1.prems"(1) by simp
    then show ?thesis using "1.prems"(2) by (simp add: wtry.simps [of n])
  qed
qed

function wtryo ::
    "'a::len word \<Rightarrow> 'a word \<Rightarrow> ('a word \<Rightarrow> 's \<Rightarrow> ('r option \<times> 's) option) \<Rightarrow> 's \<Rightarrow>
     ('r option \<times> 's) option" where
  "wtryo i n f s =
     (if i < n then case f i s of None \<Rightarrow> None
        | Some (Some r, t) \<Rightarrow> Some (Some r, t) | Some (None, t) \<Rightarrow> wtryo (i + 1) n f t
      else Some (None, s))"
  by pat_completeness auto
termination
  by (relation "measure (\<lambda>(i, n, f, s). unat n - unat i)")
     (auto simp: unat_Suc_less word_less_nat_alt)

declare wtryo.simps [simp del]

section \<open>Words\<close>

lemma unat_add_no_wrap:
  fixes x y :: "'a::len word"
  assumes "unat x + unat y < 2 ^ LENGTH('a)"
  shows "unat (x + y) = unat x + unat y"
  using assms by (simp add: unat_word_ariths)

lemma unat_sub_no_wrap:
  fixes x y :: "'a::len word"
  assumes "y \<le> x"
  shows "unat (x - y) = unat x - unat y"
  using assms by (rule unat_sub)

lemma unat_of_nat_small:
  "n < 2 ^ LENGTH('a) \<Longrightarrow> unat (of_nat n :: 'a::len word) = n"
  by (simp add: unat_of_nat)

lemma unat_of_nat_u32: "n < 4294967296 \<Longrightarrow> unat (of_nat n :: u32) = n"
  by (simp add: unat_of_nat)

lemma unat_ucast:
  "unat (ucast (x :: 'a::len word) :: 'b::len word) = unat x mod 2 ^ LENGTH('b)"
proof -
  have "(ucast x :: 'b word) = of_nat (unat x)" by simp
  then show ?thesis by (simp only: unat_of_nat)
qed

lemma sint_small:
  fixes x :: "'a::len word"
  assumes "unat x < 2 ^ (LENGTH('a) - 1)"
  shows "sint x = int (unat x)"
proof -
  have "uint x < 2 ^ (LENGTH('a) - 1)"
    using of_nat_less_iff [THEN iffD2, OF assms, where ?'a1 = int] by simp
  moreover have "- (2 ^ (LENGTH('a) - 1)) \<le> uint x"
    by (rule order_trans [of _ 0]) simp_all
  ultimately have "signed_take_bit (LENGTH('a) - 1) (uint x) = uint x"
    by (simp add: signed_take_bit_int_eq_self)
  then show ?thesis by (simp add: sint_uint)
qed

lemma of_nat_unat_eq [simp]: "(of_nat (unat x) :: 'a::len word) = x"
  by simp

lemma unat_u8_less [simp]: "unat (x :: u8) < 256"
  using unsigned_less [of x, where ?'a = nat] by simp

lemma unat_u16_less [simp]: "unat (x :: u16) < 65536"
  using unsigned_less [of x, where ?'a = nat] by simp

lemma unat_u32_less [simp]: "unat (x :: u32) < 4294967296"
  using unsigned_less [of x, where ?'a = nat] by simp

lemma unat_u64_less [simp]: "unat (x :: u64) < 18446744073709551616"
  using unsigned_less [of x, where ?'a = nat] by simp

section \<open>Arrays\<close>

text \<open>
  A C array is a function from indices to elements. The elements beyond the declared
  bound are never named by an operation whose guards hold; the bounds are stated and proved
  where the code relies on them.
\<close>

type_synonym 'a carray = "nat \<Rightarrow> 'a"

text \<open>The elements \<open>a[0 .. n-1]\<close> as a list.\<close>

definition aslice :: "'a carray \<Rightarrow> nat \<Rightarrow> 'a list" where
  "aslice a n = map a [0..<n]"

lemma length_aslice [simp]: "length (aslice a n) = n"
  by (simp add: aslice_def)

lemma nth_aslice [simp]: "i < n \<Longrightarrow> aslice a n ! i = a i"
  by (simp add: aslice_def)

lemma aslice_0 [simp]: "aslice a 0 = []"
  by (simp add: aslice_def)

lemma aslice_Suc: "aslice a (Suc n) = aslice a n @ [a n]"
  by (simp add: aslice_def)

lemma aslice_upd_above [simp]: "n \<le> i \<Longrightarrow> aslice (a(i := v)) n = aslice a n"
  by (auto simp: aslice_def)

lemma aslice_upd_in: "i < n \<Longrightarrow> aslice (a(i := v)) n = (aslice a n)[i := v]"
  by (rule nth_equalityI) (auto simp: nth_list_update)

lemma set_aslice: "set (aslice a n) = a ` {..<n}"
  by (auto simp: aslice_def)

end
