(* ===== verification/Div64.thy ===== *)
theory Div64
  imports Zen_Prelude "HOL-Library.Signed_Division"
begin

text \<open>
  The 64-bit division support of \<^verbatim>\<open>kernel/lib/divdi3.c\<close>: the routines the compiler calls for
  64-bit \<open>/\<close> and \<open>%\<close> on a 32-bit target. \<open>int64_t\<close> values are 64-bit words read by \<open>sint\<close>.
  The theory shows that the shift-and-subtract loops and their power-of-two shortcuts compute
  quotient and remainder, and that the signed routines truncate towards zero.
\<close>

section \<open>The code\<close>

text \<open>
  \<^verbatim>\<open>while ((d32 >> shift) != 1) shift++;\<close> A shift count of 32 or more is undefined in C;
  \<open>shift_loop\<close> stops there, and \<open>shift_loop_pow2\<close> shows that it is never reached.
\<close>

function shift_loop :: "u32 \<Rightarrow> nat \<Rightarrow> nat" where
  "shift_loop d32 shift =
     (if shift < 32 \<and> drop_bit shift d32 \<noteq> 1 then shift_loop d32 (Suc shift) else shift)"
  by pat_completeness auto
termination
  by (relation "measure (\<lambda>(d, shift). 32 - shift)") auto

declare shift_loop.simps [simp del]

text \<open>One round of binary long division: the quotient and the remainder so far.\<close>

definition div_round :: "u64 \<Rightarrow> u64 \<Rightarrow> nat \<Rightarrow> u64 \<times> u64 \<Rightarrow> u64 \<times> u64" where
  "div_round n d i qr =
     (let q = fst qr; r = (push_bit 1 (snd qr)) OR (drop_bit i n AND 1)
      in if d \<le> r then (q OR push_bit i 1, r - d) else (q, r))"

text \<open>\<^verbatim>\<open>for (int i = 63; i >= 0; i--)\<close>: \<open>div_loop k\<close> runs the rounds \<open>k - 1, \<dots>, 0\<close>.\<close>

fun div_loop :: "nat \<Rightarrow> u64 \<Rightarrow> u64 \<Rightarrow> u64 \<times> u64 \<Rightarrow> u64 \<times> u64" where
  "div_loop 0 n d qr = qr"
| "div_loop (Suc i) n d qr = div_loop i n d (div_round n d i qr)"

definition udivdi3 :: "u64 \<Rightarrow> u64 \<Rightarrow> u64" where
  "udivdi3 n d =
     (if d = 0 then 0
      else let d32 = (ucast d :: u32)
        in if d \<le> 0xFFFFFFFF \<and> d32 AND (d32 - 1) = 0
           then drop_bit (shift_loop d32 0) n
           else fst (div_loop 64 n d (0, 0)))"

definition umoddi3 :: "u64 \<Rightarrow> u64 \<Rightarrow> u64" where
  "umoddi3 n d =
     (if d = 0 then 0
      else let d32 = (ucast d :: u32)
        in if d \<le> 0xFFFFFFFF \<and> d32 AND (d32 - 1) = 0
           then n AND (d - 1)
           else snd (div_loop 64 n d (0, 0)))"

text \<open>
  The quotient and what \<^verbatim>\<open>*rem\<close> receives; the flag says whether \<^verbatim>\<open>rem\<close> is not null.
\<close>

definition udivmoddi4 :: "u64 \<Rightarrow> u64 \<Rightarrow> bool \<Rightarrow> u64 \<times> u64 option" where
  "udivmoddi4 n d rem =
     (let q = udivdi3 n d in (q, if rem then Some (n - q * d) else None))"

definition divdi3 :: "u64 \<Rightarrow> u64 \<Rightarrow> u64" where
  "divdi3 n d =
     (let n_neg = sint n < 0; d_neg = sint d < 0;
          abs_n = if n_neg then - n else n;
          abs_d = if d_neg then - d else d;
          q = udivdi3 abs_n abs_d
      in if n_neg \<noteq> d_neg then - q else q)"

definition moddi3 :: "u64 \<Rightarrow> u64 \<Rightarrow> u64" where
  "moddi3 n d =
     (let n_neg = sint n < 0; d_neg = sint d < 0;
          abs_n = if n_neg then - n else n;
          abs_d = if d_neg then - d else d;
          r = umoddi3 abs_n abs_d
      in if n_neg then - r else r)"

section \<open>Powers of two\<close>

lemma nat_and_pred_pow2:
  fixes m :: nat
  shows "0 < m \<Longrightarrow> m AND (m - 1) = 0 \<Longrightarrow> \<exists>k. m = 2 ^ k"
proof (induction m rule: less_induct)
  case (less m)
  show ?case
  proof (cases "even m")
    case True
    then obtain e where e: "m = 2 * e" by blast
    with less.prems have "0 < e" by simp
    have "m AND (m - 1) = 2 * (e AND (e - 1))"
    proof -
      have "(m - 1) div 2 = e - 1" using e \<open>0 < e\<close> by arith
      then show ?thesis using e and_rec [of m "m - 1"] by simp
    qed
    with less.prems have "e AND (e - 1) = 0" by simp
    then obtain k where "e = 2 ^ k"
      using less.IH [of e] e \<open>0 < e\<close> by auto
    then show ?thesis using e by (intro exI [of _ "Suc k"]) simp
  next
    case False
    then obtain e where e: "m = 2 * e + 1" by (auto elim: oddE)
    have "m AND (m - 1) = 2 * e" using e and_rec [of m "m - 1"] by simp
    with less.prems e show ?thesis by (intro exI [of _ 0]) simp
  qed
qed

lemma u32_pow2:
  fixes d :: u32
  assumes "d \<noteq> 0" and "d AND (d - 1) = 0"
  obtains k where "k < 32" and "unat d = 2 ^ k"
proof -
  have pos: "0 < unat d" using assms(1) by (simp add: unat_gt_0)
  have "unat (d - 1) = unat d - 1" using assms(1) by (simp add: unat_minus_one)
  then have "unat d AND (unat d - 1) = 0"
    using assms(2) by (metis unsigned_and_eq unsigned_0)
  then obtain k where k: "unat d = 2 ^ k" using nat_and_pred_pow2 pos by blast
  have "(2::nat) ^ k < 2 ^ 32" using unat_u32_less [of d] k by simp
  then have "k < 32" by (simp only: power_strict_increasing_iff)
  with k that show thesis by blast
qed

lemma unat_drop_bit_div: "unat (drop_bit k (x :: 'a::len word)) = unat x div 2 ^ k"
  unfolding unat_drop_bit_eq by (simp add: drop_bit_eq_div)

lemma shift_loop_pow2:
  assumes "unat d = 2 ^ k" and "k < 32" and "s \<le> k"
  shows "shift_loop d s = k"
  using assms(3)
proof (induction "k - s" arbitrary: s)
  case 0
  then have "s = k" by simp
  moreover have "drop_bit k d = 1"
    using assms(1) by (simp add: word_unat_eq_iff unat_drop_bit_div)
  ultimately show ?case by (simp add: shift_loop.simps [of d k])
next
  case (Suc m)
  then have "s < k" by simp
  then have "(2::nat) ^ k div 2 ^ s = 2 ^ (k - s)" by (simp add: power_diff)
  moreover have "(2::nat) ^ (k - s) \<noteq> 1" using \<open>s < k\<close> by simp
  ultimately have "drop_bit s d \<noteq> 1"
    using assms(1) by (simp add: word_unat_eq_iff unat_drop_bit_div)
  moreover have "shift_loop d (Suc s) = k" using Suc by simp
  ultimately show ?case using \<open>s < k\<close> assms(2) by (simp add: shift_loop.simps [of d s])
qed

section \<open>Long division\<close>

lemma or_push_bit_add:
  fixes q :: u64
  assumes "i < 64" and "2 ^ Suc i dvd unat q"
  shows "unat (q OR push_bit i 1) = unat q + 2 ^ i"
proof -
  have "\<not> bit q i"
  proof -
    have "even (unat q div 2 ^ i)" using assms(2) by (auto elim!: dvdE)
    then have "\<not> bit (unat q) i" by (simp add: bit_iff_odd)
    then show ?thesis by (simp add: bit_unsigned_iff)
  qed
  then have "q OR push_bit i 1 = q + push_bit i 1"
    by (intro disjunctive_add [symmetric]) (auto simp: bit_simps)
  moreover have "unat (push_bit i 1 :: u64) = 2 ^ i"
    using assms(1) power_strict_increasing [of i 64 "2::nat"]
    unfolding unsigned_push_bit_eq by (simp add: push_bit_eq_mult take_bit_eq_mod)
  moreover have "unat q + 2 ^ i < 2 ^ 64"
  proof -
    obtain c where c: "unat q = 2 ^ Suc i * c" using assms(2) by blast
    have "(2::nat) ^ 64 = 2 ^ Suc i * 2 ^ (63 - i)"
      using assms(1) by (simp flip: power_add)
    moreover have "unat q < 2 ^ 64" by simp
    ultimately have "2 ^ Suc i * c < 2 ^ Suc i * 2 ^ (63 - i)" using c by metis
    then have "c < 2 ^ (63 - i)" by (simp only: mult_less_cancel1)
    then have "2 ^ Suc i * Suc c \<le> 2 ^ Suc i * 2 ^ (63 - i)" by (intro mult_le_mono2) simp
    moreover have "unat q + 2 ^ i < 2 ^ Suc i * Suc c" using c by simp
    ultimately show ?thesis using \<open>2 ^ 64 = 2 ^ Suc i * 2 ^ (63 - i)\<close> by linarith
  qed
  ultimately show ?thesis by (simp add: unat_add_no_wrap)
qed

text \<open>The state of the loop before the round for bit \<open>k - 1\<close>.\<close>

definition div_inv :: "u64 \<Rightarrow> u64 \<Rightarrow> nat \<Rightarrow> u64 \<times> u64 \<Rightarrow> bool" where
  "div_inv n d k qr \<longleftrightarrow>
     unat (fst qr) = (unat n div 2 ^ k) div unat d * 2 ^ k \<and>
     unat (snd qr) = (unat n div 2 ^ k) mod unat d"

lemma shift_in_bit:
  fixes r n :: u64
  assumes "unat r < 2 ^ 63"
  shows "unat (push_bit 1 r OR (drop_bit i n AND 1)) = 2 * unat r + (unat n div 2 ^ i) mod 2"
proof -
  have "push_bit 1 r OR (drop_bit i n AND 1) = push_bit 1 r + (drop_bit i n AND 1)"
  proof (rule disjunctive_add [symmetric])
    show "\<not> bit (push_bit 1 r) m \<or> \<not> bit (drop_bit i n AND 1) m" for m
      by (cases "m = 0") (simp_all add: bit_0 bit_and_iff bit_1_iff)
  qed
  moreover have "unat (push_bit 1 r) = 2 * unat r"
    using assms by (simp add: push_bit_eq_mult unat_word_ariths)
  moreover have "unat (drop_bit i n AND 1) = (unat n div 2 ^ i) mod 2"
    by (simp add: and_one_eq unat_mod unat_drop_bit_div flip: unsigned_and_eq)
  ultimately show ?thesis using assms by (simp add: unat_add_no_wrap)
qed

lemma mod_round:
  fixes A D b :: nat
  assumes "0 < D" and "b < 2"
  defines "r \<equiv> 2 * (A mod D) + b"
  shows "(2 * A + b) mod D = (if D \<le> r then r - D else r)"
    and "(2 * A + b) div D = 2 * (A div D) + (if D \<le> r then 1 else 0)"
proof -
  have expand: "2 * (D * x + y) + b = D * (2 * x) + (2 * y + b)" for x y
    by (simp add: algebra_simps)
  have A: "2 * A + b = D * (2 * (A div D)) + r"
    using expand [of "A div D" "A mod D"] unfolding r_def by (simp only: mult_div_mod_eq)
  have r: "r < 2 * D" unfolding r_def using mod_less_divisor [OF assms(1), of A] assms(2) by linarith
  have "(2 * A + b) mod D = (if D \<le> r then r - D else r) \<and>
    (2 * A + b) div D = 2 * (A div D) + (if D \<le> r then 1 else 0)"
  proof (cases "D \<le> r")
    case True
    then have "2 * A + b = (r - D) + D * (2 * (A div D) + 1)" using A by simp
    moreover have "r - D < D" using r True by linarith
    ultimately show ?thesis using True assms(1) by (simp only: mod_mult_self2 div_mult_self2
          mod_less div_less if_True) simp
  next
    case False
    then show ?thesis using A assms(1) by (simp add: add.commute [of _ r])
  qed
  then show "(2 * A + b) mod D = (if D \<le> r then r - D else r)"
    and "(2 * A + b) div D = 2 * (A div D) + (if D \<le> r then 1 else 0)" by blast+
qed

lemma div_round_inv:
  assumes "d \<noteq> 0" and "i < 64" and inv: "div_inv n d (Suc i) qr"
  shows "div_inv n d i (div_round n d i qr)"
proof -
  let ?N = "unat n" and ?D = "unat d"
  let ?A = "?N div 2 ^ Suc i" and ?b = "(?N div 2 ^ i) mod 2"
  let ?r = "push_bit 1 (snd qr) OR (drop_bit i n AND 1)"
  have D: "0 < ?D" using assms(1) by (simp add: unat_gt_0)
  have "?A < 2 ^ 63"
  proof -
    have "?N < 2 ^ 64 * 1" using unsigned_less [of n, where ?'a = nat] by simp
    also have "\<dots> \<le> 2 ^ 64 * 2 ^ i" by (intro mult_le_mono2) simp
    also have "\<dots> = 2 ^ 63 * 2 ^ Suc i" by simp
    finally have "?N < 2 ^ 63 * 2 ^ Suc i" .
    then show ?thesis by (simp only: less_mult_imp_div_less)
  qed
  moreover have "unat (snd qr) \<le> ?A" using inv by (simp add: div_inv_def)
  ultimately have "unat (snd qr) < 2 ^ 63" by linarith
  then have r: "unat ?r = 2 * (?A mod ?D) + ?b"
    using shift_in_bit [of "snd qr" i n] inv by (simp only: div_inv_def)
  have "?A = ?N div 2 ^ i div 2" by (simp only: power_Suc2 div_mult2_eq)
  then have step: "?N div 2 ^ i = 2 * ?A + ?b" by presburger
  have le: "d \<le> ?r \<longleftrightarrow> ?D \<le> 2 * (?A mod ?D) + ?b" using r by (simp add: word_le_nat_alt)
  have "2 ^ Suc i dvd unat (fst qr)" using inv by (simp add: div_inv_def)
  then have q: "unat (fst qr OR push_bit i 1) = unat (fst qr) + 2 ^ i"
    using assms(2) by (rule or_push_bit_add [rotated])
  have b: "?b < 2" by simp
  note round = mod_round [OF D b, of ?A, folded step]
  have fst_qr: "unat (fst qr) = ?A div ?D * (2 * 2 ^ i)" using inv by (simp add: div_inv_def)
  show ?thesis
  proof (cases "d \<le> ?r")
    case True
    then have "unat (?r - d) = unat ?r - ?D" by (rule unat_sub)
    moreover have "div_round n d i qr = (fst qr OR push_bit i 1, ?r - d)"
      using True by (simp only: div_round_def Let_def if_True)
    moreover have "unat (fst qr) + 2 ^ i = (?N div 2 ^ i) div ?D * 2 ^ i"
      using True le fst_qr round(2) by (simp add: algebra_simps)
    ultimately show ?thesis using True le r q round(1) by (simp add: div_inv_def)
  next
    case False
    then have "div_round n d i qr = (fst qr, ?r)"
      by (simp only: div_round_def Let_def if_False)
    moreover have "unat (fst qr) = (?N div 2 ^ i) div ?D * 2 ^ i"
      using False le fst_qr round(2) by simp
    ultimately show ?thesis using False le r round(1) by (simp add: div_inv_def)
  qed
qed

lemma div_loop_inv:
  "d \<noteq> 0 \<Longrightarrow> k \<le> 64 \<Longrightarrow> div_inv n d k qr \<Longrightarrow> div_inv n d 0 (div_loop k n d qr)"
  by (induction k arbitrary: qr) (simp_all add: div_round_inv)

lemma div_loop_64:
  assumes "d \<noteq> 0"
  shows "unat (fst (div_loop 64 n d (0, 0))) = unat n div unat d"
    and "unat (snd (div_loop 64 n d (0, 0))) = unat n mod unat d"
proof -
  have "div_inv n d 64 (0, 0)" by (simp add: div_inv_def)
  then have "div_inv n d 0 (div_loop 64 n d (0, 0))"
    using assms by (intro div_loop_inv) simp_all
  then show "unat (fst (div_loop 64 n d (0, 0))) = unat n div unat d"
    and "unat (snd (div_loop 64 n d (0, 0))) = unat n mod unat d"
    by (simp_all add: div_inv_def)
qed

lemma u64_pow2:
  fixes d :: u64
  assumes "d \<noteq> 0" and "d \<le> 0xFFFFFFFF" and "ucast d AND (ucast d - 1 :: u32) = 0"
  obtains k where "k < 32" and "unat d = 2 ^ k" and "unat (ucast d :: u32) = 2 ^ k"
proof -
  have "unat d < 2 ^ 32" using assms(2) by (simp add: word_le_nat_alt)
  then have eq: "unat (ucast d :: u32) = unat d" by (simp add: unat_ucast)
  then have "(ucast d :: u32) \<noteq> 0" using assms(1) by (metis unat_eq_zero)
  then obtain k where "k < 32" "unat (ucast d :: u32) = 2 ^ k"
    using u32_pow2 assms(3) by blast
  with eq that show thesis by simp
qed

lemma unat_udivdi3: "d \<noteq> 0 \<Longrightarrow> unat (udivdi3 n d) = unat n div unat d"
proof (cases "d \<le> 0xFFFFFFFF \<and> ucast d AND (ucast d - 1 :: u32) = 0")
  case True
  assume "d \<noteq> 0"
  with True obtain k where "k < 32" "unat d = 2 ^ k" "unat (ucast d :: u32) = 2 ^ k"
    using u64_pow2 by blast
  then show ?thesis
    using True \<open>d \<noteq> 0\<close> by (simp add: udivdi3_def shift_loop_pow2 unat_drop_bit_div)
next
  case False
  assume "d \<noteq> 0"
  with False show ?thesis by (auto simp: udivdi3_def div_loop_64)
qed

lemma unat_umoddi3: "d \<noteq> 0 \<Longrightarrow> unat (umoddi3 n d) = unat n mod unat d"
proof (cases "d \<le> 0xFFFFFFFF \<and> ucast d AND (ucast d - 1 :: u32) = 0")
  case True
  assume "d \<noteq> 0"
  with True obtain k where k: "k < 32" "unat d = 2 ^ k" using u64_pow2 by blast
  have "unat (d - 1) = mask k"
    using k \<open>d \<noteq> 0\<close> by (simp add: unat_minus_one mask_eq_exp_minus_1)
  then have "unat (n AND (d - 1)) = unat n mod 2 ^ k"
    by (simp add: unsigned_and_eq take_bit_eq_mod flip: take_bit_eq_mask)
  then show ?thesis using True \<open>d \<noteq> 0\<close> k by (simp add: umoddi3_def)
next
  case False
  assume "d \<noteq> 0"
  with False show ?thesis by (auto simp: umoddi3_def div_loop_64)
qed

section \<open>Signed division\<close>

lemma u64_word_of_int_abs:
  fixes n :: u64
  shows "(if sint n < 0 then - n else n) = word_of_int \<bar>sint n\<bar>"
proof -
  have n: "n = word_of_int (sint n)" by simp
  show ?thesis
  proof (cases "sint n < 0")
    case True
    then have "word_of_int \<bar>sint n\<bar> = - word_of_int (sint n)"
      by (simp only: abs_of_neg of_int_minus)
    with True n show ?thesis by simp
  qed simp
qed

lemma sint_u64_bounds: "- (2 ^ 63) \<le> sint (n :: u64)" "sint (n :: u64) < 2 ^ 63"
  using sint_greater_eq [of n] sint_less [of n] by simp_all

lemma unat_word_of_int_small:
  "0 \<le> k \<Longrightarrow> k < 2 ^ 64 \<Longrightarrow> unat (word_of_int k :: u64) = nat k"
  by (simp add: unat_eq_nat_uint uint_word_of_int)

lemma sint_word_of_int_small:
  "- (2 ^ 63) \<le> k \<Longrightarrow> k < 2 ^ 63 \<Longrightarrow> sint (word_of_int k :: u64) = k"
  by (simp add: signed_of_int signed_take_bit_int_eq_self)

lemma u64_eq_word_of_int: "unat (x :: u64) = nat k \<Longrightarrow> 0 \<le> k \<Longrightarrow> x = word_of_int k"
  by (metis int_nat_eq of_int_of_nat_eq word_of_int_uint uint_nat)

lemma udivdi3_abs:
  fixes n d :: u64
  assumes "d \<noteq> 0"
  shows "udivdi3 (if sint n < 0 then - n else n) (if sint d < 0 then - d else d) =
      word_of_int (\<bar>sint n\<bar> div \<bar>sint d\<bar>)"
    and "umoddi3 (if sint n < 0 then - n else n) (if sint d < 0 then - d else d) =
      word_of_int (\<bar>sint n\<bar> mod \<bar>sint d\<bar>)"
proof -
  have n: "unat (word_of_int \<bar>sint n\<bar> :: u64) = nat \<bar>sint n\<bar>"
    using sint_u64_bounds [of n] by (intro unat_word_of_int_small) simp_all
  have d: "unat (word_of_int \<bar>sint d\<bar> :: u64) = nat \<bar>sint d\<bar>"
    using sint_u64_bounds [of d] by (intro unat_word_of_int_small) simp_all
  have "sint d \<noteq> 0" using assms by (simp add: signed_eq_0_iff)
  then have nz: "(word_of_int \<bar>sint d\<bar> :: u64) \<noteq> 0" using d by (metis nat_0_iff abs_le_zero_iff unat_0)
  show "udivdi3 (if sint n < 0 then - n else n) (if sint d < 0 then - d else d) =
      word_of_int (\<bar>sint n\<bar> div \<bar>sint d\<bar>)"
    unfolding u64_word_of_int_abs
    by (rule u64_eq_word_of_int)
       (simp_all add: unat_udivdi3 [OF nz] n d nat_div_distrib div_int_pos_iff)
  show "umoddi3 (if sint n < 0 then - n else n) (if sint d < 0 then - d else d) =
      word_of_int (\<bar>sint n\<bar> mod \<bar>sint d\<bar>)"
    unfolding u64_word_of_int_abs
    by (rule u64_eq_word_of_int)
       (use \<open>sint d \<noteq> 0\<close> in \<open>simp_all add: unat_umoddi3 [OF nz] n d nat_mod_distrib\<close>)
qed

lemma sdiv_range:
  fixes n d :: int
  assumes "- (2 ^ 63) \<le> n" and "n < 2 ^ 63" and "d \<noteq> 0"
  shows "- (2 ^ 63) \<le> n sdiv d \<and> (n sdiv d < 2 ^ 63 \<or> n = - (2 ^ 63) \<and> d = - 1)"
proof (cases "\<bar>d\<bar> = 1")
  case True
  then have "d = 1 \<or> d = - 1" by linarith
  then show ?thesis using assms by auto
next
  case False
  then have "2 \<le> \<bar>d\<bar>" using assms(3) by linarith
  then have "\<bar>n\<bar> div \<bar>d\<bar> \<le> \<bar>n\<bar> div 2" by (intro zdiv_mono2) simp_all
  moreover have "0 \<le> \<bar>n\<bar> div \<bar>d\<bar>" by (simp add: div_int_pos_iff)
  moreover have "\<bar>n\<bar> div 2 < 2 ^ 63" using assms(1,2) by simp
  ultimately have "\<bar>n sdiv d\<bar> < 2 ^ 63" by (auto simp: signed_divide_int_def abs_mult sgn_if)
  then show ?thesis by linarith
qed

lemma smod_range:
  fixes n d :: int
  assumes "- (2 ^ 63) \<le> d" and "d < 2 ^ 63" and "d \<noteq> 0"
  shows "- (2 ^ 63) \<le> n smod d \<and> n smod d < 2 ^ 63"
proof -
  have "0 \<le> \<bar>n\<bar> mod \<bar>d\<bar>" "\<bar>n\<bar> mod \<bar>d\<bar> < \<bar>d\<bar>" using assms(3) by simp_all
  moreover have "\<bar>d\<bar> \<le> 2 ^ 63" using assms(1,2) by simp
  ultimately have "\<bar>n smod d\<bar> < 2 ^ 63" by (auto simp: signed_modulo_int_def sgn_if)
  then show ?thesis by linarith
qed

section \<open>Properties\<close>

text \<open>
  C40: The unsigned division routines compute quotient and remainder of 64-bit integers for
  every argument: the long-division loop never loses a bit, the power-of-two shortcuts agree
  with it, and a zero divisor gives 0 as the code says.
\<close>

theorem udivdi3_umoddi3_correct:
  "udivdi3 n d = (if d = 0 then 0 else n div d) \<and> umoddi3 n d = (if d = 0 then 0 else n mod d)"
proof (cases "d = 0")
  case True
  then show ?thesis by (simp add: udivdi3_def umoddi3_def)
next
  case False
  then show ?thesis
    by (simp add: word_unat_eq_iff unat_udivdi3 unat_umoddi3 unat_div unat_mod)
qed

text \<open>
  The signed routines truncate towards zero, as C99 requires, for every dividend and
  nonzero divisor but the one quotient that 64 bits cannot hold.
\<close>

theorem divdi3_moddi3_truncate:
  assumes "d \<noteq> 0" and "\<not> (sint n = - (2 ^ 63) \<and> sint d = - 1)"
  shows "sint (divdi3 n d) = sint n sdiv sint d \<and> sint (moddi3 n d) = sint n smod sint d"
proof -
  have d: "sint d \<noteq> 0" using assms(1) by (simp add: signed_eq_0_iff)
  have div: "divdi3 n d = word_of_int (sint n sdiv sint d)"
    unfolding divdi3_def Let_def udivdi3_abs [OF assms(1)]
    by (auto simp: signed_divide_int_def sgn_if)
  have mod: "moddi3 n d = word_of_int (sint n smod sint d)"
    unfolding moddi3_def Let_def udivdi3_abs [OF assms(1)]
    by (auto simp: signed_modulo_int_def sgn_if)
  have "sint (word_of_int (sint n sdiv sint d) :: u64) = sint n sdiv sint d"
    using sdiv_range [OF sint_u64_bounds [of n] d] assms(2)
    by (intro sint_word_of_int_small) auto
  moreover have "sint (word_of_int (sint n smod sint d) :: u64) = sint n smod sint d"
    using smod_range [OF sint_u64_bounds [of d] d, of "sint n"] by (intro sint_word_of_int_small) auto
  ultimately show ?thesis by (simp only: div mod)
qed

theorem divdi3_moddi3_truncate_witness:
  "(2 :: u64) \<noteq> 0 \<and> \<not> (sint (- 7 :: u64) = - (2 ^ 63) \<and> sint (2 :: u64) = - 1) \<and>
   sint (divdi3 (- 7) 2) = - 3 \<and> sint (moddi3 (- 7) 2) = - 1"
proof -
  have nz: "(2 :: u64) \<noteq> 0" by simp
  have nm: "\<not> (sint (- 7 :: u64) = - (2 ^ 63) \<and> sint (2 :: u64) = - 1)" by simp
  show ?thesis
    using divdi3_moddi3_truncate [OF nz nm] nz nm
    by (simp add: signed_divide_int_def signed_modulo_int_def)
qed

end
