(* ===== verification/Sha256.thy ===== *)
theory Sha256
  imports Zen_Prelude
begin

text \<open>
  SHA-256 (\<^verbatim>\<open>kernel/lib/sha256.c\<close>). The model keeps the context of the code: the eight state
  words, the bit counter, the fill level and the 64-byte block buffer, whose initial content is
  whatever the stack held. The reference is FIPS 180-4, written independently: the message
  schedule as a recursion, rotations as \<open>word_rotr\<close>, big-endian words as \<open>word_rcat\<close>, and the
  digest of a padded message as a fold over its 64-byte blocks.
\<close>

section \<open>The implementation\<close>

definition ROTRIGHT :: "u32 \<Rightarrow> nat \<Rightarrow> u32" where
  "ROTRIGHT a b = drop_bit b a OR push_bit (32 - b) a"

definition CH :: "u32 \<Rightarrow> u32 \<Rightarrow> u32 \<Rightarrow> u32" where
  "CH x y z = (x AND y) XOR (NOT x AND z)"

definition MAJ :: "u32 \<Rightarrow> u32 \<Rightarrow> u32 \<Rightarrow> u32" where
  "MAJ x y z = (x AND y) XOR (x AND z) XOR (y AND z)"

definition EP0 :: "u32 \<Rightarrow> u32" where
  "EP0 x = ROTRIGHT x 2 XOR ROTRIGHT x 13 XOR ROTRIGHT x 22"

definition EP1 :: "u32 \<Rightarrow> u32" where
  "EP1 x = ROTRIGHT x 6 XOR ROTRIGHT x 11 XOR ROTRIGHT x 25"

definition SIG0 :: "u32 \<Rightarrow> u32" where
  "SIG0 x = ROTRIGHT x 7 XOR ROTRIGHT x 18 XOR drop_bit 3 x"

definition SIG1 :: "u32 \<Rightarrow> u32" where
  "SIG1 x = ROTRIGHT x 17 XOR ROTRIGHT x 19 XOR drop_bit 10 x"

definition k256 :: "u32 list" where
  "k256 =
     [0x428a2f98, 0x71374491, 0xb5c0fbcf, 0xe9b5dba5] @
     [0x3956c25b, 0x59f111f1, 0x923f82a4, 0xab1c5ed5] @
     [0xd807aa98, 0x12835b01, 0x243185be, 0x550c7dc3] @
     [0x72be5d74, 0x80deb1fe, 0x9bdc06a7, 0xc19bf174] @
     [0xe49b69c1, 0xefbe4786, 0x0fc19dc6, 0x240ca1cc] @
     [0x2de92c6f, 0x4a7484aa, 0x5cb0a9dc, 0x76f988da] @
     [0x983e5152, 0xa831c66d, 0xb00327c8, 0xbf597fc7] @
     [0xc6e00bf3, 0xd5a79147, 0x06ca6351, 0x14292967] @
     [0x27b70a85, 0x2e1b2138, 0x4d2c6dfc, 0x53380d13] @
     [0x650a7354, 0x766a0abb, 0x81c2c92e, 0x92722c85] @
     [0xa2bfe8a1, 0xa81a664b, 0xc24b8b70, 0xc76c51a3] @
     [0xd192e819, 0xd6990624, 0xf40e3585, 0x106aa070] @
     [0x19a4c116, 0x1e376c08, 0x2748774c, 0x34b0bcb5] @
     [0x391c0cb3, 0x4ed8aa4a, 0x5b9cca4f, 0x682e6ff3] @
     [0x748f82ee, 0x78a5636f, 0x84c87814, 0x8cc70208] @
     [0x90befffa, 0xa4506ceb, 0xbef9a3f7, 0xc67178f2]"

record sha256_ctx =
  sha_state :: "u32 list"
  bitlen :: u64
  datalen :: u32
  sha_data :: "u8 carray"

text \<open>The message schedule \<open>m[0..63]\<close>, filled by the two loops of \<^verbatim>\<open>sha256_transform\<close>.\<close>

definition load_word :: "u8 carray \<Rightarrow> nat \<Rightarrow> u32" where
  "load_word data j = push_bit 24 (ucast (data j)) OR push_bit 16 (ucast (data (j + 1))) OR
     push_bit 8 (ucast (data (j + 2))) OR ucast (data (j + 3))"

definition sha256_schedule :: "u8 carray \<Rightarrow> u32 list" where
  "sha256_schedule data =
     (let m = fold (\<lambda>i m. m[i := load_word data (4 * i)]) [0..<16] (replicate 64 0)
      in fold (\<lambda>i m. m[i := SIG1 (m ! (i - 2)) + m ! (i - 7) + SIG0 (m ! (i - 15)) + m ! (i - 16)])
           [16..<64] m)"

type_synonym sha_vars = "u32 \<times> u32 \<times> u32 \<times> u32 \<times> u32 \<times> u32 \<times> u32 \<times> u32"

fun sha256_round :: "u32 list \<Rightarrow> nat \<Rightarrow> sha_vars \<Rightarrow> sha_vars" where
  "sha256_round m i (a, b, c, d, e, f, g, h) =
     (let t1 = h + EP1 e + CH e f g + k256 ! i + m ! i;
          t2 = EP0 a + MAJ a b c
      in (t1 + t2, a, b, c, d + t1, e, f, g))"

definition sha256_transform :: "sha256_ctx \<Rightarrow> sha256_ctx" where
  "sha256_transform ctx =
     (let m = sha256_schedule (sha_data ctx);
          s = sha_state ctx;
          (a, b, c, d, e, f, g, h) =
            fold (sha256_round m) [0..<64]
              (s ! 0, s ! 1, s ! 2, s ! 3, s ! 4, s ! 5, s ! 6, s ! 7)
      in ctx\<lparr>sha_state := [s ! 0 + a, s ! 1 + b, s ! 2 + c, s ! 3 + d,
                           s ! 4 + e, s ! 5 + f, s ! 6 + g, s ! 7 + h]\<rparr>)"

definition sha256_init :: "sha256_ctx \<Rightarrow> sha256_ctx" where
  "sha256_init ctx = ctx\<lparr>datalen := 0, bitlen := 0,
     sha_state := [0x6a09e667, 0xbb67ae85, 0x3c6ef372, 0xa54ff53a,
                   0x510e527f, 0x9b05688c, 0x1f83d9ab, 0x5be0cd19]\<rparr>"

definition sha256_update_byte :: "u8 \<Rightarrow> sha256_ctx \<Rightarrow> sha256_ctx" where
  "sha256_update_byte b ctx =
     (let ctx = ctx\<lparr>sha_data := (sha_data ctx)(unat (datalen ctx) := b), datalen := datalen ctx + 1\<rparr>
      in if datalen ctx = 64
         then let ctx = sha256_transform ctx in ctx\<lparr>bitlen := bitlen ctx + 512, datalen := 0\<rparr>
         else ctx)"

definition sha256_update :: "u8 list \<Rightarrow> sha256_ctx \<Rightarrow> sha256_ctx" where
  "sha256_update data ctx = fold sha256_update_byte data ctx"

text \<open>\<^verbatim>\<open>while (i < n) data[i++] = 0;\<close>\<close>

definition zero_fill :: "u32 \<Rightarrow> u32 \<Rightarrow> u8 carray \<Rightarrow> u8 carray" where
  "zero_fill i n d = wfor i n (\<lambda>j d. d(unat j := 0)) d"

definition sha256_final_ctx :: "sha256_ctx \<Rightarrow> sha256_ctx" where
  "sha256_final_ctx ctx =
     (let i = datalen ctx;
          d = (sha_data ctx)(unat i := 0x80);
          ctx = (if datalen ctx < 56 then ctx\<lparr>sha_data := zero_fill (i + 1) 56 d\<rparr>
                 else let ctx = sha256_transform (ctx\<lparr>sha_data := zero_fill (i + 1) 64 d\<rparr>)
                      in ctx\<lparr>sha_data := zero_fill 0 56 (sha_data ctx)\<rparr>);
          bl = bitlen ctx + ucast (datalen ctx * 8);
          ctx = ctx\<lparr>bitlen := bl,
             sha_data := (sha_data ctx)(63 := ucast bl, 62 := ucast (drop_bit 8 bl),
               61 := ucast (drop_bit 16 bl), 60 := ucast (drop_bit 24 bl),
               59 := ucast (drop_bit 32 bl), 58 := ucast (drop_bit 40 bl),
               57 := ucast (drop_bit 48 bl), 56 := ucast (drop_bit 56 bl))\<rparr>
      in sha256_transform ctx)"

definition sha256_final :: "sha256_ctx \<Rightarrow> u8 list" where
  "sha256_final ctx =
     (let s = sha_state (sha256_final_ctx ctx)
      in fold (\<lambda>i hash. fold (\<lambda>w hash. hash[i + 4 * w := ucast (drop_bit (24 - i * 8) (s ! w))])
                         [0..<8] hash)
           [0..<4] (replicate 32 0))"

definition sha256_hash :: "sha256_ctx \<Rightarrow> u8 list \<Rightarrow> u8 list" where
  "sha256_hash stack data = sha256_final (sha256_update data (sha256_init stack))"

section \<open>FIPS 180-4\<close>

definition fips_bsig0 :: "u32 \<Rightarrow> u32" where
  "fips_bsig0 x = word_rotr 2 x XOR word_rotr 13 x XOR word_rotr 22 x"
definition fips_bsig1 :: "u32 \<Rightarrow> u32" where
  "fips_bsig1 x = word_rotr 6 x XOR word_rotr 11 x XOR word_rotr 25 x"
definition fips_ssig0 :: "u32 \<Rightarrow> u32" where
  "fips_ssig0 x = word_rotr 7 x XOR word_rotr 18 x XOR drop_bit 3 x"
definition fips_ssig1 :: "u32 \<Rightarrow> u32" where
  "fips_ssig1 x = word_rotr 17 x XOR word_rotr 19 x XOR drop_bit 10 x"

function fips_W :: "u8 list \<Rightarrow> nat \<Rightarrow> u32" where
  "fips_W blk t =
     (if t < 16 then word_rcat [blk ! (4 * t), blk ! (4 * t + 1), blk ! (4 * t + 2), blk ! (4 * t + 3)]
      else fips_ssig1 (fips_W blk (t - 2)) + fips_W blk (t - 7) +
           fips_ssig0 (fips_W blk (t - 15)) + fips_W blk (t - 16))"
  by pat_completeness auto
termination by (relation "measure snd") auto

declare fips_W.simps [simp del]

fun fips_round :: "u8 list \<Rightarrow> nat \<Rightarrow> sha_vars \<Rightarrow> sha_vars" where
  "fips_round blk t (a, b, c, d, e, f, g, h) =
     (let T1 = h + fips_bsig1 e + ((e AND f) XOR (NOT e AND g)) + k256 ! t + fips_W blk t;
          T2 = fips_bsig0 a + ((a AND b) XOR (a AND c) XOR (b AND c))
      in (T1 + T2, a, b, c, d + T1, e, f, g))"

fun vars_list :: "sha_vars \<Rightarrow> u32 list" where
  "vars_list (a, b, c, d, e, f, g, h) = [a, b, c, d, e, f, g, h]"

definition fips_compress :: "u8 list \<Rightarrow> u32 list \<Rightarrow> u32 list" where
  "fips_compress blk H =
     map2 (+) H (vars_list (fold (fips_round blk) [0..<64]
       (H ! 0, H ! 1, H ! 2, H ! 3, H ! 4, H ! 5, H ! 6, H ! 7)))"

function blocks :: "u8 list \<Rightarrow> u8 list list" where
  "blocks xs = (if length xs < 64 then [] else take 64 xs # blocks (drop 64 xs))"
  by pat_completeness auto
termination by (relation "measure length") auto

declare blocks.simps [simp del]

definition be64 :: "u64 \<Rightarrow> u8 list" where
  "be64 w = map (\<lambda>i. ucast (drop_bit (56 - 8 * i) w)) [0..<8]"

definition be32 :: "u32 \<Rightarrow> u8 list" where
  "be32 w = map (\<lambda>i. ucast (drop_bit (24 - 8 * i) w)) [0..<4]"

text \<open>One bit 1, the least number of bits 0 that fills up to 56 modulo 64 bytes, the length.\<close>

definition fips_pad :: "u8 list \<Rightarrow> u8 list" where
  "fips_pad msg =
     msg @ [0x80] @ replicate ((119 - length msg mod 64) mod 64) 0 @ be64 (of_nat (8 * length msg))"

definition fips_H0 :: "u32 list" where
  "fips_H0 = [0x6a09e667, 0xbb67ae85, 0x3c6ef372, 0xa54ff53a,
              0x510e527f, 0x9b05688c, 0x1f83d9ab, 0x5be0cd19]"

definition fips_sha256 :: "u8 list \<Rightarrow> u8 list" where
  "fips_sha256 msg = concat (map be32 (fold fips_compress (blocks (fips_pad msg)) fips_H0))"

section \<open>Rotations, words and the message schedule\<close>

lemma ROTRIGHT_rotr: "b < 32 \<Longrightarrow> ROTRIGHT a b = word_rotr b a"
proof (rule bit_word_eqI)
  fix n assume "b < 32" "n < LENGTH(32)"
  then have n: "n < 32" and "(n + b) mod 32 = (if n + b < 32 then n + b else n + b - 32)"
    by (simp_all add: mod_if)
  with \<open>b < 32\<close> show "bit (ROTRIGHT a b) n = bit (word_rotr b a) n"
    by (auto simp: ROTRIGHT_def bit_word_rotr_iff bit_or_iff bit_drop_bit_eq bit_push_bit_iff
        add.commute dest: bit_imp_le_length)
qed

lemma fips_sigmas:
  "EP0 x = fips_bsig0 x" "EP1 x = fips_bsig1 x" "SIG0 x = fips_ssig0 x" "SIG1 x = fips_ssig1 x"
  by (simp_all add: EP0_def EP1_def SIG0_def SIG1_def fips_bsig0_def fips_bsig1_def
      fips_ssig0_def fips_ssig1_def ROTRIGHT_rotr)

lemma byte_plus_shift: "(ucast (x :: u8) :: u32) + 256 * v = ucast x OR push_bit 8 v"
proof -
  have "(ucast x :: u32) + push_bit 8 v = ucast x OR push_bit 8 v"
    by (rule disjunctive_add) (auto simp: bit_ucast_iff bit_push_bit_iff dest: bit_imp_le_length)
  then show ?thesis by (simp add: push_bit_eq_mult mult.commute)
qed

lemma load_word_rcat:
  "load_word data j = word_rcat [data j, data (j + 1), data (j + 2), data (j + 3)]"
proof -
  have "(word_rcat [data j, data (j + 1), data (j + 2), data (j + 3)] :: u32) =
      ucast (data (j + 3)) + 256 * (ucast (data (j + 2)) + 256 *
        (ucast (data (j + 1)) + 256 * (ucast (data j) + 256 * 0)))"
    by (simp add: word_rcat_def algebra_simps)
  then show ?thesis
    unfolding byte_plus_shift load_word_def
    by (simp add: push_bit_or ac_simps)
qed

lemma sha_vars_cases:
  obtains a b c d e f g h where "(v :: sha_vars) = (a, b, c, d, e, f, g, h)"
  by (metis surj_pair)

lemma schedule_first:
  "n \<le> 16 \<Longrightarrow> fold (\<lambda>i m. m[i := load_word d (4 * i)]) [0..<n] (replicate 64 0) =
     map (\<lambda>i. if i < n then load_word d (4 * i) else 0) [0..<64]"
proof (induction n)
  case 0
  then show ?case by (intro nth_equalityI) simp_all
next
  case (Suc n)
  then show ?case by (intro nth_equalityI) (auto simp: nth_list_update)
qed

lemma schedule_rest:
  assumes "length m = 64" and "\<And>i. i < 16 \<Longrightarrow> m ! i = fips_W blk i" and "n \<le> 64" and "16 \<le> n"
  shows "length (fold (\<lambda>i m. m[i := SIG1 (m ! (i - 2)) + m ! (i - 7) + SIG0 (m ! (i - 15)) +
      m ! (i - 16)]) [16..<n] m) = 64 \<and>
    (\<forall>j < n. fold (\<lambda>i m. m[i := SIG1 (m ! (i - 2)) + m ! (i - 7) + SIG0 (m ! (i - 15)) +
      m ! (i - 16)]) [16..<n] m ! j = fips_W blk j)"
  using assms(4,3)
proof (induction n rule: dec_induct)
  case base
  then show ?case using assms by simp
next
  case (step n)
  then show ?case
    by (auto simp: nth_list_update less_Suc_eq fips_W.simps [of blk n] fips_sigmas)
qed

lemma sha256_schedule_W:
  assumes "i < 64"
  shows "sha256_schedule d ! i = fips_W (aslice d 64) i"
proof -
  have "load_word d (4 * i) = fips_W (aslice d 64) i" if "i < 16" for i
    using that by (simp add: load_word_rcat fips_W.simps [of _ i])
  then show ?thesis
    using schedule_rest [of _ "aslice d 64" 64] assms
    by (simp add: sha256_schedule_def schedule_first del: upt_rec_numeral)
qed

lemma sha256_rounds:
  "n \<le> 64 \<Longrightarrow> fold (sha256_round (sha256_schedule d)) [0..<n] v = fold (fips_round (aslice d 64)) [0..<n] v"
proof (induction n)
  case (Suc n)
  obtain a b c e f g h i where "fold (fips_round (aslice d 64)) [0..<n] v = (a, b, c, e, f, g, h, i)"
    by (rule sha_vars_cases)
  with Suc show ?case
    by (simp add: sha256_schedule_W fips_sigmas CH_def MAJ_def)
qed simp

lemma sha256_transform_fips:
  assumes "length (sha_state ctx) = 8"
  shows "sha256_transform ctx = ctx\<lparr>sha_state := fips_compress (aslice (sha_data ctx) 64) (sha_state ctx)\<rparr>"
proof -
  from assms obtain a b c d e f g h where s: "sha_state ctx = [a, b, c, d, e, f, g, h]"
    by (auto simp: numeral_eq_Suc length_Suc_conv)
  obtain a' b' c' d' e' f' g' h' where
    v: "fold (fips_round (aslice (sha_data ctx) 64)) [0..<64] (a, b, c, d, e, f, g, h) =
      (a', b', c', d', e', f', g', h')"
    by (rule sha_vars_cases)
  show ?thesis
    by (simp add: sha256_transform_def Let_def sha256_rounds fips_compress_def s v del: upt_rec_numeral)
qed

lemma length_fips_compress [simp]: "length H = 8 \<Longrightarrow> length (fips_compress blk H) = 8"
  by (rule sha_vars_cases [of "fold (fips_round blk) [0..<64]
        (H ! 0, H ! 1, H ! 2, H ! 3, H ! 4, H ! 5, H ! 6, H ! 7)"])
     (simp add: fips_compress_def del: upt_rec_numeral)

section \<open>Streaming\<close>

lemma blocks_short: "length xs < 64 \<Longrightarrow> blocks xs = []"
  by (simp add: blocks.simps)

lemma blocks_append: "64 dvd length xs \<Longrightarrow> blocks (xs @ ys) = blocks xs @ blocks ys"
proof (induction xs rule: blocks.induct)
  case (1 xs)
  show ?case
  proof (cases "length xs < 64")
    case True
    with "1.prems" have "xs = []" by (auto dest: dvd_imp_le)
    then show ?thesis by (simp add: blocks_short)
  next
    case False
    then have "blocks (drop 64 xs @ ys) = blocks (drop 64 xs) @ blocks ys"
      using 1 by (simp add: dvd_diff_nat)
    with False show ?thesis by (simp add: blocks.simps [of "xs @ ys"] blocks.simps [of xs])
  qed
qed

lemma blocks_one: "length b = 64 \<Longrightarrow> blocks b = [b]"
  by (simp add: blocks.simps [of b] blocks_short)

lemmas blocks_simps = blocks_short blocks_append blocks_one

text \<open>What the context holds after the bytes \<open>p @ t\<close>: whole blocks \<open>p\<close> and a tail \<open>t\<close>.\<close>

definition absorbed :: "u8 list \<Rightarrow> u8 list \<Rightarrow> sha256_ctx \<Rightarrow> bool" where
  "absorbed p t ctx \<longleftrightarrow> 64 dvd length p \<and> length t < 64 \<and>
     sha_state ctx = fold fips_compress (blocks p) fips_H0 \<and>
     bitlen ctx = of_nat (8 * length p) \<and> datalen ctx = of_nat (length t) \<and>
     aslice (sha_data ctx) (length t) = t"

lemma length_state_fold [simp]: "length H = 8 \<Longrightarrow> length (fold fips_compress bs H) = 8"
  by (induction bs arbitrary: H) simp_all

lemma length_fips_H0 [simp]: "length fips_H0 = 8"
  by (simp add: fips_H0_def)

lemma absorbed_init: "absorbed [] [] (sha256_init ctx)"
  by (simp add: absorbed_def sha256_init_def blocks_simps fips_H0_def)

lemma of_nat_64: "n < 64 \<Longrightarrow> unat (of_nat n :: u32) = n"
  by (simp add: unat_of_nat_u32)

lemma absorbed_byte_fill:
  assumes "absorbed p t ctx" and "length t < 63"
  shows "absorbed p (t @ [b]) (sha256_update_byte b ctx)"
proof -
  have len: "unat (of_nat (length t) :: u32) = length t" using assms(2) by (intro of_nat_64) simp
  have "(of_nat (Suc (length t)) :: u32) \<noteq> 64"
  proof
    assume "(of_nat (Suc (length t)) :: u32) = 64"
    then have "unat (of_nat (Suc (length t)) :: u32) = 64" by simp
    moreover have "unat (of_nat (Suc (length t)) :: u32) = Suc (length t)"
      using assms(2) by (intro of_nat_64) simp
    ultimately show False using assms(2) by simp
  qed
  then have "(of_nat (length t) + 1 :: u32) \<noteq> 64" by (simp add: add.commute)
  with assms len show ?thesis
    by (simp add: absorbed_def sha256_update_byte_def Let_def aslice_Suc add.commute)
qed

lemma absorbed_byte_block:
  assumes "absorbed p t ctx" and "length t = 63"
  shows "absorbed (p @ t @ [b]) [] (sha256_update_byte b ctx)"
proof -
  have len: "unat (of_nat (length t) :: u32) = length t" using assms(2) by (intro of_nat_64) simp
  have "aslice ((sha_data ctx)(length t := b)) (Suc (length t)) = t @ [b]"
    using assms(1) by (simp add: absorbed_def aslice_Suc)
  then have blk: "aslice ((sha_data ctx)(length t := b)) 64 = t @ [b]"
    using assms(2) by simp
  let ?ctx = "ctx\<lparr>sha_data := (sha_data ctx)(length t := b), datalen := 64\<rparr>"
  have "sha256_update_byte b ctx =
      ?ctx\<lparr>sha_state := fips_compress (t @ [b]) (sha_state ctx), bitlen := bitlen ctx + 512, datalen := 0\<rparr>"
    using assms len blk
    by (simp add: absorbed_def sha256_update_byte_def Let_def sha256_transform_fips)
  then show ?thesis
    using assms by (simp add: absorbed_def blocks_simps algebra_simps)
qed

lemma absorbed_update:
  "absorbed p t ctx \<Longrightarrow>
   \<exists>p' t'. p' @ t' = p @ t @ data \<and> absorbed p' t' (sha256_update data ctx)"
proof (induction data arbitrary: p t ctx)
  case (Cons b data)
  then have "length t < 64" by (simp add: absorbed_def)
  then consider "length t < 63" | "length t = 63" by linarith
  then show ?case
  proof cases
    case 1
    from Cons.IH [OF absorbed_byte_fill [OF Cons.prems 1]] show ?thesis
      by (simp add: sha256_update_def)
  next
    case 2
    from Cons.IH [OF absorbed_byte_block [OF Cons.prems 2]] show ?thesis
      by (simp add: sha256_update_def)
  qed
qed (auto simp: sha256_update_def)

section \<open>Padding and output\<close>

lemma zero_fill_apply:
  assumes "unat i \<le> unat n"
  shows "zero_fill i n d = (\<lambda>j. if unat i \<le> j \<and> j < unat n then 0 else d j)"
proof -
  have "fold (\<lambda>j d. d(unat j := 0)) (map of_nat [a..<a + l] :: u32 list) d =
      (\<lambda>j. if a \<le> j \<and> j < a + l then 0 else d j)" if "a + l < 2 ^ 32" for a l
    using that
  proof (induction l)
    case (Suc l)
    then have "unat (of_nat (a + l) :: u32) = a + l" by (intro unat_of_nat_u32) simp
    with Suc show ?case by (auto simp: fun_eq_iff)
  qed (auto simp: fun_eq_iff)
  from this [of "unat i" "unat n - unat i"] assms unat_u32_less [of n] show ?thesis
    unfolding zero_fill_def wfor_fold by (simp del: unat_u32_less)
qed

lemma aslice_eqI: "length xs = n \<Longrightarrow> (\<And>i. i < n \<Longrightarrow> a i = xs ! i) \<Longrightarrow> aslice a n = xs"
  by (intro nth_equalityI) simp_all

lemma be64_nth: "i < 8 \<Longrightarrow> be64 w ! i = ucast (drop_bit (56 - 8 * i) w)"
  by (simp add: be64_def)

lemma length_be64 [simp]: "length (be64 w) = 8"
  by (simp add: be64_def)

text \<open>The block that ends with the length field.\<close>

lemma length_block:
  assumes "length xs = 56" and "aslice d 56 = xs"
  shows "aslice (d(63 := ucast bl, 62 := ucast (drop_bit 8 bl),
      61 := ucast (drop_bit 16 bl), 60 := ucast (drop_bit 24 bl),
      59 := ucast (drop_bit 32 bl), 58 := ucast (drop_bit 40 bl),
      57 := ucast (drop_bit 48 bl), 56 := ucast (drop_bit 56 bl))) 64 = xs @ be64 bl"
proof -
  have "[0..<64::nat] = [0..<56] @ [56, 57, 58, 59, 60, 61, 62, 63]" by code_simp
  moreover have "[0..<8::nat] = [0, 1, 2, 3, 4, 5, 6, 7]" by code_simp
  ultimately show ?thesis
    using assms by (simp add: aslice_def be64_def del: upt_rec_numeral)
qed

lemma padded_slice:
  assumes "aslice d (length t) = t" and "length t < n" and "n \<le> 64"
  shows "aslice (zero_fill (of_nat (length t) + 1) (of_nat n) (d(length t := 0x80))) n =
    t @ [0x80] @ replicate (n - 1 - length t) 0"
proof -
  let ?l = "length t"
  have "unat (of_nat (Suc ?l) :: u32) = Suc ?l" using assms by (intro unat_of_nat_u32) simp
  then have l: "unat (of_nat ?l + 1 :: u32) = Suc ?l" by (simp add: add.commute)
  have n: "unat (of_nat n :: u32) = n" using assms by (intro unat_of_nat_u32) simp
  have t: "d i = t ! i" if "i < ?l" for i
    using arg_cong [OF assms(1), of "\<lambda>xs. xs ! i"] that by simp
  show ?thesis
  proof (rule aslice_eqI)
    fix i assume "i < n"
    then show "zero_fill (of_nat ?l + 1) (of_nat n) (d(?l := 0x80)) i =
        (t @ [0x80] @ replicate (n - 1 - ?l) 0) ! i"
      using assms(2) l n t by (auto simp: zero_fill_apply nth_append nth_Cons' nth_replicate)
  qed (use assms in simp)
qed

lemma final_bitlen:
  assumes "absorbed p t ctx"
  shows "bitlen ctx + ucast (datalen ctx * 8) = of_nat (8 * (length p + length t))"
proof -
  have "(of_nat (length t) * 8 :: u32) = of_nat (8 * length t)" by (simp add: mult.commute)
  moreover have "unat (of_nat (8 * length t) :: u32) = 8 * length t"
    using assms by (intro unat_of_nat_u32) (simp add: absorbed_def)
  ultimately have "unat (datalen ctx * 8) = 8 * length t"
    using assms unfolding absorbed_def by (metis (no_types))
  moreover have "(ucast (datalen ctx * 8) :: u64) = of_nat (unat (datalen ctx * 8))" by simp
  ultimately have "(ucast (datalen ctx * 8) :: u64) = of_nat (8 * length t)" by (simp only:)
  with assms show ?thesis by (simp add: absorbed_def)
qed

lemma datalen_less:
  assumes "absorbed p t ctx" and "n \<le> 64"
  shows "datalen ctx < of_nat n \<longleftrightarrow> length t < n"
  using assms by (simp add: absorbed_def word_less_nat_alt unat_of_nat_u32)

lemma final_short:
  assumes "absorbed p t ctx" and "length t < 56"
  shows "sha_state (sha256_final_ctx ctx) = fold fips_compress
    (blocks (p @ t @ [0x80] @ replicate (55 - length t) 0 @
       be64 (of_nat (8 * (length p + length t))))) fips_H0"
proof -
  let ?d = "zero_fill (of_nat (length t) + 1) 56 ((sha_data ctx)(length t := 0x80))"
  let ?b = "t @ [0x80] @ replicate (55 - length t) 0"
  have u: "unat (datalen ctx) = length t" and dl: "datalen ctx = of_nat (length t)"
    and st: "length (sha_state ctx) = 8"
    using assms by (simp_all add: absorbed_def unat_of_nat_u32)
  have b: "aslice ?d 56 = ?b" "length ?b = 56"
    using padded_slice [of "sha_data ctx" t 56] assms by (simp_all add: absorbed_def)
  have "sha_state (sha256_final_ctx ctx) =
      fips_compress (?b @ be64 (of_nat (8 * (length p + length t)))) (sha_state ctx)"
    using st dl datalen_less [OF assms(1), of 56] assms(2) length_block [OF b(2,1)]
    unfolding sha256_final_ctx_def Let_def u final_bitlen [OF assms(1), symmetric]
    by (simp add: sha256_transform_fips)
  moreover have "blocks (p @ ?b @ be64 w) = blocks p @ [?b @ be64 w]" for w
    using assms by (simp add: absorbed_def blocks_simps)
  ultimately show ?thesis using assms(1) by (simp add: absorbed_def)
qed

lemma final_long:
  assumes "absorbed p t ctx" and "\<not> length t < 56"
  shows "sha_state (sha256_final_ctx ctx) = fold fips_compress
    (blocks (p @ t @ [0x80] @ replicate (63 - length t) 0 @ replicate 56 0 @
       be64 (of_nat (8 * (length p + length t))))) fips_H0"
proof -
  let ?d = "zero_fill (of_nat (length t) + 1) 64 ((sha_data ctx)(length t := 0x80))"
  let ?b = "t @ [0x80] @ replicate (63 - length t) 0"
  let ?l = "be64 (of_nat (8 * (length p + length t)))"
  have u: "unat (datalen ctx) = length t" and dl: "datalen ctx = of_nat (length t)"
    and st: "length (sha_state ctx) = 8"
    using assms by (simp_all add: absorbed_def unat_of_nat_u32)
  have t: "length t < 64" using assms(1) by (simp add: absorbed_def)
  then have b: "aslice ?d 64 = ?b" "length ?b = 64"
    using padded_slice [of "sha_data ctx" t 64] assms by (simp_all add: absorbed_def)
  have z: "aslice (zero_fill 0 56 ?d) 56 = replicate 56 0"
    by (rule aslice_eqI) (simp_all add: zero_fill_apply)
  have "sha_state (sha256_final_ctx ctx) =
      fips_compress (replicate 56 0 @ ?l) (fips_compress ?b (sha_state ctx))"
    using st dl datalen_less [OF assms(1), of 56] assms(2) b length_block [OF length_replicate z]
    unfolding sha256_final_ctx_def Let_def u final_bitlen [OF assms(1), symmetric]
    by (simp add: sha256_transform_fips)
  moreover have "blocks (p @ ?b @ replicate 56 0 @ ?l) = blocks p @ blocks ?b @ blocks (replicate 56 0 @ ?l)"
    using blocks_append [of ?b "replicate 56 0 @ ?l"] assms(1) t b(2)
    by (simp add: absorbed_def blocks_append)
  then have "blocks (p @ ?b @ replicate 56 0 @ ?l) = blocks p @ [?b, replicate 56 0 @ ?l]"
    using b(2) by (simp only: blocks_one length_append length_replicate length_be64) simp
  ultimately show ?thesis using assms(1) by (simp add: absorbed_def)
qed

lemma final_output:
  assumes "length (sha_state (sha256_final_ctx ctx)) = 8"
  shows "sha256_final ctx = concat (map be32 (sha_state (sha256_final_ctx ctx)))"
proof -
  have "[0..<8::nat] = [0, 1, 2, 3, 4, 5, 6, 7]" "[0..<4::nat] = [0, 1, 2, 3]"
    "replicate 32 (0 :: u8) = [0,0,0,0,0,0,0,0,0,0,0,0,0,0,0,0,0,0,0,0,0,0,0,0,0,0,0,0,0,0,0,0]"
    by code_simp+
  moreover from assms obtain a b c d e f g h
    where "sha_state (sha256_final_ctx ctx) = [a, b, c, d, e, f, g, h]"
    by (auto simp: numeral_eq_Suc length_Suc_conv)
  ultimately show ?thesis by (simp add: sha256_final_def be32_def Let_def)
qed

lemma pad_length:
  assumes "64 dvd length p" and "length t < 64"
  shows "(119 - length (p @ t) mod 64) mod 64 = (if length t < 56 then 55 - length t else 119 - length t)"
proof -
  have "length (p @ t) mod 64 = length t" using assms by (auto elim!: dvdE)
  then show ?thesis using assms(2) by (auto simp: mod_if)
qed

lemma final_fips:
  assumes "absorbed p t ctx"
  shows "sha_state (sha256_final_ctx ctx) = fold fips_compress (blocks (fips_pad (p @ t))) fips_H0"
proof (cases "length t < 56")
  case True
  then show ?thesis
    using assms pad_length [of p t] final_short [OF assms True]
    by (simp add: absorbed_def fips_pad_def)
next
  case False
  have "length t < 64" using assms by (simp add: absorbed_def)
  then have "replicate (119 - length t) (0 :: u8) = replicate (63 - length t) 0 @ replicate 56 0"
    using False by (simp add: replicate_add [symmetric])
  then show ?thesis
    using assms False pad_length [of p t] final_long [OF assms False]
    by (simp add: absorbed_def fips_pad_def)
qed

section \<open>Properties\<close>

text \<open>Whatever pieces were fed, and whatever the context held, the digest is that of their concatenation.\<close>

lemma sha256_pieces_fips: "sha256_final (fold sha256_update pieces (sha256_init stack)) = fips_sha256 (concat pieces)"
proof -
  have "fold sha256_update pieces ctx = sha256_update (concat pieces) ctx" for ctx
    by (induction pieces arbitrary: ctx) (simp_all add: sha256_update_def)
  moreover obtain p t where "p @ t = concat pieces"
      "absorbed p t (sha256_update (concat pieces) (sha256_init stack))"
    using absorbed_update [OF absorbed_init [of stack], of "concat pieces"] by auto
  ultimately show ?thesis using final_fips by (fastforce simp: fips_sha256_def final_output)
qed

lemma sha256_hash_fips: "sha256_hash stack msg = fips_sha256 msg"
  using sha256_pieces_fips [of "[msg]" stack] by (simp add: sha256_hash_def)

text \<open>
  C1: \<open>sha256_hash\<close> computes SHA-256 as FIPS 180-4 defines it, for every message and whatever
  the uninitialised context held.
\<close>

theorem sha256_hash_correct: "sha256_hash stack msg = fips_sha256 msg"
  by (rule sha256_hash_fips)

text \<open>
  The digest depends only on the concatenation of the pieces that are fed to
  \<open>sha256_update\<close>, however a caller splits the message.
\<close>

theorem sha256_streaming:
  "sha256_final (fold sha256_update pieces (sha256_init stack)) = sha256_hash stack' (concat pieces)"
  by (simp add: sha256_pieces_fips sha256_hash_fips)

definition primes64 :: "int list" where
  "primes64 = [2, 3, 5, 7, 11, 13, 17, 19, 23, 29, 31, 37, 41, 43, 47, 53, 59, 61, 67, 71, 73, 79,
    83, 89, 97, 101, 103, 107, 109, 113, 127, 131, 137, 139, 149, 151, 157, 163, 167, 173, 179,
    181, 191, 193, 197, 199, 211, 223, 227, 229, 233, 239, 241, 251, 257, 263, 269, 271, 277,
    281, 283, 293, 307, 311]"

text \<open>\<open>r\<close> is the 32-bit fraction of the \<open>n\<close>-th root of \<open>p\<close>, for some integer part from 1 to 6.\<close>

definition root_fraction :: "nat \<Rightarrow> int \<Rightarrow> u32 \<Rightarrow> bool" where
  "root_fraction n p r \<longleftrightarrow> list_ex (\<lambda>q. (q * 2 ^ 32 + uint r) ^ n \<le> p * 2 ^ (32 * n) \<and>
     p * 2 ^ (32 * n) < (q * 2 ^ 32 + uint r + 1) ^ n) [1, 2, 3, 4, 5, 6]"

text \<open>
  The round constants and the initial state are the ones of the standard: the first 32 bits
  of the fractional parts of the cube roots of the first 64 primes, and of the square roots of
  the first eight.
\<close>

theorem sha256_constants:
  "list_all2 (root_fraction 3) primes64 k256 \<and>
   list_all2 (root_fraction 2) (take 8 primes64) (sha_state (sha256_init ctx))"
proof -
  have "list_all2 (root_fraction 3) primes64 k256" by code_simp
  moreover have "list_all2 (root_fraction 2) (take 8 primes64) fips_H0" by code_simp
  moreover have "sha_state (sha256_init ctx) = fips_H0" by (simp add: sha256_init_def fips_H0_def)
  ultimately show ?thesis by simp
qed

end
