(* ===== verification/Flightrec.thy ===== *)
theory Flightrec
  imports Zen_Prelude
begin

text \<open>
  The time source (\<^verbatim>\<open>kernel/time/time.c\<close>) and the flight recorder
  (\<^verbatim>\<open>kernel/trace/flightrec.c\<close>). The time-stamp counter is hardware: \<open>tsc\<close> is the stream of
  values that successive \<^verbatim>\<open>rdtsc\<close> instructions return and \<open>tsc_reads\<close> counts how many have
  been read, so every theorem holds for every counter. The recorder's state extends the
  clock's, and the states of the components that log extend the recorder's, so that one
  \<open>flightrec_log\<close> serves them all. The abstract view is \<open>trace_log\<close>: the last 256 events in
  chronological order.
\<close>

section \<open>The clock\<close>

record ktime =
  tsc :: "nat \<Rightarrow> u64"
  tsc_reads :: nat
  cpu_mhz :: u32
  cycles_per_usec :: u32
  boot_tsc :: u64

definition rdtsc :: "'a ktime_scheme \<Rightarrow> u64 \<times> 'a ktime_scheme" where
  "rdtsc s = (tsc s (tsc_reads s), s\<lparr>tsc_reads := Suc (tsc_reads s)\<rparr>)"

definition time_init :: "'a ktime_scheme \<Rightarrow> 'a ktime_scheme" where
  "time_init s =
     (let (t, s) = rdtsc s in s\<lparr>boot_tsc := t, cycles_per_usec := 1000, cpu_mhz := 1000\<rparr>)"

definition time_cycles :: "'a ktime_scheme \<Rightarrow> u64 \<times> 'a ktime_scheme" where
  "time_cycles s = rdtsc s"

definition time_usec :: "'a ktime_scheme \<Rightarrow> u64 \<times> 'a ktime_scheme" where
  "time_usec s =
     (if cycles_per_usec s = 0 then (0, s)
      else let (t, s) = rdtsc s in ((t - boot_tsc s) div ucast (cycles_per_usec s), s))"

definition cycles_to_usec :: "'a ktime_scheme \<Rightarrow> u64 \<Rightarrow> u64" where
  "cycles_to_usec s cycles =
     (if cycles_per_usec s = 0 then 0 else cycles div ucast (cycles_per_usec s))"

definition usec_to_cycles :: "'a ktime_scheme \<Rightarrow> u64 \<Rightarrow> u64" where
  "usec_to_cycles s usec = usec * ucast (cycles_per_usec s)"

definition time_get_cpu_mhz :: "'a ktime_scheme \<Rightarrow> u32" where
  "time_get_cpu_mhz s = cpu_mhz s"

section \<open>Events, spans and the recorder's state\<close>

datatype trace_event_type =
    TRACE_EVT_SCHED_TICK | TRACE_EVT_JOB_SUBMIT | TRACE_EVT_JOB_COMPLETE
  | TRACE_EVT_STEP_START | TRACE_EVT_STEP_END | TRACE_EVT_STEP_PREEMPT
  | TRACE_EVT_JOB_ADMIT | TRACE_EVT_JOB_REJECT
  | TRACE_EVT_CONTRACT_APPLY | TRACE_EVT_CONTRACT_BUDGET_WARN
  | TRACE_EVT_CONTRACT_BUDGET_EXCEED | TRACE_EVT_CONTRACT_VIOLATION
  | TRACE_EVT_CONTRACT_STATE_CHANGE | TRACE_EVT_CONTRACT_SAFE_MODE
  | TRACE_EVT_MEM_ALLOC | TRACE_EVT_MEM_FREE | TRACE_EVT_MEM_ALLOC_FAIL
  | TRACE_EVT_MEM_LOCALITY_MISS | TRACE_EVT_MEM_CONTRACT_EXCEED | TRACE_EVT_MEM_NODE_UNSUPPORTED
  | TRACE_EVT_IO_SUBMIT | TRACE_EVT_IO_COMPLETE | TRACE_EVT_IO_STALL
  | TRACE_EVT_ACCEL_SUBMIT | TRACE_EVT_ACCEL_COMPLETE | TRACE_EVT_ACCEL_THROTTLE
  | TRACE_EVT_THERMAL_WARN | TRACE_EVT_POWER_CAP
  | TRACE_EVT_BOOT | TRACE_EVT_HALT | TRACE_EVT_PANIC

text \<open>The numeric value of the C enumerator, cast to \<^verbatim>\<open>uint8_t\<close> as the log stores it.\<close>

fun evt_code :: "trace_event_type \<Rightarrow> u8" where
  "evt_code TRACE_EVT_SCHED_TICK = 0x00"
| "evt_code TRACE_EVT_JOB_SUBMIT = 0x01"
| "evt_code TRACE_EVT_JOB_COMPLETE = 0x02"
| "evt_code TRACE_EVT_STEP_START = 0x03"
| "evt_code TRACE_EVT_STEP_END = 0x04"
| "evt_code TRACE_EVT_STEP_PREEMPT = 0x05"
| "evt_code TRACE_EVT_JOB_ADMIT = 0x06"
| "evt_code TRACE_EVT_JOB_REJECT = 0x07"
| "evt_code TRACE_EVT_CONTRACT_APPLY = 0x10"
| "evt_code TRACE_EVT_CONTRACT_BUDGET_WARN = 0x11"
| "evt_code TRACE_EVT_CONTRACT_BUDGET_EXCEED = 0x12"
| "evt_code TRACE_EVT_CONTRACT_VIOLATION = 0x13"
| "evt_code TRACE_EVT_CONTRACT_STATE_CHANGE = 0x14"
| "evt_code TRACE_EVT_CONTRACT_SAFE_MODE = 0x15"
| "evt_code TRACE_EVT_MEM_ALLOC = 0x20"
| "evt_code TRACE_EVT_MEM_FREE = 0x21"
| "evt_code TRACE_EVT_MEM_ALLOC_FAIL = 0x22"
| "evt_code TRACE_EVT_MEM_LOCALITY_MISS = 0x23"
| "evt_code TRACE_EVT_MEM_CONTRACT_EXCEED = 0x24"
| "evt_code TRACE_EVT_MEM_NODE_UNSUPPORTED = 0x25"
| "evt_code TRACE_EVT_IO_SUBMIT = 0x30"
| "evt_code TRACE_EVT_IO_COMPLETE = 0x31"
| "evt_code TRACE_EVT_IO_STALL = 0x32"
| "evt_code TRACE_EVT_ACCEL_SUBMIT = 0x40"
| "evt_code TRACE_EVT_ACCEL_COMPLETE = 0x41"
| "evt_code TRACE_EVT_ACCEL_THROTTLE = 0x42"
| "evt_code TRACE_EVT_THERMAL_WARN = 0x50"
| "evt_code TRACE_EVT_POWER_CAP = 0x51"
| "evt_code TRACE_EVT_BOOT = 0xF0"
| "evt_code TRACE_EVT_HALT = 0xF1"
| "evt_code TRACE_EVT_PANIC = 0xFF"

record trace_event =
  te_ts_usec :: u64
  te_ts_cycles :: u64
  te_type :: u8
  te_flags :: u8
  te_cpu_id :: u16
  te_job_id :: u32
  te_step_id :: u32
  te_extra :: u32
  te_tpm_signature :: "u8 list"

record active_span =
  sp_active :: bool
  sp_job_id :: u32
  sp_step_id :: u32
  sp_start_cycles :: u64
  sp_start_type :: u8

record flightrec = ktime +
  fr_buf :: "trace_event carray"
  fr_head :: u32
  fr_initialized :: bool
  fr_spans :: "active_span carray"
  fr_next_span_handle :: u32

record trace_job_stats =
  js_job_id :: u32
  js_steps_completed :: u32
  js_total_cpu_usec :: u64
  js_total_wall_usec :: u64
  js_violations :: u32

definition TRACE_BUF_SIZE :: u32 where [zconst]: "TRACE_BUF_SIZE = 256"
definition TRACE_BUF_MASK :: u32 where [zconst]: "TRACE_BUF_MASK = 255"
definition MAX_ACTIVE_SPANS :: u32 where [zconst]: "MAX_ACTIVE_SPANS = 16"

section \<open>Operations\<close>

definition seal_episode :: "trace_event \<Rightarrow> trace_event" where
  "seal_episode ep = ep\<lparr>te_tpm_signature := replicate 256 0\<rparr>"

definition flightrec_log ::
    "trace_event_type \<Rightarrow> u32 \<Rightarrow> u32 \<Rightarrow> u32 \<Rightarrow> 'a flightrec_scheme \<Rightarrow> 'a flightrec_scheme" where
  "flightrec_log type job_id step_id extra s =
     (if \<not> fr_initialized s then s
      else let i = unat (fr_head s AND TRACE_BUF_MASK);
               (cycles, s) = time_cycles s;
               (usec, s) = time_usec s;
               e = (fr_buf s i)\<lparr>te_ts_cycles := cycles, te_ts_usec := usec, te_type := evt_code type,
                     te_flags := 0, te_cpu_id := 0, te_job_id := job_id, te_step_id := step_id,
                     te_extra := extra\<rparr>
           in s\<lparr>fr_buf := (fr_buf s)(i := seal_episode e), fr_head := fr_head s + 1\<rparr>)"

definition flightrec_init :: "'a flightrec_scheme \<Rightarrow> 'a flightrec_scheme" where
  "flightrec_init s =
     flightrec_log TRACE_EVT_BOOT 0 0 0
       (s\<lparr>fr_head := 0, fr_initialized := True,
          fr_spans := (\<lambda>i. if i < unat MAX_ACTIVE_SPANS then (fr_spans s i)\<lparr>sp_active := False\<rparr>
                           else fr_spans s i),
          fr_next_span_handle := 1\<rparr>)"

definition flightrec_begin_span ::
    "trace_event_type \<Rightarrow> u32 \<Rightarrow> u32 \<Rightarrow> 'a flightrec_scheme \<Rightarrow> u32 \<times> 'a flightrec_scheme" where
  "flightrec_begin_span start_type job_id step_id s =
     (if \<not> fr_initialized s then (0, s)
      else case wfind 0 MAX_ACTIVE_SPANS (\<lambda>i. \<not> sp_active (fr_spans s (unat i))) of
        None \<Rightarrow> (0, flightrec_log TRACE_EVT_CONTRACT_VIOLATION job_id step_id 0xDEAD s)
      | Some slot \<Rightarrow>
          let (cycles, s) = time_cycles s;
              sp = \<lparr>sp_active = True, sp_job_id = job_id, sp_step_id = step_id,
                    sp_start_cycles = cycles, sp_start_type = evt_code start_type\<rparr>;
              s = s\<lparr>fr_spans := (fr_spans s)(unat slot := sp)\<rparr>
          in (slot + 1, flightrec_log start_type job_id step_id 0 s))"

text \<open>\<^verbatim>\<open>int slot = (int)span - 1\<close>: the slot is a signed number.\<close>

definition flightrec_end_span ::
    "u32 \<Rightarrow> trace_event_type \<Rightarrow> 'a flightrec_scheme \<Rightarrow> 'a flightrec_scheme" where
  "flightrec_end_span span end_type s =
     (if \<not> fr_initialized s \<or> span = 0 then s
      else let slot = sint span - 1
        in if slot < 0 \<or> slot \<ge> 16 \<or> \<not> sp_active (fr_spans s (nat slot)) then s
           else let sp = fr_spans s (nat slot);
                    (end_cycles, s) = time_cycles s;
                    duration = cycles_to_usec s (end_cycles - sp_start_cycles sp);
                    s = flightrec_log end_type (sp_job_id sp) (sp_step_id sp) (ucast duration) s
                in s\<lparr>fr_spans := (fr_spans s)(nat slot := (fr_spans s (nat slot))\<lparr>sp_active := False\<rparr>)\<rparr>)"

definition fr_count :: "'a flightrec_scheme \<Rightarrow> u32" where
  "fr_count s = (if fr_head s > TRACE_BUF_SIZE then TRACE_BUF_SIZE else fr_head s)"

definition is_step_end :: "u32 \<Rightarrow> u32 \<Rightarrow> trace_event \<Rightarrow> bool" where
  "is_step_end job_id step_id e \<longleftrightarrow>
     te_type e = evt_code TRACE_EVT_STEP_END \<and> te_job_id e = job_id \<and> te_step_id e = step_id"

definition flightrec_last_duration :: "u32 \<Rightarrow> u32 \<Rightarrow> 'a flightrec_scheme \<Rightarrow> u64" where
  "flightrec_last_duration job_id step_id s =
     (let entry = (\<lambda>i. fr_buf s (unat ((fr_head s - 1 - i) AND TRACE_BUF_MASK)))
      in case wfind 0 (fr_count s) (\<lambda>i. is_step_end job_id step_id (entry i)) of
           None \<Rightarrow> 0
         | Some i \<Rightarrow> ucast (te_extra (entry i)))"

text \<open>One iteration of the scan: the statistics, the earliest and the latest time stamp.\<close>

definition job_stats_step ::
    "u32 \<Rightarrow> trace_event \<Rightarrow> trace_job_stats \<times> u64 \<times> u64 \<Rightarrow> trace_job_stats \<times> u64 \<times> u64" where
  "job_stats_step job_id e acc =
     (case acc of (out, first_ts, last_ts) \<Rightarrow>
      if te_job_id e \<noteq> job_id then acc
      else let first_ts = (if first_ts = 0 \<or> te_ts_usec e < first_ts then te_ts_usec e else first_ts);
               last_ts = (if te_ts_usec e > last_ts then te_ts_usec e else last_ts);
               out = (if te_type e = evt_code TRACE_EVT_STEP_END
                      then out\<lparr>js_steps_completed := js_steps_completed out + 1,
                               js_total_cpu_usec := js_total_cpu_usec out + ucast (te_extra e)\<rparr>
                      else if te_type e = evt_code TRACE_EVT_CONTRACT_VIOLATION \<or>
                              te_type e = evt_code TRACE_EVT_CONTRACT_BUDGET_EXCEED
                      then out\<lparr>js_violations := js_violations out + 1\<rparr> else out)
           in (out, first_ts, last_ts))"

definition flightrec_get_job_stats :: "u32 \<Rightarrow> 'a flightrec_scheme \<Rightarrow> trace_job_stats" where
  "flightrec_get_job_stats job_id s =
     (let out = \<lparr>js_job_id = job_id, js_steps_completed = 0, js_total_cpu_usec = 0,
                 js_total_wall_usec = 0, js_violations = 0\<rparr>;
          idx = (\<lambda>i. if fr_head s > TRACE_BUF_SIZE
                     then (fr_head s - TRACE_BUF_SIZE + i) AND TRACE_BUF_MASK else i);
          (out, first_ts, last_ts) =
            wfor 0 (fr_count s) (\<lambda>i. job_stats_step job_id (fr_buf s (unat (idx i)))) (out, 0, 0)
      in out\<lparr>js_total_wall_usec := last_ts - first_ts\<rparr>)"

definition flightrec_get_buffer :: "'a flightrec_scheme \<Rightarrow> trace_event carray \<times> u32 \<times> u32" where
  "flightrec_get_buffer s = (fr_buf s, fr_head s, fr_count s)"

section \<open>The abstract log\<close>

definition trace_log :: "'a flightrec_scheme \<Rightarrow> trace_event list" where
  "trace_log s = map (\<lambda>i. fr_buf s (i mod 256)) [unat (fr_head s) - 256..<unat (fr_head s)]"

text \<open>The event that \<open>flightrec_log\<close> writes, with the two clock reads it makes.\<close>

definition new_event ::
    "trace_event_type \<Rightarrow> u32 \<Rightarrow> u32 \<Rightarrow> u32 \<Rightarrow> 'a flightrec_scheme \<Rightarrow> trace_event" where
  "new_event type job_id step_id extra s =
     (let (cycles, s1) = time_cycles s; (usec, _) = time_usec s1
      in \<lparr>te_ts_usec = usec, te_ts_cycles = cycles, te_type = evt_code type, te_flags = 0,
          te_cpu_id = 0, te_job_id = job_id, te_step_id = step_id, te_extra = extra,
          te_tpm_signature = replicate 256 0\<rparr>)"

lemma evt_code_inj: "evt_code a = evt_code b \<longleftrightarrow> a = b"
  by (cases a; cases b; simp)

declare evt_code.simps [simp del]
declare evt_code_inj [simp]

lemma and_mask_mod: "unat (x AND TRACE_BUF_MASK) = unat x mod 256"
proof -
  have "x AND TRACE_BUF_MASK = take_bit 8 x"
    by (simp add: TRACE_BUF_MASK_def take_bit_eq_mask mask_eq_exp_minus_1)
  then show ?thesis by (simp add: take_bit_eq_mod unat_mod)
qed

lemma time_cycles_frame [simp]:
  "fr_buf (snd (time_cycles s)) = fr_buf s" "fr_head (snd (time_cycles s)) = fr_head s"
  "fr_initialized (snd (time_cycles s)) = fr_initialized s"
  "fr_spans (snd (time_cycles s)) = fr_spans s"
  "cycles_per_usec (snd (time_cycles s)) = cycles_per_usec s"
  by (simp_all add: time_cycles_def rdtsc_def)

lemma time_usec_frame [simp]:
  "fr_buf (snd (time_usec s)) = fr_buf s" "fr_head (snd (time_usec s)) = fr_head s"
  "fr_initialized (snd (time_usec s)) = fr_initialized s"
  "fr_spans (snd (time_usec s)) = fr_spans s"
  "cycles_per_usec (snd (time_usec s)) = cycles_per_usec s"
  by (simp_all add: time_usec_def rdtsc_def)

lemma flightrec_log_fields [simp]:
  "fr_initialized (flightrec_log t j st x s) = fr_initialized s"
  "fr_spans (flightrec_log t j st x s) = fr_spans s"
  "cycles_per_usec (flightrec_log t j st x s) = cycles_per_usec s"
  "fr_head (flightrec_log t j st x s) = (if fr_initialized s then fr_head s + 1 else fr_head s)"
  by (simp_all add: flightrec_log_def Let_def split_beta)

lemma te_overwrite:
  "e\<lparr>te_ts_cycles := c, te_ts_usec := u, te_type := t, te_flags := f, te_cpu_id := i,
     te_job_id := j, te_step_id := st, te_extra := x, te_tpm_signature := g\<rparr> =
   \<lparr>te_ts_usec = u, te_ts_cycles = c, te_type = t, te_flags = f, te_cpu_id = i, te_job_id = j,
    te_step_id = st, te_extra = x, te_tpm_signature = g\<rparr>"
  by (cases e) simp

lemma fr_buf_log:
  "fr_initialized s \<Longrightarrow>
   fr_buf (flightrec_log t j st x s) = (fr_buf s)(unat (fr_head s) mod 256 := new_event t j st x s)"
  by (simp add: flightrec_log_def new_event_def Let_def split_beta and_mask_mod seal_episode_def
      te_overwrite)

lemma upt_drop_first: "a < b \<Longrightarrow> drop 1 [a..<b] = [Suc a..<b]"
  by (simp add: upt_conv_Cons)

lemma trace_log_append:
  assumes "fr_initialized s" and "unat (fr_head s) < 2 ^ 32 - 1"
  shows "trace_log (flightrec_log t j st x s) =
    (let l = trace_log s @ [new_event t j st x s] in drop (length l - 256) l)"
proof -
  let ?h = "unat (fr_head s)" and ?e = "new_event t j st x s"
  have h: "unat (fr_head s + 1) = Suc ?h" using assms(2) by (simp add: unat_word_ariths)
  have old: "((fr_buf s)(?h mod 256 := ?e)) (i mod 256) = fr_buf s (i mod 256)"
    if "?h - 255 \<le> i" "i < ?h" for i
  proof -
    have "i mod 256 \<noteq> ?h mod 256"
    proof
      assume "i mod 256 = ?h mod 256"
      then have "256 dvd ?h - i" using that(2) mod_eq_dvd_iff_nat [of i ?h 256] by simp
      then show False using that by (auto dest: dvd_imp_le)
    qed
    then show ?thesis by simp
  qed
  have "[Suc ?h - 256..<Suc ?h] = [?h - 255..<?h] @ [?h]" by (simp add: Suc_diff_le)
  then have log: "trace_log (flightrec_log t j st x s) =
      map (\<lambda>i. fr_buf s (i mod 256)) [?h - 255..<?h] @ [?e]"
    using assms(1) h old by (simp add: trace_log_def fr_buf_log)
  show ?thesis
  proof (cases "?h < 256")
    case True
    then show ?thesis using log by (simp add: trace_log_def)
  next
    case False
    then have "Suc (?h - 256) = ?h - 255" by arith
    then have "drop 1 [?h - 256..<?h] = [?h - 255..<?h]"
      using upt_drop_first [of "?h - 256" ?h] False by simp
    then have "drop 1 (trace_log s) = map (\<lambda>i. fr_buf s (i mod 256)) [?h - 255..<?h]"
      by (simp only: trace_log_def drop_map)
    moreover have "length (trace_log s) = 256" using False by (simp add: trace_log_def)
    ultimately show ?thesis using log by (simp add: Let_def)
  qed
qed

section \<open>Scans of the buffer are scans of the abstract log\<close>

lemma unat_fr_count: "unat (fr_count s) = min (unat (fr_head s)) 256"
  by (simp add: fr_count_def TRACE_BUF_SIZE_def word_less_nat_alt min_def)

lemma length_trace_log: "length (trace_log s) = unat (fr_count s)"
  by (simp add: trace_log_def unat_fr_count min_def)

lemma trace_log_nth:
  "k < unat (fr_count s) \<Longrightarrow>
   trace_log s ! k = fr_buf s ((unat (fr_head s) - 256 + k) mod 256)"
proof -
  assume "k < unat (fr_count s)"
  then have "unat (fr_head s) - 256 + k < unat (fr_head s)"
    by (simp add: unat_fr_count min_def split: if_splits)
  then show ?thesis by (simp add: trace_log_def)
qed

lemma trace_log_map: "trace_log s = map (\<lambda>k. fr_buf s ((unat (fr_head s) - 256 + k) mod 256)) [0..<unat (fr_count s)]"
  by (rule nth_equalityI) (simp_all add: length_trace_log trace_log_nth)

lemma rev_trace_log:
  "rev (trace_log s) = map (\<lambda>k. fr_buf s ((unat (fr_head s) - 1 - k) mod 256)) [0..<unat (fr_count s)]"
proof (rule nth_equalityI)
  fix k assume "k < length (rev (trace_log s))"
  then have k: "k < unat (fr_count s)" by (simp add: length_trace_log)
  let ?h = "unat (fr_head s)"
  have "?h - 256 + (unat (fr_count s) - Suc k) = ?h - 1 - k"
    using k by (simp add: unat_fr_count min_def split: if_splits)
  then show "rev (trace_log s) ! k =
      map (\<lambda>k. fr_buf s ((unat (fr_head s) - 1 - k) mod 256)) [0..<unat (fr_count s)] ! k"
    using k by (simp add: rev_nth length_trace_log trace_log_nth)
qed (simp add: length_trace_log)

lemma unat_back:
  assumes "k < unat (fr_count s)"
  shows "unat (fr_head s - 1 - of_nat k) = unat (fr_head s) - 1 - k"
proof -
  have k: "k < unat (fr_head s)" using assms by (simp add: unat_fr_count)
  then have k': "k < 4294967296" using unat_u32_less [of "fr_head s"] by linarith
  have "unat (of_nat (Suc k) :: u32) = Suc k"
    using k unat_u32_less [of "fr_head s"] by (intro unat_of_nat_u32) linarith
  moreover from this k have "of_nat (Suc k) \<le> fr_head s" by (simp only: word_le_nat_alt)
  ultimately have "unat (fr_head s - of_nat (Suc k)) = unat (fr_head s) - Suc k"
    by (simp only: unat_sub_no_wrap)
  then show ?thesis by (simp add: algebra_simps)
qed

lemma last_duration_log:
  "flightrec_last_duration j st s =
   (case find (is_step_end j st) (rev (trace_log s)) of None \<Rightarrow> 0 | Some e \<Rightarrow> ucast (te_extra e))"
proof -
  let ?entry = "\<lambda>i :: u32. fr_buf s (unat ((fr_head s - 1 - i) AND TRACE_BUF_MASK))"
  let ?g = "\<lambda>k. fr_buf s ((unat (fr_head s) - 1 - k) mod 256)"
  have eq: "?entry (of_nat k) = ?g k" if "k < unat (fr_count s)" for k
    using unat_back [OF that] by (simp add: and_mask_mod)
  have "wfind 0 (fr_count s) (\<lambda>i. is_step_end j st (?entry i)) =
      map_option of_nat (find (is_step_end j st \<circ> ?g) [0..<unat (fr_count s)])"
    unfolding wfind_find find_map unat_0
    by (rule arg_cong [where f = "map_option of_nat"], rule find_cong) (simp_all add: eq)
  moreover have "find (is_step_end j st) (rev (trace_log s)) =
      map_option ?g (find (is_step_end j st \<circ> ?g) [0..<unat (fr_count s)])"
    unfolding rev_trace_log find_map ..
  ultimately show ?thesis
  proof (cases "find (is_step_end j st \<circ> ?g) [0..<unat (fr_count s)]")
    case (Some k)
    then have "k < unat (fr_count s)" by (auto simp: find_Some_iff)
    from eq [OF this] Some show ?thesis
      using \<open>wfind 0 _ _ = _\<close> \<open>find (is_step_end j st) _ = _\<close>
      by (simp add: flightrec_last_duration_def Let_def)
  qed (simp add: flightrec_last_duration_def Let_def)
qed

lemma job_stats_log:
  "wfor 0 (fr_count s)
     (\<lambda>i. job_stats_step j (fr_buf s (unat (if fr_head s > TRACE_BUF_SIZE
        then (fr_head s - TRACE_BUF_SIZE + i) AND TRACE_BUF_MASK else i)))) acc =
   fold (job_stats_step j) (trace_log s) acc"
proof -
  let ?h = "unat (fr_head s)"
  let ?idx = "\<lambda>i :: u32. if fr_head s > TRACE_BUF_SIZE
        then (fr_head s - TRACE_BUF_SIZE + i) AND TRACE_BUF_MASK else i"
  have eq: "unat (?idx (of_nat k)) = (?h - 256 + k) mod 256" if k: "k < unat (fr_count s)" for k
  proof -
    have k256: "k < 256" and kh: "k < ?h" using k by (simp_all add: unat_fr_count)
    then have uk: "unat (of_nat k :: u32) = k" by (intro unat_of_nat_u32) simp
    show ?thesis
    proof (cases "fr_head s > TRACE_BUF_SIZE")
      case True
      then have h: "256 < ?h" by (simp add: TRACE_BUF_SIZE_def word_less_nat_alt)
      then have "unat (fr_head s - TRACE_BUF_SIZE) = ?h - 256"
        by (subst unat_sub_no_wrap) (simp_all add: TRACE_BUF_SIZE_def word_le_nat_alt)
      moreover have "?h - 256 + k < 2 ^ LENGTH(32)"
        using kh k256 h unat_u32_less [of "fr_head s"] by (simp del: unat_u32_less)
      ultimately have "unat (fr_head s - TRACE_BUF_SIZE + of_nat k) = ?h - 256 + k"
        using uk by (subst unat_add_no_wrap) simp_all
      then show ?thesis using True by (simp add: and_mask_mod)
    next
      case False
      then have "?h \<le> 256" by (simp add: TRACE_BUF_SIZE_def word_less_nat_alt)
      then show ?thesis using False uk k256 by simp
    qed
  qed
  have "fold (\<lambda>i. job_stats_step j (fr_buf s (unat (?idx i)))) (map of_nat [0..<unat (fr_count s)]) acc =
      fold (job_stats_step j)
        (map (\<lambda>k. fr_buf s ((?h - 256 + k) mod 256)) [0..<unat (fr_count s)]) acc"
    unfolding fold_map by (rule fold_cong) (simp_all add: eq)
  then show ?thesis unfolding wfor_fold trace_log_map [symmetric] unat_0 .
qed

definition step_end_of :: "u32 \<Rightarrow> trace_event \<Rightarrow> bool" where
  "step_end_of j e \<longleftrightarrow> te_job_id e = j \<and> te_type e = evt_code TRACE_EVT_STEP_END"

definition violation_of :: "u32 \<Rightarrow> trace_event \<Rightarrow> bool" where
  "violation_of j e \<longleftrightarrow> te_job_id e = j \<and>
     te_type e \<in> {evt_code TRACE_EVT_CONTRACT_VIOLATION, evt_code TRACE_EVT_CONTRACT_BUDGET_EXCEED}"

lemma job_stats_step_fields:
  "js_job_id (fst (job_stats_step j e acc)) = js_job_id (fst acc)"
  "js_steps_completed (fst (job_stats_step j e acc)) =
     js_steps_completed (fst acc) + of_bool (step_end_of j e)"
  "js_total_cpu_usec (fst (job_stats_step j e acc)) =
     js_total_cpu_usec (fst acc) + (if step_end_of j e then ucast (te_extra e) else 0)"
  "js_violations (fst (job_stats_step j e acc)) =
     js_violations (fst acc) + of_bool (violation_of j e)"
  by (simp_all add: job_stats_step_def step_end_of_def violation_of_def split_beta Let_def)

lemma job_stats_fold:
  "js_job_id (fst (fold (job_stats_step j) es acc)) = js_job_id (fst acc) \<and>
   js_steps_completed (fst (fold (job_stats_step j) es acc)) =
     js_steps_completed (fst acc) + of_nat (length (filter (step_end_of j) es)) \<and>
   js_total_cpu_usec (fst (fold (job_stats_step j) es acc)) =
     js_total_cpu_usec (fst acc) + (\<Sum>e\<leftarrow>filter (step_end_of j) es. ucast (te_extra e)) \<and>
   js_violations (fst (fold (job_stats_step j) es acc)) =
     js_violations (fst acc) + of_nat (length (filter (violation_of j) es))"
proof (induction es arbitrary: acc)
  case (Cons e es)
  show ?case
    using Cons.IH [of "job_stats_step j e acc"] by (simp add: job_stats_step_fields add.assoc)
qed simp

lemma new_event_fields [simp]:
  "te_type (new_event t j st x s) = evt_code t" "te_job_id (new_event t j st x s) = j"
  "te_step_id (new_event t j st x s) = st" "te_extra (new_event t j st x s) = x"
  by (simp_all add: new_event_def Let_def split_beta)

lemma last_duration_after_log:
  assumes "fr_initialized s" and "unat (fr_head s) < 2 ^ 32 - 1"
  shows "flightrec_last_duration j st (flightrec_log TRACE_EVT_STEP_END j st x s) = ucast x"
proof -
  let ?l = "trace_log s @ [new_event TRACE_EVT_STEP_END j st x s]"
  have "rev (trace_log (flightrec_log TRACE_EVT_STEP_END j st x s)) =
      rev (drop (length ?l - 256) ?l)"
    using trace_log_append [OF assms] by (simp add: Let_def)
  moreover have "length ?l - 256 \<le> length (trace_log s)" by simp
  then have "drop (length ?l - 256) ?l =
      drop (length ?l - 256) (trace_log s) @ [new_event TRACE_EVT_STEP_END j st x s]" by simp
  ultimately show ?thesis
    unfolding last_duration_log by (simp add: is_step_end_def)
qed

lemma last_duration_spans:
  "flightrec_last_duration j st (s\<lparr>fr_spans := x\<rparr>) = flightrec_last_duration j st s"
  by (simp add: flightrec_last_duration_def fr_count_def)

section \<open>Properties\<close>

text \<open>
  C38: The ring buffer refines the abstract log. \<open>flightrec_log\<close> does nothing before
  \<open>flightrec_init\<close>; afterwards it appends one event carrying the caller's arguments and two clock
  reads, dropping the oldest event once 256 are held; at the single point where the 32-bit head
  wraps to zero the visible log becomes empty.
\<close>

theorem flightrec_log_refines:
  "trace_log (flightrec_log t j st x s) =
     (if \<not> fr_initialized s then trace_log s
      else if fr_head s = - 1 then []
      else let l = trace_log s @ [new_event t j st x s] in drop (length l - 256) l)"
proof (cases "fr_initialized s")
  case True
  show ?thesis
  proof (cases "fr_head s = - 1")
    case wrap: True
    then show ?thesis using True by (simp add: trace_log_def)
  next
    case False
    then have "unat (fr_head s) \<noteq> unat (- 1 :: u32)" using unsigned_word_eqI by blast
    then have "unat (fr_head s) < 2 ^ 32 - 1"
      using unat_u32_less [of "fr_head s"] by (simp add: unsigned_minus_1_eq_mask mask_eq_exp_minus_1 del: unat_u32_less)
    then show ?thesis using trace_log_append [OF True] True False by simp
  qed
qed (simp add: flightrec_log_def)

text \<open>
  The statistics of a job are those of the abstract log: the number and the summed
  durations of its STEP-END events, the number of its violation and budget events, and the
  most recent duration of a step is the payload of its last STEP-END event (0 if there is none).
\<close>

theorem flightrec_queries_log:
  "js_job_id (flightrec_get_job_stats j s) = j \<and>
   js_steps_completed (flightrec_get_job_stats j s) =
     of_nat (length (filter (step_end_of j) (trace_log s))) \<and>
   js_total_cpu_usec (flightrec_get_job_stats j s) =
     (\<Sum>e\<leftarrow>filter (step_end_of j) (trace_log s). ucast (te_extra e)) \<and>
   js_violations (flightrec_get_job_stats j s) =
     of_nat (length (filter (violation_of j) (trace_log s))) \<and>
   flightrec_last_duration j st s =
     (case find (is_step_end j st) (rev (trace_log s)) of
        None \<Rightarrow> 0 | Some e \<Rightarrow> ucast (te_extra e))"
  unfolding flightrec_get_job_stats_def Let_def job_stats_log
  using job_stats_fold [of j "trace_log s"] last_duration_log [of j st s] by (simp add: split_beta)

text \<open>
  Closing a span that \<open>flightrec_begin_span\<close> opened records its length: the STEP-END
  event's payload is the elapsed cycle count in microseconds, cut to 32 bits, the last-duration
  query returns it, and the slot is free again.
\<close>

theorem flightrec_span_duration:
  assumes "fr_initialized s" and "unat (fr_head s) < 2 ^ 32 - 1"
    and "1 \<le> h" and "h \<le> MAX_ACTIVE_SPANS"
    and "sp_active (fr_spans s (unat h - 1))"
    and "sp = fr_spans s (unat h - 1)"
  shows "flightrec_last_duration (sp_job_id sp) (sp_step_id sp)
           (flightrec_end_span h TRACE_EVT_STEP_END s) =
         ucast (ucast (cycles_to_usec s (tsc s (tsc_reads s) - sp_start_cycles sp)) :: u32) \<and>
       \<not> sp_active (fr_spans (flightrec_end_span h TRACE_EVT_STEP_END s) (unat h - 1))"
proof -
  have h: "unat h \<le> 16" "unat h \<ge> 1"
    using assms(3,4) by (simp_all add: MAX_ACTIVE_SPANS_def word_le_nat_alt)
  then have "sint h = int (unat h)" by (intro sint_small) simp
  then have slot: "sint h - 1 \<ge> 0" "sint h - 1 < 16" "nat (sint h - 1) = unat h - 1" "h \<noteq> 0"
    using h by (simp_all add: nat_diff_distrib del: of_nat_unat) (auto simp: unat_eq_0)
  let ?s = "snd (time_cycles s)"
  let ?log = "flightrec_log TRACE_EVT_STEP_END (sp_job_id sp) (sp_step_id sp)
    (ucast (cycles_to_usec s (tsc s (tsc_reads s) - sp_start_cycles sp))) ?s"
  have "flightrec_end_span h TRACE_EVT_STEP_END s =
      ?log\<lparr>fr_spans := (fr_spans ?log)(unat h - 1 := (fr_spans ?log (unat h - 1))\<lparr>sp_active := False\<rparr>)\<rparr>"
    using assms slot
    by (simp add: flightrec_end_span_def Let_def split_beta time_cycles_def rdtsc_def cycles_to_usec_def)
  then show ?thesis
    using last_duration_after_log [of ?s] assms(1,2) by (simp add: last_duration_spans)
qed

theorem flightrec_span_duration_witness:
  "\<exists>s :: flightrec. fr_initialized s \<and> sp_active (fr_spans s 0) \<and>
     flightrec_last_duration 7 3 (flightrec_end_span 1 TRACE_EVT_STEP_END s) = 5"
proof -
  let ?sp = "\<lparr>sp_active = True, sp_job_id = 7, sp_step_id = 3, sp_start_cycles = 1000,
              sp_start_type = evt_code TRACE_EVT_STEP_START\<rparr>"
  let ?s = "\<lparr>tsc = (\<lambda>n. 6999), tsc_reads = 0, cpu_mhz = 1000, cycles_per_usec = 1000, boot_tsc = 0,
             fr_buf = (\<lambda>_. \<lparr>te_ts_usec = 0, te_ts_cycles = 0, te_type = 0, te_flags = 0, te_cpu_id = 0,
               te_job_id = 0, te_step_id = 0, te_extra = 0, te_tpm_signature = []\<rparr>),
             fr_head = 300, fr_initialized = True, fr_spans = (\<lambda>_. ?sp), fr_next_span_handle = 1\<rparr>"
  have "flightrec_last_duration 7 3 (flightrec_end_span 1 TRACE_EVT_STEP_END ?s) = 5"
    using flightrec_span_duration [of ?s 1 ?sp]
    by (simp add: MAX_ACTIVE_SPANS_def cycles_to_usec_def)
  then show ?thesis by (intro exI [of _ ?s]) simp
qed

end
