(* ===== verification/Zen_Memory.thy ===== *)
theory Zen_Memory
  imports Zen_Prelude
begin

text \<open>
  Byte-addressed memory with little-endian access at the widths C structs use. A \<open>mem\<close> is
  one region (the shared-memory window of the IPC layer, the data area of the shared heap); a
  struct in it is a set of fields at fixed offsets, as the x86-64 ABI lays them out. Reads and
  writes at disjoint addresses commute, which is what makes overlapping structures visible.
\<close>

type_synonym mem = "nat \<Rightarrow> u8"

fun rd_le :: "nat \<Rightarrow> mem \<Rightarrow> nat \<Rightarrow> 'a::len word" where
  "rd_le 0 m a = 0"
| "rd_le (Suc n) m a = ucast (m a) OR push_bit 8 (rd_le n m (a + 1))"

fun wr_le :: "nat \<Rightarrow> mem \<Rightarrow> nat \<Rightarrow> 'a::len word \<Rightarrow> mem" where
  "wr_le 0 m a v = m"
| "wr_le (Suc n) m a v = wr_le n (m(a := ucast v)) (a + 1) (drop_bit 8 v)"

definition rd8 :: "mem \<Rightarrow> nat \<Rightarrow> u8" where "rd8 m a = m a"
definition rd16 :: "mem \<Rightarrow> nat \<Rightarrow> u16" where "rd16 = rd_le 2"
definition rd32 :: "mem \<Rightarrow> nat \<Rightarrow> u32" where "rd32 = rd_le 4"
definition rd64 :: "mem \<Rightarrow> nat \<Rightarrow> u64" where "rd64 = rd_le 8"

definition wr8 :: "mem \<Rightarrow> nat \<Rightarrow> u8 \<Rightarrow> mem" where "wr8 m a v = m(a := v)"
definition wr16 :: "mem \<Rightarrow> nat \<Rightarrow> u16 \<Rightarrow> mem" where "wr16 = wr_le 2"
definition wr32 :: "mem \<Rightarrow> nat \<Rightarrow> u32 \<Rightarrow> mem" where "wr32 = wr_le 4"
definition wr64 :: "mem \<Rightarrow> nat \<Rightarrow> u64 \<Rightarrow> mem" where "wr64 = wr_le 8"

section \<open>Laws\<close>

lemma wr_le_outside: "b < a \<or> a + n \<le> b \<Longrightarrow> wr_le n m a v b = m b"
  by (induction n m a v rule: wr_le.induct) auto

lemma rd_le_cong: "(\<And>b. a \<le> b \<Longrightarrow> b < a + n \<Longrightarrow> m b = m' b) \<Longrightarrow> rd_le n m a = rd_le n m' a"
  by (induction n m a rule: rd_le.induct) auto

lemma ucast_or_shift:
  fixes v :: "'a::len word"
  shows "(ucast (ucast v :: u8) :: 'a word) OR push_bit 8 (take_bit (8 * n) (drop_bit 8 v)) =
    take_bit (8 * Suc n) v"
proof (rule bit_word_eqI)
  fix i
  assume "i < LENGTH('a)"
  then show "bit ((ucast (ucast v :: u8) :: 'a word) OR push_bit 8 (take_bit (8 * n) (drop_bit 8 v))) i =
      bit (take_bit (8 * Suc n) v) i"
    by (cases "i < 8") (auto simp: bit_or_iff bit_ucast_iff bit_push_bit_iff bit_take_bit_iff
        bit_drop_bit_eq dest: bit_imp_le_length)
qed

lemma rd_wr_le_same: "rd_le n (wr_le n m a v) a = take_bit (8 * n) v"
proof (induction n arbitrary: m a v)
  case (Suc n)
  have "wr_le n (m(a := ucast v)) (a + 1) (drop_bit 8 v) a = ucast v"
    by (subst wr_le_outside) simp_all
  then show ?case using Suc.IH by (simp only: rd_le.simps wr_le.simps ucast_or_shift)
qed simp

lemma rd_wr_le_disjoint:
  "a + n \<le> b \<or> b + k \<le> a \<Longrightarrow> rd_le n (wr_le k m b v) a = rd_le n m a"
  by (rule rd_le_cong) (auto simp: wr_le_outside)

lemmas rd_defs = rd8_def rd16_def rd32_def rd64_def
lemmas wr_defs = wr8_def wr16_def wr32_def wr64_def

lemma rd8_wr8_same [simp]: "rd8 (wr8 m a v) a = v"
  by (simp add: rd8_def wr8_def)

lemma rd16_wr16_same [simp]: "rd16 (wr16 m a v) a = v"
  by (simp add: rd16_def wr16_def rd_wr_le_same take_bit_word_eq_self)

lemma rd32_wr32_same [simp]: "rd32 (wr32 m a v) a = v"
  by (simp add: rd32_def wr32_def rd_wr_le_same take_bit_word_eq_self)

lemma rd64_wr64_same [simp]: "rd64 (wr64 m a v) a = v"
  by (simp add: rd64_def wr64_def rd_wr_le_same take_bit_word_eq_self)

lemma rd32_zero [simp]: "rd32 (\<lambda>_. 0) a = 0"
  by (simp add: rd32_def numeral_eq_Suc)

lemma wr8_outside: "b \<noteq> a \<Longrightarrow> wr8 m a v b = m b"
  by (simp add: wr8_def)

lemma wr16_outside: "b < a \<or> a + 2 \<le> b \<Longrightarrow> wr16 m a v b = m b"
  by (simp add: wr16_def wr_le_outside)

lemma wr32_outside: "b < a \<or> a + 4 \<le> b \<Longrightarrow> wr32 m a v b = m b"
  by (simp add: wr32_def wr_le_outside)

lemma wr64_outside: "b < a \<or> a + 8 \<le> b \<Longrightarrow> wr64 m a v b = m b"
  by (simp add: wr64_def wr_le_outside)

lemma rd8_as_rd_le: "rd8 m a = rd_le 1 m a"
  by (simp add: rd8_def)

lemma wr8_as_wr_le: "wr8 m a v = wr_le 1 m a v"
  by (simp add: wr8_def)

text \<open>
  The sixteen frame laws: a read that ends before the write starts, and a read that starts
  after the write ends. Each has one linear side condition, so the simplifier decides it on
  concrete offsets.
\<close>

lemma rd_wr_below [simp]:
  "a + 1 \<le> b \<Longrightarrow> rd8 (wr8 m b v8) a = rd8 m a"
  "a + 1 \<le> b \<Longrightarrow> rd8 (wr16 m b v16) a = rd8 m a"
  "a + 1 \<le> b \<Longrightarrow> rd8 (wr32 m b v32) a = rd8 m a"
  "a + 1 \<le> b \<Longrightarrow> rd8 (wr64 m b v64) a = rd8 m a"
  "a + 2 \<le> b \<Longrightarrow> rd16 (wr8 m b v8) a = rd16 m a"
  "a + 2 \<le> b \<Longrightarrow> rd16 (wr16 m b v16) a = rd16 m a"
  "a + 2 \<le> b \<Longrightarrow> rd16 (wr32 m b v32) a = rd16 m a"
  "a + 2 \<le> b \<Longrightarrow> rd16 (wr64 m b v64) a = rd16 m a"
  "a + 4 \<le> b \<Longrightarrow> rd32 (wr8 m b v8) a = rd32 m a"
  "a + 4 \<le> b \<Longrightarrow> rd32 (wr16 m b v16) a = rd32 m a"
  "a + 4 \<le> b \<Longrightarrow> rd32 (wr32 m b v32) a = rd32 m a"
  "a + 4 \<le> b \<Longrightarrow> rd32 (wr64 m b v64) a = rd32 m a"
  "a + 8 \<le> b \<Longrightarrow> rd64 (wr8 m b v8) a = rd64 m a"
  "a + 8 \<le> b \<Longrightarrow> rd64 (wr16 m b v16) a = rd64 m a"
  "a + 8 \<le> b \<Longrightarrow> rd64 (wr32 m b v32) a = rd64 m a"
  "a + 8 \<le> b \<Longrightarrow> rd64 (wr64 m b v64) a = rd64 m a"
  unfolding wr8_as_wr_le rd8_as_rd_le rd16_def rd32_def rd64_def wr16_def wr32_def wr64_def
  by (rule rd_wr_le_disjoint, simp)+

lemma rd_wr_above [simp]:
  "b + 1 \<le> a \<Longrightarrow> rd8 (wr8 m b v8) a = rd8 m a"
  "b + 2 \<le> a \<Longrightarrow> rd8 (wr16 m b v16) a = rd8 m a"
  "b + 4 \<le> a \<Longrightarrow> rd8 (wr32 m b v32) a = rd8 m a"
  "b + 8 \<le> a \<Longrightarrow> rd8 (wr64 m b v64) a = rd8 m a"
  "b + 1 \<le> a \<Longrightarrow> rd16 (wr8 m b v8) a = rd16 m a"
  "b + 2 \<le> a \<Longrightarrow> rd16 (wr16 m b v16) a = rd16 m a"
  "b + 4 \<le> a \<Longrightarrow> rd16 (wr32 m b v32) a = rd16 m a"
  "b + 8 \<le> a \<Longrightarrow> rd16 (wr64 m b v64) a = rd16 m a"
  "b + 1 \<le> a \<Longrightarrow> rd32 (wr8 m b v8) a = rd32 m a"
  "b + 2 \<le> a \<Longrightarrow> rd32 (wr16 m b v16) a = rd32 m a"
  "b + 4 \<le> a \<Longrightarrow> rd32 (wr32 m b v32) a = rd32 m a"
  "b + 8 \<le> a \<Longrightarrow> rd32 (wr64 m b v64) a = rd32 m a"
  "b + 1 \<le> a \<Longrightarrow> rd64 (wr8 m b v8) a = rd64 m a"
  "b + 2 \<le> a \<Longrightarrow> rd64 (wr16 m b v16) a = rd64 m a"
  "b + 4 \<le> a \<Longrightarrow> rd64 (wr32 m b v32) a = rd64 m a"
  "b + 8 \<le> a \<Longrightarrow> rd64 (wr64 m b v64) a = rd64 m a"
  unfolding wr8_as_wr_le rd8_as_rd_le rd16_def rd32_def rd64_def wr16_def wr32_def wr64_def
  by (rule rd_wr_le_disjoint, simp)+

lemma rd_cong:
  "(\<And>b. a \<le> b \<Longrightarrow> b < a + 1 \<Longrightarrow> m b = m' b) \<Longrightarrow> rd8 m a = rd8 m' a"
  "(\<And>b. a \<le> b \<Longrightarrow> b < a + 2 \<Longrightarrow> m b = m' b) \<Longrightarrow> rd16 m a = rd16 m' a"
  "(\<And>b. a \<le> b \<Longrightarrow> b < a + 4 \<Longrightarrow> m b = m' b) \<Longrightarrow> rd32 m a = rd32 m' a"
  "(\<And>b. a \<le> b \<Longrightarrow> b < a + 8 \<Longrightarrow> m b = m' b) \<Longrightarrow> rd64 m a = rd64 m' a"
  unfolding rd8_as_rd_le rd16_def rd32_def rd64_def by (rule rd_le_cong, simp)+

section \<open>Bits packed into bytes\<close>

text \<open>
  \<^verbatim>\<open>map[p / 8] |= (1 << (p % 8))\<close> and its relatives, for a bitmap that starts at \<open>base\<close>.
\<close>

definition bits_set :: "nat \<Rightarrow> nat \<Rightarrow> mem \<Rightarrow> mem" where
  "bits_set base p m = m(base + p div 8 := m (base + p div 8) OR push_bit (p mod 8) 1)"

definition bits_clear :: "nat \<Rightarrow> nat \<Rightarrow> mem \<Rightarrow> mem" where
  "bits_clear base p m = m(base + p div 8 := m (base + p div 8) AND NOT (push_bit (p mod 8) 1))"

definition bits_test :: "nat \<Rightarrow> nat \<Rightarrow> mem \<Rightarrow> bool" where
  "bits_test base p m \<longleftrightarrow> drop_bit (p mod 8) (m (base + p div 8)) AND 1 \<noteq> 0"

lemma bits_test_bit: "bits_test base p m \<longleftrightarrow> bit (m (base + p div 8)) (p mod 8)"
  by (simp add: bits_test_def and_one_eq bit_iff_odd_drop_bit odd_iff_mod_2_eq_one)

lemma same_bit_iff: "q = p \<longleftrightarrow> (q :: nat) div 8 = p div 8 \<and> q mod 8 = p mod 8"
  by (metis div_mult_mod_eq)

lemma bits_test_set: "bits_test base q (bits_set base p m) \<longleftrightarrow> q = p \<or> bits_test base q m"
  by (cases "q div 8 = p div 8")
     (auto simp: bits_test_bit bits_set_def same_bit_iff [of q p] bit_or_iff bit_exp_iff)

lemma bits_test_clear: "bits_test base q (bits_clear base p m) \<longleftrightarrow> q \<noteq> p \<and> bits_test base q m"
  by (cases "q div 8 = p div 8")
     (auto simp: bits_test_bit bits_clear_def same_bit_iff [of q p] bit_and_iff bit_not_iff
       bit_exp_iff)

lemma bits_set_outside: "a \<noteq> base + p div 8 \<Longrightarrow> bits_set base p m a = m a"
  by (simp add: bits_set_def)

lemma bits_clear_outside: "a \<noteq> base + p div 8 \<Longrightarrow> bits_clear base p m a = m a"
  by (simp add: bits_clear_def)

end
