(* ===== verification/Zen_Bitmap.thy ===== *)
theory Zen_Bitmap
  imports Zen_Memory
begin

text \<open>
  The bitmap interface that the page allocator (\<^verbatim>\<open>kernel/mm/pmm.c\<close>) and the shared heap
  (\<^verbatim>\<open>kernel/ipc/heap.c\<close>) rely on: three operations on a map of \<open>nbits\<close> bits, in which an
  index out of range reads as used and is never written. Both allocators interpret it with
  their own static functions and take their accounting lemmas from here.
\<close>

definition clear_bits :: "(u32 \<Rightarrow> 'm \<Rightarrow> bool) \<Rightarrow> 'm \<Rightarrow> u32 set" where
  "clear_bits test m = {p. \<not> test p m}"

lemma finite_clear_bits [simp]: "finite (clear_bits test m)"
  by simp

locale bitmap =
  fixes bset bclear :: "u32 \<Rightarrow> 'm \<Rightarrow> 'm"
    and btest :: "u32 \<Rightarrow> 'm \<Rightarrow> bool"
    and nbits :: u32
  assumes test_set: "p < nbits \<Longrightarrow> btest q (bset p m) \<longleftrightarrow> q = p \<or> btest q m"
    and test_clear: "p < nbits \<Longrightarrow> btest q (bclear p m) \<longleftrightarrow> q \<noteq> p \<and> btest q m"
    and test_out: "nbits \<le> q \<Longrightarrow> btest q m"
    and set_out: "nbits \<le> p \<Longrightarrow> bset p m = m"
    and clear_out: "nbits \<le> p \<Longrightarrow> bclear p m = m"
begin

lemma clear_less: "p \<in> clear_bits btest m \<Longrightarrow> p < nbits"
  using test_out by (auto simp: clear_bits_def not_le [symmetric])

lemma clear_bits_set: "clear_bits btest (bset p m) = clear_bits btest m - {p}"
proof (cases "p < nbits")
  case True
  then show ?thesis by (auto simp: clear_bits_def test_set)
next
  case False
  then have "nbits \<le> p" by simp
  then show ?thesis using test_out by (auto simp: clear_bits_def set_out)
qed

lemma clear_bits_clear: "p < nbits \<Longrightarrow> clear_bits btest (bclear p m) = insert p (clear_bits btest m)"
  by (auto simp: clear_bits_def test_clear)

lemma card_clear_set:
  "\<not> btest p m \<Longrightarrow> card (clear_bits btest m) = Suc (card (clear_bits btest (bset p m)))"
  unfolding clear_bits_set by (rule card_Suc_Diff1 [symmetric]) (simp_all add: clear_bits_def)

lemma card_clear_clear:
  "p < nbits \<Longrightarrow> btest p m \<Longrightarrow>
   card (clear_bits btest (bclear p m)) = Suc (card (clear_bits btest m))"
  by (simp add: clear_bits_clear) (simp add: clear_bits_def)

lemma card_clear_le: "card (clear_bits btest m) \<le> unat nbits"
proof -
  have "clear_bits btest m \<subseteq> {..<nbits}" using clear_less by auto
  then have "card (clear_bits btest m) \<le> card {..<nbits}" by (intro card_mono) simp_all
  also have "\<dots> = card (unat ` {..<nbits})" by (rule card_image [symmetric]) (simp add: inj_on_def word_unat_eq_iff)
  also have "unat ` {..<nbits} \<subseteq> {..<unat nbits}" by (auto simp: word_less_nat_alt)
  then have "card (unat ` {..<nbits}) \<le> unat nbits"
    using card_mono [of "{..<unat nbits}" "unat ` {..<nbits}"] by simp
  finally show ?thesis .
qed

text \<open>Setting or clearing the bits \<open>s + i, \<dots>, s + (n - 1)\<close> in a loop.\<close>

lemma clear_bits_set_range:
  "clear_bits btest (wfor i n (\<lambda>j. bset (s + j)) m) =
   clear_bits btest m - {s + j |j. i \<le> j \<and> j < n}"
proof (induction i n "\<lambda>j. bset (s + j)" m rule: wfor.induct)
  case (1 i n m)
  show ?case
  proof (cases "i < n")
    case True
    then have "{s + j |j. i \<le> j \<and> j < n} = insert (s + i) {s + j |j. i + 1 \<le> j \<and> j < n}"
      using word_Suc_le_iff [OF True] by (auto simp: order_le_less)
    with True 1 show ?thesis by (auto simp: wfor_step clear_bits_set)
  next
    case False
    then have "{s + j |j. i \<le> j \<and> j < n} = {}" and "n \<le> i" by auto
    then show ?thesis by (simp only: wfor_done) simp
  qed
qed

lemma clear_bits_clear_range:
  "(\<And>j. i \<le> j \<Longrightarrow> j < n \<Longrightarrow> s + j < nbits) \<Longrightarrow>
   clear_bits btest (wfor i n (\<lambda>j. bclear (s + j)) m) =
   clear_bits btest m \<union> {s + j |j. i \<le> j \<and> j < n}"
proof (induction i n "\<lambda>j. bclear (s + j)" m rule: wfor.induct)
  case (1 i n m)
  show ?case
  proof (cases "i < n")
    case True
    then have eq: "{s + j |j. i \<le> j \<and> j < n} = insert (s + i) {s + j |j. i + 1 \<le> j \<and> j < n}"
      using word_Suc_le_iff [OF True] by (auto simp: order_le_less)
    have "s + i < nbits" using "1.prems" True by simp
    moreover have "s + j < nbits" if "i + 1 \<le> j" "j < n" for j
      using that "1.prems" word_Suc_le_iff [OF True] by simp
    ultimately show ?thesis
      using True 1 by (simp add: wfor_step clear_bits_clear eq)
  next
    case False
    then have "{s + j |j. i \<le> j \<and> j < n} = {}" and "n \<le> i" by auto
    then show ?thesis by (simp only: wfor_done) simp
  qed
qed

end

text \<open>A block of \<open>c\<close> consecutive indices has \<open>c\<close> elements unless it wraps around.\<close>

lemma card_word_range:
  fixes s c :: u32
  shows "card {s + j |j. 0 \<le> j \<and> j < c} = unat c"
proof -
  have "{s + j |j. 0 \<le> j \<and> j < c} = (\<lambda>j. s + j) ` {..<c}" by auto
  moreover have "card ((\<lambda>j. s + j) ` {..<c}) = card {..<c}" by (rule card_image) simp
  moreover have "card {..<c} = unat c"
  proof -
    have "unat ` {..<c} = {..<unat c}"
    proof (intro equalityI subsetI)
      fix k assume "k \<in> {..<unat c}"
      then have k: "k < unat c" by simp
      then have "k < 4294967296" using unat_u32_less [of c] by linarith
      with k have "k = unat (of_nat k :: u32)" "(of_nat k :: u32) < c"
        by (simp_all add: unat_of_nat_u32 word_less_nat_alt)
      then show "k \<in> unat ` {..<c}" by blast
    qed (auto simp: word_less_nat_alt)
    moreover have "card (unat ` {..<c}) = card {..<c}"
      by (rule card_image) (simp add: inj_on_def word_unat_eq_iff)
    ultimately show ?thesis by simp
  qed
  ultimately show ?thesis by simp
qed

end
