(* ===== verification/Pmm.thy ===== *)
theory Pmm
  imports Flightrec Zen_Bitmap
begin

text \<open>
  The physical memory manager (\<^verbatim>\<open>kernel/mm/pmm.c\<close>, \<^verbatim>\<open>kernel/mm/pmm.h\<close>): a bitmap of 65536 page
  frames, two simulated NUMA nodes, single-page and contiguous allocation with fallback, and
  the boot-time parsing of the multiboot memory map. Console output is left out; every event
  that goes to the flight recorder is kept. The multiboot structures live in physical memory,
  which \<open>parse_mmap\<close> reads as bytes; the kernel's own bounds come from the linker script and
  are arguments of \<open>pmm_init\<close>.
\<close>

section \<open>Data\<close>

definition PAGE_SIZE :: u32 where [zconst]: "PAGE_SIZE = 4096"
definition PMM_MAX_PAGES :: u32 where [zconst]: "PMM_MAX_PAGES = 65536"
definition BITMAP_SIZE :: u32 where [zconst]: "BITMAP_SIZE = 8192"
definition MAX_MEM_REGIONS :: u32 where [zconst]: "MAX_MEM_REGIONS = 32"
definition NUMA_NODE_LOCAL :: u8 where [zconst]: "NUMA_NODE_LOCAL = 0"
definition NUMA_NODE_REMOTE :: u8 where [zconst]: "NUMA_NODE_REMOTE = 1"
definition NUMA_NODE_ANY :: u8 where [zconst]: "NUMA_NODE_ANY = 0xFF"
definition MEM_REGION_AVAILABLE :: u32 where [zconst]: "MEM_REGION_AVAILABLE = 1"
definition MULTIBOOT_FLAG_MEM :: u32 where [zconst]: "MULTIBOOT_FLAG_MEM = 1"
definition MULTIBOOT_FLAG_MMAP :: u32 where [zconst]: "MULTIBOOT_FLAG_MMAP = 64"

record mem_region =
  mr_base :: u32
  mr_length :: u32
  mr_type :: u32

record numa_node =
  nn_node_id :: u8
  nn_base_addr :: u32
  nn_start_pfn :: u32
  nn_end_pfn :: u32
  nn_total_pages :: u32
  nn_free_pages :: u32
  nn_used_pages :: u32

record multiboot_info =
  mb_flags :: u32
  mb_mem_lower :: u32
  mb_mem_upper :: u32
  mb_mmap_length :: u32
  mb_mmap_addr :: u32

record pmm_stats =
  ps_total_memory_kb :: u32
  ps_free_memory_kb :: u32
  ps_used_memory_kb :: u32
  ps_reserved_memory_kb :: u32
  ps_total_pages :: u32
  ps_free_pages :: u32
  ps_num_regions :: u32
  ps_num_nodes :: u32

record pmm = flightrec +
  page_bitmap :: mem
  mem_regions :: "mem_region carray"
  num_regions :: u32
  numa_nodes :: "numa_node carray"
  numa_node_count :: u8
  total_pages :: u32
  free_pages :: u32
  highest_page :: u32
  node_boundary_pfn :: u32

definition addr_to_pfn :: "u32 \<Rightarrow> u32" where "addr_to_pfn addr = drop_bit 12 addr"
definition pfn_to_addr :: "u32 \<Rightarrow> u32" where "pfn_to_addr pfn = push_bit 12 pfn"
definition page_align_down :: "u32 \<Rightarrow> u32" where
  "page_align_down addr = addr AND NOT (PAGE_SIZE - 1)"
definition page_align_up :: "u32 \<Rightarrow> u32" where
  "page_align_up addr = (addr + PAGE_SIZE - 1) AND NOT (PAGE_SIZE - 1)"

definition bitmap_set :: "u32 \<Rightarrow> mem \<Rightarrow> mem" where
  "bitmap_set pfn m = (if pfn < PMM_MAX_PAGES then bits_set 0 (unat pfn) m else m)"

definition bitmap_clear :: "u32 \<Rightarrow> mem \<Rightarrow> mem" where
  "bitmap_clear pfn m = (if pfn < PMM_MAX_PAGES then bits_clear 0 (unat pfn) m else m)"

definition bitmap_test :: "u32 \<Rightarrow> mem \<Rightarrow> bool" where
  "bitmap_test pfn m = (if pfn < PMM_MAX_PAGES then bits_test 0 (unat pfn) m else True)"

section \<open>Initialisation\<close>

text \<open>
  The loop over the map entries: a packed entry has \<open>size\<close> at offset 0, \<open>base_addr\<close> at 4,
  \<open>length\<close> at 12 and \<open>type\<close> at 20. An iteration moves on by \<open>size + 4\<close> bytes, so it ends.
\<close>

definition mmap_entry :: "mem \<Rightarrow> nat \<Rightarrow> 'a pmm_scheme \<Rightarrow> 'a pmm_scheme" where
  "mmap_entry phys entry s =
     (let base = rd64 phys (entry + 4); len = rd64 phys (entry + 12); n = num_regions s
      in if base < 0x100000000
         then let len = (if base + len > 0x100000000 then 0x100000000 - base else len)
              in s\<lparr>mem_regions := (mem_regions s)(unat n :=
                     \<lparr>mr_base = ucast base, mr_length = ucast len, mr_type = rd32 phys (entry + 20)\<rparr>),
                   num_regions := n + 1\<rparr>
         else s)"

function mmap_loop :: "mem \<Rightarrow> nat \<Rightarrow> nat \<Rightarrow> 'a pmm_scheme \<Rightarrow> 'a pmm_scheme" where
  "mmap_loop phys entry lim s =
     (if entry < lim \<and> num_regions s < MAX_MEM_REGIONS
      then mmap_loop phys (entry + unat (rd32 phys entry) + 4) lim (mmap_entry phys entry s)
      else s)"
  by pat_completeness auto
termination by (relation "measure (\<lambda>(phys, entry, lim, s). lim - entry)") auto

definition parse_mmap :: "mem \<Rightarrow> multiboot_info \<Rightarrow> 'a pmm_scheme \<Rightarrow> 'a pmm_scheme" where
  "parse_mmap phys mboot s =
     (if mb_flags mboot AND MULTIBOOT_FLAG_MMAP = 0
      then if mb_flags mboot AND MULTIBOOT_FLAG_MEM \<noteq> 0
           then s\<lparr>mem_regions := (mem_regions s)(
                    0 := \<lparr>mr_base = 0, mr_length = mb_mem_lower mboot * 1024,
                          mr_type = MEM_REGION_AVAILABLE\<rparr>,
                    1 := \<lparr>mr_base = 0x100000, mr_length = mb_mem_upper mboot * 1024,
                          mr_type = MEM_REGION_AVAILABLE\<rparr>),
                  num_regions := 2\<rparr>
           else s
      else mmap_loop phys (unat (mb_mmap_addr mboot))
             (unat (mb_mmap_addr mboot + mb_mmap_length mboot)) s)"

definition free_frame :: "u32 \<Rightarrow> 'a pmm_scheme \<Rightarrow> 'a pmm_scheme" where
  "free_frame pfn s =
     s\<lparr>page_bitmap := bitmap_clear pfn (page_bitmap s), free_pages := free_pages s + 1,
       highest_page := (if pfn > highest_page s then pfn else highest_page s)\<rparr>"

definition region_pfns :: "mem_region \<Rightarrow> u32 \<times> u32" where
  "region_pfns r =
     (let base = page_align_up (mr_base r); lim = page_align_down (mr_base r + mr_length r)
      in if lim \<le> base then (0, 0)
         else (addr_to_pfn base,
               if addr_to_pfn lim > PMM_MAX_PAGES then PMM_MAX_PAGES else addr_to_pfn lim))"

definition free_region :: "mem_region \<Rightarrow> 'a pmm_scheme \<Rightarrow> 'a pmm_scheme" where
  "free_region r s =
     (if mr_type r \<noteq> MEM_REGION_AVAILABLE then s
      else let (start_pfn, end_pfn) = region_pfns r in wfor start_pfn end_pfn free_frame s)"

definition init_bitmap :: "'a pmm_scheme \<Rightarrow> 'a pmm_scheme" where
  "init_bitmap s =
     (let s = s\<lparr>page_bitmap := wfor 0 BITMAP_SIZE (\<lambda>i b. b(unat i := 0xFF)) (page_bitmap s)\<rparr>;
          s = wfor 0 (num_regions s) (\<lambda>r t. free_region (mem_regions t (unat r)) t) s
      in s\<lparr>total_pages := highest_page s + 1\<rparr>)"

definition reserve_frame :: "u32 \<Rightarrow> 'a pmm_scheme \<Rightarrow> 'a pmm_scheme" where
  "reserve_frame pfn s =
     (if \<not> bitmap_test pfn (page_bitmap s)
      then s\<lparr>page_bitmap := bitmap_set pfn (page_bitmap s), free_pages := free_pages s - 1\<rparr>
      else s)"

definition pmm_reserve_range :: "u32 \<Rightarrow> u32 \<Rightarrow> 'a pmm_scheme \<Rightarrow> 'a pmm_scheme" where
  "pmm_reserve_range base len s =
     (let start_pfn = addr_to_pfn (page_align_down base);
          end_pfn = addr_to_pfn (page_align_up (base + len));
          end_pfn = (if end_pfn > PMM_MAX_PAGES then PMM_MAX_PAGES else end_pfn)
      in wfor start_pfn end_pfn reserve_frame s)"

definition reserve_kernel :: "u32 \<Rightarrow> u32 \<Rightarrow> 'a pmm_scheme \<Rightarrow> 'a pmm_scheme" where
  "reserve_kernel kernel_start kernel_end s =
     pmm_reserve_range kernel_start (kernel_end - kernel_start) (pmm_reserve_range 0 0x100000 s)"

definition count_frame :: "u32 \<Rightarrow> 'a pmm_scheme \<Rightarrow> 'a pmm_scheme" where
  "count_frame pfn s =
     (if \<not> bitmap_test pfn (page_bitmap s)
      then let i = (if pfn < node_boundary_pfn s then 0 else 1 :: nat); n = numa_nodes s i
           in s\<lparr>numa_nodes := (numa_nodes s)(i := n\<lparr>nn_free_pages := nn_free_pages n + 1\<rparr>)\<rparr>
      else s)"

definition set_used :: "nat \<Rightarrow> 'a pmm_scheme \<Rightarrow> 'a pmm_scheme" where
  "set_used i s = (let n = numa_nodes s i in
     s\<lparr>numa_nodes := (numa_nodes s)(i := n\<lparr>nn_used_pages := nn_total_pages n - nn_free_pages n\<rparr>)\<rparr>)"

text \<open>
  The counting loop runs while \<^verbatim>\<open>pfn <= highest_page\<close>; \<open>highest_page\<close> is below 65536, so its
  successor is a bound.
\<close>

definition setup_numa_nodes :: "'a pmm_scheme \<Rightarrow> 'a pmm_scheme" where
  "setup_numa_nodes s =
     (let usable_start_pfn = 256;
          usable_pages = highest_page s - usable_start_pfn + 1;
          boundary = usable_start_pfn + usable_pages div 2;
          n0 = \<lparr>nn_node_id = 0, nn_base_addr = pfn_to_addr usable_start_pfn,
                nn_start_pfn = usable_start_pfn, nn_end_pfn = boundary,
                nn_total_pages = boundary - usable_start_pfn, nn_free_pages = 0, nn_used_pages = 0\<rparr>;
          n1 = \<lparr>nn_node_id = 1, nn_base_addr = pfn_to_addr boundary,
                nn_start_pfn = boundary, nn_end_pfn = highest_page s + 1,
                nn_total_pages = (highest_page s + 1) - boundary, nn_free_pages = 0, nn_used_pages = 0\<rparr>;
          s = s\<lparr>node_boundary_pfn := boundary, numa_nodes := (numa_nodes s)(0 := n0, 1 := n1),
                numa_node_count := 2\<rparr>;
          s = wfor usable_start_pfn (highest_page s + 1) count_frame s
      in set_used 1 (set_used 0 s))"

definition load_regions :: "mem \<Rightarrow> multiboot_info option \<Rightarrow> 'a pmm_scheme \<Rightarrow> 'a pmm_scheme" where
  "load_regions phys mboot_info s =
     (case mboot_info of
        Some mb \<Rightarrow> parse_mmap phys mb s
      | None \<Rightarrow> s\<lparr>mem_regions := (mem_regions s)(
            0 := \<lparr>mr_base = 0, mr_length = 640 * 1024, mr_type = MEM_REGION_AVAILABLE\<rparr>,
            1 := \<lparr>mr_base = 0x100000, mr_length = 128 * 1024 * 1024 - 0x100000,
                  mr_type = MEM_REGION_AVAILABLE\<rparr>),
            num_regions := 2\<rparr>)"

definition pmm_init ::
    "mem \<Rightarrow> u32 \<Rightarrow> u32 \<Rightarrow> multiboot_info option \<Rightarrow> 'a pmm_scheme \<Rightarrow> 'a pmm_scheme" where
  "pmm_init phys kernel_start kernel_end mboot_info s =
     (let s = load_regions phys mboot_info s;
          s = setup_numa_nodes (reserve_kernel kernel_start kernel_end (init_bitmap s))
      in flightrec_log TRACE_EVT_BOOT 0 0 (free_pages s) s)"

section \<open>Allocation\<close>

definition pmm_addr_to_node :: "u32 \<Rightarrow> 'a pmm_scheme \<Rightarrow> u8" where
  "pmm_addr_to_node addr s =
     (let pfn = addr_to_pfn addr
      in case wfind 0 (numa_node_count s) (\<lambda>i. pfn \<ge> nn_start_pfn (numa_nodes s (unat i)) \<and>
                                               pfn < nn_end_pfn (numa_nodes s (unat i))) of
           Some i \<Rightarrow> i
         | None \<Rightarrow> 0)"

text \<open>Charging \<open>count\<close> pages to a node, and giving one back.\<close>

definition charge_node :: "u8 \<Rightarrow> u32 \<Rightarrow> 'a pmm_scheme \<Rightarrow> 'a pmm_scheme" where
  "charge_node node count s = (let n = numa_nodes s (unat node) in
     s\<lparr>numa_nodes := (numa_nodes s)(unat node :=
         n\<lparr>nn_free_pages := nn_free_pages n - count, nn_used_pages := nn_used_pages n + count\<rparr>)\<rparr>)"

definition alloc_from_node :: "u8 \<Rightarrow> 'a pmm_scheme \<Rightarrow> u32 \<times> 'a pmm_scheme" where
  "alloc_from_node node s =
     (if node \<ge> numa_node_count s then (0, s)
      else let n = numa_nodes s (unat node)
        in case wfind (nn_start_pfn n) (nn_end_pfn n) (\<lambda>pfn. \<not> bitmap_test pfn (page_bitmap s)) of
             None \<Rightarrow> (0, s)
           | Some pfn \<Rightarrow>
               (pfn_to_addr pfn,
                charge_node node 1
                  (s\<lparr>page_bitmap := bitmap_set pfn (page_bitmap s), free_pages := free_pages s - 1\<rparr>)))"

definition pmm_alloc_page :: "u8 \<Rightarrow> 'a pmm_scheme \<Rightarrow> u32 \<times> 'a pmm_scheme" where
  "pmm_alloc_page node s =
     (if node = NUMA_NODE_ANY
      then let (addr, s) = alloc_from_node 0 s
        in if addr \<noteq> 0 then (addr, s)
           else let (addr, s) = alloc_from_node 1 s
                in (addr, if addr \<noteq> 0 then flightrec_log TRACE_EVT_MEM_LOCALITY_MISS 0 0 1 s else s)
      else
        let (node, s) = (if node \<ge> numa_node_count s
                         then (0, flightrec_log TRACE_EVT_MEM_NODE_UNSUPPORTED 0 0 (ucast node) s)
                         else (node, s));
            (addr, s) = alloc_from_node node s
        in if addr \<noteq> 0 then (addr, s)
           else case wtry 0 (numa_node_count s) (\<lambda>i s.
                  if i = node then (None, s)
                  else let (addr, s) = alloc_from_node i s
                       in if addr \<noteq> 0
                          then (Some addr, flightrec_log TRACE_EVT_MEM_LOCALITY_MISS 0 (ucast node) (ucast i) s)
                          else (None, s)) s of
                (Some addr, s) \<Rightarrow> (addr, s)
              | (None, s) \<Rightarrow> (0, flightrec_log TRACE_EVT_MEM_ALLOC_FAIL 0 (ucast node) 1 s))"

text \<open>
  The search for a run of \<open>count\<close> free pages, in 32-bit arithmetic: \<open>None\<close> if the loop never
  ends, \<open>Some None\<close> if there is no run, \<open>Some (Some pfn)\<close> if one starts at \<open>pfn\<close>.
\<close>

partial_function (option) find_run :: "u32 \<Rightarrow> u32 \<Rightarrow> mem \<Rightarrow> u32 \<Rightarrow> u32 option option" where
  "find_run count search_end m start_pfn =
     (if start_pfn + count \<le> search_end
      then case wfind 0 count (\<lambda>i. bitmap_test (start_pfn + i) m) of
             None \<Rightarrow> Some (Some start_pfn)
           | Some i \<Rightarrow> find_run count search_end m (start_pfn + i + 1)
      else Some None)"

definition take_run :: "u32 \<Rightarrow> u8 \<Rightarrow> u8 \<Rightarrow> u32 \<Rightarrow> 'a pmm_scheme \<Rightarrow> u32 \<times> 'a pmm_scheme" where
  "take_run count node target_node start_pfn s =
     (let s = s\<lparr>page_bitmap := wfor 0 count (\<lambda>i. bitmap_set (start_pfn + i)) (page_bitmap s),
                free_pages := free_pages s - count\<rparr>;
          target_node = (if node = NUMA_NODE_ANY then pmm_addr_to_node (pfn_to_addr start_pfn) s
                         else target_node)
      in (pfn_to_addr start_pfn, charge_node target_node count s))"

text \<open>
  \<^verbatim>\<open>pmm_alloc_pages\<close> calls itself for the other nodes. The first argument is the depth of the
  call stack that is left; \<open>None\<close> means that the call needs more.
\<close>

fun pmm_alloc_pages :: "nat \<Rightarrow> u32 \<Rightarrow> u8 \<Rightarrow> 'a pmm_scheme \<Rightarrow> (u32 \<times> 'a pmm_scheme) option" where
  "pmm_alloc_pages 0 count node s = None"
| "pmm_alloc_pages (Suc depth) count node s =
     (if count = 0 then Some (0, s)
      else if count = 1 then Some (pmm_alloc_page node s)
      else
        let (node, s) = (if node \<noteq> NUMA_NODE_ANY \<and> node \<ge> numa_node_count s
                         then (0, flightrec_log TRACE_EVT_MEM_NODE_UNSUPPORTED 0 0 (ucast node) s)
                         else (node, s));
            (search_start, search_end, target_node) =
              (if node = NUMA_NODE_ANY then (256, highest_page s + 1, 0)
               else (nn_start_pfn (numa_nodes s (unat node)), nn_end_pfn (numa_nodes s (unat node)), node))
        in case find_run count search_end (page_bitmap s) search_start of
             None \<Rightarrow> None
           | Some (Some start_pfn) \<Rightarrow> Some (take_run count node target_node start_pfn s)
           | Some None \<Rightarrow>
               (case (if node \<noteq> NUMA_NODE_ANY
                      then wtryo 0 (numa_node_count s) (\<lambda>i s.
                             if i = node then Some (None, s)
                             else case pmm_alloc_pages depth count i s of
                                    None \<Rightarrow> None
                                  | Some (addr, s) \<Rightarrow>
                                      Some (if addr \<noteq> 0
                                        then (Some addr, flightrec_log TRACE_EVT_MEM_LOCALITY_MISS 0
                                                           (ucast node) (ucast i) s)
                                        else (None, s))) s
                      else Some (None, s)) of
                  None \<Rightarrow> None
                | Some (Some addr, s) \<Rightarrow> Some (addr, s)
                | Some (None, s) \<Rightarrow>
                    Some (0, flightrec_log TRACE_EVT_MEM_ALLOC_FAIL 0 (ucast node) count s)))"

definition pmm_free_page :: "u32 \<Rightarrow> 'a pmm_scheme \<Rightarrow> 'a pmm_scheme" where
  "pmm_free_page addr s =
     (let pfn = addr_to_pfn addr
      in if pfn > highest_page s then s
         else if \<not> bitmap_test pfn (page_bitmap s) then s
         else let s = s\<lparr>page_bitmap := bitmap_clear pfn (page_bitmap s), free_pages := free_pages s + 1\<rparr>;
                  node = pmm_addr_to_node addr s;
                  n = numa_nodes s (unat node)
              in if node < numa_node_count s
                 then s\<lparr>numa_nodes := (numa_nodes s)(unat node :=
                        n\<lparr>nn_free_pages := nn_free_pages n + 1, nn_used_pages := nn_used_pages n - 1\<rparr>)\<rparr>
                 else s)"

definition pmm_free_pages :: "u32 \<Rightarrow> u32 \<Rightarrow> 'a pmm_scheme \<Rightarrow> 'a pmm_scheme" where
  "pmm_free_pages addr count s = wfor 0 count (\<lambda>i. pmm_free_page (addr + i * PAGE_SIZE)) s"

definition pmm_get_stats :: "'a pmm_scheme \<Rightarrow> pmm_stats" where
  "pmm_get_stats s =
     (let total = (highest_page s + 1) * 4; free = free_pages s * 4
      in \<lparr>ps_total_memory_kb = total, ps_free_memory_kb = free, ps_used_memory_kb = total - free,
          ps_reserved_memory_kb = 0, ps_total_pages = total_pages s, ps_free_pages = free_pages s,
          ps_num_regions = num_regions s, ps_num_nodes = ucast (numa_node_count s)\<rparr>)"

definition pmm_get_node :: "u8 \<Rightarrow> 'a pmm_scheme \<Rightarrow> numa_node option" where
  "pmm_get_node node_id s =
     (if node_id < numa_node_count s then Some (numa_nodes s (unat node_id)) else None)"

definition pmm_get_node_count :: "'a pmm_scheme \<Rightarrow> u8" where
  "pmm_get_node_count s = numa_node_count s"

section \<open>Free frames\<close>

interpretation pmm_map: bitmap bitmap_set bitmap_clear bitmap_test PMM_MAX_PAGES
  by unfold_locales
     (auto simp: bitmap_set_def bitmap_clear_def bitmap_test_def bits_test_set bits_test_clear
       word_unat_eq_iff word_less_nat_alt word_le_nat_alt)

text \<open>The abstract state of the allocator: the set of free page frames.\<close>

definition frames :: "'a pmm_scheme \<Rightarrow> u32 set" where
  "frames s = clear_bits bitmap_test (page_bitmap s)"

definition node_range :: "numa_node \<Rightarrow> u32 set" where
  "node_range n = {nn_start_pfn n..<nn_end_pfn n}"

definition node_frames :: "'a pmm_scheme \<Rightarrow> u8 \<Rightarrow> u32 set" where
  "node_frames s i = frames s \<inter> node_range (numa_nodes s (unat i))"

text \<open>Two adjacent nodes that cover the frames from 1 MB up to the highest page.\<close>

definition pmm_topology :: "'a pmm_scheme \<Rightarrow> bool" where
  "pmm_topology s \<longleftrightarrow> numa_node_count s = 2 \<and> nn_start_pfn (numa_nodes s 0) = 256 \<and>
     nn_end_pfn (numa_nodes s 0) = nn_start_pfn (numa_nodes s 1) \<and>
     256 \<le> nn_start_pfn (numa_nodes s 1) \<and> nn_start_pfn (numa_nodes s 1) \<le> nn_end_pfn (numa_nodes s 1) \<and>
     nn_end_pfn (numa_nodes s 1) = highest_page s + 1 \<and> highest_page s < PMM_MAX_PAGES"

definition node_count_ok :: "'a pmm_scheme \<Rightarrow> u8 \<Rightarrow> bool" where
  "node_count_ok s i \<longleftrightarrow>
     unat (nn_free_pages (numa_nodes s (unat i))) = card (node_frames s i) \<and>
     nn_free_pages (numa_nodes s (unat i)) + nn_used_pages (numa_nodes s (unat i)) =
       nn_total_pages (numa_nodes s (unat i))"

text \<open>
  The invariant: no frame below 1 MB or above the highest page is free, the global counter and
  both node counters are the numbers of free frames.
\<close>

definition pmm_wf :: "'a pmm_scheme \<Rightarrow> bool" where
  "pmm_wf s \<longleftrightarrow> pmm_topology s \<and> frames s \<subseteq> {256..highest_page s} \<and>
     unat (free_pages s) = card (frames s) \<and> node_count_ok s 0 \<and> node_count_ok s 1"

lemma pmm_log_fields [simp]:
  "page_bitmap (flightrec_log t j st x s) = page_bitmap s"
  "mem_regions (flightrec_log t j st x s) = mem_regions s"
  "num_regions (flightrec_log t j st x s) = num_regions s"
  "numa_nodes (flightrec_log t j st x s) = numa_nodes s"
  "numa_node_count (flightrec_log t j st x s) = numa_node_count s"
  "free_pages (flightrec_log t j st x s) = free_pages s"
  "highest_page (flightrec_log t j st x s) = highest_page s"
  by (simp_all add: flightrec_log_def Let_def split_beta time_cycles_def time_usec_def rdtsc_def)

lemma frames_log [simp]: "frames (flightrec_log t j st x s) = frames s"
  by (simp add: frames_def)

lemma node_frames_log [simp]: "node_frames (flightrec_log t j st x s) i = node_frames s i"
  by (simp add: node_frames_def)

lemma pmm_wf_log [simp]: "pmm_wf (flightrec_log t j st x s) = pmm_wf s"
  by (simp add: pmm_wf_def pmm_topology_def node_count_ok_def)

lemma finite_frames [simp]: "finite (frames s)"
  by simp

lemma node_cases: "(i :: u8) < 2 \<Longrightarrow> i = 0 \<or> i = 1"
  by (auto simp: word_less_nat_alt word_unat_eq_iff)

lemma frames_split:
  assumes "pmm_topology s" and "frames s \<subseteq> {256..highest_page s}"
  shows "frames s = node_frames s 0 \<union> node_frames s 1" "node_frames s 0 \<inter> node_frames s 1 = {}"
proof -
  have "p < highest_page s + 1" if "p \<le> highest_page s" for p
  proof -
    have "highest_page s < PMM_MAX_PAGES" using assms(1) by (simp add: pmm_topology_def)
    from unat_Suc_less [OF this] that show ?thesis by (simp add: word_le_nat_alt word_less_nat_alt)
  qed
  then show "frames s = node_frames s 0 \<union> node_frames s 1" "node_frames s 0 \<inter> node_frames s 1 = {}"
    using assms by (auto simp: node_frames_def node_range_def pmm_topology_def subset_iff)
qed

lemma charge_node_fields [simp]:
  "page_bitmap (charge_node i c s) = page_bitmap s" "free_pages (charge_node i c s) = free_pages s"
  "highest_page (charge_node i c s) = highest_page s"
  "numa_node_count (charge_node i c s) = numa_node_count s"
  "nn_start_pfn (numa_nodes (charge_node i c s) j) = nn_start_pfn (numa_nodes s j)"
  "nn_end_pfn (numa_nodes (charge_node i c s) j) = nn_end_pfn (numa_nodes s j)"
  "nn_total_pages (numa_nodes (charge_node i c s) j) = nn_total_pages (numa_nodes s j)"
  "nn_free_pages (numa_nodes (charge_node i c s) j) =
     nn_free_pages (numa_nodes s j) - (if j = unat i then c else 0)"
  "nn_used_pages (numa_nodes (charge_node i c s) j) =
     nn_used_pages (numa_nodes s j) + (if j = unat i then c else 0)"
  by (simp_all add: charge_node_def Let_def)

lemma node_range_charge [simp]: "node_range (numa_nodes (charge_node i c s) j) = node_range (numa_nodes s j)"
  by (simp add: node_range_def)

text \<open>
  The accounting argument of both allocators: marking a set \<open>P\<close> of free frames of one node used
  and charging that many pages to the node keeps the invariant.
\<close>

lemma charge_wf:
  assumes wf: "pmm_wf s" and m: "clear_bits bitmap_test m = frames s - P"
    and P: "P \<subseteq> node_frames s i" and i: "i < 2" and c: "card P = unat c"
  shows "pmm_wf (charge_node i c (s\<lparr>page_bitmap := m, free_pages := free_pages s - c\<rparr>))"
proof -
  let ?t = "charge_node i c (s\<lparr>page_bitmap := m, free_pages := free_pages s - c\<rparr>)"
  have sub: "unat (x - c) = card (A - P)" if "unat x = card A" "P \<subseteq> A" for x :: u32 and A :: "u32 set"
  proof -
    have "card P \<le> card A" using that(2) by (simp add: card_mono)
    then have "c \<le> x" using that(1) c by (simp add: word_le_nat_alt)
    then show ?thesis using that c by (simp add: unat_sub_no_wrap card_Diff_subset)
  qed
  have fr: "frames ?t = frames s - P" by (simp add: frames_def m)
  have nf: "node_frames ?t j = node_frames s j - P" for j
    using fr by (auto simp: node_frames_def)
  have other: "node_frames s j - P = node_frames s j" if "j < 2" "j \<noteq> i" for j
    using node_cases [OF i] node_cases [OF that(1)] that(2) P frames_split [of s] wf
    by (auto simp: pmm_wf_def)
  have cnt: "node_count_ok ?t j" if "j < 2" for j
  proof (cases "j = i")
    case True
    have "node_count_ok s i" using wf node_cases [OF i] by (auto simp: pmm_wf_def)
    then show ?thesis using True P sub by (simp add: node_count_ok_def nf)
  next
    case False
    have "node_count_ok s j" using wf node_cases [OF that] by (auto simp: pmm_wf_def)
    then show ?thesis using False other [OF that False] by (simp add: node_count_ok_def nf word_unat_eq_iff)
  qed
  have "unat (free_pages s - c) = card (frames s - P)"
    using wf P by (intro sub) (auto simp: pmm_wf_def node_frames_def)
  then show ?thesis
    using wf cnt fr by (auto simp: pmm_wf_def pmm_topology_def)
qed

section \<open>Single pages\<close>

lemma pfn_to_addr_inverse:
  "p < PMM_MAX_PAGES \<Longrightarrow> addr_to_pfn (pfn_to_addr p) = p"
proof -
  assume "p < PMM_MAX_PAGES"
  then have "unat p < 65536" by (simp add: PMM_MAX_PAGES_def word_less_nat_alt)
  then have "unat (push_bit 12 p) = unat p * 4096"
    by (simp add: push_bit_eq_mult unat_word_ariths)
  then have "unat (drop_bit 12 (push_bit 12 p)) = unat p"
    by (simp add: drop_bit_eq_div unat_div)
  then show ?thesis by (simp add: addr_to_pfn_def pfn_to_addr_def word_unat_eq_iff)
qed

lemma pfn_to_addr_nonzero: "p < PMM_MAX_PAGES \<Longrightarrow> p \<noteq> 0 \<Longrightarrow> pfn_to_addr p \<noteq> 0"
  using pfn_to_addr_inverse [of p] by (auto simp: addr_to_pfn_def)

lemma wf_frame_bounds:
  assumes "pmm_wf s" and "p \<in> frames s"
  shows "p < PMM_MAX_PAGES" "p \<noteq> 0" "pfn_to_addr p \<noteq> 0"
proof -
  show "p < PMM_MAX_PAGES" using assms(2) pmm_map.clear_less by (simp add: frames_def)
  moreover show "p \<noteq> 0" using assms by (auto simp: pmm_wf_def)
  ultimately show "pfn_to_addr p \<noteq> 0" by (rule pfn_to_addr_nonzero)
qed

lemma frames_iff: "p \<in> frames s \<longleftrightarrow> \<not> bitmap_test p (page_bitmap s)"
  by (simp add: frames_def clear_bits_def)

lemma extend_frames [simp]: "frames (pmm.extend s m) = frames s" "pmm_wf (pmm.extend s m) = pmm_wf s"
  by (simp_all add: frames_def pmm_wf_def pmm_topology_def node_count_ok_def node_frames_def pmm.defs)

lemma alloc_from_node_spec:
  assumes wf: "pmm_wf s" and i: "i < 2"
  shows "if node_frames s i = {} then alloc_from_node i s = (0, s)
    else \<exists>p t. alloc_from_node i s = (pfn_to_addr p, t) \<and> p \<in> node_frames s i \<and>
           frames t = frames s - {p} \<and> pmm_wf t"
proof -
  let ?n = "numa_nodes s (unat i)"
  let ?w = "wfind (nn_start_pfn ?n) (nn_end_pfn ?n) (\<lambda>pfn. \<not> bitmap_test pfn (page_bitmap s))"
  have nc: "\<not> numa_node_count s \<le> i" using wf i by (simp add: pmm_wf_def pmm_topology_def)
  have nf: "p \<in> node_frames s i \<longleftrightarrow> nn_start_pfn ?n \<le> p \<and> p < nn_end_pfn ?n \<and>
      \<not> bitmap_test p (page_bitmap s)" for p
    by (auto simp: node_frames_def node_range_def frames_iff)
  show ?thesis
  proof (cases ?w)
    case None
    then have "node_frames s i = {}" using nf by (auto simp: wfind_eq_None_iff)
    then show ?thesis using None nc by (simp add: alloc_from_node_def)
  next
    case (Some p)
    let ?t = "charge_node i 1
      (s\<lparr>page_bitmap := bitmap_set p (page_bitmap s), free_pages := free_pages s - 1\<rparr>)"
    have p: "p \<in> node_frames s i" using wfind_SomeD [OF Some] nf by blast
    have m: "clear_bits bitmap_test (bitmap_set p (page_bitmap s)) = frames s - {p}"
      by (simp add: pmm_map.clear_bits_set frames_def)
    have "alloc_from_node i s = (pfn_to_addr p, ?t)" using Some nc by (simp add: alloc_from_node_def)
    moreover have "frames ?t = frames s - {p}" using m by (simp add: frames_def)
    moreover have "pmm_wf ?t" using charge_wf [OF wf m _ i, of 1] p by simp
    ultimately show ?thesis using p by auto
  qed
qed

text \<open>What a caller gets: the null address, or a frame of the set \<open>A\<close> that is now taken.\<close>

definition page_result :: "u32 set \<Rightarrow> 'a pmm_scheme \<Rightarrow> u32 \<times> 'a pmm_scheme \<Rightarrow> bool" where
  "page_result A s r \<longleftrightarrow> pmm_wf (snd r) \<and>
     (if frames s = {} then fst r = 0 \<and> frames (snd r) = {}
      else \<exists>p\<in>frames s. (A \<inter> frames s \<noteq> {} \<longrightarrow> p \<in> A) \<and> fst r = pfn_to_addr p \<and> fst r \<noteq> 0 \<and>
             frames (snd r) = frames s - {p})"

lemma alloc_from_node_cases:
  assumes "pmm_wf s" and "i < 2"
  obtains "node_frames s i = {}" "alloc_from_node i s = (0, s)"
  | p t where "alloc_from_node i s = (pfn_to_addr p, t)" "pfn_to_addr p \<noteq> 0" "p \<in> node_frames s i"
      "p \<in> frames s" "frames t = frames s - {p}" "pmm_wf t"
  using alloc_from_node_spec [OF assms] wf_frame_bounds(3) [OF assms(1)]
  by (auto simp: node_frames_def split: if_splits)

text \<open>Trying the node \<open>i\<close> and then the other one.\<close>

lemma two_nodes:
  assumes "pmm_wf s" and "(i, j) = (0, 1) \<or> (i, j) = (1, 0)"
    and "alloc_from_node i s = (a, t)" and "alloc_from_node j s = (b, u)"
  shows "page_result (node_range (numa_nodes s (unat i))) s (if a \<noteq> 0 then (a, t) else (b, u))"
proof -
  have i: "i < 2" "j < 2" using assms(2) by auto
  have fr: "frames s = node_frames s i \<union> node_frames s j"
    using frames_split(1) [of s] assms(1,2) by (auto simp: pmm_wf_def)
  from assms(1) i(1) show ?thesis
  proof (cases rule: alloc_from_node_cases)
    case 1
    note none = this
    from assms(1) i(2) show ?thesis
    proof (cases rule: alloc_from_node_cases)
      case 1
      then show ?thesis using none assms fr by (simp add: page_result_def)
    next
      case (2 p t)
      moreover have "node_range (numa_nodes s (unat i)) \<inter> frames s = {}"
        using none(1) by (auto simp: node_frames_def)
      ultimately show ?thesis using none assms fr by (auto simp: page_result_def)
    qed
  next
    case (2 p t)
    then show ?thesis using assms by (auto simp: page_result_def node_frames_def)
  qed
qed

lemma alloc_zero_same:
  "pmm_wf s \<Longrightarrow> i < 2 \<Longrightarrow> alloc_from_node i s = (0, t) \<Longrightarrow> t = s"
  by (erule (1) alloc_from_node_cases) auto

definition preferred_node :: "u8 \<Rightarrow> u8" where
  "preferred_node node = (if node < 2 then node else 0)"

lemma wtry_two:
  "wtry (0 :: u8) 2 f s =
     (case f 0 s of (Some r, t) \<Rightarrow> (Some r, t) | (None, t) \<Rightarrow> f 1 t)"
  by (simp add: wtry.simps [of 0] wtry.simps [of 1] wtry.simps [of 2] split: prod.splits option.splits)

lemma page_result_log [simp]:
  "page_result A (flightrec_log t j st x s) r = page_result A s r"
  "page_result A s (a, flightrec_log t j st x u) = page_result A s (a, u)"
  by (simp_all add: page_result_def)

text \<open>Asking for a page of an existing node: that node, then the other one.\<close>

lemma alloc_page_existing:
  assumes "pmm_wf s" and "node < 2" and "other = 1 - node"
    and "alloc_from_node node s = (a, t)" and "alloc_from_node other s = (b, u)"
  shows "pmm_alloc_page node s =
    (if a \<noteq> 0 then (a, t)
     else if b \<noteq> 0 then (b, flightrec_log TRACE_EVT_MEM_LOCALITY_MISS 0 (ucast node) (ucast other) u)
     else (0, flightrec_log TRACE_EVT_MEM_ALLOC_FAIL 0 (ucast node) 1 s))"
proof -
  have nc: "numa_node_count s = 2" using assms(1) by (simp add: pmm_wf_def pmm_topology_def)
  have lt: "\<not> (2 :: u8) \<le> 1" "\<not> (2 :: u8) \<le> 0" by (simp_all add: word_le_nat_alt)
  have z: "t = s" if "a = 0" using alloc_zero_same [OF assms(1,2)] assms(4) that by simp
  have "other < 2" using node_cases [OF assms(2)] assms(3) by auto
  then have z': "u = s" if "b = 0" using alloc_zero_same [OF assms(1)] assms(5) that by simp
  show ?thesis
    using node_cases [OF assms(2)] assms(3-5) nc z z'
    by (auto simp: pmm_alloc_page_def NUMA_NODE_ANY_def wtry_two Let_def lt)
qed

lemma alloc_page_any:
  assumes "pmm_wf s" and "alloc_from_node 0 s = (a, t)" and "alloc_from_node 1 s = (b, u)"
  shows "pmm_alloc_page NUMA_NODE_ANY s =
    (if a \<noteq> 0 then (a, t)
     else (b, if b \<noteq> 0 then flightrec_log TRACE_EVT_MEM_LOCALITY_MISS 0 0 1 u else u))"
proof -
  have "t = s" if "a = 0" using alloc_zero_same [of s 0] assms(1,2) that by simp
  then show ?thesis using assms(2,3) by (auto simp: pmm_alloc_page_def Let_def)
qed

lemma alloc_page_existing_result:
  assumes "pmm_wf s" and "node < 2"
  shows "page_result (node_range (numa_nodes s (unat node))) s (pmm_alloc_page node s)"
proof -
  let ?other = "1 - node"
  obtain a t b u where r: "alloc_from_node node s = (a, t)" "alloc_from_node ?other s = (b, u)"
    by (metis surj_pair)
  have ij: "(node, ?other) = (0, 1) \<or> (node, ?other) = (1, 0)" using node_cases [OF assms(2)] by auto
  have "?other < 2" using ij by auto
  then have "b = 0 \<Longrightarrow> u = s" using alloc_zero_same [OF assms(1)] r(2) by simp
  then show ?thesis
    using two_nodes [OF assms(1) ij r] unfolding alloc_page_existing [OF assms refl r]
    by (cases "a = 0"; cases "b = 0") simp_all
qed

lemma alloc_page_unknown:
  assumes "pmm_wf s" and "\<not> node < 2" and "node \<noteq> NUMA_NODE_ANY"
  shows "pmm_alloc_page node s =
    pmm_alloc_page 0 (flightrec_log TRACE_EVT_MEM_NODE_UNSUPPORTED 0 0 (ucast node) s)"
  using assms by (simp add: pmm_alloc_page_def pmm_wf_def pmm_topology_def Let_def NUMA_NODE_ANY_def not_less)

lemma alloc_page_result:
  assumes "pmm_wf s"
  shows "page_result (node_range (numa_nodes s (unat (preferred_node node)))) s (pmm_alloc_page node s)"
proof -
  consider "node < 2" | "node = NUMA_NODE_ANY" | "\<not> node < 2" "node \<noteq> NUMA_NODE_ANY" by blast
  then show ?thesis
  proof cases
    case 1
    then show ?thesis using alloc_page_existing_result [OF assms 1] by (simp add: preferred_node_def)
  next
    case 2
    obtain a t b u where r: "alloc_from_node 0 s = (a, t)" "alloc_from_node 1 s = (b, u)"
      by (metis surj_pair)
    have "page_result (node_range (numa_nodes s (unat (0 :: u8)))) s (if a \<noteq> 0 then (a, t) else (b, u))"
      using two_nodes [OF assms _ r] by blast
    then show ?thesis
      unfolding 2 alloc_page_any [OF assms r]
      by (cases "a = 0"; cases "b = 0") (simp_all add: preferred_node_def NUMA_NODE_ANY_def)
  next
    case 3
    let ?s = "flightrec_log TRACE_EVT_MEM_NODE_UNSUPPORTED 0 0 (ucast node) s"
    have "page_result (node_range (numa_nodes ?s (unat (0 :: u8)))) ?s (pmm_alloc_page 0 ?s)"
      using assms by (intro alloc_page_existing_result) simp_all
    then show ?thesis using 3 by (simp add: alloc_page_unknown [OF assms 3] preferred_node_def)
  qed
qed

text \<open>A fact that logging, charging and bitmap updates keep is kept by a page allocation.\<close>

lemma pmm_alloc_page_preserves:
  fixes s :: "'a pmm_scheme"
  assumes "Q s"
    and "\<And>t j st x u. Q u \<Longrightarrow> Q (flightrec_log t j st x (u :: 'a pmm_scheme))"
    and "\<And>i c m f u. Q u \<Longrightarrow> Q (charge_node i c (u\<lparr>page_bitmap := m, free_pages := f\<rparr>))"
  shows "Q (snd (pmm_alloc_page n s))"
proof -
  have node: "Q (snd (alloc_from_node i u))" if "Q u" for i u
    using that assms(3) by (auto simp: alloc_from_node_def Let_def split: option.splits)
  let ?body = "\<lambda>n i s. if i = n then (None, s)
    else let (addr, s) = alloc_from_node i s
         in if addr \<noteq> 0 then (Some addr, flightrec_log TRACE_EVT_MEM_LOCALITY_MISS 0 (ucast n) (ucast i) s)
            else (None, s)"
  have body: "Q (snd (?body m i u))" if "Q u" for m i u
    using node [of u i] that assms(2) by (simp add: split_beta Let_def)
  have loop: "Q (snd (wtry 0 k (?body m) u))" if "Q u" for k m u
    by (rule wtry_preserves [of Q "?body m", OF body that])
  have fall: "Q (snd (case wtry 0 k (?body m) u of (Some addr, s) \<Rightarrow> (addr, s)
      | (None, s) \<Rightarrow> (0, flightrec_log TRACE_EVT_MEM_ALLOC_FAIL 0 (ucast m) 1 s)))" if "Q u" for k m u
    using loop [OF that, of k m] assms(2) by (cases "wtry 0 k (?body m) u") (auto split: option.splits)
  show ?thesis
    using assms(1,2) node fall unfolding pmm_alloc_page_def Let_def
    by (simp add: split_beta)
qed

section \<open>Freeing\<close>

lemma addr_to_node_wf:
  assumes "pmm_topology s" and "256 \<le> addr_to_pfn addr" and "addr_to_pfn addr \<le> highest_page s"
  shows "pmm_addr_to_node addr s < 2 \<and>
    addr_to_pfn addr \<in> node_range (numa_nodes s (unat (pmm_addr_to_node addr s)))"
proof -
  let ?p = "\<lambda>i :: u8. addr_to_pfn addr \<ge> nn_start_pfn (numa_nodes s (unat i)) \<and>
    addr_to_pfn addr < nn_end_pfn (numa_nodes s (unat i))"
  have nc: "numa_node_count s = 2" and hp: "highest_page s < PMM_MAX_PAGES"
    using assms(1) by (simp_all add: pmm_topology_def)
  have "addr_to_pfn addr < highest_page s + 1"
    using assms(3) unat_Suc_less [OF hp] by (simp add: word_le_nat_alt word_less_nat_alt)
  then have "?p 0 \<or> ?p 1" using assms by (auto simp: pmm_topology_def)
  then have "wfind 0 2 ?p \<noteq> None" using wfind_NoneD [of 0 2 ?p 0] wfind_NoneD [of 0 2 ?p 1] by auto
  then obtain i where i: "wfind 0 2 ?p = Some i" by blast
  from wfind_SomeD [OF i] show ?thesis
    by (simp add: pmm_addr_to_node_def i nc node_range_def)
qed

lemma free_page_noop:
  "addr_to_pfn addr > highest_page s \<or> addr_to_pfn addr \<in> frames s \<Longrightarrow> pmm_free_page addr s = s"
  by (auto simp: pmm_free_page_def Let_def frames_iff)

lemma free_page_wf:
  assumes wf: "pmm_wf s" and lo: "256 \<le> addr_to_pfn addr" and hi: "addr_to_pfn addr \<le> highest_page s"
    and used: "addr_to_pfn addr \<notin> frames s"
  shows "pmm_wf (pmm_free_page addr s)"
    and "frames (pmm_free_page addr s) = insert (addr_to_pfn addr) (frames s)"
proof -
  let ?p = "addr_to_pfn addr" and ?i = "pmm_addr_to_node addr s"
  let ?s = "s\<lparr>page_bitmap := bitmap_clear ?p (page_bitmap s), free_pages := free_pages s + 1\<rparr>"
  let ?t = "pmm_free_page addr s"
  have topo: "pmm_topology s" using wf by (simp add: pmm_wf_def)
  note i = addr_to_node_wf [OF topo lo hi]
  have nc: "numa_node_count s = 2" and "highest_page s < PMM_MAX_PAGES"
    using topo by (simp_all add: pmm_topology_def)
  then have p: "?p < PMM_MAX_PAGES" using hi by simp
  have addr_node: "pmm_addr_to_node addr ?s = ?i" by (simp add: pmm_addr_to_node_def)
  have t: "?t = ?s\<lparr>numa_nodes := (numa_nodes s)(unat ?i := (numa_nodes s (unat ?i))
      \<lparr>nn_free_pages := nn_free_pages (numa_nodes s (unat ?i)) + 1,
       nn_used_pages := nn_used_pages (numa_nodes s (unat ?i)) - 1\<rparr>)\<rparr>"
    using hi used i nc addr_node
    by (simp add: pmm_free_page_def Let_def frames_iff not_less [symmetric])
  show fr: "frames ?t = insert ?p (frames s)"
    by (simp add: t frames_def pmm_map.clear_bits_clear [OF p])
  have rng: "node_range (numa_nodes ?t j) = node_range (numa_nodes s j)" for j
    by (simp add: t node_range_def)
  have plus: "unat (x + 1) = card (insert ?p A)"
    if "unat x = card A" "?p \<notin> A" "A \<subseteq> frames s" for x :: u32 and A :: "u32 set"
  proof -
    have "card A \<le> unat PMM_MAX_PAGES"
      using card_mono [OF finite_frames that(3)] pmm_map.card_clear_le [of "page_bitmap s"]
      by (simp add: frames_def)
    then show ?thesis using that by (simp add: PMM_MAX_PAGES_def unat_word_ariths)
  qed
  have cnt: "node_count_ok ?t j" if j: "j < 2" for j
  proof -
    have ok: "node_count_ok s j" using wf node_cases [OF j] by (auto simp: pmm_wf_def)
    show ?thesis
    proof (cases "j = ?i")
      case True
      then have "node_frames ?t j = insert ?p (node_frames s j)"
        using i fr by (auto simp: node_frames_def rng)
      moreover have "?p \<notin> node_frames s j" "node_frames s j \<subseteq> frames s"
        using used by (auto simp: node_frames_def)
      ultimately show ?thesis using ok True plus by (simp add: node_count_ok_def t)
    next
      case False
      have "node_range (numa_nodes s 0) \<inter> node_range (numa_nodes s 1) = {}"
        using topo by (auto simp: node_range_def pmm_topology_def)
      then have "?p \<notin> node_range (numa_nodes s (unat j))"
        using False i node_cases [OF j] node_cases [of ?i] by auto
      then have "node_frames ?t j = node_frames s j" using fr by (auto simp: node_frames_def rng)
      then show ?thesis using ok False by (simp add: node_count_ok_def t word_unat_eq_iff)
    qed
  qed
  have "unat (free_pages s + 1) = card (insert ?p (frames s))"
    using wf used by (intro plus) (simp_all add: pmm_wf_def)
  then show "pmm_wf ?t"
    unfolding pmm_wf_def fr using wf cnt [of 0] cnt [of 1] lo hi
    by (auto simp: pmm_wf_def pmm_topology_def t)
qed

section \<open>Contiguous runs\<close>

definition free_run :: "mem \<Rightarrow> u32 \<Rightarrow> u32 \<Rightarrow> bool" where
  "free_run m p count \<longleftrightarrow> (\<forall>i < count. \<not> bitmap_test (p + i) m)"

lemma bitmap_test_out: "65536 \<le> unat q \<Longrightarrow> bitmap_test q m"
  by (simp add: bitmap_test_def PMM_MAX_PAGES_def word_less_nat_alt)

text \<open>A free run cannot reach frame 65536.\<close>

lemma free_run_no_wrap:
  assumes "free_run m p count" and "count \<noteq> 0"
  shows "unat p + unat count \<le> 65536"
proof (rule ccontr)
  assume big: "\<not> unat p + unat count \<le> 65536"
  let ?j = "of_nat (65536 - unat p) :: u32"
  have j: "unat ?j = 65536 - unat p" by (intro unat_of_nat_u32) simp
  have "0 < unat count" using assms(2) by (simp add: unat_gt_0)
  then have "?j < count" using big j by (simp add: word_less_nat_alt)
  then have "\<not> bitmap_test (p + ?j) m" using assms(1) by (simp add: free_run_def)
  moreover have "unat (p + ?j) = unat p + unat ?j"
    using j unat_u32_less [of p] by (intro unat_add_no_wrap) (cases "unat p \<le> 65536"; simp)
  ultimately show False using bitmap_test_out [of "p + ?j" m] j by simp
qed

lemma first_used_bound:
  assumes "\<forall>j. 0 \<le> j \<and> j < i \<longrightarrow> \<not> bitmap_test (start + j) m"
  shows "unat start + unat i \<le> max 65536 (unat start)"
proof (cases "i = 0")
  case False
  moreover have "free_run m start i" using assms by (simp add: free_run_def)
  ultimately show ?thesis using free_run_no_wrap by fastforce
qed simp

definition run_result :: "mem \<Rightarrow> u32 \<Rightarrow> u32 \<Rightarrow> u32 \<Rightarrow> u32 option \<Rightarrow> bool" where
  "run_result m count search_end start r \<longleftrightarrow> (case r of
     Some p \<Rightarrow> start \<le> p \<and> unat p + unat count \<le> unat search_end \<and> free_run m p count
   | None \<Rightarrow> \<forall>q. start \<le> q \<and> unat q + unat count \<le> unat search_end \<longrightarrow> \<not> free_run m q count)"

text \<open>
  The start of the search stays small even for absurd values of \<open>count\<close>, for which
  \<^verbatim>\<open>start_pfn + count\<close> wraps around and passes the test against \<^verbatim>\<open>search_end\<close>.
\<close>

definition search_bound :: "u32 \<Rightarrow> u32 \<Rightarrow> bool" where
  "search_bound count start \<longleftrightarrow> unat start \<le> 65537 \<or>
     unat start \<le> 131075 \<and> 2 ^ 32 \<le> unat count + 65537"

lemma search_step:
  assumes "search_bound count start" and "unat search_end \<le> 65537" and "start + count \<le> search_end"
    and "i < count" and "\<forall>j. 0 \<le> j \<and> j < i \<longrightarrow> \<not> bitmap_test (start + j) m"
  shows "unat (start + i + 1) = unat start + unat i + 1" and "search_bound count (start + i + 1)"
proof -
  note b = first_used_bound [OF assms(5)]
  have s: "unat start \<le> 131075" using assms(1) by (auto simp: search_bound_def)
  then have si: "unat (start + i) = unat start + unat i" using b by (intro unat_add_no_wrap) simp
  then show eq: "unat (start + i + 1) = unat start + unat i + 1"
    using b s by (subst unat_add_no_wrap) simp_all
  show "search_bound count (start + i + 1)"
  proof (cases "unat start \<le> 65536")
    case True
    then show ?thesis using b eq by (simp add: search_bound_def)
  next
    case False
    then have i: "unat i = 0" and big: "65537 \<le> unat start" using b by simp_all
    have c: "0 < unat count" using assms(4) by (simp add: word_less_nat_alt)
    have "unat (start + count) \<le> 65537" using assms(2,3) by (simp add: word_le_nat_alt)
    moreover have "unat (start + count) =
        (if unat start + unat count < 2 ^ 32 then unat start + unat count
         else unat start + unat count - 2 ^ 32)"
      using s unat_u32_less [of count] by (simp add: unat_word_ariths mod_if del: unat_u32_less)
    ultimately have "2 ^ 32 \<le> unat start + unat count" "unat start + unat count \<le> 2 ^ 32 + 65537"
      using big c by (auto split: if_splits)
    then show ?thesis using assms(1) eq i big by (auto simp: search_bound_def)
  qed
qed

lemma find_run_terminates:
  assumes "search_bound count start" and "unat search_end \<le> 65537"
  shows "\<exists>r. find_run count search_end m start = Some r \<and> run_result m count search_end start r"
  using assms
proof (induction "2 ^ 18 - unat start" arbitrary: start rule: less_induct)
  case less
  let ?w = "wfind 0 count (\<lambda>i. bitmap_test (start + i) m)"
  show ?case
  proof (cases "start + count \<le> search_end")
    case False
    have "unat (start + count) = unat start + unat count"
      if "start \<le> q" "unat q + unat count \<le> unat search_end" for q
      using that less.prems(2) by (intro unat_add_no_wrap) (simp add: word_le_nat_alt)
    then have "run_result m count search_end start None"
      using False by (fastforce simp: run_result_def word_le_nat_alt)
    then show ?thesis using False by (subst find_run.simps) simp
  next
    case True
    show ?thesis
    proof (cases ?w)
      case None
      then have run: "free_run m start count" by (simp add: wfind_eq_None_iff free_run_def)
      have "unat start + unat count \<le> unat search_end"
      proof (cases "count = 0")
        case False
        then have "unat (start + count) = unat start + unat count"
          using free_run_no_wrap [OF run] by (intro unat_add_no_wrap) simp
        then show ?thesis using True by (simp add: word_le_nat_alt)
      qed (use True in \<open>simp add: word_le_nat_alt\<close>)
      then show ?thesis using True None run by (subst find_run.simps) (simp add: run_result_def)
    next
      case (Some i)
      note i = wfind_SomeD [OF Some]
      have ic: "i < count" and first: "\<forall>j. 0 \<le> j \<and> j < i \<longrightarrow> \<not> bitmap_test (start + j) m"
        using i by auto
      note st = search_step [OF less.prems True ic first]
      have "unat start < 2 ^ 18" using less.prems(1) by (auto simp: search_bound_def)
      then have "2 ^ 18 - unat (start + i + 1) < 2 ^ 18 - unat start" using st(1) by simp
      from less.hyps [OF this st(2) less.prems(2)] obtain r where
        r: "find_run count search_end m (start + i + 1) = Some r"
          "run_result m count search_end (start + i + 1) r" by blast
      have "\<not> free_run m q count"
        if q: "start \<le> q" "\<not> start + i + 1 \<le> q" "unat q + unat count \<le> unat search_end" for q
      proof
        assume run: "free_run m q count"
        have qs: "unat start \<le> unat q" "unat q \<le> unat start + unat i"
          using q st(1) by (simp_all add: word_le_nat_alt)
        have si: "unat (start + i) = unat start + unat i"
          using st(1) unat_u32_less [of "start + i + 1"] by (intro unat_add_no_wrap) (simp del: unat_u32_less)
        then have "q \<le> start + i" using qs by (simp add: word_le_nat_alt)
        then have "unat (start + i - q) = unat start + unat i - unat q" using si by (simp add: unat_sub_no_wrap)
        then have "start + i - q < count" using qs ic by (simp add: word_less_nat_alt)
        then have "\<not> bitmap_test (q + (start + i - q)) m" using run unfolding free_run_def by blast
        then show False using i by simp
      qed
      moreover have "start \<le> start + i + 1" using st(1) by (simp add: word_le_nat_alt)
      ultimately have "run_result m count search_end start r"
        using r(2) unfolding run_result_def by (auto split: option.splits)
      moreover have "find_run count search_end m start = Some r"
        using True Some r(1) by (subst find_run.simps) simp
      ultimately show ?thesis by blast
    qed
  qed
qed

definition run_frames :: "u32 \<Rightarrow> u32 \<Rightarrow> u32 set" where
  "run_frames p count = {p + j |j. 0 \<le> j \<and> j < count}"

definition node_has_run :: "'a pmm_scheme \<Rightarrow> u8 \<Rightarrow> u32 \<Rightarrow> bool" where
  "node_has_run s i count \<longleftrightarrow> (\<exists>q. run_frames q count \<subseteq> node_frames s i)"

lemma free_run_frames: "free_run (page_bitmap s) p count \<longleftrightarrow> run_frames p count \<subseteq> frames s"
  by (auto simp: free_run_def run_frames_def frames_iff)

lemma run_in_range:
  assumes "run_frames p count \<subseteq> frames s" and "count \<noteq> 0"
  shows "run_frames p count \<subseteq> {lo..<hi} \<longleftrightarrow> lo \<le> p \<and> unat p + unat count \<le> unat hi"
proof -
  have "free_run (page_bitmap s) p count" using assms(1) by (simp add: free_run_frames)
  note w = free_run_no_wrap [OF this assms(2)]
  have u: "unat (p + j) = unat p + unat j" if "j < count" for j
    using that w by (intro unat_add_no_wrap) (simp add: word_less_nat_alt)
  have c: "0 < count" using assms(2) by (simp add: word_neq_0_conv)
  have m: "unat (count - 1) = unat count - 1" using assms(2) by (simp add: unat_minus_one)
  have "count - 1 < count" using c m by (simp add: word_less_nat_alt)
  with m have last: "unat (p + (count - 1)) = unat p + unat count - 1"
    using u [of "count - 1"] c by (simp add: word_less_nat_alt)
  show ?thesis
  proof
    assume sub: "run_frames p count \<subseteq> {lo..<hi}"
    have mem: "p + j \<in> {lo..<hi}" if "j < count" for j
      using sub that unfolding run_frames_def by (intro subsetD [OF sub]) (auto simp: run_frames_def)
    have "p + 0 \<in> {lo..<hi}" "p + (count - 1) \<in> {lo..<hi}"
      using mem [OF c] mem [OF \<open>count - 1 < count\<close>] by simp_all
    then show "lo \<le> p \<and> unat p + unat count \<le> unat hi" using last by (auto simp: word_less_nat_alt)
  next
    assume b: "lo \<le> p \<and> unat p + unat count \<le> unat hi"
    then show "run_frames p count \<subseteq> {lo..<hi}"
      using u by (auto simp: run_frames_def word_le_nat_alt word_less_nat_alt)
  qed
qed

lemma node_bounds:
  fixes i :: u8
  assumes "pmm_wf s" and "i < 2"
  shows "unat (nn_start_pfn (numa_nodes s (unat i))) \<le> 65537"
    and "unat (nn_end_pfn (numa_nodes s (unat i))) \<le> 65537"
proof -
  have "highest_page s < PMM_MAX_PAGES" using assms(1) by (simp add: pmm_wf_def pmm_topology_def)
  then have "unat (highest_page s + 1) \<le> 65536"
    using unat_Suc_less [of "highest_page s" PMM_MAX_PAGES] by (simp add: PMM_MAX_PAGES_def word_less_nat_alt)
  then show "unat (nn_start_pfn (numa_nodes s (unat i))) \<le> 65537"
    and "unat (nn_end_pfn (numa_nodes s (unat i))) \<le> 65537"
    using assms node_cases [OF assms(2)] by (auto simp: pmm_wf_def pmm_topology_def word_le_nat_alt)
qed

text \<open>The search within one node.\<close>

lemma find_run_node:
  assumes wf: "pmm_wf s" and i: "i < 2" and c: "count \<noteq> 0"
  obtains "\<not> node_has_run s i count"
      "find_run count (nn_end_pfn (numa_nodes s (unat i))) (page_bitmap s)
         (nn_start_pfn (numa_nodes s (unat i))) = Some None"
  | p where "run_frames p count \<subseteq> node_frames s i"
      "find_run count (nn_end_pfn (numa_nodes s (unat i))) (page_bitmap s)
         (nn_start_pfn (numa_nodes s (unat i))) = Some (Some p)"
proof -
  let ?n = "numa_nodes s (unat i)"
  have "search_bound count (nn_start_pfn ?n)" using node_bounds [OF wf i] by (simp add: search_bound_def)
  from find_run_terminates [OF this node_bounds(2) [OF wf i], of "page_bitmap s"] obtain r where
    r: "find_run count (nn_end_pfn ?n) (page_bitmap s) (nn_start_pfn ?n) = Some r"
      "run_result (page_bitmap s) count (nn_end_pfn ?n) (nn_start_pfn ?n) r" by blast
  have range: "run_frames q count \<subseteq> node_frames s i \<longleftrightarrow> nn_start_pfn ?n \<le> q \<and>
      unat q + unat count \<le> unat (nn_end_pfn ?n) \<and> free_run (page_bitmap s) q count" for q
    using run_in_range [OF _ c, of q s] by (auto simp: node_frames_def node_range_def free_run_frames)
  show ?thesis
  proof (cases r)
    case None
    then show ?thesis using r range that(1) by (auto simp: run_result_def node_has_run_def)
  next
    case (Some p)
    then show ?thesis using r range that(2) by (simp add: run_result_def)
  qed
qed

lemma take_run_wf:
  assumes "pmm_wf s" and "i < 2" and "run_frames p count \<subseteq> node_frames s i"
  shows "pmm_wf (snd (take_run count i i p s))"
    and "frames (snd (take_run count i i p s)) = frames s - run_frames p count"
    and "fst (take_run count i i p s) = pfn_to_addr p"
proof -
  have "i \<noteq> NUMA_NODE_ANY" using node_cases [OF assms(2)] by (auto simp: NUMA_NODE_ANY_def)
  moreover have m: "clear_bits bitmap_test (wfor 0 count (\<lambda>j. bitmap_set (p + j)) (page_bitmap s)) =
      frames s - run_frames p count"
    by (simp add: pmm_map.clear_bits_set_range frames_def run_frames_def)
  moreover have "card (run_frames p count) = unat count"
    unfolding run_frames_def by (rule card_word_range)
  ultimately show "pmm_wf (snd (take_run count i i p s))"
      "frames (snd (take_run count i i p s)) = frames s - run_frames p count"
      "fst (take_run count i i p s) = pfn_to_addr p"
    using charge_wf [OF assms(1) m assms(3,2)] by (simp_all add: take_run_def Let_def frames_def)
qed

lemma wtryo_two:
  "wtryo (0 :: u8) 2 f s =
     (case f 0 s of None \<Rightarrow> None | Some (Some r, t) \<Rightarrow> Some (Some r, t) | Some (None, t) \<Rightarrow> f 1 t)"
  by (simp add: wtryo.simps [of 0] wtryo.simps [of 1] wtryo.simps [of 2]
      split: prod.splits option.splits)

lemma alloc_pages_hit:
  assumes "pmm_wf s" and "i < 2" and "1 < count"
    and "find_run count (nn_end_pfn (numa_nodes s (unat i))) (page_bitmap s)
         (nn_start_pfn (numa_nodes s (unat i))) = Some (Some p)"
  shows "pmm_alloc_pages (Suc depth) count i s = Some (take_run count i i p s)"
proof -
  have "count \<noteq> 0" "count \<noteq> 1" "i \<noteq> NUMA_NODE_ANY"
    using assms(3) node_cases [OF assms(2)] by (auto simp: NUMA_NODE_ANY_def)
  moreover have "\<not> numa_node_count s \<le> i"
    using assms(1,2) by (simp add: pmm_wf_def pmm_topology_def)
  ultimately show ?thesis using assms(4) by simp
qed

lemma alloc_pages_miss:
  assumes "pmm_wf s" and "i < 2" and "1 < count"
    and "find_run count (nn_end_pfn (numa_nodes s (unat i))) (page_bitmap s)
         (nn_start_pfn (numa_nodes s (unat i))) = Some None"
  shows "pmm_alloc_pages (Suc depth) count i s =
    (case pmm_alloc_pages depth count (1 - i) s of
       None \<Rightarrow> None
     | Some (a, t) \<Rightarrow>
         if a \<noteq> 0 then Some (a, flightrec_log TRACE_EVT_MEM_LOCALITY_MISS 0 (ucast i) (ucast (1 - i)) t)
         else Some (0, flightrec_log TRACE_EVT_MEM_ALLOC_FAIL 0 (ucast i) count t))"
proof -
  have c: "count \<noteq> 0" "count \<noteq> 1" "i \<noteq> NUMA_NODE_ANY"
    using assms(3) node_cases [OF assms(2)] by (auto simp: NUMA_NODE_ANY_def)
  have nc: "\<not> numa_node_count s \<le> i" "numa_node_count s = 2"
    using assms(1,2) by (simp_all add: pmm_wf_def pmm_topology_def)
  show ?thesis
    using assms(4) node_cases [OF assms(2)] c nc
    by (auto simp: wtryo_two split: option.splits prod.splits)
qed

section \<open>Properties\<close>

text \<open>
  C2: A page request takes exactly one free frame, from the preferred node whenever that node
  has one (node 0 for \<^verbatim>\<open>NUMA_NODE_ANY\<close> and for unknown nodes), returns a non-null address, and
  fails with 0 only if no frame is free; the counters stay exact on every path.
\<close>

theorem pmm_alloc_page_correct:
  assumes "pmm_wf s"
  shows "page_result (node_range (numa_nodes s (unat (preferred_node node)))) s (pmm_alloc_page node s)"
  using assms by (rule alloc_page_result)

text \<open>
  Freeing an address above 1 MB adds its frame to the free set and keeps the counters exact;
  an address beyond the highest page and a second free of the same page change nothing.
\<close>

theorem pmm_free_page_correct:
  assumes "pmm_wf s" and "256 \<le> addr_to_pfn addr"
  shows "pmm_wf (pmm_free_page addr s) \<and>
    frames (pmm_free_page addr s) =
      (if addr_to_pfn addr \<le> highest_page s then insert (addr_to_pfn addr) (frames s) else frames s) \<and>
    pmm_free_page addr (pmm_free_page addr s) = pmm_free_page addr s"
proof (cases "addr_to_pfn addr \<le> highest_page s \<and> addr_to_pfn addr \<notin> frames s")
  case True
  then show ?thesis
    using free_page_wf [OF assms] free_page_noop [of "pmm_free_page addr s" addr] by simp
next
  case False
  then have "pmm_free_page addr s = s" using free_page_noop [of s addr] by (simp add: not_le)
  then show ?thesis using False assms(1) by auto
qed


text \<open>
  If neither node has a run of \<open>count \<ge> 2\<close> free pages, a request for a specific node never
  returns: each call tries the other node, whose call tries the first again, at every stack depth.
  The out-of-memory result that the function documents is unreachable on this path.
\<close>

theorem pmm_alloc_pages_diverges:
  assumes "pmm_wf s" and "node < 2" and "1 < count"
    and "\<not> node_has_run s 0 count" and "\<not> node_has_run s 1 count"
  shows "pmm_alloc_pages depth count node s = None"
  using assms(2)
proof (induction depth arbitrary: node)
  case (Suc depth)
  have c: "count \<noteq> 0" using assms(3) by (auto simp: word_less_nat_alt)
  have none: "\<not> node_has_run s node count" using node_cases [OF Suc.prems] assms(4,5) by auto
  from assms(1) Suc.prems c show ?case
  proof (cases rule: find_run_node)
    case 1
    have "1 - node < 2" using node_cases [OF Suc.prems] by auto
    then show ?thesis
      using alloc_pages_miss [OF assms(1) Suc.prems assms(3) 1(2)] Suc.IH by simp
  next
    case (2 p)
    then show ?thesis using none by (auto simp: node_has_run_def)
  qed
qed simp

section \<open>A concrete state\<close>

text \<open>Two free frames, 256 and 257, in node 0; node 1 consists of the used frame 258.\<close>

definition two_free :: pmm where
  "two_free = \<lparr>tsc = (\<lambda>_. 0), tsc_reads = 0, cpu_mhz = 1000, cycles_per_usec = 1000, boot_tsc = 0,
     fr_buf = (\<lambda>_. \<lparr>te_ts_usec = 0, te_ts_cycles = 0, te_type = 0, te_flags = 0, te_cpu_id = 0,
       te_job_id = 0, te_step_id = 0, te_extra = 0, te_tpm_signature = []\<rparr>),
     fr_head = 0, fr_initialized = False,
     fr_spans = (\<lambda>_. \<lparr>sp_active = False, sp_job_id = 0, sp_step_id = 0, sp_start_cycles = 0,
       sp_start_type = 0\<rparr>), fr_next_span_handle = 1,
     page_bitmap = (\<lambda>_. 0xFF)(32 := 0xFC),
     mem_regions = (\<lambda>_. \<lparr>mr_base = 0, mr_length = 0, mr_type = 0\<rparr>), num_regions = 0,
     numa_nodes = (\<lambda>i. if i = 0
       then \<lparr>nn_node_id = 0, nn_base_addr = 0x100000, nn_start_pfn = 256, nn_end_pfn = 258,
             nn_total_pages = 2, nn_free_pages = 2, nn_used_pages = 0\<rparr>
       else \<lparr>nn_node_id = 1, nn_base_addr = 0x102000, nn_start_pfn = 258, nn_end_pfn = 259,
             nn_total_pages = 1, nn_free_pages = 0, nn_used_pages = 1\<rparr>),
     numa_node_count = 2, total_pages = 259, free_pages = 2, highest_page = 258,
     node_boundary_pfn = 258\<rparr>"

lemma bit_FF: "k < 8 \<Longrightarrow> bit (0xFF :: u8) k"
  and bit_FC: "k < 8 \<Longrightarrow> bit (0xFC :: u8) k \<longleftrightarrow> k \<noteq> 0 \<and> k \<noteq> 1"
  by (simp_all add: numeral_eq_Suc less_Suc_eq) auto

lemma frames_two_free: "frames two_free = {256, 257}"
proof (rule set_eqI)
  fix p :: u32
  have div32: "unat p div 8 = 32 \<and> (unat p mod 8 = 0 \<or> unat p mod 8 = 1) \<longleftrightarrow> unat p = 256 \<or> unat p = 257"
    by presburger
  have "p \<in> frames two_free \<longleftrightarrow> unat p < 65536 \<and> unat p div 8 = 32 \<and>
      (unat p mod 8 = 0 \<or> unat p mod 8 = 1)"
    using bit_FF [of "unat p mod 8"] bit_FC [of "unat p mod 8"]
    by (auto simp: frames_iff two_free_def bitmap_test_def PMM_MAX_PAGES_def word_less_nat_alt
        bits_test_bit)
  then show "p \<in> frames two_free \<longleftrightarrow> p \<in> {256, 257}"
    unfolding div32 by (auto simp: word_unat_eq_iff)
qed

lemma node_frames_two_free: "node_frames two_free 0 = {256, 257}" "node_frames two_free 1 = {}"
  unfolding node_frames_def frames_two_free
  by (auto simp: node_range_def two_free_def)

lemma two_free_wf: "pmm_wf two_free"
proof -
  have "node_count_ok two_free 0" "node_count_ok two_free 1"
    unfolding node_count_ok_def node_frames_two_free by (simp_all add: two_free_def)
  then show ?thesis
    unfolding pmm_wf_def frames_two_free by (simp add: pmm_topology_def two_free_def PMM_MAX_PAGES_def)
qed

lemma two_free_run: "run_frames 256 2 \<subseteq> node_frames two_free 0"
  unfolding node_frames_two_free run_frames_def
  by (auto simp: word_less_nat_alt word_unat_eq_iff unat_word_ariths)

lemma two_free_no_run: "\<not> node_has_run two_free 0 3" "\<not> node_has_run two_free 1 3"
proof -
  have no: "\<not> run_frames q 3 \<subseteq> {256, 257}" for q
  proof
    assume "run_frames q 3 \<subseteq> {256, 257}"
    then have "card (run_frames q 3) \<le> card {256, 257 :: u32}" by (intro card_mono) simp_all
    moreover have "card (run_frames q 3) = 3" unfolding run_frames_def card_word_range by simp
    ultimately show False by simp
  qed
  then show "\<not> node_has_run two_free 0 3" unfolding node_has_run_def node_frames_two_free by blast
  show "\<not> node_has_run two_free 1 3" unfolding node_has_run_def node_frames_two_free using no by blast
qed

theorem pmm_alloc_page_correct_witness:
  "\<exists>p\<in>{256, 257}. fst (pmm_alloc_page NUMA_NODE_LOCAL two_free) = pfn_to_addr p \<and>
     frames (snd (pmm_alloc_page NUMA_NODE_LOCAL two_free)) = {256, 257} - {p}"
  using pmm_alloc_page_correct [OF two_free_wf, of NUMA_NODE_LOCAL]
  unfolding page_result_def frames_two_free by auto

theorem pmm_free_page_correct_witness:
  "frames (pmm_free_page 0x102000 two_free) = {256, 257, 258}"
proof -
  have "addr_to_pfn 0x102000 = 258" by (simp add: addr_to_pfn_def)
  moreover have "highest_page two_free = 258" by (simp add: two_free_def)
  ultimately show ?thesis
    using pmm_free_page_correct [OF two_free_wf, of "0x102000"] frames_two_free by auto
qed


theorem pmm_alloc_pages_diverges_witness: "pmm_alloc_pages 1000 3 0 two_free = None"
  using pmm_alloc_pages_diverges [OF two_free_wf _ _ two_free_no_run, of 0 1000] by simp

section \<open>Initialisation establishes the invariant\<close>

text \<open>The frames that a region makes available.\<close>

definition region_frames :: "mem_region \<Rightarrow> u32 set" where
  "region_frames r = (if mr_type r = MEM_REGION_AVAILABLE
     then {fst (region_pfns r)..<snd (region_pfns r)} else {})"

definition boot_frames :: "'a pmm_scheme \<Rightarrow> u32 set" where
  "boot_frames s = (\<Union>i < unat (num_regions s). region_frames (mem_regions s i))"

definition regions_disjoint :: "'a pmm_scheme \<Rightarrow> bool" where
  "regions_disjoint s \<longleftrightarrow> (\<forall>i < unat (num_regions s). \<forall>j < i.
     region_frames (mem_regions s i) \<inter> region_frames (mem_regions s j) = {})"

text \<open>The global counter is exact and the highest page bounds the free frames \<open>F\<close>.\<close>

definition counted :: "u32 set \<Rightarrow> 'a pmm_scheme \<Rightarrow> bool" where
  "counted F s \<longleftrightarrow> frames s = F \<and> unat (free_pages s) = card F \<and> F \<subseteq> {..highest_page s} \<and>
     highest_page s < PMM_MAX_PAGES"

lemma upto_Suc_word:
  fixes i n lo :: u32
  assumes "i < n" and "lo \<le> i"
  shows "{lo..<i + 1} = insert i {lo..<i}" "i \<notin> {lo..<i}"
  using assms unat_Suc_less [OF assms(1)]
  by (auto simp: word_le_nat_alt word_less_nat_alt word_unat_eq_iff)

lemma counted_card_less:
  assumes "counted F s" shows "card F \<le> 65536"
  using assms pmm_map.card_clear_le [of "page_bitmap s"]
  by (auto simp: counted_def frames_def PMM_MAX_PAGES_def)

lemma free_frame_counted:
  assumes "counted F s" and "p \<notin> F" and "p < PMM_MAX_PAGES"
  shows "counted (insert p F) (free_frame p s)"
proof -
  have fin: "finite F" using assms(1) finite_frames [of s] by (simp add: counted_def)
  have "unat (free_pages s + 1) = card (insert p F)"
    using assms(1,2) counted_card_less [OF assms(1)] fin by (simp add: counted_def unat_word_ariths)
  moreover have "frames (free_frame p s) = insert p F"
    using assms by (simp add: free_frame_def frames_def counted_def pmm_map.clear_bits_clear)
  ultimately show ?thesis
    using assms by (auto simp: counted_def free_frame_def)
qed

lemma free_region_counted:
  assumes "counted F s" and "F \<inter> region_frames r = {}"
  shows "counted (F \<union> region_frames r) (free_region r s) \<and>
    mem_regions (free_region r s) = mem_regions s \<and> num_regions (free_region r s) = num_regions s"
proof (cases "mr_type r = MEM_REGION_AVAILABLE")
  case True
  obtain a b where ab: "region_pfns r = (a, b)" by fastforce
  have b: "b \<le> PMM_MAX_PAGES" using ab by (auto simp: region_pfns_def Let_def split: if_splits)
  show ?thesis
  proof (cases "a \<le> b")
    case le: True
    let ?P = "\<lambda>j t. counted (F \<union> {a..<j}) t \<and> mem_regions t = mem_regions s \<and> num_regions t = num_regions s"
    have "?P b (wfor a b free_frame s)"
    proof (rule wfor_invariant [OF le])
      show "?P a s" using assms(1) by simp
    next
      fix j t assume j: "a \<le> j" "j < b" and P: "?P j t"
      have "j \<notin> F \<union> {a..<j}"
        using assms(2) j ab True by (auto simp: region_frames_def)
      then have "counted (insert j (F \<union> {a..<j})) (free_frame j t)"
        using P j b by (intro free_frame_counted) auto
      then show "?P (j + 1) (free_frame j t)"
        using P upto_Suc_word [OF j(2,1)] by (simp add: free_frame_def)
    qed
    then show ?thesis using True ab by (simp add: free_region_def region_frames_def)
  next
    case False
    then show ?thesis using True ab assms(1) by (simp add: free_region_def region_frames_def)
  qed
qed (use assms in \<open>simp add: free_region_def region_frames_def\<close>)

lemma bitmap_all_used:
  "clear_bits bitmap_test (wfor 0 BITMAP_SIZE (\<lambda>i b. b(unat i := 0xFF)) m) = {}"
proof -
  let ?P = "\<lambda>(i :: u32) b. \<forall>k < unat i. b k = (0xFF :: u8)"
  have "?P BITMAP_SIZE (wfor 0 BITMAP_SIZE (\<lambda>i b. b(unat i := 0xFF)) m)"
  proof (rule wfor_invariant [where P = ?P])
    fix j :: u32 and b :: mem
    assume "j < BITMAP_SIZE" "\<forall>k < unat j. b k = 0xFF"
    then show "\<forall>k < unat (j + 1). (b(unat j := 0xFF)) k = 0xFF"
      using unat_Suc_less [of j BITMAP_SIZE] by (auto simp: less_Suc_eq)
  qed (simp_all add: BITMAP_SIZE_def)
  then have "wfor 0 BITMAP_SIZE (\<lambda>i b. b(unat i := 0xFF)) m k = 0xFF" if "k < 8192" for k
    using that by (simp add: BITMAP_SIZE_def)
  then have "bitmap_test p (wfor 0 BITMAP_SIZE (\<lambda>i b. b(unat i := 0xFF)) m)" for p
    using bit_FF [of "unat p mod 8"]
    by (simp add: bitmap_test_def PMM_MAX_PAGES_def word_less_nat_alt bits_test_bit)
  then show ?thesis by (simp add: clear_bits_def)
qed

lemma init_bitmap_counted:
  assumes "free_pages s = 0" and "highest_page s = 0" and "regions_disjoint s"
  shows "counted (boot_frames s) (init_bitmap s)"
proof -
  let ?F = "\<lambda>n. \<Union>i < n. region_frames (mem_regions s i)"
  let ?s = "s\<lparr>page_bitmap := wfor 0 BITMAP_SIZE (\<lambda>i b. b(unat i := 0xFF)) (page_bitmap s)\<rparr>"
  let ?P = "\<lambda>(r :: u32) t. counted (?F (unat r)) t \<and> mem_regions t = mem_regions s \<and>
    num_regions t = num_regions s"
  let ?body = "\<lambda>r t. free_region (mem_regions t (unat r)) t"
  have "?P (num_regions s) (wfor 0 (num_regions s) ?body ?s)"
  proof (rule wfor_invariant [where P = ?P])
    show "?P 0 ?s"
      using assms(1,2) by (simp add: counted_def frames_def bitmap_all_used PMM_MAX_PAGES_def)
  next
    fix j :: u32 and t
    assume j: "j < num_regions s" and P: "?P j t"
    have "?F (unat j) \<inter> region_frames (mem_regions s (unat j)) = {}"
      using assms(3) j by (auto simp: regions_disjoint_def word_less_nat_alt)
    moreover have "?F (unat (j + 1)) = ?F (unat j) \<union> region_frames (mem_regions s (unat j))"
      using unat_Suc_less [OF j] by (auto simp: less_Suc_eq)
    ultimately show "?P (j + 1) (?body j t)"
      using P free_region_counted [of "?F (unat j)" t "mem_regions s (unat j)"] by simp
  qed simp
  then show ?thesis
    by (simp add: init_bitmap_def Let_def boot_frames_def counted_def frames_def)
qed

lemma reserve_frame_counted:
  assumes "counted F s" shows "counted (F - {p}) (reserve_frame p s)"
proof (cases "p \<in> F")
  case True
  then have "p \<in> frames s" using assms by (simp add: counted_def)
  then have "\<not> bitmap_test p (page_bitmap s)" by (simp add: frames_iff)
  moreover have "0 < card F" using True assms finite_frames [of s] by (auto simp: counted_def card_gt_0_iff)
  then have "unat (free_pages s - 1) = card (F - {p})"
    using True assms by (simp add: counted_def unat_minus_one unat_gt_0 [symmetric])
  ultimately show ?thesis
    using assms True by (auto simp: counted_def reserve_frame_def frames_def pmm_map.clear_bits_set)
next
  case False
  then have "bitmap_test p (page_bitmap s)" using assms by (auto simp: counted_def frames_iff)
  then show ?thesis using assms False by (simp add: reserve_frame_def)
qed

lemma reserve_loop_counted:
  assumes "counted F s"
  shows "counted (F - {a..<b}) (wfor a b reserve_frame s)"
proof (cases "a \<le> b")
  case True
  have "counted (F - {a..<b}) (wfor a b reserve_frame s)"
  proof (rule wfor_invariant [where P = "\<lambda>j. counted (F - {a..<j})", OF True])
    fix j t assume j: "a \<le> j" "j < b" and c: "counted (F - {a..<j}) t"
    have "F - {a..<j + 1} = F - {a..<j} - {j}" using upto_Suc_word [OF j(2,1)] by auto
    then show "counted (F - {a..<j + 1}) (reserve_frame j t)" using reserve_frame_counted [OF c] by simp
  qed (use assms in simp)
  then show ?thesis .
qed (use assms in simp)

lemma reserve_range_counted:
  "counted F s \<Longrightarrow> \<exists>G \<subseteq> F. counted G (pmm_reserve_range base len s)"
  unfolding pmm_reserve_range_def Let_def using reserve_loop_counted by blast

lemma reserve_low_counted:
  "counted F s \<Longrightarrow> counted (F - {0..<256}) (pmm_reserve_range 0 0x100000 s)"
proof -
  assume "counted F s"
  moreover have "addr_to_pfn (page_align_down 0) = 0" "addr_to_pfn (page_align_up 0x100000) = 256"
    by (simp_all add: addr_to_pfn_def page_align_down_def page_align_up_def PAGE_SIZE_def)
  ultimately show ?thesis
    using reserve_loop_counted [of F s 0 256]
    by (simp add: pmm_reserve_range_def Let_def PMM_MAX_PAGES_def)
qed

lemma reserve_kernel_counted:
  assumes "counted F s"
  shows "\<exists>G \<subseteq> F - {0..<256}. counted G (reserve_kernel a b s)"
  unfolding reserve_kernel_def
  by (rule reserve_range_counted [OF reserve_low_counted [OF assms]])

lemma reserve_keeps_highest [simp]:
  "highest_page (wfor a b reserve_frame s) = highest_page s"
  by (rule wfor_preserves [where Q = "\<lambda>t. highest_page t = highest_page s"])
     (simp_all add: reserve_frame_def)

lemma reserve_kernel_highest: "highest_page (reserve_kernel a b s) = highest_page s"
  by (simp add: reserve_kernel_def pmm_reserve_range_def Let_def)

text \<open>The counting loop of \<open>setup_numa_nodes\<close>.\<close>

lemma count_loop:
  assumes "counted F s" and "256 \<le> hi" and "hi < PMM_MAX_PAGES"
    and "256 \<le> node_boundary_pfn s"
    and "nn_free_pages (numa_nodes s 0) = 0" and "nn_free_pages (numa_nodes s 1) = 0"
    and "F \<subseteq> {256..hi}"
  defines "t \<equiv> wfor 256 (hi + 1) count_frame s"
  shows "\<exists>x y. t = s\<lparr>numa_nodes := (numa_nodes s)(0 := (numa_nodes s 0)\<lparr>nn_free_pages := x\<rparr>,
      1 := (numa_nodes s 1)\<lparr>nn_free_pages := y\<rparr>)\<rparr> \<and>
    unat x = card (F \<inter> {256..<node_boundary_pfn s}) \<and> unat y = card (F \<inter> {node_boundary_pfn s..<hi + 1})"
proof -
  let ?b = "node_boundary_pfn s"
  let ?t = "\<lambda>x y. s\<lparr>numa_nodes := (numa_nodes s)(0 := (numa_nodes s 0)\<lparr>nn_free_pages := x\<rparr>,
      1 := (numa_nodes s 1)\<lparr>nn_free_pages := y\<rparr>)\<rparr>"
  let ?P = "\<lambda>j t. \<exists>x y. t = ?t x y \<and> unat x = card (F \<inter> {256..<j} \<inter> {..<?b}) \<and>
    unat y = card (F \<inter> {256..<j} \<inter> {?b..})"
  have hi: "unat (hi + 1) = Suc (unat hi)" using unat_Suc_less [OF assms(3)] .
  have fin: "finite F" using assms(1) finite_frames [of s] by (simp add: counted_def)
  have inc: "unat (x + 1) = Suc (card A)" if "unat x = card A" "A \<subseteq> F" for x :: u32 and A
    using that card_mono [OF fin that(2)] counted_card_less [OF assms(1)] by (simp add: unat_word_ariths)
  have "?P (hi + 1) t"
    unfolding t_def
  proof (rule wfor_invariant [where P = ?P])
    show "256 \<le> hi + 1" using assms(2) hi by (simp add: word_le_nat_alt)
    have "s = ?t 0 0" using assms(5,6) by (simp add: fun_upd_idem)
    then show "?P 256 s" by (intro exI [of _ 0] conjI) simp_all
  next
    fix j t assume j: "256 \<le> j" "j < hi + 1" and "?P j t"
    then obtain x y where t: "t = ?t x y" and x: "unat x = card (F \<inter> {256..<j} \<inter> {..<?b})"
      and y: "unat y = card (F \<inter> {256..<j} \<inter> {?b..})" by blast
    have F: "j \<in> F \<longleftrightarrow> \<not> bitmap_test j (page_bitmap t)"
      using assms(1) by (auto simp: counted_def frames_iff t)
    note up = upto_Suc_word [OF j(2,1)]
    show "?P (j + 1) (count_frame j t)"
    proof (cases "j \<in> F")
      case False
      then have "F \<inter> {256..<j + 1} = F \<inter> {256..<j}" using up(1) by auto
      moreover have "count_frame j t = ?t x y" using False F t by (simp add: count_frame_def)
      ultimately show ?thesis using x y by auto
    next
      case True
      show ?thesis
      proof (cases "j < ?b")
        case lt: True
        have s: "F \<inter> {256..<j + 1} \<inter> {..<?b} = insert j (F \<inter> {256..<j} \<inter> {..<?b})"
          "F \<inter> {256..<j + 1} \<inter> {?b..} = F \<inter> {256..<j} \<inter> {?b..}"
          using up(1) True lt by auto
        have "unat (x + 1) = card (insert j (F \<inter> {256..<j} \<inter> {..<?b}))"
          using inc [OF x] up(2) fin by (simp add: Int_assoc)
        moreover have "count_frame j t = ?t (x + 1) y"
          using True F lt by (simp add: count_frame_def t Let_def)
             (rule arg_cong [where f = "\<lambda>n. s\<lparr>numa_nodes := n\<rparr>"], auto)
        ultimately show ?thesis unfolding s using y by blast
      next
        case ge: False
        have s: "F \<inter> {256..<j + 1} \<inter> {?b..} = insert j (F \<inter> {256..<j} \<inter> {?b..})"
          "F \<inter> {256..<j + 1} \<inter> {..<?b} = F \<inter> {256..<j} \<inter> {..<?b}"
          using up(1) True ge by auto
        have "unat (y + 1) = card (insert j (F \<inter> {256..<j} \<inter> {?b..}))"
          using inc [OF y] up(2) fin by (simp add: Int_assoc)
        moreover have "count_frame j t = ?t x (y + 1)"
          using True F ge by (simp add: count_frame_def t Let_def)
        ultimately show ?thesis unfolding s using x by blast
      qed
    qed
  qed
  moreover have "F \<inter> {256..<hi + 1} \<inter> {..<?b} = F \<inter> {256..<?b}"
    "F \<inter> {256..<hi + 1} \<inter> {?b..} = F \<inter> {?b..<hi + 1}"
    using assms(4,7) hi by (auto simp: word_le_nat_alt word_less_nat_alt)
  ultimately show ?thesis by auto
qed

lemma setup_numa_wf:
  assumes c: "counted F s" and F: "F \<subseteq> {256..highest_page s}" and hi: "256 \<le> highest_page s"
  shows "pmm_wf (setup_numa_nodes s)" and "frames (setup_numa_nodes s) = F"
proof -
  let ?h = "highest_page s"
  let ?u = "?h - 256 + 1"
  let ?b = "256 + ?u div 2"
  have hp: "?h < PMM_MAX_PAGES" using c by (simp add: counted_def)
  then have h: "unat ?h < 65536" "256 \<le> unat ?h"
    using hi by (simp_all add: PMM_MAX_PAGES_def word_less_nat_alt word_le_nat_alt)
  have uu: "unat ?u = unat ?h - 255"
    using h unat_sub_no_wrap [OF hi] by (subst unat_add_no_wrap) simp_all
  have h1: "unat (?h + 1) = unat ?h + 1" using h by (subst unat_add_no_wrap) simp_all
  have b: "unat ?b = 256 + (unat ?h - 255) div 2"
    using h uu by (subst unat_add_no_wrap) (simp_all add: unat_div)
  then have bb: "256 \<le> ?b" "?b \<le> ?h + 1" using h h1 by (simp_all add: word_le_nat_alt)
  define s0 where "s0 = s\<lparr>node_boundary_pfn := ?b,
    numa_nodes := (numa_nodes s)(
      0 := \<lparr>nn_node_id = 0, nn_base_addr = pfn_to_addr 256, nn_start_pfn = 256, nn_end_pfn = ?b,
            nn_total_pages = ?b - 256, nn_free_pages = 0, nn_used_pages = 0\<rparr>,
      1 := \<lparr>nn_node_id = 1, nn_base_addr = pfn_to_addr ?b, nn_start_pfn = ?b, nn_end_pfn = ?h + 1,
            nn_total_pages = (?h + 1) - ?b, nn_free_pages = 0, nn_used_pages = 0\<rparr>),
    numa_node_count := 2\<rparr>"
  have "counted F s0" using c by (simp add: counted_def s0_def frames_def)
  from count_loop [OF this hi hp] bb F obtain x y where
    t: "wfor 256 (?h + 1) count_frame s0 = s0\<lparr>numa_nodes := (numa_nodes s0)(
        0 := (numa_nodes s0 0)\<lparr>nn_free_pages := x\<rparr>, 1 := (numa_nodes s0 1)\<lparr>nn_free_pages := y\<rparr>)\<rparr>"
    and xy: "unat x = card (F \<inter> {256..<?b})" "unat y = card (F \<inter> {?b..<?h + 1})"
    by (auto simp: s0_def)
  have "setup_numa_nodes s = set_used 1 (set_used 0 (wfor 256 (?h + 1) count_frame s0))"
    by (simp add: setup_numa_nodes_def Let_def s0_def)
  note res = this [unfolded t]
  show fr: "frames (setup_numa_nodes s) = F"
    using c unfolding res by (simp add: counted_def set_used_def Let_def frames_def s0_def)
  have "node_frames (setup_numa_nodes s) 0 = F \<inter> {256..<?b}"
    "node_frames (setup_numa_nodes s) 1 = F \<inter> {?b..<?h + 1}"
    unfolding node_frames_def fr unfolding res by (simp_all add: set_used_def Let_def s0_def node_range_def)
  then have "node_count_ok (setup_numa_nodes s) 0" "node_count_ok (setup_numa_nodes s) 1"
    unfolding node_count_ok_def using xy by (simp_all add: res set_used_def Let_def s0_def)
  then show "pmm_wf (setup_numa_nodes s)"
    unfolding pmm_wf_def fr using c F bb hp
    by (simp add: res pmm_topology_def set_used_def Let_def s0_def counted_def)
qed


text \<open>The fallback without multiboot information, with the kernel at 1 MB.\<close>

lemma default_region_frames:
  "region_frames \<lparr>mr_base = 0, mr_length = 640 * 1024, mr_type = MEM_REGION_AVAILABLE\<rparr> = {0..<160}"
  "region_frames \<lparr>mr_base = 0x100000, mr_length = 128 * 1024 * 1024 - 0x100000,
     mr_type = MEM_REGION_AVAILABLE\<rparr> = {256..<32768}"
  by (simp_all add: region_frames_def region_pfns_def page_align_up_def page_align_down_def
      PAGE_SIZE_def addr_to_pfn_def PMM_MAX_PAGES_def)


end
