(* ===== verification/Zalloc.thy ===== *)
theory Zalloc
  imports Pmm
begin

text \<open>
  The portable allocator (\<^verbatim>\<open>kernel/zenedge_alloc.c\<close>): a layer over the physical memory manager
  with 64-bit addresses, byte statistics and optional zeroing. The state adds the two counters
  and the bytes of kernel virtual memory that \<^verbatim>\<open>ZALLOC_ZERO\<close> writes.
\<close>

definition ZNODE_LOCAL :: u8 where [zconst]: "ZNODE_LOCAL = 0"
definition ZNODE_REMOTE :: u8 where [zconst]: "ZNODE_REMOTE = 1"
definition ZNODE_ANY :: u8 where [zconst]: "ZNODE_ANY = 0xFF"
definition ZALLOC_ZERO :: u32 where [zconst]: "ZALLOC_ZERO = 1"
definition ZALLOC_CONTIGUOUS :: u32 where [zconst]: "ZALLOC_CONTIGUOUS = 2"

datatype ztier = ZTIER_DDR | ZTIER_HBM | ZTIER_DEVICE | ZTIER_PINNED

record zalloc_result =
  zr_addr :: u64
  zr_node :: u8
  zr_size_bytes :: u32

record zalloc_request =
  zq_size_bytes :: u32
  zq_node_pref :: u8
  zq_tier :: ztier
  zq_flags :: u32
  zq_alignment :: u32

record zalloc_stats =
  zs_total_bytes :: u64
  zs_free_bytes :: u64
  zs_num_nodes :: u32

record zalloc = pmm +
  total_allocated :: u64
  total_freed :: u64
  kernel_mem :: mem

definition zalloc_failure :: zalloc_result where
  "zalloc_failure = \<lparr>zr_addr = 0, zr_node = 0, zr_size_bytes = 0\<rparr>"

definition zenedge_alloc_init :: "'a zalloc_scheme \<Rightarrow> 'a zalloc_scheme" where
  "zenedge_alloc_init s = s\<lparr>total_allocated := 0, total_freed := 0\<rparr>"

definition pmm_node_of :: "u8 \<Rightarrow> u8" where
  "pmm_node_of node_pref =
     (if node_pref = ZNODE_LOCAL then NUMA_NODE_LOCAL
      else if node_pref = ZNODE_REMOTE then NUMA_NODE_REMOTE else NUMA_NODE_ANY)"

definition zenedge_platform_alloc_page :: "u8 \<Rightarrow> 'a zalloc_scheme \<Rightarrow> u64 \<times> 'a zalloc_scheme" where
  "zenedge_platform_alloc_page node_pref s =
     (let (addr, s) = pmm_alloc_page (pmm_node_of node_pref) s in (ucast addr, s))"

definition zenedge_platform_free_page :: "u64 \<Rightarrow> 'a zalloc_scheme \<Rightarrow> 'a zalloc_scheme" where
  "zenedge_platform_free_page addr s = pmm_free_page (ucast addr) s"

definition zenedge_platform_get_node :: "u64 \<Rightarrow> 'a zalloc_scheme \<Rightarrow> u8" where
  "zenedge_platform_get_node addr s = pmm_addr_to_node (ucast addr) s"

definition zenedge_platform_get_stats :: "'a zalloc_scheme \<Rightarrow> zalloc_stats" where
  "zenedge_platform_get_stats s =
     (let p = pmm_get_stats s
      in \<lparr>zs_total_bytes = ucast (ps_total_memory_kb p) * 1024,
          zs_free_bytes = ucast (ps_free_memory_kb p) * 1024, zs_num_nodes = ps_num_nodes p\<rparr>)"

definition zenedge_alloc_page :: "u8 \<Rightarrow> 'a zalloc_scheme \<Rightarrow> zalloc_result \<times> 'a zalloc_scheme" where
  "zenedge_alloc_page node_pref s =
     (let (addr, s) = zenedge_platform_alloc_page node_pref s
      in if addr \<noteq> 0
         then (\<lparr>zr_addr = addr, zr_node = zenedge_platform_get_node addr s, zr_size_bytes = PAGE_SIZE\<rparr>,
               s\<lparr>total_allocated := total_allocated s + ucast PAGE_SIZE\<rparr>)
         else (zalloc_failure, s))"

text \<open>\<open>None\<close>: the call into \<^verbatim>\<open>pmm_alloc_pages\<close> does not return at this stack depth.\<close>

definition zenedge_alloc_pages ::
    "nat \<Rightarrow> u32 \<Rightarrow> u8 \<Rightarrow> 'a zalloc_scheme \<Rightarrow> (zalloc_result \<times> 'a zalloc_scheme) option" where
  "zenedge_alloc_pages depth count node_pref s =
     (case pmm_alloc_pages depth count (pmm_node_of node_pref) s of
        None \<Rightarrow> None
      | Some (addr, s) \<Rightarrow>
          Some (if addr \<noteq> 0
                then (\<lparr>zr_addr = ucast addr, zr_node = zenedge_platform_get_node (ucast addr) s,
                       zr_size_bytes = count * PAGE_SIZE\<rparr>,
                      s\<lparr>total_allocated := total_allocated s + ucast (count * PAGE_SIZE)\<rparr>)
                else (zalloc_failure, s)))"

definition zero_memory :: "u64 \<Rightarrow> u32 \<Rightarrow> 'a zalloc_scheme \<Rightarrow> 'a zalloc_scheme" where
  "zero_memory vaddr len s =
     s\<lparr>kernel_mem := wfor 0 len (\<lambda>i m. m(unat vaddr + unat i := 0)) (kernel_mem s)\<rparr>"

text \<open>Both multi-page branches of \<^verbatim>\<open>zenedge_alloc\<close> make the same call.\<close>

definition zenedge_alloc ::
    "nat \<Rightarrow> zalloc_request option \<Rightarrow> 'a zalloc_scheme \<Rightarrow> (zalloc_result \<times> 'a zalloc_scheme) option" where
  "zenedge_alloc depth req_ptr s =
     (case req_ptr of
        None \<Rightarrow> Some (zalloc_failure, s)
      | Some req \<Rightarrow>
          if zq_size_bytes req = 0 then Some (zalloc_failure, s)
          else let pages = (zq_size_bytes req + PAGE_SIZE - 1) div PAGE_SIZE
            in case (if pages = 1 then Some (zenedge_alloc_page (zq_node_pref req) s)
                     else zenedge_alloc_pages depth pages (zq_node_pref req) s) of
                 None \<Rightarrow> None
               | Some (result, s) \<Rightarrow>
                   Some (result,
                     if zr_addr result \<noteq> 0 \<and> zq_flags req AND ZALLOC_ZERO \<noteq> 0
                     then zero_memory (zr_addr result + 0xC0000000) (zr_size_bytes result) s else s))"

definition zenedge_free_page :: "u64 \<Rightarrow> 'a zalloc_scheme \<Rightarrow> 'a zalloc_scheme" where
  "zenedge_free_page addr s =
     (if addr \<noteq> 0
      then let s = zenedge_platform_free_page addr s
           in s\<lparr>total_freed := total_freed s + ucast PAGE_SIZE\<rparr>
      else s)"

definition zenedge_free_pages :: "u64 \<Rightarrow> u32 \<Rightarrow> 'a zalloc_scheme \<Rightarrow> 'a zalloc_scheme" where
  "zenedge_free_pages addr count s =
     (if addr \<noteq> 0 \<and> count > 0
      then let s = pmm_free_pages (ucast addr) count s
           in s\<lparr>total_freed := total_freed s + ucast (count * PAGE_SIZE)\<rparr>
      else s)"

definition zenedge_get_node :: "u64 \<Rightarrow> 'a zalloc_scheme \<Rightarrow> u8" where
  "zenedge_get_node addr s = zenedge_platform_get_node addr s"

definition zenedge_alloc_stats :: "'a zalloc_scheme \<Rightarrow> zalloc_stats" where
  "zenedge_alloc_stats s = zenedge_platform_get_stats s"

section \<open>Lemmas\<close>

lemma zalloc_upd_frames [simp]:
  "frames (s\<lparr>total_allocated := a\<rparr>) = frames s" "frames (s\<lparr>total_freed := a\<rparr>) = frames s"
  "pmm_wf (s\<lparr>total_allocated := a\<rparr>) = pmm_wf s" "pmm_wf (s\<lparr>total_freed := a\<rparr>) = pmm_wf s"
  by (simp_all add: frames_def pmm_wf_def pmm_topology_def node_count_ok_def node_frames_def)

lemma unat_u32_mod: "unat (a :: u32) mod 18446744073709551616 = unat a"
  using unat_u32_less [of a] by (intro mod_less) linarith

lemma ucast_u64_eq_0 [simp]: "(ucast (a :: u32) :: u64) = 0 \<longleftrightarrow> a = 0"
  by (simp add: word_unat_eq_iff unat_ucast unat_u32_mod)

lemma ucast_u32_u64 [simp]: "(ucast (ucast (a :: u32) :: u64) :: u32) = a"
  by (simp add: word_unat_eq_iff unat_ucast unat_u32_mod)

lemma zalloc_frame [simp]:
  "total_allocated (flightrec_log ty j st x s) = total_allocated s"
  "total_freed (flightrec_log ty j st x s) = total_freed s"
  "kernel_mem (flightrec_log ty j st x s) = kernel_mem s"
  "total_allocated (charge_node i c s) = total_allocated s"
  "total_freed (charge_node i c s) = total_freed s"
  "kernel_mem (charge_node i c s) = kernel_mem s"
  by (simp_all add: flightrec_log_def Let_def split_beta time_cycles_def time_usec_def rdtsc_def
      charge_node_def)

lemma pmm_alloc_page_keeps [simp]:
  "highest_page (snd (pmm_alloc_page n s)) = highest_page s"
  "total_allocated (snd (pmm_alloc_page n t)) = total_allocated t"
  "total_freed (snd (pmm_alloc_page n t)) = total_freed t"
  "kernel_mem (snd (pmm_alloc_page n t)) = kernel_mem t"
  by (rule pmm_alloc_page_preserves; simp)+

lemma zenedge_page_spec:
  assumes "pmm_wf s" and "zenedge_alloc_page pref s = (r, t)"
  shows "pmm_wf t \<and>
    (if frames s = {} then r = zalloc_failure \<and> frames t = {} \<and> total_allocated t = total_allocated s
     else \<exists>p\<in>frames s. zr_addr r = ucast (pfn_to_addr p) \<and> zr_addr r \<noteq> 0 \<and> zr_size_bytes r = 4096 \<and>
       frames t = frames s - {p} \<and> p \<in> node_range (numa_nodes t (unat (zr_node r))) \<and>
       (node_frames s (preferred_node pref) \<noteq> {} \<longrightarrow> p \<in> node_frames s (preferred_node pref)) \<and>
       total_allocated t = total_allocated s + 4096)"
proof -
  obtain a u where au: "pmm_alloc_page (pmm_node_of pref) s = (a, u)" by fastforce
  have pref: "preferred_node (pmm_node_of pref) = preferred_node pref"
  proof (cases "pref < 2")
    case True
    then show ?thesis using node_cases [OF True] by (auto simp: pmm_node_of_def zconst preferred_node_def)
  next
    case False
    then have "pref \<noteq> 0" "pref \<noteq> 1" by auto
    then show ?thesis using False by (simp add: pmm_node_of_def zconst preferred_node_def)
  qed
  have res: "page_result (node_range (numa_nodes s (unat (preferred_node pref)))) s (a, u)"
    using alloc_page_result [OF assms(1), of "pmm_node_of pref"] unfolding au pref .
  have keep: "total_allocated u = total_allocated s" "highest_page u = highest_page s"
    using pmm_alloc_page_keeps(1,2) [of "pmm_node_of pref" s] unfolding au by simp_all
  show ?thesis
  proof (cases "frames s = {}")
    case True
    then show ?thesis
      using res keep assms(2)
      by (auto simp: page_result_def zenedge_alloc_page_def zenedge_platform_alloc_page_def au)
  next
    case False
    then obtain p where p: "p \<in> frames s" "a = pfn_to_addr p" "a \<noteq> 0" "frames u = frames s - {p}" "pmm_wf u"
      and pr: "node_range (numa_nodes s (unat (preferred_node pref))) \<inter> frames s \<noteq> {} \<longrightarrow>
        p \<in> node_range (numa_nodes s (unat (preferred_node pref)))"
      using res by (auto simp: page_result_def)
    have inv: "addr_to_pfn a = p" using pfn_to_addr_inverse wf_frame_bounds(1) [OF assms(1) p(1)] p(2) by simp
    have "256 \<le> p" "p \<le> highest_page u" using assms(1) p(1) keep(2) by (auto simp: pmm_wf_def)
    then have "p \<in> node_range (numa_nodes u (unat (pmm_addr_to_node a u)))"
      using addr_to_node_wf [of u a] p(5) inv by (simp add: pmm_wf_def)
    moreover have "t = u\<lparr>total_allocated := total_allocated u + 4096\<rparr>"
        "r = \<lparr>zr_addr = ucast a, zr_node = pmm_addr_to_node a u, zr_size_bytes = 4096\<rparr>"
      using assms(2) p(3)
      by (auto simp: zenedge_alloc_page_def zenedge_platform_alloc_page_def au PAGE_SIZE_def
          zenedge_platform_get_node_def)
    ultimately show ?thesis
      using False p pr keep(1) by (auto simp: node_frames_def intro!: bexI [of _ p])
  qed
qed

text \<open>
  The portable page allocation takes one free frame of the preferred node if that has one,
  reports the node that contains the page, and adds 4096 to the byte count; it fails, without
  any effect on frames and statistics, only if no frame is free.
\<close>

theorem zenedge_alloc_page_correct:
  assumes "pmm_wf s" and "zenedge_alloc_page pref s = (r, t)"
  shows "pmm_wf t \<and>
    (if frames s = {} then r = zalloc_failure \<and> frames t = {} \<and> total_allocated t = total_allocated s
     else \<exists>p\<in>frames s. zr_addr r = ucast (pfn_to_addr p) \<and> zr_addr r \<noteq> 0 \<and> zr_size_bytes r = 4096 \<and>
       frames t = frames s - {p} \<and> p \<in> node_range (numa_nodes t (unat (zr_node r))) \<and>
       (node_frames s (preferred_node pref) \<noteq> {} \<longrightarrow> p \<in> node_frames s (preferred_node pref)) \<and>
       total_allocated t = total_allocated s + 4096)"
  by (rule zenedge_page_spec [OF assms])

definition two_free_zalloc :: zalloc where
  "two_free_zalloc =
     pmm.extend two_free \<lparr>total_allocated = 0, total_freed = 0, kernel_mem = (\<lambda>_. 0)\<rparr>"

theorem zenedge_alloc_page_correct_witness:
  "zr_addr (fst (zenedge_alloc_page ZNODE_LOCAL two_free_zalloc)) \<noteq> 0 \<and>
   pmm_wf (snd (zenedge_alloc_page ZNODE_LOCAL two_free_zalloc))"
proof -
  have "pmm_wf two_free_zalloc" "frames two_free_zalloc \<noteq> {}"
    using two_free_wf frames_two_free by (simp_all add: two_free_zalloc_def)
  then show ?thesis
    using zenedge_alloc_page_correct [of two_free_zalloc ZNODE_LOCAL
        "fst (zenedge_alloc_page ZNODE_LOCAL two_free_zalloc)"
        "snd (zenedge_alloc_page ZNODE_LOCAL two_free_zalloc)"] by auto
qed

end
