(* ===== verification/Job_Graph.thy ===== *)
theory Job_Graph
  imports Zen_Prelude
begin

text \<open>
  The job graph (\<^verbatim>\<open>kernel/job/job_graph.c\<close>, \<^verbatim>\<open>kernel/job/job_graph.h\<close>): steps with up to four
  dependencies each, tensors, and the memory metrics that admission control reads. A pointer
  that \<^verbatim>\<open>find_step\<close> or \<^verbatim>\<open>find_tensor\<close> returns is the index of the element. The C status codes
  0 and -1 are the results \<open>True\<close> and \<open>False\<close>.
\<close>

section \<open>Data\<close>

datatype step_type = STEP_TYPE_COMPUTE | STEP_TYPE_COLLECTIVE | STEP_TYPE_IO | STEP_TYPE_CONTROL

datatype tensor_dtype =
  TENSOR_DTYPE_FP32 | TENSOR_DTYPE_FP16 | TENSOR_DTYPE_BF16 | TENSOR_DTYPE_INT8 | TENSOR_DTYPE_INT32

definition MAX_STEP_INPUTS :: u8 where [zconst]: "MAX_STEP_INPUTS = 4"
definition MAX_STEP_OUTPUTS :: u8 where [zconst]: "MAX_STEP_OUTPUTS = 2"
definition MAX_STEP_DEPS :: u8 where [zconst]: "MAX_STEP_DEPS = 4"
definition MAX_JOB_STEPS :: u8 where [zconst]: "MAX_JOB_STEPS = 32"
definition MAX_JOB_TENSORS :: u8 where [zconst]: "MAX_JOB_TENSORS = 64"

record tensor_desc =
  td_id :: u32
  td_dtype :: tensor_dtype
  td_num_elements :: u32
  td_size_bytes :: u32
  td_pinned :: u8
  td_node_affinity :: u8

record job_step =
  st_id :: u32
  st_type :: step_type
  num_deps :: u8
  deps :: "u32 carray"
  num_inputs :: u8
  inputs :: "u32 carray"
  num_outputs :: u8
  outputs :: "u32 carray"
  st_peak_memory_kb :: u32
  working_set_kb :: u32
  ready :: bool
  completed :: bool

record job_graph =
  jg_id :: u32
  num_steps :: u8
  steps :: "job_step carray"
  num_tensors :: u8
  tensors :: "tensor_desc carray"
  total_memory_kb :: u32
  peak_memory_kb :: u32
  pinned_memory_kb :: u32

section \<open>Steps and dependencies\<close>

definition job_graph_init :: "u32 \<Rightarrow> job_graph \<Rightarrow> job_graph" where
  "job_graph_init i job = job\<lparr>jg_id := i, num_steps := 0, num_tensors := 0, total_memory_kb := 0,
     peak_memory_kb := 0, pinned_memory_kb := 0\<rparr>"

definition find_step :: "job_graph \<Rightarrow> u32 \<Rightarrow> u8 option" where
  "find_step job i = wfind 0 (num_steps job) (\<lambda>k. st_id (steps job (unat k)) = i)"

definition upd_step :: "u8 \<Rightarrow> (job_step \<Rightarrow> job_step) \<Rightarrow> job_graph \<Rightarrow> job_graph" where
  "upd_step k f job = job\<lparr>steps := (steps job)(unat k := f (steps job (unat k)))\<rparr>"

definition job_graph_add_step :: "u32 \<Rightarrow> step_type \<Rightarrow> job_graph \<Rightarrow> bool \<times> job_graph" where
  "job_graph_add_step i type job =
     (if num_steps job \<ge> MAX_JOB_STEPS then (False, job)
      else (True, upd_step (num_steps job) (\<lambda>s. s\<lparr>st_id := i, st_type := type, num_deps := 0,
                    ready := True, completed := False, num_inputs := 0, num_outputs := 0,
                    st_peak_memory_kb := 0, working_set_kb := 0\<rparr>)
                  (job\<lparr>num_steps := num_steps job + 1\<rparr>)))"

definition add_dep_step :: "u32 \<Rightarrow> job_step \<Rightarrow> job_step" where
  "add_dep_step depends_on s =
     s\<lparr>deps := (deps s)(unat (num_deps s) := depends_on), num_deps := num_deps s + 1, ready := False\<rparr>"

definition job_graph_add_dep :: "u32 \<Rightarrow> u32 \<Rightarrow> job_graph \<Rightarrow> bool \<times> job_graph" where
  "job_graph_add_dep step depends_on job =
     (case (find_step job step, find_step job depends_on) of
        (Some k, Some _) \<Rightarrow>
          if num_deps (steps job (unat k)) \<ge> MAX_STEP_DEPS then (False, job)
          else (True, upd_step k (add_dep_step depends_on) job)
      | _ \<Rightarrow> (False, job))"

definition dep_done :: "job_graph \<Rightarrow> u32 \<Rightarrow> bool" where
  "dep_done job d = (case find_step job d of None \<Rightarrow> False | Some k \<Rightarrow> completed (steps job (unat k)))"

text \<open>The inner loop leaves at the first dependency that is missing or not completed.\<close>

definition all_done :: "job_graph \<Rightarrow> job_step \<Rightarrow> bool" where
  "all_done job t = (wfind 0 (num_deps t) (\<lambda>d. \<not> dep_done job (deps t (unat d))) = None)"

definition rescan_step :: "u8 \<Rightarrow> job_graph \<Rightarrow> job_graph" where
  "rescan_step i job =
     (if completed (steps job (unat i)) then job
      else if all_done job (steps job (unat i)) then upd_step i (\<lambda>t. t\<lparr>ready := True\<rparr>) job else job)"

definition job_graph_mark_completed :: "u32 \<Rightarrow> job_graph \<Rightarrow> job_graph" where
  "job_graph_mark_completed step job =
     (case find_step job step of
        None \<Rightarrow> job
      | Some k \<Rightarrow> wfor 0 (num_steps job) rescan_step (upd_step k (\<lambda>s. s\<lparr>completed := True\<rparr>) job))"

definition next_ready_index :: "job_graph \<Rightarrow> u8 option" where
  "next_ready_index job =
     wfind 0 (num_steps job) (\<lambda>i. ready (steps job (unat i)) \<and> \<not> completed (steps job (unat i)))"

text \<open>The result is a C \<^verbatim>\<open>int\<close>: an identifier of 2^31 or more comes out negative.\<close>

definition job_graph_next_ready :: "job_graph \<Rightarrow> int" where
  "job_graph_next_ready job =
     (case next_ready_index job of None \<Rightarrow> - 1 | Some i \<Rightarrow> sint (st_id (steps job (unat i))))"

section \<open>Tensors and memory metrics\<close>

definition find_tensor :: "job_graph \<Rightarrow> u32 \<Rightarrow> u8 option" where
  "find_tensor job i = wfind 0 (num_tensors job) (\<lambda>k. td_id (tensors job (unat k)) = i)"

fun elem_size :: "tensor_dtype \<Rightarrow> u32" where
  "elem_size TENSOR_DTYPE_FP32 = 4"
| "elem_size TENSOR_DTYPE_FP16 = 2"
| "elem_size TENSOR_DTYPE_BF16 = 2"
| "elem_size TENSOR_DTYPE_INT8 = 1"
| "elem_size TENSOR_DTYPE_INT32 = 4"

definition tensor_size_bytes :: "tensor_dtype \<Rightarrow> u32 \<Rightarrow> u32" where
  "tensor_size_bytes dtype elements = elements * elem_size dtype"

definition job_graph_add_tensor ::
    "u32 \<Rightarrow> tensor_dtype \<Rightarrow> u32 \<Rightarrow> u8 \<Rightarrow> u8 \<Rightarrow> job_graph \<Rightarrow> bool \<times> job_graph" where
  "job_graph_add_tensor i dtype num_elements pinned node_affinity job =
     (if num_tensors job \<ge> MAX_JOB_TENSORS then (False, job)
      else if find_tensor job i \<noteq> None then (False, job)
      else (True, job\<lparr>tensors := (tensors job)(unat (num_tensors job) :=
                        \<lparr>td_id = i, td_dtype = dtype, td_num_elements = num_elements,
                         td_size_bytes = tensor_size_bytes dtype num_elements,
                         td_pinned = pinned, td_node_affinity = node_affinity\<rparr>),
                      num_tensors := num_tensors job + 1\<rparr>))"

definition job_graph_step_add_input :: "u32 \<Rightarrow> u32 \<Rightarrow> job_graph \<Rightarrow> bool \<times> job_graph" where
  "job_graph_step_add_input step_id tensor_id job =
     (case find_step job step_id of
        None \<Rightarrow> (False, job)
      | Some k \<Rightarrow>
          if find_tensor job tensor_id = None then (False, job)
          else if num_inputs (steps job (unat k)) \<ge> MAX_STEP_INPUTS then (False, job)
          else (True, upd_step k (\<lambda>s. s\<lparr>inputs := (inputs s)(unat (num_inputs s) := tensor_id),
                                        num_inputs := num_inputs s + 1\<rparr>) job))"

definition job_graph_step_add_output :: "u32 \<Rightarrow> u32 \<Rightarrow> job_graph \<Rightarrow> bool \<times> job_graph" where
  "job_graph_step_add_output step_id tensor_id job =
     (case find_step job step_id of
        None \<Rightarrow> (False, job)
      | Some k \<Rightarrow>
          if find_tensor job tensor_id = None then (False, job)
          else if num_outputs (steps job (unat k)) \<ge> MAX_STEP_OUTPUTS then (False, job)
          else (True, upd_step k (\<lambda>s. s\<lparr>outputs := (outputs s)(unat (num_outputs s) := tensor_id),
                                        num_outputs := num_outputs s + 1\<rparr>) job))"

definition size_kb :: "tensor_desc \<Rightarrow> u32" where
  "size_kb t = (td_size_bytes t + 1023) div 1024"

definition tensor_kb :: "job_graph \<Rightarrow> u32 \<Rightarrow> u32" where
  "tensor_kb job i = (case find_tensor job i of None \<Rightarrow> 0 | Some k \<Rightarrow> size_kb (tensors job (unat k)))"

definition sum_tensors :: "job_graph \<Rightarrow> u32 \<times> u32" where
  "sum_tensors job =
     wfor 0 (num_tensors job) (\<lambda>i (total, pinned).
       let t = tensors job (unat i)
       in (total + size_kb t, if td_pinned t \<noteq> 0 then pinned + size_kb t else pinned)) (0, 0)"

definition step_memory :: "job_graph \<Rightarrow> job_step \<Rightarrow> u32" where
  "step_memory job s =
     (let m = wfor 0 (num_inputs s) (\<lambda>j m. m + tensor_kb job (inputs s (unat j))) 0
      in wfor 0 (num_outputs s) (\<lambda>j m. m + tensor_kb job (outputs s (unat j))) m)"

definition measure_step :: "u8 \<Rightarrow> job_graph \<times> u32 \<Rightarrow> job_graph \<times> u32" where
  "measure_step i acc =
     (case acc of (job, peak) \<Rightarrow>
       let step_mem = step_memory job (steps job (unat i))
       in (upd_step i (\<lambda>s. s\<lparr>working_set_kb := step_mem, st_peak_memory_kb := step_mem\<rparr>) job,
           if step_mem > peak then step_mem else peak))"

definition job_graph_compute_memory :: "job_graph \<Rightarrow> job_graph" where
  "job_graph_compute_memory job =
     (let (total, pinned) = sum_tensors job;
          (job, peak) = wfor 0 (num_steps job) measure_step (job, 0)
      in job\<lparr>total_memory_kb := total, pinned_memory_kb := pinned, peak_memory_kb := peak\<rparr>)"

definition job_graph_get_tensor :: "job_graph \<Rightarrow> u32 \<Rightarrow> tensor_desc option" where
  "job_graph_get_tensor job i = map_option (\<lambda>k. tensors job (unat k)) (find_tensor job i)"

definition job_graph_get_step :: "job_graph \<Rightarrow> u32 \<Rightarrow> job_step option" where
  "job_graph_get_step job i = map_option (\<lambda>k. steps job (unat k)) (find_step job i)"

section \<open>The invariant\<close>

text \<open>Sizes within the declared arrays, and every dependency names a step of the job.\<close>

definition step_ok :: "job_graph \<Rightarrow> job_step \<Rightarrow> bool" where
  "step_ok job s \<longleftrightarrow> num_deps s \<le> MAX_STEP_DEPS \<and> num_inputs s \<le> MAX_STEP_INPUTS \<and>
     num_outputs s \<le> MAX_STEP_OUTPUTS \<and>
     (\<forall>d < num_deps s. find_step job (deps s (unat d)) \<noteq> None) \<and>
     (\<forall>d < num_inputs s. find_tensor job (inputs s (unat d)) \<noteq> None) \<and>
     (\<forall>d < num_outputs s. find_tensor job (outputs s (unat d)) \<noteq> None)"

text \<open>A step that is marked ready has all its dependencies completed.\<close>

definition ready_ok :: "job_graph \<Rightarrow> bool" where
  "ready_ok job \<longleftrightarrow> (\<forall>i < num_steps job.
     ready (steps job (unat i)) \<longrightarrow> all_done job (steps job (unat i)))"

definition job_wf :: "job_graph \<Rightarrow> bool" where
  "job_wf job \<longleftrightarrow> num_steps job \<le> MAX_JOB_STEPS \<and> num_tensors job \<le> MAX_JOB_TENSORS \<and>
     (\<forall>i < num_steps job. step_ok job (steps job (unat i))) \<and> ready_ok job"

section \<open>Lookups\<close>

lemma find_step_SomeD:
  "find_step job i = Some k \<Longrightarrow> k < num_steps job \<and> st_id (steps job (unat k)) = i"
  unfolding find_step_def using wfind_SomeD by fastforce

lemma find_step_exists: "k < num_steps job \<Longrightarrow> find_step job (st_id (steps job (unat k))) \<noteq> None"
  unfolding find_step_def using wfind_NoneD [of 0 "num_steps job" _ k] by fastforce

lemma find_step_upd [simp]:
  "st_id (f (steps job (unat k))) = st_id (steps job (unat k)) \<Longrightarrow>
   find_step (upd_step k f job) i = find_step job i"
  by (auto simp: find_step_def upd_step_def intro!: wfind_cong)

lemma upd_step_fields [simp]:
  "num_steps (upd_step k f job) = num_steps job" "num_tensors (upd_step k f job) = num_tensors job"
  "tensors (upd_step k f job) = tensors job" "find_tensor (upd_step k f job) = find_tensor job"
  by (simp_all add: upd_step_def find_tensor_def fun_eq_iff)

lemma steps_upd: "steps (upd_step k f job) (unat i) =
    (if i = k then f (steps job (unat i)) else steps job (unat i))"
  by (simp add: upd_step_def word_unat_eq_iff)

lemma dep_done_upd:
  assumes "st_id (f (steps job (unat k))) = st_id (steps job (unat k))"
    and "completed (steps job (unat k)) \<Longrightarrow> completed (f (steps job (unat k)))"
  shows "dep_done job d \<Longrightarrow> dep_done (upd_step k f job) d"
  using assms by (auto simp: dep_done_def steps_upd split: option.splits)

lemma all_done_iff: "all_done job t \<longleftrightarrow> (\<forall>d < num_deps t. dep_done job (deps t (unat d)))"
  by (auto simp: all_done_def wfind_eq_None_iff)

lemma all_done_mono:
  "(\<And>d. dep_done job d \<Longrightarrow> dep_done job' d) \<Longrightarrow> all_done job t \<Longrightarrow> all_done job' t"
  by (auto simp: all_done_iff)

text \<open>An update of one step that keeps its identity and does not retract its completion.\<close>

lemma upd_step_wf:
  assumes "job_wf job" and "k < num_steps job"
    and s: "s = steps job (unat k)" and "st_id (f s) = st_id s" and "completed s \<Longrightarrow> completed (f s)"
    and ok: "step_ok (upd_step k f job) (f s)"
    and rd: "ready (f s) \<Longrightarrow> all_done (upd_step k f job) (f s)"
  shows "job_wf (upd_step k f job)"
proof -
  have fs: "find_step (upd_step k f job) i = find_step job i" for i using assms by simp
  have mono: "dep_done job d \<Longrightarrow> dep_done (upd_step k f job) d" for d
    using assms by (intro dep_done_upd) simp_all
  have "step_ok (upd_step k f job) (steps (upd_step k f job) (unat i))" if "i < num_steps job" for i
    using assms(1) that ok s by (auto simp: steps_upd job_wf_def step_ok_def fs)
  moreover have "all_done (upd_step k f job) (steps (upd_step k f job) (unat i))"
    if "i < num_steps job" "ready (steps (upd_step k f job) (unat i))" for i
    using assms(1) that rd s all_done_mono [of job "upd_step k f job", OF mono]
    by (auto simp: steps_upd job_wf_def ready_ok_def split: if_splits)
  ultimately show ?thesis using assms(1) by (simp add: job_wf_def ready_ok_def)
qed

lemma less_MAX_Suc:
  fixes n m i :: u8
  assumes "n < m" shows "n + 1 \<le> m" "i < n + 1 \<longleftrightarrow> i < n \<or> i = n"
  using unat_Suc_less [OF assms] assms by (auto simp: word_le_nat_alt word_less_nat_alt word_unat_eq_iff)

section \<open>Every operation keeps the invariant\<close>

lemma init_wf: "job_wf (job_graph_init i job)"
  by (simp add: job_graph_init_def job_wf_def ready_ok_def)

lemma add_step_wf:
  assumes "job_wf job" shows "job_wf (snd (job_graph_add_step i ty job))"
proof (cases "num_steps job < MAX_JOB_STEPS")
  case True
  let ?n = "num_steps job" and ?job = "snd (job_graph_add_step i ty job)"
  note less = less_MAX_Suc [OF True]
  have job: "num_steps ?job = ?n + 1" "num_tensors ?job = num_tensors job"
      "find_tensor ?job = find_tensor job"
    using True by (simp_all add: job_graph_add_step_def find_tensor_def fun_eq_iff)
  have old: "steps ?job (unat k) = steps job (unat k)" if "k < ?n" for k
    using True that by (auto simp: job_graph_add_step_def upd_step_def word_less_nat_alt)
  have new: "num_deps (steps ?job (unat ?n)) = 0" "num_inputs (steps ?job (unat ?n)) = 0"
      "num_outputs (steps ?job (unat ?n)) = 0"
    using True [unfolded not_le [symmetric]] by (simp_all add: job_graph_add_step_def upd_step_def)
  have fs: "find_step ?job d = Some k" if "find_step job d = Some k" for d k
  proof -
    from that have "0 \<le> k \<and> k < ?n \<and> st_id (steps job (unat k)) = d \<and>
        (\<forall>j. 0 \<le> j \<and> j < k \<longrightarrow> st_id (steps job (unat j)) \<noteq> d)"
      unfolding find_step_def by (rule wfind_SomeD)
    then show ?thesis using old less(2) unfolding find_step_def job wfind_eq_Some_iff by auto
  qed
  have dd: "dep_done ?job d" if "dep_done job d" for d
    using that fs find_step_SomeD old by (fastforce simp: dep_done_def split: option.splits)
  have "step_ok ?job (steps ?job (unat k))" if "k < ?n + 1" for k
  proof (cases "k = ?n")
    case False
    then have k: "k < ?n" using that less(2) by blast
    then have "step_ok job (steps job (unat k))" using assms by (simp add: job_wf_def)
    then show ?thesis using old [OF k] fs by (fastforce simp: step_ok_def job)
  qed (simp add: step_ok_def new)
  moreover have "all_done ?job (steps ?job (unat k))" if "k < ?n + 1" "ready (steps ?job (unat k))" for k
  proof (cases "k = ?n")
    case False
    then have k: "k < ?n" using that less(2) by blast
    then have "all_done job (steps job (unat k))" using assms that old [OF k] by (simp add: job_wf_def ready_ok_def)
    then show ?thesis using old [OF k] dd by (simp add: all_done_iff)
  qed (simp add: all_done_iff new)
  ultimately show ?thesis using assms less(1) by (simp add: job_wf_def ready_ok_def job)
qed (use assms in \<open>simp add: job_graph_add_step_def not_less\<close>)

lemma add_dep_wf:
  assumes "job_wf job" shows "job_wf (snd (job_graph_add_dep a b job))"
proof (cases "fst (job_graph_add_dep a b job)")
  case True
  then obtain k m where k: "find_step job a = Some k" and m: "find_step job b = Some m"
    and lt: "num_deps (steps job (unat k)) < MAX_STEP_DEPS"
    and eq: "snd (job_graph_add_dep a b job) = upd_step k (add_dep_step b) job"
    by (auto simp: job_graph_add_dep_def split: option.splits if_splits)
  let ?s = "steps job (unat k)"
  have kn: "k < num_steps job" using find_step_SomeD [OF k] by simp
  have "step_ok job ?s" using assms kn by (simp add: job_wf_def)
  then have "step_ok (upd_step k (add_dep_step b) job) (add_dep_step b ?s)"
    using less_MAX_Suc [OF lt] m by (auto simp: step_ok_def add_dep_step_def word_unat_eq_iff)
  then show ?thesis
    unfolding eq by (intro upd_step_wf [OF assms kn refl]) (simp_all add: add_dep_step_def)
next
  case False
  then show ?thesis
    using assms by (auto simp: job_graph_add_dep_def split: option.splits if_splits)
qed

lemma add_input_wf:
  assumes "job_wf job" shows "job_wf (snd (job_graph_step_add_input a b job))"
proof (cases "fst (job_graph_step_add_input a b job)")
  case True
  let ?f = "\<lambda>s. s\<lparr>inputs := (inputs s)(unat (num_inputs s) := b), num_inputs := num_inputs s + 1\<rparr>"
  from True obtain k where k: "find_step job a = Some k" and m: "find_tensor job b \<noteq> None"
    and lt: "num_inputs (steps job (unat k)) < MAX_STEP_INPUTS"
    and eq: "snd (job_graph_step_add_input a b job) = upd_step k ?f job"
    by (auto simp: job_graph_step_add_input_def split: option.splits if_splits)
  let ?s = "steps job (unat k)"
  have kn: "k < num_steps job" using find_step_SomeD [OF k] by simp
  have dd: "dep_done job d \<Longrightarrow> dep_done (upd_step k ?f job) d" for d by (rule dep_done_upd) simp_all
  have "step_ok job ?s" "ready ?s \<longrightarrow> all_done job ?s"
    using assms kn by (simp_all add: job_wf_def ready_ok_def)
  then have "step_ok (upd_step k ?f job) (?f ?s)" "ready ?s \<longrightarrow> all_done (upd_step k ?f job) (?f ?s)"
    using less_MAX_Suc [OF lt] m dd by (auto simp: step_ok_def all_done_iff word_unat_eq_iff)
  then show ?thesis unfolding eq by (intro upd_step_wf [OF assms kn refl]) simp_all
next
  case False
  then show ?thesis
    using assms by (auto simp: job_graph_step_add_input_def split: option.splits if_splits)
qed

lemma add_output_wf:
  assumes "job_wf job" shows "job_wf (snd (job_graph_step_add_output a b job))"
proof (cases "fst (job_graph_step_add_output a b job)")
  case True
  let ?f = "\<lambda>s. s\<lparr>outputs := (outputs s)(unat (num_outputs s) := b), num_outputs := num_outputs s + 1\<rparr>"
  from True obtain k where k: "find_step job a = Some k" and m: "find_tensor job b \<noteq> None"
    and lt: "num_outputs (steps job (unat k)) < MAX_STEP_OUTPUTS"
    and eq: "snd (job_graph_step_add_output a b job) = upd_step k ?f job"
    by (auto simp: job_graph_step_add_output_def split: option.splits if_splits)
  let ?s = "steps job (unat k)"
  have kn: "k < num_steps job" using find_step_SomeD [OF k] by simp
  have dd: "dep_done job d \<Longrightarrow> dep_done (upd_step k ?f job) d" for d by (rule dep_done_upd) simp_all
  have "step_ok job ?s" "ready ?s \<longrightarrow> all_done job ?s"
    using assms kn by (simp_all add: job_wf_def ready_ok_def)
  then have "step_ok (upd_step k ?f job) (?f ?s)" "ready ?s \<longrightarrow> all_done (upd_step k ?f job) (?f ?s)"
    using less_MAX_Suc [OF lt] m dd by (auto simp: step_ok_def all_done_iff word_unat_eq_iff)
  then show ?thesis unfolding eq by (intro upd_step_wf [OF assms kn refl]) simp_all
next
  case False
  then show ?thesis
    using assms by (auto simp: job_graph_step_add_output_def split: option.splits if_splits)
qed

lemma add_tensor_wf:
  assumes "job_wf job" shows "job_wf (snd (job_graph_add_tensor i ty n p na job))"
proof (cases "fst (job_graph_add_tensor i ty n p na job)")
  case True
  let ?job = "snd (job_graph_add_tensor i ty n p na job)"
  have lt: "num_tensors job < MAX_JOB_TENSORS"
    using True by (auto simp: job_graph_add_tensor_def split: if_splits)
  note less = less_MAX_Suc [OF lt]
  have job: "num_steps ?job = num_steps job" "steps ?job = steps job"
      "num_tensors ?job = num_tensors job + 1"
    using True by (auto simp: job_graph_add_tensor_def split: if_splits)
  have old: "tensors ?job (unat k) = tensors job (unat k)" if "k < num_tensors job" for k
    using True that by (auto simp: job_graph_add_tensor_def word_less_nat_alt)
  have fs: "find_step ?job = find_step job" by (simp add: fun_eq_iff find_step_def job)
  then have dd: "dep_done ?job = dep_done job"
    by (simp add: fun_eq_iff dep_done_def job split: option.splits)
  have ft: "find_tensor ?job d \<noteq> None" if "find_tensor job d \<noteq> None" for d
  proof -
    from that obtain k where "wfind 0 (num_tensors job) (\<lambda>k. td_id (tensors job (unat k)) = d) = Some k"
      by (auto simp: find_tensor_def)
    from wfind_SomeD [OF this] have "wfind 0 (num_tensors ?job) (\<lambda>k. td_id (tensors ?job (unat k)) = d) = Some k"
      unfolding wfind_eq_Some_iff job less(2) using old by auto
    then show ?thesis by (simp add: find_tensor_def)
  qed
  show ?thesis
    using assms less(1) ft by (auto simp: job_wf_def ready_ok_def step_ok_def all_done_iff job fs dd)
next
  case False
  then show ?thesis using assms by (auto simp: job_graph_add_tensor_def split: if_splits)
qed

section \<open>Completion\<close>

text \<open>The rescan in closed form: it raises \<open>ready\<close> of the open steps whose dependencies are done.\<close>

definition rescanned :: "nat \<Rightarrow> job_graph \<Rightarrow> job_graph" where
  "rescanned n job = job\<lparr>steps := (\<lambda>i.
     if i < n \<and> \<not> completed (steps job i) \<and> all_done job (steps job i)
     then (steps job i)\<lparr>ready := True\<rparr> else steps job i)\<rparr>"

lemma rescanned_fields [simp]:
  "num_steps (rescanned n job) = num_steps job" "num_tensors (rescanned n job) = num_tensors job"
  "tensors (rescanned n job) = tensors job"
  "st_id (steps (rescanned n job) i) = st_id (steps job i)"
  "completed (steps (rescanned n job) i) = completed (steps job i)"
  "deps (steps (rescanned n job) i) = deps (steps job i)"
  "num_deps (steps (rescanned n job) i) = num_deps (steps job i)"
  "inputs (steps (rescanned n job) i) = inputs (steps job i)"
  "num_inputs (steps (rescanned n job) i) = num_inputs (steps job i)"
  "outputs (steps (rescanned n job) i) = outputs (steps job i)"
  "num_outputs (steps (rescanned n job) i) = num_outputs (steps job i)"
  "ready (steps (rescanned n job) i) \<longleftrightarrow> ready (steps job i) \<or>
     i < n \<and> \<not> completed (steps job i) \<and> all_done job (steps job i)"
  by (auto simp: rescanned_def)

lemma rescanned_finds [simp]:
  "find_step (rescanned n job) = find_step job" "find_tensor (rescanned n job) = find_tensor job"
  by (simp_all add: find_step_def find_tensor_def fun_eq_iff)

lemma dep_done_rescanned [simp]: "dep_done (rescanned n job) = dep_done job"
  by (simp add: dep_done_def fun_eq_iff split: option.splits)

lemma all_done_rescanned [simp]:
  "all_done (rescanned m job) (steps (rescanned n job) i) = all_done job (steps job i)"
  "all_done (rescanned n job) t = all_done job t"
  "all_done job (steps (rescanned n job) i) = all_done job (steps job i)"
  by (simp_all add: all_done_iff)

lemma rescanned_steps: "rescanned n job = job\<lparr>steps := steps (rescanned n job)\<rparr>"
  by (simp add: rescanned_def)

lemma rescan_step_rescanned:
  assumes "j < num_steps job"
  shows "rescan_step j (rescanned (unat j) job) = rescanned (unat (j + 1)) job"
proof -
  let ?s = "steps (rescanned (unat j) job)"
  have Suc: "unat (j + 1) = Suc (unat j)" by (rule unat_Suc_less [OF assms])
  have "steps (rescanned (Suc (unat j)) job) =
      (if \<not> completed (steps job (unat j)) \<and> all_done job (steps job (unat j))
       then ?s(unat j := (?s (unat j))\<lparr>ready := True\<rparr>) else ?s)"
    by (rule ext) (auto simp: rescanned_def less_Suc_eq)
  moreover have "(rescanned (unat j) job)\<lparr>steps := x\<rparr> = job\<lparr>steps := x\<rparr>" for x
    by (simp add: rescanned_def)
  ultimately show ?thesis
    unfolding Suc
    by (subst rescanned_steps [of "Suc (unat j)"])
       (simp add: rescan_step_def upd_step_def rescanned_steps [symmetric])
qed

lemma mark_completed_eq:
  "job_graph_mark_completed a job =
     (case find_step job a of None \<Rightarrow> job
      | Some k \<Rightarrow> rescanned (unat (num_steps job)) (upd_step k (\<lambda>s. s\<lparr>completed := True\<rparr>) job))"
proof (cases "find_step job a")
  case (Some k)
  let ?job = "upd_step k (\<lambda>s. s\<lparr>completed := True\<rparr>) job"
  have "wfor 0 (num_steps job) rescan_step ?job = rescanned (unat (num_steps job)) ?job"
  proof (rule wfor_invariant [where P = "\<lambda>j t. t = rescanned (unat j) ?job"])
    show "?job = rescanned (unat (0 :: u8)) ?job" by (simp add: rescanned_def)
  qed (simp_all add: rescan_step_rescanned)
  then show ?thesis using Some by (simp add: job_graph_mark_completed_def)
qed (simp add: job_graph_mark_completed_def)

lemma rescanned_wf: "job_wf job \<Longrightarrow> job_wf (rescanned n job)"
  by (auto simp: job_wf_def step_ok_def ready_ok_def)

lemma complete_step_wf:
  assumes "job_wf job" and "k < num_steps job"
  shows "job_wf (upd_step k (\<lambda>s. s\<lparr>completed := True\<rparr>) job)"
proof -
  let ?f = "\<lambda>s :: job_step. s\<lparr>completed := True\<rparr>" and ?s = "steps job (unat k)"
  have dd: "dep_done job d \<Longrightarrow> dep_done (upd_step k ?f job) d" for d by (rule dep_done_upd) simp_all
  have "step_ok job ?s" "ready ?s \<longrightarrow> all_done job ?s"
    using assms by (simp_all add: job_wf_def ready_ok_def)
  then have "step_ok (upd_step k ?f job) (?f ?s)" "ready ?s \<longrightarrow> all_done (upd_step k ?f job) (?f ?s)"
    using dd by (auto simp: step_ok_def all_done_iff)
  then show ?thesis by (intro upd_step_wf [OF assms refl]) simp_all
qed

lemma mark_completed_wf: "job_wf job \<Longrightarrow> job_wf (job_graph_mark_completed a job)"
  by (auto simp: mark_completed_eq split: option.splits
      intro!: rescanned_wf complete_step_wf dest: find_step_SomeD)

section \<open>Memory metrics\<close>

lemma sum_tensors_eq:
  "sum_tensors job =
     ((\<Sum>t\<leftarrow>aslice (tensors job) (unat (num_tensors job)). size_kb t),
      (\<Sum>t\<leftarrow>filter (\<lambda>t. td_pinned t \<noteq> 0) (aslice (tensors job) (unat (num_tensors job))). size_kb t))"
proof -
  let ?P = "\<lambda>j acc. acc = ((\<Sum>t\<leftarrow>aslice (tensors job) (unat j). size_kb t),
      (\<Sum>t\<leftarrow>filter (\<lambda>t. td_pinned t \<noteq> 0) (aslice (tensors job) (unat j)). size_kb t))"
  have "?P (num_tensors job) (sum_tensors job)"
    unfolding sum_tensors_def
    by (rule wfor_invariant [where P = ?P]) (auto simp: unat_Suc_less aslice_Suc Let_def)
  then show ?thesis .
qed

lemma wfor_sum:
  "wfor 0 n (\<lambda>j m. m + f (a (unat j))) m = m + (\<Sum>x\<leftarrow>aslice a (unat n). f x)"
proof -
  let ?P = "\<lambda>j acc. acc = m + (\<Sum>x\<leftarrow>aslice a (unat j). f x)"
  have "?P n (wfor 0 n (\<lambda>j m. m + f (a (unat j))) m)"
    by (rule wfor_invariant [where P = ?P]) (auto simp: unat_Suc_less aslice_Suc algebra_simps)
  then show ?thesis .
qed

lemma step_memory_eq:
  "step_memory job s = (\<Sum>t\<leftarrow>aslice (inputs s) (unat (num_inputs s)). tensor_kb job t) +
     (\<Sum>t\<leftarrow>aslice (outputs s) (unat (num_outputs s)). tensor_kb job t)"
  by (simp add: step_memory_def Let_def wfor_sum)

text \<open>The job after the first \<open>n\<close> steps have been measured.\<close>

definition measured :: "nat \<Rightarrow> job_graph \<Rightarrow> job_graph" where
  "measured n job = job\<lparr>steps := (\<lambda>i. if i < n
     then (steps job i)\<lparr>working_set_kb := step_memory job (steps job i),
            st_peak_memory_kb := step_memory job (steps job i)\<rparr> else steps job i)\<rparr>"

lemma measured_memory: "step_memory (measured n job) (steps (measured n job) i) = step_memory job (steps job i)"
proof -
  have "tensor_kb (measured n job) = tensor_kb job"
    by (simp add: measured_def tensor_kb_def find_tensor_def fun_eq_iff split: option.splits)
  then show ?thesis by (simp add: step_memory_eq) (simp add: measured_def)
qed

lemma measured_step:
  "upd_step j (\<lambda>s. s\<lparr>working_set_kb := step_memory job (steps job (unat j)),
       st_peak_memory_kb := step_memory job (steps job (unat j))\<rparr>) (measured (unat j) job) =
   measured (Suc (unat j)) job"
  unfolding upd_step_def measured_def
  by simp (rule arg_cong [where f = "\<lambda>x. job\<lparr>steps := x\<rparr>"], auto simp: less_Suc_eq)

lemma measure_loop:
  assumes "n \<le> num_steps job"
  shows "\<exists>peak. wfor 0 n measure_step (job, 0) = (measured (unat n) job, peak) \<and>
    (\<forall>i < unat n. step_memory job (steps job i) \<le> peak) \<and>
    (peak = 0 \<or> (\<exists>i < unat n. peak = step_memory job (steps job i)))"
proof (rule wfor_invariant [where P = "\<lambda>j acc. \<exists>peak. acc = (measured (unat j) job, peak) \<and>
    (\<forall>i < unat j. step_memory job (steps job i) \<le> peak) \<and>
    (peak = 0 \<or> (\<exists>i < unat j. peak = step_memory job (steps job i)))"])
  show "\<exists>peak. (job, 0) = (measured (unat 0) job, peak) \<and>
      (\<forall>i < unat 0. step_memory job (steps job i) \<le> peak) \<and>
      (peak = 0 \<or> (\<exists>i < unat 0. peak = step_memory job (steps job i)))"
    by (simp add: measured_def)
next
  fix j acc
  assume j: "j < n" and "\<exists>peak. acc = (measured (unat j) job, peak) \<and>
    (\<forall>i < unat j. step_memory job (steps job i) \<le> peak) \<and>
    (peak = 0 \<or> (\<exists>i < unat j. peak = step_memory job (steps job i)))"
  then obtain peak where acc: "acc = (measured (unat j) job, peak)"
    and ub: "\<forall>i < unat j. step_memory job (steps job i) \<le> peak"
    and at: "peak = 0 \<or> (\<exists>i < unat j. peak = step_memory job (steps job i))" by blast
  let ?m = "step_memory job (steps job (unat j))"
  have Suc: "unat (j + 1) = Suc (unat j)" by (rule unat_Suc_less [OF j])
  have "measure_step j acc = (measured (unat (j + 1)) job, if ?m > peak then ?m else peak)"
    unfolding acc measure_step_def Suc by (simp add: Let_def measured_memory measured_step)
  moreover have "\<forall>i < Suc (unat j). step_memory job (steps job i) \<le> (if ?m > peak then ?m else peak)"
    using ub by (auto simp: less_Suc_eq intro: order_trans)
  ultimately show "\<exists>peak. measure_step j acc = (measured (unat (j + 1)) job, peak) \<and>
      (\<forall>i < unat (j + 1). step_memory job (steps job i) \<le> peak) \<and>
      (peak = 0 \<or> (\<exists>i < unat (j + 1). peak = step_memory job (steps job i)))"
    using at unfolding Suc by (auto simp: less_Suc_eq)
qed simp

lemma compute_memory_wf: "job_wf job \<Longrightarrow> job_wf (job_graph_compute_memory job)"
proof -
  assume wf: "job_wf job"
  obtain peak where "wfor 0 (num_steps job) measure_step (job, 0) =
      (measured (unat (num_steps job)) job, peak)"
    using measure_loop [of "num_steps job" job] by auto
  then obtain job' where job': "job_graph_compute_memory job = job'"
    and same: "num_steps job' = num_steps job" "num_tensors job' = num_tensors job"
      "tensors job' = tensors job" "steps job' = steps (measured (unat (num_steps job)) job)"
    by (simp add: job_graph_compute_memory_def split_beta measured_def)
  have fields: "st_id (steps job' i) = st_id (steps job i)" "completed (steps job' i) = completed (steps job i)"
      "ready (steps job' i) = ready (steps job i)" "num_deps (steps job' i) = num_deps (steps job i)"
      "deps (steps job' i) = deps (steps job i)" "num_inputs (steps job' i) = num_inputs (steps job i)"
      "inputs (steps job' i) = inputs (steps job i)" "num_outputs (steps job' i) = num_outputs (steps job i)"
      "outputs (steps job' i) = outputs (steps job i)" for i
    by (simp_all add: same measured_def)
  have f: "find_step job' = find_step job" "find_tensor job' = find_tensor job"
    by (simp_all add: fun_eq_iff find_step_def find_tensor_def same(1-3) fields)
  then have "dep_done job' = dep_done job"
    by (simp add: fun_eq_iff dep_done_def fields split: option.splits)
  then show ?thesis
    using wf by (simp add: job' job_wf_def ready_ok_def step_ok_def all_done_iff same(1-3) fields f)
qed

section \<open>Scheduling order\<close>

text \<open>Every open step whose dependencies are done is marked ready.\<close>

definition ready_complete :: "job_graph \<Rightarrow> bool" where
  "ready_complete job \<longleftrightarrow> (\<forall>i < num_steps job. \<not> completed (steps job (unat i)) \<and>
     all_done job (steps job (unat i)) \<longrightarrow> ready (steps job (unat i)))"

definition distinct_ids :: "job_graph \<Rightarrow> bool" where
  "distinct_ids job \<longleftrightarrow> (\<forall>i < num_steps job. \<forall>j < num_steps job.
     st_id (steps job (unat i)) = st_id (steps job (unat j)) \<longrightarrow> i = j)"

text \<open>The dependencies can be ranked, that is, they have no cycle.\<close>

definition ranked :: "(u32 \<Rightarrow> nat) \<Rightarrow> job_graph \<Rightarrow> bool" where
  "ranked rank job \<longleftrightarrow> (\<forall>i < num_steps job. \<forall>d < num_deps (steps job (unat i)).
     rank (deps (steps job (unat i)) (unat d)) < rank (st_id (steps job (unat i))))"

definition open_steps :: "job_graph \<Rightarrow> u8 set" where
  "open_steps job = {i. i < num_steps job \<and> \<not> completed (steps job (unat i))}"

lemma find_step_distinct:
  assumes "distinct_ids job" and "k < num_steps job"
  shows "find_step job (st_id (steps job (unat k))) = Some k"
  using find_step_exists [OF assms(2)] find_step_SomeD assms by (auto simp: distinct_ids_def)

lemma mark_completed_ready_complete:
  assumes "find_step job a \<noteq> None" shows "ready_complete (job_graph_mark_completed a job)"
  using assms by (auto simp: mark_completed_eq ready_complete_def word_less_nat_alt)

lemma mark_completed_open:
  assumes "distinct_ids job" and "k < num_steps job"
  shows "open_steps (job_graph_mark_completed (st_id (steps job (unat k))) job) = open_steps job - {k}"
  using find_step_distinct [OF assms]
  by (auto simp: mark_completed_eq open_steps_def steps_upd)

lemma mark_completed_static:
  fixes i :: u8 shows
  "num_steps (job_graph_mark_completed a job) = num_steps job"
  "st_id (steps (job_graph_mark_completed a job) (unat i)) = st_id (steps job (unat i))"
  "num_deps (steps (job_graph_mark_completed a job) (unat i)) = num_deps (steps job (unat i))"
  "deps (steps (job_graph_mark_completed a job) (unat i)) = deps (steps job (unat i))"
  by (auto simp: mark_completed_eq steps_upd split: option.splits)

lemma mark_completed_distinct: "distinct_ids (job_graph_mark_completed a job) = distinct_ids job"
  by (simp add: distinct_ids_def mark_completed_static)

lemma mark_completed_ranked: "ranked rank (job_graph_mark_completed a job) = ranked rank job"
  by (simp add: ranked_def mark_completed_static)

text \<open>An open step of least rank has all its dependencies completed.\<close>

lemma progress:
  assumes wf: "job_wf job" and rc: "ready_complete job" and rk: "ranked rank job"
    and op: "open_steps job \<noteq> {}"
  shows "next_ready_index job \<noteq> None"
proof -
  let ?rk = "\<lambda>i. rank (st_id (steps job (unat i)))"
  obtain i where i: "i \<in> open_steps job" and least: "\<And>j. j \<in> open_steps job \<Longrightarrow> ?rk i \<le> ?rk j"
    using op ex_has_least_nat [of "\<lambda>i. i \<in> open_steps job" _ ?rk] by blast
  let ?s = "steps job (unat i)"
  have n: "i < num_steps job" "\<not> completed ?s" using i by (simp_all add: open_steps_def)
  have "dep_done job (deps ?s (unat d))" if d: "d < num_deps ?s" for d
  proof -
    obtain k where k: "find_step job (deps ?s (unat d)) = Some k"
      using wf n d unfolding job_wf_def step_ok_def by blast
    note K = find_step_SomeD [OF k]
    have "?rk k < ?rk i" using rk n d K by (auto simp: ranked_def)
    then have "k \<notin> open_steps job" using least by fastforce
    then show ?thesis using K k by (simp add: dep_done_def open_steps_def)
  qed
  then have "all_done job ?s" by (simp add: all_done_iff)
  then have "ready ?s" using rc n by (simp add: ready_complete_def)
  then show ?thesis
    using n wfind_NoneD [of 0 "num_steps job" _ i] by (fastforce simp: next_ready_index_def)
qed

lemma next_ready_sound:
  assumes "job_wf job" and "next_ready_index job = Some i"
  shows "i \<in> open_steps job \<and> (\<forall>d < num_deps (steps job (unat i)).
    dep_done job (deps (steps job (unat i)) (unat d)))"
  using assms wfind_SomeD [of 0 "num_steps job" _ i]
  by (fastforce simp: next_ready_index_def open_steps_def job_wf_def ready_ok_def all_done_iff)

section \<open>Properties\<close>

text \<open>
  C27: Every operation of the job graph keeps the invariant: the counts stay within the declared
  arrays, dependencies and tensor references name elements that exist, and a step is marked ready
  only if all its dependencies are completed.
\<close>

theorem job_graph_invariant:
  assumes "job_wf job"
  shows "job_wf (job_graph_init i job) \<and> job_wf (snd (job_graph_add_step i ty job)) \<and>
    job_wf (snd (job_graph_add_dep a b job)) \<and> job_wf (job_graph_mark_completed a job) \<and>
    job_wf (snd (job_graph_add_tensor i dt n p na job)) \<and>
    job_wf (snd (job_graph_step_add_input a b job)) \<and>
    job_wf (snd (job_graph_step_add_output a b job)) \<and> job_wf (job_graph_compute_memory job)"
  by (simp add: assms init_wf add_step_wf add_dep_wf mark_completed_wf add_tensor_wf add_input_wf
      add_output_wf compute_memory_wf)

text \<open>
  The memory metrics: the totals are the sums of the tensor sizes rounded up to kilobytes,
  each step's working set is the sum over its inputs and outputs, and the peak is the largest
  working set (all sums in 32-bit arithmetic).
\<close>

theorem compute_memory_correct:
  "total_memory_kb (job_graph_compute_memory job) =
     (\<Sum>t\<leftarrow>aslice (tensors job) (unat (num_tensors job)). size_kb t) \<and>
   pinned_memory_kb (job_graph_compute_memory job) =
     (\<Sum>t\<leftarrow>filter (\<lambda>t. td_pinned t \<noteq> 0) (aslice (tensors job) (unat (num_tensors job))). size_kb t) \<and>
   aslice (steps (job_graph_compute_memory job)) (unat (num_steps job)) =
     map (\<lambda>s. s\<lparr>working_set_kb := step_memory job s, st_peak_memory_kb := step_memory job s\<rparr>)
       (aslice (steps job) (unat (num_steps job))) \<and>
   peak_memory_kb (job_graph_compute_memory job) =
     Max (insert 0 (step_memory job ` set (aslice (steps job) (unat (num_steps job)))))"
proof -
  obtain peak where w: "wfor 0 (num_steps job) measure_step (job, 0) =
      (measured (unat (num_steps job)) job, peak)"
    and ub: "\<forall>i < unat (num_steps job). step_memory job (steps job i) \<le> peak"
    and at: "peak = 0 \<or> (\<exists>i < unat (num_steps job). peak = step_memory job (steps job i))"
    using measure_loop [of "num_steps job" job] by auto
  have "peak = Max (insert 0 (step_memory job ` set (aslice (steps job) (unat (num_steps job)))))"
    using ub at by (intro Max_eqI [symmetric]) (auto simp: set_aslice)
  then show ?thesis
    by (simp add: job_graph_compute_memory_def w sum_tensors_eq split_beta)
       (simp add: measured_def aslice_def)
qed

text \<open>
  A tensor whose size is within 1023 bytes of 4 GB counts as zero kilobytes, because the
  rounding wraps around: the metrics that admission control reads can be below the true size.
\<close>

theorem size_kb_wraps:
  "size_kb t = (if unat (td_size_bytes t) + 1023 < 2 ^ 32
     then of_nat ((unat (td_size_bytes t) + 1023) div 1024) else 0)"
proof (cases "unat (td_size_bytes t) + 1023 < 2 ^ 32")
  case True
  then have "unat (td_size_bytes t + 1023) = unat (td_size_bytes t) + 1023"
    by (subst unat_add_no_wrap) simp_all
  then have "unat (size_kb t) = (unat (td_size_bytes t) + 1023) div 1024"
    by (simp add: size_kb_def unat_div)
  then show ?thesis using True by (metis of_nat_unat_eq)
next
  case False
  have "unat (td_size_bytes t + 1023) = unat (td_size_bytes t) + 1023 - 2 ^ 32"
    using False unat_u32_less [of "td_size_bytes t"]
    by (simp add: unat_word_ariths mod_if del: unat_u32_less)
  then have "unat (td_size_bytes t + 1023) < 1024"
    using unat_u32_less [of "td_size_bytes t"] by (simp del: unat_u32_less)
  then have "unat (size_kb t) = 0" by (simp add: size_kb_def unat_div)
  then show ?thesis using False by (simp add: unat_eq_0)
qed

text \<open>A small job: step 2 depends on step 1.\<close>

definition two_step_job :: job_graph where
  "two_step_job =
     (let s = \<lparr>st_id = 0, st_type = STEP_TYPE_COMPUTE, num_deps = 0, deps = (\<lambda>_. 0), num_inputs = 0,
               inputs = (\<lambda>_. 0), num_outputs = 0, outputs = (\<lambda>_. 0), st_peak_memory_kb = 0,
               working_set_kb = 0, ready = False, completed = False\<rparr>;
          t = \<lparr>td_id = 0, td_dtype = TENSOR_DTYPE_FP32, td_num_elements = 0, td_size_bytes = 0,
               td_pinned = 0, td_node_affinity = 0\<rparr>;
          job = job_graph_init 9 \<lparr>jg_id = 0, num_steps = 0, steps = (\<lambda>_. s), num_tensors = 0,
                  tensors = (\<lambda>_. t), total_memory_kb = 0, peak_memory_kb = 0, pinned_memory_kb = 0\<rparr>;
          (_, job) = job_graph_add_step 1 STEP_TYPE_COMPUTE job;
          (_, job) = job_graph_add_step 2 STEP_TYPE_IO job
      in snd (job_graph_add_dep 2 1 job))"

lemma two_step_job_wf: "job_wf two_step_job"
  unfolding two_step_job_def Let_def split_beta by (intro add_dep_wf add_step_wf init_wf)

theorem job_graph_invariant_witness:
  "job_wf (job_graph_mark_completed 1 two_step_job) \<and>
   job_graph_next_ready (job_graph_mark_completed 1 two_step_job) = 2"
proof
  show "job_wf (job_graph_mark_completed 1 two_step_job)"
    using job_graph_invariant [OF two_step_job_wf] by blast
  show "job_graph_next_ready (job_graph_mark_completed 1 two_step_job) = 2"
    by code_simp
qed

end
