(* ===== verification/Contracts.thy ===== *)
theory Contracts
  imports Zalloc Job_Graph
begin

text \<open>
  Resource contracts (\<^verbatim>\<open>kernel/contracts.c\<close>), their registry (\<^verbatim>\<open>kernel/api/contract_registry.c\<close>)
  and the verdict oracle (\<^verbatim>\<open>kernel/api/oracle.c\<close>). Contracts are caller-owned structures that the
  registry refers to by address, so they live in a store \<open>contract_at\<close> from addresses to
  contracts: an update through one pointer is visible through every other.
\<close>

section \<open>Data\<close>

datatype contract_priority =
  CONTRACT_PRIORITY_LOW | CONTRACT_PRIORITY_NORMAL | CONTRACT_PRIORITY_HIGH | CONTRACT_PRIORITY_REALTIME

datatype contract_state = CONTRACT_STATE_OK | CONTRACT_STATE_WARNED | CONTRACT_STATE_SAFE_MODE

datatype mem_tier = MEM_TIER_DDR | MEM_TIER_HBM | MEM_TIER_DEVICE

datatype admit_result =
  ADMIT_OK | ADMIT_REJECT_MEMORY | ADMIT_REJECT_CPU | ADMIT_REJECT_PRIORITY | ADMIT_REJECT_NO_RESOURCES

datatype verdict = VERDICT_PASS | VERDICT_THROTTLE | VERDICT_KILL

fun state_code :: "contract_state \<Rightarrow> u32" where
  "state_code CONTRACT_STATE_OK = 0"
| "state_code CONTRACT_STATE_WARNED = 1"
| "state_code CONTRACT_STATE_SAFE_MODE = 2"

fun admit_code :: "admit_result \<Rightarrow> u32" where
  "admit_code ADMIT_OK = 0"
| "admit_code ADMIT_REJECT_MEMORY = 1"
| "admit_code ADMIT_REJECT_CPU = 2"
| "admit_code ADMIT_REJECT_PRIORITY = 3"
| "admit_code ADMIT_REJECT_NO_RESOURCES = 4"

record task_contract =
  cpu_budget_us :: u32
  memory_kb :: u32
  accel_slots :: u32
  prio :: contract_priority
  preferred :: u8
  tier_hint :: mem_tier
  cpu_used_us :: u32
  mem_used_kb :: u32
  cpu_violations :: u32
  mem_violations :: u32
  c_state :: contract_state
  c_job_id :: u32

type_synonym cptr = nat

record contracts = zalloc +
  contract_at :: "cptr \<Rightarrow> task_contract"
  contract_registry :: "cptr option carray"
  contract_registry_count :: u32

definition CONTRACT_REGISTRY_MAX :: u32 where [zconst]: "CONTRACT_REGISTRY_MAX = 64"

definition upd_contract ::
    "cptr \<Rightarrow> (task_contract \<Rightarrow> task_contract) \<Rightarrow> 'a contracts_scheme \<Rightarrow> 'a contracts_scheme" where
  "upd_contract c f s = s\<lparr>contract_at := (contract_at s)(c := f (contract_at s c))\<rparr>"

section \<open>The registry and the oracle\<close>

definition registry_match :: "u32 \<Rightarrow> 'a contracts_scheme \<Rightarrow> u32 \<Rightarrow> bool" where
  "registry_match job_id s i \<longleftrightarrow> (case contract_registry s (unat i) of
     None \<Rightarrow> False | Some c \<Rightarrow> c_job_id (contract_at s c) = job_id)"

definition contract_register :: "cptr option \<Rightarrow> 'a contracts_scheme \<Rightarrow> 'a contracts_scheme" where
  "contract_register c_ptr s =
     (case c_ptr of
        None \<Rightarrow> s
      | Some c \<Rightarrow>
          (case wfind 0 (contract_registry_count s) (registry_match (c_job_id (contract_at s c)) s) of
             Some i \<Rightarrow> s\<lparr>contract_registry := (contract_registry s)(unat i := Some c)\<rparr>
           | None \<Rightarrow>
               if contract_registry_count s < CONTRACT_REGISTRY_MAX
               then s\<lparr>contract_registry :=
                        (contract_registry s)(unat (contract_registry_count s) := Some c),
                      contract_registry_count := contract_registry_count s + 1\<rparr>
               else s))"

definition contract_lookup :: "u32 \<Rightarrow> 'a contracts_scheme \<Rightarrow> cptr option" where
  "contract_lookup job_id s =
     (case wfind 0 (contract_registry_count s) (registry_match job_id s) of
        None \<Rightarrow> None
      | Some i \<Rightarrow> contract_registry s (unat i))"

definition get_job_verdict :: "u64 \<Rightarrow> 'a contracts_scheme \<Rightarrow> verdict" where
  "get_job_verdict job_id s =
     (case contract_lookup (ucast job_id) s of
        None \<Rightarrow> VERDICT_PASS
      | Some c \<Rightarrow> (case c_state (contract_at s c) of
            CONTRACT_STATE_OK \<Rightarrow> VERDICT_PASS
          | CONTRACT_STATE_WARNED \<Rightarrow> VERDICT_THROTTLE
          | CONTRACT_STATE_SAFE_MODE \<Rightarrow> VERDICT_KILL))"

section \<open>Contracts\<close>

definition contract_apply :: "cptr \<Rightarrow> 'a contracts_scheme \<Rightarrow> 'a contracts_scheme" where
  "contract_apply c s =
     (let s = upd_contract c (\<lambda>k. k\<lparr>cpu_used_us := 0, mem_used_kb := 0, cpu_violations := 0,
                                     mem_violations := 0, c_state := CONTRACT_STATE_OK\<rparr>) s;
          s = contract_register (Some c) s;
          s = upd_contract c (\<lambda>k. k\<lparr>preferred := (if prio k = CONTRACT_PRIORITY_REALTIME
                                       then NUMA_NODE_LOCAL else NUMA_NODE_REMOTE)\<rparr>) s
      in flightrec_log TRACE_EVT_CONTRACT_APPLY (c_job_id (contract_at s c)) 0
           (cpu_budget_us (contract_at s c)) s)"

definition contract_set_state ::
    "cptr \<Rightarrow> contract_state \<Rightarrow> 'a contracts_scheme \<Rightarrow> 'a contracts_scheme" where
  "contract_set_state c new_state s =
     (if c_state (contract_at s c) = new_state then s
      else let old_state = c_state (contract_at s c);
               s = upd_contract c (\<lambda>k. k\<lparr>c_state := new_state\<rparr>) s;
               k = contract_at s c;
               s = flightrec_log TRACE_EVT_CONTRACT_STATE_CHANGE (c_job_id k)
                     (state_code old_state) (state_code new_state) s
           in if new_state = CONTRACT_STATE_SAFE_MODE
              then flightrec_log TRACE_EVT_CONTRACT_SAFE_MODE (c_job_id k) 0
                     (cpu_violations k + mem_violations k) s
              else s)"

text \<open>The transition after a violation, with the count and the threshold of its kind.\<close>

definition escalate ::
    "(task_contract \<Rightarrow> u32) \<Rightarrow> u32 \<Rightarrow> cptr \<Rightarrow> 'a contracts_scheme \<Rightarrow> 'a contracts_scheme" where
  "escalate violations limit c s =
     (let k = contract_at s c
      in if c_state k = CONTRACT_STATE_OK then contract_set_state c CONTRACT_STATE_WARNED s
         else if c_state k = CONTRACT_STATE_WARNED \<and> violations k \<ge> limit
         then contract_set_state c CONTRACT_STATE_SAFE_MODE s else s)"

definition contract_charge_cpu :: "cptr \<Rightarrow> u32 \<Rightarrow> 'a contracts_scheme \<Rightarrow> bool \<times> 'a contracts_scheme" where
  "contract_charge_cpu c usec s =
     (let s = upd_contract c (\<lambda>k. k\<lparr>cpu_used_us := cpu_used_us k + usec\<rparr>) s;
          k = contract_at s c
      in if cpu_used_us k > cpu_budget_us k
         then let s = upd_contract c (\<lambda>k. k\<lparr>cpu_violations := cpu_violations k + 1\<rparr>) s;
                  s = flightrec_log TRACE_EVT_CONTRACT_BUDGET_EXCEED (c_job_id k) 0 (cpu_used_us k) s
              in (True, escalate cpu_violations 3 c s)
         else (False, s))"

definition contract_charge_memory :: "cptr \<Rightarrow> u32 \<Rightarrow> 'a contracts_scheme \<Rightarrow> bool \<times> 'a contracts_scheme" where
  "contract_charge_memory c kb s =
     (let s = upd_contract c (\<lambda>k. k\<lparr>mem_used_kb := mem_used_kb k + kb\<rparr>) s;
          k = contract_at s c
      in if mem_used_kb k > memory_kb k
         then let s = upd_contract c (\<lambda>k. k\<lparr>mem_violations := mem_violations k + 1\<rparr>) s;
                  s = flightrec_log TRACE_EVT_MEM_CONTRACT_EXCEED (c_job_id k) 0 (mem_used_kb k) s
              in (True, escalate mem_violations 2 c s)
         else (False, s))"

definition contract_node_pref :: "u8 \<Rightarrow> u8" where
  "contract_node_pref n =
     (if n = NUMA_NODE_LOCAL then ZNODE_LOCAL
      else if n = NUMA_NODE_REMOTE then ZNODE_REMOTE else ZNODE_ANY)"

definition contract_alloc_page :: "cptr \<Rightarrow> 'a contracts_scheme \<Rightarrow> u32 \<times> 'a contracts_scheme" where
  "contract_alloc_page c s =
     (let k = contract_at s c; page_kb = PAGE_SIZE div 1024
      in if c_state k = CONTRACT_STATE_SAFE_MODE
         then (0, flightrec_log TRACE_EVT_MEM_ALLOC_FAIL (c_job_id k) 0 0 s)
         else if mem_used_kb k + page_kb > memory_kb k
         then let s = upd_contract c (\<lambda>k. k\<lparr>mem_violations := mem_violations k + 1\<rparr>) s;
                  s = flightrec_log TRACE_EVT_MEM_CONTRACT_EXCEED (c_job_id k) 0
                        (mem_used_kb k + page_kb) s
              in (0, escalate mem_violations 2 c s)
         else let (result, s) = zenedge_alloc_page (contract_node_pref (preferred k)) s
              in (ucast (zr_addr result),
                  if zr_addr result \<noteq> 0
                  then flightrec_log TRACE_EVT_MEM_ALLOC (c_job_id k) (ucast (zr_node result)) 1
                         (upd_contract c (\<lambda>k. k\<lparr>mem_used_kb := mem_used_kb k + page_kb\<rparr>) s)
                  else s))"

definition contract_free_page :: "cptr \<Rightarrow> u32 \<Rightarrow> 'a contracts_scheme \<Rightarrow> 'a contracts_scheme" where
  "contract_free_page c addr s =
     (if addr = 0 then s
      else let node = zenedge_get_node (ucast addr) s;
               s = zenedge_free_page (ucast addr) s;
               s = (if mem_used_kb (contract_at s c) \<ge> PAGE_SIZE div 1024
                    then upd_contract c (\<lambda>k. k\<lparr>mem_used_kb := mem_used_kb k - PAGE_SIZE div 1024\<rparr>) s
                    else s)
           in flightrec_log TRACE_EVT_MEM_FREE (c_job_id (contract_at s c)) (ucast node) 1 s)"

definition contract_can_continue :: "cptr \<Rightarrow> 'a contracts_scheme \<Rightarrow> bool" where
  "contract_can_continue c s \<longleftrightarrow> c_state (contract_at s c) \<noteq> CONTRACT_STATE_SAFE_MODE"

fun contract_state_name :: "contract_state \<Rightarrow> string" where
  "contract_state_name CONTRACT_STATE_OK = ''OK''"
| "contract_state_name CONTRACT_STATE_WARNED = ''WARNED''"
| "contract_state_name CONTRACT_STATE_SAFE_MODE = ''SAFE_MODE''"

section \<open>Admission control\<close>

fun step_cost :: "step_type \<Rightarrow> u32" where
  "step_cost STEP_TYPE_COMPUTE = 1000"
| "step_cost STEP_TYPE_COLLECTIVE = 3000"
| "step_cost STEP_TYPE_IO = 2000"
| "step_cost STEP_TYPE_CONTROL = 100"

definition estimated_cpu_us :: "job_graph \<Rightarrow> u32" where
  "estimated_cpu_us job = wfor 0 (num_steps job) (\<lambda>i e. e + step_cost (st_type (steps job (unat i)))) 0"

definition contract_admit_job ::
    "cptr \<Rightarrow> job_graph \<Rightarrow> 'a contracts_scheme \<Rightarrow> admit_result \<times> 'a contracts_scheme" where
  "contract_admit_job c job s =
     (let k = contract_at s c;
          reject = (\<lambda>r x. (r, flightrec_log TRACE_EVT_JOB_REJECT (jg_id job) (admit_code r) x s))
      in if peak_memory_kb job > memory_kb k then reject ADMIT_REJECT_MEMORY (peak_memory_kb job)
         else if pinned_memory_kb job > memory_kb k
         then reject ADMIT_REJECT_MEMORY (pinned_memory_kb job)
         else let available_kb = memory_kb k - mem_used_kb k
           in if peak_memory_kb job > available_kb then reject ADMIT_REJECT_NO_RESOURCES available_kb
              else let est = estimated_cpu_us job;
                       s = (if est > cpu_budget_us k
                            then flightrec_log TRACE_EVT_CONTRACT_BUDGET_WARN (jg_id job) 0 est s else s)
                   in (ADMIT_OK, flightrec_log TRACE_EVT_JOB_ADMIT (jg_id job) (peak_memory_kb job) est s))"

fun admit_result_name :: "admit_result \<Rightarrow> string" where
  "admit_result_name ADMIT_OK = ''OK''"
| "admit_result_name ADMIT_REJECT_MEMORY = ''REJECT_MEMORY''"
| "admit_result_name ADMIT_REJECT_CPU = ''REJECT_CPU''"
| "admit_result_name ADMIT_REJECT_PRIORITY = ''REJECT_PRIORITY''"
| "admit_result_name ADMIT_REJECT_NO_RESOURCES = ''REJECT_NO_RESOURCES''"

section \<open>Frame lemmas\<close>

lemma contracts_log [simp]:
  "contract_at (flightrec_log ty j st x s) = contract_at s"
  "contract_registry (flightrec_log ty j st x s) = contract_registry s"
  "contract_registry_count (flightrec_log ty j st x s) = contract_registry_count s"
  by (simp_all add: flightrec_log_def Let_def split_beta time_cycles_def time_usec_def rdtsc_def)

lemma contracts_pmm_frame [simp]:
  "contract_at (charge_node i n s) = contract_at s"
  "contract_at (pmm_free_page a s) = contract_at s"
  by (simp_all add: charge_node_def pmm_free_page_def Let_def)

lemma contract_at_alloc [simp]: "contract_at (snd (pmm_alloc_page n s)) = contract_at s"
  by (rule pmm_alloc_page_preserves [where Q = "\<lambda>t. contract_at t = contract_at s"]) simp_all

lemma registry_frame [simp]:
  "contract_registry (charge_node i n s) = contract_registry s"
  "contract_registry_count (charge_node i n s) = contract_registry_count s"
  "contract_registry (pmm_free_page a s) = contract_registry s"
  "contract_registry_count (pmm_free_page a s) = contract_registry_count s"
  "contract_registry (upd_contract c f s) = contract_registry s"
  "contract_registry_count (upd_contract c f s) = contract_registry_count s"
  by (simp_all add: charge_node_def pmm_free_page_def Let_def upd_contract_def)

lemma registry_alloc [simp]:
  "contract_registry (snd (pmm_alloc_page n s)) = contract_registry s"
  "contract_registry_count (snd (pmm_alloc_page n s)) = contract_registry_count s"
  by (rule pmm_alloc_page_preserves [where Q = "\<lambda>t. contract_registry t = contract_registry s"],
      simp_all,
      rule pmm_alloc_page_preserves [where Q = "\<lambda>t. contract_registry_count t = contract_registry_count s"],
      simp_all)

lemma registry_zalloc [simp]:
  "contract_registry (snd (zenedge_alloc_page n s)) = contract_registry s"
  "contract_registry_count (snd (zenedge_alloc_page n s)) = contract_registry_count s"
  "contract_registry (zenedge_free_page a s) = contract_registry s"
  "contract_registry_count (zenedge_free_page a s) = contract_registry_count s"
  by (simp_all add: zenedge_alloc_page_def zenedge_platform_alloc_page_def split_beta Let_def
      zenedge_free_page_def zenedge_platform_free_page_def)

lemma contract_at_zalloc [simp]:
  "contract_at (snd (zenedge_alloc_page n s)) = contract_at s"
  "contract_at (zenedge_free_page a s) = contract_at s"
  by (simp_all add: zenedge_alloc_page_def zenedge_platform_alloc_page_def split_beta Let_def
      zenedge_free_page_def zenedge_platform_free_page_def)

lemma contract_at_upd [simp]:
  "contract_at (upd_contract c f s) d = (if d = c then f (contract_at s c) else contract_at s d)"
  by (simp add: upd_contract_def)

lemma upd_contract_pmm [simp]:
  "frames (upd_contract c f s) = frames s" "pmm_wf (upd_contract c f s) = pmm_wf s"
  "node_frames (upd_contract c f s) = node_frames s"
  by (simp_all add: upd_contract_def frames_def pmm_wf_def pmm_topology_def node_count_ok_def
      node_frames_def fun_eq_iff)

lemma set_state_fields [simp]:
  "contract_at (contract_set_state c x s) d =
     (if d = c then (contract_at s c)\<lparr>c_state := x\<rparr> else contract_at s d)"
  "frames (contract_set_state c x s) = frames s" "pmm_wf (contract_set_state c x s) = pmm_wf s"
  by (simp_all add: contract_set_state_def Let_def)

lemma escalate_pmm [simp]:
  "frames (escalate v l c s) = frames s" "pmm_wf (escalate v l c s) = pmm_wf s"
  by (simp_all add: escalate_def Let_def)

definition escalated :: "(task_contract \<Rightarrow> u32) \<Rightarrow> u32 \<Rightarrow> task_contract \<Rightarrow> contract_state" where
  "escalated v l k =
     (if c_state k = CONTRACT_STATE_OK then CONTRACT_STATE_WARNED
      else if c_state k = CONTRACT_STATE_WARNED \<and> v k \<ge> l then CONTRACT_STATE_SAFE_MODE else c_state k)"

lemma contract_at_escalate [simp]:
  "contract_at (escalate v l c s) d =
     (if d = c then (contract_at s c)\<lparr>c_state := escalated v l (contract_at s c)\<rparr> else contract_at s d)"
  by (simp add: escalate_def escalated_def Let_def)

section \<open>The registry\<close>

text \<open>What the callers of the registry rely on.\<close>

locale keyed_registry =
  fixes key :: "'c \<Rightarrow> 's \<Rightarrow> 'k"
    and register :: "'c \<Rightarrow> 's \<Rightarrow> 's"
    and lookup :: "'k \<Rightarrow> 's \<Rightarrow> 'c option"
    and room :: "'c \<Rightarrow> 's \<Rightarrow> bool"
  assumes key_register: "key d (register c s) = key d s"
    and lookup_same: "room c s \<Longrightarrow> lookup (key c s) (register c s) = Some c"
    and lookup_other: "k \<noteq> key c s \<Longrightarrow> lookup k (register c s) = lookup k s"
    and no_room: "\<not> room c s \<Longrightarrow> register c s = s \<and> lookup (key c s) s = None"
begin

text \<open>A later registration under another key does not hide an earlier one; one under the same
  key replaces it.\<close>

lemma lookup_two:
  assumes "room c s" and "room d (register c s)"
  shows "lookup (key c s) (register d (register c s)) = Some (if key d s = key c s then d else c)"
proof (cases "key d s = key c s")
  case True
  then show ?thesis using lookup_same [OF assms(2)] by (simp add: key_register)
next
  case False
  then show ?thesis using lookup_same [OF assms(1)] lookup_other [of "key c s" d "register c s"]
    by (simp add: key_register)
qed

lemma lookup_fails_iff: "lookup (key c s) (register c s) = None \<longleftrightarrow> \<not> room c s"
  using lookup_same [of c s] no_room [of c s] by auto

end

definition reg_room :: "cptr \<Rightarrow> 'a contracts_scheme \<Rightarrow> bool" where
  "reg_room c s \<longleftrightarrow> contract_registry_count s < CONTRACT_REGISTRY_MAX \<or>
     wfind 0 (contract_registry_count s) (registry_match (c_job_id (contract_at s c)) s) \<noteq> None"

lemma register_contract_at [simp]: "contract_at (contract_register p s) = contract_at s"
  by (simp add: contract_register_def split: option.splits)

lemma register_replace:
  assumes "wfind 0 (contract_registry_count s) (registry_match (c_job_id (contract_at s c)) s) = Some i"
  shows "contract_lookup k (contract_register (Some c) s) =
    (if k = c_job_id (contract_at s c) then Some c else contract_lookup k s)"
proof -
  let ?j = "c_job_id (contract_at s c)"
  let ?t = "s\<lparr>contract_registry := (contract_registry s)(unat i := Some c)\<rparr>"
  note i = wfind_SomeD [OF assms]
  have reg: "contract_register (Some c) s = ?t" using assms by (simp add: contract_register_def)
  have "registry_match k ?t n \<longleftrightarrow> registry_match k s n" for k n
  proof (cases "n = i")
    case True
    have "registry_match ?j s i" using i by simp
    then show ?thesis using True by (auto simp: registry_match_def split: option.splits)
  next
    case False
    then show ?thesis by (simp add: registry_match_def word_unat_eq_iff split: option.splits)
  qed
  then have match: "registry_match k ?t = registry_match k s" for k by (simp add: fun_eq_iff)
  show ?thesis
  proof (cases "k = ?j")
    case True
    then show ?thesis using assms by (simp add: reg contract_lookup_def match)
  next
    case False
    have "unat n \<noteq> unat i" if "wfind 0 (contract_registry_count s) (registry_match k s) = Some n" for n
    proof
      assume "unat n = unat i"
      then have "n = i" by (simp add: word_unat_eq_iff)
      then have "registry_match k s i" using wfind_SomeD [OF that] by simp
      then show False using i False by (auto simp: registry_match_def split: option.splits)
    qed
    then show ?thesis using False by (auto simp: reg contract_lookup_def match split: option.splits)
  qed
qed

lemma register_append:
  assumes none: "wfind 0 (contract_registry_count s) (registry_match (c_job_id (contract_at s c)) s) = None"
    and lt: "contract_registry_count s < CONTRACT_REGISTRY_MAX"
  shows "contract_lookup k (contract_register (Some c) s) =
    (if k = c_job_id (contract_at s c) then Some c else contract_lookup k s)"
proof -
  let ?n = "contract_registry_count s" and ?j = "c_job_id (contract_at s c)"
  let ?t = "s\<lparr>contract_registry := (contract_registry s)(unat ?n := Some c),
              contract_registry_count := ?n + 1\<rparr>"
  have reg: "contract_register (Some c) s = ?t" using assms by (simp add: contract_register_def)
  have less: "i < ?n + 1 \<longleftrightarrow> i < ?n \<or> i = ?n" for i
    using unat_Suc_less [OF lt] by (auto simp: word_less_nat_alt word_unat_eq_iff)
  have old: "registry_match k ?t i \<longleftrightarrow> registry_match k s i" if "i < ?n" for k i
    using that by (auto simp: registry_match_def word_less_nat_alt split: option.splits)
  have new: "registry_match k ?t ?n \<longleftrightarrow> k = ?j" for k by (auto simp: registry_match_def split: option.splits)
  show ?thesis
  proof (cases "wfind 0 ?n (registry_match k s)")
    case (Some i)
    note I = wfind_SomeD [OF Some]
    then have "wfind 0 (?n + 1) (registry_match k ?t) = Some i"
      unfolding wfind_eq_Some_iff using less old by auto
    moreover have "k \<noteq> ?j" using none Some by auto
    moreover have "unat i \<noteq> unat ?n" using I by (auto simp: word_less_nat_alt)
    ultimately show ?thesis using Some by (simp add: reg contract_lookup_def)
  next
    case None
    show ?thesis
    proof (cases "k = ?j")
      case True
      then have "wfind 0 (?n + 1) (registry_match k ?t) = Some ?n"
        unfolding wfind_eq_Some_iff using less old new wfind_NoneD [OF None] by auto
      then show ?thesis using True by (simp add: reg contract_lookup_def)
    next
      case False
      then have "wfind 0 (?n + 1) (registry_match k ?t) = None"
        unfolding wfind_eq_None_iff using less old new wfind_NoneD [OF None] by auto
      then show ?thesis using False None by (simp add: reg contract_lookup_def)
    qed
  qed
qed

lemma register_lookup:
  "reg_room c s \<Longrightarrow> contract_lookup k (contract_register (Some c) s) =
     (if k = c_job_id (contract_at s c) then Some c else contract_lookup k s)"
  using register_append [of s c] register_replace [of s c]
  by (cases "wfind 0 (contract_registry_count s) (registry_match (c_job_id (contract_at s c)) s)")
     (simp_all add: reg_room_def)

lemma register_full: "\<not> reg_room c s \<Longrightarrow> contract_register (Some c) s = s"
  by (simp add: reg_room_def contract_register_def)

interpretation registry: keyed_registry
  "\<lambda>c (s :: 'a contracts_scheme). c_job_id (contract_at s c)" "\<lambda>c. contract_register (Some c)"
  contract_lookup reg_room
proof
  fix c :: cptr and s :: "'a contracts_scheme" and k
  show "contract_lookup (c_job_id (contract_at s c)) (contract_register (Some c) s) = Some c"
    if "reg_room c s" using register_lookup [OF that] by simp
  show "contract_lookup k (contract_register (Some c) s) = contract_lookup k s"
    if "k \<noteq> c_job_id (contract_at s c)"
    using register_lookup [of c s k] register_full [of c s] that by (cases "reg_room c s") simp_all
next
  fix c :: cptr and s :: "'a contracts_scheme"
  assume "\<not> reg_room c s"
  then show "contract_register (Some c) s = s \<and> contract_lookup (c_job_id (contract_at s c)) s = None"
    by (simp add: reg_room_def contract_register_def contract_lookup_def)
qed simp

section \<open>The state machine\<close>

text \<open>
  The operations that running jobs perform under their contracts; a step as one contract sees it
  is such an operation or the application of another contract.
\<close>

inductive job_op :: "'a contracts_scheme \<Rightarrow> 'a contracts_scheme \<Rightarrow> bool" where
  cpu: "job_op s (snd (contract_charge_cpu d us s))"
| mem: "job_op s (snd (contract_charge_memory d kb s))"
| alloc: "job_op s (snd (contract_alloc_page d s))"
| free: "job_op s (contract_free_page d a s)"
| admit: "job_op s (snd (contract_admit_job d job s))"

inductive_cases job_opE: "job_op s t"

inductive contract_step :: "cptr \<Rightarrow> 'a contracts_scheme \<Rightarrow> 'a contracts_scheme \<Rightarrow> bool"
  for c :: cptr where
  op: "job_op s t \<Longrightarrow> contract_step c s t"
| other: "d \<noteq> c \<Longrightarrow> contract_step c s (contract_apply d s)"

inductive_cases contract_stepE: "contract_step c s t"

fun state_rank :: "contract_state \<Rightarrow> nat" where
  "state_rank CONTRACT_STATE_OK = 0"
| "state_rank CONTRACT_STATE_WARNED = 1"
| "state_rank CONTRACT_STATE_SAFE_MODE = 2"

text \<open>What one operation may do to the enforcement state of a contract.\<close>

definition allowed :: "task_contract \<Rightarrow> task_contract \<Rightarrow> bool" where
  "allowed k k' \<longleftrightarrow>
     (c_state k' = c_state k \<and> (c_state k = CONTRACT_STATE_OK \<longrightarrow>
        cpu_violations k' = cpu_violations k \<and> mem_violations k' = mem_violations k)) \<or>
     (c_state k = CONTRACT_STATE_OK \<and> c_state k' = CONTRACT_STATE_WARNED) \<or>
     (c_state k = CONTRACT_STATE_WARNED \<and> c_state k' = CONTRACT_STATE_SAFE_MODE \<and>
        (cpu_violations k' \<ge> 3 \<or> mem_violations k' \<ge> 2))"

lemma allowed_refl: "allowed k k"
  by (simp add: allowed_def)

lemma charge_cpu_allowed: "allowed (contract_at s c) (contract_at (snd (contract_charge_cpu d us s)) c)"
  by (auto simp: contract_charge_cpu_def Let_def allowed_def escalated_def)

lemma charge_memory_allowed: "allowed (contract_at s c) (contract_at (snd (contract_charge_memory d kb s)) c)"
  by (auto simp: contract_charge_memory_def Let_def allowed_def escalated_def)

lemma alloc_page_allowed: "allowed (contract_at s c) (contract_at (snd (contract_alloc_page d s)) c)"
  by (auto simp: contract_alloc_page_def Let_def allowed_def escalated_def split_beta)

lemma free_page_allowed: "allowed (contract_at s c) (contract_at (contract_free_page d a s) c)"
  by (auto simp: contract_free_page_def Let_def allowed_def)

lemma admit_contract_at: "contract_at (snd (contract_admit_job d job s)) = contract_at s"
  by (simp add: contract_admit_job_def Let_def)

lemma apply_contract_at:
  "contract_at (contract_apply d s) c = (if c = d then (contract_at s d)\<lparr>cpu_used_us := 0, mem_used_kb := 0,
     cpu_violations := 0, mem_violations := 0, c_state := CONTRACT_STATE_OK,
     preferred := (if prio (contract_at s d) = CONTRACT_PRIORITY_REALTIME
       then NUMA_NODE_LOCAL else NUMA_NODE_REMOTE)\<rparr> else contract_at s c)"
  by (simp add: contract_apply_def Let_def)

lemma op_allowed: "job_op s t \<Longrightarrow> allowed (contract_at s c) (contract_at t c)"
  by (erule job_opE)
     (simp_all add: charge_cpu_allowed charge_memory_allowed alloc_page_allowed free_page_allowed
       admit_contract_at allowed_refl)

lemma step_allowed: "contract_step c s t \<Longrightarrow> allowed (contract_at s c) (contract_at t c)"
  by (erule contract_stepE) (simp_all add: op_allowed apply_contract_at allowed_refl)

lemma steps_keep_safe:
  "(contract_step c)\<^sup>*\<^sup>* s t \<Longrightarrow> c_state (contract_at s c) = CONTRACT_STATE_SAFE_MODE \<Longrightarrow>
   c_state (contract_at t c) = CONTRACT_STATE_SAFE_MODE"
  by (induction rule: rtranclp_induct) (auto dest!: step_allowed simp: allowed_def)

lemma lookup_cong:
  assumes "contract_registry t = contract_registry s"
    and "contract_registry_count t = contract_registry_count s"
    and "\<And>c. c_job_id (contract_at t c) = c_job_id (contract_at s c)"
  shows "contract_lookup k t = contract_lookup k s"
proof -
  have "registry_match k t = registry_match k s"
    using assms by (auto simp: registry_match_def fun_eq_iff split: option.splits)
  then show ?thesis using assms by (simp add: contract_lookup_def split: option.splits)
qed

lemma registry_set_state [simp]:
  "contract_registry (contract_set_state c x s) = contract_registry s"
  "contract_registry_count (contract_set_state c x s) = contract_registry_count s"
  "contract_registry (escalate v l c s) = contract_registry s"
  "contract_registry_count (escalate v l c s) = contract_registry_count s"
  by (simp_all add: contract_set_state_def escalate_def Let_def)

lemma op_registry:
  assumes "job_op s t"
  shows "contract_registry t = contract_registry s"
    and "contract_registry_count t = contract_registry_count s"
    and "c_job_id (contract_at t c) = c_job_id (contract_at s c)"
  using assms
  by (auto elim!: job_opE simp: contract_charge_cpu_def contract_charge_memory_def
      contract_alloc_page_def contract_free_page_def contract_admit_job_def Let_def split_beta)

lemma op_lookup: "job_op s t \<Longrightarrow> contract_lookup k t = contract_lookup k s"
  by (rule lookup_cong) (simp_all add: op_registry)

lemma ops_lookup:
  "job_op\<^sup>*\<^sup>* s t \<Longrightarrow> contract_lookup k t = contract_lookup k s"
  by (induction rule: rtranclp_induct) (simp_all add: op_lookup)

lemma lookup_after_apply:
  "contract_lookup k (contract_apply c s) =
     (if k = c_job_id (contract_at s c) then if reg_room c s then Some c else None
      else contract_lookup k s)"
proof -
  let ?s = "upd_contract c (\<lambda>k. k\<lparr>cpu_used_us := 0, mem_used_kb := 0, cpu_violations := 0,
    mem_violations := 0, c_state := CONTRACT_STATE_OK\<rparr>) s"
  have same: "contract_lookup k ?s = contract_lookup k s" for k by (rule lookup_cong) simp_all
  have room: "reg_room c ?s = reg_room c s"
  proof -
    have "registry_match k ?s = registry_match k s" for k
      by (auto simp: registry_match_def fun_eq_iff split: option.splits)
    then show ?thesis by (simp add: reg_room_def)
  qed
  have "contract_lookup k (contract_apply c s) = contract_lookup k (contract_register (Some c) ?s)"
    by (rule lookup_cong) (simp_all add: contract_apply_def Let_def)
  also have "\<dots> = (if k = c_job_id (contract_at s c) then if reg_room c s then Some c else None
      else contract_lookup k s)"
    using registry.lookup_same [where c = c and s = ?s] registry.lookup_fails_iff [where c = c and s = ?s]
      registry.lookup_other [where k = k and c = c and s = ?s] same room by auto
  finally show ?thesis .
qed

fun verdict_of :: "contract_state \<Rightarrow> verdict" where
  "verdict_of CONTRACT_STATE_OK = VERDICT_PASS"
| "verdict_of CONTRACT_STATE_WARNED = VERDICT_THROTTLE"
| "verdict_of CONTRACT_STATE_SAFE_MODE = VERDICT_KILL"

lemma verdict_lookup:
  "get_job_verdict j s = (case contract_lookup (ucast j) s of None \<Rightarrow> VERDICT_PASS
     | Some c \<Rightarrow> verdict_of (c_state (contract_at s c)))"
  by (auto simp: get_job_verdict_def split: option.splits contract_state.splits)

section \<open>Properties\<close>

text \<open>
  C28: Enforcement only escalates, one level per operation: on every path of operations the state
  of a contract never returns to a lower level; while it is still OK no violation has been
  counted since it was applied; and once in SAFE MODE it stays there.
\<close>

theorem contract_enforcement_monotone:
  "(contract_step c)\<^sup>*\<^sup>* (contract_apply c s) t \<Longrightarrow> (contract_step c)\<^sup>*\<^sup>* t u \<Longrightarrow>
   state_rank (c_state (contract_at t c)) \<le> state_rank (c_state (contract_at u c)) \<and>
   (c_state (contract_at t c) = CONTRACT_STATE_OK \<longrightarrow>
      cpu_violations (contract_at t c) = 0 \<and> mem_violations (contract_at t c) = 0)"
proof (rule conjI)
  assume "(contract_step c)\<^sup>*\<^sup>* t u"
  then show "state_rank (c_state (contract_at t c)) \<le> state_rank (c_state (contract_at u c))"
    by (induction rule: rtranclp_induct) (auto dest!: step_allowed simp: allowed_def)
next
  assume "(contract_step c)\<^sup>*\<^sup>* (contract_apply c s) t"
  then show "c_state (contract_at t c) = CONTRACT_STATE_OK \<longrightarrow>
      cpu_violations (contract_at t c) = 0 \<and> mem_violations (contract_at t c) = 0"
    by (induction rule: rtranclp_induct) (auto dest!: step_allowed simp: allowed_def apply_contract_at)
qed

text \<open>
  The oracle follows the contract: on every path of operations after a contract was applied,
  the verdict for its job is the one of its current state, unless the registry of 64 entries was
  full, in which case the job has no entry and the verdict stays PASS, also in SAFE MODE.
\<close>

theorem verdict_follows_contract:
  assumes "job_op\<^sup>*\<^sup>* (contract_apply c s) t" and "ucast j = c_job_id (contract_at s c)"
  shows "get_job_verdict j t =
    (if reg_room c s then verdict_of (c_state (contract_at t c)) else VERDICT_PASS)"
  using ops_lookup [OF assms(1)] lookup_after_apply [of "ucast j" c s] assms(2)
  by (simp add: verdict_lookup)

text \<open>
  C5: A page allocation through a contract is granted exactly if the contract is not in SAFE
  MODE, its budget has room for another 4 KB and a frame is free. A grant takes one free frame
  and charges 4 KB, and the charge never exceeds the budget; a refusal takes no frame and charges
  nothing. (The hypothesis excludes budgets within 4 KB of the 32-bit limit, where the test wraps.)
\<close>

theorem contract_alloc_page_correct:
  assumes wf: "pmm_wf s" and nw: "unat (mem_used_kb (contract_at s c)) + 4 < 2 ^ 32"
    and res: "contract_alloc_page c s = (a, t)"
  shows "pmm_wf t \<and>
    (a \<noteq> 0 \<longleftrightarrow> c_state (contract_at s c) \<noteq> CONTRACT_STATE_SAFE_MODE \<and> frames s \<noteq> {} \<and>
       unat (mem_used_kb (contract_at s c)) + 4 \<le> unat (memory_kb (contract_at s c))) \<and>
    (a \<noteq> 0 \<longrightarrow> (\<exists>p\<in>frames s. a = pfn_to_addr p \<and> frames t = frames s - {p}) \<and>
       unat (mem_used_kb (contract_at t c)) = unat (mem_used_kb (contract_at s c)) + 4) \<and>
    (a = 0 \<longrightarrow> frames t = frames s \<and> mem_used_kb (contract_at t c) = mem_used_kb (contract_at s c))"
proof -
  let ?k = "contract_at s c"
  have pk: "PAGE_SIZE div 1024 = 4" by (simp add: PAGE_SIZE_def)
  have add: "unat (mem_used_kb ?k + 4) = unat (mem_used_kb ?k) + 4"
    using nw by (subst unat_add_no_wrap) simp_all
  consider "c_state ?k = CONTRACT_STATE_SAFE_MODE"
    | "c_state ?k \<noteq> CONTRACT_STATE_SAFE_MODE" "mem_used_kb ?k + 4 > memory_kb ?k"
    | "c_state ?k \<noteq> CONTRACT_STATE_SAFE_MODE" "\<not> mem_used_kb ?k + 4 > memory_kb ?k" by blast
  then show ?thesis
  proof cases
    case 1
    then show ?thesis using res wf by (auto simp: contract_alloc_page_def)
  next
    case 2
    then show ?thesis
      using res wf add by (auto simp: contract_alloc_page_def Let_def pk word_less_nat_alt)
  next
    case 3
    obtain r u where ru: "zenedge_alloc_page (contract_node_pref (preferred ?k)) s = (r, u)" by fastforce
    note z = zenedge_page_spec [OF wf ru]
    have same: "contract_at u = contract_at s"
      using contract_at_zalloc(1) [of "contract_node_pref (preferred ?k)" s] unfolding ru by simp
    have res': "a = ucast (zr_addr r)" "t = (if zr_addr r \<noteq> 0
        then flightrec_log TRACE_EVT_MEM_ALLOC (c_job_id ?k) (ucast (zr_node r)) 1
               (upd_contract c (\<lambda>k. k\<lparr>mem_used_kb := mem_used_kb k + 4\<rparr>) u) else u)"
      using res 3 by (simp_all add: contract_alloc_page_def Let_def pk ru split: if_splits)
    show ?thesis
    proof (cases "frames s = {}")
      case True
      then show ?thesis using z res' same by (simp add: zalloc_failure_def)
    next
      case False
      then have "\<exists>p\<in>frames s. zr_addr r = ucast (pfn_to_addr p) \<and> zr_addr r \<noteq> 0 \<and>
          frames u = frames s - {p}" "pmm_wf u"
        using z by (simp_all only: if_False) blast
      then obtain p where p: "p \<in> frames s" "zr_addr r = ucast (pfn_to_addr p)" "zr_addr r \<noteq> 0"
        "frames u = frames s - {p}" "pmm_wf u" by blast
      then have "a = pfn_to_addr p" "a \<noteq> 0" using res' by simp_all
      moreover have "unat (mem_used_kb ?k) + 4 \<le> unat (memory_kb ?k)"
        using 3 add by (simp add: word_less_nat_alt)
      ultimately show ?thesis using 3 False p res' same add by auto
    qed
  qed
qed

text \<open>
  Admission control admits a job exactly if its pinned memory and the sum of the memory in
  use and its peak demand are within the budget, as long as the memory in use is within the
  budget.
\<close>

theorem contract_admit_correct:
  assumes "mem_used_kb (contract_at s c) \<le> memory_kb (contract_at s c)"
  shows "fst (contract_admit_job c job s) = ADMIT_OK \<longleftrightarrow>
    pinned_memory_kb job \<le> memory_kb (contract_at s c) \<and>
    unat (mem_used_kb (contract_at s c)) + unat (peak_memory_kb job) \<le> unat (memory_kb (contract_at s c))"
proof -
  have "unat (memory_kb (contract_at s c) - mem_used_kb (contract_at s c)) =
      unat (memory_kb (contract_at s c)) - unat (mem_used_kb (contract_at s c))"
    using assms by (rule unat_sub_no_wrap)
  then show ?thesis
    using assms by (auto simp: contract_admit_job_def Let_def word_less_nat_alt word_le_nat_alt)
qed

text \<open>
  Once a contract has been charged beyond its budget the subtraction underflows, and a job
  is admitted although no memory is available; such a state is reached by one call of
  \<open>contract_charge_memory\<close>.
\<close>

theorem contract_admit_underflow:
  assumes "memory_kb (contract_at s c) < mem_used_kb (contract_at s c)"
    and "peak_memory_kb job \<le> memory_kb (contract_at s c)"
    and "pinned_memory_kb job \<le> memory_kb (contract_at s c)"
    and "unat (mem_used_kb (contract_at s c)) + unat (peak_memory_kb job) \<le>
           2 ^ 32 + unat (memory_kb (contract_at s c))"
  shows "fst (contract_admit_job c job s) = ADMIT_OK"
proof -
  let ?m = "memory_kb (contract_at s c)" and ?u = "mem_used_kb (contract_at s c)"
  have "unat (?m - ?u) = 2 ^ 32 + unat ?m - unat ?u"
    using assms(1) by (simp add: unat_sub_if' word_less_nat_alt)
  then have "peak_memory_kb job \<le> ?m - ?u" using assms(4) by (simp add: word_le_nat_alt)
  then show ?thesis using assms(2,3) by (simp add: contract_admit_job_def Let_def not_less [symmetric])
qed

section \<open>A concrete state\<close>

definition demo_contract :: task_contract where
  "demo_contract = \<lparr>cpu_budget_us = 10, memory_kb = 8, accel_slots = 0, prio = CONTRACT_PRIORITY_NORMAL,
     preferred = 0, tier_hint = MEM_TIER_DDR, cpu_used_us = 0, mem_used_kb = 0, cpu_violations = 0,
     mem_violations = 0, c_state = CONTRACT_STATE_OK, c_job_id = 9\<rparr>"

text \<open>Contract 0 is fresh; contract 1 has been charged 9 KB on a budget of 8.\<close>

definition demo_contracts :: contracts where
  "demo_contracts = zalloc.extend two_free_zalloc
     \<lparr>contract_at = (\<lambda>c. if c = 0 then demo_contract else demo_contract\<lparr>mem_used_kb := 9\<rparr>),
      contract_registry = (\<lambda>_. None), contract_registry_count = 0\<rparr>"

lemma demo_fields [simp]:
  "contract_at demo_contracts = (\<lambda>c. if c = 0 then demo_contract else demo_contract\<lparr>mem_used_kb := 9\<rparr>)"
  "contract_registry_count demo_contracts = 0"
  by (simp_all add: demo_contracts_def zalloc.defs)

lemma extend_zalloc_frames [simp]:
  "pmm_wf (zalloc.extend s m) = pmm_wf s" "frames (zalloc.extend s m) = frames s"
  by (simp_all add: frames_def pmm_wf_def pmm_topology_def node_count_ok_def node_frames_def zalloc.defs)

lemma demo_wf: "pmm_wf demo_contracts" "frames demo_contracts = {256, 257}"
  using two_free_wf frames_two_free by (simp_all add: demo_contracts_def two_free_zalloc_def)

theorem contract_enforcement_monotone_witness:
  "state_rank (c_state (contract_at (contract_apply 0 demo_contracts) 0)) \<le>
   state_rank (c_state (contract_at (snd (contract_charge_cpu 0 11 (contract_apply 0 demo_contracts))) 0))"
  using contract_enforcement_monotone [of 0 demo_contracts "contract_apply 0 demo_contracts"
      "snd (contract_charge_cpu 0 11 (contract_apply 0 demo_contracts))"]
  by (auto intro: contract_step.op job_op.cpu)

theorem verdict_follows_contract_witness:
  "get_job_verdict 9 (snd (contract_charge_cpu 0 11 (contract_apply 0 demo_contracts))) = VERDICT_THROTTLE"
proof -
  let ?s = "contract_apply 0 demo_contracts" and ?t = "snd (contract_charge_cpu 0 11 (contract_apply 0 demo_contracts))"
  have "get_job_verdict 9 ?t =
      (if reg_room 0 demo_contracts then verdict_of (c_state (contract_at ?t 0)) else VERDICT_PASS)"
    by (rule verdict_follows_contract) (simp_all add: r_into_rtranclp job_op.cpu demo_contract_def)
  moreover have "c_state (contract_at ?t 0) = CONTRACT_STATE_WARNED"
    by (simp add: contract_charge_cpu_def Let_def apply_contract_at escalated_def demo_contract_def)
  moreover have "reg_room 0 demo_contracts" by (simp add: reg_room_def CONTRACT_REGISTRY_MAX_def)
  ultimately show ?thesis by simp
qed

theorem contract_alloc_page_correct_witness:
  "fst (contract_alloc_page 0 demo_contracts) \<noteq> 0 \<and>
   mem_used_kb (contract_at (snd (contract_alloc_page 0 demo_contracts)) 0) = 4"
proof -
  let ?a = "fst (contract_alloc_page 0 demo_contracts)" and ?t = "snd (contract_alloc_page 0 demo_contracts)"
  have "?a \<noteq> 0 \<and> unat (mem_used_kb (contract_at ?t 0)) = unat (4 :: u32)"
    using contract_alloc_page_correct [OF demo_wf(1), of 0 ?a ?t] demo_wf(2)
    by (simp add: demo_contract_def)
  then show ?thesis by (metis word_unat_eq_iff)
qed

theorem contract_admit_correct_witness:
  "fst (contract_admit_job 0 (two_step_job\<lparr>peak_memory_kb := 8\<rparr>) demo_contracts) = ADMIT_OK \<and>
   fst (contract_admit_job 0 (two_step_job\<lparr>peak_memory_kb := 9\<rparr>) demo_contracts) \<noteq> ADMIT_OK"
proof -
  have pin: "pinned_memory_kb two_step_job = 0" by code_simp
  show ?thesis
    using contract_admit_correct [of demo_contracts 0 "two_step_job\<lparr>peak_memory_kb := 8\<rparr>"]
      contract_admit_correct [of demo_contracts 0 "two_step_job\<lparr>peak_memory_kb := 9\<rparr>"] pin
    by (simp add: demo_contract_def)
qed

theorem contract_admit_underflow_witness:
  "fst (contract_admit_job 1 (two_step_job\<lparr>peak_memory_kb := 8\<rparr>) demo_contracts) = ADMIT_OK"
proof -
  have "pinned_memory_kb two_step_job = 0" by code_simp
  then show ?thesis by (intro contract_admit_underflow) (simp_all add: demo_contract_def)
qed

end
