(* ===== verification/Ipc_Heap.thy ===== *)
theory Ipc_Heap
  imports Flightrec Zen_Bitmap
begin

text \<open>
  The shared heap of the IPC window (\<^verbatim>\<open>kernel/ipc/heap.c\<close>). The 1 MB window is one byte memory
  \<open>shm\<close>, addressed by offsets from its base, and every structure in it is a set of fields at the
  offsets that \<^verbatim>\<open>kernel/ipc/ipc_proto.h\<close> lays out, so that structures which overlap are seen to
  overlap. The blob table is private to the kernel. Pointers into the data area are offsets from
  its start; \<open>None\<close> is the null pointer.
\<close>

section \<open>Layout\<close>

definition IPC_HEAP_CTL_OFFSET :: nat where [zconst]: "IPC_HEAP_CTL_OFFSET = 0x10100"
definition IPC_HEAP_DATA_OFFSET :: nat where [zconst]: "IPC_HEAP_DATA_OFFSET = 0x11000"
definition IPC_HEAP_DATA_SIZE :: u32 where [zconst]: "IPC_HEAP_DATA_SIZE = 0xED000"
definition HEAP_BLOCK_SIZE :: u32 where [zconst]: "HEAP_BLOCK_SIZE = 64"
definition HEAP_MAX_BLOCKS :: u32 where [zconst]: "HEAP_MAX_BLOCKS = 15168"
definition HEAP_BITMAP_SIZE :: u32 where [zconst]: "HEAP_BITMAP_SIZE = 1896"
definition IPC_HEAP_MAGIC :: u32 where [zconst]: "IPC_HEAP_MAGIC = 0x48454150"
definition BLOB_MAGIC :: u32 where [zconst]: "BLOB_MAGIC = 0x424C4F42"
definition BLOB_TYPE_TENSOR :: u8 where [zconst]: "BLOB_TYPE_TENSOR = 1"
definition MAX_BLOBS :: u32 where [zconst]: "MAX_BLOBS = 256"

lemma heap_layout: "HEAP_MAX_BLOCKS * HEAP_BLOCK_SIZE = IPC_HEAP_DATA_SIZE"
    "HEAP_BITMAP_SIZE * 8 = HEAP_MAX_BLOCKS"
  by (simp_all add: zconst)

record blob_entry =
  be_blob_id :: u16
  be_offset :: u32
  be_blocks :: u32

record heap_stats =
  hs_total_bytes :: u32
  hs_free_bytes :: u32
  hs_used_bytes :: u32
  hs_total_blocks :: u32
  hs_free_blocks :: u32
  hs_blob_count :: u32

record ipc_heap = flightrec +
  shm :: mem
  heap_up :: bool
  blob_table :: "blob_entry carray"
  blob_count :: u32

text \<open>The control block: five words, three reserved ones, then the bitmap.\<close>

definition heap_magic :: "mem \<Rightarrow> u32" where "heap_magic m = rd32 m IPC_HEAP_CTL_OFFSET"
definition heap_total_blocks :: "mem \<Rightarrow> u32" where "heap_total_blocks m = rd32 m (IPC_HEAP_CTL_OFFSET + 8)"
definition heap_free_blocks :: "mem \<Rightarrow> u32" where "heap_free_blocks m = rd32 m (IPC_HEAP_CTL_OFFSET + 12)"
definition heap_next_blob_id :: "mem \<Rightarrow> u32" where "heap_next_blob_id m = rd32 m (IPC_HEAP_CTL_OFFSET + 16)"
definition HEAP_BITMAP :: nat where [zconst]: "HEAP_BITMAP = 0x10120"

text \<open>A blob header at offset \<open>o\<close> of the data area.\<close>

definition blob_addr :: "u32 \<Rightarrow> nat" where "blob_addr off = IPC_HEAP_DATA_OFFSET + unat off"
definition blob_magic :: "mem \<Rightarrow> u32 \<Rightarrow> u32" where "blob_magic m off = rd32 m (blob_addr off)"
definition blob_id_at :: "mem \<Rightarrow> u32 \<Rightarrow> u16" where "blob_id_at m off = rd16 m (blob_addr off + 4)"
definition blob_type_at :: "mem \<Rightarrow> u32 \<Rightarrow> u8" where "blob_type_at m off = rd8 m (blob_addr off + 6)"
definition blob_size_at :: "mem \<Rightarrow> u32 \<Rightarrow> u32" where "blob_size_at m off = rd32 m (blob_addr off + 8)"
definition blob_offset_at :: "mem \<Rightarrow> u32 \<Rightarrow> u32" where "blob_offset_at m off = rd32 m (blob_addr off + 12)"

section \<open>Bitmap and checksum\<close>

definition hb_set :: "u32 \<Rightarrow> mem \<Rightarrow> mem" where
  "hb_set block m = (if block < HEAP_MAX_BLOCKS then bits_set HEAP_BITMAP (unat block) m else m)"

definition hb_clear :: "u32 \<Rightarrow> mem \<Rightarrow> mem" where
  "hb_clear block m = (if block < HEAP_MAX_BLOCKS then bits_clear HEAP_BITMAP (unat block) m else m)"

definition hb_test :: "u32 \<Rightarrow> mem \<Rightarrow> bool" where
  "hb_test block m = (if block \<ge> HEAP_MAX_BLOCKS then True else bits_test HEAP_BITMAP (unat block) m)"

definition find_step_body :: "u32 \<Rightarrow> mem \<Rightarrow> u32 \<Rightarrow> u32 \<times> u32 \<Rightarrow> u32 option \<times> u32 \<times> u32" where
  "find_step_body count m i acc =
     (case acc of (start, run) \<Rightarrow>
       if \<not> hb_test i m
       then let start = (if run = 0 then i else start); run = run + 1
            in (if run \<ge> count then Some start else None, start, run)
       else (None, start, 0))"

definition find_free_blocks :: "u32 \<Rightarrow> mem \<Rightarrow> u32" where
  "find_free_blocks count m =
     (case wtry 0 HEAP_MAX_BLOCKS (find_step_body count m) (0, 0) of
        (Some start, _) \<Rightarrow> start
      | (None, _) \<Rightarrow> - 1)"

definition compute_checksum :: "u8 list \<Rightarrow> u32" where
  "compute_checksum data =
     fold (\<lambda>b sum. (push_bit 1 sum OR drop_bit 31 sum) XOR ucast b) data 0"

section \<open>Operations\<close>

definition heap_init :: "'a ipc_heap_scheme \<Rightarrow> 'a ipc_heap_scheme" where
  "heap_init s =
     (let m = shm s;
          m = wr32 m IPC_HEAP_CTL_OFFSET IPC_HEAP_MAGIC;
          m = wr32 m (IPC_HEAP_CTL_OFFSET + 4) 1;
          m = wr32 m (IPC_HEAP_CTL_OFFSET + 8) HEAP_MAX_BLOCKS;
          m = wr32 m (IPC_HEAP_CTL_OFFSET + 12) HEAP_MAX_BLOCKS;
          m = wr32 m (IPC_HEAP_CTL_OFFSET + 16) 1;
          m = wfor 0 HEAP_BITMAP_SIZE (\<lambda>i m. m(HEAP_BITMAP + unat i := 0)) m
      in s\<lparr>heap_up := True, shm := m, blob_count := 0,
           blob_table := wfor 0 MAX_BLOBS
             (\<lambda>i t. t(unat i := (t (unat i))\<lparr>be_blob_id := 0\<rparr>)) (blob_table s)\<rparr>)"

definition blocks_for :: "u32 \<Rightarrow> u32" where
  "blocks_for len = (len + 32 + HEAP_BLOCK_SIZE - 1) div HEAP_BLOCK_SIZE"

definition take_blocks :: "u32 \<Rightarrow> u32 \<Rightarrow> mem \<Rightarrow> mem" where
  "take_blocks start blocks m =
     (let m = wfor 0 blocks (\<lambda>i. hb_set (start + i)) m
      in wr32 m (IPC_HEAP_CTL_OFFSET + 12) (heap_free_blocks m - blocks))"

definition next_id :: "mem \<Rightarrow> u16 \<times> mem" where
  "next_id m =
     (let n = heap_next_blob_id m;
          m = wr32 m (IPC_HEAP_CTL_OFFSET + 16) (n + 1)
      in (ucast n, if n + 1 = 0 then wr32 m (IPC_HEAP_CTL_OFFSET + 16) 1 else m))"

definition write_blob_header :: "u32 \<Rightarrow> u16 \<Rightarrow> u8 \<Rightarrow> u32 \<Rightarrow> mem \<Rightarrow> mem" where
  "write_blob_header off blob_id type len m =
     (let a = blob_addr off;
          m = wr32 m a BLOB_MAGIC;
          m = wr16 m (a + 4) blob_id;
          m = wr8 m (a + 6) type;
          m = wr8 m (a + 7) 0;
          m = wr32 m (a + 8) len;
          m = wr32 m (a + 12) (off + 32)
      in wr32 m (a + 16) 0)"

definition record_blob :: "u16 \<Rightarrow> u32 \<Rightarrow> u32 \<Rightarrow> 'a ipc_heap_scheme \<Rightarrow> 'a ipc_heap_scheme" where
  "record_blob blob_id off blocks s =
     (if blob_count s < MAX_BLOBS
      then s\<lparr>blob_table := (blob_table s)(unat (blob_count s) :=
               \<lparr>be_blob_id = blob_id, be_offset = off, be_blocks = blocks\<rparr>),
             blob_count := blob_count s + 1\<rparr>
      else s)"

definition heap_alloc :: "u32 \<Rightarrow> u8 \<Rightarrow> 'a ipc_heap_scheme \<Rightarrow> u16 \<times> 'a ipc_heap_scheme" where
  "heap_alloc len type s =
     (if \<not> heap_up s \<or> heap_magic (shm s) \<noteq> IPC_HEAP_MAGIC then (0, s)
      else let blocks = blocks_for len; start = find_free_blocks blocks (shm s)
        in if start = - 1 then (0, s)
           else let (blob_id, m) = next_id (take_blocks start blocks (shm s));
                    off = start * HEAP_BLOCK_SIZE;
                    s = record_blob blob_id off blocks (s\<lparr>shm := m\<rparr>)
                in (blob_id, s\<lparr>shm := write_blob_header off blob_id type len (shm s)\<rparr>))"

definition heap_free :: "u16 \<Rightarrow> 'a ipc_heap_scheme \<Rightarrow> 'a ipc_heap_scheme" where
  "heap_free blob_id s =
     (if \<not> heap_up s \<or> blob_id = 0 then s
      else case wfind 0 (blob_count s) (\<lambda>i. be_blob_id (blob_table s (unat i)) = blob_id) of
        None \<Rightarrow> s
      | Some i \<Rightarrow>
          let e = blob_table s (unat i);
              start = be_offset e div HEAP_BLOCK_SIZE;
              m = wfor 0 (be_blocks e) (\<lambda>j. hb_clear (start + j)) (shm s);
              m = wr32 m (IPC_HEAP_CTL_OFFSET + 12) (heap_free_blocks m + be_blocks e)
          in s\<lparr>shm := m,
               blob_table := (blob_table s)(unat i := blob_table s (unat (blob_count s - 1))),
               blob_count := blob_count s - 1\<rparr>)"

text \<open>
  The slow path walks over the headers; a header with a huge size field makes the 32-bit offset
  wrap around, so the walk need not end: \<open>None\<close> stands for that.
\<close>

partial_function (option) scan_heap :: "u16 \<Rightarrow> mem \<Rightarrow> u32 \<Rightarrow> u32 option option" where
  "scan_heap blob_id m off =
     (if off < IPC_HEAP_DATA_SIZE
      then if blob_magic m off = BLOB_MAGIC
           then if blob_id_at m off = blob_id then Some (Some off)
                else let blocks = blocks_for (blob_size_at m off)
                     in scan_heap blob_id m
                          ((if blocks > 1 then off + (blocks - 1) * HEAP_BLOCK_SIZE else off) + HEAP_BLOCK_SIZE)
           else scan_heap blob_id m (off + HEAP_BLOCK_SIZE)
      else Some None)"

definition cached_blob :: "u16 \<Rightarrow> 'a ipc_heap_scheme \<Rightarrow> u32 option" where
  "cached_blob blob_id s =
     map_option (\<lambda>i. be_offset (blob_table s (unat i)))
       (wfind 0 (blob_count s) (\<lambda>i. be_blob_id (blob_table s (unat i)) = blob_id \<and>
          blob_magic (shm s) (be_offset (blob_table s (unat i))) = BLOB_MAGIC \<and>
          blob_id_at (shm s) (be_offset (blob_table s (unat i))) = blob_id))"

definition heap_get_blob :: "u16 \<Rightarrow> 'a ipc_heap_scheme \<Rightarrow> (u32 option \<times> 'a ipc_heap_scheme) option" where
  "heap_get_blob blob_id s =
     (if \<not> heap_up s \<or> blob_id = 0 then Some (None, s)
      else case cached_blob blob_id s of
        Some off \<Rightarrow> Some (Some off, s)
      | None \<Rightarrow>
          (case scan_heap blob_id (shm s) 0 of
             None \<Rightarrow> None
           | Some None \<Rightarrow> Some (None, s)
           | Some (Some off) \<Rightarrow>
               Some (Some off, record_blob blob_id off (blocks_for (blob_size_at (shm s) off)) s)))"

definition heap_get_data :: "u16 \<Rightarrow> 'a ipc_heap_scheme \<Rightarrow> (u32 option \<times> 'a ipc_heap_scheme) option" where
  "heap_get_data blob_id s =
     (case heap_get_blob blob_id s of
        None \<Rightarrow> None
      | Some (None, s) \<Rightarrow> Some (None, s)
      | Some (Some off, s) \<Rightarrow> Some (Some (blob_offset_at (shm s) off), s))"

definition heap_get_stats :: "'a ipc_heap_scheme \<Rightarrow> heap_stats" where
  "heap_get_stats s =
     (if \<not> heap_up s \<or> heap_magic (shm s) \<noteq> IPC_HEAP_MAGIC
      then \<lparr>hs_total_bytes = 0, hs_free_bytes = 0, hs_used_bytes = 0, hs_total_blocks = 0,
            hs_free_blocks = 0, hs_blob_count = 0\<rparr>
      else let t = heap_total_blocks (shm s); f = heap_free_blocks (shm s)
           in \<lparr>hs_total_bytes = t * HEAP_BLOCK_SIZE, hs_free_bytes = f * HEAP_BLOCK_SIZE,
               hs_used_bytes = t * HEAP_BLOCK_SIZE - f * HEAP_BLOCK_SIZE, hs_total_blocks = t,
               hs_free_blocks = f, hs_blob_count = blob_count s\<rparr>)"

definition heap_get_blob_size :: "u16 \<Rightarrow> 'a ipc_heap_scheme \<Rightarrow> (u32 \<times> 'a ipc_heap_scheme) option" where
  "heap_get_blob_size blob_id s =
     (case heap_get_blob blob_id s of
        None \<Rightarrow> None
      | Some (None, s) \<Rightarrow> Some (0, s)
      | Some (Some off, s) \<Rightarrow> Some (blob_size_at (shm s) off, s))"

section \<open>Tensors\<close>

definition dtype_size :: "u8 \<Rightarrow> u32" where
  "dtype_size dtype =
     (if dtype = 0x00 then 4 else if dtype = 0x01 then 2 else if dtype = 0x02 then 4
      else if dtype = 0x03 then 2 else 1)"

text \<open>The tensor header: dtype at 0, ndim at 1, reserved at 2, shape at 4, strides at 20.\<close>

definition tensor_dims :: "u32 list \<Rightarrow> u32" where
  "tensor_dims shape = fold (\<lambda>d n. n * d) shape 1"

fun write_dims :: "u32 list \<Rightarrow> nat \<Rightarrow> nat \<Rightarrow> u32 \<Rightarrow> mem \<Rightarrow> mem" where
  "write_dims shape a 0 stride m = m"
| "write_dims shape a (Suc i) stride m =
     write_dims shape a i (stride * shape ! i)
       (wr32 (wr32 m (a + 4 + 4 * i) (shape ! i)) (a + 20 + 4 * i) stride)"

definition zero_dims :: "nat \<Rightarrow> nat \<Rightarrow> mem \<Rightarrow> mem" where
  "zero_dims a n m = fold (\<lambda>i m. wr32 (wr32 m (a + 4 + 4 * i) 0) (a + 20 + 4 * i) 0) [n..<4] m"

definition heap_alloc_tensor ::
    "u8 \<Rightarrow> u8 \<Rightarrow> u32 list option \<Rightarrow> 'a ipc_heap_scheme \<Rightarrow> (u16 \<times> 'a ipc_heap_scheme) option" where
  "heap_alloc_tensor dtype ndim shape_ptr s =
     (case shape_ptr of
        None \<Rightarrow> Some (0, s)
      | Some shape \<Rightarrow>
          if ndim = 0 \<or> ndim > 4 then Some (0, s)
          else let shape = take (unat ndim) shape;
                   elem_size = dtype_size dtype;
                   (blob_id, s) = heap_alloc (36 + tensor_dims shape * elem_size) BLOB_TYPE_TENSOR s
            in if blob_id = 0 then Some (0, s)
               else case heap_get_data blob_id s of
                 None \<Rightarrow> None
               | Some (None, s) \<Rightarrow> None
               | Some (Some off, s) \<Rightarrow>
                   let a = IPC_HEAP_DATA_OFFSET + unat off;
                       m = wr16 (wr8 (wr8 (shm s) a dtype) (a + 1) ndim) (a + 2) 0;
                       m = write_dims shape a (unat ndim) elem_size m
                   in Some (blob_id, s\<lparr>shm := zero_dims a (unat ndim) m\<rparr>))"

definition heap_get_tensor_data ::
    "u16 \<Rightarrow> 'a ipc_heap_scheme \<Rightarrow> (u32 option \<times> 'a ipc_heap_scheme) option" where
  "heap_get_tensor_data blob_id s =
     (case heap_get_blob blob_id s of
        None \<Rightarrow> None
      | Some (None, s) \<Rightarrow> Some (None, s)
      | Some (Some off, s) \<Rightarrow>
          if blob_type_at (shm s) off \<noteq> BLOB_TYPE_TENSOR then Some (None, s)
          else if blob_magic (shm s) off \<noteq> BLOB_MAGIC then Some (None, s)
          else if blob_offset_at (shm s) off + blob_size_at (shm s) off > IPC_HEAP_DATA_SIZE
          then Some (None, s)
          else case heap_get_data blob_id s of
            None \<Rightarrow> None
          | Some (None, s) \<Rightarrow> Some (None, s)
          | Some (Some data, s) \<Rightarrow>
              if blob_size_at (shm s) off < 36 then Some (None, s)
              else let a = IPC_HEAP_DATA_OFFSET + unat data; ndim = rd8 (shm s) (a + 1)
                in if ndim > 4 then Some (None, s)
                   else let nelems = tensor_dims (map (\<lambda>i. rd32 (shm s) (a + 4 + 4 * i)) [0..<unat ndim]);
                            expected = 36 + nelems * dtype_size (rd8 (shm s) a)
                        in if expected > blob_size_at (shm s) off then Some (None, s)
                           else Some (Some (data + 36), s))"

section \<open>First fit\<close>

interpretation heap_map: bitmap hb_set hb_clear hb_test HEAP_MAX_BLOCKS
  by unfold_locales
     (auto simp: hb_set_def hb_clear_def hb_test_def bits_test_set bits_test_clear
       word_unat_eq_iff word_less_nat_alt word_le_nat_alt)

definition hfree :: "mem \<Rightarrow> u32 set" where "hfree m = clear_bits hb_test m"

definition hrange :: "u32 \<Rightarrow> u32 \<Rightarrow> u32 set" where
  "hrange p count = {p + j |j. 0 \<le> j \<and> j < count}"

lemma hfree_iff: "p \<in> hfree m \<longleftrightarrow> \<not> hb_test p m"
  by (simp add: hfree_def clear_bits_def)

text \<open>Free blocks by number.\<close>

definition free_at :: "mem \<Rightarrow> nat \<Rightarrow> bool" where "free_at m k \<longleftrightarrow> \<not> hb_test (of_nat k) m"

definition run_at :: "mem \<Rightarrow> nat \<Rightarrow> nat \<Rightarrow> bool" where
  "run_at m p n \<longleftrightarrow> (\<forall>k. p \<le> k \<and> k < p + n \<longrightarrow> free_at m k)"

text \<open>
  The scan before block \<open>j\<close>: a maximal run of \<open>r\<close> free blocks ends there, and no run of \<open>c\<close> blocks
  lies before it.
\<close>

definition scan_inv :: "mem \<Rightarrow> nat \<Rightarrow> nat \<Rightarrow> nat \<Rightarrow> nat \<Rightarrow> bool" where
  "scan_inv m c j st r \<longleftrightarrow> r \<le> j \<and> r < c \<and> (0 < r \<longrightarrow> st = j - r) \<and> run_at m (j - r) r \<and>
     (r < j \<longrightarrow> \<not> free_at m (j - r - 1)) \<and> (\<forall>p. p + c \<le> j \<longrightarrow> \<not> run_at m p c)"

lemma scan_inv_used:
  assumes "scan_inv m c j st r" and "\<not> free_at m j"
  shows "scan_inv m c (Suc j) st' 0"
proof -
  have "\<not> run_at m p c" if "p + c \<le> Suc j" for p
  proof (cases "p + c \<le> j")
    case False
    then have "p \<le> j" "j < p + c" using assms(1) that by (auto simp: scan_inv_def)
    then show ?thesis using assms(2) by (auto simp: run_at_def)
  qed (use assms(1) in \<open>auto simp: scan_inv_def\<close>)
  then show ?thesis using assms by (auto simp: scan_inv_def run_at_def)
qed

lemma scan_inv_free:
  assumes inv: "scan_inv m c j st r" and free: "free_at m j"
    and st': "st' = (if r = 0 then j else st)"
  shows "run_at m (j - r) (Suc r)" and "st' = j - r"
    and "Suc r < c \<Longrightarrow> scan_inv m c (Suc j) st' (Suc r)"
proof -
  have r: "r \<le> j" "r < c" "0 < r \<longrightarrow> st = j - r" using inv by (auto simp: scan_inv_def)
  show run: "run_at m (j - r) (Suc r)"
    using inv free r(1) by (auto simp: scan_inv_def run_at_def less_Suc_eq)
  show "st' = j - r" using st' r by auto
  assume lt: "Suc r < c"
  have "\<not> run_at m p c" if "p + c \<le> Suc j" for p
  proof (cases "p + c \<le> j")
    case False
    then have eq: "p + c = Suc j" using that by simp
    then have "r < j" "p \<le> j - r - 1" "j - r - 1 < p + c" using lt by auto
    moreover have "\<not> free_at m (j - r - 1)" using inv \<open>r < j\<close> by (simp add: scan_inv_def)
    ultimately show ?thesis unfolding run_at_def by blast
  qed (use inv in \<open>auto simp: scan_inv_def\<close>)
  then show "scan_inv m c (Suc j) st' (Suc r)"
    using inv run r st' lt by (auto simp: scan_inv_def Suc_diff_Suc)
qed

text \<open>First fit: the least start of a run, or the all-ones word if there is none.\<close>

lemma find_free_blocks_first_fit:
  assumes "count \<noteq> 0"
  shows "(find_free_blocks count m = - 1 \<and>
      (\<forall>p. p + unat count \<le> 15168 \<longrightarrow> \<not> run_at m p (unat count))) \<or>
    (unat (find_free_blocks count m) + unat count \<le> 15168 \<and>
      run_at m (unat (find_free_blocks count m)) (unat count) \<and>
      (\<forall>q < unat (find_free_blocks count m). \<not> run_at m q (unat count)))"
proof -
  let ?c = "unat count"
  let ?P = "\<lambda>(j :: u32) (acc :: u32 \<times> u32). scan_inv m ?c (unat j) (unat (fst acc)) (unat (snd acc))"
  let ?R = "\<lambda>start (acc :: u32 \<times> u32). unat start + ?c \<le> 15168 \<and> run_at m (unat start) ?c \<and>
    (\<forall>q < unat start. \<not> run_at m q ?c)"
  have c: "0 < ?c" using assms by (simp add: unat_gt_0)
  have "case wtry 0 HEAP_MAX_BLOCKS (find_step_body count m) (0, 0) of
      (None, u) \<Rightarrow> ?P HEAP_MAX_BLOCKS u | (Some r, u) \<Rightarrow> ?R r u"
  proof (rule wtry_rule [where P = ?P])
    show "?P 0 (0, 0)" using c by (simp add: scan_inv_def run_at_def)
  next
    fix j :: u32 and acc :: "u32 \<times> u32"
    assume j: "j < HEAP_MAX_BLOCKS" and inv: "?P j acc"
    obtain st r where acc: "acc = (st, r)" by fastforce
    have J: "unat (j + 1) = Suc (unat j)" "unat j < 15168"
      using unat_Suc_less [OF j] j by (simp_all add: HEAP_MAX_BLOCKS_def word_less_nat_alt)
    have r: "unat r < ?c" "unat r \<le> unat j" using inv by (simp_all add: acc scan_inv_def)
    then have r1: "unat (r + 1) = Suc (unat r)" by (intro unat_Suc_less [of r count]) (simp add: word_less_nat_alt)
    have z: "r = 0 \<longleftrightarrow> unat r = 0" by (simp add: unat_eq_0)
    show "case find_step_body count m j acc of (None, u) \<Rightarrow> ?P (j + 1) u | (Some r, u) \<Rightarrow> ?R r u"
    proof (cases "hb_test j m")
      case True
      then show ?thesis
        using scan_inv_used [of m ?c "unat j" "unat st" "unat r" "unat st"] inv J(1)
        by (simp add: find_step_body_def acc free_at_def)
    next
      case False
      let ?st = "if r = 0 then j else st"
      have f: "free_at m (unat j)" using False by (simp add: free_at_def)
      have st: "unat ?st = (if unat r = 0 then unat j else unat st)" using z by simp
      have inv': "scan_inv m ?c (unat j) (unat st) (unat r)" using inv by (simp add: acc)
      note sf = scan_inv_free [OF inv' f st]
      show ?thesis
      proof (cases "r + 1 \<ge> count")
        case True
        then have eq: "Suc (unat r) = ?c" using r r1 by (simp add: word_le_nat_alt)
        have "\<not> run_at m q ?c" if "q < unat ?st" for q
        proof -
          have "q + ?c \<le> unat j" using that sf(2) eq r(2) by simp
          then show ?thesis using inv by (simp add: acc scan_inv_def)
        qed
        moreover have "run_at m (unat ?st) ?c" using sf(1,2) eq by simp
        moreover have "unat ?st + ?c \<le> 15168" using sf(2) eq r(2) J(2) by simp
        ultimately show ?thesis using False True by (simp add: find_step_body_def acc Let_def)
      next
        case lt: False
        then have "Suc (unat r) < ?c" using r1 by (simp add: word_le_nat_alt)
        then show ?thesis
          using False lt sf(3) r1 J(1) by (simp add: find_step_body_def acc Let_def)
      qed
    qed
  qed simp
  then show ?thesis
    by (auto simp: find_free_blocks_def scan_inv_def HEAP_MAX_BLOCKS_def split: prod.splits option.splits)
qed

section \<open>Accounting\<close>

text \<open>
  The bitmap occupies bytes \<open>0x10120\<close> up to \<open>0x10888\<close> of the window; writes elsewhere keep it, and
  its own writes keep everything else.
\<close>

lemma hb_test_cong:
  assumes "\<And>a. 0x10120 \<le> a \<Longrightarrow> a < 0x10888 \<Longrightarrow> m a = m' a"
  shows "hb_test p m = hb_test p m'"
proof (cases "p \<ge> HEAP_MAX_BLOCKS")
  case False
  then have "unat p < 15168" by (simp add: HEAP_MAX_BLOCKS_def word_le_nat_alt)
  then have "unat p div 8 < 1896" by simp
  then show ?thesis using assms [of "HEAP_BITMAP + unat p div 8"] False
    by (simp add: hb_test_def bits_test_def HEAP_BITMAP_def)
qed (simp add: hb_test_def)

lemma hfree_cong:
  "(\<And>a. 0x10120 \<le> a \<Longrightarrow> a < 0x10888 \<Longrightarrow> m a = m' a) \<Longrightarrow> hfree m = hfree m'"
  using hb_test_cong [of m m'] by (auto simp: hfree_iff)

lemma hb_outside:
  assumes "a < 0x10120 \<or> 0x10888 \<le> a"
  shows "hb_set p m a = m a" and "hb_clear p m a = m a"
proof -
  have "a \<noteq> HEAP_BITMAP + unat p div 8" if "p < HEAP_MAX_BLOCKS"
  proof -
    have "unat p < 15168" using that by (simp add: HEAP_MAX_BLOCKS_def word_less_nat_alt)
    then have "unat p div 8 < 1896" by simp
    then show ?thesis using assms by (auto simp: HEAP_BITMAP_def)
  qed
  then show "hb_set p m a = m a" and "hb_clear p m a = m a"
    by (auto simp: hb_set_def hb_clear_def bits_set_outside bits_clear_outside)
qed

lemma hb_range_outside:
  assumes "a < 0x10120 \<or> 0x10888 \<le> a"
  shows "wfor i n (\<lambda>j. hb_set (s + j)) m a = m a" and "wfor i n (\<lambda>j. hb_clear (s + j)) m a = m a"
  by (rule wfor_preserves [where Q = "\<lambda>u. u a = m a"]; use assms in \<open>simp add: hb_outside\<close>)+

text \<open>Two windows with the same bytes outside the bitmap have the same headers.\<close>

definition same_fields :: "mem \<Rightarrow> mem \<Rightarrow> bool" where
  "same_fields m m' \<longleftrightarrow> (\<forall>a. a < 0x10120 \<or> 0x10888 \<le> a \<longrightarrow> m a = m' a)"

lemma same_fields_reads:
  assumes "same_fields m m'"
  shows "a + 4 \<le> 0x10120 \<or> 0x10888 \<le> a \<Longrightarrow> rd32 m a = rd32 m' a"
    and "0x10888 \<le> a \<Longrightarrow> rd16 m a = rd16 m' a"
    and "0x10888 \<le> a \<Longrightarrow> rd8 m a = rd8 m' a"
  by (rule rd_cong; use assms in \<open>auto simp: same_fields_def\<close>)+

lemma hb_range_same_fields:
  "same_fields (wfor i n (\<lambda>j. hb_set (s + j)) m) m" "same_fields (wfor i n (\<lambda>j. hb_clear (s + j)) m) m"
  by (simp_all add: same_fields_def hb_range_outside)

lemma heap_ctl_reads:
  assumes "same_fields m m'"
  shows "heap_magic m = heap_magic m'" "heap_free_blocks m = heap_free_blocks m'"
    "heap_total_blocks m = heap_total_blocks m'" "heap_next_blob_id m = heap_next_blob_id m'"
  by (simp_all add: heap_magic_def heap_free_blocks_def heap_total_blocks_def heap_next_blob_id_def
      same_fields_reads [OF assms] IPC_HEAP_CTL_OFFSET_def)

lemma hfree_wr:
  "a + 4 \<le> 0x10120 \<or> 0x10888 \<le> a \<Longrightarrow> hfree (wr32 m a v32) = hfree m"
  "a + 2 \<le> 0x10120 \<or> 0x10888 \<le> a \<Longrightarrow> hfree (wr16 m a v16) = hfree m"
  "a + 1 \<le> 0x10120 \<or> 0x10888 \<le> a \<Longrightarrow> hfree (wr8 m a v8) = hfree m"
  by (rule hfree_cong; auto simp: wr32_outside wr16_outside wr8_outside)+

lemma hfree_less: "p \<in> hfree m \<Longrightarrow> unat p < 15168"
  using heap_map.clear_less [of p m] by (simp add: hfree_def HEAP_MAX_BLOCKS_def word_less_nat_alt)

lemma card_hfree_le: "card (hfree m) \<le> 15168"
  using heap_map.card_clear_le [of m] by (simp add: hfree_def HEAP_MAX_BLOCKS_def)

lemma card_hrange: "card (hrange p c) = unat c"
  unfolding hrange_def by (rule card_word_range)

lemma hrange_mem_iff:
  assumes "unat p + unat c \<le> 15168"
  shows "q \<in> hrange p c \<longleftrightarrow> unat p \<le> unat q \<and> unat q < unat p + unat c"
proof
  assume "q \<in> hrange p c"
  then obtain j where j: "q = p + j" "j < c" by (auto simp: hrange_def)
  then have "unat q = unat p + unat j" using assms by (simp add: unat_word_ariths word_less_nat_alt)
  then show "unat p \<le> unat q \<and> unat q < unat p + unat c" using j(2) by (simp add: word_less_nat_alt)
next
  assume q: "unat p \<le> unat q \<and> unat q < unat p + unat c"
  then have "unat q - unat p < unat c" by linarith
  with q have "q - p < c" by (simp add: word_less_nat_alt unat_sub_if')
  then show "q \<in> hrange p c" unfolding hrange_def by (intro CollectI exI [of _ "q - p"]) simp
qed

lemma run_at_hrange:
  assumes "unat p + unat c \<le> 15168"
  shows "run_at m (unat p) (unat c) \<longleftrightarrow> hrange p c \<subseteq> hfree m"
proof
  assume run: "run_at m (unat p) (unat c)"
  show "hrange p c \<subseteq> hfree m"
  proof
    fix q assume "q \<in> hrange p c"
    then have "free_at m (unat q)" using run hrange_mem_iff [OF assms] by (auto simp: run_at_def)
    then show "q \<in> hfree m" by (simp add: free_at_def hfree_iff)
  qed
next
  assume sub: "hrange p c \<subseteq> hfree m"
  show "run_at m (unat p) (unat c)"
    unfolding run_at_def
  proof (intro allI impI)
    fix k assume k: "unat p \<le> k \<and> k < unat p + unat c"
    then have "unat (of_nat k :: u32) = k" using assms by (simp add: unat_of_nat_u32)
    then have "of_nat k \<in> hrange p c" using k hrange_mem_iff [OF assms] by simp
    then show "free_at m k" using sub by (auto simp: free_at_def hfree_iff)
  qed
qed

section \<open>Invariant\<close>

text \<open>
  The counter is the number of clear bits, and the entries of the blob table own pairwise disjoint
  runs of blocks that are marked used.
\<close>

definition entry_range :: "blob_entry \<Rightarrow> u32 set" where
  "entry_range e = hrange (be_offset e div HEAP_BLOCK_SIZE) (be_blocks e)"

definition entry_ok :: "mem \<Rightarrow> blob_entry \<Rightarrow> bool" where
  "entry_ok m e \<longleftrightarrow> be_blocks e \<noteq> 0 \<and> unat (be_offset e) mod 64 = 0 \<and>
     unat (be_offset e) div 64 + unat (be_blocks e) \<le> 15168 \<and> entry_range e \<inter> hfree m = {}"

definition table_disjoint :: "blob_entry carray \<Rightarrow> nat \<Rightarrow> bool" where
  "table_disjoint t n \<longleftrightarrow> (\<forall>i j. i < n \<longrightarrow> j < n \<longrightarrow> i \<noteq> j \<longrightarrow> entry_range (t i) \<inter> entry_range (t j) = {})"

definition ctl_ok :: "mem \<Rightarrow> bool" where
  "ctl_ok m \<longleftrightarrow> heap_magic m = IPC_HEAP_MAGIC \<and> heap_total_blocks m = HEAP_MAX_BLOCKS \<and>
     unat (heap_free_blocks m) = card (hfree m)"

definition heap_wf :: "'a ipc_heap_scheme \<Rightarrow> bool" where
  "heap_wf s \<longleftrightarrow> heap_up s \<and> ctl_ok (shm s) \<and> unat (blob_count s) \<le> 256 \<and>
     (\<forall>i < unat (blob_count s). entry_ok (shm s) (blob_table s i)) \<and>
     table_disjoint (blob_table s) (unat (blob_count s))"

lemmas ctl_reads = heap_magic_def heap_total_blocks_def heap_free_blocks_def heap_next_blob_id_def
  IPC_HEAP_CTL_OFFSET_def

lemma hfree_take_blocks: "hfree (take_blocks start blocks m) = hfree m - hrange start blocks"
  using heap_map.clear_bits_set_range [of 0 blocks start m]
  by (simp add: take_blocks_def hfree_wr IPC_HEAP_CTL_OFFSET_def hfree_def [symmetric] hrange_def Let_def)

lemma take_blocks_ctl:
  "heap_magic (take_blocks start blocks m) = heap_magic m"
  "heap_total_blocks (take_blocks start blocks m) = heap_total_blocks m"
  "heap_next_blob_id (take_blocks start blocks m) = heap_next_blob_id m"
  "heap_free_blocks (take_blocks start blocks m) = heap_free_blocks m - blocks"
  using heap_ctl_reads [OF hb_range_same_fields(1) [of 0 blocks start m]]
  by (simp_all add: take_blocks_def ctl_reads Let_def)

lemma take_blocks_ctl_ok:
  assumes "ctl_ok m" and "hrange start blocks \<subseteq> hfree m"
  shows "ctl_ok (take_blocks start blocks m)"
proof -
  have "card (hfree m - hrange start blocks) = card (hfree m) - unat blocks"
    using assms(2) by (simp add: card_Diff_subset hfree_def card_hrange)
  moreover have "unat blocks \<le> card (hfree m)"
    using card_mono [OF _ assms(2)] by (simp add: hfree_def card_hrange)
  ultimately show ?thesis using assms(1)
    by (simp add: ctl_ok_def hfree_take_blocks take_blocks_ctl unat_sub_if')
qed

lemma next_id_mem:
  assumes "next_id m = (blob_id, m')"
  shows "hfree m' = hfree m" and "ctl_ok m \<Longrightarrow> ctl_ok m'" and "blob_id = ucast (heap_next_blob_id m)"
proof -
  have m': "m' = (let u = wr32 m (IPC_HEAP_CTL_OFFSET + 16) (heap_next_blob_id m + 1)
      in if heap_next_blob_id m + 1 = 0 then wr32 u (IPC_HEAP_CTL_OFFSET + 16) 1 else u)"
    using assms by (simp add: next_id_def Let_def)
  show "hfree m' = hfree m" by (simp add: m' Let_def hfree_wr IPC_HEAP_CTL_OFFSET_def)
  moreover have "heap_magic m' = heap_magic m" "heap_total_blocks m' = heap_total_blocks m"
    "heap_free_blocks m' = heap_free_blocks m"
    by (simp_all add: m' Let_def ctl_reads)
  ultimately show "ctl_ok m \<Longrightarrow> ctl_ok m'" by (simp add: ctl_ok_def)
  show "blob_id = ucast (heap_next_blob_id m)" using assms by (simp add: next_id_def Let_def)
qed

lemma write_blob_header_mem:
  "hfree (write_blob_header off blob_id type len m) = hfree m"
  "ctl_ok (write_blob_header off blob_id type len m) = ctl_ok m"
  by (simp_all add: write_blob_header_def Let_def blob_addr_def IPC_HEAP_DATA_OFFSET_def hfree_wr
      ctl_ok_def ctl_reads)

lemma write_blob_header_fields:
  fixes off len :: u32 and blob_id :: u16 and type :: u8 and m :: mem
  defines "h \<equiv> write_blob_header off blob_id type len m"
  shows "blob_magic h off = BLOB_MAGIC" "blob_id_at h off = blob_id" "blob_type_at h off = type"
    "blob_size_at h off = len" "blob_offset_at h off = off + 32"
  by (simp_all add: h_def write_blob_header_def Let_def blob_magic_def blob_id_at_def
      blob_type_at_def blob_size_at_def blob_offset_at_def)

text \<open>The number of blocks, while \<open>len + 95\<close> does not wrap.\<close>

lemma unat_blocks_for:
  assumes "unat len + 95 < 2 ^ 32"
  shows "unat (blocks_for len) = (unat len + 95) div 64"
  using assms by (simp add: blocks_for_def HEAP_BLOCK_SIZE_def unat_div unat_word_ariths)

lemma unat_block_offset:
  assumes "unat start < 15168"
  shows "unat (start * HEAP_BLOCK_SIZE) = 64 * unat start"
  using assms by (simp add: HEAP_BLOCK_SIZE_def unat_word_ariths)

lemma block_of_offset:
  assumes "unat start < 15168"
  shows "start * HEAP_BLOCK_SIZE div HEAP_BLOCK_SIZE = start"
  using unat_block_offset [OF assms]
  by (simp add: word_unat_eq_iff unat_div HEAP_BLOCK_SIZE_def)

section \<open>Allocation\<close>

lemma entry_ok_shrink: "entry_ok m e \<Longrightarrow> hfree m' \<subseteq> hfree m \<Longrightarrow> entry_ok m' e"
  by (auto simp: entry_ok_def)

lemma entry_range_used: "entry_ok m e \<Longrightarrow> p \<in> hfree m \<Longrightarrow> p \<notin> entry_range e"
  by (auto simp: entry_ok_def)

text \<open>A fresh entry over blocks that were free keeps the table disjoint.\<close>

lemma record_blob_wf:
  assumes wf: "heap_up s" "ctl_ok m" "unat (blob_count s) \<le> 256"
      "\<forall>i < unat (blob_count s). entry_ok m (blob_table s i)"
      "table_disjoint (blob_table s) (unat (blob_count s))"
    and e: "entry_ok m \<lparr>be_blob_id = bid, be_offset = off, be_blocks = n\<rparr>"
    and fresh: "\<forall>i < unat (blob_count s). entry_range (blob_table s i) \<inter>
      entry_range \<lparr>be_blob_id = bid, be_offset = off, be_blocks = n\<rparr> = {}"
  shows "heap_wf (record_blob bid off n (s\<lparr>shm := m\<rparr>))"
proof (cases "blob_count s < MAX_BLOBS")
  case True
  have c: "unat (blob_count s + 1) = Suc (unat (blob_count s))" by (rule unat_Suc_less [OF True])
  then have "Suc (unat (blob_count s)) \<le> 256" using True by (simp add: MAX_BLOBS_def word_less_nat_alt)
  then show ?thesis using True wf e fresh c
    by (auto simp: record_blob_def heap_wf_def table_disjoint_def less_Suc_eq inf_commute)
next
  case False
  then show ?thesis using wf by (simp add: record_blob_def heap_wf_def)
qed

lemma record_blob_sel [simp]:
  "shm (record_blob bid off n s) = shm s" "heap_up (record_blob bid off n s) = heap_up s"
  by (simp_all add: record_blob_def)

lemma heap_wf_shm:
  "hfree m = hfree (shm s) \<Longrightarrow> ctl_ok m \<Longrightarrow> heap_wf s \<Longrightarrow> heap_wf (s\<lparr>shm := m\<rparr>)"
  by (auto simp: heap_wf_def entry_ok_def)

lemma blocks_for_pos:
  assumes "unat len + 95 < 2 ^ 32"
  shows "blocks_for len \<noteq> 0"
proof -
  have "0 < (unat len + 95) div 64" by (simp add: div_greater_zero_iff)
  then have "0 < unat (blocks_for len)" by (simp only: unat_blocks_for [OF assms])
  then show ?thesis by (simp add: unat_gt_0)
qed

text \<open>What a successful allocation is, as an abstract step on the set of free blocks.\<close>

definition alloc_spec ::
    "u32 \<Rightarrow> u8 \<Rightarrow> 'a ipc_heap_scheme \<Rightarrow> u16 \<Rightarrow> u32 \<Rightarrow> 'a ipc_heap_scheme \<Rightarrow> bool" where
  "alloc_spec len type s blob_id off t \<longleftrightarrow>
     blob_id = ucast (heap_next_blob_id (shm s)) \<and>
     unat off mod 64 = 0 \<and> unat off + unat len + 32 \<le> unat IPC_HEAP_DATA_SIZE \<and>
     hrange (off div 64) (blocks_for len) \<subseteq> hfree (shm s) \<and>
     hfree (shm t) = hfree (shm s) - hrange (off div 64) (blocks_for len) \<and>
     blob_magic (shm t) off = BLOB_MAGIC \<and> blob_id_at (shm t) off = blob_id \<and>
     blob_type_at (shm t) off = type \<and> blob_size_at (shm t) off = len \<and>
     blob_offset_at (shm t) off = off + 32 \<and>
     (if unat (blob_count s) < 256
      then blob_count t = blob_count s + 1 \<and> blob_table t = (blob_table s)(unat (blob_count s) :=
             \<lparr>be_blob_id = blob_id, be_offset = off, be_blocks = blocks_for len\<rparr>)
      else blob_count t = blob_count s \<and> blob_table t = blob_table s)"

lemma heap_alloc_hit:
  fixes s :: "'a ipc_heap_scheme" and len :: u32
  defines "start \<equiv> find_free_blocks (blocks_for len) (shm s)"
  assumes wf: "heap_wf s" and small: "unat len + 95 < 2 ^ 32" and hit: "start \<noteq> - 1"
  shows "\<exists>bid t. heap_alloc len type s = (bid, t) \<and> heap_wf t \<and>
    alloc_spec len type s bid (start * HEAP_BLOCK_SIZE) t \<and> unat start < 15168"
proof -
  let ?b = "blocks_for len" and ?off = "start * HEAP_BLOCK_SIZE"
  let ?m = "take_blocks start ?b (shm s)"
  obtain bid m where bid: "next_id ?m = (bid, m)" by fastforce
  let ?r = "record_blob bid ?off ?b (s\<lparr>shm := m\<rparr>)"
  let ?t = "?r\<lparr>shm := write_blob_header ?off bid type len m\<rparr>"
  have start: "unat start + unat ?b \<le> 15168" "run_at (shm s) (unat start) (unat ?b)"
    using find_free_blocks_first_fit [OF blocks_for_pos [OF small], of "shm s"] hit
    by (auto simp: start_def)
  have pos: "0 < unat ?b" using blocks_for_pos [OF small] by (simp add: unat_gt_0)
  then have lt: "unat start < 15168" using start(1) by simp
  have free: "hrange start ?b \<subseteq> hfree (shm s)" using run_at_hrange [OF start(1)] start(2) by simp
  have hf: "hfree m = hfree (shm s) - hrange start ?b"
    using next_id_mem(1) [OF bid] by (simp add: hfree_take_blocks)
  have ctl: "ctl_ok m"
    by (rule next_id_mem(2) [OF bid], rule take_blocks_ctl_ok [OF _ free]) (use wf in \<open>simp add: heap_wf_def\<close>)
  have idv: "bid = ucast (heap_next_blob_id (shm s))" using next_id_mem(3) [OF bid] by (simp add: take_blocks_ctl)
  have er: "entry_range \<lparr>be_blob_id = bid, be_offset = ?off, be_blocks = ?b\<rparr> = hrange start ?b"
    by (simp add: entry_range_def block_of_offset [OF lt])
  have wf_r: "heap_wf ?r"
  proof (rule record_blob_wf)
    show "\<forall>i < unat (blob_count s). entry_ok m (blob_table s i)"
      using wf hf by (auto simp: heap_wf_def intro: entry_ok_shrink)
    show "entry_ok m \<lparr>be_blob_id = bid, be_offset = ?off, be_blocks = ?b\<rparr>"
      unfolding entry_ok_def er using hf pos start(1) unat_block_offset [OF lt] by auto
    show "\<forall>i < unat (blob_count s). entry_range (blob_table s i) \<inter>
        entry_range \<lparr>be_blob_id = bid, be_offset = ?off, be_blocks = ?b\<rparr> = {}"
      unfolding er using wf free by (auto simp: heap_wf_def dest: entry_range_used)
  qed (use wf ctl in \<open>auto simp: heap_wf_def\<close>)
  have alloc: "heap_alloc len type s = (bid, ?t)"
    using wf hit bid by (simp add: heap_alloc_def heap_wf_def ctl_ok_def start_def Let_def)
  have "heap_wf ?t"
    by (rule heap_wf_shm [OF _ _ wf_r]) (simp_all add: write_blob_header_mem ctl)
  moreover have "unat ?off + unat len + 32 \<le> unat IPC_HEAP_DATA_SIZE"
    using start(1) unat_block_offset [OF lt] unat_blocks_for [OF small] by (simp add: IPC_HEAP_DATA_SIZE_def)
  then have "alloc_spec len type s bid ?off ?t"
    unfolding alloc_spec_def
    using idv free hf block_of_offset [OF lt] unat_block_offset [OF lt]
    by (auto simp: write_blob_header_fields write_blob_header_mem record_blob_def MAX_BLOBS_def
        word_less_nat_alt HEAP_BLOCK_SIZE_def)
  ultimately show ?thesis using alloc lt by blast
qed

lemma run_ex_hrange:
  "(\<exists>p. p + unat c \<le> 15168 \<and> run_at m p (unat c)) \<longleftrightarrow>
   (\<exists>p :: u32. unat p + unat c \<le> 15168 \<and> hrange p c \<subseteq> hfree m)"
proof
  assume "\<exists>p. p + unat c \<le> 15168 \<and> run_at m p (unat c)"
  then obtain p where p: "p + unat c \<le> 15168" "run_at m p (unat c)" by blast
  then have "unat (of_nat p :: u32) = p" by (simp add: unat_of_nat_u32)
  with p run_at_hrange [of "of_nat p" c m]
  have "unat (of_nat p :: u32) + unat c \<le> 15168 \<and> hrange (of_nat p) c \<subseteq> hfree m" by simp
  then show "\<exists>p :: u32. unat p + unat c \<le> 15168 \<and> hrange p c \<subseteq> hfree m" by blast
qed (use run_at_hrange in blast)

lemma heap_alloc_miss:
  assumes "heap_wf s" and "unat len + 95 < 2 ^ 32"
  shows "find_free_blocks (blocks_for len) (shm s) = - 1 \<longleftrightarrow>
    \<not> (\<exists>p :: u32. unat p + unat (blocks_for len) \<le> 15168 \<and> hrange p (blocks_for len) \<subseteq> hfree (shm s))"
proof -
  have "unat (- 1 :: u32) = 4294967295" by (simp add: unsigned_minus_1_eq_mask mask_eq_exp_minus_1)
  then show ?thesis
    using find_free_blocks_first_fit [OF blocks_for_pos [OF assms(2)], of "shm s"]
      run_ex_hrange [of "blocks_for len" "shm s"] by auto
qed

lemma first_fit_hrange:
  assumes "unat len + 95 < 2 ^ 32" and "find_free_blocks (blocks_for len) (shm s) = start"
    and "start \<noteq> - 1" and "q < start"
  shows "\<not> hrange q (blocks_for len) \<subseteq> hfree (shm s)"
proof -
  have f: "unat start + unat (blocks_for len) \<le> 15168"
    "\<forall>q < unat start. \<not> run_at (shm s) q (unat (blocks_for len))"
    using find_free_blocks_first_fit [OF blocks_for_pos [OF assms(1)], of "shm s"] assms(2,3) by auto
  moreover have "unat q < unat start" using assms(4) by (simp add: word_less_nat_alt)
  ultimately show ?thesis using run_at_hrange [of q "blocks_for len" "shm s"] by auto
qed

text \<open>
  In a well-formed heap, and as long as the size plus header and rounding does not wrap the
  32-bit sum, \<open>heap_alloc\<close> succeeds exactly when some run of that many blocks is free; it then takes
  the first such run, reserves those blocks and no others, writes the blob header there, hands out
  the next id, records the blob if the table has room, and leaves a well-formed heap. Otherwise it
  returns 0 and changes nothing.
\<close>

theorem heap_alloc_correct:
  assumes "heap_wf s" and "unat len + 95 < 2 ^ 32"
  shows "case heap_alloc len type s of (bid, t) \<Rightarrow>
    if \<exists>p :: u32. unat p + unat (blocks_for len) \<le> 15168 \<and> hrange p (blocks_for len) \<subseteq> hfree (shm s)
    then heap_wf t \<and> (\<exists>off. alloc_spec len type s bid off t \<and>
           (\<forall>q < off div 64. \<not> hrange q (blocks_for len) \<subseteq> hfree (shm s)))
    else bid = 0 \<and> t = s"
proof (cases "find_free_blocks (blocks_for len) (shm s) = - 1")
  case True
  then show ?thesis using heap_alloc_miss [OF assms] by (auto simp: heap_alloc_def Let_def)
next
  case False
  let ?start = "find_free_blocks (blocks_for len) (shm s)"
  obtain bid t where a: "heap_alloc len type s = (bid, t)" "heap_wf t"
      "alloc_spec len type s bid (?start * HEAP_BLOCK_SIZE) t" "unat ?start < 15168"
    using heap_alloc_hit [OF assms False] by blast
  have "?start * HEAP_BLOCK_SIZE div 64 = ?start"
    using block_of_offset [OF a(4)] by (simp add: HEAP_BLOCK_SIZE_def)
  then have "\<forall>q < ?start * HEAP_BLOCK_SIZE div 64. \<not> hrange q (blocks_for len) \<subseteq> hfree (shm s)"
    using first_fit_hrange [OF assms(2) refl False] by simp
  then show ?thesis using a False heap_alloc_miss [OF assms] by auto
qed

section \<open>Release\<close>

lemma hfree_release:
  assumes "entry_ok m e"
  shows "hfree (wr32 (wfor 0 (be_blocks e) (\<lambda>j. hb_clear (be_offset e div HEAP_BLOCK_SIZE + j)) m)
      (IPC_HEAP_CTL_OFFSET + 12) v) = hfree m \<union> entry_range e"
proof -
  let ?st = "be_offset e div HEAP_BLOCK_SIZE"
  have b: "unat ?st + unat (be_blocks e) \<le> 15168"
    using assms by (simp add: entry_ok_def unat_div HEAP_BLOCK_SIZE_def)
  have "?st + j < HEAP_MAX_BLOCKS" if "j < be_blocks e" for j
    using that b by (simp add: HEAP_MAX_BLOCKS_def word_less_nat_alt unat_word_ariths)
  then show ?thesis
    using heap_map.clear_bits_clear_range [of 0 "be_blocks e" ?st m]
    by (simp add: hfree_wr IPC_HEAP_CTL_OFFSET_def hfree_def [symmetric] entry_range_def hrange_def)
qed

definition release :: "blob_entry \<Rightarrow> mem \<Rightarrow> mem" where
  "release e m =
     (let m = wfor 0 (be_blocks e) (\<lambda>j. hb_clear (be_offset e div HEAP_BLOCK_SIZE + j)) m
      in wr32 m (IPC_HEAP_CTL_OFFSET + 12) (heap_free_blocks m + be_blocks e))"

lemma heap_free_blocks_release: "heap_free_blocks (release e m) = heap_free_blocks m + be_blocks e"
  using heap_ctl_reads(2) [OF hb_range_same_fields(2)] by (simp add: release_def Let_def heap_free_blocks_def)

lemma release_ok:
  assumes e: "entry_ok m e" and ctl: "ctl_ok m"
  shows "hfree (release e m) = hfree m \<union> entry_range e" and "ctl_ok (release e m)"
proof -
  note same = heap_ctl_reads [OF hb_range_same_fields(2)]
  show hf: "hfree (release e m) = hfree m \<union> entry_range e"
    unfolding release_def Let_def by (rule hfree_release [OF e])
  have disj: "hfree m \<inter> entry_range e = {}" using e by (auto simp: entry_ok_def)
  have "card (hfree m \<union> entry_range e) = card (hfree m) + unat (be_blocks e)"
    using disj by (subst card_Un_disjoint) (simp_all add: hfree_def entry_range_def card_hrange)
  then have card: "card (hfree (release e m)) = unat (heap_free_blocks m) + unat (be_blocks e)"
    using ctl by (simp add: hf ctl_ok_def)
  then have "unat (heap_free_blocks m) + unat (be_blocks e) \<le> 15168"
    using card_hfree_le [of "release e m"] by simp
  then have "unat (heap_free_blocks m + be_blocks e) = unat (heap_free_blocks m) + unat (be_blocks e)"
    by (simp add: unat_word_ariths)
  moreover have "heap_magic (release e m) = heap_magic m" "heap_total_blocks (release e m) = heap_total_blocks m"
    using same(1,3) by (simp_all add: release_def Let_def heap_magic_def heap_total_blocks_def IPC_HEAP_CTL_OFFSET_def)
  ultimately show "ctl_ok (release e m)" using card ctl by (simp add: ctl_ok_def heap_free_blocks_release)
qed

text \<open>The entry \<open>heap_free\<close> works on, and removing it by moving the last one into its place.\<close>

definition find_blob :: "u16 \<Rightarrow> 'a ipc_heap_scheme \<Rightarrow> u32 option" where
  "find_blob blob_id s = wfind 0 (blob_count s) (\<lambda>i. be_blob_id (blob_table s (unat i)) = blob_id)"

definition drop_entry :: "nat \<Rightarrow> 'a ipc_heap_scheme \<Rightarrow> 'a ipc_heap_scheme" where
  "drop_entry i s = s\<lparr>blob_table := (blob_table s)(i := blob_table s (unat (blob_count s) - 1)),
     blob_count := blob_count s - 1\<rparr>"

lemma heap_free_unfold:
  "heap_free blob_id s =
     (if \<not> heap_up s \<or> blob_id = 0 then s
      else case find_blob blob_id s of
        None \<Rightarrow> s
      | Some i \<Rightarrow> drop_entry (unat i) (s\<lparr>shm := release (blob_table s (unat i)) (shm s)\<rparr>))"
proof (cases "find_blob blob_id s")
  case (Some i)
  then have "i < blob_count s" using wfind_SomeD by (fastforce simp: find_blob_def)
  then have "unat (blob_count s - 1) = unat (blob_count s) - 1"
    by (simp add: unat_sub_if' word_less_nat_alt)
  then show ?thesis using Some
    by (simp add: heap_free_def find_blob_def drop_entry_def release_def Let_def)
qed (simp add: heap_free_def find_blob_def)

lemma find_blob_SomeD:
  "find_blob bid s = Some i \<Longrightarrow> unat i < unat (blob_count s) \<and> be_blob_id (blob_table s (unat i)) = bid"
  using wfind_SomeD [of 0 "blob_count s"] by (fastforce simp: find_blob_def word_less_nat_alt)

lemma drop_entry_wf:
  assumes "heap_up s" "ctl_ok m" and "i < unat (blob_count s)" and "unat (blob_count s) \<le> 256"
    and "\<forall>j < unat (blob_count s). j \<noteq> i \<longrightarrow> entry_ok m (blob_table s j)"
    and "table_disjoint (blob_table s) (unat (blob_count s))"
  shows "heap_wf (drop_entry i (s\<lparr>shm := m\<rparr>))"
proof -
  have c: "unat (blob_count s - 1) = unat (blob_count s) - 1" using assms(3) by (simp add: unat_sub_if')
  have "entry_ok m (((blob_table s)(i := blob_table s (unat (blob_count s) - 1))) j)"
    if "j < unat (blob_count s) - 1" for j
    using that assms(3,5) by (cases "j = i") auto
  moreover have "table_disjoint ((blob_table s)(i := blob_table s (unat (blob_count s) - 1)))
      (unat (blob_count s) - 1)"
    using assms(6) by (auto simp: table_disjoint_def)
  ultimately show ?thesis using assms(1,2,4) c by (simp add: drop_entry_def heap_wf_def)
qed

lemma heap_free_hit:
  assumes wf: "heap_wf s" and "find_blob bid s = Some i" and "bid \<noteq> 0"
  shows "heap_wf (heap_free bid s)"
    and "hfree (shm (heap_free bid s)) = hfree (shm s) \<union> entry_range (blob_table s (unat i))"
proof -
  let ?e = "blob_table s (unat i)"
  note i = find_blob_SomeD [OF assms(2)]
  have e: "entry_ok (shm s) ?e" and ctl: "ctl_ok (shm s)" using wf i by (auto simp: heap_wf_def)
  note rel = release_ok [OF e ctl]
  have free: "heap_free bid s = drop_entry (unat i) (s\<lparr>shm := release ?e (shm s)\<rparr>)"
    using assms by (simp add: heap_free_unfold heap_wf_def)
  show "hfree (shm (heap_free bid s)) = hfree (shm s) \<union> entry_range ?e"
    using rel(1) by (simp add: free drop_entry_def)
  have "entry_ok (release ?e (shm s)) (blob_table s j)" if "j < unat (blob_count s)" "j \<noteq> unat i" for j
  proof -
    have "entry_range (blob_table s j) \<inter> entry_range ?e = {}"
      using wf i that unfolding heap_wf_def table_disjoint_def by blast
    then show ?thesis using wf that rel(1) by (auto simp: heap_wf_def entry_ok_def)
  qed
  then show "heap_wf (heap_free bid s)"
    unfolding free using wf i rel(2) by (intro drop_entry_wf) (auto simp: heap_wf_def)
qed

lemma heap_free_wf: "heap_wf s \<Longrightarrow> heap_wf (heap_free bid s)"
proof (cases "bid = 0 \<or> find_blob bid s = None")
  case True
  moreover assume "heap_wf s"
  ultimately show ?thesis by (auto simp: heap_free_unfold)
qed (use heap_free_hit in blast)

lemma heap_alloc_wf:
  assumes "heap_wf s" and "unat len + 95 < 2 ^ 32"
  shows "heap_wf (snd (heap_alloc len type s))"
proof (cases "find_free_blocks (blocks_for len) (shm s) = - 1")
  case True
  then show ?thesis using assms by (simp add: heap_alloc_def Let_def)
next
  case False
  then obtain bid t where "heap_alloc len type s = (bid, t)" "heap_wf t"
    using heap_alloc_hit [OF assms False] by blast
  then show ?thesis by simp
qed

section \<open>Initialisation\<close>

lemma wfor_zero_bytes:
  fixes n :: u32 and m :: mem
  shows "wfor 0 n (\<lambda>i m. m(base + unat i := 0)) m a = (if base \<le> a \<and> a < base + unat n then 0 else m a)"
proof -
  have "\<forall>a. wfor 0 n (\<lambda>i m. m(base + unat i := 0)) m a = (if base \<le> a \<and> a < base + unat n then 0 else m a)"
  proof (rule wfor_invariant [where P = "\<lambda>j u. \<forall>a. u a = (if base \<le> a \<and> a < base + unat j then 0 else m a)"])
    fix j :: u32 and t :: mem
    assume j: "j < n" and t: "\<forall>a. t a = (if base \<le> a \<and> a < base + unat j then 0 else m a)"
    show "\<forall>a. (t(base + unat j := 0)) a = (if base \<le> a \<and> a < base + unat (j + 1) then 0 else m a)"
      using t unat_Suc_less [OF j] by (auto simp: less_Suc_eq)
  qed auto
  then show ?thesis by blast
qed

lemma hfree_zeroed:
  assumes "\<And>a. 0x10120 \<le> a \<Longrightarrow> a < 0x10888 \<Longrightarrow> m a = 0"
  shows "hfree m = {..<HEAP_MAX_BLOCKS}"
proof -
  have "hb_test p m \<longleftrightarrow> p \<ge> HEAP_MAX_BLOCKS" for p
  proof -
    have "hb_test p m = hb_test p (\<lambda>_. 0)" by (rule hb_test_cong) (use assms in simp)
    then show ?thesis by (simp add: hb_test_def bits_test_def)
  qed
  then show ?thesis by (auto simp: hfree_iff not_le)
qed

lemma card_all_blocks: "card {..<HEAP_MAX_BLOCKS} = 15168"
proof -
  have "{..<HEAP_MAX_BLOCKS} = hrange 0 HEAP_MAX_BLOCKS" by (auto simp: hrange_def)
  then have "card {..<HEAP_MAX_BLOCKS} = unat HEAP_MAX_BLOCKS" by (simp only: card_hrange)
  also have "\<dots> = 15168" by (simp add: HEAP_MAX_BLOCKS_def)
  finally show ?thesis .
qed

lemma heap_init_mem:
  "hfree (shm (heap_init s)) = {..<HEAP_MAX_BLOCKS}"
  "heap_next_blob_id (shm (heap_init s)) = 1"
  "ctl_ok (shm (heap_init s))"
proof -
  let ?z = "\<lambda>m. wfor 0 HEAP_BITMAP_SIZE (\<lambda>i m. m(HEAP_BITMAP + unat i := 0)) m"
  have same: "same_fields (?z m) m" for m
    by (simp add: same_fields_def wfor_zero_bytes HEAP_BITMAP_SIZE_def HEAP_BITMAP_def)
  show hf: "hfree (shm (heap_init s)) = {..<HEAP_MAX_BLOCKS}"
    by (rule hfree_zeroed) (simp add: heap_init_def Let_def wfor_zero_bytes HEAP_BITMAP_SIZE_def HEAP_BITMAP_def)
  show "heap_next_blob_id (shm (heap_init s)) = 1"
    by (simp add: heap_init_def Let_def heap_ctl_reads [OF same]) (simp add: ctl_reads)
  have "heap_magic (shm (heap_init s)) = IPC_HEAP_MAGIC" "heap_total_blocks (shm (heap_init s)) = HEAP_MAX_BLOCKS"
    "heap_free_blocks (shm (heap_init s)) = HEAP_MAX_BLOCKS"
    by (simp_all add: heap_init_def Let_def heap_ctl_reads [OF same]) (simp_all add: ctl_reads)
  then show "ctl_ok (shm (heap_init s))"
    by (simp add: ctl_ok_def hf card_all_blocks) (simp add: HEAP_MAX_BLOCKS_def)
qed

lemma heap_init_wf: "heap_wf (heap_init s)"
proof -
  have "blob_count (heap_init s) = 0" "heap_up (heap_init s)" by (simp_all add: heap_init_def Let_def)
  then show ?thesis using heap_init_mem(3) by (simp add: heap_wf_def table_disjoint_def)
qed

section \<open>Sequences of operations\<close>

text \<open>
  The operations on the heap in any order: allocations, releases, lookups that the table answers,
  and writes of either side into the data area (headers included).
\<close>

inductive heap_step :: "'a ipc_heap_scheme \<Rightarrow> 'a ipc_heap_scheme \<Rightarrow> bool" where
  Alloc: "unat len + 95 < 2 ^ 32 \<Longrightarrow> heap_step s (snd (heap_alloc len type s))"
| Free: "heap_step s (heap_free bid s)"
| Cached: "cached_blob bid s = Some off \<Longrightarrow> heap_get_blob bid s = Some (r, t) \<Longrightarrow> heap_step s t"
| Payload: "IPC_HEAP_DATA_OFFSET \<le> a \<Longrightarrow> heap_step s (s\<lparr>shm := wr8 (shm s) a v\<rparr>)"

lemma payload_wf:
  assumes "IPC_HEAP_DATA_OFFSET \<le> a" and "heap_wf s"
  shows "heap_wf (s\<lparr>shm := wr8 (shm s) a v\<rparr>)"
proof (rule heap_wf_shm [OF _ _ assms(2)])
  show hf: "hfree (wr8 (shm s) a v) = hfree (shm s)"
    using assms(1) by (simp add: hfree_wr IPC_HEAP_DATA_OFFSET_def)
  have "ctl_ok (shm s)" using assms(2) by (simp add: heap_wf_def)
  then show "ctl_ok (wr8 (shm s) a v)"
    using assms(1) hf by (simp add: ctl_ok_def ctl_reads IPC_HEAP_DATA_OFFSET_def)
qed

lemma heap_step_wf: "heap_step s t \<Longrightarrow> heap_wf s \<Longrightarrow> heap_wf t"
  by (induction rule: heap_step.induct)
     (auto simp: heap_alloc_wf heap_free_wf payload_wf heap_get_blob_def split: if_splits)


section \<open>Allocate, look up, release\<close>

lemma find_blob_fresh:
  assumes alloc: "alloc_spec len type s bid off t" and room: "unat (blob_count s) < 256"
    and new: "find_blob bid s = None"
  shows "find_blob bid t = Some (blob_count s)"
proof -
  have t: "blob_count t = blob_count s + 1"
    "blob_table t = (blob_table s)(unat (blob_count s) :=
       \<lparr>be_blob_id = bid, be_offset = off, be_blocks = blocks_for len\<rparr>)"
    using alloc room by (simp_all add: alloc_spec_def)
  have lt: "blob_count s < MAX_BLOBS" using room by (simp add: MAX_BLOBS_def word_less_nat_alt)
  have "blob_count s < blob_count s + 1" by (rule word_less_Suc_gr [OF lt])
  moreover have "be_blob_id (blob_table s (unat j)) \<noteq> bid" if "j < blob_count s" for j
    using new that by (simp add: find_blob_def wfind_eq_None_iff)
  ultimately show ?thesis
    by (auto simp: find_blob_def wfind_eq_Some_iff t word_unat_eq_iff [symmetric])
qed

lemma cached_blob_hit:
  assumes "find_blob bid s = Some i" and "e = blob_table s (unat i)"
    and "blob_magic (shm s) (be_offset e) = BLOB_MAGIC" and "blob_id_at (shm s) (be_offset e) = bid"
  shows "cached_blob bid s = Some (be_offset e)"
proof -
  have "wfind 0 (blob_count s) (\<lambda>i. be_blob_id (blob_table s (unat i)) = bid \<and>
      blob_magic (shm s) (be_offset (blob_table s (unat i))) = BLOB_MAGIC \<and>
      blob_id_at (shm s) (be_offset (blob_table s (unat i))) = bid) = Some i"
    using assms by (auto simp: find_blob_def wfind_eq_Some_iff)
  then show ?thesis using assms(2) by (simp add: cached_blob_def)
qed

text \<open>
  A blob just allocated under an id that was not in the table is found at once: \<open>heap_get_blob\<close>
  returns its offset without scanning, \<open>heap_get_data\<close> the bytes behind its header and
  \<open>heap_get_blob_size\<close> the requested size; releasing it gives back exactly the free blocks and the
  table size there were before.
\<close>

theorem heap_alloc_lookup_free:
  assumes wf: "heap_wf s" and small: "unat len + 95 < 2 ^ 32"
    and alloc: "heap_alloc len type s = (bid, t)" "bid \<noteq> 0"
    and room: "unat (blob_count s) < 256" and new: "find_blob bid s = None"
  shows "(\<exists>off. alloc_spec len type s bid off t \<and> heap_get_blob bid t = Some (Some off, t) \<and>
      heap_get_data bid t = Some (Some (off + 32), t) \<and> heap_get_blob_size bid t = Some (len, t)) \<and>
    hfree (shm (heap_free bid t)) = hfree (shm s) \<and>
    heap_free_blocks (shm (heap_free bid t)) = heap_free_blocks (shm s) \<and>
    blob_count (heap_free bid t) = blob_count s"
proof -
  have "find_free_blocks (blocks_for len) (shm s) \<noteq> - 1"
    using alloc by (auto simp: heap_alloc_def Let_def split: if_splits)
  then obtain off where a: "alloc_spec len type s bid off t" and wft: "heap_wf t"
    using heap_alloc_hit [OF wf small, of type] alloc(1) by auto
  note f = find_blob_fresh [OF a room new]
  let ?e = "\<lparr>be_blob_id = bid, be_offset = off, be_blocks = blocks_for len\<rparr>"
  have t: "blob_table t (unat (blob_count s)) = ?e" "blob_count t = blob_count s + 1"
    using a room by (simp_all add: alloc_spec_def)
  have "cached_blob bid t = Some off"
    using cached_blob_hit [OF f] t a by (simp add: alloc_spec_def)
  then have "heap_get_blob bid t = Some (Some off, t)"
    using alloc(2) wft by (simp add: heap_get_blob_def heap_wf_def)
  then have look: "\<exists>off. alloc_spec len type s bid off t \<and> heap_get_blob bid t = Some (Some off, t) \<and>
      heap_get_data bid t = Some (Some (off + 32), t) \<and> heap_get_blob_size bid t = Some (len, t)"
    using a by (auto simp: heap_get_data_def heap_get_blob_size_def alloc_spec_def)
  have "entry_range ?e = hrange (off div 64) (blocks_for len)"
    by (simp add: entry_range_def HEAP_BLOCK_SIZE_def)
  then have hf: "hfree (shm (heap_free bid t)) = hfree (shm s)"
    using heap_free_hit(2) [OF wft f alloc(2)] a t(1) by (auto simp: alloc_spec_def)
  moreover have "unat (heap_free_blocks (shm (heap_free bid t))) = unat (heap_free_blocks (shm s))"
    using heap_free_hit(1) [OF wft f alloc(2)] wf hf by (simp add: heap_wf_def ctl_ok_def)
  moreover have "blob_count (heap_free bid t) = blob_count s"
    using f alloc(2) wft t(2) by (simp add: heap_free_unfold drop_entry_def heap_wf_def)
  ultimately show ?thesis using look by (simp add: word_unat_eq_iff)
qed

section \<open>A released blob can come back\<close>

lemma release_same_header:
  "0x11000 \<le> a \<Longrightarrow> rd32 (release e m) a = rd32 m a"
  "0x11000 \<le> a \<Longrightarrow> rd16 (release e m) a = rd16 m a"
  using same_fields_reads [OF hb_range_same_fields(2) [of 0 "be_blocks e" "be_offset e div HEAP_BLOCK_SIZE" m]]
  by (simp_all add: release_def Let_def IPC_HEAP_CTL_OFFSET_def)

lemma alloc_on_fresh_heap:
  assumes small: "unat len + 95 < 2 ^ 32" and fits: "unat (blocks_for len) \<le> 15168"
  obtains t where "heap_alloc len type (heap_init s) = (1, t)" "heap_wf t"
    "alloc_spec len type (heap_init s) 1 0 t" "find_blob 1 t = Some 0" "blob_count t = 1"
proof -
  let ?s = "heap_init s"
  have free: "hrange 0 (blocks_for len) \<subseteq> hfree (shm ?s)"
  proof
    fix q assume "q \<in> hrange 0 (blocks_for len)"
    then have "unat q < 15168" using fits hrange_mem_iff [of 0 "blocks_for len" q] by simp
    then show "q \<in> hfree (shm ?s)" by (simp add: heap_init_mem HEAP_MAX_BLOCKS_def word_less_nat_alt)
  qed
  then have hit: "find_free_blocks (blocks_for len) (shm ?s) \<noteq> - 1"
    unfolding heap_alloc_miss [OF heap_init_wf small] not_not using fits by (intro exI [of _ 0]) simp
  then have "\<not> 0 < find_free_blocks (blocks_for len) (shm ?s)"
    using first_fit_hrange [OF small refl hit, of 0] free by blast
  then have "find_free_blocks (blocks_for len) (shm ?s) = 0" by (simp add: word_gt_0)
  moreover have c: "blob_count ?s = 0" by (simp add: heap_init_def Let_def)
  moreover obtain bid t where t: "heap_alloc len type ?s = (bid, t)" "heap_wf t"
      "alloc_spec len type ?s bid (find_free_blocks (blocks_for len) (shm ?s) * HEAP_BLOCK_SIZE) t"
    using heap_alloc_hit [OF heap_init_wf small hit] by blast
  ultimately have a: "alloc_spec len type ?s bid 0 t" by simp
  then have b: "bid = 1" by (simp add: alloc_spec_def heap_init_mem)
  have "find_blob bid ?s = None" by (simp add: find_blob_def c)
  then have "find_blob bid t = Some 0" using find_blob_fresh [OF a] c by simp
  moreover have "blob_count t = 1" using a c by (simp add: alloc_spec_def)
  ultimately show thesis using that t a b by blast
qed

text \<open>
  \<open>heap_free\<close> leaves the header of the blob in place, so \<open>heap_get_blob\<close> on the released id
  finds it again by scanning, records it in the table over blocks that are free, and a second
  \<open>heap_free\<close> then pushes the free-block counter above the number of blocks there are.
\<close>

theorem heap_free_then_get_resurrects:
  assumes "unat len + 95 < 2 ^ 32" and "unat (blocks_for len) \<le> 15168"
  shows "case heap_alloc len type (heap_init s) of (bid, t) \<Rightarrow>
    hfree (shm (heap_free bid t)) = {..<HEAP_MAX_BLOCKS} \<and>
    (\<exists>v. heap_get_blob bid (heap_free bid t) = Some (Some 0, v) \<and> \<not> heap_wf v \<and>
      unat (heap_free_blocks (shm (heap_free bid v))) = 15168 + unat (blocks_for len))"
proof -
  obtain t where t: "heap_alloc len type (heap_init s) = (1, t)" "heap_wf t"
      "alloc_spec len type (heap_init s) 1 0 t" "find_blob 1 t = Some 0" "blob_count t = 1"
    using alloc_on_fresh_heap [OF assms] by blast
  let ?e = "\<lparr>be_blob_id = 1, be_offset = 0, be_blocks = blocks_for len\<rparr>"
  have c0: "blob_count (heap_init s) = 0" by (simp add: heap_init_def Let_def)
  have e: "blob_table t 0 = ?e" using t(3) c0 by (simp add: alloc_spec_def)
  let ?u = "heap_free 1 t"
  have u: "shm ?u = release ?e (shm t)" "blob_count ?u = 0" "heap_up ?u"
    using t e by (simp_all add: heap_free_unfold drop_entry_def heap_wf_def)
  have wfu: "heap_wf ?u" by (rule heap_free_wf [OF t(2)])
  have er: "entry_range ?e = hrange 0 (blocks_for len)" by (simp add: entry_range_def HEAP_BLOCK_SIZE_def)
  have hfu: "hfree (shm ?u) = {..<HEAP_MAX_BLOCKS}"
    using heap_free_hit(2) [OF t(2,4)] e t(3) by (auto simp: er alloc_spec_def heap_init_mem)
  have hdr: "blob_magic (shm ?u) 0 = BLOB_MAGIC" "blob_id_at (shm ?u) 0 = 1" "blob_size_at (shm ?u) 0 = len"
    using t(3) by (simp_all add: alloc_spec_def u(1) blob_magic_def blob_id_at_def blob_size_at_def
        blob_addr_def IPC_HEAP_DATA_OFFSET_def release_same_header)
  have "cached_blob 1 ?u = None" using u(2) by (simp add: cached_blob_def)
  moreover have "scan_heap 1 (shm ?u) 0 = Some (Some 0)"
    using hdr by (subst scan_heap.simps) (simp add: IPC_HEAP_DATA_SIZE_def)
  ultimately have get: "heap_get_blob 1 ?u = Some (Some 0, record_blob 1 0 (blocks_for len) ?u)"
    using u(3) hdr by (simp add: heap_get_blob_def)
  let ?v = "record_blob 1 0 (blocks_for len) ?u"
  have v: "blob_count ?v = 1" "blob_table ?v 0 = ?e" "shm ?v = shm ?u" "heap_up ?v"
    using u by (simp_all add: record_blob_def MAX_BLOBS_def)
  have "0 \<in> hrange 0 (blocks_for len)"
    using blocks_for_pos [OF assms(1)] by (auto simp: hrange_def word_neq_0_conv)
  then have "\<not> entry_ok (shm ?v) ?e"
    using hfu by (auto simp: entry_ok_def er v HEAP_MAX_BLOCKS_def)
  then have bad: "\<not> heap_wf ?v" using v(1,2) by (auto simp: heap_wf_def)
  have "find_blob 1 ?v = Some 0" using v by (auto simp: find_blob_def wfind_eq_Some_iff)
  then have "shm (heap_free 1 ?v) = release ?e (shm ?u)"
    using v by (simp add: heap_free_unfold drop_entry_def)
  then have "heap_free_blocks (shm (heap_free 1 ?v)) = heap_free_blocks (shm ?u) + blocks_for len"
    by (simp add: heap_free_blocks_release)
  moreover have "unat (heap_free_blocks (shm ?u)) = 15168"
    using wfu hfu by (simp add: heap_wf_def ctl_ok_def card_all_blocks)
  ultimately have "unat (heap_free_blocks (shm (heap_free 1 ?v))) = 15168 + unat (blocks_for len)"
    using assms(2) by (simp add: unat_word_ariths)
  then show ?thesis using t(1) get bad hfu by auto
qed

section \<open>Witnesses\<close>

text \<open>A freshly initialised heap.\<close>

definition boot_window :: ipc_heap where
  "boot_window = \<lparr>tsc = (\<lambda>_. 0), tsc_reads = 0, cpu_mhz = 1000, cycles_per_usec = 1000, boot_tsc = 0,
     fr_buf = (\<lambda>_. \<lparr>te_ts_usec = 0, te_ts_cycles = 0, te_type = 0, te_flags = 0, te_cpu_id = 0,
       te_job_id = 0, te_step_id = 0, te_extra = 0, te_tpm_signature = []\<rparr>),
     fr_head = 0, fr_initialized = False,
     fr_spans = (\<lambda>_. \<lparr>sp_active = False, sp_job_id = 0, sp_step_id = 0, sp_start_cycles = 0,
       sp_start_type = 0\<rparr>), fr_next_span_handle = 1,
     shm = (\<lambda>_. 0), heap_up = False,
     blob_table = (\<lambda>_. \<lparr>be_blob_id = 0, be_offset = 0, be_blocks = 0\<rparr>), blob_count = 0\<rparr>"

lemma small_100: "unat (100 :: u32) + 95 < 2 ^ 32" by simp

lemma blocks_100: "unat (blocks_for 100) = 3"
  by (simp add: unat_blocks_for)

theorem heap_alloc_correct_witness:
  "\<exists>off. alloc_spec 100 7 (heap_init boot_window) (fst (heap_alloc 100 7 (heap_init boot_window))) off
     (snd (heap_alloc 100 7 (heap_init boot_window)))"
proof -
  have "hrange 0 (blocks_for 100) \<subseteq> hfree (shm (heap_init boot_window))"
  proof
    fix q assume "q \<in> hrange 0 (blocks_for 100)"
    then have "unat q < 3" using hrange_mem_iff [of 0 "blocks_for 100" q] by (simp add: blocks_100)
    then show "q \<in> hfree (shm (heap_init boot_window))"
      by (simp add: heap_init_mem HEAP_MAX_BLOCKS_def word_less_nat_alt)
  qed
  then have "\<exists>p :: u32. unat p + unat (blocks_for 100) \<le> 15168 \<and>
      hrange p (blocks_for 100) \<subseteq> hfree (shm (heap_init boot_window))"
    by (intro exI [of _ 0]) (simp add: blocks_100)
  then show ?thesis
    using heap_alloc_correct [OF heap_init_wf [of boot_window] small_100, of 7] by (auto split: prod.splits)
qed


theorem heap_alloc_lookup_free_witness:
  "\<exists>t. heap_alloc 100 7 (heap_init boot_window) = (1, t) \<and>
     (\<exists>off. heap_get_data 1 t = Some (Some (off + 32), t)) \<and>
     hfree (shm (heap_free 1 t)) = hfree (shm (heap_init boot_window))"
proof -
  obtain t where t: "heap_alloc 100 7 (heap_init boot_window) = (1, t)"
    using alloc_on_fresh_heap [OF small_100, of 7 boot_window] blocks_100 by auto
  have "blob_count (heap_init boot_window) = 0" by (simp add: heap_init_def Let_def)
  then show ?thesis
    using heap_alloc_lookup_free [OF heap_init_wf [of boot_window] small_100 t] t by (auto simp: find_blob_def)
qed

theorem heap_free_then_get_resurrects_witness:
  "\<exists>t v. heap_alloc 100 7 (heap_init boot_window) = (1, t) \<and>
     heap_get_blob 1 (heap_free 1 t) = Some (Some 0, v) \<and>
     unat (heap_free_blocks (shm (heap_free 1 v))) = 15171"
proof -
  obtain t where t: "heap_alloc 100 7 (heap_init boot_window) = (1, t)"
    using alloc_on_fresh_heap [OF small_100, of 7 boot_window] blocks_100 by auto
  then show ?thesis
    using heap_free_then_get_resurrects [OF small_100, of 7 boot_window] blocks_100 by auto
qed

text \<open>What a scan of the headers finds is a header of the blob.\<close>

lemma scan_heap_found:
  assumes "scan_heap b m off = Some r"
  shows "\<forall>q. r = Some q \<longrightarrow> blob_magic m q = BLOB_MAGIC \<and> blob_id_at m q = b"
proof (rule scan_heap.raw_induct [of "\<lambda>b m off r. \<forall>q. r = Some q \<longrightarrow> blob_magic m q = BLOB_MAGIC \<and> blob_id_at m q = b", OF _ assms])
  fix f b m off r
  assume "\<And>b m off r. f b m off = Some r \<Longrightarrow> \<forall>q. r = Some q \<longrightarrow> blob_magic m q = BLOB_MAGIC \<and> blob_id_at m q = b"
    and "(if off < IPC_HEAP_DATA_SIZE
      then if blob_magic m off = BLOB_MAGIC
           then if blob_id_at m off = b then Some (Some off)
                else let blocks = blocks_for (blob_size_at m off)
                     in f b m ((if blocks > 1 then off + (blocks - 1) * HEAP_BLOCK_SIZE else off) + HEAP_BLOCK_SIZE)
           else f b m (off + HEAP_BLOCK_SIZE)
      else Some None) = Some r"
  then show "\<forall>q. r = Some q \<longrightarrow> blob_magic m q = BLOB_MAGIC \<and> blob_id_at m q = b"
    by (auto simp: Let_def split: if_splits)
qed

text \<open>A second look-up of a blob finds the same and changes nothing.\<close>

lemma heap_get_blob_again:
  assumes "heap_get_blob b s = Some (r, t)"
  shows "heap_get_blob b t = Some (r, t)" "shm t = shm s"
proof -
  have "heap_get_blob b t = Some (r, t) \<and> shm t = shm s"
  proof (cases "heap_up s \<and> b \<noteq> 0 \<and> cached_blob b s = None \<and> (\<exists>off. scan_heap b (shm s) 0 = Some (Some off))")
    case True
    then obtain off where off: "scan_heap b (shm s) 0 = Some (Some off)" by blast
    have at: "blob_magic (shm s) off = BLOB_MAGIC" "blob_id_at (shm s) off = b" using scan_heap_found [OF off] by auto
    have rt: "r = Some off" "t = record_blob b off (blocks_for (blob_size_at (shm s) off)) s"
      using assms True off by (auto simp: heap_get_blob_def)
    show ?thesis
    proof (cases "blob_count s < MAX_BLOBS")
      case True
      let ?hit = "\<lambda>u i. be_blob_id (blob_table u (unat i)) = b \<and> blob_magic (shm u) (be_offset (blob_table u (unat i))) = BLOB_MAGIC \<and>
        blob_id_at (shm u) (be_offset (blob_table u (unat i))) = b"
      have miss: "\<not> ?hit s i" if "i < blob_count s" for i :: u32
        using that \<open>heap_up s \<and> _\<close> by (auto simp: cached_blob_def wfind_eq_None_iff)
      have up: "blob_count s < blob_count s + 1" using True by (simp add: MAX_BLOBS_def word_less_nat_alt unat_word_ariths)
      have "wfind 0 (blob_count t) (?hit t) = Some (blob_count s)"
        using True up at miss by (auto simp: rt(2) record_blob_def wfind_eq_Some_iff word_less_nat_alt)
      then have "cached_blob b t = Some off" using True by (simp add: cached_blob_def rt(2) record_blob_def)
      then show ?thesis using \<open>heap_up s \<and> _\<close> True rt(1) by (simp add: heap_get_blob_def rt(2) record_blob_def)
    next
      case False
      then show ?thesis using assms rt by (simp add: record_blob_def)
    qed
  next
    case False
    then have "t = s" using assms by (auto simp: heap_get_blob_def split: if_splits option.splits)
    then show ?thesis using assms by simp
  qed
  then show "heap_get_blob b t = Some (r, t)" "shm t = shm s" by auto
qed

end
