(* ===== verification/Ipc_Ring.thy ===== *)
theory Ipc_Ring
  imports Zen_Memory
begin

text \<open>
  The rings of the shared window (\<^verbatim>\<open>kernel/ipc/ipc_proto.h\<close>): a header of eight words (magic,
  producer index, consumer index, number of entries, four reserved) and the entries behind it. The
  command ring, the response ring, the observation ring and the action ring have the same header
  and differ in base, entry type and number of entries. \<open>spsc_ring\<close> is what they share: it holds
  the queue a ring stands for, shows that the enqueue and dequeue sequences of the code refine that
  queue, and that one producer and one consumer may be interleaved between any two memory
  accesses.
\<close>

section \<open>Header fields\<close>

definition ring_magic :: "nat \<Rightarrow> mem \<Rightarrow> u32" where "ring_magic base m = rd32 m base"
definition ring_head :: "nat \<Rightarrow> mem \<Rightarrow> u32" where "ring_head base m = rd32 m (base + 4)"
definition ring_tail :: "nat \<Rightarrow> mem \<Rightarrow> u32" where "ring_tail base m = rd32 m (base + 8)"
definition ring_size :: "nat \<Rightarrow> mem \<Rightarrow> u32" where "ring_size base m = rd32 m (base + 12)"

definition set_ring_magic :: "nat \<Rightarrow> u32 \<Rightarrow> mem \<Rightarrow> mem" where "set_ring_magic base v m = wr32 m base v"
definition set_ring_head :: "nat \<Rightarrow> u32 \<Rightarrow> mem \<Rightarrow> mem" where "set_ring_head base v m = wr32 m (base + 4) v"
definition set_ring_tail :: "nat \<Rightarrow> u32 \<Rightarrow> mem \<Rightarrow> mem" where "set_ring_tail base v m = wr32 m (base + 8) v"
definition set_ring_size :: "nat \<Rightarrow> u32 \<Rightarrow> mem \<Rightarrow> mem" where "set_ring_size base v m = wr32 m (base + 12) v"

definition ring_slot :: "nat \<Rightarrow> nat \<Rightarrow> u32 \<Rightarrow> nat" where "ring_slot base esz i = base + 32 + esz * unat i"

lemmas ring_fields = ring_magic_def ring_head_def ring_tail_def ring_size_def
  set_ring_magic_def set_ring_head_def set_ring_tail_def set_ring_size_def

text \<open>
  \<^verbatim>\<open>(i + 1) % ring->size\<close>. The size is read from the shared window; zero there is a divide error
  (\<open>None\<close>).
\<close>

definition ring_next :: "u32 \<Rightarrow> u32 \<Rightarrow> u32 option" where
  "ring_next i n = (if n = 0 then None else Some ((i + 1) mod n))"

section \<open>The queue\<close>

definition ring_len :: "nat \<Rightarrow> mem \<Rightarrow> nat" where
  "ring_len base m = (unat (ring_head base m) + unat (ring_size base m) - unat (ring_tail base m))
     mod unat (ring_size base m)"

definition ring_idx :: "nat \<Rightarrow> mem \<Rightarrow> nat \<Rightarrow> nat" where
  "ring_idx base m k = (unat (ring_tail base m) + k) mod unat (ring_size base m)"

definition ring_queue :: "(mem \<Rightarrow> nat \<Rightarrow> 'e) \<Rightarrow> nat \<Rightarrow> nat \<Rightarrow> mem \<Rightarrow> 'e list" where
  "ring_queue get base esz m = map (\<lambda>k. get m (base + 32 + esz * ring_idx base m k)) [0..<ring_len base m]"

definition ring_ok :: "nat \<Rightarrow> u32 \<Rightarrow> mem \<Rightarrow> bool" where
  "ring_ok base n m \<longleftrightarrow> ring_size base m = n \<and> ring_head base m < n \<and> ring_tail base m < n"

section \<open>Interleavings\<close>

text \<open>
  The producer reads the indices, fills the slot by any number of stores, and then publishes the
  new head; the consumer reads the indices, copies the slot, and then advances the tail. Each of
  these is one step, and the steps of the two sides come in any order.
\<close>

datatype 'e producer = PIdle | PFilling 'e u32 | PFilled 'e u32
datatype 'e consumer = CIdle | CReading u32 | CCopied 'e u32

record 'e ring_run =
  rr_mem :: mem
  rr_prod :: "'e producer"
  rr_cons :: "'e consumer"
  rr_sent :: "'e list"
  rr_received :: "'e list"

inductive ring_step ::
    "(mem \<Rightarrow> nat \<Rightarrow> 'e \<Rightarrow> mem) \<Rightarrow> (mem \<Rightarrow> nat \<Rightarrow> 'e) \<Rightarrow> nat \<Rightarrow> nat \<Rightarrow> 'e ring_run \<Rightarrow> 'e ring_run \<Rightarrow> bool"
  for put get base esz where
  PCheck: "rr_prod r = PIdle \<Longrightarrow> h = ring_head base (rr_mem r) \<Longrightarrow>
    ring_next h (ring_size base (rr_mem r)) = Some h' \<Longrightarrow> h' \<noteq> ring_tail base (rr_mem r) \<Longrightarrow>
    ring_step put get base esz r (r\<lparr>rr_prod := PFilling e h\<rparr>)"
| PStore: "rr_prod r = PFilling e h \<Longrightarrow>
    \<forall>a. a < ring_slot base esz h \<or> ring_slot base esz h + esz \<le> a \<longrightarrow> m a = rr_mem r a \<Longrightarrow>
    ring_step put get base esz r (r\<lparr>rr_mem := m\<rparr>)"
| PLast: "rr_prod r = PFilling e h \<Longrightarrow>
    ring_step put get base esz r
      (r\<lparr>rr_mem := put (rr_mem r) (ring_slot base esz h) e, rr_prod := PFilled e h\<rparr>)"
| PPublish: "rr_prod r = PFilled e h \<Longrightarrow> ring_next h (ring_size base (rr_mem r)) = Some h' \<Longrightarrow>
    ring_step put get base esz r
      (r\<lparr>rr_mem := set_ring_head base h' (rr_mem r), rr_prod := PIdle, rr_sent := rr_sent r @ [e]\<rparr>)"
| CCheck: "rr_cons r = CIdle \<Longrightarrow> t = ring_tail base (rr_mem r) \<Longrightarrow> t \<noteq> ring_head base (rr_mem r) \<Longrightarrow>
    ring_step put get base esz r (r\<lparr>rr_cons := CReading t\<rparr>)"
| CCopy: "rr_cons r = CReading t \<Longrightarrow>
    ring_step put get base esz r (r\<lparr>rr_cons := CCopied (get (rr_mem r) (ring_slot base esz t)) t\<rparr>)"
| CAdvance: "rr_cons r = CCopied e t \<Longrightarrow> ring_next t (ring_size base (rr_mem r)) = Some t' \<Longrightarrow>
    ring_step put get base esz r
      (r\<lparr>rr_mem := set_ring_tail base t' (rr_mem r), rr_cons := CIdle, rr_received := rr_received r @ [e]\<rparr>)"

section \<open>Index arithmetic\<close>

lemma mod_wrap:
  fixes a n :: nat
  assumes "a < 2 * n"
  shows "a mod n = (if a < n then a else a - n)"
  using assms by (simp add: mod_if)

lemma unat_ring_next:
  assumes "i < n" and "ring_next i n = Some j"
  shows "unat j = (unat i + 1) mod unat n" and "j < n"
proof -
  have n: "n \<noteq> 0" and j: "j = (i + 1) mod n" using assms(2) by (auto simp: ring_next_def split: if_splits)
  show "unat j = (unat i + 1) mod unat n" using unat_Suc_less [OF assms(1)] by (simp add: j unat_mod)
  moreover have "0 < unat n" using n by (simp add: unat_gt_0)
  ultimately show "j < n" by (simp add: word_less_nat_alt)
qed

lemma ring_next_some: "i < n \<Longrightarrow> \<exists>j. ring_next i n = Some j"
  by (auto simp: ring_next_def)

text \<open>Occupied slots, by position in the queue.\<close>

lemma ring_idx_inj:
  fixes t n :: nat
  assumes "t < n" "k < n" "l < n" "(t + k) mod n = (t + l) mod n"
  shows "k = l"
  using assms mod_wrap [of "t + k" n] mod_wrap [of "t + l" n] by (auto split: if_splits)

lemma ring_len_idx:
  fixes h t n :: nat
  assumes "h < n" "t < n"
  shows "(t + (h + n - t) mod n) mod n = h"
  using assms mod_wrap [of "h + n - t" n] mod_wrap [of "t + (h + n - t) mod n" n]
  by (auto split: if_splits)

lemma ring_len_push:
  fixes h t n :: nat
  assumes "h < n" "t < n" "(h + 1) mod n \<noteq> t"
  shows "((h + 1) mod n + n - t) mod n = Suc ((h + n - t) mod n)"
  using assms mod_wrap [of "h + 1" n] mod_wrap [of "h + n - t" n] mod_wrap [of "(h + 1) mod n + n - t" n]
  by (auto split: if_splits)

lemma ring_len_full:
  fixes h t n :: nat
  assumes "h < n" "t < n" "(h + 1) mod n = t"
  shows "(h + n - t) mod n = n - 1"
  using assms mod_wrap [of "h + 1" n] mod_wrap [of "h + n - t" n] by (auto split: if_splits)

lemma ring_len_pop:
  fixes h t n :: nat
  assumes "h < n" "t < n" "h \<noteq> t"
  shows "(h + n - t) mod n = Suc ((h + n - (t + 1) mod n) mod n)"
  using assms mod_wrap [of "t + 1" n] mod_wrap [of "h + n - t" n] mod_wrap [of "h + n - (t + 1) mod n" n]
  by (auto split: if_splits)

lemma ring_len_empty:
  fixes h t n :: nat
  assumes "h < n" "t < n"
  shows "(h + n - t) mod n = 0 \<longleftrightarrow> h = t"
  using assms mod_wrap [of "h + n - t" n] by (auto split: if_splits)

section \<open>The interface\<close>

locale spsc_ring =
  fixes put :: "mem \<Rightarrow> nat \<Rightarrow> 'e \<Rightarrow> mem"
    and get :: "mem \<Rightarrow> nat \<Rightarrow> 'e"
    and base esz :: nat
    and n :: u32
  assumes get_put: "get (put m a e) a = e"
    and put_outside: "b < a \<or> a + esz \<le> b \<Longrightarrow> put m a e b = m b"
    and get_local: "(\<And>b. a \<le> b \<Longrightarrow> b < a + esz \<Longrightarrow> m b = m' b) \<Longrightarrow> get m a = get m' a"
begin

definition queue :: "mem \<Rightarrow> 'e list" where "queue m = ring_queue get base esz m"

text \<open>Only the header and the occupied slots matter to the queue.\<close>

lemma ring_cong:
  assumes "\<And>b. base \<le> b \<Longrightarrow> b < base + 16 \<Longrightarrow> m b = m' b"
  shows "ring_head base m = ring_head base m'" "ring_tail base m = ring_tail base m'"
    "ring_size base m = ring_size base m'" "ring_magic base m = ring_magic base m'"
  unfolding ring_head_def ring_tail_def ring_size_def ring_magic_def
  by (rule rd_cong; use assms in simp)+

lemma queue_frame:
  assumes hdr: "\<And>b. base \<le> b \<Longrightarrow> b < base + 16 \<Longrightarrow> m b = m' b"
    and slots: "\<And>k b. k < ring_len base m \<Longrightarrow> base + 32 + esz * ring_idx base m k \<le> b \<Longrightarrow>
      b < base + 32 + esz * ring_idx base m k + esz \<Longrightarrow> m b = m' b"
  shows "queue m' = queue m" and "ring_ok base n m' = ring_ok base n m"
proof -
  note c = ring_cong [of m m', OF hdr]
  have len: "ring_len base m' = ring_len base m" and idx: "ring_idx base m' k = ring_idx base m k" for k
    by (simp_all add: ring_len_def ring_idx_def c)
  have "get m' (base + 32 + esz * ring_idx base m k) = get m (base + 32 + esz * ring_idx base m k)"
    if "k < ring_len base m" for k
    by (rule get_local) (use slots that in force)
  then show "queue m' = queue m" by (simp add: queue_def ring_queue_def len idx)
  show "ring_ok base n m' = ring_ok base n m" by (simp add: ring_ok_def c)
qed

text \<open>Writes that miss the whole ring.\<close>

lemma queue_far:
  assumes "ring_ok base n m"
    and "\<And>b. base \<le> b \<Longrightarrow> b < base + 32 + esz * unat n \<Longrightarrow> m b = m' b"
  shows "queue m' = queue m" and "ring_ok base n m' = ring_ok base n m"
proof -
  have pos: "0 < unat n" using assms(1) by (auto simp: ring_ok_def word_less_nat_alt)
  have "esz * ring_idx base m k + esz \<le> esz * unat n" for k
  proof -
    have "Suc (ring_idx base m k) \<le> unat n"
      using assms(1) pos by (simp add: ring_idx_def ring_ok_def Suc_le_eq)
    then have "esz * Suc (ring_idx base m k) \<le> esz * unat n" by (rule mult_le_mono2)
    then show ?thesis by simp
  qed
  then have in_ring: "m b = m' b" if "base + 32 + esz * ring_idx base m k \<le> b"
    "b < base + 32 + esz * ring_idx base m k + esz" for k b
  proof -
    have "esz * ring_idx base m k + esz \<le> esz * unat n" by fact
    then show ?thesis using that by (intro assms(2)) linarith+
  qed
  show "queue m' = queue m" and "ring_ok base n m' = ring_ok base n m"
    by (rule queue_frame; use assms(2) in_ring in auto)+
qed

lemma length_queue: "length (queue m) = ring_len base m"
  by (simp add: queue_def ring_queue_def)

lemma nth_queue: "k < ring_len base m \<Longrightarrow> queue m ! k = get m (base + 32 + esz * ring_idx base m k)"
  by (simp add: queue_def ring_queue_def)

lemma ok_nat:
  assumes "ring_ok base n m"
  shows "unat (ring_head base m) < unat n" "unat (ring_tail base m) < unat n" "ring_size base m = n"
  using assms by (simp_all add: ring_ok_def word_less_nat_alt)

lemma empty_iff: "ring_ok base n m \<Longrightarrow> queue m = [] \<longleftrightarrow> ring_head base m = ring_tail base m"
  using ring_len_empty ok_nat [of m]
  by (simp add: length_0_conv [symmetric] length_queue ring_len_def word_unat_eq_iff del: length_0_conv)

lemma full_iff:
  assumes "ring_ok base n m" and "ring_next (ring_head base m) n = Some h'"
  shows "h' = ring_tail base m \<longleftrightarrow> length (queue m) = unat n - 1"
proof -
  note k = ok_nat [OF assms(1)]
  have h': "unat h' = (unat (ring_head base m) + 1) mod unat n"
    using unat_ring_next(1) [OF _ assms(2)] assms(1) by (simp add: ring_ok_def)
  show ?thesis
  proof
    assume "h' = ring_tail base m"
    then show "length (queue m) = unat n - 1"
      using ring_len_full [OF k(1,2)] h' by (simp add: length_queue ring_len_def k(3))
  next
    assume len: "length (queue m) = unat n - 1"
    show "h' = ring_tail base m"
    proof (rule ccontr)
      assume "h' \<noteq> ring_tail base m"
      then have "(unat h' + unat n - unat (ring_tail base m)) mod unat n = unat n"
        using ring_len_push [OF k(1,2)] len k(1) by (simp add: h' word_unat_eq_iff length_queue ring_len_def k(3))
      moreover have "(unat h' + unat n - unat (ring_tail base m)) mod unat n < unat n" using k(1) by simp
      ultimately show False by simp
    qed
  qed
qed

text \<open>The slot at the head is not occupied.\<close>

lemma head_slot_free:
  assumes "ring_ok base n m" and "k < ring_len base m"
  shows "ring_idx base m k \<noteq> unat (ring_head base m)"
proof
  note j = ok_nat [OF assms(1)]
  assume "ring_idx base m k = unat (ring_head base m)"
  then have "ring_idx base m k = ring_idx base m (ring_len base m)"
    using ring_len_idx [OF j(1,2)] by (simp add: ring_idx_def ring_len_def j(3))
  moreover have "ring_len base m < unat n" using j(1) by (simp add: ring_len_def j(3))
  ultimately have "k = ring_len base m"
    using ring_idx_inj [OF j(2), of k "ring_len base m"] assms(2) by (simp add: ring_idx_def j(3))
  then show False using assms(2) by simp
qed

lemma slots_disjoint:
  assumes "i \<noteq> j" and "a + esz * i \<le> b" and "b < a + esz * i + esz"
  shows "b < a + esz * j \<or> a + esz * j + esz \<le> b"
proof (cases "i < j")
  case True
  then have "esz * Suc i \<le> esz * j" by (intro mult_le_mono2) simp
  then show ?thesis using assms by simp
next
  case False
  then have "esz * Suc j \<le> esz * i" using assms(1) by (intro mult_le_mono2) simp
  then show ?thesis using assms by simp
qed

text \<open>Storing an entry into the free slot, publishing it, and taking the oldest one.\<close>

lemma put_invisible:
  assumes ok: "ring_ok base n m"
    and out: "\<And>b. b < ring_slot base esz (ring_head base m) \<or>
      ring_slot base esz (ring_head base m) + esz \<le> b \<Longrightarrow> m b = m' b"
  shows "queue m' = queue m" and "ring_ok base n m' = ring_ok base n m"
    and "ring_head base m' = ring_head base m" and "ring_tail base m' = ring_tail base m"
    and "ring_size base m' = ring_size base m" and "ring_magic base m' = ring_magic base m"
proof -
  have hdr: "m b = m' b" if "b < base + 16" for b
    using that by (intro out) (simp add: ring_slot_def)
  have slot: "m b = m' b" if "k < ring_len base m" "base + 32 + esz * ring_idx base m k \<le> b"
    "b < base + 32 + esz * ring_idx base m k + esz" for k b
    using slots_disjoint [OF head_slot_free [OF ok that(1)] that(2,3)]
    by (intro out) (auto simp: ring_slot_def)
  show "queue m' = queue m" and "ring_ok base n m' = ring_ok base n m"
    by (rule queue_frame; use hdr slot in blast)+
  show "ring_head base m' = ring_head base m" "ring_tail base m' = ring_tail base m"
    "ring_size base m' = ring_size base m" "ring_magic base m' = ring_magic base m"
    using ring_cong [of m m', OF hdr] by simp_all
qed

lemma set_head_fields [simp]:
  "ring_head base (set_ring_head base v m) = v" "ring_tail base (set_ring_head base v m) = ring_tail base m"
  "ring_size base (set_ring_head base v m) = ring_size base m"
  "ring_magic base (set_ring_head base v m) = ring_magic base m"
  "ring_head base (set_ring_tail base v m) = ring_head base m" "ring_tail base (set_ring_tail base v m) = v"
  "ring_size base (set_ring_tail base v m) = ring_size base m"
  "ring_magic base (set_ring_tail base v m) = ring_magic base m"
  by (simp_all add: ring_fields)

lemma get_set_index [simp]:
  "get (set_ring_head base v m) (base + 32 + k) = get m (base + 32 + k)"
  "get (set_ring_tail base v m) (base + 32 + k) = get m (base + 32 + k)"
  by (rule get_local; simp add: ring_fields wr32_outside)+

lemma publish:
  assumes ok: "ring_ok base n m" and h': "ring_next (ring_head base m) n = Some h'"
    and room: "h' \<noteq> ring_tail base m"
    and e: "get m (ring_slot base esz (ring_head base m)) = e"
  shows "queue (set_ring_head base h' m) = queue m @ [e]" and "ring_ok base n (set_ring_head base h' m)"
proof -
  note k = ok_nat [OF ok]
  have u: "unat h' = (unat (ring_head base m) + 1) mod unat n" "h' < n"
    using unat_ring_next [OF _ h'] ok by (simp_all add: ring_ok_def)
  have len: "ring_len base (set_ring_head base h' m) = Suc (ring_len base m)"
    using ring_len_push [OF k(1,2)] room u(1) by (simp add: ring_len_def k(3) word_unat_eq_iff)
  have last: "ring_idx base m (ring_len base m) = unat (ring_head base m)"
    using ring_len_idx [OF k(1,2)] by (simp add: ring_idx_def ring_len_def k(3))
  have idx: "ring_idx base (set_ring_head base h' m) i = ring_idx base m i" for i
    by (simp add: ring_idx_def)
  show "queue (set_ring_head base h' m) = queue m @ [e]"
    using e by (simp add: queue_def ring_queue_def len idx last ring_slot_def)
  show "ring_ok base n (set_ring_head base h' m)" using ok u(2) by (simp add: ring_ok_def)
qed

lemma advance:
  assumes ok: "ring_ok base n m" and ne: "ring_head base m \<noteq> ring_tail base m"
    and t': "ring_next (ring_tail base m) n = Some t'"
  shows "queue m = get m (ring_slot base esz (ring_tail base m)) # queue (set_ring_tail base t' m)"
    and "ring_ok base n (set_ring_tail base t' m)"
proof -
  note k = ok_nat [OF ok]
  have u: "unat t' = (unat (ring_tail base m) + 1) mod unat n" "t' < n"
    using unat_ring_next [OF _ t'] ok by (simp_all add: ring_ok_def)
  have len: "ring_len base m = Suc (ring_len base (set_ring_tail base t' m))"
    using ring_len_pop [OF k(1,2)] ne u(1) by (simp add: ring_len_def k(3) word_unat_eq_iff)
  have idx: "ring_idx base m (Suc i) = ring_idx base (set_ring_tail base t' m) i" for i
    using u(1) by (simp add: ring_idx_def k(3) mod_add_left_eq)
  have first: "ring_idx base m 0 = unat (ring_tail base m)" using k by (simp add: ring_idx_def)
  have "[0..<ring_len base m] = 0 # map Suc [0..<ring_len base (set_ring_tail base t' m)]"
    unfolding len by (simp only: upt_conv_Cons map_Suc_upt zero_less_Suc)
  then show "queue m = get m (ring_slot base esz (ring_tail base m)) # queue (set_ring_tail base t' m)"
    by (simp add: queue_def ring_queue_def first idx ring_slot_def)
  show "ring_ok base n (set_ring_tail base t' m)" using ok u(2) by (simp add: ring_ok_def)
qed

text \<open>The producer's sequence as a whole, and what both sequences leave alone.\<close>

lemma slot_in_ring:
  assumes "ring_ok base n m"
  shows "ring_slot base esz (ring_head base m) + esz \<le> base + 32 + esz * unat n"
proof -
  have "esz * Suc (unat (ring_head base m)) \<le> esz * unat n"
    using ok_nat(1) [OF assms] by (intro mult_le_mono2) simp
  then show ?thesis by (simp add: ring_slot_def)
qed

lemma push:
  fixes m e
  defines "p \<equiv> put m (ring_slot base esz (ring_head base m)) e"
  assumes ok: "ring_ok base n m" and h': "ring_next (ring_head base m) n = Some h'"
    and room: "h' \<noteq> ring_tail base m"
  shows "queue (set_ring_head base h' p) = queue m @ [e]" and "ring_ok base n (set_ring_head base h' p)"
    and "ring_magic base (set_ring_head base h' p) = ring_magic base m"
    and "b < base \<or> base + 32 + esz * unat n \<le> b \<Longrightarrow> set_ring_head base h' p b = m b"
proof -
  note inv = put_invisible [OF ok, of p]
  have out: "m b = p b" if "b < ring_slot base esz (ring_head base m) \<or>
      ring_slot base esz (ring_head base m) + esz \<le> b" for b
    using that by (simp add: p_def put_outside)
  have "get p (ring_slot base esz (ring_head base p)) = e" using inv(3) [OF out] by (simp add: p_def get_put)
  then show "queue (set_ring_head base h' p) = queue m @ [e]" "ring_ok base n (set_ring_head base h' p)"
    using publish [of p h' e] inv [OF out] ok h' room by simp_all
  show "ring_magic base (set_ring_head base h' p) = ring_magic base m" using inv [OF out] by simp
  assume b: "b < base \<or> base + 32 + esz * unat n \<le> b"
  have "p b = m b" by (rule out [symmetric]) (use b slot_in_ring [OF ok] in \<open>auto simp: ring_slot_def\<close>)
  then show "set_ring_head base h' p b = m b" using b by (auto simp: set_ring_head_def wr32_outside)
qed

lemma set_tail_outside:
  "b < base \<or> base + 32 + esz * unat n \<le> b \<Longrightarrow> set_ring_tail base v m b = m b"
  by (auto simp: set_ring_tail_def wr32_outside)

text \<open>Interleaved runs: what was sent is what was received followed by what is queued.\<close>

definition prod_inv :: "'e ring_run \<Rightarrow> bool" where
  "prod_inv r \<longleftrightarrow> (case rr_prod r of PIdle \<Rightarrow> True
     | PFilling e h \<Rightarrow> h = ring_head base (rr_mem r) \<and> length (queue (rr_mem r)) < unat n - 1
     | PFilled e h \<Rightarrow> h = ring_head base (rr_mem r) \<and> length (queue (rr_mem r)) < unat n - 1 \<and>
         get (rr_mem r) (ring_slot base esz h) = e)"

definition cons_inv :: "'e ring_run \<Rightarrow> bool" where
  "cons_inv r \<longleftrightarrow> (case rr_cons r of CIdle \<Rightarrow> True
     | CReading t \<Rightarrow> t = ring_tail base (rr_mem r) \<and> queue (rr_mem r) \<noteq> []
     | CCopied e t \<Rightarrow> t = ring_tail base (rr_mem r) \<and> queue (rr_mem r) \<noteq> [] \<and> hd (queue (rr_mem r)) = e)"

definition run_inv :: "'e ring_run \<Rightarrow> bool" where
  "run_inv r \<longleftrightarrow> ring_ok base n (rr_mem r) \<and> rr_sent r = rr_received r @ queue (rr_mem r) \<and>
     prod_inv r \<and> cons_inv r"

lemma queue_less_full:
  assumes "ring_ok base n m" and "ring_next (ring_head base m) n = Some h'"
  shows "length (queue m) < unat n - 1 \<longleftrightarrow> h' \<noteq> ring_tail base m"
proof -
  have "length (queue m) < unat n" using ok_nat [OF assms(1)] by (simp add: length_queue ring_len_def)
  then show ?thesis using full_iff [OF assms] by auto
qed

lemma hd_queue:
  assumes "ring_ok base n m" and "queue m \<noteq> []"
  shows "hd (queue m) = get m (ring_slot base esz (ring_tail base m))"
proof -
  have ne: "ring_head base m \<noteq> ring_tail base m" using assms empty_iff by auto
  obtain t' where "ring_next (ring_tail base m) n = Some t'"
    using assms(1) ring_next_some [of "ring_tail base m" n] by (auto simp: ring_ok_def)
  from advance(1) [OF assms(1) ne this] show ?thesis by (metis list.sel(1))
qed

lemma run_inv_silent:
  assumes inv: "run_inv r"
    and m: "queue m = queue (rr_mem r)" "ring_ok base n m" "ring_head base m = ring_head base (rr_mem r)"
      "ring_tail base m = ring_tail base (rr_mem r)"
    and prod: "prod_inv (r\<lparr>rr_mem := m, rr_prod := p\<rparr>)"
  shows "run_inv (r\<lparr>rr_mem := m, rr_prod := p\<rparr>)"
  using inv m prod by (auto simp: run_inv_def cons_inv_def split: consumer.splits)

lemma ring_step_inv:
  assumes "ring_step put get base esz r r'" and inv: "run_inv r"
  shows "run_inv r'"
  using assms(1)
proof cases
  case (PCheck h h' e)
  have ok: "ring_ok base n (rr_mem r)" using inv by (simp add: run_inv_def)
  then have "length (queue (rr_mem r)) < unat n - 1"
    using queue_less_full PCheck ok_nat(3) [OF ok] by simp
  then show ?thesis using inv PCheck by (auto simp: run_inv_def prod_inv_def cons_inv_def split: consumer.splits)
next
  case (PStore e h m)
  have ok: "ring_ok base n (rr_mem r)" and h: "h = ring_head base (rr_mem r)"
    using inv PStore by (simp_all add: run_inv_def prod_inv_def)
  note inv' = put_invisible [OF ok, of m]
  have same: "rr_mem r b = m b" if "b < ring_slot base esz (ring_head base (rr_mem r)) \<or>
      ring_slot base esz (ring_head base (rr_mem r)) + esz \<le> b" for b
    using PStore(3) that unfolding h by metis
  have r: "r' = r\<lparr>rr_mem := m, rr_prod := rr_prod r\<rparr>" using PStore(1) by simp
  show ?thesis unfolding r
    by (rule run_inv_silent [OF inv])
       (use inv' [OF same] ok PStore(2) inv in \<open>simp_all add: run_inv_def prod_inv_def\<close>)
next
  case (PLast e h)
  have ok: "ring_ok base n (rr_mem r)" and h: "h = ring_head base (rr_mem r)"
    and room: "length (queue (rr_mem r)) < unat n - 1"
    using inv PLast by (simp_all add: run_inv_def prod_inv_def)
  let ?m = "put (rr_mem r) (ring_slot base esz h) e"
  note inv' = put_invisible [OF ok, of ?m]
  have same: "rr_mem r b = ?m b" if "b < ring_slot base esz (ring_head base (rr_mem r)) \<or>
      ring_slot base esz (ring_head base (rr_mem r)) + esz \<le> b" for b
    using that by (simp add: h put_outside)
  show ?thesis unfolding PLast(1)
    by (rule run_inv_silent [OF inv]) (use inv' [OF same] ok h room in \<open>simp_all add: prod_inv_def get_put\<close>)
next
  case (PPublish e h h')
  have ok: "ring_ok base n (rr_mem r)" and h: "h = ring_head base (rr_mem r)"
    and room: "length (queue (rr_mem r)) < unat n - 1" and e: "get (rr_mem r) (ring_slot base esz h) = e"
    using inv PPublish(2) by (auto simp: run_inv_def prod_inv_def)
  have nx: "ring_next (ring_head base (rr_mem r)) n = Some h'" using PPublish(3) h ok_nat(3) [OF ok] by simp
  have "h' \<noteq> ring_tail base (rr_mem r)" using room queue_less_full [OF ok nx] by simp
  note pub = publish [OF ok nx this e [unfolded h]]
  show ?thesis using inv pub unfolding PPublish(1)
    by (auto simp: run_inv_def prod_inv_def cons_inv_def hd_append split: consumer.splits)
next
  case (CCheck t)
  then show ?thesis using inv empty_iff
    by (auto simp: run_inv_def prod_inv_def cons_inv_def split: producer.splits)
next
  case (CCopy t)
  then show ?thesis using inv hd_queue
    by (auto simp: run_inv_def prod_inv_def cons_inv_def split: producer.splits)
next
  case (CAdvance e t t')
  let ?m = "rr_mem r"
  have ok: "ring_ok base n ?m" and t: "t = ring_tail base ?m" and ne: "queue ?m \<noteq> []" and e: "hd (queue ?m) = e"
    using inv CAdvance by (simp_all add: run_inv_def cons_inv_def)
  have nx: "ring_next (ring_tail base ?m) n = Some t'" using CAdvance(3) t ok_nat(3) [OF ok] by simp
  have "ring_head base ?m \<noteq> ring_tail base ?m" using empty_iff [OF ok] ne by simp
  note adv = advance [OF ok this nx]
  have "queue ?m = e # queue (set_ring_tail base t' ?m)" using adv(1) e by (metis list.sel(1))
  then show ?thesis using inv adv(2) unfolding CAdvance(1)
    by (auto simp: run_inv_def prod_inv_def cons_inv_def ring_slot_def split: producer.splits)
qed

lemma interleaving:
  assumes "(ring_step put get base esz)\<^sup>*\<^sup>* r r'" and "ring_ok base n (rr_mem r)"
    and "rr_prod r = PIdle" "rr_cons r = CIdle" "rr_sent r = queue (rr_mem r)" "rr_received r = []"
  shows "run_inv r'"
proof -
  have "run_inv r" using assms(2-6) by (simp add: run_inv_def prod_inv_def cons_inv_def)
  with assms(1) show ?thesis by (induction rule: rtranclp_induct) (auto intro: ring_step_inv)
qed

end

end
