(* ===== verification/Ipc.thy ===== *)
theory Ipc
  imports Ipc_Heap Ipc_Ring
begin

text \<open>
  The kernel side of the proxy protocol (\<^verbatim>\<open>kernel/ipc/ipc.c\<close>): commands and actions are produced
  into their rings, responses and observations consumed from theirs, and a doorbell block carries
  the notifications. A pointer that \<open>ipc_init\<close>, \<open>ipc_stream_init\<close> or \<open>ipc_mesh_init\<close> sets is a flag.
  Floating-point fields are carried as their 32 bits.
\<close>

section \<open>Protocol\<close>

definition IPC_MAGIC :: u32 where [zconst]: "IPC_MAGIC = 0x51DECA9E"
definition IPC_RSP_MAGIC :: u32 where [zconst]: "IPC_RSP_MAGIC = 0x52535030"
definition IPC_STREAM_MAGIC :: u32 where [zconst]: "IPC_STREAM_MAGIC = 0x5354524D"
definition IPC_DOORBELL_MAGIC :: u32 where [zconst]: "IPC_DOORBELL_MAGIC = 0x444F4F52"
definition MESH_MAGIC :: u32 where [zconst]: "MESH_MAGIC = 0x4D455348"
definition IPC_RING_SIZE :: u32 where [zconst]: "IPC_RING_SIZE = 1024"
definition IPC_OBS_RING_SIZE :: u32 where [zconst]: "IPC_OBS_RING_SIZE = 64"
definition IPC_ACT_RING_SIZE :: u32 where [zconst]: "IPC_ACT_RING_SIZE = 64"
definition IPC_CMD_RING_OFFSET :: nat where [zconst]: "IPC_CMD_RING_OFFSET = 0"
definition IPC_RSP_RING_OFFSET :: nat where [zconst]: "IPC_RSP_RING_OFFSET = 0x8000"
definition IPC_DOORBELL_OFFSET :: nat where [zconst]: "IPC_DOORBELL_OFFSET = 0x10000"
definition IPC_MESH_OFFSET :: nat where [zconst]: "IPC_MESH_OFFSET = 0x10800"
definition IPC_OBS_RING_OFFSET :: nat where [zconst]: "IPC_OBS_RING_OFFSET = 0xFE000"
definition IPC_ACT_RING_OFFSET :: nat where [zconst]: "IPC_ACT_RING_OFFSET = 0xFF000"
definition DOORBELL_FLAG_IRQ_ENABLED :: u32 where [zconst]: "DOORBELL_FLAG_IRQ_ENABLED = 1"
definition DOORBELL_FLAG_PENDING :: u32 where [zconst]: "DOORBELL_FLAG_PENDING = 2"
definition CMD_PING :: u16 where [zconst]: "CMD_PING = 0x0001"
definition CMD_PRINT :: u16 where [zconst]: "CMD_PRINT = 0x0002"
definition CMD_RUN_MODEL :: u16 where [zconst]: "CMD_RUN_MODEL = 0x0010"
definition CMD_ENV_RESET :: u16 where [zconst]: "CMD_ENV_RESET = 0x0100"
definition CMD_ENV_STEP :: u16 where [zconst]: "CMD_ENV_STEP = 0x0101"
definition CMD_IFR_PERSIST :: u16 where [zconst]: "CMD_IFR_PERSIST = 0x0200"
definition CMD_ARB_EPISODE :: u16 where [zconst]: "CMD_ARB_EPISODE = 0x0201"
definition CMD_TELEMETRY_POLL :: u16 where [zconst]: "CMD_TELEMETRY_POLL = 0x0300"
definition RSP_OK :: u16 where [zconst]: "RSP_OK = 0x8000"
definition RSP_ERROR :: u16 where [zconst]: "RSP_ERROR = 0x8001"
definition RSP_BUSY :: u16 where [zconst]: "RSP_BUSY = 0x8002"
definition MES_MAX_NODES :: nat where [zconst]: "MES_MAX_NODES = 8"
definition NODE_STATUS_OFFLINE :: u32 where [zconst]: "NODE_STATUS_OFFLINE = 0"
definition NODE_STATUS_ALIVE :: u32 where [zconst]: "NODE_STATUS_ALIVE = 1"

definition ENV_STEP_PACK :: "u16 \<Rightarrow> u16 \<Rightarrow> u32" where
  "ENV_STEP_PACK action ack_id = push_bit 16 (ucast ack_id) OR (ucast action AND 0xFFFF)"
definition ENV_STEP_UNPACK_ACTION :: "u32 \<Rightarrow> u16" where
  "ENV_STEP_UNPACK_ACTION payload = ucast (payload AND 0xFFFF)"
definition ENV_STEP_UNPACK_ACK :: "u32 \<Rightarrow> u16" where
  "ENV_STEP_UNPACK_ACK payload = ucast (drop_bit 16 payload)"

record ipc_packet =
  pk_cmd :: u16
  pk_flags :: u16
  pk_payload_id :: u32
  pk_timestamp :: u64

record ipc_response =
  rs_status :: u16
  rs_orig_cmd :: u16
  rs_result :: u32
  rs_timestamp :: u64

record action_entry =
  ac_seq :: u32
  ac_action :: u16
  ac_flags :: u16
  ac_ack_seq :: u32
  ac_reserved :: u32

record obs_entry =
  ob_seq :: u32
  ob_obs0 :: u32
  ob_obs1 :: u32
  ob_obs2 :: u32
  ob_obs3 :: u32
  ob_reward :: u32
  ob_done :: u32
  ob_model_id :: u32

definition put_packet :: "mem \<Rightarrow> nat \<Rightarrow> ipc_packet \<Rightarrow> mem" where
  "put_packet m a p =
     wr64 (wr32 (wr16 (wr16 m a (pk_cmd p)) (a + 2) (pk_flags p)) (a + 4) (pk_payload_id p))
       (a + 8) (pk_timestamp p)"
definition get_packet :: "mem \<Rightarrow> nat \<Rightarrow> ipc_packet" where
  "get_packet m a = \<lparr>pk_cmd = rd16 m a, pk_flags = rd16 m (a + 2), pk_payload_id = rd32 m (a + 4),
     pk_timestamp = rd64 m (a + 8)\<rparr>"

definition put_response :: "mem \<Rightarrow> nat \<Rightarrow> ipc_response \<Rightarrow> mem" where
  "put_response m a r =
     wr64 (wr32 (wr16 (wr16 m a (rs_status r)) (a + 2) (rs_orig_cmd r)) (a + 4) (rs_result r))
       (a + 8) (rs_timestamp r)"
definition get_response :: "mem \<Rightarrow> nat \<Rightarrow> ipc_response" where
  "get_response m a = \<lparr>rs_status = rd16 m a, rs_orig_cmd = rd16 m (a + 2), rs_result = rd32 m (a + 4),
     rs_timestamp = rd64 m (a + 8)\<rparr>"

definition put_action :: "mem \<Rightarrow> nat \<Rightarrow> action_entry \<Rightarrow> mem" where
  "put_action m a e =
     wr32 (wr32 (wr16 (wr16 (wr32 m a (ac_seq e)) (a + 4) (ac_action e)) (a + 6) (ac_flags e))
       (a + 8) (ac_ack_seq e)) (a + 12) (ac_reserved e)"
definition get_action :: "mem \<Rightarrow> nat \<Rightarrow> action_entry" where
  "get_action m a = \<lparr>ac_seq = rd32 m a, ac_action = rd16 m (a + 4), ac_flags = rd16 m (a + 6),
     ac_ack_seq = rd32 m (a + 8), ac_reserved = rd32 m (a + 12)\<rparr>"

definition put_obs :: "mem \<Rightarrow> nat \<Rightarrow> obs_entry \<Rightarrow> mem" where
  "put_obs m a e =
     wr32 (wr32 (wr32 (wr32 (wr32 (wr32 (wr32 (wr32 m a (ob_seq e)) (a + 4) (ob_obs0 e)) (a + 8) (ob_obs1 e))
       (a + 12) (ob_obs2 e)) (a + 16) (ob_obs3 e)) (a + 20) (ob_reward e)) (a + 24) (ob_done e))
       (a + 28) (ob_model_id e)"
definition get_obs :: "mem \<Rightarrow> nat \<Rightarrow> obs_entry" where
  "get_obs m a = \<lparr>ob_seq = rd32 m a, ob_obs0 = rd32 m (a + 4), ob_obs1 = rd32 m (a + 8),
     ob_obs2 = rd32 m (a + 12), ob_obs3 = rd32 m (a + 16), ob_reward = rd32 m (a + 20),
     ob_done = rd32 m (a + 24), ob_model_id = rd32 m (a + 28)\<rparr>"

section \<open>State\<close>

record ipc = ipc_heap +
  ipc_up :: bool
  stream_up :: bool
  mesh_up :: bool
  local_node_id :: int
  ipc_irq_line :: "u8 option"
  ipc_irq_count :: u32

text \<open>Doorbell block: the offsets of its fields.\<close>

definition DB_magic :: nat where [zconst]: "DB_magic = 0x10000"
definition DB_version :: nat where [zconst]: "DB_version = 0x10004"
definition DB_cmd_doorbell :: nat where [zconst]: "DB_cmd_doorbell = 0x10008"
definition DB_cmd_flags :: nat where [zconst]: "DB_cmd_flags = 0x1000C"
definition DB_cmd_irq_count :: nat where [zconst]: "DB_cmd_irq_count = 0x10010"
definition DB_rsp_doorbell :: nat where [zconst]: "DB_rsp_doorbell = 0x10014"
definition DB_rsp_flags :: nat where [zconst]: "DB_rsp_flags = 0x10018"
definition DB_rsp_irq_count :: nat where [zconst]: "DB_rsp_irq_count = 0x1001C"
definition DB_cmd_writes :: nat where [zconst]: "DB_cmd_writes = 0x10020"
definition DB_rsp_writes :: nat where [zconst]: "DB_rsp_writes = 0x10024"

text \<open>Mesh table: three words, five reserved ones, eight nodes of 48 bytes.\<close>

definition mesh_node :: "nat \<Rightarrow> nat" where "mesh_node i = IPC_MESH_OFFSET + 32 + 48 * i"
definition node_status :: "nat \<Rightarrow> mem \<Rightarrow> u32" where "node_status i m = rd32 m (mesh_node i + 4)"

section \<open>Initialisation\<close>

definition init_ring :: "nat \<Rightarrow> u32 \<Rightarrow> u32 \<Rightarrow> mem \<Rightarrow> mem" where
  "init_ring base magic n m = set_ring_size base n (set_ring_tail base 0 (set_ring_head base 0 (set_ring_magic base magic m)))"

definition ipc_stream_init :: "'a ipc_scheme \<Rightarrow> 'a ipc_scheme" where
  "ipc_stream_init s =
     (if \<not> ipc_up s then s
      else let m = shm s;
               m = (if ring_magic IPC_OBS_RING_OFFSET m \<noteq> IPC_STREAM_MAGIC
                    then init_ring IPC_OBS_RING_OFFSET IPC_STREAM_MAGIC IPC_OBS_RING_SIZE m else m);
               m = (if ring_magic IPC_ACT_RING_OFFSET m \<noteq> IPC_STREAM_MAGIC
                    then init_ring IPC_ACT_RING_OFFSET IPC_STREAM_MAGIC IPC_ACT_RING_SIZE m else m)
           in s\<lparr>shm := m, stream_up := True\<rparr>)"

definition init_cmd_ring :: "mem \<Rightarrow> mem" where
  "init_cmd_ring m =
     set_ring_magic IPC_CMD_RING_OFFSET IPC_MAGIC
       (set_ring_size IPC_CMD_RING_OFFSET IPC_RING_SIZE
         (set_ring_tail IPC_CMD_RING_OFFSET 0 (set_ring_head IPC_CMD_RING_OFFSET 0 m)))"

definition init_doorbell :: "mem \<Rightarrow> mem" where
  "init_doorbell m =
     (let m = wr32 m DB_magic IPC_DOORBELL_MAGIC;
          m = wr32 m DB_version 1;
          m = wr32 m DB_cmd_doorbell 0;
          m = wr32 m DB_cmd_flags 0;
          m = wr32 m DB_cmd_irq_count 0;
          m = wr32 m DB_rsp_doorbell 0;
          m = wr32 m DB_rsp_flags DOORBELL_FLAG_IRQ_ENABLED;
          m = wr32 m DB_rsp_irq_count 0;
          m = wr32 m DB_cmd_writes 0
      in wr32 m DB_rsp_writes 0)"

definition ipc_init :: "bool \<Rightarrow> u8 \<Rightarrow> 'a ipc_scheme \<Rightarrow> 'a ipc_scheme" where
  "ipc_init base_addr irq s =
     (if \<not> base_addr then s
      else let m = init_cmd_ring (shm s);
               m = init_ring IPC_RSP_RING_OFFSET IPC_RSP_MAGIC IPC_RING_SIZE m;
               m = init_doorbell m;
               s = ipc_stream_init (heap_init (s\<lparr>ipc_up := True, shm := m\<rparr>))
           in if irq > 0 \<and> irq < 16 then s\<lparr>ipc_irq_line := Some irq\<rparr> else s)"

section \<open>Streaming rings\<close>

definition ipc_stream_ready :: "'a ipc_scheme \<Rightarrow> bool" where
  "ipc_stream_ready s \<longleftrightarrow> stream_up s \<and>
     ring_magic IPC_OBS_RING_OFFSET (shm s) = IPC_STREAM_MAGIC \<and>
     ring_magic IPC_ACT_RING_OFFSET (shm s) = IPC_STREAM_MAGIC"

definition ipc_stream_action_push ::
    "u32 \<Rightarrow> u16 \<Rightarrow> u32 \<Rightarrow> 'a ipc_scheme \<Rightarrow> (int \<times> 'a ipc_scheme) option" where
  "ipc_stream_action_push seq action ack_seq s =
     (let B = IPC_ACT_RING_OFFSET; m = shm s
      in if \<not> stream_up s \<or> ring_magic B m \<noteq> IPC_STREAM_MAGIC then Some (- 1, s)
         else let head = ring_head B m
           in case ring_next head (ring_size B m) of
                None \<Rightarrow> None
              | Some nxt \<Rightarrow>
                  if nxt = ring_tail B m then Some (- 1, s)
                  else let m = put_action m (ring_slot B 16 head)
                         \<lparr>ac_seq = seq, ac_action = action, ac_flags = 0, ac_ack_seq = ack_seq, ac_reserved = 0\<rparr>
                       in Some (0, s\<lparr>shm := set_ring_head B nxt m\<rparr>))"

definition ipc_stream_obs_pop :: "'a ipc_scheme \<Rightarrow> (obs_entry option \<times> 'a ipc_scheme) option" where
  "ipc_stream_obs_pop s =
     (let B = IPC_OBS_RING_OFFSET; m = shm s
      in if \<not> stream_up s \<or> ring_magic B m \<noteq> IPC_STREAM_MAGIC then Some (None, s)
         else let tail = ring_tail B m
           in if tail = ring_head B m then Some (None, s)
              else let out = get_obs m (ring_slot B 32 tail)
                in case ring_next tail (ring_size B m) of
                     None \<Rightarrow> None
                   | Some nxt \<Rightarrow> Some (Some out, s\<lparr>shm := set_ring_tail B nxt m\<rparr>))"

section \<open>Mesh\<close>

definition mesh_reset :: "mem \<Rightarrow> mem" where
  "mesh_reset m =
     (let m = wr32 m IPC_MESH_OFFSET MESH_MAGIC;
          m = wr32 m (IPC_MESH_OFFSET + 4) 1;
          m = wr32 m (IPC_MESH_OFFSET + 8) 0
      in fold (\<lambda>i m. wr32 m (mesh_node i + 4) NODE_STATUS_OFFLINE) [0..<MES_MAX_NODES] m)"

definition mesh_claim :: "nat \<Rightarrow> mem \<Rightarrow> mem" where
  "mesh_claim i m =
     (let m = wr32 m (mesh_node i + 4) NODE_STATUS_ALIVE;
          m = wr32 m (mesh_node i) (of_nat i);
          m = wr32 m (mesh_node i + 8) 0;
          m = wr64 m (mesh_node i + 16) 0
      in wr32 m (IPC_MESH_OFFSET + 8) (rd32 m (IPC_MESH_OFFSET + 8) + 1))"

definition ipc_mesh_init :: "'a ipc_scheme \<Rightarrow> 'a ipc_scheme" where
  "ipc_mesh_init s =
     (if \<not> ipc_up s then s
      else let m = (if rd32 (shm s) IPC_MESH_OFFSET \<noteq> MESH_MAGIC then mesh_reset (shm s) else shm s);
               s = s\<lparr>mesh_up := True, shm := m\<rparr>
           in case find (\<lambda>i. node_status i m = NODE_STATUS_OFFLINE) [0..<MES_MAX_NODES] of
                None \<Rightarrow> s
              | Some i \<Rightarrow> s\<lparr>shm := mesh_claim i m, local_node_id := int i\<rparr>)"

definition ipc_mesh_update :: "'a ipc_scheme \<Rightarrow> 'a ipc_scheme" where
  "ipc_mesh_update s =
     (if local_node_id s < 0 \<or> \<not> mesh_up s then s
      else let a = mesh_node (nat (local_node_id s)) + 16
           in s\<lparr>shm := wr64 (shm s) a (rd64 (shm s) a + 1)\<rparr>)"

section \<open>Commands and responses\<close>

definition ring_cmd_doorbell :: "u32 \<Rightarrow> mem \<Rightarrow> mem" where
  "ring_cmd_doorbell head m =
     (let m = wr32 m DB_cmd_doorbell head;
          m = wr32 m DB_cmd_writes (rd32 m DB_cmd_writes + 1)
      in if rd32 m DB_cmd_flags AND DOORBELL_FLAG_IRQ_ENABLED \<noteq> 0
         then let m = wr32 m DB_cmd_flags (rd32 m DB_cmd_flags OR DOORBELL_FLAG_PENDING)
              in wr32 m DB_cmd_irq_count (rd32 m DB_cmd_irq_count + 1)
         else m)"

definition ipc_send_flags ::
    "u16 \<Rightarrow> u32 \<Rightarrow> u16 \<Rightarrow> 'a ipc_scheme \<Rightarrow> (int \<times> 'a ipc_scheme) option" where
  "ipc_send_flags cmd payload flags s =
     (let B = IPC_CMD_RING_OFFSET; m = shm s
      in if \<not> ipc_up s then Some (- 1, s)
         else let head = ring_head B m
           in case ring_next head (ring_size B m) of
                None \<Rightarrow> None
              | Some next_head \<Rightarrow>
                  if next_head = ring_tail B m then Some (- 1, s)
                  else let (now, s) = time_usec s;
                           m = put_packet m (ring_slot B 16 head)
                             \<lparr>pk_cmd = cmd, pk_flags = flags, pk_payload_id = payload, pk_timestamp = now\<rparr>;
                           m = set_ring_head B next_head m
                       in Some (0, s\<lparr>shm := ring_cmd_doorbell next_head m\<rparr>))"

definition ipc_send :: "u16 \<Rightarrow> u32 \<Rightarrow> 'a ipc_scheme \<Rightarrow> (int \<times> 'a ipc_scheme) option" where
  "ipc_send cmd payload s = ipc_send_flags cmd payload 0 s"

definition ipc_has_response :: "'a ipc_scheme \<Rightarrow> bool" where
  "ipc_has_response s \<longleftrightarrow>
     (if \<not> ipc_up s \<or> ring_magic IPC_RSP_RING_OFFSET (shm s) \<noteq> IPC_RSP_MAGIC then False
      else ring_head IPC_RSP_RING_OFFSET (shm s) \<noteq> ring_tail IPC_RSP_RING_OFFSET (shm s))"

text \<open>
  \<open>ipc_poll_response\<close> first spins for up to 5000 pauses; \<open>other\<close> is what the other side does to the
  window during one pause.
\<close>

fun rsp_spin :: "nat \<Rightarrow> (mem \<Rightarrow> mem) \<Rightarrow> mem \<Rightarrow> mem" where
  "rsp_spin 0 other m = m"
| "rsp_spin (Suc k) other m =
     (if ring_head IPC_RSP_RING_OFFSET m \<noteq> ring_tail IPC_RSP_RING_OFFSET m then m
      else rsp_spin k other (other m))"

definition ipc_poll_response ::
    "(mem \<Rightarrow> mem) \<Rightarrow> 'a ipc_scheme \<Rightarrow> (ipc_response option \<times> 'a ipc_scheme) option" where
  "ipc_poll_response other s =
     (let B = IPC_RSP_RING_OFFSET
      in if \<not> ipc_up s \<or> ring_magic B (shm s) \<noteq> IPC_RSP_MAGIC then Some (None, s)
         else let m = rsp_spin 5000 other (shm s); head = ring_head B m; tail = ring_tail B m
           in if head = tail then Some (None, s\<lparr>shm := m\<rparr>)
              else let rsp = get_response m (ring_slot B 16 tail)
                in case ring_next tail (ring_size B m) of
                     None \<Rightarrow> None
                   | Some nxt \<Rightarrow> Some (Some rsp, s\<lparr>shm := set_ring_tail B nxt m\<rparr>))"

definition ring_rsp_doorbell :: "u32 \<Rightarrow> mem \<Rightarrow> mem" where
  "ring_rsp_doorbell head m =
     (let m = wr32 m DB_rsp_doorbell head;
          m = wr32 m DB_rsp_writes (rd32 m DB_rsp_writes + 1)
      in if rd32 m DB_rsp_flags AND DOORBELL_FLAG_IRQ_ENABLED \<noteq> 0
         then let m = wr32 m DB_rsp_flags (rd32 m DB_rsp_flags OR DOORBELL_FLAG_PENDING)
              in wr32 m DB_rsp_irq_count (rd32 m DB_rsp_irq_count + 1)
         else m)"

definition mock_response :: "u16 \<Rightarrow> 'a ipc_scheme \<Rightarrow> 'a ipc_scheme option" where
  "mock_response orig_cmd s =
     (let B = IPC_RSP_RING_OFFSET; m = shm s
      in if ring_magic B m \<noteq> IPC_RSP_MAGIC then Some s
         else let rsp_head = ring_head B m
           in case ring_next rsp_head (ring_size B m) of
                None \<Rightarrow> None
              | Some next_rsp_head \<Rightarrow>
                  if next_rsp_head = ring_tail B m then Some s
                  else let (now, s) = time_usec s;
                           m = put_response m (ring_slot B 16 rsp_head)
                             \<lparr>rs_status = RSP_OK, rs_orig_cmd = orig_cmd, rs_result = 0x12345678, rs_timestamp = now\<rparr>;
                           m = set_ring_head B next_rsp_head m
                       in Some (s\<lparr>shm := ring_rsp_doorbell next_rsp_head m\<rparr>))"

definition ipc_consume_one :: "'a ipc_scheme \<Rightarrow> 'a ipc_scheme option" where
  "ipc_consume_one s =
     (let B = IPC_CMD_RING_OFFSET; m = shm s
      in if \<not> ipc_up s then Some s
         else let head = ring_head B m; tail = ring_tail B m
           in if head = tail then Some s
              else let pkt = get_packet m (ring_slot B 16 tail)
                in case ring_next tail (ring_size B m) of
                     None \<Rightarrow> None
                   | Some nxt \<Rightarrow> mock_response (pk_cmd pkt) (s\<lparr>shm := set_ring_tail B nxt m\<rparr>))"

definition ipc_enable_irq :: "bool \<Rightarrow> 'a ipc_scheme \<Rightarrow> 'a ipc_scheme" where
  "ipc_enable_irq enable s =
     (if \<not> ipc_up s then s
      else let m = shm s; f = rd32 m DB_rsp_flags
           in s\<lparr>shm := wr32 m DB_rsp_flags
                (if enable then f OR DOORBELL_FLAG_IRQ_ENABLED else f AND NOT DOORBELL_FLAG_IRQ_ENABLED)\<rparr>)"

text \<open>The handler's loop ends when a poll comes back empty.\<close>

partial_function (option) drain_responses ::
    "(mem \<Rightarrow> mem) \<Rightarrow> 'a ipc_scheme \<Rightarrow> 'a ipc_scheme option" where
  "drain_responses other s =
     (case ipc_poll_response other s of
        None \<Rightarrow> None
      | Some (None, s) \<Rightarrow> Some s
      | Some (Some _, s) \<Rightarrow> drain_responses other s)"

definition ipc_irq_handler :: "(mem \<Rightarrow> mem) \<Rightarrow> 'a ipc_scheme \<Rightarrow> 'a ipc_scheme option" where
  "ipc_irq_handler other s =
     (let s = s\<lparr>ipc_irq_count := ipc_irq_count s + 1\<rparr>;
          s = (if ipc_up s
               then s\<lparr>shm := wr32 (shm s) DB_rsp_flags (rd32 (shm s) DB_rsp_flags AND NOT DOORBELL_FLAG_PENDING)\<rparr>
               else s)
      in drain_responses other s)"

text \<open>The pending counts of \<open>ipc_dump_debug\<close>.\<close>

definition ring_pending :: "nat \<Rightarrow> mem \<Rightarrow> u32" where
  "ring_pending base m =
     (if ring_head base m \<ge> ring_tail base m then ring_head base m - ring_tail base m
      else ring_size base m - ring_tail base m + ring_head base m)"

section \<open>The four rings\<close>

lemmas wr_outside = wr8_outside wr16_outside wr32_outside wr64_outside

interpretation cmd: spsc_ring put_packet get_packet IPC_CMD_RING_OFFSET 16 IPC_RING_SIZE
  by unfold_locales
     (auto simp: get_packet_def put_packet_def wr_outside intro!: rd_cong)

interpretation rsp: spsc_ring put_response get_response IPC_RSP_RING_OFFSET 16 IPC_RING_SIZE
  by unfold_locales
     (auto simp: get_response_def put_response_def wr_outside intro!: rd_cong)

interpretation act: spsc_ring put_action get_action IPC_ACT_RING_OFFSET 16 IPC_ACT_RING_SIZE
  by unfold_locales
     (auto simp: get_action_def put_action_def wr_outside intro!: rd_cong)

interpretation obs: spsc_ring put_obs get_obs IPC_OBS_RING_OFFSET 32 IPC_OBS_RING_SIZE
  by unfold_locales
     (auto simp: get_obs_def put_obs_def wr_outside intro!: rd_cong)

definition cmd_queue :: "mem \<Rightarrow> ipc_packet list" where
  "cmd_queue = ring_queue get_packet IPC_CMD_RING_OFFSET 16"
definition rsp_queue :: "mem \<Rightarrow> ipc_response list" where
  "rsp_queue = ring_queue get_response IPC_RSP_RING_OFFSET 16"
definition act_queue :: "mem \<Rightarrow> action_entry list" where
  "act_queue = ring_queue get_action IPC_ACT_RING_OFFSET 16"
definition obs_queue :: "mem \<Rightarrow> obs_entry list" where
  "obs_queue = ring_queue get_obs IPC_OBS_RING_OFFSET 32"

lemma queue_abs: "cmd.queue = cmd_queue" "rsp.queue = rsp_queue" "act.queue = act_queue" "obs.queue = obs_queue"
  by (simp_all add: fun_eq_iff cmd.queue_def rsp.queue_def act.queue_def obs.queue_def
      cmd_queue_def rsp_queue_def act_queue_def obs_queue_def)

definition cmd_ok :: "mem \<Rightarrow> bool" where "cmd_ok = ring_ok IPC_CMD_RING_OFFSET IPC_RING_SIZE"
definition rsp_ok :: "mem \<Rightarrow> bool" where
  "rsp_ok m \<longleftrightarrow> ring_ok IPC_RSP_RING_OFFSET IPC_RING_SIZE m \<and> ring_magic IPC_RSP_RING_OFFSET m = IPC_RSP_MAGIC"
definition act_ok :: "mem \<Rightarrow> bool" where
  "act_ok m \<longleftrightarrow> ring_ok IPC_ACT_RING_OFFSET IPC_ACT_RING_SIZE m \<and> ring_magic IPC_ACT_RING_OFFSET m = IPC_STREAM_MAGIC"
definition obs_ok :: "mem \<Rightarrow> bool" where
  "obs_ok m \<longleftrightarrow> ring_ok IPC_OBS_RING_OFFSET IPC_OBS_RING_SIZE m \<and> ring_magic IPC_OBS_RING_OFFSET m = IPC_STREAM_MAGIC"

lemmas ring_oks = cmd_ok_def rsp_ok_def act_ok_def obs_ok_def

text \<open>
  The regions of the window: the rings, the doorbell block, the heap. A change confined to one of
  them is invisible to the others.
\<close>

definition same_on :: "nat \<Rightarrow> nat \<Rightarrow> mem \<Rightarrow> mem \<Rightarrow> bool" where
  "same_on a b m m' \<longleftrightarrow> (\<forall>x. a \<le> x \<longrightarrow> x < b \<longrightarrow> m x = m' x)"

lemma same_onI: "(\<And>x. a \<le> x \<Longrightarrow> x < b \<Longrightarrow> m x = m' x) \<Longrightarrow> same_on a b m m'"
  by (simp add: same_on_def)

lemma cmd_far:
  assumes "same_on 0 0x8000 m m'" and "cmd_ok m"
  shows "cmd_queue m' = cmd_queue m" and "cmd_ok m'"
proof -
  have "m b = m' b" if "b < IPC_CMD_RING_OFFSET + 32 + 16 * unat IPC_RING_SIZE" for b
    using assms(1) that by (simp add: same_on_def IPC_CMD_RING_OFFSET_def IPC_RING_SIZE_def)
  then show "cmd_queue m' = cmd_queue m" and "cmd_ok m'"
    using cmd.queue_far [of m m'] assms(2) by (auto simp: queue_abs cmd_ok_def)
qed

lemma rsp_far:
  assumes "same_on 0x8000 0x10000 m m'" and "rsp_ok m"
  shows "rsp_queue m' = rsp_queue m" and "rsp_ok m'"
proof -
  have "m b = m' b" if "IPC_RSP_RING_OFFSET \<le> b" "b < IPC_RSP_RING_OFFSET + 32 + 16 * unat IPC_RING_SIZE" for b
    using assms(1) that by (simp add: same_on_def IPC_RSP_RING_OFFSET_def IPC_RING_SIZE_def)
  moreover have "ring_magic IPC_RSP_RING_OFFSET m' = ring_magic IPC_RSP_RING_OFFSET m"
    unfolding ring_magic_def by (rule rd_cong) (use assms(1) in \<open>simp add: same_on_def IPC_RSP_RING_OFFSET_def\<close>)
  ultimately show "rsp_queue m' = rsp_queue m" and "rsp_ok m'"
    using rsp.queue_far [of m m'] assms(2) by (auto simp: queue_abs rsp_ok_def)
qed

section \<open>Sending commands\<close>

lemma ring_cmd_doorbell_outside:
  "a < 0x10000 \<or> 0x10028 \<le> a \<Longrightarrow> ring_cmd_doorbell h m a = m a"
  by (auto simp: ring_cmd_doorbell_def Let_def wr32_outside zconst)

lemma ring_cmd_doorbell_fields:
  "rd32 (ring_cmd_doorbell h m) DB_cmd_doorbell = h"
  "rd32 (ring_cmd_doorbell h m) DB_cmd_writes = rd32 m DB_cmd_writes + 1"
  "rd32 m DB_cmd_flags AND DOORBELL_FLAG_IRQ_ENABLED \<noteq> 0 \<Longrightarrow>
     rd32 (ring_cmd_doorbell h m) DB_cmd_flags = rd32 m DB_cmd_flags OR DOORBELL_FLAG_PENDING"
  by (simp_all add: ring_cmd_doorbell_def Let_def zconst)

lemma time_usec_ipc [simp]:
  "shm (snd (time_usec s)) = shm s" "ipc_up (snd (time_usec s)) = ipc_up s"
  by (simp_all add: time_usec_def rdtsc_def)

lemma ring_sizes: "unat IPC_RING_SIZE = 1024" "unat IPC_OBS_RING_SIZE = 64" "unat IPC_ACT_RING_SIZE = 64"
  by (simp_all add: zconst)

lemma ok_next:
  "ring_ok base n m \<Longrightarrow> \<exists>h'. ring_next (ring_head base m) (ring_size base m) = Some h' \<and>
     ring_next (ring_head base m) n = Some h'"
  "ring_ok base n m \<Longrightarrow> \<exists>t'. ring_next (ring_tail base m) (ring_size base m) = Some t' \<and>
     ring_next (ring_tail base m) n = Some t'"
  using ring_next_some [of _ n] by (auto simp: ring_ok_def)

lemma ipc_send_flags_spec:
  assumes up: "ipc_up s" and ok: "cmd_ok (shm s)"
  shows "\<exists>r t. ipc_send_flags cmd payload flags s = Some (r, t) \<and>
    (if length (cmd_queue (shm s)) = 1023 then r = - 1 \<and> t = s
     else r = 0 \<and> cmd_ok (shm t) \<and>
       cmd_queue (shm t) = cmd_queue (shm s) @ [\<lparr>pk_cmd = cmd, pk_flags = flags,
         pk_payload_id = payload, pk_timestamp = fst (time_usec s)\<rparr>] \<and>
       rd32 (shm t) DB_cmd_doorbell = ring_head IPC_CMD_RING_OFFSET (shm t) \<and>
       rd32 (shm t) DB_cmd_writes = rd32 (shm s) DB_cmd_writes + 1 \<and>
       same_on 0x8000 0x10000 (shm s) (shm t) \<and> same_on 0x10028 0x100000 (shm s) (shm t))"
proof -
  let ?B = IPC_CMD_RING_OFFSET and ?m = "shm s"
  obtain now u where u: "time_usec s = (now, u)" by fastforce
  have shm_u: "shm u = ?m" using time_usec_ipc(1) [of s] u by simp
  have ok': "ring_ok ?B IPC_RING_SIZE ?m" using ok by (simp add: cmd_ok_def)
  obtain h' where h': "ring_next (ring_head ?B ?m) (ring_size ?B ?m) = Some h'"
      "ring_next (ring_head ?B ?m) IPC_RING_SIZE = Some h'"
    using ok_next(1) [OF ok'] by blast
  have full: "h' = ring_tail ?B ?m \<longleftrightarrow> length (cmd_queue ?m) = 1023"
    using cmd.full_iff [OF ok' h'(2)] by (simp add: queue_abs ring_sizes)
  show ?thesis
  proof (cases "h' = ring_tail ?B ?m")
    case True
    then show ?thesis using up h' full by (simp add: ipc_send_flags_def Let_def)
  next
    case False
    let ?e = "\<lparr>pk_cmd = cmd, pk_flags = flags, pk_payload_id = payload, pk_timestamp = now\<rparr>"
    let ?p = "set_ring_head ?B h' (put_packet ?m (ring_slot ?B 16 (ring_head ?B ?m)) ?e)"
    note push = cmd.push [where e = ?e, OF ok' h'(2) False]
    have far: "same_on 0 0x8000 ?p (ring_cmd_doorbell h' ?p)"
      by (rule same_onI) (simp add: ring_cmd_doorbell_outside)
    have cok: "cmd_ok ?p" using push(2) by (simp add: cmd_ok_def)
    have p_out: "?p b = ?m b" if "0x8000 \<le> b" for b
      using push(4) [of b] that by (simp add: ring_sizes IPC_CMD_RING_OFFSET_def)
    have send: "ipc_send_flags cmd payload flags s = Some (0, u\<lparr>shm := ring_cmd_doorbell h' ?p\<rparr>)"
      using up h' False u by (simp add: ipc_send_flags_def Let_def)
    have "rd32 ?p DB_cmd_writes = rd32 ?m DB_cmd_writes"
      by (rule rd_cong) (use p_out in \<open>simp add: zconst\<close>)
    moreover have "ring_head ?B (ring_cmd_doorbell h' ?p) = h'"
      using cmd.ring_cong(1) [of ?p "ring_cmd_doorbell h' ?p"] cmd.set_head_fields(1)
      by (simp add: ring_cmd_doorbell_outside IPC_CMD_RING_OFFSET_def)
    moreover have "same_on 0x8000 0x10000 ?m (ring_cmd_doorbell h' ?p)"
      "same_on 0x10028 0x100000 ?m (ring_cmd_doorbell h' ?p)"
      by (rule same_onI; use p_out in \<open>simp add: ring_cmd_doorbell_outside\<close>)+
    ultimately show ?thesis
      using send False full push(1) cmd_far [OF far cok] u
      by (simp add: ring_cmd_doorbell_fields queue_abs)
  qed
qed

lemma ipc_send_flags_frame:
  assumes "ipc_send_flags cmd payload flags s = Some (r, t)"
  shows "ipc_up t = ipc_up s" "ring_magic IPC_CMD_RING_OFFSET (shm t) = ring_magic IPC_CMD_RING_OFFSET (shm s)"
proof -
  have "ring_cmd_doorbell h m a = m a" if "a < 4" for h m a using that by (intro ring_cmd_doorbell_outside) simp
  then have "ring_magic IPC_CMD_RING_OFFSET (ring_cmd_doorbell h m) = ring_magic IPC_CMD_RING_OFFSET m" for h m
    unfolding ring_magic_def by (intro rd_cong) (simp add: IPC_CMD_RING_OFFSET_def)
  moreover have "ring_magic B (put_packet m (ring_slot B 16 k) e) = ring_magic B m" for B m k e
    unfolding ring_magic_def by (intro rd_cong cmd.put_outside) (simp add: ring_slot_def)
  ultimately show "ipc_up t = ipc_up s" "ring_magic IPC_CMD_RING_OFFSET (shm t) = ring_magic IPC_CMD_RING_OFFSET (shm s)"
    using assms time_usec_ipc [of s]
    by (auto simp: ipc_send_flags_def Let_def split_beta split: option.splits if_splits)
qed

text \<open>
  C37: \<open>ipc_send_flags\<close> on a consistent command ring never divides by zero. If 1023 commands are
  queued it returns -1 and changes nothing; otherwise it returns 0, appends exactly the packet of
  the call, stamped with the current time, to the queue, stores the new head in the command
  doorbell, counts the write, and touches neither the response ring nor the heap nor the streaming
  rings.
\<close>

theorem ipc_send_flags_refines:
  assumes up: "ipc_up s" and ok: "cmd_ok (shm s)"
  shows "\<exists>r t. ipc_send_flags cmd payload flags s = Some (r, t) \<and>
    (if length (cmd_queue (shm s)) = 1023 then r = - 1 \<and> t = s
     else r = 0 \<and> cmd_ok (shm t) \<and>
       cmd_queue (shm t) = cmd_queue (shm s) @ [\<lparr>pk_cmd = cmd, pk_flags = flags,
         pk_payload_id = payload, pk_timestamp = fst (time_usec s)\<rparr>] \<and>
       rd32 (shm t) DB_cmd_doorbell = ring_head IPC_CMD_RING_OFFSET (shm t) \<and>
       rd32 (shm t) DB_cmd_writes = rd32 (shm s) DB_cmd_writes + 1 \<and>
       same_on 0x8000 0x10000 (shm s) (shm t) \<and> same_on 0x10028 0x100000 (shm s) (shm t))"
  by (rule ipc_send_flags_spec [OF assms])

section \<open>Receiving responses\<close>

lemma rsp_spin_quiet: "rsp_spin k (\<lambda>m. m) m = m"
  by (induction k) auto

lemma rsp_spin_ready:
  "ring_head IPC_RSP_RING_OFFSET m \<noteq> ring_tail IPC_RSP_RING_OFFSET m \<Longrightarrow> rsp_spin (Suc k) other m = m"
  by simp

lemma poll_response_step:
  assumes "ipc_up s" and ok: "rsp_ok (shm s)" and q: "rsp_queue (shm s) = r # q"
  shows "\<exists>m. ipc_poll_response other s = Some (Some r, s\<lparr>shm := m\<rparr>) \<and> rsp_queue m = q \<and> rsp_ok m \<and>
    same_on 0 0x8000 (shm s) m \<and> same_on 0x10000 0x100000 (shm s) m"
proof -
  let ?B = IPC_RSP_RING_OFFSET and ?m = "shm s"
  have ok': "ring_ok ?B IPC_RING_SIZE ?m" and mg: "ring_magic ?B ?m = IPC_RSP_MAGIC"
    using ok by (simp_all add: rsp_ok_def)
  have ne: "ring_head ?B ?m \<noteq> ring_tail ?B ?m" using rsp.empty_iff [OF ok'] q by (simp add: queue_abs)
  obtain t' where t': "ring_next (ring_tail ?B ?m) (ring_size ?B ?m) = Some t'"
      "ring_next (ring_tail ?B ?m) IPC_RING_SIZE = Some t'"
    using ok_next(2) [OF ok'] by blast
  note adv = rsp.advance [OF ok' ne t'(2)]
  have spin: "rsp_spin 5000 other ?m = ?m"
    using rsp_spin_ready [OF ne, of 4999] by (simp add: numeral_eq_Suc)
  let ?t = "set_ring_tail ?B t' ?m"
  have "ipc_poll_response other s =
      Some (Some (get_response ?m (ring_slot ?B 16 (ring_tail ?B ?m))), s\<lparr>shm := ?t\<rparr>)"
    using assms(1) mg spin ne t' by (simp add: ipc_poll_response_def Let_def)
  moreover have "rsp_ok ?t" using adv(2) mg by (simp add: rsp_ok_def)
  moreover have "same_on 0 0x8000 ?m ?t" "same_on 0x10000 0x100000 ?m ?t"
    using rsp.set_tail_outside [of _ t' ?m] by (auto intro!: same_onI simp: IPC_RSP_RING_OFFSET_def ring_sizes)
  ultimately show ?thesis using adv(1) q by (auto simp: queue_abs)
qed

lemma poll_response_empty:
  assumes "ipc_up s" and "rsp_ok (shm s)" and "rsp_queue (shm s) = []"
  shows "ipc_poll_response (\<lambda>m. m) s = Some (None, s)"
proof -
  have "ring_head IPC_RSP_RING_OFFSET (shm s) = ring_tail IPC_RSP_RING_OFFSET (shm s)"
    using rsp.empty_iff [of "shm s"] assms by (simp add: queue_abs rsp_ok_def)
  then show ?thesis using assms by (simp add: ipc_poll_response_def rsp_spin_quiet Let_def rsp_ok_def)
qed

text \<open>
  \<open>ipc_poll_response\<close> takes the oldest response off the ring, whatever the other side does while
  it spins, and with an empty ring and a silent other side it gives up after its spin and changes
  nothing; it touches neither the command ring nor the doorbell, the heap and the streaming rings.
\<close>

theorem ipc_poll_response_refines:
  assumes "ipc_up s" and "rsp_ok (shm s)"
  shows "case rsp_queue (shm s) of
      [] \<Rightarrow> ipc_poll_response (\<lambda>m. m) s = Some (None, s)
    | r # q \<Rightarrow> \<exists>t. ipc_poll_response other s = Some (Some r, t) \<and> rsp_queue (shm t) = q \<and> rsp_ok (shm t) \<and>
        same_on 0 0x8000 (shm s) (shm t) \<and> same_on 0x10000 0x100000 (shm s) (shm t)"
proof (cases "rsp_queue (shm s)")
  case Nil
  then show ?thesis using poll_response_empty [OF assms] by simp
next
  case (Cons r q)
  then show ?thesis using poll_response_step [OF assms Cons, of other] by auto
qed

lemma drain_terminates:
  assumes "ipc_up s" and "rsp_ok (shm s)"
  shows "\<exists>m. drain_responses (\<lambda>m. m) s = Some (s\<lparr>shm := m\<rparr>) \<and> rsp_queue m = [] \<and> rsp_ok m \<and>
    same_on 0 0x8000 (shm s) m \<and> same_on 0x10000 0x100000 (shm s) m"
  using assms
proof (induction "rsp_queue (shm s)" arbitrary: s)
  case Nil
  then have "drain_responses (\<lambda>m. m) s = Some s"
    using poll_response_empty [OF Nil.prems] by (subst drain_responses.simps) simp
  then show ?case using Nil by (intro exI [of _ "shm s"]) (simp add: same_on_def)
next
  case (Cons r q)
  obtain u where u: "ipc_poll_response (\<lambda>m. m) s = Some (Some r, s\<lparr>shm := u\<rparr>)" "rsp_queue u = q" "rsp_ok u"
      "same_on 0 0x8000 (shm s) u" "same_on 0x10000 0x100000 (shm s) u"
    using poll_response_step [OF Cons.prems Cons.hyps(2) [symmetric], of "\<lambda>m. m"] by blast
  obtain m where m: "drain_responses (\<lambda>m. m) (s\<lparr>shm := u\<rparr>) = Some (s\<lparr>shm := m\<rparr>)" "rsp_queue m = []"
      "rsp_ok m" "same_on 0 0x8000 u m" "same_on 0x10000 0x100000 u m"
    using Cons.hyps(1) [of "s\<lparr>shm := u\<rparr>"] Cons.prems(1) u(2,3) by auto
  have "drain_responses (\<lambda>m. m) s = Some (s\<lparr>shm := m\<rparr>)"
    using u(1) m(1) by (subst drain_responses.simps) simp
  then show ?case using m u(4,5) by (intro exI [of _ m]) (simp add: same_on_def)
qed

text \<open>
  With a consistent response ring and a silent other side the interrupt handler returns: its
  loop ends, the response queue is empty, the pending flag of the response doorbell is clear, the
  interrupt is counted, and the command ring keeps its queue.
\<close>

theorem ipc_irq_handler_drains:
  assumes up: "ipc_up s" and ok: "rsp_ok (shm s)" and cok: "cmd_ok (shm s)"
  shows "\<exists>t. ipc_irq_handler (\<lambda>m. m) s = Some t \<and> rsp_queue (shm t) = [] \<and> rsp_ok (shm t) \<and>
    rd32 (shm t) DB_rsp_flags = rd32 (shm s) DB_rsp_flags AND NOT DOORBELL_FLAG_PENDING \<and>
    ipc_irq_count t = ipc_irq_count s + 1 \<and> cmd_queue (shm t) = cmd_queue (shm s) \<and> cmd_ok (shm t)"
proof -
  let ?f = "rd32 (shm s) DB_rsp_flags AND NOT DOORBELL_FLAG_PENDING"
  let ?m = "wr32 (shm s) DB_rsp_flags ?f"
  let ?s = "s\<lparr>ipc_irq_count := ipc_irq_count s + 1, shm := ?m\<rparr>"
  have far: "same_on 0 0x8000 (shm s) ?m" "same_on 0x8000 0x10000 (shm s) ?m"
    by (auto intro!: same_onI simp: wr32_outside DB_rsp_flags_def)
  have mok: "rsp_ok ?m" by (rule rsp_far(2) [OF far(2) ok])
  obtain m where m: "drain_responses (\<lambda>m. m) ?s = Some (?s\<lparr>shm := m\<rparr>)" "rsp_queue m = []" "rsp_ok m"
      "same_on 0 0x8000 ?m m" "same_on 0x10000 0x100000 ?m m"
    using drain_terminates [of ?s] up mok by auto
  have "rd32 m DB_rsp_flags = rd32 ?m DB_rsp_flags"
    by (rule rd_cong) (use m(5) in \<open>simp add: same_on_def DB_rsp_flags_def\<close>)
  moreover have "same_on 0 0x8000 (shm s) m" using far(1) m(4) by (simp add: same_on_def)
  note cmd_far [OF this cok]
  moreover have "ipc_irq_handler (\<lambda>m. m) s = Some (?s\<lparr>shm := m\<rparr>)"
    using m(1) up by (simp add: ipc_irq_handler_def Let_def)
  ultimately show ?thesis using m(2,3) by simp
qed

section \<open>Streaming rings\<close>

text \<open>
  On consistent streaming rings, \<open>ipc_stream_action_push\<close> appends exactly the given action or,
  with 63 actions queued, returns -1 and changes nothing; \<open>ipc_stream_obs_pop\<close> removes and returns
  the oldest observation, or nothing if there is none.
\<close>

theorem ipc_stream_refines:
  assumes up: "stream_up s" and aok: "act_ok (shm s)" and ook: "obs_ok (shm s)"
  shows "\<exists>r t u. ipc_stream_action_push seq action ack_seq s = Some (r, t) \<and>
    (if length (act_queue (shm s)) = 63 then r = - 1 \<and> t = s
     else r = 0 \<and> act_ok (shm t) \<and> act_queue (shm t) = act_queue (shm s) @
       [\<lparr>ac_seq = seq, ac_action = action, ac_flags = 0, ac_ack_seq = ack_seq, ac_reserved = 0\<rparr>]) \<and>
    (case obs_queue (shm s) of [] \<Rightarrow> ipc_stream_obs_pop s = Some (None, s)
     | e # q \<Rightarrow> ipc_stream_obs_pop s = Some (Some e, u) \<and> obs_queue (shm u) = q \<and> obs_ok (shm u))"
proof -
  let ?A = IPC_ACT_RING_OFFSET and ?O = IPC_OBS_RING_OFFSET and ?m = "shm s"
  let ?e = "\<lparr>ac_seq = seq, ac_action = action, ac_flags = 0, ac_ack_seq = ack_seq, ac_reserved = 0\<rparr>"
  have ok: "ring_ok ?A IPC_ACT_RING_SIZE ?m" "ring_ok ?O IPC_OBS_RING_SIZE ?m"
    and mg: "ring_magic ?A ?m = IPC_STREAM_MAGIC" "ring_magic ?O ?m = IPC_STREAM_MAGIC"
    using aok ook by (simp_all add: act_ok_def obs_ok_def)
  obtain h' where h': "ring_next (ring_head ?A ?m) (ring_size ?A ?m) = Some h'"
      "ring_next (ring_head ?A ?m) IPC_ACT_RING_SIZE = Some h'"
    using ok_next(1) [OF ok(1)] by blast
  obtain t' where t': "ring_next (ring_tail ?O ?m) (ring_size ?O ?m) = Some t'"
      "ring_next (ring_tail ?O ?m) IPC_OBS_RING_SIZE = Some t'"
    using ok_next(2) [OF ok(2)] by blast
  have full: "h' = ring_tail ?A ?m \<longleftrightarrow> length (act_queue ?m) = 63"
    using act.full_iff [OF ok(1) h'(2)] by (simp add: queue_abs ring_sizes)
  have push: "\<exists>r t. ipc_stream_action_push seq action ack_seq s = Some (r, t) \<and>
    (if length (act_queue ?m) = 63 then r = - 1 \<and> t = s
     else r = 0 \<and> act_ok (shm t) \<and> act_queue (shm t) = act_queue ?m @ [?e])"
  proof (cases "h' = ring_tail ?A ?m")
    case True
    then show ?thesis using up mg h' full by (simp add: ipc_stream_action_push_def Let_def)
  next
    case False
    then show ?thesis using act.push [where e = ?e, OF ok(1) h'(2) False] up mg h' full
      by (simp add: ipc_stream_action_push_def Let_def act_ok_def queue_abs)
  qed
  have pop: "\<exists>u. case obs_queue ?m of [] \<Rightarrow> ipc_stream_obs_pop s = Some (None, s)
     | e # q \<Rightarrow> ipc_stream_obs_pop s = Some (Some e, u) \<and> obs_queue (shm u) = q \<and> obs_ok (shm u)"
  proof (cases "obs_queue ?m")
    case Nil
    then have "ring_head ?O ?m = ring_tail ?O ?m" using obs.empty_iff [OF ok(2)] by (simp add: queue_abs)
    then show ?thesis using Nil up mg by (simp add: ipc_stream_obs_pop_def Let_def)
  next
    case (Cons e q)
    then have ne: "ring_head ?O ?m \<noteq> ring_tail ?O ?m" using obs.empty_iff [OF ok(2)] by (simp add: queue_abs)
    note adv = obs.advance [OF ok(2) ne t'(2)]
    have "ipc_stream_obs_pop s = Some (Some e, s\<lparr>shm := set_ring_tail ?O t' ?m\<rparr>)"
      using up mg ne t' adv(1) Cons by (simp add: ipc_stream_obs_pop_def Let_def queue_abs)
    then show ?thesis using adv Cons mg by (auto simp: queue_abs obs_ok_def)
  qed
  from push pop show ?thesis by blast
qed

section \<open>One producer, one consumer\<close>


text \<open>
  The producer of those interleavings is \<open>ipc_send_flags\<close>: a successful call, up to its doorbell
  writes, is a run of producer steps that publishes the packet of the call.
\<close>

theorem ipc_send_flags_is_producer:
  assumes "ipc_up s" and ok: "cmd_ok (shm s)" and send: "ipc_send_flags cmd payload flags s = Some (0, t)"
    and r: "rr_mem r = shm s" "rr_prod r = PIdle"
  shows "\<exists>m. (ring_step put_packet get_packet IPC_CMD_RING_OFFSET 16)\<^sup>*\<^sup>* r
      (r\<lparr>rr_mem := m, rr_prod := PIdle, rr_sent := rr_sent r @
        [\<lparr>pk_cmd = cmd, pk_flags = flags, pk_payload_id = payload, pk_timestamp = fst (time_usec s)\<rparr>]\<rparr>) \<and>
    shm t = ring_cmd_doorbell (ring_head IPC_CMD_RING_OFFSET m) m"
proof -
  let ?B = IPC_CMD_RING_OFFSET and ?m = "shm s"
  let ?R = "ring_step put_packet get_packet ?B 16"
  obtain now u where u: "time_usec s = (now, u)" by fastforce
  let ?e = "\<lparr>pk_cmd = cmd, pk_flags = flags, pk_payload_id = payload, pk_timestamp = now\<rparr>"
  have ok': "ring_ok ?B IPC_RING_SIZE ?m" using ok by (simp add: cmd_ok_def)
  obtain h' where h': "ring_next (ring_head ?B ?m) (ring_size ?B ?m) = Some h'"
      "ring_next (ring_head ?B ?m) IPC_RING_SIZE = Some h'"
    using ok_next(1) [OF ok'] by blast
  have room: "h' \<noteq> ring_tail ?B ?m"
    using send assms(1) h'(1) by (auto simp: ipc_send_flags_def Let_def split: if_splits)
  let ?slot = "ring_slot ?B 16 (ring_head ?B ?m)"
  let ?p = "put_packet ?m ?slot ?e"
  have size_p: "ring_size ?B ?p = ring_size ?B ?m"
    by (rule cmd.put_invisible(5) [OF ok']) (auto simp: cmd.put_outside)
  define r1 where "r1 = r\<lparr>rr_prod := PFilling ?e (ring_head ?B ?m)\<rparr>"
  define r2 where "r2 = r1\<lparr>rr_mem := ?p, rr_prod := PFilled ?e (ring_head ?B ?m)\<rparr>"
  have "?R r r1" unfolding r1_def by (rule ring_step.PCheck) (use r h'(1) room in simp_all)
  moreover have "?R r1 r2"
    using ring_step.PLast [of r1 ?e "ring_head ?B ?m" put_packet get_packet ?B 16] r
    by (simp add: r1_def r2_def)
  moreover have "?R r2 (r2\<lparr>rr_mem := set_ring_head ?B h' (rr_mem r2), rr_prod := PIdle, rr_sent := rr_sent r2 @ [?e]\<rparr>)"
    by (rule ring_step.PPublish) (use h'(1) size_p in \<open>simp_all add: r1_def r2_def\<close>)
  ultimately have run: "?R\<^sup>*\<^sup>* r (r2\<lparr>rr_mem := set_ring_head ?B h' (rr_mem r2), rr_prod := PIdle, rr_sent := rr_sent r2 @ [?e]\<rparr>)"
    by (meson converse_rtranclp_into_rtranclp rtranclp.rtrancl_refl)
  have "shm t = ring_cmd_doorbell h' (set_ring_head ?B h' ?p)"
    using send assms(1) h'(1) room u by (auto simp: ipc_send_flags_def Let_def)
  moreover have "ring_head ?B (set_ring_head ?B h' ?p) = h'" by (rule cmd.set_head_fields(1))
  ultimately show ?thesis using run u
    by (intro exI [of _ "set_ring_head ?B h' ?p"]) (simp add: r1_def r2_def)
qed

section \<open>After initialisation\<close>

lemma ring_same:
  assumes "same_on base (base + 16) m m'"
  shows "ring_head base m' = ring_head base m" "ring_tail base m' = ring_tail base m"
    "ring_size base m' = ring_size base m" "ring_magic base m' = ring_magic base m"
  unfolding ring_head_def ring_tail_def ring_size_def ring_magic_def
  by (rule rd_cong; use assms in \<open>simp add: same_on_def\<close>)+

lemma heap_init_outside: "a < 0x10100 \<or> 0x10888 \<le> a \<Longrightarrow> shm (heap_init s) a = shm s a"
  by (auto simp: heap_init_def Let_def wfor_zero_bytes wr32_outside HEAP_BITMAP_def HEAP_BITMAP_SIZE_def
      IPC_HEAP_CTL_OFFSET_def)

lemma init_ring_fields:
  "ring_head base (init_ring base g n m) = 0" "ring_tail base (init_ring base g n m) = 0"
  "ring_size base (init_ring base g n m) = n" "ring_magic base (init_ring base g n m) = g"
  by (simp_all add: init_ring_def ring_fields)

lemma init_ring_outside: "a < base \<or> base + 16 \<le> a \<Longrightarrow> init_ring base g n m a = m a"
  by (auto simp: init_ring_def ring_fields wr32_outside)

lemma init_doorbell_outside: "a < 0x10000 \<or> 0x10028 \<le> a \<Longrightarrow> init_doorbell m a = m a"
  by (auto simp: init_doorbell_def Let_def zconst wr32_outside)

lemma ipc_stream_init_mem:
  assumes "ipc_up s"
  shows "a < 0xFE000 \<Longrightarrow> shm (ipc_stream_init s) a = shm s a"
    and "ipc_stream_ready (ipc_stream_init s)"
    and "ring_magic IPC_OBS_RING_OFFSET (shm s) \<noteq> IPC_STREAM_MAGIC \<Longrightarrow>
      obs_ok (shm (ipc_stream_init s)) \<and> obs_queue (shm (ipc_stream_init s)) = []"
    and "ring_magic IPC_ACT_RING_OFFSET (shm s) \<noteq> IPC_STREAM_MAGIC \<Longrightarrow>
      act_ok (shm (ipc_stream_init s)) \<and> act_queue (shm (ipc_stream_init s)) = []"
proof -
  let ?O = IPC_OBS_RING_OFFSET and ?A = IPC_ACT_RING_OFFSET
  let ?m1 = "if ring_magic ?O (shm s) \<noteq> IPC_STREAM_MAGIC
    then init_ring ?O IPC_STREAM_MAGIC IPC_OBS_RING_SIZE (shm s) else shm s"
  let ?m2 = "if ring_magic ?A ?m1 \<noteq> IPC_STREAM_MAGIC
    then init_ring ?A IPC_STREAM_MAGIC IPC_ACT_RING_SIZE ?m1 else ?m1"
  have m: "shm (ipc_stream_init s) = ?m2" and up: "stream_up (ipc_stream_init s)"
    using assms by (simp_all add: ipc_stream_init_def Let_def)
  have "same_on ?A (?A + 16) (shm s) ?m1"
    by (rule same_onI) (simp add: init_ring_outside IPC_OBS_RING_OFFSET_def IPC_ACT_RING_OFFSET_def)
  note a1 = ring_same [OF this]
  have "same_on ?O (?O + 16) ?m1 ?m2"
    by (rule same_onI) (simp add: init_ring_outside IPC_OBS_RING_OFFSET_def IPC_ACT_RING_OFFSET_def)
  note o2 = ring_same [OF this]
  show "a < 0xFE000 \<Longrightarrow> shm (ipc_stream_init s) a = shm s a"
    by (simp add: m init_ring_outside IPC_OBS_RING_OFFSET_def IPC_ACT_RING_OFFSET_def)
  show "ipc_stream_ready (ipc_stream_init s)"
    unfolding ipc_stream_ready_def m using up o2(4) by (simp add: init_ring_fields)
  show "obs_ok (shm (ipc_stream_init s)) \<and> obs_queue (shm (ipc_stream_init s)) = []"
    if "ring_magic ?O (shm s) \<noteq> IPC_STREAM_MAGIC"
    unfolding m using that o2
    by (simp add: obs_ok_def ring_ok_def obs_queue_def ring_queue_def ring_len_def init_ring_fields
        IPC_OBS_RING_SIZE_def)
  show "act_ok (shm (ipc_stream_init s)) \<and> act_queue (shm (ipc_stream_init s)) = []"
    if "ring_magic ?A (shm s) \<noteq> IPC_STREAM_MAGIC"
    unfolding m using that a1
    by (simp add: act_ok_def ring_ok_def act_queue_def ring_queue_def ring_len_def init_ring_fields
        IPC_ACT_RING_SIZE_def)
qed

lemma heap_wf_far:
  assumes "heap_wf s" and "same_on 0x10100 0x10888 (shm s) m"
  shows "heap_wf (s\<lparr>shm := m\<rparr>)"
proof (rule heap_wf_shm [OF _ _ assms(1)])
  show hf: "hfree m = hfree (shm s)" by (rule hfree_cong) (use assms(2) in \<open>simp add: same_on_def\<close>)
  have "heap_magic m = heap_magic (shm s)" "heap_total_blocks m = heap_total_blocks (shm s)"
    "heap_free_blocks m = heap_free_blocks (shm s)"
    unfolding ctl_reads by (rule rd_cong; use assms(2) in \<open>simp add: same_on_def\<close>)+
  then show "ctl_ok m" using assms(1) hf by (simp add: heap_wf_def ctl_ok_def)
qed

text \<open>The window just before the streaming rings are set up.\<close>

definition boot_rings :: "mem \<Rightarrow> mem" where
  "boot_rings m = init_doorbell (init_ring IPC_RSP_RING_OFFSET IPC_RSP_MAGIC IPC_RING_SIZE (init_cmd_ring m))"

lemma boot_rings_ok:
  "cmd_ok (boot_rings m)" "cmd_queue (boot_rings m) = []" "rsp_ok (boot_rings m)" "rsp_queue (boot_rings m) = []"
proof -
  let ?r = "init_ring IPC_RSP_RING_OFFSET IPC_RSP_MAGIC IPC_RING_SIZE (init_cmd_ring m)"
  have "same_on 0 0x10000 ?r (boot_rings m)"
    by (rule same_onI) (simp add: boot_rings_def init_doorbell_outside)
  then have d: "same_on IPC_RSP_RING_OFFSET (IPC_RSP_RING_OFFSET + 16) ?r (boot_rings m)"
    "same_on IPC_CMD_RING_OFFSET (IPC_CMD_RING_OFFSET + 16) ?r (boot_rings m)"
    by (simp_all add: same_on_def IPC_RSP_RING_OFFSET_def IPC_CMD_RING_OFFSET_def)
  have "same_on IPC_CMD_RING_OFFSET (IPC_CMD_RING_OFFSET + 16) (init_cmd_ring m) ?r"
    by (rule same_onI) (simp add: init_ring_outside IPC_RSP_RING_OFFSET_def IPC_CMD_RING_OFFSET_def)
  note c = ring_same [OF this] ring_same [OF d(2)]
  have "ring_head IPC_CMD_RING_OFFSET (init_cmd_ring m) = 0" "ring_tail IPC_CMD_RING_OFFSET (init_cmd_ring m) = 0"
    "ring_size IPC_CMD_RING_OFFSET (init_cmd_ring m) = IPC_RING_SIZE"
    by (simp_all add: init_cmd_ring_def ring_fields)
  then show "cmd_ok (boot_rings m)" "cmd_queue (boot_rings m) = []"
    using c by (simp_all add: cmd_ok_def ring_ok_def cmd_queue_def ring_queue_def ring_len_def IPC_RING_SIZE_def)
  show "rsp_ok (boot_rings m)" "rsp_queue (boot_rings m) = []"
    using ring_same [OF d(1)]
    by (simp_all add: rsp_ok_def ring_ok_def rsp_queue_def ring_queue_def ring_len_def init_ring_fields IPC_RING_SIZE_def)
qed

lemma heap_init_sel [simp]: "ipc_up (heap_init s) = ipc_up s"
  by (simp add: heap_init_def Let_def)

lemma ipc_init_split:
  "\<exists>s0 l. shm s0 = boot_rings (shm s) \<and> ipc_up (heap_init s0) \<and>
     ipc_init True irq s = (ipc_stream_init (heap_init s0))\<lparr>ipc_irq_line := l\<rparr> \<and>
     l = (if irq > 0 \<and> irq < 16 then Some irq else ipc_irq_line (ipc_stream_init (heap_init s0)))"
proof -
  let ?s0 = "s\<lparr>ipc_up := True, shm := boot_rings (shm s)\<rparr>"
  show ?thesis
    by (rule exI [of _ ?s0], rule exI [of _ "if irq > 0 \<and> irq < 16 then Some irq
         else ipc_irq_line (ipc_stream_init (heap_init ?s0))"])
       (simp add: ipc_init_def boot_rings_def Let_def)
qed

lemma ipc_stream_init_eq: "ipc_stream_init s = s\<lparr>shm := shm (ipc_stream_init s), stream_up := stream_up (ipc_stream_init s)\<rparr>"
  by (simp add: ipc_stream_init_def Let_def)

lemma heap_wf_sel [simp]: "heap_wf (s\<lparr>stream_up := b\<rparr>) = heap_wf s" "heap_wf (s\<lparr>ipc_irq_line := l\<rparr>) = heap_wf s"
  by (simp_all add: heap_wf_def)

lemma ipc_init_facts:
  fixes s :: "'a ipc_scheme" and irq :: u8
  defines "t \<equiv> ipc_init True irq s"
  shows "cmd_ok (shm t) \<and> cmd_queue (shm t) = [] \<and> rsp_ok (shm t) \<and> rsp_queue (shm t) = [] \<and>
    heap_wf t \<and> hfree (shm t) = {..<HEAP_MAX_BLOCKS} \<and> ipc_stream_ready t \<and>
    (irq > 0 \<and> irq < 16 \<longrightarrow> ipc_irq_line t = Some irq) \<and>
    (ring_magic IPC_OBS_RING_OFFSET (shm s) \<noteq> IPC_STREAM_MAGIC \<longrightarrow> obs_ok (shm t) \<and> obs_queue (shm t) = []) \<and>
    (ring_magic IPC_ACT_RING_OFFSET (shm s) \<noteq> IPC_STREAM_MAGIC \<longrightarrow> act_ok (shm t) \<and> act_queue (shm t) = [])"
proof -
  obtain s0 l where s0: "shm s0 = boot_rings (shm s)" "ipc_up (heap_init s0)"
      "t = (ipc_stream_init (heap_init s0))\<lparr>ipc_irq_line := l\<rparr>" "irq > 0 \<and> irq < 16 \<longrightarrow> l = Some irq"
    using ipc_init_split [of s irq] by (auto simp: t_def)
  let ?h = "heap_init s0"
  note st = ipc_stream_init_mem [OF s0(2)]
  have shm_t: "shm t = shm (ipc_stream_init ?h)" using s0(3) by simp
  have low: "same_on 0 0x10000 (boot_rings (shm s)) (shm t)"
    by (rule same_onI) (simp add: shm_t st(1) heap_init_outside s0(1))
  have rings: "cmd_ok (shm t)" "cmd_queue (shm t) = []" "rsp_ok (shm t)" "rsp_queue (shm t) = []"
    using cmd_far [of "boot_rings (shm s)" "shm t"] rsp_far [of "boot_rings (shm s)" "shm t"] boot_rings_ok low
    by (auto simp: same_on_def)
  have "same_on 0x10100 0x10888 (shm ?h) (shm t)" by (rule same_onI) (simp add: shm_t st(1))
  then have heap: "heap_wf (?h\<lparr>shm := shm t\<rparr>)" "hfree (shm t) = hfree (shm ?h)"
    using heap_wf_far [OF heap_init_wf] hfree_cong [of "shm ?h" "shm t"] by (auto simp: same_on_def)
  have "t = (?h\<lparr>shm := shm t\<rparr>)\<lparr>stream_up := stream_up (ipc_stream_init ?h), ipc_irq_line := l\<rparr>"
    by (subst s0(3), subst ipc_stream_init_eq) (simp add: shm_t)
  then have wf: "heap_wf t" using heap(1) by (metis heap_wf_sel)
  have out: "boot_rings (shm s) a = shm s a" if "0xFE000 \<le> a" for a
    using that by (simp add: boot_rings_def init_doorbell_outside init_ring_outside init_cmd_ring_def ring_fields
        wr32_outside IPC_RSP_RING_OFFSET_def IPC_CMD_RING_OFFSET_def)
  have mg: "ring_magic IPC_OBS_RING_OFFSET (shm ?h) = ring_magic IPC_OBS_RING_OFFSET (shm s)"
    "ring_magic IPC_ACT_RING_OFFSET (shm ?h) = ring_magic IPC_ACT_RING_OFFSET (shm s)"
    unfolding ring_magic_def
    by (rule rd_cong; simp add: heap_init_outside s0(1) out IPC_OBS_RING_OFFSET_def IPC_ACT_RING_OFFSET_def)+
  have "ipc_stream_ready t" using st(2) s0(3) by (simp add: ipc_stream_ready_def)
  then show ?thesis using rings wf heap(2) heap_init_mem(1) [of s0] s0(3,4) st(3,4) mg shm_t by simp
qed

text \<open>
  After \<open>ipc_init\<close> on a mapped window both command and response ring are consistent and empty,
  the heap is well formed and entirely free, the streaming rings carry their magic, and the
  interrupt line is the requested one if it is a valid IRQ. A streaming ring is consistent and empty
  whenever its magic was not in the window before; a ring that already carried it keeps whatever
  indices the window held.
\<close>

theorem ipc_init_establishes:
  fixes s :: "'a ipc_scheme" and irq :: u8
  defines "t \<equiv> ipc_init True irq s"
  shows "cmd_ok (shm t) \<and> cmd_queue (shm t) = [] \<and> rsp_ok (shm t) \<and> rsp_queue (shm t) = [] \<and>
    heap_wf t \<and> hfree (shm t) = {..<HEAP_MAX_BLOCKS} \<and> ipc_stream_ready t \<and>
    (irq > 0 \<and> irq < 16 \<longrightarrow> ipc_irq_line t = Some irq) \<and>
    (ring_magic IPC_OBS_RING_OFFSET (shm s) \<noteq> IPC_STREAM_MAGIC \<longrightarrow> obs_ok (shm t) \<and> obs_queue (shm t) = []) \<and>
    (ring_magic IPC_ACT_RING_OFFSET (shm s) \<noteq> IPC_STREAM_MAGIC \<longrightarrow> act_ok (shm t) \<and> act_queue (shm t) = [])"
  unfolding t_def by (rule ipc_init_facts)

section \<open>Mesh table and heap bitmap\<close>

lemma wr32_first_byte: "wr32 m a v a = ucast v"
  by (simp add: wr32_def numeral_eq_Suc wr_le_outside)

lemma mesh_init_low:
  assumes "ipc_up s"
  shows "a < 0x10800 \<Longrightarrow> shm (ipc_mesh_init s) a = shm s a"
    and "rd32 (shm s) IPC_MESH_OFFSET \<noteq> MESH_MAGIC \<Longrightarrow> shm (ipc_mesh_init s) 0x10800 = 0x48"
proof -
  let ?m = "if rd32 (shm s) IPC_MESH_OFFSET \<noteq> MESH_MAGIC then mesh_reset (shm s) else shm s"
  have reset: "mesh_reset m a = (if a < 0x10800 then m a else 0x48)" if "a \<le> 0x10800" for a m
    using that by (simp add: mesh_reset_def Let_def MES_MAX_NODES_def mesh_node_def IPC_MESH_OFFSET_def upt_rec
        wr32_outside) (auto simp: wr32_outside wr32_first_byte MESH_MAGIC_def)
  have claim: "mesh_claim i m a = m a" if "a \<le> 0x10800" for i a m
    using that by (simp add: mesh_claim_def Let_def mesh_node_def IPC_MESH_OFFSET_def wr32_outside wr64_outside)
  have shm: "shm (ipc_mesh_init s) = ?m \<or> (\<exists>i. shm (ipc_mesh_init s) = mesh_claim i ?m)"
    using assms by (auto simp: ipc_mesh_init_def Let_def split: option.splits)
  show "a < 0x10800 \<Longrightarrow> shm (ipc_mesh_init s) a = shm s a" using shm by (auto simp: claim reset)
  show "rd32 (shm s) IPC_MESH_OFFSET \<noteq> MESH_MAGIC \<Longrightarrow> shm (ipc_mesh_init s) 0x10800 = 0x48"
    using shm by (auto simp: claim reset)
qed

text \<open>
  The mesh table starts inside the heap's bitmap. Joining the mesh after \<open>ipc_init\<close> marks heap
  block 14083 used although no blob owns it and the free-block counter still counts all 15168
  blocks, so the heap is no longer well formed.
\<close>

theorem mesh_init_corrupts_heap:
  fixes s :: "'a ipc_scheme" and irq :: u8
  defines "t \<equiv> ipc_mesh_init (ipc_init True irq s)"
  shows "hb_test 14083 (shm t) \<and> blob_count t = 0 \<and> unat (heap_free_blocks (shm t)) = 15168 \<and> \<not> heap_wf t"
proof -
  let ?s = "ipc_init True irq s"
  obtain s0 l where s0: "ipc_up (heap_init s0)" "?s = (ipc_stream_init (heap_init s0))\<lparr>ipc_irq_line := l\<rparr>"
    using ipc_init_split [of s irq] by blast
  have up: "ipc_up ?s" using s0 by (subst s0(2)) (simp add: ipc_stream_init_def Let_def)
  have low: "shm ?s a = shm (heap_init s0) a" if "a < 0xFE000" for a
    using ipc_stream_init_mem(1) [OF s0(1) that] s0(2) by simp
  have zero: "shm ?s a = 0" if "0x10120 \<le> a" "a < 0x10888" for a
    using that low by (simp add: heap_init_def Let_def wfor_zero_bytes HEAP_BITMAP_def HEAP_BITMAP_SIZE_def)
  have "rd32 (shm ?s) IPC_MESH_OFFSET = rd32 (\<lambda>_. 0) IPC_MESH_OFFSET"
    by (rule rd_cong) (simp add: zero IPC_MESH_OFFSET_def)
  also have "\<dots> = 0" by simp
  finally have byte: "shm t 0x10800 = 0x48"
    using mesh_init_low(2) [OF up] by (simp add: t_def MESH_MAGIC_def)
  have "heap_free_blocks (shm t) = heap_free_blocks (shm (heap_init s0))"
    unfolding ctl_reads by (rule rd_cong) (simp add: t_def mesh_init_low(1) [OF up] low)
  moreover have "unat (heap_free_blocks (shm (heap_init s0))) = 15168"
    using heap_init_mem(1,3) [of s0] by (simp add: ctl_ok_def card_all_blocks)
  ultimately have f: "unat (heap_free_blocks (shm t)) = 15168" by simp
  have used: "hb_test 14083 (shm t)"
    using byte by (simp add: hb_test_def HEAP_MAX_BLOCKS_def bits_test_def HEAP_BITMAP_def)
  have "hfree (shm t) \<subset> {..<HEAP_MAX_BLOCKS}"
    using used heap_map.clear_less by (auto simp: hfree_iff hfree_def HEAP_MAX_BLOCKS_def clear_bits_def)
  then have "card (hfree (shm t)) < 15168"
    using psubset_card_mono [of "{..<HEAP_MAX_BLOCKS}" "hfree (shm t)"] card_all_blocks by simp
  then have "\<not> heap_wf t" using f by (auto simp: heap_wf_def ctl_ok_def)
  moreover have "blob_count t = 0"
    using s0 by (simp add: t_def ipc_mesh_init_def Let_def ipc_stream_init_def heap_init_def split: option.splits)
  ultimately show ?thesis using used f by simp
qed

section \<open>Packing and counting\<close>

text \<open>
  The action and the acknowledged blob of a \<open>CMD_ENV_STEP\<close> payload survive packing, and every
  payload is the packing of its two halves.
\<close>

theorem env_step_roundtrip:
  "ENV_STEP_UNPACK_ACTION (ENV_STEP_PACK action ack) = action \<and>
   ENV_STEP_UNPACK_ACK (ENV_STEP_PACK action ack) = ack \<and>
   ENV_STEP_PACK (ENV_STEP_UNPACK_ACTION p) (ENV_STEP_UNPACK_ACK p) = p"
proof (intro conjI)
  have mask: "bit (0xFFFF :: int) n \<longleftrightarrow> n < 16" "bit (0xFFFF :: u32) n \<longleftrightarrow> n < 16" for n
    using bit_mask_iff [of 16 n, where ?'a = int] bit_mask_iff [of 16 n, where ?'a = u32]
    by (auto simp: mask_eq_exp_minus_1)
  show "ENV_STEP_UNPACK_ACTION (ENV_STEP_PACK action ack) = action"
    by (rule bit_word_eqI) (auto simp: ENV_STEP_PACK_def ENV_STEP_UNPACK_ACTION_def bit_simps mask)
  show "ENV_STEP_UNPACK_ACK (ENV_STEP_PACK action ack) = ack"
    by (rule bit_word_eqI) (auto simp: ENV_STEP_PACK_def ENV_STEP_UNPACK_ACK_def bit_simps mask)
  show "ENV_STEP_PACK (ENV_STEP_UNPACK_ACTION p) (ENV_STEP_UNPACK_ACK p) = p"
    by (rule bit_word_eqI)
       (auto simp: ENV_STEP_PACK_def ENV_STEP_UNPACK_ACTION_def ENV_STEP_UNPACK_ACK_def bit_simps mask)
qed

lemma ring_pending_length:
  assumes "ring_ok base n m"
  shows "unat (ring_pending base m) = ring_len base m"
proof -
  let ?h = "ring_head base m" and ?t = "ring_tail base m"
  have k: "unat ?h < unat n" "unat ?t < unat n" "ring_size base m = n"
    using assms by (simp_all add: ring_ok_def word_less_nat_alt)
  show ?thesis
  proof (cases "?h \<ge> ?t")
    case True
    then show ?thesis using k mod_wrap [of "unat ?h + unat n - unat ?t" "unat n"]
      by (simp add: ring_pending_def ring_len_def word_le_nat_alt unat_sub_if')
  next
    case False
    then have lt: "unat ?h < unat ?t" by (simp add: word_le_nat_alt)
    have "unat (n - ?t) = unat n - unat ?t" using k(2) by (simp add: unat_sub_if')
    moreover have "unat n - unat ?t + unat ?h < 4294967296" using lt k(2) unat_u32_less [of n] by linarith
    ultimately have "unat (n - ?t + ?h) = unat n - unat ?t + unat ?h" by (simp add: unat_word_ariths)
    then show ?thesis using False lt k mod_wrap [of "unat ?h + unat n - unat ?t" "unat n"]
      by (simp add: ring_pending_def ring_len_def)
  qed
qed

text \<open>
  The pending counts that \<open>ipc_dump_debug\<close> prints are the lengths of the queues.
\<close>

lemma pending_counts:
  assumes "cmd_ok (shm s)" and "rsp_ok (shm s)"
  shows "unat (ring_pending IPC_CMD_RING_OFFSET (shm s)) = length (cmd_queue (shm s)) \<and>
    unat (ring_pending IPC_RSP_RING_OFFSET (shm s)) = length (rsp_queue (shm s))"
  using assms ring_pending_length [of IPC_CMD_RING_OFFSET IPC_RING_SIZE "shm s"]
    ring_pending_length [of IPC_RSP_RING_OFFSET IPC_RING_SIZE "shm s"]
    cmd.length_queue [of "shm s"] rsp.length_queue [of "shm s"]
  by (simp add: queue_abs cmd_ok_def rsp_ok_def)

section \<open>The simulated consumer\<close>

lemma ring_rsp_doorbell_outside:
  "a < 0x10000 \<or> 0x10028 \<le> a \<Longrightarrow> ring_rsp_doorbell h m a = m a"
  by (auto simp: ring_rsp_doorbell_def Let_def wr32_outside zconst)

lemma mock_response_refines:
  assumes "rsp_ok (shm s)" and "cmd_ok (shm s)"
  shows "\<exists>t. mock_response orig_cmd s = Some t \<and> rsp_ok (shm t) \<and> cmd_ok (shm t) \<and>
    cmd_queue (shm t) = cmd_queue (shm s) \<and>
    rsp_queue (shm t) = rsp_queue (shm s) @ (if length (rsp_queue (shm s)) = 1023 then [] else
      [\<lparr>rs_status = RSP_OK, rs_orig_cmd = orig_cmd, rs_result = 0x12345678, rs_timestamp = fst (time_usec s)\<rparr>])"
proof -
  let ?B = IPC_RSP_RING_OFFSET and ?m = "shm s"
  obtain now u where u: "time_usec s = (now, u)" by fastforce
  let ?e = "\<lparr>rs_status = RSP_OK, rs_orig_cmd = orig_cmd, rs_result = 0x12345678, rs_timestamp = now\<rparr>"
  have ok: "ring_ok ?B IPC_RING_SIZE ?m" and mg: "ring_magic ?B ?m = IPC_RSP_MAGIC"
    using assms(1) by (simp_all add: rsp_ok_def)
  obtain h' where h': "ring_next (ring_head ?B ?m) (ring_size ?B ?m) = Some h'"
      "ring_next (ring_head ?B ?m) IPC_RING_SIZE = Some h'"
    using ok_next(1) [OF ok] by blast
  have full: "h' = ring_tail ?B ?m \<longleftrightarrow> length (rsp_queue ?m) = 1023"
    using rsp.full_iff [OF ok h'(2)] by (simp add: queue_abs ring_sizes)
  show ?thesis
  proof (cases "h' = ring_tail ?B ?m")
    case True
    then show ?thesis using mg h' full assms by (simp add: mock_response_def Let_def)
  next
    case False
    let ?p = "set_ring_head ?B h' (put_response ?m (ring_slot ?B 16 (ring_head ?B ?m)) ?e)"
    note push = rsp.push [where e = ?e, OF ok h'(2) False]
    have pok: "rsp_ok ?p" using push(2,3) mg by (simp add: rsp_ok_def)
    have far: "same_on 0x8000 0x10000 ?p (ring_rsp_doorbell h' ?p)" "same_on 0 0x8000 ?m (ring_rsp_doorbell h' ?p)"
      using push(4) by (auto intro!: same_onI simp: ring_rsp_doorbell_outside IPC_RSP_RING_OFFSET_def)
    have "mock_response orig_cmd s = Some (u\<lparr>shm := ring_rsp_doorbell h' ?p\<rparr>)"
      using mg h' False u by (simp add: mock_response_def Let_def)
    then show ?thesis using rsp_far [OF far(1) pok] cmd_far [OF far(2) assms(2)] push(1) full False u
      by (simp add: queue_abs)
  qed
qed

text \<open>
  The simulated consumer takes the oldest command off the command ring and answers it with one
  response that names that command; the answer is dropped when 1023 responses are already queued.
\<close>

theorem ipc_consume_one_refines:
  assumes "ipc_up s" and "cmd_ok (shm s)" and "rsp_ok (shm s)" and "cmd_queue (shm s) = p # q"
  shows "\<exists>t. ipc_consume_one s = Some t \<and> cmd_ok (shm t) \<and> rsp_ok (shm t) \<and> cmd_queue (shm t) = q \<and>
    rsp_queue (shm t) = rsp_queue (shm s) @ (if length (rsp_queue (shm s)) = 1023 then [] else
      [\<lparr>rs_status = RSP_OK, rs_orig_cmd = pk_cmd p, rs_result = 0x12345678, rs_timestamp = fst (time_usec s)\<rparr>])"
proof -
  let ?B = IPC_CMD_RING_OFFSET and ?m = "shm s"
  have ok: "ring_ok ?B IPC_RING_SIZE ?m" using assms(2) by (simp add: cmd_ok_def)
  have ne: "ring_head ?B ?m \<noteq> ring_tail ?B ?m" using cmd.empty_iff [OF ok] assms(4) by (simp add: queue_abs)
  obtain t' where t': "ring_next (ring_tail ?B ?m) (ring_size ?B ?m) = Some t'"
      "ring_next (ring_tail ?B ?m) IPC_RING_SIZE = Some t'"
    using ok_next(2) [OF ok] by blast
  note adv = cmd.advance [OF ok ne t'(2)]
  let ?u = "s\<lparr>shm := set_ring_tail ?B t' ?m\<rparr>"
  have "same_on 0x8000 0x10000 ?m (shm ?u)"
    using cmd.set_tail_outside [of _ t' ?m] by (auto intro!: same_onI simp: IPC_CMD_RING_OFFSET_def ring_sizes)
  note far = rsp_far [OF this assms(3)]
  have cok: "cmd_ok (shm ?u)" "cmd_queue (shm ?u) = q" and pkt: "get_packet ?m (ring_slot ?B 16 (ring_tail ?B ?m)) = p"
    using adv assms(4) by (simp_all add: cmd_ok_def queue_abs)
  have "ipc_consume_one s = mock_response (pk_cmd p) ?u"
    using assms(1) ne t' pkt by (simp add: ipc_consume_one_def Let_def)
  moreover have "fst (time_usec ?u) = fst (time_usec s)" by (simp add: time_usec_def rdtsc_def)
  ultimately show ?thesis using mock_response_refines [OF far(2) cok(1), of "pk_cmd p"]
    unfolding far(1) cok(2) by auto
qed

section \<open>Witnesses\<close>

definition boot_ipc :: ipc where
  "boot_ipc = ipc_init True 10 (ipc_heap.extend boot_window
     \<lparr>ipc_up = False, stream_up = False, mesh_up = False, local_node_id = - 1, ipc_irq_line = None, ipc_irq_count = 0\<rparr>)"

lemma boot_ipc_ok:
  "ipc_up boot_ipc" "stream_up boot_ipc" "cmd_ok (shm boot_ipc)" "cmd_queue (shm boot_ipc) = []"
  "rsp_ok (shm boot_ipc)" "rsp_queue (shm boot_ipc) = []"
  "act_ok (shm boot_ipc)" "act_queue (shm boot_ipc) = []" "obs_ok (shm boot_ipc)" "obs_queue (shm boot_ipc) = []"
proof -
  let ?s = "ipc_heap.extend boot_window
     \<lparr>ipc_up = False, stream_up = False, mesh_up = False, local_node_id = - 1, ipc_irq_line = None, ipc_irq_count = 0\<rparr>"
  have z: "shm ?s = (\<lambda>_. 0)" by (simp add: ipc_heap.defs boot_window_def)
  have "ring_magic IPC_OBS_RING_OFFSET (shm ?s) \<noteq> IPC_STREAM_MAGIC"
    "ring_magic IPC_ACT_RING_OFFSET (shm ?s) \<noteq> IPC_STREAM_MAGIC"
    unfolding z by (simp_all add: ring_magic_def IPC_STREAM_MAGIC_def)
  with ipc_init_facts [of 10 ?s]
  show "cmd_ok (shm boot_ipc)" "cmd_queue (shm boot_ipc) = []"
    "rsp_ok (shm boot_ipc)" "rsp_queue (shm boot_ipc) = []"
    "act_ok (shm boot_ipc)" "act_queue (shm boot_ipc) = []" "obs_ok (shm boot_ipc)" "obs_queue (shm boot_ipc) = []"
    "stream_up boot_ipc"
    by (simp_all add: boot_ipc_def ipc_stream_ready_def)
  show "ipc_up boot_ipc" by (simp add: boot_ipc_def ipc_init_def Let_def ipc_stream_init_def)
qed

theorem ipc_send_flags_refines_witness:
  "\<exists>t. ipc_send_flags 1 7 0 boot_ipc = Some (0, t) \<and> cmd_queue (shm t) =
     [\<lparr>pk_cmd = 1, pk_flags = 0, pk_payload_id = 7, pk_timestamp = fst (time_usec boot_ipc)\<rparr>]"
  using ipc_send_flags_refines [OF boot_ipc_ok(1,3), of 1 7 0] boot_ipc_ok(4) by auto

theorem ipc_poll_response_refines_witness: "ipc_poll_response (\<lambda>m. m) boot_ipc = Some (None, boot_ipc)"
  using ipc_poll_response_refines [OF boot_ipc_ok(1,5)] boot_ipc_ok(6) by simp

theorem ipc_irq_handler_drains_witness: "\<exists>t. ipc_irq_handler (\<lambda>m. m) boot_ipc = Some t \<and> rsp_queue (shm t) = []"
  using ipc_irq_handler_drains [OF boot_ipc_ok(1,5,3)] by blast

theorem ipc_stream_refines_witness:
  "\<exists>t. ipc_stream_action_push 1 2 3 boot_ipc = Some (0, t) \<and> act_queue (shm t) =
     [\<lparr>ac_seq = 1, ac_action = 2, ac_flags = 0, ac_ack_seq = 3, ac_reserved = 0\<rparr>]"
  using ipc_stream_refines [OF boot_ipc_ok(2,7,9), of 1 2 3] boot_ipc_ok(8) by auto

definition boot_run :: "ipc_packet ring_run" where
  "boot_run = \<lparr>rr_mem = shm boot_ipc, rr_prod = PIdle, rr_cons = CIdle, rr_sent = [], rr_received = []\<rparr>"


lemma sent_state:
  "\<exists>t p. ipc_up t \<and> cmd_ok (shm t) \<and> rsp_ok (shm t) \<and> cmd_queue (shm t) = [p] \<and> rsp_queue (shm t) = [] \<and>
     ipc_send_flags 1 7 0 boot_ipc = Some (0, t)"
proof -
  have ok: "ring_ok IPC_CMD_RING_OFFSET IPC_RING_SIZE (shm boot_ipc)" using boot_ipc_ok(3) by (simp add: cmd_ok_def)
  let ?B = IPC_CMD_RING_OFFSET and ?m = "shm boot_ipc"
  obtain h where h: "ring_next (ring_head ?B ?m) (ring_size ?B ?m) = Some h" "ring_next (ring_head ?B ?m) IPC_RING_SIZE = Some h"
    using ok_next(1) [OF ok] by blast
  have room: "h \<noteq> ring_tail ?B ?m"
    using cmd.full_iff [OF ok h(2)] boot_ipc_ok(4) by (simp add: queue_abs ring_sizes)
  obtain now u where u: "time_usec boot_ipc = (now, u)" by fastforce
  then have up: "ipc_up u" using time_usec_ipc(2) [of boot_ipc] boot_ipc_ok(1) by simp
  let ?e = "\<lparr>pk_cmd = 1, pk_flags = 0, pk_payload_id = 7, pk_timestamp = now\<rparr>"
  let ?p = "set_ring_head ?B h (put_packet ?m (ring_slot ?B 16 (ring_head ?B ?m)) ?e)"
  note push = cmd.push [where e = ?e, OF ok h(2) room]
  have pok: "cmd_ok ?p" using push(2) by (simp add: cmd_ok_def)
  have far: "same_on 0 0x8000 ?p (ring_cmd_doorbell h ?p)" "same_on 0x8000 0x10000 ?m (ring_cmd_doorbell h ?p)"
    using push(4) by (auto intro!: same_onI simp: ring_cmd_doorbell_outside IPC_CMD_RING_OFFSET_def ring_sizes)
  have "ipc_send_flags 1 7 0 boot_ipc = Some (0, u\<lparr>shm := ring_cmd_doorbell h ?p\<rparr>)"
    using boot_ipc_ok(1) h room u by (simp add: ipc_send_flags_def Let_def)
  then show ?thesis using up cmd_far [OF far(1) pok] rsp_far [OF far(2) boot_ipc_ok(5)] push(1) boot_ipc_ok(4,6)
    by (intro exI [of _ "u\<lparr>shm := ring_cmd_doorbell h ?p\<rparr>"] exI [of _ ?e]) (simp add: queue_abs)
qed

theorem ipc_send_flags_is_producer_witness:
  "\<exists>t m. ipc_send_flags 1 7 0 boot_ipc = Some (0, t) \<and> shm t = ring_cmd_doorbell (ring_head IPC_CMD_RING_OFFSET m) m"
proof -
  obtain t where t: "ipc_send_flags 1 7 0 boot_ipc = Some (0, t)" using sent_state by blast
  have "rr_mem boot_run = shm boot_ipc" "rr_prod boot_run = PIdle" by (simp_all add: boot_run_def)
  from ipc_send_flags_is_producer [OF boot_ipc_ok(1,3) t this] t show ?thesis by blast
qed

theorem ipc_init_establishes_witness: "ipc_irq_line boot_ipc = Some 10"
  using ipc_init_establishes [of 10 "ipc_heap.extend boot_window
     \<lparr>ipc_up = False, stream_up = False, mesh_up = False, local_node_id = - 1, ipc_irq_line = None, ipc_irq_count = 0\<rparr>"]
  by (simp add: boot_ipc_def)

theorem ipc_consume_one_refines_witness:
  "\<exists>t u. ipc_send_flags 1 7 0 boot_ipc = Some (0, t) \<and> ipc_consume_one t = Some u \<and> cmd_queue (shm u) = []"
proof -
  obtain t p where t: "ipc_up t" "cmd_ok (shm t)" "rsp_ok (shm t)" "cmd_queue (shm t) = [p]"
      "ipc_send_flags 1 7 0 boot_ipc = Some (0, t)"
    using sent_state by blast
  from ipc_consume_one_refines [OF t(1-4)] t(5) show ?thesis by blast
qed

end
