(* ===== verification/Episode.thy ===== *)
theory Episode
  imports Zen_Prelude
begin

text \<open>
  The tuning episodes (\<^verbatim>\<open>kernel/engine/episode.c\<close>) and the device they drive
  (\<^verbatim>\<open>kernel/drivers/mock_gpu.c\<close>, behind \<^verbatim>\<open>include/api/actuator.h\<close> and \<^verbatim>\<open>collector.h\<close>). An episode
  proposes a clock, applies it, samples the device and then keeps the clock or rolls it back; each
  call of \<open>episode_tick\<close> is one transition. The snapshot buffer lives on the stack of
  \<open>episode_tick\<close> and the driver fills only some of its fields, so its old contents are an argument.
\<close>

section \<open>Device\<close>

record metric_snapshot =
  ms_timestamp :: u64
  gpu_temp_c :: u32
  gpu_util_pct :: u32
  mem_used_mb :: u32
  pcie_bw_mbps :: u32
  ecc_errors :: u32
  pcie_retries :: u32
  xid_errors :: u32

definition ACT_OK :: int where [zconst]: "ACT_OK = 0"

record mock_gpu =
  current_clock :: u32
  current_power :: u32
  current_temp :: u32
  current_util :: u32

definition mock_gpu_boot :: mock_gpu where
  "mock_gpu_boot = \<lparr>current_clock = 1000, current_power = 250, current_temp = 65, current_util = 40\<rparr>"

definition mock_set_clock :: "u32 \<Rightarrow> 'a mock_gpu_scheme \<Rightarrow> int \<times> 'a mock_gpu_scheme" where
  "mock_set_clock clock_mhz s =
     (let s = s\<lparr>current_clock := clock_mhz\<rparr>
      in (ACT_OK, s\<lparr>current_temp := current_temp s + (if clock_mhz > 1500 then 5 else 1)\<rparr>))"

definition mock_set_power :: "u32 \<Rightarrow> 'a mock_gpu_scheme \<Rightarrow> int \<times> 'a mock_gpu_scheme" where
  "mock_set_power watts s = (ACT_OK, s\<lparr>current_power := watts\<rparr>)"

definition mock_reset :: "'a mock_gpu_scheme \<Rightarrow> int \<times> 'a mock_gpu_scheme" where
  "mock_reset s = (ACT_OK, s\<lparr>current_clock := 1000, current_power := 250, current_temp := 60\<rparr>)"

definition mock_get_snapshot ::
    "metric_snapshot \<Rightarrow> 'a mock_gpu_scheme \<Rightarrow> int \<times> metric_snapshot \<times> 'a mock_gpu_scheme" where
  "mock_get_snapshot out s =
     (let out = out\<lparr>ms_timestamp := 0, gpu_temp_c := current_temp s, gpu_util_pct := current_util s,
                    ecc_errors := 0, xid_errors := 0\<rparr>;
          s = (if current_temp s > 60 then s\<lparr>current_temp := current_temp s - 1\<rparr> else s)
      in (0, out, s\<lparr>current_util := (current_util s + 1) mod 100\<rparr>))"

section \<open>Engine\<close>

datatype episode_state =
    EP_STATE_IDLE | EP_STATE_PROPOSE | EP_STATE_VALIDATE | EP_STATE_APPLY | EP_STATE_MONITOR
  | EP_STATE_DECIDE | EP_STATE_ROLLBACK | EP_STATE_SAFE

record episode_ctx =
  episode_id :: u32
  ep_state :: episode_state
  monitor_steps_total :: u32
  monitor_steps_done :: u32
  baseline :: metric_snapshot
  current_accum :: metric_snapshot
  samples :: u32
  start_time :: u64
  end_time :: u64
  proposed_clock :: u32
  original_clock :: u32

record engine = mock_gpu +
  current_episode :: episode_ctx
  episode_active :: bool

definition upd_ep :: "(episode_ctx \<Rightarrow> episode_ctx) \<Rightarrow> 'a engine_scheme \<Rightarrow> 'a engine_scheme" where
  "upd_ep f s = s\<lparr>current_episode := f (current_episode s)\<rparr>"

definition episode_init :: "'a engine_scheme \<Rightarrow> 'a engine_scheme" where
  "episode_init s =
     (upd_ep (\<lambda>e. e\<lparr>episode_id := 0, ep_state := EP_STATE_IDLE, samples := 0\<rparr>) s)\<lparr>episode_active := False\<rparr>"

definition check_guardrails :: "metric_snapshot \<Rightarrow> bool" where
  "check_guardrails m = (if gpu_temp_c m > 90 then True else if ecc_errors m > 0 then True else False)"

definition monitor_tick :: "metric_snapshot \<Rightarrow> 'a engine_scheme \<Rightarrow> 'a engine_scheme" where
  "monitor_tick junk s =
     (let (ret, snap, s) = mock_get_snapshot junk s;
          s = (if ret = 0
               then upd_ep (\<lambda>e. e\<lparr>current_accum := (current_accum e)\<lparr>
                        gpu_temp_c := gpu_temp_c (current_accum e) + gpu_temp_c snap,
                        gpu_util_pct := gpu_util_pct (current_accum e) + gpu_util_pct snap\<rparr>,
                      samples := samples e + 1\<rparr>) s
               else s)
      in if ret = 0 \<and> check_guardrails snap then upd_ep (\<lambda>e. e\<lparr>ep_state := EP_STATE_ROLLBACK\<rparr>) s
         else let s = upd_ep (\<lambda>e. e\<lparr>monitor_steps_done := monitor_steps_done e + 1\<rparr>) s;
                  e = current_episode s
              in if monitor_steps_done e \<ge> monitor_steps_total e
                 then upd_ep (\<lambda>e. e\<lparr>ep_state := EP_STATE_DECIDE\<rparr>) s else s)"

definition avg_util :: "episode_ctx \<Rightarrow> u32" where
  "avg_util e = (if samples e > 0 then gpu_util_pct (current_accum e) div samples e else 0)"

definition episode_tick :: "metric_snapshot \<Rightarrow> 'a engine_scheme \<Rightarrow> 'a engine_scheme" where
  "episode_tick junk s =
     (if \<not> episode_active s then s
      else case ep_state (current_episode s) of
        EP_STATE_PROPOSE \<Rightarrow> upd_ep (\<lambda>e. e\<lparr>ep_state := EP_STATE_VALIDATE\<rparr>) s
      | EP_STATE_VALIDATE \<Rightarrow> upd_ep (\<lambda>e. e\<lparr>ep_state := EP_STATE_APPLY\<rparr>) s
      | EP_STATE_APPLY \<Rightarrow>
          upd_ep (\<lambda>e. e\<lparr>ep_state := EP_STATE_MONITOR\<rparr>)
            (snd (mock_set_clock (proposed_clock (current_episode s)) s))
      | EP_STATE_MONITOR \<Rightarrow> monitor_tick junk s
      | EP_STATE_DECIDE \<Rightarrow>
          if avg_util (current_episode s) > 50
          then (upd_ep (\<lambda>e. e\<lparr>ep_state := EP_STATE_IDLE\<rparr>) s)\<lparr>episode_active := False\<rparr>
          else upd_ep (\<lambda>e. e\<lparr>ep_state := EP_STATE_ROLLBACK\<rparr>) s
      | EP_STATE_ROLLBACK \<Rightarrow>
          (upd_ep (\<lambda>e. e\<lparr>ep_state := EP_STATE_IDLE\<rparr>)
             (snd (mock_set_clock (original_clock (current_episode s)) s)))\<lparr>episode_active := False\<rparr>
      | _ \<Rightarrow> s)"

definition episode_propose :: "u32 \<Rightarrow> u32 \<Rightarrow> 'a engine_scheme \<Rightarrow> int \<times> 'a engine_scheme" where
  "episode_propose clock_mhz duration_steps s =
     (if episode_active s then (- 1, s)
      else (0, (upd_ep (\<lambda>e. e\<lparr>episode_id := episode_id e + 1, ep_state := EP_STATE_PROPOSE,
          proposed_clock := clock_mhz, original_clock := 1000, monitor_steps_total := duration_steps,
          monitor_steps_done := 0,
          current_accum := (current_accum e)\<lparr>gpu_temp_c := 0, gpu_util_pct := 0\<rparr>, samples := 0\<rparr>) s)
        \<lparr>episode_active := True\<rparr>))"

section \<open>Device contract\<close>

text \<open>
  What the engine relies on: setting the clock sets it, and sampling leaves it alone and succeeds.
\<close>

locale tunable_device =
  fixes set_clock :: "u32 \<Rightarrow> 's \<Rightarrow> int \<times> 's"
    and snapshot :: "'m \<Rightarrow> 's \<Rightarrow> int \<times> 'm \<times> 's"
    and clock_of :: "'s \<Rightarrow> u32"
  assumes set_clock_ok: "fst (set_clock c s) = ACT_OK"
    and clock_set: "clock_of (snd (set_clock c s)) = c"
    and snapshot_ok: "fst (snapshot out s) = 0"
    and clock_snapshot: "clock_of (snd (snd (snapshot out s))) = clock_of s"
begin

lemma clock_after_samples: "clock_of (fold (\<lambda>out s. snd (snd (snapshot out s))) outs s) = clock_of s"
  by (induction outs arbitrary: s) (simp_all add: clock_snapshot)

end

interpretation gpu: tunable_device mock_set_clock mock_get_snapshot current_clock
  by unfold_locales (simp_all add: mock_set_clock_def mock_get_snapshot_def Let_def)

section \<open>Invariant\<close>

text \<open>
  The engine is active exactly outside the idle state, the safe state is never entered, and from
  the monitoring state on the device runs at the proposed clock.
\<close>

definition ep_inv :: "'a engine_scheme \<Rightarrow> bool" where
  "ep_inv s \<longleftrightarrow> (let e = current_episode s in
     (episode_active s \<longleftrightarrow> ep_state e \<noteq> EP_STATE_IDLE) \<and> ep_state e \<noteq> EP_STATE_SAFE \<and>
     (episode_active s \<longrightarrow> original_clock e = 1000) \<and>
     (ep_state e \<in> {EP_STATE_MONITOR, EP_STATE_DECIDE, EP_STATE_ROLLBACK} \<longrightarrow> current_clock s = proposed_clock e) \<and>
     (ep_state e = EP_STATE_MONITOR \<longrightarrow> monitor_steps_done e < monitor_steps_total e \<or>
        monitor_steps_total e = 0 \<and> monitor_steps_done e = 0) \<and>
     (ep_state e \<in> {EP_STATE_PROPOSE, EP_STATE_VALIDATE, EP_STATE_APPLY, EP_STATE_MONITOR} \<longrightarrow>
        samples e = monitor_steps_done e) \<and>
     (ep_state e \<in> {EP_STATE_PROPOSE, EP_STATE_VALIDATE, EP_STATE_APPLY} \<longrightarrow> monitor_steps_done e = 0))"

inductive ep_step :: "'a engine_scheme \<Rightarrow> 'a engine_scheme \<Rightarrow> bool" where
  Tick: "ep_step s (episode_tick junk s)"
| Propose: "ep_step s (snd (episode_propose c d s))"

lemmas ep_defs = upd_ep_def episode_tick_def monitor_tick_def mock_get_snapshot_def mock_set_clock_def
  episode_propose_def ep_inv_def Let_def

lemma episode_tick_inv: "ep_inv s \<Longrightarrow> ep_inv (episode_tick junk s)"
  by (cases "ep_state (current_episode s)") (auto simp: ep_defs not_le word_gt_0)

lemma episode_propose_inv: "ep_inv s \<Longrightarrow> ep_inv (snd (episode_propose c d s))"
  by (auto simp: ep_defs)

text \<open>
  In every state the engine reaches from \<open>episode_init\<close> by ticks and proposals it is active
  exactly outside the idle state, never in the safe state, holds the baseline clock for the
  rollback while it is active, and while it monitors, decides or rolls back the device runs at the
  proposed clock and no monitoring step was counted twice.
\<close>

theorem episode_invariant:
  assumes "ep_step\<^sup>*\<^sup>* (episode_init s) t"
  shows "ep_inv t"
  using assms
proof (induction rule: rtranclp_induct)
  case base
  show ?case by (simp add: episode_init_def upd_ep_def ep_inv_def Let_def)
next
  case (step t u)
  then show ?case by (auto simp: episode_tick_inv episode_propose_inv elim: ep_step.cases)
qed

section \<open>Every episode ends\<close>

definition ep_rank :: "'a engine_scheme \<Rightarrow> nat" where
  "ep_rank s = (let e = current_episode s; left = max 1 (unat (monitor_steps_total e) - unat (monitor_steps_done e)) in
     case ep_state e of EP_STATE_PROPOSE \<Rightarrow> left + 5 | EP_STATE_VALIDATE \<Rightarrow> left + 4 | EP_STATE_APPLY \<Rightarrow> left + 3
     | EP_STATE_MONITOR \<Rightarrow> left + 2 | EP_STATE_DECIDE \<Rightarrow> 2 | EP_STATE_ROLLBACK \<Rightarrow> 1 | _ \<Rightarrow> 0)"

lemma monitor_left:
  fixes d n :: u32
  assumes "d < n" and "\<not> n \<le> d + 1"
  shows "max 1 (unat n - unat (d + 1)) < max 1 (unat n - unat d)"
  using assms unat_Suc_less [OF assms(1)] by (simp add: word_le_nat_alt)

lemma episode_tick_rank:
  assumes inv: "ep_inv s" and act: "episode_active s"
  shows "ep_rank (episode_tick junk s) < ep_rank s"
proof (cases "ep_state (current_episode s) = EP_STATE_MONITOR")
  case True
  then show ?thesis
    using inv act monitor_left [of "monitor_steps_done (current_episode s)" "monitor_steps_total (current_episode s)"]
    by (auto simp: ep_defs ep_rank_def)
next
  case False
  then show ?thesis using inv act
    by (cases "ep_state (current_episode s)") (auto simp: ep_defs ep_rank_def)
qed

text \<open>How a tick ends an episode: the clock is kept only on a good average.\<close>

definition ep_outcome :: "u32 \<Rightarrow> 'a engine_scheme \<Rightarrow> bool" where
  "ep_outcome c s \<longleftrightarrow> current_clock s = c \<and> avg_util (current_episode s) > 50 \<or> current_clock s = 1000"

lemma episode_tick_ends:
  assumes "ep_inv s" and "episode_active s"
  shows "proposed_clock (current_episode (episode_tick junk s)) = proposed_clock (current_episode s)"
    and "\<not> episode_active (episode_tick junk s) \<Longrightarrow> ep_outcome (proposed_clock (current_episode s)) (episode_tick junk s)"
  using assms by (cases "ep_state (current_episode s)"; auto simp: ep_defs ep_outcome_def avg_util_def split: if_splits)+

lemma episode_idle_ticks: "\<not> episode_active s \<Longrightarrow> fold episode_tick junks s = s"
  by (induction junks) (simp_all add: episode_tick_def)

lemma episode_run_ends:
  assumes "ep_inv s" and "episode_active s" and "ep_rank s \<le> length junks"
  shows "\<not> episode_active (fold episode_tick junks s) \<and> ep_inv (fold episode_tick junks s) \<and>
    ep_outcome (proposed_clock (current_episode s)) (fold episode_tick junks s)"
  using assms
proof (induction junks arbitrary: s)
  case Nil
  then have "ep_rank (episode_tick undefined s) < 0" using episode_tick_rank [of s undefined] by simp
  then show ?case by simp
next
  case (Cons j junks)
  let ?t = "episode_tick j s"
  have inv: "ep_inv ?t" and rank: "ep_rank ?t \<le> length junks"
    using episode_tick_inv Cons.prems episode_tick_rank [of s j] by (simp_all add: less_Suc_eq_le)
  note ends = episode_tick_ends [OF Cons.prems(1,2), of j]
  show ?case
  proof (cases "episode_active ?t")
    case True
    then show ?thesis using Cons.IH [OF inv True rank] ends(1) by simp
  next
    case False
    then show ?thesis using ends(2) inv by (simp add: episode_idle_ticks)
  qed
qed

text \<open>
  C19: A proposal to an idle engine is accepted, and every such episode ends: after at most six ticks
  more than the requested number of monitoring steps (at least one) the engine is idle again, and
  the device either runs at the proposed clock with an average utilisation above 50 percent or is
  back at the baseline of 1000 MHz, whatever the device reported.
\<close>

theorem episode_terminates:
  assumes "ep_inv s" and "\<not> episode_active s" and "max 1 (unat d) + 5 \<le> length junks"
  shows "fst (episode_propose c d s) = 0 \<and>
    (let t = fold episode_tick junks (snd (episode_propose c d s))
     in \<not> episode_active t \<and> ep_state (current_episode t) = EP_STATE_IDLE \<and>
        (current_clock t = c \<and> avg_util (current_episode t) > 50 \<or> current_clock t = 1000))"
proof -
  let ?s = "snd (episode_propose c d s)"
  have p: "episode_active ?s" "proposed_clock (current_episode ?s) = c" "ep_rank ?s = max 1 (unat d) + 5"
    using assms(2) by (simp_all add: episode_propose_def upd_ep_def ep_rank_def Let_def)
  have "ep_inv ?s" by (rule episode_propose_inv [OF assms(1)])
  from episode_run_ends [OF this p(1)] p(2,3) assms(3)
  have "\<not> episode_active (fold episode_tick junks ?s) \<and> ep_inv (fold episode_tick junks ?s) \<and>
      ep_outcome c (fold episode_tick junks ?s)" by simp
  then show ?thesis using assms(2) by (auto simp: ep_outcome_def ep_inv_def Let_def episode_propose_def)
qed

text \<open>
  The guardrail fails fast: a sample above 90 degrees while monitoring makes the next tick put
  the device back to its baseline clock and end the episode, however many steps were left.
\<close>

theorem episode_guardrail:
  assumes "ep_inv s" and "ep_state (current_episode s) = EP_STATE_MONITOR" and "current_temp s > 90"
  shows "let t = episode_tick j2 (episode_tick j1 s)
    in current_clock t = 1000 \<and> \<not> episode_active t \<and> ep_state (current_episode t) = EP_STATE_IDLE"
  using assms by (auto simp: ep_defs check_guardrails_def)

section \<open>Witnesses\<close>

definition no_metrics :: metric_snapshot where
  "no_metrics = \<lparr>ms_timestamp = 0, gpu_temp_c = 0, gpu_util_pct = 0, mem_used_mb = 0, pcie_bw_mbps = 0,
     ecc_errors = 0, pcie_retries = 0, xid_errors = 0\<rparr>"

definition boot_engine :: engine where
  "boot_engine = episode_init (mock_gpu.extend mock_gpu_boot
     \<lparr>current_episode = \<lparr>episode_id = 0, ep_state = EP_STATE_IDLE, monitor_steps_total = 0, monitor_steps_done = 0,
        baseline = no_metrics, current_accum = no_metrics, samples = 0, start_time = 0, end_time = 0,
        proposed_clock = 0, original_clock = 0\<rparr>, episode_active = False\<rparr>)"

lemma boot_engine_inv: "ep_inv boot_engine" "\<not> episode_active boot_engine"
  by (simp_all add: boot_engine_def episode_init_def upd_ep_def ep_inv_def)

theorem episode_invariant_witness: "ep_inv (episode_tick no_metrics (snd (episode_propose 1600 3 boot_engine)))"
proof -
  have "ep_step\<^sup>*\<^sup>* (episode_init boot_engine) (episode_tick no_metrics (snd (episode_propose 1600 3 (episode_init boot_engine))))"
    by (rule rtranclp.rtrancl_into_rtrancl [OF r_into_rtranclp]) (rule ep_step.Propose, rule ep_step.Tick)
  from episode_invariant [OF this] show ?thesis
    by (simp add: boot_engine_def episode_init_def upd_ep_def mock_gpu.defs)
qed

theorem episode_terminates_witness:
  "\<not> episode_active (fold episode_tick (replicate 8 no_metrics) (snd (episode_propose 1600 3 boot_engine)))"
  using episode_terminates [OF boot_engine_inv, of 3 "replicate 8 no_metrics" 1600] by (simp add: Let_def)

definition hot_engine :: engine where
  "hot_engine = (fold episode_tick (replicate 3 no_metrics) (snd (episode_propose 1600 3 boot_engine)))\<lparr>current_temp := 95\<rparr>"

theorem episode_guardrail_witness: "current_clock (episode_tick no_metrics (episode_tick no_metrics hot_engine)) = 1000"
proof -
  have t: "current_temp hot_engine > 90" by (simp add: hot_engine_def)
  have s: "ep_inv hot_engine" "ep_state (current_episode hot_engine) = EP_STATE_MONITOR"
    by (simp_all add: hot_engine_def boot_engine_def numeral_eq_Suc ep_defs episode_init_def mock_gpu.defs word_gt_0)
  from episode_guardrail [OF s t, of no_metrics no_metrics] show ?thesis by (simp add: Let_def)
qed

end
