(* ===== verification/Ifr.thy ===== *)
theory Ifr
  imports Ipc_Heap Sha256
begin

text \<open>
  Signed flight records (\<^verbatim>\<open>kernel/trace/ifr.c\<close>) and the seal over the flight recorder
  (\<open>flightrec_seal_hash\<close> of \<^verbatim>\<open>kernel/trace/flightrec.c\<close>). The records are packed structs that are
  hashed as bytes, so each comes with the little-endian bytes of the part that its hash covers.
  Floats are their 32 bits; \<open>stack\<close> is the uninitialised hash context of a call.
\<close>

section \<open>Bytes of packed structs\<close>

definition le_bytes :: "nat \<Rightarrow> 'a::len word \<Rightarrow> u8 list" where
  "le_bytes n w = map (\<lambda>i. ucast (drop_bit (8 * i) w)) [0..<n]"

lemma length_le_bytes [simp]: "length (le_bytes n w) = n"
  by (simp add: le_bytes_def)

lemma le_bytes_inject:
  fixes v w :: "'a::len word"
  assumes "LENGTH('a) = 8 * n"
  shows "le_bytes n v = le_bytes n w \<longleftrightarrow> v = w"
proof
  assume eq: "le_bytes n v = le_bytes n w"
  show "v = w"
  proof (rule bit_word_eqI)
    fix k assume "k < LENGTH('a)"
    then have k: "k div 8 < n" using assms by simp
    have nth: "le_bytes n x ! (k div 8) = ucast (drop_bit (8 * (k div 8)) x)" for x :: "'a word"
      using k by (simp add: le_bytes_def)
    have "bit (le_bytes n x ! (k div 8)) (k mod 8) = bit x k" for x :: "'a word"
      unfolding nth by (simp add: bit_simps)
    with eq show "bit v k = bit w k" by metis
  qed
qed simp

section \<open>Seal of the flight recorder\<close>

definition event_bytes :: "trace_event \<Rightarrow> u8 list" where
  "event_bytes e = le_bytes 8 (te_ts_usec e) @ le_bytes 8 (te_ts_cycles e) @ [te_type e, te_flags e] @
     le_bytes 2 (te_cpu_id e) @ le_bytes 4 (te_job_id e) @ le_bytes 4 (te_step_id e) @
     le_bytes 4 (te_extra e) @ te_tpm_signature e"

definition flightrec_seal_hash :: "sha256_ctx \<Rightarrow> 'a flightrec_scheme \<Rightarrow> u8 list" where
  "flightrec_seal_hash stack s =
     (let head = fr_head s;
          ctx = sha256_update (le_bytes 4 head) (sha256_init stack);
          count = (if head > TRACE_BUF_SIZE then TRACE_BUF_SIZE else head);
          start = (if head > TRACE_BUF_SIZE then head - TRACE_BUF_SIZE else 0);
          ctx = wfor 0 count (\<lambda>i. sha256_update (event_bytes (fr_buf s (unat ((start + i) AND TRACE_BUF_MASK))))) ctx
      in sha256_final ctx)"

section \<open>Records\<close>

definition IFR_MAGIC :: u32 where [zconst]: "IFR_MAGIC = 0x30465249"
definition IFR_VERSION_V2 :: u16 where [zconst]: "IFR_VERSION_V2 = 2"
definition IFR_VERSION_V3 :: u16 where [zconst]: "IFR_VERSION_V3 = 3"
definition IFR_PROFILE_MAX :: u16 where [zconst]: "IFR_PROFILE_MAX = 16"
definition IFR_RECORD_SIZE :: u32 where [zconst]: "IFR_RECORD_SIZE = 136"
definition IFR_V3_RECORD_SIZE :: u32 where [zconst]: "IFR_V3_RECORD_SIZE = 324"
definition IFR_FLAG_SIG_UNAVAILABLE :: u16 where [zconst]: "IFR_FLAG_SIG_UNAVAILABLE = 1"
definition IFR_FLAG_MODEL_DIGEST_MISSING :: u16 where [zconst]: "IFR_FLAG_MODEL_DIGEST_MISSING = 2"
definition IFR_FLAG_POLICY_DIGEST_PLACEHOLDER :: u16 where [zconst]: "IFR_FLAG_POLICY_DIGEST_PLACEHOLDER = 4"

record ifr_record =
  ir_magic :: u32
  ir_version :: u16
  ir_flags :: u16
  ir_job_id :: u32
  ir_episode_id :: u32
  ir_model_id :: u32
  ir_record_size :: u32
  ir_ts_usec :: u64
  ir_goodput :: u32
  ir_profile_len :: u16
  ir_reserved :: u16
  ir_profile :: "u32 list"
  ir_hash :: "u8 list"

definition ifr_bytes :: "ifr_record \<Rightarrow> u8 list" where
  "ifr_bytes r = le_bytes 4 (ir_magic r) @ le_bytes 2 (ir_version r) @ le_bytes 2 (ir_flags r) @
     le_bytes 4 (ir_job_id r) @ le_bytes 4 (ir_episode_id r) @ le_bytes 4 (ir_model_id r) @
     le_bytes 4 (ir_record_size r) @ le_bytes 8 (ir_ts_usec r) @ le_bytes 4 (ir_goodput r) @
     le_bytes 2 (ir_profile_len r) @ le_bytes 2 (ir_reserved r) @ concat (map (le_bytes 4) (ir_profile r))"

definition ifr_zero :: ifr_record where
  "ifr_zero = \<lparr>ir_magic = 0, ir_version = 0, ir_flags = 0, ir_job_id = 0, ir_episode_id = 0, ir_model_id = 0,
     ir_record_size = 0, ir_ts_usec = 0, ir_goodput = 0, ir_profile_len = 0, ir_reserved = 0,
     ir_profile = replicate 16 0, ir_hash = replicate 32 0\<rparr>"

definition copy_profile :: "u32 list \<Rightarrow> u16 \<Rightarrow> ifr_record \<Rightarrow> ifr_record" where
  "copy_profile profile n r =
     wfor 0 n (\<lambda>i r. r\<lparr>ir_profile := (ir_profile r)[unat i := profile ! unat i]\<rparr>) (r\<lparr>ir_profile_len := n\<rparr>)"

definition ifr_build ::
    "sha256_ctx \<Rightarrow> u32 \<Rightarrow> u32 \<Rightarrow> u32 \<Rightarrow> u32 list option \<Rightarrow> u16 \<Rightarrow> u32 \<Rightarrow> 'a ktime_scheme \<Rightarrow> ifr_record \<times> 'a ktime_scheme" where
  "ifr_build stack job_id episode_id model_id profile profile_len goodput s =
     (let (now, s) = time_usec s;
          r = ifr_zero\<lparr>ir_magic := IFR_MAGIC, ir_version := IFR_VERSION_V2, ir_flags := 0, ir_job_id := job_id,
            ir_episode_id := episode_id, ir_model_id := model_id, ir_record_size := IFR_RECORD_SIZE,
            ir_ts_usec := now, ir_goodput := goodput\<rparr>;
          r = (case profile of None \<Rightarrow> r
               | Some p \<Rightarrow> if profile_len > 0
                   then copy_profile p (if profile_len > IFR_PROFILE_MAX then IFR_PROFILE_MAX else profile_len) r
                   else r)
      in (r\<lparr>ir_hash := sha256_hash stack (ifr_bytes r)\<rparr>, s))"

definition ifr_verify :: "sha256_ctx \<Rightarrow> ifr_record \<Rightarrow> bool" where
  "ifr_verify stack r =
     (if ir_magic r \<noteq> IFR_MAGIC then False
      else if ir_version r \<noteq> IFR_VERSION_V2 then False
      else if ir_record_size r \<noteq> IFR_RECORD_SIZE then False
      else if ir_profile_len r > IFR_PROFILE_MAX then False
      else sha256_hash stack (ifr_bytes r) = ir_hash r)"

record ifr_record_v3 =
  i3_magic :: u32
  i3_version :: u16
  i3_flags :: u16
  i3_record_size :: u32
  i3_job_id :: u32
  i3_episode_id :: u32
  i3_model_id :: u32
  i3_ts_usec :: u64
  i3_goodput :: u32
  i3_nonce :: "u8 list"
  i3_model_digest :: "u8 list"
  i3_policy_digest :: "u8 list"
  i3_flightrec_seal_hash :: "u8 list"
  i3_prev_chain_hash :: "u8 list"
  i3_ifr_hash :: "u8 list"
  i3_chain_hash :: "u8 list"
  i3_sig_classical :: "u8 list"

definition ifr_v3_bytes :: "ifr_record_v3 \<Rightarrow> u8 list" where
  "ifr_v3_bytes r = le_bytes 4 (i3_magic r) @ le_bytes 2 (i3_version r) @ le_bytes 2 (i3_flags r) @
     le_bytes 4 (i3_record_size r) @ le_bytes 4 (i3_job_id r) @ le_bytes 4 (i3_episode_id r) @
     le_bytes 4 (i3_model_id r) @ le_bytes 8 (i3_ts_usec r) @ le_bytes 4 (i3_goodput r) @
     i3_nonce r @ i3_model_digest r @ i3_policy_digest r @ i3_flightrec_seal_hash r @ i3_prev_chain_hash r"

definition ifr_v3_zero :: ifr_record_v3 where
  "ifr_v3_zero = \<lparr>i3_magic = 0, i3_version = 0, i3_flags = 0, i3_record_size = 0, i3_job_id = 0, i3_episode_id = 0,
     i3_model_id = 0, i3_ts_usec = 0, i3_goodput = 0, i3_nonce = replicate 32 0, i3_model_digest = replicate 32 0,
     i3_policy_digest = replicate 32 0, i3_flightrec_seal_hash = replicate 32 0, i3_prev_chain_hash = replicate 32 0,
     i3_ifr_hash = replicate 32 0, i3_chain_hash = replicate 32 0, i3_sig_classical = replicate 64 0\<rparr>"

definition fill_nonce :: "sha256_ctx \<Rightarrow> 'a ktime_scheme \<Rightarrow> u8 list \<times> 'a ktime_scheme" where
  "fill_nonce stack s =
     (let ctx = sha256_init stack; (t, s) = time_usec s; (c, s) = time_cycles s
      in (sha256_final (sha256_update (le_bytes 8 c) (sha256_update (le_bytes 8 t) ctx)), s))"

definition compute_model_digest ::
    "sha256_ctx \<Rightarrow> u32 \<Rightarrow> ifr_record_v3 \<Rightarrow> 'a ipc_heap_scheme \<Rightarrow> (ifr_record_v3 \<times> 'a ipc_heap_scheme) option" where
  "compute_model_digest stack model_id r s =
     (case heap_get_data (ucast model_id) s of
        None \<Rightarrow> None
      | Some (data, s) \<Rightarrow>
          (case heap_get_blob_size (ucast model_id) s of
             None \<Rightarrow> None
           | Some (n, s) \<Rightarrow>
               (case data of
                  Some off \<Rightarrow>
                    if n = 0 then Some (r\<lparr>i3_model_digest := replicate 32 0, i3_flags := i3_flags r OR IFR_FLAG_MODEL_DIGEST_MISSING\<rparr>, s)
                    else Some (r\<lparr>i3_model_digest := sha256_hash stack
                       (map (\<lambda>i. shm s (IPC_HEAP_DATA_OFFSET + unat off + i)) [0..<unat n])\<rparr>, s)
                | None \<Rightarrow> Some (r\<lparr>i3_model_digest := replicate 32 0, i3_flags := i3_flags r OR IFR_FLAG_MODEL_DIGEST_MISSING\<rparr>, s))))"

text \<open>The string \<^verbatim>\<open>zenedge-policy-v1\<close>.\<close>

definition policy_string :: "u8 list" where
  "policy_string = [0x7A, 0x65, 0x6E, 0x65, 0x64, 0x67, 0x65, 0x2D, 0x70, 0x6F, 0x6C, 0x69, 0x63, 0x79, 0x2D, 0x76, 0x31]"

definition compute_policy_digest :: "sha256_ctx \<Rightarrow> ifr_record_v3 \<Rightarrow> ifr_record_v3" where
  "compute_policy_digest stack r =
     r\<lparr>i3_policy_digest := sha256_hash stack policy_string, i3_flags := i3_flags r OR IFR_FLAG_POLICY_DIGEST_PLACEHOLDER\<rparr>"

definition chain_of :: "sha256_ctx \<Rightarrow> ifr_record_v3 \<Rightarrow> u8 list" where
  "chain_of stack r =
     sha256_final (fold sha256_update [i3_prev_chain_hash r, i3_ifr_hash r, i3_flightrec_seal_hash r, i3_nonce r,
       i3_model_digest r, i3_policy_digest r] (sha256_init stack))"

definition seal_v3 :: "sha256_ctx \<Rightarrow> ifr_record_v3 \<Rightarrow> ifr_record_v3" where
  "seal_v3 stack r =
     (let r = r\<lparr>i3_ifr_hash := sha256_hash stack (ifr_v3_bytes r)\<rparr>;
          r = r\<lparr>i3_chain_hash := chain_of stack r\<rparr>
      in r\<lparr>i3_sig_classical := replicate 64 0, i3_flags := i3_flags r OR IFR_FLAG_SIG_UNAVAILABLE\<rparr>)"

definition ifr_build_v3 ::
    "sha256_ctx \<Rightarrow> u8 list option \<Rightarrow> u32 \<Rightarrow> u32 \<Rightarrow> u32 \<Rightarrow> u32 \<Rightarrow> 'a ipc_heap_scheme \<Rightarrow>
     (ifr_record_v3 \<times> 'a ipc_heap_scheme) option" where
  "ifr_build_v3 stack prev_chain_hash job_id episode_id model_id goodput s =
     (let (now, s) = time_usec s;
          r = ifr_v3_zero\<lparr>i3_magic := IFR_MAGIC, i3_version := IFR_VERSION_V3, i3_flags := 0,
            i3_record_size := IFR_V3_RECORD_SIZE, i3_job_id := job_id, i3_episode_id := episode_id,
            i3_model_id := model_id, i3_ts_usec := now, i3_goodput := goodput\<rparr>;
          (nonce, s) = fill_nonce stack s
      in case compute_model_digest stack model_id (r\<lparr>i3_nonce := nonce\<rparr>) s of
           None \<Rightarrow> None
         | Some (r, s) \<Rightarrow>
             let r = compute_policy_digest stack r;
                 r = (case prev_chain_hash of None \<Rightarrow> r | Some h \<Rightarrow> r\<lparr>i3_prev_chain_hash := take 32 h\<rparr>);
                 r = r\<lparr>i3_flightrec_seal_hash := flightrec_seal_hash stack s\<rparr>
             in Some (seal_v3 stack r, s))"

definition ifr_verify_v3 :: "sha256_ctx \<Rightarrow> ifr_record_v3 \<Rightarrow> bool" where
  "ifr_verify_v3 stack r =
     (if i3_magic r \<noteq> IFR_MAGIC then False
      else if i3_version r \<noteq> IFR_VERSION_V3 then False
      else if i3_record_size r \<noteq> IFR_V3_RECORD_SIZE then False
      else if sha256_hash stack (ifr_v3_bytes r) \<noteq> i3_ifr_hash r then False
      else chain_of stack r = i3_chain_hash r)"

section \<open>The seal covers the log\<close>

lemma fold_update_pieces:
  "sha256_final (fold sha256_update ps (sha256_update p (sha256_init stack))) = fips_sha256 (p @ concat ps)"
  using sha256_pieces_fips [of "p # ps" stack] by simp

text \<open>
  The seal is the SHA-256 digest of the write position followed by the bytes of the events of the
  trace log, oldest first, so it covers exactly the events the recorder still holds.
\<close>

theorem flightrec_seal_hash_log:
  "flightrec_seal_hash stack s = fips_sha256 (le_bytes 4 (fr_head s) @ concat (map event_bytes (trace_log s)))"
proof -
  let ?h = "fr_head s"
  define count where "count = (if ?h > TRACE_BUF_SIZE then TRACE_BUF_SIZE else ?h)"
  define start where "start = (if ?h > TRACE_BUF_SIZE then ?h - TRACE_BUF_SIZE else 0)"
  have nat: "unat count = unat ?h - unat start" "unat start = unat ?h - 256" "unat start \<le> unat ?h"
    by (auto simp: count_def start_def TRACE_BUF_SIZE_def word_less_nat_alt unat_sub_if')
  have idx: "unat ((start + of_nat i) AND TRACE_BUF_MASK) = (unat start + i) mod 256" if "i < unat count" for i
  proof -
    have lt: "unat start + i < 4294967296" using that nat unat_u32_less [of ?h] by linarith
    then have "unat (start + of_nat i) = unat start + i" by (simp add: unat_word_ariths unat_of_nat_u32)
    then show ?thesis by (simp add: and_mask_mod)
  qed
  let ?ev = "\<lambda>i :: u32. event_bytes (fr_buf s (unat ((start + i) AND TRACE_BUF_MASK)))"
  have "map (\<lambda>i. ?ev (of_nat i)) [0..<unat count] = map (\<lambda>i. event_bytes (fr_buf s ((unat start + i) mod 256))) [0..<unat count]"
    using idx by simp
  also have "\<dots> = map event_bytes (trace_log s)"
  proof -
    have "[unat ?h - 256..<unat ?h] = map (\<lambda>i. unat start + i) [0..<unat count]"
      using nat by (simp add: map_add_upt add.commute)
    then show ?thesis by (simp add: trace_log_def)
  qed
  finally have evs: "map ?ev (map of_nat [0..<unat count]) = map event_bytes (trace_log s)" by (simp add: comp_def)
  have "flightrec_seal_hash stack s =
      sha256_final (fold (\<lambda>i. sha256_update (?ev i)) (map of_nat [0..<unat count]) (sha256_update (le_bytes 4 ?h) (sha256_init stack)))"
    by (simp add: flightrec_seal_hash_def Let_def wfor_fold count_def start_def)
  also have "\<dots> = sha256_final (fold sha256_update (map ?ev (map of_nat [0..<unat count])) (sha256_update (le_bytes 4 ?h) (sha256_init stack)))"
    by (simp add: fold_map comp_def)
  finally show ?thesis unfolding evs by (simp add: fold_update_pieces)
qed

section \<open>Records of version 2\<close>

lemma copy_profile_fields:
  assumes "length (ir_profile r) = 16"
  shows "length (ir_profile (copy_profile p n r)) = 16 \<and>
    (\<exists>q. copy_profile p n r = r\<lparr>ir_profile_len := n, ir_profile := q\<rparr>)"
  unfolding copy_profile_def
  by (rule wfor_preserves [where Q = "\<lambda>t. length (ir_profile t) = 16 \<and> (\<exists>q. t = r\<lparr>ir_profile_len := n, ir_profile := q\<rparr>)"])
     (use assms in \<open>auto intro: exI [of _ "ir_profile r"]\<close>)

text \<open>
  A record that \<open>ifr_build\<close> makes passes \<open>ifr_verify\<close>, carries the arguments of the call and the
  current time, and truncates the profile to 16 entries.
\<close>

theorem ifr_build_verifies:
  "ifr_verify stack' (fst (ifr_build stack job_id episode_id model_id profile profile_len goodput s)) \<and>
   (let r = fst (ifr_build stack job_id episode_id model_id profile profile_len goodput s)
    in ir_job_id r = job_id \<and> ir_episode_id r = episode_id \<and> ir_model_id r = model_id \<and>
       ir_goodput r = goodput \<and> ir_ts_usec r = fst (time_usec s) \<and> length (ir_profile r) = 16)"
proof -
  obtain now u where u: "time_usec s = (now, u)" by fastforce
  let ?r = "ifr_zero\<lparr>ir_magic := IFR_MAGIC, ir_version := IFR_VERSION_V2, ir_flags := 0, ir_job_id := job_id,
    ir_episode_id := episode_id, ir_model_id := model_id, ir_record_size := IFR_RECORD_SIZE,
    ir_ts_usec := now, ir_goodput := goodput\<rparr>"
  let ?n = "if profile_len > IFR_PROFILE_MAX then IFR_PROFILE_MAX else profile_len"
  let ?q = "case profile of None \<Rightarrow> ?r | Some p \<Rightarrow> if profile_len > 0 then copy_profile p ?n ?r else ?r"
  have build: "fst (ifr_build stack job_id episode_id model_id profile profile_len goodput s) =
      ?q\<lparr>ir_hash := sha256_hash stack (ifr_bytes ?q)\<rparr>"
    by (simp add: ifr_build_def u Let_def)
  have n: "?n \<le> IFR_PROFILE_MAX" by (auto simp: not_less)
  have "length (ir_profile ?q) = 16 \<and> (\<exists>l v. ?q = ?r\<lparr>ir_profile_len := l, ir_profile := v\<rparr> \<and> l \<le> IFR_PROFILE_MAX)"
  proof (cases "profile = None \<or> profile_len = 0")
    case True
    then have "?q = ?r" by (auto split: option.splits)
    then show ?thesis
      by (auto simp: ifr_zero_def intro!: exI [of _ 0] exI [of _ "replicate 16 0"])
  next
    case False
    then obtain p where "?q = copy_profile p ?n ?r" by (auto simp: word_gt_0)
    then show ?thesis using copy_profile_fields [of ?r p ?n] n by (auto simp: ifr_zero_def)
  qed
  then obtain l v where q: "?q = ?r\<lparr>ir_profile_len := l, ir_profile := v\<rparr>" "l \<le> IFR_PROFILE_MAX" "length (ir_profile ?q) = 16"
    by blast
  have "ifr_bytes (r\<lparr>ir_hash := h\<rparr>) = ifr_bytes r" for r h by (simp add: ifr_bytes_def)
  then have "ifr_verify stack' (fst (ifr_build stack job_id episode_id model_id profile profile_len goodput s))"
    unfolding build using q(1,2) by (simp add: ifr_verify_def sha256_hash_fips not_less)
  moreover have "length v = 16" using q(1,3) by simp
  ultimately show ?thesis unfolding build Let_def q(1) by (simp add: u)
qed

lemma concat_le_bytes_inject:
  fixes xs ys :: "u32 list"
  assumes "length xs = length ys"
  shows "concat (map (le_bytes 4) xs) = concat (map (le_bytes 4) ys) \<longleftrightarrow> xs = ys"
  using assms by (induction xs ys rule: list_induct2) (simp_all add: le_bytes_inject)

lemma ifr_bytes_inject:
  assumes "length (ir_profile r) = 16" and "length (ir_profile r') = 16" and "ifr_bytes r = ifr_bytes r'"
    and "ir_hash r = ir_hash r'"
  shows "r = r'"
proof -
  note eq = assms(3) [unfolded ifr_bytes_def append_eq_append_conv [OF disjI1 [OF trans [OF length_le_bytes length_le_bytes [symmetric]]]]]
  have "ir_profile r = ir_profile r'" using eq assms(1,2) concat_le_bytes_inject by simp
  then show ?thesis using eq assms(4) by (intro ifr_record.equality) (simp_all add: le_bytes_inject)
qed


section \<open>Records of version 3\<close>

lemma seal_v3_fields:
  "i3_ifr_hash (seal_v3 stack r) = fips_sha256 (ifr_v3_bytes r)"
  "ifr_v3_bytes (seal_v3 stack r) = ifr_v3_bytes (r\<lparr>i3_flags := i3_flags r OR IFR_FLAG_SIG_UNAVAILABLE\<rparr>)"
  by (simp_all add: seal_v3_def Let_def ifr_v3_bytes_def sha256_hash_fips)

lemma v3_bytes_flags:
  "ifr_v3_bytes (r\<lparr>i3_flags := f\<rparr>) = ifr_v3_bytes r \<longleftrightarrow> f = i3_flags r"
  by (simp add: ifr_v3_bytes_def le_bytes_inject)

lemma flag_clear:
  assumes "bit f 0 = False"
  shows "f OR IFR_FLAG_SIG_UNAVAILABLE \<noteq> f"
proof
  assume "f OR IFR_FLAG_SIG_UNAVAILABLE = f"
  then have "bit (f OR 1) 0 = bit f 0" by (simp add: IFR_FLAG_SIG_UNAVAILABLE_def)
  then show False using assms by (simp add: bit_simps)
qed

text \<open>The flags that the record has when it is hashed do not include the signature flag.\<close>

definition unsealed :: "ifr_record_v3 \<Rightarrow> bool" where
  "unsealed r \<longleftrightarrow> \<not> bit (i3_flags r) 0 \<and> i3_magic r = IFR_MAGIC \<and> i3_version r = IFR_VERSION_V3 \<and>
     i3_record_size r = IFR_V3_RECORD_SIZE"

lemma compute_model_digest_unsealed:
  "compute_model_digest stack model_id r s = Some (r', s') \<Longrightarrow> unsealed r \<Longrightarrow> unsealed r'"
  by (auto simp: compute_model_digest_def unsealed_def IFR_FLAG_MODEL_DIGEST_MISSING_def bit_simps bit_numeral_rec
      split: option.splits if_splits)

lemma ifr_build_v3_sealed:
  assumes "ifr_build_v3 stack prev job_id episode_id model_id goodput s = Some (r, t)"
  shows "\<exists>q. r = seal_v3 stack q \<and> unsealed q"
proof -
  obtain now u nonce v where u: "time_usec s = (now, u)" "fill_nonce stack u = (nonce, v)" by fastforce
  let ?r = "ifr_v3_zero\<lparr>i3_magic := IFR_MAGIC, i3_version := IFR_VERSION_V3, i3_flags := 0,
    i3_record_size := IFR_V3_RECORD_SIZE, i3_job_id := job_id, i3_episode_id := episode_id,
    i3_model_id := model_id, i3_ts_usec := now, i3_goodput := goodput, i3_nonce := nonce\<rparr>"
  obtain r1 w where r1: "compute_model_digest stack model_id ?r v = Some (r1, w)"
    using assms u by (auto simp: ifr_build_v3_def Let_def split: option.splits)
  have "unsealed ?r" by (simp add: unsealed_def)
  then have un: "unsealed r1" by (rule compute_model_digest_unsealed [OF r1])
  let ?q = "(case prev of None \<Rightarrow> compute_policy_digest stack r1
      | Some h \<Rightarrow> (compute_policy_digest stack r1)\<lparr>i3_prev_chain_hash := take 32 h\<rparr>)
    \<lparr>i3_flightrec_seal_hash := flightrec_seal_hash stack w\<rparr>"
  have "r = seal_v3 stack ?q" using assms u r1 by (auto simp: ifr_build_v3_def Let_def)
  moreover have "unsealed ?q" using un
    by (simp add: unsealed_def compute_policy_digest_def IFR_FLAG_POLICY_DIGEST_PLACEHOLDER_def bit_simps bit_numeral_rec
        split: option.splits)
  ultimately show ?thesis by blast
qed

lemma chain_of_fips:
  "chain_of stack r = fips_sha256 (i3_prev_chain_hash r @ i3_ifr_hash r @ i3_flightrec_seal_hash r @ i3_nonce r @
     i3_model_digest r @ i3_policy_digest r)"
  unfolding chain_of_def sha256_pieces_fips by simp

lemma seal_v3_chain: "chain_of stack' (seal_v3 stack r) = i3_chain_hash (seal_v3 stack r)"
  by (simp add: seal_v3_def Let_def chain_of_fips)

text \<open>
  \<open>ifr_build_v3\<close> sets the signature-unavailable flag after it has hashed the record. The hash in
  the record it returns is the digest of other bytes than those \<open>ifr_verify_v3\<close> hashes, so the kernel
  accepts its own record if and only if these two byte strings are a SHA-256 collision.
\<close>

theorem ifr_v3_verifies_only_on_collision:
  assumes "ifr_build_v3 stack prev job_id episode_id model_id goodput s = Some (r, t)"
  shows "\<exists>x. x \<noteq> ifr_v3_bytes r \<and> i3_ifr_hash r = fips_sha256 x \<and>
    (ifr_verify_v3 stack' r \<longleftrightarrow> fips_sha256 (ifr_v3_bytes r) = fips_sha256 x)"
proof -
  obtain q where q: "r = seal_v3 stack q" "unsealed q" using ifr_build_v3_sealed [OF assms] by blast
  have "ifr_v3_bytes (q\<lparr>i3_flags := i3_flags q OR IFR_FLAG_SIG_UNAVAILABLE\<rparr>) \<noteq> ifr_v3_bytes q"
    unfolding v3_bytes_flags by (rule flag_clear) (use q(2) in \<open>simp add: unsealed_def\<close>)
  then have "ifr_v3_bytes q \<noteq> ifr_v3_bytes r" unfolding q(1) seal_v3_fields by (rule not_sym)
  moreover have "i3_magic r = IFR_MAGIC" "i3_version r = IFR_VERSION_V3" "i3_record_size r = IFR_V3_RECORD_SIZE"
    using q by (simp_all add: seal_v3_def Let_def unsealed_def)
  then have "ifr_verify_v3 stack' r \<longleftrightarrow> fips_sha256 (ifr_v3_bytes r) = fips_sha256 (ifr_v3_bytes q)"
    using seal_v3_chain [of stack' stack q]
    by (simp add: ifr_verify_v3_def sha256_hash_fips) (simp add: q(1) seal_v3_fields)
  ultimately show ?thesis using q(1) seal_v3_fields(1) by blast
qed

section \<open>Witnesses\<close>

definition no_ctx :: sha256_ctx where
  "no_ctx = sha256_init \<lparr>sha_state = [], bitlen = 0, datalen = 0, sha_data = (\<lambda>_. 0)\<rparr>"

definition sample_record :: ifr_record where
  "sample_record = ifr_zero\<lparr>ir_magic := IFR_MAGIC, ir_version := IFR_VERSION_V2, ir_record_size := IFR_RECORD_SIZE\<rparr>"

definition sealed_record :: ifr_record where
  "sealed_record = sample_record\<lparr>ir_hash := fips_sha256 (ifr_bytes sample_record)\<rparr>"


theorem ifr_v3_verifies_only_on_collision_witness:
  "\<exists>r t x. ifr_build_v3 no_ctx None 1 2 3 4 boot_window = Some (r, t) \<and> x \<noteq> ifr_v3_bytes r \<and> i3_ifr_hash r = fips_sha256 x"
proof -
  have "heap_get_data b (u :: ipc_heap) = Some (None, u)" "heap_get_blob_size b u = Some (0, u)" if "\<not> heap_up u" for b u
    using that by (simp_all add: heap_get_data_def heap_get_blob_size_def heap_get_blob_def)
  moreover have "\<not> heap_up (snd (fill_nonce no_ctx (snd (time_usec boot_window))))"
    by (simp add: fill_nonce_def time_usec_def time_cycles_def rdtsc_def boot_window_def Let_def)
  ultimately have "\<exists>r t. ifr_build_v3 no_ctx None 1 2 3 4 boot_window = Some (r, t)"
    by (simp add: ifr_build_v3_def Let_def split_beta compute_model_digest_def)
  then obtain r t where "ifr_build_v3 no_ctx None 1 2 3 4 boot_window = Some (r, t)" by blast
  with ifr_v3_verifies_only_on_collision [OF this, of no_ctx] show ?thesis by blast
qed

end
