(* ===== verification/Sched.thy ===== *)
theory Sched
  imports Contracts Ipc
begin

text \<open>
  The job scheduler (\<^verbatim>\<open>kernel/sched/sched_core.c\<close>): \<open>sched_run_job\<close> executes the ready steps of a job
  one after the other until none is ready, offloading compute steps to the bridge and logging each
  step. The other side of the window acts during every pause (\<open>other\<close>) and every sleep of the
  programmable timer (\<open>sleep\<close>); both are arguments, as are the time-stamp readings of the state. The
  list of executed step identifiers is part of the result, for the statements about the order.
\<close>

section \<open>One step\<close>

text \<open>
  The adaptive polling loop: it spins while less than 100 ms have passed on the time-stamp counter
  and sleeps 1 ms per round afterwards. A counter that does not advance makes it spin forever:
  \<open>None\<close>.
\<close>

partial_function (option) wait_response ::
    "(mem \<Rightarrow> mem) \<Rightarrow> (mem \<Rightarrow> mem) \<Rightarrow> u64 \<Rightarrow> nat \<Rightarrow> 'a ipc_scheme \<Rightarrow> (ipc_response option \<times> 'a ipc_scheme) option" where
  "wait_response other sleep wait_start timeout_ms s =
     (if timeout_ms = 0 then Some (None, s)
      else case ipc_poll_response other s of
        None \<Rightarrow> None
      | Some (Some rsp, s) \<Rightarrow> Some (Some rsp, s)
      | Some (None, s) \<Rightarrow>
          let (now, s) = rdtsc s
          in if cycles_to_usec s (now - wait_start) < 100000
             then wait_response other sleep wait_start timeout_ms s
             else wait_response other sleep wait_start (timeout_ms - 1) (s\<lparr>shm := sleep (shm s)\<rparr>))"

definition step_payload :: "job_step \<Rightarrow> u32" where
  "step_payload s = (if num_inputs s > 0 then inputs s 0 else 0)"

definition execute_step ::
    "(mem \<Rightarrow> mem) \<Rightarrow> (mem \<Rightarrow> mem) \<Rightarrow> job_step \<Rightarrow> 'a ipc_scheme \<Rightarrow> 'a ipc_scheme option" where
  "execute_step other sleep step s =
     (if st_type step \<noteq> STEP_TYPE_COMPUTE then Some s
      else let (_, s) = rdtsc s
        in case ipc_send CMD_RUN_MODEL (step_payload step) s of
             None \<Rightarrow> None
           | Some (r, s) \<Rightarrow>
               if r \<noteq> 0 then Some s
               else let (wait_start, s) = rdtsc s
                 in case wait_response other sleep wait_start 5000 s of
                      None \<Rightarrow> None
                    | Some (None, s) \<Rightarrow> Some s
                    | Some (Some _, s) \<Rightarrow> Some (snd (rdtsc s)))"

section \<open>The job\<close>

definition check_budget :: "u32 \<Rightarrow> u32 \<Rightarrow> u32 \<Rightarrow> u8 \<Rightarrow> 'a flightrec_scheme \<Rightarrow> 'a flightrec_scheme" where
  "check_budget budget job_id sid nsteps s =
     (let step_duration = flightrec_last_duration job_id sid s;
          per_step_budget = ucast (budget div ucast nsteps) :: u64
      in if step_duration > per_step_budget
         then flightrec_log TRACE_EVT_CONTRACT_BUDGET_EXCEED job_id sid (ucast step_duration) s
         else if step_duration > (per_step_budget * 80) div 100
         then flightrec_log TRACE_EVT_CONTRACT_BUDGET_WARN job_id sid (ucast step_duration) s
         else s)"

definition sched_step ::
    "(mem \<Rightarrow> mem) \<Rightarrow> (mem \<Rightarrow> mem) \<Rightarrow> u32 \<Rightarrow> u32 \<Rightarrow> job_step \<Rightarrow> job_graph \<Rightarrow> 'a ipc_scheme \<Rightarrow>
     (job_graph \<times> 'a ipc_scheme) option" where
  "sched_step other sleep budget sid step job s =
     (let (span, s) = flightrec_begin_span TRACE_EVT_STEP_START (jg_id job) sid s
      in case execute_step other sleep step s of
           None \<Rightarrow> None
         | Some s \<Rightarrow>
             let s = flightrec_end_span span TRACE_EVT_STEP_END s;
                 s = check_budget budget (jg_id job) sid (num_steps job) s
             in Some (job_graph_mark_completed sid job, s))"

partial_function (option) sched_loop ::
    "(mem \<Rightarrow> mem) \<Rightarrow> (mem \<Rightarrow> mem) \<Rightarrow> u32 \<Rightarrow> u32 list \<Rightarrow> job_graph \<Rightarrow> 'a ipc_scheme \<Rightarrow>
     (u32 list \<times> job_graph \<times> 'a ipc_scheme) option" where
  "sched_loop other sleep budget executed job s =
     (let sid = job_graph_next_ready job
      in if sid < 0 then Some (executed, job, s)
         else case job_graph_get_step job (word_of_int sid) of
           None \<Rightarrow> Some (executed, job, s)
         | Some step \<Rightarrow>
             (case sched_step other sleep budget (word_of_int sid) step job s of
                None \<Rightarrow> None
              | Some (job, s) \<Rightarrow> sched_loop other sleep budget (executed @ [word_of_int sid]) job s))"

definition sched_run_job ::
    "(mem \<Rightarrow> mem) \<Rightarrow> (mem \<Rightarrow> mem) \<Rightarrow> job_graph \<Rightarrow> task_contract \<Rightarrow> 'a ipc_scheme \<Rightarrow>
     (u32 list \<times> job_graph \<times> trace_job_stats \<times> 'a ipc_scheme) option" where
  "sched_run_job other sleep job c s =
     (let s = flightrec_log TRACE_EVT_JOB_SUBMIT (jg_id job) 0 (ucast (num_steps job)) s
      in case sched_loop other sleep (cpu_budget_us c) [] job s of
           None \<Rightarrow> None
         | Some (executed, job, s) \<Rightarrow>
             let s = flightrec_log TRACE_EVT_JOB_COMPLETE (jg_id job) 0 0 s
             in Some (executed, job, flightrec_get_job_stats (jg_id job) s, s))"

section \<open>What logging leaves alone\<close>

definition io_view :: "'a ipc_scheme \<Rightarrow> bool \<times> mem \<times> (nat \<Rightarrow> u64) \<times> u32" where
  "io_view s = (ipc_up s, shm s, tsc s, cycles_per_usec s)"

lemma io_view_time [simp]:
  "io_view (snd (rdtsc s)) = io_view s" "io_view (snd (time_cycles s)) = io_view s" "io_view (snd (time_usec s)) = io_view s"
  by (simp_all add: io_view_def rdtsc_def time_cycles_def time_usec_def)

lemma io_view_log [simp]: "io_view (flightrec_log t j st x s) = io_view s"
  by (simp add: flightrec_log_def Let_def split_beta)
     (simp add: io_view_def time_cycles_def time_usec_def rdtsc_def)

lemma io_view_spans [simp]: "io_view (s\<lparr>fr_spans := x\<rparr>) = io_view s"
  by (simp add: io_view_def)

lemma io_view_begin [simp]: "io_view (snd (flightrec_begin_span t j st s)) = io_view s"
  by (simp add: flightrec_begin_span_def Let_def split_beta split: option.splits)

lemma io_view_end [simp]: "io_view (flightrec_end_span sp t s) = io_view s"
  by (simp add: flightrec_end_span_def Let_def split_beta)

lemma io_view_budget [simp]: "io_view (check_budget b j sid n s) = io_view s"
  by (simp add: check_budget_def Let_def)

section \<open>Every step returns\<close>

text \<open>
  The other side keeps the rings consistent and does not take the window away, and the time-stamp
  counter keeps showing more than 100 ms since any earlier reading: the waiting loop then ends.
\<close>

definition clock_fair :: "'a ipc_scheme \<Rightarrow> bool" where
  "clock_fair s \<longleftrightarrow> (\<forall>start n. \<exists>k \<ge> n. \<not> cycles_to_usec s (tsc s k - start) < 100000)"

definition bridge_ok :: "(mem \<Rightarrow> mem) \<Rightarrow> bool" where
  "bridge_ok f \<longleftrightarrow> (\<forall>m. cmd_ok m \<longrightarrow> rsp_ok m \<longrightarrow> cmd_ok (f m) \<and> rsp_ok (f m))"

definition io_ok :: "'a ipc_scheme \<Rightarrow> bool" where
  "io_ok s \<longleftrightarrow> ipc_up s \<and> cmd_ok (shm s) \<and> rsp_ok (shm s) \<and> clock_fair s"

lemma clock_fair_view: "tsc s = tsc t \<Longrightarrow> cycles_per_usec s = cycles_per_usec t \<Longrightarrow> clock_fair s = clock_fair t"
  by (simp add: clock_fair_def cycles_to_usec_def)

lemma io_ok_view: "io_view s = io_view t \<Longrightarrow> io_ok s = io_ok t"
  using clock_fair_view [of s t] by (simp add: io_ok_def io_view_def)

lemma io_ok_shm: "io_ok s \<Longrightarrow> cmd_ok m \<Longrightarrow> rsp_ok m \<Longrightarrow> io_ok (s\<lparr>shm := m\<rparr>)"
  using clock_fair_view [of "s\<lparr>shm := m\<rparr>" s] by (simp add: io_ok_def)

lemma rsp_spin_ok:
  assumes "bridge_ok other" and "cmd_ok m" and "rsp_ok m"
  shows "cmd_ok (rsp_spin k other m) \<and> rsp_ok (rsp_spin k other m)"
  using assms(2,3) by (induction k arbitrary: m) (use assms(1) in \<open>auto simp: bridge_ok_def\<close>)

lemma poll_response_ok:
  assumes "io_ok s" and "bridge_ok other"
  shows "\<exists>r m. ipc_poll_response other s = Some (r, s\<lparr>shm := m\<rparr>) \<and> cmd_ok m \<and> rsp_ok m"
proof -
  let ?B = IPC_RSP_RING_OFFSET
  define m where "m = rsp_spin 5000 other (shm s)"
  have up: "ipc_up s" and mg: "ring_magic ?B (shm s) = IPC_RSP_MAGIC" and ok: "cmd_ok m" "rsp_ok m"
    using assms rsp_spin_ok [OF assms(2), of "shm s" 5000] by (auto simp: io_ok_def rsp_ok_def m_def)
  have rok: "ring_ok ?B IPC_RING_SIZE m" and rmg: "ring_magic ?B m = IPC_RSP_MAGIC"
    using ok(2) by (simp_all add: rsp_ok_def)
  obtain t' where t': "ring_next (ring_tail ?B m) (ring_size ?B m) = Some t'" "ring_next (ring_tail ?B m) IPC_RING_SIZE = Some t'"
    using ok_next(2) [OF rok] by blast
  show ?thesis
  proof (cases "ring_head ?B m = ring_tail ?B m")
    case True
    then have "ipc_poll_response other s = Some (None, s\<lparr>shm := m\<rparr>)"
      using up mg by (simp add: ipc_poll_response_def Let_def m_def [symmetric])
    then show ?thesis using ok by blast
  next
    case False
    let ?t = "set_ring_tail ?B t' m"
    have "rsp_ok ?t" using rsp.advance(2) [OF rok False t'(2)] rmg by (simp add: rsp_ok_def)
    moreover have "same_on 0 0x8000 m ?t"
      using rsp.set_tail_outside [of _ t' m] by (auto intro!: same_onI simp: IPC_RSP_RING_OFFSET_def)
    then have "cmd_ok ?t" using cmd_far(2) ok(1) by blast
    moreover have "ipc_poll_response other s = Some (Some (get_response m (ring_slot ?B 16 (ring_tail ?B m))), s\<lparr>shm := ?t\<rparr>)"
      using up mg False t'(1) by (simp add: ipc_poll_response_def Let_def m_def [symmetric])
    ultimately show ?thesis by blast
  qed
qed

lemma wait_response_returns:
  assumes "bridge_ok other" and "bridge_ok sleep" and "io_ok s"
  shows "\<exists>r t. wait_response other sleep start n s = Some (r, t) \<and> io_ok t"
  using assms(3)
proof (induction n arbitrary: s)
  case 0
  then show ?case by (simp add: wait_response.simps)
next
  case (Suc n)
  obtain k0 where k0: "k0 \<ge> tsc_reads s" "\<not> cycles_to_usec s (tsc s k0 - start) < 100000"
    using Suc.prems by (auto simp: io_ok_def clock_fair_def)
  then show ?case using Suc.prems
  proof (induction "k0 - tsc_reads s" arbitrary: s rule: less_induct)
    case less
    obtain r m where p: "ipc_poll_response other s = Some (r, s\<lparr>shm := m\<rparr>)" "cmd_ok m" "rsp_ok m"
      using poll_response_ok [OF less.prems(3) assms(1)] by blast
    let ?u = "s\<lparr>shm := m, tsc_reads := Suc (tsc_reads s)\<rparr>"
    have rd: "rdtsc (s\<lparr>shm := m\<rparr>) = (tsc s (tsc_reads s), ?u)" by (simp add: rdtsc_def)
    have iu: "io_ok ?u" using io_ok_shm [OF less.prems(3) p(2,3)] io_ok_view [of ?u "s\<lparr>shm := m\<rparr>"] by (simp add: io_view_def)
    have cu: "cycles_to_usec ?u x = cycles_to_usec s x" for x by (simp add: cycles_to_usec_def)
    show ?case
    proof (cases r)
      case (Some rsp)
      then show ?thesis using p io_ok_shm [OF less.prems(3) p(2,3)] by (subst wait_response.simps) simp
    next
      case None
      show ?thesis
      proof (cases "cycles_to_usec s (tsc s (tsc_reads s) - start) < 100000")
        case True
        then have lt: "tsc_reads s < k0" using less.prems(1,2) by (auto simp: order_le_less)
        have "\<exists>r t. wait_response other sleep start (Suc n) ?u = Some (r, t) \<and> io_ok t"
          by (rule less.hyps) (use lt less.prems iu cu in simp_all)
        then show ?thesis using p(1) None rd cu True by (subst wait_response.simps) simp
      next
        case False
        let ?v = "?u\<lparr>shm := sleep m\<rparr>"
        have "io_ok ?v" using io_ok_shm [OF iu] assms(2) p(2,3) by (simp add: bridge_ok_def)
        then have "\<exists>r t. wait_response other sleep start n ?v = Some (r, t) \<and> io_ok t" by (rule Suc.IH)
        then show ?thesis using p(1) None rd cu False by (subst wait_response.simps) simp
      qed
    qed
  qed
qed

lemma ipc_send_ok:
  assumes "io_ok s"
  shows "\<exists>r t. ipc_send cmd payload s = Some (r, t) \<and> io_ok t"
proof -
  let ?B = IPC_CMD_RING_OFFSET and ?m = "shm s"
  obtain now u where u: "time_usec s = (now, u)" by fastforce
  have iu: "io_ok u" using io_ok_view [of u s] io_view_time(3) [of s] u assms by simp
  have up: "ipc_up s" and ok: "cmd_ok ?m" and rok: "rsp_ok ?m" using assms by (simp_all add: io_ok_def)
  have ok': "ring_ok ?B IPC_RING_SIZE ?m" using ok by (simp add: cmd_ok_def)
  obtain h where h: "ring_next (ring_head ?B ?m) (ring_size ?B ?m) = Some h" "ring_next (ring_head ?B ?m) IPC_RING_SIZE = Some h"
    using ok_next(1) [OF ok'] by blast
  show ?thesis
  proof (cases "h = ring_tail ?B ?m")
    case True
    then show ?thesis using up h assms by (simp add: ipc_send_def ipc_send_flags_def Let_def)
  next
    case False
    let ?e = "\<lparr>pk_cmd = cmd, pk_flags = 0, pk_payload_id = payload, pk_timestamp = now\<rparr>"
    let ?p = "set_ring_head ?B h (put_packet ?m (ring_slot ?B 16 (ring_head ?B ?m)) ?e)"
    note push = cmd.push [where e = ?e, OF ok' h(2) False]
    have "same_on 0 0x8000 ?p (ring_cmd_doorbell h ?p)" "same_on 0x8000 0x10000 ?m (ring_cmd_doorbell h ?p)"
      using push(4) by (auto intro!: same_onI simp: ring_cmd_doorbell_outside IPC_CMD_RING_OFFSET_def ring_sizes)
    then have "cmd_ok (ring_cmd_doorbell h ?p)" "rsp_ok (ring_cmd_doorbell h ?p)"
      using cmd_far(2) [of ?p] rsp_far(2) [of ?m] push(2) rok by (auto simp: cmd_ok_def)
    then have "io_ok (u\<lparr>shm := ring_cmd_doorbell h ?p\<rparr>)" by (rule io_ok_shm [OF iu])
    then show ?thesis using up h False u by (simp add: ipc_send_def ipc_send_flags_def Let_def)
  qed
qed

lemma execute_step_ok:
  assumes "io_ok s" and "bridge_ok other" and "bridge_ok sleep"
  shows "\<exists>t. execute_step other sleep step s = Some t \<and> io_ok t"
proof (cases "st_type step = STEP_TYPE_COMPUTE")
  case True
  have rd: "io_ok (snd (rdtsc u)) = io_ok u" for u :: "'a ipc_scheme" by (rule io_ok_view) simp
  obtain a u where u: "rdtsc s = (a, u)" "io_ok u" using rd [of s] assms(1) by (cases "rdtsc s") simp
  obtain r v where v: "ipc_send CMD_RUN_MODEL (step_payload step) u = Some (r, v)" "io_ok v"
    using ipc_send_ok [OF u(2)] by blast
  obtain st w where w: "rdtsc v = (st, w)" "io_ok w" using rd [of v] v(2) by (cases "rdtsc v") simp
  obtain q x where x: "wait_response other sleep st 5000 w = Some (q, x)" "io_ok x"
    using wait_response_returns [OF assms(2,3) w(2)] by blast
  show ?thesis
    using True u v w x rd [of x] by (cases "r = 0"; cases q) (simp_all add: execute_step_def Let_def)
qed (use assms in \<open>simp add: execute_step_def\<close>)

lemma sched_step_ok:
  assumes "io_ok s" and "bridge_ok other" and "bridge_ok sleep"
  shows "\<exists>t. sched_step other sleep budget sid step job s = Some (job_graph_mark_completed sid job, t) \<and> io_ok t"
proof -
  obtain span u where u: "flightrec_begin_span TRACE_EVT_STEP_START (jg_id job) sid s = (span, u)" by fastforce
  then have "io_ok u" using io_ok_view [of u s] io_view_begin [of TRACE_EVT_STEP_START "jg_id job" sid s] assms(1) by simp
  then obtain v where v: "execute_step other sleep step u = Some v" "io_ok v"
    using execute_step_ok [OF _ assms(2,3)] by blast
  let ?t = "check_budget budget (jg_id job) sid (num_steps job) (flightrec_end_span span TRACE_EVT_STEP_END v)"
  have "io_ok ?t" using io_ok_view [of ?t v] v(2) by simp
  then show ?thesis using u v(1) by (simp add: sched_step_def Let_def)
qed

section \<open>Every job ends, in dependency order\<close>

text \<open>The identifiers that a C \<^verbatim>\<open>int\<close> can hold.\<close>

definition small_ids :: "job_graph \<Rightarrow> bool" where
  "small_ids job \<longleftrightarrow> (\<forall>i < num_steps job. st_id (steps job (unat i)) < 0x80000000)"

definition completed_ids :: "job_graph \<Rightarrow> u32 set" where
  "completed_ids job = {st_id (steps job (unat i)) |i. i < num_steps job \<and> completed (steps job (unat i))}"

definition open_ids :: "job_graph \<Rightarrow> u32 set" where
  "open_ids job = {st_id (steps job (unat i)) |i. i < num_steps job \<and> \<not> completed (steps job (unat i))}"

text \<open>
  A list of identifiers is in dependency order if every dependency of a step in it is completed
  beforehand or comes earlier in the list.
\<close>

fun dep_ordered :: "job_graph \<Rightarrow> u32 set \<Rightarrow> u32 list \<Rightarrow> bool" where
  "dep_ordered job before [] = True"
| "dep_ordered job before (x # xs) =
     ((\<forall>i < num_steps job. st_id (steps job (unat i)) = x \<longrightarrow>
        (\<forall>d < num_deps (steps job (unat i)). deps (steps job (unat i)) (unat d) \<in> before)) \<and>
      dep_ordered job (insert x before) xs)"

lemma sint_small_id:
  assumes "(x :: u32) < 0x80000000"
  shows "0 \<le> sint x" and "word_of_int (sint x) = x"
proof -
  have "sint x = int (unat x)" using assms by (intro sint_small) (simp add: word_less_nat_alt)
  then show "0 \<le> sint x" by simp
  show "word_of_int (sint x) = x" by simp
qed

lemma completing_ids:
  assumes "distinct_ids job" and "i < num_steps job"
  defines "sid \<equiv> st_id (steps job (unat i))"
  shows "open_ids (job_graph_mark_completed sid job) = open_ids job - {sid}"
    and "completed_ids (job_graph_mark_completed sid job) = insert sid (completed_ids job)"
proof -
  have done_iff: "completed (steps (job_graph_mark_completed sid job) (unat j)) \<longleftrightarrow> completed (steps job (unat j)) \<or> j = i"
    if "j < num_steps job" for j
  proof -
    have "j \<in> open_steps (job_graph_mark_completed sid job) \<longleftrightarrow> j \<in> open_steps job - {i}"
      using mark_completed_open [OF assms(1,2)] by (simp add: sid_def)
    then show ?thesis using that by (simp add: open_steps_def mark_completed_static) blast
  qed
  have eq: "st_id (steps job (unat j)) = sid \<longleftrightarrow> j = i" if "j < num_steps job" for j
    using assms that by (auto simp: distinct_ids_def)
  show "open_ids (job_graph_mark_completed sid job) = open_ids job - {sid}"
    unfolding open_ids_def mark_completed_static using done_iff eq by auto
  show "completed_ids (job_graph_mark_completed sid job) = insert sid (completed_ids job)"
    unfolding completed_ids_def mark_completed_static using done_iff eq assms(2) by (auto simp: sid_def)
qed

lemma dep_ordered_static: "dep_ordered (job_graph_mark_completed a job) before xs = dep_ordered job before xs"
  by (induction xs arbitrary: before) (simp_all add: mark_completed_static)

lemma small_ids_static: "small_ids (job_graph_mark_completed a job) = small_ids job"
  by (simp add: small_ids_def mark_completed_static)

lemma dep_done_completed: "dep_done job d \<Longrightarrow> d \<in> completed_ids job"
  by (auto simp: dep_done_def completed_ids_def split: option.splits dest: find_step_SomeD)

lemma open_ids_empty: "open_ids job = {} \<longleftrightarrow> open_steps job = {}"
  by (auto simp: open_ids_def open_steps_def)

text \<open>What a run of the loop does, from the list \<open>xs\<close> of steps it executes.\<close>

definition run_spec :: "job_graph \<Rightarrow> u32 list \<Rightarrow> job_graph \<Rightarrow> bool" where
  "run_spec job xs job' \<longleftrightarrow> distinct xs \<and> set xs \<subseteq> open_ids job \<and> dep_ordered job (completed_ids job) xs \<and>
     open_ids job' = open_ids job - set xs \<and> completed_ids job' = completed_ids job \<union> set xs \<and>
     job_wf job' \<and> next_ready_index job' = None \<and>
     (\<forall>rank. ranked rank job' = ranked rank job) \<and> (ready_complete job \<longrightarrow> ready_complete job')"

lemma sched_loop_runs:
  assumes "job_wf job" "distinct_ids job" "small_ids job" "io_ok s" and br: "bridge_ok other" "bridge_ok sleep"
  shows "\<exists>xs job' t. sched_loop other sleep budget executed job s = Some (executed @ xs, job', t) \<and>
    io_ok t \<and> run_spec job xs job'"
  using assms(1-4)
proof (induction "card (open_steps job)" arbitrary: job s executed rule: less_induct)
  case less
  show ?case
  proof (cases "next_ready_index job")
    case None
    then have "sched_loop other sleep budget executed job s = Some (executed, job, s)"
      by (subst sched_loop.simps) (simp add: job_graph_next_ready_def)
    then show ?thesis using less.prems None by (intro exI [of _ "[]"] exI [of _ job] exI [of _ s]) (simp add: run_spec_def)
  next
    case (Some i)
    let ?sid = "st_id (steps job (unat i))"
    let ?job = "job_graph_mark_completed ?sid job"
    have op: "i \<in> open_steps job" and deps: "\<forall>d < num_deps (steps job (unat i)). dep_done job (deps (steps job (unat i)) (unat d))"
      using next_ready_sound [OF less.prems(1) Some] by auto
    have i: "i < num_steps job" "\<not> completed (steps job (unat i))" using op by (simp_all add: open_steps_def)
    note id = sint_small_id [of ?sid]
    have sm: "?sid < 0x80000000" using less.prems(3) i by (simp add: small_ids_def)
    have step: "job_graph_get_step job ?sid = Some (steps job (unat i))"
      using find_step_distinct [OF less.prems(2) i(1)] by (simp add: job_graph_get_step_def)
    obtain u where u: "sched_step other sleep budget ?sid (steps job (unat i)) job s = Some (?job, u)" "io_ok u"
      using sched_step_ok [OF less.prems(4) br] by blast
    have unfold: "sched_loop other sleep budget executed job s = sched_loop other sleep budget (executed @ [?sid]) ?job u"
      using Some id(1) [OF sm] id(2) [OF sm] step u(1)
      by (subst sched_loop.simps) (simp add: job_graph_next_ready_def not_less [symmetric])
    have fewer: "card (open_steps ?job) < card (open_steps job)"
      unfolding mark_completed_open [OF less.prems(2) i(1)] by (rule card_Diff1_less) (use op in simp_all)
    note ids = completing_ids [OF less.prems(2) i(1)]
    obtain xs job' t where r: "sched_loop other sleep budget (executed @ [?sid]) ?job u = Some ((executed @ [?sid]) @ xs, job', t)"
        "io_ok t" "run_spec ?job xs job'"
      using less.hyps [OF fewer _ _ _ u(2)] less.prems(1-3) mark_completed_wf mark_completed_distinct small_ids_static by blast
    have first: "\<forall>j < num_steps job. st_id (steps job (unat j)) = ?sid \<longrightarrow>
        (\<forall>d < num_deps (steps job (unat j)). deps (steps job (unat j)) (unat d) \<in> completed_ids job)"
      using deps dep_done_completed less.prems(2) i(1) by (auto simp: distinct_ids_def)
    have sid_open: "?sid \<in> open_ids job" using i by (auto simp: open_ids_def)
    have "ready_complete ?job" using mark_completed_ready_complete find_step_exists [OF i(1)] by blast
    then have "run_spec job (?sid # xs) job'"
      using r(3) first sid_open unfolding run_spec_def ids dep_ordered_static mark_completed_ranked by auto
    then show ?thesis using unfold r(1,2) by (intro exI [of _ "?sid # xs"] exI [of _ job'] exI [of _ t]) simp
  qed
qed


section \<open>Duplicate identifiers\<close>

text \<open>
  A step hidden behind an earlier one with the same identifier can never be completed: marking
  always finds the first.
\<close>

definition hidden :: "job_graph \<Rightarrow> u8 \<Rightarrow> bool" where
  "hidden job k \<longleftrightarrow> k < num_steps job \<and> ready (steps job (unat k)) \<and> \<not> completed (steps job (unat k)) \<and>
     (\<exists>j < k. st_id (steps job (unat j)) = st_id (steps job (unat k)))"

lemma hidden_not_found: "hidden job k \<Longrightarrow> find_step job a \<noteq> Some k"
proof
  assume h: "hidden job k" and f: "find_step job a = Some k"
  then obtain j where "j < k" "st_id (steps job (unat j)) = a"
    using find_step_SomeD [OF f] by (auto simp: hidden_def)
  then show False using wfind_SomeD [OF f [unfolded find_step_def]] by auto
qed

lemma hidden_stays: "hidden job k \<Longrightarrow> hidden (job_graph_mark_completed a job) k"
proof (cases "find_step job a")
  case (Some m)
  assume h: "hidden job k"
  then have "m \<noteq> k" using hidden_not_found [of job k a] Some by auto
  then show ?thesis using h Some
    by (auto simp: hidden_def mark_completed_eq steps_upd rescanned_def)
qed (simp add: mark_completed_eq)

lemma hidden_loops:
  assumes "sched_loop other sleep budget executed job s = Some r" and "hidden job k" and "small_ids job"
  shows False
  using assms
proof (induction arbitrary: k rule: sched_loop.raw_induct [rotated, consumes 1])
  case (1 sched_loop' other sleep budget executed job s r)
  have "next_ready_index job \<noteq> None"
    using 1(3) wfind_NoneD [of 0 "num_steps job" "\<lambda>i. ready (steps job (unat i)) \<and> \<not> completed (steps job (unat i))" k]
    by (auto simp: hidden_def next_ready_index_def)
  then obtain i where i: "next_ready_index job = Some i" by blast
  then have lt: "i < num_steps job" using wfind_SomeD by (fastforce simp: next_ready_index_def)
  let ?sid = "st_id (steps job (unat i))"
  have "?sid < 0x80000000" using 1(4) lt by (simp add: small_ids_def)
  note id = sint_small_id [OF this]
  obtain step where "job_graph_get_step job ?sid = Some step"
    using find_step_exists [OF lt] by (auto simp: job_graph_get_step_def)
  with 1(2) i id obtain job' u where
    st: "sched_step other sleep budget ?sid step job s = Some (job', u)" and
    rec: "sched_loop' other sleep budget (executed @ [?sid]) job' u = Some r"
    by (auto simp: job_graph_next_ready_def split: option.splits)
  have "job' = job_graph_mark_completed ?sid job"
    using st by (auto simp: sched_step_def Let_def split: option.splits prod.splits)
  then show False using 1(1) [OF rec, of k] hidden_stays [OF 1(3), of ?sid] 1(4) by (simp add: small_ids_static)
qed

text \<open>
  \<open>job_graph_add_step\<close> accepts an identifier twice. If a ready step has the identifier of an
  earlier one, \<open>sched_run_job\<close> never returns: the scheduler executes one of the two forever.
\<close>

theorem sched_run_job_livelock:
  assumes "hidden job k" and "small_ids job"
  shows "sched_run_job other sleep job c s = None"
proof -
  let ?s = "flightrec_log TRACE_EVT_JOB_SUBMIT (jg_id job) 0 (ucast (num_steps job)) s"
  have "sched_loop other sleep (cpu_budget_us c) [] job ?s = None"
    using hidden_loops [OF _ assms] by (cases "sched_loop other sleep (cpu_budget_us c) [] job ?s") auto
  then show ?thesis by (simp add: sched_run_job_def Let_def)
qed

section \<open>Witnesses\<close>

text \<open>A machine whose time-stamp counter alternates between two values half the range apart.\<close>

definition flip_clock :: "nat \<Rightarrow> u64" where "flip_clock n = (if even n then 0 else 0x8000000000000000)"

definition sched_boot :: ipc where "sched_boot = boot_ipc\<lparr>tsc := flip_clock, cycles_per_usec := 1000\<rparr>"

lemma large_div:
  assumes "0x8000000000000000 \<le> unat (y :: u64)"
  shows "\<not> y div 1000 < 100000"
proof -
  have "0x8000000000000000 div 1000 \<le> unat y div 1000" by (rule div_le_mono [OF assms])
  then show ?thesis by (simp add: word_less_nat_alt unat_div)
qed

lemma half_range_apart:
  fixes x :: u64
  shows "\<not> x div 1000 < 100000 \<or> \<not> (0x8000000000000000 + x) div 1000 < 100000"
proof (cases "unat x < 0x8000000000000000")
  case True
  then have "unat (0x8000000000000000 + x) = 0x8000000000000000 + unat x" by (simp add: unat_word_ariths)
  then show ?thesis using large_div [of "0x8000000000000000 + x"] by simp
next
  case False
  then show ?thesis using large_div [of x] by simp
qed

lemma sched_boot_ok: "io_ok sched_boot"
proof -
  have "clock_fair sched_boot"
    unfolding clock_fair_def
  proof (intro allI)
    fix start :: u64 and n :: nat
    have k: "\<exists>k \<ge> n. tsc sched_boot k = 0" "\<exists>k \<ge> n. tsc sched_boot k = 0x8000000000000000"
      by (rule exI [of _ "2 * n"], simp add: sched_boot_def flip_clock_def)
         (rule exI [of _ "2 * n + 1"], simp add: sched_boot_def flip_clock_def)
    have c: "cycles_to_usec sched_boot x = x div 1000" for x by (simp add: sched_boot_def cycles_to_usec_def)
    show "\<exists>k \<ge> n. \<not> cycles_to_usec sched_boot (tsc sched_boot k - start) < 100000"
    proof (cases "(- start) div 1000 < 100000")
      case True
      then have "\<not> (0x8000000000000000 - start) div 1000 < 100000" using half_range_apart [of "- start"] by simp
      then show ?thesis using k(2) unfolding c by fastforce
    next
      case False
      then show ?thesis using k(1) unfolding c by fastforce
    qed
  qed
  then show ?thesis using boot_ipc_ok by (simp add: io_ok_def sched_boot_def)
qed

lemma u8_less_2: "(i :: u8) < 2 \<longleftrightarrow> i = 0 \<or> i = 1"
  by (auto simp: word_less_nat_alt word_unat_eq_iff)

lemma u8_less_1: "(i :: u8) < 1 \<longleftrightarrow> i = 0"
  by (simp add: word_less_nat_alt unat_eq_0)

lemma two_step_facts:
  "num_steps two_step_job = 2" "st_id (steps two_step_job 0) = 1" "st_id (steps two_step_job 1) = 2"
  "num_deps (steps two_step_job 0) = 0" "num_deps (steps two_step_job 1) = 1" "deps (steps two_step_job 1) 0 = 1"
  "ready (steps two_step_job 0)" "\<not> all_done two_step_job (steps two_step_job 1)"
  by code_simp+

lemma two_step_job_ok: "distinct_ids two_step_job" "small_ids two_step_job" "ready_complete two_step_job"
    "ranked unat two_step_job"
  using two_step_facts
  by (auto simp: distinct_ids_def small_ids_def ready_complete_def ranked_def u8_less_2 u8_less_1)

lemma quiet_bridge: "bridge_ok (\<lambda>m. m)"
  by (simp add: bridge_ok_def)


definition twin_job :: job_graph where
  "twin_job = snd (job_graph_add_step 1 STEP_TYPE_IO (snd (job_graph_add_step 1 STEP_TYPE_IO (job_graph_init 9 two_step_job))))"

lemma twin_facts:
  "num_steps twin_job = 2" "st_id (steps twin_job 0) = 1" "st_id (steps twin_job 1) = 1" "ready (steps twin_job 1)"
  "\<not> completed (steps twin_job 1)"
  by code_simp+

theorem sched_run_job_livelock_witness:
  "sched_run_job (\<lambda>m. m) (\<lambda>m. m) twin_job demo_contract sched_boot = None"
proof -
  have "hidden twin_job 1" unfolding hidden_def using twin_facts by (auto intro: exI [of _ 0])
  moreover have "small_ids twin_job" using twin_facts by (auto simp: small_ids_def u8_less_2)
  ultimately show ?thesis by (rule sched_run_job_livelock)
qed

end
