(* ===== verification/Kheap.thy ===== *)
theory Kheap
  imports Zen_Memory
begin

text \<open>
  The kernel heap (\<^verbatim>\<open>kernel/mm/kheap.c\<close>): first-fit allocation over a doubly linked list of blocks that
  tile the heap. The headers are bytes of memory, at the offsets the x86-64 ABI gives
  \<^verbatim>\<open>block_header_t\<close> (48 bytes), so that headers and payloads share one address space. A walk over a
  corrupted list may not end; the operations return \<open>None\<close> then. The abstract heap is the list of
  blocks, each free or used, with its payload size.
\<close>

section \<open>Headers\<close>

definition HEAP_MAGIC :: u32 where [zconst]: "HEAP_MAGIC = 0xC0FFEE42"

text \<open>\<open>sizeof(block_header_t)\<close>\<close>
definition HEADER_SIZE :: u64 where [zconst]: "HEADER_SIZE = 48"

definition ALIGN_UP :: "u64 \<Rightarrow> u64 \<Rightarrow> u64" where "ALIGN_UP x a = (x + (a - 1)) AND NOT (a - 1)"
definition ALIGN_DOWN :: "u64 \<Rightarrow> u64 \<Rightarrow> u64" where "ALIGN_DOWN x a = x AND NOT (a - 1)"

record kheap =
  kmem :: mem
  heap_start :: u64
  heap_base :: u64
  heap_end :: u64

definition h_magic :: "kheap \<Rightarrow> u64 \<Rightarrow> u32" where "h_magic s b = rd32 (kmem s) (unat b)"
definition h_is_free :: "kheap \<Rightarrow> u64 \<Rightarrow> u32" where "h_is_free s b = rd32 (kmem s) (unat b + 4)"
definition h_size :: "kheap \<Rightarrow> u64 \<Rightarrow> u64" where "h_size s b = rd64 (kmem s) (unat b + 8)"
definition h_next :: "kheap \<Rightarrow> u64 \<Rightarrow> u64" where "h_next s b = rd64 (kmem s) (unat b + 16)"
definition h_prev :: "kheap \<Rightarrow> u64 \<Rightarrow> u64" where "h_prev s b = rd64 (kmem s) (unat b + 24)"

definition set_magic :: "u64 \<Rightarrow> u32 \<Rightarrow> kheap \<Rightarrow> kheap" where
  "set_magic b v s = s\<lparr>kmem := wr32 (kmem s) (unat b) v\<rparr>"
definition set_is_free :: "u64 \<Rightarrow> u32 \<Rightarrow> kheap \<Rightarrow> kheap" where
  "set_is_free b v s = s\<lparr>kmem := wr32 (kmem s) (unat b + 4) v\<rparr>"
definition set_size :: "u64 \<Rightarrow> u64 \<Rightarrow> kheap \<Rightarrow> kheap" where
  "set_size b v s = s\<lparr>kmem := wr64 (kmem s) (unat b + 8) v\<rparr>"
definition set_next :: "u64 \<Rightarrow> u64 \<Rightarrow> kheap \<Rightarrow> kheap" where
  "set_next b v s = s\<lparr>kmem := wr64 (kmem s) (unat b + 16) v\<rparr>"
definition set_prev :: "u64 \<Rightarrow> u64 \<Rightarrow> kheap \<Rightarrow> kheap" where
  "set_prev b v s = s\<lparr>kmem := wr64 (kmem s) (unat b + 24) v\<rparr>"

section \<open>Operations\<close>

definition ptr_in_heap :: "u64 \<Rightarrow> kheap \<Rightarrow> bool" where
  "ptr_in_heap p s \<longleftrightarrow> p \<ge> heap_base s \<and> p < heap_end s"

definition kheap_init :: "u64 \<Rightarrow> u64 \<Rightarrow> kheap \<Rightarrow> kheap" where
  "kheap_init start_addr len s =
     (if start_addr = 0 then s
      else let base = ALIGN_UP start_addr 16; lim = ALIGN_DOWN (start_addr + len) 16
        in if lim \<le> base + HEADER_SIZE + 16 then s
           else let s = s\<lparr>heap_base := base, heap_end := lim, heap_start := base\<rparr>;
                    s = set_magic base HEAP_MAGIC s;
                    s = set_size base (lim - base - HEADER_SIZE) s;
                    s = set_next base 0 s;
                    s = set_prev base 0 s
                in set_is_free base 1 s)"

definition split_block :: "u64 \<Rightarrow> u64 \<Rightarrow> kheap \<Rightarrow> kheap" where
  "split_block b want s =
     (let remaining = h_size s b - want
      in if remaining \<le> HEADER_SIZE + 16 then s
         else let nb = b + HEADER_SIZE + want;
                  s = set_magic nb HEAP_MAGIC s;
                  s = set_is_free nb 1 s;
                  b_payload_end = b + HEADER_SIZE + h_size s b;
                  new_size = b_payload_end - nb - HEADER_SIZE;
                  s = set_size nb new_size s;
                  s = set_next nb (h_next s b) s;
                  s = set_prev nb b s;
                  s = (if h_next s b \<noteq> 0 then set_prev (h_next s b) nb s else s);
                  s = set_next b nb s
              in set_size b want s)"

partial_function (option) find_block :: "u64 \<Rightarrow> u64 \<Rightarrow> kheap \<Rightarrow> (u64 \<times> kheap) option" where
  "find_block want cur s =
     (if cur = 0 then Some (0, s)
      else if h_magic s cur \<noteq> HEAP_MAGIC then Some (0, s)
      else if h_is_free s cur \<noteq> 0 \<and> h_size s cur \<ge> want
      then Some (cur + HEADER_SIZE, set_is_free cur 0 (split_block cur want s))
      else find_block want (h_next s cur) s)"

definition kmalloc :: "u64 \<Rightarrow> kheap \<Rightarrow> (u64 \<times> kheap) option" where
  "kmalloc len s =
     (if heap_start s = 0 \<or> len = 0 then Some (0, s)
      else find_block (ALIGN_UP len 16) (heap_start s) s)"

partial_function (option) walk_back :: "u64 \<Rightarrow> kheap \<Rightarrow> u64 option" where
  "walk_back b s =
     (let p = h_prev s b
      in if p \<noteq> 0 \<and> h_is_free s p \<noteq> 0 \<and> h_magic s p = HEAP_MAGIC then walk_back p s else Some b)"

partial_function (option) merge_forward :: "u64 \<Rightarrow> kheap \<Rightarrow> kheap option" where
  "merge_forward b s =
     (let n = h_next s b
      in if n \<noteq> 0 \<and> h_is_free s n \<noteq> 0 \<and> h_magic s n = HEAP_MAGIC
         then let payload_start = b + HEADER_SIZE;
                  next_end = n + HEADER_SIZE + h_size s n
              in if next_end \<le> payload_start \<or> next_end > heap_end s then Some s
                 else let s = set_size b (next_end - payload_start) s;
                          s = set_next b (h_next s n) s;
                          s = (if h_next s b \<noteq> 0 then set_prev (h_next s b) b s else s)
                      in merge_forward b s
         else Some s)"

definition coalesce :: "u64 \<Rightarrow> kheap \<Rightarrow> kheap option" where
  "coalesce b s =
     (if b = 0 then Some s
      else if \<not> ptr_in_heap b s \<or> h_magic s b \<noteq> HEAP_MAGIC then Some s
      else case (if h_is_free s b \<noteq> 0 then walk_back b s else Some b) of
        None \<Rightarrow> None
      | Some b \<Rightarrow> merge_forward b s)"

definition kfree :: "u64 \<Rightarrow> kheap \<Rightarrow> kheap option" where
  "kfree ptr s =
     (if ptr = 0 then Some s
      else if \<not> ptr_in_heap ptr s then Some s
      else let h = ptr - HEADER_SIZE
        in if \<not> ptr_in_heap h s \<or> h_magic s h \<noteq> HEAP_MAGIC then Some s
           else if h_is_free s h \<noteq> 0 then Some s
           else coalesce h (set_is_free h 1 s))"

text \<open>The copy loop reads the size in the header again before each byte.\<close>

function copy_payload :: "u64 \<Rightarrow> u64 \<Rightarrow> u64 \<Rightarrow> u64 \<Rightarrow> kheap \<Rightarrow> kheap" where
  "copy_payload h src dst i s =
     (if i < h_size s h
      then copy_payload h src dst (i + 1)
             (s\<lparr>kmem := (kmem s)(unat (dst + i) := kmem s (unat (src + i)))\<rparr>)
      else s)"
  by pat_completeness auto
termination
proof (relation "measure (\<lambda>(h, src, dst, i, s). 18446744073709551616 - unat i)")
  fix h src dst i :: u64 and s :: kheap assume "i < h_size s h"
  from unat_Suc_less [OF this] unat_u64_less [of "i + 1"]
  show "((h, src, dst, i + 1, s\<lparr>kmem := (kmem s)(unat (dst + i) := kmem s (unat (src + i)))\<rparr>), h, src, dst, i, s)
    \<in> measure (\<lambda>(h, src, dst, i, s). 18446744073709551616 - unat i)" by simp
qed simp

declare copy_payload.simps [simp del]

definition move_block :: "u64 \<Rightarrow> u64 \<Rightarrow> kheap \<Rightarrow> (u64 \<times> kheap) option" where
  "move_block ptr want s =
     (case kmalloc want s of
        None \<Rightarrow> None
      | Some (np, s) \<Rightarrow>
          if np = 0 then Some (0, s)
          else map_option (\<lambda>s. (np, s)) (kfree ptr (copy_payload (ptr - HEADER_SIZE) ptr np 0 s)))"

definition krealloc :: "u64 \<Rightarrow> u64 \<Rightarrow> kheap \<Rightarrow> (u64 \<times> kheap) option" where
  "krealloc ptr new_size s =
     (if ptr = 0 then kmalloc new_size s
      else if new_size = 0 then map_option (\<lambda>s. (0, s)) (kfree ptr s)
      else let h = ptr - HEADER_SIZE
        in if h_magic s h \<noteq> HEAP_MAGIC then Some (0, s)
           else let want = ALIGN_UP new_size 16
             in if h_size s h \<ge> want then Some (ptr, s)
                else if h_next s h \<noteq> 0 \<and> h_is_free s (h_next s h) \<noteq> 0 \<and> h_magic s (h_next s h) = HEAP_MAGIC
                then case coalesce h s of
                       None \<Rightarrow> None
                     | Some s \<Rightarrow>
                         if h_size s h \<ge> want
                         then Some (h + HEADER_SIZE, set_is_free h 0 (split_block h want s))
                         else move_block ptr want s
                else move_block ptr want s)"

partial_function (option) free_size_loop :: "u64 \<Rightarrow> u64 \<Rightarrow> kheap \<Rightarrow> u64 option" where
  "free_size_loop acc cur s =
     (if cur = 0 then Some acc
      else if h_magic s cur \<noteq> HEAP_MAGIC then Some acc
      else free_size_loop (if h_is_free s cur \<noteq> 0 then acc + h_size s cur else acc) (h_next s cur) s)"

definition kheap_free_size :: "kheap \<Rightarrow> u64 option" where
  "kheap_free_size s = free_size_loop 0 (heap_start s) s"

section \<open>The list of blocks\<close>

type_synonym blocks = "(bool \<times> nat) list"

definition span :: "blocks \<Rightarrow> nat" where "span bs = sum_list (map (\<lambda>(f, n). 48 + n) bs)"

lemma span_simps [simp]:
  "span [] = 0" "span ((f, n) # bs) = 48 + n + span bs" "span (xs @ ys) = span xs + span ys"
  by (simp_all add: span_def)

text \<open>A header at \<open>a\<close>: magic number, free flag, payload size, next and previous header.\<close>

definition header :: "mem \<Rightarrow> nat \<Rightarrow> bool \<Rightarrow> nat \<Rightarrow> nat \<Rightarrow> nat \<Rightarrow> bool" where
  "header m a f n nx pv \<longleftrightarrow> rd32 m a = HEAP_MAGIC \<and> rd32 m (a + 4) = (if f then 1 else 0) \<and>
     rd64 m (a + 8) = of_nat n \<and> rd64 m (a + 16) = of_nat nx \<and> rd64 m (a + 24) = of_nat pv"

text \<open>
  A segment of the list: blocks one after the other from address \<open>a\<close> on, where \<open>p\<close> is the header before
  the first block and \<open>z\<close> the header after the last one.
\<close>

fun seg :: "mem \<Rightarrow> nat \<Rightarrow> nat \<Rightarrow> blocks \<Rightarrow> nat \<Rightarrow> bool" where
  "seg m p a [] z \<longleftrightarrow> True"
| "seg m p a ((f, n) # bs) z \<longleftrightarrow> header m a f n (if bs = [] then z else a + 48 + n) p \<and>
     0 < n \<and> 16 dvd n \<and> seg m a (a + 48 + n) bs z"

fun last_header :: "nat \<Rightarrow> nat \<Rightarrow> blocks \<Rightarrow> nat" where
  "last_header p a [] = p"
| "last_header p a ((f, n) # bs) = last_header a (a + 48 + n) bs"

lemma seg_append:
  "seg m p a (xs @ ys) z \<longleftrightarrow> seg m p a xs (if ys = [] then z else a + span xs) \<and>
     seg m (last_header p a xs) (a + span xs) ys z"
  by (induction m p a xs z rule: seg.induct) (auto simp: add.assoc)

lemma last_header_append [simp]:
  "last_header p a (xs @ ys) = last_header (last_header p a xs) (a + span xs) ys"
  by (induction p a xs rule: last_header.induct) (auto simp: add.assoc)

lemma header_cong: "(\<And>x. a \<le> x \<Longrightarrow> x < a + 32 \<Longrightarrow> m' x = m x) \<Longrightarrow> header m' a f n nx pv = header m a f n nx pv"
proof -
  assume eq: "\<And>x. a \<le> x \<Longrightarrow> x < a + 32 \<Longrightarrow> m' x = m x"
  have "rd32 m' a = rd32 m a" "rd32 m' (a + 4) = rd32 m (a + 4)" "rd64 m' (a + 8) = rd64 m (a + 8)"
    "rd64 m' (a + 16) = rd64 m (a + 16)" "rd64 m' (a + 24) = rd64 m (a + 24)"
    by (rule rd_cong, rule eq, simp, simp)+
  then show ?thesis by (simp add: header_def)
qed

text \<open>A segment depends only on its own bytes, and on its payload not even on those.\<close>

fun headers :: "nat \<Rightarrow> blocks \<Rightarrow> nat set" where
  "headers a [] = {}"
| "headers a ((f, n) # bs) = {a..<a + 48} \<union> headers (a + 48 + n) bs"

fun used :: "nat \<Rightarrow> blocks \<Rightarrow> nat set" where
  "used a [] = {}"
| "used a ((f, n) # bs) = (if f then {} else {a + 48..<a + 48 + n}) \<union> used (a + 48 + n) bs"

lemma seg_cong: "(\<And>x. x \<in> headers a bs \<Longrightarrow> m' x = m x) \<Longrightarrow> seg m' p a bs z = seg m p a bs z"
proof (induction m p a bs z rule: seg.induct)
  case (2 m p a f n bs z)
  have "header m' a f n nx p = header m a f n nx p" for nx by (rule header_cong) (simp add: "2.prems")
  moreover have "seg m' a (a + 48 + n) bs z = seg m a (a + 48 + n) bs z"
    using "2.prems" by (intro "2.IH") simp
  ultimately show ?case by simp
qed simp

lemma headers_append [simp]: "headers a (xs @ ys) = headers a xs \<union> headers (a + span xs) ys"
  by (induction a xs rule: headers.induct) (auto simp: add.assoc)

lemma used_append [simp]: "used a (xs @ ys) = used a xs \<union> used (a + span xs) ys"
  by (induction a xs rule: used.induct) (auto simp: add.assoc)

lemma headers_bounds: "x \<in> headers a bs \<Longrightarrow> a \<le> x \<and> x < a + span bs"
  by (induction a bs rule: headers.induct) auto

lemma used_bounds: "x \<in> used a bs \<Longrightarrow> a + 48 \<le> x \<and> x < a + span bs"
  by (induction a bs rule: used.induct) (auto split: if_splits)

lemma headers_used: "headers a bs \<inter> used a bs = {}"
proof (induction a bs rule: used.induct)
  case (2 a f n bs)
  then show ?case using headers_bounds [of _ "a + 48 + n" bs] used_bounds [of _ "a + 48 + n" bs]
    by (fastforce split: if_splits)
qed simp

text \<open>The list starts at \<open>heap_start\<close> and tiles the heap.\<close>

definition heap :: "kheap \<Rightarrow> blocks \<Rightarrow> bool" where
  "heap s bs \<longleftrightarrow> bs \<noteq> [] \<and> heap_start s = heap_base s \<and> 0 < unat (heap_base s) \<and> 16 dvd unat (heap_base s) \<and>
     seg (kmem s) 0 (unat (heap_base s)) bs 0 \<and> unat (heap_base s) + span bs = unat (heap_end s)"

text \<open>Two adjacent free blocks never remain.\<close>

definition coalesced :: "blocks \<Rightarrow> bool" where
  "coalesced bs \<longleftrightarrow> successively (\<lambda>x y. \<not> (fst x \<and> fst y)) bs"

section \<open>Pointers\<close>

lemma ptr_eq:
  assumes "a < 18446744073709551616" "b < 18446744073709551616"
  shows "(of_nat a :: u64) = of_nat b \<longleftrightarrow> a = b" "(of_nat a :: u64) \<le> of_nat b \<longleftrightarrow> a \<le> b"
    "(of_nat a :: u64) < of_nat b \<longleftrightarrow> a < b"
  using assms by (simp_all add: word_unat_eq_iff word_le_nat_alt word_less_nat_alt unat_of_nat)

lemma unat_ptr: "a < 18446744073709551616 \<Longrightarrow> unat (of_nat a :: u64) = a"
  by (simp add: unat_of_nat)

lemma ptr_add: "(of_nat a :: u64) + HEADER_SIZE = of_nat (a + 48)" "(of_nat (a + 48) :: u64) - HEADER_SIZE = of_nat a"
  by (simp_all add: HEADER_SIZE_def)

lemma header_read:
  assumes "header (kmem s) a f n nx pv" "a < 18446744073709551616"
  shows "h_magic s (of_nat a) = HEAP_MAGIC" "h_is_free s (of_nat a) = (if f then 1 else 0)"
    "h_size s (of_nat a) = of_nat n" "h_next s (of_nat a) = of_nat nx" "h_prev s (of_nat a) = of_nat pv"
  using assms
  by (simp_all add: header_def h_magic_def h_is_free_def h_size_def h_next_def h_prev_def unat_ptr)

lemma heap_bounds:
  assumes "heap s (xs @ (f, n) # ys)"
  defines "a \<equiv> unat (heap_base s) + span xs"
  shows "0 < a" "a + 48 + n + span ys = unat (heap_end s)" "a + 48 + n + span ys < 18446744073709551616"
    "16 dvd a"
    "header (kmem s) a f n (if ys = [] then 0 else a + 48 + n) (last_header 0 (unat (heap_base s)) xs)"
    "0 < n" "16 dvd n" "seg (kmem s) 0 (unat (heap_base s)) xs a" "seg (kmem s) a (a + 48 + n) ys 0"
proof -
  have sg: "seg (kmem s) 0 (unat (heap_base s)) (xs @ (f, n) # ys) 0" using assms(1) by (simp add: heap_def)
  then show "header (kmem s) a f n (if ys = [] then 0 else a + 48 + n) (last_header 0 (unat (heap_base s)) xs)"
    "0 < n" "16 dvd n" "seg (kmem s) 0 (unat (heap_base s)) xs a" "seg (kmem s) a (a + 48 + n) ys 0"
    by (simp_all add: seg_append a_def split: if_splits)
  show e: "a + 48 + n + span ys = unat (heap_end s)" and "0 < a" using assms(1) by (simp_all add: heap_def a_def)
  then show "a + 48 + n + span ys < 18446744073709551616" by (simp only: unat_u64_less)
  have "16 dvd span xs"
    using sg
  proof (induction xs arbitrary: ys f n rule: rev_induct)
    case (snoc x xs)
    obtain g k where x: "x = (g, k)" by fastforce
    have "16 dvd span xs" using snoc.IH [of g k "(f, n) # ys"] snoc.prems x by simp
    moreover have "16 dvd k" using snoc.prems by (simp add: seg_append x)
    ultimately show ?case by (simp add: x)
  qed simp
  then show "16 dvd a" using assms(1) by (simp add: a_def heap_def)
qed

lemma heap_replace:
  assumes h: "heap s (xs @ os @ ys)" and a: "a = unat (heap_base s) + span xs" and os: "os \<noteq> []"
    and xs: "\<And>x. x \<in> headers (unat (heap_base s)) xs \<Longrightarrow> m x = kmem s x"
    and mid: "mid \<noteq> []" "span mid = span os"
      "seg m (last_header 0 (unat (heap_base s)) xs) a mid (if ys = [] then 0 else a + span os)"
    and ys: "seg m (last_header (last_header 0 (unat (heap_base s)) xs) a mid) (a + span os) ys 0"
  shows "heap (s\<lparr>kmem := m\<rparr>) (xs @ mid @ ys)"
proof -
  have "seg (kmem s) 0 (unat (heap_base s)) xs a" using h os by (simp add: heap_def seg_append a)
  then have "seg m 0 (unat (heap_base s)) xs a" using seg_cong [of "unat (heap_base s)" xs m "kmem s" 0 a] xs by blast
  then have "seg m 0 (unat (heap_base s)) (xs @ mid @ ys) 0"
    using mid ys a by (cases "ys = []") (simp_all add: seg_append add.assoc)
  then show ?thesis using h mid by (simp add: heap_def)
qed

lemma seg_relink:
  assumes "seg m p b ys z" "ys \<noteq> []" "rd64 m' (b + 24) = of_nat p'"
    and eq: "\<And>x. x \<in> headers b ys \<Longrightarrow> \<not> (b + 24 \<le> x \<and> x < b + 32) \<Longrightarrow> m' x = m x"
  shows "seg m' p' b ys z"
proof -
  obtain f n bs where ys: "ys = (f, n) # bs" using assms(2) by (cases ys) auto
  have h: "header m b f n (if bs = [] then z else b + 48 + n) p" and s: "0 < n" "16 dvd n" "seg m b (b + 48 + n) bs z"
    using assms(1) by (simp_all add: ys split: if_splits)
  have "rd32 m' b = rd32 m b" "rd32 m' (b + 4) = rd32 m (b + 4)" "rd64 m' (b + 8) = rd64 m (b + 8)"
    "rd64 m' (b + 16) = rd64 m (b + 16)"
    by (rule rd_cong, rule eq, simp add: ys, simp)+
  then have "header m' b f n (if bs = [] then z else b + 48 + n) p'" using h assms(3) by (simp add: header_def)
  moreover have "seg m' b (b + 48 + n) bs z"
    using s(3) seg_cong [of "b + 48 + n" bs m' m] eq headers_bounds [of _ "b + 48 + n" bs] by (fastforce simp: ys)
  ultimately show ?thesis using s by (simp add: ys)
qed

text \<open>Setting the free flag of a block.\<close>

lemma set_is_free_spec:
  assumes h: "heap s (xs @ (f, n) # ys)" and a: "a = unat (heap_base s) + span xs"
  shows "\<exists>m. set_is_free (of_nat a) (if g then 1 else 0) s = s\<lparr>kmem := m\<rparr> \<and> heap (s\<lparr>kmem := m\<rparr>) (xs @ (g, n) # ys) \<and>
    (\<forall>x. \<not> (a \<le> x \<and> x < a + 48) \<longrightarrow> m x = kmem s x)"
proof -
  note b = heap_bounds [OF h, folded a]
  let ?m = "wr32 (kmem s) (a + 4) (if g then 1 else 0)"
  have out: "?m x = kmem s x" if "\<not> (a \<le> x \<and> x < a + 48)" for x using that by (auto simp: wr32_outside)
  have "header ?m a g n nx pv" if "header (kmem s) a f n nx pv" for nx pv using that by (simp add: header_def)
  then have hd: "header ?m a g n (if ys = [] then 0 else a + 48 + n) (last_header 0 (unat (heap_base s)) xs)"
    using b(5) by blast
  have "heap (s\<lparr>kmem := ?m\<rparr>) (xs @ [(g, n)] @ ys)"
  proof (rule heap_replace [of s xs "[(f, n)]" ys a])
    show "?m x = kmem s x" if "x \<in> headers (unat (heap_base s)) xs" for x
      using headers_bounds [OF that] by (intro out) (simp add: a)
    have "seg ?m a (a + 48 + n) ys 0 = seg (kmem s) a (a + 48 + n) ys 0"
      by (rule seg_cong, rule out) (use headers_bounds in fastforce)
    then show "seg ?m (last_header (last_header 0 (unat (heap_base s)) xs) a [(g, n)]) (a + span [(f, n)]) ys 0"
      using b(9) by (simp add: add.assoc)
    show "seg ?m (last_header 0 (unat (heap_base s)) xs) a [(g, n)] (if ys = [] then 0 else a + span [(f, n)])"
      using hd b(6,7) by (cases "ys = []") (simp_all add: add.assoc)
  qed (use h a in simp_all)
  moreover have "set_is_free (of_nat a) (if g then 1 else 0) s = s\<lparr>kmem := ?m\<rparr>"
    using b(3) by (simp add: set_is_free_def unat_ptr)
  ultimately show ?thesis using out by (intro exI [of _ ?m]) simp
qed

section \<open>Splitting\<close>

definition carve :: "bool \<Rightarrow> nat \<Rightarrow> nat \<Rightarrow> blocks" where
  "carve f want n = (if n - want \<le> 64 then [(f, n)] else [(f, want), (True, n - want - 48)])"

lemma split_memory:
  assumes h: "header (kmem s) a f n nx pv" and big: "want + 64 < n" and nx: "nx = 0 \<or> nx = a + 48 + n"
    and lim: "a + 48 + n < 18446744073709551616"
  defines "nb \<equiv> a + 48 + want"
  shows "split_block (of_nat a) (of_nat want) s = s\<lparr>kmem :=
    (let m = wr32 (kmem s) nb HEAP_MAGIC; m = wr32 m (nb + 4) 1; m = wr64 m (nb + 8) (of_nat (n - want - 48));
         m = wr64 m (nb + 16) (of_nat nx); m = wr64 m (nb + 24) (of_nat a);
         m = (if nx \<noteq> 0 then wr64 m (nx + 24) (of_nat nb) else m); m = wr64 m (a + 16) (of_nat nb)
     in wr64 m (a + 8) (of_nat want))\<rparr>"
proof -
  have rest: "(of_nat n :: u64) - of_nat want = of_nat (n - want)" using big by (simp add: of_nat_diff)
  have gt: "\<not> (of_nat n :: u64) - of_nat want \<le> HEADER_SIZE + 16"
    unfolding rest using big lim ptr_eq(2) [of "n - want" 64] by (simp add: HEADER_SIZE_def)
  have nbp: "(of_nat a :: u64) + HEADER_SIZE + of_nat want = of_nat nb" by (simp add: HEADER_SIZE_def nb_def)
  have sz: "(of_nat a :: u64) + HEADER_SIZE + of_nat n - of_nat nb - HEADER_SIZE = of_nat (n - want - 48)"
    using big by (simp add: HEADER_SIZE_def nb_def of_nat_diff)
  have nx0: "(of_nat nx :: u64) \<noteq> 0 \<longleftrightarrow> nx \<noteq> 0" using nx lim ptr_eq(1) [of nx 0] by auto
  have ua: "unat (of_nat a :: u64) = a" "unat (of_nat nb :: u64) = nb" "unat (of_nat nx :: u64) = nx"
    using nx lim big by (auto intro!: unat_ptr simp: nb_def simp del: of_nat_add)
  have "a + 48 \<le> nb" by (simp add: nb_def)
  then show ?thesis
    using h gt
    unfolding split_block_def Let_def
    by (simp add: h_size_def h_next_def set_magic_def set_is_free_def set_size_def set_next_def set_prev_def
        ua nbp sz nx0 header_def)
qed

lemma split_block_spec:
  assumes h: "heap s (xs @ (f, n) # ys)" and a: "a = unat (heap_base s) + span xs"
    and want: "0 < want" "16 dvd want" "want \<le> n"
  shows "\<exists>m. split_block (of_nat a) (of_nat want) s = s\<lparr>kmem := m\<rparr> \<and> heap (s\<lparr>kmem := m\<rparr>) (xs @ carve f want n @ ys) \<and>
    (\<forall>x \<in> used (unat (heap_base s)) xs \<union> {a + 48..<a + 48 + want} \<union> used (a + 48 + n) ys. m x = kmem s x)"
proof -
  note b = heap_bounds [OF h, folded a]
  let ?nx = "if ys = [] then 0 else a + 48 + n" and ?pv = "last_header 0 (unat (heap_base s)) xs"
  have lim: "a + 48 + n < 18446744073709551616" using b(3) by linarith
  show ?thesis
  proof (cases "n - want \<le> 64")
    case True
    have "h_size s (of_nat a) - of_nat want = of_nat (n - want)"
      using header_read(3) [OF b(5)] lim want(3) by (simp add: of_nat_diff)
    moreover have "(of_nat (n - want) :: u64) \<le> of_nat 64" using True lim by (subst ptr_eq) simp_all
    ultimately have "split_block (of_nat a) (of_nat want) s = s" by (simp add: split_block_def HEADER_SIZE_def)
    then show ?thesis using h True by (intro exI [of _ "kmem s"]) (simp add: carve_def)
  next
    case False
    then have big: "want + 64 < n" by simp
    define nb where "nb = a + 48 + want"
    define m5 where "m5 = wr64 (wr64 (wr64 (wr32 (wr32 (kmem s) nb HEAP_MAGIC) (nb + 4) 1) (nb + 8) (of_nat (n - want - 48)))
       (nb + 16) (of_nat ?nx)) (nb + 24) (of_nat a)"
    define m6 where "m6 = (if ?nx \<noteq> 0 then wr64 m5 (?nx + 24) (of_nat nb) else m5)"
    define m where "m = wr64 (wr64 m6 (a + 16) (of_nat nb)) (a + 8) (of_nat want)"
    have eq: "split_block (of_nat a) (of_nat want) s = s\<lparr>kmem := m\<rparr>"
      using split_memory [OF b(5) big _ lim] by (simp add: m_def m6_def m5_def nb_def Let_def)
    have out: "m x = kmem s x" if "\<not> (a \<le> x \<and> x < a + 48)" "\<not> (nb \<le> x \<and> x < nb + 48)"
      "ys \<noteq> [] \<Longrightarrow> \<not> (a + 48 + n + 24 \<le> x \<and> x < a + 48 + n + 32)" for x
      using that by (auto simp: m_def m6_def m5_def wr64_outside wr32_outside)
    have h1: "header m a f want nb ?pv" and h2: "header m nb True (n - want - 48) ?nx a"
      and h3: "ys \<noteq> [] \<Longrightarrow> rd64 m (a + 48 + n + 24) = of_nat nb"
      using b(5) big by (simp_all add: header_def m_def m6_def m5_def nb_def)
    have "heap (s\<lparr>kmem := m\<rparr>) (xs @ [(f, want), (True, n - want - 48)] @ ys)"
    proof (rule heap_replace [of s xs "[(f, n)]" ys a])
      show "m x = kmem s x" if "x \<in> headers (unat (heap_base s)) xs" for x
        using headers_bounds [OF that] by (intro out) (auto simp: a nb_def)
      show "span [(f, want), (True, n - want - 48)] = span [(f, n)]" using big by simp
      have "16 dvd n - want - 48" using b(7) want(2) by (auto intro: dvd_diff_nat)
      moreover have "nb + 48 + (n - want - 48) = a + 48 + n" using big by (simp add: nb_def)
      ultimately show "seg m ?pv a [(f, want), (True, n - want - 48)] (if ys = [] then 0 else a + span [(f, n)])"
        using h1 h2 want big by (cases "ys = []") (simp_all add: nb_def add.assoc)
      have "seg m nb (a + 48 + n) ys 0"
      proof (cases "ys = []")
        case False
        then show ?thesis
        proof (rule seg_relink [OF b(9) _ h3])
          fix x assume "x \<in> headers (a + 48 + n) ys" "\<not> (a + 48 + n + 24 \<le> x \<and> x < a + 48 + n + 32)"
          then show "m x = kmem s x" using headers_bounds [of x "a + 48 + n" ys] big by (intro out) (auto simp: nb_def)
        qed (rule False)
      qed simp
      then show "seg m (last_header ?pv a [(f, want), (True, n - want - 48)]) (a + span [(f, n)]) ys 0"
        by (simp add: nb_def add.assoc)
    qed (use h a in simp_all)
    moreover have "m x = kmem s x"
      if "x \<in> used (unat (heap_base s)) xs \<union> {a + 48..<a + 48 + want} \<union> used (a + 48 + n) ys" for x
      using that used_bounds [of x "unat (heap_base s)" xs] used_bounds [of x "a + 48 + n" ys] big
      by (intro out) (auto simp: a nb_def)
    ultimately show ?thesis using eq False by (intro exI [of _ m]) (simp add: carve_def)
  qed
qed

section \<open>Allocation\<close>

text \<open>First fit on the list: the offset of the block that is taken, and the list afterwards.\<close>

fun alloc_blocks :: "nat \<Rightarrow> blocks \<Rightarrow> (nat \<times> blocks) option" where
  "alloc_blocks want [] = None"
| "alloc_blocks want ((f, n) # bs) =
     (if f \<and> want \<le> n then Some (0, carve False want n @ bs)
      else map_option (\<lambda>(k, bs'). (48 + n + k, (f, n) # bs')) (alloc_blocks want bs))"

lemma carve_first: obtains k rest where "carve f want n = (f, k) # rest" "carve g want n = (g, k) # rest" "k \<in> {n, want}"
  by (cases "n - want \<le> 64") (auto simp: carve_def)

lemma take_block_spec:
  assumes h: "heap s (xs @ (True, n) # ys)" and a: "a = unat (heap_base s) + span xs"
    and want: "0 < want" "16 dvd want" "want \<le> n"
  shows "\<exists>m. set_is_free (of_nat a) 0 (split_block (of_nat a) (of_nat want) s) = s\<lparr>kmem := m\<rparr> \<and>
    heap (s\<lparr>kmem := m\<rparr>) (xs @ carve False want n @ ys) \<and>
    (\<forall>x \<in> used (unat (heap_base s)) (xs @ (True, n) # ys). m x = kmem s x)"
proof -
  obtain m where m: "split_block (of_nat a) (of_nat want) s = s\<lparr>kmem := m\<rparr>"
    "heap (s\<lparr>kmem := m\<rparr>) (xs @ carve True want n @ ys)"
    "\<forall>x \<in> used (unat (heap_base s)) xs \<union> {a + 48..<a + 48 + want} \<union> used (a + 48 + n) ys. m x = kmem s x"
    using split_block_spec [OF h a want] by blast
  obtain k rest where c: "carve True want n = (True, k) # rest" "carve False want n = (False, k) # rest"
    by (rule carve_first)
  have "heap (s\<lparr>kmem := m\<rparr>) (xs @ (True, k) # rest @ ys)" using m(2) c by simp
  from set_is_free_spec [OF this, of a False] a
  obtain m' where m': "set_is_free (of_nat a) 0 (s\<lparr>kmem := m\<rparr>) = s\<lparr>kmem := m'\<rparr>"
    "heap (s\<lparr>kmem := m'\<rparr>) (xs @ (False, k) # rest @ ys)" "\<forall>x. \<not> (a \<le> x \<and> x < a + 48) \<longrightarrow> m' x = m x"
    by auto
  have "m' x = kmem s x" if "x \<in> used (unat (heap_base s)) (xs @ (True, n) # ys)" for x
    using that m(3) m'(3) used_bounds [of x "unat (heap_base s)" xs] used_bounds [of x "a + 48 + n" ys] a by auto
  then show ?thesis using m(1) m'(1,2) c by (intro exI [of _ m']) simp
qed

definition alloc_post :: "kheap \<Rightarrow> blocks \<Rightarrow> blocks \<Rightarrow> nat \<Rightarrow> u64 \<Rightarrow> kheap \<Rightarrow> bool" where
  "alloc_post s xs ys want r t \<longleftrightarrow> (case alloc_blocks want ys of
       None \<Rightarrow> r = 0 \<and> t = s
     | Some (k, ys') \<Rightarrow> r = of_nat (unat (heap_base s) + span xs + k + 48) \<and>
         (\<exists>m. t = s\<lparr>kmem := m\<rparr> \<and> heap t (xs @ ys') \<and> (\<forall>x \<in> used (unat (heap_base s)) (xs @ ys). m x = kmem s x)))"

lemma alloc_post_skip:
  "alloc_post s (xs @ [(f, n)]) ys want r t \<Longrightarrow> \<not> (f \<and> want \<le> n) \<Longrightarrow> alloc_post s xs ((f, n) # ys) want r t"
  unfolding alloc_post_def
  by (cases "alloc_blocks want ys") (auto simp: add.assoc simp del: of_nat_add)

lemma find_block_spec:
  assumes "heap s (xs @ ys)" and "0 < want" "16 dvd want" "want < 18446744073709551616"
  shows "\<exists>r t. find_block (of_nat want) (of_nat (if ys = [] then 0 else unat (heap_base s) + span xs)) s = Some (r, t) \<and>
    alloc_post s xs ys want r t"
  using assms(1)
proof (induction ys arbitrary: xs)
  case Nil
  then show ?case by (simp add: find_block.simps alloc_post_def)
next
  case (Cons y ys)
  obtain f n where y: "y = (f, n)" by fastforce
  define a where "a = unat (heap_base s) + span xs"
  have h: "heap s (xs @ (f, n) # ys)" using Cons.prems y by simp
  note b = heap_bounds [OF h, folded a_def]
  have lim: "a < 18446744073709551616" "n < 18446744073709551616" using b(3) by linarith+
  note rd = header_read [OF b(5) lim(1)]
  have nz: "(of_nat a :: u64) \<noteq> 0" using ptr_eq(1) [of a 0] lim(1) b(1) by simp
  have fit: "h_is_free s (of_nat a) \<noteq> 0 \<and> of_nat want \<le> h_size s (of_nat a) \<longleftrightarrow> f \<and> want \<le> n"
    using rd(2,3) ptr_eq(2) [OF assms(4) lim(2)] by simp
  show ?case
  proof (cases "f \<and> want \<le> n")
    case True
    then have "heap s (xs @ (True, n) # ys)" using h by simp
    from take_block_spec [OF this a_def assms(2,3)] True
    obtain m where m: "set_is_free (of_nat a) 0 (split_block (of_nat a) (of_nat want) s) = s\<lparr>kmem := m\<rparr>"
      "heap (s\<lparr>kmem := m\<rparr>) (xs @ carve False want n @ ys)"
      "\<forall>x \<in> used (unat (heap_base s)) (xs @ (True, n) # ys). m x = kmem s x" by blast
    have "find_block (of_nat want) (of_nat a) s = Some (of_nat (a + 48), s\<lparr>kmem := m\<rparr>)"
      using nz rd(1) fit True m(1) by (subst find_block.simps) (simp add: ptr_add)
    then show ?thesis using True m(2,3) by (simp add: y a_def [symmetric] alloc_post_def del: of_nat_add) blast
  next
    case False
    have step: "find_block (of_nat want) (of_nat a) s =
        find_block (of_nat want) (of_nat (if ys = [] then 0 else a + 48 + n)) s"
      using nz rd(1,4) fit False by (subst find_block.simps) auto
    have "heap s ((xs @ [(f, n)]) @ ys)" using h by simp
    moreover have "unat (heap_base s) + span (xs @ [(f, n)]) = a + 48 + n" by (simp add: a_def)
    ultimately obtain r t where
      "find_block (of_nat want) (of_nat (if ys = [] then 0 else a + 48 + n)) s = Some (r, t)"
      "alloc_post s (xs @ [(f, n)]) ys want r t" using Cons.IH by metis
    then show ?thesis using alloc_post_skip [OF _ False] step by (auto simp: y a_def [symmetric])
  qed
qed

section \<open>Coalescing\<close>

fun merge_fwd :: "nat \<Rightarrow> blocks \<Rightarrow> nat \<times> blocks" where
  "merge_fwd n [] = (n, [])"
| "merge_fwd n ((f, k) # ys) = (if f then merge_fwd (n + 48 + k) ys else (n, (f, k) # ys))"

definition run_start :: "blocks \<Rightarrow> blocks" where "run_start xs = rev (dropWhile fst (rev xs))"
definition run_tail :: "blocks \<Rightarrow> blocks" where "run_tail xs = rev (takeWhile fst (rev xs))"

lemma run_append: "run_start xs @ run_tail xs = xs"
  by (metis run_start_def run_tail_def rev_append rev_rev_ident takeWhile_dropWhile_id)

lemma run_snoc [simp]:
  "run_start (xs @ [(f, k)]) = (if f then run_start xs else xs @ [(f, k)])"
  "run_tail (xs @ [(f, k)]) = (if f then run_tail xs @ [(f, k)] else [])"
  "run_start [] = []" "run_tail [] = []"
  by (simp_all add: run_start_def run_tail_def)

lemma walk_back_spec:
  assumes "heap s (xs @ (True, n) # ys)"
  shows "walk_back (of_nat (unat (heap_base s) + span xs)) s = Some (of_nat (unat (heap_base s) + span (run_start xs)))"
  using assms
proof (induction xs arbitrary: n ys rule: rev_induct)
  case Nil
  note b = heap_bounds [OF Nil]
  have "unat (heap_base s) < 18446744073709551616" by simp
  from header_read(5) [OF b(5)] this show ?case by (simp add: walk_back.simps)
next
  case (snoc x xs)
  obtain g k where x: "x = (g, k)" by fastforce
  let ?a = "unat (heap_base s) + span (xs @ [x])" and ?b = "unat (heap_base s) + span xs"
  have h: "heap s (xs @ (g, k) # (True, n) # ys)" using snoc.prems x by simp
  note b = heap_bounds [OF snoc.prems] and c = heap_bounds [OF h]
  have lim: "?a < 18446744073709551616" "?b < 18446744073709551616" using b(3) c(3) by linarith+
  have pv: "h_prev s (of_nat ?a) = of_nat ?b" using header_read(5) [OF b(5) lim(1)] by (simp add: x)
  note rd = header_read(1,2) [OF c(5) lim(2)]
  have nz: "(of_nat ?b :: u64) \<noteq> 0" using ptr_eq(1) [of ?b 0] lim(2) c(1) by simp
  show ?case
  proof (cases g)
    case True
    then have "walk_back (of_nat ?a) s = walk_back (of_nat ?b) s"
      using pv rd nz by (subst walk_back.simps) (simp add: Let_def)
    then show ?thesis using snoc.IH [of k "(True, n) # ys"] h True x by simp
  next
    case False
    then show ?thesis using pv rd nz by (subst walk_back.simps) (simp add: Let_def x)
  qed
qed

lemma merge_step_spec:
  assumes h: "heap s (xs @ (f, n) # (True, k) # ys)" and a: "a = unat (heap_base s) + span xs"
  defines "nx \<equiv> if ys = [] then 0 else a + 48 + n + 48 + k"
  shows "\<exists>m. (let s = set_size (of_nat a) (of_nat (n + 48 + k)) s;
                  s = set_next (of_nat a) (h_next s (of_nat (a + 48 + n))) s
              in if h_next s (of_nat a) \<noteq> 0 then set_prev (h_next s (of_nat a)) (of_nat a) s else s) = s\<lparr>kmem := m\<rparr> \<and>
    heap (s\<lparr>kmem := m\<rparr>) (xs @ (f, n + 48 + k) # ys) \<and>
    (\<forall>x \<in> used (unat (heap_base s)) (xs @ (f, n) # (True, k) # ys). m x = kmem s x)"
proof -
  let ?pv = "last_header 0 (unat (heap_base s)) xs" and ?b = "a + 48 + n"
  note b = heap_bounds [OF h, folded a]
  have b9: "header (kmem s) ?b True k nx a" "0 < k" "16 dvd k" "seg (kmem s) ?b (?b + 48 + k) ys 0"
    using b(9) by (simp_all add: nx_def split: if_splits)
  have lim: "a < 18446744073709551616" "?b < 18446744073709551616" "nx < 18446744073709551616"
    using b(3) by (auto simp: nx_def)
  have u: "unat (of_nat a :: u64) = a" "unat (of_nat ?b :: u64) = ?b" "unat (of_nat nx :: u64) = nx"
    using lim by (auto intro!: unat_ptr simp del: of_nat_add)
  have nx0: "(of_nat nx :: u64) \<noteq> 0 \<longleftrightarrow> nx \<noteq> 0" using ptr_eq(1) [of nx 0] lim(3) by simp
  define m1 where "m1 = wr64 (wr64 (kmem s) (a + 8) (of_nat (n + 48 + k))) (a + 16) (of_nat nx)"
  define m where "m = (if nx \<noteq> 0 then wr64 m1 (nx + 24) (of_nat a) else m1)"
  have nxb: "nx = 0 \<or> a + 48 \<le> nx" by (simp add: nx_def)
  have "(let s = set_size (of_nat a) (of_nat (n + 48 + k)) s;
             s = set_next (of_nat a) (h_next s (of_nat ?b)) s
         in if h_next s (of_nat a) \<noteq> 0 then set_prev (h_next s (of_nat a)) (of_nat a) s else s) = s\<lparr>kmem := m\<rparr>"
    using b9(1) by (simp add: Let_def set_size_def set_next_def set_prev_def h_next_def u nx0 header_def m_def m1_def
        del: of_nat_add)
  moreover have out: "m x = kmem s x" if "\<not> (a \<le> x \<and> x < a + 48)"
    "ys \<noteq> [] \<Longrightarrow> \<not> (?b + 48 + k + 24 \<le> x \<and> x < ?b + 48 + k + 32)" for x
    using that by (auto simp: m_def m1_def wr64_outside nx_def)
  have h1: "header m a f (n + 48 + k) nx ?pv" using b(5) nxb by (auto simp: header_def m_def m1_def simp del: of_nat_add)
  have h3: "rd64 m (?b + 48 + k + 24) = of_nat a" if "ys \<noteq> []" using that by (simp add: m_def nx_def)
  have "heap (s\<lparr>kmem := m\<rparr>) (xs @ [(f, n + 48 + k)] @ ys)"
  proof (rule heap_replace [of s xs "[(f, n), (True, k)]" ys a])
    show "m x = kmem s x" if "x \<in> headers (unat (heap_base s)) xs" for x
      using headers_bounds [OF that] by (intro out) (auto simp: a)
    show "seg m ?pv a [(f, n + 48 + k)] (if ys = [] then 0 else a + span [(f, n), (True, k)])"
      using h1 b(6,7) b9(2,3) by (cases "ys = []") (simp_all add: nx_def add.assoc)
    have "seg m a (?b + 48 + k) ys 0"
    proof (cases "ys = []")
      case False
      then show ?thesis
      proof (rule seg_relink [OF b9(4) _ h3])
        fix x assume "x \<in> headers (?b + 48 + k) ys" "\<not> (?b + 48 + k + 24 \<le> x \<and> x < ?b + 48 + k + 32)"
        then show "m x = kmem s x" using headers_bounds [of x "?b + 48 + k" ys] by (intro out) auto
      qed (rule False)
    qed simp
    then show "seg m (last_header ?pv a [(f, n + 48 + k)]) (a + span [(f, n), (True, k)]) ys 0" by (simp add: add.assoc)
  qed (use h a in simp_all)
  moreover have "m x = kmem s x" if "x \<in> used (unat (heap_base s)) (xs @ (f, n) # (True, k) # ys)" for x
    using that used_bounds [of x "unat (heap_base s)" xs] used_bounds [of x "?b + 48 + k" ys]
    by (intro out) (auto simp: a [symmetric] split: if_splits)
  ultimately show ?thesis by (intro exI [of _ m]) simp
qed

text \<open>What a call may do to memory: nothing to the bytes \<open>A\<close>, and the heap is \<open>bs\<close> afterwards.\<close>

definition becomes :: "kheap \<Rightarrow> nat set \<Rightarrow> blocks \<Rightarrow> kheap \<Rightarrow> bool" where
  "becomes s A bs t \<longleftrightarrow> (\<exists>m. t = s\<lparr>kmem := m\<rparr>) \<and> heap t bs \<and> (\<forall>x\<in>A. kmem t x = kmem s x)"

lemma becomes_trans: "becomes s A bs t \<Longrightarrow> becomes t B cs u \<Longrightarrow> A \<subseteq> B \<Longrightarrow> becomes s A cs u"
  by (auto simp: becomes_def)

lemma becomes_base: "becomes s A bs t \<Longrightarrow> heap_base t = heap_base s \<and> heap_end t = heap_end s \<and> heap t bs"
  by (auto simp: becomes_def)

lemma merge_forward_spec:
  assumes "heap s (xs @ (f, n) # ys)" and "merge_fwd n ys = (k, zs)"
  shows "\<exists>t. merge_forward (of_nat (unat (heap_base s) + span xs)) s = Some t \<and>
    becomes s (used (unat (heap_base s)) (xs @ (f, n) # ys)) (xs @ (f, k) # zs) t"
  using assms
proof (induction ys arbitrary: s n)
  case Nil
  note b = heap_bounds [OF Nil(1)]
  have "unat (heap_base s) + span xs < 18446744073709551616" using b(3) by simp
  from header_read(4) [OF b(5) this] have "h_next s (of_nat (unat (heap_base s) + span xs)) = 0" by simp
  then show ?case using Nil by (subst merge_forward.simps) (auto simp: becomes_def intro: exI [of _ "kmem s"])
next
  case (Cons y ys)
  obtain g j where y: "y = (g, j)" by fastforce
  define a where "a = unat (heap_base s) + span xs"
  note b = heap_bounds [OF Cons.prems(1), folded a_def, unfolded y]
  have lim: "a < 18446744073709551616" "a + 48 + n < 18446744073709551616" "a + 48 + n + 48 + j < 18446744073709551616"
    using b(3) by auto
  have hb: "header (kmem s) (a + 48 + n) g j (if ys = [] then 0 else a + 48 + n + 48 + j) a" using b(9) by simp
  have nx: "h_next s (of_nat a) = of_nat (a + 48 + n)" using header_read(4) [OF b(5) lim(1)] by simp
  note rd = header_read [OF hb lim(2)]
  have nz: "(of_nat (a + 48 + n) :: u64) \<noteq> 0" using ptr_eq(1) [of "a + 48 + n" 0] lim(2) by simp
  show ?case
  proof (cases g)
    case False
    then have "merge_forward (of_nat a) s = Some s"
      using nx rd(2) by (subst merge_forward.simps) (simp add: Let_def del: of_nat_add)
    then show ?thesis using Cons.prems False y by (auto simp: a_def becomes_def intro: exI [of _ "kmem s"])
  next
    case True
    then have h: "heap s (xs @ (f, n) # (True, j) # ys)" using Cons.prems(1) y by simp
    obtain m where m: "(let s = set_size (of_nat a) (of_nat (n + 48 + j)) s;
             s = set_next (of_nat a) (h_next s (of_nat (a + 48 + n))) s
         in if h_next s (of_nat a) \<noteq> 0 then set_prev (h_next s (of_nat a)) (of_nat a) s else s) = s\<lparr>kmem := m\<rparr>"
      "heap (s\<lparr>kmem := m\<rparr>) (xs @ (f, n + 48 + j) # ys)"
      "\<forall>x \<in> used (unat (heap_base s)) (xs @ (f, n) # (True, j) # ys). m x = kmem s x"
      using merge_step_spec [OF h a_def] by blast
    define c w p where "c = a + 48 + n" and "w = a + 48 + n + 48 + j" and "p = a + 48"
    have ne: "(of_nat c :: u64) + HEADER_SIZE + of_nat j = of_nat w" "(of_nat a :: u64) + HEADER_SIZE = of_nat p"
      by (simp_all add: HEADER_SIZE_def c_def w_def p_def)
    have sz: "(of_nat w :: u64) - of_nat p = of_nat (n + 48 + j)" by (simp add: w_def p_def)
    have "a + 48 + n + 48 + j + span ys = unat (heap_end s)" using b(2) by simp
    then have e: "heap_end s = of_nat (a + 48 + n + 48 + j + span ys)" by (simp only: of_nat_unat_eq)
    have ok: "\<not> (of_nat w :: u64) \<le> of_nat p" "\<not> heap_end s < of_nat w"
      unfolding e w_def p_def using lim b(3) by (subst ptr_eq; simp)+
    have "merge_forward (of_nat a) s = merge_forward (of_nat a) (s\<lparr>kmem := m\<rparr>)"
      using nx rd(1,2,3) nz True ok m(1) unfolding c_def [symmetric]
      by (subst merge_forward.simps) (simp add: Let_def ne sz del: of_nat_add)
    moreover have b1: "becomes s (used (unat (heap_base s)) (xs @ (f, n) # y # ys)) (xs @ (f, n + 48 + j) # ys) (s\<lparr>kmem := m\<rparr>)"
      using m(2,3) y True by (auto simp: becomes_def)
    obtain t where "merge_forward (of_nat a) (s\<lparr>kmem := m\<rparr>) = Some t"
      "becomes (s\<lparr>kmem := m\<rparr>) (used (unat (heap_base s)) (xs @ (f, n + 48 + j) # ys)) (xs @ (f, k) # zs) t"
      using Cons.IH [OF m(2)] Cons.prems(2) y True by (auto simp: a_def)
    moreover have "used (unat (heap_base s)) (xs @ (f, n) # y # ys) \<subseteq> used (unat (heap_base s)) (xs @ (f, n + 48 + j) # ys)"
      by (auto simp: y True add.assoc)
    ultimately show ?thesis using becomes_trans [OF b1] by (auto simp: a_def)
  qed
qed

text \<open>The list after the block \<open>(False, n)\<close> between \<open>xs\<close> and \<open>ys\<close> is released.\<close>

definition free_blocks :: "blocks \<Rightarrow> nat \<Rightarrow> blocks \<Rightarrow> blocks" where
  "free_blocks xs n ys =
     (let run = run_tail xs @ [(True, n)]; (k, zs) = merge_fwd (snd (hd run)) (tl run @ ys)
      in run_start xs @ (True, k) # zs)"

lemma run_tail_free: "x \<in> set (run_tail xs) \<Longrightarrow> fst x"
  by (auto simp: run_tail_def dest: set_takeWhileD)

lemma run_split:
  obtains k rest where "run_tail xs @ [(True, n)] = (True, k) # rest" "\<forall>x\<in>set rest. fst x"
    "xs @ (True, n) # ys = run_start xs @ (True, k) # rest @ ys" "k + span rest = span (run_tail xs) + n"
proof -
  obtain k rest where run: "run_tail xs @ [(True, n)] = (True, k) # rest"
    using run_tail_free [of "hd (run_tail xs)" xs] by (cases "run_tail xs") auto
  have "xs @ (True, n) # ys = (run_start xs @ run_tail xs) @ (True, n) # ys" by (simp only: run_append)
  also have "\<dots> = run_start xs @ (run_tail xs @ [(True, n)]) @ ys" by simp
  finally have split: "xs @ (True, n) # ys = run_start xs @ (True, k) # rest @ ys" by (simp only: run append_Cons)
  have "\<forall>x\<in>set ((True, k) # rest). fst x" unfolding run [symmetric] using run_tail_free by auto
  moreover have "span (run_tail xs @ [(True, n)]) = span ((True, k) # rest)" by (simp only: run)
  ultimately show thesis using that [OF run _ split] by simp
qed

lemma merge_fwd_free: "\<forall>x\<in>set ws. fst x \<Longrightarrow> merge_fwd n (ws @ ys) = merge_fwd (n + span ws) ys"
  by (induction ws arbitrary: n) (auto simp: add.assoc)

lemma free_blocks_eq:
  "free_blocks xs n ys = (let (k, zs) = merge_fwd (span (run_tail xs) + n) ys in run_start xs @ (True, k) # zs)"
proof -
  obtain k rest where run: "run_tail xs @ [(True, n)] = (True, k) # rest" "\<forall>x\<in>set rest. fst x"
    "k + span rest = span (run_tail xs) + n"
    by (rule run_split)
  then show ?thesis by (simp add: free_blocks_def merge_fwd_free)
qed

lemma heap_pointer:
  assumes h: "heap s (xs @ (f, n) # ys)" and a: "a = unat (heap_base s) + span xs"
  shows "(of_nat a :: u64) \<noteq> 0" "(of_nat (a + 48) :: u64) \<noteq> 0" "ptr_in_heap (of_nat a) s" "ptr_in_heap (of_nat (a + 48)) s"
    "h_magic s (of_nat a) = HEAP_MAGIC" "h_is_free s (of_nat a) = (if f then 1 else 0)" "h_size s (of_nat a) = of_nat n"
    "h_next s (of_nat a) = of_nat (if ys = [] then 0 else a + 48 + n)"
proof -
  note b = heap_bounds [OF h, folded a]
  have lim: "a < 18446744073709551616" "a + 48 < 18446744073709551616" using b(3) by auto
  show "(of_nat a :: u64) \<noteq> 0" "(of_nat (a + 48) :: u64) \<noteq> 0"
    using ptr_eq(1) [of a 0] ptr_eq(1) [of "a + 48" 0] lim b(1) by simp_all
  have "unat (of_nat a :: u64) = a" "unat (of_nat (a + 48) :: u64) = a + 48"
    by (rule unat_ptr [OF lim(1)], rule unat_ptr [OF lim(2)])
  then show "ptr_in_heap (of_nat a) s" "ptr_in_heap (of_nat (a + 48)) s"
    unfolding ptr_in_heap_def word_le_nat_alt word_less_nat_alt using b(2,6) a by auto
  show "h_magic s (of_nat a) = HEAP_MAGIC" "h_is_free s (of_nat a) = (if f then 1 else 0)" "h_size s (of_nat a) = of_nat n"
    "h_next s (of_nat a) = of_nat (if ys = [] then 0 else a + 48 + n)"
    using header_read [OF b(5) lim(1)] by simp_all
qed

lemma coalesce_free_spec:
  assumes h: "heap s (xs @ (True, n) # ys)" and a: "a = unat (heap_base s) + span xs"
  shows "\<exists>t. coalesce (of_nat a) s = Some t \<and>
    becomes s (used (unat (heap_base s)) (xs @ (True, n) # ys)) (free_blocks xs n ys) t"
proof -
  obtain k rest where run: "run_tail xs @ [(True, n)] = (True, k) # rest"
    and split: "xs @ (True, n) # ys = run_start xs @ (True, k) # rest @ ys"
    by (rule run_split)
  obtain k' zs where mf: "merge_fwd k (rest @ ys) = (k', zs)" by fastforce
  have "heap s (run_start xs @ (True, k) # rest @ ys)" using h split by simp
  from merge_forward_spec [OF this mf] obtain t where
    t: "merge_forward (of_nat (unat (heap_base s) + span (run_start xs))) s = Some t"
      "becomes s (used (unat (heap_base s)) (xs @ (True, n) # ys)) (run_start xs @ (True, k') # zs) t"
    unfolding split by blast
  have "coalesce (of_nat a) s = Some t"
    using heap_pointer [OF h a] walk_back_spec [OF h, folded a] t(1) by (simp add: coalesce_def)
  moreover have "free_blocks xs n ys = run_start xs @ (True, k') # zs" by (simp add: free_blocks_def run mf)
  ultimately show ?thesis using t(2) by simp
qed

lemma kfree_spec:
  assumes h: "heap s (xs @ (False, n) # ys)" and a: "a = unat (heap_base s) + span xs"
  shows "\<exists>t. kfree (of_nat (a + 48)) s = Some t \<and>
    becomes s (used (unat (heap_base s)) xs \<union> used (a + 48 + n) ys) (free_blocks xs n ys) t"
proof -
  note p = heap_pointer [OF h a]
  obtain m where m: "set_is_free (of_nat a) 1 s = s\<lparr>kmem := m\<rparr>" "heap (s\<lparr>kmem := m\<rparr>) (xs @ (True, n) # ys)"
    "\<forall>x. \<not> (a \<le> x \<and> x < a + 48) \<longrightarrow> m x = kmem s x"
    using set_is_free_spec [OF h a, of True] by auto
  have b1: "becomes s (used (unat (heap_base s)) xs \<union> used (a + 48 + n) ys) (xs @ (True, n) # ys) (s\<lparr>kmem := m\<rparr>)"
  proof -
    have "m x = kmem s x" if "x \<in> used (unat (heap_base s)) xs \<union> used (a + 48 + n) ys" for x
      using that m(3) used_bounds [of x "unat (heap_base s)" xs] used_bounds [of x "a + 48 + n" ys] a by auto
    then show ?thesis using m(2) by (auto simp: becomes_def)
  qed
  obtain t where t: "coalesce (of_nat a) (s\<lparr>kmem := m\<rparr>) = Some t"
    "becomes (s\<lparr>kmem := m\<rparr>) (used (unat (heap_base s)) (xs @ (True, n) # ys)) (free_blocks xs n ys) t"
    using coalesce_free_spec [OF m(2), of a] a by auto
  have "kfree (of_nat (a + 48)) s = Some t"
    using p m(1) t(1) by (simp add: kfree_def Let_def ptr_add(2) del: of_nat_add)
  moreover have "used (unat (heap_base s)) xs \<union> used (a + 48 + n) ys \<subseteq> used (unat (heap_base s)) (xs @ (True, n) # ys)"
    by (simp add: a)
  ultimately show ?thesis using becomes_trans [OF b1 t(2)] by blast
qed

section \<open>The coalesced list\<close>

lemmas coalesced_simps = coalesced_def successively_append_iff successively_Cons

lemma merge_fwd_head: "merge_fwd n ys = (k, zs) \<Longrightarrow> zs \<noteq> [] \<Longrightarrow> \<not> fst (hd zs)"
  by (induction n ys rule: merge_fwd.induct) (auto split: if_splits)

lemma merge_fwd_coalesced: "merge_fwd n ys = (k, zs) \<Longrightarrow> coalesced ys \<Longrightarrow> coalesced zs"
  by (induction n ys rule: merge_fwd.induct) (auto simp: coalesced_simps split: if_splits)

lemma run_start_last: "run_start xs \<noteq> [] \<Longrightarrow> \<not> fst (last (run_start xs))"
  using hd_dropWhile [of fst "rev xs"] by (simp add: run_start_def last_rev)

lemma free_blocks_coalesced:
  assumes "coalesced (xs @ (False, n) # ys)"
  shows "coalesced (free_blocks xs n ys)"
proof -
  have c: "coalesced xs" "coalesced ys" using assms by (auto simp: coalesced_simps)
  then have rs: "coalesced (run_start xs)" using run_append [of xs] by (metis coalesced_def successively_append_iff)
  obtain k zs where mf: "merge_fwd (span (run_tail xs) + n) ys = (k, zs)" by fastforce
  then show ?thesis
    using rs run_start_last [of xs] merge_fwd_head [OF mf] merge_fwd_coalesced [OF mf c(2)]
    by (auto simp: free_blocks_eq coalesced_simps)
qed

lemma alloc_blocks_coalesced: "alloc_blocks want bs = Some (k, bs') \<Longrightarrow> coalesced bs \<Longrightarrow> coalesced bs'"
proof (induction want bs arbitrary: k bs' rule: alloc_blocks.induct)
  case (2 want f n bs)
  then show ?case
    by (cases bs) (auto simp: coalesced_simps carve_def split: if_splits)
qed simp

text \<open>Allocating and freeing a block of a coalesced list is the identity on the list.\<close>

lemma alloc_blocks_split:
  assumes "alloc_blocks want bs = Some (k, bs')"
  obtains xs n ys where "bs = xs @ (True, n) # ys" "bs' = xs @ carve False want n @ ys" "k = span xs" "want \<le> n"
  using assms
proof (induction want bs arbitrary: k bs' thesis rule: alloc_blocks.induct)
  case (2 want f n bs)
  show ?case
  proof (cases "f \<and> want \<le> n")
    case True
    then show ?thesis using "2.prems"(1) [of "[]" n bs] "2.prems"(2) by auto
  next
    case False
    then obtain k1 b1 where r: "alloc_blocks want bs = Some (k1, b1)" "k = 48 + n + k1" "bs' = (f, n) # b1"
      using "2.prems"(2) by auto
    obtain xs j ys where "bs = xs @ (True, j) # ys" "b1 = xs @ carve False want j @ ys" "k1 = span xs" "want \<le> j"
      using "2.IH" [OF False _ r(1)] by blast
    then show ?thesis using "2.prems"(1) [of "(f, n) # xs" j ys] r by simp
  qed
qed simp

lemma free_after_alloc:
  assumes "coalesced (xs @ (True, n) # ys)" and "carve False want n = (False, k) # rest" "want \<le> n"
  shows "free_blocks xs k (rest @ ys) = xs @ (True, n) # ys"
proof -
  have "run_tail xs = []" "run_start xs = xs"
    using assms(1) by (cases xs rule: rev_cases; auto simp: coalesced_simps run_start_def run_tail_def)+
  moreover have "ys = [] \<or> (\<exists>j zs. ys = (False, j) # zs)"
    using assms(1) by (cases ys) (auto simp: coalesced_simps)
  ultimately show ?thesis using assms(2,3) by (auto simp: free_blocks_eq carve_def split: if_splits)
qed

section \<open>Blocks by offset\<close>

definition block_at :: "blocks \<Rightarrow> nat \<Rightarrow> bool \<Rightarrow> nat \<Rightarrow> bool" where
  "block_at bs off f n \<longleftrightarrow> (\<exists>xs ys. bs = xs @ (f, n) # ys \<and> span xs = off)"

definition payload :: "kheap \<Rightarrow> nat \<Rightarrow> nat \<Rightarrow> nat set" where
  "payload s off n = {unat (heap_base s) + off + 48..<unat (heap_base s) + off + 48 + n}"

lemma block_at_append:
  "block_at (xs @ ys) off f n \<longleftrightarrow> block_at xs off f n \<or> (\<exists>j. off = span xs + j \<and> block_at ys j f n)"
proof
  assume "block_at (xs @ ys) off f n"
  then obtain us vs where e: "xs @ ys = us @ (f, n) # vs" "span us = off" by (auto simp: block_at_def)
  from e(1) consider ws where "xs = us @ (f, n) # ws" | ws where "us = xs @ ws" "ys = ws @ (f, n) # vs"
    by (auto simp: append_eq_append_conv2 append_eq_Cons_conv)
  then show "block_at xs off f n \<or> (\<exists>j. off = span xs + j \<and> block_at ys j f n)"
    using e(2) by cases (fastforce simp: block_at_def)+
next
  assume "block_at xs off f n \<or> (\<exists>j. off = span xs + j \<and> block_at ys j f n)"
  then show "block_at (xs @ ys) off f n"
  proof
    assume "block_at xs off f n"
    then obtain us vs where "xs = us @ (f, n) # vs" "span us = off" by (auto simp: block_at_def)
    then show ?thesis by (auto simp: block_at_def intro: exI [of _ us])
  next
    assume "\<exists>j. off = span xs + j \<and> block_at ys j f n"
    then obtain j us vs where "off = span xs + j" "ys = us @ (f, n) # vs" "span us = j" by (auto simp: block_at_def)
    then show ?thesis by (auto simp: block_at_def intro: exI [of _ "xs @ us"])
  qed
qed

lemma block_at_Nil [simp]: "\<not> block_at [] off f n"
  by (simp add: block_at_def)

lemma block_at_Cons:
  "block_at ((g, k) # bs) off f n \<longleftrightarrow> off = 0 \<and> g = f \<and> k = n \<or> (\<exists>j. off = 48 + k + j \<and> block_at bs j f n)"
proof -
  have "block_at [(g, k)] off f n \<longleftrightarrow> off = 0 \<and> g = f \<and> k = n"
    by (auto simp: block_at_def Cons_eq_append_conv)
  then show ?thesis using block_at_append [of "[(g, k)]" bs] by simp
qed

lemma block_at_bound: "block_at bs off f n \<Longrightarrow> off + 48 + n \<le> span bs"
  by (auto simp: block_at_def)

lemma block_at_unique: "block_at bs off f n \<Longrightarrow> block_at bs off g k \<Longrightarrow> f = g \<and> n = k"
proof (induction bs arbitrary: off)
  case (Cons b bs)
  then show ?case by (cases b) (force simp: block_at_Cons)
qed simp

text \<open>Two used blocks at different offsets do not overlap.\<close>

lemma block_at_disjoint:
  assumes "block_at bs off f n" "block_at bs off' g k" "off \<noteq> off'"
  shows "off + 48 + n \<le> off' \<or> off' + 48 + k \<le> off"
  using assms
proof (induction bs arbitrary: off off')
  case (Cons b bs)
  obtain h j where b: "b = (h, j)" by fastforce
  show ?case using Cons.prems Cons.IH by (fastforce simp: b block_at_Cons)
qed simp

lemma used_block: "block_at bs off False n \<Longrightarrow> {b + off + 48..<b + off + 48 + n} \<subseteq> used b bs"
proof (induction bs arbitrary: b off)
  case (Cons x bs)
  obtain f k where x: "x = (f, k)" by fastforce
  from Cons.prems consider "off = 0" "\<not> f" "k = n" | j where "off = 48 + k + j" "block_at bs j False n"
    by (auto simp: x block_at_Cons)
  then show ?case
  proof cases
    case 2
    then show ?thesis using Cons.IH [OF 2(2), of "b + 48 + k"] by (auto simp: x add.assoc)
  qed (auto simp: x)
qed simp

lemma used_other_block:
  assumes "block_at (xs @ (f, k) # ys) off False n" "off \<noteq> span xs"
  shows "{b + off + 48..<b + off + 48 + n} \<subseteq> used b xs \<union> used (b + span xs + 48 + k) ys"
proof -
  from assms consider "block_at xs off False n" | j where "off = span xs + 48 + k + j" "block_at ys j False n"
    by (auto simp: block_at_append block_at_Cons)
  then show ?thesis
  proof cases
    case 1
    then show ?thesis using used_block by blast
  next
    case 2
    then show ?thesis using used_block [OF 2(2), of "b + span xs + 48 + k"] by (auto simp: add.assoc)
  qed
qed

lemma alloc_blocks_at:
  assumes "alloc_blocks want bs = Some (off, bs')"
  shows "\<exists>n k. block_at bs off True n \<and> block_at bs' off False k \<and> want \<le> k \<and> k \<le> n"
    and "block_at bs q False j \<Longrightarrow> block_at bs' q False j \<and> q \<noteq> off"
proof -
  obtain xs n ys where s: "bs = xs @ (True, n) # ys" "bs' = xs @ carve False want n @ ys" "off = span xs" "want \<le> n"
    using alloc_blocks_split [OF assms] by blast
  obtain k rest where c: "carve False want n = (False, k) # rest" "k \<in> {n, want}" by (rule carve_first)
  have sp: "span ((False, k) # rest) = 48 + n"
    unfolding c(1) [symmetric] using s(4) by (auto simp: carve_def)
  have "block_at bs off True n" "block_at bs' off False k" by (auto simp: s c block_at_append block_at_Cons)
  then show "\<exists>n k. block_at bs off True n \<and> block_at bs' off False k \<and> want \<le> k \<and> k \<le> n" using c(2) s(4) by auto
  assume q: "block_at bs q False j"
  then have "q \<noteq> off" using block_at_unique [OF q] \<open>block_at bs off True n\<close> by auto
  moreover have "block_at bs' q False j"
    using q sp by (auto simp: s c block_at_append block_at_Cons)
  ultimately show "block_at bs' q False j \<and> q \<noteq> off" by blast
qed

lemma merge_fwd_at:
  "merge_fwd n ys = (k, zs) \<Longrightarrow> n \<le> k \<and> k + span zs = n + span ys \<and>
     (block_at ys j False m \<longrightarrow> (\<exists>i. block_at zs i False m \<and> k + i = n + j))"
proof (induction n ys arbitrary: j rule: merge_fwd.induct)
  case (2 n f i ys)
  show ?case
  proof (cases f)
    case True
    with "2.prems" have mf: "merge_fwd (n + 48 + i) ys = (k, zs)" by simp
    note IH = "2.IH" [OF True mf]
    have "\<exists>l. block_at zs l False m \<and> k + l = n + j" if "block_at ((f, i) # ys) j False m"
    proof -
      from that True obtain j' where j: "j = 48 + i + j'" "block_at ys j' False m" by (auto simp: block_at_Cons)
      then show ?thesis using IH [of j'] by (auto simp: add.assoc)
    qed
    then show ?thesis using IH [of 0] by auto
  qed (use "2.prems" in auto)
qed auto

lemma run_start_at: "block_at xs q False j \<Longrightarrow> block_at (run_start xs) q False j"
proof (induction xs rule: rev_induct)
  case (snoc x xs)
  then show ?case by (cases x) (auto simp: block_at_append block_at_Cons split: if_splits)
qed simp

lemma free_blocks_at:
  assumes "block_at (xs @ (False, n) # ys) q False j" "q \<noteq> span xs"
  shows "block_at (free_blocks xs n ys) q False j"
proof -
  obtain k zs where mf: "merge_fwd (span (run_tail xs) + n) ys = (k, zs)" by fastforce
  have sp: "span xs = span (run_start xs) + span (run_tail xs)" by (metis run_append span_simps(3))
  from assms consider "block_at xs q False j" | i where "q = span xs + 48 + n + i" "block_at ys i False j"
    by (auto simp: block_at_append block_at_Cons)
  then show ?thesis
  proof cases
    case 1
    then show ?thesis using run_start_at by (simp add: free_blocks_eq mf block_at_append)
  next
    case 2
    then obtain l where l: "block_at zs l False j" "k + l = span (run_tail xs) + n + i"
      using merge_fwd_at [OF mf] by blast
    then have "q = span (run_start xs) + (48 + k + l)" using 2(1) sp by simp
    then show ?thesis using l(1) by (simp add: free_blocks_eq mf block_at_append block_at_Cons)
  qed
qed

section \<open>Rounding\<close>

definition align16 :: "nat \<Rightarrow> nat" where "align16 n = 16 * ((n + 15) div 16)"

lemma unat_mask16: "unat ((x :: u64) AND NOT (mask 4)) = 16 * (unat x div 16)"
proof -
  have sh: "x AND NOT (mask 4) = push_bit 4 (drop_bit 4 x)" by (intro bit_word_eqI) (auto simp: bit_simps)
  have "unat (drop_bit 4 x) = unat x div 16" unfolding unat_drop_bit_eq by (simp add: drop_bit_eq_div)
  moreover have "unat x div 16 * 16 < 18446744073709551616" using unat_u64_less [of x] by linarith
  ultimately show ?thesis
    unfolding sh unsigned_push_bit_eq by (simp add: push_bit_eq_mult take_bit_eq_mod)
qed

lemma unat_ALIGN:
  "unat x + 15 < 18446744073709551616 \<Longrightarrow> unat (ALIGN_UP x 16) = align16 (unat x)"
  "unat (ALIGN_DOWN x 16) = 16 * (unat x div 16)"
proof -
  have m: "(16 :: u64) - 1 = mask 4" by (simp add: mask_eq_exp_minus_1)
  show "unat (ALIGN_DOWN x 16) = 16 * (unat x div 16)" unfolding ALIGN_DOWN_def m by (rule unat_mask16)
  assume "unat x + 15 < 18446744073709551616"
  then have "unat (x + 15) = unat x + 15" by (simp add: unat_word_ariths)
  then show "unat (ALIGN_UP x 16) = align16 (unat x)"
    unfolding ALIGN_UP_def m unat_mask16 by (simp add: align16_def mask_eq_exp_minus_1)
qed

lemma align16: "n \<le> align16 n" "16 dvd align16 n" "0 < n \<Longrightarrow> 0 < align16 n" "align16 n < n + 16"
  "align16 (align16 n) = align16 n"
proof -
  have d: "n + 15 = align16 n + (n + 15) mod 16" "(n + 15) mod 16 < 16" by (simp_all add: align16_def)
  then show "n \<le> align16 n" "0 < n \<Longrightarrow> 0 < align16 n" "align16 n < n + 16" by linarith+
  show "16 dvd align16 n" by (simp add: align16_def)
  show "align16 (align16 n) = align16 n" by (simp add: align16_def)
qed

section \<open>Calls\<close>

text \<open>Every used block except the one at offset \<open>off\<close> is still there, with the same contents.\<close>

definition keeps :: "kheap \<Rightarrow> blocks \<Rightarrow> (nat \<Rightarrow> bool) \<Rightarrow> kheap \<Rightarrow> blocks \<Rightarrow> bool" where
  "keeps s bs P t bs' \<longleftrightarrow> (\<forall>q k. block_at bs q False k \<and> P q \<longrightarrow>
     block_at bs' q False k \<and> (\<forall>x \<in> payload s q k. kmem t x = kmem s x))"

lemma keeps_trans:
  "keeps s bs P t bs' \<Longrightarrow> keeps t bs' P u bs'' \<Longrightarrow> heap_base t = heap_base s \<Longrightarrow> keeps s bs P u bs''"
  unfolding keeps_def payload_def by (metis (no_types, lifting))

lemma kmalloc_spec:
  assumes h: "heap s bs" and len: "0 < len" "unat len + 15 < 18446744073709551616"
  shows "\<exists>r t. kmalloc len s = Some (r, t) \<and>
    (case alloc_blocks (align16 (unat len)) bs of
       None \<Rightarrow> r = 0 \<and> t = s
     | Some (off, bs') \<Rightarrow> unat r = unat (heap_base s) + off + 48 \<and> r \<noteq> 0 \<and> (\<exists>m. t = s\<lparr>kmem := m\<rparr>) \<and> heap t bs' \<and>
         keeps s bs (\<lambda>_. True) t bs')"
proof -
  have st: "heap_start s \<noteq> 0" "heap_start s = heap_base s" "bs \<noteq> []"
    using h by (auto simp: heap_def unat_eq_zero)
  let ?w = "align16 (unat len)"
  have "unat len \<noteq> 0" using len(1) by (simp add: unat_eq_zero word_gt_0)
  then have w: "0 < ?w" "16 dvd ?w" "?w < 18446744073709551616"
    using align16 [of "unat len"] unat_ALIGN(1) [OF len(2)] unat_u64_less [of "ALIGN_UP len 16"] by auto
  have up: "ALIGN_UP len 16 = of_nat ?w" using unat_ALIGN(1) [OF len(2)] by (metis of_nat_unat_eq)
  obtain r t where f: "find_block (of_nat ?w) (of_nat (unat (heap_base s))) s = Some (r, t)"
    and post: "alloc_post s [] bs ?w r t"
    using find_block_spec [of s "[]" bs ?w] h w st(3) by auto
  have km: "kmalloc len s = Some (r, t)" using f st(1,2) len(1) by (auto simp: kmalloc_def up)
  show ?thesis
  proof (cases "alloc_blocks ?w bs")
    case None
    then show ?thesis using km post by (simp add: alloc_post_def)
  next
    case (Some c)
    obtain off bs' where c: "c = (off, bs')" by fastforce
    obtain m where m: "t = s\<lparr>kmem := m\<rparr>" "heap t bs'" "\<forall>x \<in> used (unat (heap_base s)) bs. m x = kmem s x"
      "r = of_nat (unat (heap_base s) + off + 48)"
      using post by (auto simp: alloc_post_def Some c)
    note at = alloc_blocks_at [OF Some [unfolded c]]
    obtain k where "block_at bs' off False k" using at(1) by blast
    then have "off + 48 \<le> span bs'" using block_at_bound by fastforce
    moreover have "unat (heap_base s) + span bs' = unat (heap_end s)" using m(1,2) by (simp add: heap_def)
    ultimately have lim: "unat (heap_base s) + off + 48 < 18446744073709551616"
      using unat_u64_less [of "heap_end s"] by linarith
    then have ur: "unat r = unat (heap_base s) + off + 48" unfolding m(4) by (rule unat_ptr)
    then have "r \<noteq> 0" by (auto simp: word_unat_eq_iff)
    moreover have "keeps s bs (\<lambda>_. True) t bs'"
      using at(2) m(1,3) used_block [of bs _ _ "unat (heap_base s)"] by (fastforce simp: keeps_def payload_def)
    ultimately show ?thesis using km m(1,2) ur by (auto simp: Some c)
  qed
qed

lemma kfree_keeps:
  assumes "becomes s (used (unat (heap_base s)) xs \<union> used (unat (heap_base s) + span xs + 48 + n) ys) (free_blocks xs n ys) t"
  shows "keeps s (xs @ (False, n) # ys) (\<lambda>q. q \<noteq> span xs) t (free_blocks xs n ys)"
  unfolding keeps_def
proof (intro allI impI conjI ballI)
  fix q k assume q: "block_at (xs @ (False, n) # ys) q False k \<and> q \<noteq> span xs"
  then show "block_at (free_blocks xs n ys) q False k" using free_blocks_at by blast
  fix x assume "x \<in> payload s q k"
  then show "kmem t x = kmem s x"
    using used_other_block [of xs False n ys q k "unat (heap_base s)"] q assms by (auto simp: becomes_def payload_def)
qed

lemma kfree_block_spec:
  assumes h: "heap s bs" and b: "block_at bs off False n"
  shows "\<exists>xs ys t. bs = xs @ (False, n) # ys \<and> span xs = off \<and> kfree (of_nat (unat (heap_base s) + off + 48)) s = Some t \<and>
    (\<exists>m. t = s\<lparr>kmem := m\<rparr>) \<and> heap t (free_blocks xs n ys) \<and> keeps s bs (\<lambda>q. q \<noteq> off) t (free_blocks xs n ys)"
proof -
  obtain xs ys where bs: "bs = xs @ (False, n) # ys" "span xs = off" using b by (auto simp: block_at_def)
  obtain t where t: "kfree (of_nat (unat (heap_base s) + span xs + 48)) s = Some t"
    "becomes s (used (unat (heap_base s)) xs \<union> used (unat (heap_base s) + span xs + 48 + n) ys) (free_blocks xs n ys) t"
    using kfree_spec [of s xs n ys] h bs by auto
  then show ?thesis using kfree_keeps [OF t(2)] bs by (auto simp: becomes_def)
qed

lemma kheap_init_spec:
  assumes "start_addr \<noteq> 0" and lim: "unat start_addr + unat len + 128 < 18446744073709551616"
  defines "base \<equiv> align16 (unat start_addr)" and "lim_a \<equiv> 16 * ((unat start_addr + unat len) div 16)"
  assumes big: "base + 64 < lim_a"
  shows "heap (kheap_init start_addr len s) [(True, lim_a - base - 48)]" "unat (heap_base (kheap_init start_addr len s)) = base"
proof -
  have s0: "0 < unat start_addr" using assms(1) by (simp add: unat_gt_0)
  have ub: "unat (ALIGN_UP start_addr 16) = base" using unat_ALIGN(1) [of start_addr] lim by (simp add: base_def)
  have ut: "unat (ALIGN_DOWN (start_addr + len) 16) = lim_a"
    using lim by (simp add: unat_ALIGN(2) lim_a_def unat_add_no_wrap)
  have bb: "base < unat start_addr + 16" "0 < base" "16 dvd base" using align16 [of "unat start_addr"] s0 by (simp_all add: base_def)
  have bp: "ALIGN_UP start_addr 16 = of_nat base" and tp: "ALIGN_DOWN (start_addr + len) 16 = of_nat lim_a"
    by (metis ub of_nat_unat_eq) (metis ut of_nat_unat_eq)
  have t64: "lim_a < 18446744073709551616" using unat_u64_less [of "ALIGN_DOWN (start_addr + len) 16"] ut by simp
  have b64: "base + 64 < 18446744073709551616" using bb(1) lim by linarith
  have gt: "\<not> (of_nat lim_a :: u64) \<le> of_nat base + HEADER_SIZE + 16"
    using ptr_eq(2) [OF t64 b64] big by (simp add: HEADER_SIZE_def add.commute)
  have u: "unat (of_nat base :: u64) = base" "unat (of_nat lim_a :: u64) = lim_a" using b64 t64 by (simp_all add: unat_ptr)
  have sz: "(of_nat lim_a :: u64) - of_nat base - HEADER_SIZE = of_nat (lim_a - base - 48)"
    using big by (simp add: HEADER_SIZE_def of_nat_diff)
  let ?t = "kheap_init start_addr len s"
  have eq: "?t = s\<lparr>heap_base := of_nat base, heap_end := of_nat lim_a, heap_start := of_nat base,
      kmem := wr32 (wr64 (wr64 (wr64 (wr32 (kmem s) base HEAP_MAGIC) (base + 8) (of_nat (lim_a - base - 48))) (base + 16) 0)
        (base + 24) 0) (base + 4) 1\<rparr>"
    using assms(1) gt
    by (simp add: kheap_init_def Let_def bp tp set_magic_def set_size_def set_next_def set_prev_def set_is_free_def u sz)
  have "16 dvd lim_a - base - 48" using bb(3) big by (simp add: lim_a_def dvd_diff_nat)
  then have "seg (kmem ?t) 0 base [(True, lim_a - base - 48)] 0" using big by (simp add: eq header_def)
  then show "heap ?t [(True, lim_a - base - 48)]" "unat (heap_base ?t) = base"
    using bb big u by (simp_all add: eq heap_def)
qed

lemma copy_payload_spec:
  assumes "i \<le> n" and "p + n < 18446744073709551616" "d + n < 18446744073709551616" "h + 16 < 18446744073709551616"
    and "h_size s (of_nat h) = of_nat n" and "p + n \<le> d \<or> d + n \<le> p" and "h + 16 \<le> d \<or> d + n \<le> h + 8"
  shows "\<exists>m. copy_payload (of_nat h) (of_nat p) (of_nat d) (of_nat i) s = s\<lparr>kmem := m\<rparr> \<and>
    (\<forall>x. m x = (if d + i \<le> x \<and> x < d + n then kmem s (p + (x - d)) else kmem s x))"
  using assms(1,5)
proof (induction "n - i" arbitrary: i s)
  case 0
  then have "i = n" by simp
  then show ?case using "0.prems"(2) by (subst copy_payload.simps) (auto intro!: exI [of _ "kmem s"])
next
  case (Suc k)
  then have i: "i < n" by simp
  have k: "k = n - Suc i" using Suc.hyps(2) by simp
  have lt: "(of_nat i :: u64) < h_size s (of_nat h)"
    using Suc.prems(2) ptr_eq(3) [of i n] i assms(2) by simp
  have u: "unat ((of_nat d :: u64) + of_nat i) = d + i" "unat ((of_nat p :: u64) + of_nat i) = p + i"
    using unat_ptr [of "d + i"] unat_ptr [of "p + i"] assms(2,3) i by simp_all
  let ?s = "s\<lparr>kmem := (kmem s)(d + i := kmem s (p + i))\<rparr>"
  have "rd64 ((kmem s)(d + i := kmem s (p + i))) (h + 8) = rd64 (kmem s) (h + 8)"
    using assms(7) i by (intro rd_cong) auto
  then have hs: "h_size ?s (of_nat h) = of_nat n"
    using Suc.prems(2) assms(4) by (simp add: h_size_def unat_ptr)
  obtain m where m: "copy_payload (of_nat h) (of_nat p) (of_nat d) (of_nat (Suc i)) ?s = ?s\<lparr>kmem := m\<rparr>"
    "\<forall>x. m x = (if d + Suc i \<le> x \<and> x < d + n then kmem ?s (p + (x - d)) else kmem ?s x)"
    using Suc.hyps(1) [OF k _ hs] i by auto
  have "copy_payload (of_nat h) (of_nat p) (of_nat d) (of_nat i) s = s\<lparr>kmem := m\<rparr>"
    using lt m(1) by (subst copy_payload.simps) (simp add: u add.commute [of "of_nat i" 1])
  moreover have "m x = (if d + i \<le> x \<and> x < d + n then kmem s (p + (x - d)) else kmem s x)" for x
  proof (cases "x = d + i")
    case True
    then show ?thesis using m(2) [rule_format, of x] i by simp
  next
    case False
    then have "p + (x - d) \<noteq> d + i" if "d + Suc i \<le> x" "x < d + n" using that assms(6) i by linarith
    then show ?thesis using m(2) [rule_format, of x] False by auto
  qed
  ultimately show ?case by blast
qed

section \<open>Reallocation\<close>

definition used_count :: "blocks \<Rightarrow> nat" where "used_count bs = length (filter (\<lambda>b. \<not> fst b) bs)"

lemma used_count_simps [simp]:
  "used_count [] = 0" "used_count ((f, n) # bs) = (if f then 0 else 1) + used_count bs"
  "used_count (xs @ ys) = used_count xs + used_count ys"
  by (simp_all add: used_count_def)

lemma used_count_free: "\<forall>x\<in>set bs. fst x \<Longrightarrow> used_count bs = 0"
  by (auto simp: used_count_def filter_empty_conv)

lemma used_count_carve [simp]: "used_count (carve False want n) = 1"
  by (simp add: carve_def)

lemma merge_fwd_used_count: "merge_fwd n ys = (k, zs) \<Longrightarrow> used_count zs = used_count ys"
  by (induction n ys rule: merge_fwd.induct) (auto split: if_splits)

lemma alloc_blocks_used_count: "alloc_blocks want bs = Some (k, bs') \<Longrightarrow> used_count bs' = Suc (used_count bs)"
  by (auto elim!: alloc_blocks_split)

lemma free_blocks_used_count: "used_count (free_blocks xs n ys) + 1 = used_count (xs @ (False, n) # ys)"
proof -
  obtain k zs where mf: "merge_fwd (span (run_tail xs) + n) ys = (k, zs)" by fastforce
  have "used_count xs = used_count (run_start xs) + used_count (run_tail xs)" by (metis run_append used_count_simps(3))
  then have "used_count xs = used_count (run_start xs)" using used_count_free [of "run_tail xs"] run_tail_free by simp
  then show ?thesis using merge_fwd_used_count [OF mf] by (simp add: free_blocks_eq mf)
qed

lemma alloc_blocks_None: "alloc_blocks want bs = None \<longleftrightarrow> (\<forall>(f, n) \<in> set bs. f \<longrightarrow> n < want)"
  by (induction want bs rule: alloc_blocks.induct) (auto split: if_splits)

lemma merge_fwd_alloc_None:
  "merge_fwd n ys = (k, zs) \<Longrightarrow> k < want \<Longrightarrow> alloc_blocks want zs = None \<Longrightarrow> alloc_blocks want ys = None"
proof (induction n ys rule: merge_fwd.induct)
  case (2 n f j ys)
  show ?case
  proof (cases f)
    case True
    then have mf: "merge_fwd (n + 48 + j) ys = (k, zs)" using "2.prems"(1) by simp
    then have "j < want" using merge_fwd_at [OF mf, of 0 0] "2.prems"(2) by linarith
    then show ?thesis using "2.IH" [OF True mf "2.prems"(2,3)] by simp
  qed (use "2.prems" in auto)
qed auto

text \<open>
  A successful call returns a used block of at least \<open>want\<close> bytes that starts with the \<open>n\<close> bytes of the old
  one; a failed call leaves the old block, perhaps larger. No other used block changes, and none is lost.
\<close>

definition realloc_post :: "kheap \<Rightarrow> blocks \<Rightarrow> nat \<Rightarrow> nat \<Rightarrow> nat \<Rightarrow> u64 \<Rightarrow> kheap \<Rightarrow> blocks \<Rightarrow> bool" where
  "realloc_post s bs off n want r t bs' \<longleftrightarrow> heap t bs' \<and> keeps s bs (\<lambda>q. q \<noteq> off) t bs' \<and>
     used_count bs' = used_count bs \<and> (coalesced bs \<longrightarrow> coalesced bs') \<and>
     (if r = 0 then alloc_blocks want bs = None \<and> (\<exists>k \<ge> n. block_at bs' off False k) \<and>
        (\<forall>x \<in> payload s off n. kmem t x = kmem s x)
      else \<exists>off' k. unat r = unat (heap_base s) + off' + 48 \<and> block_at bs' off' False k \<and> want \<le> k \<and>
        (\<forall>i < n. kmem t (unat r + i) = kmem s (unat (heap_base s) + off + 48 + i)))"

lemma grow_spec:
  assumes h: "heap s (xs @ (False, n) # ys)" and mf: "merge_fwd n ys = (k, zs)"
  defines "a \<equiv> unat (heap_base s) + span xs"
  shows "\<exists>t. coalesce (of_nat a) s = Some t \<and> becomes s (used (unat (heap_base s)) (xs @ (False, n) # ys)) (xs @ (False, k) # zs) t"
  using heap_pointer [OF h a_def [THEN meta_eq_to_obj_eq]] merge_forward_spec [OF h mf] by (simp add: coalesce_def a_def)

lemma heap_payload:
  assumes "heap t bs" "block_at bs off False k" and "\<And>x. x \<notin> payload t off k \<Longrightarrow> m x = kmem t x"
  shows "heap (t\<lparr>kmem := m\<rparr>) bs" "keeps t bs (\<lambda>q. q \<noteq> off) (t\<lparr>kmem := m\<rparr>) bs"
proof -
  let ?b = "unat (heap_base t)"
  have "m x = kmem t x" if "x \<in> headers ?b bs" for x
    using that headers_used [of ?b bs] used_block [OF assms(2), of ?b] by (intro assms(3)) (auto simp: payload_def)
  then show "heap (t\<lparr>kmem := m\<rparr>) bs" using assms(1) seg_cong [of ?b bs m "kmem t"] by (simp add: heap_def)
  show "keeps t bs (\<lambda>q. q \<noteq> off) (t\<lparr>kmem := m\<rparr>) bs"
    unfolding keeps_def
  proof (intro allI impI conjI ballI)
    fix q j x assume q: "block_at bs q False j \<and> q \<noteq> off" and x: "x \<in> payload t q j"
    have "off + 48 + k \<le> q \<or> q + 48 + j \<le> off" using block_at_disjoint [OF assms(2), of q False j] q by auto
    then show "kmem (t\<lparr>kmem := m\<rparr>) x = kmem t x" using x assms(3) [of x] by (auto simp: payload_def)
  qed simp
qed

lemma move_block_spec:
  assumes h: "heap s bs" and b: "block_at bs off False n" and want: "0 < want" "16 dvd want" "n < want"
    "want + 15 < 18446744073709551616"
  shows "\<exists>r t bs'. move_block (of_nat (unat (heap_base s) + off + 48)) (of_nat want) s = Some (r, t) \<and>
    (\<exists>m. t = s\<lparr>kmem := m\<rparr>) \<and> realloc_post s bs off n want r t bs'"
proof -
  let ?b = "unat (heap_base s)"
  let ?h = "?b + off" and ?p = "?b + off + 48"
  have uw: "unat (of_nat want :: u64) = want" using want(4) by (intro unat_ptr) simp
  have w0: "0 < (of_nat want :: u64)" using uw want(1) by (metis unat_0 word_gt_0 less_irrefl)
  have al: "align16 want = want" using want(2) by (auto simp: align16_def)
  obtain r t where km: "kmalloc (of_nat want) s = Some (r, t)"
    "case alloc_blocks want bs of None \<Rightarrow> r = 0 \<and> t = s
     | Some (off, bs') \<Rightarrow> unat r = ?b + off + 48 \<and> r \<noteq> 0 \<and> (\<exists>m. t = s\<lparr>kmem := m\<rparr>) \<and> heap t bs' \<and> keeps s bs (\<lambda>_. True) t bs'"
    using kmalloc_spec [OF h w0] uw al want(4) by auto
  show ?thesis
  proof (cases "alloc_blocks want bs")
    case None
    then have "r = 0" "t = s" using km(2) by auto
    then have "move_block (of_nat ?p) (of_nat want) s = Some (0, s)" using km(1) by (simp add: move_block_def)
    moreover have "realloc_post s bs off n want 0 s bs"
      using h b None by (auto simp: realloc_post_def keeps_def)
    ultimately show ?thesis by (intro exI [of _ 0] exI [of _ s] exI [of _ bs]) (auto intro: exI [of _ "kmem s"])
  next
    case (Some c)
    obtain off' bs1 where c: "c = (off', bs1)" by fastforce
    obtain m where t: "unat r = ?b + off' + 48" "r \<noteq> 0" "t = s\<lparr>kmem := m\<rparr>" "heap t bs1" "keeps s bs (\<lambda>_. True) t bs1"
      using km(2) by (auto simp: Some c)
    obtain k where k: "block_at bs1 off' False k" "want \<le> k" using alloc_blocks_at(1) [OF Some [unfolded c]] by blast
    have old: "block_at bs1 off False n" "off \<noteq> off'" using alloc_blocks_at(2) [OF Some [unfolded c]] b by auto
    have dis: "off + 48 + n \<le> off' \<or> off' + 48 + k \<le> off" using block_at_disjoint [OF old(1) k(1) old(2)] .
    have e: "?b + span bs1 < 18446744073709551616"
      using t(3,4) unat_u64_less [of "heap_end s"] by (simp add: heap_def)
    have lim: "?p + n < 18446744073709551616" "?b + off' + 48 + k < 18446744073709551616"
      using e block_at_bound [OF old(1)] block_at_bound [OF k(1)] by linarith+
    obtain us vs where us: "bs1 = us @ (False, n) # vs" "span us = off" using old(1) by (auto simp: block_at_def)
    have hs: "h_size t (of_nat ?h) = of_nat n" using heap_pointer(7) [of t us False n vs ?h] t(3,4) us by simp
    have rr: "r = of_nat (?b + off' + 48)" using t(1) by (metis of_nat_unat_eq)
    obtain m1 where m1: "copy_payload (of_nat ?h) (of_nat ?p) r 0 t = t\<lparr>kmem := m1\<rparr>"
      "\<forall>x. m1 x = (if ?b + off' + 48 \<le> x \<and> x < ?b + off' + 48 + n then kmem t (?p + (x - (?b + off' + 48))) else kmem t x)"
      using copy_payload_spec [of 0 n ?p "?b + off' + 48" ?h t] hs lim dis k(2) want(3) rr by auto
    let ?u = "t\<lparr>kmem := m1\<rparr>"
    have out: "m1 x = kmem t x" if "\<not> (?b + off' + 48 \<le> x \<and> x < ?b + off' + 48 + k)" for x
      using that m1(2) k(2) want(3) by auto
    have hu: "heap ?u bs1" "keeps t bs1 (\<lambda>q. q \<noteq> off') ?u bs1"
      using heap_payload [OF t(4) k(1), of m1] out t(3) by (auto simp: payload_def)
    have at: "of_nat ?p = (of_nat (unat (heap_base ?u) + off + 48) :: u64)" using t(3) by simp
    obtain xs ys v where v: "bs1 = xs @ (False, n) # ys" "span xs = off" "kfree (of_nat ?p) ?u = Some v"
      "\<exists>m. v = ?u\<lparr>kmem := m\<rparr>" "heap v (free_blocks xs n ys)" "keeps ?u bs1 (\<lambda>q. q \<noteq> off) v (free_blocks xs n ys)"
      using kfree_block_spec [OF hu(1) old(1)] unfolding at [symmetric] by blast
    let ?bs2 = "free_blocks xs n ys"
    have "(of_nat ?p :: u64) - HEADER_SIZE = of_nat ?h" using ptr_add(2) .
    then have mv: "move_block (of_nat ?p) (of_nat want) s = Some (r, v)"
      using km(1) t(2) m1(1) v(3) by (simp add: move_block_def del: of_nat_add)
    have kv: "keeps s bs (\<lambda>q. q \<noteq> off) v ?bs2"
      unfolding keeps_def
    proof (intro allI impI)
      fix q j assume q: "block_at bs q False j \<and> q \<noteq> off"
      then have q1: "block_at bs1 q False j" "q \<noteq> off'" using alloc_blocks_at(2) [OF Some [unfolded c]] by auto
      have "block_at ?bs2 q False j" "\<forall>x \<in> payload s q j. kmem v x = kmem ?u x"
        using v(6) q1 q t(3) by (auto simp: keeps_def payload_def)
      moreover have "\<forall>x \<in> payload s q j. kmem ?u x = kmem t x" "\<forall>x \<in> payload s q j. kmem t x = kmem s x"
        using hu(2) t(5) q1 q t(3) by (auto simp: keeps_def payload_def)
      ultimately show "block_at ?bs2 q False j \<and> (\<forall>x \<in> payload s q j. kmem v x = kmem s x)" by simp
    qed
    have new: "block_at ?bs2 off' False k" "\<forall>x \<in> payload s off' k. kmem v x = m1 x"
      using v(6) k(1) old(2) t(3) by (auto simp: keeps_def payload_def)
    have "kmem v (unat r + i) = kmem s (?p + i)" if "i < n" for i
    proof -
      have "kmem v (unat r + i) = m1 (unat r + i)" using new(2) that k(2) want(3) t(1) by (simp add: payload_def)
      also have "\<dots> = kmem t (?p + i)" using m1(2) that t(1) by simp
      also have "\<dots> = kmem s (?p + i)" using t(5) b that by (simp add: keeps_def payload_def)
      finally show ?thesis .
    qed
    moreover have "used_count ?bs2 = used_count bs"
      using free_blocks_used_count [of xs n ys] alloc_blocks_used_count [OF Some [unfolded c]] v(1) by simp
    moreover have "coalesced bs \<longrightarrow> coalesced ?bs2"
      using alloc_blocks_coalesced [OF Some [unfolded c]] free_blocks_coalesced [of xs n ys] v(1) by blast
    ultimately have "realloc_post s bs off n want r v ?bs2"
      using kv new(1) k(2) t(1,2) v(5) by (auto simp: realloc_post_def)
    then show ?thesis using mv v(4) t(3) by (intro exI [of _ r] exI [of _ v] exI [of _ ?bs2]) auto
  qed
qed

lemma realloc_post_after:
  assumes b: "becomes s (used (unat (heap_base s)) (xs @ (False, n) # ys)) (xs @ (False, k) # zs) t"
    and mf: "merge_fwd n ys = (k, zs)" "k < want"
    and p: "realloc_post t (xs @ (False, k) # zs) (span xs) k want r u bs'"
  shows "realloc_post s (xs @ (False, n) # ys) (span xs) n want r u bs'"
proof -
  let ?bs = "xs @ (False, n) # ys" and ?cs = "xs @ (False, k) # zs" and ?b = "unat (heap_base s)"
  have hb: "heap_base t = heap_base s" and eq: "\<forall>x \<in> used ?b ?bs. kmem t x = kmem s x" using b by (auto simp: becomes_def)
  note at = merge_fwd_at [OF mf(1)]
  have nk: "n \<le> k" using at by blast
  have keep1: "keeps s ?bs (\<lambda>q. q \<noteq> span xs) t ?cs"
    unfolding keeps_def
  proof (intro allI impI conjI)
    fix q j assume q: "block_at ?bs q False j \<and> q \<noteq> span xs"
    then consider "block_at xs q False j" | i where "q = span xs + (48 + n + i)" "block_at ys i False j"
      by (auto simp: block_at_append block_at_Cons)
    then show "block_at ?cs q False j"
    proof cases
      case 2
      then obtain l where "block_at zs l False j" "k + l = n + i" using at by blast
      then show ?thesis using 2(1) by (auto simp: block_at_append block_at_Cons add.assoc intro!: exI [of _ l])
    qed (simp add: block_at_append)
    show "\<forall>x \<in> payload s q j. kmem t x = kmem s x" using eq used_block [of ?bs q j ?b] q by (auto simp: payload_def)
  qed
  have old: "kmem t x = kmem s x" if "x \<in> payload s (span xs) n" for x
    using that eq by (auto simp: payload_def)
  have ku: "keeps s ?bs (\<lambda>q. q \<noteq> span xs) u bs'"
    using keeps_trans [OF keep1 _ hb] p by (simp add: realloc_post_def)
  have cnt: "used_count ?cs = used_count ?bs" using merge_fwd_used_count [OF mf(1)] by simp
  have co: "coalesced ?bs \<longrightarrow> coalesced ?cs"
    using merge_fwd_coalesced [OF mf(1)] by (auto simp: coalesced_simps)
  have none: "alloc_blocks want ?bs = None" if "alloc_blocks want ?cs = None"
    using that merge_fwd_alloc_None [OF mf] by (auto simp: alloc_blocks_None)
  have fail: "alloc_blocks want ?bs = None \<and> (\<exists>j \<ge> n. block_at bs' (span xs) False j) \<and> (\<forall>x \<in> payload s (span xs) n. kmem u x = kmem s x)"
    if "r = 0"
    using p that none old nk hb unfolding realloc_post_def payload_def
    by (auto intro: order_trans)
  have succ: "\<exists>off' j. unat r = ?b + off' + 48 \<and> block_at bs' off' False j \<and> want \<le> j \<and>
      (\<forall>i < n. kmem u (unat r + i) = kmem s (?b + span xs + 48 + i))" if "r \<noteq> 0"
    using p that old nk hb unfolding realloc_post_def payload_def by fastforce
  show ?thesis using p ku cnt co fail succ by (auto simp: realloc_post_def)
qed

lemma krealloc_fits: "heap s bs \<Longrightarrow> block_at bs off False n \<Longrightarrow> want \<le> n \<Longrightarrow> r = of_nat (unat (heap_base s) + off + 48) \<Longrightarrow>
  realloc_post s bs off n want r s bs"
proof -
  assume h: "heap s bs" "block_at bs off False n" "want \<le> n" "r = of_nat (unat (heap_base s) + off + 48)"
  obtain xs ys where xs: "bs = xs @ (False, n) # ys" "span xs = off" using h(2) by (auto simp: block_at_def)
  have "unat (heap_base s) + off + 48 < 18446744073709551616" using heap_bounds(3) [of s xs False n ys] h(1) xs by simp
  then have "unat r = unat (heap_base s) + off + 48" unfolding h(4) by (rule unat_ptr)
  moreover from this have "r \<noteq> 0" by auto
  ultimately show ?thesis using h(1-3) by (auto simp: realloc_post_def keeps_def)
qed

lemma grow_in_place_spec:
  assumes h: "heap s (xs @ (False, n) # ys)" and mf: "merge_fwd n ys = (k, zs)" and want: "0 < want" "16 dvd want" "n < want" "want \<le> k"
    and t: "becomes s (used (unat (heap_base s)) (xs @ (False, n) # ys)) (xs @ (False, k) # zs) t"
  defines "a \<equiv> unat (heap_base s) + span xs"
  shows "\<exists>u bs'. set_is_free (of_nat a) 0 (split_block (of_nat a) (of_nat want) t) = u \<and> (\<exists>m. u = s\<lparr>kmem := m\<rparr>) \<and>
    realloc_post s (xs @ (False, n) # ys) (span xs) n want (of_nat (a + 48)) u bs'"
proof -
  let ?bs = "xs @ (False, n) # ys" and ?b = "unat (heap_base s)"
  have ht: "heap t (xs @ (False, k) # zs)" "heap_base t = heap_base s" "\<exists>m. t = s\<lparr>kmem := m\<rparr>"
    and eq: "\<forall>x \<in> used ?b ?bs. kmem t x = kmem s x" using t by (auto simp: becomes_def)
  have a: "a = unat (heap_base t) + span xs" by (simp add: a_def ht(2))
  obtain m where m: "split_block (of_nat a) (of_nat want) t = t\<lparr>kmem := m\<rparr>"
    "heap (t\<lparr>kmem := m\<rparr>) (xs @ carve False want k @ zs)"
    "\<forall>x \<in> used ?b xs \<union> {a + 48..<a + 48 + want} \<union> used (a + 48 + k) zs. m x = kmem t x"
    using split_block_spec [OF ht(1) a want(1,2,4)] unfolding ht(2) by blast
  obtain j rest where c: "carve False want k = (False, j) # rest" "j \<in> {k, want}" by (rule carve_first)
  have "heap (t\<lparr>kmem := m\<rparr>) (xs @ (False, j) # rest @ zs)" using m(2) c by simp
  from set_is_free_spec [OF this, of a False] a
  obtain m' where m': "set_is_free (of_nat a) 0 (t\<lparr>kmem := m\<rparr>) = t\<lparr>kmem := m'\<rparr>"
    "heap (t\<lparr>kmem := m'\<rparr>) (xs @ (False, j) # rest @ zs)" "\<forall>x. \<not> (a \<le> x \<and> x < a + 48) \<longrightarrow> m' x = m x"
    by auto
  let ?u = "t\<lparr>kmem := m'\<rparr>" and ?cs = "xs @ (False, j) # rest @ zs"
  note at = merge_fwd_at [OF mf]
  have sp: "span ((False, j) # rest) = 48 + k" unfolding c(1) [symmetric] using want(4) by (simp add: carve_def)
  have "keeps s ?bs (\<lambda>q. q \<noteq> span xs) ?u ?cs"
    unfolding keeps_def
  proof (intro allI impI)
    fix q i assume q: "block_at ?bs q False i \<and> q \<noteq> span xs"
    have ps: "\<forall>x \<in> payload s q i. kmem t x = kmem s x" using eq used_block [of ?bs q i ?b] q by (auto simp: payload_def)
    from q consider "block_at xs q False i" | l where "q = span xs + (48 + n + l)" "block_at ys l False i"
      by (auto simp: block_at_append block_at_Cons)
    then have "block_at ?cs q False i \<and> payload s q i \<subseteq> used ?b xs \<union> used (a + 48 + k) zs"
    proof cases
      case 1
      then show ?thesis using used_block [OF 1, of ?b] by (auto simp: block_at_append payload_def)
    next
      case 2
      then obtain l' where l': "block_at zs l' False i" "k + l' = n + l" using at by blast
      have q': "q = span xs + (span ((False, j) # rest) + l')" using 2(1) l'(2) sp by simp
      have "block_at (xs @ ((False, j) # rest) @ zs) q False i" unfolding q' using l'(1) by (auto simp only: block_at_append)
      moreover have "payload s q i \<subseteq> used (a + 48 + k) zs"
        using used_block [OF l'(1), of "a + 48 + k"] 2(1) l'(2) by (auto simp: payload_def a_def)
      ultimately show ?thesis by auto
    qed
    moreover have "m' x = kmem t x" if "x \<in> used ?b xs \<union> used (a + 48 + k) zs" for x
      using that m(3) m'(3) used_bounds [of x ?b xs] used_bounds [of x "a + 48 + k" zs] by (auto simp: a_def)
    ultimately show "block_at ?cs q False i \<and> (\<forall>x \<in> payload s q i. kmem ?u x = kmem s x)" using ps by auto
  qed
  moreover have "used_count ?cs = used_count ?bs"
    using merge_fwd_used_count [OF mf] used_count_carve [of want k] c(1) by simp
  moreover have "coalesced ?bs \<longrightarrow> coalesced ?cs"
    using merge_fwd_coalesced [OF mf] merge_fwd_head [OF mf] c by (auto simp: coalesced_simps carve_def split: if_splits)
  moreover have "m' (a + 48 + i) = kmem s (a + 48 + i)" if "i < n" for i
    using that m(3) m'(3) eq want(3) by (simp add: a_def)
  moreover have "block_at ?cs (span xs) False j" "want \<le> j" using c(2) want(4) by (auto simp: block_at_append block_at_Cons)
  moreover have ua: "unat (of_nat (a + 48) :: u64) = a + 48"
    using heap_bounds(3) [OF h, folded a_def] by (intro unat_ptr) simp
  moreover have "(of_nat (a + 48) :: u64) \<noteq> 0" using ua by (metis add_is_0 unat_0 zero_neq_numeral)
  moreover have "\<exists>off' k. unat (of_nat (a + 48) :: u64) = ?b + off' + 48 \<and> block_at ?cs off' False k \<and> want \<le> k \<and>
      (\<forall>i < n. kmem ?u (unat (of_nat (a + 48) :: u64) + i) = kmem s (?b + span xs + 48 + i))"
    unfolding ua using calculation(4-6) by (intro exI [of _ "span xs"] exI [of _ j]) (simp add: a_def)
  ultimately have "realloc_post s ?bs (span xs) n want (of_nat (a + 48)) ?u ?cs"
    using m'(2) unfolding realloc_post_def by (simp only: if_False simp_thms)
  then show ?thesis using m(1) m'(1) ht(3) by auto
qed

lemma krealloc_spec:
  assumes h: "heap s bs" and b: "block_at bs off False n" and len: "0 < len" "unat len + 30 < 18446744073709551616"
  shows "\<exists>r t bs'. krealloc (of_nat (unat (heap_base s) + off + 48)) len s = Some (r, t) \<and>
    (\<exists>m. t = s\<lparr>kmem := m\<rparr>) \<and> realloc_post s bs off n (align16 (unat len)) r t bs'"
proof -
  let ?w = "align16 (unat len)" and ?a = "unat (heap_base s) + off"
  obtain xs ys where xs: "bs = xs @ (False, n) # ys" "span xs = off" using b by (auto simp: block_at_def)
  have h': "heap s (xs @ (False, n) # ys)" and a: "?a = unat (heap_base s) + span xs" using h xs by simp_all
  note p = heap_pointer [OF h' a] and bd = heap_bounds [OF h', folded a]
  have "unat len \<noteq> 0" using len(1) by (simp add: unat_eq_zero word_gt_0)
  then have w: "0 < ?w" "16 dvd ?w" "?w + 15 < 18446744073709551616" using align16 [of "unat len"] len(2) by auto
  have up: "ALIGN_UP len 16 = of_nat ?w" using unat_ALIGN(1) [of len, symmetric] len(2) by simp
  have n64: "n < 18446744073709551616" and a64: "?a + 48 + n < 18446744073709551616" using bd(3) by linarith+
  have fit: "(of_nat ?w :: u64) \<le> of_nat j \<longleftrightarrow> ?w \<le> j" if "j < 18446744073709551616" for j
    using ptr_eq(2) [of ?w j] w(3) that by simp
  let ?grow = "\<lambda>s. h_next s (of_nat ?a) \<noteq> 0 \<and> h_is_free s (h_next s (of_nat ?a)) \<noteq> 0 \<and> h_magic s (h_next s (of_nat ?a)) = HEAP_MAGIC"
  have kr: "krealloc (of_nat (?a + 48)) len s =
      (if ?w \<le> n then Some (of_nat (?a + 48), s)
       else if ?grow s
       then case coalesce (of_nat ?a) s of None \<Rightarrow> None
            | Some s \<Rightarrow> if of_nat ?w \<le> h_size s (of_nat ?a)
                then Some (of_nat (?a + 48), set_is_free (of_nat ?a) 0 (split_block (of_nat ?a) (of_nat ?w) s))
                else move_block (of_nat (?a + 48)) (of_nat ?w) s
       else move_block (of_nat (?a + 48)) (of_nat ?w) s)"
    unfolding krealloc_def Let_def ptr_add up
    using p(2,5) word_gt_0 [THEN iffD1, OF len(1)] p(7) fit [OF n64] by (simp del: of_nat_add)
  show ?thesis
  proof (cases "?w \<le> n")
    case True
    then show ?thesis using kr krealloc_fits [OF h b True refl] by (intro exI [of _ "of_nat (?a + 48)"] exI [of _ s] exI [of _ bs])
        (auto intro: exI [of _ "kmem s"])
  next
    case False
    then have nw: "n < ?w" by simp
    show ?thesis
    proof (cases "?grow s")
      case True
      obtain k zs where mf: "merge_fwd n ys = (k, zs)" by fastforce
      obtain t where t: "coalesce (of_nat ?a) s = Some t"
        "becomes s (used (unat (heap_base s)) (xs @ (False, n) # ys)) (xs @ (False, k) # zs) t"
        using grow_spec [OF h' mf] a by auto
      have tb: "heap_base t = heap_base s" "heap t (xs @ (False, k) # zs)" using t(2) by (auto simp: becomes_def)
      have hsz: "h_size t (of_nat ?a) = of_nat k" using heap_pointer(7) [OF tb(2), of ?a] tb(1) a by simp
      have "k < 18446744073709551616" using heap_bounds(3) [OF tb(2)] by linarith
      note fk = fit [OF this]
      show ?thesis
      proof (cases "?w \<le> k")
        case True
        then show ?thesis
          using grow_in_place_spec [OF h' mf w(1,2) nw True t(2)] kr False \<open>?grow s\<close> t(1) hsz fk
          by (auto simp: xs a [symmetric] simp del: of_nat_add)
      next
        case big: False
        have "block_at (xs @ (False, k) # zs) off False k" using xs(2) by (auto simp: block_at_def)
        from move_block_spec [OF tb(2) this w(1,2) _ w(3)] big obtain r u bs' where
          u: "move_block (of_nat (?a + 48)) (of_nat ?w) t = Some (r, u)" "\<exists>m. u = t\<lparr>kmem := m\<rparr>"
            "realloc_post t (xs @ (False, k) # zs) off k ?w r u bs'" by (auto simp: tb(1) simp del: of_nat_add)
        have "realloc_post s bs off n ?w r u bs'"
          using realloc_post_after [OF t(2) mf] u(3) big xs by simp
        moreover have "\<exists>m. u = s\<lparr>kmem := m\<rparr>" using u(2) t(2) by (auto simp: becomes_def)
        moreover have "krealloc (of_nat (?a + 48)) len s = Some (r, u)"
          using kr False \<open>?grow s\<close> t(1) hsz fk big u(1) by (simp del: of_nat_add)
        ultimately show ?thesis by blast
      qed
    next
      case no: False
      have "krealloc (of_nat (?a + 48)) len s = move_block (of_nat (?a + 48)) (of_nat ?w) s"
        by (rule kr [unfolded if_not_P [OF False] if_not_P [OF no]])
      then show ?thesis using move_block_spec [OF h b w(1,2) nw w(3)] by simp
    qed
  qed
qed

section \<open>Free bytes\<close>

definition free_bytes :: "blocks \<Rightarrow> nat" where "free_bytes bs = sum_list (map (\<lambda>(f, n). if f then n else 0) bs)"

lemma free_size_loop_spec:
  assumes "heap s (xs @ ys)"
  shows "free_size_loop acc (of_nat (if ys = [] then 0 else unat (heap_base s) + span xs)) s = Some (acc + of_nat (free_bytes ys))"
  using assms
proof (induction ys arbitrary: xs acc)
  case Nil
  then show ?case by (simp add: free_size_loop.simps free_bytes_def)
next
  case (Cons y ys)
  obtain f n where y: "y = (f, n)" by fastforce
  define a where "a = unat (heap_base s) + span xs"
  have h: "heap s (xs @ (f, n) # ys)" "heap s ((xs @ [(f, n)]) @ ys)" using Cons.prems y by simp_all
  have at: "unat (heap_base s) + span (xs @ [(f, n)]) = a + 48 + n" by (simp add: a_def)
  note p = heap_pointer [OF h(1) a_def]
  have "free_size_loop acc (of_nat a) s =
      free_size_loop (acc + (if f then of_nat n else 0)) (of_nat (if ys = [] then 0 else a + 48 + n)) s"
    using p(1,5-8) by (subst free_size_loop.simps) simp
  also have "\<dots> = Some (acc + (if f then of_nat n else 0) + of_nat (free_bytes ys))"
    using Cons.IH [OF h(2), unfolded at] by simp
  finally show ?case by (simp add: a_def y free_bytes_def add.assoc)
qed

lemma free_bytes_span: "free_bytes bs \<le> span bs"
  by (induction bs) (auto simp: free_bytes_def)

section \<open>Properties\<close>

text \<open>
  \<open>kheap_init\<close> on a region that has room for a header and more than 16 bytes establishes the heap
  invariant: one free block that spans the 16-byte aligned part of the region.
\<close>

theorem kheap_init_establishes:
  assumes "start_addr \<noteq> 0" and "unat start_addr + unat len + 128 < 18446744073709551616"
    and "align16 (unat start_addr) + 64 < 16 * ((unat start_addr + unat len) div 16)"
  shows "heap (kheap_init start_addr len s) [(True, 16 * ((unat start_addr + unat len) div 16) - align16 (unat start_addr) - 48)] \<and>
    unat (heap_base (kheap_init start_addr len s)) = align16 (unat start_addr)"
  using kheap_init_spec [OF assms] by blast

text \<open>A small heap: 496 bytes from 0x1008 on.\<close>

definition heap0 :: kheap where
  "heap0 = kheap_init 0x1008 0x1F0 \<lparr>kmem = (\<lambda>_. 0), heap_start = 0, heap_base = 0, heap_end = 0\<rparr>"

theorem kheap_init_establishes_witness: "heap heap0 [(True, 432)] \<and> unat (heap_base heap0) = 4112"
  unfolding heap0_def
  using kheap_init_establishes [of "0x1008" "0x1F0" "\<lparr>kmem = (\<lambda>_. 0), heap_start = 0, heap_base = 0, heap_end = 0\<rparr>"]
  by (simp add: align16_def)

lemma heap0_facts: "heap heap0 [(True, 432)]" "unat (heap_base heap0) = 4112"
  using kheap_init_spec [of "0x1008" "0x1F0" "\<lparr>kmem = (\<lambda>_. 0), heap_start = 0, heap_base = 0, heap_end = 0\<rparr>"]
  by (simp_all add: align16_def heap0_def)

text \<open>
  C22: \<open>kmalloc\<close> implements first fit on the list of blocks. It fails, and changes nothing, exactly when no
  free block holds the request rounded up to 16 bytes; otherwise the pointer is 16-byte aligned and is the
  payload of a block that was free and is now used, every block in use keeps its place and contents, and no two
  free blocks become adjacent.
\<close>

theorem kmalloc_correct:
  assumes "heap s bs" and "0 < len" "unat len + 15 < 18446744073709551616"
  shows "\<exists>r t. kmalloc len s = Some (r, t) \<and>
    (if \<forall>(f, n) \<in> set bs. f \<longrightarrow> n < align16 (unat len) then r = 0 \<and> t = s
     else \<exists>off bs' n k. alloc_blocks (align16 (unat len)) bs = Some (off, bs') \<and> heap t bs' \<and>
       unat r = unat (heap_base s) + off + 48 \<and> r \<noteq> 0 \<and> 16 dvd unat r \<and>
       block_at bs off True n \<and> block_at bs' off False k \<and> unat len \<le> k \<and>
       keeps s bs (\<lambda>_. True) t bs' \<and> used_count bs' = Suc (used_count bs) \<and> (coalesced bs \<longrightarrow> coalesced bs'))"
proof -
  let ?w = "align16 (unat len)"
  obtain r t where k: "kmalloc len s = Some (r, t)"
    "case alloc_blocks ?w bs of None \<Rightarrow> r = 0 \<and> t = s
     | Some (off, bs') \<Rightarrow> unat r = unat (heap_base s) + off + 48 \<and> r \<noteq> 0 \<and> (\<exists>m. t = s\<lparr>kmem := m\<rparr>) \<and> heap t bs' \<and>
         keeps s bs (\<lambda>_. True) t bs'"
    using kmalloc_spec [OF assms] by blast
  show ?thesis
  proof (cases "alloc_blocks ?w bs")
    case None
    then have "\<forall>(f, n) \<in> set bs. f \<longrightarrow> n < ?w" using alloc_blocks_None by blast
    then show ?thesis using k None by simp
  next
    case (Some c)
    obtain off bs' where c: "c = (off, bs')" by fastforce
    note al = Some [unfolded c]
    obtain n j where at: "block_at bs off True n" "block_at bs' off False j" "?w \<le> j" using alloc_blocks_at(1) [OF al] by blast
    have "16 dvd unat (heap_base s) + off" using at(1) assms(1) heap_bounds(4) by (fastforce simp: block_at_def)
    then have "16 dvd unat (heap_base s) + off + 48" by (simp add: dvd_add_left_iff)
    moreover have "unat len \<le> j" using at(3) align16(1) [of "unat len"] by linarith
    moreover have "\<not> (\<forall>(f, n) \<in> set bs. f \<longrightarrow> n < ?w)" using al alloc_blocks_None [of ?w bs] by auto
    ultimately show ?thesis
      using k at alloc_blocks_used_count [OF al] alloc_blocks_coalesced [OF al] by (auto simp: al)
  qed
qed

theorem kmalloc_correct_witness:
  "\<exists>r t. kmalloc 100 heap0 = Some (r, t) \<and> unat r = 4160 \<and> heap t [(False, 112), (True, 272)]"
  using kmalloc_correct [OF heap0_facts(1), of 100] heap0_facts(2) by (auto simp: align16_def carve_def)

text \<open>
  \<open>kfree\<close> of a block in use merges it with the free blocks around it: the list is the one that results from
  dropping the borders of the surrounding free run, all other blocks in use keep their place and contents, their
  number drops by one, and a heap without adjacent free blocks stays one.
\<close>

theorem kfree_correct:
  assumes "heap s (xs @ (False, n) # ys)"
  shows "\<exists>t bs'. kfree (of_nat (unat (heap_base s) + span xs + 48)) s = Some t \<and> heap t bs' \<and>
    bs' = free_blocks xs n ys \<and> keeps s (xs @ (False, n) # ys) (\<lambda>q. q \<noteq> span xs) t bs' \<and>
    used_count bs' + 1 = used_count (xs @ (False, n) # ys) \<and> (coalesced (xs @ (False, n) # ys) \<longrightarrow> coalesced bs')"
proof -
  obtain t where t: "kfree (of_nat (unat (heap_base s) + span xs + 48)) s = Some t"
    "becomes s (used (unat (heap_base s)) xs \<union> used (unat (heap_base s) + span xs + 48 + n) ys) (free_blocks xs n ys) t"
    using kfree_spec [OF assms refl] by blast
  then show ?thesis
    using kfree_keeps [OF t(2)] free_blocks_used_count [of xs n ys] free_blocks_coalesced [of xs n ys]
    by (auto simp: becomes_def)
qed

text \<open>The small heap after a request of 100 bytes.\<close>

definition heap1 :: kheap where "heap1 = snd (the (kmalloc 100 heap0))"

lemma heap1_facts: "heap heap1 [(False, 112), (True, 272)]" "unat (heap_base heap1) = 4112" "kmalloc 100 heap0 = Some (4160, heap1)"
proof -
  obtain r t where t: "kmalloc 100 heap0 = Some (r, t)" "unat r = 4160" "heap t [(False, 112), (True, 272)]"
    "\<exists>m. t = heap0\<lparr>kmem := m\<rparr>"
    using kmalloc_spec [OF heap0_facts(1), of 100] heap0_facts(2) by (auto simp: align16_def carve_def)
  have "r = 4160" using t(2) by (simp add: word_unat_eq_iff)
  then show "heap heap1 [(False, 112), (True, 272)]" "unat (heap_base heap1) = 4112" "kmalloc 100 heap0 = Some (4160, heap1)"
    using t heap0_facts(2) by (auto simp: heap1_def)
qed

theorem kfree_correct_witness: "\<exists>t. kfree 4160 heap1 = Some t \<and> heap t [(True, 432)]"
  using kfree_correct [of heap1 "[]" 112 "[(True, 272)]"] heap1_facts by (auto simp: free_blocks_def)

text \<open>
  \<open>kfree\<close> leaves the heap as it is when the pointer is \<open>NULL\<close>, lies outside the heap, is the first payload
  byte of a block that is already free, or has no block header in front of it.
\<close>

theorem kfree_rejects:
  assumes "ptr = 0 \<or> \<not> ptr_in_heap ptr s \<or> \<not> ptr_in_heap (ptr - HEADER_SIZE) s \<or> h_magic s (ptr - HEADER_SIZE) \<noteq> HEAP_MAGIC \<or>
    (\<exists>xs n ys. heap s (xs @ (True, n) # ys) \<and> ptr = of_nat (unat (heap_base s) + span xs + 48))"
  shows "kfree ptr s = Some s"
proof (cases "\<exists>xs n ys. heap s (xs @ (True, n) # ys) \<and> ptr = of_nat (unat (heap_base s) + span xs + 48)")
  case True
  then obtain xs n ys where h: "heap s (xs @ (True, n) # ys)" "ptr = of_nat (unat (heap_base s) + span xs + 48)" by blast
  then show ?thesis using heap_pointer(6) [OF h(1) refl] by (simp add: kfree_def Let_def ptr_add(2) del: of_nat_add)
qed (use assms in \<open>auto simp: kfree_def Let_def\<close>)

theorem kfree_rejects_witness: "kfree 4160 heap0 = Some heap0"
  using kfree_rejects [of 4160 heap0] heap0_facts by (force intro!: exI [of _ "[]"])

text \<open>
  On a heap without adjacent free blocks, a successful \<open>kmalloc\<close> followed by \<open>kfree\<close> of its result restores the
  list of blocks, so nothing leaks and nothing fragments; all blocks in use keep their contents.
\<close>

theorem kmalloc_kfree_roundtrip:
  assumes "heap s bs" "coalesced bs" "0 < len" "unat len + 15 < 18446744073709551616" and "kmalloc len s = Some (r, t)" "r \<noteq> 0"
  shows "\<exists>u. kfree r t = Some u \<and> heap u bs \<and> keeps s bs (\<lambda>_. True) u bs"
proof -
  let ?w = "align16 (unat len)"
  from kmalloc_spec [OF assms(1,3,4)] assms(5,6) obtain off bs' where al: "alloc_blocks ?w bs = Some (off, bs')"
    and t: "unat r = unat (heap_base s) + off + 48" "\<exists>m. t = s\<lparr>kmem := m\<rparr>" "heap t bs'" "keeps s bs (\<lambda>_. True) t bs'"
    by (auto split: option.splits)
  obtain xs n ys where bs: "bs = xs @ (True, n) # ys" "bs' = xs @ carve False ?w n @ ys" "off = span xs" "?w \<le> n"
    using alloc_blocks_split [OF al] by blast
  obtain k rest where c: "carve False ?w n = (False, k) # rest" by (rule carve_first)
  have hb: "heap_base t = heap_base s" using t(2) by auto
  have ht: "heap t (xs @ (False, k) # rest @ ys)" using t(3) bs(2) c by simp
  obtain u where u: "kfree (of_nat (unat (heap_base t) + span xs + 48)) t = Some u"
    "becomes t (used (unat (heap_base t)) xs \<union> used (unat (heap_base t) + span xs + 48 + k) (rest @ ys)) (free_blocks xs k (rest @ ys)) u"
    using kfree_spec [OF ht refl] by blast
  have fb: "free_blocks xs k (rest @ ys) = bs" using free_after_alloc [of xs n ys ?w k rest] assms(2) bs c by simp
  have r: "r = of_nat (unat (heap_base t) + span xs + 48)" using t(1) bs(3) hb by (metis of_nat_unat_eq)
  have ku: "keeps t bs' (\<lambda>q. q \<noteq> off) u bs" using kfree_keeps [OF u(2)] by (simp add: fb bs(2,3) c)
  have "keeps s bs (\<lambda>_. True) u bs"
    unfolding keeps_def
  proof (intro allI impI)
    fix q j assume q: "block_at bs q False j \<and> True"
    then have q': "block_at bs' q False j" "q \<noteq> off" using alloc_blocks_at(2) [OF al] by auto
    show "block_at bs q False j \<and> (\<forall>x \<in> payload s q j. kmem u x = kmem s x)"
      using q q' t(4) ku hb by (auto simp: keeps_def payload_def)
  qed
  then show ?thesis using u r fb by (auto simp: becomes_def)
qed

theorem kmalloc_kfree_roundtrip_witness: "\<exists>u. kfree 4160 heap1 = Some u \<and> heap u [(True, 432)]"
  using kmalloc_kfree_roundtrip [OF heap0_facts(1) _ _ _ heap1_facts(3)] by (auto simp: coalesced_def)

text \<open>
  C6: \<open>krealloc\<close> of a block in use always ends. When it succeeds, the result is a block in use of at least the
  requested size that begins with all the bytes of the old block; when it fails, no free block was large enough
  and the old block is still in use with its contents. Either way the number of blocks in use is the
  same, and all the other ones keep their place and contents.
\<close>

theorem krealloc_correct:
  assumes "heap s bs" "block_at bs off False n" and "0 < len" "unat len + 30 < 18446744073709551616"
  shows "\<exists>r t bs'. krealloc (of_nat (unat (heap_base s) + off + 48)) len s = Some (r, t) \<and> heap t bs' \<and>
    keeps s bs (\<lambda>q. q \<noteq> off) t bs' \<and> used_count bs' = used_count bs \<and> (coalesced bs \<longrightarrow> coalesced bs') \<and>
    (if r = 0 then (\<forall>(f, k) \<in> set bs. f \<longrightarrow> k < align16 (unat len)) \<and> (\<exists>k \<ge> n. block_at bs' off False k) \<and>
       (\<forall>x \<in> payload s off n. kmem t x = kmem s x)
     else \<exists>off' k. unat r = unat (heap_base s) + off' + 48 \<and> block_at bs' off' False k \<and> unat len \<le> k \<and>
       (\<forall>i < n. kmem t (unat r + i) = kmem s (unat (heap_base s) + off + 48 + i)))"
proof -
  obtain r t bs' where k: "krealloc (of_nat (unat (heap_base s) + off + 48)) len s = Some (r, t)"
    and p: "realloc_post s bs off n (align16 (unat len)) r t bs'"
    using krealloc_spec [OF assms] by blast
  have le: "unat len \<le> k" if "align16 (unat len) \<le> k" for k using that align16(1) [of "unat len"] by linarith
  show ?thesis
    using p le unfolding realloc_post_def alloc_blocks_None
    by (intro exI [of _ r] exI [of _ t] exI [of _ bs'] conjI k) (auto split: if_splits)
qed

theorem krealloc_correct_witness: "\<exists>r t bs'. krealloc 4160 300 heap1 = Some (r, t) \<and> heap t bs' \<and> used_count bs' = 1"
proof -
  have "block_at [(False, 112), (True, 272)] 0 False 112" by (simp add: block_at_Cons)
  from krealloc_correct [OF heap1_facts(1) this, of 300] show ?thesis
    unfolding heap1_facts(2) by auto
qed

text \<open>
  \<open>kheap_free_size\<close> ends and returns the sum of the sizes of the free blocks, without overflow.
\<close>

theorem kheap_free_size_correct:
  assumes "heap s bs"
  shows "\<exists>v. kheap_free_size s = Some v \<and> unat v = sum_list (map snd (filter fst bs))"
proof -
  have "bs \<noteq> []" "heap_start s = of_nat (unat (heap_base s))" using assms by (auto simp: heap_def)
  then have "kheap_free_size s = Some (of_nat (free_bytes bs))"
    using free_size_loop_spec [of s "[]" bs 0] assms by (simp add: kheap_free_size_def)
  moreover have "free_bytes bs < 18446744073709551616"
    using le_less_trans [OF free_bytes_span [of bs], of 18446744073709551616] assms unat_u64_less [of "heap_end s"]
    unfolding heap_def by linarith
  moreover have "free_bytes bs = sum_list (map snd (filter fst bs))" by (induction bs) (auto simp: free_bytes_def)
  ultimately show ?thesis by (metis unat_ptr)
qed

theorem kheap_free_size_correct_witness: "\<exists>v. kheap_free_size heap1 = Some v \<and> unat v = 272"
  using kheap_free_size_correct [OF heap1_facts(1)] by simp

text \<open>
  Rounding a request above \<open>2\<^sup>6\<^sup>4 - 16\<close> up to 16 bytes wraps to 0, so \<open>kmalloc\<close> hands out the first free block
  although no block can hold the request.
\<close>

theorem kmalloc_huge_request:
  assumes "heap s ((True, n) # bs)" and "18446744073709551600 < unat len"
  shows "\<exists>t. kmalloc len s = Some (heap_base s + 48, t)"
proof -
  have l64: "unat len < 18446744073709551616" by simp
  have "unat (len + 15) = (unat len + 15) mod 18446744073709551616" by (simp add: unat_word_ariths)
  also have "\<dots> = unat len + 15 - 18446744073709551616" using assms(2) l64 by (simp add: le_mod_geq less_imp_diff_less)
  also have "\<dots> < 16" using l64 by linarith
  finally have "unat (len + 15) div 16 = 0" by simp
  moreover have "ALIGN_UP len 16 = ALIGN_DOWN (len + 15) 16" by (simp add: ALIGN_UP_def ALIGN_DOWN_def)
  ultimately have w: "ALIGN_UP len 16 = 0" using unat_ALIGN(2) [of "len + 15"] by (simp add: word_unat_eq_iff)
  have st: "heap_start s = heap_base s" using assms(1) by (simp add: heap_def)
  have "len \<noteq> 0" using assms(2) by auto
  then show ?thesis
    using heap_pointer [of s "[]" True n bs "unat (heap_base s)"] assms(1) st
    by (simp add: kmalloc_def w HEADER_SIZE_def find_block.simps [of 0 "heap_base s"])
qed

end
