(* ===== verification/Bridge.thy ===== *)
theory Bridge
  imports Ipc
begin

text \<open>
  The Linux side of the protocol (\<^verbatim>\<open>tools/bridge\<close>): the daemon \<^verbatim>\<open>bridge.c\<close>, which consumes commands and
  produces responses on the shared window, and the test tool \<^verbatim>\<open>inject.c\<close>, which plays the kernel. Both map
  the window of the kernel, so their state holds the same bytes; what they print and the mapping itself are not
  modelled. The clock of the host is an argument.
\<close>

section \<open>The daemon\<close>

record bridge_stats =
  packets_received :: u64
  packets_processed :: u64
  responses_sent :: u64
  doorbell_rings :: u64
  errors :: u64

record bridge =
  win :: mem
  stats :: bridge_stats
  last_doorbell :: u32

text \<open>\<open>time_usec\<close> on a reading of \<open>clock_gettime\<close>: seconds and nanoseconds.\<close>

definition host_usec :: "u64 \<times> u64 \<Rightarrow> u64" where
  "host_usec ts = fst ts * 1000000 + snd ts div 1000"

definition bridge_rsp_doorbell :: "u32 \<Rightarrow> bridge \<Rightarrow> bridge" where
  "bridge_rsp_doorbell head b =
     (if rd32 (win b) DB_magic \<noteq> IPC_DOORBELL_MAGIC then b
      else let m = wr32 (win b) DB_rsp_doorbell head;
               m = wr32 m DB_rsp_writes (rd32 m DB_rsp_writes + 1);
               b = b\<lparr>stats := stats b\<lparr>doorbell_rings := doorbell_rings (stats b) + 1\<rparr>\<rparr>
           in if rd32 m DB_rsp_flags AND DOORBELL_FLAG_IRQ_ENABLED \<noteq> 0
              then let m = wr32 m DB_rsp_flags (rd32 m DB_rsp_flags OR DOORBELL_FLAG_PENDING)
                   in b\<lparr>win := wr32 m DB_rsp_irq_count (rd32 m DB_rsp_irq_count + 1)\<rparr>
              else b\<lparr>win := m\<rparr>)"

definition send_response :: "u64 \<times> u64 \<Rightarrow> u16 \<Rightarrow> u16 \<Rightarrow> u32 \<Rightarrow> bridge \<Rightarrow> (int \<times> bridge) option" where
  "send_response now status orig_cmd result b =
     (let B = IPC_RSP_RING_OFFSET; m = win b
      in if ring_magic B m \<noteq> IPC_RSP_MAGIC then Some (- 1, b)
         else let head = ring_head B m
           in case ring_next head (ring_size B m) of
                None \<Rightarrow> None
              | Some next_head \<Rightarrow>
                  if next_head = ring_tail B m then Some (- 1, b)
                  else let m = put_response m (ring_slot B 16 head)
                             \<lparr>rs_status = status, rs_orig_cmd = orig_cmd, rs_result = result, rs_timestamp = host_usec now\<rparr>;
                           m = set_ring_head B next_head m;
                           b = b\<lparr>win := m, stats := stats b\<lparr>responses_sent := responses_sent (stats b) + 1\<rparr>\<rparr>
                       in Some (0, bridge_rsp_doorbell next_head b))"

text \<open>The answer that the \<open>switch\<close> of \<open>process_packet\<close> chooses: status and result.\<close>

definition answer :: "ipc_packet \<Rightarrow> u16 \<times> u32" where
  "answer pkt =
     (if pk_cmd pkt = CMD_PING then (RSP_OK, 0x504F4E47)
      else if pk_cmd pkt = CMD_PRINT then (RSP_OK, pk_payload_id pkt)
      else if pk_cmd pkt = CMD_RUN_MODEL then (RSP_OK, 0x12345678)
      else (RSP_ERROR, ucast (pk_cmd pkt)))"

definition process_packet :: "u64 \<times> u64 \<Rightarrow> ipc_packet \<Rightarrow> bridge \<Rightarrow> bridge option" where
  "process_packet now pkt b =
     (let st = stats b;
          st = st\<lparr>packets_received := packets_received st + 1\<rparr>;
          (status, result) = answer pkt;
          st = (if status = RSP_ERROR then st\<lparr>errors := errors st + 1\<rparr> else st);
          st = st\<lparr>packets_processed := packets_processed st + 1\<rparr>
      in map_option snd (send_response now status (pk_cmd pkt) result (b\<lparr>stats := st\<rparr>)))"

text \<open>One round of \<open>poll_loop\<close>. A round with nothing to do sleeps and leaves the window to the kernel.\<close>

definition clear_cmd_pending :: "bridge \<Rightarrow> bridge" where
  "clear_cmd_pending b =
     (if rd32 (win b) DB_magic = IPC_DOORBELL_MAGIC \<and> rd32 (win b) DB_cmd_doorbell \<noteq> last_doorbell b
      then b\<lparr>win := wr32 (win b) DB_cmd_flags (rd32 (win b) DB_cmd_flags AND NOT DOORBELL_FLAG_PENDING),
             last_doorbell := rd32 (win b) DB_cmd_doorbell\<rparr>
      else b)"

definition poll_round :: "u64 \<times> u64 \<Rightarrow> bridge \<Rightarrow> bridge option" where
  "poll_round now b =
     (let B = IPC_CMD_RING_OFFSET
      in if ring_magic B (win b) \<noteq> IPC_MAGIC then Some b
         else let b = clear_cmd_pending b; head = ring_head B (win b); tail = ring_tail B (win b)
           in if head = tail then Some b
              else case process_packet now (get_packet (win b) (ring_slot B 16 tail)) b of
                     None \<Rightarrow> None
                   | Some b \<Rightarrow>
                       case ring_next tail (ring_size B (win b)) of
                         None \<Rightarrow> None
                       | Some nxt \<Rightarrow> Some (b\<lparr>win := set_ring_tail B nxt (win b)\<rparr>))"

text \<open>
  The loop until a signal clears \<open>running\<close>: for each round that still starts, what the kernel does to the window
  before it, and the clock.
\<close>

fun poll_loop :: "((mem \<Rightarrow> mem) \<times> u64 \<times> u64) list \<Rightarrow> bridge \<Rightarrow> bridge option" where
  "poll_loop [] b = Some b"
| "poll_loop ((other, now) # rounds) b =
     (case poll_round now (b\<lparr>win := other (win b)\<rparr>) of None \<Rightarrow> None | Some b \<Rightarrow> poll_loop rounds b)"

section \<open>The test tool\<close>

definition inject_init_rings :: "mem \<Rightarrow> mem" where
  "inject_init_rings m =
     (let m = (if ring_magic IPC_CMD_RING_OFFSET m \<noteq> IPC_MAGIC
               then init_ring IPC_CMD_RING_OFFSET IPC_MAGIC IPC_RING_SIZE m else m);
          m = (if ring_magic IPC_RSP_RING_OFFSET m \<noteq> IPC_RSP_MAGIC
               then init_ring IPC_RSP_RING_OFFSET IPC_RSP_MAGIC IPC_RING_SIZE m else m)
      in if rd32 m DB_magic \<noteq> IPC_DOORBELL_MAGIC then init_doorbell m else m)"

definition inject_send_packet :: "u64 \<times> u64 \<Rightarrow> u16 \<Rightarrow> u32 \<Rightarrow> mem \<Rightarrow> (int \<times> mem) option" where
  "inject_send_packet now cmd payload m =
     (let B = IPC_CMD_RING_OFFSET; head = ring_head B m
      in case ring_next head (ring_size B m) of
           None \<Rightarrow> None
         | Some next_head \<Rightarrow>
             if next_head = ring_tail B m then Some (- 1, m)
             else let m = put_packet m (ring_slot B 16 head)
                        \<lparr>pk_cmd = cmd, pk_flags = 0, pk_payload_id = payload, pk_timestamp = host_usec now\<rparr>;
                      m = set_ring_head B next_head m
                  in Some (0, if rd32 m DB_magic = IPC_DOORBELL_MAGIC then ring_cmd_doorbell next_head m else m))"

definition inject_poll_response :: "mem \<Rightarrow> (ipc_response option \<times> mem) option" where
  "inject_poll_response m =
     (let B = IPC_RSP_RING_OFFSET
      in if ring_head B m = ring_tail B m then Some (None, m)
         else let tail = ring_tail B m; rsp = get_response m (ring_slot B 16 tail)
           in case ring_next tail (ring_size B m) of
                None \<Rightarrow> None
              | Some nxt \<Rightarrow> Some (Some rsp, set_ring_tail B nxt m))"

definition inject_reset :: "mem \<Rightarrow> mem" where
  "inject_reset m =
     init_doorbell (init_ring IPC_RSP_RING_OFFSET IPC_RSP_MAGIC IPC_RING_SIZE
       (init_ring IPC_CMD_RING_OFFSET IPC_MAGIC IPC_RING_SIZE m))"

section \<open>Responses\<close>

lemma bridge_rsp_doorbell_win:
  "win (bridge_rsp_doorbell h b) = (if rd32 (win b) DB_magic = IPC_DOORBELL_MAGIC then ring_rsp_doorbell h (win b) else win b)"
  by (simp add: bridge_rsp_doorbell_def ring_rsp_doorbell_def Let_def)

lemma bridge_rsp_doorbell_frame [simp]:
  "packets_received (stats (bridge_rsp_doorbell h b)) = packets_received (stats b)"
  "packets_processed (stats (bridge_rsp_doorbell h b)) = packets_processed (stats b)"
  "errors (stats (bridge_rsp_doorbell h b)) = errors (stats b)"
  "responses_sent (stats (bridge_rsp_doorbell h b)) = responses_sent (stats b)"
  "last_doorbell (bridge_rsp_doorbell h b) = last_doorbell b"
  by (simp_all add: bridge_rsp_doorbell_def Let_def)

lemma ring_rsp_doorbell_field: "rd32 (ring_rsp_doorbell h m) DB_rsp_doorbell = h"
  by (simp add: ring_rsp_doorbell_def Let_def zconst)

definition cmd_ready :: "mem \<Rightarrow> bool" where
  "cmd_ready m \<longleftrightarrow> cmd_ok m \<and> ring_magic IPC_CMD_RING_OFFSET m = IPC_MAGIC"

lemma cmd_ready_far:
  assumes "same_on 0 0x8000 m m'" and "cmd_ready m"
  shows "cmd_queue m' = cmd_queue m" and "cmd_ready m'"
proof -
  have "ring_magic IPC_CMD_RING_OFFSET m' = ring_magic IPC_CMD_RING_OFFSET m"
    unfolding ring_magic_def by (rule rd_cong) (use assms(1) in \<open>simp add: same_on_def IPC_CMD_RING_OFFSET_def\<close>)
  then show "cmd_queue m' = cmd_queue m" and "cmd_ready m'"
    using cmd_far [OF assms(1)] assms(2) by (simp_all add: cmd_ready_def)
qed

lemma send_response_spec:
  assumes "rsp_ok (win b)" and "cmd_ready (win b)"
  shows "\<exists>r t. send_response now status orig result b = Some (r, t) \<and> rsp_ok (win t) \<and> cmd_ready (win t) \<and>
    cmd_queue (win t) = cmd_queue (win b) \<and> same_on 0 0x8000 (win b) (win t) \<and> same_on 0x10028 0x100000 (win b) (win t) \<and>
    (if length (rsp_queue (win b)) = 1023 then r = - 1 \<and> t = b
     else r = 0 \<and> rsp_queue (win t) = rsp_queue (win b) @
        [\<lparr>rs_status = status, rs_orig_cmd = orig, rs_result = result, rs_timestamp = host_usec now\<rparr>] \<and>
       (rd32 (win b) DB_magic = IPC_DOORBELL_MAGIC \<longrightarrow> rd32 (win t) DB_rsp_doorbell = ring_head IPC_RSP_RING_OFFSET (win t)))"
proof -
  let ?B = IPC_RSP_RING_OFFSET and ?m = "win b"
  let ?e = "\<lparr>rs_status = status, rs_orig_cmd = orig, rs_result = result, rs_timestamp = host_usec now\<rparr>"
  have ok: "ring_ok ?B IPC_RING_SIZE ?m" and mg: "ring_magic ?B ?m = IPC_RSP_MAGIC"
    using assms(1) by (simp_all add: rsp_ok_def)
  obtain h' where h': "ring_next (ring_head ?B ?m) (ring_size ?B ?m) = Some h'"
      "ring_next (ring_head ?B ?m) IPC_RING_SIZE = Some h'"
    using ok_next(1) [OF ok] by blast
  have full: "h' = ring_tail ?B ?m \<longleftrightarrow> length (rsp_queue ?m) = 1023"
    using rsp.full_iff [OF ok h'(2)] by (simp add: queue_abs ring_sizes)
  show ?thesis
  proof (cases "h' = ring_tail ?B ?m")
    case True
    then show ?thesis using mg h' full assms by (simp add: send_response_def Let_def same_on_def)
  next
    case False
    let ?p = "set_ring_head ?B h' (put_response ?m (ring_slot ?B 16 (ring_head ?B ?m)) ?e)"
    let ?b = "b\<lparr>win := ?p, stats := stats b\<lparr>responses_sent := responses_sent (stats b) + 1\<rparr>\<rparr>"
    let ?t = "bridge_rsp_doorbell h' ?b"
    note push = rsp.push [where e = ?e, OF ok h'(2) False]
    have pok: "rsp_ok ?p" using push(2,3) mg by (simp add: rsp_ok_def)
    have p_out: "?p x = ?m x" if "x < 0x8000 \<or> 0x10000 \<le> x" for x
      using push(4) [of x] that by (auto simp: IPC_RSP_RING_OFFSET_def ring_sizes)
    have far: "same_on 0x8000 0x10000 ?p (win ?t)" "same_on 0 0x8000 ?m (win ?t)" "same_on 0x10028 0x100000 ?m (win ?t)"
      using p_out by (auto intro!: same_onI simp: bridge_rsp_doorbell_win ring_rsp_doorbell_outside)
    have mgk: "rd32 ?p DB_magic = rd32 ?m DB_magic" by (rule rd_cong) (use p_out in \<open>simp add: DB_magic_def\<close>)
    have "ring_head ?B ?p = ring_head ?B (win ?t)"
      by (rule rsp.ring_cong(1)) (use far(1) in \<open>simp add: same_on_def IPC_RSP_RING_OFFSET_def\<close>)
    then have hd: "ring_head ?B (win ?t) = h'" by (simp only: rsp.set_head_fields(1))
    have db: "rd32 (win ?t) DB_rsp_doorbell = ring_head ?B (win ?t)" if "rd32 ?m DB_magic = IPC_DOORBELL_MAGIC"
      unfolding hd by (simp add: bridge_rsp_doorbell_win mgk that ring_rsp_doorbell_field)
    have snd: "send_response now status orig result b = Some (0, ?t)"
      using mg h' False by (simp add: send_response_def Let_def)
    have nf: "length (rsp_queue ?m) \<noteq> 1023" using full False by blast
    have rq: "rsp_queue (win ?t) = rsp_queue ?m @ [?e]" using rsp_far(1) [OF far(1) pok] push(1) by (simp add: queue_abs)
    show ?thesis
      unfolding if_not_P [OF nf]
      by (intro exI [of _ 0] exI [of _ ?t] conjI impI)
        (use snd rsp_far(2) [OF far(1) pok] cmd_ready_far [OF far(2) assms(2)] far(2,3) rq db in blast)+
  qed
qed

section \<open>Rounds\<close>

text \<open>The protocol as a table: the result of each command the host knows.\<close>

definition host_result :: "ipc_packet \<Rightarrow> u32 option" where
  "host_result p = map_of [(CMD_PING, 0x504F4E47), (CMD_PRINT, pk_payload_id p), (CMD_RUN_MODEL, 0x12345678)] (pk_cmd p)"

lemma answer_host_result:
  "answer p = (case host_result p of Some r \<Rightarrow> (RSP_OK, r) | None \<Rightarrow> (RSP_ERROR, ucast (pk_cmd p)))"
  by (simp add: answer_def host_result_def)

definition reply :: "u64 \<times> u64 \<Rightarrow> ipc_packet \<Rightarrow> ipc_response" where
  "reply now p = (case host_result p of
       Some r \<Rightarrow> \<lparr>rs_status = RSP_OK, rs_orig_cmd = pk_cmd p, rs_result = r, rs_timestamp = host_usec now\<rparr>
     | None \<Rightarrow> \<lparr>rs_status = RSP_ERROR, rs_orig_cmd = pk_cmd p, rs_result = ucast (pk_cmd p), rs_timestamp = host_usec now\<rparr>)"

lemma reply_answer:
  "reply now p = \<lparr>rs_status = fst (answer p), rs_orig_cmd = pk_cmd p, rs_result = snd (answer p), rs_timestamp = host_usec now\<rparr>"
  by (simp add: reply_def answer_host_result split: option.splits)

lemma clear_cmd_pending_far:
  "same_on 0 0x10000 (win b) (win (clear_cmd_pending b))" "same_on 0x10010 0x100000 (win b) (win (clear_cmd_pending b))"
  "stats (clear_cmd_pending b) = stats b"
  by (auto intro!: same_onI simp: clear_cmd_pending_def wr32_outside zconst)

lemma clear_cmd_pending_ok:
  assumes "rsp_ok (win b)" "cmd_ready (win b)"
  shows "rsp_ok (win (clear_cmd_pending b))" "cmd_ready (win (clear_cmd_pending b))"
    "rsp_queue (win (clear_cmd_pending b)) = rsp_queue (win b)" "cmd_queue (win (clear_cmd_pending b)) = cmd_queue (win b)"
proof -
  have "same_on 0 0x8000 (win b) (win (clear_cmd_pending b))" "same_on 0x8000 0x10000 (win b) (win (clear_cmd_pending b))"
    using clear_cmd_pending_far(1) [of b] by (auto simp: same_on_def)
  then show "rsp_ok (win (clear_cmd_pending b))" "cmd_ready (win (clear_cmd_pending b))"
    "rsp_queue (win (clear_cmd_pending b)) = rsp_queue (win b)" "cmd_queue (win (clear_cmd_pending b)) = cmd_queue (win b)"
    using rsp_far cmd_ready_far assms by blast+
qed

lemma poll_round_idle:
  assumes "rsp_ok (win b)" "cmd_ready (win b)" and "cmd_queue (win b) = []"
  shows "poll_round now b = Some (clear_cmd_pending b)"
proof -
  note c = clear_cmd_pending_ok [OF assms(1,2)]
  have "ring_head IPC_CMD_RING_OFFSET (win (clear_cmd_pending b)) = ring_tail IPC_CMD_RING_OFFSET (win (clear_cmd_pending b))"
    using cmd.empty_iff [of "win (clear_cmd_pending b)"] c(2,4) assms(3) by (simp add: cmd_ready_def cmd_ok_def queue_abs)
  then show ?thesis using assms(2) by (simp add: poll_round_def Let_def cmd_ready_def)
qed

lemma poll_round_spec:
  assumes "rsp_ok (win b)" "cmd_ready (win b)" and q: "cmd_queue (win b) = p # q"
  shows "\<exists>t. poll_round now b = Some t \<and> rsp_ok (win t) \<and> cmd_ready (win t) \<and> cmd_queue (win t) = q \<and>
    rsp_queue (win t) = rsp_queue (win b) @ (if length (rsp_queue (win b)) = 1023 then [] else [reply now p]) \<and>
    same_on 0x10028 0x100000 (win b) (win t) \<and>
    packets_processed (stats t) = packets_processed (stats b) + 1"
proof -
  let ?B = IPC_CMD_RING_OFFSET and ?c = "clear_cmd_pending b"
  note c = clear_cmd_pending_ok [OF assms(1,2)] and far = clear_cmd_pending_far [of b]
  have ok: "ring_ok ?B IPC_RING_SIZE (win ?c)" using c(2) by (simp add: cmd_ready_def cmd_ok_def)
  have cq: "cmd.queue (win ?c) = p # q" using c(4) q by (simp add: queue_abs)
  have ne: "ring_head ?B (win ?c) \<noteq> ring_tail ?B (win ?c)" using cmd.empty_iff [OF ok] cq by simp
  have pkt: "get_packet (win ?c) (ring_slot ?B 16 (ring_tail ?B (win ?c))) = p"
    using cmd.hd_queue [OF ok] cq by simp
  define st where "st = (let st = stats ?c; st = st\<lparr>packets_received := packets_received st + 1\<rparr>;
      st = (if fst (answer p) = RSP_ERROR then st\<lparr>errors := errors st + 1\<rparr> else st)
    in st\<lparr>packets_processed := packets_processed st + 1\<rparr>)"
  let ?d = "?c\<lparr>stats := st\<rparr>"
  have "rsp_ok (win ?d)" "cmd_ready (win ?d)" using c by simp_all
  from send_response_spec [OF this, of now "fst (answer p)" "pk_cmd p" "snd (answer p)"] obtain r t where
    t: "send_response now (fst (answer p)) (pk_cmd p) (snd (answer p)) ?d = Some (r, t)" "rsp_ok (win t)" "cmd_ready (win t)"
      "cmd_queue (win t) = p # q" "same_on 0 0x8000 (win ?c) (win t)" "same_on 0x10028 0x100000 (win ?c) (win t)"
      "rsp_queue (win t) = rsp_queue (win b) @ (if length (rsp_queue (win b)) = 1023 then [] else [reply now p])"
    using c(3,4) q by (auto simp: reply_answer split: if_splits)
  have st: "packets_processed (stats t) = packets_processed st"
    using t(1) by (auto simp: send_response_def Let_def split: if_splits option.splits)
  have pp: "process_packet now p ?c = Some t"
    using t(1) by (simp add: process_packet_def Let_def st_def split_beta)
  have tl: "ring_tail ?B (win t) = ring_tail ?B (win ?c)"
    using t(5) by (intro cmd.ring_cong(2)) (simp add: same_on_def IPC_CMD_RING_OFFSET_def)
  have okt: "ring_ok ?B IPC_RING_SIZE (win t)" using t(3) by (simp add: cmd_ready_def cmd_ok_def)
  obtain t' where t': "ring_next (ring_tail ?B (win t)) (ring_size ?B (win t)) = Some t'"
      "ring_next (ring_tail ?B (win t)) IPC_RING_SIZE = Some t'"
    using ok_next(2) [OF okt] by blast
  have net: "ring_head ?B (win t) \<noteq> ring_tail ?B (win t)" using cmd.empty_iff [OF okt] t(4) by (simp add: queue_abs)
  note adv = cmd.advance [OF okt net t'(2)]
  let ?w = "set_ring_tail ?B t' (win t)"
  have "poll_round now b = Some (t\<lparr>win := ?w\<rparr>)"
    using assms(2) ne pkt pp t'(1) by (simp add: poll_round_def Let_def cmd_ready_def tl)
  moreover have far2: "same_on 0x8000 0x10000 (win t) ?w" "same_on 0x10028 0x100000 (win t) ?w"
    using cmd.set_tail_outside [of _ t' "win t"] by (auto intro!: same_onI simp: IPC_CMD_RING_OFFSET_def ring_sizes)
  moreover have "cmd_ready ?w" "cmd_queue ?w = q"
    using adv t(3,4) by (simp_all add: cmd_ready_def cmd_ok_def queue_abs)
  moreover have "same_on 0x10028 0x100000 (win b) ?w"
    using far(2) t(6) far2(2) by (auto simp: same_on_def)
  moreover have "packets_processed st = packets_processed (stats b) + 1" by (simp add: st_def Let_def far(3))
  ultimately show ?thesis using rsp_far [OF far2(1) t(2)] t(7) st by (intro exI [of _ "t\<lparr>win := ?w\<rparr>"]) simp
qed

section \<open>The test tool\<close>

lemma inject_reset_ok:
  "cmd_ready (inject_reset m)" "rsp_ok (inject_reset m)" "cmd_queue (inject_reset m) = []" "rsp_queue (inject_reset m) = []"
  "rd32 (inject_reset m) DB_magic = IPC_DOORBELL_MAGIC"
proof -
  let ?c = "init_ring IPC_CMD_RING_OFFSET IPC_MAGIC IPC_RING_SIZE m"
  let ?r = "init_ring IPC_RSP_RING_OFFSET IPC_RSP_MAGIC IPC_RING_SIZE ?c"
  have "ring_head IPC_CMD_RING_OFFSET ?c = ring_head IPC_CMD_RING_OFFSET (inject_reset m)"
    "ring_tail IPC_CMD_RING_OFFSET ?c = ring_tail IPC_CMD_RING_OFFSET (inject_reset m)"
    "ring_size IPC_CMD_RING_OFFSET ?c = ring_size IPC_CMD_RING_OFFSET (inject_reset m)"
    "ring_magic IPC_CMD_RING_OFFSET ?c = ring_magic IPC_CMD_RING_OFFSET (inject_reset m)"
    by (rule cmd.ring_cong; simp add: inject_reset_def init_doorbell_outside init_ring_outside IPC_RSP_RING_OFFSET_def
        IPC_CMD_RING_OFFSET_def)+
  then show "cmd_ready (inject_reset m)" "cmd_queue (inject_reset m) = []"
    by (simp_all add: cmd_ready_def cmd_ok_def ring_ok_def init_ring_fields cmd_queue_def ring_queue_def ring_len_def IPC_RING_SIZE_def)
  have "ring_head IPC_RSP_RING_OFFSET ?r = ring_head IPC_RSP_RING_OFFSET (inject_reset m)"
    "ring_tail IPC_RSP_RING_OFFSET ?r = ring_tail IPC_RSP_RING_OFFSET (inject_reset m)"
    "ring_size IPC_RSP_RING_OFFSET ?r = ring_size IPC_RSP_RING_OFFSET (inject_reset m)"
    "ring_magic IPC_RSP_RING_OFFSET ?r = ring_magic IPC_RSP_RING_OFFSET (inject_reset m)"
    by (rule rsp.ring_cong; simp add: inject_reset_def init_doorbell_outside IPC_RSP_RING_OFFSET_def)+
  then show "rsp_ok (inject_reset m)" "rsp_queue (inject_reset m) = []"
    by (simp_all add: rsp_ok_def ring_ok_def init_ring_fields rsp_queue_def ring_queue_def ring_len_def IPC_RING_SIZE_def)
  show "rd32 (inject_reset m) DB_magic = IPC_DOORBELL_MAGIC"
    by (simp add: inject_reset_def init_doorbell_def Let_def zconst)
qed

section \<open>Properties\<close>


text \<open>
  C9: A remote call from the kernel to the host and back. From a state with consistent rings and nothing in flight,
  sending a command succeeds, one round of the bridge answers it, and polling returns exactly the answer to
  that command, after which both rings are empty and consistent again; the shared heap is not touched.
\<close>

theorem remote_call:
  assumes up: "ipc_up s" and "cmd_ready (shm s)" "rsp_ok (shm s)" and "cmd_queue (shm s) = []" "rsp_queue (shm s) = []"
  shows "\<exists>t b u. ipc_send_flags cmd payload flags s = Some (0, t) \<and> poll_round now (br\<lparr>win := shm t\<rparr>) = Some b \<and>
    ipc_poll_response other (t\<lparr>shm := win b\<rparr>) =
      Some (Some (reply now \<lparr>pk_cmd = cmd, pk_flags = flags, pk_payload_id = payload, pk_timestamp = fst (time_usec s)\<rparr>), u) \<and>
    cmd_ready (shm u) \<and> rsp_ok (shm u) \<and> cmd_queue (shm u) = [] \<and> rsp_queue (shm u) = [] \<and>
    same_on 0x10028 0x100000 (shm s) (shm u)"
proof -
  let ?p = "\<lparr>pk_cmd = cmd, pk_flags = flags, pk_payload_id = payload, pk_timestamp = fst (time_usec s)\<rparr>"
  have cok: "cmd_ok (shm s)" using assms(2) by (simp add: cmd_ready_def)
  obtain t where t: "ipc_send_flags cmd payload flags s = Some (0, t)" "cmd_ok (shm t)" "cmd_queue (shm t) = [?p]"
    "same_on 0x8000 0x10000 (shm s) (shm t)" "same_on 0x10028 0x100000 (shm s) (shm t)"
    using ipc_send_flags_spec [OF up cok, of cmd payload flags] assms(4) by auto
  have tup: "ipc_up t" and mg: "ring_magic IPC_CMD_RING_OFFSET (shm t) = ring_magic IPC_CMD_RING_OFFSET (shm s)"
    using ipc_send_flags_frame [OF t(1)] up by simp_all
  let ?b = "br\<lparr>win := shm t\<rparr>"
  have "rsp_ok (win ?b)" "cmd_ready (win ?b)" "cmd_queue (win ?b) = [?p]" "rsp_queue (win ?b) = []"
    using rsp_far [OF t(4) assms(3)] t(2,3) mg assms(2,5) by (simp_all add: cmd_ready_def)
  then obtain b where b: "poll_round now ?b = Some b" "rsp_ok (win b)" "cmd_ready (win b)" "cmd_queue (win b) = []"
    "rsp_queue (win b) = [reply now ?p]" "same_on 0x10028 0x100000 (shm t) (win b)"
    using poll_round_spec [of ?b ?p "[]" now] by auto
  obtain m where m: "ipc_poll_response other (t\<lparr>shm := win b\<rparr>) = Some (Some (reply now ?p), t\<lparr>shm := m\<rparr>)"
    "rsp_queue m = []" "rsp_ok m" "same_on 0 0x8000 (win b) m" "same_on 0x10000 0x100000 (win b) m"
    using poll_response_step [of "t\<lparr>shm := win b\<rparr>" "reply now ?p" "[]" other] tup b(2,5) by auto
  have "same_on 0x10028 0x100000 (shm s) m" using t(5) b(6) m(5) by (auto simp: same_on_def)
  then show ?thesis
    using t(1) b(1) m cmd_ready_far [OF m(4) b(3)] b(4) by (intro exI [of _ t] exI [of _ b] exI [of _ "t\<lparr>shm := m\<rparr>"]) simp
qed

text \<open>
  The test tool and the kernel produce the same bytes: with a doorbell in place, a command that \<^verbatim>\<open>inject\<close> sends at the
  time the kernel would have stamped leaves the window exactly as the kernel's own \<open>ipc_send\<close> does, and reports
  the same.
\<close>

theorem inject_send_is_ipc_send:
  assumes "ipc_up s" and "rd32 (shm s) DB_magic = IPC_DOORBELL_MAGIC" and "cmd_ok (shm s)" and "host_usec now = fst (time_usec s)"
  shows "inject_send_packet now cmd payload (shm s) = map_option (\<lambda>(r, t). (r, shm t)) (ipc_send cmd payload s)"
proof -
  let ?B = IPC_CMD_RING_OFFSET
  obtain h' where h': "ring_next (ring_head ?B (shm s)) (ring_size ?B (shm s)) = Some h'"
      "ring_next (ring_head ?B (shm s)) IPC_RING_SIZE = Some h'"
    using ok_next(1) [OF assms(3) [unfolded cmd_ok_def]] by blast
  show ?thesis
  proof (cases "h' = ring_tail ?B (shm s)")
    case True
    then show ?thesis using assms(1) h'(1) by (simp add: inject_send_packet_def ipc_send_def ipc_send_flags_def Let_def)
  next
    case False
    let ?e = "\<lparr>pk_cmd = cmd, pk_flags = 0, pk_payload_id = payload, pk_timestamp = host_usec now\<rparr>"
    let ?p = "set_ring_head ?B h' (put_packet (shm s) (ring_slot ?B 16 (ring_head ?B (shm s))) ?e)"
    have "ring_ok ?B IPC_RING_SIZE (shm s)" using assms(3) by (simp add: cmd_ok_def)
    note out = cmd.push(4) [where e = ?e, OF this h'(2) False]
    have "rd32 ?p DB_magic = rd32 (shm s) DB_magic"
      by (rule rd_cong, rule out) (simp add: DB_magic_def ring_sizes IPC_CMD_RING_OFFSET_def)
    then show ?thesis using assms h'(1) False
      by (simp add: inject_send_packet_def ipc_send_def ipc_send_flags_def Let_def split_beta)
  qed
qed

section \<open>Witnesses\<close>

definition idle_bridge :: bridge where
  "idle_bridge = \<lparr>win = inject_reset (\<lambda>_. 0), stats = \<lparr>packets_received = 0, packets_processed = 0, responses_sent = 0,
     doorbell_rings = 0, errors = 0\<rparr>, last_doorbell = 0\<rparr>"

lemma idle_kernel:
  "ipc_up (boot_ipc\<lparr>shm := inject_reset (\<lambda>_. 0)\<rparr>)" "shm (boot_ipc\<lparr>shm := inject_reset (\<lambda>_. 0)\<rparr>) = inject_reset (\<lambda>_. 0)"
  using boot_ipc_ok(1) by simp_all

theorem remote_call_witness:
  "\<exists>t b u r. ipc_send_flags CMD_PING 7 0 (boot_ipc\<lparr>shm := inject_reset (\<lambda>_. 0)\<rparr>) = Some (0, t) \<and>
    poll_round (1, 0) (idle_bridge\<lparr>win := shm t\<rparr>) = Some b \<and>
    ipc_poll_response (\<lambda>m. m) (t\<lparr>shm := win b\<rparr>) = Some (Some r, u) \<and>
    rs_status r = RSP_OK \<and> rs_orig_cmd r = CMD_PING \<and> rs_result r = 0x504F4E47 \<and> rs_timestamp r = 1000000"
proof -
  obtain t b u where "ipc_send_flags CMD_PING 7 0 (boot_ipc\<lparr>shm := inject_reset (\<lambda>_. 0)\<rparr>) = Some (0, t)"
    "poll_round (1, 0) (idle_bridge\<lparr>win := shm t\<rparr>) = Some b"
    "ipc_poll_response (\<lambda>m. m) (t\<lparr>shm := win b\<rparr>) = Some (Some (reply (1, 0) \<lparr>pk_cmd = CMD_PING, pk_flags = 0,
       pk_payload_id = 7, pk_timestamp = fst (time_usec (boot_ipc\<lparr>shm := inject_reset (\<lambda>_. 0)\<rparr>))\<rparr>), u)"
    using remote_call [OF idle_kernel(1), unfolded idle_kernel(2), OF inject_reset_ok(1-4), of CMD_PING 7 0 "(1, 0)" idle_bridge
        "\<lambda>m. m"] by blast
  then show ?thesis by (intro exI conjI) (assumption+, simp_all add: reply_answer answer_def host_usec_def)
qed

lemma one_command:
  "\<exists>t n. ipc_send_flags CMD_PRINT 7 0 (boot_ipc\<lparr>shm := inject_reset (\<lambda>_. 0)\<rparr>) = Some (0, t) \<and> rsp_ok (shm t) \<and>
    cmd_ready (shm t) \<and> rsp_queue (shm t) = [] \<and>
    cmd_queue (shm t) = [\<lparr>pk_cmd = CMD_PRINT, pk_flags = 0, pk_payload_id = 7, pk_timestamp = n\<rparr>]"
proof -
  let ?s = "boot_ipc\<lparr>shm := inject_reset (\<lambda>_. 0)\<rparr>"
  have cok: "cmd_ok (shm ?s)" using inject_reset_ok(1) [of "\<lambda>_. 0"] by (simp add: cmd_ready_def)
  obtain t where t: "ipc_send_flags CMD_PRINT 7 0 ?s = Some (0, t)" "cmd_ok (shm t)"
    "cmd_queue (shm t) = [\<lparr>pk_cmd = CMD_PRINT, pk_flags = 0, pk_payload_id = 7, pk_timestamp = fst (time_usec ?s)\<rparr>]"
    "same_on 0x8000 0x10000 (shm ?s) (shm t)"
    using ipc_send_flags_spec [OF idle_kernel(1) cok, of CMD_PRINT 7 0] inject_reset_ok(3) by auto
  show ?thesis
    using t ipc_send_flags_frame(2) [OF t(1)] rsp_far [OF t(4)] inject_reset_ok [of "\<lambda>_. 0"] by (auto simp: cmd_ready_def)
qed


end
