(* ===== verification/Vmm.thy ===== *)
theory Vmm
  imports Pmm "HOL-Library.Monad_Syntax"
begin

text \<open>
  The virtual memory manager (\<^verbatim>\<open>kernel/mm/vmm.c\<close>, \<^verbatim>\<open>kernel/mm/vmm.h\<close>): two-level i386 page tables
  in physical memory. The hardware is part of the model: \<open>hw_walk\<close> is the page walk of the processor
  with 4 MB pages (\<open>PTE_PSE\<close>), \<open>tlb\<close> the translations it has cached, and the kernel reaches its tables
  only through virtual addresses (\<^verbatim>\<open>phys_to_virt\<close>), so that an access to an unmapped address is a page
  fault: the operation returns \<open>None\<close>. Access rights are not modelled; every table access of the kernel
  goes through the direct map, whose pages are writable in ring 0. Cached global translations survive a
  reload of CR3, which is the weaker assumption on the processor.
\<close>

section \<open>Entries and addresses\<close>

definition KERNEL_VBASE :: u32 where [zconst]: "KERNEL_VBASE = 0xC0000000"
definition KERNEL_VBASE_PDE :: u32 where [zconst]: "KERNEL_VBASE_PDE = 768"
definition PAGE_ENTRIES :: u32 where [zconst]: "PAGE_ENTRIES = 1024"
definition PTE_PRESENT :: u32 where [zconst]: "PTE_PRESENT = 1"
definition PTE_WRITABLE :: u32 where [zconst]: "PTE_WRITABLE = 2"
definition PTE_USER :: u32 where [zconst]: "PTE_USER = 4"
definition PTE_PSE :: u32 where [zconst]: "PTE_PSE = 0x80"
definition PTE_GLOBAL :: u32 where [zconst]: "PTE_GLOBAL = 0x100"

definition PDE_INDEX :: "u32 \<Rightarrow> u32" where "PDE_INDEX va = drop_bit 22 va AND 0x3FF"
definition PTE_INDEX :: "u32 \<Rightarrow> u32" where "PTE_INDEX va = drop_bit 12 va AND 0x3FF"
definition PAGE_OFFSET :: "u32 \<Rightarrow> u32" where "PAGE_OFFSET va = va AND 0xFFF"
definition PTE_ADDR :: "u32 \<Rightarrow> u32" where "PTE_ADDR e = e AND 0xFFFFF000"
definition MAKE_PTE :: "u32 \<Rightarrow> u32 \<Rightarrow> u32" where "MAKE_PTE paddr flags = (paddr AND 0xFFFFF000) OR flags"

definition phys_to_virt :: "u32 \<Rightarrow> u32" where "phys_to_virt paddr = paddr + KERNEL_VBASE"
definition virt_to_phys :: "u32 \<Rightarrow> u32" where "virt_to_phys vaddr = vaddr - KERNEL_VBASE"

text \<open>The address of entry \<open>i\<close> of the table at \<open>p\<close>.\<close>

definition entry_at :: "u32 \<Rightarrow> u32 \<Rightarrow> u32" where "entry_at p i = p + 4 * i"

section \<open>Hardware\<close>

record vmm = pmm +
  pmem :: mem
  cr3 :: u32
  tlb :: "u32 \<Rightarrow> (u32 \<times> bool) option"
  current_pd_phys :: u32

text \<open>The page walk: the physical address and whether the translation is global.\<close>

definition hw_walk :: "mem \<Rightarrow> u32 \<Rightarrow> u32 \<Rightarrow> (u32 \<times> bool) option" where
  "hw_walk m pd va =
     (let pde = rd32 m (unat (entry_at pd (PDE_INDEX va)))
      in if pde AND PTE_PRESENT = 0 then None
         else if pde AND PTE_PSE \<noteq> 0
         then Some ((pde AND 0xFFC00000) OR (va AND 0x3FFFFF), pde AND PTE_GLOBAL \<noteq> 0)
         else let pte = rd32 m (unat (entry_at (PTE_ADDR pde) (PTE_INDEX va)))
              in if pte AND PTE_PRESENT = 0 then None
                 else Some (PTE_ADDR pte OR PAGE_OFFSET va, pte AND PTE_GLOBAL \<noteq> 0))"

definition active_pd :: "'a vmm_scheme \<Rightarrow> u32" where "active_pd s = cr3 s AND 0xFFFFF000"

text \<open>A translation uses a cached entry of the page if there is one.\<close>

definition mmu :: "'a vmm_scheme \<Rightarrow> u32 \<Rightarrow> u32 option" where
  "mmu s va = (case tlb s (drop_bit 12 va) of
       Some (frame, _) \<Rightarrow> Some (push_bit 12 frame OR PAGE_OFFSET va)
     | None \<Rightarrow> map_option fst (hw_walk (pmem s) (active_pd s) va))"

definition vread :: "u32 \<Rightarrow> 'a vmm_scheme \<Rightarrow> u32 option" where
  "vread va s = map_option (\<lambda>pa. rd32 (pmem s) (unat pa)) (mmu s va)"

definition vwrite :: "u32 \<Rightarrow> u32 \<Rightarrow> 'a vmm_scheme \<Rightarrow> 'a vmm_scheme option" where
  "vwrite va v s = map_option (\<lambda>pa. s\<lparr>pmem := wr32 (pmem s) (unat pa) v\<rparr>) (mmu s va)"

definition read_cr3 :: "'a vmm_scheme \<Rightarrow> u32" where "read_cr3 s = cr3 s"

text \<open>Loading CR3 drops every cached translation that is not global.\<close>

definition write_cr3 :: "u32 \<Rightarrow> 'a vmm_scheme \<Rightarrow> 'a vmm_scheme" where
  "write_cr3 v s = s\<lparr>cr3 := v, tlb := (\<lambda>page. case tlb s page of
       Some (frame, True) \<Rightarrow> Some (frame, True) | _ \<Rightarrow> None)\<rparr>"

definition vmm_invlpg :: "u32 \<Rightarrow> 'a vmm_scheme \<Rightarrow> 'a vmm_scheme" where
  "vmm_invlpg vaddr s = s\<lparr>tlb := (tlb s)(drop_bit 12 vaddr := None)\<rparr>"

definition vmm_flush_tlb :: "'a vmm_scheme \<Rightarrow> 'a vmm_scheme" where
  "vmm_flush_tlb s = write_cr3 (read_cr3 s) s"

section \<open>Operations\<close>

text \<open>A counting loop whose body may fault.\<close>

definition wforo :: "u32 \<Rightarrow> u32 \<Rightarrow> (u32 \<Rightarrow> 's \<Rightarrow> 's option) \<Rightarrow> 's \<Rightarrow> 's option" where
  "wforo a b f s = wfor a b (\<lambda>i r. r \<bind> f i) (Some s)"

definition vmm_init :: "'a vmm_scheme \<Rightarrow> 'a vmm_scheme option" where
  "vmm_init s =
     (let s = s\<lparr>current_pd_phys := read_cr3 s AND 0xFFFFF000\<rparr>;
          pd = phys_to_virt (current_pd_phys s)
      in map_option (flightrec_log TRACE_EVT_BOOT 0 0 0xC0DE)
           (wforo 0 32 (\<lambda>i. vwrite (entry_at pd (KERNEL_VBASE_PDE + i))
              (MAKE_PTE (i * 0x400000) (PTE_PRESENT OR PTE_WRITABLE OR PTE_PSE OR PTE_GLOBAL))) s))"

definition vmm_get_current_pd :: "'a vmm_scheme \<Rightarrow> u32" where
  "vmm_get_current_pd s = current_pd_phys s"

definition vmm_switch_pd :: "u32 \<Rightarrow> 'a vmm_scheme \<Rightarrow> 'a vmm_scheme" where
  "vmm_switch_pd pd_phys s = write_cr3 pd_phys (s\<lparr>current_pd_phys := pd_phys\<rparr>)"

definition zero_table :: "u32 \<Rightarrow> 'a vmm_scheme \<Rightarrow> 'a vmm_scheme option" where
  "zero_table pt = wforo 0 PAGE_ENTRIES (\<lambda>i. vwrite (entry_at pt i) 0)"

text \<open>The page table of a directory entry, allocated if it is missing; \<open>False\<close> if there is no frame.\<close>

definition ensure_table :: "u32 \<Rightarrow> u32 \<Rightarrow> 'a vmm_scheme \<Rightarrow> (bool \<times> 'a vmm_scheme) option" where
  "ensure_table pd pde_idx s = do {
     pde \<leftarrow> vread (entry_at pd pde_idx) s;
     if pde AND PTE_PRESENT \<noteq> 0 then Some (True, s)
     else case pmm_alloc_page NUMA_NODE_LOCAL s of (pt_phys, s) \<Rightarrow>
       if pt_phys = 0 then Some (False, s)
       else do {
         s \<leftarrow> zero_table (phys_to_virt pt_phys) s;
         s \<leftarrow> vwrite (entry_at pd pde_idx) (MAKE_PTE pt_phys (PTE_PRESENT OR PTE_WRITABLE OR PTE_USER)) s;
         Some (True, s)
       }
   }"

text \<open>
  The branch for an entry that already holds the same frame writes the same entry, invalidates the
  same page and returns the same value as the general case; they differ in the console warning only.
\<close>

definition vmm_map_page :: "u32 \<Rightarrow> u32 \<Rightarrow> u32 \<Rightarrow> 'a vmm_scheme \<Rightarrow> (int \<times> 'a vmm_scheme) option" where
  "vmm_map_page vaddr paddr flags s = do {
     let pd = phys_to_virt (read_cr3 s AND 0xFFFFF000);
     (ok, s) \<leftarrow> ensure_table pd (PDE_INDEX vaddr) s;
     if \<not> ok then Some (- 1, s)
     else do {
       pde \<leftarrow> vread (entry_at pd (PDE_INDEX vaddr)) s;
       let pt = phys_to_virt (PTE_ADDR pde);
       pte \<leftarrow> vread (entry_at pt (PTE_INDEX vaddr)) s;
       if pte AND PTE_PRESENT \<noteq> 0 \<and> PTE_ADDR pte = paddr AND 0xFFFFF000
       then do {
         s \<leftarrow> vwrite (entry_at pt (PTE_INDEX vaddr)) (MAKE_PTE paddr flags) s;
         Some (0, vmm_invlpg vaddr s)
       }
       else do {
         s \<leftarrow> vwrite (entry_at pt (PTE_INDEX vaddr)) (MAKE_PTE paddr flags) s;
         Some (0, vmm_invlpg vaddr s)
       }
     }
   }"

function map_pages :: "u32 \<Rightarrow> u32 \<Rightarrow> u32 \<Rightarrow> u32 \<Rightarrow> u32 \<Rightarrow> 'a vmm_scheme \<Rightarrow> (int \<times> 'a vmm_scheme) option" where
  "map_pages i pages va pa flags s =
     (if i < pages
      then do {
        (r, s) \<leftarrow> vmm_map_page va pa flags s;
        if r \<noteq> 0 then Some (- 1, s)
        else map_pages (i + 1) pages (va + PAGE_SIZE) (pa + PAGE_SIZE) flags s
      }
      else Some (0, s))"
  by pat_completeness auto
termination
  by (relation "measure (\<lambda>(i, pages, _). unat pages - unat i)")
     (auto simp: unat_Suc_less word_less_nat_alt)

declare map_pages.simps [simp del]

definition vmm_map_range ::
    "u32 \<Rightarrow> u32 \<Rightarrow> u32 \<Rightarrow> u32 \<Rightarrow> 'a vmm_scheme \<Rightarrow> (int \<times> 'a vmm_scheme) option" where
  "vmm_map_range vaddr paddr len flags s =
     map_pages 0 ((len + PAGE_SIZE - 1) div PAGE_SIZE) (vaddr AND NOT (PAGE_SIZE - 1))
       (paddr AND NOT (PAGE_SIZE - 1)) flags s"

definition vmm_unmap_page :: "u32 \<Rightarrow> 'a vmm_scheme \<Rightarrow> (u32 \<times> 'a vmm_scheme) option" where
  "vmm_unmap_page vaddr s = do {
     pde \<leftarrow> vread (entry_at (phys_to_virt (read_cr3 s AND 0xFFFFF000)) (PDE_INDEX vaddr)) s;
     if pde AND PTE_PRESENT = 0 then Some (0, s)
     else do {
       let pt = phys_to_virt (PTE_ADDR pde);
       pte \<leftarrow> vread (entry_at pt (PTE_INDEX vaddr)) s;
       if pte AND PTE_PRESENT = 0 then Some (0, s)
       else do {
         s \<leftarrow> vwrite (entry_at pt (PTE_INDEX vaddr)) 0 s;
         Some (PTE_ADDR pte, vmm_invlpg vaddr s)
       }
     }
   }"

definition vmm_virt_to_phys :: "u32 \<Rightarrow> 'a vmm_scheme \<Rightarrow> u32 option" where
  "vmm_virt_to_phys vaddr s = do {
     pde \<leftarrow> vread (entry_at (phys_to_virt (read_cr3 s AND 0xFFFFF000)) (PDE_INDEX vaddr)) s;
     if pde AND PTE_PRESENT = 0 then Some 0
     else do {
       pte \<leftarrow> vread (entry_at (phys_to_virt (PTE_ADDR pde)) (PTE_INDEX vaddr)) s;
       if pte AND PTE_PRESENT = 0 then Some 0
       else Some (PTE_ADDR pte OR PAGE_OFFSET vaddr)
     }
   }"

definition vmm_is_mapped :: "u32 \<Rightarrow> 'a vmm_scheme \<Rightarrow> bool option" where
  "vmm_is_mapped vaddr s = map_option (\<lambda>pa. pa \<noteq> 0) (vmm_virt_to_phys vaddr s)"

definition copy_entry :: "u32 \<Rightarrow> u32 \<Rightarrow> u32 \<Rightarrow> 'a vmm_scheme \<Rightarrow> 'a vmm_scheme option" where
  "copy_entry kernel_pd new_pd i s = do {
     e \<leftarrow> vread (entry_at kernel_pd i) s;
     vwrite (entry_at new_pd i) e s
   }"

definition vmm_create_user_pd :: "'a vmm_scheme \<Rightarrow> (u32 \<times> 'a vmm_scheme) option" where
  "vmm_create_user_pd s =
     (case pmm_alloc_page NUMA_NODE_LOCAL s of (pd_phys, s) \<Rightarrow>
        if pd_phys = 0 then Some (0, s)
        else do {
          let new_pd = phys_to_virt pd_phys;
          let kernel_pd = phys_to_virt (current_pd_phys s);
          s \<leftarrow> wforo 1 KERNEL_VBASE_PDE (\<lambda>i. vwrite (entry_at new_pd i) 0) s;
          s \<leftarrow> copy_entry kernel_pd new_pd 0 s;
          s \<leftarrow> wforo KERNEL_VBASE_PDE PAGE_ENTRIES (copy_entry kernel_pd new_pd) s;
          Some (pd_phys, s)
        })"

definition free_mapped :: "u32 \<Rightarrow> u32 \<Rightarrow> 'a vmm_scheme \<Rightarrow> 'a vmm_scheme option" where
  "free_mapped pt pte_idx s = do {
     pte \<leftarrow> vread (entry_at pt pte_idx) s;
     Some (if pte AND PTE_PRESENT \<noteq> 0 then pmm_free_page (PTE_ADDR pte) s else s)
   }"

definition destroy_entry :: "u32 \<Rightarrow> u32 \<Rightarrow> 'a vmm_scheme \<Rightarrow> 'a vmm_scheme option" where
  "destroy_entry pd pde_idx s = do {
     pde \<leftarrow> vread (entry_at pd pde_idx) s;
     if pde AND PTE_PRESENT = 0 then Some s
     else if pde AND PTE_PSE \<noteq> 0 then Some s
     else do {
       s \<leftarrow> wforo 0 PAGE_ENTRIES (free_mapped (phys_to_virt (PTE_ADDR pde))) s;
       Some (pmm_free_page (PTE_ADDR pde) s)
     }
   }"

definition vmm_destroy_user_pd :: "u32 \<Rightarrow> 'a vmm_scheme \<Rightarrow> 'a vmm_scheme option" where
  "vmm_destroy_user_pd pd_phys s =
     map_option (pmm_free_page pd_phys)
       (wforo 0 KERNEL_VBASE_PDE (destroy_entry (phys_to_virt pd_phys)) s)"

section \<open>Page addresses\<close>

definition page_of :: "u32 \<Rightarrow> u32" where "page_of va = drop_bit 12 va"

definition aligned :: "u32 \<Rightarrow> bool" where "aligned p \<longleftrightarrow> PTE_ADDR p = p"

lemma unat_drop_div: "unat (drop_bit n w) = unat w div 2 ^ n" for w :: "'a::len word"
  unfolding unat_drop_bit_eq by (rule drop_bit_eq_div)

lemma unat_take_mod: "unat (take_bit n w) = unat w mod 2 ^ n" for w :: "'a::len word"
  unfolding unsigned_take_bit_eq by (rule take_bit_eq_mod)

lemma page_mask: "(0xFFFFF000 :: u32) = NOT (mask 12)"
  by (simp add: mask_eq_exp_minus_1)

lemma PTE_ADDR_shift: "PTE_ADDR e = push_bit 12 (drop_bit 12 e)"
  unfolding PTE_ADDR_def page_mask by (rule bit_word_eqI) (auto simp: bit_simps)

lemma PAGE_OFFSET_take_bit: "PAGE_OFFSET va = take_bit 12 va"
  by (simp add: PAGE_OFFSET_def take_bit_eq_mask mask_eq_exp_minus_1)

lemma PTE_ADDR_offset [simp]: "PTE_ADDR (PTE_ADDR e OR PAGE_OFFSET v) = PTE_ADDR e"
  unfolding PTE_ADDR_shift PAGE_OFFSET_take_bit by (rule bit_word_eqI) (auto simp: bit_simps)

lemma index_take_bit:
  "PDE_INDEX va = drop_bit 22 va" "PTE_INDEX va = take_bit 10 (drop_bit 12 va)"
proof -
  have m: "(0x3FF :: u32) = mask 10" by (simp add: mask_eq_exp_minus_1)
  show "PTE_INDEX va = take_bit 10 (drop_bit 12 va)"
    unfolding PTE_INDEX_def m by (simp add: take_bit_eq_mask)
  show "PDE_INDEX va = drop_bit 22 va"
    unfolding PDE_INDEX_def m by (rule bit_word_eqI) (auto simp: bit_simps dest: bit_imp_le_length)
qed

lemma PDE_INDEX_less [simp]: "PDE_INDEX va < 1024"
  using unat_u32_less [of va] by (simp add: index_take_bit word_less_nat_alt unat_drop_div div_less_iff_less_mult)

lemma PTE_INDEX_less [simp]: "PTE_INDEX va < 1024"
  by (simp add: index_take_bit word_less_nat_alt unat_take_mod)

lemma unat_PTE_ADDR: "unat (PTE_ADDR e) = 4096 * (unat e div 4096)"
proof -
  have "unat e div 4096 * 4096 < 4294967296" using unat_u32_less [of e] by linarith
  then show ?thesis
    unfolding PTE_ADDR_shift unsigned_push_bit_eq unat_drop_div
    by (simp add: push_bit_eq_mult take_bit_eq_mod)
qed

lemma aligned_PTE_ADDR [simp]: "aligned (PTE_ADDR e)"
  unfolding aligned_def PTE_ADDR_def by (simp add: and.assoc)

lemma aligned_iff: "aligned p \<longleftrightarrow> 4096 dvd unat p"
  unfolding aligned_def word_unat_eq_iff unat_PTE_ADDR by (metis dvd_mult_div_cancel dvd_triv_left)

lemma aligned_pfn [simp]: "aligned (pfn_to_addr p)"
  unfolding aligned_def PTE_ADDR_shift pfn_to_addr_def by (rule bit_word_eqI) (auto simp: bit_simps)

lemma aligned_less_iff: "aligned p \<Longrightarrow> 4096 dvd k \<Longrightarrow> unat p < k \<longleftrightarrow> unat p + 4095 < k"
  unfolding aligned_iff by (auto elim!: dvdE)

lemma unat_entry_at:
  assumes "aligned p" and "i < 1024"
  shows "unat (entry_at p i) = unat p + 4 * unat i"
proof -
  have i: "unat i < 1024" using assms(2) by (simp add: word_less_nat_alt)
  then have "unat (4 * i) = 4 * unat i" by (simp add: unat_word_ariths)
  moreover have "unat p + 4 * unat i < 2 ^ 32"
    using aligned_less_iff [OF assms(1), of "2 ^ 32"] i by simp
  ultimately show ?thesis unfolding entry_at_def by (simp add: unat_word_ariths)
qed

lemma entry_eq_iff:
  assumes "aligned p" "aligned q" "i < 1024" "j < 1024"
  shows "unat (entry_at p i) = unat (entry_at q j) \<longleftrightarrow> p = q \<and> i = j"
proof -
  obtain a b where ab: "unat p = 4096 * a" "unat q = 4096 * b" using assms(1,2) by (auto simp: aligned_iff elim!: dvdE)
  have "unat i < 1024" "unat j < 1024" using assms(3,4) by (simp_all add: word_less_nat_alt)
  then have "4096 * a + 4 * unat i = 4096 * b + 4 * unat j \<longleftrightarrow> a = b \<and> unat i = unat j"
    by (cases a b rule: linorder_cases) auto
  then show ?thesis
    by (simp add: unat_entry_at [OF assms(1,3)] unat_entry_at [OF assms(2,4)] word_unat_eq_iff ab)
qed

text \<open>Entries are disjoint double words.\<close>

lemma rd_entry_wr:
  assumes "aligned p" "aligned q" "i < 1024" "j < 1024"
  shows "rd32 (wr32 m (unat (entry_at q j)) v) (unat (entry_at p i)) =
    (if p = q \<and> i = j then v else rd32 m (unat (entry_at p i)))"
proof (cases "p = q \<and> i = j")
  case False
  obtain a b where ab: "unat p = 4096 * a" "unat q = 4096 * b" using assms(1,2) by (auto simp: aligned_iff elim!: dvdE)
  have "unat (entry_at p i) \<noteq> unat (entry_at q j)" using False entry_eq_iff [OF assms] by blast
  then have "unat (entry_at p i) + 4 \<le> unat (entry_at q j) \<or> unat (entry_at q j) + 4 \<le> unat (entry_at p i)"
    unfolding unat_entry_at [OF assms(1,3)] unat_entry_at [OF assms(2,4)] ab
    by (cases "1024 * a + unat i" "1024 * b + unat j" rule: linorder_cases) auto
  then show ?thesis using False by auto
qed simp

lemma va_split:
  "PDE_INDEX va = PDE_INDEX vb \<and> PTE_INDEX va = PTE_INDEX vb \<longleftrightarrow> page_of va = page_of vb"
proof
  assume "page_of va = page_of vb"
  moreover have "PDE_INDEX v = drop_bit 10 (page_of v)" "PTE_INDEX v = take_bit 10 (page_of v)" for v
    by (simp_all add: index_take_bit page_of_def)
  ultimately show "PDE_INDEX va = PDE_INDEX vb \<and> PTE_INDEX va = PTE_INDEX vb" by simp
next
  assume eq: "PDE_INDEX va = PDE_INDEX vb \<and> PTE_INDEX va = PTE_INDEX vb"
  have "page_of v = push_bit 10 (PDE_INDEX v) OR PTE_INDEX v" for v
    unfolding index_take_bit page_of_def by (rule bit_word_eqI) (auto simp: bit_simps)
  with eq show "page_of va = page_of vb" by metis
qed

section \<open>The direct map\<close>

text \<open>
  The first 128 MB of physical memory appear at \<open>KERNEL_VBASE\<close> through 32 large pages, and the
  active directory lies inside.
\<close>

definition pde :: "mem \<Rightarrow> u32 \<Rightarrow> u32 \<Rightarrow> u32" where "pde m pd i = rd32 m (unat (entry_at pd i))"

definition identity_pde :: "u32 \<Rightarrow> u32" where
  "identity_pde i = MAKE_PTE (i * 0x400000) (PTE_PRESENT OR PTE_WRITABLE OR PTE_PSE OR PTE_GLOBAL)"

definition in_direct :: "u32 \<Rightarrow> bool" where "in_direct p \<longleftrightarrow> unat p < 0x8000000"

definition kernel_mapped :: "mem \<Rightarrow> u32 \<Rightarrow> bool" where
  "kernel_mapped m pd \<longleftrightarrow> (\<forall>i < 32. pde m pd (KERNEL_VBASE_PDE + i) = identity_pde i)"

text \<open>A cached translation is the one of the tables.\<close>

definition tlb_coherent :: "'a vmm_scheme \<Rightarrow> bool" where
  "tlb_coherent s \<longleftrightarrow> (\<forall>va frame g. tlb s (page_of va) = Some (frame, g) \<longrightarrow>
     (\<exists>g'. hw_walk (pmem s) (active_pd s) va = Some (push_bit 12 frame OR PAGE_OFFSET va, g')))"

definition translation :: "'a vmm_scheme \<Rightarrow> u32 \<Rightarrow> u32 option" where
  "translation s va = map_option fst (hw_walk (pmem s) (active_pd s) va)"

lemma mmu_translation: "tlb_coherent s \<Longrightarrow> mmu s va = translation s va"
  unfolding mmu_def translation_def tlb_coherent_def page_of_def
  by (fastforce split: option.splits)

lemma identity_pde_bits:
  assumes "i < 32"
  shows "identity_pde i AND PTE_PRESENT \<noteq> 0" "identity_pde i AND PTE_PSE \<noteq> 0"
    "identity_pde i AND 0xFFC00000 = push_bit 22 i" "PTE_ADDR (identity_pde i) = push_bit 22 i"
proof -
  have "unat i \<in> set [0..<32]" using assms by (simp add: word_less_nat_alt)
  then have "\<exists>k\<in>set [0..<32]. i = of_nat k" by (metis of_nat_unat_eq)
  moreover have "\<forall>k\<in>set [0..<32]. identity_pde (of_nat k) AND PTE_PRESENT \<noteq> 0 \<and>
      identity_pde (of_nat k) AND PTE_PSE \<noteq> 0 \<and> identity_pde (of_nat k) AND 0xFFC00000 = push_bit 22 (of_nat k) \<and>
      PTE_ADDR (identity_pde (of_nat k)) = push_bit 22 (of_nat k)"
    by code_simp
  ultimately show "identity_pde i AND PTE_PRESENT \<noteq> 0" "identity_pde i AND PTE_PSE \<noteq> 0"
    "identity_pde i AND 0xFFC00000 = push_bit 22 i" "PTE_ADDR (identity_pde i) = push_bit 22 i"
    by auto
qed

lemma direct_address:
  assumes "unat x < 0x8000000"
  shows "PDE_INDEX (phys_to_virt x) = KERNEL_VBASE_PDE + drop_bit 22 x" "drop_bit 22 x < 32"
    "push_bit 22 (drop_bit 22 x) OR (phys_to_virt x AND 0x3FFFFF) = x"
proof -
  have u: "unat (phys_to_virt x) = unat x + 0xC0000000"
    unfolding phys_to_virt_def KERNEL_VBASE_def using assms by (simp add: unat_word_ariths)
  have d: "unat x div 4194304 < 32" using assms by (simp add: div_less_iff_less_mult)
  show "drop_bit 22 x < 32" using d by (simp add: word_less_nat_alt unat_drop_div)
  have "(unat x + 0xC0000000) div 4194304 = unat x div 4194304 + 768" by simp
  then show "PDE_INDEX (phys_to_virt x) = KERNEL_VBASE_PDE + drop_bit 22 x"
    using d by (simp add: word_unat_eq_iff index_take_bit unat_drop_div u
        unat_word_ariths KERNEL_VBASE_PDE_def)
  have "take_bit 22 (phys_to_virt x) = take_bit 22 x"
    unfolding word_unat_eq_iff unat_take_mod u using mod_mult_self1 [of "unat x" 768 4194304] by simp
  moreover have "(0x3FFFFF :: u32) = mask 22" by (simp add: mask_eq_exp_minus_1)
  ultimately have "phys_to_virt x AND 0x3FFFFF = take_bit 22 x" by (simp add: take_bit_eq_mask)
  moreover have "push_bit 22 (drop_bit 22 x) OR take_bit 22 x = x"
    by (rule bit_word_eqI) (auto simp: bit_simps)
  ultimately show "push_bit 22 (drop_bit 22 x) OR (phys_to_virt x AND 0x3FFFFF) = x" by simp
qed

lemma walk_direct:
  assumes "kernel_mapped m pd" and "unat x < 0x8000000"
  shows "map_option fst (hw_walk m pd (phys_to_virt x)) = Some x"
proof -
  note a = direct_address [OF assms(2)]
  have "rd32 m (unat (entry_at pd (PDE_INDEX (phys_to_virt x)))) = identity_pde (drop_bit 22 x)"
    using assms(1) a(1,2) by (simp add: kernel_mapped_def pde_def)
  then show ?thesis
    unfolding hw_walk_def using identity_pde_bits [OF a(2)] a(3) by simp
qed

lemma entry_at_virt: "entry_at (phys_to_virt p) i = phys_to_virt (entry_at p i)"
  by (simp add: entry_at_def phys_to_virt_def)

lemma entry_direct: "aligned p \<Longrightarrow> in_direct p \<Longrightarrow> i < 1024 \<Longrightarrow> unat (entry_at p i) < 0x8000000"
  using aligned_less_iff [of p "0x8000000"]
  by (simp add: unat_entry_at in_direct_def word_less_nat_alt)

text \<open>The kernel reads and writes table entries in the direct map without a fault.\<close>

definition direct :: "'a vmm_scheme \<Rightarrow> bool" where
  "direct s \<longleftrightarrow> tlb_coherent s \<and> kernel_mapped (pmem s) (active_pd s)"

lemma direct_access:
  assumes "direct s" and "aligned p" "in_direct p" "i < 1024"
  shows "vread (entry_at (phys_to_virt p) i) s = Some (rd32 (pmem s) (unat (entry_at p i)))"
    and "vwrite (entry_at (phys_to_virt p) i) v s = Some (s\<lparr>pmem := wr32 (pmem s) (unat (entry_at p i)) v\<rparr>)"
proof -
  have "mmu s (entry_at (phys_to_virt p) i) = Some (entry_at p i)"
    using assms(1) walk_direct [OF _ entry_direct [OF assms(2-4)], of "pmem s" "active_pd s"]
    by (simp add: direct_def mmu_translation translation_def entry_at_virt)
  then show "vread (entry_at (phys_to_virt p) i) s = Some (rd32 (pmem s) (unat (entry_at p i)))"
    "vwrite (entry_at (phys_to_virt p) i) v s = Some (s\<lparr>pmem := wr32 (pmem s) (unat (entry_at p i)) v\<rparr>)"
    by (simp_all add: vread_def vwrite_def)
qed

section \<open>Well-formed address spaces\<close>

definition table_pde :: "u32 \<Rightarrow> bool" where
  "table_pde e \<longleftrightarrow> e AND PTE_PRESENT \<noteq> 0 \<and> e AND PTE_PSE = 0"

definition large_pde :: "u32 \<Rightarrow> bool" where
  "large_pde e \<longleftrightarrow> e AND PTE_PRESENT \<noteq> 0 \<and> e AND PTE_PSE \<noteq> 0"

definition tables :: "mem \<Rightarrow> u32 \<Rightarrow> u32 set" where
  "tables m pd = {PTE_ADDR (pde m pd i) |i. i < 1024 \<and> table_pde (pde m pd i)}"

definition tables_distinct :: "mem \<Rightarrow> u32 \<Rightarrow> bool" where
  "tables_distinct m pd \<longleftrightarrow> (\<forall>i < 1024. \<forall>j < 1024. table_pde (pde m pd i) \<longrightarrow> table_pde (pde m pd j) \<longrightarrow>
     PTE_ADDR (pde m pd i) = PTE_ADDR (pde m pd j) \<longrightarrow> i = j)"

lemma identity_large: "i < 32 \<Longrightarrow> large_pde (identity_pde i)"
  using identity_pde_bits by (simp add: large_pde_def)

text \<open>
  The directory and its tables are distinct pages of the direct map that the page allocator has
  handed out, all free frames lie in the direct map (at most 128 MB of memory), and the
  translations the processor has cached are those of the tables.
\<close>

definition vm_wf :: "'a vmm_scheme \<Rightarrow> bool" where
  "vm_wf s \<longleftrightarrow> pmm_wf s \<and> direct s \<and> (\<forall>p\<in>frames s. in_direct (pfn_to_addr p)) \<and>
     (\<forall>q \<in> insert (active_pd s) (tables (pmem s) (active_pd s)). in_direct q \<and> addr_to_pfn q \<notin> frames s) \<and>
     active_pd s \<notin> tables (pmem s) (active_pd s) \<and> tables_distinct (pmem s) (active_pd s)"

text \<open>Two memories that agree on every page but one.\<close>

definition same_except :: "u32 \<Rightarrow> mem \<Rightarrow> mem \<Rightarrow> bool" where
  "same_except p m m' \<longleftrightarrow> (\<forall>q i. aligned q \<longrightarrow> i < 1024 \<longrightarrow> q \<noteq> p \<longrightarrow>
     rd32 m' (unat (entry_at q i)) = rd32 m (unat (entry_at q i)))"

lemma same_except_wr: "aligned p \<Longrightarrow> j < 1024 \<Longrightarrow> same_except p m m' \<Longrightarrow>
    same_except p m (wr32 m' (unat (entry_at p j)) v)"
  by (simp add: same_except_def rd_entry_wr)

lemma same_except_refl [simp]: "same_except p m m"
  by (simp add: same_except_def)

lemma aligned_active [simp]: "aligned (active_pd s)"
  unfolding active_pd_def using aligned_PTE_ADDR [of "cr3 s"] by (simp add: PTE_ADDR_def)

lemma active_pd_update [simp]:
  "active_pd (s\<lparr>pmem := m\<rparr>) = active_pd s" "active_pd (s\<lparr>tlb := c\<rparr>) = active_pd s"
  by (simp_all add: active_pd_def)

lemma same_except_pde:
  "same_except p m m' \<Longrightarrow> aligned pd \<Longrightarrow> p \<noteq> pd \<Longrightarrow> i < 1024 \<Longrightarrow> pde m' pd i = pde m pd i"
  by (auto simp: same_except_def pde_def)

lemma same_except_walk:
  assumes "same_except p m m'" "aligned pd" "p \<notin> insert pd (tables m pd)"
  shows "hw_walk m' pd va = hw_walk m pd va"
proof -
  have e: "pde m' pd (PDE_INDEX va) = pde m pd (PDE_INDEX va)"
    using same_except_pde [OF assms(1,2)] assms(3) by auto
  show ?thesis
  proof (cases "table_pde (pde m pd (PDE_INDEX va))")
    case True
    then have "PTE_ADDR (pde m pd (PDE_INDEX va)) \<noteq> p" using assms(3) by (auto simp: tables_def)
    then have "rd32 m' (unat (entry_at (PTE_ADDR (pde m pd (PDE_INDEX va))) (PTE_INDEX va))) =
        rd32 m (unat (entry_at (PTE_ADDR (pde m pd (PDE_INDEX va))) (PTE_INDEX va)))"
      using assms(1) by (simp add: same_except_def)
    then show ?thesis using e by (simp add: hw_walk_def pde_def Let_def)
  next
    case False
    then show ?thesis using e by (auto simp: hw_walk_def pde_def table_pde_def Let_def)
  qed
qed

lemma KERNEL_index: "i < 32 \<Longrightarrow> KERNEL_VBASE_PDE + i < 1024"
  by (simp add: KERNEL_VBASE_PDE_def word_less_nat_alt unat_word_ariths)

lemma direct_same:
  assumes "direct s" "same_except p (pmem s) m" "p \<notin> insert (active_pd s) (tables (pmem s) (active_pd s))"
  shows "direct (s\<lparr>pmem := m\<rparr>)"
  using assms(1) same_except_walk [OF assms(2) aligned_active assms(3)]
    same_except_pde [OF assms(2) aligned_active [of s], OF _ KERNEL_index] assms(3)
  by (auto simp: direct_def tlb_coherent_def kernel_mapped_def)

lemma wforo_rule:
  assumes "i \<le> n" and "P i s"
    and "\<And>j t. i \<le> j \<Longrightarrow> j < n \<Longrightarrow> P j t \<Longrightarrow> \<exists>u. f j t = Some u \<and> P (j + 1) u"
  shows "\<exists>u. wforo i n f s = Some u \<and> P n u"
  unfolding wforo_def
proof (rule wfor_invariant [where P = "\<lambda>j r. \<exists>t. r = Some t \<and> P j t", OF assms(1)])
  show "\<exists>t. Some s = Some t \<and> P i t" using assms(2) by blast
  show "\<exists>u. (r \<bind> f j) = Some u \<and> P (j + 1) u"
    if "i \<le> j" "j < n" "\<exists>t. r = Some t \<and> P j t" for j r
    using that assms(3) by auto
qed

text \<open>A loop that writes \<open>g j\<close> to the entries \<open>j\<close> of one page.\<close>

lemma fill_page:
  assumes al: "aligned p" and "i \<le> n" "n \<le> 1024" and m: "same_except p m0 m"
    and f: "\<And>j m. i \<le> j \<Longrightarrow> j < n \<Longrightarrow> same_except p m0 m \<Longrightarrow>
      f j (s\<lparr>pmem := m\<rparr>) = Some (s\<lparr>pmem := wr32 m (unat (entry_at p j)) (g j)\<rparr>)"
  shows "\<exists>m'. wforo i n f (s\<lparr>pmem := m\<rparr>) = Some (s\<lparr>pmem := m'\<rparr>) \<and> same_except p m0 m' \<and>
    (\<forall>k < 1024. rd32 m' (unat (entry_at p k)) = (if i \<le> k \<and> k < n then g k else rd32 m (unat (entry_at p k))))"
proof -
  let ?P = "\<lambda>j t. \<exists>m'. t = s\<lparr>pmem := m'\<rparr> \<and> same_except p m0 m' \<and>
    (\<forall>k < 1024. rd32 m' (unat (entry_at p k)) = (if i \<le> k \<and> k < j then g k else rd32 m (unat (entry_at p k))))"
  have "\<exists>u. wforo i n f (s\<lparr>pmem := m\<rparr>) = Some u \<and> ?P n u"
  proof (rule wforo_rule [where P = ?P, OF assms(2)])
    show "?P i (s\<lparr>pmem := m\<rparr>)" using m by auto
    fix j t assume ij: "i \<le> j" "j < n" and "?P j t"
    then obtain m' where t: "t = s\<lparr>pmem := m'\<rparr>" and se: "same_except p m0 m'"
      and rd: "\<forall>k < 1024. rd32 m' (unat (entry_at p k)) = (if i \<le> k \<and> k < j then g k else rd32 m (unat (entry_at p k)))"
      by blast
    have j: "j < 1024" using ij(2) assms(3) by (rule less_le_trans)
    let ?m = "wr32 m' (unat (entry_at p j)) (g j)"
    have "rd32 ?m (unat (entry_at p k)) = (if i \<le> k \<and> k < j + 1 then g k else rd32 m (unat (entry_at p k)))"
      if k: "k < 1024" for k
    proof -
      have "k < j + 1 \<longleftrightarrow> k = j \<or> k < j"
        using unat_Suc_less [OF j] by (auto simp: word_less_nat_alt word_unat_eq_iff)
      then show ?thesis using rd ij(1) k rd_entry_wr [OF al al k j, of m' "g j"] by auto
    qed
    then show "\<exists>u. f j t = Some u \<and> ?P (j + 1) u"
      using f [OF ij se] same_except_wr [OF al j se] unfolding t by blast
  qed
  then show ?thesis by blast
qed

lemma write_entry:
  assumes "direct s" "aligned p" "in_direct p" "p \<notin> insert (active_pd s) (tables (pmem s) (active_pd s))"
    and "same_except p (pmem s) m" "j < 1024"
  shows "vwrite (entry_at (phys_to_virt p) j) v (s\<lparr>pmem := m\<rparr>) = Some (s\<lparr>pmem := wr32 m (unat (entry_at p j)) v\<rparr>)"
  using direct_access(2) [OF direct_same [OF assms(1,5,4)] assms(2,3,6)] by simp

lemma zero_table_spec:
  assumes "direct s" "aligned p" "in_direct p" "p \<notin> insert (active_pd s) (tables (pmem s) (active_pd s))"
  shows "\<exists>m. zero_table (phys_to_virt p) s = Some (s\<lparr>pmem := m\<rparr>) \<and> same_except p (pmem s) m \<and>
    (\<forall>i < 1024. rd32 m (unat (entry_at p i)) = 0)"
  using fill_page [OF assms(2), of 0 PAGE_ENTRIES "pmem s" "pmem s" "\<lambda>i. vwrite (entry_at (phys_to_virt p) i) 0" s "\<lambda>_. 0"]
    write_entry [OF assms] by (auto simp: zero_table_def PAGE_ENTRIES_def)

section \<open>Page tables on demand\<close>

lemma pmm_frame [simp]:
  "pmm_wf (s\<lparr>pmem := m\<rparr>) = pmm_wf s" "frames (s\<lparr>pmem := m\<rparr>) = frames s"
  "pmm_wf (s\<lparr>tlb := c\<rparr>) = pmm_wf s" "frames (s\<lparr>tlb := c\<rparr>) = frames s"
  by (simp_all add: pmm_wf_def frames_def pmm_topology_def node_count_ok_def node_frames_def)

lemma alloc_keeps_vm:
  assumes "pmm_alloc_page n s = (a, t)"
  shows "pmem t = pmem s" "cr3 t = cr3 s" "tlb t = tlb s" "current_pd_phys t = current_pd_phys s"
    "highest_page t = highest_page s" "vmm.more t = vmm.more s"
proof -
  let ?Q = "\<lambda>u. pmem u = pmem s \<and> cr3 u = cr3 s \<and> tlb u = tlb s \<and> current_pd_phys u = current_pd_phys s \<and>
    highest_page u = highest_page s \<and> vmm.more u = vmm.more s"
  have "?Q (snd (pmm_alloc_page n s))"
    by (rule pmm_alloc_page_preserves [where Q = ?Q])
       (simp_all add: flightrec_log_def Let_def split_beta time_cycles_def time_usec_def rdtsc_def charge_node_def)
  then show "pmem t = pmem s" "cr3 t = cr3 s" "tlb t = tlb s" "current_pd_phys t = current_pd_phys s"
    "highest_page t = highest_page s" "vmm.more t = vmm.more s"
    by (simp_all add: assms)
qed

lemma MAKE_PTE_bits:
  assumes "flags < 4096"
  shows "PTE_ADDR (MAKE_PTE p flags) = PTE_ADDR p"
    and "b < 4096 \<Longrightarrow> MAKE_PTE p flags AND b = flags AND b"
proof -
  have lim: "\<not> bit f n" if "f < 4096" "12 \<le> n" for f :: u32 and n
  proof -
    have "f = take_bit 12 f" using that(1)
      by (simp add: word_unat_eq_iff unat_take_mod word_less_nat_alt)
    then show ?thesis using that(2) by (metis bit_take_bit_iff not_less)
  qed
  show "PTE_ADDR (MAKE_PTE p flags) = PTE_ADDR p"
    unfolding PTE_ADDR_def MAKE_PTE_def page_mask using lim [OF assms]
    by (intro bit_word_eqI) (auto simp: bit_simps not_less)
  show "MAKE_PTE p flags AND b = flags AND b" if "b < 4096"
    unfolding MAKE_PTE_def page_mask using lim [OF that]
    by (intro bit_word_eqI) (auto simp: bit_simps not_less)
qed

lemma fresh_frame:
  assumes "vm_wf s" and "q \<in> frames s"
  shows "in_direct (pfn_to_addr q)" "pfn_to_addr q \<notin> insert (active_pd s) (tables (pmem s) (active_pd s))"
    "addr_to_pfn (pfn_to_addr q) = q"
proof -
  have wf: "pmm_wf s" using assms(1) by (simp add: vm_wf_def)
  show i: "addr_to_pfn (pfn_to_addr q) = q" by (rule pfn_to_addr_inverse [OF wf_frame_bounds(1) [OF wf assms(2)]])
  show "in_direct (pfn_to_addr q)" using assms by (simp add: vm_wf_def)
  show "pfn_to_addr q \<notin> insert (active_pd s) (tables (pmem s) (active_pd s))"
    using assms i by (auto simp: vm_wf_def)
qed

lemma hw_walk_pde:
  "hw_walk m pd va =
     (let e = pde m pd (PDE_INDEX va)
      in if \<not> table_pde e \<and> \<not> large_pde e then None
         else if large_pde e then Some ((e AND 0xFFC00000) OR (va AND 0x3FFFFF), e AND PTE_GLOBAL \<noteq> 0)
         else let pte = rd32 m (unat (entry_at (PTE_ADDR e) (PTE_INDEX va)))
              in if pte AND PTE_PRESENT = 0 then None
                 else Some (PTE_ADDR pte OR PAGE_OFFSET va, pte AND PTE_GLOBAL \<noteq> 0))"
  by (auto simp: hw_walk_def pde_def table_pde_def large_pde_def Let_def)

text \<open>Installing an empty table in an unused directory entry changes no translation.\<close>

definition table_entry :: "u32 \<Rightarrow> u32" where
  "table_entry p = MAKE_PTE p (PTE_PRESENT OR PTE_WRITABLE OR PTE_USER)"

lemma table_entry_bits:
  assumes "aligned p"
  shows "PTE_ADDR (table_entry p) = p" "table_pde (table_entry p)"
proof -
  have "PTE_PRESENT OR PTE_WRITABLE OR PTE_USER = 7" by (simp add: zconst)
  then show "PTE_ADDR (table_entry p) = p" "table_pde (table_entry p)"
    using MAKE_PTE_bits(1) [of 7 p] MAKE_PTE_bits(2) [where flags = 7 and p = p and b = 1]
      MAKE_PTE_bits(2) [where flags = 7 and p = p and b = 128] assms
    by (simp_all add: table_entry_def table_pde_def aligned_def PTE_PRESENT_def PTE_PSE_def)
qed

lemma install_table:
  assumes "aligned pd" "aligned p" "k < 1024" "p \<notin> insert pd (tables m pd)"
    and "\<not> table_pde (pde m pd k)" "\<not> large_pde (pde m pd k)"
    and "pd \<notin> tables m pd" and m: "same_except p m m1" "\<forall>i < 1024. rd32 m1 (unat (entry_at p i)) = 0"
  defines "m2 \<equiv> wr32 m1 (unat (entry_at pd k)) (table_entry p)"
  shows "i < 1024 \<Longrightarrow> pde m2 pd i = (if i = k then table_entry p else pde m pd i)"
    and "tables m2 pd = insert p (tables m pd)" and "hw_walk m2 pd va = hw_walk m pd va"
    and "tables_distinct m pd \<Longrightarrow> tables_distinct m2 pd"
proof -
  have ne: "p \<noteq> pd" using assms(4) by simp
  show e: "pde m2 pd i = (if i = k then table_entry p else pde m pd i)" if "i < 1024" for i
    using that assms(3) same_except_pde [OF m(1) assms(1) ne that]
    by (simp add: m2_def pde_def rd_entry_wr [OF assms(1,1)])
  note te = table_entry_bits [OF assms(2)]
  show t: "tables m2 pd = insert p (tables m pd)"
  proof (intro equalityI subsetI)
    fix q assume "q \<in> tables m2 pd"
    then show "q \<in> insert p (tables m pd)" using te by (auto simp: tables_def e split: if_splits)
  next
    fix q assume "q \<in> insert p (tables m pd)"
    then consider "q = p" | i where "i < 1024" "table_pde (pde m pd i)" "q = PTE_ADDR (pde m pd i)"
      by (auto simp: tables_def)
    then show "q \<in> tables m2 pd"
    proof cases
      case 1
      then show ?thesis unfolding tables_def using te e [OF assms(3)] assms(3) by force
    next
      case 2
      then have "i \<noteq> k" using assms(5) by auto
      then show ?thesis unfolding tables_def using 2 e [OF 2(1)] by force
    qed
  qed
  have rd: "rd32 m2 (unat (entry_at q i)) = (if q = p then 0 else rd32 m (unat (entry_at q i)))"
    if "aligned q" "q \<noteq> pd" "i < 1024" for q i
    using that m assms(3) by (simp add: m2_def rd_entry_wr [OF that(1) assms(1)] same_except_def)
  show "hw_walk m2 pd va = hw_walk m pd va"
  proof (cases "PDE_INDEX va = k")
    case True
    then show ?thesis
      using e [OF assms(3)] te assms(5,6) rd [OF assms(2) ne, of "PTE_INDEX va"]
      by (simp add: hw_walk_pde Let_def table_pde_def large_pde_def)
  next
    case False
    then have e': "pde m2 pd (PDE_INDEX va) = pde m pd (PDE_INDEX va)" using e by simp
    show ?thesis
    proof (cases "table_pde (pde m pd (PDE_INDEX va))")
      case True
      then have "PTE_ADDR (pde m pd (PDE_INDEX va)) \<in> tables m pd" by (auto simp: tables_def)
      then have "PTE_ADDR (pde m pd (PDE_INDEX va)) \<notin> {pd, p}" using assms(4,7) by auto
      then have "rd32 m2 (unat (entry_at (PTE_ADDR (pde m pd (PDE_INDEX va))) (PTE_INDEX va))) =
          rd32 m (unat (entry_at (PTE_ADDR (pde m pd (PDE_INDEX va))) (PTE_INDEX va)))"
        using rd [of "PTE_ADDR (pde m pd (PDE_INDEX va))" "PTE_INDEX va"] by auto
      then show ?thesis by (simp add: hw_walk_pde e' Let_def)
    qed (auto simp: hw_walk_pde e' Let_def)
  qed
  show "tables_distinct m2 pd" if "tables_distinct m pd"
  proof -
    have "PTE_ADDR (pde m pd i) \<noteq> p" if "i < 1024" "table_pde (pde m pd i)" for i
      using that assms(4) by (auto simp: tables_def)
    then show ?thesis using \<open>tables_distinct m pd\<close> te by (auto simp: tables_distinct_def e split: if_splits)
  qed
qed

lemma ensure_table_spec:
  assumes wf: "vm_wf s" and k: "k < 1024" and nl: "\<not> large_pde (pde (pmem s) (active_pd s) k)"
  shows "\<exists>ok t. ensure_table (phys_to_virt (active_pd s)) k s = Some (ok, t) \<and> vm_wf t \<and>
    active_pd t = active_pd s \<and> current_pd_phys t = current_pd_phys s \<and> translation t = translation s \<and>
    (\<forall>i < 1024. large_pde (pde (pmem t) (active_pd t) i) = large_pde (pde (pmem s) (active_pd s) i)) \<and>
    (if ok then table_pde (pde (pmem t) (active_pd t) k)
     else frames s = {} \<and> \<not> table_pde (pde (pmem s) (active_pd s) k))"
proof -
  let ?pd = "active_pd s"
  have dir: "direct s" and pdir: "in_direct ?pd" and pw: "pmm_wf s" using wf by (auto simp: vm_wf_def)
  have rd: "vread (entry_at (phys_to_virt ?pd) k) s = Some (pde (pmem s) ?pd k)"
    using direct_access(1) [OF dir aligned_active pdir k] by (simp add: pde_def)
  show ?thesis
  proof (cases "table_pde (pde (pmem s) ?pd k)")
    case True
    then show ?thesis using rd wf by (auto simp: ensure_table_def table_pde_def)
  next
    case False
    then have np: "pde (pmem s) ?pd k AND PTE_PRESENT = 0" using nl by (auto simp: table_pde_def large_pde_def)
    obtain a u where al: "pmm_alloc_page NUMA_NODE_LOCAL s = (a, u)" by fastforce
    note keep = alloc_keeps_vm [OF al]
    have act: "active_pd u = ?pd" by (simp add: active_pd_def keep)
    have diru: "direct u" using dir by (simp add: direct_def tlb_coherent_def keep act)
    note res = alloc_page_result [OF pw, of NUMA_NODE_LOCAL, unfolded al page_result_def, simplified]
    show ?thesis
    proof (cases "frames s = {}")
      case True
      then have "a = 0" "frames u = {}" "pmm_wf u" using res by simp_all
      moreover have "vm_wf u" using wf diru calculation by (simp add: vm_wf_def act keep)
      ultimately show ?thesis
        using rd np al False True by (simp add: ensure_table_def act keep translation_def fun_eq_iff) blast
    next
      case ne: False
      then obtain q where q: "q \<in> frames s" "a = pfn_to_addr q" "a \<noteq> 0" "frames u = frames s - {q}"
        and pu: "pmm_wf u" using res by auto
      note fresh = fresh_frame [OF wf q(1), folded q(2)]
      have al_a: "aligned a" by (simp add: q(2))
      have fr: "a \<notin> insert (active_pd u) (tables (pmem u) (active_pd u))" using fresh(2) by (simp add: act keep)
      obtain m where z: "zero_table (phys_to_virt a) u = Some (u\<lparr>pmem := m\<rparr>)"
        and se: "same_except a (pmem s) m" and zero: "\<forall>i < 1024. rd32 m (unat (entry_at a i)) = 0"
        using zero_table_spec [OF diru al_a fresh(1) fr] keep(1) by auto
      let ?m = "wr32 m (unat (entry_at ?pd k)) (table_entry a)"
      have dm: "direct (u\<lparr>pmem := m\<rparr>)" using direct_same [OF diru _ fr] se keep(1) by simp
      have w: "vwrite (entry_at (phys_to_virt ?pd) k) (table_entry a) (u\<lparr>pmem := m\<rparr>) = Some (u\<lparr>pmem := ?m\<rparr>)"
        using direct_access(2) [OF dm aligned_active pdir k] by simp
      have pt: "?pd \<notin> tables (pmem s) ?pd" and td: "tables_distinct (pmem s) ?pd" using wf by (simp_all add: vm_wf_def)
      note inst = install_table [OF aligned_active al_a k fresh(2) False nl pt se zero]
      let ?t = "u\<lparr>pmem := ?m\<rparr>"
      have "frames ?t = frames s - {q}" "pmm_wf ?t" using q(4) pu by simp_all
      moreover have "kernel_mapped ?m ?pd"
        using dir nl identity_large KERNEL_index inst(1) by (auto simp: direct_def kernel_mapped_def)
      moreover have "tlb_coherent ?t"
        using dir inst(3) by (simp add: direct_def tlb_coherent_def act keep)
      moreover have "\<forall>r \<in> insert ?pd (tables ?m ?pd). in_direct r \<and> addr_to_pfn r \<notin> frames s - {q}"
        using wf fresh(1,3) by (auto simp: inst(2) vm_wf_def)
      moreover have "?pd \<notin> tables ?m ?pd" using pt fresh(2) by (auto simp: inst(2))
      ultimately have "vm_wf ?t"
        using wf inst(4) [OF td] by (simp add: vm_wf_def direct_def act)
      moreover have "ensure_table (phys_to_virt ?pd) k s = Some (True, ?t)"
        using rd np al q(3) z w by (simp add: ensure_table_def table_entry_def)
      moreover have "translation ?t = translation s"
        using inst(3) by (simp add: translation_def act fun_eq_iff)
      moreover have "table_pde (pde ?m ?pd k)" using inst(1) [OF k] table_entry_bits [OF al_a] by simp
      moreover have "large_pde (pde ?m ?pd i) = large_pde (pde (pmem s) ?pd i)" if "i < 1024" for i
        using inst(1) [OF that] table_entry_bits [OF al_a] nl by (auto simp: table_pde_def large_pde_def)
      ultimately show ?thesis by (auto simp: act keep)
    qed
  qed
qed

section \<open>Changing one page\<close>

definition page_entry :: "'a vmm_scheme \<Rightarrow> u32 \<Rightarrow> u32" where
  "page_entry s va = entry_at (PTE_ADDR (pde (pmem s) (active_pd s) (PDE_INDEX va))) (PTE_INDEX va)"

definition set_page :: "u32 \<Rightarrow> u32 \<Rightarrow> 'a vmm_scheme \<Rightarrow> 'a vmm_scheme" where
  "set_page va v s = vmm_invlpg va (s\<lparr>pmem := wr32 (pmem s) (unat (page_entry s va)) v\<rparr>)"

lemma write_pte_walk:
  fixes v :: u32
  assumes al: "aligned pd" and k: "table_pde (pde m pd (PDE_INDEX va))" and pt: "pd \<notin> tables m pd"
    and td: "tables_distinct m pd"
  defines "m' \<equiv> wr32 m (unat (entry_at (PTE_ADDR (pde m pd (PDE_INDEX va))) (PTE_INDEX va))) v"
  shows "i < 1024 \<Longrightarrow> pde m' pd i = pde m pd i" and "tables m' pd = tables m pd"
    and "tables_distinct m' pd"
    and "hw_walk m' pd vb = (if page_of vb = page_of va
      then if v AND PTE_PRESENT = 0 then None else Some (PTE_ADDR v OR PAGE_OFFSET vb, v AND PTE_GLOBAL \<noteq> 0)
      else hw_walk m pd vb)"
proof -
  let ?t = "PTE_ADDR (pde m pd (PDE_INDEX va))"
  have t: "?t \<noteq> pd" using k pt by (auto simp: tables_def)
  show e: "i < 1024 \<Longrightarrow> pde m' pd i = pde m pd i" for i
    using t by (simp add: m'_def pde_def rd_entry_wr [OF al])
  show "tables m' pd = tables m pd" unfolding tables_def using e by (metis (no_types, lifting))
  show "tables_distinct m' pd" using td by (simp add: tables_distinct_def e)
  let ?u = "PTE_ADDR (pde m pd (PDE_INDEX vb))"
  have rd: "rd32 m' (unat (entry_at ?u (PTE_INDEX vb))) =
      (if ?u = ?t \<and> PTE_INDEX vb = PTE_INDEX va then v else rd32 m (unat (entry_at ?u (PTE_INDEX vb))))"
    by (simp add: m'_def rd_entry_wr)
  show "hw_walk m' pd vb = (if page_of vb = page_of va
      then if v AND PTE_PRESENT = 0 then None else Some (PTE_ADDR v OR PAGE_OFFSET vb, v AND PTE_GLOBAL \<noteq> 0)
      else hw_walk m pd vb)"
  proof (cases "page_of vb = page_of va")
    case True
    then have eq: "PDE_INDEX vb = PDE_INDEX va" "PTE_INDEX vb = PTE_INDEX va" using va_split by blast+
    show ?thesis using rd k True
      by (simp add: hw_walk_pde e eq Let_def table_pde_def large_pde_def)
  next
    case False
    then have ne: "\<not> (PDE_INDEX vb = PDE_INDEX va \<and> PTE_INDEX vb = PTE_INDEX va)" using va_split by blast
    have "\<not> (?u = ?t \<and> PTE_INDEX vb = PTE_INDEX va)" if "table_pde (pde m pd (PDE_INDEX vb))"
      using ne td k that unfolding tables_distinct_def by auto
    then show ?thesis using False rd by (auto simp: hw_walk_pde e Let_def)
  qed
qed

lemma vm_wf_facts:
  assumes "vm_wf s"
  shows "pmm_wf s" "direct s" "tlb_coherent s" "in_direct (active_pd s)"
    "active_pd s \<notin> tables (pmem s) (active_pd s)" "tables_distinct (pmem s) (active_pd s)"
  using assms by (simp_all add: vm_wf_def direct_def)

lemma vm_wf_mmu: "vm_wf s \<Longrightarrow> mmu s = translation s"
  by (simp add: vm_wf_facts mmu_translation fun_eq_iff)

lemma set_page_spec:
  assumes wf: "vm_wf s" and k: "table_pde (pde (pmem s) (active_pd s) (PDE_INDEX va))"
  shows "vm_wf (set_page va v s)"
    and "translation (set_page va v s) vb = (if page_of vb = page_of va
      then if v AND PTE_PRESENT = 0 then None else Some (PTE_ADDR v OR PAGE_OFFSET vb)
      else translation s vb)"
    and "frames (set_page va v s) = frames s" "active_pd (set_page va v s) = active_pd s"
    and "i < 1024 \<Longrightarrow> pde (pmem (set_page va v s)) (active_pd s) i = pde (pmem s) (active_pd s) i"
proof -
  note w = write_pte_walk [OF aligned_active [of s] k vm_wf_facts(5,6) [OF wf], where v = v, folded page_entry_def]
  show a: "active_pd (set_page va v s) = active_pd s" and f: "frames (set_page va v s) = frames s"
    by (simp_all add: set_page_def vmm_invlpg_def)
  let ?m = "wr32 (pmem s) (unat (page_entry s va)) v"
  have pm: "pmem (set_page va v s) = ?m" by (simp add: set_page_def vmm_invlpg_def)
  show "translation (set_page va v s) vb = (if page_of vb = page_of va
      then if v AND PTE_PRESENT = 0 then None else Some (PTE_ADDR v OR PAGE_OFFSET vb)
      else translation s vb)"
    by (simp add: translation_def a pm w(4))
  show "i < 1024 \<Longrightarrow> pde (pmem (set_page va v s)) (active_pd s) i = pde (pmem s) (active_pd s) i"
    by (simp add: pm w(1))
  have "tlb_coherent (set_page va v s)"
    using vm_wf_facts(3) [OF wf] unfolding tlb_coherent_def a pm w(4)
    by (simp add: set_page_def vmm_invlpg_def page_of_def)
  moreover have "kernel_mapped ?m (active_pd s)"
    using vm_wf_facts(2) [OF wf] KERNEL_index w(1) by (simp add: direct_def kernel_mapped_def)
  moreover have "pmm_wf (set_page va v s)"
    using vm_wf_facts(1) [OF wf] by (simp add: set_page_def vmm_invlpg_def)
  ultimately show "vm_wf (set_page va v s)"
    using wf w(2,3) by (simp add: vm_wf_def direct_def a f pm)
qed

lemma table_access:
  assumes wf: "vm_wf s" and k: "table_pde (pde (pmem s) (active_pd s) (PDE_INDEX va))"
  defines "t \<equiv> PTE_ADDR (pde (pmem s) (active_pd s) (PDE_INDEX va))"
  shows "vread (entry_at (phys_to_virt t) (PTE_INDEX va)) s = Some (rd32 (pmem s) (unat (page_entry s va)))"
    and "vwrite (entry_at (phys_to_virt t) (PTE_INDEX va)) v s =
      Some (s\<lparr>pmem := wr32 (pmem s) (unat (page_entry s va)) v\<rparr>)"
proof -
  have "t \<in> tables (pmem s) (active_pd s)" using k by (auto simp: tables_def t_def)
  then have "in_direct t" "aligned t" using wf by (auto simp: vm_wf_def t_def)
  then show "vread (entry_at (phys_to_virt t) (PTE_INDEX va)) s = Some (rd32 (pmem s) (unat (page_entry s va)))"
    "vwrite (entry_at (phys_to_virt t) (PTE_INDEX va)) v s =
      Some (s\<lparr>pmem := wr32 (pmem s) (unat (page_entry s va)) v\<rparr>)"
    using direct_access [OF vm_wf_facts(2) [OF wf]] by (simp_all add: page_entry_def t_def)
qed

lemma pde_access:
  assumes "vm_wf s"
  shows "vread (entry_at (phys_to_virt (active_pd s)) (PDE_INDEX va)) s =
    Some (pde (pmem s) (active_pd s) (PDE_INDEX va))"
  using direct_access(1) [OF vm_wf_facts(2) [OF assms] aligned_active vm_wf_facts(4) [OF assms]]
  by (simp add: pde_def)

lemma map_page_spec:
  assumes wf: "vm_wf s" and nl: "\<not> large_pde (pde (pmem s) (active_pd s) (PDE_INDEX vaddr))"
    and fl: "flags < 4096" "flags AND PTE_PRESENT \<noteq> 0"
  shows "\<exists>r t. vmm_map_page vaddr paddr flags s = Some (r, t) \<and> vm_wf t \<and> active_pd t = active_pd s \<and>
    (\<forall>i < 1024. large_pde (pde (pmem t) (active_pd t) i) = large_pde (pde (pmem s) (active_pd s) i)) \<and>
    (if r = 0 then translation t = (\<lambda>va. if page_of va = page_of vaddr then Some (PTE_ADDR paddr OR PAGE_OFFSET va)
                                    else translation s va)
     else r = - 1 \<and> frames s = {} \<and> translation t = translation s)"
proof -
  have cr: "read_cr3 s AND 0xFFFFF000 = active_pd s" by (simp add: read_cr3_def active_pd_def)
  obtain ok t where en: "ensure_table (phys_to_virt (active_pd s)) (PDE_INDEX vaddr) s = Some (ok, t)"
    and t: "vm_wf t" "active_pd t = active_pd s" "translation t = translation s"
    and lg: "\<forall>i < 1024. large_pde (pde (pmem t) (active_pd t) i) = large_pde (pde (pmem s) (active_pd s) i)"
    and ok: "if ok then table_pde (pde (pmem t) (active_pd t) (PDE_INDEX vaddr)) else frames s = {}"
    using ensure_table_spec [OF wf PDE_INDEX_less nl] by (auto split: if_splits)
  show ?thesis
  proof (cases ok)
    case False
    then show ?thesis using en t ok lg by (simp add: vmm_map_page_def cr)
  next
    case True
    then have k: "table_pde (pde (pmem t) (active_pd t) (PDE_INDEX vaddr))" using ok by simp
    note sp = set_page_spec [OF t(1) k, where v = "MAKE_PTE paddr flags"]
    have "vmm_map_page vaddr paddr flags s = Some (0, set_page vaddr (MAKE_PTE paddr flags) t)"
      using en True pde_access [OF t(1), of vaddr] table_access [OF t(1) k]
      by (simp add: vmm_map_page_def cr t(2) set_page_def)
    moreover have "MAKE_PTE paddr flags AND PTE_PRESENT \<noteq> 0" "PTE_ADDR (MAKE_PTE paddr flags) = PTE_ADDR paddr"
      using fl MAKE_PTE_bits(1) [OF fl(1)] MAKE_PTE_bits(2) [OF fl(1), of PTE_PRESENT]
      by (simp_all add: PTE_PRESENT_def)
    ultimately show ?thesis using sp t lg by (auto simp: fun_eq_iff)
  qed
qed

lemma unmap_page_spec:
  assumes wf: "vm_wf s" and nl: "\<not> large_pde (pde (pmem s) (active_pd s) (PDE_INDEX vaddr))"
  shows "\<exists>t. vmm_unmap_page vaddr s = Some (case translation s vaddr of None \<Rightarrow> 0 | Some pa \<Rightarrow> PTE_ADDR pa, t) \<and>
    vm_wf t \<and> active_pd t = active_pd s \<and> frames t = frames s \<and>
    translation t = (\<lambda>va. if page_of va = page_of vaddr then None else translation s va)"
proof -
  have cr: "read_cr3 s AND 0xFFFFF000 = active_pd s" by (simp add: read_cr3_def active_pd_def)
  note rd = pde_access [OF wf, of vaddr]
  show ?thesis
  proof (cases "table_pde (pde (pmem s) (active_pd s) (PDE_INDEX vaddr))")
    case False
    then have np: "pde (pmem s) (active_pd s) (PDE_INDEX vaddr) AND PTE_PRESENT = 0"
      using nl by (auto simp: table_pde_def large_pde_def)
    have "translation s va = None" if "page_of va = page_of vaddr" for va
      using that False nl va_split [of va vaddr] by (simp add: translation_def hw_walk_pde)
    then show ?thesis using rd np wf by (auto simp: vmm_unmap_page_def cr fun_eq_iff)
  next
    case True
    let ?pte = "rd32 (pmem s) (unat (page_entry s vaddr))"
    have tr: "translation s va = (if ?pte AND PTE_PRESENT = 0 then None else Some (PTE_ADDR ?pte OR PAGE_OFFSET va))"
      if "page_of va = page_of vaddr" for va
      using that True va_split [of va vaddr]
      by (simp add: translation_def hw_walk_pde page_entry_def Let_def table_pde_def large_pde_def)
    have pr: "pde (pmem s) (active_pd s) (PDE_INDEX vaddr) AND PTE_PRESENT \<noteq> 0" using True by (simp add: table_pde_def)
    note acc = rd table_access [OF wf True]
    note sp = set_page_spec [OF wf True, where v = 0]
    show ?thesis
    proof (cases "?pte AND PTE_PRESENT = 0")
      case np: True
      then show ?thesis using acc pr wf tr by (auto simp: vmm_unmap_page_def cr fun_eq_iff)
    next
      case False
      then have "vmm_unmap_page vaddr s = Some (PTE_ADDR ?pte, set_page vaddr 0 s)"
        using acc pr by (simp add: vmm_unmap_page_def cr set_page_def)
      then show ?thesis using sp tr [of vaddr] False by (auto simp: fun_eq_iff)
    qed
  qed
qed

section \<open>Ranges\<close>

lemma page_of_add:
  assumes "aligned va" "unat va + 4096 < 2 ^ 32"
  shows "unat (va + PAGE_SIZE) = unat va + 4096" "aligned (va + PAGE_SIZE)"
    "unat (page_of (va + PAGE_SIZE)) = Suc (unat (page_of va))"
proof -
  show u: "unat (va + PAGE_SIZE) = unat va + 4096" using assms(2) by (simp add: PAGE_SIZE_def unat_word_ariths)
  show "aligned (va + PAGE_SIZE)" using assms(1) by (simp add: aligned_iff u)
  show "unat (page_of (va + PAGE_SIZE)) = Suc (unat (page_of va))"
    by (simp add: page_of_def unat_drop_div u)
qed

text \<open>What a range of pages looks like after it is mapped.\<close>

definition range_view :: "u32 \<Rightarrow> u32 \<Rightarrow> nat \<Rightarrow> (u32 \<Rightarrow> u32 option) \<Rightarrow> u32 \<Rightarrow> u32 option" where
  "range_view va pa n T v =
     (if unat (page_of va) \<le> unat (page_of v) \<and> unat (page_of v) < unat (page_of va) + n
      then Some (PTE_ADDR (pa + 4096 * (page_of v - page_of va)) OR PAGE_OFFSET v) else T v)"

lemma range_view_0: "range_view va pa 0 T = T"
  by (auto simp: range_view_def fun_eq_iff)

lemma range_view_step:
  assumes "aligned va" "n \<noteq> 0 \<Longrightarrow> unat va + 4096 < 2 ^ 32"
  shows "range_view (va + PAGE_SIZE) (pa + PAGE_SIZE) n
      (\<lambda>v. if page_of v = page_of va then Some (PTE_ADDR pa OR PAGE_OFFSET v) else T v) =
    range_view va pa (Suc n) T"
proof (cases "n = 0")
  case True
  have "unat (page_of va) \<le> unat (page_of v) \<and> unat (page_of v) < Suc (unat (page_of va)) \<longleftrightarrow> page_of v = page_of va" for v
    unfolding word_unat_eq_iff by linarith
  then show ?thesis unfolding True range_view_0 by (intro ext) (simp add: range_view_def)
next
  case False
  note p = page_of_add [OF assms(1) assms(2) [OF False]]
  have sub: "page_of (va + PAGE_SIZE) = page_of va + 1"
    using p(3) by (simp add: word_unat_eq_iff unat_word_ariths page_of_def unat_drop_div)
  have off: "pa + PAGE_SIZE + 4096 * (x - page_of (va + PAGE_SIZE)) = pa + 4096 * (x - page_of va)" for x
    unfolding sub by (simp add: PAGE_SIZE_def algebra_simps)
  show ?thesis
  proof
    fix v
    show "range_view (va + PAGE_SIZE) (pa + PAGE_SIZE) n
        (\<lambda>v. if page_of v = page_of va then Some (PTE_ADDR pa OR PAGE_OFFSET v) else T v) v =
      range_view va pa (Suc n) T v"
    proof (cases "page_of v = page_of va")
      case False
      then have "unat (page_of v) \<noteq> unat (page_of va)" by (simp add: word_unat_eq_iff)
      then show ?thesis using False by (auto simp: range_view_def p(3) off simp del: right_diff_distrib_numeral)
    qed (simp add: range_view_def p(3))
  qed
qed

lemma map_pages_spec:
  assumes "vm_wf s" "flags < 4096" "flags AND PTE_PRESENT \<noteq> 0" and "aligned va"
    and "unat va + 4096 * (unat pages - unat i) \<le> 2 ^ 32"
    and "\<forall>v. unat va \<le> unat v \<and> unat v < unat va + 4096 * (unat pages - unat i) \<longrightarrow>
      \<not> large_pde (pde (pmem s) (active_pd s) (PDE_INDEX v))"
  shows "\<exists>r t. map_pages i pages va pa flags s = Some (r, t) \<and> vm_wf t \<and>
    (r = 0 \<and> translation t = range_view va pa (unat pages - unat i) (translation s) \<or>
     r = - 1 \<and> (\<exists>k < unat pages - unat i. translation t = range_view va pa k (translation s)))"
  using assms
proof (induction i pages va pa flags s rule: map_pages.induct)
  case (1 i pages va pa flags s)
  show ?case
  proof (cases "i < pages")
    case False
    then have "unat pages - unat i = 0" by (simp add: word_less_nat_alt)
    with False "1.prems"(1) show ?thesis by (simp add: map_pages.simps [of i] range_view_0)
  next
    case True
    define n where "n = unat pages - unat (i + 1)"
    have n: "unat pages - unat i = Suc n"
      using True unat_Suc_less [OF True] by (simp add: n_def word_less_nat_alt)
    have step: "n \<noteq> 0 \<Longrightarrow> unat va + 4096 < 2 ^ 32" using "1.prems"(5) unfolding n by (cases n) auto
    have "\<not> large_pde (pde (pmem s) (active_pd s) (PDE_INDEX va))" using "1.prems"(6) unfolding n by simp
    from map_page_spec [OF "1.prems"(1) this "1.prems"(2,3), of pa]
    obtain r t where mp: "vmm_map_page va pa flags s = Some (r, t)" and wf: "vm_wf t"
      and lg: "\<forall>i < 1024. large_pde (pde (pmem t) (active_pd t) i) = large_pde (pde (pmem s) (active_pd s) i)"
      and tr: "if r = 0 then translation t = (\<lambda>v. if page_of v = page_of va then Some (PTE_ADDR pa OR PAGE_OFFSET v)
          else translation s v) else r = - 1 \<and> translation t = translation s"
      by (auto split: if_splits)
    show ?thesis
    proof (cases "r = 0")
      case False
      with True mp wf tr n show ?thesis by (auto simp: map_pages.simps [of i] range_view_0 intro!: exI [of _ 0])
    next
      case r0: True
      show ?thesis
      proof (cases "n = 0")
        case True
        then have "map_pages (i + 1) pages (va + PAGE_SIZE) (pa + PAGE_SIZE) flags t = Some (0, t)"
          by (simp add: map_pages.simps [of "i + 1"] n_def word_less_nat_alt)
        moreover have "translation t = range_view va pa 1 (translation s)"
          using range_view_step [OF "1.prems"(4), of 0 pa "translation s"] tr r0 by (simp add: range_view_0)
        ultimately show ?thesis using \<open>i < pages\<close> mp wf r0 n True by (simp add: map_pages.simps [of i])
      next
        case False
        note p = page_of_add [OF "1.prems"(4) step [OF False]]
        have big: "\<forall>v. unat (va + PAGE_SIZE) \<le> unat v \<and> unat v < unat (va + PAGE_SIZE) + 4096 * n \<longrightarrow>
            \<not> large_pde (pde (pmem t) (active_pd t) (PDE_INDEX v))"
          using "1.prems"(6) lg by (simp add: n p(1))
        have "unat (va + PAGE_SIZE) + 4096 * n \<le> 2 ^ 32" using "1.prems"(5) by (simp add: n p(1))
        from "1.IH" [OF True mp _ _ wf "1.prems"(2,3) p(2)] this big
        obtain r' u where u: "map_pages (i + 1) pages (va + PAGE_SIZE) (pa + PAGE_SIZE) flags t = Some (r', u)" "vm_wf u"
          "r' = 0 \<and> translation u = range_view (va + PAGE_SIZE) (pa + PAGE_SIZE) n (translation t) \<or>
           r' = - 1 \<and> (\<exists>k < n. translation u = range_view (va + PAGE_SIZE) (pa + PAGE_SIZE) k (translation t))"
          using r0 by (auto simp: n_def)
        have "range_view (va + PAGE_SIZE) (pa + PAGE_SIZE) k (translation t) = range_view va pa (Suc k) (translation s)" for k
          using range_view_step [OF "1.prems"(4) step [OF False], where n = k and pa = pa and T = "translation s"] tr r0 by simp
        with u True mp r0 n show ?thesis by (auto simp: map_pages.simps [of i])
      qed
    qed
  qed
qed

section \<open>Translation by software\<close>

lemma virt_to_phys_spec:
  assumes wf: "vm_wf s" and nl: "\<not> large_pde (pde (pmem s) (active_pd s) (PDE_INDEX va))"
  shows "vmm_virt_to_phys va s = Some (case translation s va of None \<Rightarrow> 0 | Some pa \<Rightarrow> pa)"
proof -
  have cr: "read_cr3 s AND 0xFFFFF000 = active_pd s" by (simp add: read_cr3_def active_pd_def)
  note rd = pde_access [OF wf, of va]
  show ?thesis
  proof (cases "table_pde (pde (pmem s) (active_pd s) (PDE_INDEX va))")
    case False
    then have "pde (pmem s) (active_pd s) (PDE_INDEX va) AND PTE_PRESENT = 0"
      using nl by (auto simp: table_pde_def large_pde_def)
    then show ?thesis using rd
      by (simp add: vmm_virt_to_phys_def cr translation_def hw_walk_pde table_pde_def large_pde_def)
  next
    case True
    then show ?thesis using rd table_access(1) [OF wf True]
      by (simp add: vmm_virt_to_phys_def cr translation_def hw_walk_pde Let_def page_entry_def
          table_pde_def large_pde_def)
  qed
qed

section \<open>User directories\<close>

lemma copy_entry_spec:
  assumes "direct s" "aligned p" "in_direct p" "p \<notin> insert (active_pd s) (tables (pmem s) (active_pd s))"
    and "aligned q" "in_direct q" "q \<noteq> p" "same_except p (pmem s) m" "j < 1024"
  shows "copy_entry (phys_to_virt q) (phys_to_virt p) j (s\<lparr>pmem := m\<rparr>) =
    Some (s\<lparr>pmem := wr32 m (unat (entry_at p j)) (pde (pmem s) q j)\<rparr>)"
proof -
  note d = direct_same [OF assms(1,8,4)]
  have "rd32 m (unat (entry_at q j)) = pde (pmem s) q j"
    using same_except_pde [OF assms(8,5) _ assms(9)] assms(7) by (auto simp: pde_def)
  then show ?thesis
    using direct_access(1) [OF d assms(5,6,9)] write_entry [OF assms(1-4,8,9)] by (simp add: copy_entry_def)
qed

text \<open>The directory that a process gets: the entries of the kernel and the first 4 MB, and nothing else.\<close>

definition user_pd_entry :: "mem \<Rightarrow> u32 \<Rightarrow> u32 \<Rightarrow> u32" where
  "user_pd_entry m pd i = (if i = 0 \<or> KERNEL_VBASE_PDE \<le> i then pde m pd i else 0)"

lemma create_user_pd_fill:
  assumes "direct s" "aligned p" "in_direct p" "p \<notin> insert (active_pd s) (tables (pmem s) (active_pd s))"
    and "current_pd_phys s = active_pd s" "in_direct (active_pd s)"
  defines "f1 \<equiv> wforo 1 KERNEL_VBASE_PDE (\<lambda>i. vwrite (entry_at (phys_to_virt p) i) 0)"
    and "f2 \<equiv> copy_entry (phys_to_virt (active_pd s)) (phys_to_virt p) 0"
    and "f3 \<equiv> wforo KERNEL_VBASE_PDE PAGE_ENTRIES (copy_entry (phys_to_virt (active_pd s)) (phys_to_virt p))"
  shows "\<exists>m. (f1 s \<bind> (\<lambda>s. f2 s \<bind> f3)) = Some (s\<lparr>pmem := m\<rparr>) \<and> same_except p (pmem s) m \<and>
    (\<forall>i < 1024. pde m p i = user_pd_entry (pmem s) (active_pd s) i)"
proof -
  let ?pd = "active_pd s"
  have ne: "?pd \<noteq> p" using assms(4) by auto
  note cp = copy_entry_spec [OF assms(1-4) aligned_active assms(6) ne]
  have "vwrite (entry_at (phys_to_virt p) j) 0 (s\<lparr>pmem := m\<rparr>) = Some (s\<lparr>pmem := wr32 m (unat (entry_at p j)) 0\<rparr>)"
    if "j < KERNEL_VBASE_PDE" "same_except p (pmem s) m" for j m
    using that by (intro write_entry [OF assms(1-4)]) (simp_all add: KERNEL_VBASE_PDE_def word_less_nat_alt)
  then obtain m1 where m1: "f1 s = Some (s\<lparr>pmem := m1\<rparr>)" "same_except p (pmem s) m1"
    "\<forall>k < 1024. 1 \<le> k \<and> k < KERNEL_VBASE_PDE \<longrightarrow> rd32 m1 (unat (entry_at p k)) = 0"
    using fill_page [OF assms(2), of 1 KERNEL_VBASE_PDE "pmem s" "pmem s" "\<lambda>i. vwrite (entry_at (phys_to_virt p) i) 0" s "\<lambda>_. 0"]
    by (auto simp: f1_def KERNEL_VBASE_PDE_def)
  define m2 where "m2 = wr32 m1 (unat (entry_at p 0)) (pde (pmem s) ?pd 0)"
  have m2: "f2 (s\<lparr>pmem := m1\<rparr>) = Some (s\<lparr>pmem := m2\<rparr>)" "same_except p (pmem s) m2"
    using cp [OF m1(2), of 0] same_except_wr [OF assms(2) _ m1(2), of 0] by (simp_all add: f2_def m2_def)
  have r2: "rd32 m2 (unat (entry_at p k)) = (if k = 0 then pde (pmem s) ?pd 0 else rd32 m1 (unat (entry_at p k)))"
    if "k < 1024" for k
    using that by (simp add: m2_def rd_entry_wr [OF assms(2,2)])
  obtain m3 where m3: "f3 (s\<lparr>pmem := m2\<rparr>) = Some (s\<lparr>pmem := m3\<rparr>)" "same_except p (pmem s) m3"
    "\<forall>k < 1024. rd32 m3 (unat (entry_at p k)) = (if KERNEL_VBASE_PDE \<le> k then pde (pmem s) ?pd k else rd32 m2 (unat (entry_at p k)))"
    using fill_page [OF assms(2) _ _ m2(2), of KERNEL_VBASE_PDE PAGE_ENTRIES
        "copy_entry (phys_to_virt ?pd) (phys_to_virt p)" s "pde (pmem s) ?pd"] cp
    by (auto simp: f3_def KERNEL_VBASE_PDE_def PAGE_ENTRIES_def)
  have "pde m3 p i = user_pd_entry (pmem s) ?pd i" if i: "i < 1024" for i
  proof -
    have "i \<noteq> 0 \<Longrightarrow> 1 \<le> i" by (simp add: word_le_nat_alt unat_gt_0 Suc_le_eq)
    then show ?thesis using m3(3) r2 [OF i] m1(3) i
      by (auto simp: user_pd_entry_def pde_def not_le KERNEL_VBASE_PDE_def)
  qed
  then show ?thesis using m1(1) m2(1) m3 by (intro exI [of _ m3]) simp
qed

lemma PDE_INDEX_kernel: "KERNEL_VBASE_PDE \<le> PDE_INDEX va \<longleftrightarrow> KERNEL_VBASE \<le> va"
proof -
  have "768 \<le> unat va div 4194304 \<longleftrightarrow> 3221225472 \<le> unat va" by (simp add: less_eq_div_iff_mult_less_eq)
  then show ?thesis
    by (simp add: zconst word_le_nat_alt index_take_bit unat_drop_div)
qed

lemma user_pd_walk:
  assumes "\<forall>i < 1024. pde m' p i = user_pd_entry m pd i"
    and "\<And>q i. q \<in> tables m pd \<Longrightarrow> i < 1024 \<Longrightarrow> rd32 m' (unat (entry_at q i)) = rd32 m (unat (entry_at q i))"
  shows "hw_walk m' p va = (if PDE_INDEX va = 0 \<or> KERNEL_VBASE \<le> va then hw_walk m pd va else None)"
    and "tables m' p \<subseteq> tables m pd" and "tables_distinct m pd \<Longrightarrow> tables_distinct m' p"
    and "kernel_mapped m pd \<Longrightarrow> kernel_mapped m' p"
proof -
  have z: "\<not> table_pde 0" "\<not> large_pde 0" by (simp_all add: table_pde_def large_pde_def)
  have "pde m' p i = pde m pd i" if "i < 1024" "table_pde (pde m' p i)" for i
    using that assms(1) z by (auto simp: user_pd_entry_def split: if_splits)
  then show "tables m' p \<subseteq> tables m pd" "tables_distinct m pd \<Longrightarrow> tables_distinct m' p"
    unfolding tables_def tables_distinct_def by fastforce+
  have "KERNEL_VBASE_PDE \<le> KERNEL_VBASE_PDE + i" if "i < 32" for i
    using that by (simp add: KERNEL_VBASE_PDE_def word_less_nat_alt word_le_nat_alt unat_word_ariths)
  then show "kernel_mapped m pd \<Longrightarrow> kernel_mapped m' p"
    using assms(1) KERNEL_index by (simp add: kernel_mapped_def user_pd_entry_def)
  have e: "pde m' p (PDE_INDEX va) = user_pd_entry m pd (PDE_INDEX va)" using assms(1) by simp
  show "hw_walk m' p va = (if PDE_INDEX va = 0 \<or> KERNEL_VBASE \<le> va then hw_walk m pd va else None)"
  proof (cases "PDE_INDEX va = 0 \<or> KERNEL_VBASE \<le> va")
    case True
    then have e': "pde m' p (PDE_INDEX va) = pde m pd (PDE_INDEX va)"
      using e PDE_INDEX_kernel by (simp add: user_pd_entry_def)
    show ?thesis
    proof (cases "table_pde (pde m pd (PDE_INDEX va))")
      case True
      then have "PTE_ADDR (pde m pd (PDE_INDEX va)) \<in> tables m pd" by (auto simp: tables_def)
      from assms(2) [OF this PTE_INDEX_less] show ?thesis
        using \<open>PDE_INDEX va = 0 \<or> KERNEL_VBASE \<le> va\<close> by (simp add: hw_walk_pde e' Let_def)
    qed (use True in \<open>auto simp: hw_walk_pde e' Let_def\<close>)
  next
    case False
    then show ?thesis using e z PDE_INDEX_kernel by (simp add: hw_walk_pde user_pd_entry_def)
  qed
qed

lemma create_user_pd_spec:
  assumes wf: "vm_wf s" and cur: "current_pd_phys s = active_pd s"
  shows "\<exists>a t. vmm_create_user_pd s = Some (a, t) \<and> vm_wf t \<and> active_pd t = active_pd s \<and>
    cr3 t = cr3 s \<and> tlb t = tlb s \<and> translation t = translation s \<and> highest_page t = highest_page s \<and>
    vmm.more t = vmm.more s \<and> current_pd_phys t = current_pd_phys s \<and>
    (if frames s = {} then a = 0 \<and> frames t = {}
     else a \<noteq> 0 \<and> aligned a \<and> in_direct a \<and> addr_to_pfn a \<in> frames s \<and> frames t = frames s - {addr_to_pfn a} \<and>
       a \<notin> insert (active_pd s) (tables (pmem s) (active_pd s)) \<and> same_except a (pmem s) (pmem t) \<and>
       (\<forall>i < 1024. pde (pmem t) a i = user_pd_entry (pmem s) (active_pd s) i))"
proof -
  let ?pd = "active_pd s"
  obtain a u where al: "pmm_alloc_page NUMA_NODE_LOCAL s = (a, u)" by fastforce
  note keep = alloc_keeps_vm [OF al]
  have act: "active_pd u = ?pd" by (simp add: active_pd_def keep)
  have diru: "direct u" using vm_wf_facts(2) [OF wf] by (simp add: direct_def tlb_coherent_def keep act)
  note res = alloc_page_result [OF vm_wf_facts(1) [OF wf], of NUMA_NODE_LOCAL, unfolded al page_result_def, simplified]
  show ?thesis
  proof (cases "frames s = {}")
    case True
    then have "a = 0" "frames u = {}" "pmm_wf u" using res by simp_all
    moreover have "vm_wf u" using wf diru calculation by (simp add: vm_wf_def act keep)
    ultimately show ?thesis
      using al True by (simp add: vmm_create_user_pd_def act keep translation_def fun_eq_iff)
  next
    case False
    then obtain q where q: "q \<in> frames s" "a = pfn_to_addr q" "a \<noteq> 0" "frames u = frames s - {q}"
      and pu: "pmm_wf u" using res by auto
    note fresh = fresh_frame [OF wf q(1), folded q(2)]
    have fr: "a \<notin> insert (active_pd u) (tables (pmem u) (active_pd u))" using fresh(2) by (simp add: act keep)
    obtain m where m: "same_except a (pmem s) m" "\<forall>i < 1024. pde m a i = user_pd_entry (pmem s) ?pd i"
      and run: "vmm_create_user_pd s = Some (a, u\<lparr>pmem := m\<rparr>)"
      using create_user_pd_fill [OF diru _ fresh(1) fr] vm_wf_facts(4) [OF wf] q al cur
      by (auto simp: act keep vmm_create_user_pd_def bind_eq_Some_conv split: bind_splits)
    let ?t = "u\<lparr>pmem := m\<rparr>"
    have dt: "direct ?t" using direct_same [OF diru _ fr] m(1) keep(1) by simp
    note w = same_except_walk [OF m(1) aligned_active fresh(2)]
    have pdes: "pde m ?pd i = pde (pmem s) ?pd i" if "i < 1024" for i
      using same_except_pde [OF m(1) aligned_active _ that] fresh(2) by auto
    have tb: "tables m ?pd = tables (pmem s) ?pd" unfolding tables_def using pdes by (metis (no_types, lifting))
    have "tables_distinct m ?pd" using vm_wf_facts(6) [OF wf] by (simp add: tables_distinct_def pdes)
    then have "vm_wf ?t" using wf dt pu q(4) by (simp add: vm_wf_def act tb)
    moreover have "translation ?t = translation s" by (simp add: translation_def act w fun_eq_iff)
    ultimately show ?thesis using run m q fresh False by (simp add: act keep)
  qed
qed

text \<open>
  Switching to such a directory. Loading CR3 keeps the global translations, so these must not be
  translations of user pages.
\<close>

definition globals_in_kernel :: "'a vmm_scheme \<Rightarrow> bool" where
  "globals_in_kernel s \<longleftrightarrow> (\<forall>va frame. tlb s (page_of va) = Some (frame, True) \<longrightarrow> KERNEL_VBASE \<le> va)"

lemma switch_user_pd:
  assumes wf: "vm_wf s" and cur: "current_pd_phys s = active_pd s" and g: "globals_in_kernel s"
    and run: "vmm_create_user_pd s = Some (a, t)" and "frames s \<noteq> {}"
  shows "vm_wf (vmm_switch_pd a t)" "active_pd (vmm_switch_pd a t) = a"
    "current_pd_phys (vmm_switch_pd a t) = a"
    "translation (vmm_switch_pd a t) va =
      (if PDE_INDEX va = 0 \<or> KERNEL_VBASE \<le> va then translation s va else None)"
proof -
  let ?pd = "active_pd s" and ?t = "vmm_switch_pd a t"
  have c: "vm_wf t" "cr3 t = cr3 s" "tlb t = tlb s" "active_pd t = ?pd"
    "aligned a" "in_direct a" "frames t = frames s - {addr_to_pfn a}"
    "a \<notin> insert ?pd (tables (pmem s) ?pd)" and se: "same_except a (pmem s) (pmem t)"
    and e: "\<forall>i < 1024. pde (pmem t) a i = user_pd_entry (pmem s) ?pd i"
    using create_user_pd_spec [OF wf cur] run assms(5) by auto
  show act: "active_pd ?t = a"
    using c(5) by (simp add: vmm_switch_pd_def write_cr3_def active_pd_def aligned_def PTE_ADDR_def)
  show "current_pd_phys ?t = a" by (simp add: vmm_switch_pd_def write_cr3_def)
  have rd: "rd32 (pmem t) (unat (entry_at q i)) = rd32 (pmem s) (unat (entry_at q i))"
    if "q \<in> tables (pmem s) ?pd" "i < 1024" for q i
    using that c(8) se unfolding same_except_def tables_def by auto
  note w = user_pd_walk [OF e rd]
  have m: "pmem ?t = pmem t" and fr: "frames ?t = frames t" "pmm_wf ?t = pmm_wf t"
    by (simp_all add: vmm_switch_pd_def write_cr3_def pmm_wf_def frames_def pmm_topology_def node_count_ok_def node_frames_def)
  show tr: "translation ?t va = (if PDE_INDEX va = 0 \<or> KERNEL_VBASE \<le> va then translation s va else None)"
    by (simp add: translation_def act m w(1))
  have "tlb_coherent ?t"
    unfolding tlb_coherent_def act m
  proof (intro allI impI)
    fix va frame gl assume "tlb ?t (page_of va) = Some (frame, gl)"
    then have "tlb s (page_of va) = Some (frame, True)"
      by (auto simp: vmm_switch_pd_def write_cr3_def c(3) split: option.splits prod.splits bool.splits)
    then have "KERNEL_VBASE \<le> va" "\<exists>g'. hw_walk (pmem s) ?pd va = Some (push_bit 12 frame OR PAGE_OFFSET va, g')"
      using g vm_wf_facts(3) [OF wf] unfolding globals_in_kernel_def tlb_coherent_def by blast+
    then show "\<exists>g'. hw_walk (pmem t) a va = Some (push_bit 12 frame OR PAGE_OFFSET va, g')" by (simp add: w(1))
  qed
  moreover have "kernel_mapped (pmem t) a"
    using w(4) vm_wf_facts(2) [OF wf] by (simp add: direct_def)
  moreover have "\<forall>q \<in> insert a (tables (pmem t) a). in_direct q \<and> addr_to_pfn q \<notin> frames t"
    using w(2) wf c(6,7) unfolding vm_wf_def by auto
  moreover have "a \<notin> tables (pmem t) a" using w(2) c(8) by blast
  ultimately show "vm_wf ?t"
    using c(1) w(3) vm_wf_facts(6) [OF wf] by (simp add: vm_wf_def direct_def act m fr)
qed

section \<open>Releasing a directory\<close>

lemma free_page_set:
  assumes "pmm_wf s" "256 \<le> addr_to_pfn p"
  shows "pmm_wf (pmm_free_page p s)"
    "frames (pmm_free_page p s) = frames s \<union> ({addr_to_pfn p} \<inter> {..highest_page s})"
  using assms free_page_noop [of s p] free_page_wf [OF assms]
  by (cases "addr_to_pfn p \<le> highest_page s"; cases "addr_to_pfn p \<in> frames s"; auto)+

lemma free_page_keeps [simp]:
  "pmem (pmm_free_page p s) = pmem s" "cr3 (pmm_free_page p s) = cr3 s" "tlb (pmm_free_page p s) = tlb s"
  "highest_page (pmm_free_page p s) = highest_page s"
  by (simp_all add: pmm_free_page_def Let_def)

text \<open>The physical pages that the user half of a directory names: tables and mapped pages.\<close>

definition page_list :: "mem \<Rightarrow> u32 \<Rightarrow> u32 \<Rightarrow> u32 set" where
  "page_list m pt n = {PTE_ADDR (pde m pt j) |j. j < n \<and> pde m pt j AND PTE_PRESENT \<noteq> 0}"

definition user_pages :: "mem \<Rightarrow> u32 \<Rightarrow> u32 \<Rightarrow> u32 set" where
  "user_pages m pd n = (\<Union>i\<in>{i. i < n \<and> table_pde (pde m pd i)}.
     insert (PTE_ADDR (pde m pd i)) (page_list m (PTE_ADDR (pde m pd i)) 1024))"

text \<open>A state that differs from \<open>s\<close> only in that the pages \<open>A\<close> were freed.\<close>

definition freed :: "'a vmm_scheme \<Rightarrow> u32 set \<Rightarrow> 'a vmm_scheme \<Rightarrow> bool" where
  "freed s A t \<longleftrightarrow> pmm_wf t \<and> pmem t = pmem s \<and> cr3 t = cr3 s \<and> tlb t = tlb s \<and> highest_page t = highest_page s \<and>
     frames t = frames s \<union> (addr_to_pfn ` A \<inter> {..highest_page s})"

lemma freed_step: "freed s A t \<Longrightarrow> 256 \<le> addr_to_pfn p \<Longrightarrow> freed s (insert p A) (pmm_free_page p t)"
  using free_page_set [of t p] by (auto simp: freed_def)

lemma freed_direct: "freed s A t \<Longrightarrow> direct t = direct s"
  by (simp add: freed_def direct_def tlb_coherent_def active_pd_def)

lemma less_Suc_word: "j < (n :: u32) \<Longrightarrow> k < j + 1 \<longleftrightarrow> k = j \<or> k < j"
  using unat_Suc_less [of j n] by (auto simp: word_less_nat_alt word_unat_eq_iff)

lemma page_list_step:
  "j < 1024 \<Longrightarrow> page_list m pt (j + 1) =
     (if pde m pt j AND PTE_PRESENT \<noteq> 0 then insert (PTE_ADDR (pde m pt j)) else id) (page_list m pt j)"
  by (auto simp: page_list_def less_Suc_word)

lemma user_pages_step:
  "j < 768 \<Longrightarrow> user_pages m pd (j + 1) =
     (if table_pde (pde m pd j)
      then insert (PTE_ADDR (pde m pd j)) (page_list m (PTE_ADDR (pde m pd j)) 1024) else {}) \<union> user_pages m pd j"
  by (auto simp: user_pages_def less_Suc_word)

lemma free_table_pages:
  assumes "direct s" "freed s A t" "aligned pt" "in_direct pt"
    and high: "\<forall>p \<in> page_list (pmem s) pt 1024. 256 \<le> addr_to_pfn p"
  shows "\<exists>u. wforo 0 PAGE_ENTRIES (free_mapped (phys_to_virt pt)) t = Some u \<and>
    freed s (page_list (pmem s) pt 1024 \<union> A) u"
proof -
  have "\<exists>u. wforo 0 PAGE_ENTRIES (free_mapped (phys_to_virt pt)) t = Some u \<and>
      freed s (page_list (pmem s) pt PAGE_ENTRIES \<union> A) u"
  proof (rule wforo_rule [where P = "\<lambda>j u. freed s (page_list (pmem s) pt j \<union> A) u"])
    show "freed s (page_list (pmem s) pt 0 \<union> A) t" using assms(2) by (simp add: page_list_def)
    fix j u assume "j < PAGE_ENTRIES" and f: "freed s (page_list (pmem s) pt j \<union> A) u"
    then have j: "j < 1024" by (simp add: PAGE_ENTRIES_def)
    have "direct u" using freed_direct [OF f] assms(1) by simp
    from direct_access(1) [OF this assms(3,4) j] have rd: "vread (entry_at (phys_to_virt pt) j) u = Some (pde (pmem s) pt j)"
      using f by (simp add: freed_def pde_def)
    have "256 \<le> addr_to_pfn (PTE_ADDR (pde (pmem s) pt j))" if "pde (pmem s) pt j AND PTE_PRESENT \<noteq> 0"
      using high that j by (auto simp: page_list_def)
    then show "\<exists>v. free_mapped (phys_to_virt pt) j u = Some v \<and> freed s (page_list (pmem s) pt (j + 1) \<union> A) v"
      using f freed_step [OF f, of "PTE_ADDR (pde (pmem s) pt j)"] rd j
      by (auto simp: free_mapped_def page_list_step)
  qed simp
  then show ?thesis by (simp add: PAGE_ENTRIES_def)
qed

lemma destroy_user_pd_spec:
  assumes dir: "direct s" and wf: "pmm_wf s" and pd: "aligned pd" "in_direct pd"
    and tabs: "\<forall>i < 768. table_pde (pde (pmem s) pd i) \<longrightarrow> in_direct (PTE_ADDR (pde (pmem s) pd i))"
    and high: "\<forall>p \<in> insert pd (user_pages (pmem s) pd 768). 256 \<le> addr_to_pfn p"
  shows "\<exists>t. vmm_destroy_user_pd pd s = Some t \<and> freed s (insert pd (user_pages (pmem s) pd 768)) t"
proof -
  let ?U = "\<lambda>n. user_pages (pmem s) pd n"
  have "\<exists>u. wforo 0 KERNEL_VBASE_PDE (destroy_entry (phys_to_virt pd)) s = Some u \<and> freed s (?U KERNEL_VBASE_PDE) u"
  proof (rule wforo_rule [where P = "\<lambda>j u. freed s (?U j) u"])
    show "freed s (?U 0) s" using wf by (simp add: freed_def user_pages_def)
    fix j u assume "j < KERNEL_VBASE_PDE" and f: "freed s (?U j) u"
    then have j: "j < 768" "j < 1024" by (simp_all add: KERNEL_VBASE_PDE_def word_less_nat_alt)
    let ?e = "pde (pmem s) pd j"
    have "direct u" using freed_direct [OF f] dir by simp
    from direct_access(1) [OF this pd j(2)] have rd: "vread (entry_at (phys_to_virt pd) j) u = Some ?e"
      using f by (simp add: freed_def pde_def)
    show "\<exists>v. destroy_entry (phys_to_virt pd) j u = Some v \<and> freed s (?U (j + 1)) v"
    proof (cases "table_pde ?e")
      case False
      then show ?thesis using rd f user_pages_step [OF j(1)] by (auto simp: destroy_entry_def table_pde_def)
    next
      case True
      then have sub: "insert (PTE_ADDR ?e) (page_list (pmem s) (PTE_ADDR ?e) 1024) \<subseteq> ?U 768"
        using j by (auto simp: user_pages_def)
      then have h: "256 \<le> addr_to_pfn (PTE_ADDR ?e)" "\<forall>p \<in> page_list (pmem s) (PTE_ADDR ?e) 1024. 256 \<le> addr_to_pfn p"
        using high by auto
      obtain v where v: "wforo 0 PAGE_ENTRIES (free_mapped (phys_to_virt (PTE_ADDR ?e))) u = Some v"
        "freed s (page_list (pmem s) (PTE_ADDR ?e) 1024 \<union> ?U j) v"
        using free_table_pages [OF dir f aligned_PTE_ADDR _ h(2)] tabs j True by blast
      have "freed s (?U (j + 1)) (pmm_free_page (PTE_ADDR ?e) v)"
        using freed_step [OF v(2) h(1)] True user_pages_step [OF j(1)] by simp
      then show ?thesis using rd v(1) True by (simp add: destroy_entry_def table_pde_def)
    qed
  qed simp
  then obtain u where u: "wforo 0 KERNEL_VBASE_PDE (destroy_entry (phys_to_virt pd)) s = Some u" "freed s (?U 768) u"
    by (auto simp: KERNEL_VBASE_PDE_def)
  then show ?thesis using freed_step [OF u(2), of pd] high by (simp add: vmm_destroy_user_pd_def)
qed

section \<open>Initialisation\<close>

definition large_identity :: "u32 \<Rightarrow> u32 \<Rightarrow> bool" where
  "large_identity i e \<longleftrightarrow> large_pde e \<and> e AND 0xFFC00000 = push_bit 22 i"

lemma walk_large:
  assumes "large_identity (drop_bit 22 x) (pde m pd (KERNEL_VBASE_PDE + drop_bit 22 x))" "unat x < 0x8000000"
  shows "map_option fst (hw_walk m pd (phys_to_virt x)) = Some x"
  using assms(1) direct_address [OF assms(2)]
  by (simp add: hw_walk_pde large_identity_def table_pde_def large_pde_def)

text \<open>
  What the boot code (\<^verbatim>\<open>boot/start.s\<close>) has set up: the directory lies in the first 4 MB, which appear at
  \<open>KERNEL_VBASE\<close> through a large page, and nothing else is mapped into the region of the direct map
  than its own frames.
\<close>

definition boot_mapped :: "'a vmm_scheme \<Rightarrow> bool" where
  "boot_mapped s \<longleftrightarrow> unat (active_pd s) < 0x400000 \<and>
     large_identity 0 (pde (pmem s) (active_pd s) KERNEL_VBASE_PDE) \<and>
     (\<forall>x. unat x < 0x8000000 \<longrightarrow> translation s (phys_to_virt x) \<in> {None, Some x}) \<and>
     tlb_coherent s \<and> active_pd s \<notin> tables (pmem s) (active_pd s) \<and>
     tables_distinct (pmem s) (active_pd s) \<and>
     (\<forall>p\<in>frames s. in_direct (pfn_to_addr p)) \<and>
     (\<forall>q \<in> insert (active_pd s) (tables (pmem s) (active_pd s)). in_direct q \<and> addr_to_pfn q \<notin> frames s)"

lemma kernel_va_cases:
  assumes "PDE_INDEX va = KERNEL_VBASE_PDE + i" "i < 32"
  obtains x where "unat x < 0x8000000" "va = phys_to_virt x" "drop_bit 22 x = i"
proof -
  have i: "unat i < 32" using assms(2) by (simp add: word_less_nat_alt)
  have q: "unat va div 4194304 = 768 + unat i"
    using arg_cong [OF assms(1), of unat] i
    by (simp add: index_take_bit unat_drop_div KERNEL_VBASE_PDE_def unat_word_ariths)
  then have b: "0xC0000000 \<le> unat va" "unat va < 0xC8000000"
    using i div_mult_mod_eq [of "unat va" 4194304] mod_less_divisor [of 4194304 "unat va"] by linarith+
  have u: "unat (va - KERNEL_VBASE) = unat va - 0xC0000000"
    using b(1) by (simp add: KERNEL_VBASE_def unat_sub word_le_nat_alt)
  show ?thesis
  proof (rule that [of "va - KERNEL_VBASE"])
    show x: "unat (va - KERNEL_VBASE) < 0x8000000" using b u by simp
    show "va = phys_to_virt (va - KERNEL_VBASE)" by (simp add: phys_to_virt_def)
    with direct_address(1) [OF x] assms(1) show "drop_bit 22 (va - KERNEL_VBASE) = i" by simp
  qed
qed

lemma init_loop:
  assumes b: "boot_mapped s"
  defines "pd \<equiv> active_pd s"
  shows "\<exists>m. wforo 0 32 (\<lambda>i. vwrite (entry_at (phys_to_virt pd) (KERNEL_VBASE_PDE + i)) (identity_pde i)) s =
      Some (s\<lparr>pmem := m\<rparr>) \<and> same_except pd (pmem s) m \<and>
    (\<forall>i < 32. pde m pd (KERNEL_VBASE_PDE + i) = identity_pde i) \<and>
    (\<forall>k < 1024. (\<forall>i < 32. k \<noteq> KERNEL_VBASE_PDE + i) \<longrightarrow> pde m pd k = pde (pmem s) pd k)"
proof -
  let ?P = "\<lambda>j t. \<exists>m. t = s\<lparr>pmem := m\<rparr> \<and> same_except pd (pmem s) m \<and>
    (\<forall>i < j. pde m pd (KERNEL_VBASE_PDE + i) = identity_pde i) \<and>
    (\<forall>k < 1024. (\<forall>i < j. k \<noteq> KERNEL_VBASE_PDE + i) \<longrightarrow> pde m pd k = pde (pmem s) pd k)"
  have al: "aligned pd" and small: "unat pd < 0x400000"
    and first: "large_identity 0 (pde (pmem s) pd KERNEL_VBASE_PDE)"
    and coh: "tlb_coherent s" using b by (simp_all add: pd_def boot_mapped_def)
  have "\<exists>u. wforo 0 32 (\<lambda>i. vwrite (entry_at (phys_to_virt pd) (KERNEL_VBASE_PDE + i)) (identity_pde i)) s = Some u \<and> ?P 32 u"
  proof (rule wforo_rule [where P = ?P])
    show "?P 0 s" by (auto intro!: exI [of _ "pmem s"])
    fix j t assume j: "j < (32 :: u32)" and "?P j t"
    then obtain m where t: "t = s\<lparr>pmem := m\<rparr>" and se: "same_except pd (pmem s) m"
      and new: "\<forall>i < j. pde m pd (KERNEL_VBASE_PDE + i) = identity_pde i"
      and old: "\<forall>k < 1024. (\<forall>i < j. k \<noteq> KERNEL_VBASE_PDE + i) \<longrightarrow> pde m pd k = pde (pmem s) pd k" by blast
    let ?k = "KERNEL_VBASE_PDE + j"
    have k: "?k < 1024" by (rule KERNEL_index [OF j])
    define x where "x = entry_at pd ?k"
    have x: "unat x < 0x400000"
      using small al k aligned_less_iff [OF al, of "0x400000"]
      by (simp add: x_def unat_entry_at word_less_nat_alt)
    then have x8: "unat x < 0x8000000" and x22: "drop_bit 22 x = 0"
      by (simp_all add: word_unat_eq_iff unat_drop_div)
    have "large_identity 0 (pde m pd KERNEL_VBASE_PDE)"
    proof (cases "0 < j")
      case True
      then have "pde m pd KERNEL_VBASE_PDE = identity_pde 0" using new by (metis add.right_neutral)
      then show ?thesis using identity_large [of 0] identity_pde_bits(3) [of 0] by (simp add: large_identity_def)
    next
      case False
      then have "j = 0" by (simp add: word_gt_0)
      then have "pde m pd KERNEL_VBASE_PDE = pde (pmem s) pd KERNEL_VBASE_PDE" using old k by simp
      then show ?thesis using first by simp
    qed
    then have wm: "map_option fst (hw_walk m pd (phys_to_virt x)) = Some x"
      using walk_large [OF _ x8, of m pd] x22 by simp
    have ws: "map_option fst (hw_walk (pmem s) pd (phys_to_virt x)) = Some x"
      using walk_large [OF _ x8, of "pmem s" pd] x22 first by simp
    have "mmu t (phys_to_virt x) = Some x"
    proof (cases "tlb s (page_of (phys_to_virt x))")
      case None
      then show ?thesis using wm by (simp add: mmu_def t page_of_def pd_def)
    next
      case (Some c)
      then show ?thesis using ws coh unfolding tlb_coherent_def
        by (cases c) (fastforce simp: mmu_def t page_of_def pd_def)
    qed
    then have w: "vwrite (entry_at (phys_to_virt pd) ?k) (identity_pde j) t =
        Some (s\<lparr>pmem := wr32 m (unat (entry_at pd ?k)) (identity_pde j)\<rparr>)"
      by (simp add: vwrite_def entry_at_virt x_def t)
    let ?m = "wr32 m (unat (entry_at pd ?k)) (identity_pde j)"
    have e: "pde ?m pd n = (if n = ?k then identity_pde j else pde m pd n)" if "n < 1024" for n
      using that k by (simp add: pde_def rd_entry_wr [OF al al])
    have "\<forall>i < j + 1. pde ?m pd (KERNEL_VBASE_PDE + i) = identity_pde i"
      using new e KERNEL_index j by (auto simp: less_Suc_word [OF j] dest: less_trans)
    moreover have "\<forall>n < 1024. (\<forall>i < j + 1. n \<noteq> KERNEL_VBASE_PDE + i) \<longrightarrow> pde ?m pd n = pde (pmem s) pd n"
      using old e by (auto simp: less_Suc_word [OF j])
    ultimately show "\<exists>u. vwrite (entry_at (phys_to_virt pd) ?k) (identity_pde j) t = Some u \<and> ?P (j + 1) u"
      using w same_except_wr [OF al k se] by blast
  qed simp
  then show ?thesis by blast
qed

lemma init_spec:
  assumes wf: "pmm_wf s" and b: "boot_mapped s"
  shows "\<exists>t. vmm_init s = Some t \<and> vm_wf t \<and> current_pd_phys t = active_pd t \<and> active_pd t = active_pd s \<and>
    frames t = frames s \<and> tlb t = tlb s \<and>
    (\<forall>k < 1024. (\<forall>i < 32. k \<noteq> KERNEL_VBASE_PDE + i) \<longrightarrow> pde (pmem t) (active_pd s) k = pde (pmem s) (active_pd s) k) \<and>
    (\<forall>va. translation t va = (if \<exists>i < 32. PDE_INDEX va = KERNEL_VBASE_PDE + i then Some (virt_to_phys va)
                              else translation s va))"
proof -
  let ?pd = "active_pd s" and ?s = "s\<lparr>current_pd_phys := active_pd s\<rparr>"
  have same: "active_pd ?s = ?pd" "pmem ?s = pmem s" "frames ?s = frames s" "pmm_wf ?s = pmm_wf s" "tlb ?s = tlb s"
    "translation ?s = translation s"
    by (simp_all add: active_pd_def frames_def pmm_wf_def pmm_topology_def node_count_ok_def node_frames_def
        translation_def fun_eq_iff)
  have b': "boot_mapped ?s" using b by (simp add: boot_mapped_def tlb_coherent_def same)
  obtain m where run: "wforo 0 32 (\<lambda>i. vwrite (entry_at (phys_to_virt ?pd) (KERNEL_VBASE_PDE + i)) (identity_pde i)) ?s =
      Some (?s\<lparr>pmem := m\<rparr>)" and se: "same_except ?pd (pmem s) m"
    and new: "\<forall>i < 32. pde m ?pd (KERNEL_VBASE_PDE + i) = identity_pde i"
    and old: "\<And>k. k < 1024 \<Longrightarrow> \<forall>i < 32. k \<noteq> KERNEL_VBASE_PDE + i \<Longrightarrow> pde m ?pd k = pde (pmem s) ?pd k"
    using init_loop [OF b'] by (auto simp: same)
  define t where "t = flightrec_log TRACE_EVT_BOOT 0 0 0xC0DE (?s\<lparr>pmem := m\<rparr>)"
  have fields: "pmem t = m" "cr3 t = cr3 s" "tlb t = tlb s" "current_pd_phys t = ?pd"
    by (simp_all add: t_def flightrec_log_def Let_def split_beta time_cycles_def time_usec_def rdtsc_def)
  have pm: "frames t = frames s" "pmm_wf t" using wf same(3,4) by (simp_all add: t_def)
  have act: "active_pd t = ?pd" by (simp add: active_pd_def fields)
  have vi: "vmm_init s = Some t"
    using run by (simp add: vmm_init_def read_cr3_def active_pd_def identity_pde_def t_def)
  have pt: "?pd \<notin> tables (pmem s) ?pd" using b by (simp add: boot_mapped_def)
  have tp: "pde m ?pd i = pde (pmem s) ?pd i" if "i < 1024" "table_pde (pde m ?pd i)" for i
  proof -
    have "\<not> table_pde (identity_pde i)" if "i < 32" for i
      using identity_large [OF that] by (simp add: table_pde_def large_pde_def)
    then have "\<forall>j < 32. i \<noteq> KERNEL_VBASE_PDE + j" using that(2) new by auto
    then show ?thesis by (rule old [OF that(1)])
  qed
  have tb: "tables m ?pd \<subseteq> tables (pmem s) ?pd" unfolding tables_def using tp by fastforce
  have td: "tables_distinct m ?pd" using b tp unfolding boot_mapped_def tables_distinct_def by (metis (no_types, lifting))
  have km: "kernel_mapped m ?pd" using new by (simp add: kernel_mapped_def)
  have other: "hw_walk m ?pd va = hw_walk (pmem s) ?pd va" if "\<forall>i < 32. PDE_INDEX va \<noteq> KERNEL_VBASE_PDE + i" for va
  proof -
    have e: "pde m ?pd (PDE_INDEX va) = pde (pmem s) ?pd (PDE_INDEX va)" using old [OF PDE_INDEX_less that] .
    have "rd32 m (unat (entry_at (PTE_ADDR (pde m ?pd (PDE_INDEX va))) (PTE_INDEX va))) =
        rd32 (pmem s) (unat (entry_at (PTE_ADDR (pde (pmem s) ?pd (PDE_INDEX va))) (PTE_INDEX va)))"
      if "table_pde (pde (pmem s) ?pd (PDE_INDEX va))"
    proof -
      have "PTE_ADDR (pde (pmem s) ?pd (PDE_INDEX va)) \<noteq> ?pd" using that pt by (auto simp: tables_def)
      then show ?thesis using se e by (simp add: same_except_def)
    qed
    then show ?thesis by (auto simp: hw_walk_pde e Let_def)
  qed
  have tr: "translation t va = (if \<exists>i < 32. PDE_INDEX va = KERNEL_VBASE_PDE + i then Some (virt_to_phys va)
      else translation s va)" for va
  proof (cases "\<exists>i < 32. PDE_INDEX va = KERNEL_VBASE_PDE + i")
    case True
    then obtain x where "unat x < 0x8000000" "va = phys_to_virt x" using kernel_va_cases by metis
    then show ?thesis using walk_direct [OF km] True
      by (simp add: translation_def act fields virt_to_phys_def phys_to_virt_def)
  next
    case False
    then show ?thesis using other by (auto simp: translation_def act fields)
  qed
  have "tlb_coherent t"
    unfolding tlb_coherent_def
  proof (intro allI impI)
    fix va frame g assume "tlb t (page_of va) = Some (frame, g)"
    then have s: "translation s va = Some (push_bit 12 frame OR PAGE_OFFSET va)"
      using b fields(3) unfolding boot_mapped_def tlb_coherent_def translation_def by fastforce
    have "translation t va = Some (push_bit 12 frame OR PAGE_OFFSET va)"
    proof (cases "\<exists>i < 32. PDE_INDEX va = KERNEL_VBASE_PDE + i")
      case True
      then obtain x where x: "unat x < 0x8000000" "va = phys_to_virt x" using kernel_va_cases by metis
      then have "translation s va = Some x" using b s unfolding boot_mapped_def by fastforce
      then show ?thesis using s tr [of va] True x by (simp add: virt_to_phys_def phys_to_virt_def)
    next
      case False
      then have "translation t va = translation s va" using tr [of va] by (auto split: if_splits)
      then show ?thesis using s by simp
    qed
    then show "\<exists>g'. hw_walk (pmem t) (active_pd t) va = Some (push_bit 12 frame OR PAGE_OFFSET va, g')"
      by (auto simp: translation_def)
  qed
  then have "vm_wf t"
    using b tb td km pm(2) unfolding vm_wf_def direct_def boot_mapped_def act fields pm(1) by blast
  then show ?thesis using vi act fields pm tr old by (intro exI [of _ t]) simp
qed

section \<open>Properties\<close>


text \<open>
  Unmapping a page returns the frame that it had, or 0, and removes exactly the translations of
  that page. After a successful mapping of an unmapped page, unmapping it returns the frame and
  restores all translations.
\<close>

theorem vmm_map_unmap_roundtrip:
  assumes "vm_wf s" and "\<not> large_pde (pde (pmem s) (active_pd s) (PDE_INDEX vaddr))"
    and "flags < 4096" "flags AND PTE_PRESENT \<noteq> 0" and "vmm_map_page vaddr paddr flags s = Some (0, t)"
    and "mmu s vaddr = None"
  shows "\<exists>u. vmm_unmap_page vaddr t = Some (PTE_ADDR paddr, u) \<and> vm_wf u \<and> mmu u = mmu s"
proof -
  from map_page_spec [OF assms(1-4), of paddr] assms(5)
  have wf: "vm_wf t" and act: "active_pd t = active_pd s"
    and lg: "\<not> large_pde (pde (pmem t) (active_pd t) (PDE_INDEX vaddr))"
    and tr: "translation t = (\<lambda>va. if page_of va = page_of vaddr then Some (PTE_ADDR paddr OR PAGE_OFFSET va) else translation s va)"
    using assms(2) by auto
  obtain u where u: "vmm_unmap_page vaddr t = Some (PTE_ADDR paddr, u)" "vm_wf u"
    "translation u = (\<lambda>va. if page_of va = page_of vaddr then None else translation t va)"
    using unmap_page_spec [OF wf lg] tr by auto
  have "translation s va = None" if "page_of va = page_of vaddr" for va
    using that assms(1,6) va_split [of va vaddr] vm_wf_mmu [OF assms(1)]
    by (auto simp: translation_def hw_walk_pde Let_def split: if_splits)
  then have "translation u = translation s" unfolding u(3) tr by auto
  then show ?thesis using u(1,2) vm_wf_mmu assms(1) by metis
qed

text \<open>
  Mapping a range maps consecutive pages to consecutive frames and nothing else; if it fails, a
  proper prefix of the range is mapped.
\<close>

theorem vmm_map_range_correct:
  fixes vaddr paddr len :: u32
  defines "va \<equiv> vaddr AND NOT (PAGE_SIZE - 1)" and "pa \<equiv> paddr AND NOT (PAGE_SIZE - 1)"
    and "n \<equiv> unat ((len + PAGE_SIZE - 1) div PAGE_SIZE)"
  assumes "vm_wf s" and "flags < 4096" "flags AND PTE_PRESENT \<noteq> 0" and "unat va + 4096 * n \<le> 2 ^ 32"
    and "\<forall>v. unat va \<le> unat v \<and> unat v < unat va + 4096 * n \<longrightarrow> \<not> large_pde (pde (pmem s) (active_pd s) (PDE_INDEX v))"
  shows "\<exists>r t. vmm_map_range vaddr paddr len flags s = Some (r, t) \<and> vm_wf t \<and>
    (r = 0 \<and> mmu t = range_view va pa n (mmu s) \<or> r = - 1 \<and> (\<exists>k < n. mmu t = range_view va pa k (mmu s)))"
proof -
  have m: "NOT (PAGE_SIZE - 1) = (0xFFFFF000 :: u32)" by (simp add: PAGE_SIZE_def)
  have al: "aligned va" unfolding va_def m by (simp add: aligned_def PTE_ADDR_def and.assoc)
  from map_pages_spec [OF assms(4-6) al, of "(len + PAGE_SIZE - 1) div PAGE_SIZE" 0 pa] assms(7,8)
  obtain r t where "vmm_map_range vaddr paddr len flags s = Some (r, t)" "vm_wf t"
    "r = 0 \<and> translation t = range_view va pa n (translation s) \<or>
     r = - 1 \<and> (\<exists>k < n. translation t = range_view va pa k (translation s))"
    by (auto simp: vmm_map_range_def va_def pa_def n_def)
  then show ?thesis using vm_wf_mmu assms(4) by metis
qed

text \<open>
  The software translation agrees with the processor on every address that is not in a large
  page, with 0 for an unmapped address.
\<close>

theorem vmm_virt_to_phys_correct:
  assumes "vm_wf s" and "\<not> large_pde (pde (pmem s) (active_pd s) (PDE_INDEX va))"
  shows "vmm_virt_to_phys va s = Some (case mmu s va of None \<Rightarrow> 0 | Some pa \<Rightarrow> pa)"
  using virt_to_phys_spec [OF assms] vm_wf_mmu [OF assms(1)] by simp

text \<open>
  In the direct map, which \<open>vmm_init\<close> builds from large pages, it does not: it takes the memory at the
  start of the large page for a page table.
\<close>

theorem vmm_virt_to_phys_large:
  assumes wf: "vm_wf s" and x: "unat x < 0x8000000"
  shows "mmu s (phys_to_virt x) = Some x \<and>
    vmm_virt_to_phys (phys_to_virt x) s =
      (let pte = pde (pmem s) (push_bit 22 (drop_bit 22 x)) (PTE_INDEX (phys_to_virt x))
       in Some (if pte AND PTE_PRESENT = 0 then 0 else PTE_ADDR pte OR PAGE_OFFSET (phys_to_virt x)))"
proof -
  let ?p = "push_bit 22 (drop_bit 22 x)"
  have cr: "read_cr3 s AND 0xFFFFF000 = active_pd s" by (simp add: read_cr3_def active_pd_def)
  note a = direct_address [OF x]
  have km: "kernel_mapped (pmem s) (active_pd s)" using vm_wf_facts(2) [OF wf] by (simp add: direct_def)
  have e: "pde (pmem s) (active_pd s) (PDE_INDEX (phys_to_virt x)) = identity_pde (drop_bit 22 x)"
    using km a(1,2) by (simp add: kernel_mapped_def)
  note id = identity_pde_bits [OF a(2)]
  have "unat ?p \<le> unat x"
    unfolding unsigned_push_bit_eq unat_drop_div by (simp add: push_bit_eq_mult take_bit_eq_mod)
  then have "in_direct ?p" "aligned ?p" using x id(4) aligned_PTE_ADDR [of "identity_pde (drop_bit 22 x)"]
    by (simp_all add: in_direct_def)
  note rd = direct_access(1) [OF vm_wf_facts(2) [OF wf] this(2,1) PTE_INDEX_less]
  have "vmm_virt_to_phys (phys_to_virt x) s =
      (let pte = pde (pmem s) ?p (PTE_INDEX (phys_to_virt x))
       in Some (if pte AND PTE_PRESENT = 0 then 0 else PTE_ADDR pte OR PAGE_OFFSET (phys_to_virt x)))"
    using pde_access [OF wf, of "phys_to_virt x"] rd id(1,4)
    by (simp add: vmm_virt_to_phys_def cr e pde_def [of _ ?p])
  moreover have "mmu s (phys_to_virt x) = Some x"
    using walk_direct [OF km x] vm_wf_mmu [OF wf] by (simp add: translation_def)
  ultimately show ?thesis by blast
qed

text \<open>
  A new user directory takes one free frame and changes no translation. Once the kernel switches
  to it, the addresses of the kernel and of the first 4 MB translate as before and no other address
  does; without a free frame the result is 0 and nothing changes.
\<close>

theorem vmm_create_user_pd_correct:
  assumes "vm_wf s" and "current_pd_phys s = active_pd s" and "globals_in_kernel s"
  shows "\<exists>a t. vmm_create_user_pd s = Some (a, t) \<and> vm_wf t \<and> mmu t = mmu s \<and>
    (if frames s = {} then a = 0
     else frames t = frames s - {addr_to_pfn a} \<and> addr_to_pfn a \<in> frames s \<and> vm_wf (vmm_switch_pd a t) \<and>
       mmu (vmm_switch_pd a t) = (\<lambda>va. if PDE_INDEX va = 0 \<or> KERNEL_VBASE \<le> va then mmu s va else None))"
proof -
  obtain a t where c: "vmm_create_user_pd s = Some (a, t)" "vm_wf t" "translation t = translation s"
    "frames s = {} \<longrightarrow> a = 0" "frames s \<noteq> {} \<longrightarrow> frames t = frames s - {addr_to_pfn a} \<and> addr_to_pfn a \<in> frames s"
    using create_user_pd_spec [OF assms(1,2)] by (metis (no_types, lifting))
  show ?thesis
  proof (cases "frames s = {}")
    case False
    note sw = switch_user_pd [OF assms(1-3) c(1) False]
    have "mmu (vmm_switch_pd a t) = (\<lambda>va. if PDE_INDEX va = 0 \<or> KERNEL_VBASE \<le> va then mmu s va else None)"
      using sw(4) vm_wf_mmu [OF sw(1)] vm_wf_mmu [OF assms(1)] by (simp add: fun_eq_iff)
    then show ?thesis using c sw(1) False vm_wf_mmu [OF c(2)] vm_wf_mmu [OF assms(1)] by auto
  qed (use c vm_wf_mmu [OF c(2)] vm_wf_mmu [OF assms(1)] in auto)
qed

text \<open>
  Destroying a directory returns the directory, its page tables and every page mapped in the
  user half to the page allocator, and nothing else; large pages and frames beyond the managed memory
  are left alone. A directory that was just created gives back exactly the frame that it took.
\<close>

theorem vmm_destroy_user_pd_correct:
  assumes "direct s" and "pmm_wf s" and "aligned pd" "in_direct pd"
    and "\<forall>i < 768. table_pde (pde (pmem s) pd i) \<longrightarrow> in_direct (PTE_ADDR (pde (pmem s) pd i))"
    and "\<forall>p \<in> insert pd (user_pages (pmem s) pd 768). 256 \<le> addr_to_pfn p"
  shows "\<exists>t. vmm_destroy_user_pd pd s = Some t \<and> pmm_wf t \<and> pmem t = pmem s \<and>
    frames t = frames s \<union> (addr_to_pfn ` insert pd (user_pages (pmem s) pd 768) \<inter> {..highest_page s})"
  using destroy_user_pd_spec [OF assms] unfolding freed_def by blast

theorem vmm_create_destroy_roundtrip:
  assumes "vm_wf s" and "current_pd_phys s = active_pd s" and "frames s \<noteq> {}"
    and "\<not> table_pde (pde (pmem s) (active_pd s) 0)"
  shows "\<exists>a t u. vmm_create_user_pd s = Some (a, t) \<and> vmm_destroy_user_pd a t = Some u \<and> frames u = frames s"
proof -
  obtain a t where c: "vmm_create_user_pd s = Some (a, t)" "vm_wf t" "highest_page t = highest_page s"
    "aligned a" "in_direct a" "addr_to_pfn a \<in> frames s" "frames t = frames s - {addr_to_pfn a}"
    "\<forall>i < 1024. pde (pmem t) a i = user_pd_entry (pmem s) (active_pd s) i"
    using create_user_pd_spec [OF assms(1,2)] assms(3) by (metis (no_types, lifting))
  have none: "\<not> table_pde (pde (pmem t) a i)" if "i < 768" for i
  proof -
    have "i < 1024" using that by (simp add: word_less_nat_alt)
    then show ?thesis using that c(8) assms(4)
      by (auto simp: user_pd_entry_def table_pde_def KERNEL_VBASE_PDE_def)
  qed
  then have "user_pages (pmem t) a 768 = {}" by (simp add: user_pages_def)
  moreover have "256 \<le> addr_to_pfn a" "addr_to_pfn a \<le> highest_page s"
    using c(6) vm_wf_facts(1) [OF assms(1)] by (auto simp: pmm_wf_def)
  ultimately obtain u where "vmm_destroy_user_pd a t = Some u" "frames u = frames t \<union> {addr_to_pfn a}"
    using destroy_user_pd_spec [OF vm_wf_facts(2,1) [OF c(2)] c(4,5)] none c(3) by (auto simp: freed_def)
  then show ?thesis using c(1,6,7) by auto
qed

text \<open>
  From the boot-time tables, \<open>vmm_init\<close> establishes the well-formed address space: the first 128 MB
  of physical memory appear at \<open>KERNEL_VBASE\<close> and every other translation is as before.
\<close>

theorem vmm_init_establishes:
  assumes "pmm_wf s" and "boot_mapped s"
  shows "\<exists>t. vmm_init s = Some t \<and> vm_wf t \<and> current_pd_phys t = active_pd t \<and>
    (\<forall>va. mmu t va = (if \<exists>i < 32. PDE_INDEX va = KERNEL_VBASE_PDE + i then Some (virt_to_phys va) else mmu s va))"
proof -
  obtain t where t: "vmm_init s = Some t" "vm_wf t" "current_pd_phys t = active_pd t"
    "\<forall>va. translation t va = (if \<exists>i < 32. PDE_INDEX va = KERNEL_VBASE_PDE + i then Some (virt_to_phys va)
       else translation s va)"
    using init_spec [OF assms] by blast
  have "mmu s = translation s" using assms(2) mmu_translation by (auto simp: boot_mapped_def)
  then show ?thesis using t vm_wf_mmu [OF t(2)] by metis
qed

text \<open>
  A page table that the allocator places outside the direct map cannot be initialised: the
  operation faults instead of returning an error.
\<close>

theorem vmm_map_page_faults:
  assumes "direct s" and "in_direct (active_pd s)"
    and "pde (pmem s) (active_pd s) (PDE_INDEX vaddr) AND PTE_PRESENT = 0"
    and "pmm_alloc_page NUMA_NODE_LOCAL s = (a, t)" "a \<noteq> 0" and "mmu s (phys_to_virt a) = None"
  shows "vmm_map_page vaddr paddr flags s = None"
proof -
  have cr: "read_cr3 s AND 0xFFFFF000 = active_pd s" by (simp add: read_cr3_def active_pd_def)
  have "mmu t = mmu s"
    using alloc_keeps_vm [OF assms(4)] by (intro ext) (simp add: mmu_def active_pd_def split: option.splits)
  then have "mmu t (entry_at (phys_to_virt a) 0) = None" using assms(6) by (simp add: entry_at_def)
  then have w: "vwrite (entry_at (phys_to_virt a) 0) 0 t = None" by (simp add: vwrite_def)
  have "wfor i n (\<lambda>i r. r \<bind> f i) None = None" for i n and f :: "u32 \<Rightarrow> 'a vmm_scheme \<Rightarrow> 'a vmm_scheme option"
    by (rule wfor_preserves [where Q = "\<lambda>r. r = None"]) simp_all
  then have "zero_table (phys_to_virt a) t = None"
    using w by (simp add: zero_table_def wforo_def wfor_step [of 0] PAGE_ENTRIES_def)
  then show ?thesis
    using direct_access(1) [OF assms(1) aligned_active assms(2) PDE_INDEX_less, of vaddr] assms(3-5)
    by (simp add: vmm_map_page_def cr ensure_table_def pde_def)
qed

section \<open>Cached translations\<close>

text \<open>The processor may cache the translation of any mapped page at any time.\<close>

definition tlb_fill :: "u32 \<Rightarrow> 'a vmm_scheme \<Rightarrow> 'a vmm_scheme" where
  "tlb_fill va s = (case hw_walk (pmem s) (active_pd s) va of
       None \<Rightarrow> s | Some (pa, g) \<Rightarrow> s\<lparr>tlb := (tlb s)(page_of va \<mapsto> (page_of pa, g))\<rparr>)"

lemma walk_page:
  assumes "hw_walk m pd va = Some (pa, g)" and "page_of vb = page_of va"
  shows "hw_walk m pd vb = Some (push_bit 12 (page_of pa) OR PAGE_OFFSET vb, g)"
proof -
  have idx: "PDE_INDEX vb = PDE_INDEX va" "PTE_INDEX vb = PTE_INDEX va" using assms(2) va_split by blast+
  have small: "push_bit 12 (page_of (PTE_ADDR e OR PAGE_OFFSET v)) OR PAGE_OFFSET vb = PTE_ADDR e OR PAGE_OFFSET vb" for e v
    unfolding PTE_ADDR_shift PAGE_OFFSET_take_bit page_of_def by (rule bit_word_eqI) (auto simp: bit_simps)
  have masks: "(0xFFC00000 :: u32) = NOT (mask 22)" "(0x3FFFFF :: u32) = mask 22" by (simp_all add: mask_eq_exp_minus_1)
  have "bit va k = bit vb k" if "12 \<le> k" "k < 22" for k
    using arg_cong [OF assms(2), of "\<lambda>w. bit w (k - 12)"] that by (simp add: page_of_def bit_simps)
  then have large: "push_bit 12 (page_of ((e AND 0xFFC00000) OR (va AND 0x3FFFFF))) OR PAGE_OFFSET vb =
      (e AND 0xFFC00000) OR (vb AND 0x3FFFFF)" for e
    unfolding masks PAGE_OFFSET_take_bit page_of_def by (intro bit_word_eqI) (auto simp: bit_simps not_less)
  show ?thesis
    using assms(1) small large by (auto simp: hw_walk_pde idx Let_def split: if_splits)
qed

lemma tlb_fill_spec:
  assumes wf: "vm_wf s"
  shows "vm_wf (tlb_fill va s)" "mmu (tlb_fill va s) = mmu s"
proof -
  show "vm_wf (tlb_fill va s)"
  proof (cases "hw_walk (pmem s) (active_pd s) va")
    case None
    then show ?thesis using wf by (simp add: tlb_fill_def)
  next
    case (Some c)
    obtain pa g where c: "c = (pa, g)" by fastforce
    let ?t = "s\<lparr>tlb := (tlb s)(page_of va \<mapsto> (page_of pa, g))\<rparr>"
    have "tlb_coherent ?t"
      unfolding tlb_coherent_def
    proof (intro allI impI)
      fix vb frame g' assume a: "tlb ?t (page_of vb) = Some (frame, g')"
      show "\<exists>g'. hw_walk (pmem ?t) (active_pd ?t) vb = Some (push_bit 12 frame OR PAGE_OFFSET vb, g')"
      proof (cases "page_of vb = page_of va")
        case True
        then show ?thesis using a walk_page [OF Some [unfolded c] True] by simp
      next
        case False
        then show ?thesis using a vm_wf_facts(3) [OF wf] by (simp add: tlb_coherent_def)
      qed
    qed
    then have "vm_wf ?t" using wf by (simp add: vm_wf_def direct_def)
    then show ?thesis by (simp add: tlb_fill_def Some c)
  qed
  show "mmu (tlb_fill va s) = mmu s"
    unfolding vm_wf_mmu [OF \<open>vm_wf (tlb_fill va s)\<close>] vm_wf_mmu [OF wf]
    by (intro ext) (simp add: translation_def tlb_fill_def split: option.splits)
qed

text \<open>The kernel and the processor acting on one address space, in any order.\<close>

inductive vm_step :: "'a vmm_scheme \<Rightarrow> 'a vmm_scheme \<Rightarrow> bool" where
  Map: "\<not> large_pde (pde (pmem s) (active_pd s) (PDE_INDEX va)) \<Longrightarrow> flags < 4096 \<Longrightarrow> flags AND PTE_PRESENT \<noteq> 0 \<Longrightarrow>
    vmm_map_page va pa flags s = Some (r, t) \<Longrightarrow> vm_step s t"
| Unmap: "\<not> large_pde (pde (pmem s) (active_pd s) (PDE_INDEX va)) \<Longrightarrow> vmm_unmap_page va s = Some (pa, t) \<Longrightarrow> vm_step s t"
| Fill: "vm_step s (tlb_fill va s)"


section \<open>Witnesses\<close>

text \<open>
  A machine as the boot code leaves it: the directory at 4 KB, its entry 768 the large page of the
  first 4 MB, two free frames at 1 MB, nothing cached.
\<close>

definition boot_vm :: vmm where
  "boot_vm = pmm.extend two_free \<lparr>pmem = wr32 (\<lambda>_. 0) (unat (entry_at 0x1000 768)) 0x83, cr3 = 0x1000,
     tlb = (\<lambda>_. None), current_pd_phys = 0\<rparr>"

lemma boot_vm_fields:
  "active_pd boot_vm = 0x1000" "tlb boot_vm = (\<lambda>_. None)" "frames boot_vm = {256, 257}" "pmm_wf boot_vm"
  "pmem boot_vm = wr32 (\<lambda>_. 0) (unat (entry_at 0x1000 768)) 0x83"
proof -
  show "frames boot_vm = {256, 257}" "pmm_wf boot_vm"
    using two_free_wf frames_two_free by (simp_all add: boot_vm_def)
  show "active_pd boot_vm = 0x1000" "tlb boot_vm = (\<lambda>_. None)"
    "pmem boot_vm = wr32 (\<lambda>_. 0) (unat (entry_at 0x1000 768)) 0x83"
    by (simp_all add: boot_vm_def active_pd_def pmm.defs)
qed

lemma boot_vm_pde: "i < 1024 \<Longrightarrow> pde (pmem boot_vm) 0x1000 i = (if i = 768 then 0x83 else 0)"
  using rd_entry_wr [of "0x1000" "0x1000" i 768 "\<lambda>_. 0" "0x83"]
  by (simp add: pde_def boot_vm_fields(5) aligned_def PTE_ADDR_def)

lemma boot_vm_mapped: "boot_mapped boot_vm"
proof -
  have z: "\<not> table_pde 0" "\<not> large_pde 0" "\<not> table_pde 0x83" by (simp_all add: table_pde_def large_pde_def PTE_PSE_def)
  have none: "tables (pmem boot_vm) 0x1000 = {}" using z by (auto simp: tables_def boot_vm_pde)
  have l: "large_identity 0 0x83" by (simp add: large_identity_def large_pde_def zconst)
  have "translation boot_vm (phys_to_virt x) \<in> {None, Some x}" if x: "unat x < 0x8000000" for x
  proof (cases "drop_bit 22 x = 0")
    case True
    then show ?thesis using walk_large [of x "pmem boot_vm" "0x1000"] x l
      by (simp add: translation_def boot_vm_fields(1) boot_vm_pde KERNEL_VBASE_PDE_def)
  next
    case False
    note a = direct_address [OF x]
    have "PDE_INDEX (phys_to_virt x) \<noteq> 768" using False a(1) by (simp add: KERNEL_VBASE_PDE_def)
    then have "pde (pmem boot_vm) 0x1000 (PDE_INDEX (phys_to_virt x)) = 0" using boot_vm_pde by simp
    then show ?thesis using z by (simp add: translation_def boot_vm_fields(1) hw_walk_pde)
  qed
  moreover have "tables_distinct (pmem boot_vm) 0x1000" using z by (auto simp: tables_distinct_def boot_vm_pde split: if_splits)
  ultimately show ?thesis
    using l none by (simp add: boot_mapped_def boot_vm_fields(1-4) boot_vm_pde KERNEL_VBASE_PDE_def
        tlb_coherent_def in_direct_def pfn_to_addr_def addr_to_pfn_def)
qed

theorem vmm_init_establishes_witness:
  "\<exists>t. vmm_init boot_vm = Some t \<and> vm_wf t \<and> mmu t 0xC7FFF123 = Some 0x7FFF123"
proof -
  obtain t where t: "vmm_init boot_vm = Some t" "vm_wf t"
    "\<forall>va. mmu t va = (if \<exists>i < 32. PDE_INDEX va = KERNEL_VBASE_PDE + i then Some (virt_to_phys va) else mmu boot_vm va)"
    using vmm_init_establishes [OF boot_vm_fields(4) boot_vm_mapped] by blast
  have "PDE_INDEX 0xC7FFF123 = KERNEL_VBASE_PDE + 31" "(31 :: u32) < 32"
    by (simp_all add: PDE_INDEX_def KERNEL_VBASE_PDE_def)
  then have "mmu t 0xC7FFF123 = Some (virt_to_phys 0xC7FFF123)" using t(3) by auto
  then show ?thesis using t by (simp add: virt_to_phys_def KERNEL_VBASE_def)
qed

text \<open>The address space that \<open>vmm_init\<close> builds there.\<close>

definition ready_vm :: vmm where "ready_vm = the (vmm_init boot_vm)"

lemma ready_vm:
  "vm_wf ready_vm" "current_pd_phys ready_vm = active_pd ready_vm" "active_pd ready_vm = 0x1000"
  "frames ready_vm = {256, 257}" "tlb ready_vm = (\<lambda>_. None)" "vmm_init boot_vm = Some ready_vm"
  and ready_vm_pde: "i < 768 \<or> 800 \<le> i \<and> i < 1024 \<Longrightarrow> pde (pmem ready_vm) (active_pd ready_vm) i = 0"
proof -
  obtain t where t: "vmm_init boot_vm = Some t" "vm_wf t" "current_pd_phys t = active_pd t" "active_pd t = 0x1000"
    "frames t = {256, 257}" "tlb t = (\<lambda>_. None)"
    "\<forall>k < 1024. (\<forall>i < 32. k \<noteq> KERNEL_VBASE_PDE + i) \<longrightarrow> pde (pmem t) 0x1000 k = pde (pmem boot_vm) 0x1000 k"
    using init_spec [OF boot_vm_fields(4) boot_vm_mapped] unfolding boot_vm_fields(1-3) by blast
  then show "vm_wf ready_vm" "current_pd_phys ready_vm = active_pd ready_vm" "active_pd ready_vm = 0x1000"
    "frames ready_vm = {256, 257}" "tlb ready_vm = (\<lambda>_. None)" "vmm_init boot_vm = Some ready_vm"
    by (simp_all add: ready_vm_def)
  show "pde (pmem ready_vm) (active_pd ready_vm) i = 0" if "i < 768 \<or> 800 \<le> i \<and> i < 1024"
  proof -
    have "i < 1024" "i \<noteq> 768" "\<forall>j < 32. i \<noteq> KERNEL_VBASE_PDE + j"
      using that by (auto simp: KERNEL_VBASE_PDE_def word_less_nat_alt word_le_nat_alt unat_word_ariths)
    then show ?thesis using t boot_vm_pde [of i] by (simp add: ready_vm_def)
  qed
qed

lemma ready_vm_tables: "tables (pmem ready_vm) (active_pd ready_vm) = {}"
proof -
  have "\<not> table_pde (pde (pmem ready_vm) (active_pd ready_vm) i)" if "i < 1024" for i
  proof (cases "i < 768 \<or> 800 \<le> i")
    case True
    then show ?thesis using that by (auto simp: ready_vm_pde table_pde_def)
  next
    case False
    then have "i - 768 < 32" "i = KERNEL_VBASE_PDE + (i - 768)"
      by (auto simp: KERNEL_VBASE_PDE_def word_less_nat_alt word_le_nat_alt unat_sub)
    then have "pde (pmem ready_vm) (active_pd ready_vm) i = identity_pde (i - 768)"
      using vm_wf_facts(2) [OF ready_vm(1)] unfolding direct_def kernel_mapped_def by metis
    then show ?thesis using identity_pde_bits(2) [OF \<open>i - 768 < 32\<close>] by (simp add: table_pde_def)
  qed
  then show ?thesis by (auto simp: tables_def)
qed

lemma ready_user:
  "\<not> large_pde (pde (pmem ready_vm) (active_pd ready_vm) (PDE_INDEX 0x40001000))" "mmu ready_vm 0x40001000 = None"
  "\<not> table_pde (pde (pmem ready_vm) (active_pd ready_vm) 0)"
proof -
  have "PDE_INDEX 0x40001000 = 256" by (simp add: PDE_INDEX_def)
  then have e: "pde (pmem ready_vm) (active_pd ready_vm) (PDE_INDEX 0x40001000) = 0" by (simp add: ready_vm_pde)
  then show "\<not> large_pde (pde (pmem ready_vm) (active_pd ready_vm) (PDE_INDEX 0x40001000))" by (simp add: large_pde_def)
  show "mmu ready_vm 0x40001000 = None"
    using e by (simp add: vm_wf_mmu [OF ready_vm(1)] translation_def hw_walk_pde table_pde_def large_pde_def)
  show "\<not> table_pde (pde (pmem ready_vm) (active_pd ready_vm) 0)" by (simp add: ready_vm_pde table_pde_def)
qed

lemma user_flags: "(7 :: u32) < 4096" "(7 :: u32) AND PTE_PRESENT \<noteq> 0"
  by (simp_all add: PTE_PRESENT_def)

lemma ready_map:
  obtains t where "vmm_map_page 0x40001000 0x5000 7 ready_vm = Some (0, t)" "vm_wf t"
proof -
  obtain r t where "vmm_map_page 0x40001000 0x5000 7 ready_vm = Some (r, t)" "vm_wf t" "r \<noteq> 0 \<longrightarrow> frames ready_vm = {}"
    using map_page_spec [OF ready_vm(1) ready_user(1) user_flags, of "0x5000"] by (auto split: if_splits)
  then show thesis using that ready_vm(4) by auto
qed


theorem vmm_map_unmap_roundtrip_witness:
  "\<exists>t u. vmm_map_page 0x40001000 0x5000 7 ready_vm = Some (0, t) \<and> vmm_unmap_page 0x40001000 t = Some (0x5000, u) \<and>
     mmu u = mmu ready_vm"
proof -
  obtain t where t: "vmm_map_page 0x40001000 0x5000 7 ready_vm = Some (0, t)" by (rule ready_map)
  have "PTE_ADDR 0x5000 = 0x5000" by (simp add: PTE_ADDR_def)
  then show ?thesis
    using vmm_map_unmap_roundtrip [OF ready_vm(1) ready_user(1) user_flags t ready_user(2)] t by auto
qed

theorem vmm_virt_to_phys_correct_witness: "vmm_virt_to_phys 0x40001000 ready_vm = Some 0"
  using vmm_virt_to_phys_correct [OF ready_vm(1) ready_user(1)] ready_user(2) by simp

theorem vmm_map_range_correct_witness:
  "\<exists>r t. vmm_map_range 0x40001000 0x5000 8192 7 ready_vm = Some (r, t) \<and> vm_wf t"
proof -
  have va: "(0x40001000 :: u32) AND NOT (PAGE_SIZE - 1) = 0x40001000" by (simp add: PAGE_SIZE_def)
  have n: "unat (((8192 :: u32) + PAGE_SIZE - 1) div PAGE_SIZE) = 2" by (simp add: PAGE_SIZE_def)
  have "\<not> large_pde (pde (pmem ready_vm) (active_pd ready_vm) (PDE_INDEX v))" if "unat v < 0x40003000" for v
  proof -
    have "unat v div 4194304 < 768" using that by (simp add: div_less_iff_less_mult)
    then have "PDE_INDEX v < 768" by (simp add: index_take_bit word_less_nat_alt unat_drop_div)
    then show ?thesis by (simp add: ready_vm_pde large_pde_def)
  qed
  then show ?thesis
    using vmm_map_range_correct [of ready_vm 7 "0x40001000" 8192 "0x5000", OF ready_vm(1) user_flags] va n by auto
qed

theorem vmm_virt_to_phys_large_witness: "mmu ready_vm (phys_to_virt 0x100000) = Some 0x100000"
  using vmm_virt_to_phys_large [OF ready_vm(1), of "0x100000"] by simp

theorem vmm_create_user_pd_correct_witness:
  "\<exists>a t. vmm_create_user_pd ready_vm = Some (a, t) \<and> addr_to_pfn a \<in> {256, 257} \<and> vm_wf (vmm_switch_pd a t)"
proof -
  have "globals_in_kernel ready_vm" by (simp add: globals_in_kernel_def ready_vm(5))
  then show ?thesis
    using vmm_create_user_pd_correct [OF ready_vm(1,2)] ready_vm(4) by auto
qed

theorem vmm_create_destroy_roundtrip_witness:
  "\<exists>a t u. vmm_create_user_pd ready_vm = Some (a, t) \<and> vmm_destroy_user_pd a t = Some u \<and> frames u = {256, 257}"
  using vmm_create_destroy_roundtrip [OF ready_vm(1,2) _ ready_user(3)] ready_vm(4) by auto


theorem vmm_destroy_user_pd_correct_witness:
  "\<exists>a t u. vmm_create_user_pd ready_vm = Some (a, t) \<and> vmm_destroy_user_pd a t = Some u \<and> pmm_wf u \<and>
     addr_to_pfn a \<in> frames u"
proof -
  obtain a t where c: "vmm_create_user_pd ready_vm = Some (a, t)" "vm_wf t" "highest_page t = highest_page ready_vm"
    "aligned a" "in_direct a" "addr_to_pfn a \<in> {256, 257}"
    "\<forall>i < 1024. pde (pmem t) a i = user_pd_entry (pmem ready_vm) (active_pd ready_vm) i"
    using create_user_pd_spec [OF ready_vm(1,2)] ready_vm(4) by (metis (no_types, lifting) insert_not_empty)
  have none: "\<not> table_pde (pde (pmem t) a i)" if i: "i < 768" for i
  proof -
    have "i < 1024" using i by (simp add: word_less_nat_alt)
    then show ?thesis using c(7) i ready_vm_pde [of i] by (auto simp: user_pd_entry_def table_pde_def KERNEL_VBASE_PDE_def)
  qed
  then have "user_pages (pmem t) a 768 = {}" by (simp add: user_pages_def)
  moreover have "addr_to_pfn a \<le> highest_page t"
    using c(3,6) vm_wf_facts(1) [OF ready_vm(1)] ready_vm(4) by (auto simp: pmm_wf_def)
  moreover have "256 \<le> addr_to_pfn a" using c(6) by auto
  ultimately show ?thesis
    using vmm_destroy_user_pd_correct [OF vm_wf_facts(2,1) [OF c(2)] c(4,5)] none c(1) by auto
qed

text \<open>A machine with more than 128 MB, on which only frame 40000 (at 156 MB) is free.\<close>

definition high_vm :: vmm where
  "high_vm = ready_vm\<lparr>page_bitmap := (\<lambda>_. 0xFF)(5000 := 0xFE), free_pages := 1, highest_page := 40000,
     numa_nodes := (\<lambda>i. if i = 0
       then \<lparr>nn_node_id = 0, nn_base_addr = 0x100000, nn_start_pfn = 256, nn_end_pfn = 20128,
             nn_total_pages = 19872, nn_free_pages = 0, nn_used_pages = 19872\<rparr>
       else \<lparr>nn_node_id = 1, nn_base_addr = 0x4EA0000, nn_start_pfn = 20128, nn_end_pfn = 40001,
             nn_total_pages = 19873, nn_free_pages = 1, nn_used_pages = 19872\<rparr>),
     numa_node_count := 2\<rparr>"

lemma frames_high: "frames high_vm = {40000}"
proof (rule set_eqI)
  fix p :: u32
  have "unat p div 8 = 5000 \<and> unat p mod 8 = 0 \<longleftrightarrow> unat p = 40000" by presburger
  moreover have "k < 8 \<Longrightarrow> bit (0xFE :: u8) k \<longleftrightarrow> k \<noteq> 0" for k
    by (simp add: numeral_eq_Suc less_Suc_eq) auto
  ultimately show "p \<in> frames high_vm \<longleftrightarrow> p \<in> {40000}"
    using bit_FF [of "unat p mod 8"]
    by (auto simp: frames_iff high_vm_def bitmap_test_def PMM_MAX_PAGES_def word_less_nat_alt bits_test_bit word_unat_eq_iff)
qed

lemma high_wf: "pmm_wf high_vm"
proof -
  have "node_frames high_vm 0 = {}" "node_frames high_vm 1 = {40000}"
    unfolding node_frames_def frames_high by (auto simp: node_range_def high_vm_def)
  then have "node_count_ok high_vm 0" "node_count_ok high_vm 1" by (simp_all add: node_count_ok_def high_vm_def)
  then show ?thesis
    unfolding pmm_wf_def frames_high by (simp add: pmm_topology_def high_vm_def PMM_MAX_PAGES_def)
qed

theorem vmm_map_page_faults_witness: "vmm_map_page 0x40001000 0x5000 7 high_vm = None"
proof -
  obtain a t where al: "pmm_alloc_page NUMA_NODE_LOCAL high_vm = (a, t)" by fastforce
  then have a: "a = pfn_to_addr 40000" "a \<noteq> 0"
    using alloc_page_result [OF high_wf, of NUMA_NODE_LOCAL] by (auto simp: page_result_def frames_high)
  have s: "active_pd high_vm = active_pd ready_vm" "pmem high_vm = pmem ready_vm" "tlb high_vm = tlb ready_vm"
    by (simp_all add: high_vm_def active_pd_def)
  have "PDE_INDEX (phys_to_virt a) = 807" by (simp add: a pfn_to_addr_def phys_to_virt_def KERNEL_VBASE_def PDE_INDEX_def)
  moreover have "pde (pmem ready_vm) (active_pd ready_vm) 807 = 0" by (simp add: ready_vm_pde)
  ultimately have "mmu high_vm (phys_to_virt a) = None"
    by (simp add: mmu_def s ready_vm(5) hw_walk_pde table_pde_def large_pde_def)
  moreover have "direct high_vm" "in_direct (active_pd high_vm)"
    using vm_wf_facts(2,4) [OF ready_vm(1)] by (simp_all add: direct_def tlb_coherent_def s)
  moreover have "pde (pmem high_vm) (active_pd high_vm) (PDE_INDEX 0x40001000) AND PTE_PRESENT = 0"
    by (simp add: s ready_vm_pde PDE_INDEX_def)
  ultimately show ?thesis using vmm_map_page_faults [OF _ _ _ al a(2)] by blast
qed

end
