(* ===== verification/Process.thy ===== *)
theory Process
  imports Vmm
begin

text \<open>
  Processes (\<^verbatim>\<open>kernel/process.h\<close>, \<^verbatim>\<open>kernel/sched/process.c\<close>, with the
  scheduler data of \<^verbatim>\<open>kernel/sched/sched_core.c\<close>). A control block is a page of the kernel's
  direct map; its fields, the kernel stacks and the page directories are bytes of physical memory, and every
  access goes through the MMU of the virtual memory manager, so that a fault is \<open>None\<close>. The registers that
  a context switch saves and loads are part of the state; the switch itself is in theory \<open>Context_Switch\<close>.
\<close>

section \<open>State\<close>

definition PROCESS_STATE_NEW :: u32 where [zconst]: "PROCESS_STATE_NEW = 0"
definition PROCESS_STATE_READY :: u32 where [zconst]: "PROCESS_STATE_READY = 1"
definition PROCESS_STATE_RUNNING :: u32 where [zconst]: "PROCESS_STATE_RUNNING = 2"
definition PROCESS_STATE_BLOCKED :: u32 where [zconst]: "PROCESS_STATE_BLOCKED = 3"
definition PROCESS_STATE_ZOMBIE :: u32 where [zconst]: "PROCESS_STATE_ZOMBIE = 4"

text \<open>The fields of \<^verbatim>\<open>process_t\<close> are sixteen double words; \<open>P_pid\<close> and so on are their positions.\<close>

definition P_pid :: u32 where [zconst]: "P_pid = 0"
definition P_esp :: u32 where [zconst]: "P_esp = 1"
definition P_cr3 :: u32 where [zconst]: "P_cr3 = 2"
definition P_kstack_top :: u32 where [zconst]: "P_kstack_top = 3"
definition P_state :: u32 where [zconst]: "P_state = 4"
definition P_pd_virt :: u32 where [zconst]: "P_pd_virt = 6"
definition P_ticks_remaining :: u32 where [zconst]: "P_ticks_remaining = 9"
definition P_quantum_ms :: u32 where [zconst]: "P_quantum_ms = 10"
definition P_mem_pages_limit :: u32 where [zconst]: "P_mem_pages_limit = 12"
definition P_next :: u32 where [zconst]: "P_next = 15"
definition PROCESS_BYTES :: nat where [zconst]: "PROCESS_BYTES = 64"

record psys = vmm +
  pid_counter :: u32
  process_list :: u32
  current_process :: u32
  esp :: u32
  ebp :: u32
  ebx :: u32
  esi :: u32
  edi :: u32
  eip :: u32
  tss_esp0 :: u32

section \<open>Memory\<close>

definition vwrite8 :: "u32 \<Rightarrow> u8 \<Rightarrow> 'a vmm_scheme \<Rightarrow> 'a vmm_scheme option" where
  "vwrite8 va v s = map_option (\<lambda>pa. s\<lparr>pmem := wr8 (pmem s) (unat pa) v\<rparr>) (mmu s va)"

text \<open>\<open>memset\<close> of \<^verbatim>\<open>kernel/lib/string.c\<close> on virtual addresses.\<close>

fun vmemset :: "u32 \<Rightarrow> u8 \<Rightarrow> nat \<Rightarrow> 'a vmm_scheme \<Rightarrow> 'a vmm_scheme option" where
  "vmemset p c 0 s = Some s"
| "vmemset p c (Suc n) s = vwrite8 p c s \<bind> vmemset (p + 1) c n"

text \<open>A push at the stack pointer \<open>sp\<close>: \<^verbatim>\<open>*(--sp) = v\<close>.\<close>

definition stack_push :: "u32 \<Rightarrow> u32 \<times> 'a vmm_scheme \<Rightarrow> (u32 \<times> 'a vmm_scheme) option" where
  "stack_push v = (\<lambda>(sp, s). map_option (\<lambda>s. (sp - 4, s)) (vwrite (sp - 4) v s))"

section \<open>Creation and destruction\<close>

text \<open>The frame that the first switch to a process consumes; \<open>eum\<close> is the address of \<open>enter_user_mode\<close>.\<close>

definition push_trampoline :: "u32 \<Rightarrow> u32 \<Rightarrow> u32 \<Rightarrow> 'a vmm_scheme \<Rightarrow> (u32 \<times> 'a vmm_scheme) option" where
  "push_trampoline eum entry_point sp s =
     stack_push 0xBFFFF000 (sp, s) \<bind> stack_push entry_point \<bind> stack_push 0 \<bind> stack_push eum \<bind>
     stack_push 0 \<bind> stack_push 0 \<bind> stack_push 0 \<bind> stack_push 0"

text \<open>From the kernel stack on: the control block is at \<open>proc_phys\<close>, its directory at \<open>pd\<close>.\<close>

definition setup_process :: "u32 \<Rightarrow> u32 \<Rightarrow> u32 \<Rightarrow> u32 \<Rightarrow> 'a psys_scheme \<Rightarrow> (u32 \<times> 'a psys_scheme) option" where
  "setup_process eum entry_point proc_phys pd s =
     (let proc = phys_to_virt proc_phys
      in case pmm_alloc_page NUMA_NODE_LOCAL s of (kstack_phys, s) \<Rightarrow>
           if kstack_phys = 0
           then do {
             s \<leftarrow> vmm_destroy_user_pd pd s;
             Some (0, pmm_free_page proc_phys s)
           }
           else do {
             let kstack_top = phys_to_virt kstack_phys + 4096;
             s \<leftarrow> vwrite (entry_at proc P_kstack_top) kstack_top s;
             let s = vmm_switch_pd (vmm_get_current_pd s) (vmm_switch_pd pd s);
             (sp, s) \<leftarrow> push_trampoline eum entry_point kstack_top s;
             s \<leftarrow> vwrite (entry_at proc P_esp) sp s;
             s \<leftarrow> vwrite (entry_at proc P_mem_pages_limit) 256 s;
             s \<leftarrow> vwrite (entry_at proc P_quantum_ms) 50 s;
             s \<leftarrow> vwrite (entry_at proc P_ticks_remaining) 5 s;
             Some (proc, s)
           })"

definition sched_create_user_process :: "u32 \<Rightarrow> u32 \<Rightarrow> 'a psys_scheme \<Rightarrow> (u32 \<times> 'a psys_scheme) option" where
  "sched_create_user_process eum entry_point s =
     (case pmm_alloc_page NUMA_NODE_LOCAL s of (proc_phys, s) \<Rightarrow>
        if proc_phys = 0 then Some (0, s)
        else do {
          let proc = phys_to_virt proc_phys;
          s \<leftarrow> vmemset proc 0 PROCESS_BYTES s;
          s \<leftarrow> vwrite (entry_at proc P_pid) (pid_counter s) (s\<lparr>pid_counter := pid_counter s + 1\<rparr>);
          s \<leftarrow> vwrite (entry_at proc P_state) PROCESS_STATE_NEW s;
          (pd, s) \<leftarrow> vmm_create_user_pd s;
          s \<leftarrow> vwrite (entry_at proc P_cr3) pd s;
          if pd = 0 then Some (0, pmm_free_page proc_phys s)
          else do {
            s \<leftarrow> vwrite (entry_at proc P_pd_virt) (phys_to_virt pd) s;
            setup_process eum entry_point proc_phys pd s
          }
        })"

definition sched_destroy_process :: "u32 \<Rightarrow> 'a psys_scheme \<Rightarrow> 'a psys_scheme option" where
  "sched_destroy_process proc s =
     (if proc = 0 then Some s
      else do {
        kstack_top \<leftarrow> vread (entry_at proc P_kstack_top) s;
        let s = (if kstack_top \<noteq> 0 then pmm_free_page (virt_to_phys (kstack_top - 4096)) s else s);
        pd \<leftarrow> vread (entry_at proc P_cr3) s;
        s \<leftarrow> (if pd \<noteq> 0 then vmm_destroy_user_pd pd s else Some s);
        Some (pmm_free_page (virt_to_phys proc) s)
      })"

section \<open>Frames the kernel owns\<close>

text \<open>A page of the direct map that is neither free nor part of the active page tables.\<close>

definition owned :: "'a vmm_scheme \<Rightarrow> u32 \<Rightarrow> bool" where
  "owned s p \<longleftrightarrow> aligned p \<and> in_direct p \<and> p \<notin> insert (active_pd s) (tables (pmem s) (active_pd s)) \<and> addr_to_pfn p \<notin> frames s"

lemma same_except_trans: "same_except p m m' \<Longrightarrow> same_except p m' m'' \<Longrightarrow> same_except p m m''"
  by (simp add: same_except_def)

lemma same_except_tables:
  assumes "same_except p m m'" "aligned pd" "p \<noteq> pd"
  shows "tables m' pd = tables m pd" "tables_distinct m' pd = tables_distinct m pd"
  unfolding tables_def tables_distinct_def
  using same_except_pde [OF assms] by (metis (no_types, lifting))+

text \<open>Changing an owned page changes nothing else.\<close>

lemma owned_write:
  assumes wf: "vm_wf s" and o: "owned s p" and m: "same_except p (pmem s) m"
  shows "vm_wf (s\<lparr>pmem := m\<rparr>)" "translation (s\<lparr>pmem := m\<rparr>) = translation s" "owned (s\<lparr>pmem := m\<rparr>) q = owned s q"
    "tables m (active_pd s) = tables (pmem s) (active_pd s)"
    "q \<noteq> p \<Longrightarrow> aligned q \<Longrightarrow> i < 1024 \<Longrightarrow> pde m q i = pde (pmem s) q i"
proof -
  have p: "p \<notin> insert (active_pd s) (tables (pmem s) (active_pd s))" using o by (simp add: owned_def)
  then have np: "p \<noteq> active_pd s" by auto
  note t = same_except_tables [OF m aligned_active np]
  show "vm_wf (s\<lparr>pmem := m\<rparr>)"
    using wf direct_same [OF vm_wf_facts(2) [OF wf] m p] by (simp add: vm_wf_def t)
  show "translation (s\<lparr>pmem := m\<rparr>) = translation s"
    by (simp add: translation_def fun_eq_iff same_except_walk [OF m aligned_active p])
  show "owned (s\<lparr>pmem := m\<rparr>) q = owned s q" "tables m (active_pd s) = tables (pmem s) (active_pd s)"
    by (simp_all add: owned_def t)
  show "q \<noteq> p \<Longrightarrow> aligned q \<Longrightarrow> i < 1024 \<Longrightarrow> pde m q i = pde (pmem s) q i"
    using m by (simp add: same_except_def pde_def)
qed

lemma owned_access:
  assumes "vm_wf s" "owned s p" "i < 1024"
  shows "vread (entry_at (phys_to_virt p) i) s = Some (pde (pmem s) p i)"
    "\<exists>m. vwrite (entry_at (phys_to_virt p) i) v s = Some (s\<lparr>pmem := m\<rparr>) \<and> same_except p (pmem s) m \<and>
      (\<forall>j < 1024. pde m p j = (if j = i then v else pde (pmem s) p j))"
proof -
  have p: "aligned p" "in_direct p" using assms(2) by (simp_all add: owned_def)
  note d = direct_access [OF vm_wf_facts(2) [OF assms(1)] p assms(3)]
  show "vread (entry_at (phys_to_virt p) i) s = Some (pde (pmem s) p i)" using d(1) by (simp add: pde_def)
  show "\<exists>m. vwrite (entry_at (phys_to_virt p) i) v s = Some (s\<lparr>pmem := m\<rparr>) \<and> same_except p (pmem s) m \<and>
      (\<forall>j < 1024. pde m p j = (if j = i then v else pde (pmem s) p j))"
    using d(2) [of v] same_except_wr [OF p(1) assms(3) same_except_refl] assms(3)
    by (auto simp: pde_def rd_entry_wr p(1))
qed

text \<open>
  Runs that change one owned page only: \<open>g\<close> is what they make of its words. The allocator, the registers and the
  rest of memory stay.
\<close>

definition wrote :: "u32 \<Rightarrow> (u32 \<Rightarrow> u32) \<Rightarrow> 'a vmm_scheme \<Rightarrow> 'a vmm_scheme \<Rightarrow> bool" where
  "wrote p g s t \<longleftrightarrow> (\<exists>m. t = s\<lparr>pmem := m\<rparr> \<and> same_except p (pmem s) m \<and> (\<forall>j < 1024. pde m p j = g j))"

lemma wrote_vwrite:
  assumes "vm_wf s" "owned s p" "i < 1024"
  shows "\<exists>t. vwrite (entry_at (phys_to_virt p) i) v s = Some t \<and> wrote p ((pde (pmem s) p)(i := v)) s t"
proof -
  obtain m where m: "vwrite (entry_at (phys_to_virt p) i) v s = Some (s\<lparr>pmem := m\<rparr>)" "same_except p (pmem s) m"
    "\<forall>j < 1024. pde m p j = (if j = i then v else pde (pmem s) p j)"
    using owned_access(2) [OF assms, of v] by blast
  then have "wrote p ((pde (pmem s) p)(i := v)) s (s\<lparr>pmem := m\<rparr>)"
    unfolding wrote_def by (intro exI [of _ m]) simp
  then show ?thesis using m(1) by blast
qed

lemma wrote_facts:
  assumes "wrote p g s t" "vm_wf s" "owned s p"
  shows "vm_wf t" "translation t = translation s" "owned t q = owned s q" "\<forall>j < 1024. pde (pmem t) p j = g j"
    "q \<noteq> p \<Longrightarrow> aligned q \<Longrightarrow> i < 1024 \<Longrightarrow> pde (pmem t) q i = pde (pmem s) q i"
    "frames t = frames s" "active_pd t = active_pd s" "current_pd_phys t = current_pd_phys s"
    "tables (pmem t) (active_pd t) = tables (pmem s) (active_pd s)" "highest_page t = highest_page s"
    "cr3 t = cr3 s" "tlb t = tlb s"
proof -
  obtain m where m: "t = s\<lparr>pmem := m\<rparr>" "same_except p (pmem s) m" "\<forall>j < 1024. pde m p j = g j"
    using assms(1) by (auto simp: wrote_def)
  note w = owned_write [OF assms(2,3) m(2)]
  show "vm_wf t" "translation t = translation s" "owned t q = owned s q" "\<forall>j < 1024. pde (pmem t) p j = g j"
    unfolding m(1) using w(1,2,3) m(3) by simp_all
  show "q \<noteq> p \<Longrightarrow> aligned q \<Longrightarrow> i < 1024 \<Longrightarrow> pde (pmem t) q i = pde (pmem s) q i" unfolding m(1) using w(5) by simp
  show "frames t = frames s" "active_pd t = active_pd s" "current_pd_phys t = current_pd_phys s"
    "tables (pmem t) (active_pd t) = tables (pmem s) (active_pd s)" "highest_page t = highest_page s"
    "cr3 t = cr3 s" "tlb t = tlb s"
    unfolding m(1) using w(4) by simp_all
qed

lemma wrote_trans:
  assumes "wrote p g s t" "wrote p h t u"
  shows "wrote p h s u"
proof -
  obtain m where m: "t = s\<lparr>pmem := m\<rparr>" "same_except p (pmem s) m" using assms(1) by (auto simp: wrote_def)
  obtain m' where m': "u = t\<lparr>pmem := m'\<rparr>" "same_except p (pmem t) m'" "\<forall>j < 1024. pde m' p j = h j"
    using assms(2) by (auto simp: wrote_def)
  have "same_except p (pmem s) m'" using same_except_trans [OF m(2)] m'(2) m(1) by simp
  then show ?thesis unfolding wrote_def using m(1) m'(1,3) by (intro exI [of _ m']) simp
qed

lemma wrote_cong: "wrote p g s t \<Longrightarrow> (\<And>j. j < 1024 \<Longrightarrow> g j = h j) \<Longrightarrow> wrote p h s t"
  by (auto simp: wrote_def)

section \<open>Clearing a control block\<close>

lemma same_except_page:
  assumes "aligned p" and "\<And>x. x < unat p \<or> unat p + 4096 \<le> x \<Longrightarrow> m x = m0 x"
  shows "same_except p m0 m"
  unfolding same_except_def
proof (intro allI impI)
  fix q i :: u32 assume q: "aligned q" "i < 1024" "q \<noteq> p"
  obtain a b where ab: "unat p = 4096 * a" "unat q = 4096 * b" using assms(1) q(1) by (auto simp: aligned_iff elim!: dvdE)
  then have "a \<noteq> b" using q(3) by (auto simp: word_unat_eq_iff)
  then have far: "unat q + 4096 \<le> unat p \<or> unat p + 4096 \<le> unat q" unfolding ab by (cases a b rule: linorder_cases) auto
  have e: "unat (entry_at q i) = unat q + 4 * unat i" "unat i < 1024"
    using unat_entry_at [OF q(1,2)] q(2) by (simp_all add: word_less_nat_alt)
  show "rd32 m (unat (entry_at q i)) = rd32 m0 (unat (entry_at q i))"
    by (rule rd_cong, rule assms(2)) (use far e in linarith)
qed

lemma vmemset_spec:
  assumes "vm_wf s" "owned s p" "k + n \<le> 4096"
  shows "\<exists>m. vmemset (phys_to_virt p + of_nat k) c n s = Some (s\<lparr>pmem := m\<rparr>) \<and>
    (\<forall>x. m x = (if unat p + k \<le> x \<and> x < unat p + k + n then c else pmem s x))"
  using assms
proof (induction n arbitrary: k s)
  case 0
  then show ?case by (intro exI [of _ "pmem s"]) auto
next
  case (Suc n)
  have p: "aligned p" "in_direct p" using Suc.prems(2) by (simp_all add: owned_def)
  have lim: "unat p + 4095 < 0x8000000" using aligned_less_iff [OF p(1), of "0x8000000"] p(2) by (simp add: in_direct_def)
  have u: "unat (p + of_nat k) = unat p + k"
    using lim Suc.prems(3) by (simp add: unat_word_ariths unat_of_nat)
  have "mmu s (phys_to_virt (p + of_nat k)) = Some (p + of_nat k)"
    using walk_direct [of "pmem s" "active_pd s" "p + of_nat k"] vm_wf_facts(2) [OF Suc.prems(1)] lim Suc.prems(3) u
    by (simp add: mmu_translation direct_def translation_def)
  moreover have "phys_to_virt p + of_nat k = phys_to_virt (p + of_nat k)" by (simp add: phys_to_virt_def)
  ultimately have w: "vwrite8 (phys_to_virt p + of_nat k) c s = Some (s\<lparr>pmem := (pmem s)(unat p + k := c)\<rparr>)"
    by (simp add: vwrite8_def u wr8_def)
  let ?s = "s\<lparr>pmem := (pmem s)(unat p + k := c)\<rparr>"
  have "same_except p (pmem s) (pmem ?s)" by (rule same_except_page [OF p(1)]) (use Suc.prems(3) in auto)
  note o = owned_write(1,3) [OF Suc.prems(1,2) this]
  have "\<exists>m. vmemset (phys_to_virt p + of_nat (Suc k)) c n ?s = Some (?s\<lparr>pmem := m\<rparr>) \<and>
    (\<forall>x. m x = (if unat p + Suc k \<le> x \<and> x < unat p + Suc k + n then c else pmem ?s x))"
    using Suc.IH [of ?s "Suc k"] o Suc.prems(2,3) by simp
  then obtain m where "vmemset (phys_to_virt p + of_nat (Suc k)) c n ?s = Some (s\<lparr>pmem := m\<rparr>)"
    "\<forall>x. m x = (if unat p + Suc k \<le> x \<and> x < unat p + Suc k + n then c else pmem ?s x)" by auto
  then have "vmemset (phys_to_virt p + of_nat k) c (Suc n) s = Some (s\<lparr>pmem := m\<rparr>)"
    "\<forall>x. m x = (if unat p + k \<le> x \<and> x < unat p + k + Suc n then c else pmem s x)"
    using w by (auto simp: add.assoc add.commute [of 1])
  then show ?case by blast
qed

lemma clear_pcb:
  assumes "vm_wf s" "owned s p"
  shows "\<exists>t. vmemset (phys_to_virt p) 0 PROCESS_BYTES s = Some t \<and> wrote p (\<lambda>j. if j < 16 then 0 else pde (pmem s) p j) s t"
proof -
  have p: "aligned p" using assms(2) by (simp add: owned_def)
  obtain m where m: "vmemset (phys_to_virt p) 0 64 s = Some (s\<lparr>pmem := m\<rparr>)"
    "\<forall>x. m x = (if unat p \<le> x \<and> x < unat p + 64 then 0 else pmem s x)"
    using vmemset_spec [OF assms, of 0 64 0] by auto
  have "same_except p (pmem s) m" by (rule same_except_page [OF p]) (use m(2) in auto)
  moreover have "pde m p j = (if j < 16 then 0 else pde (pmem s) p j)" if "j < 1024" for j
  proof -
    have e: "unat (entry_at p j) = unat p + 4 * unat j" by (rule unat_entry_at [OF p that])
    show ?thesis
    proof (cases "j < 16")
      case True
      then have "rd32 m (unat (entry_at p j)) = rd32 (\<lambda>_. 0) (unat (entry_at p j))"
        by (intro rd_cong) (use m(2) e in \<open>auto simp: word_less_nat_alt\<close>)
      then show ?thesis using True by (simp add: pde_def)
    next
      case False
      then have "16 \<le> unat j" by (simp add: word_less_nat_alt)
      then have "rd32 m (unat (entry_at p j)) = rd32 (pmem s) (unat (entry_at p j))"
        by (intro rd_cong) (use m(2) e in auto)
      then show ?thesis using False by (simp add: pde_def)
    qed
  qed
  ultimately have "wrote p (\<lambda>j. if j < 16 then 0 else pde (pmem s) p j) s (s\<lparr>pmem := m\<rparr>)"
    unfolding wrote_def by (intro exI [of _ m]) simp
  then show ?thesis using m(1) by (simp add: PROCESS_BYTES_def)
qed

section \<open>Steps of creation\<close>

lemma wrote_refl: "wrote p (pde (pmem s) p) s s"
  unfolding wrote_def by (intro exI [of _ "pmem s"]) simp

lemma field_step:
  assumes "vm_wf s" "owned s p" "wrote p g s t" "i < 1024"
  shows "\<exists>u. vwrite (entry_at (phys_to_virt p) i) v t = Some u \<and> wrote p (g(i := v)) s u"
proof -
  note f = wrote_facts [OF assms(3,1,2)]
  have o: "owned t p" using f(3) assms(2) by simp
  obtain u where u: "vwrite (entry_at (phys_to_virt p) i) v t = Some u" "wrote p ((pde (pmem t) p)(i := v)) t u"
    using wrote_vwrite [OF f(1) o assms(4)] by blast
  have "wrote p (g(i := v)) t u" using wrote_cong [OF u(2)] f(4) by simp
  then show ?thesis using u(1) wrote_trans [OF assms(3)] by blast
qed

lemma push_step:
  assumes "vm_wf s" "owned s k" "wrote k g s t" "j < 1024"
  shows "\<exists>u. stack_push v (entry_at (phys_to_virt k) (j + 1), t) = Some (entry_at (phys_to_virt k) j, u) \<and> wrote k (g(j := v)) s u"
proof -
  have "entry_at (phys_to_virt k) (j + 1) - 4 = entry_at (phys_to_virt k) j" by (simp add: entry_at_def distrib_left)
  then show ?thesis using field_step [OF assms, of v] by (auto simp: stack_push_def)
qed

definition trampoline :: "u32 \<Rightarrow> u32 \<Rightarrow> (u32 \<Rightarrow> u32) \<Rightarrow> u32 \<Rightarrow> u32" where
  "trampoline eum entry_point g = g(1023 := 0xBFFFF000, 1022 := entry_point, 1021 := 0, 1020 := eum,
     1019 := 0, 1018 := 0, 1017 := 0, 1016 := 0)"

lemma push_trampoline_spec:
  assumes "vm_wf s" "owned s k"
  shows "\<exists>t. push_trampoline eum entry_point (phys_to_virt k + 4096) s = Some (entry_at (phys_to_virt k) 1016, t) \<and>
    wrote k (trampoline eum entry_point (pde (pmem s) k)) s t"
proof -
  note st = push_step [OF assms]
  let ?e = "entry_at (phys_to_virt k)"
  have top: "phys_to_virt k + 4096 = ?e 1024" by (simp add: entry_at_def)
  obtain a where a: "stack_push 0xBFFFF000 (?e 1024, s) = Some (?e 1023, a)" "wrote k ((pde (pmem s) k)(1023 := 0xBFFFF000)) s a"
    using st [OF wrote_refl, of 1023 "0xBFFFF000"] by auto
  obtain b where b: "stack_push entry_point (?e 1023, a) = Some (?e 1022, b)"
    "wrote k ((pde (pmem s) k)(1023 := 0xBFFFF000, 1022 := entry_point)) s b"
    using st [OF a(2), of 1022 entry_point] by auto
  obtain c where c: "stack_push 0 (?e 1022, b) = Some (?e 1021, c)"
    "wrote k ((pde (pmem s) k)(1023 := 0xBFFFF000, 1022 := entry_point, 1021 := 0)) s c"
    using st [OF b(2), of 1021 0] by auto
  obtain d where d: "stack_push eum (?e 1021, c) = Some (?e 1020, d)"
    "wrote k ((pde (pmem s) k)(1023 := 0xBFFFF000, 1022 := entry_point, 1021 := 0, 1020 := eum)) s d"
    using st [OF c(2), of 1020 eum] by auto
  obtain e where e: "stack_push 0 (?e 1020, d) = Some (?e 1019, e)"
    "wrote k ((pde (pmem s) k)(1023 := 0xBFFFF000, 1022 := entry_point, 1021 := 0, 1020 := eum, 1019 := 0)) s e"
    using st [OF d(2), of 1019 0] by auto
  obtain f where f: "stack_push 0 (?e 1019, e) = Some (?e 1018, f)"
    "wrote k ((pde (pmem s) k)(1023 := 0xBFFFF000, 1022 := entry_point, 1021 := 0, 1020 := eum, 1019 := 0, 1018 := 0)) s f"
    using st [OF e(2), of 1018 0] by auto
  obtain g where g: "stack_push 0 (?e 1018, f) = Some (?e 1017, g)"
    "wrote k ((pde (pmem s) k)(1023 := 0xBFFFF000, 1022 := entry_point, 1021 := 0, 1020 := eum, 1019 := 0, 1018 := 0,
       1017 := 0)) s g"
    using st [OF f(2), of 1017 0] by auto
  obtain h where h: "stack_push 0 (?e 1017, g) = Some (?e 1016, h)" "wrote k (trampoline eum entry_point (pde (pmem s) k)) s h"
    using st [OF g(2), of 1016 0] by (auto simp: trampoline_def)
  have "push_trampoline eum entry_point (?e 1024) s = Some (?e 1016, h)"
    using a(1) b(1) c(1) d(1) e(1) f(1) g(1) h(1) by (simp add: push_trampoline_def)
  then show ?thesis using h(2) top by auto
qed

lemma alloc_frame:
  assumes wf: "vm_wf s" and al: "pmm_alloc_page NUMA_NODE_LOCAL s = (a, t)"
  shows "vm_wf t" "translation t = translation s" "active_pd t = active_pd s"
    "frames s = {} \<Longrightarrow> a = 0 \<and> frames t = {}"
    "frames s \<noteq> {} \<Longrightarrow> a \<noteq> 0 \<and> owned t a \<and> addr_to_pfn a \<in> frames s \<and> frames t = frames s - {addr_to_pfn a}"
    "owned s q \<Longrightarrow> owned t q" "owned s q \<Longrightarrow> frames s \<noteq> {} \<Longrightarrow> q \<noteq> a"
proof -
  note keep = alloc_keeps_vm [OF al]
  show act: "active_pd t = active_pd s" by (simp add: active_pd_def keep)
  show "translation t = translation s" by (simp add: translation_def act keep fun_eq_iff)
  have dir: "direct t" using vm_wf_facts(2) [OF wf] by (simp add: direct_def tlb_coherent_def keep act)
  note res = alloc_page_result [OF vm_wf_facts(1) [OF wf], of NUMA_NODE_LOCAL, unfolded al page_result_def, simplified]
  show "frames s = {} \<Longrightarrow> a = 0 \<and> frames t = {}" using res by simp
  have ne: "\<exists>q. q \<in> frames s \<and> a = pfn_to_addr q \<and> a \<noteq> 0 \<and> frames t = frames s - {q}" if "frames s \<noteq> {}"
    using res that by auto
  have sub: "frames t \<subseteq> frames s" using ne res by (cases "frames s = {}") auto
  show "vm_wf t" using wf dir res sub unfolding vm_wf_def by (auto simp: act keep)
  show ow: "owned t q" if "owned s q" for q using that sub by (auto simp: owned_def act keep)
  show "a \<noteq> 0 \<and> owned t a \<and> addr_to_pfn a \<in> frames s \<and> frames t = frames s - {addr_to_pfn a}" if nf: "frames s \<noteq> {}"
  proof -
    obtain q where q: "q \<in> frames s" "a = pfn_to_addr q" "a \<noteq> 0" "frames t = frames s - {q}" using ne [OF nf] by blast
    note fr = fresh_frame [OF wf q(1), folded q(2)]
    show ?thesis using q fr by (simp add: owned_def act keep)
  qed
  then show "q \<noteq> a" if "owned s q" "frames s \<noteq> {}" using that by (auto simp: owned_def)
qed

lemma active_pd_load: "active_pd (s\<lparr>current_pd_phys := q, cr3 := p\<rparr>) = p AND 0xFFFFF000"
  by (simp add: active_pd_def)

lemma switch_back:
  assumes wf: "vm_wf s" and cur: "current_pd_phys s = active_pd s"
    and t_def: "t = vmm_switch_pd (vmm_get_current_pd s) (vmm_switch_pd pd s)"
  shows "vm_wf t" "translation t = translation s" "active_pd t = active_pd s" "current_pd_phys t = active_pd s"
    "pmem t = pmem s" "frames t = frames s" "owned t q = owned s q" "highest_page t = highest_page s"
    "vmm.more t = vmm.more s" "tlb t page = Some e \<Longrightarrow> tlb s page = Some e"
proof -
  have al: "active_pd s AND 0xFFFFF000 = active_pd s" using aligned_active [of s] by (simp add: aligned_def PTE_ADDR_def)
  show act: "active_pd t = active_pd s" "current_pd_phys t = active_pd s"
    using al by (simp_all add: t_def vmm_switch_pd_def write_cr3_def vmm_get_current_pd_def cur active_pd_load)
  show m: "pmem t = pmem s" "highest_page t = highest_page s" "vmm.more t = vmm.more s"
    by (simp_all add: t_def vmm_switch_pd_def write_cr3_def)
  show fr: "frames t = frames s" by (simp add: t_def vmm_switch_pd_def write_cr3_def frames_def)
  have pw: "pmm_wf t = pmm_wf s"
    by (simp add: t_def vmm_switch_pd_def write_cr3_def pmm_wf_def frames_def pmm_topology_def node_count_ok_def node_frames_def)
  show "translation t = translation s" by (simp add: translation_def act m fun_eq_iff)
  show tl: "tlb s page = Some e" if "tlb t page = Some e" for page e
    using that by (auto simp: t_def vmm_switch_pd_def write_cr3_def split: option.splits bool.splits)
  have "tlb_coherent t" using vm_wf_facts(3) [OF wf] tl unfolding tlb_coherent_def act m by blast
  then show "vm_wf t" using wf by (simp add: vm_wf_def direct_def act m fr pw)
  show "owned t q = owned s q" by (simp add: owned_def act m fr)
qed

section \<open>Releasing\<close>

lemma pfn_addr: "aligned p \<Longrightarrow> pfn_to_addr (addr_to_pfn p) = p"
  by (simp add: aligned_def PTE_ADDR_shift pfn_to_addr_def addr_to_pfn_def)

lemma pfn_inj: "aligned p \<Longrightarrow> aligned q \<Longrightarrow> addr_to_pfn p = addr_to_pfn q \<Longrightarrow> p = q"
  using pfn_addr by metis

lemma free_more [simp]:
  "current_pd_phys (pmm_free_page p s) = current_pd_phys s" "vmm.more (pmm_free_page p s) = vmm.more s"
  by (simp_all add: pmm_free_page_def Let_def)

lemma free_owned:
  assumes wf: "vm_wf s" and o: "owned s p" and b: "256 \<le> addr_to_pfn p" "addr_to_pfn p \<le> highest_page s"
  defines "t \<equiv> pmm_free_page p s"
  shows "vm_wf t" "translation t = translation s" "active_pd t = active_pd s" "frames t = insert (addr_to_pfn p) (frames s)"
    "q \<noteq> p \<Longrightarrow> owned s q \<Longrightarrow> owned t q"
proof -
  have p: "aligned p" "in_direct p" "p \<notin> insert (active_pd s) (tables (pmem s) (active_pd s))" using o by (simp_all add: owned_def)
  note fr = free_page_set [OF vm_wf_facts(1) [OF wf] b(1), folded t_def]
  show f: "frames t = insert (addr_to_pfn p) (frames s)" using fr(2) b(2) by auto
  show act: "active_pd t = active_pd s" by (simp add: t_def active_pd_def)
  show "translation t = translation s" by (simp add: t_def translation_def active_pd_def fun_eq_iff)
  have m: "pmem t = pmem s" "tlb t = tlb s" by (simp_all add: t_def)
  have dir: "direct t" using vm_wf_facts(2) [OF wf] by (simp add: direct_def tlb_coherent_def act m)
  have "addr_to_pfn q \<noteq> addr_to_pfn p" if "q \<in> insert (active_pd s) (tables (pmem s) (active_pd s))" for q
  proof -
    have "aligned q" using that by (auto simp: tables_def)
    then show ?thesis using pfn_inj [OF _ p(1)] that p(3) by blast
  qed
  then show "vm_wf t" using wf dir fr(1) p(2) unfolding vm_wf_def by (auto simp: act m f pfn_addr [OF p(1)])
  show "owned t q" if "q \<noteq> p" "owned s q" using that pfn_inj [of q p] p(1) by (auto simp: owned_def act m f)
qed

lemma destroy_empty:
  assumes "direct s" "aligned pd" "in_direct pd" "\<forall>i < 768. \<not> table_pde (pde (pmem s) pd i)"
  shows "vmm_destroy_user_pd pd s = Some (pmm_free_page pd s)"
proof -
  have "\<exists>u. wforo 0 KERNEL_VBASE_PDE (destroy_entry (phys_to_virt pd)) s = Some u \<and> u = s"
  proof (rule wforo_rule [where P = "\<lambda>j u. u = s"])
    fix j u assume "j < KERNEL_VBASE_PDE" "u = s"
    then have j: "j < 768" "j < 1024" and u: "u = s" by (simp_all add: KERNEL_VBASE_PDE_def word_less_nat_alt)
    have "vread (entry_at (phys_to_virt pd) j) s = Some (pde (pmem s) pd j)"
      using direct_access(1) [OF assms(1-3) j(2)] by (simp add: pde_def)
    then show "\<exists>v. destroy_entry (phys_to_virt pd) j u = Some v \<and> v = s"
      using assms(4) j(1) by (auto simp: destroy_entry_def table_pde_def u)
  qed (simp_all add: KERNEL_VBASE_PDE_def)
  then show ?thesis by (simp add: vmm_destroy_user_pd_def)
qed

text \<open>Bookkeeping of the process layer is invisible to the memory managers.\<close>

lemma psys_frame [simp]:
  fixes s :: "'a psys_scheme"
  shows "vm_wf (s\<lparr>pid_counter := x\<rparr>) = vm_wf s" "owned (s\<lparr>pid_counter := x\<rparr>) q = owned s q"
    "translation (s\<lparr>pid_counter := x\<rparr>) = translation s" "active_pd (s\<lparr>pid_counter := x\<rparr>) = active_pd s"
    "frames (s\<lparr>pid_counter := x\<rparr>) = frames s"
    "vm_wf (s\<lparr>current_process := x\<rparr>) = vm_wf s" "owned (s\<lparr>current_process := x\<rparr>) q = owned s q"
    "translation (s\<lparr>current_process := x\<rparr>) = translation s" "active_pd (s\<lparr>current_process := x\<rparr>) = active_pd s"
    "frames (s\<lparr>current_process := x\<rparr>) = frames s"
    "vm_wf (s\<lparr>esp := x\<rparr>) = vm_wf s" "owned (s\<lparr>esp := x\<rparr>) q = owned s q"
    "translation (s\<lparr>esp := x\<rparr>) = translation s" "active_pd (s\<lparr>esp := x\<rparr>) = active_pd s"
    "frames (s\<lparr>esp := x\<rparr>) = frames s"
    "vm_wf (s\<lparr>ebp := x\<rparr>) = vm_wf s" "owned (s\<lparr>ebp := x\<rparr>) q = owned s q"
    "translation (s\<lparr>ebp := x\<rparr>) = translation s" "active_pd (s\<lparr>ebp := x\<rparr>) = active_pd s"
    "frames (s\<lparr>ebp := x\<rparr>) = frames s"
    "vm_wf (s\<lparr>ebx := x\<rparr>) = vm_wf s" "owned (s\<lparr>ebx := x\<rparr>) q = owned s q"
    "translation (s\<lparr>ebx := x\<rparr>) = translation s" "active_pd (s\<lparr>ebx := x\<rparr>) = active_pd s"
    "frames (s\<lparr>ebx := x\<rparr>) = frames s"
    "vm_wf (s\<lparr>esi := x\<rparr>) = vm_wf s" "owned (s\<lparr>esi := x\<rparr>) q = owned s q"
    "translation (s\<lparr>esi := x\<rparr>) = translation s" "active_pd (s\<lparr>esi := x\<rparr>) = active_pd s"
    "frames (s\<lparr>esi := x\<rparr>) = frames s"
    "vm_wf (s\<lparr>edi := x\<rparr>) = vm_wf s" "owned (s\<lparr>edi := x\<rparr>) q = owned s q"
    "translation (s\<lparr>edi := x\<rparr>) = translation s" "active_pd (s\<lparr>edi := x\<rparr>) = active_pd s"
    "frames (s\<lparr>edi := x\<rparr>) = frames s"
    "vm_wf (s\<lparr>eip := x\<rparr>) = vm_wf s" "owned (s\<lparr>eip := x\<rparr>) q = owned s q"
    "translation (s\<lparr>eip := x\<rparr>) = translation s" "active_pd (s\<lparr>eip := x\<rparr>) = active_pd s"
    "frames (s\<lparr>eip := x\<rparr>) = frames s"
    "vm_wf (s\<lparr>tss_esp0 := x\<rparr>) = vm_wf s" "owned (s\<lparr>tss_esp0 := x\<rparr>) q = owned s q"
    "translation (s\<lparr>tss_esp0 := x\<rparr>) = translation s" "active_pd (s\<lparr>tss_esp0 := x\<rparr>) = active_pd s"
    "frames (s\<lparr>tss_esp0 := x\<rparr>) = frames s"
  by (simp_all add: vm_wf_def owned_def translation_def active_pd_def frames_def direct_def tlb_coherent_def pmm_wf_def
      pmm_topology_def node_count_ok_def node_frames_def fun_eq_iff)

section \<open>Creating a process\<close>

lemma wf_frames: "vm_wf s \<Longrightarrow> q \<in> frames s \<Longrightarrow> 256 \<le> q \<and> q \<le> highest_page s"
  using vm_wf_facts(1) [of s] by (auto simp: pmm_wf_def)

text \<open>The control block up to the call of \<open>vmm_create_user_pd\<close>.\<close>

lemma new_pcb:
  fixes s :: "'a psys_scheme"
  assumes wf: "vm_wf s" and o: "owned s p"
  shows "\<exists>t u v. vmemset (phys_to_virt p) 0 PROCESS_BYTES s = Some t \<and>
    vwrite (entry_at (phys_to_virt p) P_pid) (pid_counter t) (t\<lparr>pid_counter := pid_counter t + 1\<rparr>) = Some u \<and>
    vwrite (entry_at (phys_to_virt p) P_state) PROCESS_STATE_NEW u = Some v \<and>
    wrote p (\<lambda>j. if j = P_pid then pid_counter s else if j < 16 then 0 else pde (pmem s) p j)
      (s\<lparr>pid_counter := pid_counter s + 1\<rparr>) v"
proof -
  let ?s = "s\<lparr>pid_counter := pid_counter s + 1\<rparr>"
  obtain t where t: "vmemset (phys_to_virt p) 0 PROCESS_BYTES s = Some t"
    "wrote p (\<lambda>j. if j < 16 then 0 else pde (pmem s) p j) s t"
    using clear_pcb [OF wf o] by blast
  obtain m where m: "t = s\<lparr>pmem := m\<rparr>" "same_except p (pmem s) m"
    "\<forall>j < 1024. pde m p j = (if j < 16 then 0 else pde (pmem s) p j)"
    using t(2) by (auto simp: wrote_def)
  have pid: "pid_counter t = pid_counter s" by (simp add: m(1))
  have w0: "wrote p (\<lambda>j. if j < 16 then 0 else pde (pmem s) p j) ?s (t\<lparr>pid_counter := pid_counter t + 1\<rparr>)"
    unfolding wrote_def using m by (intro exI [of _ m]) simp
  have w: "vm_wf ?s" "owned ?s p" using wf o by simp_all
  obtain u where u: "vwrite (entry_at (phys_to_virt p) P_pid) (pid_counter t) (t\<lparr>pid_counter := pid_counter t + 1\<rparr>) = Some u"
    "wrote p ((\<lambda>j. if j < 16 then 0 else pde (pmem s) p j)(P_pid := pid_counter t)) ?s u"
    using field_step [OF w w0, of P_pid "pid_counter t"] by (auto simp: P_pid_def)
  obtain v where "vwrite (entry_at (phys_to_virt p) P_state) PROCESS_STATE_NEW u = Some v"
    "wrote p ((\<lambda>j. if j < 16 then 0 else pde (pmem s) p j)(P_pid := pid_counter t, P_state := PROCESS_STATE_NEW)) ?s v"
    using field_step [OF w u(2), of P_state] by (auto simp: P_state_def)
  moreover from this(2) have "wrote p (\<lambda>j. if j = P_pid then pid_counter s else if j < 16 then 0 else pde (pmem s) p j) ?s v"
    by (rule wrote_cong) (auto simp: zconst pid)
  ultimately show ?thesis using t(1) u(1) by blast
qed

lemma create_pd_owned:
  assumes wf: "vm_wf s" and cur: "current_pd_phys s = active_pd s" and run: "vmm_create_user_pd s = Some (a, t)"
  shows "vm_wf t" "translation t = translation s" "active_pd t = active_pd s" "current_pd_phys t = active_pd s"
    "highest_page t = highest_page s" "vmm.more t = vmm.more s" "frames s = {} \<Longrightarrow> a = 0 \<and> frames t = {}"
    "frames s = {} \<Longrightarrow> owned s q \<Longrightarrow> owned t q"
    "frames s \<noteq> {} \<Longrightarrow> a \<noteq> 0 \<and> owned t a \<and> addr_to_pfn a \<in> frames s \<and> frames t = frames s - {addr_to_pfn a}"
    "frames s \<noteq> {} \<Longrightarrow> owned s q \<Longrightarrow> owned t q \<and> q \<noteq> a \<and> (\<forall>i < 1024. pde (pmem t) q i = pde (pmem s) q i)"
    "frames s \<noteq> {} \<Longrightarrow> i < 1024 \<Longrightarrow> pde (pmem t) a i = user_pd_entry (pmem s) (active_pd s) i"
    "\<forall>q \<in> insert (active_pd s) (tables (pmem s) (active_pd s)). \<forall>i < 1024. pde (pmem t) q i = pde (pmem s) q i"
    "tlb t = tlb s"
proof -
  have c: "vm_wf t" "translation t = translation s" "active_pd t = active_pd s" "current_pd_phys t = active_pd s"
    "highest_page t = highest_page s" "vmm.more t = vmm.more s" "frames s = {} \<longrightarrow> a = 0 \<and> frames t = {}"
    "tlb t = tlb s" and ne: "frames s \<noteq> {} \<longrightarrow> a \<noteq> 0 \<and> aligned a \<and> in_direct a \<and> addr_to_pfn a \<in> frames s \<and> frames t = frames s - {addr_to_pfn a} \<and>
       a \<notin> insert (active_pd s) (tables (pmem s) (active_pd s)) \<and> same_except a (pmem s) (pmem t) \<and>
       (\<forall>i < 1024. pde (pmem t) a i = user_pd_entry (pmem s) (active_pd s) i)"
    using create_user_pd_spec [OF wf cur] run cur by (cases "frames s = {}"; simp; blast)+
  show "vm_wf t" "translation t = translation s" "active_pd t = active_pd s" "current_pd_phys t = active_pd s"
    "highest_page t = highest_page s" "vmm.more t = vmm.more s" "frames s = {} \<Longrightarrow> a = 0 \<and> frames t = {}"
    "tlb t = tlb s" using c by simp_all
  show "pde (pmem t) a i = user_pd_entry (pmem s) (active_pd s) i" if "frames s \<noteq> {}" "i < 1024" for i using ne that by blast
  have tb: "tables (pmem t) (active_pd s) = tables (pmem s) (active_pd s)" if "frames s \<noteq> {}"
    by (rule same_except_tables(1) [of a]) (use ne that in auto)
  show "a \<noteq> 0 \<and> owned t a \<and> addr_to_pfn a \<in> frames s \<and> frames t = frames s - {addr_to_pfn a}" if "frames s \<noteq> {}"
    using ne tb that by (simp add: owned_def c(3))
  show "owned t q \<and> q \<noteq> a \<and> (\<forall>i < 1024. pde (pmem t) q i = pde (pmem s) q i)" if nf: "frames s \<noteq> {}" and o: "owned s q" for q
  proof -
    have q: "q \<noteq> a" "aligned q" using ne nf o by (auto simp: owned_def)
    then have "\<forall>i < 1024. pde (pmem t) q i = pde (pmem s) q i" using ne nf by (auto simp: same_except_def pde_def)
    moreover have "owned t q" using o tb [OF nf] ne nf by (auto simp: owned_def c(3))
    ultimately show ?thesis using q(1) by blast
  qed
  have mem: "pmem t = pmem s" if "frames s = {}" using run that alloc_frame(4) [OF wf]
    by (cases "pmm_alloc_page NUMA_NODE_LOCAL s") (auto simp: vmm_create_user_pd_def dest: alloc_keeps_vm(1))
  show "owned t q" if "frames s = {}" "owned s q" using that c mem by (auto simp: owned_def)
  have "pde (pmem t) q i = pde (pmem s) q i" if q: "q \<in> insert (active_pd s) (tables (pmem s) (active_pd s))" "i < 1024" for q i
  proof (cases "frames s = {}")
    case False
    moreover have "aligned q" using q(1) aligned_active by (auto simp: tables_def)
    ultimately show ?thesis using ne q by (auto simp: same_except_def pde_def)
  qed (simp add: mem)
  then show "\<forall>q \<in> insert (active_pd s) (tables (pmem s) (active_pd s)). \<forall>i < 1024. pde (pmem t) q i = pde (pmem s) q i"
    by blast
qed

text \<open>The words of a control block after creation.\<close>

definition pcb_words :: "u32 \<Rightarrow> u32 \<Rightarrow> u32 \<Rightarrow> (u32 \<Rightarrow> u32) \<Rightarrow> bool" where
  "pcb_words pid pd kstack w \<longleftrightarrow> w P_pid = pid \<and> w P_state = PROCESS_STATE_NEW \<and> w P_cr3 = pd \<and> w P_pd_virt = phys_to_virt pd \<and>
     w P_kstack_top = phys_to_virt kstack + 4096 \<and> w P_esp = entry_at (phys_to_virt kstack) 1016 \<and>
     w P_mem_pages_limit = 256 \<and> w P_quantum_ms = 50 \<and> w P_ticks_remaining = 5 \<and> w P_next = 0"

definition trampoline_words :: "u32 \<Rightarrow> u32 \<Rightarrow> (u32 \<Rightarrow> u32) \<Rightarrow> bool" where
  "trampoline_words eum entry_point w \<longleftrightarrow> w 1023 = 0xBFFFF000 \<and> w 1022 = entry_point \<and> w 1021 = 0 \<and> w 1020 = eum \<and>
     (\<forall>j \<in> {1016, 1017, 1018, 1019}. w j = 0)"

text \<open>
  What every outcome of creation keeps, and what success adds: the control block \<open>p\<close>, the directory \<open>a\<close> and the
  kernel stack \<open>k\<close>.
\<close>

definition same_space :: "'a vmm_scheme \<Rightarrow> 'a vmm_scheme \<Rightarrow> bool" where
  "same_space s t \<longleftrightarrow> vm_wf t \<and> translation t = translation s \<and> active_pd t = active_pd s \<and> current_pd_phys t = active_pd s \<and>
     highest_page t = highest_page s \<and> (\<forall>page e. tlb t page = Some e \<longrightarrow> tlb s page = Some e) \<and>
     (\<forall>q \<in> insert (active_pd s) (tables (pmem s) (active_pd s)). \<forall>i < 1024. pde (pmem t) q i = pde (pmem s) q i)"

definition created :: "u32 \<Rightarrow> u32 \<Rightarrow> 'a psys_scheme \<Rightarrow> u32 \<Rightarrow> u32 \<Rightarrow> u32 \<Rightarrow> 'a psys_scheme \<Rightarrow> bool" where
  "created eum entry_point s p a k t \<longleftrightarrow> distinct [p, a, k] \<and> (\<forall>q \<in> {p, a, k}. owned t q \<and> addr_to_pfn q \<in> frames s) \<and>
     frames t = frames s - addr_to_pfn ` {p, a, k} \<and> pcb_words (pid_counter s) a k (pde (pmem t) p) \<and>
     trampoline_words eum entry_point (pde (pmem t) k) \<and>
     (\<forall>i < 1024. pde (pmem t) a i = user_pd_entry (pmem s) (active_pd s) i) \<and> pid_counter t = pid_counter s + 1"

lemma same_space_tables: "same_space s t \<Longrightarrow> tables (pmem t) (active_pd s) = tables (pmem s) (active_pd s)"
  unfolding same_space_def tables_def by (metis (no_types, lifting) insertI1)

lemma same_space_refl: "vm_wf s \<Longrightarrow> current_pd_phys s = active_pd s \<Longrightarrow> same_space s s"
  by (simp add: same_space_def)

lemma same_space_wrote:
  "same_space s t \<Longrightarrow> wrote p g t u \<Longrightarrow> owned t p \<Longrightarrow> same_space s u"
proof -
  assume a: "same_space s t" "wrote p g t u" "owned t p"
  then have wf: "vm_wf t" by (simp add: same_space_def)
  note W = wrote_facts [OF a(2) wf a(3)]
  have "pde (pmem u) q i = pde (pmem s) q i" if q: "q \<in> insert (active_pd s) (tables (pmem s) (active_pd s))" "i < 1024" for q i
  proof -
    have "q \<noteq> p" using a(1,3) q(1) same_space_tables [OF a(1)] by (auto simp: owned_def same_space_def)
    moreover have "aligned q" using q(1) aligned_active by (auto simp: tables_def)
    ultimately show ?thesis using W(5) [of q i] q a(1) by (auto simp: same_space_def)
  qed
  then show "same_space s u" using a(1) W by (simp add: same_space_def)
qed

lemma same_space_alloc:
  "same_space s t \<Longrightarrow> pmm_alloc_page NUMA_NODE_LOCAL t = (a, u) \<Longrightarrow> same_space s u"
  using alloc_frame(1-3) [of t a u] alloc_keeps_vm(1,3,4,5) [of NUMA_NODE_LOCAL t a u] by (simp add: same_space_def)

lemma same_space_free:
  assumes "same_space s t" "owned t p" "256 \<le> addr_to_pfn p \<and> addr_to_pfn p \<le> highest_page s"
  shows "same_space s (pmm_free_page p t)"
  using assms free_owned(1-3) [of t p] by (simp add: same_space_def)

lemma more_fields: "vmm.more t = vmm.more s \<Longrightarrow> pid_counter t = pid_counter s" for s t :: "'a psys_scheme"
  by (cases s; cases t) simp

text \<open>The first half: control block and directory.\<close>

lemma create_first_half:
  fixes s :: "'a psys_scheme"
  assumes wf: "vm_wf s" and cur: "current_pd_phys s = active_pd s" and ne: "frames s \<noteq> {}"
    and al: "pmm_alloc_page NUMA_NODE_LOCAL s = (p, s1)"
  obtains s2 s3 s4 a s5 s6 where "vmemset (phys_to_virt p) 0 PROCESS_BYTES s1 = Some s2"
    "vwrite (entry_at (phys_to_virt p) P_pid) (pid_counter s2) (s2\<lparr>pid_counter := pid_counter s2 + 1\<rparr>) = Some s3"
    "vwrite (entry_at (phys_to_virt p) P_state) PROCESS_STATE_NEW s3 = Some s4"
    "vmm_create_user_pd s4 = Some (a, s5)" "vwrite (entry_at (phys_to_virt p) P_cr3) a s5 = Some s6"
    "p \<noteq> 0" "addr_to_pfn p \<in> frames s" "same_space s s6" "owned s6 p" "pid_counter s6 = pid_counter s + 1"
    "frames s - {addr_to_pfn p} = {} \<Longrightarrow> a = 0 \<and> frames s6 = {}"
    "frames s - {addr_to_pfn p} \<noteq> {} \<Longrightarrow> a \<noteq> 0 \<and> owned s6 a \<and> p \<noteq> a \<and> addr_to_pfn a \<in> frames s \<and>
       frames s6 = frames s - {addr_to_pfn p, addr_to_pfn a} \<and>
       (\<forall>i < 1024. pde (pmem s6) a i = user_pd_entry (pmem s) (active_pd s) i) \<and>
       (\<forall>j < 16. pde (pmem s6) p j = (if j = P_cr3 then a else if j = P_pid then pid_counter s else 0))"
proof -
  note A = alloc_frame [OF wf al] and keep1 = alloc_keeps_vm [OF al]
  have p: "p \<noteq> 0" "owned s1 p" "addr_to_pfn p \<in> frames s" "frames s1 = frames s - {addr_to_pfn p}" using A(5) ne by auto
  have pid1: "pid_counter s1 = pid_counter s" by (rule more_fields [OF keep1(6)])
  let ?g = "\<lambda>j. if j = P_pid then pid_counter s1 else if j < 16 then 0 else pde (pmem s1) p j"
  let ?s1 = "s1\<lparr>pid_counter := pid_counter s1 + 1\<rparr>"
  obtain s2 s3 s4 where b: "vmemset (phys_to_virt p) 0 PROCESS_BYTES s1 = Some s2"
    "vwrite (entry_at (phys_to_virt p) P_pid) (pid_counter s2) (s2\<lparr>pid_counter := pid_counter s2 + 1\<rparr>) = Some s3"
    "vwrite (entry_at (phys_to_virt p) P_state) PROCESS_STATE_NEW s3 = Some s4" "wrote p ?g ?s1 s4"
    using new_pcb [OF A(1) p(2)] by blast
  have w1: "vm_wf ?s1" "owned ?s1 p" using A(1) p(2) by simp_all
  note W = wrote_facts [OF b(4) w1]
  have "same_space s s1" by (rule same_space_alloc [OF same_space_refl [OF wf cur] al])
  then have "same_space s ?s1" by (simp add: same_space_def)
  then have s4: "same_space s s4" by (rule same_space_wrote [OF _ b(4) w1(2)])
  have pid4: "pid_counter s4 = pid_counter s + 1" using b(4) pid1 by (auto simp: wrote_def)
  have cur4: "current_pd_phys s4 = active_pd s4" "vm_wf s4" using s4 by (simp_all add: same_space_def)
  obtain a s5 where c: "vmm_create_user_pd s4 = Some (a, s5)" using create_user_pd_spec [OF cur4(2,1)] by blast
  note C = create_pd_owned [OF cur4(2,1) c]
  have o4: "owned s4 p" using W(3) w1(2) by simp
  have fr4: "frames s4 = frames s - {addr_to_pfn p}" using W(6) p(4) by simp
  have o5: "owned s5 p" using C(8,10) o4 by blast
  obtain s6 where d: "vwrite (entry_at (phys_to_virt p) P_cr3) a s5 = Some s6" "wrote p ((pde (pmem s5) p)(P_cr3 := a)) s5 s6"
    using wrote_vwrite [OF C(1) o5, of P_cr3 a] by (auto simp: P_cr3_def)
  note D = wrote_facts [OF d(2) C(1) o5]
  have s5: "same_space s s5" using C(1-5) C(12,13) s4 same_space_tables [OF s4] by (simp add: same_space_def)
  have pid6: "pid_counter s6 = pid_counter s + 1"
    using d(2) more_fields [OF C(6)] pid4 by (auto simp: wrote_def)
  have last: "a \<noteq> 0 \<and> owned s6 a \<and> p \<noteq> a \<and> addr_to_pfn a \<in> frames s \<and> frames s6 = frames s - {addr_to_pfn p, addr_to_pfn a} \<and>
       (\<forall>i < 1024. pde (pmem s6) a i = user_pd_entry (pmem s) (active_pd s) i) \<and>
       (\<forall>j < 16. pde (pmem s6) p j = (if j = P_cr3 then a else if j = P_pid then pid_counter s else 0))"
    if nf: "frames s - {addr_to_pfn p} \<noteq> {}"
  proof -
    have nf4: "frames s4 \<noteq> {}" using nf fr4 by simp
    note E = C(9) [OF nf4] C(10) [OF nf4 o4]
    have ala: "aligned a" using E by (simp add: owned_def)
    have pd: "pde (pmem s4) (active_pd s) i = pde (pmem s) (active_pd s) i" if "i < 1024" for i
      using W(5) [of "active_pd s" i] that o4 s4 keep1(1) by (auto simp: owned_def same_space_def)
    have "pde (pmem s6) a i = user_pd_entry (pmem s) (active_pd s) i" if "i < 1024" for i
      using D(5) [of a i] E that ala C(11) [OF nf4 that] pd [OF that] s4 by (auto simp: same_space_def user_pd_entry_def)
    moreover have "pde (pmem s6) p j = (if j = P_cr3 then a else if j = P_pid then pid_counter s else 0)" if "j < 16" for j
    proof -
      have j: "j < 1024" using that by (simp add: word_less_nat_alt)
      then show ?thesis using D(4) E(2) W(4) that pid1 by simp
    qed
    ultimately show ?thesis using E D(3,6) fr4 by auto
  qed
  show thesis
    using that [OF b(1-3) c d(1) p(1,3) same_space_wrote [OF s5 d(2) o5] _ pid6 _ last] D(3,6) o5 C(7) fr4 by auto
qed

text \<open>The second half: kernel stack and the remaining fields.\<close>

lemma create_second_half:
  fixes t :: "'a psys_scheme"
  assumes sp: "same_space s t" and o: "owned t p" "owned t a" "owned t k" and d: "distinct [p, a, k]"
  obtains t1 t2 t3 t4 t5 t6 t7 where
    "vwrite (entry_at (phys_to_virt p) P_kstack_top) (phys_to_virt k + 4096) t = Some t1"
    "t2 = vmm_switch_pd (vmm_get_current_pd t1) (vmm_switch_pd a t1)"
    "push_trampoline eum entry_point (phys_to_virt k + 4096) t2 = Some (entry_at (phys_to_virt k) 1016, t3)"
    "vwrite (entry_at (phys_to_virt p) P_esp) (entry_at (phys_to_virt k) 1016) t3 = Some t4"
    "vwrite (entry_at (phys_to_virt p) P_mem_pages_limit) 256 t4 = Some t5"
    "vwrite (entry_at (phys_to_virt p) P_quantum_ms) 50 t5 = Some t6"
    "vwrite (entry_at (phys_to_virt p) P_ticks_remaining) 5 t6 = Some t7"
    "same_space s t7" "owned t7 p" "owned t7 a" "owned t7 k" "frames t7 = frames t" "pid_counter t7 = pid_counter t"
    "\<forall>i < 1024. pde (pmem t7) a i = pde (pmem t) a i"
    "trampoline_words eum entry_point (pde (pmem t7) k)"
    "\<forall>j < 1024. pde (pmem t7) p j = ((pde (pmem t) p)(P_kstack_top := phys_to_virt k + 4096, P_esp := entry_at (phys_to_virt k) 1016,
       P_mem_pages_limit := 256, P_quantum_ms := 50, P_ticks_remaining := 5)) j"
proof -
  have al: "aligned p" "aligned a" "aligned k" using o by (simp_all add: owned_def)
  have wf: "vm_wf t" using sp by (simp add: same_space_def)
  obtain t1 where a1: "vwrite (entry_at (phys_to_virt p) P_kstack_top) (phys_to_virt k + 4096) t = Some t1"
    "wrote p ((pde (pmem t) p)(P_kstack_top := phys_to_virt k + 4096)) t t1"
    using wrote_vwrite [OF wf o(1), of P_kstack_top] by (auto simp: P_kstack_top_def)
  note W1 = wrote_facts [OF a1(2) wf o(1)]
  have s1: "same_space s t1" by (rule same_space_wrote [OF sp a1(2) o(1)])
  then have c1: "vm_wf t1" "current_pd_phys t1 = active_pd t1" by (simp_all add: same_space_def)
  define t2 where "t2 = vmm_switch_pd (vmm_get_current_pd t1) (vmm_switch_pd a t1)"
  note S = switch_back [OF c1 t2_def]
  have s2: "same_space s t2" using S(1-5,8,10) s1 by (simp add: same_space_def)
  have o2: "owned t2 p" "owned t2 a" "owned t2 k" using S(7) W1(3) o by simp_all
  obtain t3 where a3: "push_trampoline eum entry_point (phys_to_virt k + 4096) t2 = Some (entry_at (phys_to_virt k) 1016, t3)"
    "wrote k (trampoline eum entry_point (pde (pmem t2) k)) t2 t3"
    using push_trampoline_spec [OF S(1) o2(3)] by blast
  note W3 = wrote_facts [OF a3(2) S(1) o2(3)]
  have s3: "same_space s t3" by (rule same_space_wrote [OF s2 a3(2) o2(3)])
  have o3: "owned t3 p" "owned t3 a" "owned t3 k" using W3(3) o2 by simp_all
  note fs = field_step [OF W3(1) o3(1)]
  obtain t4 where a4: "vwrite (entry_at (phys_to_virt p) P_esp) (entry_at (phys_to_virt k) 1016) t3 = Some t4"
    "wrote p ((pde (pmem t3) p)(P_esp := entry_at (phys_to_virt k) 1016)) t3 t4"
    using fs [OF wrote_refl, of P_esp] by (auto simp: P_esp_def)
  obtain t5 where a5: "vwrite (entry_at (phys_to_virt p) P_mem_pages_limit) 256 t4 = Some t5"
    "wrote p ((pde (pmem t3) p)(P_esp := entry_at (phys_to_virt k) 1016, P_mem_pages_limit := 256)) t3 t5"
    using fs [OF a4(2), of P_mem_pages_limit 256] by (auto simp: P_mem_pages_limit_def)
  obtain t6 where a6: "vwrite (entry_at (phys_to_virt p) P_quantum_ms) 50 t5 = Some t6"
    "wrote p ((pde (pmem t3) p)(P_esp := entry_at (phys_to_virt k) 1016, P_mem_pages_limit := 256, P_quantum_ms := 50)) t3 t6"
    using fs [OF a5(2), of P_quantum_ms 50] by (auto simp: P_quantum_ms_def)
  obtain t7 where a7: "vwrite (entry_at (phys_to_virt p) P_ticks_remaining) 5 t6 = Some t7"
    "wrote p ((pde (pmem t3) p)(P_esp := entry_at (phys_to_virt k) 1016, P_mem_pages_limit := 256, P_quantum_ms := 50,
       P_ticks_remaining := 5)) t3 t7"
    using fs [OF a6(2), of P_ticks_remaining 5] by (auto simp: P_ticks_remaining_def)
  note W7 = wrote_facts [OF a7(2) W3(1) o3(1)]
  have pk: "pde (pmem t7) k j = trampoline eum entry_point (pde (pmem t2) k) j" if "j < 1024" for j
    using W7(5) [of k j] d al that W3(4) by auto
  have tw: "trampoline_words eum entry_point (pde (pmem t7) k)"
    unfolding trampoline_words_def by (simp add: pk trampoline_def)
  have pa: "\<forall>i < 1024. pde (pmem t7) a i = pde (pmem t) a i"
    using W7(5) [of a] W3(5) [of a] W1(5) [of a] d al S(5) by auto
  have pp: "pde (pmem t3) p j = ((pde (pmem t) p)(P_kstack_top := phys_to_virt k + 4096)) j" if "j < 1024" for j
    using W3(5) [of p j] W1(4) d al S(5) that by auto
  have pid: "pid_counter t7 = pid_counter t"
    using a7(2) a3(2) a1(2) more_fields [OF S(9)] by (auto simp: wrote_def)
  have "\<forall>j < 1024. pde (pmem t7) p j = ((pde (pmem t) p)(P_kstack_top := phys_to_virt k + 4096, P_esp := entry_at (phys_to_virt k) 1016,
       P_mem_pages_limit := 256, P_quantum_ms := 50, P_ticks_remaining := 5)) j"
    using W7(4) pp by (simp add: fun_upd_def)
  then show thesis
    using that [OF a1(1) t2_def a3(1) a4(1) a5(1) a6(1) a7(1) same_space_wrote [OF s3 a7(2) o3(1)] _ _ _ _ pid pa tw] W7(3,6) W3(6) S(6)
      W1(6) o3 by simp
qed

lemma setup_process_spec:
  fixes t :: "'a psys_scheme"
  assumes wf: "vm_wf s" and sp: "same_space s t" and o: "owned t p" "owned t a" and pa: "p \<noteq> a"
    and fr: "addr_to_pfn p \<in> frames s" "addr_to_pfn a \<in> frames s" "frames t = frames s - {addr_to_pfn p, addr_to_pfn a}"
    and none: "\<forall>i < 768. \<not> table_pde (pde (pmem t) a i)"
  shows "\<exists>r u. setup_process eum entry_point p a t = Some (r, u) \<and> same_space s u \<and>
    (if frames t = {} then r = 0 \<and> frames u = frames s
     else \<exists>k. r = phys_to_virt p \<and> distinct [p, a, k] \<and> (\<forall>q \<in> {p, a, k}. owned u q) \<and> addr_to_pfn k \<in> frames t \<and>
       frames u = frames t - {addr_to_pfn k} \<and> pid_counter u = pid_counter t \<and>
       (\<forall>i < 1024. pde (pmem u) a i = pde (pmem t) a i) \<and> trampoline_words eum entry_point (pde (pmem u) k) \<and>
       (\<forall>j < 1024. pde (pmem u) p j = ((pde (pmem t) p)(P_kstack_top := phys_to_virt k + 4096,
          P_esp := entry_at (phys_to_virt k) 1016, P_mem_pages_limit := 256, P_quantum_ms := 50, P_ticks_remaining := 5)) j))"
proof -
  have wft: "vm_wf t" using sp by (simp add: same_space_def)
  obtain k t0 where al: "pmm_alloc_page NUMA_NODE_LOCAL t = (k, t0)" by fastforce
  note A = alloc_frame [OF wft al] and keep = alloc_keeps_vm [OF al]
  have s0: "same_space s t0" by (rule same_space_alloc [OF sp al])
  have o0: "owned t0 p" "owned t0 a" using A(6) o by simp_all
  show ?thesis
  proof (cases "frames t = {}")
    case True
    let ?u = "pmm_free_page a t0" and ?v = "pmm_free_page p (pmm_free_page a t0)"
    have wf0: "vm_wf t0" and hp: "highest_page t0 = highest_page s" using s0 by (simp_all add: same_space_def)
    have al_a: "aligned a" "in_direct a" using o(2) by (simp_all add: owned_def)
    have ra: "256 \<le> addr_to_pfn a \<and> addr_to_pfn a \<le> highest_page s" "256 \<le> addr_to_pfn p \<and> addr_to_pfn p \<le> highest_page s"
      using wf_frames [OF wf] fr(1,2) by blast+
    note F = free_owned [OF wf0 o0(2)]
    have ou: "owned ?u p" using F(5) [of p] ra hp pa o0(1) by simp
    have su: "same_space s ?u" by (rule same_space_free [OF s0 o0(2) ra(1)])
    have "setup_process eum entry_point p a t = Some (0, ?v)"
      using al A(4) [OF True] destroy_empty [OF vm_wf_facts(2) [OF wf0] al_a] none keep(1) by (simp add: setup_process_def)
    moreover have "frames ?v = frames s"
      using F(4) free_owned(4) [of ?u p] su ou ra hp A(4) [OF True] fr True by (auto simp: same_space_def)
    ultimately show ?thesis using same_space_free [OF su ou ra(2)] True by simp
  next
    case False
    note B = A(5) [OF False]
    have d: "distinct [p, a, k]" and ok: "owned t0 k" using A(7) [OF _ False] o pa B by auto
    obtain t1 t2 t3 t4 t5 t6 t7 where
      r: "vwrite (entry_at (phys_to_virt p) P_kstack_top) (phys_to_virt k + 4096) t0 = Some t1"
        "t2 = vmm_switch_pd (vmm_get_current_pd t1) (vmm_switch_pd a t1)"
        "push_trampoline eum entry_point (phys_to_virt k + 4096) t2 = Some (entry_at (phys_to_virt k) 1016, t3)"
        "vwrite (entry_at (phys_to_virt p) P_esp) (entry_at (phys_to_virt k) 1016) t3 = Some t4"
        "vwrite (entry_at (phys_to_virt p) P_mem_pages_limit) 256 t4 = Some t5"
        "vwrite (entry_at (phys_to_virt p) P_quantum_ms) 50 t5 = Some t6"
        "vwrite (entry_at (phys_to_virt p) P_ticks_remaining) 5 t6 = Some t7"
      and h: "same_space s t7" "owned t7 p" "owned t7 a" "owned t7 k" "frames t7 = frames t0" "pid_counter t7 = pid_counter t0"
        "\<forall>i < 1024. pde (pmem t7) a i = pde (pmem t0) a i" "trampoline_words eum entry_point (pde (pmem t7) k)"
        "\<forall>j < 1024. pde (pmem t7) p j = ((pde (pmem t0) p)(P_kstack_top := phys_to_virt k + 4096,
           P_esp := entry_at (phys_to_virt k) 1016, P_mem_pages_limit := 256, P_quantum_ms := 50, P_ticks_remaining := 5)) j"
      by (rule create_second_half [OF s0 o0 ok d, of eum entry_point])
    have "setup_process eum entry_point p a t = Some (phys_to_virt p, t7)"
      using al B r by (simp add: setup_process_def Let_def)
    moreover have "frames t7 = frames t - {addr_to_pfn k}" "addr_to_pfn k \<in> frames t" using B h(5) by simp_all
    moreover have "pid_counter t7 = pid_counter t" using h(6) more_fields [OF keep(6)] by simp
    ultimately show ?thesis using h d False keep(1) by (intro exI [of _ "phys_to_virt p"] exI [of _ t7]) auto
  qed
qed

lemma user_pd_no_tables:
  assumes "\<not> table_pde (pde m pd 0)" "\<forall>i < 1024. pde m' a i = user_pd_entry m pd i"
  shows "\<forall>i < 768. \<not> table_pde (pde m' a i)"
proof (intro allI impI)
  fix i :: u32 assume i: "i < 768"
  then have "i < 1024" by (simp add: word_less_nat_alt)
  then show "\<not> table_pde (pde m' a i)" using assms i by (auto simp: user_pd_entry_def KERNEL_VBASE_PDE_def table_pde_def)
qed

lemma card_minus2: "x \<in> A \<Longrightarrow> y \<in> A \<Longrightarrow> x \<noteq> y \<Longrightarrow> card A = Suc (Suc (card (A - {x, y})))" for A :: "u32 set"
proof -
  assume a: "x \<in> A" "y \<in> A" "x \<noteq> y"
  then have eq: "A = insert x (insert y (A - {x, y}))" by auto
  have "x \<notin> insert y (A - {x, y})" "y \<notin> A - {x, y}" using a by auto
  then show ?thesis by (subst eq) simp
qed

lemma create_process_spec:
  fixes s :: "'a psys_scheme"
  assumes wf: "vm_wf s" and cur: "current_pd_phys s = active_pd s" and nt: "\<not> table_pde (pde (pmem s) (active_pd s) 0)"
  shows "\<exists>r t. sched_create_user_process eum entry_point s = Some (r, t) \<and> same_space s t \<and>
    (if card (frames s) < 3 then r = 0 \<and> frames t = frames s
     else \<exists>p a k. r = phys_to_virt p \<and> created eum entry_point s p a k t)"
proof -
  obtain p s1 where al: "pmm_alloc_page NUMA_NODE_LOCAL s = (p, s1)" by fastforce
  show ?thesis
  proof (cases "frames s = {}")
    case True
    have "same_space s s" using wf cur by (simp add: same_space_def)
    then have "same_space s s1" by (rule same_space_alloc [OF _ al])
    then show ?thesis using alloc_frame(4) [OF wf al True] al True by (simp add: sched_create_user_process_def)
  next
    case False
    from create_first_half [OF wf cur False al] obtain s2 s3 s4 a s5 s6 where
      run: "vmemset (phys_to_virt p) 0 PROCESS_BYTES s1 = Some s2"
        "vwrite (entry_at (phys_to_virt p) P_pid) (pid_counter s2) (s2\<lparr>pid_counter := pid_counter s2 + 1\<rparr>) = Some s3"
        "vwrite (entry_at (phys_to_virt p) P_state) PROCESS_STATE_NEW s3 = Some s4"
        "vmm_create_user_pd s4 = Some (a, s5)" "vwrite (entry_at (phys_to_virt p) P_cr3) a s5 = Some s6" "p \<noteq> 0"
      and f: "addr_to_pfn p \<in> frames s" "same_space s s6" "owned s6 p" "pid_counter s6 = pid_counter s + 1"
        "frames s - {addr_to_pfn p} = {} \<Longrightarrow> a = 0 \<and> frames s6 = {}"
      and g: "frames s - {addr_to_pfn p} \<noteq> {} \<Longrightarrow> a \<noteq> 0 \<and> owned s6 a \<and> p \<noteq> a \<and> addr_to_pfn a \<in> frames s \<and>
         frames s6 = frames s - {addr_to_pfn p, addr_to_pfn a} \<and>
         (\<forall>i < 1024. pde (pmem s6) a i = user_pd_entry (pmem s) (active_pd s) i) \<and>
         (\<forall>j < 16. pde (pmem s6) p j = (if j = P_cr3 then a else if j = P_pid then pid_counter s else 0))"
      by blast
    have hp: "highest_page s6 = highest_page s" and wf6: "vm_wf s6" using f(2) by (simp_all add: same_space_def)
    show ?thesis
    proof (cases "frames s - {addr_to_pfn p} = {}")
      case one: True
      then have fs: "frames s = {addr_to_pfn p}" using f(1) by auto
      note r = wf_frames [OF wf f(1)]
      have "frames (pmm_free_page p s6) = frames s" using free_owned(4) [OF wf6 f(3)] r hp f(5) [OF one] fs by simp
      then show ?thesis
        using al run f(5) [OF one] same_space_free [OF f(2,3) r] fs by (simp add: sched_create_user_process_def)
    next
      case two: False
      note g = g [OF two]
      obtain s7 where b: "vwrite (entry_at (phys_to_virt p) P_pd_virt) (phys_to_virt a) s6 = Some s7"
        "wrote p ((pde (pmem s6) p)(P_pd_virt := phys_to_virt a)) s6 s7"
        using wrote_vwrite [OF wf6 f(3), of P_pd_virt "phys_to_virt a"] by (auto simp: P_pd_virt_def)
      note W = wrote_facts [OF b(2) wf6 f(3)]
      have s7: "same_space s s7" by (rule same_space_wrote [OF f(2) b(2) f(3)])
      have o7: "owned s7 p" "owned s7 a" using W(3) f(3) g by simp_all
      have pa7: "\<forall>i < 1024. pde (pmem s7) a i = user_pd_entry (pmem s) (active_pd s) i"
        using W(5) [of a] g o7(2) by (auto simp: owned_def)
      have fr7: "frames s7 = frames s - {addr_to_pfn p, addr_to_pfn a}" using W(6) g by simp
      have pna: "addr_to_pfn p \<noteq> addr_to_pfn a" using pfn_inj [of p a] g o7 by (auto simp: owned_def)
      have card: "card (frames s) < 3 \<longleftrightarrow> frames s7 = {}"
        using card_minus2 [OF f(1) _ pna] g unfolding fr7 by (auto simp: card_gt_0_iff)
      obtain r t where t: "setup_process eum entry_point p a s7 = Some (r, t)" "same_space s t"
        and post: "if frames s7 = {} then r = 0 \<and> frames t = frames s
          else \<exists>k. r = phys_to_virt p \<and> distinct [p, a, k] \<and> (\<forall>q \<in> {p, a, k}. owned t q) \<and> addr_to_pfn k \<in> frames s7 \<and>
            frames t = frames s7 - {addr_to_pfn k} \<and> pid_counter t = pid_counter s7 \<and>
            (\<forall>i < 1024. pde (pmem t) a i = pde (pmem s7) a i) \<and> trampoline_words eum entry_point (pde (pmem t) k) \<and>
            (\<forall>j < 1024. pde (pmem t) p j = ((pde (pmem s7) p)(P_kstack_top := phys_to_virt k + 4096,
              P_esp := entry_at (phys_to_virt k) 1016, P_mem_pages_limit := 256, P_quantum_ms := 50, P_ticks_remaining := 5)) j)"
        using setup_process_spec [OF wf s7 o7 _ f(1) _ fr7 user_pd_no_tables [OF nt pa7], of eum entry_point] g by metis
      have run_all: "sched_create_user_process eum entry_point s = Some (r, t)"
        using al run b(1) g t(1) by (simp add: sched_create_user_process_def)
      show ?thesis
      proof (cases "frames s7 = {}")
        case True
        then show ?thesis using run_all t(2) post card by simp
      next
        case ne: False
        then obtain k where k: "r = phys_to_virt p" "distinct [p, a, k]" "\<forall>q \<in> {p, a, k}. owned t q" "addr_to_pfn k \<in> frames s7"
          "frames t = frames s7 - {addr_to_pfn k}" "pid_counter t = pid_counter s7"
          "\<forall>i < 1024. pde (pmem t) a i = pde (pmem s7) a i" "trampoline_words eum entry_point (pde (pmem t) k)"
          "\<forall>j < 1024. pde (pmem t) p j = ((pde (pmem s7) p)(P_kstack_top := phys_to_virt k + 4096,
              P_esp := entry_at (phys_to_virt k) 1016, P_mem_pages_limit := 256, P_quantum_ms := 50, P_ticks_remaining := 5)) j"
          using post by auto
        have w: "pde (pmem s7) p j = (if j = P_pd_virt then phys_to_virt a else if j = P_cr3 then a
            else if j = P_pid then pid_counter s else 0)" if "j < 16" for j
        proof -
          have "j < 1024" using that by (simp add: word_less_nat_alt)
          then show ?thesis using W(4) g that by (auto simp: fun_upd_def)
        qed
        have "pcb_words (pid_counter s) a k (pde (pmem t) p)" using k(9) w by (simp add: pcb_words_def zconst)
        moreover have "pid_counter s7 = pid_counter s + 1" using b(2) f(4) by (auto simp: wrote_def)
        moreover have "frames t = frames s - addr_to_pfn ` {p, a, k}" using k(5) fr7 by auto
        ultimately have "created eum entry_point s p a k t"
          unfolding created_def using k pa7 f(1) g fr7 by auto
        then show ?thesis using run_all t(2) card ne k(1) by (intro exI [of _ r] exI [of _ t]) auto
      qed
    qed
  qed
qed

lemma phys_virt: "virt_to_phys (phys_to_virt p) = p" "virt_to_phys (phys_to_virt p + 4096 - 4096) = p"
  by (simp_all add: virt_to_phys_def phys_to_virt_def)

lemma phys_to_virt_nonzero:
  assumes "aligned p" "in_direct p"
  shows "phys_to_virt p \<noteq> 0" "phys_to_virt p + 4096 \<noteq> 0"
proof -
  have "unat (phys_to_virt p) = unat p + 0xC0000000" "unat (phys_to_virt p + 4096) = unat p + 0xC0001000"
    using assms(2) by (simp_all add: phys_to_virt_def KERNEL_VBASE_def in_direct_def unat_word_ariths)
  then show "phys_to_virt p \<noteq> 0" "phys_to_virt p + 4096 \<noteq> 0" by auto
qed

lemma destroy_process_spec:
  fixes t :: "'a psys_scheme"
  assumes sp: "same_space s t" and d: "distinct [p, a, k]" and o: "owned t p" "owned t a" "owned t k"
    and fr: "addr_to_pfn p \<in> frames s" "addr_to_pfn a \<in> frames s" "addr_to_pfn k \<in> frames s" and wf: "vm_wf s"
    and w: "pde (pmem t) p P_kstack_top = phys_to_virt k + 4096" "pde (pmem t) p P_cr3 = a"
    and none: "\<forall>i < 768. \<not> table_pde (pde (pmem t) a i)"
  shows "\<exists>u. sched_destroy_process (phys_to_virt p) t = Some u \<and> same_space s u \<and>
    frames u = frames t \<union> addr_to_pfn ` {p, a, k}"
proof -
  have al: "aligned p" "in_direct p" "aligned a" "in_direct a" "aligned k" "in_direct k" using o by (simp_all add: owned_def)
  have r: "256 \<le> addr_to_pfn q \<and> addr_to_pfn q \<le> highest_page s" if "q \<in> {p, a, k}" for q
    using wf_frames [OF wf, of "addr_to_pfn q"] fr that by auto
  have a0: "a \<noteq> 0" using r [of a] by (auto simp: addr_to_pfn_def)
  let ?t1 = "pmm_free_page k t"
  let ?t2 = "pmm_free_page a ?t1"
  let ?t3 = "pmm_free_page p ?t2"
  have hp: "highest_page t = highest_page s" and wft: "vm_wf t" using sp by (simp_all add: same_space_def)
  have s1: "same_space s ?t1" using same_space_free [OF sp o(3)] r by simp
  have o1: "owned ?t1 p" "owned ?t1 a" using free_owned(5) [OF wft o(3)] r [of k] hp d o by auto
  have wf1: "vm_wf ?t1" using s1 by (simp add: same_space_def)
  have s2: "same_space s ?t2" using same_space_free [OF s1 o1(2)] r by simp
  have o2: "owned ?t2 p" using free_owned(5) [OF wf1 o1(2)] r [of a] hp d o1(1) by auto
  have wf2: "vm_wf ?t2" using s2 by (simp add: same_space_def)
  have s3: "same_space s ?t3" using same_space_free [OF s2 o2] r by simp
  have rd: "vread (entry_at (phys_to_virt p) P_kstack_top) t = Some (phys_to_virt k + 4096)"
    "vread (entry_at (phys_to_virt p) P_cr3) ?t1 = Some a"
    using owned_access(1) [OF wft o(1), of P_kstack_top] owned_access(1) [OF wf1 o1(1), of P_cr3] w by (simp_all add: zconst)
  have de: "vmm_destroy_user_pd a ?t1 = Some ?t2"
    by (rule destroy_empty) (use vm_wf_facts(2) [OF wf1] al none in simp_all)
  have "sched_destroy_process (phys_to_virt p) t = Some ?t3"
    using rd de a0 phys_to_virt_nonzero [OF al(1,2)] phys_to_virt_nonzero [OF al(5,6)]
    by (simp add: sched_destroy_process_def phys_virt)
  moreover have "frames ?t3 = frames t \<union> addr_to_pfn ` {p, a, k}"
    using free_owned(4) [OF wft o(3)] free_owned(4) [OF wf1 o1(2)] free_owned(4) [OF wf2 o2] r hp by auto
  ultimately show ?thesis using s3 by blast
qed

section \<open>Properties\<close>

text \<open>
  C15: Creating a process never faults and is all-or-nothing. With fewer than three free frames it returns null and
  every frame it took is free again. Otherwise it takes exactly three frames: a control block with the next pid,
  the directory, the top of the kernel stack, the stack pointer and the default contract in its fields, a directory
  that has the kernel's entries and no user mapping, and a kernel stack that holds the trampoline frame. In both
  cases the active directory and what every address translates to are as before.
\<close>

theorem sched_create_user_process_correct:
  fixes s :: "'a psys_scheme"
  assumes "vm_wf s" and "current_pd_phys s = active_pd s" and "\<not> table_pde (pde (pmem s) (active_pd s) 0)"
  shows "\<exists>r t. sched_create_user_process eum entry_point s = Some (r, t) \<and> vm_wf t \<and> mmu t = mmu s \<and> active_pd t = active_pd s \<and>
    (if card (frames s) < 3 then r = 0 \<and> frames t = frames s
     else \<exists>p a k. r = phys_to_virt p \<and> created eum entry_point s p a k t)"
proof -
  obtain r t where t: "sched_create_user_process eum entry_point s = Some (r, t)" "same_space s t"
    "if card (frames s) < 3 then r = 0 \<and> frames t = frames s else \<exists>p a k. r = phys_to_virt p \<and> created eum entry_point s p a k t"
    using create_process_spec [OF assms] by blast
  have "mmu t = mmu s" using t(2) vm_wf_mmu assms(1) by (metis same_space_def)
  then show ?thesis using t by (auto simp: same_space_def)
qed

text \<open>
  Destroying a process that was just created gives every frame back: the set of free frames and what every
  address translates to are those before the creation.
\<close>

theorem sched_create_destroy_roundtrip:
  fixes s :: "'a psys_scheme"
  assumes wf: "vm_wf s" and cur: "current_pd_phys s = active_pd s" and nt: "\<not> table_pde (pde (pmem s) (active_pd s) 0)"
    and run: "sched_create_user_process eum entry_point s = Some (r, t)"
  shows "\<exists>u. sched_destroy_process r t = Some u \<and> frames u = frames s \<and> vm_wf u \<and> mmu u = mmu s"
proof -
  have sp: "same_space s t" and post: "if card (frames s) < 3 then r = 0 \<and> frames t = frames s
      else \<exists>p a k. r = phys_to_virt p \<and> created eum entry_point s p a k t"
    using create_process_spec [OF wf cur nt, of eum entry_point] run by auto
  have fin: ?thesis if "sched_destroy_process r t = Some u" "frames u = frames s" "same_space s u" for u
    using that vm_wf_mmu [OF wf] vm_wf_mmu [of u] by (auto simp: same_space_def)
  show ?thesis
  proof (cases "card (frames s) < 3")
    case True
    then show ?thesis using post sp fin [of t] by (simp add: sched_destroy_process_def)
  next
    case False
    then obtain p a k where r: "r = phys_to_virt p" and c: "created eum entry_point s p a k t" using post by auto
    then have d: "distinct [p, a, k]" and o: "owned t p" "owned t a" "owned t k"
      and fr: "addr_to_pfn p \<in> frames s" "addr_to_pfn a \<in> frames s" "addr_to_pfn k \<in> frames s"
      and ft: "frames t = frames s - addr_to_pfn ` {p, a, k}"
      and w: "pde (pmem t) p P_kstack_top = phys_to_virt k + 4096" "pde (pmem t) p P_cr3 = a"
      and pd: "\<forall>i < 1024. pde (pmem t) a i = user_pd_entry (pmem s) (active_pd s) i"
      by (auto simp: created_def pcb_words_def)
    obtain u where "sched_destroy_process (phys_to_virt p) t = Some u" "same_space s u" "frames u = frames t \<union> addr_to_pfn ` {p, a, k}"
      using destroy_process_spec [OF sp d o fr wf w user_pd_no_tables [OF nt pd]] by blast
    moreover have "frames t \<union> addr_to_pfn ` {p, a, k} = frames s" using ft fr by auto
    ultimately show ?thesis using fin [of u] r by simp
  qed
qed

section \<open>Witnesses\<close>

text \<open>The machine of the virtual memory manager's witnesses with five free frames, running the kernel alone.\<close>

definition roomy :: psys where
  "roomy = vmm.extend (ready_vm\<lparr>page_bitmap := (\<lambda>_. 0xFF)(32 := 0xE0), free_pages := 5, highest_page := 261,
     numa_nodes := (\<lambda>i. if i = 0
       then \<lparr>nn_node_id = 0, nn_base_addr = 0x100000, nn_start_pfn = 256, nn_end_pfn = 261,
             nn_total_pages = 5, nn_free_pages = 5, nn_used_pages = 0\<rparr>
       else \<lparr>nn_node_id = 1, nn_base_addr = 0x105000, nn_start_pfn = 261, nn_end_pfn = 262,
             nn_total_pages = 1, nn_free_pages = 0, nn_used_pages = 1\<rparr>),
     numa_node_count := 2\<rparr>)
   \<lparr>pid_counter = 1, process_list = 0, current_process = 0, esp = 0xC0004000, ebp = 1, ebx = 2, esi = 3, edi = 4,
    eip = 0xC0100000, tss_esp0 = 0\<rparr>"

lemma roomy_vm:
  "active_pd roomy = active_pd ready_vm" "pmem roomy = pmem ready_vm" "tlb roomy = (\<lambda>_. None)"
  "current_pd_phys roomy = active_pd roomy" "cr3 roomy = cr3 ready_vm"
  by (simp_all add: roomy_def vmm.defs active_pd_def ready_vm(5) ready_vm(2)[unfolded active_pd_def])

lemma frames_roomy: "frames roomy = {256, 257, 258, 259, 260}"
proof (rule set_eqI)
  fix p :: u32
  have div32: "unat p div 8 = 32 \<and> unat p mod 8 < 5 \<longleftrightarrow>
      unat p = 256 \<or> unat p = 257 \<or> unat p = 258 \<or> unat p = 259 \<or> unat p = 260" by presburger
  have "k < 8 \<Longrightarrow> bit (0xE0 :: u8) k \<longleftrightarrow> 5 \<le> k" for k
    by (simp add: numeral_eq_Suc less_Suc_eq) auto
  then have "p \<in> frames roomy \<longleftrightarrow> unat p < 65536 \<and> unat p div 8 = 32 \<and> unat p mod 8 < 5"
    using bit_FF [of "unat p mod 8"]
    by (simp add: frames_iff roomy_def vmm.defs bitmap_test_def PMM_MAX_PAGES_def word_less_nat_alt bits_test_bit not_le)
  then show "p \<in> frames roomy \<longleftrightarrow> p \<in> {256, 257, 258, 259, 260}"
    unfolding div32 by (auto simp: word_unat_eq_iff)
qed

lemma roomy_wf: "vm_wf roomy"
proof -
  have "node_frames roomy 0 = {256, 257, 258, 259, 260}" "node_frames roomy 1 = {}"
    unfolding node_frames_def frames_roomy by (auto simp: node_range_def roomy_def vmm.defs)
  then have "node_count_ok roomy 0" "node_count_ok roomy 1" by (simp_all add: node_count_ok_def roomy_def vmm.defs)
  then have "pmm_wf roomy"
    unfolding pmm_wf_def frames_roomy by (simp add: pmm_topology_def roomy_def vmm.defs PMM_MAX_PAGES_def)
  moreover have "direct roomy" using vm_wf_facts(2) [OF ready_vm(1)] by (simp add: direct_def tlb_coherent_def roomy_vm)
  ultimately show ?thesis
    using ready_vm(1) unfolding vm_wf_def frames_roomy
    by (simp add: roomy_vm ready_vm_tables [unfolded ready_vm(3)] ready_vm(3) in_direct_def pfn_to_addr_def addr_to_pfn_def)
qed

lemma roomy_pde0: "\<not> table_pde (pde (pmem roomy) (active_pd roomy) 0)"
  using ready_user(3) by (simp add: roomy_vm)

theorem sched_create_user_process_correct_witness:
  "\<exists>p a k t. sched_create_user_process 0xC0100400 0x40000000 roomy = Some (phys_to_virt p, t) \<and>
     pde (pmem t) p P_cr3 = a \<and> pde (pmem t) k 1022 = 0x40000000 \<and> card (frames t) = 2"
proof -
  obtain p a k t where t: "sched_create_user_process 0xC0100400 0x40000000 roomy = Some (phys_to_virt p, t)"
    "created 0xC0100400 0x40000000 roomy p a k t"
    using sched_create_user_process_correct [OF roomy_wf roomy_vm(4) roomy_pde0, of "0xC0100400" "0x40000000"]
    by (auto simp: frames_roomy)
  then have d: "distinct [p, a, k]" and q: "\<forall>q \<in> {p, a, k}. owned t q \<and> addr_to_pfn q \<in> frames roomy"
    and fr: "frames t = frames roomy - addr_to_pfn ` {p, a, k}" and w: "pcb_words 1 a k (pde (pmem t) p)"
    "trampoline_words 0xC0100400 0x40000000 (pde (pmem t) k)"
    unfolding created_def by (simp_all add: roomy_def vmm.defs)
  have "inj_on addr_to_pfn {p, a, k}"
    by (rule inj_onI, rule pfn_inj) (use q in \<open>auto simp: owned_def\<close>)
  then have "card (addr_to_pfn ` {p, a, k}) = 3" using d card_image [of addr_to_pfn "{p, a, k}"] by simp
  moreover have "addr_to_pfn ` {p, a, k} \<subseteq> frames roomy" using q by blast
  ultimately have "card (frames t) = 2" unfolding fr by (subst card_Diff_subset) (simp_all add: frames_roomy)
  then show ?thesis using t(1) w unfolding pcb_words_def trampoline_words_def by blast
qed

theorem sched_create_destroy_roundtrip_witness:
  "\<exists>r t u. sched_create_user_process 0xC0100400 0x40000000 roomy = Some (r, t) \<and> sched_destroy_process r t = Some u \<and>
     frames u = {256, 257, 258, 259, 260}"
proof -
  obtain r t where t: "sched_create_user_process 0xC0100400 0x40000000 roomy = Some (r, t)"
    using create_process_spec [OF roomy_wf roomy_vm(4) roomy_pde0] by blast
  then show ?thesis using sched_create_destroy_roundtrip [OF roomy_wf roomy_vm(4) roomy_pde0 t] by (auto simp: frames_roomy)
qed

end
