(* ===== verification/Context_Switch.thy ===== *)
theory Context_Switch
  imports Process
begin

text \<open>
  The context switch (\<^verbatim>\<open>switch_to\<close> in \<^verbatim>\<open>kernel/arch/switch.s\<close>) and the timer tick that drives it (\<^verbatim>\<open>schedule\<close> in
  \<^verbatim>\<open>kernel/sched/sched_core.c\<close>). A switch pushes the callee-saved registers on the running kernel stack, stores the
  stack pointer in the control block, loads the next process's stack pointer and directory, and pops. Every push,
  pop and field access goes through the MMU, across the change of CR3.
\<close>

section \<open>The switch\<close>

definition push :: "u32 \<Rightarrow> 'a psys_scheme \<Rightarrow> 'a psys_scheme option" where
  "push v s = vwrite (esp s - 4) v (s\<lparr>esp := esp s - 4\<rparr>)"

definition pop :: "'a psys_scheme \<Rightarrow> (u32 \<times> 'a psys_scheme) option" where
  "pop s = map_option (\<lambda>v. (v, s\<lparr>esp := esp s + 4\<rparr>)) (vread (esp s) s)"

definition gdt_set_kernel_stack :: "u32 \<Rightarrow> 'a psys_scheme \<Rightarrow> 'a psys_scheme" where
  "gdt_set_kernel_stack stack s = s\<lparr>tss_esp0 := stack\<rparr>"

text \<open>
  The stack and the arguments of \<open>switch_to\<close>: \<open>ret_addr\<close> is the return address of its call, and the two control
  blocks are taken from the call, not read back from the stack. Of the call to \<open>gdt_set_kernel_stack\<close> the two
  pushes of \<open>switch_to\<close> itself are modelled. Steps 1 and 2 save the running context, steps 3 to 7 load the next.
\<close>

definition switch_save :: "u32 \<Rightarrow> u32 \<Rightarrow> 'a psys_scheme \<Rightarrow> 'a psys_scheme option" where
  "switch_save ret_addr prv s = do {
     s \<leftarrow> push ret_addr s;
     s \<leftarrow> push (ebp s) s;
     s \<leftarrow> push (ebx s) s;
     s \<leftarrow> push (esi s) s;
     s \<leftarrow> push (edi s) s;
     vwrite (entry_at prv P_esp) (esp s) s
   }"

definition pop_context :: "'a psys_scheme \<Rightarrow> 'a psys_scheme option" where
  "pop_context s = do {
     (v, s) \<leftarrow> pop s;
     let s = s\<lparr>edi := v\<rparr>;
     (v, s) \<leftarrow> pop s;
     let s = s\<lparr>esi := v\<rparr>;
     (v, s) \<leftarrow> pop s;
     let s = s\<lparr>ebx := v\<rparr>;
     (v, s) \<leftarrow> pop s;
     let s = s\<lparr>ebp := v\<rparr>;
     (v, s) \<leftarrow> pop s;
     Some (s\<lparr>eip := v\<rparr>)
   }"

definition load_pd :: "u32 \<Rightarrow> 'a psys_scheme \<Rightarrow> 'a psys_scheme" where
  "load_pd pd s = (if read_cr3 s = pd then s else write_cr3 pd s)"

definition switch_load :: "u32 \<Rightarrow> 'a psys_scheme \<Rightarrow> 'a psys_scheme option" where
  "switch_load nxt s = do {
     sp \<leftarrow> vread (entry_at nxt P_esp) s;
     let s = s\<lparr>esp := sp\<rparr>;
     pd \<leftarrow> vread (entry_at nxt P_cr3) s;
     let s = load_pd pd s;
     kst \<leftarrow> vread (entry_at nxt P_kstack_top) s;
     s \<leftarrow> push nxt s;
     s \<leftarrow> push kst s;
     let s = gdt_set_kernel_stack kst s;
     let s = s\<lparr>esp := esp s + 4\<rparr>;
     (_, s) \<leftarrow> pop s;
     pop_context s
   }"

definition switch_to :: "u32 \<Rightarrow> u32 \<Rightarrow> u32 \<Rightarrow> 'a psys_scheme \<Rightarrow> 'a psys_scheme option" where
  "switch_to ret_addr prv nxt s = switch_save ret_addr prv s \<bind> switch_load nxt"

text \<open>The timer tick: \<open>ret_addr\<close> is where \<open>schedule\<close> continues when the process runs again.\<close>

definition schedule :: "u32 \<Rightarrow> 'a psys_scheme \<Rightarrow> 'a psys_scheme option" where
  "schedule ret_addr s =
     (let cur = current_process s
      in if cur = 0 then Some s
         else do {
           ticks \<leftarrow> vread (entry_at cur P_ticks_remaining) s;
           if ticks > 0 then vwrite (entry_at cur P_ticks_remaining) (ticks - 1) s
           else do {
             s \<leftarrow> vwrite (entry_at cur P_ticks_remaining) 5 s;
             nxt \<leftarrow> vread (entry_at cur P_next) s;
             if nxt = 0 then Some s
             else if nxt = cur then Some s
             else do {
               let s = s\<lparr>current_process := nxt\<rparr>;
               st \<leftarrow> vread (entry_at cur P_state) s;
               s \<leftarrow> (if st = PROCESS_STATE_RUNNING then vwrite (entry_at cur P_state) PROCESS_STATE_READY s else Some s);
               s \<leftarrow> vwrite (entry_at nxt P_state) PROCESS_STATE_RUNNING s;
               switch_to ret_addr cur nxt s
             }
           }
         })"

section \<open>Stack steps\<close>

lemma wrote_esp: "wrote k g s t \<Longrightarrow> wrote k g (s\<lparr>esp := x\<rparr>) (t\<lparr>esp := x\<rparr>)" for s t :: "'a psys_scheme"
proof -
  assume "wrote k g s t"
  then obtain m where m: "t = s\<lparr>pmem := m\<rparr>" "same_except k (pmem s) m" "\<forall>j < 1024. pde m k j = g j" by (auto simp: wrote_def)
  then show "wrote k g (s\<lparr>esp := x\<rparr>) (t\<lparr>esp := x\<rparr>)" unfolding wrote_def by (intro exI [of _ m]) simp
qed

lemma push_at:
  fixes s t :: "'a psys_scheme"
  assumes "vm_wf s" "owned s k" "wrote k g s t" "esp s = entry_at (phys_to_virt k) (j + 1)" "j < 1024"
  shows "\<exists>u. push v t = Some u \<and> wrote k (g(j := v)) (s\<lparr>esp := entry_at (phys_to_virt k) j\<rparr>) u"
proof -
  let ?e = "entry_at (phys_to_virt k) j"
  have e: "esp t - 4 = ?e" using assms(3,4) by (auto simp: wrote_def entry_at_def distrib_left)
  have "vm_wf (s\<lparr>esp := ?e\<rparr>)" "owned (s\<lparr>esp := ?e\<rparr>) k" using assms(1,2) by simp_all
  from field_step [OF this wrote_esp [OF assms(3)] assms(5)]
  show ?thesis unfolding push_def e by blast
qed

lemma pop_at:
  fixes s :: "'a psys_scheme"
  assumes "vm_wf s" "owned s k" "esp s = entry_at (phys_to_virt k) j" "j < 1024"
  shows "pop s = Some (pde (pmem s) k j, s\<lparr>esp := entry_at (phys_to_virt k) (j + 1)\<rparr>)"
  using owned_access(1) [OF assms(1,2,4)] assms(3) by (simp add: pop_def entry_at_def distrib_left)

lemma small_index: "n < 1020 \<Longrightarrow> n < 1024 \<and> n + 1 < 1024 \<and> n + 2 < 1024 \<and> n + 3 < 1024 \<and> n + 4 < 1024" for n :: u32
  by (simp add: word_less_nat_alt unat_word_ariths)

section \<open>Saving\<close>

text \<open>The registers a switch keeps, and their image on a stack from word \<open>n\<close> on.\<close>

definition regs :: "'a psys_scheme \<Rightarrow> u32 list" where
  "regs s = [edi s, esi s, ebx s, ebp s, eip s]"

definition frame_words :: "(u32 \<Rightarrow> u32) \<Rightarrow> u32 \<Rightarrow> u32 list" where
  "frame_words w n = [w n, w (n + 1), w (n + 2), w (n + 3), w (n + 4)]"

lemma switch_save_spec:
  fixes s :: "'a psys_scheme"
  assumes wf: "vm_wf s" and o: "owned s c" "owned s ks" and ne: "c \<noteq> ks"
    and sp: "esp s = entry_at (phys_to_virt ks) (n + 5)" and n: "n < 1020"
  obtains t t' where "switch_save ret_addr (phys_to_virt c) s = Some t"
    "wrote ks ((pde (pmem s) ks)(n + 4 := ret_addr, n + 3 := ebp s, n + 2 := ebx s, n + 1 := esi s, n := edi s))
       (s\<lparr>esp := entry_at (phys_to_virt ks) n\<rparr>) t'"
    "wrote c ((pde (pmem t') c)(P_esp := entry_at (phys_to_virt ks) n)) t' t"
proof -
  let ?e = "entry_at (phys_to_virt ks)"
  let ?s = "\<lambda>j. s\<lparr>esp := ?e j\<rparr>"
  note i = small_index [OF n]
  have wo: "vm_wf (?s j)" "owned (?s j) ks" "owned (?s j) c" for j using wf o by simp_all
  obtain a where a: "push ret_addr s = Some a" "wrote ks ((pde (pmem s) ks)(n + 4 := ret_addr)) (?s (n + 4)) a"
    using push_at [OF wf o(2) wrote_refl, of "n + 4" ret_addr] sp i by (auto simp: add.assoc)
  obtain b where b: "push (ebp s) a = Some b"
    "wrote ks ((pde (pmem s) ks)(n + 4 := ret_addr, n + 3 := ebp s)) (?s (n + 3)) b"
    using push_at [OF wo(1,2) a(2), of "n + 3" "ebp s"] i by (auto simp: add.assoc)
  obtain d where d: "push (ebx s) b = Some d"
    "wrote ks ((pde (pmem s) ks)(n + 4 := ret_addr, n + 3 := ebp s, n + 2 := ebx s)) (?s (n + 2)) d"
    using push_at [OF wo(1,2) b(2), of "n + 2" "ebx s"] i by (auto simp: add.assoc)
  obtain e where e: "push (esi s) d = Some e"
    "wrote ks ((pde (pmem s) ks)(n + 4 := ret_addr, n + 3 := ebp s, n + 2 := ebx s, n + 1 := esi s)) (?s (n + 1)) e"
    using push_at [OF wo(1,2) d(2), of "n + 1" "esi s"] i by (auto simp: add.assoc)
  obtain f where f: "push (edi s) e = Some f"
    "wrote ks ((pde (pmem s) ks)(n + 4 := ret_addr, n + 3 := ebp s, n + 2 := ebx s, n + 1 := esi s, n := edi s)) (?s n) f"
    using push_at [OF wo(1,2) e(2), of n "edi s"] i by auto
  have reg: "ebp a = ebp s" "ebx b = ebx s" "esi d = esi s" "edi e = edi s" "esp f = ?e n"
    using a(2) b(2) d(2) e(2) f(2) by (auto simp: wrote_def)
  note W = wrote_facts [OF f(2) wo(1,2)]
  have of: "owned f c" using W(3) o(1) by simp
  obtain g where g: "vwrite (entry_at (phys_to_virt c) P_esp) (?e n) f = Some g" "wrote c ((pde (pmem f) c)(P_esp := ?e n)) f g"
    using wrote_vwrite [OF W(1) of, of P_esp "?e n"] by (auto simp: P_esp_def)
  have "switch_save ret_addr (phys_to_virt c) s = Some g"
    using a(1) b(1) d(1) e(1) f(1) g(1) reg by (simp add: switch_save_def)
  then show thesis using that f(2) g(2) by blast
qed

section \<open>Loading\<close>

lemma pop_context_spec:
  fixes s :: "'a psys_scheme"
  assumes wf: "vm_wf s" and o: "owned s k" and sp: "esp s = entry_at (phys_to_virt k) n" and n: "n < 1020"
  shows "pop_context s = Some (s\<lparr>esp := entry_at (phys_to_virt k) (n + 5), edi := pde (pmem s) k n, esi := pde (pmem s) k (n + 1),
    ebx := pde (pmem s) k (n + 2), ebp := pde (pmem s) k (n + 3), eip := pde (pmem s) k (n + 4)\<rparr>)"
proof -
  let ?e = "entry_at (phys_to_virt k)" and ?w = "pde (pmem s) k"
  note i = small_index [OF n]
  let ?s1 = "s\<lparr>esp := ?e (n + 1), edi := ?w n\<rparr>"
  let ?s2 = "s\<lparr>edi := ?w n, esp := ?e (n + 2), esi := ?w (n + 1)\<rparr>"
  let ?s3 = "s\<lparr>edi := ?w n, esi := ?w (n + 1), esp := ?e (n + 3), ebx := ?w (n + 2)\<rparr>"
  let ?s4 = "s\<lparr>edi := ?w n, esi := ?w (n + 1), ebx := ?w (n + 2), esp := ?e (n + 4), ebp := ?w (n + 3)\<rparr>"
  have "pop s = Some (?w n, s\<lparr>esp := ?e (n + 1)\<rparr>)" using pop_at [OF wf o sp] i by simp
  moreover have "pop ?s1 = Some (?w (n + 1), ?s1\<lparr>esp := ?e (n + 2)\<rparr>)"
    using pop_at [of ?s1 k "n + 1"] wf o i by (simp add: add.assoc)
  moreover have "pop ?s2 = Some (?w (n + 2), ?s2\<lparr>esp := ?e (n + 3)\<rparr>)"
    using pop_at [of ?s2 k "n + 2"] wf o i by (simp add: add.assoc)
  moreover have "pop ?s3 = Some (?w (n + 3), ?s3\<lparr>esp := ?e (n + 4)\<rparr>)"
    using pop_at [of ?s3 k "n + 3"] wf o i by (simp add: add.assoc)
  moreover have "pop ?s4 = Some (?w (n + 4), ?s4\<lparr>esp := ?e (n + 5)\<rparr>)"
    using pop_at [of ?s4 k "n + 4"] wf o i by (simp add: add.assoc)
  ultimately show ?thesis by (simp add: pop_context_def)
qed

lemma load_pd_simps [simp]:
  "pmem (load_pd pd s) = pmem s" "esp (load_pd pd s) = esp s" "cr3 (load_pd pd s) = pd"
  "current_process (load_pd pd s) = current_process s"
  "load_pd pd (s\<lparr>esp := x\<rparr>) = (load_pd pd s)\<lparr>esp := x\<rparr>" "load_pd pd (s\<lparr>pmem := m\<rparr>) = (load_pd pd s)\<lparr>pmem := m\<rparr>"
  "load_pd pd (s\<lparr>edi := x\<rparr>) = (load_pd pd s)\<lparr>edi := x\<rparr>" "load_pd pd (s\<lparr>esi := x\<rparr>) = (load_pd pd s)\<lparr>esi := x\<rparr>"
  "load_pd pd (s\<lparr>ebx := x\<rparr>) = (load_pd pd s)\<lparr>ebx := x\<rparr>" "load_pd pd (s\<lparr>ebp := x\<rparr>) = (load_pd pd s)\<lparr>ebp := x\<rparr>"
  "load_pd pd (s\<lparr>eip := x\<rparr>) = (load_pd pd s)\<lparr>eip := x\<rparr>" "load_pd pd (s\<lparr>tss_esp0 := x\<rparr>) = (load_pd pd s)\<lparr>tss_esp0 := x\<rparr>"
  by (simp_all add: load_pd_def read_cr3_def write_cr3_def)

lemma load_pd_active: "aligned pd \<Longrightarrow> active_pd (load_pd pd s) = pd"
  by (simp add: active_pd_def aligned_def PTE_ADDR_def)

lemma switch_load_spec:
  fixes s :: "'a psys_scheme"
  assumes wf: "vm_wf s" and o: "owned s p" and wf1: "vm_wf (load_pd a s)" and o1: "owned (load_pd a s) p" "owned (load_pd a s) k"
    and ne: "p \<noteq> k" and n: "n + 2 < 1020" "n < 1020"
    and w: "pde (pmem s) p P_esp = entry_at (phys_to_virt k) (n + 2)" "pde (pmem s) p P_cr3 = a"
  obtains t where "wrote k ((pde (pmem s) k)(n + 1 := phys_to_virt p, n := pde (pmem s) p P_kstack_top)) (load_pd a s) t"
    "switch_load (phys_to_virt p) s = Some (t\<lparr>tss_esp0 := pde (pmem s) p P_kstack_top, esp := entry_at (phys_to_virt k) (n + 7),
       edi := pde (pmem s) k (n + 2), esi := pde (pmem s) k (n + 3), ebx := pde (pmem s) k (n + 4), ebp := pde (pmem s) k (n + 5),
       eip := pde (pmem s) k (n + 6)\<rparr>)"
proof -
  let ?e = "entry_at (phys_to_virt k)" and ?kst = "pde (pmem s) p P_kstack_top" and ?w = "pde (pmem s) k"
  let ?s = "\<lambda>j. (load_pd a s)\<lparr>esp := ?e j\<rparr>"
  note i = small_index [OF n(2)]
  have wo: "vm_wf (?s j)" "owned (?s j) k" "owned (?s j) p" for j using wf1 o1 by simp_all
  have r: "vread (entry_at (phys_to_virt p) P_esp) s = Some (?e (n + 2))"
    "vread (entry_at (phys_to_virt p) P_cr3) (s\<lparr>esp := ?e (n + 2)\<rparr>) = Some a"
    "vread (entry_at (phys_to_virt p) P_kstack_top) (?s (n + 2)) = Some ?kst"
    using owned_access(1) [OF wf o, of P_esp] owned_access(1) [of "s\<lparr>esp := ?e (n + 2)\<rparr>" p P_cr3] wf o
      owned_access(1) [OF wo(1,3) [of "n + 2"], of P_kstack_top] w by (simp_all add: zconst)
  obtain b where b: "push (phys_to_virt p) (?s (n + 2)) = Some b" "wrote k (?w(n + 1 := phys_to_virt p)) (?s (n + 1)) b"
    using push_at [OF wo(1,2) wrote_refl, of "n + 2" "n + 1" "phys_to_virt p"] i by (auto simp: add.assoc)
  obtain d where d: "push ?kst b = Some d" "wrote k (?w(n + 1 := phys_to_virt p, n := ?kst)) (?s n) d"
    using push_at [OF wo(1,2) b(2), of n ?kst] i by auto
  note W = wrote_facts [OF d(2) wo(1,2)]
  have od: "owned d k" using W(3) wo(2) by simp
  let ?d1 = "d\<lparr>tss_esp0 := ?kst, esp := ?e (n + 1)\<rparr>"
  let ?d2 = "d\<lparr>tss_esp0 := ?kst, esp := ?e (n + 2)\<rparr>"
  have esp: "(gdt_set_kernel_stack ?kst d)\<lparr>esp := esp (gdt_set_kernel_stack ?kst d) + 4\<rparr> = ?d1"
    using d(2) by (auto simp: wrote_def gdt_set_kernel_stack_def entry_at_def distrib_left)
  have p1: "pop ?d1 = Some (pde (pmem d) k (n + 1), ?d2)"
    using pop_at [of ?d1 k "n + 1"] W(1) od i by (simp add: add.assoc)
  have far: "j \<noteq> n + 1 \<and> j \<noteq> n" if "j \<in> {n + 2, n + 3, n + 4, n + 5, n + 6}" for j
    using that by auto
  have lt: "j < 1024" if "j \<in> {n + 2, n + 3, n + 4, n + 5, n + 6}" for j
    using that small_index [OF n(1)] by (auto simp: add.assoc)
  have words: "pde (pmem d) k j = ?w j" if "j \<in> {n + 2, n + 3, n + 4, n + 5, n + 6}" for j
    using W(4) lt [OF that] far [OF that] by simp
  have "pop_context ?d2 = Some (?d2\<lparr>esp := ?e (n + 7), edi := ?w (n + 2), esi := ?w (n + 3), ebx := ?w (n + 4), ebp := ?w (n + 5),
      eip := ?w (n + 6)\<rparr>)"
    using pop_context_spec [of ?d2 k "n + 2"] W(1) od n(1) words by (simp add: add.assoc)
  then have run: "switch_load (phys_to_virt p) s = Some (d\<lparr>tss_esp0 := ?kst, esp := ?e (n + 7),
       edi := ?w (n + 2), esi := ?w (n + 3), ebx := ?w (n + 4), ebp := ?w (n + 5), eip := ?w (n + 6)\<rparr>)"
    using r b(1) d(1) esp p1 by (simp add: switch_load_def)
  obtain m where m: "d = (?s n)\<lparr>pmem := m\<rparr>" "same_except k (pmem s) m"
      "\<forall>j < 1024. pde m k j = (?w(n + 1 := phys_to_virt p, n := ?kst)) j" using d(2) by (auto simp: wrote_def)
  have "wrote k (?w(n + 1 := phys_to_virt p, n := ?kst)) (load_pd a s) ((load_pd a s)\<lparr>pmem := m\<rparr>)"
    unfolding wrote_def using m(2,3) by (intro exI [of _ m]) simp
  moreover have "d\<lparr>tss_esp0 := ?kst, esp := ?e (n + 7), edi := ?w (n + 2), esi := ?w (n + 3), ebx := ?w (n + 4),
      ebp := ?w (n + 5), eip := ?w (n + 6)\<rparr> = (load_pd a s)\<lparr>pmem := m, tss_esp0 := ?kst, esp := ?e (n + 7), edi := ?w (n + 2),
      esi := ?w (n + 3), ebx := ?w (n + 4), ebp := ?w (n + 5), eip := ?w (n + 6)\<rparr>" unfolding m(1) by simp
  ultimately show thesis using that run by simp
qed

section \<open>Switching\<close>

text \<open>
  A process is parked when its control block \<open>p\<close> holds the stack pointer, its stack \<open>k\<close> the registers from that word
  on. Two contexts, \<open>(c, ks)\<close> running and \<open>(p, k)\<close> parked, can be switched when their four pages are kernel pages both
  under the active directory and under the directory \<open>a\<close> to load.
\<close>

definition parked :: "'a psys_scheme \<Rightarrow> u32 \<Rightarrow> u32 \<Rightarrow> u32 \<Rightarrow> u32 list \<Rightarrow> bool" where
  "parked s p k n rs \<longleftrightarrow> pde (pmem s) p P_esp = entry_at (phys_to_virt k) n \<and> frame_words (pde (pmem s) k) n = rs"

definition switchable :: "'a psys_scheme \<Rightarrow> u32 \<Rightarrow> u32 list \<Rightarrow> bool" where
  "switchable s a pages \<longleftrightarrow> vm_wf s \<and> vm_wf (load_pd a s) \<and> distinct pages \<and>
     (\<forall>q \<in> set pages. owned s q \<and> owned (load_pd a s) q)"

lemma wrote_load: "wrote p g s t \<Longrightarrow> wrote p g (load_pd a s) (load_pd a t)" for s t :: "'a psys_scheme"
proof -
  assume "wrote p g s t"
  then obtain m where m: "t = s\<lparr>pmem := m\<rparr>" "same_except p (pmem s) m" "\<forall>j < 1024. pde m p j = g j" by (auto simp: wrote_def)
  then show ?thesis unfolding wrote_def by (intro exI [of _ m]) simp
qed

lemma switchable_wrote:
  fixes s t :: "'a psys_scheme"
  assumes sw: "switchable s a pages" and w: "wrote p g s t" and p: "p \<in> set pages"
  shows "switchable t a pages" "q \<in> set pages \<Longrightarrow> q \<noteq> p \<Longrightarrow> j < 1024 \<Longrightarrow> pde (pmem t) q j = pde (pmem s) q j"
    "j < 1024 \<Longrightarrow> pde (pmem t) p j = g j"
proof -
  have wf: "vm_wf s" "vm_wf (load_pd a s)" and o: "\<And>q. q \<in> set pages \<Longrightarrow> owned s q" "\<And>q. q \<in> set pages \<Longrightarrow> owned (load_pd a s) q"
    using sw by (auto simp: switchable_def)
  note W = wrote_facts [OF w wf(1) o(1) [OF p]] and L = wrote_facts [OF wrote_load [OF w] wf(2) o(2) [OF p]]
  show "switchable t a pages" using sw W(1,3) L(1,3) by (simp add: switchable_def)
  show "q \<in> set pages \<Longrightarrow> q \<noteq> p \<Longrightarrow> j < 1024 \<Longrightarrow> pde (pmem t) q j = pde (pmem s) q j"
    using W(5) [of q j] o(1) [of q] by (simp add: owned_def)
  show "j < 1024 \<Longrightarrow> pde (pmem t) p j = g j" using W(4) by simp
qed

lemma switchable_regs [simp]:
  fixes s :: "'a psys_scheme"
  shows "switchable (s\<lparr>esp := x\<rparr>) a pages = switchable s a pages"
  by (simp add: switchable_def)

text \<open>The state after a switch, up to memory; the four pages are described word by word.\<close>

definition resumed :: "u32 \<Rightarrow> u32 \<Rightarrow> u32 list \<Rightarrow> u32 \<Rightarrow> mem \<Rightarrow> 'a psys_scheme \<Rightarrow> 'a psys_scheme" where
  "resumed a sp rs kst m s = (load_pd a s)\<lparr>pmem := m, tss_esp0 := kst, esp := sp, edi := rs ! 0, esi := rs ! 1, ebx := rs ! 2,
     ebp := rs ! 3, eip := rs ! 4\<rparr>"

lemma switch_core:
  fixes s :: "'a psys_scheme"
  assumes sw: "switchable s a [c, ks, p, k]" and pk: "parked s p k (n + 2) rs" and cr3: "pde (pmem s) p P_cr3 = a"
    and n: "n + 2 < 1020" "n < 1020" and sp: "esp s = entry_at (phys_to_virt ks) (i + 5)" and i: "i < 1020"
  obtains t1 t2 t3 where "switch_to ret_addr (phys_to_virt c) (phys_to_virt p) s =
      Some (resumed a (entry_at (phys_to_virt k) (n + 7)) rs (pde (pmem s) p P_kstack_top) (pmem t3) s)"
    "wrote ks ((pde (pmem s) ks)(i + 4 := ret_addr, i + 3 := ebp s, i + 2 := ebx s, i + 1 := esi s, i := edi s)) s t1"
    "wrote c ((pde (pmem s) c)(P_esp := entry_at (phys_to_virt ks) i)) t1 t2"
    "wrote k ((pde (pmem s) k)(n + 1 := phys_to_virt p, n := pde (pmem s) p P_kstack_top)) t2 t3"
proof -
  let ?e = "entry_at (phys_to_virt ks) i" and ?kst = "pde (pmem s) p P_kstack_top"
  have wf: "vm_wf s" and o: "owned s c" "owned s ks" and d: "distinct [c, ks, p, k]" using sw by (simp_all add: switchable_def)
  obtain t t' where t: "switch_save ret_addr (phys_to_virt c) s = Some t"
    "wrote ks ((pde (pmem s) ks)(i + 4 := ret_addr, i + 3 := ebp s, i + 2 := ebx s, i + 1 := esi s, i := edi s)) (s\<lparr>esp := ?e\<rparr>) t'"
    "wrote c ((pde (pmem t') c)(P_esp := ?e)) t' t"
    by (rule switch_save_spec [OF wf o _ sp i, of ret_addr]) (use d in auto)
  have sw': "switchable (s\<lparr>esp := ?e\<rparr>) a [c, ks, p, k]" using sw by simp
  note A = switchable_wrote [OF sw' t(2)]
  have swt': "switchable t' a [c, ks, p, k]" using A(1) by simp
  note B = switchable_wrote [OF swt' t(3)]
  have swt: "switchable t a [c, ks, p, k]" using B(1) by simp
  have same: "pde (pmem t) q j = pde (pmem s) q j" if "q \<in> {p, k}" "j < 1024" for q j
    using A(2) [of q j] B(2) [of q j] that d by auto
  have pc: "pde (pmem t') c j = pde (pmem s) c j" if "j < 1024" for j using A(2) [of c j] that d by simp
  have ix: "P_esp < 1024" "P_cr3 < 1024" "P_kstack_top < 1024" by (simp_all add: zconst)
  note si = small_index [OF n(1)] small_index [OF n(2)]
  have rs: "rs = [pde (pmem s) k (n + 2), pde (pmem s) k (n + 3), pde (pmem s) k (n + 4), pde (pmem s) k (n + 5), pde (pmem s) k (n + 6)]"
    using pk by (simp add: parked_def frame_words_def add.assoc)
  obtain v where v: "wrote k ((pde (pmem t) k)(n + 1 := phys_to_virt p, n := pde (pmem t) p P_kstack_top)) (load_pd a t) v"
    "switch_load (phys_to_virt p) t = Some (v\<lparr>tss_esp0 := pde (pmem t) p P_kstack_top, esp := entry_at (phys_to_virt k) (n + 7),
       edi := pde (pmem t) k (n + 2), esi := pde (pmem t) k (n + 3), ebx := pde (pmem t) k (n + 4), ebp := pde (pmem t) k (n + 5),
       eip := pde (pmem t) k (n + 6)\<rparr>)"
    using switch_load_spec [of t p a k n] swt d n pk cr3 same [of p] ix by (auto simp: switchable_def parked_def)
  obtain m1 where m1: "t' = s\<lparr>esp := ?e, pmem := m1\<rparr>" "same_except ks (pmem s) m1"
    "\<forall>j < 1024. pde m1 ks j = ((pde (pmem s) ks)(i + 4 := ret_addr, i + 3 := ebp s, i + 2 := ebx s, i + 1 := esi s, i := edi s)) j"
    using t(2) by (auto simp: wrote_def)
  obtain m2 where m2: "t = t'\<lparr>pmem := m2\<rparr>" "same_except c m1 m2" "\<forall>j < 1024. pde m2 c j = ((pde (pmem t') c)(P_esp := ?e)) j"
    using t(3) m1(1) by (auto simp: wrote_def)
  obtain m3 where m3: "v = (load_pd a t)\<lparr>pmem := m3\<rparr>" "same_except k m2 m3"
    "\<forall>j < 1024. pde m3 k j = ((pde (pmem t) k)(n + 1 := phys_to_virt p, n := pde (pmem t) p P_kstack_top)) j"
    using v(1) m2(1) by (auto simp: wrote_def)
  have run: "switch_to ret_addr (phys_to_virt c) (phys_to_virt p) s =
      Some (resumed a (entry_at (phys_to_virt k) (n + 7)) rs ?kst m3 s)"
    using t(1) v(2) same [of p P_kstack_top] same [of k] ix si
    by (simp add: switch_to_def resumed_def rs m3(1) m2(1) m1(1) add.assoc)
  show thesis
  proof (rule that [of "s\<lparr>pmem := m3\<rparr>" "s\<lparr>pmem := m1\<rparr>" "s\<lparr>pmem := m2\<rparr>"])
    show "switch_to ret_addr (phys_to_virt c) (phys_to_virt p) s =
      Some (resumed a (entry_at (phys_to_virt k) (n + 7)) rs ?kst (pmem (s\<lparr>pmem := m3\<rparr>)) s)" using run by simp
    show "wrote ks ((pde (pmem s) ks)(i + 4 := ret_addr, i + 3 := ebp s, i + 2 := ebx s, i + 1 := esi s, i := edi s)) s (s\<lparr>pmem := m1\<rparr>)"
      unfolding wrote_def using m1 by (intro exI [of _ m1]) simp
    show "wrote c ((pde (pmem s) c)(P_esp := ?e)) (s\<lparr>pmem := m1\<rparr>) (s\<lparr>pmem := m2\<rparr>)"
      unfolding wrote_def using m2 pc by (intro exI [of _ m2]) simp
    show "wrote k ((pde (pmem s) k)(n + 1 := phys_to_virt p, n := ?kst)) (s\<lparr>pmem := m2\<rparr>) (s\<lparr>pmem := m3\<rparr>)"
      unfolding wrote_def using m3 same [of k] same [of p P_kstack_top] ix by (intro exI [of _ m3]) simp
  qed
qed

lemma resumed_simps [simp]:
  "pmem (resumed a sp rs kst m s) = m" "cr3 (resumed a sp rs kst m s) = a" "esp (resumed a sp rs kst m s) = sp"
  "tss_esp0 (resumed a sp rs kst m s) = kst" "length rs = 5 \<Longrightarrow> regs (resumed a sp rs kst m s) = rs"
  "tlb (resumed a sp rs kst m s) = tlb (load_pd a s)" "current_process (resumed a sp rs kst m s) = current_process s"
proof -
  show "regs (resumed a sp rs kst m s) = rs" if len: "length rs = 5"
    by (rule nth_equalityI) (use len in \<open>auto simp: regs_def resumed_def nth_Cons' less_Suc_eq numeral_eq_Suc\<close>)
qed (simp_all add: resumed_def)

lemma resumed_frame:
  fixes s :: "'a psys_scheme"
  shows "vm_wf (resumed a sp rs kst m s) = vm_wf ((load_pd a s)\<lparr>pmem := m\<rparr>)"
    "owned (resumed a sp rs kst m s) q = owned ((load_pd a s)\<lparr>pmem := m\<rparr>) q"
    "translation (resumed a sp rs kst m s) = translation ((load_pd a s)\<lparr>pmem := m\<rparr>)"
    "frames (resumed a sp rs kst m s) = frames ((load_pd a s)\<lparr>pmem := m\<rparr>)"
  by (simp_all add: resumed_def)

lemma frames_load: "frames (load_pd a s) = frames s"
  by (simp add: load_pd_def write_cr3_def frames_def)

text \<open>Going back to the directory that was active keeps the coherence of the cached entries.\<close>

lemma load_back:
  fixes s :: "'a psys_scheme"
  assumes "vm_wf s"
  shows "vm_wf (load_pd (cr3 s) (load_pd a s))" "owned (load_pd (cr3 s) (load_pd a s)) q = owned s q"
proof -
  let ?t = "load_pd (cr3 s) (load_pd a s)"
  have act: "active_pd ?t = active_pd s" by (simp add: active_pd_def)
  have fr: "frames ?t = frames s" "pmm_wf ?t = pmm_wf s"
    by (simp_all add: load_pd_def write_cr3_def pmm_wf_def frames_def pmm_topology_def node_count_ok_def node_frames_def)
  have "tlb ?t page = Some e \<Longrightarrow> tlb s page = Some e" for page e
    by (auto simp: load_pd_def read_cr3_def write_cr3_def split: option.splits bool.splits if_splits)
  then have "tlb_coherent ?t" using vm_wf_facts(3) [OF assms] unfolding tlb_coherent_def act by simp
  then show "vm_wf ?t" using assms by (simp add: vm_wf_def direct_def act fr)
  show "owned ?t q = owned s q" by (simp add: owned_def act fr)
qed

lemma switch_spec:
  fixes s :: "'a psys_scheme"
  assumes sw: "switchable s a [c, ks, p, k]" and pk: "parked s p k (n + 2) rs" and cr3: "pde (pmem s) p P_cr3 = a"
    and n: "n + 2 < 1020" "n < 1020" and sp: "esp s = entry_at (phys_to_virt ks) (i + 5)" and i: "i < 1020"
  shows "\<exists>u. switch_to ret_addr (phys_to_virt c) (phys_to_virt p) s = Some u \<and> vm_wf u \<and> cr3 u = a \<and> mmu u = mmu (load_pd a s) \<and>
    regs u = rs \<and> esp u = entry_at (phys_to_virt k) (n + 7) \<and> tss_esp0 u = pde (pmem s) p P_kstack_top \<and>
    parked u c ks i [edi s, esi s, ebx s, ebp s, ret_addr] \<and>
    (\<forall>q j. aligned q \<longrightarrow> j < 1024 \<longrightarrow> q \<notin> {c, ks, k} \<longrightarrow> pde (pmem u) q j = pde (pmem s) q j) \<and>
    switchable u (cr3 s) [p, k, c, ks] \<and> mmu (load_pd (cr3 s) u) = mmu s \<and> current_process u = current_process s \<and>
    (\<forall>j < 1024. pde (pmem u) k j = ((pde (pmem s) k)(n + 1 := phys_to_virt p, n := pde (pmem s) p P_kstack_top)) j) \<and>
    (\<forall>j < 1024. j \<noteq> P_esp \<longrightarrow> pde (pmem u) c j = pde (pmem s) c j)"
proof -
  obtain t1 t2 t3 where run: "switch_to ret_addr (phys_to_virt c) (phys_to_virt p) s =
      Some (resumed a (entry_at (phys_to_virt k) (n + 7)) rs (pde (pmem s) p P_kstack_top) (pmem t3) s)"
    and w: "wrote ks ((pde (pmem s) ks)(i + 4 := ret_addr, i + 3 := ebp s, i + 2 := ebx s, i + 1 := esi s, i := edi s)) s t1"
    "wrote c ((pde (pmem s) c)(P_esp := entry_at (phys_to_virt ks) i)) t1 t2"
    "wrote k ((pde (pmem s) k)(n + 1 := phys_to_virt p, n := pde (pmem s) p P_kstack_top)) t2 t3"
    by (rule switch_core [OF sw pk cr3 n sp i, of ret_addr])
  let ?u = "resumed a (entry_at (phys_to_virt k) (n + 7)) rs (pde (pmem s) p P_kstack_top) (pmem t3) s"
  have d: "distinct [c, ks, p, k]" using sw by (simp add: switchable_def)
  note A = switchable_wrote [OF sw w(1)]
  note B = switchable_wrote [OF A(1) w(2)]
  note C = switchable_wrote [OF B(1) w(3)]
  have "t3 = s\<lparr>pmem := pmem t3\<rparr>" using w by (auto simp: wrote_def)
  then have ld: "(load_pd a s)\<lparr>pmem := pmem t3\<rparr> = load_pd a t3" by (metis load_pd_simps(6))
  have wfs: "vm_wf s" "vm_wf (load_pd a s)" using sw by (simp_all add: switchable_def)
  have wf1: "vm_wf t1" "vm_wf t2" "vm_wf (load_pd a t1)" "vm_wf (load_pd a t2)" "vm_wf (load_pd a t3)"
    and os: "owned s ks" "owned t1 c" "owned t2 k" "owned (load_pd a s) ks" "owned (load_pd a t1) c" "owned (load_pd a t2) k"
    using A(1) B(1) C(1) sw by (simp_all add: switchable_def)
  have wfu: "vm_wf ?u" using wf1(5) ld by (simp add: resumed_frame)
  have "translation (load_pd a t3) = translation (load_pd a s)"
    using wrote_facts(2) [OF wrote_load [OF w(1)] wfs(2) os(4)] wrote_facts(2) [OF wrote_load [OF w(2)] wf1(3) os(5)]
      wrote_facts(2) [OF wrote_load [OF w(3)] wf1(4) os(6)] by simp
  then have mmu: "mmu ?u = mmu (load_pd a s)" using vm_wf_mmu [OF wfu] vm_wf_mmu [OF wfs(2)] ld by (simp add: resumed_frame)
  have len: "length rs = 5" using pk by (auto simp: parked_def frame_words_def)
  have ks: "pde (pmem t3) ks j = ((pde (pmem s) ks)(i + 4 := ret_addr, i + 3 := ebp s, i + 2 := ebx s, i + 1 := esi s, i := edi s)) j"
    if "j < 1024" for j
  proof -
    have "pde (pmem t3) ks j = pde (pmem t1) ks j" using B(2) [of ks j] C(2) [of ks j] d that by auto
    moreover have "ks \<in> set [c, ks, p, k]" by simp
    ultimately show ?thesis using A(3) that by presburger
  qed
  have "pde (pmem t3) c P_esp = entry_at (phys_to_virt ks) i" using B(3) [of P_esp] C(2) [of c P_esp] d by (simp add: zconst)
  then have park: "parked ?u c ks i [edi s, esi s, ebx s, ebp s, ret_addr]"
    using ks small_index [OF i] by (simp add: parked_def frame_words_def)
  have "pde (pmem t3) q j = pde (pmem s) q j" if "aligned q" "j < 1024" "q \<notin> {c, ks, k}" for q j
    using wrote_facts(5) [OF w(1) wfs(1) os(1), of q j] wrote_facts(5) [OF w(2) wf1(1) os(2), of q j]
      wrote_facts(5) [OF w(3) wf1(2) os(3), of q j] that by simp
  moreover have bk: "switchable ?u (cr3 s) [p, k, c, ks]"
  proof -
    have t3: "vm_wf t3" "cr3 t3 = cr3 s" using C(1) w by (auto simp: switchable_def wrote_def)
    have o3: "owned t3 q" "owned (load_pd a t3) q" if "q \<in> {c, ks, p, k}" for q
      using C(1) that by (auto simp: switchable_def)
    have b: "vm_wf (load_pd (cr3 s) ?u) = vm_wf (load_pd (cr3 s) (load_pd a t3))"
      "owned (load_pd (cr3 s) ?u) q = owned (load_pd (cr3 s) (load_pd a t3)) q" for q
      by (simp_all add: resumed_def flip: ld)
    show ?thesis
      using wfu b load_back [OF t3(1), of a] t3(2) o3 d ld by (auto simp: switchable_def resumed_frame)
  qed
  moreover have "mmu (load_pd (cr3 s) ?u) = mmu s"
  proof -
    have "translation t3 = translation s"
      using wrote_facts(2) [OF w(1) wfs(1) os(1)] wrote_facts(2) [OF w(2) wf1(1) os(2)] wrote_facts(2) [OF w(3) wf1(2) os(3)] by simp
    moreover have "cr3 t3 = cr3 s" using w by (auto simp: wrote_def)
    ultimately have "translation (load_pd (cr3 s) ?u) = translation s" by (simp add: translation_def active_pd_def fun_eq_iff)
    then show ?thesis using bk vm_wf_mmu [OF wfs(1)] vm_wf_mmu [of "load_pd (cr3 s) ?u"] by (simp add: switchable_def)
  qed
  moreover have "pde (pmem t3) c j = pde (pmem s) c j" if "j < 1024" "j \<noteq> P_esp" for j
    using B(3) [of j] C(2) [of c j] that d by simp
  moreover note kw = C(3)
  ultimately show ?thesis using run wfu mmu park len by (intro exI [of _ ?u]) simp
qed

section \<open>The tick\<close>

lemma schedule_counts:
  fixes s t :: "'a psys_scheme"
  assumes "vm_wf s" "owned s c" "current_process s = phys_to_virt c" "wrote c g s t" "g P_ticks_remaining \<noteq> 0"
  shows "\<exists>u. schedule ret_addr t = Some u \<and> wrote c (g(P_ticks_remaining := g P_ticks_remaining - 1)) s u"
proof -
  note W = wrote_facts [OF assms(4,1,2)]
  have ix: "P_ticks_remaining < 1024" by (simp add: zconst)
  have o: "owned t c" and cur: "current_process t = phys_to_virt c" using W(3) assms(2-4) by (auto simp: wrote_def)
  have c0: "phys_to_virt c \<noteq> 0" using assms(2) phys_to_virt_nonzero by (simp add: owned_def)
  have "vread (entry_at (phys_to_virt c) P_ticks_remaining) t = Some (g P_ticks_remaining)"
    using owned_access(1) [OF W(1) o ix] W(4) ix by simp
  moreover obtain u where "vwrite (entry_at (phys_to_virt c) P_ticks_remaining) (g P_ticks_remaining - 1) t = Some u"
    "wrote c (g(P_ticks_remaining := g P_ticks_remaining - 1)) s u"
    using field_step [OF assms(1,2,4) ix] by blast
  moreover have "0 < g P_ticks_remaining" using assms(5) by (simp add: word_neq_0_conv)
  ultimately show ?thesis using c0 by (simp add: schedule_def cur)
qed

text \<open>The first ticks of a quantum only count down.\<close>

lemma schedule_counts_down:
  fixes s :: "'a psys_scheme"
  assumes "vm_wf s" "owned s c" "current_process s = phys_to_virt c" "m \<le> unat (pde (pmem s) c P_ticks_remaining)"
  shows "\<exists>t. ((\<lambda>r. r \<bind> schedule ret_addr) ^^ m) (Some s) = Some t \<and>
    wrote c ((pde (pmem s) c)(P_ticks_remaining := pde (pmem s) c P_ticks_remaining - of_nat m)) s t"
  using assms(4)
proof (induction m)
  case 0
  then show ?case using wrote_refl [of c s] by simp
next
  case (Suc m)
  let ?w = "pde (pmem s) c"
  obtain t where t: "((\<lambda>r. r \<bind> schedule ret_addr) ^^ m) (Some s) = Some t"
    "wrote c (?w(P_ticks_remaining := ?w P_ticks_remaining - of_nat m)) s t"
    using Suc.IH [OF Suc_leD [OF Suc.prems]] by blast
  have "m < 4294967296" using Suc.prems unat_u32_less [of "?w P_ticks_remaining"] by linarith
  then have "unat (of_nat m :: u32) = m" by (simp add: unat_of_nat)
  then have "?w P_ticks_remaining \<noteq> of_nat m" using Suc.prems by auto
  then obtain u where "schedule ret_addr t = Some u"
    "wrote c (?w(P_ticks_remaining := ?w P_ticks_remaining - of_nat m - 1)) s u"
    using schedule_counts [OF assms(1-3) t(2), of ret_addr] by auto
  then show ?case using t(1) by (simp add: diff_diff_eq add.commute fun_upd_def)
qed

lemma switchable_current [simp]:
  fixes s :: "'a psys_scheme"
  shows "switchable (s\<lparr>current_process := x\<rparr>) a pages = switchable s a pages"
proof -
  have "load_pd a (s\<lparr>current_process := x\<rparr>) = (load_pd a s)\<lparr>current_process := x\<rparr>"
    by (simp add: load_pd_def read_cr3_def write_cr3_def)
  then show ?thesis by (simp add: switchable_def)
qed

text \<open>The tick that ends the quantum of \<open>c\<close>, up to the switch: only its own control block and the next one change.\<close>

lemma schedule_expires:
  fixes s :: "'a psys_scheme"
  assumes sw: "switchable s a pages" and in_pages: "c \<in> set pages" "p \<in> set pages" and ne: "c \<noteq> p"
    and cur: "current_process s = phys_to_virt c" and w: "pde (pmem s) c P_ticks_remaining = 0" "pde (pmem s) c P_next = phys_to_virt p"
  obtains t u where "schedule ret_addr s = switch_to ret_addr (phys_to_virt c) (phys_to_virt p) u"
    "wrote c ((pde (pmem s) c)(P_ticks_remaining := 5, P_state := (if pde (pmem s) c P_state = PROCESS_STATE_RUNNING
       then PROCESS_STATE_READY else pde (pmem s) c P_state))) (s\<lparr>current_process := phys_to_virt p\<rparr>) t"
    "wrote p ((pde (pmem s) p)(P_state := PROCESS_STATE_RUNNING)) t u"
proof -
  let ?c = "phys_to_virt c" and ?p = "phys_to_virt p" and ?w = "pde (pmem s) c"
  let ?st = "if ?w P_state = PROCESS_STATE_RUNNING then PROCESS_STATE_READY else ?w P_state"
  have wf: "vm_wf s" and o: "owned s c" "owned s p" using sw in_pages by (simp_all add: switchable_def)
  have nz: "?c \<noteq> 0" "?p \<noteq> 0" using o phys_to_virt_nonzero by (simp_all add: owned_def)
  have ncp: "?p \<noteq> ?c" using ne by (simp add: phys_to_virt_def)
  have ix: "P_ticks_remaining < 1024" "P_next < 1024" "P_state < 1024" by (simp_all add: zconst)
  have r0: "vread (entry_at ?c P_ticks_remaining) s = Some 0" using owned_access(1) [OF wf o(1) ix(1)] w by simp
  obtain s1 where s1: "vwrite (entry_at ?c P_ticks_remaining) 5 s = Some s1" "wrote c (?w(P_ticks_remaining := 5)) s s1"
    using wrote_vwrite [OF wf o(1) ix(1)] by blast
  note W1 = wrote_facts [OF s1(2) wf o(1)]
  have r1: "vread (entry_at ?c P_next) s1 = Some ?p"
    using owned_access(1) [OF W1(1) _ ix(2), of c] W1(3,4) o(1) ix(2) w(2) by (simp add: zconst)
  let ?s = "s\<lparr>current_process := ?p\<rparr>" and ?s1 = "s1\<lparr>current_process := ?p\<rparr>"
  obtain m where m: "s1 = s\<lparr>pmem := m\<rparr>" "same_except c (pmem s) m" "\<forall>j < 1024. pde m c j = (?w(P_ticks_remaining := 5)) j"
    using s1(2) by (auto simp: wrote_def)
  have w1: "wrote c (?w(P_ticks_remaining := 5)) ?s ?s1" unfolding wrote_def using m by (intro exI [of _ m]) simp
  have wo: "vm_wf ?s" "owned ?s c" using wf o by simp_all
  have r2: "vread (entry_at ?c P_state) ?s1 = Some (?w P_state)"
    using owned_access(1) [of ?s1 c P_state] W1(1,3,4) o(1) ix(3) by (simp add: zconst)
  obtain s2 where s2: "(if ?w P_state = PROCESS_STATE_RUNNING then vwrite (entry_at ?c P_state) PROCESS_STATE_READY ?s1 else Some ?s1) =
      Some s2" "wrote c (?w(P_ticks_remaining := 5, P_state := ?st)) ?s s2"
  proof (cases "?w P_state = PROCESS_STATE_RUNNING")
    case True
    then show ?thesis using field_step [OF wo w1 ix(3), of PROCESS_STATE_READY] that by auto
  next
    case False
    have "wrote c (?w(P_ticks_remaining := 5, P_state := ?st)) ?s ?s1"
      using False by (intro wrote_cong [OF w1]) (auto simp: zconst)
    then show ?thesis using that False by simp
  qed
  have sw': "switchable ?s a pages" using sw by simp
  note B = switchable_wrote [OF sw' s2(2) in_pages(1)]
  have o2: "vm_wf s2" "owned s2 p" using B(1) in_pages(2) by (simp_all add: switchable_def)
  obtain u where u: "vwrite (entry_at ?p P_state) PROCESS_STATE_RUNNING s2 = Some u"
    "wrote p ((pde (pmem s2) p)(P_state := PROCESS_STATE_RUNNING)) s2 u"
    using wrote_vwrite [OF o2 ix(3)] by blast
  have "wrote p ((pde (pmem s) p)(P_state := PROCESS_STATE_RUNNING)) s2 u"
    by (rule wrote_cong [OF u(2)]) (use B(2) [of p] in_pages(2) ne in auto)
  moreover have "schedule ret_addr s = switch_to ret_addr ?c ?p u"
    using cur nz ncp r0 s1(1) r1 r2 s2(1) u(1) by (simp add: schedule_def Let_def del: fun_upd_apply)
  ultimately show thesis using that s2(2) by blast
qed

section \<open>A new process\<close>

lemma load_user_pd:
  fixes t :: "'a psys_scheme"
  assumes wf: "vm_wf t" and o: "owned t a" and g: "globals_in_kernel t"
    and e: "\<forall>i < 1024. pde (pmem t) a i = user_pd_entry (pmem t) (active_pd t) i"
  shows "vm_wf (load_pd a t)" "owned t q \<Longrightarrow> q \<noteq> a \<Longrightarrow> owned (load_pd a t) q"
    "translation (load_pd a t) va = (if PDE_INDEX va = 0 \<or> KERNEL_VBASE \<le> va then translation t va else None)"
proof -
  let ?t = "load_pd a t" and ?pd = "active_pd t"
  have a: "aligned a" "in_direct a" "a \<notin> insert ?pd (tables (pmem t) ?pd)" "addr_to_pfn a \<notin> frames t" using o by (simp_all add: owned_def)
  note act = load_pd_active [OF a(1), of t]
  note w = user_pd_walk [OF e, simplified]
  have fr: "frames ?t = frames t" "pmm_wf ?t = pmm_wf t"
    by (simp_all add: load_pd_def write_cr3_def pmm_wf_def frames_def pmm_topology_def node_count_ok_def node_frames_def)
  have "cr3 t \<noteq> a" using a(1,3) by (auto simp: active_pd_def aligned_def PTE_ADDR_def)
  then have tl: "tlb ?t page = Some (f, gl) \<Longrightarrow> tlb t page = Some (f, True)" for page f gl
    by (auto simp: load_pd_def read_cr3_def write_cr3_def split: option.splits bool.splits)
  have "tlb_coherent ?t"
    unfolding tlb_coherent_def act
  proof (intro allI impI)
    fix va frame gl assume "tlb ?t (page_of va) = Some (frame, gl)"
    then have "tlb t (page_of va) = Some (frame, True)" by (rule tl)
    then have "KERNEL_VBASE \<le> va" "\<exists>g'. hw_walk (pmem t) ?pd va = Some (push_bit 12 frame OR PAGE_OFFSET va, g')"
      using g vm_wf_facts(3) [OF wf] unfolding globals_in_kernel_def tlb_coherent_def by blast+
    then show "\<exists>g'. hw_walk (pmem ?t) a va = Some (push_bit 12 frame OR PAGE_OFFSET va, g')" by (simp add: w(1))
  qed
  moreover have "kernel_mapped (pmem t) a" using w(4) vm_wf_facts(2) [OF wf] by (simp add: direct_def)
  moreover have "\<forall>q \<in> insert a (tables (pmem t) a). in_direct q \<and> addr_to_pfn q \<notin> frames t"
    using w(2) wf a(2,4) unfolding vm_wf_def by auto
  moreover have "a \<notin> tables (pmem t) a" using w(2) a(3) by blast
  ultimately show "vm_wf ?t" using wf w(3) vm_wf_facts(6) [OF wf] by (simp add: vm_wf_def direct_def act fr)
  show "owned ?t q" if "owned t q" "q \<noteq> a" using that w(2) by (auto simp: owned_def act fr)
  show "translation ?t va = (if PDE_INDEX va = 0 \<or> KERNEL_VBASE \<le> va then translation t va else None)"
    by (simp add: translation_def act w(1))
qed

lemma created_switchable:
  fixes t :: "'a psys_scheme"
  assumes sp: "same_space s t" and c: "created eum entry_point s p a k t" and g: "globals_in_kernel s"
    and o: "owned s c" "owned s ks" "c \<noteq> ks"
  shows "switchable t a [c, ks, p, k]"
    "translation (load_pd a t) va = (if PDE_INDEX va = 0 \<or> KERNEL_VBASE \<le> va then translation s va else None)"
proof -
  have d: "distinct [p, a, k]" and q: "\<forall>q \<in> {p, a, k}. owned t q \<and> addr_to_pfn q \<in> frames s"
    and fr: "frames t = frames s - addr_to_pfn ` {p, a, k}"
    and e: "\<forall>i < 1024. pde (pmem t) a i = user_pd_entry (pmem s) (active_pd s) i"
    using c unfolding created_def by blast+
  have wf: "vm_wf t" and act: "active_pd t = active_pd s" using sp by (simp_all add: same_space_def)
  have e': "\<forall>i < 1024. pde (pmem t) a i = user_pd_entry (pmem t) (active_pd t) i"
    using e sp by (auto simp: same_space_def user_pd_entry_def)
  have gt: "globals_in_kernel t" using g sp unfolding globals_in_kernel_def same_space_def by blast
  have qa: "owned t a" using q by blast
  note L = load_user_pd [OF wf qa gt e']
  have ot: "owned t x" if "owned s x" for x
    using that same_space_tables [OF sp] fr by (auto simp: owned_def act)
  have nf: "x \<notin> {p, a, k}" if "owned s x" for x using that q by (auto simp: owned_def)
  have "distinct [c, ks, p, k]" using d o nf [OF o(1)] nf [OF o(2)] by auto
  moreover have "\<forall>x \<in> set [c, ks, p, k]. owned t x \<and> x \<noteq> a"
    using q ot o nf [OF o(1)] nf [OF o(2)] d by auto
  ultimately show "switchable t a [c, ks, p, k]" using wf L(1,2) by (simp add: switchable_def)
  show "translation (load_pd a t) va = (if PDE_INDEX va = 0 \<or> KERNEL_VBASE \<le> va then translation s va else None)"
    using L(3) sp by (simp add: same_space_def)
qed

section \<open>Properties\<close>




text \<open>
  The first switch to a process that was just created enters \<open>enter_user_mode\<close> with cleared registers, on the
  process's own kernel stack, whose top is in the TSS; the two arguments on the stack are the entry point and the
  user stack top. Its address space is the kernel's above \<open>KERNEL_VBASE\<close> and in the first 4 MB and has no other
  mapping: in particular there is no page for the user stack.
\<close>

theorem first_switch:
  fixes s :: "'a psys_scheme"
  assumes wf: "vm_wf s" and cur: "current_pd_phys s = active_pd s" and nt: "\<not> table_pde (pde (pmem s) (active_pd s) 0)"
    and g: "globals_in_kernel s" and fr: "3 \<le> card (frames s)" and o: "owned s c" "owned s ks" "c \<noteq> ks" and i: "i < 1020"
  shows "\<exists>p t u. sched_create_user_process eum entry_point s = Some (phys_to_virt p, t) \<and>
    switch_to ret_addr (phys_to_virt c) (phys_to_virt p) (t\<lparr>esp := entry_at (phys_to_virt ks) (i + 5)\<rparr>) = Some u \<and>
    regs u = [0, 0, 0, 0, eum] \<and> tss_esp0 u = esp u + 12 \<and> vread (esp u + 4) u = Some entry_point \<and>
    vread (esp u + 8) u = Some 0xBFFFF000 \<and>
    (\<forall>va. mmu u va = (if PDE_INDEX va = 0 \<or> KERNEL_VBASE \<le> va then mmu s va else None))"
proof -
  obtain p a k t where run: "sched_create_user_process eum entry_point s = Some (phys_to_virt p, t)" and sp: "same_space s t"
    and c: "created eum entry_point s p a k t"
    using create_process_spec [OF wf cur nt, of eum entry_point] fr by auto
  let ?t = "t\<lparr>esp := entry_at (phys_to_virt ks) (i + 5)\<rparr>"
  have pw: "pcb_words (pid_counter s) a k (pde (pmem t) p)" and tw: "trampoline_words eum entry_point (pde (pmem t) k)"
    using c unfolding created_def by blast+
  note S = created_switchable [OF sp c g o]
  have sw: "switchable ?t a [c, ks, p, k]" using S(1) by simp
  have wft: "vm_wf (load_pd a ?t)" using sw by (simp only: switchable_def)
  have pk: "parked ?t p k (1014 + 2) [0, 0, 0, 0, eum]"
    using pw tw by (simp add: parked_def frame_words_def pcb_words_def trampoline_words_def)
  have cr3: "pde (pmem ?t) p P_cr3 = a" using pw by (simp add: pcb_words_def)
  obtain u where u: "switch_to ret_addr (phys_to_virt c) (phys_to_virt p) ?t = Some u" "vm_wf u" "mmu u = mmu (load_pd a ?t)"
    "regs u = [0, 0, 0, 0, eum]" "esp u = entry_at (phys_to_virt k) (1014 + 7)" "tss_esp0 u = pde (pmem ?t) p P_kstack_top"
    "switchable u (cr3 ?t) [p, k, c, ks]"
    "\<forall>j < 1024. pde (pmem u) k j = ((pde (pmem ?t) k)(1014 + 1 := phys_to_virt p, 1014 := pde (pmem ?t) p P_kstack_top)) j"
    using switch_spec [OF sw pk cr3 _ _ _ i, of ret_addr] by auto
  have sp_u: "esp u = entry_at (phys_to_virt k) 1021" using u(5) by simp
  then have "esp u + 4 = entry_at (phys_to_virt k) 1022" "esp u + 8 = entry_at (phys_to_virt k) 1023"
    "phys_to_virt k + 4096 = esp u + 12" by (simp_all add: entry_at_def)
  moreover have "owned u k" using u(7) by (simp add: switchable_def)
  moreover have "pde (pmem u) k 1022 = entry_point" "pde (pmem u) k 1023 = 0xBFFFF000"
    using u(8) tw by (simp_all add: trampoline_words_def)
  moreover have "pde (pmem ?t) p P_kstack_top = phys_to_virt k + 4096" using pw by (simp add: pcb_words_def)
  ultimately have st: "vread (esp u + 4) u = Some entry_point" "vread (esp u + 8) u = Some 0xBFFFF000" "tss_esp0 u = esp u + 12"
    using owned_access(1) [OF u(2), of k 1022] owned_access(1) [OF u(2), of k 1023] u(6) by simp_all
  have "mmu u va = (if PDE_INDEX va = 0 \<or> KERNEL_VBASE \<le> va then mmu s va else None)" for va
    using u(3) vm_wf_mmu [OF wft] S(2) [of va] vm_wf_mmu [OF wf] by simp
  then show ?thesis using run u(1,4) st by blast
qed

section \<open>Witnesses\<close>

text \<open>
  Two kernel threads under the kernel's directory: the control block at \<open>0x2000\<close> runs on the stack at \<open>0x3000\<close> with
  one tick left, the one at \<open>0x4000\<close> is parked on the stack at \<open>0x5000\<close>.
\<close>

definition poke :: "(u32 \<times> u32 \<times> u32) list \<Rightarrow> mem \<Rightarrow> mem" where
  "poke = fold (\<lambda>(q, j, v) m. wr32 m (unat (entry_at q j)) v)"

definition two_threads :: psys where
  "two_threads = roomy\<lparr>pmem :=
     poke [(0x2000, P_cr3, cr3 roomy), (0x2000, P_state, PROCESS_STATE_RUNNING), (0x2000, P_ticks_remaining, 1),
       (0x2000, P_next, phys_to_virt 0x4000), (0x4000, P_cr3, cr3 roomy), (0x4000, P_esp, entry_at (phys_to_virt 0x5000) 1000),
       (0x5000, 1000, 10), (0x5000, 1001, 11), (0x5000, 1002, 12), (0x5000, 1003, 13), (0x5000, 1004, 14)] (pmem roomy),
     current_process := phys_to_virt 0x2000, esp := entry_at (phys_to_virt 0x3000) 1000\<rparr>"

lemma roomy_owned: "aligned q \<Longrightarrow> q \<in> {0x2000, 0x3000, 0x4000, 0x5000} \<Longrightarrow> owned roomy q"
  by (auto simp: owned_def roomy_vm ready_vm(3) ready_vm_tables [unfolded ready_vm(3)] frames_roomy in_direct_def addr_to_pfn_def)

lemma aligned_pages: "aligned 0x2000" "aligned 0x3000" "aligned 0x4000" "aligned 0x5000"
  by (simp_all add: aligned_def PTE_ADDR_def)

lemma poke_spec:
  assumes "vm_wf s" "\<forall>(q, j, v) \<in> set ws. owned s q \<and> j < 1024"
  shows "vm_wf (s\<lparr>pmem := poke ws (pmem s)\<rparr>) \<and> owned (s\<lparr>pmem := poke ws (pmem s)\<rparr>) x = owned s x"
  using assms
proof (induction ws arbitrary: s)
  case Nil
  then show ?case by (simp add: poke_def)
next
  case (Cons w ws)
  obtain q j v where w: "w = (q, j, v)" by (cases w)
  have o: "owned s q" "j < 1024" "aligned q" using Cons.prems(2) w by (auto simp: owned_def)
  let ?s = "s\<lparr>pmem := wr32 (pmem s) (unat (entry_at q j)) v\<rparr>"
  note W = owned_write [OF Cons.prems(1) o(1) same_except_wr [OF o(3,2) same_except_refl, of "pmem s" v]]
  have "\<forall>(q, j, v) \<in> set ws. owned ?s q \<and> j < 1024" using Cons.prems(2) W(3) by auto
  from Cons.IH [OF W(1) this] show ?case using W(3) [of x] by (simp add: poke_def w)
qed

lemma poke_pde:
  assumes "aligned p" "i < 1024" "\<forall>(q, j, v) \<in> set ws. aligned q \<and> j < 1024"
  shows "pde (poke ws m) p i = fold (\<lambda>(q, j, v) x. if q = p \<and> j = i then v else x) ws (pde m p i)"
  using assms(3)
proof (induction ws arbitrary: m)
  case (Cons w ws)
  obtain q j v where w: "w = (q, j, v)" by (cases w)
  then show ?case using Cons rd_entry_wr [of p q i j m v] assms(1,2) by (auto simp: poke_def pde_def)
qed (simp add: poke_def)

lemma two_threads_facts:
  "switchable two_threads (cr3 two_threads) [0x2000, 0x3000, 0x4000, 0x5000]"
  "parked two_threads 0x4000 0x5000 (998 + 2) [10, 11, 12, 13, 14]"
  "pde (pmem two_threads) 0x2000 P_cr3 = cr3 two_threads" "pde (pmem two_threads) 0x4000 P_cr3 = cr3 two_threads"
  "pde (pmem two_threads) 0x2000 P_next = phys_to_virt 0x4000" "pde (pmem two_threads) 0x2000 P_ticks_remaining = 1"
  "pde (pmem two_threads) 0x2000 P_state = PROCESS_STATE_RUNNING"
proof -
  let ?ws = "[(0x2000, P_cr3, cr3 roomy), (0x2000, P_state, PROCESS_STATE_RUNNING), (0x2000, P_ticks_remaining, 1),
       (0x2000, P_next, phys_to_virt 0x4000), (0x4000, P_cr3, cr3 roomy), (0x4000, P_esp, entry_at (phys_to_virt 0x5000) 1000),
       (0x5000, 1000, 10), (0x5000, 1001, 11), (0x5000, 1002, 12), (0x5000, 1003, 13), (0x5000, 1004, 14)]"
  have ow: "\<forall>(q, j, v) \<in> set ?ws. owned roomy q \<and> j < 1024"
    using roomy_owned aligned_pages by (simp add: zconst)
  have al: "\<forall>(q, j, v) \<in> set ?ws. aligned q \<and> j < 1024" using aligned_pages by (simp add: zconst)
  note P = poke_spec [OF roomy_wf ow]
  have wf: "vm_wf two_threads" "owned two_threads q = owned roomy q" for q using P [of q] by (simp_all add: two_threads_def)
  have same: "load_pd (cr3 two_threads) two_threads = two_threads" by (simp add: load_pd_def read_cr3_def)
  show "switchable two_threads (cr3 two_threads) [0x2000, 0x3000, 0x4000, 0x5000]"
    using wf roomy_owned aligned_pages by (simp add: switchable_def same)
  have rd: "pde (pmem two_threads) p i = fold (\<lambda>(q, j, v) x. if q = p \<and> j = i then v else x) ?ws (pde (pmem roomy) p i)"
    if "aligned p" "i < 1024" for p i using poke_pde [OF that al] by (simp add: two_threads_def)
  have c3: "cr3 two_threads = cr3 roomy" by (simp add: two_threads_def)
  show "parked two_threads 0x4000 0x5000 (998 + 2) [10, 11, 12, 13, 14]"
    using aligned_pages by (simp add: parked_def frame_words_def rd zconst)
  show "pde (pmem two_threads) 0x2000 P_cr3 = cr3 two_threads" "pde (pmem two_threads) 0x4000 P_cr3 = cr3 two_threads"
    "pde (pmem two_threads) 0x2000 P_next = phys_to_virt 0x4000" "pde (pmem two_threads) 0x2000 P_ticks_remaining = 1"
    "pde (pmem two_threads) 0x2000 P_state = PROCESS_STATE_RUNNING"
    using aligned_pages by (simp_all add: rd zconst c3)
qed

lemma two_threads_regs:
  "edi two_threads = 4" "esi two_threads = 3" "ebx two_threads = 2" "ebp two_threads = 1"
  "esp two_threads = entry_at (phys_to_virt 0x3000) 1000" "current_process two_threads = phys_to_virt 0x2000"
  by (simp_all add: two_threads_def roomy_def vmm.defs)




theorem first_switch_witness:
  "\<exists>p t u. sched_create_user_process 0xC0100400 0x40000000 roomy = Some (phys_to_virt p, t) \<and>
     switch_to 0xC0100200 (phys_to_virt 0x2000) (phys_to_virt p) (t\<lparr>esp := entry_at (phys_to_virt 0x3000) 1000\<rparr>) = Some u \<and>
     eip u = 0xC0100400 \<and> vread (esp u + 4) u = Some 0x40000000 \<and> mmu u 0xBFFFEFFC = None"
proof -
  have g: "globals_in_kernel roomy" by (simp add: globals_in_kernel_def roomy_vm)
  have o: "owned roomy 0x2000" "owned roomy 0x3000" using roomy_owned aligned_pages by simp_all
  have "3 \<le> card (frames roomy)" by (simp add: frames_roomy)
  note F = first_switch [OF roomy_wf roomy_vm(4) roomy_pde0 g this o, of 995 "0xC0100400" "0x40000000" "0xC0100200"]
  have "PDE_INDEX 0xBFFFEFFC \<noteq> 0" "\<not> KERNEL_VBASE \<le> 0xBFFFEFFC" by (simp_all add: PDE_INDEX_def KERNEL_VBASE_def)
  then have va: "(if PDE_INDEX 0xBFFFEFFC = 0 \<or> KERNEL_VBASE \<le> 0xBFFFEFFC then mmu roomy 0xBFFFEFFC else None) = None" by simp
  obtain p t u where "sched_create_user_process 0xC0100400 0x40000000 roomy = Some (phys_to_virt p, t)"
    "switch_to 0xC0100200 (phys_to_virt 0x2000) (phys_to_virt p) (t\<lparr>esp := entry_at (phys_to_virt 0x3000) 1000\<rparr>) = Some u"
    "regs u = [0, 0, 0, 0, 0xC0100400]" "vread (esp u + 4) u = Some 0x40000000" "mmu u 0xBFFFEFFC = None"
    using F va by auto
  moreover from this(3) have "eip u = 0xC0100400" by (simp add: regs_def)
  ultimately show ?thesis by blast
qed

end
