(* ===== verification/Libc.thy ===== *)
theory Libc
  imports Zen_Memory "HOL-Library.Monad_Syntax"
begin

text \<open>
  The memory and string routines (\<^verbatim>\<open>kernel/lib/string.c\<close>) and the number parser of \<^verbatim>\<open>kernel/lib/libc.c\<close>, on a byte
  memory. A pointer is an address; a C string is a run of non-zero bytes and its terminator. The loops that
  run to a terminator have no other bound and do not return on memory without one, so they are partial.
  \<open>unsigned long\<close> has 64 bits, as in the default build.
\<close>

section \<open>Operations\<close>

fun memcpy :: "nat \<Rightarrow> nat \<Rightarrow> nat \<Rightarrow> mem \<Rightarrow> mem" where
  "memcpy d s 0 m = m"
| "memcpy d s (Suc n) m = memcpy (d + 1) (s + 1) n (m(d := m s))"

fun memset :: "nat \<Rightarrow> u8 \<Rightarrow> nat \<Rightarrow> mem \<Rightarrow> mem" where
  "memset p c 0 m = m"
| "memset p c (Suc n) m = memset (p + 1) c n (m(p := c))"

text \<open>The loop of \<open>memmove\<close> that runs downwards: \<open>d\<close> and \<open>s\<close> are the ends.\<close>

fun copy_down :: "nat \<Rightarrow> nat \<Rightarrow> nat \<Rightarrow> mem \<Rightarrow> mem" where
  "copy_down d s 0 m = m"
| "copy_down d s (Suc n) m = copy_down (d - 1) (s - 1) n (m(d - 1 := m (s - 1)))"

definition memmove :: "nat \<Rightarrow> nat \<Rightarrow> nat \<Rightarrow> mem \<Rightarrow> mem" where
  "memmove dest src n m = (if dest < src then memcpy dest src n m else copy_down (dest + n) (src + n) n m)"

fun memcmp :: "nat \<Rightarrow> nat \<Rightarrow> nat \<Rightarrow> mem \<Rightarrow> int" where
  "memcmp p q 0 m = 0"
| "memcmp p q (Suc n) m = (if m p \<noteq> m q then uint (m p) - uint (m q) else memcmp (p + 1) (q + 1) n m)"

partial_function (option) strlen_loop :: "nat \<Rightarrow> nat \<Rightarrow> mem \<Rightarrow> nat option" where
  "strlen_loop s len m = (if m s \<noteq> 0 then strlen_loop (s + 1) (len + 1) m else Some len)"

definition strlen :: "nat \<Rightarrow> mem \<Rightarrow> nat option" where
  "strlen s m = strlen_loop s 0 m"

partial_function (option) strcmp :: "nat \<Rightarrow> nat \<Rightarrow> mem \<Rightarrow> int option" where
  "strcmp p q m = (if m p \<noteq> 0 \<and> m p = m q then strcmp (p + 1) (q + 1) m else Some (uint (m p) - uint (m q)))"

partial_function (option) strcpy :: "nat \<Rightarrow> nat \<Rightarrow> mem \<Rightarrow> mem option" where
  "strcpy d s m = (let c = m s; m = m(d := c) in if c \<noteq> 0 then strcpy (d + 1) (s + 1) m else Some m)"

text \<open>The value of a digit; \<open>None\<close> leaves the loop.\<close>

definition digit_of :: "u8 \<Rightarrow> int option" where
  "digit_of c =
     (if 48 \<le> c \<and> c \<le> 57 then Some (uint c - 48)
      else if 97 \<le> c \<and> c \<le> 122 then Some (uint c - 97 + 10)
      else if 65 \<le> c \<and> c \<le> 90 then Some (uint c - 65 + 10)
      else None)"

partial_function (option) strtoul_loop :: "nat \<Rightarrow> int \<Rightarrow> u64 \<Rightarrow> mem \<Rightarrow> (u64 \<times> nat) option" where
  "strtoul_loop p base result m =
     (if m p = 0 then Some (result, p)
      else case digit_of (m p) of
        None \<Rightarrow> Some (result, p)
      | Some digit \<Rightarrow>
          if digit \<ge> base then Some (result, p)
          else strtoul_loop (p + 1) base (result * of_int base + of_int digit) m)"

definition strtoul :: "nat \<Rightarrow> int \<Rightarrow> mem \<Rightarrow> (u64 \<times> nat) option" where
  "strtoul nptr base m = strtoul_loop nptr base 0 m"

section \<open>Copying\<close>

lemma memcpy_spec:
  assumes "d \<le> s \<or> s + n \<le> d"
  shows "memcpy d s n m = (\<lambda>x. if d \<le> x \<and> x < d + n then m (s + (x - d)) else m x)"
  using assms
proof (induction n arbitrary: d s m)
  case (Suc n)
  have ih: "memcpy (d + 1) (s + 1) n (m(d := m s)) =
      (\<lambda>x. if d + 1 \<le> x \<and> x < d + 1 + n then (m(d := m s)) (s + 1 + (x - (d + 1))) else (m(d := m s)) x)"
    by (rule Suc.IH) (use Suc.prems in auto)
  have "(if d + 1 \<le> x \<and> x < d + 1 + n then (m(d := m s)) (s + 1 + (x - (d + 1))) else (m(d := m s)) x) =
      (if d \<le> x \<and> x < d + Suc n then m (s + (x - d)) else m x)" for x
  proof (cases "d + 1 \<le> x \<and> x < d + 1 + n")
    case True
    then have "s + 1 + (x - (d + 1)) = s + (x - d)" "s + (x - d) \<noteq> d" using Suc.prems by auto
    then show ?thesis using True by simp
  qed (cases "x = d"; auto)
  then show ?case using ih by simp
qed (auto simp: fun_eq_iff)

lemma copy_down_spec:
  assumes "s \<le> d"
  shows "copy_down (d + n) (s + n) n m = (\<lambda>x. if d \<le> x \<and> x < d + n then m (s + (x - d)) else m x)"
  using assms
proof (induction n arbitrary: m)
  case (Suc n)
  have "copy_down (d + n) (s + n) n (m(d + n := m (s + n))) =
      (\<lambda>x. if d \<le> x \<and> x < d + n then (m(d + n := m (s + n))) (s + (x - d)) else (m(d + n := m (s + n))) x)"
    by (rule Suc.IH [OF Suc.prems])
  then show ?case using Suc.prems by (auto simp: fun_eq_iff)
qed (auto simp: fun_eq_iff)

lemma memset_spec: "memset p c n m = (\<lambda>x. if p \<le> x \<and> x < p + n then c else m x)"
  by (induction n arbitrary: p m) (auto simp: fun_eq_iff)

text \<open>A C string: its characters and the terminator.\<close>

definition cstring :: "mem \<Rightarrow> nat \<Rightarrow> u8 list \<Rightarrow> bool" where
  "cstring m p cs \<longleftrightarrow> (\<forall>i < length cs. m (p + i) = cs ! i) \<and> m (p + length cs) = 0 \<and> 0 \<notin> set cs"

lemma cstring_Nil [simp]: "cstring m p [] \<longleftrightarrow> m p = 0"
  by (simp add: cstring_def)

lemma cstring_Cons [simp]: "cstring m p (c # cs) \<longleftrightarrow> m p = c \<and> c \<noteq> 0 \<and> cstring m (p + 1) cs"
  by (auto simp: cstring_def less_Suc_eq_0_disj all_conj_distrib)

lemma strlen_loop_spec: "cstring m s cs \<Longrightarrow> strlen_loop s len m = Some (len + length cs)"
  by (induction cs arbitrary: s len) (simp_all add: strlen_loop.simps)

lemma uint_pos: "0 < uint w \<longleftrightarrow> w \<noteq> 0" "uint w = 0 \<longleftrightarrow> w = 0" for w :: u8
  by (auto simp: order_less_le unsigned_eq_0_iff)

lemma strcmp_spec:
  assumes "cstring m p cs" "cstring m q ds"
  shows "\<exists>r. strcmp p q m = Some r \<and> (r = 0 \<longleftrightarrow> cs = ds) \<and> (r < 0 \<longleftrightarrow> (cs, ds) \<in> lexord {(a, b). a < b})"
  using assms
proof (induction cs arbitrary: ds p q)
  case Nil
  then show ?case by (cases ds) (auto simp: strcmp.simps [of p] lexord_Nil_left uint_pos)
next
  case (Cons c cs)
  show ?case
  proof (cases ds)
    case Nil
    then show ?thesis using Cons.prems by (auto simp: strcmp.simps [of p] uint_pos not_less)
  next
    case ds: (Cons d ds')
    show ?thesis
    proof (cases "c = d")
      case True
      then show ?thesis using Cons.prems ds Cons.IH [of "p + 1" "q + 1" ds'] by (simp add: strcmp.simps [of p])
    next
      case False
      then show ?thesis using Cons.prems ds by (auto simp: strcmp.simps [of p] word_less_def word_uint_eq_iff)
    qed
  qed
qed

lemma strcpy_spec:
  assumes "cstring m s cs" "d \<le> s \<or> s + length cs < d"
  shows "strcpy d s m = Some (\<lambda>x. if d \<le> x \<and> x \<le> d + length cs then m (s + (x - d)) else m x)"
  using assms
proof (induction cs arbitrary: d s m)
  case Nil
  have "m(d := 0) = (\<lambda>x. if d \<le> x \<and> x \<le> d then m (s + (x - d)) else m x)" using Nil by (auto simp: fun_eq_iff)
  then show ?case using Nil by (simp add: strcpy.simps [of d])
next
  case (Cons c cs)
  let ?m = "m(d := m s)"
  have c: "m s = c" "c \<noteq> 0" using Cons.prems(1) by simp_all
  have str: "cstring ?m (s + 1) cs" using Cons.prems by (auto simp: cstring_def)
  have "strcpy (d + 1) (s + 1) ?m = Some (\<lambda>x. if d + 1 \<le> x \<and> x \<le> d + 1 + length cs then ?m (s + 1 + (x - (d + 1))) else ?m x)"
    by (rule Cons.IH [OF str]) (use Cons.prems(2) in auto)
  moreover have "(if d + 1 \<le> x \<and> x \<le> d + 1 + length cs then ?m (s + 1 + (x - (d + 1))) else ?m x) =
      (if d \<le> x \<and> x \<le> d + length (c # cs) then m (s + (x - d)) else m x)" for x
  proof (cases "d + 1 \<le> x \<and> x \<le> d + 1 + length cs")
    case True
    then have "s + 1 + (x - (d + 1)) = s + (x - d)" "s + (x - d) \<noteq> d" using Cons.prems(2) by auto
    then show ?thesis using True by simp
  qed (cases "x = d"; auto)
  ultimately show ?case using c by (subst strcpy.simps) (simp add: Let_def)
qed

text \<open>The number that a list of digits stands for.\<close>

definition digits_value :: "int \<Rightarrow> int list \<Rightarrow> int" where
  "digits_value base ds = foldl (\<lambda>v d. v * base + d) 0 ds"

definition valid_digit :: "int \<Rightarrow> u8 \<Rightarrow> bool" where
  "valid_digit base c \<longleftrightarrow> c \<noteq> 0 \<and> (\<exists>d. digit_of c = Some d \<and> d < base)"

lemma strtoul_loop_spec:
  assumes "cstring m p (cs @ rest)" "\<forall>c \<in> set cs. valid_digit base c" "rest = [] \<or> \<not> valid_digit base (hd rest)"
  shows "strtoul_loop p base (of_int v) m =
    Some (of_int (foldl (\<lambda>v d. v * base + d) v (map (the \<circ> digit_of) cs)), p + length cs)"
  using assms
proof (induction cs arbitrary: p v)
  case Nil
  then have "m p = 0 \<or> \<not> valid_digit base (m p)" by (cases rest) auto
  then show ?case by (subst strtoul_loop.simps) (auto simp: valid_digit_def split: option.splits)
next
  case (Cons c cs)
  obtain d where d: "digit_of c = Some d" "d < base" "c \<noteq> 0" "m p = c" using Cons.prems by (auto simp: valid_digit_def)
  have "strtoul_loop (p + 1) base (of_int (v * base + d)) m =
      Some (of_int (foldl (\<lambda>v d. v * base + d) (v * base + d) (map (the \<circ> digit_of) cs)), p + 1 + length cs)"
    by (rule Cons.IH) (use Cons.prems in auto)
  then show ?case using d by (subst strtoul_loop.simps) simp
qed

section \<open>Properties\<close>

text \<open>
  \<open>memmove\<close> copies the bytes that the source held before the call, whatever the overlap, and changes no other byte.
\<close>

theorem memmove_correct:
  "memmove dest src n m = (\<lambda>x. if dest \<le> x \<and> x < dest + n then m (src + (x - dest)) else m x)"
  by (simp add: memmove_def memcpy_spec copy_down_spec)

text \<open>
  The string routines agree on what a string is: \<open>strlen\<close> counts the characters, \<open>strcpy\<close> makes a copy that \<open>strcmp\<close>
  reports equal and \<open>strlen\<close> measures alike, changing nothing else, whenever the copy does not run over the
  unread part of its source, and the sign of \<open>strcmp\<close> is the lexicographic order of unsigned bytes.
\<close>

theorem string_routines_agree:
  assumes s: "cstring m s cs" and q: "cstring m q ds" and disj: "d + length cs < s \<or> s + length cs < d"
  shows "strlen s m = Some (length cs)"
    and "\<exists>t. strcpy d s m = Some t \<and> cstring t d cs \<and> strcmp d s t = Some 0 \<and> (\<forall>x. x < d \<or> d + length cs < x \<longrightarrow> t x = m x)"
    and "\<exists>r. strcmp s q m = Some r \<and> (r = 0 \<longleftrightarrow> cs = ds) \<and> (r < 0 \<longleftrightarrow> (cs, ds) \<in> lexord {(a, b). a < b})"
proof -
  show "strlen s m = Some (length cs)" using strlen_loop_spec [OF s, of 0] by (simp add: strlen_def)
  let ?t = "\<lambda>x. if d \<le> x \<and> x \<le> d + length cs then m (s + (x - d)) else m x"
  have run: "strcpy d s m = Some ?t" by (rule strcpy_spec [OF s]) (use disj in auto)
  have t: "cstring ?t d cs" "cstring ?t s cs" using s disj by (auto simp: cstring_def)
  then have "strcmp d s ?t = Some 0" using strcmp_spec [OF t] by auto
  then show "\<exists>t. strcpy d s m = Some t \<and> cstring t d cs \<and> strcmp d s t = Some 0 \<and> (\<forall>x. x < d \<or> d + length cs < x \<longrightarrow> t x = m x)"
    using run t(1) by auto
  show "\<exists>r. strcmp s q m = Some r \<and> (r = 0 \<longleftrightarrow> cs = ds) \<and> (r < 0 \<longleftrightarrow> (cs, ds) \<in> lexord {(a, b). a < b})"
    by (rule strcmp_spec [OF s q])
qed

theorem string_routines_agree_witness:
  "strlen 100 ((\<lambda>_. 0)(100 := 104, 101 := 105)) = Some 2 \<and>
   (\<exists>t. strcpy 200 100 ((\<lambda>_. 0)(100 := 104, 101 := 105)) = Some t \<and> cstring t 200 [104, 105])"
proof -
  let ?m = "(\<lambda>_. 0)(100 := 104, 101 := 105) :: mem"
  have "cstring ?m 100 [104, 105]" "cstring ?m 0 []" by simp_all
  note A = string_routines_agree [OF this, of 200]
  show ?thesis using A(1,2) by auto
qed

text \<open>
  \<open>strtoul\<close> reads the longest prefix of digits below the base, returns its value modulo \<open>2\<^sup>6\<^sup>4\<close> and points behind it.
\<close>

theorem strtoul_correct:
  assumes "cstring m p (cs @ rest)" "\<forall>c \<in> set cs. valid_digit base c" "rest = [] \<or> \<not> valid_digit base (hd rest)"
  shows "strtoul p base m = Some (of_int (digits_value base (map (the \<circ> digit_of) cs)), p + length cs)"
  using strtoul_loop_spec [OF assms, of 0] by (simp add: strtoul_def digits_value_def)

theorem strtoul_correct_witness: "strtoul 10 10 ((\<lambda>_. 0)(10 := 52, 11 := 50, 12 := 120)) = Some (42, 12)"
proof -
  let ?m = "(\<lambda>_. 0)(10 := 52, 11 := 50, 12 := 120) :: mem"
  have "cstring ?m 10 ([52, 50] @ [120])" by simp
  moreover have "\<forall>c \<in> set [52, 50]. valid_digit 10 c" "[120] = [] \<or> \<not> valid_digit 10 (hd [120])"
    by (simp_all add: valid_digit_def digit_of_def)
  ultimately show ?thesis using strtoul_correct [of ?m 10 "[52, 50]" "[120]" 10] by (simp add: digits_value_def digit_of_def)
qed

end
