(* ===== verification/Console.thy ===== *)
theory Console
  imports Libc
begin

text \<open>
  The console (\<^verbatim>\<open>kernel/console.c\<close>): an 80 by 25 text buffer with a cursor, mirrored to the serial port. The buffer is
  memory, a function from cell numbers to cells. Writes to ports are recorded in the order the code makes them
  (\<open>port_log\<close>); \<open>lsr\<close> is the stream of values that successive reads of the line status register return, and the
  wait for an empty transmitter does not return if none of them has the bit set. A string is the list of its
  bytes without the terminator; \<open>char\<close> is signed on this target.
\<close>

section \<open>State and ports\<close>

definition SERIAL_PORT :: u16 where [zconst]: "SERIAL_PORT = 0x3F8"
definition VGA_WIDTH :: int where [zconst]: "VGA_WIDTH = 80"
definition VGA_HEIGHT :: int where [zconst]: "VGA_HEIGHT = 25"

record console =
  vga :: "nat \<Rightarrow> u16"
  cursor_row :: int
  cursor_col :: int
  default_color :: u8
  serial_enabled :: bool
  port_log :: "(u16 \<times> u8) list"
  lsr :: "nat \<Rightarrow> u8"
  lsr_reads :: nat

definition outb :: "u16 \<Rightarrow> u8 \<Rightarrow> 'a console_scheme \<Rightarrow> 'a console_scheme" where
  "outb port val s = s\<lparr>port_log := port_log s @ [(port, val)]\<rparr>"

section \<open>Serial port\<close>

definition serial_init :: "'a console_scheme \<Rightarrow> 'a console_scheme" where
  "serial_init s =
     (let s = outb (SERIAL_PORT + 1) 0x00 s;
          s = outb (SERIAL_PORT + 3) 0x80 s;
          s = outb (SERIAL_PORT + 0) 0x03 s;
          s = outb (SERIAL_PORT + 1) 0x00 s;
          s = outb (SERIAL_PORT + 3) 0x03 s;
          s = outb (SERIAL_PORT + 2) 0xC7 s;
          s = outb (SERIAL_PORT + 4) 0x0B s
      in s\<lparr>serial_enabled := True\<rparr>)"

partial_function (option) serial_wait :: "'a console_scheme \<Rightarrow> 'a console_scheme option" where
  "serial_wait s =
     (let r = lsr s (lsr_reads s); s = s\<lparr>lsr_reads := lsr_reads s + 1\<rparr>
      in if r AND 0x20 = 0 then serial_wait s else Some s)"

definition serial_putc :: "u8 \<Rightarrow> 'a console_scheme \<Rightarrow> 'a console_scheme option" where
  "serial_putc c s = (if \<not> serial_enabled s then Some s else map_option (outb SERIAL_PORT c) (serial_wait s))"

section \<open>Text buffer\<close>

definition vga_entry :: "u8 \<Rightarrow> u8 \<Rightarrow> u16" where
  "vga_entry c color = scast c OR push_bit 8 (ucast color)"

definition vga_index :: "int \<Rightarrow> int \<Rightarrow> nat" where
  "vga_index y x = nat (y * VGA_WIDTH + x)"

definition console_cls :: "'a console_scheme \<Rightarrow> 'a console_scheme" where
  "console_cls s =
     (let s = (if \<not> serial_enabled s then serial_init s else s);
          b = fold (\<lambda>y. fold (\<lambda>x b. b(vga_index y x := vga_entry 32 (default_color s))) [0..VGA_WIDTH - 1])
                [0..VGA_HEIGHT - 1] (vga s)
      in s\<lparr>vga := b, cursor_row := 0, cursor_col := 0\<rparr>)"

definition console_scroll :: "'a console_scheme \<Rightarrow> 'a console_scheme" where
  "console_scroll s =
     (let b = fold (\<lambda>y. fold (\<lambda>x b. b(vga_index y x := b (vga_index (y + 1) x))) [0..VGA_WIDTH - 1])
                [0..VGA_HEIGHT - 2] (vga s);
          b = fold (\<lambda>x b. b(vga_index (VGA_HEIGHT - 1) x := vga_entry 32 (default_color s))) [0..VGA_WIDTH - 1] b
      in s\<lparr>vga := b\<rparr>)"

definition put_cell :: "u8 \<Rightarrow> 'a console_scheme \<Rightarrow> 'a console_scheme" where
  "put_cell c s = s\<lparr>vga := (vga s)(vga_index (cursor_row s) (cursor_col s) := vga_entry c (default_color s))\<rparr>"

definition backspace :: "'a console_scheme \<Rightarrow> 'a console_scheme" where
  "backspace s =
     put_cell 32
       (if cursor_col s > 0 then s\<lparr>cursor_col := cursor_col s - 1\<rparr>
        else if cursor_row s > 0 then s\<lparr>cursor_row := cursor_row s - 1, cursor_col := VGA_WIDTH - 1\<rparr>
        else s)"

definition advance :: "u8 \<Rightarrow> 'a console_scheme \<Rightarrow> 'a console_scheme" where
  "advance c s =
     (if c = 10 then s\<lparr>cursor_col := 0, cursor_row := cursor_row s + 1\<rparr>
      else if sint c \<ge> 32
      then let s = put_cell c s; s = s\<lparr>cursor_col := cursor_col s + 1\<rparr>
           in if cursor_col s \<ge> VGA_WIDTH then s\<lparr>cursor_col := 0, cursor_row := cursor_row s + 1\<rparr> else s
      else s)"

text \<open>After the bytes have gone to the serial port.\<close>

definition vga_putc :: "u8 \<Rightarrow> 'a console_scheme \<Rightarrow> 'a console_scheme" where
  "vga_putc c s =
     (if c = 8 then backspace s
      else let s = advance c s
           in if cursor_row s \<ge> VGA_HEIGHT then (console_scroll s)\<lparr>cursor_row := VGA_HEIGHT - 1\<rparr> else s)"

definition console_putc :: "u8 \<Rightarrow> 'a console_scheme \<Rightarrow> 'a console_scheme option" where
  "console_putc c s = do {
     s \<leftarrow> (if c = 10 then serial_putc 13 s else Some s);
     s \<leftarrow> serial_putc c s;
     Some (vga_putc c s)
   }"

fun console_write :: "u8 list \<Rightarrow> 'a console_scheme \<Rightarrow> 'a console_scheme option" where
  "console_write [] s = Some s"
| "console_write (c # cs) s = console_putc c s \<bind> console_write cs"

section \<open>Numbers\<close>

text \<open>The loop fills the twelve-byte buffer from the right; \<open>i\<close> is the next position.\<close>

function decimal_loop :: "u32 \<Rightarrow> int \<Rightarrow> u8 list \<Rightarrow> int \<times> u8 list" where
  "decimal_loop val i buf =
     (if val > 0 \<and> i \<ge> 0 then decimal_loop (val div 10) (i - 1) (buf[nat i := 48 + ucast (val mod 10)]) else (i, buf))"
  by pat_completeness auto
termination
  by (relation "measure (\<lambda>(val, i, buf). unat val)") (auto simp: word_less_nat_alt unat_div)

definition c_str :: "u8 list \<Rightarrow> u8 list" where
  "c_str buf = takeWhile (\<lambda>c. c \<noteq> 0) buf"

text \<open>\<open>junk\<close> is the uninitialised stack buffer.\<close>

definition print_uint :: "u8 list \<Rightarrow> u32 \<Rightarrow> 'a console_scheme \<Rightarrow> 'a console_scheme option" where
  "print_uint junk val s =
     (if val = 0 then console_write [48] s
      else let (i, buf) = decimal_loop val 10 (junk[11 := 0]) in console_write (c_str (drop (nat (i + 1)) buf)) s)"

definition hex_digit :: "nat \<Rightarrow> u8" where
  "hex_digit n = [48, 49, 50, 51, 52, 53, 54, 55, 56, 57, 65, 66, 67, 68, 69, 70] ! n"

definition print_hex32 :: "u32 \<Rightarrow> 'a console_scheme \<Rightarrow> 'a console_scheme option" where
  "print_hex32 val =
     console_write ([48, 120] @ map (\<lambda>i. hex_digit (unat (drop_bit (28 - i * 4) val AND 0xF))) [0..<8])"

definition print_hex64 :: "u64 \<Rightarrow> 'a console_scheme \<Rightarrow> 'a console_scheme option" where
  "print_hex64 val =
     console_write ([48, 120] @ map (\<lambda>i. hex_digit (unat (drop_bit (60 - i * 4) val AND 0xF))) [0..<16])"

section \<open>Buffer loops\<close>

definition console_ok :: "'a console_scheme \<Rightarrow> bool" where
  "console_ok s \<longleftrightarrow> 0 \<le> cursor_row s \<and> cursor_row s < 25 \<and> 0 \<le> cursor_col s \<and> cursor_col s < 80"

lemma row_cells: "0 \<le> y \<Longrightarrow> (\<exists>x \<in> {0..79}. n = vga_index y x) \<longleftrightarrow> 80 * nat y \<le> n \<and> n < 80 * nat y + 80"
proof
  assume "0 \<le> y" "80 * nat y \<le> n \<and> n < 80 * nat y + 80"
  then show "\<exists>x \<in> {0..79}. n = vga_index y x"
    by (intro bexI [of _ "int n - y * 80"]) (auto simp: vga_index_def VGA_WIDTH_def)
qed (auto simp: vga_index_def VGA_WIDTH_def)

lemma fill_row:
  "fold (\<lambda>x b. b(vga_index y x := v)) xs b = (\<lambda>n. if \<exists>x \<in> set xs. n = vga_index y x then v else b n)"
  by (induction xs arbitrary: b) (auto simp: fun_eq_iff)

lemma copy_row:
  assumes "0 \<le> y" "set xs \<subseteq> {0..79}"
  shows "fold (\<lambda>x b. b(vga_index y x := b (vga_index (y + 1) x))) xs b =
    (\<lambda>n. if \<exists>x \<in> set xs. n = vga_index y x then b (n + 80) else b n)"
  using assms(2)
proof (induction xs arbitrary: b)
  case (Cons x xs)
  have e: "vga_index (y + 1) x = vga_index y x + 80" if "x \<in> {0..79}" for x
    using that assms(1) by (simp add: vga_index_def VGA_WIDTH_def nat_add_distrib distrib_right)
  have ne: "vga_index y x' + 80 \<noteq> vga_index y x" if "x' \<in> {0..79}" "x \<in> {0..79}" for x' x
    using that assms(1) unfolding vga_index_def VGA_WIDTH_def by simp linarith
  let ?b = "b(vga_index y x := b (vga_index y x + 80))"
  have x: "x \<in> {0..79}" using Cons.prems by simp
  have "fold (\<lambda>x b. b(vga_index y x := b (vga_index (y + 1) x))) (x # xs) b =
      fold (\<lambda>x b. b(vga_index y x := b (vga_index (y + 1) x))) xs ?b" by (simp only: fold_Cons comp_apply e [OF x])
  also have "\<dots> = (\<lambda>n. if \<exists>x \<in> set xs. n = vga_index y x then ?b (n + 80) else ?b n)"
    by (rule Cons.IH) (use Cons.prems in simp)
  also have "\<dots> = (\<lambda>n. if \<exists>x \<in> set (x # xs). n = vga_index y x then b (n + 80) else b n)"
    by (rule ext) (use ne [OF _ x] Cons.prems in auto)
  finally show ?case .
qed auto

lemma copy_full_row:
  "0 \<le> y \<Longrightarrow> fold (\<lambda>x b. b(vga_index y x := b (vga_index (y + 1) x))) [0..79] b =
    (\<lambda>n. if 80 * nat y \<le> n \<and> n < 80 * nat y + 80 then b (n + 80) else b n)"
  using copy_row [of y "[0..79]" b] row_cells [of y] by simp

lemma fill_full_row:
  "0 \<le> y \<Longrightarrow> fold (\<lambda>x b. b(vga_index y x := v)) [0..79] b = (\<lambda>n. if 80 * nat y \<le> n \<and> n < 80 * nat y + 80 then v else b n)"
  using fill_row [of y v "[0..79]" b] row_cells [of y] by simp

lemma upto_last: "[0..int k] = [0..int k - 1] @ [int k]"
  by (simp add: upto_rec2)

lemma scroll_rows:
  "fold (\<lambda>y. fold (\<lambda>x b. b(vga_index y x := b (vga_index (y + 1) x))) [0..79]) [0..int k - 1] b =
    (\<lambda>n. if n < 80 * k then b (n + 80) else b n)"
proof (induction k)
  case (Suc k)
  have *: "[0..int (Suc k) - 1] = [0..int k - 1] @ [int k]" using upto_last [of k] by simp
  show ?case unfolding * fold_append comp_def Suc.IH by (auto simp: fun_eq_iff copy_full_row)
qed auto

lemma fill_rows:
  "fold (\<lambda>y. fold (\<lambda>x b. b(vga_index y x := v)) [0..79]) [0..int k - 1] b = (\<lambda>n. if n < 80 * k then v else b n)"
proof (induction k)
  case (Suc k)
  have *: "[0..int (Suc k) - 1] = [0..int k - 1] @ [int k]" using upto_last [of k] by simp
  show ?case unfolding * fold_append comp_def Suc.IH by (auto simp: fun_eq_iff fill_full_row)
qed auto

lemma console_scroll_vga:
  "vga (console_scroll s) = (\<lambda>n. if n < 1920 then vga s (n + 80) else if n < 2000 then vga_entry 32 (default_color s) else vga s n)"
proof -
  have "fold (\<lambda>y. fold (\<lambda>x b. b(vga_index y x := b (vga_index (y + 1) x))) [0..79]) [0..23] (vga s) =
      (\<lambda>n. if n < 1920 then vga s (n + 80) else vga s n)" using scroll_rows [of 24 "vga s"] by simp
  then show ?thesis by (auto simp: console_scroll_def VGA_WIDTH_def VGA_HEIGHT_def fill_full_row fun_eq_iff)
qed

lemma console_cls_vga:
  "vga (console_cls s) = (\<lambda>n. if n < 2000 then vga_entry 32 (default_color s) else vga s n)"
  using fill_rows [of "vga_entry 32 (default_color s)" 25 "vga s"] by (simp add: console_cls_def VGA_WIDTH_def VGA_HEIGHT_def serial_init_def outb_def Let_def)

section \<open>The serial line\<close>

text \<open>The transmitter becomes empty again and again.\<close>

definition serial_ready :: "'a console_scheme \<Rightarrow> bool" where
  "serial_ready s \<longleftrightarrow> (\<forall>k. \<exists>j \<ge> k. lsr s j AND 0x20 \<noteq> 0)"

lemma serial_wait_returns:
  assumes "lsr s (lsr_reads s + d) AND 0x20 \<noteq> 0"
  shows "\<exists>n. serial_wait s = Some (s\<lparr>lsr_reads := n\<rparr>)"
  using assms
proof (induction d arbitrary: s)
  case 0
  then show ?case by (subst serial_wait.simps) auto
next
  case (Suc d)
  let ?s = "s\<lparr>lsr_reads := lsr_reads s + 1\<rparr>"
  have "\<exists>n. serial_wait ?s = Some (?s\<lparr>lsr_reads := n\<rparr>)" by (rule Suc.IH) (use Suc.prems in simp)
  then show ?case by (subst serial_wait.simps) (auto simp: Let_def)
qed

lemma serial_putc_returns:
  assumes "serial_ready s"
  shows "\<exists>n. serial_putc c s =
    Some (s\<lparr>lsr_reads := n, port_log := port_log s @ (if serial_enabled s then [(SERIAL_PORT, c)] else [])\<rparr>)"
proof (cases "serial_enabled s")
  case True
  obtain j where "lsr_reads s \<le> j" "lsr s j AND 0x20 \<noteq> 0" using assms unfolding serial_ready_def by blast
  then have "lsr s (lsr_reads s + (j - lsr_reads s)) AND 0x20 \<noteq> 0" by simp
  from serial_wait_returns [OF this] show ?thesis using True by (auto simp: serial_putc_def outb_def)
next
  case False
  then show ?thesis by (intro exI [of _ "lsr_reads s"]) (simp add: serial_putc_def)
qed

section \<open>The terminal\<close>

text \<open>What a user sees: 25 rows of 80 cells and a cursor. A line feed in the last row drops the first row.\<close>

record terminal =
  t_rows :: "u16 list list"
  t_row :: nat
  t_col :: nat

definition term_set :: "u16 \<Rightarrow> terminal \<Rightarrow> terminal" where
  "term_set v t = t\<lparr>t_rows := (t_rows t)[t_row t := (t_rows t ! t_row t)[t_col t := v]]\<rparr>"

definition term_newline :: "u16 \<Rightarrow> terminal \<Rightarrow> terminal" where
  "term_newline blank t =
     (if t_row t = 24 then t\<lparr>t_rows := tl (t_rows t) @ [replicate 80 blank], t_col := 0\<rparr>
      else t\<lparr>t_row := t_row t + 1, t_col := 0\<rparr>)"

definition term_left :: "terminal \<Rightarrow> terminal" where
  "term_left t =
     (if t_col t > 0 then t\<lparr>t_col := t_col t - 1\<rparr> else if t_row t > 0 then t\<lparr>t_row := t_row t - 1, t_col := 79\<rparr> else t)"

definition term_putc :: "u8 \<Rightarrow> u8 \<Rightarrow> terminal \<Rightarrow> terminal" where
  "term_putc color c t =
     (if c = 8 then term_set (vga_entry 32 color) (term_left t)
      else if c = 10 then term_newline (vga_entry 32 color) t
      else if 32 \<le> c \<and> c < 128
      then let t = term_set (vga_entry c color) t
           in if t_col t = 79 then term_newline (vga_entry 32 color) t else t\<lparr>t_col := t_col t + 1\<rparr>
      else t)"

definition grid :: "(nat \<Rightarrow> u16) \<Rightarrow> u16 list list" where
  "grid b = map (\<lambda>y. map (\<lambda>x. b (80 * y + x)) [0..<80]) [0..<25]"

definition screen :: "'a console_scheme \<Rightarrow> terminal" where
  "screen s = \<lparr>t_rows = grid (vga s), t_row = nat (cursor_row s), t_col = nat (cursor_col s)\<rparr>"

lemma cell_eq: "80 * y' + x' = 80 * y + x \<longleftrightarrow> y' = y \<and> x' = x" if "x < 80" "x' < 80" for x :: nat
proof
  assume e: "80 * y' + x' = 80 * y + x"
  have "(80 * y' + x') div 80 = y'" "(80 * y + x) div 80 = y" using that by simp_all
  then show "y' = y \<and> x' = x" using e by simp
qed simp

lemma grid_set:
  assumes "y < 25" "x < 80"
  shows "grid (b(80 * y + x := v)) = (grid b)[y := (grid b ! y)[x := v]]"
proof (rule nth_equalityI)
  fix y' assume y': "y' < length (grid (b(80 * y + x := v)))"
  show "grid (b(80 * y + x := v)) ! y' = (grid b)[y := (grid b ! y)[x := v]] ! y'"
    by (rule nth_equalityI) (use y' assms in \<open>auto simp: grid_def nth_list_update cell_eq\<close>)
qed (simp add: grid_def)

lemma grid_scroll: "grid (vga (console_scroll s)) = tl (grid (vga s)) @ [replicate 80 (vga_entry 32 (default_color s))]"
proof (rule nth_equalityI)
  fix y assume "y < length (grid (vga (console_scroll s)))"
  then have y: "y < 25" by (simp add: grid_def)
  show "grid (vga (console_scroll s)) ! y = (tl (grid (vga s)) @ [replicate 80 (vga_entry 32 (default_color s))]) ! y"
  proof (cases "y < 24")
    case True
    then show ?thesis by (simp add: grid_def nth_append nth_tl console_scroll_vga algebra_simps)
  next
    case False
    then have "y = 24" using y by simp
    moreover have "map (\<lambda>x. vga (console_scroll s) (1920 + x)) [0..<80] = replicate 80 (vga_entry 32 (default_color s))"
      by (rule nth_equalityI) (auto simp: console_scroll_vga)
    ultimately show ?thesis by (simp add: grid_def nth_append)
  qed
qed (simp add: grid_def)

lemma screen_put_cell: "console_ok s \<Longrightarrow> screen (put_cell c s) = term_set (vga_entry c (default_color s)) (screen s)"
proof -
  assume ok: "console_ok s"
  have "vga_index (cursor_row s) (cursor_col s) = 80 * nat (cursor_row s) + nat (cursor_col s)"
    using ok by (simp add: vga_index_def VGA_WIDTH_def console_ok_def nat_add_distrib nat_mult_distrib)
  moreover have "nat (cursor_row s) < 25" "nat (cursor_col s) < 80" using ok by (auto simp: console_ok_def)
  ultimately show ?thesis by (simp add: put_cell_def screen_def term_set_def grid_set)
qed

lemma console_ok_simps [simp]:
  "console_ok (put_cell c s) = console_ok s" "default_color (put_cell c s) = default_color s"
  "cursor_row (put_cell c s) = cursor_row s" "cursor_col (put_cell c s) = cursor_col s"
  "console_ok (s\<lparr>lsr_reads := n\<rparr>) = console_ok s" "console_ok (s\<lparr>port_log := l\<rparr>) = console_ok s"
  "screen (s\<lparr>lsr_reads := n\<rparr>) = screen s" "screen (s\<lparr>port_log := l\<rparr>) = screen s"
  by (simp_all add: put_cell_def console_ok_def screen_def)

lemma screen_backspace:
  assumes "console_ok s"
  shows "screen (backspace s) = term_set (vga_entry 32 (default_color s)) (term_left (screen s))" "console_ok (backspace s)"
proof -
  let ?s = "if cursor_col s > 0 then s\<lparr>cursor_col := cursor_col s - 1\<rparr>
    else if cursor_row s > 0 then s\<lparr>cursor_row := cursor_row s - 1, cursor_col := VGA_WIDTH - 1\<rparr> else s"
  have ok: "console_ok ?s" using assms by (auto simp: console_ok_def VGA_WIDTH_def)
  have "screen ?s = term_left (screen s)"
    using assms by (auto simp: screen_def term_left_def console_ok_def VGA_WIDTH_def nat_diff_distrib)
  moreover have "default_color ?s = default_color s" by simp
  ultimately show "screen (backspace s) = term_set (vga_entry 32 (default_color s)) (term_left (screen s))"
    unfolding backspace_def screen_put_cell [OF ok] by simp
  show "console_ok (backspace s)" using ok by (simp add: backspace_def)
qed

lemma sint_printable: "32 \<le> sint c \<longleftrightarrow> 32 \<le> c \<and> c < 128" for c :: u8
proof (cases "c < 128")
  case True
  then have "uint c < 128" by (simp add: word_less_def)
  moreover have "- 128 \<le> uint c" by (rule order_trans [of _ 0]) simp_all
  ultimately have "sint c = uint c" by (simp add: sint_uint signed_take_bit_int_eq_self_iff)
  then show ?thesis using True by (simp add: word_le_def)
next
  case False
  then have "128 \<le> uint c" "uint c < 256" using uint_lt2p [of c] by (simp_all add: word_less_def)
  then have "uint c div 128 = 1" by simp
  then have "sint c < 0" by (simp add: sint_uint signed_take_bit_negative_iff bit_iff_odd)
  then show ?thesis using False by simp
qed

text \<open>A line break, with the scroll that \<open>console_putc\<close> does behind it.\<close>

lemma screen_newline:
  assumes "console_ok t"
  shows "screen (if cursor_row t + 1 \<ge> 25 then (console_scroll (t\<lparr>cursor_col := 0, cursor_row := cursor_row t + 1\<rparr>))\<lparr>cursor_row := 24\<rparr>
      else t\<lparr>cursor_col := 0, cursor_row := cursor_row t + 1\<rparr>) = term_newline (vga_entry 32 (default_color t)) (screen t)"
proof -
  have "grid (vga (console_scroll (t\<lparr>cursor_col := 0, cursor_row := cursor_row t + 1\<rparr>))) =
      tl (grid (vga t)) @ [replicate 80 (vga_entry 32 (default_color t))]"
    using grid_scroll [of "t\<lparr>cursor_col := 0, cursor_row := cursor_row t + 1\<rparr>"] by simp
  then show ?thesis
    using assms by (auto simp: screen_def term_newline_def console_ok_def console_scroll_def Let_def nat_add_distrib)
qed

lemma screen_vga_putc:
  assumes ok: "console_ok s"
  shows "screen (vga_putc c s) = term_putc (default_color s) c (screen s)"
proof -
  let ?t = "put_cell c s"
  have col: "t_col (screen ?t) = 79 \<longleftrightarrow> cursor_col s = 79" using ok by (auto simp: screen_def console_ok_def)
  have row: "cursor_row s < 25" "0 \<le> cursor_col s" "cursor_col s < 80" using ok by (auto simp: console_ok_def)
  consider "c = 8" | "c = 10" | "c \<noteq> 8" "c \<noteq> 10" "32 \<le> c \<and> c < 128" "cursor_col s = 79"
    | "c \<noteq> 8" "c \<noteq> 10" "32 \<le> c \<and> c < 128" "cursor_col s \<noteq> 79" | "c \<noteq> 8" "c \<noteq> 10" "\<not> (32 \<le> c \<and> c < 128)" by blast
  then show ?thesis
  proof cases
    case 1
    then show ?thesis using screen_backspace(1) [OF ok] by (simp add: vga_putc_def term_putc_def)
  next
    case 2
    then show ?thesis using screen_newline [OF ok]
      by (cases "24 \<le> cursor_row s") (simp_all add: vga_putc_def term_putc_def advance_def VGA_HEIGHT_def Let_def)
  next
    case 3
    have "screen (vga_putc c s) = term_newline (vga_entry 32 (default_color s)) (screen ?t)"
      using screen_newline [of ?t] ok 3 unfolding vga_putc_def advance_def sint_printable
      by (cases "24 \<le> cursor_row s") (simp_all add: VGA_WIDTH_def VGA_HEIGHT_def Let_def)
    then show ?thesis using 3 col by (simp add: term_putc_def screen_put_cell [OF ok] Let_def)
  next
    case 4
    have "screen (vga_putc c s) = (screen ?t)\<lparr>t_col := t_col (screen ?t) + 1\<rparr>"
      using row 4 unfolding vga_putc_def advance_def sint_printable
      by (simp add: VGA_WIDTH_def VGA_HEIGHT_def screen_def nat_add_distrib)
    then show ?thesis using 4 col by (simp add: term_putc_def screen_put_cell [OF ok] Let_def)
  next
    case 5
    then show ?thesis using row unfolding vga_putc_def advance_def sint_printable term_putc_def by (auto simp: VGA_HEIGHT_def)
  qed
qed

lemma vga_putc_ok:
  assumes ok: "console_ok s"
  shows "console_ok (vga_putc c s)"
proof (cases "c = 8")
  case True
  then show ?thesis using screen_backspace(2) [OF ok] by (simp add: vga_putc_def)
next
  case False
  then show ?thesis
    using ok by (auto simp: vga_putc_def advance_def console_ok_def console_scroll_def Let_def VGA_WIDTH_def VGA_HEIGHT_def put_cell_def)
qed

text \<open>Everything outside the text buffer, the cursor and the serial port.\<close>

lemma vga_putc_frame:
  assumes "console_ok s"
  shows "2000 \<le> n \<Longrightarrow> vga (vga_putc c s) n = vga s n"
    "default_color (vga_putc c s) = default_color s" "serial_enabled (vga_putc c s) = serial_enabled s"
    "port_log (vga_putc c s) = port_log s" "lsr (vga_putc c s) = lsr s" "console.more (vga_putc c s) = console.more s"
proof -
  have cell: "vga_index y x < 2000" if "0 \<le> y" "y < 25" "0 \<le> x" "x < 80" for y x
    using that by (simp add: vga_index_def VGA_WIDTH_def)
  show "2000 \<le> n \<Longrightarrow> vga (vga_putc c s) n = vga s n"
    using assms cell [of "cursor_row s" "cursor_col s"] cell [of "cursor_row s" "cursor_col s - 1"] cell [of "cursor_row s - 1" 79]
    by (auto simp: vga_putc_def backspace_def advance_def put_cell_def console_ok_def console_scroll_vga Let_def VGA_WIDTH_def VGA_HEIGHT_def)
qed (auto simp: vga_putc_def backspace_def advance_def put_cell_def console_scroll_def Let_def)

section \<open>Writing text\<close>

text \<open>What goes over the serial line: a carriage return before each line feed.\<close>

fun crlf :: "u8 list \<Rightarrow> u8 list" where
  "crlf [] = []"
| "crlf (c # cs) = (if c = 10 then [13, 10] else [c]) @ crlf cs"

definition serial_bytes :: "'a console_scheme \<Rightarrow> u8 list \<Rightarrow> (u16 \<times> u8) list" where
  "serial_bytes s cs = (if serial_enabled s then map (Pair SERIAL_PORT) (crlf cs) else [])"

lemma serial_ready_simps [simp]:
  "serial_ready (s\<lparr>lsr_reads := n\<rparr>) = serial_ready s" "serial_ready (s\<lparr>port_log := l\<rparr>) = serial_ready s"
  by (simp_all add: serial_ready_def)

lemma console_putc_spec:
  assumes "console_ok s" "serial_ready s"
  obtains t where "console_putc c s = Some t" "console_ok t" "serial_ready t"
    "screen t = term_putc (default_color s) c (screen s)" "port_log t = port_log s @ serial_bytes s [c]"
    "\<forall>n. 2000 \<le> n \<longrightarrow> vga t n = vga s n" "default_color t = default_color s" "serial_enabled t = serial_enabled s"
    "console.more t = console.more s"
proof -
  obtain n where n: "serial_putc 13 s = Some (s\<lparr>lsr_reads := n, port_log := port_log s @ (if serial_enabled s then [(SERIAL_PORT, 13)] else [])\<rparr>)"
    using serial_putc_returns [OF assms(2), of 13] by blast
  define s0 where "s0 = (if c = 10 then the (serial_putc 13 s) else s)"
  have "serial_ready s0" using assms(2) n by (simp add: s0_def)
  from serial_putc_returns [OF this, of c] obtain k where
    k: "serial_putc c s0 = Some (s0\<lparr>lsr_reads := k, port_log := port_log s0 @ (if serial_enabled s0 then [(SERIAL_PORT, c)] else [])\<rparr>)"
    by blast
  define s1 where "s1 = s0\<lparr>lsr_reads := k, port_log := port_log s0 @ (if serial_enabled s0 then [(SERIAL_PORT, c)] else [])\<rparr>"
  have s1: "console_ok s1" "screen s1 = screen s" "port_log s1 = port_log s @ serial_bytes s [c]" "serial_ready s1"
    "default_color s1 = default_color s" "serial_enabled s1 = serial_enabled s" "vga s1 = vga s"
    "console.more s1 = console.more s"
    using assms n by (simp_all add: s1_def s0_def serial_bytes_def)
  show ?thesis
  proof (rule that [of "vga_putc c s1"])
    have "(if c = 10 then serial_putc 13 s else Some s) = Some s0" using n by (simp add: s0_def)
    then show "console_putc c s = Some (vga_putc c s1)" using k by (simp only: console_putc_def s1_def Option.bind.bind_lunit)
    show "console_ok (vga_putc c s1)" by (rule vga_putc_ok [OF s1(1)])
    show "screen (vga_putc c s1) = term_putc (default_color s) c (screen s)" using screen_vga_putc [OF s1(1), of c] s1 by simp
  qed (use vga_putc_frame [OF s1(1)] s1 in \<open>simp_all add: serial_ready_def\<close>)
qed

lemma console_write_spec:
  assumes "console_ok s" "serial_ready s"
  shows "\<exists>t. console_write cs s = Some t \<and> console_ok t \<and> serial_ready t \<and>
    screen t = fold (term_putc (default_color s)) cs (screen s) \<and> port_log t = port_log s @ serial_bytes s cs \<and>
    (\<forall>n \<ge> 2000. vga t n = vga s n) \<and> default_color t = default_color s \<and> serial_enabled t = serial_enabled s \<and> console.more t = console.more s"
  using assms
proof (induction cs arbitrary: s)
  case Nil
  then show ?case by (simp add: serial_bytes_def)
next
  case (Cons c cs)
  obtain t where t: "console_putc c s = Some t" "console_ok t" "serial_ready t"
    "screen t = term_putc (default_color s) c (screen s)" "port_log t = port_log s @ serial_bytes s [c]"
    "\<forall>n. 2000 \<le> n \<longrightarrow> vga t n = vga s n" "default_color t = default_color s" "serial_enabled t = serial_enabled s"
    "console.more t = console.more s"
    by (rule console_putc_spec [OF Cons.prems, of c])
  have app: "serial_bytes s [c] @ serial_bytes t cs = serial_bytes s (c # cs)" using t(8) by (auto simp: serial_bytes_def)
  from Cons.IH [OF t(2,3)] obtain u where "console_write cs t = Some u" "console_ok u" "serial_ready u"
    "screen u = fold (term_putc (default_color t)) cs (screen t)" "port_log u = port_log t @ serial_bytes t cs"
    "\<forall>n \<ge> 2000. vga u n = vga t n" "default_color u = default_color t" "serial_enabled u = serial_enabled t"
    "console.more u = console.more t" by blast
  then show ?case using t app by (intro exI [of _ u]) simp
qed

text \<open>
  C21: Writing a string returns, shows on the 25 by 80 screen what a terminal shows, puts the text with carriage returns
  on the serial line when it is enabled, keeps the cursor on the screen and never writes outside the text buffer.
\<close>

theorem console_write_correct:
  assumes "console_ok s" "serial_ready s"
  shows "\<exists>t. console_write cs s = Some t \<and> console_ok t \<and>
    screen t = fold (term_putc (default_color s)) cs (screen s) \<and> port_log t = port_log s @ serial_bytes s cs \<and>
    (\<forall>n. 2000 \<le> n \<longrightarrow> vga t n = vga s n)"
  using console_write_spec [OF assms, of cs] by blast

definition console_boot :: console where
  "console_boot = \<lparr>vga = (\<lambda>_. 0), cursor_row = 24, cursor_col = 78, default_color = 7, serial_enabled = True, port_log = [],
     lsr = (\<lambda>_. 0x20), lsr_reads = 0\<rparr>"

lemma console_boot_ready: "console_ok console_boot" "serial_ready console_boot"
  by (auto simp: console_boot_def console_ok_def serial_ready_def intro: exI [of _ "k" for k])

theorem console_write_correct_witness:
  "\<exists>t. console_write [72, 105, 33, 10] console_boot = Some t \<and> console_ok t \<and>
    t_row (screen t) = 24 \<and> t_col (screen t) = 0 \<and> map snd (port_log t) = [72, 105, 33, 13, 10]"
proof -
  have "t_row (fold (term_putc 7) [72, 105, 33, 10] (screen console_boot)) = 24"
    "t_col (fold (term_putc 7) [72, 105, 33, 10] (screen console_boot)) = 0"
    by (simp_all add: term_putc_def term_set_def term_newline_def screen_def console_boot_def Let_def)
  then show ?thesis
    using console_write_correct [OF console_boot_ready, of "[72, 105, 33, 10]"]
    by (auto simp: serial_bytes_def console_boot_def)
qed

section \<open>Printing numbers\<close>

fun decimal :: "nat \<Rightarrow> u8 list" where
  "decimal n = (if n < 10 then [48 + of_nat n] else decimal (n div 10) @ [48 + of_nat (n mod 10)])"

declare decimal.simps [simp del] decimal_loop.simps [simp del]

lemma decimal_nonempty [simp]: "decimal n \<noteq> []"
  by (subst decimal.simps) simp

lemma digit_of_decimal: "d < 10 \<Longrightarrow> digit_of (48 + of_nat d) = Some (int d)"
proof -
  assume "d < 10"
  then have "d \<in> {0..<10}" by simp
  then have "d \<in> {0, 1, 2, 3, 4, 5, 6, 7, 8, 9}" by auto
  then show ?thesis by (auto simp: digit_of_def)
qed

lemma decimal_digits: "c \<in> set (decimal n) \<Longrightarrow> \<exists>d < 10. c = 48 + of_nat d"
proof (induction n rule: decimal.induct)
  case (1 n)
  show ?case
  proof (cases "n < 10")
    case True
    then have "c = 48 + of_nat n" using "1.prems" by (simp add: decimal.simps [of n])
    then show ?thesis using True by blast
  next
    case False
    then have "c = 48 + of_nat (n mod 10) \<or> c \<in> set (decimal (n div 10))" using "1.prems" by (auto simp: decimal.simps [of n])
    then show ?thesis using "1.IH" False mod_less_divisor [of 10 n] by (metis zero_less_numeral)
  qed
qed

lemma digit_not_zero: "d < 10 \<Longrightarrow> (48 + of_nat d :: u8) \<noteq> 0"
proof -
  assume "d < 10"
  then have "d \<in> {0..<10}" by simp
  then have "d \<in> {0, 1, 2, 3, 4, 5, 6, 7, 8, 9}" by auto
  then show ?thesis by auto
qed

lemma decimal_no_zero: "0 \<notin> set (decimal n)"
proof
  assume "0 \<in> set (decimal n)"
  then obtain d where "d < 10" "(0 :: u8) = 48 + of_nat d" using decimal_digits by blast
  then show False using digit_not_zero [of d] by simp
qed

lemma decimal_value: "digits_value 10 (map (the \<circ> digit_of) (decimal n)) = int n"
proof (induction n rule: decimal.induct)
  case (1 n)
  have "digits_value 10 (map (the \<circ> digit_of) (decimal n)) =
      (if n < 10 then int n else digits_value 10 (map (the \<circ> digit_of) (decimal (n div 10))) * 10 + int (n mod 10))"
    by (subst decimal.simps) (simp add: digits_value_def digit_of_decimal)
  moreover have "int (n div 10) * 10 + int (n mod 10) = int n"
    using div_mult_mod_eq [of n 10] by (metis of_nat_add of_nat_mult of_nat_numeral)
  ultimately show ?case using 1 by (cases "n < 10") (simp_all only: if_True if_False simp_thms)
qed

lemma decimal_length: "n < 10 ^ Suc k \<Longrightarrow> length (decimal n) \<le> Suc k"
proof (induction k arbitrary: n)
  case 0
  then show ?case by (simp add: decimal.simps)
next
  case (Suc k)
  have "n div 10 < 10 ^ Suc k" using Suc.prems by (simp add: less_mult_imp_div_less)
  then show ?case using Suc.IH [of "n div 10"] by (subst decimal.simps) simp
qed

lemma decimal_loop_spec:
  assumes "0 < val" "length (decimal (unat val)) \<le> Suc i" "i < length buf"
  shows "\<exists>buf'. decimal_loop val (int i) buf = (int i - int (length (decimal (unat val))), buf') \<and> length buf' = length buf \<and>
    drop (Suc i - length (decimal (unat val))) buf' = decimal (unat val) @ drop (Suc i) buf"
  using assms
proof (induction "unat val" arbitrary: val i buf rule: less_induct)
  case less
  let ?d = "48 + ucast (val mod 10) :: u8"
  have d: "?d = 48 + of_nat (unat val mod 10)" by (simp add: unat_mod [of val 10, simplified, symmetric])
  have dr: "drop i (buf[i := ?d]) = ?d # drop (Suc i) buf" using less.prems(3) Cons_nth_drop_Suc [of i "buf[i := ?d]"] by simp
  have step: "decimal_loop val (int i) buf = decimal_loop (val div 10) (int i - 1) (buf[i := ?d])"
    using less.prems by (subst decimal_loop.simps) simp
  show ?case
  proof (cases "unat val < 10")
    case True
    then have "unat (val div 10) = 0" by (simp add: unat_div)
    then have "val div 10 = 0" by (simp add: unat_eq_0)
    moreover have "decimal (unat val) = [?d]" using True d by (simp add: decimal.simps)
    ultimately show ?thesis unfolding step using less.prems
      by (subst decimal_loop.simps) (simp add: dr)
  next
    case False
    have len: "length (decimal (unat val)) = Suc (length (decimal (unat val div 10)))" using False by (subst decimal.simps) simp
    have u: "unat (val div 10) = unat val div 10" by (simp add: unat_div)
    have pos: "0 < length (decimal (unat val div 10))" by simp
    then have i: "0 < i" using less.prems(2) len by linarith
    have "\<exists>buf'. decimal_loop (val div 10) (int (i - 1)) (buf[i := ?d]) =
        (int (i - 1) - int (length (decimal (unat (val div 10)))), buf') \<and> length buf' = length (buf[i := ?d]) \<and>
        drop (Suc (i - 1) - length (decimal (unat (val div 10)))) buf' = decimal (unat (val div 10)) @ drop (Suc (i - 1)) (buf[i := ?d])"
      by (rule less.hyps) (use less.prems len i False u in \<open>auto simp: word_less_nat_alt\<close>)
    then obtain buf' where IH: "decimal_loop (val div 10) (int (i - 1)) (buf[i := ?d]) =
        (int (i - 1) - int (length (decimal (unat val div 10))), buf')" "length buf' = length buf"
        "drop (i - length (decimal (unat val div 10))) buf' = decimal (unat val div 10) @ drop i (buf[i := ?d])"
      using i by (auto simp: u)
    have "decimal (unat val) = decimal (unat val div 10) @ [?d]" using False d by (simp add: decimal.simps [of "unat val"])
    moreover have "int (i - 1) = int i - 1" using i by simp
    ultimately show ?thesis unfolding step using IH len dr by (intro exI [of _ buf']) simp
  qed
qed

lemma print_uint_decimal:
  assumes "length junk = 12"
  shows "print_uint junk val s = console_write (decimal (unat val)) s"
proof (cases "val = 0")
  case True
  then show ?thesis by (simp add: print_uint_def decimal.simps)
next
  case False
  have "unat val < 10 ^ Suc 9" by (rule less_trans [OF unat_u32_less]) simp
  then have len: "length (decimal (unat val)) \<le> 10" using decimal_length [of "unat val" 9] by simp
  obtain buf where buf: "decimal_loop val (int 10) (junk[11 := 0]) = (int 10 - int (length (decimal (unat val))), buf)"
    "length buf = 12" "drop (11 - length (decimal (unat val))) buf = decimal (unat val) @ drop 11 (junk[11 := 0])"
    using decimal_loop_spec [of val 10 "junk[11 := 0]"] False len assms by (auto simp: word_greater_zero_iff)
  have "drop 11 (junk[11 := 0]) = [0]" using assms Cons_nth_drop_Suc [of 11 "junk[11 := 0]"] by simp
  moreover have "c_str (decimal (unat val) @ [0]) = decimal (unat val)"
    unfolding c_str_def using decimal_no_zero by (subst takeWhile_append2) auto
  moreover have "nat (int 10 - int (length (decimal (unat val))) + 1) = 11 - length (decimal (unat val))" using len by simp
  ultimately show ?thesis using buf False by (simp add: print_uint_def)
qed

text \<open>
  Whatever the stack held, \<open>print_uint\<close> writes at most ten characters, and \<open>strtoul\<close> reads them back as the number.
\<close>

theorem print_uint_strtoul:
  assumes "length junk = 12"
  shows "\<exists>cs. print_uint junk val s = console_write cs s \<and> 0 < length cs \<and> length cs \<le> 10 \<and>
    (\<forall>m p. cstring m p cs \<longrightarrow> strtoul p 10 m = Some (ucast val, p + length cs))"
proof (intro exI conjI allI impI)
  show "print_uint junk val s = console_write (decimal (unat val)) s" by (rule print_uint_decimal [OF assms])
  show "0 < length (decimal (unat val))" by simp
  have "unat val < 10 ^ Suc 9" by (rule less_trans [OF unat_u32_less]) simp
  then show "length (decimal (unat val)) \<le> 10" using decimal_length [of "unat val" 9] by simp
  fix m p assume "cstring m p (decimal (unat val))"
  moreover have "\<forall>c \<in> set (decimal (unat val)). valid_digit 10 c"
    using decimal_digits digit_of_decimal digit_not_zero by (fastforce simp: valid_digit_def)
  ultimately show "strtoul p 10 m = Some (ucast val, p + length (decimal (unat val)))"
    using strtoul_loop_spec [of m p "decimal (unat val)" "[]" 10 0] decimal_value [of "unat val"]
    by (simp add: strtoul_def digits_value_def)
qed

text \<open>Each character of a hexadecimal print is the digit of its four bits.\<close>

lemma hex_digit_value: "n < 16 \<Longrightarrow> digit_of (hex_digit n) = Some (int n)"
proof -
  assume "n < 16"
  then have "n \<in> set [0..<16]" by simp
  moreover have "[0..<16] = [0, 1, 2, 3, 4, 5, 6, 7, 8, 9, 10, 11, 12, 13, 14, 15::nat]" by (simp add: upt_rec)
  ultimately show ?thesis by (auto simp only: list.set insert_iff empty_iff) (simp_all add: hex_digit_def digit_of_def)
qed

end
