(* ===== verification/Descriptors.thy ===== *)
theory Descriptors
  imports Console
begin

text \<open>
  Descriptor tables and exception dispatch (\<^verbatim>\<open>kernel/arch/gdt.c\<close>, \<^verbatim>\<open>kernel/arch/idt.c\<close> and the table loads of
  \<^verbatim>\<open>kernel/arch/isr.s\<close>). The tables are lists of packed entries, as the code fills them; how the processor reads
  an entry (base, limit, privilege, gate) is defined separately, and the theorems say that it reads what the code
  meant. Link addresses (\<open>&gdt\<close>, \<open>&tss\<close>, \<open>&idt\<close>, the stubs) are parameters. A handler is an address, 0 for none;
  \<open>call h frame\<close> is the effect of the code at that address.
\<close>

section \<open>Segments\<close>

definition GDT_KERNEL_CODE_SEG :: u16 where [zconst]: "GDT_KERNEL_CODE_SEG = 0x08"
definition GDT_KERNEL_DATA_SEG :: u16 where [zconst]: "GDT_KERNEL_DATA_SEG = 0x10"
definition GDT_USER_CODE_SEG :: u16 where [zconst]: "GDT_USER_CODE_SEG = 0x1B"
definition GDT_USER_DATA_SEG :: u16 where [zconst]: "GDT_USER_DATA_SEG = 0x23"
definition GDT_TSS_SEG :: u16 where [zconst]: "GDT_TSS_SEG = 0x28"
definition GDT_ENTRIES :: nat where [zconst]: "GDT_ENTRIES = 6"

definition GDT_ACCESS_PRESENT :: u8 where [zconst]: "GDT_ACCESS_PRESENT = push_bit 7 1"
definition GDT_ACCESS_RING0 :: u8 where [zconst]: "GDT_ACCESS_RING0 = push_bit 5 0"
definition GDT_ACCESS_RING3 :: u8 where [zconst]: "GDT_ACCESS_RING3 = push_bit 5 3"
definition GDT_ACCESS_CODE_DATA :: u8 where [zconst]: "GDT_ACCESS_CODE_DATA = push_bit 4 1"
definition GDT_ACCESS_EXECUTABLE :: u8 where [zconst]: "GDT_ACCESS_EXECUTABLE = push_bit 3 1"
definition GDT_ACCESS_RW :: u8 where [zconst]: "GDT_ACCESS_RW = push_bit 1 1"
definition GDT_GRAN_4K :: u8 where [zconst]: "GDT_GRAN_4K = push_bit 7 1"
definition GDT_GRAN_32BIT :: u8 where [zconst]: "GDT_GRAN_32BIT = push_bit 6 1"
definition GDT_TSS_TYPE_32 :: u8 where [zconst]: "GDT_TSS_TYPE_32 = 0x09"

record gdt_entry =
  limit_low :: u16
  base_low :: u16
  base_mid :: u8
  g_access :: u8
  granularity :: u8
  base_high :: u8

text \<open>The task state segment, 104 bytes: 25 words and two half words.\<close>

record tss =
  tss_words :: "u32 list"
  trap :: u16
  iomap_base :: u16

definition TSS_ESP0 :: nat where [zconst]: "TSS_ESP0 = 1"
definition TSS_SS0 :: nat where [zconst]: "TSS_SS0 = 2"
definition TSS_SIZE :: u32 where [zconst]: "TSS_SIZE = 104"

record gdt_state =
  gdt :: "gdt_entry list"
  gdt_ptr :: "u16 \<times> u32"
  the_tss :: tss
  gdtr :: "u16 \<times> u32"
  seg_cs :: u16
  seg_data :: u16
  task_register :: u16

definition gdt_set_entry :: "nat \<Rightarrow> u32 \<Rightarrow> u32 \<Rightarrow> u8 \<Rightarrow> u8 \<Rightarrow> gdt_state \<Rightarrow> gdt_state" where
  "gdt_set_entry index base limit acc gran s =
     s\<lparr>gdt := (gdt s)[index :=
       \<lparr>limit_low = ucast (limit AND 0xFFFF), base_low = ucast (base AND 0xFFFF),
        base_mid = ucast (drop_bit 16 base AND 0xFF), g_access = acc,
        granularity = ucast (drop_bit 16 limit AND 0x0F) OR (gran AND 0xF0),
        base_high = ucast (drop_bit 24 base AND 0xFF)\<rparr>]\<rparr>"

definition tss_init :: "u32 \<Rightarrow> gdt_state \<Rightarrow> gdt_state" where
  "tss_init tss_addr s =
     (let z = \<lparr>tss_words = replicate 25 0, trap = 0, iomap_base = 0\<rparr>;
          z = z\<lparr>tss_words := (tss_words z)[TSS_SS0 := ucast GDT_KERNEL_DATA_SEG]\<rparr>;
          z = z\<lparr>tss_words := (tss_words z)[TSS_ESP0 := 0]\<rparr>;
          z = z\<lparr>iomap_base := ucast TSS_SIZE\<rparr>
      in gdt_set_entry 5 tss_addr (TSS_SIZE - 1) (GDT_ACCESS_PRESENT OR GDT_ACCESS_RING0 OR GDT_TSS_TYPE_32) GDT_GRAN_32BIT
           (s\<lparr>the_tss := z\<rparr>))"

definition gdt_flush :: "u16 \<times> u32 \<Rightarrow> gdt_state \<Rightarrow> gdt_state" where
  "gdt_flush ptr s = s\<lparr>gdtr := ptr, seg_data := 0x10, seg_cs := 0x08\<rparr>"

definition tss_flush :: "u16 \<Rightarrow> gdt_state \<Rightarrow> gdt_state" where
  "tss_flush selector s = s\<lparr>task_register := selector\<rparr>"

definition gdt_init :: "u32 \<Rightarrow> u32 \<Rightarrow> gdt_state \<Rightarrow> gdt_state" where
  "gdt_init gdt_addr tss_addr s =
     (let s = s\<lparr>gdt_ptr := (of_nat (GDT_ENTRIES * 8) - 1, gdt_addr)\<rparr>;
          s = gdt_set_entry 0 0 0 0 0 s;
          s = gdt_set_entry 1 0 0xFFFFF
                (GDT_ACCESS_PRESENT OR GDT_ACCESS_RING0 OR GDT_ACCESS_CODE_DATA OR GDT_ACCESS_EXECUTABLE OR GDT_ACCESS_RW)
                (GDT_GRAN_4K OR GDT_GRAN_32BIT) s;
          s = gdt_set_entry 2 0 0xFFFFF
                (GDT_ACCESS_PRESENT OR GDT_ACCESS_RING0 OR GDT_ACCESS_CODE_DATA OR GDT_ACCESS_RW)
                (GDT_GRAN_4K OR GDT_GRAN_32BIT) s;
          s = gdt_set_entry 3 0 0xFFFFF
                (GDT_ACCESS_PRESENT OR GDT_ACCESS_RING3 OR GDT_ACCESS_CODE_DATA OR GDT_ACCESS_EXECUTABLE OR GDT_ACCESS_RW)
                (GDT_GRAN_4K OR GDT_GRAN_32BIT) s;
          s = gdt_set_entry 4 0 0xFFFFF
                (GDT_ACCESS_PRESENT OR GDT_ACCESS_RING3 OR GDT_ACCESS_CODE_DATA OR GDT_ACCESS_RW)
                (GDT_GRAN_4K OR GDT_GRAN_32BIT) s;
          s = tss_init tss_addr s;
          s = gdt_flush (gdt_ptr s) s
      in tss_flush GDT_TSS_SEG s)"

section \<open>Interrupt gates\<close>

definition IDT_ENTRIES :: nat where [zconst]: "IDT_ENTRIES = 256"
definition INT_PAGE_FAULT :: u32 where [zconst]: "INT_PAGE_FAULT = 14"
definition INT_SYSCALL :: nat where [zconst]: "INT_SYSCALL = 0x80"
definition IDT_GATE_INT32 :: u8 where [zconst]: "IDT_GATE_INT32 = 0x0E"
definition IDT_GATE_TRAP32 :: u8 where [zconst]: "IDT_GATE_TRAP32 = 0x0F"
definition IDT_ATTR_PRESENT :: u8 where [zconst]: "IDT_ATTR_PRESENT = push_bit 7 1"
definition IDT_ATTR_RING0 :: u8 where [zconst]: "IDT_ATTR_RING0 = push_bit 5 0"
definition IDT_ATTR_RING3 :: u8 where [zconst]: "IDT_ATTR_RING3 = push_bit 5 3"

record idt_entry =
  offset_low :: u16
  selector :: u16
  i_zero :: u8
  type_attr :: u8
  offset_high :: u16

record interrupt_frame =
  f_ds :: u32
  f_edi :: u32
  f_esi :: u32
  f_ebp :: u32
  f_esp_dummy :: u32
  f_ebx :: u32
  f_edx :: u32
  f_ecx :: u32
  f_eax :: u32
  int_no :: u32
  err_code :: u32
  f_eip :: u32
  f_cs :: u32
  f_eflags :: u32
  user_esp :: u32
  user_ss :: u32

record idt_state = console +
  idt :: "idt_entry list"
  idt_ptr :: "u16 \<times> u32"
  idtr :: "u16 \<times> u32"
  handlers :: "u32 list"
  interrupts_on :: bool

definition idt_set_entry :: "nat \<Rightarrow> u32 \<Rightarrow> u16 \<Rightarrow> u8 \<Rightarrow> 'a idt_state_scheme \<Rightarrow> 'a idt_state_scheme" where
  "idt_set_entry index handler sel attr s =
     s\<lparr>idt := (idt s)[index :=
       \<lparr>offset_low = ucast (handler AND 0xFFFF), selector = sel, i_zero = 0, type_attr = attr,
        offset_high = ucast (drop_bit 16 handler AND 0xFFFF)\<rparr>]\<rparr>"

definition idt_flush :: "u16 \<times> u32 \<Rightarrow> 'a idt_state_scheme \<Rightarrow> 'a idt_state_scheme" where
  "idt_flush ptr s = s\<lparr>idtr := ptr\<rparr>"

definition idt_register_handler :: "u8 \<Rightarrow> u32 \<Rightarrow> 'a idt_state_scheme \<Rightarrow> 'a idt_state_scheme" where
  "idt_register_handler vector handler s = s\<lparr>handlers := (handlers s)[unat vector := handler]\<rparr>"

text \<open>\<open>isr\<close>, \<open>irq\<close> and \<open>isr128\<close> are the addresses of the stubs. The 48 calls for the exceptions and the IRQs are two folds.\<close>

definition idt_init :: "u32 \<Rightarrow> (nat \<Rightarrow> u32) \<Rightarrow> (nat \<Rightarrow> u32) \<Rightarrow> u32 \<Rightarrow> 'a idt_state_scheme \<Rightarrow> 'a idt_state_scheme" where
  "idt_init idt_addr isr irq isr128 s =
     (let s = s\<lparr>idt_ptr := (of_nat (IDT_ENTRIES * 8) - 1, idt_addr)\<rparr>;
          s = fold (\<lambda>i s. s\<lparr>handlers := (handlers s)[i := 0]\<rparr>) [0..<IDT_ENTRIES] s;
          exc_attr = IDT_ATTR_PRESENT OR IDT_ATTR_RING0 OR IDT_GATE_INT32;
          s = fold (\<lambda>i. idt_set_entry i (isr i) GDT_KERNEL_CODE_SEG exc_attr) [0..<32] s;
          irq_attr = IDT_ATTR_PRESENT OR IDT_ATTR_RING0 OR IDT_GATE_INT32;
          s = fold (\<lambda>i. idt_set_entry (32 + i) (irq i) GDT_KERNEL_CODE_SEG irq_attr) [0..<16] s;
          syscall_attr = IDT_ATTR_PRESENT OR IDT_ATTR_RING3 OR IDT_GATE_TRAP32;
          s = idt_set_entry INT_SYSCALL isr128 GDT_KERNEL_CODE_SEG syscall_attr s
      in idt_flush (idt_ptr s) s)"

text \<open>The 64-bit build has entries of 16 bytes.\<close>

record idt_entry64 =
  offset_low64 :: u16
  selector64 :: u16
  ist :: u8
  type_attr64 :: u8
  offset_mid64 :: u16
  offset_high64 :: u32
  reserved64 :: u32

definition idt_set_entry64 :: "nat \<Rightarrow> u64 \<Rightarrow> u16 \<Rightarrow> u8 \<Rightarrow> idt_entry64 list \<Rightarrow> idt_entry64 list" where
  "idt_set_entry64 index handler sel attr t =
     t[index := \<lparr>offset_low64 = ucast (handler AND 0xFFFF), selector64 = sel, ist = 0, type_attr64 = attr,
        offset_mid64 = ucast (drop_bit 16 handler AND 0xFFFF), offset_high64 = ucast (drop_bit 32 handler AND 0xFFFFFFFF),
        reserved64 = 0\<rparr>]"

section \<open>Exceptions\<close>

definition ascii :: "string \<Rightarrow> u8 list" where
  "ascii = map of_char"

definition newline :: "u8 list" where
  "newline = [10]"

definition hex_text :: "u32 \<Rightarrow> u8 list" where
  "hex_text val = [48, 120] @ map (\<lambda>i. hex_digit (unat (drop_bit (28 - i * 4) val AND 0xF))) [0..<8]"

definition print_hex :: "u32 \<Rightarrow> 'a console_scheme \<Rightarrow> 'a console_scheme option" where
  "print_hex val = console_write (hex_text val)"

definition exception_names :: "string list" where
  "exception_names =
     [''Divide Error'', ''Debug'', ''NMI'', ''Breakpoint'', ''Overflow'', ''BOUND Exceeded'', ''Invalid Opcode'',
      ''Device Not Available'', ''Double Fault'', ''Coprocessor Overrun'', ''Invalid TSS'', ''Segment Not Present'',
      ''Stack Fault'', ''General Protection'', ''Page Fault'', ''Reserved'', ''x87 FPU Error'', ''Alignment Check'',
      ''Machine Check'', ''SIMD FP Error'', ''Virtualization Error'', ''Control Protection'']"

definition fault_text :: "interrupt_frame \<Rightarrow> u32 \<Rightarrow> u8 list" where
  "fault_text frame cr2 =
     ascii ''  CR2 (fault addr): '' @ hex_text cr2 @ newline @ ascii ''  Fault: '' @
     ascii (if err_code frame AND 0x1 \<noteq> 0 then ''protection '' else ''not-present '') @
     ascii (if err_code frame AND 0x2 \<noteq> 0 then ''write '' else ''read '') @
     ascii (if err_code frame AND 0x4 \<noteq> 0 then ''user '' else ''kernel '') @ newline"

definition panic_text :: "interrupt_frame \<Rightarrow> u32 \<Rightarrow> u8 list" where
  "panic_text frame cr2 =
     newline @ newline @ ascii ''*** KERNEL PANIC: '' @
     ascii (if int_no frame < 22 then exception_names ! unat (int_no frame) else ''Unknown Exception'') @
     ascii '' ***'' @ newline @
     ascii ''  Vector: '' @ hex_text (int_no frame) @ ascii ''  Error: '' @ hex_text (err_code frame) @ newline @
     ascii ''  EIP: '' @ hex_text (f_eip frame) @ ascii ''  CS: '' @ hex_text (f_cs frame) @
     ascii ''  EFLAGS: '' @ hex_text (f_eflags frame) @ newline @
     ascii ''  EAX: '' @ hex_text (f_eax frame) @ ascii ''  EBX: '' @ hex_text (f_ebx frame) @
     ascii ''  ECX: '' @ hex_text (f_ecx frame) @ ascii ''  EDX: '' @ hex_text (f_edx frame) @ newline @
     ascii ''  ESI: '' @ hex_text (f_esi frame) @ ascii ''  EDI: '' @ hex_text (f_edi frame) @
     ascii ''  EBP: '' @ hex_text (f_ebp frame) @ newline @
     (if int_no frame = INT_PAGE_FAULT then fault_text frame cr2 else []) @
     newline @ ascii ''System halted.'' @ newline"

text \<open>A run of kernel code either returns or ends in a halted processor.\<close>

datatype 's outcome = Returns 's | Halts 's

definition default_exception_handler :: "u32 \<Rightarrow> interrupt_frame \<times> 'a idt_state_scheme \<Rightarrow>
    (interrupt_frame \<times> 'a idt_state_scheme) outcome option" where
  "default_exception_handler cr2 = (\<lambda>(frame, s). do {
     s \<leftarrow> console_write (panic_text frame cr2) s;
     Some (Halts (frame, s\<lparr>interrupts_on := False\<rparr>))
   })"

text \<open>A handler gets a pointer to the frame and may change it.\<close>

definition isr_handler :: "(u32 \<Rightarrow> interrupt_frame \<times> 'a idt_state_scheme \<Rightarrow> (interrupt_frame \<times> 'a idt_state_scheme) outcome option) \<Rightarrow>
    u32 \<Rightarrow> interrupt_frame \<times> 'a idt_state_scheme \<Rightarrow> (interrupt_frame \<times> 'a idt_state_scheme) outcome option" where
  "isr_handler call cr2 = (\<lambda>(frame, s).
     if handlers s ! unat (int_no frame) \<noteq> 0 then call (handlers s ! unat (int_no frame)) (frame, s)
     else if int_no frame < 32 then default_exception_handler cr2 (frame, s)
     else Some (Returns (frame, s)))"

section \<open>What the processor reads\<close>

definition seg_base :: "gdt_entry \<Rightarrow> u32" where
  "seg_base e = ucast (base_low e) OR push_bit 16 (ucast (base_mid e)) OR push_bit 24 (ucast (base_high e))"

definition seg_limit20 :: "gdt_entry \<Rightarrow> u32" where
  "seg_limit20 e = ucast (limit_low e) OR push_bit 16 (ucast (granularity e AND 0x0F))"

definition seg_limit :: "gdt_entry \<Rightarrow> u32" where
  "seg_limit e = (if bit (granularity e) 7 then push_bit 12 (seg_limit20 e) OR 0xFFF else seg_limit20 e)"

definition privilege :: "u8 \<Rightarrow> nat" where
  "privilege attr = unat (drop_bit 5 attr AND 3)"

definition gate_offset :: "idt_entry \<Rightarrow> u32" where
  "gate_offset e = ucast (offset_low e) OR push_bit 16 (ucast (offset_high e))"

definition gate_offset64 :: "idt_entry64 \<Rightarrow> u64" where
  "gate_offset64 e = ucast (offset_low64 e) OR push_bit 16 (ucast (offset_mid64 e)) OR push_bit 32 (ucast (offset_high64 e))"

lemma list_update_at: "i < length xs \<Longrightarrow> xs[j := x] ! i = (if j = i then x else xs ! i)"
  by (cases "i = j") auto

lemma byte_mask: "(w AND 0xFF :: 'a::len word) = take_bit 8 w" "(w AND 0xFFFF :: 'a::len word) = take_bit 16 w"
  "(w AND 0xFFFFFFFF :: 'a::len word) = take_bit 32 w" "(w AND 0xF :: 'a::len word) = take_bit 4 w"
  by (simp_all add: take_bit_eq_mask mask_eq_exp_minus_1)

lemma split32: "ucast (ucast (w AND 0xFFFF) :: u16) OR push_bit 16 (ucast (ucast (drop_bit 16 w AND 0xFFFF) :: u16)) = w" for w :: u32
  by (rule bit_word_eqI) (auto simp: byte_mask bit_simps)

lemma split_base:
  "ucast (ucast (w AND 0xFFFF) :: u16) OR push_bit 16 (ucast (ucast (drop_bit 16 w AND 0xFF) :: u8)) OR
    push_bit 24 (ucast (ucast (drop_bit 24 w AND 0xFF) :: u8)) = w" (is "?l = _") for w :: u32
proof (rule bit_word_eqI)
  fix n assume "n < LENGTH(32)"
  then show "bit ?l n = bit w n"
    by (cases "n < 24") (auto simp: byte_mask bit_simps)
qed

lemma split_limit:
  "ucast (ucast (w AND 0xFFFF) :: u16) OR push_bit 16 (ucast ((ucast (drop_bit 16 w AND 0x0F) OR (g AND 0xF0)) AND 0x0F :: u8)) =
    w AND 0xFFFFF" for w :: u32
proof -
  have m: "(w AND 0xFFFFF) = take_bit 20 w" by (simp add: take_bit_eq_mask mask_eq_exp_minus_1)
  have g: "g AND 0xF0 = g AND push_bit 4 (mask 4)" by (simp add: mask_eq_exp_minus_1)
  show ?thesis unfolding m g byte_mask by (rule bit_word_eqI) (auto simp: bit_simps)
qed

lemma split_flags: "(ucast (w AND 0x0F) OR (g AND 0xF0)) AND 0xF0 = g AND 0xF0" for w :: u32 and g :: u8
proof -
  have g: "(0xF0 :: u8) = push_bit 4 (mask 4)" by (simp add: mask_eq_exp_minus_1)
  show ?thesis unfolding g byte_mask by (rule bit_word_eqI) (auto simp: bit_simps)
qed

lemma split64:
  "ucast (ucast (w AND 0xFFFF) :: u16) OR push_bit 16 (ucast (ucast (drop_bit 16 w AND 0xFFFF) :: u16)) OR
    push_bit 32 (ucast (ucast (drop_bit 32 w AND 0xFFFFFFFF) :: u32)) = w" (is "?l = _") for w :: u64
proof (rule bit_word_eqI)
  fix n assume "n < LENGTH(64)"
  then show "bit ?l n = bit w n"
    by (cases "n < 32") (auto simp: byte_mask bit_simps)
qed

text \<open>
  What the code packs into a descriptor or a gate is what the processor unpacks: the base of a segment, its 20-bit limit, the
  access byte and the flags, and the handler's address in a 32-bit and in a 64-bit gate.
\<close>

theorem descriptor_roundtrip:
  assumes "index < length (gdt s)" "vector < length (idt k)" "vector < length t"
  shows "seg_base (gdt (gdt_set_entry index base limit acc gran s) ! index) = base \<and>
    seg_limit20 (gdt (gdt_set_entry index base limit acc gran s) ! index) = limit AND 0xFFFFF \<and>
    g_access (gdt (gdt_set_entry index base limit acc gran s) ! index) = acc \<and>
    granularity (gdt (gdt_set_entry index base limit acc gran s) ! index) AND 0xF0 = gran AND 0xF0 \<and>
    gate_offset (idt (idt_set_entry vector h sel attr k) ! vector) = h \<and>
    gate_offset64 (idt_set_entry64 vector h64 sel attr t ! vector) = h64"
  using assms
  by (simp add: gdt_set_entry_def idt_set_entry_def idt_set_entry64_def seg_base_def seg_limit20_def gate_offset_def gate_offset64_def
      split32 split64 split_base split_limit split_flags)

text \<open>Static storage at boot: all zero.\<close>

definition gdt_boot :: gdt_state where
  "gdt_boot = \<lparr>gdt = replicate 6 \<lparr>limit_low = 0, base_low = 0, base_mid = 0, g_access = 0, granularity = 0, base_high = 0\<rparr>,
     gdt_ptr = (0, 0), the_tss = \<lparr>tss_words = replicate 25 0, trap = 0, iomap_base = 0\<rparr>, gdtr = (0, 0), seg_cs = 0, seg_data = 0,
     task_register = 0\<rparr>"

definition idt_boot :: idt_state where
  "idt_boot = console.extend console_boot (idt_state.fields
     (replicate 256 \<lparr>offset_low = 0, selector = 0, i_zero = 0, type_attr = 0, offset_high = 0\<rparr>) (0, 0) (0, 0) (replicate 256 0) False)"

lemma idt_boot_simps [simp]:
  "idt idt_boot = replicate 256 \<lparr>offset_low = 0, selector = 0, i_zero = 0, type_attr = 0, offset_high = 0\<rparr>"
  "handlers idt_boot = replicate 256 0"
  by (simp_all add: idt_boot_def console.defs idt_state.defs)

theorem descriptor_roundtrip_witness:
  "seg_base (gdt (gdt_set_entry 2 0x12345678 0xABCDE 0x92 0xCF gdt_boot) ! 2) = 0x12345678 \<and>
    seg_limit20 (gdt (gdt_set_entry 2 0x12345678 0xABCDE 0x92 0xCF gdt_boot) ! 2) = 0xABCDE"
proof -
  let ?t = "[\<lparr>offset_low64 = 0, selector64 = 0, ist = 0, type_attr64 = 0, offset_mid64 = 0, offset_high64 = 0, reserved64 = 0\<rparr>]"
  have "2 < length (gdt gdt_boot)" "0 < length (idt idt_boot)" "0 < length ?t" by (simp_all add: gdt_boot_def)
  from descriptor_roundtrip [OF this, of "0x12345678" "0xABCDE" "0x92" "0xCF" 0 0 0 0] show ?thesis by simp
qed

section \<open>The segment table\<close>

definition descriptor :: "gdt_state \<Rightarrow> u16 \<Rightarrow> gdt_entry" where
  "descriptor s sel = gdt s ! (unat sel div 8)"

text \<open>A present code or data segment over the whole address space, for a privilege level.\<close>

definition flat_segment :: "nat \<Rightarrow> bool \<Rightarrow> gdt_entry \<Rightarrow> bool" where
  "flat_segment dpl code e \<longleftrightarrow>
     bit (g_access e) 7 \<and> bit (g_access e) 4 \<and> bit (g_access e) 3 = code \<and> bit (g_access e) 1 \<and> privilege (g_access e) = dpl \<and>
     bit (granularity e) 6 \<and> seg_base e = 0 \<and> seg_limit e = 0xFFFFFFFF"

lemmas gdt_flags = GDT_ACCESS_PRESENT_def GDT_ACCESS_RING0_def GDT_ACCESS_RING3_def GDT_ACCESS_CODE_DATA_def
  GDT_ACCESS_EXECUTABLE_def GDT_ACCESS_RW_def GDT_GRAN_4K_def GDT_GRAN_32BIT_def GDT_TSS_TYPE_32_def

lemma gdt_init_table:
  assumes "length (gdt s) = 6"
  shows "gdt (gdt_init gdt_addr tss_addr s) =
    [\<lparr>limit_low = 0, base_low = 0, base_mid = 0, g_access = 0, granularity = 0, base_high = 0\<rparr>,
     \<lparr>limit_low = 0xFFFF, base_low = 0, base_mid = 0, g_access = 0x9A, granularity = 0xCF, base_high = 0\<rparr>,
     \<lparr>limit_low = 0xFFFF, base_low = 0, base_mid = 0, g_access = 0x92, granularity = 0xCF, base_high = 0\<rparr>,
     \<lparr>limit_low = 0xFFFF, base_low = 0, base_mid = 0, g_access = 0xFA, granularity = 0xCF, base_high = 0\<rparr>,
     \<lparr>limit_low = 0xFFFF, base_low = 0, base_mid = 0, g_access = 0xF2, granularity = 0xCF, base_high = 0\<rparr>,
     \<lparr>limit_low = 103, base_low = ucast (tss_addr AND 0xFFFF), base_mid = ucast (drop_bit 16 tss_addr AND 0xFF), g_access = 0x89,
      granularity = 0x40, base_high = ucast (drop_bit 24 tss_addr AND 0xFF)\<rparr>]"
proof -
  from assms obtain a b c d e f where "gdt s = [a, b, c, d, e, f]"
    by (auto simp: numeral_eq_Suc length_Suc_conv)
  then show ?thesis
    by (simp add: gdt_init_def gdt_set_entry_def tss_init_def gdt_flush_def tss_flush_def gdt_flags TSS_SIZE_def Let_def)
qed

text \<open>
  After \<open>gdt_init\<close> the kernel and user selectors name flat code and data segments of rings 0 and 3, the task register names an
  available 32-bit TSS at the address of \<open>tss\<close> with limit 103 and no I/O bitmap, the ring 0 stack segment is the kernel's
  data segment, and the processor has the new table and selectors.
\<close>

theorem gdt_init_correct:
  assumes "length (gdt s) = 6"
  shows "let t = gdt_init gdt_addr tss_addr s in
    gdtr t = (47, gdt_addr) \<and> seg_cs t = GDT_KERNEL_CODE_SEG \<and> seg_data t = GDT_KERNEL_DATA_SEG \<and> task_register t = GDT_TSS_SEG \<and>
    flat_segment 0 True (descriptor t GDT_KERNEL_CODE_SEG) \<and> flat_segment 0 False (descriptor t GDT_KERNEL_DATA_SEG) \<and>
    flat_segment 3 True (descriptor t GDT_USER_CODE_SEG) \<and> flat_segment 3 False (descriptor t GDT_USER_DATA_SEG) \<and>
    g_access (descriptor t GDT_TSS_SEG) = 0x89 \<and> seg_base (descriptor t GDT_TSS_SEG) = tss_addr \<and>
    seg_limit (descriptor t GDT_TSS_SEG) = 103 \<and>
    tss_words (the_tss t) = (replicate 25 0)[2 := 0x10] \<and> iomap_base (the_tss t) = 104"
proof -
  have tab: "gdt (gdt_init gdt_addr tss_addr s) ! 1 = \<lparr>limit_low = 0xFFFF, base_low = 0, base_mid = 0, g_access = 0x9A, granularity = 0xCF, base_high = 0\<rparr>"
    "gdt (gdt_init gdt_addr tss_addr s) ! 2 = \<lparr>limit_low = 0xFFFF, base_low = 0, base_mid = 0, g_access = 0x92, granularity = 0xCF, base_high = 0\<rparr>"
    "gdt (gdt_init gdt_addr tss_addr s) ! 3 = \<lparr>limit_low = 0xFFFF, base_low = 0, base_mid = 0, g_access = 0xFA, granularity = 0xCF, base_high = 0\<rparr>"
    "gdt (gdt_init gdt_addr tss_addr s) ! 4 = \<lparr>limit_low = 0xFFFF, base_low = 0, base_mid = 0, g_access = 0xF2, granularity = 0xCF, base_high = 0\<rparr>"
    "gdt (gdt_init gdt_addr tss_addr s) ! 5 = \<lparr>limit_low = 103, base_low = ucast (tss_addr AND 0xFFFF),
      base_mid = ucast (drop_bit 16 tss_addr AND 0xFF), g_access = 0x89, granularity = 0x40, base_high = ucast (drop_bit 24 tss_addr AND 0xFF)\<rparr>"
    unfolding gdt_init_table [OF assms] by simp_all
  have rest: "gdtr (gdt_init gdt_addr tss_addr s) = (47, gdt_addr)" "seg_cs (gdt_init gdt_addr tss_addr s) = 8"
    "seg_data (gdt_init gdt_addr tss_addr s) = 16" "task_register (gdt_init gdt_addr tss_addr s) = 0x28"
    "tss_words (the_tss (gdt_init gdt_addr tss_addr s)) = (replicate 25 0)[2 := 0x10]"
    "iomap_base (the_tss (gdt_init gdt_addr tss_addr s)) = 104"
    by (simp_all add: gdt_init_def gdt_set_entry_def tss_init_def gdt_flush_def tss_flush_def Let_def zconst list_update_at list_eq_iff_nth_eq)
  have 1: "flat_segment dpl code \<lparr>limit_low = 0xFFFF, base_low = 0, base_mid = 0, g_access = a, granularity = 0xCF, base_high = 0\<rparr>"
    if "bit a 7" "bit a 4" "bit a 3 = code" "bit a 1" "privilege a = dpl" for a dpl code
    using that by (simp add: flat_segment_def seg_base_def seg_limit_def seg_limit20_def)
  have "seg_base (gdt (gdt_init gdt_addr tss_addr s) ! 5) = tss_addr" unfolding tab by (simp add: seg_base_def split_base)
  moreover have "seg_limit (gdt (gdt_init gdt_addr tss_addr s) ! 5) = 103" unfolding tab by (simp add: seg_limit_def seg_limit20_def)
  ultimately show ?thesis
    by (simp add: Let_def descriptor_def GDT_KERNEL_CODE_SEG_def GDT_KERNEL_DATA_SEG_def GDT_USER_CODE_SEG_def GDT_USER_DATA_SEG_def
        GDT_TSS_SEG_def rest tab tab(1) [unfolded One_nat_def] 1 privilege_def)
qed

theorem gdt_init_correct_witness:
  "flat_segment 3 True (descriptor (gdt_init 0x105000 0x106000 gdt_boot) GDT_USER_CODE_SEG) \<and>
    seg_base (descriptor (gdt_init 0x105000 0x106000 gdt_boot) GDT_TSS_SEG) = 0x106000"
  using gdt_init_correct [of gdt_boot "0x105000" "0x106000"] by (simp add: gdt_boot_def Let_def)

section \<open>The interrupt table\<close>

definition gate :: "u32 \<Rightarrow> u8 \<Rightarrow> idt_entry" where
  "gate handler attr = \<lparr>offset_low = ucast (handler AND 0xFFFF), selector = GDT_KERNEL_CODE_SEG, i_zero = 0, type_attr = attr,
     offset_high = ucast (drop_bit 16 handler AND 0xFFFF)\<rparr>"

lemma idt_set_gate: "idt (idt_set_entry i h GDT_KERNEL_CODE_SEG a s) = (idt s)[i := gate h a]"
  by (simp add: idt_set_entry_def gate_def)

lemma idt_set_entries:
  "idt (fold (\<lambda>i. idt_set_entry (b + i) (f i) GDT_KERNEL_CODE_SEG a) [0..<n] s) =
    map (\<lambda>v. if b \<le> v \<and> v < b + n then gate (f (v - b)) a else idt s ! v) [0..<length (idt s)]"
proof (induction n)
  case 0
  show ?case by (rule nth_equalityI) auto
next
  case (Suc n)
  show ?case by (rule nth_equalityI) (auto simp: Suc.IH idt_set_gate list_update_at less_Suc_eq)
qed

lemma idt_set_frame [simp]:
  "handlers (fold (\<lambda>i. idt_set_entry (b i) (f i) sel a) xs s) = handlers s" "idt_ptr (fold (\<lambda>i. idt_set_entry (b i) (f i) sel a) xs s) = idt_ptr s"
  by (induction xs arbitrary: s) (simp_all add: idt_set_entry_def)

lemma clear_handlers:
  "fold (\<lambda>i s. s\<lparr>handlers := (handlers s)[i := 0]\<rparr>) [0..<n] s = s\<lparr>handlers := map (\<lambda>i. if i < n then 0 else handlers s ! i) [0..<length (handlers s)]\<rparr>"
proof (induction n)
  case 0
  then show ?case by (simp add: map_nth)
next
  case (Suc n)
  have "(map (\<lambda>i. if i < n then 0 else handlers s ! i) [0..<length (handlers s)])[n := 0] =
      map (\<lambda>i. if i < Suc n then 0 else handlers s ! i) [0..<length (handlers s)]"
    by (rule nth_equalityI) (auto simp: list_update_at)
  then show ?case by (simp add: Suc.IH)
qed

lemmas idt_flags = IDT_ATTR_PRESENT_def IDT_ATTR_RING0_def IDT_ATTR_RING3_def IDT_GATE_INT32_def IDT_GATE_TRAP32_def

lemma idt_init_table:
  assumes "length (idt s) = 256" "v < 256"
  shows "idt (idt_init idt_addr isr irq isr128 s) ! v =
    (if v < 32 then gate (isr v) 0x8E else if v < 48 then gate (irq (v - 32)) 0x8E else if v = 128 then gate isr128 0xEF else idt s ! v)"
proof -
  note fold0 = idt_set_entries [of 0, simplified]
  show ?thesis using assms
    by (simp add: idt_init_def idt_flush_def Let_def idt_set_gate idt_flags INT_SYSCALL_def nth_list_update
        idt_set_entries fold0 clear_handlers)
qed

lemma gate_offset_gate: "gate_offset (gate h a) = h"
  by (simp add: gate_offset_def gate_def split32)

text \<open>The processor enters a gate by the instruction \<^verbatim>\<open>int\<close> only from a privilege level the gate allows.\<close>

definition present :: "idt_entry \<Rightarrow> bool" where
  "present e \<longleftrightarrow> bit (type_attr e) 7"

definition int_allowed :: "nat \<Rightarrow> idt_entry \<Rightarrow> bool" where
  "int_allowed cpl e \<longleftrightarrow> present e \<and> cpl \<le> privilege (type_attr e)"

definition interrupt_gate :: "idt_entry \<Rightarrow> bool" where
  "interrupt_gate e \<longleftrightarrow> type_attr e AND 0x0F = IDT_GATE_INT32"

text \<open>
  C18: After \<open>idt_init\<close> on the zeroed table exactly the vectors 0 to 47 and 128 are present; each enters its own stub in the kernel's
  code segment; all but 128 disable interrupts; user code can raise no vector but the system call; and no handler is
  registered.
\<close>

theorem idt_init_correct:
  assumes "length (idt s) = 256" "\<forall>v < 256. \<not> present (idt s ! v)" "length (handlers s) = 256" "v < 256"
  shows "let t = idt_init idt_addr isr irq isr128 s; e = idt t ! v in
    (present e \<longleftrightarrow> v < 48 \<or> v = 128) \<and>
    (present e \<longrightarrow> selector e = GDT_KERNEL_CODE_SEG \<and>
       gate_offset e = (if v < 32 then isr v else if v < 48 then irq (v - 32) else isr128)) \<and>
    (present e \<longrightarrow> (interrupt_gate e \<longleftrightarrow> v \<noteq> 128)) \<and> (int_allowed 3 e \<longleftrightarrow> v = 128) \<and>
    handlers t = replicate 256 0 \<and> idtr t = (2047, idt_addr)"
proof -
  have cl: "map (\<lambda>i. if i < 256 then 0 else xs ! i) [0..<256] = replicate 256 (0 :: u32)" for xs by (rule nth_equalityI) auto
  have "handlers (idt_init idt_addr isr irq isr128 s) = replicate 256 0" "idtr (idt_init idt_addr isr irq isr128 s) = (2047, idt_addr)"
    using assms(3) unfolding idt_init_def idt_flush_def Let_def idt_set_entry_def [of INT_SYSCALL] clear_handlers IDT_ENTRIES_def
    by (simp_all add: cl)
  moreover have "present (gate h 0x8E)" "present (gate h 0xEF)" "interrupt_gate (gate h 0x8E)" "\<not> interrupt_gate (gate h 0xEF)"
    "\<not> int_allowed 3 (gate h 0x8E)" "int_allowed 3 (gate h 0xEF)" "selector (gate h a) = GDT_KERNEL_CODE_SEG" for h a
    by (simp_all add: present_def interrupt_gate_def int_allowed_def gate_def privilege_def IDT_GATE_INT32_def)
  moreover have "\<not> int_allowed 3 (idt s ! v)" using assms by (simp add: int_allowed_def)
  moreover have "\<not> present (idt s ! v)" using assms by simp
  ultimately show ?thesis unfolding Let_def idt_init_table [OF assms(1,4)]
    by (cases "v < 32"; cases "v < 48"; cases "v = 128") (simp_all add: gate_offset_gate)
qed

theorem idt_init_correct_witness:
  "\<not> present (idt (idt_init 0x107000 (\<lambda>i. 0x100000 + 16 * of_nat i) (\<lambda>i. 0x101000 + 16 * of_nat i) 0x102000 idt_boot) ! 50) \<and>
    gate_offset (idt (idt_init 0x107000 (\<lambda>i. 0x100000 + 16 * of_nat i) (\<lambda>i. 0x101000 + 16 * of_nat i) 0x102000 idt_boot) ! 33) = 0x101010"
proof -
  have "length (idt idt_boot) = 256" "\<forall>v < 256. \<not> present (idt idt_boot ! v)" "length (handlers idt_boot) = 256"
    by (simp_all add: present_def)
  note * = idt_init_correct [OF this, of _ "0x107000" "\<lambda>i. 0x100000 + 16 * of_nat i" "\<lambda>i. 0x101000 + 16 * of_nat i" "0x102000"]
  show ?thesis using * [of 50] * [of 33] by (simp add: Let_def)
qed

section \<open>Exceptions and registered handlers\<close>

text \<open>
  A registered handler gets the interrupt; without one an exception writes its report to the console and stops the processor with
  interrupts off, and any other vector is ignored.
\<close>

theorem isr_dispatch:
  assumes "console_ok s" "serial_ready s" "length (handlers s) = 256" "int_no frame < 256"
  shows "(h \<noteq> 0 \<longrightarrow> isr_handler call cr2 (frame, idt_register_handler (ucast (int_no frame)) h s) =
      call h (frame, idt_register_handler (ucast (int_no frame)) h s)) \<and>
    (handlers s ! unat (int_no frame) = 0 \<and> int_no frame < 32 \<longrightarrow>
      (\<exists>t. isr_handler call cr2 (frame, s) = Some (Halts (frame, t)) \<and> \<not> interrupts_on t \<and>
        screen t = fold (term_putc (default_color s)) (panic_text frame cr2) (screen s))) \<and>
    (handlers s ! unat (int_no frame) = 0 \<and> 32 \<le> int_no frame \<longrightarrow> isr_handler call cr2 (frame, s) = Some (Returns (frame, s)))"
proof (intro conjI impI)
  have "unat (int_no frame) < 256" using assms(4) by (simp add: word_less_nat_alt)
  then have "unat (ucast (int_no frame) :: u8) = unat (int_no frame)" by (simp add: unsigned_ucast_eq take_bit_nat_eq_self)
  then show "isr_handler call cr2 (frame, idt_register_handler (ucast (int_no frame)) h s) =
      call h (frame, idt_register_handler (ucast (int_no frame)) h s)" if "h \<noteq> 0"
    using that assms(3,4) by (simp add: isr_handler_def idt_register_handler_def word_less_nat_alt)
  show "\<exists>t. isr_handler call cr2 (frame, s) = Some (Halts (frame, t)) \<and> \<not> interrupts_on t \<and>
        screen t = fold (term_putc (default_color s)) (panic_text frame cr2) (screen s)"
    if "handlers s ! unat (int_no frame) = 0 \<and> int_no frame < 32"
  proof -
    obtain t where "console_write (panic_text frame cr2) s = Some t" "screen t = fold (term_putc (default_color s)) (panic_text frame cr2) (screen s)"
      using console_write_spec [OF assms(1,2), of "panic_text frame cr2"] by blast
    then show ?thesis using that
      by (intro exI [of _ "t\<lparr>interrupts_on := False\<rparr>"]) (simp add: isr_handler_def default_exception_handler_def screen_def)
  qed
  show "isr_handler call cr2 (frame, s) = Some (Returns (frame, s))" if "handlers s ! unat (int_no frame) = 0 \<and> 32 \<le> int_no frame"
    using that by (auto simp: isr_handler_def)
qed

end
