(* ===== verification/Pic.thy ===== *)
theory Pic
  imports Descriptors
begin

text \<open>
  The interrupt controllers and the interval timer (\<^verbatim>\<open>kernel/arch/pic.c\<close>, \<^verbatim>\<open>kernel/arch/pit.c\<close>). The ports lead to two
  8259 chips: a chip has its mask, in-service and request registers, the position in the initialisation sequence, and
  the words programmed there; every other port only records what is written (\<open>port_log\<close>). The driver keeps a table
  of handlers for the 16 lines and the tick counter.
\<close>

section \<open>An 8259\<close>

datatype icw = ICW2 | ICW3 | ICW4 | Ready

record chip =
  imr :: u8
  isr :: u8
  irr :: u8
  expects :: icw
  wants_icw4 :: bool
  vector_base :: u8
  cascade :: u8
  mode_8086 :: bool
  auto_eoi :: bool
  reads_isr :: bool

text \<open>The line in service with the highest priority; a non-specific end of interrupt clears it.\<close>

definition highest :: "u8 \<Rightarrow> nat option" where
  "highest r = find (bit r) [0..<8]"

definition end_of_interrupt :: "chip \<Rightarrow> chip" where
  "end_of_interrupt c = (case highest (isr c) of None \<Rightarrow> c | Some i \<Rightarrow> c\<lparr>isr := unset_bit i (isr c)\<rparr>)"

definition chip_command :: "u8 \<Rightarrow> chip \<Rightarrow> chip" where
  "chip_command v c =
     (if bit v 4 then c\<lparr>imr := 0, isr := 0, expects := ICW2, wants_icw4 := bit v 0, auto_eoi := False, mode_8086 := False, reads_isr := False\<rparr>
      else if bit v 3 then (if bit v 1 then c\<lparr>reads_isr := bit v 0\<rparr> else c)
      else if drop_bit 5 v = 1 then end_of_interrupt c
      else c)"

definition chip_data :: "u8 \<Rightarrow> chip \<Rightarrow> chip" where
  "chip_data v c =
     (case expects c of
        ICW2 \<Rightarrow> c\<lparr>vector_base := v AND 0xF8, expects := ICW3\<rparr>
      | ICW3 \<Rightarrow> c\<lparr>cascade := v, expects := (if wants_icw4 c then ICW4 else Ready)\<rparr>
      | ICW4 \<Rightarrow> c\<lparr>mode_8086 := bit v 0, auto_eoi := bit v 1, expects := Ready\<rparr>
      | Ready \<Rightarrow> c\<lparr>imr := v\<rparr>)"

section \<open>State and ports\<close>

definition PIC1_CMD :: u16 where [zconst]: "PIC1_CMD = 0x20"
definition PIC1_DATA :: u16 where [zconst]: "PIC1_DATA = 0x21"
definition PIC2_CMD :: u16 where [zconst]: "PIC2_CMD = 0xA0"
definition PIC2_DATA :: u16 where [zconst]: "PIC2_DATA = 0xA1"
definition PIC_EOI :: u8 where [zconst]: "PIC_EOI = 0x20"
definition ICW1_ICW4 :: u8 where [zconst]: "ICW1_ICW4 = 0x01"
definition ICW1_INIT :: u8 where [zconst]: "ICW1_INIT = 0x10"
definition ICW4_8086 :: u8 where [zconst]: "ICW4_8086 = 0x01"
definition PIC1_OFFSET :: u8 where [zconst]: "PIC1_OFFSET = 32"
definition PIC2_OFFSET :: u8 where [zconst]: "PIC2_OFFSET = 40"

record pic_state = idt_state +
  master :: chip
  slave :: chip
  irq_handlers :: "u32 list"
  timer_ticks :: u32
  tick_rate_hz :: u32

definition outb :: "u16 \<Rightarrow> u8 \<Rightarrow> 'a pic_state_scheme \<Rightarrow> 'a pic_state_scheme" where
  "outb port val s =
     (if port = PIC1_CMD then s\<lparr>master := chip_command val (master s)\<rparr>
      else if port = PIC1_DATA then s\<lparr>master := chip_data val (master s)\<rparr>
      else if port = PIC2_CMD then s\<lparr>slave := chip_command val (slave s)\<rparr>
      else if port = PIC2_DATA then s\<lparr>slave := chip_data val (slave s)\<rparr>
      else Console.outb port val s)"

definition chip_read :: "chip \<Rightarrow> u8" where
  "chip_read c = (if reads_isr c then isr c else irr c)"

definition inb :: "u16 \<Rightarrow> 'a pic_state_scheme \<Rightarrow> u8" where
  "inb port s =
     (if port = PIC1_CMD then chip_read (master s)
      else if port = PIC1_DATA then imr (master s)
      else if port = PIC2_CMD then chip_read (slave s)
      else if port = PIC2_DATA then imr (slave s)
      else 0xFF)"

definition io_wait :: "'a pic_state_scheme \<Rightarrow> 'a pic_state_scheme" where
  "io_wait s = outb 0x80 0 s"

section \<open>Driver\<close>

definition pic_send_eoi :: "u8 \<Rightarrow> 'a pic_state_scheme \<Rightarrow> 'a pic_state_scheme" where
  "pic_send_eoi irq s =
     (let s = (if irq \<ge> 8 then outb PIC2_CMD PIC_EOI s else s) in outb PIC1_CMD PIC_EOI s)"

definition pic_get_isr :: "'a pic_state_scheme \<Rightarrow> u16 \<times> 'a pic_state_scheme" where
  "pic_get_isr s =
     (let s = outb PIC1_CMD 0x0B s; s = outb PIC2_CMD 0x0B s
      in (push_bit 8 (ucast (inb PIC2_CMD s)) OR ucast (inb PIC1_CMD s), s))"

definition pic_get_irr :: "'a pic_state_scheme \<Rightarrow> u16 \<times> 'a pic_state_scheme" where
  "pic_get_irr s =
     (let s = outb PIC1_CMD 0x0A s; s = outb PIC2_CMD 0x0A s
      in (push_bit 8 (ucast (inb PIC2_CMD s)) OR ucast (inb PIC1_CMD s), s))"

definition irq_register_handler :: "u8 \<Rightarrow> u32 \<Rightarrow> 'a pic_state_scheme \<Rightarrow> 'a pic_state_scheme" where
  "irq_register_handler irq handler s =
     (if irq < 16 then s\<lparr>irq_handlers := (irq_handlers s)[unat irq := handler]\<rparr> else s)"

text \<open>Called with the vector of an IRQ stub, 32 to 47.\<close>

definition irq_handler :: "(u32 \<Rightarrow> interrupt_frame \<times> 'a pic_state_scheme \<Rightarrow> (interrupt_frame \<times> 'a pic_state_scheme) outcome option) \<Rightarrow>
    interrupt_frame \<times> 'a pic_state_scheme \<Rightarrow> (interrupt_frame \<times> 'a pic_state_scheme) outcome option" where
  "irq_handler call = (\<lambda>(frame, s).
     let irq = ucast (int_no frame - ucast PIC1_OFFSET) :: u8;
         (spurious, s) =
           (if irq = 7 then let (r, s) = pic_get_isr s in (r AND push_bit 7 1 = 0, s)
            else if irq = 15
            then let (r, s) = pic_get_isr s
                 in if r AND push_bit 15 1 = 0 then (True, outb PIC1_CMD PIC_EOI s) else (False, s)
            else (False, s))
     in if spurious then Some (Returns (frame, s))
        else let s = pic_send_eoi irq s
             in if irq_handlers s ! unat irq \<noteq> 0 then call (irq_handlers s ! unat irq) (frame, s)
                else Some (Returns (frame, s)))"

text \<open>\<open>schedule\<close> is an argument here; \<open>timer_handler_addr\<close> is the address of this function.\<close>

definition timer_handler :: "('a pic_state_scheme \<Rightarrow> 'a pic_state_scheme option) \<Rightarrow> interrupt_frame \<times> 'a pic_state_scheme \<Rightarrow>
    (interrupt_frame \<times> 'a pic_state_scheme) outcome option" where
  "timer_handler schedule = (\<lambda>(frame, s). do {
     s \<leftarrow> schedule (s\<lparr>timer_ticks := timer_ticks s + 1\<rparr>);
     Some (Returns (frame, s))
   })"

definition pic_init :: "u32 \<Rightarrow> 'a pic_state_scheme \<Rightarrow> 'a pic_state_scheme" where
  "pic_init timer_handler_addr s =
     (let s = outb PIC1_CMD (ICW1_INIT OR ICW1_ICW4) s;
          s = io_wait s;
          s = outb PIC2_CMD (ICW1_INIT OR ICW1_ICW4) s;
          s = io_wait s;
          s = outb PIC1_DATA PIC1_OFFSET s;
          s = io_wait s;
          s = outb PIC2_DATA PIC2_OFFSET s;
          s = io_wait s;
          s = outb PIC1_DATA 0x04 s;
          s = io_wait s;
          s = outb PIC2_DATA 0x02 s;
          s = io_wait s;
          s = outb PIC1_DATA ICW4_8086 s;
          s = io_wait s;
          s = outb PIC2_DATA ICW4_8086 s;
          s = io_wait s;
          s = outb PIC1_DATA 0xFF s;
          s = outb PIC2_DATA 0xFF s;
          s = fold (\<lambda>i s. s\<lparr>irq_handlers := (irq_handlers s)[i := 0]\<rparr>) [0..<16] s
      in s\<lparr>irq_handlers := (irq_handlers s)[0 := timer_handler_addr]\<rparr>)"

definition pic_mask_irq :: "u8 \<Rightarrow> 'a pic_state_scheme \<Rightarrow> 'a pic_state_scheme" where
  "pic_mask_irq irq s =
     (let (port, irq) = (if irq < 8 then (PIC1_DATA, irq) else (PIC2_DATA, irq - 8));
          mask = inb port s;
          mask = mask OR push_bit (unat irq) 1
      in outb port mask s)"

definition pic_unmask_irq :: "u8 \<Rightarrow> 'a pic_state_scheme \<Rightarrow> 'a pic_state_scheme" where
  "pic_unmask_irq irq s =
     (let (port, irq, s) =
            (if irq < 8 then (PIC1_DATA, irq, s)
             else (PIC2_DATA, irq - 8, let mask = inb PIC1_DATA s; mask = mask AND NOT (push_bit 2 1) in outb PIC1_DATA mask s));
          mask = inb port s;
          mask = mask AND NOT (push_bit (unat irq) 1)
      in outb port mask s)"

definition pic_disable :: "'a pic_state_scheme \<Rightarrow> 'a pic_state_scheme" where
  "pic_disable s = (let s = outb PIC1_DATA 0xFF s in outb PIC2_DATA 0xFF s)"

definition timer_get_ticks :: "'a pic_state_scheme \<Rightarrow> u32" where
  "timer_get_ticks s = timer_ticks s"

section \<open>Interval timer\<close>

definition PIT_CHANNEL0 :: u16 where [zconst]: "PIT_CHANNEL0 = 0x40"
definition PIT_CMD :: u16 where [zconst]: "PIT_CMD = 0x43"
definition PIT_SEL_CHAN0 :: u8 where [zconst]: "PIT_SEL_CHAN0 = push_bit 6 0"
definition PIT_ACCESS_LOHI :: u8 where [zconst]: "PIT_ACCESS_LOHI = push_bit 4 3"
definition PIT_MODE_2 :: u8 where [zconst]: "PIT_MODE_2 = push_bit 1 2"
definition PIT_BASE_FREQ :: u32 where [zconst]: "PIT_BASE_FREQ = 1193182"

definition pit_divisor :: "u32 \<Rightarrow> u32" where
  "pit_divisor frequency =
     (let divisor = PIT_BASE_FREQ div frequency;
          divisor = (if divisor > 65535 then 65535 else divisor)
      in if divisor < 1 then 1 else divisor)"

text \<open>A division by zero raises an exception: no result.\<close>

definition pit_init :: "u32 \<Rightarrow> 'a pic_state_scheme \<Rightarrow> 'a pic_state_scheme option" where
  "pit_init frequency s =
     (if frequency = 0 then None
      else let divisor = pit_divisor frequency;
               s = s\<lparr>tick_rate_hz := PIT_BASE_FREQ div divisor\<rparr>;
               s = outb PIT_CMD (PIT_SEL_CHAN0 OR PIT_ACCESS_LOHI OR PIT_MODE_2) s;
               s = outb PIT_CHANNEL0 (ucast (divisor AND 0xFF)) s;
               s = outb PIT_CHANNEL0 (ucast (drop_bit 8 divisor AND 0xFF)) s
           in Some (pic_unmask_irq 0 s))"

definition pit_get_ticks :: "'a pic_state_scheme \<Rightarrow> u32" where
  "pit_get_ticks s = timer_get_ticks s"

definition sleep_ticks :: "u32 \<Rightarrow> u32 \<Rightarrow> u32" where
  "sleep_ticks rate ms = (let ticks = (ms * rate) div 1000 in if ticks = 0 then 1 else ticks)"

text \<open>\<open>hlt\<close> is what happens until the processor continues behind the halt.\<close>

partial_function (option) sleep_loop :: "('a pic_state_scheme \<Rightarrow> 'a pic_state_scheme) \<Rightarrow> u32 \<Rightarrow> u32 \<Rightarrow> 'a pic_state_scheme \<Rightarrow> 'a pic_state_scheme option" where
  "sleep_loop hlt start ticks s =
     (if timer_get_ticks s - start < ticks then sleep_loop hlt start ticks (hlt s) else Some s)"

definition pit_sleep_ms :: "('a pic_state_scheme \<Rightarrow> 'a pic_state_scheme) \<Rightarrow> u32 \<Rightarrow> 'a pic_state_scheme \<Rightarrow> 'a pic_state_scheme option" where
  "pit_sleep_ms hlt ms s =
     (if tick_rate_hz s = 0 then Some s
      else sleep_loop hlt (timer_get_ticks s) (sleep_ticks (tick_rate_hz s) ms) s)"

section \<open>Initialisation\<close>

text \<open>A chip after its initialisation words: in 8086 mode, without automatic end of interrupt, waiting for commands.\<close>

definition chip_ready :: "u8 \<Rightarrow> u8 \<Rightarrow> chip \<Rightarrow> bool" where
  "chip_ready base icw3 c \<longleftrightarrow> expects c = Ready \<and> vector_base c = base \<and> cascade c = icw3 \<and> mode_8086 c \<and> \<not> auto_eoi c"

definition pic_ready :: "'a pic_state_scheme \<Rightarrow> bool" where
  "pic_ready s \<longleftrightarrow> chip_ready 32 4 (master s) \<and> chip_ready 40 2 (slave s) \<and> length (irq_handlers s) = 16"

lemma clear_irq_handlers:
  "fold (\<lambda>i s. s\<lparr>irq_handlers := (irq_handlers s)[i := 0]\<rparr>) [0..<n] s =
    s\<lparr>irq_handlers := map (\<lambda>i. if i < n then 0 else irq_handlers s ! i) [0..<length (irq_handlers s)]\<rparr>"
proof (induction n)
  case 0
  then show ?case by (simp add: map_nth)
next
  case (Suc n)
  have "(map (\<lambda>i. if i < n then 0 else irq_handlers s ! i) [0..<length (irq_handlers s)])[n := 0] =
      map (\<lambda>i. if i < Suc n then 0 else irq_handlers s ! i) [0..<length (irq_handlers s)]"
    by (rule nth_equalityI) (auto simp: list_update_at)
  then show ?case by (simp add: Suc.IH)
qed

lemma outb_simps:
  "outb PIC1_CMD v s = s\<lparr>master := chip_command v (master s)\<rparr>" "outb PIC1_DATA v s = s\<lparr>master := chip_data v (master s)\<rparr>"
  "outb PIC2_CMD v s = s\<lparr>slave := chip_command v (slave s)\<rparr>" "outb PIC2_DATA v s = s\<lparr>slave := chip_data v (slave s)\<rparr>"
  "io_wait s = s\<lparr>port_log := port_log s @ [(0x80, 0)]\<rparr>"
  by (simp_all add: outb_def io_wait_def PIC1_CMD_def PIC1_DATA_def PIC2_CMD_def PIC2_DATA_def Console.outb_def)

lemma outb_fields:
  "master (outb PIC1_CMD v s) = chip_command v (master s)" "master (outb PIC1_DATA v s) = chip_data v (master s)"
  "master (outb PIC2_CMD v s) = master s" "master (outb PIC2_DATA v s) = master s" "master (io_wait s) = master s"
  "slave (outb PIC2_CMD v s) = chip_command v (slave s)" "slave (outb PIC2_DATA v s) = chip_data v (slave s)"
  "slave (outb PIC1_CMD v s) = slave s" "slave (outb PIC1_DATA v s) = slave s" "slave (io_wait s) = slave s"
  "irq_handlers (outb p v s) = irq_handlers s" "idt (outb p v s) = idt s" "timer_ticks (outb p v s) = timer_ticks s"
  "irq_handlers (io_wait s) = irq_handlers s" "idt (io_wait s) = idt s" "timer_ticks (io_wait s) = timer_ticks s"
  by (simp_all add: outb_simps) (simp_all add: outb_def Console.outb_def)

lemma inb_simps:
  "inb PIC1_CMD s = chip_read (master s)" "inb PIC1_DATA s = imr (master s)"
  "inb PIC2_CMD s = chip_read (slave s)" "inb PIC2_DATA s = imr (slave s)"
  by (simp_all add: inb_def PIC1_CMD_def PIC1_DATA_def PIC2_CMD_def PIC2_DATA_def)

text \<open>
  Whatever state the two chips are in, even in the middle of an initialisation, \<open>pic_init\<close> brings both up with vectors 32 and 40,
  the cascade on line 2, every line masked and nothing in service, and leaves the timer as the only handler.
\<close>

theorem pic_init_correct:
  assumes "length (irq_handlers s) = 16"
  shows "let t = pic_init h s in
    pic_ready t \<and> imr (master t) = 0xFF \<and> imr (slave t) = 0xFF \<and> isr (master t) = 0 \<and> isr (slave t) = 0 \<and>
    irq_handlers t = h # replicate 15 0 \<and> idt t = idt s \<and> timer_ticks t = timer_ticks s"
proof -
  have "map (\<lambda>i. if i < 16 then 0 else xs ! i) [0..<16] = replicate 16 (0 :: u32)" for xs by (rule nth_equalityI) auto
  moreover have "(replicate 16 (0 :: u32))[0 := h] = h # replicate 15 0" by (simp add: numeral_eq_Suc)
  ultimately have "irq_handlers (pic_init h s) = h # replicate 15 0"
    using assms unfolding pic_init_def Let_def clear_irq_handlers by (simp add: outb_fields)
  moreover have "master (pic_init h s) = chip_data 0xFF (chip_data 1 (chip_data 4 (chip_data 32 (chip_command 0x11 (master s)))))"
    "slave (pic_init h s) = chip_data 0xFF (chip_data 1 (chip_data 2 (chip_data 40 (chip_command 0x11 (slave s)))))"
    "idt (pic_init h s) = idt s" "timer_ticks (pic_init h s) = timer_ticks s"
    unfolding pic_init_def Let_def clear_irq_handlers
    by (simp_all add: outb_fields ICW1_INIT_def ICW1_ICW4_def ICW4_8086_def PIC1_OFFSET_def PIC2_OFFSET_def)
  ultimately show ?thesis using assms
    by (simp add: Let_def pic_ready_def chip_ready_def chip_command_def chip_data_def)
qed

definition pic_boot :: pic_state where
  "pic_boot =
     (let c = \<lparr>imr = 0, isr = 0, irr = 0, expects = ICW3, wants_icw4 = False, vector_base = 8, cascade = 0, mode_8086 = False,
        auto_eoi = False, reads_isr = False\<rparr>
      in idt_state.extend idt_boot (pic_state.fields c c (replicate 16 0) 0 0))"

lemma pic_boot_handlers [simp]: "irq_handlers pic_boot = replicate 16 0"
  by (simp add: pic_boot_def idt_state.defs pic_state.defs Let_def)

theorem pic_init_correct_witness: "imr (slave (pic_init 0x100000 pic_boot)) = 0xFF \<and> vector_base (slave (pic_init 0x100000 pic_boot)) = 40"
  using pic_init_correct [of pic_boot "0x100000"] by (simp add: Let_def pic_ready_def chip_ready_def)

text \<open>The machine after \<open>pic_init\<close>.\<close>

definition pic_up :: pic_state where
  "pic_up = pic_init 0x100000 pic_boot"

lemma pic_up_fields:
  "master pic_up = \<lparr>imr = 0xFF, isr = 0, irr = 0, expects = Ready, wants_icw4 = True, vector_base = 32, cascade = 4, mode_8086 = True,
     auto_eoi = False, reads_isr = False\<rparr>"
  "slave pic_up = \<lparr>imr = 0xFF, isr = 0, irr = 0, expects = Ready, wants_icw4 = True, vector_base = 40, cascade = 2, mode_8086 = True,
     auto_eoi = False, reads_isr = False\<rparr>"
  "length (irq_handlers pic_up) = 16"
  unfolding pic_up_def pic_init_def Let_def clear_irq_handlers
  by (simp_all add: outb_fields chip_command_def chip_data_def ICW1_INIT_def ICW1_ICW4_def ICW4_8086_def PIC1_OFFSET_def PIC2_OFFSET_def
      pic_boot_def idt_state.defs pic_state.defs Let_def)

lemma pic_up_ready: "pic_ready pic_up"
  by (simp add: pic_ready_def chip_ready_def pic_up_fields)

section \<open>Masks\<close>

definition lines :: "(chip \<Rightarrow> u8) \<Rightarrow> 'a pic_state_scheme \<Rightarrow> nat set" where
  "lines r s = {i. i < 8 \<and> bit (r (master s)) i} \<union> {i. 8 \<le> i \<and> i < 16 \<and> bit (r (slave s)) (i - 8)}"

abbreviation masked :: "'a pic_state_scheme \<Rightarrow> nat set" where
  "masked \<equiv> lines imr"

abbreviation in_service :: "'a pic_state_scheme \<Rightarrow> nat set" where
  "in_service \<equiv> lines isr"

lemma pic_ready_expects: "pic_ready s \<Longrightarrow> expects (master s) = Ready" "pic_ready s \<Longrightarrow> expects (slave s) = Ready"
  by (auto simp: pic_ready_def chip_ready_def)

lemma pic_mask_irq_masked:
  assumes "pic_ready s" "irq < 16"
  shows "masked (pic_mask_irq irq s) = insert (unat irq) (masked s)" "pic_ready (pic_mask_irq irq s)"
    "in_service (pic_mask_irq irq s) = in_service s"
proof -
  have u: "unat (irq - 8) = unat irq - 8" if "\<not> irq < 8" using that by (simp add: unat_sub_if_size word_less_nat_alt word_le_nat_alt)
  have r: "expects (master s) = Ready" "expects (slave s) = Ready" using assms(1) by (auto simp: pic_ready_def chip_ready_def)
  have "unat irq < 16" using assms(2) by (simp add: word_less_nat_alt)
  then show "masked (pic_mask_irq irq s) = insert (unat irq) (masked s)"
    using r u by (auto simp: pic_mask_irq_def lines_def outb_simps inb_simps chip_data_def bit_simps word_less_nat_alt split: if_splits)
  show "pic_ready (pic_mask_irq irq s)" "in_service (pic_mask_irq irq s) = in_service s"
    using assms(1) r by (auto simp: pic_ready_def chip_ready_def pic_mask_irq_def outb_simps chip_data_def lines_def)
qed

lemma pic_unmask_irq_masked:
  assumes "pic_ready s" "irq < 16"
  shows "masked (pic_unmask_irq irq s) = masked s - {unat irq} - (if 8 \<le> irq then {2} else {})" "pic_ready (pic_unmask_irq irq s)"
    "in_service (pic_unmask_irq irq s) = in_service s"
proof -
  have u: "unat (irq - 8) = unat irq - 8" if "\<not> irq < 8" using that by (simp add: unat_sub_if_size word_less_nat_alt word_le_nat_alt)
  have r: "expects (master s) = Ready" "expects (slave s) = Ready" using assms(1) by (auto simp: pic_ready_def chip_ready_def)
  have i: "unat irq < 16" using assms(2) by (simp add: word_less_nat_alt)
  show "masked (pic_unmask_irq irq s) = masked s - {unat irq} - (if 8 \<le> irq then {2} else {})"
  proof (cases "irq < 8")
    case True
    then have m: "imr (master (pic_unmask_irq irq s)) = unset_bit (unat irq) (imr (master s))"
      "imr (slave (pic_unmask_irq irq s)) = imr (slave s)"
      using r by (simp_all add: pic_unmask_irq_def outb_simps inb_simps chip_data_def unset_bit_eq_and_not)
    show ?thesis using i True by (auto simp: lines_def m bit_unset_bit_iff word_less_nat_alt word_le_nat_alt)
  next
    case False
    then have m: "imr (master (pic_unmask_irq irq s)) = unset_bit 2 (imr (master s))"
      "imr (slave (pic_unmask_irq irq s)) = unset_bit (unat irq - 8) (imr (slave s))"
      using r u by (simp_all add: pic_unmask_irq_def outb_simps inb_simps chip_data_def unset_bit_eq_and_not)
    show ?thesis using i False by (auto simp: lines_def m bit_unset_bit_iff word_less_nat_alt word_le_nat_alt)
  qed
  show "pic_ready (pic_unmask_irq irq s)" "in_service (pic_unmask_irq irq s) = in_service s"
    using assms(1) r by (auto simp: pic_ready_def chip_ready_def pic_unmask_irq_def outb_simps chip_data_def lines_def)
qed

section \<open>Dispatch\<close>

lemma highest_bit: "highest r = Some i \<Longrightarrow> bit r i \<and> i < 8"
  by (auto simp: highest_def find_Some_iff)

lemma eoi_command: "chip_command PIC_EOI c = end_of_interrupt c"
  by (simp add: chip_command_def PIC_EOI_def)

lemma ocw3_command: "chip_command 0x0B c = c\<lparr>reads_isr := True\<rparr>" "chip_command 0x0A c = c\<lparr>reads_isr := False\<rparr>"
  by (simp_all add: chip_command_def)

lemma end_of_interrupt_simps [simp]:
  "imr (end_of_interrupt c) = imr c" "chip_ready b i (end_of_interrupt c) = chip_ready b i c"
  by (auto simp: end_of_interrupt_def chip_ready_def split: option.splits)

lemma isr_end_of_interrupt: "highest (isr c) = Some i \<Longrightarrow> isr (end_of_interrupt c) = unset_bit i (isr c)"
  by (simp add: end_of_interrupt_def)

text \<open>\<open>selected s\<close> is \<open>s\<close> after the request to read the in-service registers.\<close>

definition selected :: "'a pic_state_scheme \<Rightarrow> 'a pic_state_scheme" where
  "selected s = s\<lparr>master := (master s)\<lparr>reads_isr := True\<rparr>, slave := (slave s)\<lparr>reads_isr := True\<rparr>\<rparr>"

lemma pic_get_isr_eq: "pic_get_isr s = (push_bit 8 (ucast (isr (slave s))) OR ucast (isr (master s)), selected s)"
  by (simp add: pic_get_isr_def outb_simps ocw3_command inb_simps chip_read_def selected_def)

lemma selected_simps [simp]:
  "isr (master (selected s)) = isr (master s)" "isr (slave (selected s)) = isr (slave s)"
  "imr (master (selected s)) = imr (master s)" "imr (slave (selected s)) = imr (slave s)"
  "irq_handlers (selected s) = irq_handlers s" "timer_ticks (selected s) = timer_ticks s"
  "pic_ready (selected s) = pic_ready s" "lines isr (selected s) = lines isr s" "lines imr (selected s) = lines imr s"
  by (simp_all add: selected_def pic_ready_def chip_ready_def lines_def)

lemma isr_bits:
  "(push_bit 8 (ucast (isr (slave s))) OR ucast (isr (master s)) :: u16) AND push_bit 7 1 = 0 \<longleftrightarrow> \<not> bit (isr (master s)) 7"
  "(push_bit 8 (ucast (isr (slave s))) OR ucast (isr (master s)) :: u16) AND push_bit 15 1 = 0 \<longleftrightarrow> \<not> bit (isr (slave s)) 7"
  unfolding push_bit_of_1 and_exp_eq_0_iff_not_bit using bit_imp_le_length [of "isr (master s)" 15] by (auto simp: bit_simps)

text \<open>The processor has taken line \<open>irq\<close>: it is the highest in service, for the slave together with the cascade line.\<close>

definition taken :: "nat \<Rightarrow> 'a pic_state_scheme \<Rightarrow> bool" where
  "taken irq s \<longleftrightarrow> (if irq < 8 then highest (isr (master s)) = Some irq
     else highest (isr (slave s)) = Some (irq - 8) \<and> highest (isr (master s)) = Some 2)"

lemma pic_send_eoi_spec:
  assumes "pic_ready s" "taken (unat irq) s" "irq < 16"
  shows "in_service (pic_send_eoi irq s) = in_service s - {unat irq} - (if 8 \<le> irq then {2} else {})"
    "masked (pic_send_eoi irq s) = masked s" "pic_ready (pic_send_eoi irq s)" "irq_handlers (pic_send_eoi irq s) = irq_handlers s"
    "timer_ticks (pic_send_eoi irq s) = timer_ticks s"
proof -
  have i: "unat irq < 16" using assms(3) by (simp add: word_less_nat_alt)
  show "in_service (pic_send_eoi irq s) = in_service s - {unat irq} - (if 8 \<le> irq then {2} else {})"
  proof (cases "irq < 8")
    case True
    then have u: "unat irq < 8" "\<not> 8 \<le> irq" by (simp_all add: word_less_nat_alt word_le_nat_alt)
    have m: "isr (master (pic_send_eoi irq s)) = unset_bit (unat irq) (isr (master s))" "isr (slave (pic_send_eoi irq s)) = isr (slave s)"
      using True assms(2) u by (simp_all add: pic_send_eoi_def outb_simps eoi_command taken_def isr_end_of_interrupt)
    show ?thesis using u by (auto simp: lines_def m bit_unset_bit_iff word_le_nat_alt)
  next
    case False
    then have u: "8 \<le> unat irq" "8 \<le> irq" by (simp_all add: word_less_nat_alt word_le_nat_alt)
    have m: "isr (master (pic_send_eoi irq s)) = unset_bit 2 (isr (master s))"
      "isr (slave (pic_send_eoi irq s)) = unset_bit (unat irq - 8) (isr (slave s))"
      using False assms(2) u by (simp_all add: pic_send_eoi_def outb_simps eoi_command taken_def isr_end_of_interrupt)
    show ?thesis using u i by (auto simp: lines_def m bit_unset_bit_iff word_le_nat_alt)
  qed
  show "masked (pic_send_eoi irq s) = masked s" "pic_ready (pic_send_eoi irq s)" "irq_handlers (pic_send_eoi irq s) = irq_handlers s"
    "timer_ticks (pic_send_eoi irq s) = timer_ticks s"
    using assms(1) by (simp_all add: pic_send_eoi_def outb_simps eoi_command lines_def pic_ready_def)
qed

lemma irq_number:
  fixes v :: u32
  assumes "32 \<le> v" "v < 48"
  shows "unat (ucast (v - ucast PIC1_OFFSET) :: u8) = unat v - 32" "(ucast (v - ucast PIC1_OFFSET) :: u8) < 16"
proof -
  have "unat (v - 32) = unat v - 32" "unat v < 48" using assms by (simp_all add: unat_sub word_less_nat_alt)
  then show u: "unat (ucast (v - ucast PIC1_OFFSET) :: u8) = unat v - 32"
    by (simp add: PIC1_OFFSET_def unsigned_ucast_eq take_bit_nat_eq_self)
  show "(ucast (v - ucast PIC1_OFFSET) :: u8) < 16" using u \<open>unat v < 48\<close> by (simp add: word_less_nat_alt)
qed

text \<open>The handler by its cases: spurious on line 7, spurious on line 15, genuine.\<close>

lemma irq_handler_cases:
  fixes irq :: u8
  assumes "irq = ucast (int_no frame - ucast PIC1_OFFSET)"
  shows "irq_handler call (frame, s) =
    (if irq = 7 \<and> \<not> bit (isr (master s)) 7 then Some (Returns (frame, selected s))
     else if irq = 15 \<and> \<not> bit (isr (slave s)) 7 then Some (Returns (frame, outb PIC1_CMD PIC_EOI (selected s)))
     else let t = pic_send_eoi irq (if irq = 7 \<or> irq = 15 then selected s else s)
          in if irq_handlers t ! unat irq \<noteq> 0 then call (irq_handlers t ! unat irq) (frame, t) else Some (Returns (frame, t)))"
  unfolding irq_handler_def pic_get_isr_eq Let_def prod.case isr_bits assms [symmetric] by simp

lemma irq_handler_taken:
  assumes "pic_ready s" "32 \<le> int_no frame" "int_no frame < 48" "taken (unat (int_no frame) - 32) s"
  defines "irq \<equiv> unat (int_no frame) - 32"
  shows "\<exists>t. irq_handler call (frame, s) =
      (if irq_handlers s ! irq = 0 then Some (Returns (frame, t)) else call (irq_handlers s ! irq) (frame, t)) \<and>
    in_service t = in_service s - {irq} - (if 8 \<le> irq then {2} else {}) \<and> masked t = masked s \<and> pic_ready t \<and>
    irq_handlers t = irq_handlers s \<and> timer_ticks t = timer_ticks s"
proof -
  define w :: u8 where "w = ucast (int_no frame - ucast PIC1_OFFSET)"
  have w: "unat w = irq" "w < 16" using irq_number [OF assms(2,3)] by (simp_all add: w_def irq_def)
  define r where "r = (if w = 7 \<or> w = 15 then selected s else s)"
  have r: "pic_ready r" "taken (unat w) r" "in_service r = in_service s" "masked r = masked s" "irq_handlers r = irq_handlers s"
    "timer_ticks r = timer_ticks s"
    using assms(1,4) w by (auto simp: r_def taken_def irq_def)
  have 7: "bit (isr (master s)) 7" if "w = 7" using that assms(4) w highest_bit [of "isr (master s)" 7]
    by (auto simp: taken_def irq_def split: if_splits)
  have 15: "bit (isr (slave s)) 7" if "w = 15" using that assms(4) w highest_bit [of "isr (slave s)" 7]
    by (auto simp: taken_def irq_def split: if_splits)
  have "irq_handler call (frame, s) = (if irq_handlers s ! irq = 0 then Some (Returns (frame, pic_send_eoi w r))
      else call (irq_handlers s ! irq) (frame, pic_send_eoi w r))"
    using 7 15 pic_send_eoi_spec(4) [OF r(1,2) w(2)] r(5) unfolding irq_handler_cases [OF w_def] r_def [symmetric] Let_def w(1) by auto
  moreover have "8 \<le> w \<longleftrightarrow> 8 \<le> irq" using w(1) by (simp add: word_le_nat_alt)
  ultimately show ?thesis using pic_send_eoi_spec [OF r(1,2) w(2)] r w(1) by (intro exI [of _ "pic_send_eoi w r"]) simp
qed

text \<open>
  C20: When the processor takes an interrupt of a line, the handler registered for the line runs after the interrupt has been
  acknowledged: exactly this line, and for the slave the cascade line, is no longer in service when the handler starts. Masks and handlers stay.
\<close>

theorem irq_acknowledged:
  assumes "pic_ready s" "32 \<le> int_no frame" "int_no frame < 48" "taken (unat (int_no frame) - 32) s"
  shows "\<exists>t. irq_handler call (frame, s) =
      (if irq_handlers s ! (unat (int_no frame) - 32) = 0 then Some (Returns (frame, t))
       else call (irq_handlers s ! (unat (int_no frame) - 32)) (frame, t)) \<and>
    in_service t = in_service s - {unat (int_no frame) - 32} - (if 40 \<le> int_no frame then {2} else {}) \<and>
    masked t = masked s \<and> pic_ready t \<and> irq_handlers t = irq_handlers s"
proof -
  have "8 \<le> unat (int_no frame) - 32 \<longleftrightarrow> 40 \<le> int_no frame" by (auto simp: word_le_nat_alt)
  then show ?thesis using irq_handler_taken [OF assms, of call] by auto
qed

theorem irq_acknowledged_witness:
  "\<exists>t. irq_handler (\<lambda>_ _. None) (\<lparr>f_ds = 0, f_edi = 0, f_esi = 0, f_ebp = 0, f_esp_dummy = 0, f_ebx = 0, f_edx = 0, f_ecx = 0, f_eax = 0,
      int_no = 47, err_code = 0, f_eip = 0, f_cs = 0, f_eflags = 0, user_esp = 0, user_ss = 0\<rparr>,
      pic_up\<lparr>master := (master pic_up)\<lparr>isr := 4\<rparr>, slave := (slave pic_up)\<lparr>isr := 0x80\<rparr>, irq_handlers := replicate 16 0\<rparr>) =
    Some (Returns (\<lparr>f_ds = 0, f_edi = 0, f_esi = 0, f_ebp = 0, f_esp_dummy = 0, f_ebx = 0, f_edx = 0, f_ecx = 0, f_eax = 0,
      int_no = 47, err_code = 0, f_eip = 0, f_cs = 0, f_eflags = 0, user_esp = 0, user_ss = 0\<rparr>, t)) \<and> 15 \<notin> in_service t \<and> 2 \<notin> in_service t"
proof -
  let ?f = "\<lparr>f_ds = 0, f_edi = 0, f_esi = 0, f_ebp = 0, f_esp_dummy = 0, f_ebx = 0, f_edx = 0, f_ecx = 0, f_eax = 0,
      int_no = 47, err_code = 0, f_eip = 0, f_cs = 0, f_eflags = 0, user_esp = 0, user_ss = 0\<rparr>"
  let ?s = "pic_up\<lparr>master := (master pic_up)\<lparr>isr := 4\<rparr>, slave := (slave pic_up)\<lparr>isr := 0x80\<rparr>, irq_handlers := replicate 16 0\<rparr>"
  have "pic_ready ?s" by (simp add: pic_ready_def chip_ready_def pic_up_fields)
  moreover have "taken (unat (int_no ?f) - 32) ?s" by (simp add: taken_def highest_def upt_rec)
  ultimately show ?thesis using irq_acknowledged [of ?s ?f "\<lambda>_ _. None"] by auto
qed

text \<open>An interrupt that no line raised calls no handler; only the cascade line of the master is acknowledged, for line 15.\<close>

theorem irq_spurious:
  assumes "pic_ready s"
  shows "(int_no frame = 39 \<and> 7 \<notin> in_service s \<longrightarrow>
      (\<exists>t. irq_handler call (frame, s) = Some (Returns (frame, t)) \<and> in_service t = in_service s \<and> masked t = masked s)) \<and>
    (int_no frame = 47 \<and> 15 \<notin> in_service s \<and> highest (isr (master s)) = Some 2 \<longrightarrow>
      (\<exists>t. irq_handler call (frame, s) = Some (Returns (frame, t)) \<and> in_service t = in_service s - {2} \<and> masked t = masked s))"
proof (intro conjI impI)
  assume a: "int_no frame = 39 \<and> 7 \<notin> in_service s"
  then have "(7 :: u8) = ucast (int_no frame - ucast PIC1_OFFSET)" by (simp add: PIC1_OFFSET_def)
  from irq_handler_cases [OF this, of call s] a
  show "\<exists>t. irq_handler call (frame, s) = Some (Returns (frame, t)) \<and> in_service t = in_service s \<and> masked t = masked s"
    by (intro exI [of _ "selected s"]) (simp add: lines_def [of isr s])
next
  assume a: "int_no frame = 47 \<and> 15 \<notin> in_service s \<and> highest (isr (master s)) = Some 2"
  let ?t = "outb PIC1_CMD PIC_EOI (selected s)"
  have 15: "(15 :: u8) = ucast (int_no frame - ucast PIC1_OFFSET)" using a by (simp add: PIC1_OFFSET_def)
  have "isr (master ?t) = unset_bit 2 (isr (master s))" "isr (slave ?t) = isr (slave s)" "masked ?t = masked s"
    using a by (simp_all add: outb_simps eoi_command isr_end_of_interrupt lines_def)
  then have "in_service ?t = in_service s - {2}" "masked ?t = masked s" by (auto simp: lines_def [of isr] bit_unset_bit_iff)
  then show "\<exists>t. irq_handler call (frame, s) = Some (Returns (frame, t)) \<and> in_service t = in_service s - {2} \<and> masked t = masked s"
    using irq_handler_cases [OF 15, of call s] a by (intro exI [of _ ?t]) (simp add: lines_def [of isr s])
qed

section \<open>Timer\<close>

lemma pit_divisor_unat:
  "unat (pit_divisor f) = (if 1193182 div unat f > 65535 then 65535 else if 1193182 div unat f < 1 then 1 else 1193182 div unat f)"
proof -
  have u: "unat (PIT_BASE_FREQ div f) = 1193182 div unat f" by (simp add: PIT_BASE_FREQ_def unat_div)
  then show ?thesis unfolding pit_divisor_def Let_def by (simp add: word_less_nat_alt)
qed

lemma pit_divisor_range: "1 \<le> unat (pit_divisor f) \<and> unat (pit_divisor f) \<le> 65535"
  by (simp add: pit_divisor_unat)

lemma pit_rate:
  assumes "19 \<le> f" "f \<le> 1193182"
  defines "d \<equiv> unat (pit_divisor f)"
  shows "d * unat f \<le> 1193182" "1193182 < (d + 1) * unat f" "unat f \<le> 1193182 div d"
proof -
  have f: "19 \<le> unat f" "unat f \<le> 1193182" using assms(1,2) by (simp_all add: word_le_nat_alt)
  have "1193182 div unat f \<le> 1193182 div 19" by (rule div_le_mono2) (use f in simp_all)
  moreover have "1 \<le> 1193182 div unat f" using f div_greater_zero_iff [of 1193182 "unat f"] by simp
  ultimately have d: "d = 1193182 div unat f" by (simp add: d_def pit_divisor_unat)
  show "d * unat f \<le> 1193182" unfolding d by (rule div_times_less_eq_dividend)
  then show "unat f \<le> 1193182 div d" using \<open>1 \<le> 1193182 div unat f\<close> d by (metis div_le_mono mult.commute nonzero_mult_div_cancel_left not_one_le_zero)
  show "1193182 < (d + 1) * unat f" unfolding d using dividend_less_div_times [of "unat f" 1193182] f by (simp add: algebra_simps)
qed

text \<open>
  \<open>pit_init\<close> programs channel 0 as a rate generator with a divisor of 16 bits, low byte first, and unmasks its line. For a frequency
  from 19 to the base frequency the rate is at least the one asked for, and the next larger divisor would be too slow.
  A frequency of 0 divides by zero.
\<close>

theorem pit_init_correct:
  assumes "pic_ready s" "0 < f"
  shows "\<exists>t lo hi d. pit_init f s = Some t \<and> port_log t = port_log s @ [(PIT_CMD, 0x34), (PIT_CHANNEL0, lo), (PIT_CHANNEL0, hi)] \<and>
    unat lo + 256 * unat hi = d \<and> 1 \<le> d \<and> d \<le> 65535 \<and> unat (tick_rate_hz t) = 1193182 div d \<and> 0 \<notin> masked t \<and>
    (19 \<le> f \<and> f \<le> 1193182 \<longrightarrow> unat f \<le> unat (tick_rate_hz t) \<and> 1193182 < (d + 1) * unat f)"
proof -
  let ?d = "pit_divisor f"
  let ?lo = "ucast (?d AND 0xFF) :: u8" and ?hi = "ucast (drop_bit 8 ?d AND 0xFF) :: u8"
  define u where "u = outb PIT_CHANNEL0 ?hi (outb PIT_CHANNEL0 ?lo (outb PIT_CMD (PIT_SEL_CHAN0 OR PIT_ACCESS_LOHI OR PIT_MODE_2) (s\<lparr>tick_rate_hz := PIT_BASE_FREQ div ?d\<rparr>)))"
  have t: "pit_init f s = Some (pic_unmask_irq 0 u)" using assms(2) by (auto simp: pit_init_def u_def Let_def)
  have ports: "PIT_CMD \<notin> {PIC1_CMD, PIC1_DATA, PIC2_CMD, PIC2_DATA}" "PIT_CHANNEL0 \<notin> {PIC1_CMD, PIC1_DATA, PIC2_CMD, PIC2_DATA}"
    by (simp_all add: zconst)
  have u: "pic_ready u" "port_log u = port_log s @ [(PIT_CMD, 0x34), (PIT_CHANNEL0, ?lo), (PIT_CHANNEL0, ?hi)]"
    "tick_rate_hz u = PIT_BASE_FREQ div ?d" "expects (master u) = Ready"
    using assms(1) ports by (simp_all add: u_def outb_def Console.outb_def pic_ready_def chip_ready_def PIT_SEL_CHAN0_def PIT_ACCESS_LOHI_def PIT_MODE_2_def)
  have keep: "port_log (pic_unmask_irq 0 u) = port_log u" "tick_rate_hz (pic_unmask_irq 0 u) = tick_rate_hz u"
    by (simp_all add: pic_unmask_irq_def outb_simps)
  have "0 \<notin> masked (pic_unmask_irq 0 u)" using pic_unmask_irq_masked(1) [OF u(1), of 0] by simp
  moreover have bytes: "unat ?lo + 256 * unat ?hi = unat ?d"
  proof -
    have "unat ?lo = unat ?d mod 256" "unat ?hi = unat ?d div 256 mod 256"
      by (simp_all add: byte_mask unsigned_ucast_eq unsigned_take_bit_eq unat_drop_bit_eq) (simp_all add: take_bit_eq_mod drop_bit_eq_div)
    moreover have "unat ?d div 256 < 256" using pit_divisor_range [of f] by (intro less_mult_imp_div_less) simp
    ultimately show ?thesis by simp
  qed
  moreover have rate: "unat (PIT_BASE_FREQ div ?d) = 1193182 div unat ?d" by (simp add: PIT_BASE_FREQ_def unat_div)
  ultimately show ?thesis using pit_divisor_range [of f] pit_rate [of f] t u keep
    by (intro exI [of _ "pic_unmask_irq 0 u"] exI [of _ ?lo] exI [of _ ?hi] exI [of _ "unat ?d"]) simp
qed

theorem pit_init_correct_witness:
  "\<exists>t. pit_init 100 pic_up = Some t \<and> 100 \<le> unat (tick_rate_hz t) \<and> 0 \<notin> masked t"
  using pit_init_correct [OF pic_up_ready, of 100] by auto

text \<open>
  If every halt ends with one tick, \<open>pit_sleep_ms\<close> returns after exactly the number of ticks computed for the time, also when the
  tick counter wraps around meanwhile.
\<close>

lemma sleep_loop_ticks:
  assumes "\<And>s. timer_ticks (hlt s) = timer_ticks s + 1" "unat (timer_ticks s - start) + k = unat n"
  shows "sleep_loop hlt start n s = Some ((hlt ^^ k) s)"
  using assms(2)
proof (induction k arbitrary: s)
  case 0
  then show ?case by (subst sleep_loop.simps) (simp add: timer_get_ticks_def word_less_nat_alt)
next
  case (Suc k)
  have less: "timer_ticks s - start < n" using Suc.prems by (simp add: word_less_nat_alt)
  have "timer_ticks (hlt s) - start = (timer_ticks s - start) + 1" by (simp add: assms(1))
  then have "unat (timer_ticks (hlt s) - start) + k = unat n" using unat_Suc_less [OF less] Suc.prems by (simp add: assms(1) diff_add_eq)
  from Suc.IH [OF this] less show ?case by (subst sleep_loop.simps) (simp add: timer_get_ticks_def funpow_swap1)
qed

theorem pit_sleep_returns:
  assumes "\<And>s. timer_ticks (hlt s) = timer_ticks s + 1" "tick_rate_hz s \<noteq> 0"
  shows "pit_sleep_ms hlt ms s = Some ((hlt ^^ max 1 (unat ms * unat (tick_rate_hz s) mod 2 ^ 32 div 1000)) s)"
proof -
  have "unat (sleep_ticks (tick_rate_hz s) ms) = max 1 (unat ms * unat (tick_rate_hz s) mod 2 ^ 32 div 1000)"
    by (simp add: sleep_ticks_def Let_def unat_div unat_word_ariths max_def unat_eq_0 [symmetric] del: unat_eq_0)
  then show ?thesis using sleep_loop_ticks [OF assms(1), of s "timer_ticks s" _ "sleep_ticks (tick_rate_hz s) ms"] assms(2)
    by (simp add: pit_sleep_ms_def timer_get_ticks_def)
qed

theorem pit_sleep_returns_witness:
  "pit_sleep_ms (\<lambda>s. s\<lparr>timer_ticks := timer_ticks s + 1\<rparr>) 50 (pic_up\<lparr>tick_rate_hz := 100, timer_ticks := 0xFFFFFFFE\<rparr>) =
    Some (((\<lambda>s. s\<lparr>timer_ticks := timer_ticks s + 1\<rparr>) ^^ 5) (pic_up\<lparr>tick_rate_hz := 100, timer_ticks := 0xFFFFFFFE\<rparr>))"
  using pit_sleep_returns [of "\<lambda>s. s\<lparr>timer_ticks := timer_ticks s + 1\<rparr>" "pic_up\<lparr>tick_rate_hz := 100, timer_ticks := 0xFFFFFFFE\<rparr>" 50]
  by simp

end
