(* ===== verification/Keyboard.thy ===== *)
theory Keyboard
  imports Pic Ipc_Ring
begin

text \<open>
  The keyboard driver (\<^verbatim>\<open>kernel/arch/keyboard.c\<close>, \<^verbatim>\<open>kernel/arch/scancodes.h\<close>): the interrupt handler translates a scancode
  and puts the character into a ring of 128 bytes, of which one stays free; the shell takes characters out. \<open>kbd_data\<close> is
  what port 0x60 returns. The two indices are C \<open>int\<close>s that are never negative, and are natural numbers here.
\<close>

section \<open>State and operations\<close>

definition KB_BUF_SIZE :: nat where [zconst]: "KB_BUF_SIZE = 128"

record kb_state = pic_state +
  kb_buffer :: "u8 list"
  kb_head :: nat
  kb_tail :: nat
  shift_pressed :: bool
  kbd_data :: u8

definition scancode_map :: "u8 list" where
  "scancode_map =
     [0, 27] @ ascii ''1234567890-='' @ [8, 9] @ ascii ''qwertyuiop[]'' @ [10, 0] @ ascii ''asdfghjkl;'' @ [39] @ ascii ''`'' @
     [0, 92] @ ascii ''zxcvbnm,./'' @ [0] @ ascii ''*'' @ [0] @ ascii '' '' @ [0]"

definition scancode_map_shift :: "u8 list" where
  "scancode_map_shift =
     [0, 27] @ ascii ''!@#$%^&*()_+'' @ [8, 9] @ ascii ''QWERTYUIOP{}'' @ [10, 0] @ ascii ''ASDFGHJKL:'' @ [34] @ ascii ''~'' @
     [0] @ ascii ''|ZXCVBNM<>?'' @ [0] @ ascii ''*'' @ [0] @ ascii '' '' @ [0]"

definition kb_translate :: "bool \<Rightarrow> u8 \<Rightarrow> u8" where
  "kb_translate shift scancode =
     (if unat scancode < length scancode_map
      then if shift then scancode_map_shift ! unat scancode else scancode_map ! unat scancode
      else 0)"

definition kb_put :: "u8 \<Rightarrow> 'a kb_state_scheme \<Rightarrow> 'a kb_state_scheme" where
  "kb_put c s =
     (if c \<noteq> 0
      then let nxt = (kb_head s + 1) mod KB_BUF_SIZE
           in if nxt \<noteq> kb_tail s then s\<lparr>kb_buffer := (kb_buffer s)[kb_head s := c], kb_head := nxt\<rparr> else s
      else s)"

definition keyboard_handler :: "'a kb_state_scheme \<Rightarrow> 'a kb_state_scheme" where
  "keyboard_handler s =
     (let scancode = kbd_data s
      in if scancode AND 0x80 \<noteq> 0
         then let scancode = scancode AND 0x7F
              in if scancode = 0x2A \<or> scancode = 0x36 then s\<lparr>shift_pressed := False\<rparr> else s
         else if scancode = 0x2A \<or> scancode = 0x36 then s\<lparr>shift_pressed := True\<rparr>
         else kb_put (kb_translate (shift_pressed s) scancode) s)"

definition keyboard_init :: "u32 \<Rightarrow> 'a kb_state_scheme \<Rightarrow> 'a kb_state_scheme" where
  "keyboard_init keyboard_handler_addr s = (let s = irq_register_handler 1 keyboard_handler_addr s in pic_unmask_irq 1 s)"

definition tc_has_input :: "'a kb_state_scheme \<Rightarrow> bool" where
  "tc_has_input s \<longleftrightarrow> kb_head s \<noteq> kb_tail s"

text \<open>\<open>hlt\<close> is what happens until the processor continues behind the halt.\<close>

partial_function (option) tc_getchar :: "('a kb_state_scheme \<Rightarrow> 'a kb_state_scheme) \<Rightarrow> 'a kb_state_scheme \<Rightarrow> (u8 \<times> 'a kb_state_scheme) option" where
  "tc_getchar hlt s =
     (if kb_head s = kb_tail s then tc_getchar hlt (hlt s)
      else Some (kb_buffer s ! kb_tail s, s\<lparr>kb_tail := (kb_tail s + 1) mod KB_BUF_SIZE\<rparr>))"

section \<open>The queue\<close>

definition kb_ok :: "'a kb_state_scheme \<Rightarrow> bool" where
  "kb_ok s \<longleftrightarrow> length (kb_buffer s) = 128 \<and> kb_head s < 128 \<and> kb_tail s < 128"

definition kb_len :: "'a kb_state_scheme \<Rightarrow> nat" where
  "kb_len s = (kb_head s + 128 - kb_tail s) mod 128"

definition kb_queue :: "'a kb_state_scheme \<Rightarrow> u8 list" where
  "kb_queue s = map (\<lambda>k. kb_buffer s ! ((kb_tail s + k) mod 128)) [0..<kb_len s]"

lemma length_kb_queue [simp]: "length (kb_queue s) = kb_len s"
  by (simp add: kb_queue_def)

lemma kb_len_less: "kb_len s < 128"
  by (simp add: kb_len_def)

lemma kb_queue_empty: "kb_ok s \<Longrightarrow> kb_queue s = [] \<longleftrightarrow> \<not> tc_has_input s"
  using ring_len_empty [of "kb_head s" 128 "kb_tail s"] by (auto simp: kb_ok_def tc_has_input_def kb_len_def simp flip: length_0_conv)

lemma kb_put_queue:
  assumes "kb_ok s"
  shows "kb_ok (kb_put c s)" "kb_queue (kb_put c s) = (if c \<noteq> 0 \<and> length (kb_queue s) < 127 then kb_queue s @ [c] else kb_queue s)"
proof -
  show "kb_ok (kb_put c s)" using assms by (simp add: kb_ok_def kb_put_def KB_BUF_SIZE_def Let_def)
  have ok: "kb_head s < 128" "kb_tail s < 128" "length (kb_buffer s) = 128" using assms by (auto simp: kb_ok_def)
  show "kb_queue (kb_put c s) = (if c \<noteq> 0 \<and> length (kb_queue s) < 127 then kb_queue s @ [c] else kb_queue s)"
  proof (cases "(kb_head s + 1) mod 128 = kb_tail s")
    case True
    then have "kb_len s = 127" using ring_len_full [OF ok(1,2) True] by (simp add: kb_len_def)
    then show ?thesis using True by (simp add: kb_put_def KB_BUF_SIZE_def)
  next
    case False
    let ?t = "s\<lparr>kb_buffer := (kb_buffer s)[kb_head s := c], kb_head := (kb_head s + 1) mod 128\<rparr>"
    have len: "kb_len ?t = Suc (kb_len s)" using ring_len_push [OF ok(1,2) False] by (simp add: kb_len_def)
    have hd: "(kb_tail s + kb_len s) mod 128 = kb_head s" using ring_len_idx [OF ok(1,2)] by (simp add: kb_len_def)
    have "kb_queue ?t = kb_queue s @ [c]"
    proof (rule nth_equalityI)
      fix k assume k: "k < length (kb_queue ?t)"
      show "kb_queue ?t ! k = (kb_queue s @ [c]) ! k"
      proof (cases "k = kb_len s")
        case True
        then show ?thesis using k len hd ok by (simp add: kb_queue_def nth_append)
      next
        case False
        then have "k < kb_len s" using k len by simp
        moreover have "(kb_tail s + k) mod 128 \<noteq> kb_head s"
          using ring_idx_inj [of "kb_tail s" 128 k "kb_len s"] ok(2) kb_len_less [of s] calculation hd by auto
        ultimately show ?thesis using len ok by (simp add: kb_queue_def nth_append)
      qed
    qed (use len in simp)
    moreover have "kb_len s < 127" using kb_len_less [of ?t] len by simp
    ultimately show ?thesis using False by (simp add: kb_put_def KB_BUF_SIZE_def)
  qed
qed

lemma tc_getchar_queue:
  assumes "kb_ok s" "kb_queue s = c # cs"
  shows "\<exists>t. tc_getchar hlt s = Some (c, t) \<and> kb_ok t \<and> kb_queue t = cs \<and> t = s\<lparr>kb_tail := (kb_tail s + 1) mod 128\<rparr>"
proof -
  have ok: "kb_head s < 128" "kb_tail s < 128" "length (kb_buffer s) = 128" using assms(1) by (auto simp: kb_ok_def)
  have ne: "kb_head s \<noteq> kb_tail s" using kb_queue_empty [OF assms(1)] assms(2) by (auto simp: tc_has_input_def)
  let ?t = "s\<lparr>kb_tail := (kb_tail s + 1) mod 128\<rparr>"
  have len: "kb_len s = Suc (kb_len ?t)" using ring_len_pop [OF ok(1,2) ne] by (simp add: kb_len_def)
  have "kb_queue s = kb_buffer s ! kb_tail s # kb_queue ?t"
    using ok unfolding kb_queue_def len upt_conv_Cons [OF zero_less_Suc] map_Suc_upt [symmetric]
    by (simp add: mod_add_left_eq o_def)
  then have "c = kb_buffer s ! kb_tail s" "cs = kb_queue ?t" using assms(2) by simp_all
  then show ?thesis using ok ne by (subst tc_getchar.simps) (simp add: kb_ok_def KB_BUF_SIZE_def)
qed

section \<open>Typing\<close>

text \<open>The characters that a sequence of scancodes stands for: releases above 0x7F, the two shift keys, keys without a character.\<close>

fun typed :: "bool \<Rightarrow> u8 list \<Rightarrow> u8 list" where
  "typed shift [] = []"
| "typed shift (sc # scs) =
     (if sc \<in> {0xAA, 0xB6} then typed False scs
      else if 0x80 \<le> sc then typed shift scs
      else if sc \<in> {0x2A, 0x36} then typed True scs
      else (if kb_translate shift sc = 0 then [] else [kb_translate shift sc]) @ typed shift scs)"

definition key_interrupts :: "u8 list \<Rightarrow> 'a kb_state_scheme \<Rightarrow> 'a kb_state_scheme" where
  "key_interrupts scs s = fold (\<lambda>sc s. keyboard_handler (s\<lparr>kbd_data := sc\<rparr>)) scs s"

lemma high_bit:
  fixes sc :: u8
  shows "sc AND 0x80 \<noteq> 0 \<longleftrightarrow> 0x80 \<le> sc" "0x80 \<le> sc \<Longrightarrow> sc AND 0x7F = sc - 0x80"
proof -
  have 7: "(sc AND 0x80 \<noteq> 0) = bit sc 7" using and_exp_eq_0_iff_not_bit [of sc 7] by simp
  have u: "unat sc < 256" using unsigned_less [of sc, where ?'a = nat] by simp
  have "bit sc 7 \<longleftrightarrow> bit (unat sc) 7" by (simp add: bit_unsigned_iff)
  also have "\<dots> \<longleftrightarrow> odd (unat sc div 128)" using bit_iff_odd [of "unat sc" 7] by simp
  also have "\<dots> \<longleftrightarrow> 128 \<le> unat sc"
  proof (cases "128 \<le> unat sc")
    case True
    then have "unat sc div 128 = 1" using u by (intro div_nat_eqI) simp_all
    then show ?thesis using True by simp
  qed simp
  finally show "sc AND 0x80 \<noteq> 0 \<longleftrightarrow> 0x80 \<le> sc" using 7 by (simp add: word_le_nat_alt)
  assume "0x80 \<le> sc"
  then have "128 \<le> unat sc" by (simp add: word_le_nat_alt)
  moreover have "sc AND 0x7F = take_bit 7 sc" by (simp add: take_bit_eq_mask mask_eq_exp_minus_1)
  then have "unat (sc AND 0x7F) = unat sc mod 128"
    using unsigned_take_bit_eq [of 7 sc, where ?'a = nat] by (simp add: take_bit_eq_mod)
  moreover have "unat (sc - 0x80) = unat sc - 128" using calculation(1) by (simp add: unat_sub word_le_nat_alt)
  ultimately have "unat (sc AND 0x7F) = unat (sc - 0x80)" using u by (simp add: le_mod_geq)
  then show "sc AND 0x7F = sc - 0x80" by (simp only: word_unat_eq_iff)
qed

lemma keyboard_handler_eq:
  "keyboard_handler (s\<lparr>kbd_data := sc\<rparr>) =
    (if sc \<in> {0xAA, 0xB6} then s\<lparr>kbd_data := sc, shift_pressed := False\<rparr>
     else if 0x80 \<le> sc then s\<lparr>kbd_data := sc\<rparr>
     else if sc \<in> {0x2A, 0x36} then s\<lparr>kbd_data := sc, shift_pressed := True\<rparr>
     else kb_put (kb_translate (shift_pressed s) sc) (s\<lparr>kbd_data := sc\<rparr>))"
proof (cases "0x80 \<le> sc")
  case True
  have "sc - 0x80 = 0x2A \<longleftrightarrow> sc = 0xAA" "sc - 0x80 = 0x36 \<longleftrightarrow> sc = 0xB6" by (auto simp: diff_eq_eq)
  then show ?thesis using True high_bit [of sc] by (auto simp: keyboard_handler_def Let_def)
next
  case False
  then show ?thesis using high_bit(1) [of sc] by (auto simp: keyboard_handler_def Let_def)
qed

lemma kb_update_simps [simp]:
  "kb_ok (s\<lparr>kbd_data := d\<rparr>) = kb_ok s" "kb_queue (s\<lparr>kbd_data := d\<rparr>) = kb_queue s" "kb_ok (s\<lparr>shift_pressed := b\<rparr>) = kb_ok s"
  "kb_queue (s\<lparr>shift_pressed := b\<rparr>) = kb_queue s" "shift_pressed (kb_put c s) = shift_pressed s"
  by (simp_all add: kb_ok_def kb_queue_def kb_len_def kb_put_def Let_def)

lemma key_interrupts_queue:
  assumes "kb_ok s"
  shows "kb_ok (key_interrupts scs s) \<and> kb_queue (key_interrupts scs s) = take 127 (kb_queue s @ typed (shift_pressed s) scs)"
  using assms
proof (induction scs arbitrary: s)
  case Nil
  then show ?case using kb_len_less [of s] by (simp add: key_interrupts_def)
next
  case (Cons sc scs)
  let ?t = "keyboard_handler (s\<lparr>kbd_data := sc\<rparr>)"
  have ok: "kb_ok ?t" using Cons.prems kb_put_queue(1) [of "s\<lparr>kbd_data := sc\<rparr>"] by (simp add: keyboard_handler_eq)
  have q: "kb_queue ?t = take 127 (kb_queue s @ (if sc \<in> {0xAA, 0xB6} \<or> 0x80 \<le> sc \<or> sc \<in> {0x2A, 0x36} \<or> kb_translate (shift_pressed s) sc = 0 then []
      else [kb_translate (shift_pressed s) sc]))"
    using Cons.prems kb_put_queue(2) [of "s\<lparr>kbd_data := sc\<rparr>"] kb_len_less [of s] by (auto simp: keyboard_handler_eq)
  have full: "take 127 (take 127 xs @ ys) = take 127 (xs @ ys)" for xs ys :: "u8 list" by (simp add: min_def)
  have "kb_queue (key_interrupts (sc # scs) s) = take 127 (kb_queue ?t @ typed (shift_pressed ?t) scs)"
    using Cons.IH [OF ok] by (simp add: key_interrupts_def)
  also have "\<dots> = take 127 (kb_queue s @ typed (shift_pressed s) (sc # scs))"
    unfolding q full by (auto simp: keyboard_handler_eq)
  finally show ?case using Cons.IH [OF ok] by (simp add: key_interrupts_def)
qed

primrec getchars :: "('a kb_state_scheme \<Rightarrow> 'a kb_state_scheme) \<Rightarrow> nat \<Rightarrow> 'a kb_state_scheme \<Rightarrow> (u8 list \<times> 'a kb_state_scheme) option" where
  "getchars hlt 0 s = Some ([], s)"
| "getchars hlt (Suc n) s = do { (c, s) \<leftarrow> tc_getchar hlt s; (cs, s) \<leftarrow> getchars hlt n s; Some (c # cs, s) }"

lemma getchars_queue:
  assumes "kb_ok s"
  shows "\<exists>t. getchars hlt (length (kb_queue s)) s = Some (kb_queue s, t) \<and> kb_ok t \<and> kb_queue t = []"
  using assms
proof (induction "kb_queue s" arbitrary: s)
  case Nil
  then show ?case by (metis getchars.simps(1) list.size(3))
next
  case (Cons c cs)
  obtain t where t: "tc_getchar hlt s = Some (c, t)" "kb_ok t" "kb_queue t = cs"
    using tc_getchar_queue [OF Cons.prems Cons.hyps(2) [symmetric]] by blast
  obtain u where "getchars hlt (length cs) t = Some (cs, u)" "kb_ok u" "kb_queue u = []" using Cons.hyps(1) [of t] t by auto
  then show ?case using t(1) by (simp add: Cons.hyps(2) [symmetric] del: length_kb_queue)
qed

text \<open>
  C24: What is typed is what is read: after interrupts for any scancodes the reader gets, in order, the waiting characters followed by those that the
  keys stand for, up to the 127 that fit.
\<close>

theorem keyboard_correct:
  assumes "kb_ok s"
  shows "\<exists>t. getchars hlt (length (take 127 (kb_queue s @ typed (shift_pressed s) scs))) (key_interrupts scs s) =
      Some (take 127 (kb_queue s @ typed (shift_pressed s) scs), t) \<and> kb_ok t \<and> \<not> tc_has_input t"
proof -
  have "kb_ok (key_interrupts scs s)" "kb_queue (key_interrupts scs s) = take 127 (kb_queue s @ typed (shift_pressed s) scs)"
    using key_interrupts_queue [OF assms] by auto
  then show ?thesis using getchars_queue [of "key_interrupts scs s" hlt] kb_queue_empty by metis
qed

definition kb_boot :: kb_state where
  "kb_boot = pic_state.extend pic_boot (kb_state.fields (replicate 128 0) 127 127 False 0)"

lemma kb_boot_simps [simp]: "kb_ok kb_boot" "kb_queue kb_boot = []" "shift_pressed kb_boot = False"
  by (simp_all add: kb_boot_def kb_ok_def kb_queue_def kb_len_def pic_state.defs kb_state.defs)

text \<open>Shift, H, release of both, i, return.\<close>

theorem keyboard_correct_witness:
  "\<exists>t. getchars (\<lambda>s. s) 3 (key_interrupts [0x2A, 0x23, 0xA3, 0xAA, 0x17, 0x97, 0x1C] kb_boot) = Some ([72, 105, 10], t) \<and> \<not> tc_has_input t"
proof -
  let ?keys = "[0x2A, 0x23, 0xA3, 0xAA, 0x17, 0x97, 0x1C]"
  have "typed False ?keys = [72, 105, 10]"
    by (simp add: kb_translate_def scancode_map_def scancode_map_shift_def ascii_def)
  then have q: "take 127 (kb_queue kb_boot @ typed (shift_pressed kb_boot) ?keys) = [72, 105, 10]"
    by (simp only: kb_boot_simps) simp
  have "length [72, 105, 10 :: u8] = 3" by simp
  then show ?thesis using keyboard_correct [OF kb_boot_simps(1), of "\<lambda>s. s" ?keys] unfolding q by metis
qed

end
