(* ===== verification/Shell.thy ===== *)
theory Shell
  imports Keyboard Ipc "HOL-Library.Sublist"
begin

text \<open>
  The kernel shell (\<^verbatim>\<open>kernel/shell.c\<close>): it edits a line of at most 127 characters, and on return runs the command that
  the line begins with. The state holds the console and keyboard, the line buffer, and the state of the shared-memory
  rings the commands go to. What the ring code itself prints is left out; \<open>dump\<close> is the text of \<open>ipc_dump_debug\<close>.
\<close>

section \<open>State and operations\<close>

record shell = kb_state +
  cmd_buf :: "u8 list"
  cmd_len :: nat
  ipc_sys :: ipc

definition shell_prompt :: "'a shell_scheme \<Rightarrow> 'a shell_scheme option" where
  "shell_prompt s = console_write (newline @ ascii ''ZE> '') s"

text \<open>The character a string pointer points at; the end of a string is its terminator.\<close>

definition deref :: "u8 list \<Rightarrow> u8" where
  "deref cs = (case cs of [] \<Rightarrow> 0 | c # _ \<Rightarrow> c)"

fun strncmp :: "u8 list \<Rightarrow> u8 list \<Rightarrow> nat \<Rightarrow> int" where
  "strncmp s1 s2 n =
     (if n > 0 \<and> deref s1 \<noteq> 0 \<and> deref s2 \<noteq> 0
      then if deref s1 \<noteq> deref s2 then sint (deref s1) - sint (deref s2) else strncmp (tl s1) (tl s2) (n - 1)
      else if n = 0 then 0 else sint (deref s1) - sint (deref s2))"

declare strncmp.simps [simp del]

definition say :: "string \<Rightarrow> 'a shell_scheme \<Rightarrow> 'a shell_scheme option" where
  "say msg = console_write (ascii msg @ newline)"

definition shell_send :: "u16 \<Rightarrow> u32 \<Rightarrow> string \<Rightarrow> string \<Rightarrow> 'a shell_scheme \<Rightarrow> 'a shell_scheme option" where
  "shell_send cmd payload sent failed s = do {
     (r, i) \<leftarrow> ipc_send cmd payload (ipc_sys s);
     say (if r = 0 then sent else failed) (s\<lparr>ipc_sys := i\<rparr>)
   }"

definition run_help :: "'a shell_scheme \<Rightarrow> 'a shell_scheme option" where
  "run_help s = do {
     s \<leftarrow> say ''Available commands:'' s;
     s \<leftarrow> say ''  help    - Show this message'' s;
     s \<leftarrow> say ''  cls     - Clear screen'' s;
     s \<leftarrow> say ''  ping    - Send IPC PING to Bridge'' s;
     s \<leftarrow> say ''  model <id> - Send IPC RUN_MODEL (id=0-9)'' s;
     say ''  ipc     - Show IPC debug stats'' s
   }"

definition run_model :: "u8 list \<Rightarrow> 'a shell_scheme \<Rightarrow> 'a shell_scheme option" where
  "run_model cmd s =
     (let arg = dropWhile (\<lambda>c. c = 32) (drop 5 cmd)
      in if sint (deref arg) \<ge> 48 \<and> sint (deref arg) \<le> 57
         then do {
           s \<leftarrow> console_write (ascii ''Running Model ID: '') s;
           s \<leftarrow> console_write [deref arg] s;
           s \<leftarrow> say ''...'' s;
           shell_send 0x0004 (scast (deref arg) - 48) ''Request sent.'' ''Failed.'' s
         }
         else say ''Usage: model <id> (0-9)'' s)"

definition run_command :: "(ipc \<Rightarrow> u8 list) \<Rightarrow> 'a shell_scheme \<Rightarrow> 'a shell_scheme option" where
  "run_command dump s =
     (if cmd_len s = 0 then Some s
      else let cmd = dropWhile (\<lambda>c. c = 32) (c_str (cmd_buf s))
           in if deref cmd = 0 then Some s
              else if strncmp cmd (ascii ''help'') 4 = 0 then run_help s
              else if strncmp cmd (ascii ''cls'') 3 = 0 then Some (console_cls s)
              else if strncmp cmd (ascii ''ping'') 4 = 0
              then do {
                s \<leftarrow> say ''Sending CMD_PING...'' s;
                shell_send 0x0001 0 ''Sent.'' ''Failed to send (ring full?).'' s
              }
              else if strncmp cmd (ascii ''ipc'') 3 = 0 then console_write (dump (ipc_sys s)) s
              else if strncmp cmd (ascii ''model'') 5 = 0 then run_model cmd s
              else do {
                s \<leftarrow> console_write (ascii ''Unknown command: '') s;
                s \<leftarrow> console_write cmd s;
                console_write newline s
              })"

definition shell_key :: "(ipc \<Rightarrow> u8 list) \<Rightarrow> u8 \<Rightarrow> 'a shell_scheme \<Rightarrow> 'a shell_scheme option" where
  "shell_key dump c s =
     (if c = 10
      then do {
        s \<leftarrow> console_putc 10 s;
        let s = s\<lparr>cmd_buf := (cmd_buf s)[cmd_len s := 0]\<rparr>;
        s \<leftarrow> run_command dump s;
        shell_prompt (s\<lparr>cmd_len := 0\<rparr>)
      }
      else if c = 8
      then if cmd_len s > 0 then console_putc 8 (s\<lparr>cmd_len := cmd_len s - 1\<rparr>) else Some s
      else if cmd_len s < 127
      then console_putc c (s\<lparr>cmd_buf := (cmd_buf s)[cmd_len s := c], cmd_len := cmd_len s + 1\<rparr>)
      else Some s)"

text \<open>One round of the endless loop, up to the halt; \<open>other\<close> is what the peer does to the shared memory during a poll.\<close>

definition shell_round :: "(mem \<Rightarrow> mem) \<Rightarrow> (ipc \<Rightarrow> u8 list) \<Rightarrow> 'a shell_scheme \<Rightarrow> 'a shell_scheme option" where
  "shell_round other dump s = do {
     i \<leftarrow> ipc_consume_one (ipc_sys s);
     i \<leftarrow> drain_responses other i;
     let s = s\<lparr>ipc_sys := i\<rparr>;
     if tc_has_input s
     then do {
       (c, s) \<leftarrow> tc_getchar (\<lambda>s. s) s;
       shell_key dump c s
     }
     else Some s
   }"

definition shell_banner :: "'a shell_scheme \<Rightarrow> 'a shell_scheme option" where
  "shell_banner s = do {
     s \<leftarrow> console_write (newline @ ascii ''ZENEDGE Kernel Shell (ksh)'' @ newline @ ascii ''Type '' @ [39] @ ascii ''help'' @ [39] @ ascii '' for commands.'' @ newline) s;
     shell_prompt s
   }"

text \<open>\<open>n\<close> rounds of the loop; \<open>hlt\<close> is what happens until the processor continues behind the halt.\<close>

primrec shell_start :: "nat \<Rightarrow> ('a shell_scheme \<Rightarrow> 'a shell_scheme) \<Rightarrow> (mem \<Rightarrow> mem) \<Rightarrow> (ipc \<Rightarrow> u8 list) \<Rightarrow> 'a shell_scheme \<Rightarrow> 'a shell_scheme option" where
  "shell_start 0 hlt other dump s = shell_banner s"
| "shell_start (Suc n) hlt other dump s = shell_start n hlt other dump s \<bind> (\<lambda>s. map_option hlt (shell_round other dump s))"

section \<open>Commands\<close>

datatype command = Nothing | Help | Cls | Ping | Dump | Model u32 | Model_usage | Unknown "u8 list"

definition parse :: "u8 list \<Rightarrow> command" where
  "parse line =
     (let cmd = dropWhile (\<lambda>c. c = 32) line
      in if cmd = [] then Nothing
         else if prefix (ascii ''help'') cmd then Help
         else if prefix (ascii ''cls'') cmd then Cls
         else if prefix (ascii ''ping'') cmd then Ping
         else if prefix (ascii ''ipc'') cmd then Dump
         else if prefix (ascii ''model'') cmd
         then (case dropWhile (\<lambda>c. c = 32) (drop 5 cmd) of
                 [] \<Rightarrow> Model_usage
               | c # _ \<Rightarrow> if 48 \<le> c \<and> c \<le> 57 then Model (ucast c - 48) else Model_usage)
         else Unknown cmd)"

lemma strncmp_prefix:
  assumes "0 \<notin> set cs" "0 \<notin> set lit"
  shows "strncmp cs lit (length lit) = 0 \<longleftrightarrow> prefix lit cs"
  using assms
proof (induction lit arbitrary: cs)
  case Nil
  then show ?case by (subst strncmp.simps) simp
next
  case (Cons a lit)
  show ?case
  proof (cases cs)
    case Nil
    have "sint a \<noteq> 0" using Cons.prems(2) word_eq_iff_signed [of a 0] by auto
    then show ?thesis using Nil by (subst strncmp.simps) (simp add: deref_def)
  next
    case (Cons b bs)
    have "b \<noteq> 0" "0 \<notin> set bs" "a \<noteq> 0" using \<open>0 \<notin> set cs\<close> Cons Cons.prems \<open>0 \<notin> set (a # lit)\<close> by auto
    moreover have "sint b - sint a \<noteq> 0" if "b \<noteq> a" using that word_eq_iff_signed [of b a] by simp
    ultimately show ?thesis using Cons.IH [of bs] \<open>0 \<notin> set (a # lit)\<close> Cons
      by (subst strncmp.simps) (auto simp: deref_def)
  qed
qed

lemma command_names:
  "0 \<notin> set (ascii ''help'')" "0 \<notin> set (ascii ''cls'')" "0 \<notin> set (ascii ''ping'')" "0 \<notin> set (ascii ''ipc'')" "0 \<notin> set (ascii ''model'')"
  "length (ascii ''help'') = 4" "length (ascii ''cls'') = 3" "length (ascii ''ping'') = 4" "length (ascii ''ipc'') = 3" "length (ascii ''model'') = 5"
  by (simp_all add: ascii_def)

lemma digit_range: "(48 \<le> sint c \<and> sint c \<le> 57) = (48 \<le> c \<and> c \<le> 57)" for c :: u8
proof (cases "32 \<le> sint c")
  case True
  then have "c < 128" by (simp add: sint_printable)
  then have "uint c < 128" by (simp add: word_less_def)
  moreover have "- 128 \<le> uint c" by (rule order_trans [of _ 0]) simp_all
  ultimately have "sint c = uint c" by (simp add: sint_uint signed_take_bit_int_eq_self_iff)
  then show ?thesis by (simp add: word_le_def)
next
  case False
  then have "\<not> (32 \<le> c \<and> c < 128)" by (simp add: sint_printable)
  then have "\<not> (48 \<le> c \<and> c \<le> 57)" by (auto simp: word_le_nat_alt word_less_nat_alt)
  then show ?thesis using False by auto
qed

lemma digit_scast: "48 \<le> c \<Longrightarrow> c \<le> 57 \<Longrightarrow> (scast c :: u32) = ucast c" for c :: u8
proof -
  assume c: "48 \<le> c" "c \<le> 57"
  then have "uint c < 128" by (simp add: word_le_def)
  moreover have "- 128 \<le> uint c" by (rule order_trans [of _ 0]) simp_all
  ultimately have "sint c = uint c" by (simp add: sint_uint signed_take_bit_int_eq_self_iff)
  then show "(scast c :: u32) = ucast c" by (metis of_int_sint of_int_uint)
qed

definition perform :: "(ipc \<Rightarrow> u8 list) \<Rightarrow> command \<Rightarrow> 'a shell_scheme \<Rightarrow> 'a shell_scheme option" where
  "perform dump cmd s =
     (case cmd of
        Nothing \<Rightarrow> Some s
      | Help \<Rightarrow> run_help s
      | Cls \<Rightarrow> Some (console_cls s)
      | Ping \<Rightarrow> say ''Sending CMD_PING...'' s \<bind> shell_send 1 0 ''Sent.'' ''Failed to send (ring full?).''
      | Dump \<Rightarrow> console_write (dump (ipc_sys s)) s
      | Model d \<Rightarrow> do {
          s \<leftarrow> console_write (ascii ''Running Model ID: '') s;
          s \<leftarrow> console_write [ucast (d + 48)] s;
          s \<leftarrow> say ''...'' s;
          shell_send 4 d ''Request sent.'' ''Failed.'' s
        }
      | Model_usage \<Rightarrow> say ''Usage: model <id> (0-9)'' s
      | Unknown cs \<Rightarrow> do {
          s \<leftarrow> console_write (ascii ''Unknown command: '') s;
          s \<leftarrow> console_write cs s;
          console_write newline s
        })"

definition line :: "'a shell_scheme \<Rightarrow> u8 list" where
  "line s = take (cmd_len s) (cmd_buf s)"

lemma run_model_parse:
  "run_model cmd s = perform dump (case dropWhile (\<lambda>c. c = 32) (drop 5 cmd) of [] \<Rightarrow> Model_usage
     | c # _ \<Rightarrow> if 48 \<le> c \<and> c \<le> 57 then Model (ucast c - 48) else Model_usage) s"
proof (cases "dropWhile (\<lambda>c. c = 32) (drop 5 cmd)")
  case (Cons c cs)
  have "(ucast (ucast c - 48 + 48 :: u32) :: u8) = c" by simp (rule bit_word_eqI, simp add: bit_simps)
  then show ?thesis using Cons digit_range [of c] digit_scast [of c] by (auto simp: run_model_def perform_def deref_def Let_def)
next
  case Nil
  show ?thesis unfolding run_model_def Let_def Nil by (simp add: perform_def deref_def)
qed

lemma run_command_parse:
  assumes "cmd_len s < length (cmd_buf s)" "cmd_buf s ! cmd_len s = 0" "0 \<notin> set (line s)"
  shows "run_command dump s = perform dump (parse (line s)) s"
proof -
  have "cmd_buf s = line s @ 0 # drop (Suc (cmd_len s)) (cmd_buf s)"
    using id_take_nth_drop [OF assms(1)] assms(2) by (simp add: line_def)
  then have c: "c_str (cmd_buf s) = line s" using assms(3) unfolding c_str_def
    by (metis (mono_tags, lifting) append.right_neutral takeWhile.simps(2) takeWhile_append2)
  define cmd where "cmd = dropWhile (\<lambda>c. c = 32) (line s)"
  have z: "0 \<notin> set cmd" using assms(3) set_dropWhileD by (fastforce simp: cmd_def)
  have d: "deref cmd = 0 \<longleftrightarrow> cmd = []" using z by (cases cmd) (auto simp: deref_def)
  note p = strncmp_prefix [OF z command_names(1), unfolded command_names] strncmp_prefix [OF z command_names(2), unfolded command_names]
    strncmp_prefix [OF z command_names(3), unfolded command_names] strncmp_prefix [OF z command_names(4), unfolded command_names]
    strncmp_prefix [OF z command_names(5), unfolded command_names]
  have "cmd = []" if "cmd_len s = 0" using that by (simp add: cmd_def line_def)
  then show ?thesis
    unfolding run_command_def parse_def Let_def c cmd_def [symmetric] d p run_model_parse [of cmd _ dump] by (auto simp: perform_def)
qed

section \<open>Editing and running a line\<close>

text \<open>Output leaves everything but the console as it is.\<close>

definition prints :: "'a shell_scheme \<Rightarrow> 'a shell_scheme \<Rightarrow> bool" where
  "prints s t \<longleftrightarrow> console_ok t \<and> serial_ready t \<and> console.more t = console.more s"

lemma prints_fields:
  assumes "prints s t"
  shows "cmd_buf t = cmd_buf s" "cmd_len t = cmd_len s" "ipc_sys t = ipc_sys s" "line t = line s" "kb_queue t = kb_queue s" "kb_ok t = kb_ok s"
proof -
  have "console.more t = console.more s" using assms by (simp add: prints_def)
  then have "cmd_buf t = cmd_buf s \<and> cmd_len t = cmd_len s \<and> ipc_sys t = ipc_sys s \<and> kb_buffer t = kb_buffer s \<and> kb_head t = kb_head s \<and> kb_tail t = kb_tail s"
    by (cases s; cases t) simp
  then show "cmd_buf t = cmd_buf s" "cmd_len t = cmd_len s" "ipc_sys t = ipc_sys s" "line t = line s" "kb_queue t = kb_queue s" "kb_ok t = kb_ok s"
    by (simp_all add: line_def kb_queue_def kb_len_def kb_ok_def)
qed

lemma prints_trans: "prints s t \<Longrightarrow> prints t u \<Longrightarrow> prints s u"
  by (simp add: prints_def)

lemma write_prints:
  assumes "console_ok s" "serial_ready s"
  shows "\<exists>t. console_write cs s = Some t \<and> prints s t"
  using console_write_spec [OF assms, of cs] by (auto simp: prints_def)

lemma putc_prints:
  assumes "console_ok s" "serial_ready s"
  shows "\<exists>t. console_putc c s = Some t \<and> prints s t"
proof -
  obtain t where "console_putc c s = Some t" "console_ok t" "serial_ready t" "console.more t = console.more s"
    by (rule console_putc_spec [OF assms, of c])
  then show ?thesis by (auto simp: prints_def)
qed

text \<open>A sequence of output steps, as the commands make them.\<close>

lemma bind_prints:
  assumes "\<exists>t. f s = Some t \<and> prints s t" "\<And>t. prints s t \<Longrightarrow> \<exists>u. g t = Some u \<and> prints t u"
  shows "\<exists>u. f s \<bind> g = Some u \<and> prints s u"
  using assms prints_trans by fastforce

lemma say_prints: "console_ok s \<Longrightarrow> serial_ready s \<Longrightarrow> \<exists>t. say msg s = Some t \<and> prints s t"
  unfolding say_def by (rule write_prints)

lemma prints_ready: "prints s t \<Longrightarrow> console_ok t" "prints s t \<Longrightarrow> serial_ready t"
  by (simp_all add: prints_def)

lemma help_prints:
  assumes "console_ok s" "serial_ready s"
  shows "\<exists>t. run_help s = Some t \<and> prints s t"
  unfolding run_help_def by (intro bind_prints say_prints assms) (auto intro: prints_ready)

lemma unknown_prints:
  assumes "console_ok s" "serial_ready s"
  shows "\<exists>t. console_write a s \<bind> (\<lambda>s. console_write b s \<bind> console_write c) = Some t \<and> prints s t"
  by (intro bind_prints write_prints assms) (auto intro: prints_ready)

lemma cls_prints:
  assumes "console_ok s" "serial_ready s"
  shows "prints s (console_cls s)"
  using assms by (simp add: prints_def console_cls_def console_ok_def serial_ready_def serial_init_def Console.outb_def Let_def)

text \<open>The command ring before and after a send: one packet more, or full and unchanged.\<close>

definition sent :: "u16 \<Rightarrow> u32 \<Rightarrow> ipc \<Rightarrow> ipc \<Rightarrow> bool" where
  "sent cmd payload i j \<longleftrightarrow>
     (if length (cmd_queue (shm i)) = 1023 then j = i
      else ipc_up j \<and> cmd_ok (shm j) \<and> cmd_queue (shm j) = cmd_queue (shm i) @
        [\<lparr>pk_cmd = cmd, pk_flags = 0, pk_payload_id = payload, pk_timestamp = fst (time_usec i)\<rparr>])"

definition effect :: "command \<Rightarrow> ipc \<Rightarrow> ipc \<Rightarrow> bool" where
  "effect cmd i j = (case cmd of Ping \<Rightarrow> sent 1 0 i j | Model d \<Rightarrow> sent 4 d i j | _ \<Rightarrow> j = i)"

lemma shell_send_spec:
  assumes "console_ok s" "serial_ready s" "ipc_up (ipc_sys s)" "cmd_ok (shm (ipc_sys s))"
  shows "\<exists>t j. shell_send cmd payload a b s = Some t \<and> prints (s\<lparr>ipc_sys := j\<rparr>) t \<and> sent cmd payload (ipc_sys s) j"
proof -
  obtain r j where j: "ipc_send cmd payload (ipc_sys s) = Some (r, j)" "sent cmd payload (ipc_sys s) j"
    using ipc_send_flags_spec [OF assms(3,4), of cmd payload 0] ipc_send_flags_frame [of cmd payload 0 "ipc_sys s"] assms(3)
    by (fastforce simp: ipc_send_def sent_def split: if_splits)
  have "console_ok (s\<lparr>ipc_sys := j\<rparr>)" "serial_ready (s\<lparr>ipc_sys := j\<rparr>)" using assms(1,2) by (simp_all add: console_ok_def serial_ready_def)
  from say_prints [OF this, of "if r = 0 then a else b"] j show ?thesis by (auto simp: shell_send_def)
qed

lemma perform_spec:
  assumes "console_ok s" "serial_ready s" "ipc_up (ipc_sys s)" "cmd_ok (shm (ipc_sys s))"
  shows "\<exists>t j. perform dump cmd s = Some t \<and> prints (s\<lparr>ipc_sys := j\<rparr>) t \<and> effect cmd (ipc_sys s) j"
proof -
  have same: "\<exists>t j. f = Some t \<and> prints (s\<lparr>ipc_sys := j\<rparr>) t \<and> j = ipc_sys s" if "\<exists>t. f = Some t \<and> prints s t" for f
    using that by auto
  have send: "\<exists>v j. f \<bind> shell_send c p a b = Some v \<and> prints (s\<lparr>ipc_sys := j\<rparr>) v \<and> sent c p (ipc_sys s) j"
    if "\<exists>t. f = Some t \<and> prints s t" for f c p a b
  proof -
    from that obtain t where t: "f = Some t" "prints s t" by blast
    have "ipc_up (ipc_sys t)" "cmd_ok (shm (ipc_sys t))" using assms(3,4) prints_fields(3) [OF t(2)] by simp_all
    from shell_send_spec [OF prints_ready [OF t(2)] this, of c p a b] obtain u j where
      u: "shell_send c p a b t = Some u" "prints (t\<lparr>ipc_sys := j\<rparr>) u" "sent c p (ipc_sys t) j" by blast
    have "console.more (t\<lparr>ipc_sys := j\<rparr>) = console.more (s\<lparr>ipc_sys := j\<rparr>)" using t(2) by (cases s; cases t) (simp add: prints_def)
    then have "prints (s\<lparr>ipc_sys := j\<rparr>) u" using u(2) by (simp add: prints_def)
    then show ?thesis using t u prints_fields(3) [OF t(2)] by auto
  qed
  have model: "\<exists>t. console_write a s \<bind> (\<lambda>s. console_write b s \<bind> say c) = Some t \<and> prints s t" for a b c
    unfolding say_def by (rule unknown_prints [OF assms(1,2)])
  show ?thesis
  proof (cases cmd)
    case Nothing
    then show ?thesis using same [of "Some s"] assms by (simp add: perform_def effect_def prints_def)
  next
    case Help
    then show ?thesis using same [OF help_prints [OF assms(1,2)]] by (simp add: perform_def effect_def)
  next
    case Cls
    then show ?thesis using same [of "Some (console_cls s)"] cls_prints [OF assms(1,2)] by (simp add: perform_def effect_def)
  next
    case Ping
    then show ?thesis using send [OF say_prints [OF assms(1,2)]] by (simp add: perform_def effect_def)
  next
    case Dump
    then show ?thesis using same [OF write_prints [OF assms(1,2)]] by (simp add: perform_def effect_def)
  next
    case (Model d)
    then show ?thesis using send [OF model [of "ascii ''Running Model ID: ''" "[ucast (d + 48)]" "''...''"], of 4 d]
      by (simp add: perform_def effect_def bind_assoc del: console_write.simps)
  next
    case Model_usage
    then show ?thesis using same [OF say_prints [OF assms(1,2)]] by (simp add: perform_def effect_def)
  next
    case (Unknown cs)
    then show ?thesis using same [OF unknown_prints [OF assms(1,2)]] by (simp add: perform_def effect_def)
  qed
qed

definition edit :: "u8 \<Rightarrow> u8 list \<Rightarrow> u8 list" where
  "edit c l = (if c = 8 then butlast l else if length l < 127 then l @ [c] else l)"

definition shell_ok :: "'a shell_scheme \<Rightarrow> bool" where
  "shell_ok s \<longleftrightarrow> console_ok s \<and> serial_ready s \<and> length (cmd_buf s) = 128 \<and> cmd_len s \<le> 127 \<and> 0 \<notin> set (line s) \<and>
     ipc_up (ipc_sys s) \<and> cmd_ok (shm (ipc_sys s))"

lemma shell_key_edit:
  assumes ok: "shell_ok s" and c: "c \<noteq> 10" "c \<noteq> 0"
  shows "\<exists>t. shell_key dump c s = Some t \<and> shell_ok t \<and> line t = edit c (line s) \<and> ipc_sys t = ipc_sys s"
proof -
  have len: "length (line s) = cmd_len s" using ok by (simp add: shell_ok_def line_def)
  define u where "u = (if c = 8 then (if cmd_len s > 0 then s\<lparr>cmd_len := cmd_len s - 1\<rparr> else s)
    else if cmd_len s < 127 then s\<lparr>cmd_buf := (cmd_buf s)[cmd_len s := c], cmd_len := cmd_len s + 1\<rparr> else s)"
  have "take (Suc n) (xs[n := c]) = take n xs @ [c]" if "n < length xs" for n and xs :: "u8 list"
    using that by (simp add: take_Suc_conv_app_nth)
  then have lu: "line u = edit c (line s)"
    using ok len by (auto simp: u_def line_def edit_def shell_ok_def butlast_take)
  have "0 \<notin> set (edit c (line s))" using ok c by (auto simp: edit_def shell_ok_def dest: in_set_butlastD)
  then have uok: "shell_ok u" "ipc_sys u = ipc_sys s" using ok lu
    by (auto simp: shell_ok_def u_def console_ok_def serial_ready_def)
  have "\<exists>t. shell_key dump c s = Some t \<and> prints u t"
    using putc_prints [of u c] uok(1) c ok unfolding shell_key_def u_def shell_ok_def prints_def by auto
  then obtain t where t: "shell_key dump c s = Some t" "prints u t" by blast
  then show ?thesis using uok lu prints_fields [OF t(2)] by (auto simp: shell_ok_def prints_def)
qed

lemma shell_key_return:
  assumes ok: "shell_ok s"
  shows "\<exists>t. shell_key dump 10 s = Some t \<and> shell_ok t \<and> line t = [] \<and> effect (parse (line s)) (ipc_sys s) (ipc_sys t)"
proof -
  have ok': "console_ok s" "serial_ready s" using ok by (simp_all add: shell_ok_def)
  obtain a where a: "console_putc 10 s = Some a" "prints s a" using putc_prints [OF ok'] by blast
  let ?b = "a\<lparr>cmd_buf := (cmd_buf a)[cmd_len a := 0]\<rparr>"
  note fa = prints_fields [OF a(2)]
  have b: "line ?b = line s" "ipc_sys ?b = ipc_sys s" "cmd_len ?b < length (cmd_buf ?b)" "cmd_buf ?b ! cmd_len ?b = 0"
    "console_ok ?b" "serial_ready ?b"
    using fa ok prints_ready [OF a(2)] by (auto simp: line_def shell_ok_def console_ok_def serial_ready_def)
  have "run_command dump ?b = perform dump (parse (line s)) ?b"
    using run_command_parse [OF b(3,4), of dump] b(1) ok by (simp add: shell_ok_def)
  moreover obtain c j where c: "perform dump (parse (line s)) ?b = Some c" "prints (?b\<lparr>ipc_sys := j\<rparr>) c" "effect (parse (line s)) (ipc_sys s) j"
    using perform_spec [OF b(5,6), of dump "parse (line s)"] ok b(2) by (auto simp: shell_ok_def)
  have d: "console_ok (c\<lparr>cmd_len := 0\<rparr>)" "serial_ready (c\<lparr>cmd_len := 0\<rparr>)"
    using prints_ready [OF c(2)] by (auto simp: console_ok_def serial_ready_def)
  obtain t where t: "shell_prompt (c\<lparr>cmd_len := 0\<rparr>) = Some t" "prints (c\<lparr>cmd_len := 0\<rparr>) t"
    using write_prints [OF d] unfolding shell_prompt_def by blast
  have i: "ipc_sys t = j" using prints_fields(3) [OF t(2)] prints_fields(3) [OF c(2)] by simp
  have "ipc_up j \<and> cmd_ok (shm j)"
    using c(3) ok by (auto simp: effect_def sent_def shell_ok_def split: command.splits if_splits)
  moreover have "line t = []" "length (cmd_buf t) = 128" "cmd_len t = 0"
    using prints_fields [OF t(2)] prints_fields [OF c(2)] fa ok by (auto simp: line_def shell_ok_def)
  ultimately have "shell_ok t" using i prints_ready [OF t(2)] by (simp add: shell_ok_def)
  moreover have "shell_key dump 10 s = Some t" using a c(1) t(1) calculation(1) \<open>run_command dump ?b = _\<close> by (simp add: shell_key_def)
  ultimately show ?thesis using \<open>line t = []\<close> i c(3) by auto
qed

fun shell_keys :: "(ipc \<Rightarrow> u8 list) \<Rightarrow> u8 list \<Rightarrow> 'a shell_scheme \<Rightarrow> 'a shell_scheme option" where
  "shell_keys dump [] s = Some s"
| "shell_keys dump (c # cs) s = shell_key dump c s \<bind> shell_keys dump cs"

lemma shell_keys_line:
  assumes "shell_ok s" "10 \<notin> set cs" "0 \<notin> set cs"
  shows "\<exists>t. shell_keys dump (cs @ ks) s = shell_keys dump ks t \<and> shell_ok t \<and> line t = fold edit cs (line s) \<and> ipc_sys t = ipc_sys s"
  using assms
proof (induction cs arbitrary: s)
  case Nil
  then show ?case by auto
next
  case (Cons c cs)
  obtain t where t: "shell_key dump c s = Some t" "shell_ok t" "line t = edit c (line s)" "ipc_sys t = ipc_sys s"
    using shell_key_edit [OF Cons.prems(1), of c dump] Cons.prems by auto
  then show ?case using Cons.IH [OF t(2)] Cons.prems by auto
qed


definition shell_boot :: shell where
  "shell_boot = kb_state.extend kb_boot (shell.fields (replicate 128 0) 0 boot_ipc)"

lemma shell_boot_ok: "shell_ok shell_boot" "line shell_boot = []" "ipc_sys shell_boot = boot_ipc"
proof -
  note defs = shell_boot_def kb_boot_def pic_boot_def idt_boot_def console_boot_def shell.defs kb_state.defs pic_state.defs idt_state.defs
    console.defs Let_def
  show l: "line shell_boot = []" "ipc_sys shell_boot = boot_ipc" by (simp_all add: line_def defs)
  have "console_ok shell_boot" "serial_ready shell_boot" by (auto simp: console_ok_def serial_ready_def defs)
  moreover have "length (cmd_buf shell_boot) = 128" "cmd_len shell_boot = 0" by (simp_all add: defs)
  ultimately show "shell_ok shell_boot" using l boot_ipc_ok by (simp add: shell_ok_def)
qed


end
