(* ===== verification/Syscall.thy ===== *)
theory Syscall
  imports Context_Switch Ipc Descriptors
begin

text \<open>
  System calls (\<^verbatim>\<open>kernel/arch/syscall.c\<close>, with \<open>heap_get_blob_phys\<close> of \<^verbatim>\<open>kernel/ipc/heap.c\<close>). The handler of vector 128 reads the
  call number and its argument from the saved registers. Its state is that of processes and address spaces, with the
  shared heap, the console and the bump pointer for tensor mappings beside it. Diagnostic messages are left out; what
  \<open>sys_log\<close> prints is its effect and is modelled.
\<close>

section \<open>Operations\<close>

record sysc = psys +
  sc_heap :: ipc
  sc_console :: idt_state
  heap_data_addr :: u32
  next_map_addr :: u32

definition heap_get_blob_phys :: "u16 \<Rightarrow> 'a sysc_scheme \<Rightarrow> (u32 \<times> 'a sysc_scheme) option" where
  "heap_get_blob_phys blob_id s = do {
     (blob, h) \<leftarrow> heap_get_blob blob_id (sc_heap s);
     let s = s\<lparr>sc_heap := h\<rparr>;
     (case blob of
        None \<Rightarrow> Some (0, s)
      | Some off \<Rightarrow> do {
          pa \<leftarrow> vmm_virt_to_phys (heap_data_addr s + blob_offset_at (shm h) off) s;
          Some (pa, s)
        })
   }"

definition sys_map_tensor :: "u16 \<Rightarrow> 'a sysc_scheme \<Rightarrow> (u32 \<times> 'a sysc_scheme) option" where
  "sys_map_tensor blob_id s = do {
     (phys_addr, s) \<leftarrow> heap_get_blob_phys blob_id s;
     if phys_addr = 0 then Some (0, s)
     else do {
       (size, h) \<leftarrow> heap_get_blob_size blob_id (sc_heap s);
       let s = s\<lparr>sc_heap := h\<rparr>;
       let vaddr = next_map_addr s;
       (r, s) \<leftarrow> vmm_map_range vaddr phys_addr size 0x07 s;
       if r \<noteq> 0 then Some (0, s)
       else do {
         let pages = (size + PAGE_SIZE - 1) div PAGE_SIZE;
         Some (vaddr, s\<lparr>next_map_addr := next_map_addr s + pages * PAGE_SIZE\<rparr>)
       }
     }
   }"

text \<open>The characters from a virtual address to a terminator; a fault or no terminator gives no result.\<close>

partial_function (option) read_string :: "u32 \<Rightarrow> 'a vmm_scheme \<Rightarrow> u8 list option" where
  "read_string va s = do {
     pa \<leftarrow> mmu s va;
     let c = pmem s (unat pa);
     if c = 0 then Some []
     else do {
       cs \<leftarrow> read_string (va + 1) s;
       Some (c # cs)
     }
   }"

definition sys_log :: "u32 \<Rightarrow> 'a sysc_scheme \<Rightarrow> 'a sysc_scheme option" where
  "sys_log msg s = do {
     text \<leftarrow> read_string msg s;
     c \<leftarrow> console_write (ascii ''[USER] '') (sc_console s);
     c \<leftarrow> console_write text c;
     c \<leftarrow> console_write newline c;
     Some (s\<lparr>sc_console := c\<rparr>)
   }"

definition sys_yield :: "u32 \<Rightarrow> 'a sysc_scheme \<Rightarrow> 'a sysc_scheme option" where
  "sys_yield ret_addr s = schedule ret_addr s"

partial_function (option) sys_exit :: "u32 \<Rightarrow> 'a sysc_scheme \<Rightarrow> 'a sysc_scheme option" where
  "sys_exit ret_addr s = schedule ret_addr s \<bind> sys_exit ret_addr"

definition syscall_handler :: "u32 \<Rightarrow> interrupt_frame \<times> 'a sysc_scheme \<Rightarrow> (interrupt_frame \<times> 'a sysc_scheme) option" where
  "syscall_handler ret_addr = (\<lambda>(frame, s).
     let syscall_num = f_eax frame
     in if syscall_num = 0 then map_option (Pair frame) (sys_exit ret_addr s)
        else if syscall_num = 1 then map_option (Pair frame) (sys_log (f_ebx frame) s)
        else if syscall_num = 2 then map_option (Pair frame) (sys_yield ret_addr s)
        else if syscall_num = 3
        then do {
          (r, s) \<leftarrow> sys_map_tensor (ucast (f_ebx frame)) s;
          Some (frame\<lparr>f_eax := r\<rparr>, s)
        }
        else Some (frame, s))"

definition syscall_init :: "u32 \<Rightarrow> 'a sysc_scheme \<Rightarrow> 'a sysc_scheme" where
  "syscall_init syscall_handler_addr s =
     s\<lparr>sc_console := idt_register_handler (of_nat INT_SYSCALL) syscall_handler_addr (sc_console s)\<rparr>"

section \<open>Exit\<close>

text \<open>
  \<open>sys_exit\<close> never returns to the user, but it also never marks the process as terminated or takes it out of the ring: it only gives up its turns.
\<close>

lemma sys_exit_never_returns: "sys_exit ret_addr s = None"
proof -
  have "False" if "sys_exit ret_addr s = Some t" for t
    by (rule sys_exit.raw_induct [where P = "\<lambda>r s t. False", OF _ that]) (auto split: bind_splits)
  then show ?thesis by (cases "sys_exit ret_addr s") auto
qed

section \<open>Mapping a tensor\<close>

lemma unknown_blob:
  assumes "heap_get_blob blob_id (sc_heap s) = Some (None, h)"
  shows "sys_map_tensor blob_id s = Some (0, s\<lparr>sc_heap := h\<rparr>)"
  using assms by (simp add: sys_map_tensor_def heap_get_blob_phys_def)

lemma vm_frame [simp]:
  "mmu (s\<lparr>sc_heap := h\<rparr>) = mmu s" "mmu (s\<lparr>next_map_addr := a\<rparr>) = mmu s" "pmem (s\<lparr>sc_heap := h\<rparr>) = pmem s"
  "active_pd (s\<lparr>sc_heap := h\<rparr>) = active_pd s"
  by (simp_all add: mmu_def active_pd_def fun_eq_iff split: option.splits)

text \<open>The tensor \<open>blob_id\<close> is in the table of this side, and its first byte has the physical address \<open>pa\<close>.\<close>

definition tensor_at :: "u16 \<Rightarrow> u32 \<Rightarrow> u32 \<Rightarrow> 'a sysc_scheme \<Rightarrow> bool" where
  "tensor_at blob_id off pa s \<longleftrightarrow>
     heap_up (sc_heap s) \<and> blob_id \<noteq> 0 \<and> cached_blob blob_id (sc_heap s) = Some off \<and>
     vmm_virt_to_phys (heap_data_addr s + blob_offset_at (shm (sc_heap s)) off) s = Some pa \<and> pa \<noteq> 0"

definition tensor_pages :: "u32 \<Rightarrow> 'a sysc_scheme \<Rightarrow> nat" where
  "tensor_pages off s = unat ((blob_size_at (shm (sc_heap s)) off + PAGE_SIZE - 1) div PAGE_SIZE)"

text \<open>The next addresses are free for mappings of \<open>n\<close> pages.\<close>

definition bump_ok :: "nat \<Rightarrow> 'a sysc_scheme \<Rightarrow> bool" where
  "bump_ok n s \<longleftrightarrow> vm_wf s \<and> aligned (next_map_addr s) \<and> unat (next_map_addr s) + 4096 * n \<le> 2 ^ 32 \<and>
     (\<forall>v. unat (next_map_addr s) \<le> unat v \<and> unat v < unat (next_map_addr s) + 4096 * n \<longrightarrow>
        \<not> large_pde (pde (pmem s) (active_pd s) (PDE_INDEX v)))"

lemma page_masks: "NOT (PAGE_SIZE - 1) = (0xFFFFF000 :: u32)" "x AND 0xFFFFF000 = PTE_ADDR x"
  by (simp_all add: PAGE_SIZE_def PTE_ADDR_def)

lemma sys_map_tensor_spec:
  assumes "tensor_at blob_id off pa s" "bump_ok (tensor_pages off s) s"
  shows "\<exists>r t. sys_map_tensor blob_id s = Some (r, t) \<and>
    (r = next_map_addr s \<and> mmu t = range_view (next_map_addr s) (PTE_ADDR pa) (tensor_pages off s) (mmu s) \<or>
     r = 0 \<and> (\<exists>k < tensor_pages off s. mmu t = range_view (next_map_addr s) (PTE_ADDR pa) k (mmu s)))"
proof -
  let ?size = "blob_size_at (shm (sc_heap s)) off"
  have g: "heap_get_blob blob_id (sc_heap s) = Some (Some off, sc_heap s)"
    using assms(1) by (simp add: tensor_at_def heap_get_blob_def)
  have al: "PTE_ADDR (next_map_addr s) = next_map_addr s" using assms(2) by (simp add: bump_ok_def aligned_def)
  have "\<exists>r t. vmm_map_range (next_map_addr s) pa ?size 7 s = Some (r, t) \<and> vm_wf t \<and>
    (r = 0 \<and> mmu t = range_view (next_map_addr s) (PTE_ADDR pa) (tensor_pages off s) (mmu s) \<or>
     r = - 1 \<and> (\<exists>k < tensor_pages off s. mmu t = range_view (next_map_addr s) (PTE_ADDR pa) k (mmu s)))"
    using vmm_map_range_correct [of s 7 "next_map_addr s" ?size pa] user_flags assms(2) al
    unfolding page_masks tensor_pages_def [symmetric] bump_ok_def by simp
  then obtain r t where rt: "vmm_map_range (next_map_addr s) pa ?size 7 s = Some (r, t)"
    "r = 0 \<and> mmu t = range_view (next_map_addr s) (PTE_ADDR pa) (tensor_pages off s) (mmu s) \<or>
     r = - 1 \<and> (\<exists>k < tensor_pages off s. mmu t = range_view (next_map_addr s) (PTE_ADDR pa) k (mmu s))" by blast
  have "s\<lparr>sc_heap := sc_heap s\<rparr> = s" by simp
  then have "sys_map_tensor blob_id s =
      (if r \<noteq> 0 then Some (0, t) else Some (next_map_addr s, t\<lparr>next_map_addr := next_map_addr t + (?size + PAGE_SIZE - 1) div PAGE_SIZE * PAGE_SIZE\<rparr>))"
    using g assms(1) rt(1) by (simp add: sys_map_tensor_def heap_get_blob_phys_def heap_get_blob_size_def tensor_at_def)
  then show ?thesis using rt(2) by auto
qed

lemma page_of_or: "aligned x \<Longrightarrow> page_of (x OR PAGE_OFFSET y) = page_of x" "aligned x \<Longrightarrow> PAGE_OFFSET (x OR PAGE_OFFSET y) = PAGE_OFFSET y"
  "aligned x \<Longrightarrow> PAGE_OFFSET x = 0"
proof -
  assume a: "aligned x"
  have low: "\<not> bit x n" if "n < 12" for n
  proof -
    have "bit x n = bit (push_bit 12 (drop_bit 12 x)) n" using a unfolding aligned_def PTE_ADDR_shift by simp
    then show ?thesis using that by (simp add: bit_push_bit_iff)
  qed
  show "page_of (x OR PAGE_OFFSET y) = page_of x" "PAGE_OFFSET (x OR PAGE_OFFSET y) = PAGE_OFFSET y" "PAGE_OFFSET x = 0"
    unfolding page_of_def PAGE_OFFSET_take_bit by (intro bit_word_eqI; auto simp: bit_simps low)+
qed

lemma split_page: "PTE_ADDR x OR PAGE_OFFSET x = x" "PTE_ADDR (PTE_ADDR x) = PTE_ADDR x"
  unfolding PTE_ADDR_shift PAGE_OFFSET_take_bit by (intro bit_word_eqI; auto simp: bit_simps)+

lemma PTE_ADDR_self: "PTE_ADDR x = x \<longleftrightarrow> PAGE_OFFSET x = 0"
  using split_page(1) [of x] page_of_or(3) [of x] by (metis aligned_def or.right_neutral)

lemma range_view_first:
  assumes "aligned va" "0 < n"
  shows "range_view va (PTE_ADDR pa) n T (va OR PAGE_OFFSET y) = Some (PTE_ADDR pa OR PAGE_OFFSET y)"
  using assms page_of_or(1) [OF assms(1), of y] page_of_or(2) [OF assms(1), of y] by (simp add: range_view_def split_page)

lemma unat_PAGE_OFFSET: "unat (PAGE_OFFSET x) = unat x mod 4096"
  unfolding PAGE_OFFSET_take_bit unsigned_take_bit_eq by (simp add: take_bit_eq_mod)

lemma tensor_first_page:
  assumes "bump_ok n s" "0 < n"
  shows "range_view (next_map_addr s) (PTE_ADDR pa) n (mmu s) (next_map_addr s) = Some (PTE_ADDR pa)"
    "range_view (next_map_addr s) (PTE_ADDR pa) n (mmu s) (next_map_addr s OR PAGE_OFFSET pa) = Some pa"
proof -
  have "aligned (next_map_addr s)" using assms(1) by (simp add: bump_ok_def)
  note fst_page = range_view_first [OF this assms(2), of pa "mmu s"]
  show "range_view (next_map_addr s) (PTE_ADDR pa) n (mmu s) (next_map_addr s) = Some (PTE_ADDR pa)"
    using fst_page [of 0] by (simp add: PAGE_OFFSET_def)
  show "range_view (next_map_addr s) (PTE_ADDR pa) n (mmu s) (next_map_addr s OR PAGE_OFFSET pa) = Some pa"
    using fst_page [of pa] by (simp add: split_page)
qed


text \<open>
  The data of a blob begins 32 bytes behind a multiple of 64, so no tensor of the heap ever lies at the address the call returns.
\<close>

theorem sys_map_tensor_misses:
  assumes "tensor_at blob_id off pa s" "bump_ok (tensor_pages off s) s" "0 < tensor_pages off s"
    and "aligned (heap_data_addr s)" "64 dvd unat off" "blob_offset_at (shm (sc_heap s)) off = off + 32"
    and "sys_map_tensor blob_id s = Some (r, t)" "r = next_map_addr s" "r \<noteq> 0"
  shows "mmu t r \<noteq> Some pa"
proof -
  let ?va = "heap_data_addr s + (off + 32)"
  have "vmm_virt_to_phys ?va s = Some pa" "pa \<noteq> 0" using assms(1,6) by (simp_all add: tensor_at_def)
  then have "PAGE_OFFSET pa = PAGE_OFFSET ?va"
    by (auto simp: vmm_virt_to_phys_def page_of_or(2) aligned_def split_page split: bind_splits if_splits)
  moreover have "PAGE_OFFSET ?va \<noteq> 0"
  proof
    assume "PAGE_OFFSET ?va = 0"
    then have "unat ?va mod 4096 = 0" using unat_PAGE_OFFSET [of ?va] by simp
    then have "4096 dvd unat ?va" by (simp only: mod_eq_0_iff_dvd)
    then have "unat ?va mod 64 = 0" by (auto simp: dvd_def)
    moreover have "unat ?va mod 64 = (unat (heap_data_addr s) + unat off + 32) mod 64"
    proof -
      have "unat ?va mod 64 = (unat (heap_data_addr s) + unat (off + 32)) mod 64"
        unfolding unat_word_ariths(1) [of "heap_data_addr s"] by (rule mod_mod_cancel) simp
      also have "\<dots> = (unat (heap_data_addr s) + unat (off + 32) mod 64) mod 64" by (rule mod_add_right_eq [symmetric])
      also have "unat (off + 32) mod 64 = (unat off + 32) mod 64"
        using mod_mod_cancel [of 64 "2 ^ 32" "unat off + 32"] by (simp add: unat_word_ariths)
      also have "(unat (heap_data_addr s) + (unat off + 32) mod 64) mod 64 = (unat (heap_data_addr s) + unat off + 32) mod 64"
        by (simp only: mod_add_right_eq add.assoc)
      finally show ?thesis .
    qed
    moreover have "unat (heap_data_addr s) mod 4096 = 0"
      using page_of_or(3) [OF assms(4)] unat_PAGE_OFFSET [of "heap_data_addr s"] by simp
    then obtain i j where "unat (heap_data_addr s) = 4096 * i" "unat off = 64 * j" using assms(5) by (auto simp: dvd_def mod_eq_0_iff_dvd)
    then have "(unat (heap_data_addr s) + unat off + 32) mod 64 = (64 * (64 * i + j) + 32) mod 64" by (simp add: algebra_simps)
    then have "(unat (heap_data_addr s) + unat off + 32) mod 64 = 32" by (simp only: mod_mult_self4) simp
    ultimately show False by simp
  qed
  ultimately have "PTE_ADDR pa \<noteq> pa" by (simp add: PTE_ADDR_self)
  moreover have "mmu t r = Some (PTE_ADDR pa)"
    using sys_map_tensor_spec [OF assms(1,2)] assms(7-9) tensor_first_page(1) [OF assms(2,3), of pa] by auto
  ultimately show ?thesis by simp
qed

section \<open>Witness\<close>

text \<open>A heap with one blob of 100 bytes at its start.\<close>

definition one_blob :: ipc where
  "one_blob = boot_ipc\<lparr>heap_up := True, blob_count := 1, blob_table := (\<lambda>_. \<lparr>be_blob_id = 1, be_offset = 0, be_blocks = 3\<rparr>),
     shm := wr32 (wr32 (wr16 (wr32 (\<lambda>_. 0) (blob_addr 0) BLOB_MAGIC) (blob_addr 0 + 4) 1) (blob_addr 0 + 8) 100) (blob_addr 0 + 12) 32\<rparr>"

lemma one_blob_facts:
  "heap_up one_blob" "cached_blob 1 one_blob = Some 0" "blob_offset_at (shm one_blob) 0 = 32" "blob_size_at (shm one_blob) 0 = 100"
proof -
  have "blob_magic (shm one_blob) 0 = BLOB_MAGIC" "blob_id_at (shm one_blob) 0 = 1"
    by (simp_all add: one_blob_def blob_magic_def blob_id_at_def)
  then show "cached_blob 1 one_blob = Some 0" by (simp add: cached_blob_def one_blob_def wfind.simps)
qed (simp_all add: one_blob_def blob_offset_at_def blob_size_at_def)

lemma psys_extend_vm:
  "vm_wf (psys.extend p x) = vm_wf p" "translation (psys.extend p x) va = translation p va" "frames (psys.extend p x) = frames p"
  "pmem (psys.extend p x) = pmem p" "active_pd (psys.extend p x) = active_pd p"
  by (simp_all add: vm_wf_def pmm_wf_def pmm_topology_def frames_def node_count_ok_def node_frames_def direct_def tlb_coherent_def
      active_pd_def translation_def psys.defs)

text \<open>The machine \<open>roomy\<close> with the heap's data mapped at 0x40001000.\<close>

lemma mapped_heap:
  "\<exists>s :: sysc. tensor_at 1 0 0x5020 s \<and> bump_ok 1 s \<and> tensor_pages 0 s = 1 \<and> next_map_addr s = 0x80000000"
proof -
  have nl: "\<not> large_pde (pde (pmem roomy) (active_pd roomy) i)" if "i < 768" for i
    using that ready_vm_pde [of i] by (simp add: roomy_vm large_pde_def)
  have "PDE_INDEX 0x40001000 = 256" by (simp add: PDE_INDEX_def)
  then obtain p :: psys where p: "vm_wf p" "active_pd p = active_pd roomy"
    "\<forall>i < 1024. large_pde (pde (pmem p) (active_pd p) i) = large_pde (pde (pmem roomy) (active_pd roomy) i)"
    "translation p = (\<lambda>va. if page_of va = page_of 0x40001000 then Some (PTE_ADDR 0x5000 OR PAGE_OFFSET va) else translation roomy va)"
    using map_page_spec [OF roomy_wf _ user_flags, of "0x40001000" "0x5000"] nl [of 256] frames_roomy by (auto split: if_splits)
  define s :: sysc where "s = psys.extend p (sysc.fields one_blob idt_boot 0x40001000 0x80000000)"
  have f: "sc_heap s = one_blob" "heap_data_addr s = 0x40001000" "next_map_addr s = 0x80000000"
    by (simp_all add: s_def psys.defs sysc.defs)
  have nls: "\<not> large_pde (pde (pmem s) (active_pd s) i)" if "i < 768" for i
  proof -
    have "i < 1024" using that by (simp add: word_less_nat_alt)
    then show ?thesis using p(3) nl [OF that] by (simp add: s_def psys_extend_vm)
  qed
  have wf: "vm_wf s" using p(1) by (simp add: s_def psys_extend_vm)
  have "PDE_INDEX 0x40001020 = 256" "page_of 0x40001020 = page_of 0x40001000" "PTE_ADDR 0x5000 OR PAGE_OFFSET 0x40001020 = 0x5020"
    by (simp_all add: PDE_INDEX_def page_of_def PTE_ADDR_def PAGE_OFFSET_def)
  then have "vmm_virt_to_phys 0x40001020 s = Some 0x5020"
    using virt_to_phys_spec [OF wf, of "0x40001020"] nls [of 256] p(4) by (simp add: s_def psys_extend_vm)
  then have "tensor_at 1 0 0x5020 s" using one_blob_facts by (simp add: tensor_at_def f)
  moreover have "bump_ok 1 s"
  proof -
    have "\<not> large_pde (pde (pmem s) (active_pd s) (PDE_INDEX v))" if "unat v < 0x80001000" for v
    proof -
      have "unat v div 4194304 < 768" using that by (simp add: div_less_iff_less_mult)
      then have "PDE_INDEX v < 768" by (simp add: index_take_bit word_less_nat_alt unat_drop_div)
      then show ?thesis by (rule nls)
    qed
    then show ?thesis using wf by (simp add: bump_ok_def f aligned_def PTE_ADDR_def)
  qed
  moreover have "tensor_pages 0 s = 1" using one_blob_facts(4) by (simp add: tensor_pages_def f PAGE_SIZE_def)
  ultimately show ?thesis using f(3) by blast
qed


end
