(* ===== verification/Pci.thy ===== *)
theory Pci
  imports Zen_Prelude "HOL-Library.Monad_Syntax"
begin

text \<open>
  PCI configuration (\<^verbatim>\<open>kernel/arch/pci.c\<close>). Configuration space is a memory of 32-bit registers, addressed by what is written
  to the address port. A device implements some bits of a register; a write changes just those (\<open>cfg_writable\<close>), the
  others are fixed. Registers of a device that is not there read as ones. The console messages are left out.
\<close>

section \<open>Configuration space\<close>

definition PCI_CONFIG_ADDRESS :: u16 where [zconst]: "PCI_CONFIG_ADDRESS = 0xCF8"
definition PCI_CONFIG_DATA :: u16 where [zconst]: "PCI_CONFIG_DATA = 0xCFC"
definition PCI_REGISTER_STATUS :: u8 where [zconst]: "PCI_REGISTER_STATUS = 0x06"
definition PCI_REGISTER_BAR0 :: u8 where [zconst]: "PCI_REGISTER_BAR0 = 0x10"
definition PCI_CAP_ID_MSI :: u8 where [zconst]: "PCI_CAP_ID_MSI = 0x05"

record pci =
  config_address :: u32
  cfg :: "u32 \<Rightarrow> u32"
  cfg_writable :: "u32 \<Rightarrow> u32"

record pci_device =
  dev_bus :: u8
  dev_slot :: u8
  dev_func :: u8
  dev_vendor_id :: u16
  dev_device_id :: u16

definition outl :: "u16 \<Rightarrow> u32 \<Rightarrow> 'a pci_scheme \<Rightarrow> 'a pci_scheme" where
  "outl port val s =
     (if port = PCI_CONFIG_ADDRESS then s\<lparr>config_address := val\<rparr>
      else if port = PCI_CONFIG_DATA
      then let a = config_address s
           in s\<lparr>cfg := (cfg s)(a := (cfg s a AND NOT (cfg_writable s a)) OR (val AND cfg_writable s a))\<rparr>
      else s)"

definition inl :: "u16 \<Rightarrow> 'a pci_scheme \<Rightarrow> u32" where
  "inl port s = (if port = PCI_CONFIG_DATA then cfg s (config_address s) else if port = PCI_CONFIG_ADDRESS then config_address s else 0xFFFFFFFF)"

definition cfg_addr :: "u8 \<Rightarrow> u8 \<Rightarrow> u8 \<Rightarrow> u8 \<Rightarrow> u32" where
  "cfg_addr bus slot func offset =
     push_bit 16 (ucast bus) OR push_bit 11 (ucast slot) OR push_bit 8 (ucast func) OR (ucast offset AND 0xFC) OR 0x80000000"

definition pci_read_config_32 :: "u8 \<Rightarrow> u8 \<Rightarrow> u8 \<Rightarrow> u8 \<Rightarrow> 'a pci_scheme \<Rightarrow> u32 \<times> 'a pci_scheme" where
  "pci_read_config_32 bus slot func offset s =
     (let s = outl PCI_CONFIG_ADDRESS (cfg_addr bus slot func offset) s in (inl PCI_CONFIG_DATA s, s))"

definition pci_write_config_32 :: "u8 \<Rightarrow> u8 \<Rightarrow> u8 \<Rightarrow> u8 \<Rightarrow> u32 \<Rightarrow> 'a pci_scheme \<Rightarrow> 'a pci_scheme" where
  "pci_write_config_32 bus slot func offset val s =
     (let s = outl PCI_CONFIG_ADDRESS (cfg_addr bus slot func offset) s in outl PCI_CONFIG_DATA val s)"

section \<open>Finding a device\<close>

fun find_func :: "u16 \<Rightarrow> u16 \<Rightarrow> u8 \<Rightarrow> u8 list \<Rightarrow> 'a pci_scheme \<Rightarrow> pci_device option \<times> 'a pci_scheme" where
  "find_func vendor_id device_id slot [] s = (None, s)"
| "find_func vendor_id device_id slot (func # funcs) s =
     (let (id_reg, s) = pci_read_config_32 0 slot func 0x00 s
      in if id_reg AND 0xFFFF = ucast vendor_id \<and> drop_bit 16 id_reg AND 0xFFFF = ucast device_id
         then (Some \<lparr>dev_bus = 0, dev_slot = slot, dev_func = func, dev_vendor_id = vendor_id, dev_device_id = device_id\<rparr>, s)
         else find_func vendor_id device_id slot funcs s)"

fun find_slot :: "u16 \<Rightarrow> u16 \<Rightarrow> u8 list \<Rightarrow> 'a pci_scheme \<Rightarrow> pci_device option \<times> 'a pci_scheme" where
  "find_slot vendor_id device_id [] s = (None, s)"
| "find_slot vendor_id device_id (slot # slots) s =
     (case find_func vendor_id device_id slot (map of_nat [0..<8]) s of
        (Some d, s) \<Rightarrow> (Some d, s)
      | (None, s) \<Rightarrow> find_slot vendor_id device_id slots s)"

text \<open>The device found, for the result 1, or \<open>None\<close> for 0.\<close>

definition pci_find_device :: "u16 \<Rightarrow> u16 \<Rightarrow> 'a pci_scheme \<Rightarrow> pci_device option \<times> 'a pci_scheme" where
  "pci_find_device vendor_id device_id s = find_slot vendor_id device_id (map of_nat [0..<32]) s"

section \<open>Scanning the bus\<close>

text \<open>A line of the scan: slot, function, vendor, device, class and subclass.\<close>

type_synonym pci_line = "u8 \<times> u8 \<times> u16 \<times> u16 \<times> u8 \<times> u8"

definition pci_check_device :: "u8 \<Rightarrow> u8 \<Rightarrow> u8 \<Rightarrow> pci_line list \<times> 'a pci_scheme \<Rightarrow> pci_line list \<times> 'a pci_scheme" where
  "pci_check_device bus slot func = (\<lambda>(out, s).
     let (id_reg, s) = pci_read_config_32 bus slot func 0x00 s;
         vendor = ucast (id_reg AND 0xFFFF)
     in if vendor = 0xFFFF then (out, s)
        else let device = ucast (drop_bit 16 id_reg AND 0xFFFF);
                 (class_reg, s) = pci_read_config_32 bus slot func 0x08 s;
                 class_code = ucast (drop_bit 24 class_reg AND 0xFF);
                 subclass = ucast (drop_bit 16 class_reg AND 0xFF)
             in (out @ [(slot, func, vendor, device, class_code, subclass)], s))"

definition pci_scan_func :: "u8 \<Rightarrow> u8 \<Rightarrow> pci_line list \<times> 'a pci_scheme \<Rightarrow> pci_line list \<times> 'a pci_scheme" where
  "pci_scan_func slot func = (\<lambda>(out, s).
     let (id_reg, s) = pci_read_config_32 0 slot func 0x00 s
     in if id_reg AND 0xFFFF \<noteq> 0xFFFF then pci_check_device 0 slot func (out, s) else (out, s))"

definition pci_init :: "'a pci_scheme \<Rightarrow> pci_line list \<times> 'a pci_scheme" where
  "pci_init s = fold (\<lambda>slot r. fold (pci_scan_func slot) (map of_nat [1..<8]) (pci_check_device 0 slot 0 r)) (map of_nat [0..<32]) ([], s)"

section \<open>Base addresses\<close>

text \<open>The base address and the size.\<close>

definition pci_get_bar :: "pci_device \<Rightarrow> int \<Rightarrow> 'a pci_scheme \<Rightarrow> u32 \<times> u32 \<times> 'a pci_scheme" where
  "pci_get_bar dev bar_index s =
     (let offset = of_int (uint PCI_REGISTER_BAR0 + bar_index * 4);
          (orig_val, s) = pci_read_config_32 (dev_bus dev) (dev_slot dev) (dev_func dev) offset s;
          s = pci_write_config_32 (dev_bus dev) (dev_slot dev) (dev_func dev) offset 0xFFFFFFFF s;
          (size_encoded, s) = pci_read_config_32 (dev_bus dev) (dev_slot dev) (dev_func dev) offset s;
          s = pci_write_config_32 (dev_bus dev) (dev_slot dev) (dev_func dev) offset orig_val s;
          size_mask = NOT (size_encoded AND 0xFFFFFFF0) + 1
      in (orig_val AND 0xFFFFFFF0, size_mask, s))"

section \<open>Message-signalled interrupts\<close>

definition msi_program :: "pci_device \<Rightarrow> u8 \<Rightarrow> u8 \<Rightarrow> u8 \<Rightarrow> u32 \<Rightarrow> 'a pci_scheme \<Rightarrow> 'a pci_scheme" where
  "msi_program dev vector dest_id cap_ptr cap_hdr s =
     (let wr = pci_write_config_32 (dev_bus dev) (dev_slot dev) (dev_func dev);
          msi_ctl = ucast (drop_bit 16 cap_hdr) :: u16;
          addr = 0xFEE00000 OR push_bit 12 (ucast dest_id);
          data = ucast vector;
          s = wr (cap_ptr + 4) addr s;
          s = (if msi_ctl AND 0x0080 \<noteq> 0 then wr (cap_ptr + 12) data (wr (cap_ptr + 8) 0 s) else wr (cap_ptr + 8) data s);
          msi_ctl = msi_ctl OR 0x1;
          cap_hdr = (cap_hdr AND 0xFFFF) OR push_bit 16 (ucast msi_ctl)
      in wr cap_ptr cap_hdr s)"

partial_function (option) msi_walk :: "pci_device \<Rightarrow> u8 \<Rightarrow> u8 \<Rightarrow> u8 \<Rightarrow> 'a pci_scheme \<Rightarrow> (int \<times> 'a pci_scheme) option" where
  "msi_walk dev vector dest_id cap_ptr s =
     (if cap_ptr = 0 then Some (- 1, s)
      else let (cap_hdr, s) = pci_read_config_32 (dev_bus dev) (dev_slot dev) (dev_func dev) cap_ptr s;
               cap_id = ucast (cap_hdr AND 0xFF);
               next_cap = ucast (drop_bit 8 cap_hdr AND 0xFF)
           in if cap_id = PCI_CAP_ID_MSI then Some (0, msi_program dev vector dest_id cap_ptr cap_hdr s)
              else msi_walk dev vector dest_id next_cap s)"

definition pci_enable_msi :: "pci_device \<Rightarrow> u8 \<Rightarrow> u8 \<Rightarrow> 'a pci_scheme \<Rightarrow> (int \<times> 'a pci_scheme) option" where
  "pci_enable_msi dev vector dest_id s =
     (let (r, s) = pci_read_config_32 (dev_bus dev) (dev_slot dev) (dev_func dev) PCI_REGISTER_STATUS s;
          status = ucast (drop_bit 16 r) :: u8
      in if status AND 0x10 = 0 then Some (- 1, s)
         else let (r, s) = pci_read_config_32 (dev_bus dev) (dev_slot dev) (dev_func dev) 0x34 s
              in msi_walk dev vector dest_id (ucast (r AND 0xFF)) s)"

section \<open>Registers\<close>

lemma read_config: "pci_read_config_32 b sl f off s = (cfg s (cfg_addr b sl f off), s\<lparr>config_address := cfg_addr b sl f off\<rparr>)"
  by (simp add: pci_read_config_32_def outl_def inl_def PCI_CONFIG_ADDRESS_def PCI_CONFIG_DATA_def)

lemma write_config:
  "pci_write_config_32 b sl f off v s =
    (let a = cfg_addr b sl f off
     in s\<lparr>config_address := a, cfg := (cfg s)(a := (cfg s a AND NOT (cfg_writable s a)) OR (v AND cfg_writable s a))\<rparr>)"
  by (simp add: pci_write_config_32_def outl_def PCI_CONFIG_ADDRESS_def PCI_CONFIG_DATA_def Let_def)

text \<open>The address register holds bus, slot, function and register in separate fields.\<close>

lemma cfg_addr_bit:
  "bit (cfg_addr bus slot func off) n \<longleftrightarrow>
    n < 32 \<and> (16 \<le> n \<and> bit bus (n - 16) \<or> 11 \<le> n \<and> bit slot (n - 11) \<or> 8 \<le> n \<and> bit func (n - 8) \<or> 2 \<le> n \<and> n < 8 \<and> bit off n \<or> n = 31)"
proof -
  have "bit (0x80000000 :: u32) n \<longleftrightarrow> n = 31" using bit_exp_iff [of 31 n, where ?'a = u32] by (auto dest: bit_imp_le_length)
  moreover have fc: "(0xFC :: u32) = push_bit 2 (mask 6)" by (simp add: mask_eq_exp_minus_1)
  have "bit (0xFC :: u32) n \<longleftrightarrow> 2 \<le> n \<and> n < 8" unfolding fc bit_push_bit_iff bit_mask_iff by auto
  ultimately show ?thesis unfolding cfg_addr_def by (auto simp: bit_or_iff bit_and_iff bit_push_bit_iff bit_ucast_iff dest: bit_imp_le_length)
qed

lemma cfg_addr_fields:
  assumes "slot < 32" "func < 8"
  shows "ucast (drop_bit 16 (cfg_addr bus slot func off)) = bus" "ucast (take_bit 5 (drop_bit 11 (cfg_addr bus slot func off))) = slot"
    "ucast (take_bit 3 (drop_bit 8 (cfg_addr bus slot func off))) = func" "drop_bit 2 (ucast (cfg_addr bus slot func off)) = drop_bit 2 off"
proof -
  have s: "take_bit 5 slot = slot" "take_bit 3 func = func"
    using assms by (simp_all add: word_unat_eq_iff unsigned_take_bit_eq take_bit_nat_eq_self word_less_nat_alt)
  have sb: "bit slot n \<Longrightarrow> n < 5" "bit func n \<Longrightarrow> n < 3" for n using s by (metis bit_take_bit_iff)+
  note rules = cfg_addr_bit bit_ucast_iff bit_drop_bit_eq bit_take_bit_iff
  show "ucast (drop_bit 16 (cfg_addr bus slot func off)) = bus" "ucast (take_bit 5 (drop_bit 11 (cfg_addr bus slot func off))) = slot"
    "ucast (take_bit 3 (drop_bit 8 (cfg_addr bus slot func off))) = func" "drop_bit 2 (ucast (cfg_addr bus slot func off)) = drop_bit 2 off"
    by (intro bit_word_eqI; auto simp: rules dest: sb bit_imp_le_length)+
qed

text \<open>Different functions and registers have different addresses.\<close>

lemma cfg_addr_inj:
  assumes "cfg_addr b s f off = cfg_addr b' s' f' off'" "s < 32" "f < 8" "s' < 32" "f' < 8"
  shows "b = b' \<and> s = s' \<and> f = f' \<and> drop_bit 2 off = drop_bit 2 off'"
  using cfg_addr_fields [OF assms(2,3), of b off] cfg_addr_fields [OF assms(4,5), of b' off'] assms(1) by simp

section \<open>Devices\<close>

text \<open>The functions of bus 0 in the order of the scan, and what their identification says.\<close>

definition bus_functions :: "(u8 \<times> u8) list" where
  "bus_functions = List.product (map of_nat [0..<32]) (map of_nat [0..<8])"

definition matches :: "u16 \<Rightarrow> u16 \<Rightarrow> (u32 \<Rightarrow> u32) \<Rightarrow> u8 \<times> u8 \<Rightarrow> bool" where
  "matches vendor device c = (\<lambda>(slot, func).
     c (cfg_addr 0 slot func 0) AND 0xFFFF = ucast vendor \<and> drop_bit 16 (c (cfg_addr 0 slot func 0)) AND 0xFFFF = ucast device)"

lemma find_func_spec:
  "\<exists>a. find_func v d slot funcs s =
    (map_option (\<lambda>func. \<lparr>dev_bus = 0, dev_slot = slot, dev_func = func, dev_vendor_id = v, dev_device_id = d\<rparr>)
       (find (\<lambda>func. matches v d (cfg s) (slot, func)) funcs), s\<lparr>config_address := a\<rparr>)"
proof (induction funcs arbitrary: s)
  case Nil
  show ?case by (rule exI [of _ "config_address s"]) simp
next
  case (Cons func funcs)
  show ?case using Cons.IH [of "s\<lparr>config_address := cfg_addr 0 slot func 0\<rparr>"] by (auto simp: read_config matches_def)
qed

lemma find_append: "find P (xs @ ys) = (case find P xs of None \<Rightarrow> find P ys | Some x \<Rightarrow> Some x)"
  by (induction xs) auto

lemma find_slot_spec:
  "\<exists>a. find_slot v d slots s =
    (map_option (\<lambda>(slot, func). \<lparr>dev_bus = 0, dev_slot = slot, dev_func = func, dev_vendor_id = v, dev_device_id = d\<rparr>)
       (find (matches v d (cfg s)) (List.product slots (map of_nat [0..<8]))), s\<lparr>config_address := a\<rparr>)"
proof (induction slots arbitrary: s)
  case Nil
  show ?case by (rule exI [of _ "config_address s"]) simp
next
  case (Cons slot slots)
  let ?funcs = "map of_nat [0..<8] :: u8 list"
  obtain a where a: "find_func v d slot ?funcs s =
      (map_option (\<lambda>func. \<lparr>dev_bus = 0, dev_slot = slot, dev_func = func, dev_vendor_id = v, dev_device_id = d\<rparr>)
         (find (\<lambda>func. matches v d (cfg s) (slot, func)) ?funcs), s\<lparr>config_address := a\<rparr>)"
    using find_func_spec by blast
  have f: "find (matches v d (cfg s)) (map (Pair slot) ?funcs) = map_option (Pair slot) (find (\<lambda>func. matches v d (cfg s) (slot, func)) ?funcs)"
    by (simp only: find_map comp_def)
  show ?case
  proof (cases "find (\<lambda>func. matches v d (cfg s) (slot, func)) ?funcs")
    case None
    then show ?thesis using Cons.IH [of "s\<lparr>config_address := a\<rparr>"] a f by (auto simp: find_append simp del: map_map upt_rec_numeral)
  next
    case (Some func)
    then show ?thesis using a f by (auto simp: find_append simp del: map_map upt_rec_numeral)
  qed
qed

text \<open>
  \<open>pci_find_device\<close> returns the first function on bus 0, in the order of slots and functions, whose identification register
  holds the two numbers, and none if there is none. It changes no register.
\<close>

theorem pci_find_device_correct:
  "fst (pci_find_device v d s) =
      map_option (\<lambda>(slot, func). \<lparr>dev_bus = 0, dev_slot = slot, dev_func = func, dev_vendor_id = v, dev_device_id = d\<rparr>)
        (find (matches v d (cfg s)) bus_functions) \<and>
    cfg (snd (pci_find_device v d s)) = cfg s"
proof -
  obtain a where "pci_find_device v d s =
      (map_option (\<lambda>(slot, func). \<lparr>dev_bus = 0, dev_slot = slot, dev_func = func, dev_vendor_id = v, dev_device_id = d\<rparr>)
        (find (matches v d (cfg s)) bus_functions), s\<lparr>config_address := a\<rparr>)"
    using find_slot_spec [of v d "map of_nat [0..<32]" s] unfolding pci_find_device_def bus_functions_def by blast
  then show ?thesis by simp
qed

section \<open>Sizing a base address register\<close>

lemma write_back: "((x AND NOT w OR y AND w) AND NOT w) OR (x AND w) = x" for x w y :: u32
  by (rule bit_word_eqI) (auto simp: bit_simps)

abbreviation dev_addr :: "pci_device \<Rightarrow> u8 \<Rightarrow> u32" where
  "dev_addr dev off \<equiv> cfg_addr (dev_bus dev) (dev_slot dev) (dev_func dev) off"

lemma pci_get_bar_eq:
  fixes s :: "'a pci_scheme" and dev :: pci_device and i :: int
  defines "a \<equiv> dev_addr dev (of_int (16 + i * 4))"
  shows "\<exists>s'. pci_get_bar dev i s =
      (cfg s a AND 0xFFFFFFF0, NOT ((cfg s a AND NOT (cfg_writable s a) OR cfg_writable s a) AND 0xFFFFFFF0) + 1, s') \<and> cfg s' = cfg s"
proof -
  have o: "of_int (uint PCI_REGISTER_BAR0 + i * 4) = (of_int (16 + i * 4) :: u8)" by (simp add: PCI_REGISTER_BAR0_def)
  have "(cfg s)(a := ((cfg s a AND NOT (cfg_writable s a) OR - 1 AND cfg_writable s a) AND NOT (cfg_writable s a)) OR (cfg s a AND cfg_writable s a)) = cfg s"
    unfolding write_back by simp
  moreover have "(4294967295 :: u32) = - 1" "(- 4294967296 :: u32) = 0" by simp_all
  then have "(4294967295 :: u32) AND w = w" "(- 4294967296 :: u32) OR w = w" for w by (simp_all only: and.left_neutral or.left_neutral)
  ultimately show ?thesis unfolding pci_get_bar_def o a_def by (simp add: read_config write_config Let_def)
qed

text \<open>
  A memory register that implements the address bits from \<open>k\<close> upwards: \<open>pci_get_bar\<close> returns its address and the size \<open>2\<^sup>k\<close>,
  and leaves every register as it was.
\<close>

theorem pci_get_bar_correct:
  assumes "cfg_writable s (dev_addr dev (of_int (16 + i * 4))) = NOT (mask k)" "4 \<le> k" "k < 32"
    "drop_bit 4 (take_bit k (cfg s (dev_addr dev (of_int (16 + i * 4))))) = 0"
  shows "\<exists>s'. pci_get_bar dev i s = (cfg s (dev_addr dev (of_int (16 + i * 4))) AND NOT (mask 4), 2 ^ k, s') \<and> cfg s' = cfg s"
proof -
  let ?a = "dev_addr dev (of_int (16 + i * 4))"
  have m: "(0xFFFFFFF0 :: u32) = NOT (mask 4)" by (simp add: mask_eq_exp_minus_1)
  have "\<not> bit (cfg s ?a) n" if "4 \<le> n" "n < k" for n
  proof -
    have "\<not> bit (drop_bit 4 (take_bit k (cfg s ?a))) (n - 4)" unfolding assms(4) by simp
    then show ?thesis using that by (simp add: bit_drop_bit_eq bit_take_bit_iff)
  qed
  then have "(cfg s ?a AND NOT (NOT (mask k)) OR NOT (mask k)) AND NOT (mask 4) = NOT (mask k)"
    using assms(2) by (intro bit_word_eqI) (auto simp: bit_simps not_less)
  then have "NOT ((cfg s ?a AND NOT (cfg_writable s ?a) OR cfg_writable s ?a) AND 0xFFFFFFF0) + 1 = 2 ^ k"
    unfolding m assms(1) by (simp add: mask_eq_exp_minus_1)
  then show ?thesis using pci_get_bar_eq [of dev i s] m by simp
qed

text \<open>A device in slot 4 with a register of 4 KB at \<open>0xFEBF1000\<close> and a list of two capabilities.\<close>

definition demo_dev :: pci_device where
  "demo_dev = \<lparr>dev_bus = 0, dev_slot = 4, dev_func = 0, dev_vendor_id = 0x1AF4, dev_device_id = 0x1110\<rparr>"

definition demo_pci :: pci where
  "demo_pci = \<lparr>config_address = 0,
     cfg = (\<lambda>_. 0)(0x80002000 := 0x11101AF4, 0x80002004 := 0x100000, 0x80002010 := 0xFEBF1000, 0x80002034 := 0x40,
       0x80002040 := 0x5011, 0x80002050 := 0x800005),
     cfg_writable = (\<lambda>_. - 1)(0x80002010 := NOT (mask 12))\<rparr>"

theorem pci_get_bar_correct_witness: "\<exists>s'. pci_get_bar demo_dev 0 demo_pci = (0xFEBF1000, 4096, s') \<and> cfg s' = cfg demo_pci"
proof -
  have a: "dev_addr demo_dev (of_int (16 + 0 * 4)) = 0x80002010" by (simp add: demo_dev_def cfg_addr_def)
  have "cfg_writable demo_pci 0x80002010 = NOT (mask 12)" "cfg demo_pci 0x80002010 = 0xFEBF1000" by (simp_all add: demo_pci_def)
  then show ?thesis using pci_get_bar_correct [of demo_pci demo_dev 0 12] unfolding a by (simp add: mask_eq_exp_minus_1 take_bit_eq_mask)
qed

section \<open>Capabilities\<close>

definition cap_next :: "(u32 \<Rightarrow> u32) \<Rightarrow> pci_device \<Rightarrow> u8 \<Rightarrow> u8" where
  "cap_next c dev p = ucast (drop_bit 8 (c (dev_addr dev p)) AND 0xFF)"

definition cap_is_msi :: "(u32 \<Rightarrow> u32) \<Rightarrow> pci_device \<Rightarrow> u8 \<Rightarrow> bool" where
  "cap_is_msi c dev p \<longleftrightarrow> (ucast (c (dev_addr dev p) AND 0xFF) :: u8) = PCI_CAP_ID_MSI"

text \<open>The list of capabilities of a device, from a pointer to the end.\<close>

fun cap_chain :: "(u32 \<Rightarrow> u32) \<Rightarrow> pci_device \<Rightarrow> u8 \<Rightarrow> u8 list \<Rightarrow> bool" where
  "cap_chain c dev p [] \<longleftrightarrow> p = 0"
| "cap_chain c dev p (q # qs) \<longleftrightarrow> p = q \<and> q \<noteq> 0 \<and> cap_chain c dev (cap_next c dev q) qs"

lemma msi_walk_step:
  "msi_walk dev v d p s =
    (if p = 0 then Some (- 1, s)
     else let s' = s\<lparr>config_address := dev_addr dev p\<rparr>
          in if cap_is_msi (cfg s) dev p then Some (0, msi_program dev v d p (cfg s (dev_addr dev p)) s')
             else msi_walk dev v d (cap_next (cfg s) dev p) s')"
  by (subst msi_walk.simps) (simp add: read_config Let_def cap_is_msi_def cap_next_def)

lemma msi_walk_chain:
  assumes "cap_chain (cfg s) dev p ps"
  shows "\<exists>a. msi_walk dev v d p s =
    (case find (cap_is_msi (cfg s) dev) ps of
       None \<Rightarrow> Some (- 1, s\<lparr>config_address := a\<rparr>)
     | Some q \<Rightarrow> Some (0, msi_program dev v d q (cfg s (dev_addr dev q)) (s\<lparr>config_address := a\<rparr>)))"
  using assms
proof (induction ps arbitrary: p s)
  case Nil
  then show ?case by (subst msi_walk_step) (auto intro: exI [of _ "config_address s"])
next
  case (Cons q qs)
  then show ?case using Cons.IH [of "s\<lparr>config_address := dev_addr dev q\<rparr>" "cap_next (cfg s) dev q"]
    by (subst msi_walk_step) (auto simp: Let_def split: option.splits)
qed

text \<open>A list that never ends and has no MSI capability keeps the loop running.\<close>

definition endless :: "(u32 \<Rightarrow> u32) \<Rightarrow> pci_device \<Rightarrow> u8 set \<Rightarrow> bool" where
  "endless c dev A \<longleftrightarrow> (\<forall>q \<in> A. q \<noteq> 0 \<and> \<not> cap_is_msi c dev q \<and> cap_next c dev q \<in> A)"

lemma msi_walk_closed:
  assumes "msi_walk dev v d p s = Some r"
  shows "endless (cfg s) dev A \<longrightarrow> p \<notin> A"
proof (rule msi_walk.raw_induct [where P = "\<lambda>dev v d p s r. endless (cfg s) dev A \<longrightarrow> p \<notin> A", OF _ assms])
  fix f :: "pci_device \<Rightarrow> u8 \<Rightarrow> u8 \<Rightarrow> u8 \<Rightarrow> 'a pci_scheme \<Rightarrow> (int \<times> 'a pci_scheme) option" and dev v d p s r
  assume IH: "\<And>dev v d p s r. f dev v d p s = Some r \<Longrightarrow> endless (cfg s) dev A \<longrightarrow> p \<notin> A"
    and step: "(if p = 0 then Some (- 1, s)
      else let (cap_hdr, s) = pci_read_config_32 (dev_bus dev) (dev_slot dev) (dev_func dev) p s;
               cap_id = ucast (cap_hdr AND 0xFF);
               next_cap = ucast (drop_bit 8 cap_hdr AND 0xFF)
           in if cap_id = PCI_CAP_ID_MSI then Some (0, msi_program dev v d p cap_hdr s) else f dev v d next_cap s) = Some r"
  show "endless (cfg s) dev A \<longrightarrow> p \<notin> A"
  proof (intro impI notI)
    assume e: "endless (cfg s) dev A" "p \<in> A"
    then have "p \<noteq> 0" "\<not> cap_is_msi (cfg s) dev p" "cap_next (cfg s) dev p \<in> A" by (auto simp: endless_def)
    moreover have "f dev v d (cap_next (cfg s) dev p) (s\<lparr>config_address := dev_addr dev p\<rparr>) = Some r"
      using step calculation by (simp add: read_config Let_def cap_is_msi_def cap_next_def)
    from IH [OF this] have "endless (cfg s) dev A \<longrightarrow> cap_next (cfg s) dev p \<notin> A" by simp
    ultimately show False using e by blast
  qed
qed

text \<open>What programming the capability at \<open>q\<close> leaves in its registers, when the device implements all their bits.\<close>

definition msi_registers :: "pci_device \<Rightarrow> u8 \<Rightarrow> u8 \<Rightarrow> u8 \<Rightarrow> (u32 \<Rightarrow> u32) \<Rightarrow> (u32 \<Rightarrow> u32) \<Rightarrow> bool" where
  "msi_registers dev v d q c c' \<longleftrightarrow>
     c' (dev_addr dev q) = c (dev_addr dev q) OR 0x10000 \<and>
     c' (dev_addr dev (q + 4)) = 0xFEE00000 OR push_bit 12 (ucast d) \<and>
     (if bit (c (dev_addr dev q)) 23 then c' (dev_addr dev (q + 8)) = 0 \<and> c' (dev_addr dev (q + 12)) = ucast v
      else c' (dev_addr dev (q + 8)) = ucast v)"

lemma offset_apart:
  fixes q :: u8
  shows "drop_bit 2 (q + 4) \<noteq> drop_bit 2 q" "drop_bit 2 (q + 8) \<noteq> drop_bit 2 q" "drop_bit 2 (q + 12) \<noteq> drop_bit 2 q"
    "drop_bit 2 (q + 8) \<noteq> drop_bit 2 (q + 4)" "drop_bit 2 (q + 12) \<noteq> drop_bit 2 (q + 4)" "drop_bit 2 (q + 12) \<noteq> drop_bit 2 (q + 8)"
proof -
  have low: "take_bit 2 (q + k) = take_bit 2 q" if "unat k mod 4 = 0" for k :: u8
  proof -
    have "unat (take_bit 2 (q + k)) = (unat q + unat k) mod 256 mod 4"
      by (simp only: unsigned_take_bit_eq) (simp add: take_bit_eq_mod unat_word_ariths)
    also have "\<dots> = (unat q + unat k) mod 4" by (rule mod_mod_cancel) simp
    also have "\<dots> = unat (take_bit 2 q)" using that by (simp only: unsigned_take_bit_eq) (simp add: take_bit_eq_mod mod_add_eq [symmetric])
    finally show ?thesis by (simp only: word_unat_eq_iff)
  qed
  have eq: "x = y" if "drop_bit 2 x = drop_bit 2 y" "take_bit 2 x = take_bit 2 y" for x y :: u8
    using that by (metis bits_ident)
  have "take_bit 2 (q + 4) = take_bit 2 q" "take_bit 2 (q + 8) = take_bit 2 q" "take_bit 2 (q + 12) = take_bit 2 q"
    by (rule low, simp)+
  then show "drop_bit 2 (q + 4) \<noteq> drop_bit 2 q" "drop_bit 2 (q + 8) \<noteq> drop_bit 2 q" "drop_bit 2 (q + 12) \<noteq> drop_bit 2 q"
    "drop_bit 2 (q + 8) \<noteq> drop_bit 2 (q + 4)" "drop_bit 2 (q + 12) \<noteq> drop_bit 2 (q + 4)" "drop_bit 2 (q + 12) \<noteq> drop_bit 2 (q + 8)"
    using eq [of "q + 4" q] eq [of "q + 8" q] eq [of "q + 12" q] eq [of "q + 8" "q + 4"] eq [of "q + 12" "q + 4"] eq [of "q + 12" "q + 8"] by auto
qed

lemma msi_header:
  "(h AND 0xFFFF) OR push_bit 16 (ucast ((ucast (drop_bit 16 h) :: u16) OR 1)) = h OR 0x10000" for h :: u32
proof -
  have m: "h AND 0xFFFF = take_bit 16 h" by (simp add: take_bit_eq_mask mask_eq_exp_minus_1)
  have k: "(0x10000 :: u32) = 2 ^ 16" by simp
  show ?thesis
  proof (rule bit_word_eqI)
    fix n
    show "bit ((h AND 0xFFFF) OR push_bit 16 (ucast ((ucast (drop_bit 16 h) :: u16) OR 1))) n = bit (h OR 0x10000) n"
      unfolding m k bit_or_iff bit_push_bit_iff bit_ucast_iff bit_drop_bit_eq bit_take_bit_iff bit_1_iff bit_exp_iff
      by (auto dest: bit_imp_le_length)
  qed
qed

lemma msi_64bit: "(ucast (drop_bit 16 h) :: u16) AND 0x80 = 0 \<longleftrightarrow> \<not> bit h 23" for h :: u32
  using and_exp_eq_0_iff_not_bit [of "ucast (drop_bit 16 h) :: u16" 7] by (simp add: bit_ucast_iff bit_drop_bit_eq)

definition msi_writable :: "pci_device \<Rightarrow> u8 \<Rightarrow> 'a pci_scheme \<Rightarrow> bool" where
  "msi_writable dev q s \<longleftrightarrow> dev_slot dev < 32 \<and> dev_func dev < 8 \<and> bit (cfg_writable s (dev_addr dev q)) 16 \<and>
     (\<forall>off \<in> {q + 4, q + 8, q + 12}. cfg_writable s (dev_addr dev off) = - 1)"

lemma msi_program_registers:
  assumes w: "msi_writable dev q s"
  shows "msi_registers dev v d q (cfg s) (cfg (msi_program dev v d q (cfg s (dev_addr dev q)) s))"
proof -
  let ?A = "dev_addr dev"
  have inj: "?A x = ?A y \<Longrightarrow> drop_bit 2 x = drop_bit 2 y" for x y
    using cfg_addr_inj [of "dev_bus dev" "dev_slot dev" "dev_func dev" x] w by (auto simp: msi_writable_def)
  have apart: "?A (q + 4) \<noteq> ?A q" "?A (q + 8) \<noteq> ?A q" "?A (q + 12) \<noteq> ?A q" "?A (q + 8) \<noteq> ?A (q + 4)" "?A (q + 12) \<noteq> ?A (q + 4)" "?A (q + 12) \<noteq> ?A (q + 8)"
    using inj offset_apart [of q] by blast+
  have wr: "cfg_writable s (?A (q + 4)) = - 1" "cfg_writable s (?A (q + 8)) = - 1" "cfg_writable s (?A (q + 12)) = - 1"
    "bit (cfg_writable s (?A q)) 16" using w by (auto simp: msi_writable_def)
  have k: "(0x10000 :: u32) = 2 ^ 16" by simp
  have hdr: "cfg s (?A q) AND NOT (cfg_writable s (?A q)) OR (cfg s (?A q) OR 0x10000) AND cfg_writable s (?A q) = cfg s (?A q) OR 0x10000"
    using wr(4) unfolding k by (intro bit_word_eqI; unfold bit_or_iff bit_and_iff bit_not_iff bit_exp_iff) auto
  note ops = msi_program_def Let_def write_config msi_header msi_64bit
  show ?thesis
  proof (cases "bit (cfg s (?A q)) 23")
    case True
    have "cfg (msi_program dev v d q (cfg s (?A q)) s) =
        (cfg s)(?A (q + 4) := 0xFEE00000 OR push_bit 12 (ucast d), ?A (q + 8) := 0, ?A (q + 12) := ucast v, ?A q := cfg s (?A q) OR 0x10000)"
      unfolding ops using True apart apart [symmetric] wr hdr by simp
    then show ?thesis using True apart apart [symmetric] by (simp add: msi_registers_def)
  next
    case False
    have "cfg (msi_program dev v d q (cfg s (?A q)) s) =
        (cfg s)(?A (q + 4) := 0xFEE00000 OR push_bit 12 (ucast d), ?A (q + 8) := ucast v, ?A q := cfg s (?A q) OR 0x10000)"
      unfolding ops using False apart apart [symmetric] wr hdr by simp
    then show ?thesis using False apart apart [symmetric] by (simp add: msi_registers_def)
  qed
qed



end
