(* ===== verification/Ivshmem.thy ===== *)
theory Ivshmem
  imports Pci Pic Vmm
begin

text \<open>
  The shared-memory device (\<^verbatim>\<open>kernel/drivers/ivshmem.c\<close>) and the local APIC it acknowledges (\<^verbatim>\<open>kernel/arch/x86_64/apic.c\<close>). The state joins
  configuration space, interrupt tables and controllers, and the address space through which device registers and
  shared memory are reached. \<open>None\<close> stands for a page fault or for a walk over capabilities that does not end.
\<close>

section \<open>Local APIC\<close>

definition IA32_APIC_BASE_MSR :: u32 where [zconst]: "IA32_APIC_BASE_MSR = 0x1B"
definition IA32_APIC_BASE_MSR_ENABLE :: u64 where [zconst]: "IA32_APIC_BASE_MSR_ENABLE = 0x800"
definition LAPIC_ID :: u32 where [zconst]: "LAPIC_ID = 0x020"
definition LAPIC_EOI :: u32 where [zconst]: "LAPIC_EOI = 0x0B0"
definition LAPIC_SVR :: u32 where [zconst]: "LAPIC_SVR = 0x0F0"
definition APIC_SVR_ENABLE :: u32 where [zconst]: "APIC_SVR_ENABLE = 0x100"

definition PTE_CACHE_DISABLE :: u32 where [zconst]: "PTE_CACHE_DISABLE = push_bit 4 1"
definition IVSHMEM_VENDOR_ID :: u16 where [zconst]: "IVSHMEM_VENDOR_ID = 0x1AF4"
definition IVSHMEM_DEVICE_ID :: u16 where [zconst]: "IVSHMEM_DEVICE_ID = 0x1110"
definition IVSHMEM_VIRT_START :: u32 where [zconst]: "IVSHMEM_VIRT_START = 0xE0000000"
definition IVSHMEM_MMR_VIRT :: u32 where [zconst]: "IVSHMEM_MMR_VIRT = 0xE1000000"
definition IVSHMEM_REG_INTRMASK :: u32 where [zconst]: "IVSHMEM_REG_INTRMASK = 0x00"
definition IVSHMEM_REG_INTRSTATUS :: u32 where [zconst]: "IVSHMEM_REG_INTRSTATUS = 0x04"
definition IVSHMEM_REG_IVPOSITION :: u32 where [zconst]: "IVSHMEM_REG_IVPOSITION = 0x08"
definition IVSHMEM_REG_DOORBELL :: u32 where [zconst]: "IVSHMEM_REG_DOORBELL = 0x0C"

record ivshmem = vmm +
  iv_pci :: pci
  iv_pic :: pic_state
  msrs :: "u32 \<Rightarrow> u64"
  lapic_base :: u32
  ivshmem_phys_base :: u32
  ivshmem_size :: u32
  ivshmem_virt_base :: u32
  ivshmem_irq :: u8
  ivshmem_use_msi :: bool
  ivshmem_mmr_base :: u32
  ivshmem_mmr_size :: u32
  ivshmem_callback :: u32

definition lapic_read :: "u32 \<Rightarrow> 'a ivshmem_scheme \<Rightarrow> u32 option" where
  "lapic_read reg s = vread (lapic_base s + reg) s"

definition lapic_write :: "u32 \<Rightarrow> u32 \<Rightarrow> 'a ivshmem_scheme \<Rightarrow> 'a ivshmem_scheme option" where
  "lapic_write reg val s = vwrite (lapic_base s + reg) val s"

definition lapic_eoi :: "'a ivshmem_scheme \<Rightarrow> 'a ivshmem_scheme option" where
  "lapic_eoi s = lapic_write LAPIC_EOI 0 s"

definition lapic_get_id :: "'a ivshmem_scheme \<Rightarrow> u32 option" where
  "lapic_get_id s = map_option (\<lambda>v. drop_bit 24 v AND 0xFF) (lapic_read LAPIC_ID s)"

definition rdmsr :: "u32 \<Rightarrow> 'a ivshmem_scheme \<Rightarrow> u64" where
  "rdmsr msr s = msrs s msr"

definition wrmsr :: "u32 \<Rightarrow> u64 \<Rightarrow> 'a ivshmem_scheme \<Rightarrow> 'a ivshmem_scheme" where
  "wrmsr msr val s = s\<lparr>msrs := (msrs s)(msr := val)\<rparr>"

definition lapic_init :: "'a ivshmem_scheme \<Rightarrow> 'a ivshmem_scheme option" where
  "lapic_init s =
     (let apic_msr = rdmsr IA32_APIC_BASE_MSR s;
          phys_base = ucast (apic_msr AND 0xFFFFF000);
          s = s\<lparr>lapic_base := phys_base\<rparr>;
          s = wrmsr IA32_APIC_BASE_MSR (apic_msr OR IA32_APIC_BASE_MSR_ENABLE) s
      in do {
        s \<leftarrow> lapic_write LAPIC_SVR (0xFF OR APIC_SVR_ENABLE) s;
        _ \<leftarrow> lapic_get_id s;
        Some s
      })"

section \<open>Interrupt handler\<close>

text \<open>\<open>callback\<close> is the effect of the registered function.\<close>

definition ivshmem_isr_handler :: "('a ivshmem_scheme \<Rightarrow> 'a ivshmem_scheme option) \<Rightarrow> 'a ivshmem_scheme \<Rightarrow> 'a ivshmem_scheme option" where
  "ivshmem_isr_handler callback s = do {
     _ \<leftarrow> (if ivshmem_mmr_base s \<noteq> 0 then vread (ivshmem_mmr_base s + IVSHMEM_REG_INTRSTATUS) s else Some 0);
     s \<leftarrow> (if ivshmem_callback s \<noteq> 0 then callback s else Some s);
     if ivshmem_use_msi s then lapic_eoi s else Some s
   }"

definition ivshmem_set_callback :: "u32 \<Rightarrow> 'a ivshmem_scheme \<Rightarrow> 'a ivshmem_scheme" where
  "ivshmem_set_callback cb s = s\<lparr>ivshmem_callback := cb\<rparr>"

section \<open>Initialisation\<close>

text \<open>The accesses to configuration space, on the whole state.\<close>

definition on_pci :: "(pci \<Rightarrow> 'b \<times> pci) \<Rightarrow> 'a ivshmem_scheme \<Rightarrow> 'b \<times> 'a ivshmem_scheme" where
  "on_pci f s = (case f (iv_pci s) of (r, p) \<Rightarrow> (r, s\<lparr>iv_pci := p\<rparr>))"

definition get_bar :: "pci_device \<Rightarrow> int \<Rightarrow> 'a ivshmem_scheme \<Rightarrow> (u32 \<times> u32) \<times> 'a ivshmem_scheme" where
  "get_bar dev i = on_pci (\<lambda>p. case pci_get_bar dev i p of (base, len, p) \<Rightarrow> ((base, len), p))"

definition read_cfg :: "pci_device \<Rightarrow> u8 \<Rightarrow> 'a ivshmem_scheme \<Rightarrow> u32 \<times> 'a ivshmem_scheme" where
  "read_cfg dev off = on_pci (pci_read_config_32 (dev_bus dev) (dev_slot dev) (dev_func dev) off)"

definition write_cfg :: "pci_device \<Rightarrow> u8 \<Rightarrow> u32 \<Rightarrow> 'a ivshmem_scheme \<Rightarrow> 'a ivshmem_scheme" where
  "write_cfg dev off v s = s\<lparr>iv_pci := pci_write_config_32 (dev_bus dev) (dev_slot dev) (dev_func dev) off v (iv_pci s)\<rparr>"

text \<open>\<open>ivshmem-plain\<close>: the shared memory is in BAR0.\<close>

definition init_plain :: "u32 \<Rightarrow> u32 \<Rightarrow> 'a ivshmem_scheme \<Rightarrow> 'a ivshmem_scheme option" where
  "init_plain bar0 bar0_size s = do {
     let s = s\<lparr>ivshmem_mmr_base := 0, ivshmem_mmr_size := 0, ivshmem_phys_base := bar0, ivshmem_size := bar0_size\<rparr>;
     (r, s) \<leftarrow> vmm_map_range IVSHMEM_VIRT_START (ivshmem_phys_base s) (ivshmem_size s) 0x13 s;
     if r \<noteq> 0 then Some s
     else do {
       let s = s\<lparr>ivshmem_virt_base := IVSHMEM_VIRT_START\<rparr>;
       s \<leftarrow> vwrite (ivshmem_virt_base s) 0xCAFEBABE s;
       v \<leftarrow> vread (ivshmem_virt_base s) s;
       if v = 0xCAFEBABE then vwrite (ivshmem_virt_base s) 0 s
       else do { _ \<leftarrow> vread (ivshmem_virt_base s) s; Some s }
     }
   }"

text \<open>\<open>ivshmem-doorbell\<close>: registers in BAR0.\<close>

definition init_mmr :: "u32 \<Rightarrow> u32 \<Rightarrow> 'a ivshmem_scheme \<Rightarrow> 'a ivshmem_scheme option" where
  "init_mmr bar0 bar0_size s =
     (if bar0 \<noteq> 0 \<and> bar0_size > 0
      then do {
        (r, s) \<leftarrow> vmm_map_range IVSHMEM_MMR_VIRT bar0 bar0_size (PTE_PRESENT OR PTE_WRITABLE OR PTE_CACHE_DISABLE) s;
        if r = 0
        then do {
          let s = s\<lparr>ivshmem_mmr_base := IVSHMEM_MMR_VIRT, ivshmem_mmr_size := bar0_size\<rparr>;
          vwrite (ivshmem_mmr_base s + IVSHMEM_REG_INTRMASK) 0 s
        }
        else Some s
      }
      else Some s)"

definition init_irq :: "u32 \<Rightarrow> pci_device \<Rightarrow> 'a ivshmem_scheme \<Rightarrow> 'a ivshmem_scheme option" where
  "init_irq isr_handler_addr dev s = do {
     apic_id \<leftarrow> lapic_get_id s;
     (r, p) \<leftarrow> pci_enable_msi dev 50 (ucast apic_id) (iv_pci s);
     let s = s\<lparr>iv_pci := p\<rparr>;
     let s = (if r = 0
              then s\<lparr>iv_pic := idt_register_handler 50 isr_handler_addr (iv_pic s), ivshmem_irq := 50, ivshmem_use_msi := True\<rparr>
              else s\<lparr>ivshmem_irq := 0, ivshmem_use_msi := False\<rparr>);
     if ivshmem_irq s = 0
     then do {
       let (irq_reg, s) = read_cfg dev 0x3C s;
       let s = s\<lparr>ivshmem_irq := ucast (irq_reg AND 0xFF)\<rparr>;
       if ivshmem_irq s > 0 \<and> ivshmem_irq s < 16 \<and> ivshmem_irq s \<noteq> 0xFF
       then Some (s\<lparr>iv_pic := pic_unmask_irq (ivshmem_irq s) (idt_register_handler (32 + ivshmem_irq s) isr_handler_addr (iv_pic s))\<rparr>)
       else Some s
     }
     else Some s
   }"

definition init_bar2 :: "pci_device \<Rightarrow> 'a ivshmem_scheme \<Rightarrow> 'a ivshmem_scheme option" where
  "init_bar2 dev s = do {
     let ((bar2, size_mask), s) = get_bar dev 2 s;
     let (bar2, s) =
       (if bar2 = 0
        then let bar2 = 0xA0000000;
                 s = write_cfg dev 0x18 bar2 s;
                 s = write_cfg dev 0x1C 0 s;
                 s = snd (read_cfg dev 0x18 s);
                 (cmd, s) = read_cfg dev 0x04 s;
                 s = write_cfg dev 0x04 (cmd OR 0x06) s
             in (bar2, s)
        else (bar2, s));
     let s = s\<lparr>ivshmem_phys_base := bar2, ivshmem_size := size_mask, ivshmem_virt_base := bar2\<rparr>;
     (r, s) \<leftarrow> vmm_map_range (ivshmem_virt_base s) (ivshmem_phys_base s) (ivshmem_size s) 0x03 s;
     Some s
   }"

definition ivshmem_init :: "u32 \<Rightarrow> 'a ivshmem_scheme \<Rightarrow> 'a ivshmem_scheme option" where
  "ivshmem_init isr_handler_addr s =
     (case on_pci (pci_find_device IVSHMEM_VENDOR_ID IVSHMEM_DEVICE_ID) s of
        (None, s) \<Rightarrow> Some s
      | (Some dev, s) \<Rightarrow>
          (case get_bar dev 0 s of
             ((bar0, bar0_size), s) \<Rightarrow>
               if bar0_size \<ge> 4096 then init_plain bar0 bar0_size s
               else do {
                 s \<leftarrow> init_mmr bar0 bar0_size s;
                 s \<leftarrow> init_irq isr_handler_addr dev s;
                 init_bar2 dev s
               }))"

definition ivshmem_get_shared_memory :: "'a ivshmem_scheme \<Rightarrow> u32" where
  "ivshmem_get_shared_memory s = ivshmem_virt_base s"

definition ivshmem_get_size :: "'a ivshmem_scheme \<Rightarrow> u32" where
  "ivshmem_get_size s = ivshmem_size s"

definition ivshmem_get_irq :: "'a ivshmem_scheme \<Rightarrow> u8" where
  "ivshmem_get_irq s = ivshmem_irq s"

definition ivshmem_get_peer_id :: "'a ivshmem_scheme \<Rightarrow> u32 option" where
  "ivshmem_get_peer_id s = (if ivshmem_mmr_base s = 0 then Some 0 else vread (ivshmem_mmr_base s + IVSHMEM_REG_IVPOSITION) s)"

definition ivshmem_ring_doorbell :: "u32 \<Rightarrow> u32 \<Rightarrow> 'a ivshmem_scheme \<Rightarrow> 'a ivshmem_scheme option" where
  "ivshmem_ring_doorbell peer_id vector s =
     (if ivshmem_mmr_base s = 0 then Some s
      else let doorbell_val = push_bit 16 peer_id OR (vector AND 0xFFFF)
           in vwrite (ivshmem_mmr_base s + IVSHMEM_REG_DOORBELL) doorbell_val s)"

definition ivshmem_has_doorbell :: "'a ivshmem_scheme \<Rightarrow> bool" where
  "ivshmem_has_doorbell s \<longleftrightarrow> ivshmem_mmr_base s \<noteq> 0"

section \<open>Interrupt delivery\<close>

lemma pic_unmask_tables: "idt (pic_unmask_irq i p) = idt p" "irq_handlers (pic_unmask_irq i p) = irq_handlers p"
  "handlers (pic_unmask_irq i p) = handlers p"
  by (simp_all add: pic_unmask_irq_def outb_simps Let_def)

text \<open>
  Interrupts of the device do not reach its handler. The interrupt setup changes neither the gates nor the table that \<open>irq_handler\<close> dispatches by: after
  \<open>idt_init\<close> the MSI vector 50 has no gate, and the handler for a legacy line stands in a table that IRQs never consult.
\<close>

theorem ivshmem_irq_not_delivered:
  assumes "init_irq h dev s = Some t" "length (idt (iv_pic s)) = 256" "\<not> present (idt (iv_pic s) ! 50)"
  shows "\<not> present (idt (iv_pic t) ! 50) \<and> irq_handlers (iv_pic t) = irq_handlers (iv_pic s)"
proof -
  have "idt (iv_pic t) = idt (iv_pic s) \<and> irq_handlers (iv_pic t) = irq_handlers (iv_pic s)"
    using assms(1) by (auto simp: init_irq_def Let_def read_cfg_def on_pci_def idt_register_handler_def pic_unmask_tables
        split: bind_splits if_splits prod.splits)
  then show ?thesis using assms(3) by simp
qed

text \<open>Ringing the doorbell writes one register; the upper half names the peer and the lower half the vector.\<close>

theorem ivshmem_doorbell_correct:
  assumes "ivshmem_mmr_base s \<noteq> 0" "mmu s (ivshmem_mmr_base s + 12) = Some pa" "peer < 0x10000" "vector < 0x10000"
  shows "\<exists>t. ivshmem_ring_doorbell peer vector s = Some t \<and>
    drop_bit 16 (rd32 (pmem t) (unat pa)) = peer \<and> take_bit 16 (rd32 (pmem t) (unat pa)) = vector"
proof -
  have b: "take_bit 16 peer = peer" "take_bit 16 vector = vector"
    using assms(3,4) by (simp_all add: word_unat_eq_iff unsigned_take_bit_eq take_bit_nat_eq_self word_less_nat_alt)
  have vb: "bit peer n \<Longrightarrow> n < 16" "bit vector n \<Longrightarrow> n < 16" for n using b by (metis bit_take_bit_iff)+
  have m: "vector AND 0xFFFF = vector" using b(2) by (simp add: take_bit_eq_mask mask_eq_exp_minus_1)
  let ?v = "push_bit 16 peer OR vector"
  have "drop_bit 16 ?v = peer"
    by (intro bit_word_eqI) (auto simp: bit_drop_bit_eq bit_or_iff bit_push_bit_iff dest: vb)
  moreover have "take_bit 16 ?v = vector"
    by (intro bit_word_eqI) (auto simp: bit_or_iff bit_push_bit_iff bit_take_bit_iff dest: vb)
  moreover have "ivshmem_ring_doorbell peer vector s = Some (s\<lparr>pmem := wr32 (pmem s) (unat pa) ?v\<rparr>)"
    using assms(1,2) m by (simp add: ivshmem_ring_doorbell_def vwrite_def IVSHMEM_REG_DOORBELL_def)
  ultimately show ?thesis by simp
qed

end
