(* ===== verification/Wasm_Loader.thy ===== *)
theory Wasm_Loader
  imports Ipc_Heap Kheap Ivshmem
begin

text \<open>
  The WebAssembly loader and its host functions (\<^verbatim>\<open>kernel/wasm_loader.c\<close>, \<^verbatim>\<open>kernel/wasm/host_funcs.c\<close>, the dot product of
  \<^verbatim>\<open>kernel/lib/math.c\<close>): running a module in the interpreter, what a guest can ask of the kernel, and the cache of
  model weights behind inference. The interpreter wasm3 is a parameter, an arbitrary machine with its own state and
  access to the kernel's memory that calls back into the host functions; so are the floating-point operations, on
  the 32 bits of a float. The kernel heap, the shared heap and the console are those of the other theories. Messages
  about errors are left out; what a guest prints is modelled.
\<close>

section \<open>State\<close>

definition WASM_STACK_SIZE :: u32 where [zconst]: "WASM_STACK_SIZE = 16384"
definition WASM_PRINT_MAX_BYTES :: u32 where [zconst]: "WASM_PRINT_MAX_BYTES = 512"
definition WASM_MEMORY_LIMIT_PAGES :: u32 where [zconst]: "WASM_MEMORY_LIMIT_PAGES = 16"
definition WASM_MEMORY_LIMIT_BYTES :: u32 where [zconst]: "WASM_MEMORY_LIMIT_BYTES = WASM_MEMORY_LIMIT_PAGES * 65536"

datatype m3_result = M3Err_none | M3Err_trapOutOfBoundsMemoryAccess | M3Err_trapAbort | M3Err_other nat

text \<open>The functions that are linked into a module, and a call of one with its arguments.\<close>

datatype host = Log_int_fn | Print_fn | Abort_fn | Inference_fn | Accelerate_fn

datatype host_args = Log_int u32 | Print u32 u32 | Abort u32 u32 u32 u32 | Inference u32 | Accelerate u32 u32

text \<open>
  What the interpreter does when it is given the processor: it ends the function with a result, or calls a host
  function with its runtime, the address of the linear memory and the arguments.
\<close>

datatype m3_event = Returned m3_result | Host_call u64 u64 host_args

text \<open>The interface of the interpreter, on its own state and the kernel's memory.\<close>

type_synonym 'm m3 = "'m \<times> kheap"

record 'm wasm3 =
  m3_NewEnvironment :: "'m m3 \<Rightarrow> u64 \<times> 'm m3"
  m3_NewRuntime :: "u64 \<Rightarrow> u32 \<Rightarrow> 'm m3 \<Rightarrow> u64 \<times> 'm m3"
  m3_memoryLimit :: "u64 \<Rightarrow> u32 \<Rightarrow> 'm m3 \<Rightarrow> 'm m3"
  m3_ParseModule :: "u64 \<Rightarrow> u64 \<Rightarrow> u32 \<Rightarrow> 'm m3 \<Rightarrow> (m3_result \<times> u64) \<times> 'm m3"
  m3_LoadModule :: "u64 \<Rightarrow> u64 \<Rightarrow> 'm m3 \<Rightarrow> m3_result \<times> 'm m3"
  m3_LinkRawFunction :: "u64 \<Rightarrow> host \<Rightarrow> 'm m3 \<Rightarrow> 'm m3"
  m3_FindFunction :: "u64 \<Rightarrow> string \<Rightarrow> 'm m3 \<Rightarrow> (m3_result \<times> u64) \<times> 'm m3"
  m3_GetMemory :: "u64 \<Rightarrow> 'm m3 \<Rightarrow> u64 \<times> u32"
  m3_enter :: "u64 \<Rightarrow> u32 list \<Rightarrow> 'm m3 \<Rightarrow> 'm m3"
  m3_step :: "'m m3 \<Rightarrow> m3_event \<times> 'm m3"
  m3_resume :: "m3_result \<times> u32 \<Rightarrow> 'm m3 \<Rightarrow> 'm m3"
  m3_GetResultsV :: "u64 \<Rightarrow> 'm m3 \<Rightarrow> u32"
  m3_FreeModule :: "u64 \<Rightarrow> 'm m3 \<Rightarrow> 'm m3"
  m3_FreeRuntime :: "u64 \<Rightarrow> 'm m3 \<Rightarrow> 'm m3"

text \<open>The processor: addition and multiplication of floats, and what an uninitialised buffer holds.\<close>

record cpu =
  fadd :: "u32 \<Rightarrow> u32 \<Rightarrow> u32"
  fmul :: "u32 \<Rightarrow> u32 \<Rightarrow> u32"
  junk :: "u8 list"

text \<open>The calls the loader makes to the interpreter are recorded in order, with the handles they return.\<close>

datatype m3_call =
    New_environment u64 | New_runtime u64 | Limit_memory u64 u32 | Parse_module "u64 option" | Load_module u64 u64 bool
  | Link u64 host | Find_function u64 "u64 option" | Call_function u64 | Get_results u64 | Free_module u64 | Free_runtime u64

record 'm wasm =
  w_dev :: ivshmem
  w_heap :: ipc_heap
  w_kheap :: kheap
  w_console :: console
  g_env :: u64
  g_last_obs :: u64
  g_last_obs_len :: u64
  g_cached_model_id :: u32
  g_cached_weights :: u64
  g_cached_weights_len :: u64
  m3_state :: 'm
  m3_calls :: "m3_call list"

abbreviation w_m3 :: "'m wasm \<Rightarrow> 'm m3" where "w_m3 s \<equiv> (m3_state s, w_kheap s)"

definition set_m3 :: "'m m3 \<Rightarrow> 'm wasm \<Rightarrow> 'm wasm" where
  "set_m3 x s = s\<lparr>m3_state := fst x, w_kheap := snd x\<rparr>"

definition m3_query :: "('r \<Rightarrow> m3_call) \<Rightarrow> ('m m3 \<Rightarrow> 'r \<times> 'm m3) \<Rightarrow> 'm wasm \<Rightarrow> 'r \<times> 'm wasm" where
  "m3_query call f s = (case f (w_m3 s) of (r, x) \<Rightarrow> (r, (set_m3 x s)\<lparr>m3_calls := m3_calls s @ [call r]\<rparr>))"

definition m3_command :: "m3_call \<Rightarrow> ('m m3 \<Rightarrow> 'm m3) \<Rightarrow> 'm wasm \<Rightarrow> 'm wasm" where
  "m3_command call f s = (set_m3 (f (w_m3 s)) s)\<lparr>m3_calls := m3_calls s @ [call]\<rparr>"

section \<open>Inference\<close>

definition copy_weights :: "u64 \<Rightarrow> u64 \<Rightarrow> mem \<Rightarrow> nat \<Rightarrow> mem \<Rightarrow> mem" where
  "copy_weights buf len src_mem src m =
     wfor 0 len (\<lambda>i m. wr32 m (unat (buf + 4 * i)) (rd32 src_mem (src + 4 * unat i))) m"

definition wasm_load_model_weights :: "u32 \<Rightarrow> 'm wasm \<Rightarrow> (int \<times> 'm wasm) option" where
  "wasm_load_model_weights model_id s =
     (if model_id = 0 then Some (- 1, s)
      else if g_cached_model_id s = model_id \<and> g_cached_weights s \<noteq> 0 \<and> g_cached_weights_len s > 0 then Some (0, s)
      else do {
        (size, h) \<leftarrow> heap_get_blob_size (ucast model_id) (w_heap s);
        let s = s\<lparr>w_heap := h\<rparr>;
        if size = 0 \<or> size mod 4 \<noteq> 0 then Some (- 1, s)
        else do {
          let len = (ucast size div 4 :: u64);
          (src, h) \<leftarrow> heap_get_data (ucast model_id) (w_heap s);
          let s = s\<lparr>w_heap := h\<rparr>;
          (case src of
             None \<Rightarrow> Some (- 1, s)
           | Some src \<Rightarrow> do {
               (buf, k) \<leftarrow> kmalloc (len * 4) (w_kheap s);
               let s = s\<lparr>w_kheap := k\<rparr>;
               if buf = 0 then Some (- 1, s)
               else do {
                 let s = s\<lparr>w_kheap := k\<lparr>kmem := copy_weights buf len (shm (w_heap s)) (blob_addr src) (kmem k)\<rparr>\<rparr>;
                 k \<leftarrow> (if g_cached_weights s \<noteq> 0 then kfree (g_cached_weights s) (w_kheap s) else Some (w_kheap s));
                 Some (0, s\<lparr>w_kheap := k, g_cached_weights := buf, g_cached_weights_len := len, g_cached_model_id := model_id\<rparr>)
               }
             })
        }
      })"

definition math_vec_dot :: "cpu \<Rightarrow> u64 \<Rightarrow> u64 \<Rightarrow> int \<Rightarrow> mem \<Rightarrow> u32" where
  "math_vec_dot c a b n m =
     fold (\<lambda>i sum. fadd c sum (fmul c (rd32 m (unat (a + 4 * of_nat i))) (rd32 m (unat (b + 4 * of_nat i))))) [0..<nat n] 0"

text \<open>\<open>None\<close> for the error code, the action otherwise.\<close>

definition zenedge_infer_action :: "cpu \<Rightarrow> u64 \<Rightarrow> u64 \<Rightarrow> u32 \<Rightarrow> 'm wasm \<Rightarrow> (u32 option \<times> 'm wasm) option" where
  "zenedge_infer_action c obs_ptr obs_len model_id s =
     (if obs_ptr = 0 \<or> obs_len = 0 then Some (None, s)
      else do {
        (r, s) \<leftarrow> wasm_load_model_weights model_id s;
        if r \<noteq> 0 then Some (None, s)
        else do {
          let n = (if g_cached_weights_len s < obs_len then g_cached_weights_len s else obs_len);
          if n = 0 then Some (None, s)
          else do {
            let u = math_vec_dot c obs_ptr (g_cached_weights s) (sint (ucast n :: u32)) (kmem (w_kheap s));
            let is_positive = (u AND 0x80000000 = 0 \<and> u AND 0x7FFFFFFF \<noteq> 0);
            Some (Some (if is_positive then 1 else 0), s)
          }
        }
      })"

definition kernel_infer_action :: "cpu \<Rightarrow> u64 \<Rightarrow> u64 \<Rightarrow> u32 \<Rightarrow> 'm wasm \<Rightarrow> (int \<times> 'm wasm) option" where
  "kernel_infer_action c obs_ptr obs_len model_id s = do {
     (action, s) \<leftarrow> zenedge_infer_action c obs_ptr obs_len model_id s;
     Some (case action of None \<Rightarrow> - 1 | Some a \<Rightarrow> sint a, s)
   }"

definition wasm_get_profile :: "'m wasm \<Rightarrow> u64 \<times> u32 \<times> u16" where
  "wasm_get_profile s =
     (g_cached_weights s, g_cached_model_id s,
      if g_cached_weights_len s > 0xFFFF then 0xFFFF else ucast (g_cached_weights_len s))"

section \<open>Host functions\<close>

definition wasm_mem_span_ok :: "'m wasm3 \<Rightarrow> u64 \<Rightarrow> u64 \<Rightarrow> u32 \<Rightarrow> 'm wasm \<Rightarrow> bool" where
  "wasm_mem_span_ok w rt p len s =
     (let (mem, mem_size) = m3_GetMemory w rt (w_m3 s)
      in if mem = 0 then False
         else let base = mem; lim = base + ucast mem_size; a = p; b = a + ucast len
              in if b < a then False else if a < base then False else if b > lim then False else True)"

definition m3_zenedge_log_int :: "cpu \<Rightarrow> u32 \<Rightarrow> 'm wasm \<Rightarrow> (m3_result \<times> 'm wasm) option" where
  "m3_zenedge_log_int c val s = do {
     t \<leftarrow> console_write (ascii ''[wasm] log_int: '') (w_console s);
     t \<leftarrow> print_uint (junk c) val t;
     t \<leftarrow> console_write newline t;
     Some (M3Err_none, s\<lparr>w_console := t\<rparr>)
   }"

definition chunk_len :: "u32 \<Rightarrow> u32 \<Rightarrow> u32" where
  "chunk_len len i = (let n = len - i in if n > 63 then 63 else n)"

partial_function (option) print_chunks :: "u64 \<Rightarrow> u32 \<Rightarrow> u32 \<Rightarrow> mem \<Rightarrow> console \<Rightarrow> console option" where
  "print_chunks ptr len i m c =
     (if i < len
      then console_write (c_str (map (\<lambda>j. m (unat (ptr + ucast (i + of_nat j)))) [0..<unat (chunk_len len i)])) c \<bind>
             print_chunks ptr len (i + chunk_len len i) m
      else Some c)"

definition m3_zenedge_print :: "'m wasm3 \<Rightarrow> u64 \<Rightarrow> u64 \<Rightarrow> u32 \<Rightarrow> u32 \<Rightarrow> 'm wasm \<Rightarrow> (m3_result \<times> 'm wasm) option" where
  "m3_zenedge_print w rt mem off len s =
     (let ptr = mem + ucast off
      in if rt = 0 then Some (M3Err_trapOutOfBoundsMemoryAccess, s)
         else let len = (if len > WASM_PRINT_MAX_BYTES then WASM_PRINT_MAX_BYTES else len)
              in if \<not> wasm_mem_span_ok w rt ptr len s
                 then do {
                   c \<leftarrow> console_write (ascii ''[wasm] print OOB'' @ newline) (w_console s);
                   Some (M3Err_trapOutOfBoundsMemoryAccess, s\<lparr>w_console := c\<rparr>)
                 }
                 else do {
                   c \<leftarrow> console_write (ascii ''[wasm] '') (w_console s);
                   c \<leftarrow> print_chunks ptr len 0 (kmem (w_kheap s)) c;
                   c \<leftarrow> console_write newline c;
                   Some (M3Err_none, s\<lparr>w_console := c\<rparr>)
                 })"

definition m3_zenedge_abort :: "cpu \<Rightarrow> u32 \<Rightarrow> u32 \<Rightarrow> 'm wasm \<Rightarrow> (m3_result \<times> 'm wasm) option" where
  "m3_zenedge_abort c line col s = do {
     t \<leftarrow> console_write (ascii ''[wasm] abort at '') (w_console s);
     t \<leftarrow> print_uint (junk c) line t;
     t \<leftarrow> console_write (ascii '':'') t;
     t \<leftarrow> print_uint (junk c) col t;
     t \<leftarrow> console_write newline t;
     Some (M3Err_trapAbort, s\<lparr>w_console := t\<rparr>)
   }"

definition m3_zenedge_inference :: "cpu \<Rightarrow> u32 \<Rightarrow> 'm wasm \<Rightarrow> ((m3_result \<times> u32) \<times> 'm wasm) option" where
  "m3_zenedge_inference c tensor_id s =
     (if g_last_obs s = 0 \<or> g_last_obs_len s = 0 then Some ((M3Err_none, 0), s)
      else do {
        (action, s) \<leftarrow> zenedge_infer_action c (g_last_obs s) (g_last_obs_len s) tensor_id s;
        Some ((M3Err_none, case action of None \<Rightarrow> 0 | Some a \<Rightarrow> a), s)
      })"

definition m3_zenedge_accelerate :: "u32 \<Rightarrow> u32 \<Rightarrow> 'm wasm \<Rightarrow> m3_result \<times> u32" where
  "m3_zenedge_accelerate ptr len s =
     (let base = ivshmem_get_shared_memory (w_dev s); shm_size = ivshmem_get_size (w_dev s)
      in if base = 0 \<or> shm_size = 0 then (M3Err_none, 0)
         else let start = (ucast base :: u64); lim = start + ucast shm_size; p = ucast ptr; q = p + ucast len
              in if q < p then (M3Err_none, 0)
                 else if p < start \<or> q > lim then (M3Err_none, 0)
                 else (M3Err_none, 1))"

text \<open>The host functions by name, as they are linked.\<close>

definition host_call :: "'m wasm3 \<Rightarrow> cpu \<Rightarrow> u64 \<Rightarrow> u64 \<Rightarrow> host_args \<Rightarrow> 'm wasm \<Rightarrow> ((m3_result \<times> u32) \<times> 'm wasm) option" where
  "host_call w c rt mem args s =
     (case args of
        Log_int val \<Rightarrow> map_option (map_prod (\<lambda>r. (r, 0)) (\<lambda>s. s)) (m3_zenedge_log_int c val s)
      | Print off len \<Rightarrow> map_option (map_prod (\<lambda>r. (r, 0)) (\<lambda>s. s)) (m3_zenedge_print w rt mem off len s)
      | Abort msg file line col \<Rightarrow> map_option (map_prod (\<lambda>r. (r, 0)) (\<lambda>s. s)) (m3_zenedge_abort c line col s)
      | Inference tensor_id \<Rightarrow> m3_zenedge_inference c tensor_id s
      | Accelerate ptr len \<Rightarrow> Some (m3_zenedge_accelerate ptr len s, s))"

partial_function (option) guest_run :: "'m wasm3 \<Rightarrow> cpu \<Rightarrow> 'm wasm \<Rightarrow> (m3_result \<times> 'm wasm) option" where
  "guest_run w c s =
     (case m3_step w (w_m3 s) of
        (Returned r, x) \<Rightarrow> Some (r, set_m3 x s)
      | (Host_call rt mem args, x) \<Rightarrow>
          host_call w c rt mem args (set_m3 x s) \<bind>
            (\<lambda>(reply, s). guest_run w c (set_m3 (m3_resume w reply (w_m3 s)) s)))"

definition m3_CallV :: "'m wasm3 \<Rightarrow> cpu \<Rightarrow> u64 \<Rightarrow> u32 list \<Rightarrow> 'm wasm \<Rightarrow> (m3_result \<times> 'm wasm) option" where
  "m3_CallV w c f args s = guest_run w c (m3_command (Call_function f) (m3_enter w f args) s)"

section \<open>Running modules\<close>

definition wasm_env_init_once :: "'m wasm3 \<Rightarrow> 'm wasm \<Rightarrow> int \<times> 'm wasm" where
  "wasm_env_init_once w s =
     (if g_env s \<noteq> 0 then (0, s)
      else let (e, s) = m3_query New_environment (m3_NewEnvironment w) s;
               s = s\<lparr>g_env := e\<rparr>
           in if g_env s = 0 then (- 1, s) else (0, s))"

definition parsed :: "m3_result \<times> u64 \<Rightarrow> u64 option" where
  "parsed rm = (if fst rm = M3Err_none then Some (snd rm) else None)"

definition free_runtime :: "'m wasm3 \<Rightarrow> u64 \<Rightarrow> 'm wasm \<Rightarrow> 'm wasm" where
  "free_runtime w rt s = m3_command (Free_runtime rt) (m3_FreeRuntime w rt) s"

definition link_all :: "'m wasm3 \<Rightarrow> u64 \<Rightarrow> host list \<Rightarrow> 'm wasm \<Rightarrow> 'm wasm" where
  "link_all w md hs s = fold (\<lambda>h. m3_command (Link md h) (m3_LinkRawFunction w md h)) hs s"

definition new_runtime :: "'m wasm3 \<Rightarrow> 'm wasm \<Rightarrow> u64 \<times> 'm wasm" where
  "new_runtime w s = m3_query New_runtime (m3_NewRuntime w (g_env s) WASM_STACK_SIZE) s"

definition limit_memory :: "'m wasm3 \<Rightarrow> u64 \<Rightarrow> 'm wasm \<Rightarrow> 'm wasm" where
  "limit_memory w rt s = m3_command (Limit_memory rt WASM_MEMORY_LIMIT_BYTES) (m3_memoryLimit w rt WASM_MEMORY_LIMIT_BYTES) s"

definition parse_module :: "'m wasm3 \<Rightarrow> u64 \<Rightarrow> u64 \<Rightarrow> 'm wasm \<Rightarrow> (m3_result \<times> u64) \<times> 'm wasm" where
  "parse_module w code len s = m3_query (\<lambda>r. Parse_module (parsed r)) (m3_ParseModule w (g_env s) code (ucast len)) s"

definition load_module :: "'m wasm3 \<Rightarrow> u64 \<Rightarrow> u64 \<Rightarrow> 'm wasm \<Rightarrow> m3_result \<times> 'm wasm" where
  "load_module w rt md s = m3_query (\<lambda>r. Load_module rt md (r = M3Err_none)) (m3_LoadModule w rt md) s"

definition find_function :: "'m wasm3 \<Rightarrow> u64 \<Rightarrow> string \<Rightarrow> 'm wasm \<Rightarrow> (m3_result \<times> u64) \<times> 'm wasm" where
  "find_function w rt name s = m3_query (\<lambda>r. Find_function rt (parsed r)) (m3_FindFunction w rt name) s"

definition wasm_run_bytes :: "'m wasm3 \<Rightarrow> cpu \<Rightarrow> u64 \<Rightarrow> u64 \<Rightarrow> 'm wasm \<Rightarrow> (int \<times> 'm wasm) option" where
  "wasm_run_bytes w c code len s =
     (if code = 0 \<or> len = 0 then Some (- 1, s)
      else let (e, s) = wasm_env_init_once w s
        in if e \<noteq> 0 then Some (- 1, s)
           else let (rt, s) = new_runtime w s
             in if rt = 0 then Some (- 1, s)
                else let s = limit_memory w rt s;
                         ((res, md), s) = parse_module w code len s
                  in if res \<noteq> M3Err_none then Some (- 1, free_runtime w rt s)
                     else let (res, s) = load_module w rt md s
                       in if res \<noteq> M3Err_none
                          then Some (- 1, free_runtime w rt (m3_command (Free_module md) (m3_FreeModule w md) s))
                          else let s = link_all w md [Log_int_fn, Print_fn, Abort_fn, Accelerate_fn] s;
                                   ((res, f), s) = find_function w rt ''start'' s;
                                   ((res, f), s) = (if res \<noteq> M3Err_none then find_function w rt ''_start'' s else ((res, f), s))
                            in if res \<noteq> M3Err_none then Some (- 1, free_runtime w rt s)
                               else do {
                                 (res, s) \<leftarrow> m3_CallV w c f [] s;
                                 if res \<noteq> M3Err_none then Some (- 1, free_runtime w rt s)
                                 else Some (0, free_runtime w rt s)
                               })"

definition copy_obs :: "u64 \<Rightarrow> u64 \<Rightarrow> u64 \<Rightarrow> mem \<Rightarrow> mem" where
  "copy_obs dst obs_ptr obs_len m =
     wfor 0 obs_len (\<lambda>i m. wr32 m (unat (dst + 4 * i)) (rd32 m (unat (obs_ptr + 4 * i)))) m"

definition input_fits :: "u64 \<Rightarrow> u32 \<Rightarrow> u32 \<Rightarrow> u64 \<Rightarrow> bool" where
  "input_fits mem mem_size input_offset obs_len \<longleftrightarrow>
     \<not> (mem = 0 \<or> ucast mem_size < ucast input_offset + obs_len * 4)"

definition wasm_run_agent :: "'m wasm3 \<Rightarrow> cpu \<Rightarrow> u64 \<Rightarrow> u64 \<Rightarrow> u64 \<Rightarrow> u64 \<Rightarrow> u32 \<Rightarrow> 'm wasm \<Rightarrow> (int \<times> 'm wasm) option" where
  "wasm_run_agent w c code len obs_ptr obs_len model_id s =
     (if code = 0 \<or> len = 0 then Some (- 1, s)
      else let (e, s) = wasm_env_init_once w s
        in if e \<noteq> 0 then Some (- 1, s)
           else let (rt, s) = new_runtime w s
             in if rt = 0 then Some (- 1, s)
                else let s = limit_memory w rt s;
                         ((res, md), s) = parse_module w code len s
                  in if res \<noteq> M3Err_none then Some (- 1, free_runtime w rt s)
                     else let (res, s) = load_module w rt md s
                       in if res \<noteq> M3Err_none then Some (- 1, free_runtime w rt s)
                          else let s = link_all w md [Log_int_fn, Print_fn, Abort_fn, Inference_fn, Accelerate_fn] s;
                                   ((res, f), s) = find_function w rt ''agent_step'' s
                            in if res \<noteq> M3Err_none then Some (- 1, free_runtime w rt s)
                               else let input_offset = 1024; (mem, mem_size) = m3_GetMemory w rt (w_m3 s)
                                 in if \<not> input_fits mem mem_size input_offset obs_len then Some (- 1, free_runtime w rt s)
                                    else do {
                                      let s = s\<lparr>w_kheap := (w_kheap s)\<lparr>kmem :=
                                                copy_obs (mem + ucast input_offset) obs_ptr obs_len (kmem (w_kheap s))\<rparr>,
                                                g_last_obs := obs_ptr, g_last_obs_len := obs_len\<rparr>;
                                      (res, s) \<leftarrow> m3_CallV w c f [input_offset, ucast obs_len, model_id] s;
                                      if res \<noteq> M3Err_none then Some (- 1, free_runtime w rt s)
                                      else do {
                                        let (action, s) = m3_query (\<lambda>_. Get_results f) (\<lambda>x. (m3_GetResultsV w f x, x)) s;
                                        Some (sint action, free_runtime w rt s)
                                      }
                                    })"

section \<open>Handles of the interpreter\<close>

text \<open>
  The rules of the interface. A runtime is used only between its creation and its release; a module belongs to the
  caller until it is loaded and to its runtime afterwards, and stays with the caller when loading fails; functions are looked up in a loaded module and called only
  in a runtime whose memory is limited; releasing a runtime releases what it owns. \<open>None\<close> is a violation.
\<close>

record handles =
  runtimes :: "u64 list"
  limited :: "u64 list"
  modules :: "u64 list"
  failed :: "u64 list"
  loaded :: "(u64 \<times> u64) list"
  found :: "(u64 \<times> u64) list"

definition no_handles :: handles where
  "no_handles = \<lparr>runtimes = [], limited = [], modules = [], failed = [], loaded = [], found = []\<rparr>"

fun use_handle :: "m3_call \<Rightarrow> handles \<Rightarrow> handles option" where
  "use_handle (New_environment e) h = Some h"
| "use_handle (New_runtime r) h = Some (if r = 0 then h else h\<lparr>runtimes := r # runtimes h\<rparr>)"
| "use_handle (Limit_memory r n) h = (if r \<in> set (runtimes h) then Some (h\<lparr>limited := r # limited h\<rparr>) else None)"
| "use_handle (Parse_module m) h = Some (case m of None \<Rightarrow> h | Some m \<Rightarrow> h\<lparr>modules := m # modules h\<rparr>)"
| "use_handle (Load_module r m ok) h =
     (if r \<in> set (runtimes h) \<and> m \<in> set (modules h)
      then Some (if ok then h\<lparr>modules := remove1 m (modules h), loaded := (m, r) # loaded h\<rparr>
                 else h\<lparr>failed := m # failed h\<rparr>)
      else None)"
| "use_handle (Link m f) h = (if m \<in> fst ` set (loaded h) then Some h else None)"
| "use_handle (Find_function r f) h =
     (if r \<in> snd ` set (loaded h) then Some (case f of None \<Rightarrow> h | Some f \<Rightarrow> h\<lparr>found := (f, r) # found h\<rparr>) else None)"
| "use_handle (Call_function f) h = (if \<exists>r \<in> set (limited h). (f, r) \<in> set (found h) then Some h else None)"
| "use_handle (Get_results f) h = (if f \<in> fst ` set (found h) then Some h else None)"
| "use_handle (Free_module m) h = (if m \<in> set (modules h) then Some (h\<lparr>modules := remove1 m (modules h), failed := remove1 m (failed h)\<rparr>) else None)"
| "use_handle (Free_runtime r) h =
     (if r \<in> set (runtimes h)
      then Some (h\<lparr>runtimes := remove1 r (runtimes h), limited := removeAll r (limited h),
        loaded := filter (\<lambda>x. snd x \<noteq> r) (loaded h), found := filter (\<lambda>x. snd x \<noteq> r) (found h)\<rparr>)
      else None)"

fun use_handles :: "m3_call list \<Rightarrow> handles \<Rightarrow> handles option" where
  "use_handles [] h = Some h"
| "use_handles (c # cs) h = use_handle c h \<bind> use_handles cs"

lemma use_handles_append: "use_handles (cs @ ds) h = use_handles cs h \<bind> use_handles ds"
  by (induction cs arbitrary: h) (auto split: bind_splits)

lemma m3_sel [simp]:
  "m3_calls (set_m3 x s) = m3_calls s" "g_env (set_m3 x s) = g_env s"
  "m3_calls (m3_command call f s) = m3_calls s @ [call]" "g_env (m3_command call f s) = g_env s"
  by (simp_all add: set_m3_def m3_command_def)

lemma m3_query_calls:
  assumes "m3_query call f s = (r, t)"
  shows "m3_calls t = m3_calls s @ [call r]"
  using assms by (auto simp: m3_query_def split: prod.splits)

lemma load_weights_calls: "wasm_load_model_weights k s = Some (r, t) \<Longrightarrow> m3_calls t = m3_calls s"
  by (auto simp: wasm_load_model_weights_def Let_def split: if_splits option.splits bind_splits prod.splits)

lemma infer_calls: "zenedge_infer_action c p n k s = Some (r, t) \<Longrightarrow> m3_calls t = m3_calls s"
  by (auto simp: zenedge_infer_action_def Let_def dest: load_weights_calls split: if_splits bind_splits)

lemma host_call_calls: "host_call w c rt mem args s = Some (r, t) \<Longrightarrow> m3_calls t = m3_calls s"
  by (auto simp: host_call_def m3_zenedge_log_int_def m3_zenedge_print_def m3_zenedge_abort_def m3_zenedge_inference_def Let_def
      dest: infer_calls split: host_args.splits if_splits bind_splits)

lemma guest_run_calls:
  assumes "guest_run w c s = Some y"
  shows "m3_calls (snd y) = m3_calls s"
proof (rule guest_run.raw_induct [of "\<lambda>w c s y. m3_calls (snd y) = m3_calls s", OF _ assms])
  fix run w c and s :: "'a wasm" and y
  assume IH: "\<And>w c s y. run w c s = Some y \<Longrightarrow> m3_calls (snd y) = m3_calls s"
    and run: "(case m3_step w (w_m3 s) of
       (Returned r, x) \<Rightarrow> Some (r, set_m3 x s)
     | (Host_call rt mem args, x) \<Rightarrow>
         host_call w c rt mem args (set_m3 x s) \<bind> (\<lambda>(reply, s). run w c (set_m3 (m3_resume w reply (w_m3 s)) s))) = Some y"
  obtain e x where e: "m3_step w (w_m3 s) = (e, x)" by (cases "m3_step w (w_m3 s)")
  show "m3_calls (snd y) = m3_calls s"
  proof (cases e)
    case (Host_call rt mem args)
    then obtain reply u where h: "host_call w c rt mem args (set_m3 x s) = Some (reply, u)"
      and r: "run w c (set_m3 (m3_resume w reply (w_m3 u)) u) = Some y"
      using run e by (auto split: bind_splits)
    show ?thesis using IH [OF r] host_call_calls [OF h] by simp
  qed (use run e in auto)
qed

lemma m3_CallV_calls:
  assumes "m3_CallV w c f args s = Some (r, t)"
  shows "m3_calls t = m3_calls s @ [Call_function f]"
  using guest_run_calls [OF assms [unfolded m3_CallV_def]] by simp

lemma link_all_calls: "m3_calls (link_all w md hs s) = m3_calls s @ map (Link md) hs"
  unfolding link_all_def by (induction hs arbitrary: s) auto

text \<open>The calls from \<open>s\<close> to \<open>t\<close> take the handles \<open>h\<close> to \<open>h'\<close>.\<close>

definition calls :: "'m wasm \<Rightarrow> handles \<Rightarrow> 'm wasm \<Rightarrow> handles \<Rightarrow> bool" where
  "calls s h t h' \<longleftrightarrow> (\<exists>cs. m3_calls t = m3_calls s @ cs \<and> use_handles cs h = Some h')"

lemma calls_refl: "calls s h s h"
  by (simp add: calls_def)

lemma calls_trans: "calls s h t h' \<Longrightarrow> calls t h' u h'' \<Longrightarrow> calls s h u h''"
  unfolding calls_def by (metis append_assoc use_handles_append Option.bind.bind_lunit)

lemma calls_step: "m3_calls t = m3_calls s @ [x] \<Longrightarrow> use_handle x h = Some h' \<Longrightarrow> calls s h t h'"
  unfolding calls_def by (intro exI [of _ "[x]"]) simp

lemma env_init_calls: "wasm_env_init_once w s = (e, t) \<Longrightarrow> calls s h t h"
proof -
  assume e: "wasm_env_init_once w s = (e, t)"
  obtain e' u where q: "m3_query New_environment (m3_NewEnvironment w) s = (e', u)"
    by (cases "m3_query New_environment (m3_NewEnvironment w) s")
  then show "calls s h t h"
    using e m3_query_calls [OF q] calls_refl [of s h] calls_step [of t s "New_environment e'" h h]
    by (auto simp: wasm_env_init_once_def Let_def split: if_splits)
qed

lemma new_runtime_calls:
  "new_runtime w s = (rt, t) \<Longrightarrow> calls s no_handles t (if rt = 0 then no_handles else no_handles\<lparr>runtimes := [rt]\<rparr>)"
  unfolding new_runtime_def by (rule calls_step [OF m3_query_calls]) (auto simp: no_handles_def)

definition one_runtime :: "u64 \<Rightarrow> handles" where
  "one_runtime rt = no_handles\<lparr>runtimes := [rt], limited := [rt]\<rparr>"

definition one_module :: "u64 \<Rightarrow> u64 \<Rightarrow> (u64 \<times> u64) list \<Rightarrow> handles" where
  "one_module rt md fs = (one_runtime rt)\<lparr>loaded := [(md, rt)], found := fs\<rparr>"

lemmas handle_defs = no_handles_def one_runtime_def one_module_def

lemma limit_memory_calls: "calls s (no_handles\<lparr>runtimes := [rt]\<rparr>) (limit_memory w rt s) (one_runtime rt)"
  unfolding limit_memory_def by (rule calls_step, simp, simp add: handle_defs)

lemma parse_module_calls:
  "parse_module w code len s = ((res, md), t) \<Longrightarrow>
    calls s (one_runtime rt) t (if res = M3Err_none then (one_runtime rt)\<lparr>modules := [md]\<rparr> else one_runtime rt)"
  unfolding parse_module_def by (rule calls_step [OF m3_query_calls]) (auto simp: handle_defs parsed_def)

lemma load_module_calls:
  "load_module w rt md s = (res, t) \<Longrightarrow>
    calls s ((one_runtime rt)\<lparr>modules := [md]\<rparr>) t (if res = M3Err_none then one_module rt md [] else (one_runtime rt)\<lparr>modules := [md], failed := [md]\<rparr>)"
  unfolding load_module_def by (rule calls_step [OF m3_query_calls]) (auto simp: handle_defs)

lemma link_calls: "calls s (one_module rt md fs) (link_all w md hs s) (one_module rt md fs)"
proof -
  have "use_handles (map (Link md) hs) (one_module rt md fs) = Some (one_module rt md fs)"
    by (induction hs) (simp_all add: handle_defs)
  then show ?thesis by (auto simp: calls_def link_all_calls)
qed

lemma find_function_calls:
  "find_function w rt name s = ((res, f), t) \<Longrightarrow>
    calls s (one_module rt md fs) t (one_module rt md (if res = M3Err_none then (f, rt) # fs else fs))"
  unfolding find_function_def by (rule calls_step [OF m3_query_calls]) (auto simp: handle_defs parsed_def)

lemma call_calls:
  "m3_CallV w c f args s = Some (res, t) \<Longrightarrow> (f, rt) \<in> set fs \<Longrightarrow> calls s (one_module rt md fs) t (one_module rt md fs)"
  by (rule calls_step [OF m3_CallV_calls]) (auto simp: handle_defs)

lemma free_runtime_calls:
  "calls s (one_runtime rt) (free_runtime w rt s) no_handles"
  "calls s ((one_runtime rt)\<lparr>modules := ms, failed := ms\<rparr>) (free_runtime w rt s) (no_handles\<lparr>modules := ms, failed := ms\<rparr>)"
  "set (map snd fs) \<subseteq> {rt} \<Longrightarrow> calls s (one_module rt md fs) (free_runtime w rt s) no_handles"
  unfolding free_runtime_def by (rule calls_step, simp, auto simp: handle_defs filter_empty_conv)+

lemma free_module_calls:
  "calls s ((one_runtime rt)\<lparr>modules := [md], failed := [md]\<rparr>) (m3_command (Free_module md) f s) (one_runtime rt)"
  by (rule calls_step, simp, simp add: handle_defs)

lemma calls_same: "calls s h u h' \<Longrightarrow> m3_calls s = m3_calls t \<Longrightarrow> calls t h u h'"
  by (simp add: calls_def)

text \<open>From the arguments to a loaded module with its runtime, or to a failure.\<close>

lemma prepare_calls:
  assumes "wasm_env_init_once w s = (e, s1)" "new_runtime w s1 = (rt, s2)" "parse_module w code len (limit_memory w rt s2) = ((res, md), s3)"
    "load_module w rt md s3 = (res', s4)"
  shows "calls s no_handles s1 no_handles"
    "calls s no_handles s2 (if rt = 0 then no_handles else no_handles\<lparr>runtimes := [rt]\<rparr>)"
    "rt \<noteq> 0 \<Longrightarrow> res \<noteq> M3Err_none \<Longrightarrow> calls s no_handles s3 (one_runtime rt)"
    "rt \<noteq> 0 \<Longrightarrow> res = M3Err_none \<Longrightarrow> res' \<noteq> M3Err_none \<Longrightarrow> calls s no_handles s4 ((one_runtime rt)\<lparr>modules := [md], failed := [md]\<rparr>)"
    "rt \<noteq> 0 \<Longrightarrow> res = M3Err_none \<Longrightarrow> res' = M3Err_none \<Longrightarrow> calls s no_handles s4 (one_module rt md [])"
proof -
  show s1: "calls s no_handles s1 no_handles" by (rule env_init_calls [OF assms(1)])
  show s2: "calls s no_handles s2 (if rt = 0 then no_handles else no_handles\<lparr>runtimes := [rt]\<rparr>)"
    by (rule calls_trans [OF s1 new_runtime_calls [OF assms(2)]])
  then have "calls s no_handles (limit_memory w rt s2) (one_runtime rt)" if "rt \<noteq> 0"
    using that calls_trans [OF _ limit_memory_calls] by simp
  then have s3: "calls s no_handles s3 (if res = M3Err_none then (one_runtime rt)\<lparr>modules := [md]\<rparr> else one_runtime rt)" if "rt \<noteq> 0"
    using that calls_trans [OF _ parse_module_calls [OF assms(3)]] by blast
  then show "rt \<noteq> 0 \<Longrightarrow> res \<noteq> M3Err_none \<Longrightarrow> calls s no_handles s3 (one_runtime rt)" by simp
  show "rt \<noteq> 0 \<Longrightarrow> res = M3Err_none \<Longrightarrow> res' \<noteq> M3Err_none \<Longrightarrow> calls s no_handles s4 ((one_runtime rt)\<lparr>modules := [md], failed := [md]\<rparr>)"
    "rt \<noteq> 0 \<Longrightarrow> res = M3Err_none \<Longrightarrow> res' = M3Err_none \<Longrightarrow> calls s no_handles s4 (one_module rt md [])"
    using s3 calls_trans [OF _ load_module_calls [OF assms(4)]] by fastforce+
qed

text \<open>
  C17: Whatever the interpreter and the guest do, \<open>wasm_run_bytes\<close> keeps the rules of the interface: every handle is used
  only while it is valid, guest code runs only in a runtime whose memory is limited, and on every path, the failures
  included, the runtime and the module are released exactly once.
\<close>

theorem wasm_run_bytes_handles:
  assumes "wasm_run_bytes w c code len s = Some (r, t)"
  shows "\<exists>cs. m3_calls t = m3_calls s @ cs \<and> use_handles cs no_handles = Some no_handles \<and> (r = 0 \<or> r = - 1)"
proof (cases "code = 0 \<or> len = 0")
  case True
  then show ?thesis using assms by (auto simp: wasm_run_bytes_def)
next
  case False
  obtain e s1 where s1: "wasm_env_init_once w s = (e, s1)" by (cases "wasm_env_init_once w s")
  obtain rt s2 where s2: "new_runtime w s1 = (rt, s2)" by (cases "new_runtime w s1")
  obtain res md s3 where s3: "parse_module w code len (limit_memory w rt s2) = ((res, md), s3)"
    by (cases "parse_module w code len (limit_memory w rt s2)") auto
  obtain res' s4 where s4: "load_module w rt md s3 = (res', s4)" by (cases "load_module w rt md s3")
  note run = assms [unfolded wasm_run_bytes_def, simplified False if_False s1 Let_def prod.case s2 s3 s4]
  note prep = prepare_calls [OF s1 s2 s3 s4]
  have fin: "calls s no_handles t no_handles \<and> (r = 0 \<or> r = - 1)"
  proof (cases "e \<noteq> 0 \<or> rt = 0 \<or> res \<noteq> M3Err_none \<or> res' \<noteq> M3Err_none")
    case True
    then show ?thesis using run prep calls_trans [OF prep(3) free_runtime_calls(1)]
        calls_trans [OF calls_trans [OF prep(4) free_module_calls] free_runtime_calls(1)]
      by (auto split: if_splits)
  next
    case False
    let ?l = "link_all w md [Log_int_fn, Print_fn, Abort_fn, Accelerate_fn] s4"
    have l: "calls s no_handles ?l (one_module rt md [])" using False prep(5) calls_trans [OF _ link_calls] by blast
    obtain res1 f1 s5 where s5: "find_function w rt ''start'' ?l = ((res1, f1), s5)"
      by (cases "find_function w rt ''start'' ?l") auto
    obtain res2 f2 s6 where s6: "find_function w rt ''_start'' s5 = ((res2, f2), s6)"
      by (cases "find_function w rt ''_start'' s5") auto
    obtain res3 f3 s7 where s7: "(if res1 \<noteq> M3Err_none then find_function w rt ''_start'' s5 else ((res1, f1), s5)) = ((res3, f3), s7)"
      using s6 by (cases "res1 = M3Err_none") auto
    have fs: "calls s no_handles s7 (one_module rt md (if res3 = M3Err_none then [(f3, rt)] else []))"
      using calls_trans [OF l find_function_calls [OF s5]] calls_trans [OF calls_trans [OF l find_function_calls [OF s5]] find_function_calls [OF s6]] s6 s7
      by (auto split: if_splits)
    show ?thesis
    proof (cases "res3 = M3Err_none")
      case True
      then obtain res4 s8 where s8: "m3_CallV w c f3 [] s7 = Some (res4, s8)" "t = free_runtime w rt s8" "r = 0 \<or> r = - 1"
        using run False s5 s7 by (auto split: bind_splits if_splits)
      then show ?thesis using True calls_trans [OF calls_trans [OF fs call_calls [OF s8(1)]] free_runtime_calls(3)] by auto
    next
      case f: False
      then show ?thesis using run False s5 s7 calls_trans [OF fs, of "free_runtime w rt s7" no_handles] free_runtime_calls(3) [of "[]" rt s7 md w] by auto
    qed
  qed
  then show ?thesis by (auto simp: calls_def)
qed

text \<open>
  \<open>wasm_run_agent\<close> keeps the same rules and always releases the runtime. It releases the module too, unless the module
  was parsed and could not be loaded: then it belongs to nobody and is lost.
\<close>

theorem wasm_run_agent_handles:
  assumes "wasm_run_agent w c code len obs_ptr obs_len model_id s = Some (r, t)"
  shows "\<exists>cs ms. m3_calls t = m3_calls s @ cs \<and> use_handles cs no_handles = Some (no_handles\<lparr>modules := ms, failed := ms\<rparr>) \<and>
    (ms \<noteq> [] \<longrightarrow> r = - 1)"
proof (cases "code = 0 \<or> len = 0")
  case True
  then show ?thesis using assms by (auto simp: wasm_run_agent_def handle_defs)
next
  case False
  obtain e s1 where s1: "wasm_env_init_once w s = (e, s1)" by (cases "wasm_env_init_once w s")
  obtain rt s2 where s2: "new_runtime w s1 = (rt, s2)" by (cases "new_runtime w s1")
  obtain res md s3 where s3: "parse_module w code len (limit_memory w rt s2) = ((res, md), s3)"
    by (cases "parse_module w code len (limit_memory w rt s2)") auto
  obtain res' s4 where s4: "load_module w rt md s3 = (res', s4)" by (cases "load_module w rt md s3")
  note run = assms [unfolded wasm_run_agent_def, simplified False if_False s1 Let_def prod.case s2 s3 s4]
  note prep = prepare_calls [OF s1 s2 s3 s4]
  have fin: "\<exists>ms. calls s no_handles t (no_handles\<lparr>modules := ms, failed := ms\<rparr>) \<and> (ms \<noteq> [] \<longrightarrow> r = - 1)"
  proof (cases "e \<noteq> 0 \<or> rt = 0 \<or> res \<noteq> M3Err_none \<or> res' \<noteq> M3Err_none")
    case True
    have none: "no_handles\<lparr>modules := [], failed := []\<rparr> = no_handles" by (simp add: handle_defs)
    show ?thesis
    proof (cases "e = 0 \<and> rt \<noteq> 0 \<and> res = M3Err_none")
      case True
      then show ?thesis using run \<open>e \<noteq> 0 \<or> rt = 0 \<or> res \<noteq> M3Err_none \<or> res' \<noteq> M3Err_none\<close>
          calls_trans [OF prep(4) free_runtime_calls(2)] by (intro exI [of _ "[md]"]) auto
    next
      case f: False
      then have "calls s no_handles t no_handles"
        using run prep(1,2) calls_trans [OF prep(3) free_runtime_calls(1)] by (auto split: if_splits)
      then show ?thesis by (intro exI [of _ "[]"]) (simp add: none)
    qed
  next
    case False
    let ?l = "link_all w md [Log_int_fn, Print_fn, Abort_fn, Inference_fn, Accelerate_fn] s4"
    obtain res1 f s5 where s5: "find_function w rt ''agent_step'' ?l = ((res1, f), s5)"
      by (cases "find_function w rt ''agent_step'' ?l") auto
    have fs: "calls s no_handles s5 (one_module rt md (if res1 = M3Err_none then [(f, rt)] else []))"
      using False prep(5) calls_trans [OF calls_trans [OF _ link_calls] find_function_calls [OF s5]] by blast
    obtain mem mem_size where gm: "m3_GetMemory w rt (w_m3 s5) = (mem, mem_size)" by (cases "m3_GetMemory w rt (w_m3 s5)")
    let ?s6 = "s5\<lparr>w_kheap := (w_kheap s5)\<lparr>kmem := copy_obs (mem + ucast (1024 :: u32)) obs_ptr obs_len (kmem (w_kheap s5))\<rparr>,
      g_last_obs := obs_ptr, g_last_obs_len := obs_len\<rparr>"
    note free = calls_trans [OF _ free_runtime_calls(3)]
    have "calls s no_handles t no_handles"
    proof (cases "res1 = M3Err_none \<and> input_fits mem mem_size 1024 obs_len")
      case True
      obtain res2 s7 where s7: "m3_CallV w c f [1024, ucast obs_len, model_id] ?s6 = Some (res2, s7)"
        "t = free_runtime w rt (if res2 = M3Err_none then snd (m3_query (\<lambda>_. Get_results f) (\<lambda>x. (m3_GetResultsV w f x, x)) s7) else s7)"
        using run False True s5 gm by (auto split: bind_splits if_splits prod.splits)
      have s6: "calls s no_handles ?s6 (one_module rt md [(f, rt)])" using fs True by (simp add: calls_def)
      have s7': "calls s no_handles s7 (one_module rt md [(f, rt)])" by (rule calls_trans [OF s6 call_calls [OF s7(1)]]) simp
      have "calls s7 (one_module rt md [(f, rt)]) (snd (m3_query (\<lambda>_. Get_results f) (\<lambda>x. (m3_GetResultsV w f x, x)) s7)) (one_module rt md [(f, rt)])"
        by (rule calls_step [OF m3_query_calls [OF surjective_pairing]]) (simp add: handle_defs)
      then show ?thesis using s7(2) free [OF s7'] free [OF calls_trans [OF s7']] by auto
    next
      case f: False
      then have "t = free_runtime w rt s5" using run False s5 gm by (auto split: if_splits)
      then show ?thesis using free [OF fs] by auto
    qed
    then show ?thesis by (intro exI [of _ "[]"]) (simp add: handle_defs)
  qed
  then show ?thesis by (auto simp: calls_def)
qed

section \<open>What a guest can reach\<close>

text \<open>Texts on the console: the terminal and the serial line show them one after the other.\<close>

lemma crlf_append: "crlf (cs @ ds) = crlf cs @ crlf ds"
  by (induction cs) auto

definition shown :: "console \<Rightarrow> u8 list \<Rightarrow> console \<Rightarrow> bool" where
  "shown s cs t \<longleftrightarrow> console_ok t \<and> serial_ready t \<and> screen t = fold (term_putc (default_color s)) cs (screen s) \<and>
     port_log t = port_log s @ serial_bytes s cs \<and> default_color t = default_color s \<and> serial_enabled t = serial_enabled s"

lemma shown_trans: "shown s cs t \<Longrightarrow> shown t ds u \<Longrightarrow> shown s (cs @ ds) u"
  by (auto simp: shown_def serial_bytes_def crlf_append)

lemma shown_write:
  assumes "console_ok s" "serial_ready s"
  obtains t where "console_write cs s = Some t" "shown s cs t"
  using console_write_spec [OF assms, of cs] by (auto simp: shown_def)

lemma shown_ok: "shown s cs t \<Longrightarrow> console_ok t \<and> serial_ready t"
  by (simp add: shown_def)

text \<open>A range of a guest is accepted exactly if it lies in the linear memory.\<close>

lemma unat_u32_u64 [simp]: "unat (ucast (x :: u32) :: u64) = unat x"
proof -
  have "unat x < 18446744073709551616" using unat_u32_less [of x] by linarith
  then show ?thesis by (simp add: unat_ucast)
qed

lemma wasm_mem_span_ok_iff:
  assumes "m3_GetMemory w rt (w_m3 s) = (mem, n)" "unat mem + unat n < 18446744073709551616"
  shows "wasm_mem_span_ok w rt p len s \<longleftrightarrow> mem \<noteq> 0 \<and> unat mem \<le> unat p \<and> unat p + unat len \<le> unat mem + unat n"
proof -
  have lim: "unat (mem + ucast n) = unat mem + unat n" using assms(2) by (subst unat_add_no_wrap) simp_all
  have len: "unat (ucast len :: u64) = unat len" by simp
  have sum: "unat (p + ucast len) = (unat p + unat len) mod 18446744073709551616" by (simp add: unat_word_ariths len)
  have wrap: "p + ucast len < p \<longleftrightarrow> 18446744073709551616 \<le> unat p + unat len"
  proof (cases "unat p + unat len < 18446744073709551616")
    case False
    have small: "unat p + unat len - 18446744073709551616 < unat p" "unat p + unat len - 18446744073709551616 < 18446744073709551616"
      using False unat_u64_less [of p] unat_u32_less [of len] by linarith+
    then have "(unat p + unat len) mod 18446744073709551616 = unat p + unat len - 18446744073709551616"
      using False le_mod_geq [of 18446744073709551616 "unat p + unat len"] by simp
    then show ?thesis using False small by (simp add: word_less_nat_alt sum)
  qed (simp add: word_less_nat_alt sum)
  show ?thesis
  proof (cases "unat p + unat len < 18446744073709551616")
    case True
    then show ?thesis using wrap sum lim assms(1) by (auto simp: wasm_mem_span_ok_def Let_def word_less_nat_alt)
  next
    case False
    then show ?thesis using wrap assms by (auto simp: wasm_mem_span_ok_def Let_def)
  qed
qed

text \<open>
  \<open>zenedge_accelerate\<close> accepts a range exactly if it lies in the shared memory of the device, for all arguments of the
  guest; no sum wraps around.
\<close>

theorem m3_zenedge_accelerate_correct:
  "m3_zenedge_accelerate ptr len s =
     (M3Err_none,
      if ivshmem_virt_base (w_dev s) \<noteq> 0 \<and> ivshmem_size (w_dev s) \<noteq> 0 \<and> unat (ivshmem_virt_base (w_dev s)) \<le> unat ptr \<and>
         unat ptr + unat len \<le> unat (ivshmem_virt_base (w_dev s)) + unat (ivshmem_size (w_dev s))
      then 1 else 0)"
proof -
  have u: "unat (ucast x + ucast y :: u64) = unat x + unat y" for x y :: u32
  proof -
    have "unat x + unat y < 18446744073709551616" using unat_u32_less [of x] unat_u32_less [of y] by linarith
    then show ?thesis by (subst unat_add_no_wrap) simp_all
  qed
  show ?thesis
    by (auto simp: m3_zenedge_accelerate_def ivshmem_get_shared_memory_def ivshmem_get_size_def Let_def word_less_nat_alt u)
qed

text \<open>
  The text a guest prints: its bytes in pieces of 63, each up to its first null byte.
\<close>

function guest_text :: "u8 list \<Rightarrow> u8 list" where
  "guest_text bs = (if bs = [] then [] else c_str (take 63 bs) @ guest_text (drop 63 bs))"
  by pat_completeness auto
termination by (relation "measure length") auto

declare guest_text.simps [simp del]

lemma print_chunks_shown:
  assumes "console_ok c" "serial_ready c" "unat i \<le> unat len" "unat ptr + unat len < 18446744073709551616"
  shows "\<exists>t. print_chunks ptr len i m c = Some t \<and> shown c (guest_text (map m [unat ptr + unat i..<unat ptr + unat len])) t"
  using assms
proof (induction "unat len - unat i" arbitrary: i c rule: less_induct)
  case less
  let ?bs = "map m [unat ptr + unat i..<unat ptr + unat len]"
  show ?case
  proof (cases "i < len")
    case True
    let ?n = "chunk_len len i"
    have il: "unat i < unat len" using True by (simp add: word_less_nat_alt)
    have n: "unat ?n = min 63 (unat len - unat i)"
      using il by (auto simp: chunk_len_def Let_def unat_sub_no_wrap word_less_nat_alt word_le_nat_alt)
    have "map (\<lambda>j. m (unat (ptr + ucast (i + of_nat j)))) [0..<unat ?n] = take 63 ?bs"
    proof (rule nth_equalityI)
      fix j assume j: "j < length (map (\<lambda>j. m (unat (ptr + ucast (i + of_nat j)))) [0..<unat ?n])"
      have "j < unat ?n" using j by simp
      then have "j < 4294967296" "unat i + j < 4294967296" and lim: "unat ptr + (unat i + j) < 18446744073709551616"
        and up: "unat ptr + unat i + j < unat ptr + unat len"
        using n unat_u32_less [of len] less.prems(4) by linarith+
      then have "unat (i + of_nat j) = unat i + j" by (subst unat_add_no_wrap) (simp_all add: unat_of_nat_u32)
      then have "unat (ptr + ucast (i + of_nat j)) = unat ptr + unat i + j"
        using lim by (subst unat_add_no_wrap) simp_all
      then show "map (\<lambda>j. m (unat (ptr + ucast (i + of_nat j)))) [0..<unat ?n] ! j = take 63 ?bs ! j"
        using j n by (simp add: nth_upt [OF up])
    qed (use n in simp)
    moreover obtain d where d: "console_write (c_str (take 63 ?bs)) c = Some d" "shown c (c_str (take 63 ?bs)) d"
      by (rule shown_write [OF less.prems(1,2)])
    ultimately have step: "print_chunks ptr len i m c = print_chunks ptr len (i + ?n) m d"
      using True by (subst print_chunks.simps) simp
    have "unat i + unat ?n < 4294967296" using n il unat_u32_less [of len] by linarith
    then have ni: "unat (i + ?n) = unat i + unat ?n" by (subst unat_add_no_wrap) simp_all
    have smaller: "unat len - unat (i + ?n) < unat len - unat i" "unat (i + ?n) \<le> unat len" using n ni il by linarith+
    obtain t where t: "print_chunks ptr len (i + ?n) m d = Some t"
      "shown d (guest_text (map m [unat ptr + unat (i + ?n)..<unat ptr + unat len])) t"
      using less.hyps [OF smaller(1) _ _ smaller(2) less.prems(4)] shown_ok [OF d(2)] by blast
    have "drop 63 ?bs = map m [unat ptr + unat (i + ?n)..<unat ptr + unat len]"
      unfolding drop_map drop_upt ni n using il by (cases "unat len - unat i \<le> 63") (simp_all add: add.assoc)
    then have "guest_text ?bs = c_str (take 63 ?bs) @ guest_text (map m [unat ptr + unat (i + ?n)..<unat ptr + unat len])"
      using il by (subst guest_text.simps) simp
    then show ?thesis using step t shown_trans [OF d(2) t(2)] by simp
  next
    case False
    then have "?bs = []" by (simp add: word_less_nat_alt)
    moreover have "print_chunks ptr len i m c = Some c" using False by (subst print_chunks.simps) simp
    ultimately show ?thesis using less.prems by (simp add: shown_def serial_bytes_def guest_text.simps)
  qed
qed


section \<open>The cache of model weights\<close>

definition floats :: "mem \<Rightarrow> nat \<Rightarrow> nat \<Rightarrow> u32 list" where
  "floats m a n = map (\<lambda>i. rd32 m (a + 4 * i)) [0..<n]"

lemma floats_cong: "(\<And>x. a \<le> x \<Longrightarrow> x < a + 4 * n \<Longrightarrow> m x = m' x) \<Longrightarrow> floats m a n = floats m' a n"
  unfolding floats_def by (auto intro!: rd_cong(3))

lemma write_floats:
  fixes m :: mem and a :: nat and v :: "nat \<Rightarrow> u32"
  defines "t n \<equiv> fold (\<lambda>i m. wr32 m (a + 4 * i) (v i)) [0..<n] m"
  shows "x < a \<or> a + 4 * n \<le> x \<Longrightarrow> t n x = m x" "floats (t n) a n = map v [0..<n]"
proof -
  show "x < a \<or> a + 4 * n \<le> x \<Longrightarrow> t n x = m x"
    by (induction n) (auto simp: t_def wr32_outside)
  show "floats (t n) a n = map v [0..<n]"
  proof (induction n)
    case (Suc n)
    have "floats (t (Suc n)) a n = floats (t n) a n"
      by (rule floats_cong) (simp add: t_def wr32_outside)
    then show ?case using Suc by (simp add: floats_def t_def)
  qed (simp add: floats_def)
qed

lemma copy_weights_spec:
  assumes "unat buf + 4 * unat len < 18446744073709551616"
  shows "x < unat buf \<or> unat buf + 4 * unat len \<le> x \<Longrightarrow> copy_weights buf len sm src m x = m x"
    "floats (copy_weights buf len sm src m) (unat buf) (unat len) = floats sm src (unat len)"
proof -
  have at: "unat (buf + 4 * of_nat i) = unat buf + 4 * i" if "i < unat len" for i
  proof -
    have i: "4 * i < 18446744073709551616" "unat buf + 4 * i < 18446744073709551616" using that assms by linarith+
    have "unat (4 * of_nat i :: u64) = 4 * i" using i(1) unat_of_nat_small [of "4 * i", where 'a = 64] by simp
    then show ?thesis using i by (subst unat_add_no_wrap) simp_all
  qed
  have idx: "unat (of_nat i :: u64) = i" if "i < unat len" for i
    using less_trans [OF that unat_u64_less] by (simp add: unat_of_nat_small)
  have "copy_weights buf len sm src m = fold (\<lambda>i m. wr32 m (unat buf + 4 * i) (rd32 sm (src + 4 * i))) [0..<unat len] m"
    unfolding copy_weights_def wfor_fold fold_map unat_0 comp_def
    using at idx by (intro fold_cong) auto
  then show "x < unat buf \<or> unat buf + 4 * unat len \<le> x \<Longrightarrow> copy_weights buf len sm src m x = m x"
    "floats (copy_weights buf len sm src m) (unat buf) (unat len) = floats sm src (unat len)"
    using write_floats [where a = "unat buf" and n = "unat len" and v = "\<lambda>i. rd32 sm (src + 4 * i)" and m = m] by (simp_all add: floats_def)
qed

text \<open>
  The cache owns one block of the kernel heap, at offset \<open>off\<close>, large enough for the weights; or there is none.
\<close>

definition cache_ok :: "'m wasm \<Rightarrow> blocks \<Rightarrow> nat option \<Rightarrow> bool" where
  "cache_ok s bs co \<longleftrightarrow> heap (w_kheap s) bs \<and>
     (case co of
        None \<Rightarrow> g_cached_weights s = 0 \<and> g_cached_weights_len s = 0 \<and> g_cached_model_id s = 0
      | Some off \<Rightarrow> g_cached_weights s = of_nat (unat (heap_base (w_kheap s)) + off + 48) \<and> 0 < g_cached_weights_len s \<and>
          g_cached_model_id s \<noteq> 0 \<and> (\<exists>n. block_at bs off False n \<and> 4 * unat (g_cached_weights_len s) \<le> n))"

definition weights :: "'m wasm \<Rightarrow> u32 list" where
  "weights s = floats (kmem (w_kheap s)) (unat (g_cached_weights s)) (unat (g_cached_weights_len s))"

text \<open>The floats of the blob whose header is at \<open>off\<close>.\<close>

definition model_floats :: "ipc_heap \<Rightarrow> u32 \<Rightarrow> u32 list" where
  "model_floats h off = floats (shm h) (blob_addr (blob_offset_at (shm h) off)) (unat (blob_size_at (shm h) off) div 4)"

lemma heap_block_limit:
  assumes "heap k bs" "block_at bs off f n"
  shows "unat (heap_base k) + off + 48 + n < 18446744073709551616"
    "unat (of_nat (unat (heap_base k) + off + 48) :: u64) = unat (heap_base k) + off + 48"
proof -
  have "unat (heap_base k) + span bs < 18446744073709551616" using assms(1) unat_u64_less [of "heap_end k"] by (simp add: heap_def)
  then show lim: "unat (heap_base k) + off + 48 + n < 18446744073709551616" using block_at_bound [OF assms(2)] by linarith
  then show "unat (of_nat (unat (heap_base k) + off + 48) :: u64) = unat (heap_base k) + off + 48"
    by (intro unat_of_nat_small) simp
qed

lemma keepsD:
  "keeps s bs P t bs' \<Longrightarrow> block_at bs q False k \<Longrightarrow> P q \<Longrightarrow> block_at bs' q False k \<and> (\<forall>x \<in> payload s q k. kmem t x = kmem s x)"
  by (simp add: keeps_def)

text \<open>The block of the old weights, if there is one, is released and nothing else.\<close>

lemma release_old:
  assumes ok: "cache_ok s bs co" and hp: "heap k bs1" and base: "heap_base k = heap_base (w_kheap s)"
    and old: "\<And>q n. block_at bs q False n \<Longrightarrow> block_at bs1 q False n"
  shows "\<exists>k3 bs'. (if g_cached_weights s \<noteq> 0 then kfree (g_cached_weights s) k else Some k) = Some k3 \<and> heap k3 bs' \<and>
    heap_base k3 = heap_base k \<and> keeps k bs1 (\<lambda>q. Some q \<noteq> co) k3 bs' \<and> used_count bs' + (if co = None then 0 else 1) = used_count bs1"
proof (cases co)
  case None
  then show ?thesis using ok hp by (auto simp: cache_ok_def keeps_def)
next
  case (Some q)
  obtain n where q: "g_cached_weights s = of_nat (unat (heap_base k) + q + 48)" "block_at bs1 q False n"
    using ok old Some base by (auto simp: cache_ok_def)
  have "unat (g_cached_weights s) = unat (heap_base k) + q + 48" using heap_block_limit(2) [OF hp q(2)] q(1) by simp
  then have "g_cached_weights s \<noteq> 0" by (metis add_is_0 unat_0 zero_neq_numeral)
  moreover obtain xs ys t where t: "bs1 = xs @ (False, n) # ys" "kfree (g_cached_weights s) k = Some t" "\<exists>m. t = k\<lparr>kmem := m\<rparr>"
    "heap t (free_blocks xs n ys)" "keeps k bs1 (\<lambda>r. r \<noteq> q) t (free_blocks xs n ys)"
    using kfree_block_spec [OF hp q(2)] unfolding q(1) [symmetric] by blast
  ultimately show ?thesis using Some free_blocks_used_count [of xs n ys]
    by (intro exI [of _ t] exI [of _ "free_blocks xs n ys"]) auto
qed

lemma load_weights_spec:
  assumes ok: "cache_ok s bs co" and id: "model_id \<noteq> 0"
    and miss: "\<not> (g_cached_model_id s = model_id \<and> g_cached_weights s \<noteq> 0)"
    and blob: "heap_get_blob (ucast model_id) (w_heap s) = Some (Some off, h)"
    and size: "blob_size_at (shm h) off \<noteq> 0" "blob_size_at (shm h) off mod 4 = 0"
  shows "case alloc_blocks (align16 (unat (blob_size_at (shm h) off))) bs of
      None \<Rightarrow> wasm_load_model_weights model_id s = Some (- 1, s\<lparr>w_heap := h\<rparr>)
    | Some (p, _) \<Rightarrow> \<exists>t bs'. wasm_load_model_weights model_id s = Some (0, t) \<and> cache_ok t bs' (Some p) \<and>
        g_cached_model_id t = model_id \<and> weights t = model_floats h off \<and> w_heap t = h \<and>
        keeps (w_kheap s) bs (\<lambda>q. Some q \<noteq> co) (w_kheap t) bs' \<and> heap_base (w_kheap t) = heap_base (w_kheap s) \<and>
        used_count bs' = (if co = None then Suc (used_count bs) else used_count bs)"
proof -
  let ?sz = "blob_size_at (shm h) off" and ?k = "w_kheap s"
  let ?len = "ucast ?sz div 4 :: u64"
  have hp: "heap ?k bs" using ok by (simp add: cache_ok_def)
  have "unat ?sz mod 4 = 0" using size(2) by (simp add: word_unat_eq_iff unat_mod)
  then have sz: "unat ?sz = 4 * unat ?len" "0 < unat ?sz" using size(1) by (auto simp: unat_div unat_gt_0)
  have "unat (?len * 4) = (unat ?len * 4) mod 18446744073709551616" by (simp only: unat_word_ariths) simp
  also have "\<dots> = unat ?sz" using sz(1) unat_u32_less [of ?sz] by (metis mod_less mult.commute unat_u32_u64 unat_u64_less)
  finally have sz4: "unat (?len * 4) = unat ?sz" .
  have again: "heap_get_blob_size (ucast model_id) (w_heap s) = Some (?sz, h)"
    "heap_get_data (ucast model_id) h = Some (Some (blob_offset_at (shm h) off), h)"
    using blob heap_get_blob_again [OF blob] by (simp_all add: heap_get_blob_size_def heap_get_data_def)
  obtain r k1 where km: "kmalloc (?len * 4) ?k = Some (r, k1)"
    "case alloc_blocks (align16 (unat ?sz)) bs of None \<Rightarrow> r = 0 \<and> k1 = ?k
     | Some (p, bs1) \<Rightarrow> unat r = unat (heap_base ?k) + p + 48 \<and> r \<noteq> 0 \<and> (\<exists>m. k1 = ?k\<lparr>kmem := m\<rparr>) \<and> heap k1 bs1 \<and>
         keeps ?k bs (\<lambda>_. True) k1 bs1"
  proof -
    have "0 < ?len * 4" using sz(2) sz4 by (simp add: word_less_nat_alt)
    moreover have "unat (?len * 4) + 15 < 18446744073709551616" using sz4 unat_u32_less [of ?sz] by linarith
    ultimately have this: "0 < ?len * 4" "unat (?len * 4) + 15 < 18446744073709551616" .
    from kmalloc_spec [OF hp this] show ?thesis using that unfolding sz4 by blast
  qed
  show ?thesis
  proof (cases "alloc_blocks (align16 (unat ?sz)) bs")
    case None
    then have "r = 0" "k1 = ?k" using km(2) by auto
    then have "wasm_load_model_weights model_id s = Some (- 1, s\<lparr>w_heap := h\<rparr>)"
      using id miss size again km(1) by (auto simp: wasm_load_model_weights_def Let_def)
    then show ?thesis using None by simp
  next
    case (Some c)
    obtain p bs1 where c: "c = (p, bs1)" by fastforce
    note al = Some [unfolded c]
    obtain m where k1: "unat r = unat (heap_base ?k) + p + 48" "r \<noteq> 0" "k1 = ?k\<lparr>kmem := m\<rparr>" "heap k1 bs1" "keeps ?k bs (\<lambda>_. True) k1 bs1"
      using km(2) by (auto simp: Some c)
    obtain n where n: "block_at bs1 p False n" "unat ?sz \<le> n" using alloc_blocks_at(1) [OF al] align16 [of "unat ?sz"] by force
    let ?m = "copy_weights r ?len (shm h) (blob_addr (blob_offset_at (shm h) off)) (kmem k1)"
    let ?k2 = "k1\<lparr>kmem := ?m\<rparr>"
    have lim: "unat r + 4 * unat ?len < 18446744073709551616"
      using heap_block_limit(1) [OF k1(4) n(1)] n(2) sz(1) k1(1,3) by simp
    have "?m x = kmem k1 x" if "x \<notin> payload k1 p n" for x
      using that k1(1,3) n(2) sz(1) by (intro copy_weights_spec(1) [OF lim]) (auto simp: payload_def)
    then have k2: "heap ?k2 bs1" "keeps k1 bs1 (\<lambda>q. q \<noteq> p) ?k2 bs1" using heap_payload [OF k1(4) n(1)] by blast+
    have w: "floats ?m (unat r) (unat ?len) = model_floats h off"
      using copy_weights_spec(2) [OF lim] sz(1) by (simp add: model_floats_def)
    have old: "block_at bs1 q False j \<and> q \<noteq> p" if "block_at bs q False j" for q j using alloc_blocks_at(2) [OF al that] .
    obtain k3 bs' where k3: "(if g_cached_weights s \<noteq> 0 then kfree (g_cached_weights s) ?k2 else Some ?k2) = Some k3" "heap k3 bs'"
      "heap_base k3 = heap_base ?k2" "keeps ?k2 bs1 (\<lambda>q. Some q \<noteq> co) k3 bs'" "used_count bs' + (if co = None then 0 else 1) = used_count bs1"
      using release_old [OF ok k2(1)] old k1(3) by auto
    let ?t = "s\<lparr>w_heap := h, w_kheap := k3, g_cached_weights := r, g_cached_weights_len := ?len, g_cached_model_id := model_id\<rparr>"
    have load: "wasm_load_model_weights model_id s = Some (0, ?t)"
      using id miss size again km(1) k1(2) k3(1) by (auto simp: wasm_load_model_weights_def Let_def split: if_splits)
    have base: "heap_base k3 = heap_base ?k" using k3(3) k1(3) by simp
    have p: "Some p \<noteq> co" using ok old by (auto simp: cache_ok_def split: option.splits)
    have new: "block_at bs' p False n" "\<forall>x \<in> payload ?k2 p n. kmem k3 x = ?m x"
      using k3(4) n(1) p by (auto simp: keeps_def)
    have "0 < ?len" using sz by (simp add: word_less_nat_alt)
    moreover have "r = of_nat (unat (heap_base ?k) + p + 48)" using k1(1) by (metis of_nat_unat_eq)
    ultimately have cache: "cache_ok ?t bs' (Some p)"
      using k3(2) base new(1) n(2) sz(1) id by (auto simp: cache_ok_def)
    have "floats (kmem k3) (unat r) (unat ?len) = floats ?m (unat r) (unat ?len)"
      using new(2) n(2) sz(1) k1(1,3) by (intro floats_cong) (auto simp: payload_def)
    then have wt: "weights ?t = model_floats h off" using w by (simp add: weights_def)
    have kp: "keeps ?k bs (\<lambda>q. Some q \<noteq> co) k3 bs'"
      unfolding keeps_def
    proof (intro allI impI)
      fix q j assume q: "block_at bs q False j \<and> Some q \<noteq> co"
      have pl: "payload k1 q j = payload ?k q j" "payload ?k2 q j = payload ?k q j" using k1(3) by (simp_all add: payload_def)
      have "\<forall>x \<in> payload ?k q j. kmem k1 x = kmem ?k x" using keepsD [OF k1(5)] q by blast
      moreover have "\<forall>x \<in> payload ?k q j. ?m x = kmem k1 x" using keepsD [OF k2(2), of q j] q old [of q j] by (simp add: pl)
      moreover have "block_at bs' q False j" "\<forall>x \<in> payload ?k q j. kmem k3 x = ?m x"
        using keepsD [OF k3(4), of q j] q old [of q j] by (simp_all add: pl)
      ultimately show "block_at bs' q False j \<and> (\<forall>x \<in> payload ?k q j. kmem k3 x = kmem ?k x)" by simp
    qed
    have "used_count bs' = (if co = None then Suc (used_count bs) else used_count bs)"
      using k3(5) alloc_blocks_used_count [OF al] by (simp split: if_splits)
    then show ?thesis using load cache wt kp base by (auto simp: Some c intro!: exI [of _ ?t] exI [of _ bs'])
  qed
qed

section \<open>Inference\<close>

text \<open>The dot product of two lists of floats, as far as the shorter one reaches, and its sign.\<close>

definition dot :: "cpu \<Rightarrow> u32 list \<Rightarrow> u32 list \<Rightarrow> u32" where
  "dot c xs ys = fold (\<lambda>(x, y) sum. fadd c sum (fmul c x y)) (zip xs ys) 0"

definition float_positive :: "u32 \<Rightarrow> bool" where
  "float_positive u \<longleftrightarrow> \<not> bit u 31 \<and> u \<noteq> 0"

lemma float_positive_iff: "u AND 0x80000000 = 0 \<and> u AND 0x7FFFFFFF \<noteq> 0 \<longleftrightarrow> float_positive u"
proof -
  have m: "(0x80000000 :: u32) = 2 ^ 31" "(0x7FFFFFFF :: u32) = mask 31" by (simp_all add: mask_eq_exp_minus_1)
  have s: "u AND 0x80000000 = 0 \<longleftrightarrow> \<not> bit u 31" unfolding m by (rule and_exp_eq_0_iff_not_bit)
  have "u AND 0x7FFFFFFF = u" if "\<not> bit u 31"
  proof (rule bit_word_eqI)
    fix n assume "n < LENGTH(32)"
    then show "bit (u AND 0x7FFFFFFF) n = bit u n" using that
      unfolding m by (cases "n = 31") (auto simp: bit_and_iff bit_mask_iff)
  qed
  then show ?thesis using s by (auto simp: float_positive_def)
qed

lemma math_vec_dot_eq:
  assumes "unat a + 4 * n < 18446744073709551616" "unat b + 4 * n < 18446744073709551616"
  shows "math_vec_dot c a b (int n) m = dot c (floats m (unat a) n) (floats m (unat b) n)"
proof -
  have at: "unat (p + 4 * of_nat i) = unat p + 4 * i" if "unat p + 4 * n < 18446744073709551616" "i < n" for p :: u64 and i
  proof -
    have i: "4 * i < 18446744073709551616" "unat p + 4 * i < 18446744073709551616" using that by linarith+
    have "unat (4 * of_nat i :: u64) = 4 * i" using i(1) unat_of_nat_small [of "4 * i", where 'a = 64] by simp
    then show ?thesis using i by (subst unat_add_no_wrap) simp_all
  qed
  have "zip (floats m (unat a) n) (floats m (unat b) n) = map (\<lambda>i. (rd32 m (unat a + 4 * i), rd32 m (unat b + 4 * i))) [0..<n]"
    by (simp add: floats_def zip_map_map flip: map_zip_map2) (simp add: zip_same_conv_map)
  then show ?thesis unfolding math_vec_dot_def dot_def nat_int
    by (simp add: fold_map comp_def) (intro fold_cong, auto simp: at assms)
qed

lemma floats_take: "n \<le> k \<Longrightarrow> floats m a n = take n (floats m a k)"
  by (simp add: floats_def take_map)

lemma length_floats [simp]: "length (floats m a n) = n"
  by (simp add: floats_def)

lemma dot_take: "dot c (take n xs) (take n ys) = dot c xs ys" if "n = min (length xs) (length ys)"
  using that by (simp add: dot_def flip: take_zip)

text \<open>The observation lies in a block of the kernel heap that the cache does not own.\<close>

definition observation :: "'m wasm \<Rightarrow> blocks \<Rightarrow> nat option \<Rightarrow> u64 \<Rightarrow> u64 \<Rightarrow> bool" where
  "observation s bs co obs_ptr obs_len \<longleftrightarrow> 0 < obs_len \<and> unat obs_len < 2147483648 \<and>
     (\<exists>q k. block_at bs q False k \<and> Some q \<noteq> co \<and> unat (heap_base (w_kheap s)) + q + 48 \<le> unat obs_ptr \<and>
       unat obs_ptr + 4 * unat obs_len \<le> unat (heap_base (w_kheap s)) + q + 48 + k)"

lemma load_hit:
  assumes "cache_ok s bs (Some p)"
  shows "wasm_load_model_weights (g_cached_model_id s) s = Some (0, s)"
proof -
  obtain n where "g_cached_weights s = of_nat (unat (heap_base (w_kheap s)) + p + 48)" "block_at bs p False n" "heap (w_kheap s) bs"
    using assms by (auto simp: cache_ok_def)
  then have "unat (g_cached_weights s) = unat (heap_base (w_kheap s)) + p + 48" using heap_block_limit(2) by simp
  then have "g_cached_weights s \<noteq> 0" by (metis add_is_0 unat_0 zero_neq_numeral)
  then show ?thesis using assms by (auto simp: wasm_load_model_weights_def cache_ok_def)
qed

text \<open>With the weights of the model in the cache, inference is the sign of the dot product and changes nothing.\<close>

lemma infer_hit:
  assumes ok: "cache_ok s bs (Some p)" and id: "g_cached_model_id s = model_id"
    and obs: "obs_ptr \<noteq> 0" "0 < obs_len" "unat obs_len < 2147483648" "unat obs_ptr + 4 * unat obs_len < 18446744073709551616"
  shows "kernel_infer_action c obs_ptr obs_len model_id s =
    Some (if float_positive (dot c (floats (kmem (w_kheap s)) (unat obs_ptr) (unat obs_len)) (weights s)) then 1 else 0, s)"
proof -
  let ?m = "kmem (w_kheap s)" and ?w = "g_cached_weights s"
  let ?n = "if g_cached_weights_len s < obs_len then g_cached_weights_len s else obs_len"
  obtain n where n: "?w = of_nat (unat (heap_base (w_kheap s)) + p + 48)" "0 < g_cached_weights_len s" "model_id \<noteq> 0"
    "block_at bs p False n" "4 * unat (g_cached_weights_len s) \<le> n" "heap (w_kheap s) bs"
    using ok id by (auto simp: cache_ok_def)
  note lim = heap_block_limit [OF n(6,4)]
  have nn: "unat ?n = min (unat obs_len) (unat (g_cached_weights_len s))" "?n \<noteq> 0" "unat ?n < 2147483648"
    using obs n(2) by (auto simp: word_less_nat_alt)
  have "unat (ucast ?n :: u32) = unat ?n" using nn(3) by (simp add: unat_ucast)
  then have si: "sint (ucast ?n :: u32) = int (unat ?n)" using nn(3) sint_small [of "ucast ?n :: u32"] by simp
  have "math_vec_dot c obs_ptr ?w (sint (ucast ?n :: u32)) ?m = dot c (floats ?m (unat obs_ptr) (unat ?n)) (floats ?m (unat ?w) (unat ?n))"
    unfolding si using obs(4) lim n(1,5) nn(1) by (intro math_vec_dot_eq) simp_all
  also have "\<dots> = dot c (floats ?m (unat obs_ptr) (unat obs_len)) (weights s)"
    using floats_take [of "unat ?n" "unat obs_len" ?m "unat obs_ptr"] floats_take [of "unat ?n" "unat (g_cached_weights_len s)" ?m "unat ?w"]
    by (simp add: weights_def nn(1) dot_take)
  finally have d: "math_vec_dot c obs_ptr ?w (sint (ucast ?n :: u32)) ?m = dot c (floats ?m (unat obs_ptr) (unat obs_len)) (weights s)" .
  show ?thesis
    using load_hit [OF ok] id obs(1,2) nn(2) d float_positive_iff
    by (simp add: kernel_infer_action_def zenedge_infer_action_def Let_def)
qed


section \<open>Examples\<close>

text \<open>
  An interpreter whose guest asks once for acceleration and then returns, a processor that computes with integers in
  place of floats, and a state with an observation of two numbers and a model of two weights.
\<close>

definition demo_m3 :: "nat wasm3" where
  "demo_m3 = \<lparr>m3_NewEnvironment = (\<lambda>x. (1, x)), m3_NewRuntime = (\<lambda>_ _ x. (2, x)), m3_memoryLimit = (\<lambda>_ _ x. x),
     m3_ParseModule = (\<lambda>_ _ _ x. ((M3Err_none, 3), x)), m3_LoadModule = (\<lambda>_ _ x. (M3Err_none, x)), m3_LinkRawFunction = (\<lambda>_ _ x. x),
     m3_FindFunction = (\<lambda>_ name x. ((if name = ''start'' then M3Err_other 0 else M3Err_none, 4), x)), m3_GetMemory = (\<lambda>_ _. (0x1040, 64)),
     m3_enter = (\<lambda>_ _ (_, k). (0, k)), m3_step = (\<lambda>(m, k). (if m = 0 then Host_call 2 0x1040 (Accelerate 0 4) else Returned M3Err_none, m, k)),
     m3_resume = (\<lambda>_ (m, k). (Suc m, k)), m3_GetResultsV = (\<lambda>_ _. 0), m3_FreeModule = (\<lambda>_ x. x), m3_FreeRuntime = (\<lambda>_ x. x)\<rparr>"

definition demo_cpu :: cpu where
  "demo_cpu = \<lparr>fadd = (+), fmul = (*), junk = replicate 12 0\<rparr>"

definition demo_heap :: ipc_heap where
  "demo_heap = boot_window\<lparr>heap_up := True, blob_count := 1, blob_table := (\<lambda>_. \<lparr>be_blob_id = 1, be_offset = 0, be_blocks = 1\<rparr>),
     shm := wr32 (wr32 (wr32 (wr32 (wr16 (wr32 (\<lambda>_. 0) (blob_addr 0) BLOB_MAGIC) (blob_addr 0 + 4) 1) (blob_addr 0 + 8) 8) (blob_addr 0 + 12) 32)
       (blob_addr 32) 2) (blob_addr 32 + 4) 7\<rparr>"

definition demo_wasm :: "ivshmem \<Rightarrow> nat wasm" where
  "demo_wasm d = \<lparr>w_dev = d, w_heap = demo_heap, w_kheap = heap1\<lparr>kmem := wr32 (wr32 (kmem heap1) 4160 3) 4164 5\<rparr>,
     w_console = console_boot, g_env = 0, g_last_obs = 0, g_last_obs_len = 0, g_cached_model_id = 0, g_cached_weights = 0,
     g_cached_weights_len = 0, m3_state = 0, m3_calls = []\<rparr>"

lemma two_indices: "[0..<2] = [0, 1 :: nat]"
  by (simp add: upt_rec)

lemma demo_blob:
  "heap_get_blob 1 demo_heap = Some (Some 0, demo_heap)" "blob_size_at (shm demo_heap) 0 = 8" "model_floats demo_heap 0 = [2, 7]"
proof -
  have "blob_magic (shm demo_heap) 0 = BLOB_MAGIC" "blob_id_at (shm demo_heap) 0 = 1"
    by (simp_all add: demo_heap_def blob_magic_def blob_id_at_def blob_addr_def)
  then show "heap_get_blob 1 demo_heap = Some (Some 0, demo_heap)"
    by (simp add: heap_get_blob_def cached_blob_def demo_heap_def wfind.simps)
  show "blob_size_at (shm demo_heap) 0 = 8" by (simp add: demo_heap_def blob_size_at_def blob_addr_def)
  moreover have "blob_offset_at (shm demo_heap) 0 = 32" by (simp add: demo_heap_def blob_offset_at_def blob_addr_def)
  ultimately show "model_floats demo_heap 0 = [2, 7]"
    by (simp add: model_floats_def floats_def two_indices demo_heap_def blob_addr_def)
qed

lemma demo_cache: "cache_ok (demo_wasm d) [(False, 112), (True, 272)] None" "unat (heap_base (w_kheap (demo_wasm d))) = 4112"
  "observation (demo_wasm d) [(False, 112), (True, 272)] None 4160 2"
  "floats (kmem (w_kheap (demo_wasm d))) 4160 2 = [3, 5]"
proof -
  have b: "block_at [(False, 112), (True, 272)] 0 False 112" by (simp add: block_at_Cons)
  show base: "unat (heap_base (w_kheap (demo_wasm d))) = 4112" using heap1_facts(2) by (simp add: demo_wasm_def)
  have "heap (heap1\<lparr>kmem := wr32 (wr32 (kmem heap1) 4160 3) 4164 5\<rparr>) [(False, 112), (True, 272)]"
    using heap1_facts(2) by (intro heap_payload(1) [OF heap1_facts(1) b]) (auto simp: payload_def wr32_outside)
  then show "cache_ok (demo_wasm d) [(False, 112), (True, 272)] None" by (simp add: cache_ok_def demo_wasm_def)
  show "observation (demo_wasm d) [(False, 112), (True, 272)] None 4160 2"
    using b base by (auto simp: observation_def intro!: exI [of _ 0] exI [of _ 112])
  show "floats (kmem (w_kheap (demo_wasm d))) 4160 2 = [3, 5]" by (simp add: floats_def demo_wasm_def two_indices)
qed


theorem wasm_run_bytes_handles_witness:
  "\<forall>d. \<exists>t. wasm_run_bytes demo_m3 demo_cpu 1 1 (demo_wasm d) = Some (0, t) \<and> use_handles (m3_calls t) no_handles = Some no_handles"
proof
  fix d
  have "\<exists>t. wasm_run_bytes demo_m3 demo_cpu 1 1 (demo_wasm d) = Some (0, t)"
    by (simp add: wasm_run_bytes_def wasm_env_init_once_def new_runtime_def limit_memory_def parse_module_def load_module_def link_all_def
        find_function_def m3_query_def m3_command_def set_m3_def m3_CallV_def guest_run.simps host_call_def demo_m3_def demo_wasm_def)
  then obtain t where t: "wasm_run_bytes demo_m3 demo_cpu 1 1 (demo_wasm d) = Some (0, t)" by blast
  then show "\<exists>t. wasm_run_bytes demo_m3 demo_cpu 1 1 (demo_wasm d) = Some (0, t) \<and> use_handles (m3_calls t) no_handles = Some no_handles"
    using wasm_run_bytes_handles [OF t] by (auto simp: demo_wasm_def)
qed

lemma wr32_bytes: "wr32 m a v = m(a := ucast v, Suc a := ucast (drop_bit 8 v), Suc (Suc a) := ucast (drop_bit 16 v),
    Suc (Suc (Suc a)) := ucast (drop_bit 24 v))"
proof -
  have "wr_le (Suc (Suc (Suc (Suc 0)))) m a v = m(a := ucast v, Suc a := ucast (drop_bit 8 v), Suc (Suc a) := ucast (drop_bit 16 v),
      Suc (Suc (Suc a)) := ucast (drop_bit 24 v))"
    by (simp add: add.assoc)
  then show ?thesis unfolding wr32_def by (simp only: eval_nat_numeral BitM.simps)
qed


end
