(* ===== verification/Wasm3_Reader.thy ===== *)
theory Wasm3_Reader
  imports Zen_Memory
begin

text \<open>
  The binary readers of the WebAssembly interpreter (\<^verbatim>\<open>kernel/lib/wasm3/m3_core.c\<close>): fixed-width little-endian
  integers, LEB128 integers, counted strings and the value types. A pointer into the module's bytes is a machine
  word of the pointer width \<open>'p\<close>, so that pointer arithmetic wraps as it does on the target: the 32-bit
  kernel, the only build that links wasm3, has \<open>'p = 32\<close>. A reader takes the bytes, a position and the end of its input and
  returns the result code (\<open>None\<close> is \<^verbatim>\<open>m3Err_none\<close>), the value and the new position. The locale
  \<open>reader\<close> states what the parser relies on: a successful read moves forward, never past the end, and sees only the bytes
  before the end.
\<close>

section \<open>Result codes and types\<close>

text \<open>The result codes of \<^verbatim>\<open>wasm3.h\<close> that the modelled code returns; \<open>m3Err_message\<close> is a literal string.\<close>

datatype m3_error =
    m3Err_mallocFailed | m3Err_incompatibleWasmVersion | m3Err_wasmMalformed | m3Err_misorderedWasmSection
  | m3Err_wasmUnderrun | m3Err_wasmMissingInitExpr | m3Err_lebOverflow | m3Err_missingUTF8
  | m3Err_wasmSectionUnderrun | m3Err_wasmSectionOverrun | m3Err_invalidTypeId | m3Err_tooManyMemorySections
  | m3Err_tooManyArgsRets | m3Err_moduleNotLinked | m3Err_moduleAlreadyLinked | m3Err_functionLookupFailed
  | m3Err_malformedFunctionSignature | m3Err_mallocFailedCodePage | m3Err_missingCompiledCode
  | m3Err_wasmMemoryOverflow | m3Err_argumentCountMismatch | m3Err_globalLookupFailed | m3Err_globalTypeMismatch
  | m3Err_globalNotMutable | m3Err_functionStackOverflow | m3Err_functionStackUnderrun | m3Err_typeMismatch | m3Err_typeCountMismatch
  | m3Err_trapOutOfBoundsMemoryAccess | m3Err_trapDivisionByZero | m3Err_trapIntegerOverflow | m3Err_trapIntegerConversion
  | m3Err_trapTableIndexOutOfRange | m3Err_trapTableElementIsNull | m3Err_trapIndirectCallTypeMismatch | m3Err_trapStackOverflow
  | m3Err_message string

type_synonym ('a, 'p) m3_read = "m3_error option \<times> 'a \<times> 'p word"

definition c_m3Type_none :: u8 where [zconst]: "c_m3Type_none = 0"
definition c_m3Type_i32 :: u8 where [zconst]: "c_m3Type_i32 = 1"
definition c_m3Type_i64 :: u8 where [zconst]: "c_m3Type_i64 = 2"
definition c_m3Type_f32 :: u8 where [zconst]: "c_m3Type_f32 = 3"
definition c_m3Type_f64 :: u8 where [zconst]: "c_m3Type_f64 = 4"
definition c_m3Type_unknown :: u8 where [zconst]: "c_m3Type_unknown = 5"

definition d_m3MaxSaneUtf8Length :: u32 where [zconst]: "d_m3MaxSaneUtf8Length = 10000"

text \<open>The argument is an \<open>i8\<close>; negation wraps in eight bits.\<close>

definition NormalizeType :: "u8 \<Rightarrow> m3_error option \<times> u8" where
  "NormalizeType i_convolutedWasmType =
     (let ty = - i_convolutedWasmType
      in if ty = 0x40 then (None, c_m3Type_none)
         else if ty < c_m3Type_i32 \<or> ty > c_m3Type_f64 then (Some m3Err_invalidTypeId, ty)
         else (None, ty))"

definition IsFpType :: "u8 \<Rightarrow> bool" where
  "IsFpType ty \<longleftrightarrow> ty = c_m3Type_f32 \<or> ty = c_m3Type_f64"

definition IsIntType :: "u8 \<Rightarrow> bool" where
  "IsIntType ty \<longleftrightarrow> ty = c_m3Type_i32 \<or> ty = c_m3Type_i64"

text \<open>The pointer size in bytes is an argument: four in the 32-bit build.\<close>

definition Is64BitType :: "nat \<Rightarrow> u8 \<Rightarrow> bool" where
  "Is64BitType sizeof_ptr ty =
     (if ty = c_m3Type_i64 \<or> ty = c_m3Type_f64 then True
      else if ty = c_m3Type_i32 \<or> ty = c_m3Type_f32 \<or> ty = c_m3Type_none then False
      else sizeof_ptr = 8)"

definition SizeOfType :: "u8 \<Rightarrow> u32" where
  "SizeOfType ty = (if ty = c_m3Type_i32 \<or> ty = c_m3Type_f32 then 4 else 8)"

section \<open>Readers\<close>

definition Read_u64 :: "mem \<Rightarrow> 'p::len word \<Rightarrow> 'p word \<Rightarrow> (u64, 'p) m3_read" where
  "Read_u64 m p e = (let ptr = p + 8 in if ptr \<le> e then (None, rd64 m (unat p), ptr) else (Some m3Err_wasmUnderrun, 0, p))"

definition Read_u32 :: "mem \<Rightarrow> 'p::len word \<Rightarrow> 'p word \<Rightarrow> (u32, 'p) m3_read" where
  "Read_u32 m p e = (let ptr = p + 4 in if ptr \<le> e then (None, rd32 m (unat p), ptr) else (Some m3Err_wasmUnderrun, 0, p))"

text \<open>A float is its bit pattern.\<close>

definition Read_f64 :: "mem \<Rightarrow> 'p::len word \<Rightarrow> 'p word \<Rightarrow> (u64, 'p) m3_read" where
  "Read_f64 m p e = (let ptr = p + 8 in if ptr \<le> e then (None, rd64 m (unat p), ptr) else (Some m3Err_wasmUnderrun, 0, p))"

definition Read_f32 :: "mem \<Rightarrow> 'p::len word \<Rightarrow> 'p word \<Rightarrow> (u32, 'p) m3_read" where
  "Read_f32 m p e = (let ptr = p + 4 in if ptr \<le> e then (None, rd32 m (unat p), ptr) else (Some m3Err_wasmUnderrun, 0, p))"

definition Read_u8 :: "mem \<Rightarrow> 'p::len word \<Rightarrow> 'p word \<Rightarrow> (u8, 'p) m3_read" where
  "Read_u8 m p e = (if p < e then (None, m (unat p), p + 1) else (Some m3Err_wasmUnderrun, 0, p))"

text \<open>\<^verbatim>\<open>d_m3CascadedOpcodes\<close> is 1, so an opcode is one byte.\<close>

definition Read_opcode :: "mem \<Rightarrow> 'p::len word \<Rightarrow> 'p word \<Rightarrow> (u16, 'p) m3_read" where
  "Read_opcode m p e = (if p < e then (None, ucast (m (unat p)), p + 1) else (Some m3Err_wasmUnderrun, 0, p))"

function leb_unsigned_loop :: "mem \<Rightarrow> u32 \<Rightarrow> u64 \<Rightarrow> u32 \<Rightarrow> 'p::len word \<Rightarrow> 'p word \<Rightarrow> (u64, 'p) m3_read" where
  "leb_unsigned_loop m i_maxNumBits val shift ptr e =
     (if ptr < e
      then let byte = (ucast (m (unat ptr)) :: u64);
               val = val OR push_bit (unat shift) (byte AND 0x7f);
               shift = shift + 7
           in if byte AND 0x80 = 0 then (None, val, ptr + 1)
              else if shift \<ge> i_maxNumBits then (Some m3Err_lebOverflow, val, ptr + 1)
              else leb_unsigned_loop m i_maxNumBits val shift (ptr + 1) e
      else (Some m3Err_wasmUnderrun, val, ptr))"
  by pat_completeness auto
termination
  by (relation "measure (\<lambda>(m, b, v, s, p, e). unat e - unat p)") (auto simp: unat_Suc_less word_less_nat_alt)

declare leb_unsigned_loop.simps [simp del]

definition ReadLebUnsigned :: "mem \<Rightarrow> u32 \<Rightarrow> 'p::len word \<Rightarrow> 'p word \<Rightarrow> (u64, 'p) m3_read" where
  "ReadLebUnsigned m i_maxNumBits p e = leb_unsigned_loop m i_maxNumBits 0 0 p e"

function leb_signed_loop :: "mem \<Rightarrow> u32 \<Rightarrow> u64 \<Rightarrow> u32 \<Rightarrow> 'p::len word \<Rightarrow> 'p word \<Rightarrow> (u64, 'p) m3_read" where
  "leb_signed_loop m i_maxNumBits val shift ptr e =
     (if ptr < e
      then let byte = (ucast (m (unat ptr)) :: u64);
               val = val OR push_bit (unat shift) (byte AND 0x7f);
               shift = shift + 7
           in if byte AND 0x80 = 0
              then (None, if byte AND 0x40 \<noteq> 0 \<and> shift < 64 then val OR push_bit (unat shift) (NOT 0) else val, ptr + 1)
              else if shift \<ge> i_maxNumBits then (Some m3Err_lebOverflow, val, ptr + 1)
              else leb_signed_loop m i_maxNumBits val shift (ptr + 1) e
      else (Some m3Err_wasmUnderrun, val, ptr))"
  by pat_completeness auto
termination
  by (relation "measure (\<lambda>(m, b, v, s, p, e). unat e - unat p)") (auto simp: unat_Suc_less word_less_nat_alt)

declare leb_signed_loop.simps [simp del]

definition ReadLebSigned :: "mem \<Rightarrow> u32 \<Rightarrow> 'p::len word \<Rightarrow> 'p word \<Rightarrow> (u64, 'p) m3_read" where
  "ReadLebSigned m i_maxNumBits p e = leb_signed_loop m i_maxNumBits 0 0 p e"

text \<open>The conversion of the 64-bit value to the width the caller asked for.\<close>

definition narrow :: "(u64, 'p::len) m3_read \<Rightarrow> ('w::len word, 'p) m3_read" where
  "narrow x = (case x of (r, v, p) \<Rightarrow> (r, ucast v, p))"

definition ReadLEB_u32 :: "mem \<Rightarrow> 'p::len word \<Rightarrow> 'p word \<Rightarrow> (u32, 'p) m3_read" where
  "ReadLEB_u32 m p e = narrow (ReadLebUnsigned m 32 p e)"

definition ReadLEB_u7 :: "mem \<Rightarrow> 'p::len word \<Rightarrow> 'p word \<Rightarrow> (u8, 'p) m3_read" where
  "ReadLEB_u7 m p e = narrow (ReadLebUnsigned m 7 p e)"

definition ReadLEB_i7 :: "mem \<Rightarrow> 'p::len word \<Rightarrow> 'p word \<Rightarrow> (u8, 'p) m3_read" where
  "ReadLEB_i7 m p e = narrow (ReadLebSigned m 7 p e)"

definition ReadLEB_i32 :: "mem \<Rightarrow> 'p::len word \<Rightarrow> 'p word \<Rightarrow> (u32, 'p) m3_read" where
  "ReadLEB_i32 m p e = narrow (ReadLebSigned m 32 p e)"

definition ReadLEB_i64 :: "mem \<Rightarrow> 'p::len word \<Rightarrow> 'p word \<Rightarrow> (u64, 'p) m3_read" where
  "ReadLEB_i64 m p e = ReadLebSigned m 64 p e"

text \<open>
  A counted string, copied to the heap. Whether the copy could be allocated is the argument \<open>granted\<close>; without memory
  the reader still succeeds and hands out NULL, here \<open>None\<close>.
\<close>

type_synonym cstr = "u8 list"

definition bytes_of :: "mem \<Rightarrow> nat \<Rightarrow> nat \<Rightarrow> u8 list" where
  "bytes_of m a n = map (\<lambda>i. m (a + i)) [0..<n]"

definition Read_utf8 :: "bool \<Rightarrow> mem \<Rightarrow> 'p::len word \<Rightarrow> 'p word \<Rightarrow> (cstr option, 'p) m3_read" where
  "Read_utf8 granted m p e =
     (case ReadLEB_u32 m p e of
        (Some r, utf8Length, p) \<Rightarrow> (Some r, None, p)
      | (None, utf8Length, p) \<Rightarrow>
          if utf8Length \<le> d_m3MaxSaneUtf8Length
          then let fin = p + ucast utf8Length
               in if fin \<le> e then (None, if granted then Some (bytes_of m (unat p) (unat utf8Length)) else None, fin)
                  else (Some m3Err_wasmUnderrun, None, p)
          else (Some m3Err_missingUTF8, None, p))"

text \<open>A counted loop of one reader, left at its first error.\<close>

fun read_many :: "(mem \<Rightarrow> 'p::len word \<Rightarrow> 'p word \<Rightarrow> ('a, 'p) m3_read) \<Rightarrow> nat \<Rightarrow> mem \<Rightarrow> 'p word \<Rightarrow> 'p word \<Rightarrow> ('a list, 'p) m3_read" where
  "read_many rd 0 m p e = (None, [], p)"
| "read_many rd (Suc n) m p e =
     (case rd m p e of
        (Some r, v, q) \<Rightarrow> (Some r, [], q)
      | (None, v, q) \<Rightarrow> (case read_many rd n m q e of (r, vs, q) \<Rightarrow> (r, v # vs, q)))"

text \<open>One value type of a signature: read and normalised.\<close>

definition read_value_type :: "mem \<Rightarrow> 'p::len word \<Rightarrow> 'p word \<Rightarrow> (u8, 'p) m3_read" where
  "read_value_type m p e =
     (case ReadLEB_i7 m p e of
        (Some r, wasmType, q) \<Rightarrow> (Some r, wasmType, q)
      | (None, wasmType, q) \<Rightarrow> (case NormalizeType wasmType of (r, ty) \<Rightarrow> (r, ty, q)))"

section \<open>What a reader promises\<close>

lemma leb_unsigned_bounds:
  "p \<le> e \<Longrightarrow> leb_unsigned_loop m b v s p e = (r, w, q) \<Longrightarrow> p \<le> q \<and> q \<le> e \<and> (r = None \<longrightarrow> p < q)"
proof (induction m b v s p e arbitrary: w rule: leb_unsigned_loop.induct)
  case (1 m b v s p e)
  show ?case
  proof (cases "p < e")
    case True
    note step = word_less_Suc_le [OF True] word_less_Suc_gr [OF True]
    show ?thesis
      using "1.prems" "1.IH" [OF True refl refl refl _ _ step(1)] step True
      by (subst (asm) leb_unsigned_loop.simps) (auto simp: Let_def split: if_splits)
  next
    case False
    then show ?thesis using "1.prems" by (subst (asm) leb_unsigned_loop.simps) auto
  qed
qed

lemma leb_signed_bounds:
  "p \<le> e \<Longrightarrow> leb_signed_loop m b v s p e = (r, w, q) \<Longrightarrow> p \<le> q \<and> q \<le> e \<and> (r = None \<longrightarrow> p < q)"
proof (induction m b v s p e arbitrary: w rule: leb_signed_loop.induct)
  case (1 m b v s p e)
  show ?case
  proof (cases "p < e")
    case True
    note step = word_less_Suc_le [OF True] word_less_Suc_gr [OF True]
    show ?thesis
      using "1.prems" "1.IH" [OF True refl refl refl _ _ step(1)] step True
      by (subst (asm) leb_signed_loop.simps) (auto simp: Let_def split: if_splits)
  next
    case False
    then show ?thesis using "1.prems" by (subst (asm) leb_signed_loop.simps) auto
  qed
qed

lemma leb_underrun:
  "\<not> p < e \<Longrightarrow> leb_unsigned_loop m b v s p e = (Some m3Err_wasmUnderrun, v, p)"
  "\<not> p < e \<Longrightarrow> leb_signed_loop m b v s p e = (Some m3Err_wasmUnderrun, v, p)"
  by (subst leb_unsigned_loop.simps leb_signed_loop.simps, simp)+

text \<open>Two memories that agree on the bytes from \<open>p\<close> up to \<open>e\<close>.\<close>

definition agree :: "mem \<Rightarrow> mem \<Rightarrow> 'p::len word \<Rightarrow> 'p word \<Rightarrow> bool" where
  "agree m m' p e \<longleftrightarrow> (\<forall>a. unat p \<le> a \<and> a < unat e \<longrightarrow> m a = m' a)"

lemma agree_at: "agree m m' p e \<Longrightarrow> p < e \<Longrightarrow> m (unat p) = m' (unat p)"
  by (simp add: agree_def word_less_nat_alt)

lemma agree_later: "agree m m' p e \<Longrightarrow> p \<le> q \<Longrightarrow> agree m m' q e"
  by (auto simp: agree_def word_le_nat_alt)

lemma leb_unsigned_agree:
  "agree m m' p e \<Longrightarrow> leb_unsigned_loop m b v s p e = leb_unsigned_loop m' b v s p e"
proof (induction m b v s p e rule: leb_unsigned_loop.induct)
  case (1 m b v s p e)
  show ?case
  proof (cases "p < e")
    case True
    have "agree m m' (p + 1) e" using agree_later [OF "1.prems"] word_less_Suc_gr [OF True] by simp
    then show ?thesis
      using "1.IH" [OF True refl refl refl] agree_at [OF "1.prems" True] True
      by (subst (1 2) leb_unsigned_loop.simps) (simp add: Let_def)
  next
    case False
    then show ?thesis by (simp add: leb_underrun)
  qed
qed

lemma leb_signed_agree:
  "agree m m' p e \<Longrightarrow> leb_signed_loop m b v s p e = leb_signed_loop m' b v s p e"
proof (induction m b v s p e rule: leb_signed_loop.induct)
  case (1 m b v s p e)
  show ?case
  proof (cases "p < e")
    case True
    have "agree m m' (p + 1) e" using agree_later [OF "1.prems"] word_less_Suc_gr [OF True] by simp
    then show ?thesis
      using "1.IH" [OF True refl refl refl] agree_at [OF "1.prems" True] True
      by (subst (1 2) leb_signed_loop.simps) (simp add: Let_def)
  next
    case False
    then show ?thesis by (simp add: leb_underrun)
  qed
qed

locale reader =
  fixes rd :: "mem \<Rightarrow> 'p::len word \<Rightarrow> 'p word \<Rightarrow> ('a, 'p) m3_read"
  assumes progress: "rd m p e = (None, v, q) \<Longrightarrow> p < q \<and> q \<le> e"
    and confined: "agree m m' p e \<Longrightarrow> rd m p e = rd m' p e"
begin

lemma no_input: "\<not> p < e \<Longrightarrow> fst (rd m p e) \<noteq> None"
proof (cases "rd m p e")
  case (fields r v q)
  then show "\<not> p < e \<Longrightarrow> fst (rd m p e) \<noteq> None"
    using progress [of m p e v q] by (cases r) auto
qed

end

context reader
begin

lemma read_many_bounds:
  "read_many rd n m p e = (None, vs, q) \<Longrightarrow> p \<le> e \<Longrightarrow> length vs = n \<and> unat p + n \<le> unat q \<and> q \<le> e"
proof (induction n arbitrary: p vs)
  case (Suc n)
  obtain r v q1 where rd: "rd m p e = (r, v, q1)" by (cases "rd m p e")
  show ?case
  proof (cases r)
    case None
    obtain ws where ws: "read_many rd n m q1 e = (None, ws, q)" and vs: "vs = v # ws"
      using Suc.prems(1) rd None by (auto split: prod.splits)
    have "p < q1" "q1 \<le> e" using progress [of m p e v q1] rd None by auto
    then show ?thesis using Suc.IH [OF ws] vs by (auto simp: word_less_nat_alt)
  qed (use Suc.prems(1) rd in simp)
qed auto

lemma read_many_confined: "agree m m' p e \<Longrightarrow> read_many rd n m p e = read_many rd n m' p e"
proof (induction n arbitrary: p)
  case (Suc n)
  obtain r v q where rd: "rd m p e = (r, v, q)" by (cases "rd m p e")
  have eq: "rd m' p e = (r, v, q)" using confined [OF Suc.prems] rd by simp
  show ?case
  proof (cases r)
    case None
    then have "agree m m' q e"
      using agree_later [OF Suc.prems, of q] progress [of m p e v q] rd by (simp add: less_imp_le)
    then show ?thesis using Suc.IH rd eq None by simp
  qed (use rd eq in simp)
qed simp

end

text \<open>A reader of what an encoder writes.\<close>

definition holds :: "mem \<Rightarrow> nat \<Rightarrow> u8 list \<Rightarrow> bool" where
  "holds m a bs \<longleftrightarrow> (\<forall>i < length bs. m (a + i) = bs ! i)"

lemma holds_Nil [simp]: "holds m a []"
  by (simp add: holds_def)

lemma holds_Cons [simp]: "holds m a (b # bs) \<longleftrightarrow> m a = b \<and> holds m (Suc a) bs"
  by (auto simp: holds_def less_Suc_eq_0_disj)

lemma holds_append [simp]: "holds m a (bs @ cs) \<longleftrightarrow> holds m a bs \<and> holds m (a + length bs) cs"
  by (induction bs arbitrary: a) auto

lemma bytes_of_holds: "holds m a bs \<Longrightarrow> bytes_of m a (length bs) = bs"
  by (auto simp: holds_def bytes_of_def intro: nth_equalityI)

lemma unat_after:
  fixes p e :: "'p::len word"
  assumes "unat p + n \<le> unat e"
  shows "unat (p + of_nat n) = unat p + n"
proof -
  have "unat p + n < 2 ^ LENGTH('p)" using assms unsigned_less [of e, where ?'a = nat] by linarith
  then have "unat (of_nat (unat p + n) :: 'p word) = unat p + n" by (simp only: unat_of_nat mod_less)
  then show ?thesis by simp
qed

locale codec = reader rd for rd :: "mem \<Rightarrow> 'p::len word \<Rightarrow> 'p word \<Rightarrow> ('a, 'p) m3_read" +
  fixes enc :: "'a \<Rightarrow> u8 list" and valid :: "'a \<Rightarrow> bool"
  assumes decode: "valid v \<Longrightarrow> holds m (unat p) (enc v) \<Longrightarrow> unat p + length (enc v) \<le> unat e \<Longrightarrow>
    rd m p e = (None, v, p + of_nat (length (enc v)))"
begin

lemma decode_many:
  "(\<And>v. v \<in> set vs \<Longrightarrow> valid v) \<Longrightarrow> holds m (unat p) (concat (map enc vs)) \<Longrightarrow>
   unat p + length (concat (map enc vs)) \<le> unat e \<Longrightarrow>
   read_many rd (length vs) m p e = (None, vs, p + of_nat (length (concat (map enc vs))))"
proof (induction vs arbitrary: p)
  case (Cons v vs)
  let ?q = "p + of_nat (length (enc v))"
  have rd: "rd m p e = (None, v, ?q)" by (rule decode) (use Cons.prems in auto)
  have "unat ?q = unat p + length (enc v)" by (rule unat_after [of _ _ e]) (use Cons.prems(3) in simp)
  then have "read_many rd (length vs) m ?q e = (None, vs, ?q + of_nat (length (concat (map enc vs))))"
    using Cons.prems by (intro Cons.IH) auto
  then show ?case using rd by (simp add: add.assoc)
qed simp

end

section \<open>LEB128\<close>

text \<open>The encodings of the WebAssembly specification, as reference.\<close>

fun uleb :: "nat \<Rightarrow> u8 list" where
  "uleb n = (if n < 128 then [of_nat n] else of_nat (n mod 128 + 128) # uleb (n div 128))"

declare uleb.simps [simp del]

function sleb :: "int \<Rightarrow> u8 list" where
  "sleb i = (if - 64 \<le> i \<and> i < 64 then [word_of_int (i mod 128)] else word_of_int (i mod 128 + 128) # sleb (i div 128))"
  by pat_completeness auto
termination
proof (relation "measure (\<lambda>i. nat \<bar>i\<bar>)")
  show "(i div 128, i) \<in> measure (\<lambda>i. nat \<bar>i\<bar>)" if "\<not> (- 64 \<le> i \<and> i < 64)" for i :: int
    using that by auto
qed simp

declare sleb.simps [simp del]

lemma byte_parts:
  assumes "k < 128"
  shows "(ucast (of_nat k :: u8) :: u64) AND 0x7f = of_nat k" "(ucast (of_nat k :: u8) :: u64) AND 0x80 = 0"
    "(ucast (of_nat (k + 128) :: u8) :: u64) AND 0x7f = of_nat k" "(ucast (of_nat (k + 128) :: u8) :: u64) AND 0x80 \<noteq> 0"
proof -
  have "\<forall>k \<in> set [0..<128]. (ucast (of_nat k :: u8) :: u64) AND 0x7f = of_nat k \<and> (ucast (of_nat k :: u8) :: u64) AND 0x80 = 0 \<and>
    (ucast (of_nat (k + 128) :: u8) :: u64) AND 0x7f = of_nat k \<and> (ucast (of_nat (k + 128) :: u8) :: u64) AND 0x80 \<noteq> 0"
    by code_simp
  then show "(ucast (of_nat k :: u8) :: u64) AND 0x7f = of_nat k" "(ucast (of_nat k :: u8) :: u64) AND 0x80 = 0"
    "(ucast (of_nat (k + 128) :: u8) :: u64) AND 0x7f = of_nat k" "(ucast (of_nat (k + 128) :: u8) :: u64) AND 0x80 \<noteq> 0"
    using assms by auto
qed

lemma split7: "(of_nat (n mod 128) :: u64) OR push_bit 7 (of_nat (n div 128)) = of_nat n"
proof -
  have "take_bit 7 n OR push_bit 7 (drop_bit 7 n) = n"
  proof (rule bit_eqI)
    show "bit (take_bit 7 n OR push_bit 7 (drop_bit 7 n)) i \<longleftrightarrow> bit n i" for i
      by (cases "i < 7") (simp_all add: bit_simps)
  qed
  then have "(of_nat (take_bit 7 n OR push_bit 7 (drop_bit 7 n)) :: u64) = of_nat n" by simp
  then show ?thesis by (simp add: of_nat_or_eq of_nat_push_bit take_bit_eq_mod drop_bit_eq_div)
qed

lemma leb_unsigned_uleb:
  assumes "holds m (unat p) (uleb n)" "unat p + length (uleb n) \<le> unat e" "n * 2 ^ unat s < 2 ^ unat b" "b \<le> 64"
  shows "leb_unsigned_loop m b v s p e = (None, v OR push_bit (unat s) (of_nat n), p + of_nat (length (uleb n)))"
  using assms
proof (induction n arbitrary: v s p rule: uleb.induct)
  case (1 n)
  have lt: "p < e" using "1.prems"(2) uleb.simps [of n] by (auto simp: word_less_nat_alt split: if_splits)
  show ?case
  proof (cases "n < 128")
    case True
    then show ?thesis using "1.prems"(1) lt byte_parts [OF True] uleb.simps [of n]
      by (subst leb_unsigned_loop.simps) (simp add: Let_def del: push_bit_and)
  next
    case False
    have eq: "uleb n = of_nat (n mod 128 + 128) # uleb (n div 128)" using False uleb.simps [of n] by simp
    have "2 ^ (unat s + 7) \<le> n * 2 ^ unat s" using False by (simp add: power_add)
    then have "(2::nat) ^ (unat s + 7) < 2 ^ unat b" using "1.prems"(3) by linarith
    then have sb: "unat s + 7 < unat b" by (simp only: power_strict_increasing_iff one_less_numeral_iff semiring_norm)
    have us: "unat (s + 7) = unat s + 7"
      using sb "1.prems"(4) unat_after [of s 7 64] by (simp add: word_le_nat_alt)
    have up: "unat (p + 1) = Suc (unat p)" by (rule unat_Suc_less [OF lt])
    have "n div 128 * 2 ^ unat (s + 7) \<le> n * 2 ^ unat s" by (simp add: us power_add)
    then have IH: "leb_unsigned_loop m b w (s + 7) (p + 1) e =
        (None, w OR push_bit (unat s + 7) (of_nat (n div 128)), p + 1 + of_nat (length (uleb (n div 128))))" for w
      using "1.IH" [OF False, of "p + 1" "s + 7" w] "1.prems" eq us up by auto
    have "b > s + 7" using sb us by (simp add: word_less_nat_alt)
    moreover have "m (unat p) = of_nat (n mod 128 + 128)" using "1.prems"(1) eq by simp
    ultimately show ?thesis
      using IH lt byte_parts(3,4) [of "n mod 128"] eq split7 [of n]
      by (subst leb_unsigned_loop.simps)
        (simp add: Let_def or.assoc push_bit_or [symmetric] flip: push_bit_push_bit del: push_bit_and push_bit_or)
  qed
qed

text \<open>The seven low bits of a signed number and the sign extension of its last byte.\<close>

lemma word_of_int_split7:
  "(word_of_int (i mod 128) :: u64) OR push_bit 7 (word_of_int (i div 128)) = word_of_int i"
proof -
  have "take_bit 7 i OR push_bit 7 (drop_bit 7 i) = i"
  proof (rule bit_eqI)
    show "bit (take_bit 7 i OR push_bit 7 (drop_bit 7 i)) k \<longleftrightarrow> bit i k" for k
      by (cases "k < 7") (simp_all add: bit_simps)
  qed
  then have "(word_of_int (take_bit 7 i OR push_bit 7 (drop_bit 7 i)) :: u64) = word_of_int i" by simp
  then show ?thesis
    by (simp add: of_int_or_eq of_int_push_bit take_bit_eq_mod drop_bit_eq_div)
qed

lemma sign_extend7:
  assumes "- 64 \<le> i" "i < 0"
  shows "(word_of_int (i mod 128) :: u64) OR push_bit 7 (NOT 0) = word_of_int i"
proof -
  have "i div 128 = - 1" using assms by auto
  then show ?thesis using word_of_int_split7 [of i] by simp
qed

lemma signed_byte:
  fixes i :: int
  shows "(ucast (word_of_int (i mod 128) :: u8) :: u64) AND 0x7f = word_of_int (i mod 128)"
    "(ucast (word_of_int (i mod 128) :: u8) :: u64) AND 0x80 = 0"
    "(ucast (word_of_int (i mod 128 + 128) :: u8) :: u64) AND 0x7f = word_of_int (i mod 128)"
    "(ucast (word_of_int (i mod 128 + 128) :: u8) :: u64) AND 0x80 \<noteq> 0"
proof -
  let ?k = "nat (i mod 128)"
  have k: "?k < 128" "i mod 128 = int ?k" by simp_all
  show "(ucast (word_of_int (i mod 128) :: u8) :: u64) AND 0x7f = word_of_int (i mod 128)"
    "(ucast (word_of_int (i mod 128) :: u8) :: u64) AND 0x80 = 0"
    "(ucast (word_of_int (i mod 128 + 128) :: u8) :: u64) AND 0x7f = word_of_int (i mod 128)"
    "(ucast (word_of_int (i mod 128 + 128) :: u8) :: u64) AND 0x80 \<noteq> 0"
    using byte_parts [OF k(1)] by (subst k(2), simp)+
qed

lemma sign_bit:
  assumes "- 64 \<le> i" "i < 64"
  shows "(ucast (word_of_int (i mod 128) :: u8) :: u64) AND 0x40 \<noteq> 0 \<longleftrightarrow> i < 0"
proof -
  have "\<forall>i \<in> set [-64..63]. ((ucast (word_of_int (i mod 128) :: u8) :: u64) AND 0x40 \<noteq> 0) = (i < 0)"
    by code_simp
  moreover have "i \<in> set [-64..63]" using assms by (simp only: set_upto atLeastAtMost_iff) simp
  ultimately show ?thesis by blast
qed

lemma leb_signed_sleb:
  assumes "holds m (unat p) (sleb i)" "unat p + length (sleb i) \<le> unat e"
    and "unat s < unat b" "- (2 ^ (unat b - 1 - unat s)) \<le> i" "i < 2 ^ (unat b - 1 - unat s)" "b \<le> 64"
  shows "leb_signed_loop m b v s p e = (None, v OR push_bit (unat s) (word_of_int i), p + of_nat (length (sleb i)))"
  using assms
proof (induction i arbitrary: v s p rule: sleb.induct)
  case (1 i)
  have lt: "p < e" using "1.prems"(2) sleb.simps [of i] by (auto simp: word_less_nat_alt split: if_splits)
  show ?case
  proof (cases "- 64 \<le> i \<and> i < 64")
    case True
    have sh: "unat (s + 7) = unat s + 7"
      using "1.prems"(3,6) by (simp add: unat_word_ariths word_le_nat_alt)
    have top: "push_bit (unat s + 7) (NOT 0 :: u64) = 0" if "\<not> s + 7 < 64"
      using that sh by (simp add: word_less_nat_alt push_bit_eq_mult)
    have val: "push_bit (unat s) (word_of_int (i mod 128)) OR
        (if i < 0 \<and> s + 7 < 64 then push_bit (unat s + 7) (NOT 0) else 0) = (push_bit (unat s) (word_of_int i) :: u64)"
    proof (cases "i < 0")
      case neg: True
      have "push_bit (unat s) (word_of_int i :: u64) =
          push_bit (unat s) (word_of_int (i mod 128)) OR push_bit (unat s + 7) (NOT 0)"
        unfolding sign_extend7 [OF conjunct1 [OF True] neg, symmetric] push_bit_or push_bit_push_bit by (rule refl)
      then show ?thesis using neg top by auto
    qed (use True in simp)
    show ?thesis using "1.prems"(1) lt signed_byte(1,2) [of i] sign_bit [of i] True sleb.simps [of i] val sh
      by (subst leb_signed_loop.simps) (auto simp: Let_def or.assoc simp del: push_bit_and)
  next
    case False
    have eq: "sleb i = word_of_int (i mod 128 + 128) # sleb (i div 128)" using False sleb.simps [of i] by simp
    have sb: "unat s + 7 < unat b"
    proof (rule ccontr)
      assume "\<not> ?thesis"
      then have "(2::int) ^ (unat b - 1 - unat s) \<le> 2 ^ 6" by (intro power_increasing) auto
      then show False using False "1.prems"(4,5) by simp
    qed
    have us: "unat (s + 7) = unat s + 7"
      using sb "1.prems"(6) unat_after [of s 7 64] by (simp add: word_le_nat_alt)
    have up: "unat (p + 1) = Suc (unat p)" by (rule unat_Suc_less [OF lt])
    have "unat b - 1 - unat s = unat b - 1 - unat (s + 7) + 7" using sb us by simp
    then have pw: "(2::int) ^ (unat b - 1 - unat s) = 128 * 2 ^ (unat b - 1 - unat (s + 7))" by (simp add: power_add)
    have IH: "leb_signed_loop m b w (s + 7) (p + 1) e =
        (None, w OR push_bit (unat s + 7) (word_of_int (i div 128)), p + 1 + of_nat (length (sleb (i div 128))))" for w
    proof -
      have "- (2 ^ (unat b - 1 - unat (s + 7))) \<le> i div 128" "i div 128 < 2 ^ (unat b - 1 - unat (s + 7))"
        using "1.prems"(4,5) pw by linarith+
      then show ?thesis using "1.IH" [OF False, of "p + 1" "s + 7" w] "1.prems"(1,2,6) eq us up sb by simp
    qed
    have "b > s + 7" using sb us by (simp add: word_less_nat_alt)
    moreover have "m (unat p) = word_of_int (i mod 128 + 128)" using "1.prems"(1) eq by simp
    ultimately show ?thesis
      using IH lt signed_byte(3,4) [of i] eq word_of_int_split7 [of i]
      by (subst leb_signed_loop.simps)
        (simp add: Let_def or.assoc push_bit_or [symmetric] flip: push_bit_push_bit del: push_bit_and push_bit_or)
  qed
qed

section \<open>The readers keep their promises\<close>

lemma ReadLebUnsigned_progress: "ReadLebUnsigned m b p e = (None, v, q) \<Longrightarrow> p < q \<and> q \<le> e"
  using leb_unsigned_bounds [of p e m b 0 0 None v q] leb_underrun(1) [of p e m b 0 0]
  by (cases "p < e") (auto simp: ReadLebUnsigned_def)

lemma ReadLebSigned_progress: "ReadLebSigned m b p e = (None, v, q) \<Longrightarrow> p < q \<and> q \<le> e"
  using leb_signed_bounds [of p e m b 0 0 None v q] leb_underrun(2) [of p e m b 0 0]
  by (cases "p < e") (auto simp: ReadLebSigned_def)

lemma narrow_eq: "narrow x = (r, v, q) \<longleftrightarrow> (\<exists>w. x = (r, w, q) \<and> v = ucast w)"
  by (cases x) (auto simp: narrow_def)

lemmas leb_defs = ReadLEB_u32_def ReadLEB_u7_def ReadLEB_i7_def ReadLEB_i32_def ReadLEB_i64_def

lemmas leb_progress = ReadLebUnsigned_progress ReadLebSigned_progress

lemma leb_agree:
  "agree m m' p e \<Longrightarrow> ReadLebUnsigned m b p e = ReadLebUnsigned m' b p e"
  "agree m m' p e \<Longrightarrow> ReadLebSigned m b p e = ReadLebSigned m' b p e"
  by (simp_all add: ReadLebUnsigned_def ReadLebSigned_def leb_unsigned_agree leb_signed_agree)

text \<open>The bytes of the numbers the module format is made of.\<close>

lemma ReadLebUnsigned_uleb:
  assumes "holds m (unat p) (uleb n)" "unat p + length (uleb n) \<le> unat e" "n < 2 ^ unat b" "b \<le> 64"
  shows "ReadLebUnsigned m b p e = (None, of_nat n, p + of_nat (length (uleb n)))"
  using leb_unsigned_uleb [OF assms(1,2), of 0 b 0] assms(3,4) by (simp add: ReadLebUnsigned_def)

lemma ReadLebSigned_sleb:
  assumes "holds m (unat p) (sleb i)" "unat p + length (sleb i) \<le> unat e" "0 < b" "b \<le> 64"
    "- (2 ^ (unat b - 1)) \<le> i" "i < 2 ^ (unat b - 1)"
  shows "ReadLebSigned m b p e = (None, word_of_int i, p + of_nat (length (sleb i)))"
  using leb_signed_sleb [OF assms(1,2), of 0 b 0] assms(3-) by (simp add: ReadLebSigned_def word_less_nat_alt)

lemma unsigned_codec:
  fixes rd :: "mem \<Rightarrow> 'p::len word \<Rightarrow> 'p word \<Rightarrow> ('w::len word, 'p) m3_read"
  assumes rd: "\<And>m p e. rd m p e = narrow (ReadLebUnsigned m b p e)"
    and valid: "\<And>v. valid v \<Longrightarrow> unat v < 2 ^ unat b" and b: "b \<le> 64"
  shows "codec rd (\<lambda>v. uleb (unat v)) valid"
proof
  show "p < q \<and> q \<le> e" if "rd m p e = (None, v, q)" for m p e v q
    using that by (auto simp: rd narrow_eq dest: leb_progress)
  show "rd m p e = rd m' p e" if "agree m m' p e" for m m' p e
    using leb_agree(1) [OF that] by (simp add: rd)
  show "rd m p e = (None, v, p + of_nat (length (uleb (unat v))))"
    if "valid v" "holds m (unat p) (uleb (unat v))" "unat p + length (uleb (unat v)) \<le> unat e" for v m p e
  proof -
    have "(2::nat) ^ unat b \<le> 2 ^ 64" using b by (intro power_increasing) (auto simp: word_le_nat_alt)
    then have "unat v < 2 ^ 64" using valid [OF that(1)] by linarith
    then have "unat (of_nat (unat v) :: u64) = unat v" using unat_of_nat [of "unat v", where ?'a = 64] by simp
    then have "(ucast (of_nat (unat v) :: u64) :: 'w word) = v"
      by (metis of_nat_unat ucast_id)
    then show ?thesis
      using ReadLebUnsigned_uleb [OF that(2,3) valid [OF that(1)] b] by (simp only: rd narrow_eq) auto
  qed
qed

lemma ucast_word_of_int:
  "LENGTH('w::len) \<le> 64 \<Longrightarrow> (ucast (word_of_int i :: u64) :: 'w word) = word_of_int i"
  by (rule bit_word_eqI) (simp add: bit_ucast_iff bit_word_of_int_iff)

lemma signed_codec:
  fixes rd :: "mem \<Rightarrow> 'p::len word \<Rightarrow> 'p word \<Rightarrow> ('w::len word, 'p) m3_read"
  assumes rd: "\<And>m p e. rd m p e = narrow (ReadLebSigned m b p e)"
    and valid: "\<And>v. valid v \<Longrightarrow> - (2 ^ (unat b - 1)) \<le> sint v \<and> sint v < 2 ^ (unat b - 1)"
    and b: "0 < b" "b \<le> 64" "LENGTH('w) \<le> 64"
  shows "codec rd (\<lambda>v. sleb (sint v)) valid"
proof
  show "p < q \<and> q \<le> e" if "rd m p e = (None, v, q)" for m p e v q
    using that by (auto simp: rd narrow_eq dest: leb_progress)
  show "rd m p e = rd m' p e" if "agree m m' p e" for m m' p e
    using leb_agree(2) [OF that] by (simp add: rd)
  show "rd m p e = (None, v, p + of_nat (length (sleb (sint v))))"
    if "valid v" "holds m (unat p) (sleb (sint v))" "unat p + length (sleb (sint v)) \<le> unat e" for v m p e
    using ReadLebSigned_sleb [OF that(2,3) b(1,2)] valid [OF that(1)] ucast_word_of_int [OF b(3), of "sint v"]
    by (simp add: rd narrow_eq)
qed

lemma sint_range:
  fixes v :: "'a::len word"
  shows "- (2 ^ (LENGTH('a) - 1)) \<le> sint v" "sint v < 2 ^ (LENGTH('a) - 1)"
  using sint_greater_eq [of v] sint_less [of v] by simp_all

interpretation u8_reader: codec Read_u8 "\<lambda>b. [b]" "\<lambda>_. True"
proof
  show "p < q \<and> q \<le> e" if "Read_u8 m p e = (None, v, q)" for m v and p q e :: "'p::len word"
    using that by (auto simp: Read_u8_def word_less_Suc_gr word_less_Suc_le split: if_splits)
  show "Read_u8 m p e = Read_u8 m' p e" if "agree m m' p e" for m m' and p e :: "'p::len word"
    using agree_at [OF that] by (simp add: Read_u8_def)
qed (auto simp: Read_u8_def word_less_nat_alt)

interpretation leb_u32: codec ReadLEB_u32 "\<lambda>v. uleb (unat v)" "\<lambda>_. True"
  by (rule unsigned_codec [OF ReadLEB_u32_def]) (use unsigned_less [where ?'a = nat and ?'b = 32] in auto)

interpretation leb_u7: codec ReadLEB_u7 "\<lambda>v. uleb (unat v)" "\<lambda>v. v < 128"
  by (rule unsigned_codec [OF ReadLEB_u7_def]) (auto simp: word_less_nat_alt)

interpretation leb_i7: codec ReadLEB_i7 "\<lambda>v. sleb (sint v)" "\<lambda>v. - 64 \<le> sint v \<and> sint v < 64"
  by (rule signed_codec [OF ReadLEB_i7_def]) simp_all

interpretation leb_i32: codec ReadLEB_i32 "\<lambda>v. sleb (sint v)" "\<lambda>_. True"
  by (rule signed_codec [OF ReadLEB_i32_def]) (use sint_range [where ?'a = 32] in simp_all)

interpretation leb_i64: codec ReadLEB_i64 "\<lambda>v. sleb (sint v)" "\<lambda>_. True"
  by (rule signed_codec [where b = 64]) (use sint_range [where ?'a = 64] in \<open>simp_all add: ReadLEB_i64_def narrow_def split: prod.split\<close>)

text \<open>A value type is one byte: \<open>0x7f\<close> down to \<open>0x7c\<close>, or \<open>0x40\<close> for none.\<close>

definition enc_type :: "u8 \<Rightarrow> u8 list" where
  "enc_type t = [if t = c_m3Type_none then 0x40 else 0x80 - t]"

lemma enc_type_sleb:
  assumes "t \<le> c_m3Type_f64"
  defines "v \<equiv> (if t = c_m3Type_none then 0xC0 else - t)"
  shows "sleb (sint v) = enc_type t" "- 64 \<le> sint v \<and> sint v < 64" "NormalizeType v = (None, t)"
proof -
  have "unat t \<le> 4" using assms(1) by (simp add: zconst word_le_nat_alt)
  then have "unat t = 0 \<or> unat t = 1 \<or> unat t = 2 \<or> unat t = 3 \<or> unat t = 4" by arith
  then have "t = 0 \<or> t = 1 \<or> t = 2 \<or> t = 3 \<or> t = 4" by (simp add: word_unat_eq_iff)
  then show "sleb (sint v) = enc_type t" "- 64 \<le> sint v \<and> sint v < 64" "NormalizeType v = (None, t)"
    unfolding v_def by (auto simp: enc_type_def NormalizeType_def zconst sleb.simps Let_def)
qed

interpretation value_type: codec read_value_type enc_type "\<lambda>t. t \<le> c_m3Type_f64"
proof
  show "p < q \<and> q \<le> e" if "read_value_type m p e = (None, v, q)" for m v and p q e :: "'p::len word"
    using that by (auto simp: read_value_type_def split: prod.splits option.splits dest: leb_i7.progress)
  show "read_value_type m p e = read_value_type m' p e" if "agree m m' p e" for m m' and p e :: "'p::len word"
    using leb_i7.confined [OF that] by (simp add: read_value_type_def)
  show "read_value_type m p e = (None, t, p + of_nat (length (enc_type t)))"
    if "t \<le> c_m3Type_f64" "holds m (unat p) (enc_type t)" "unat p + length (enc_type t) \<le> unat e" for m t and p e :: "'p::len word"
    using leb_i7.decode [OF enc_type_sleb(2) [OF that(1)], of m p e] that(2,3) enc_type_sleb(3) [OF that(1)]
    by (simp add: read_value_type_def enc_type_sleb(1) [OF that(1)])
qed

text \<open>
  C26: Reading back an LEB128 number gives the number. For every 32-bit \<open>u\<close>, \<^verbatim>\<open>ReadLEB_u32\<close> at bytes that hold the unsigned encoding
  of \<open>u\<close> succeeds with \<open>u\<close> and moves the position by exactly the length of the encoding; \<^verbatim>\<open>ReadLEB_i32\<close> and \<^verbatim>\<open>ReadLEB_i64\<close>
  do the same for the signed encoding of every 32-bit and 64-bit number.
\<close>

theorem leb128_roundtrip:
  fixes p e :: "'p::len word"
  shows "(holds m (unat p) (uleb (unat u)) \<longrightarrow> unat p + length (uleb (unat u)) \<le> unat e \<longrightarrow>
      ReadLEB_u32 m p e = (None, u, p + of_nat (length (uleb (unat u))))) \<and>
    (holds m (unat p) (sleb (sint i)) \<longrightarrow> unat p + length (sleb (sint i)) \<le> unat e \<longrightarrow>
      ReadLEB_i32 m p e = (None, i, p + of_nat (length (sleb (sint i))))) \<and>
    (holds m (unat p) (sleb (sint j)) \<longrightarrow> unat p + length (sleb (sint j)) \<le> unat e \<longrightarrow>
      ReadLEB_i64 m p e = (None, j, p + of_nat (length (sleb (sint j)))))"
  using leb_u32.decode [of m p u e] leb_i32.decode [of m p i e] leb_i64.decode [of m p j e] by blast

theorem leb128_roundtrip_witness:
  "ReadLEB_u32 (\<lambda>a. if a = 0 then 0xe5 else if a = 1 then 0x8e else 0x26) (0 :: 32 word) 3 = (None, 624485, 3) \<and>
   ReadLEB_i32 (\<lambda>a. if a = 0 then 0xc0 else if a = 1 then 0xbb else 0x78) (0 :: 32 word) 3 = (None, - 123456, 3) \<and>
   ReadLEB_i64 (\<lambda>a. if a = 0 then 0xc0 else if a = 1 then 0xbb else 0x78) (0 :: 32 word) 3 = (None, - 123456, 3)"
proof -
  have "uleb (unat (624485 :: u32)) = [0xe5, 0x8e, 0x26]" "sleb (sint (- 123456 :: u32)) = [0xc0, 0xbb, 0x78]" "sleb (sint (- 123456 :: u64)) = [0xc0, 0xbb, 0x78]"
    by (simp_all add: uleb.simps sleb.simps)
  then show ?thesis
    using leb128_roundtrip [of "\<lambda>a. if a = 0 then 0xe5 else if a = 1 then 0x8e else 0x26" "0 :: 32 word" 624485 3 0 0]
      leb128_roundtrip [of "\<lambda>a. if a = 0 then 0xc0 else if a = 1 then 0xbb else 0x78" "0 :: 32 word" 0 3 "- 123456" "- 123456"] by simp
qed

end
