(* ===== verification/Wasm3_Module.thy ===== *)
theory Wasm3_Module
  imports Wasm3_Reader
begin

text \<open>
  The data of a WebAssembly module inside wasm3 (\<^verbatim>\<open>m3_env.h\<close>, \<^verbatim>\<open>m3_function.h\<close>) and the operations that build it
  (\<^verbatim>\<open>m3_module.c\<close>, \<^verbatim>\<open>m3_function.c\<close>, the type list of \<^verbatim>\<open>m3_env.c\<close>). The heap is an oracle: whether the \<open>n\<close>-th
  request is granted is an argument of the model, and a request for no bytes never is, because \<^verbatim>\<open>kmalloc\<close> refuses it. So every
  theorem holds whatever other code allocates and frees. An operation returns \<open>None\<close> where C has no defined outcome: an access through NULL
  or outside an array, or a loop that does not end. Otherwise it returns its result code or value with the state it leaves.
\<close>

section \<open>Data\<close>

text \<open>A function type: the types of the results, then of the arguments. A pointer to one is the number of the request that allocated it; 0 is NULL.\<close>

record m3_funcType =
  numRets :: u16
  numArgs :: u16
  ft_types :: "u8 list"

type_synonym ft_ptr = nat

record m3_environment =
  env_funcTypes :: "(ft_ptr \<times> m3_funcType) list"
  retFuncTypes :: "ft_ptr list"

record m3_importInfo =
  moduleUtf8 :: "cstr option"
  fieldUtf8 :: "cstr option"

definition d_m3MaxDuplicateFunctionImpl :: u16 where [zconst]: "d_m3MaxDuplicateFunctionImpl = 3"

record 'q m3_function =
  f_module :: bool
  f_import :: m3_importInfo
  f_wasm :: "'q"
  f_wasmEnd :: "'q"
  f_names :: "cstr option list"
  export_name :: "cstr option"
  numNames :: u16
  f_funcType :: ft_ptr
  f_compiled :: bool
  f_numLocals :: u16

record 'q m3_global =
  g_import :: m3_importInfo
  g_value :: u64
  g_name :: "cstr option"
  g_initExpr :: "'q"
  g_initExprSize :: u32
  g_type :: u8
  g_imported :: bool
  g_isMutable :: bool

record 'q m3_dataSegment =
  d_initExpr :: "'q"
  d_data :: "'q"
  d_initExprSize :: u32
  d_memoryRegion :: u32
  d_size :: u32

record m3_memoryInfo =
  initPages :: u32
  maxPages :: u32
  pageSize :: u32

text \<open>\<open>'q\<close> is the type of pointers into the bytes. An array is a list, or \<open>None\<close> for the NULL pointer; the table holds indices of functions.\<close>

record 'q m3_module =
  wasmStart :: "'q"
  wasmEnd :: "'q"
  numFuncTypes :: u32
  funcTypes :: "ft_ptr list option"
  numFuncImports :: u32
  numFunctions :: u32
  allFunctions :: u32
  funcs :: "'q m3_function list option"
  startFunction :: u32
  numDataSegments :: u32
  dataSegments :: "'q m3_dataSegment list option"
  numGlobals :: u32
  globals :: "'q m3_global list option"
  numElementSegments :: u32
  elementSection :: "'q"
  elementSectionEnd :: "'q"
  table0 :: "nat option list option"
  table0Size :: u32
  table0ExportName :: "cstr option"
  memoryInfo :: m3_memoryInfo
  memoryImport :: m3_importInfo
  memoryImported :: bool
  memoryExportName :: "cstr option"

record 'q m3_state =
  mdl :: "'q m3_module"
  env :: m3_environment
  tick :: nat

text \<open>What \<^verbatim>\<open>calloc\<close> hands out.\<close>

definition no_import :: m3_importInfo where
  "no_import = \<lparr>moduleUtf8 = None, fieldUtf8 = None\<rparr>"

definition zero_function :: "'p::len word m3_function" where
  "zero_function = \<lparr>f_module = False, f_import = no_import, f_wasm = 0, f_wasmEnd = 0, f_names = [None, None, None],
     export_name = None, numNames = 0, f_funcType = 0, f_compiled = False, f_numLocals = 0\<rparr>"

definition zero_global :: "'p::len word m3_global" where
  "zero_global = \<lparr>g_import = no_import, g_value = 0, g_name = None, g_initExpr = 0, g_initExprSize = 0, g_type = 0,
     g_imported = False, g_isMutable = False\<rparr>"

definition zero_dataSegment :: "'p::len word m3_dataSegment" where
  "zero_dataSegment = \<lparr>d_initExpr = 0, d_data = 0, d_initExprSize = 0, d_memoryRegion = 0, d_size = 0\<rparr>"

definition zero_module :: "'p::len word m3_module" where
  "zero_module = \<lparr>wasmStart = 0, wasmEnd = 0, numFuncTypes = 0, funcTypes = None, numFuncImports = 0, numFunctions = 0,
     allFunctions = 0, funcs = None, startFunction = 0, numDataSegments = 0, dataSegments = None, numGlobals = 0,
     globals = None, numElementSegments = 0, elementSection = 0, elementSectionEnd = 0, table0 = None, table0Size = 0,
     table0ExportName = None, memoryInfo = \<lparr>initPages = 0, maxPages = 0, pageSize = 0\<rparr>, memoryImport = no_import,
     memoryImported = False, memoryExportName = None\<rparr>"

section \<open>Results and control flow\<close>

text \<open>The macros of \<^verbatim>\<open>m3_exception.h\<close>: run, and leave at an error.\<close>

type_synonym ('a, 's) m3_op = "'s \<Rightarrow> ((m3_error + 'a) \<times> 's) option"

definition ret :: "'a \<Rightarrow> ('a, 's) m3_op" where "ret v s = Some (Inr v, s)"

definition throw :: "m3_error \<Rightarrow> ('a, 's) m3_op" where "throw r s = Some (Inl r, s)"

definition throwif :: "m3_error \<Rightarrow> bool \<Rightarrow> ('a, 's) m3_op \<Rightarrow> ('a, 's) m3_op" where
  "throwif r c k s = (if c then Some (Inl r, s) else k s)"

definition try_read :: "('a, 'p::len) m3_read \<Rightarrow> ('a \<Rightarrow> 'p word \<Rightarrow> ('b, 's) m3_op) \<Rightarrow> ('b, 's) m3_op" where
  "try_read x k s = (case x of (Some r, v, p) \<Rightarrow> Some (Inl r, s) | (None, v, p) \<Rightarrow> k v p s)"

definition try_op :: "('a, 's) m3_op \<Rightarrow> ('a \<Rightarrow> ('b, 's) m3_op) \<Rightarrow> ('b, 's) m3_op" where
  "try_op f k s = (case f s of None \<Rightarrow> None | Some (Inl r, t) \<Rightarrow> Some (Inl r, t) | Some (Inr v, t) \<Rightarrow> k v t)"

definition modify :: "('s \<Rightarrow> 's) \<Rightarrow> ('a, 's) m3_op \<Rightarrow> ('a, 's) m3_op" where
  "modify f k s = k (f s)"

text \<open>One request to the heap, for \<open>n\<close> elements.\<close>

definition m3_Malloc :: "(nat \<Rightarrow> bool) \<Rightarrow> nat \<Rightarrow> 'p::len word m3_state \<Rightarrow> bool \<times> 'p word m3_state" where
  "m3_Malloc heap n s = (n \<noteq> 0 \<and> heap (tick s), s\<lparr>tick := tick s + 1\<rparr>)"

definition upd_mod :: "('p::len word m3_module \<Rightarrow> 'p word m3_module) \<Rightarrow> 'p word m3_state \<Rightarrow> 'p word m3_state" where
  "upd_mod f s = s\<lparr>mdl := f (mdl s)\<rparr>"

text \<open>A field of one element of an array.\<close>

definition upd_elem :: "'a list option \<Rightarrow> nat \<Rightarrow> ('a \<Rightarrow> 'a) \<Rightarrow> 'a list option" where
  "upd_elem arr i f = (case arr of None \<Rightarrow> None | Some xs \<Rightarrow> if i < length xs then Some (xs[i := f (xs ! i)]) else None)"

definition upd_function :: "nat \<Rightarrow> ('p::len word m3_function \<Rightarrow> 'p word m3_function) \<Rightarrow> (unit, 'p word m3_state) m3_op" where
  "upd_function i f s =
     (case upd_elem (funcs (mdl s)) i f of
        None \<Rightarrow> None
      | Some fs \<Rightarrow> Some (Inr (), upd_mod (\<lambda>md. md\<lparr>funcs := Some fs\<rparr>) s))"

definition upd_global :: "nat \<Rightarrow> ('p::len word m3_global \<Rightarrow> 'p word m3_global) \<Rightarrow> (unit, 'p word m3_state) m3_op" where
  "upd_global i f s =
     (case upd_elem (globals (mdl s)) i f of
        None \<Rightarrow> None
      | Some gs \<Rightarrow> Some (Inr (), upd_mod (\<lambda>md. md\<lparr>globals := Some gs\<rparr>) s))"

definition upd_segment :: "nat \<Rightarrow> ('p::len word m3_dataSegment \<Rightarrow> 'p word m3_dataSegment) \<Rightarrow> (unit, 'p word m3_state) m3_op" where
  "upd_segment i f s =
     (case upd_elem (dataSegments (mdl s)) i f of
        None \<Rightarrow> None
      | Some ds \<Rightarrow> Some (Inr (), upd_mod (\<lambda>md. md\<lparr>dataSegments := Some ds\<rparr>) s))"

section \<open>Function types\<close>

definition AllocFuncType :: "(nat \<Rightarrow> bool) \<Rightarrow> u32 \<Rightarrow> (ft_ptr \<times> m3_funcType, 'p::len word m3_state) m3_op" where
  "AllocFuncType heap i_numTypes s =
     (let (ok, t) = m3_Malloc heap (unat i_numTypes + 1) s
      in if ok then Some (Inr (Suc (tick s), \<lparr>numRets = 0, numArgs = 0, ft_types = replicate (unat i_numTypes) 0\<rparr>), t)
         else Some (Inl m3Err_mallocFailed, t))"

definition AreFuncTypesEqual :: "m3_funcType \<Rightarrow> m3_funcType \<Rightarrow> bool" where
  "AreFuncTypesEqual a b \<longleftrightarrow>
     numRets a = numRets b \<and> numArgs a = numArgs b \<and>
     (let n = unat (numRets a) + unat (numArgs a) in take n (ft_types a) = take n (ft_types b))"

text \<open>The getters take NULL as \<open>None\<close>.\<close>

definition GetFuncTypeNumParams :: "m3_funcType option \<Rightarrow> u16" where
  "GetFuncTypeNumParams ft = (case ft of None \<Rightarrow> 0 | Some t \<Rightarrow> numArgs t)"

definition GetFuncTypeParamType :: "m3_funcType option \<Rightarrow> u16 \<Rightarrow> u8" where
  "GetFuncTypeParamType ft i =
     (case ft of None \<Rightarrow> c_m3Type_unknown
      | Some t \<Rightarrow> if i < numArgs t then ft_types t ! (unat (numRets t) + unat i) else c_m3Type_unknown)"

definition GetFuncTypeNumResults :: "m3_funcType option \<Rightarrow> u16" where
  "GetFuncTypeNumResults ft = (case ft of None \<Rightarrow> 0 | Some t \<Rightarrow> numRets t)"

definition GetFuncTypeResultType :: "m3_funcType option \<Rightarrow> u16 \<Rightarrow> u8" where
  "GetFuncTypeResultType ft i =
     (case ft of None \<Rightarrow> c_m3Type_unknown | Some t \<Rightarrow> if i < numRets t then ft_types t ! unat i else c_m3Type_unknown)"

definition Environment_AddFuncType :: "m3_environment \<Rightarrow> ft_ptr \<times> m3_funcType \<Rightarrow> ft_ptr \<times> m3_environment" where
  "Environment_AddFuncType e addType =
     (case find (\<lambda>newType. AreFuncTypesEqual (snd newType) (snd addType)) (env_funcTypes e) of
        Some newType \<Rightarrow> (fst newType, e)
      | None \<Rightarrow> (fst addType, e\<lparr>env_funcTypes := addType # env_funcTypes e\<rparr>))"

text \<open>The five types of simple blocks: nothing, or one value.\<close>

fun ret_types_loop :: "(nat \<Rightarrow> bool) \<Rightarrow> u8 list \<Rightarrow> (unit, 'p::len word m3_state) m3_op" where
  "ret_types_loop heap [] s = ret () s"
| "ret_types_loop heap (t # ts) s =
     try_op (AllocFuncType heap 1)
       (\<lambda>(ptr, ftype) s.
          let ftype = ftype\<lparr>numArgs := 0, numRets := if t = c_m3Type_none then 0 else 1, ft_types := (ft_types ftype)[0 := t]\<rparr>;
              (ptr, e) = Environment_AddFuncType (env s) (ptr, ftype)
          in ret_types_loop heap ts (s\<lparr>env := e\<lparr>retFuncTypes := (retFuncTypes e)[unat t := ptr]\<rparr>\<rparr>)) s"

definition m3_NewEnvironment :: "(nat \<Rightarrow> bool) \<Rightarrow> 'p::len word m3_state \<Rightarrow> (bool \<times> 'p word m3_state) option" where
  "m3_NewEnvironment heap s =
     (let (ok, s) = m3_Malloc heap 1 s
      in if ok
         then case ret_types_loop heap [c_m3Type_none, c_m3Type_i32, c_m3Type_i64, c_m3Type_f32, c_m3Type_f64]
                (s\<lparr>env := \<lparr>env_funcTypes = [], retFuncTypes = replicate 5 0\<rparr>\<rparr>) of
                None \<Rightarrow> None
              | Some (Inl r, s) \<Rightarrow> Some (False, s)
              | Some (Inr _, s) \<Rightarrow> Some (True, s)
         else Some (False, s))"

section \<open>Functions\<close>

definition text_bytes :: "string \<Rightarrow> cstr" where
  "text_bytes cs = map (\<lambda>c. of_nat (of_char c)) cs"

text \<open>The names of a function and how many there are.\<close>

definition GetFunctionNames :: "'p::len word m3_function \<Rightarrow> u16 \<times> cstr option list" where
  "GetFunctionNames f = (if fieldUtf8 (f_import f) \<noteq> None then (1, [fieldUtf8 (f_import f)]) else (numNames f, f_names f))"

definition m3_GetFunctionName :: "'p::len word m3_function \<Rightarrow> cstr option" where
  "m3_GetFunctionName f =
     (let (n, names) = GetFunctionNames f in if n > 0 then names ! 0 else Some (text_bytes ''<unnamed>''))"

definition GetFunctionImportModuleName :: "'p::len word m3_function \<Rightarrow> cstr" where
  "GetFunctionImportModuleName f = (case moduleUtf8 (f_import f) of None \<Rightarrow> [] | Some n \<Rightarrow> n)"

definition ft_of :: "m3_environment \<Rightarrow> ft_ptr \<Rightarrow> m3_funcType option" where
  "ft_of e p = map_of (env_funcTypes e) p"

definition GetFunctionNumArgs :: "m3_environment \<Rightarrow> 'p::len word m3_function \<Rightarrow> u16" where
  "GetFunctionNumArgs e f = (case ft_of e (f_funcType f) of None \<Rightarrow> 0 | Some t \<Rightarrow> numArgs t)"

definition GetFunctionArgType :: "m3_environment \<Rightarrow> 'p::len word m3_function \<Rightarrow> u32 \<Rightarrow> u8" where
  "GetFunctionArgType e f i =
     (if unat i < unat (GetFunctionNumArgs e f)
      then case ft_of e (f_funcType f) of None \<Rightarrow> c_m3Type_none | Some t \<Rightarrow> ft_types t ! (unat (numRets t) + unat i)
      else c_m3Type_none)"

definition GetFunctionNumReturns :: "m3_environment \<Rightarrow> 'p::len word m3_function \<Rightarrow> u16" where
  "GetFunctionNumReturns e f = (case ft_of e (f_funcType f) of None \<Rightarrow> 0 | Some t \<Rightarrow> numRets t)"

definition GetFunctionReturnType :: "m3_environment \<Rightarrow> 'p::len word m3_function \<Rightarrow> u16 \<Rightarrow> u8" where
  "GetFunctionReturnType e f i = GetFuncTypeResultType (ft_of e (f_funcType f)) i"

definition GetFunctionNumArgsAndLocals :: "m3_environment \<Rightarrow> 'p::len word m3_function \<Rightarrow> u32" where
  "GetFunctionNumArgsAndLocals e f = ucast (f_numLocals f) + ucast (GetFunctionNumArgs e f)"

section \<open>Modules\<close>

definition Module_PreallocFunctions :: "(nat \<Rightarrow> bool) \<Rightarrow> u32 \<Rightarrow> (unit, 'p::len word m3_state) m3_op" where
  "Module_PreallocFunctions heap i_totalFunctions s =
     (if i_totalFunctions > allFunctions (mdl s)
      then let (ok, t) = m3_Malloc heap (unat i_totalFunctions) s;
               old = (case funcs (mdl s) of None \<Rightarrow> [] | Some fs \<Rightarrow> fs);
               new = (if ok then Some (old @ replicate (unat i_totalFunctions - length old) zero_function) else None);
               t = upd_mod (\<lambda>md. md\<lparr>funcs := new, allFunctions := i_totalFunctions\<rparr>) t
           in throwif m3Err_mallocFailed (new = None) (ret ()) t
      else ret () s)"

text \<open>The index of the function, or NULL.\<close>

definition Module_GetFunction :: "u32 \<Rightarrow> 'p::len word m3_state \<Rightarrow> nat option" where
  "Module_GetFunction i s = (if i < numFunctions (mdl s) then Some (unat i) else None)"

definition set_import :: "m3_importInfo option \<Rightarrow> 'p::len word m3_function \<Rightarrow> 'p word m3_function" where
  "set_import i_importInfo f =
     (case i_importInfo of
        Some info \<Rightarrow>
          if numNames f = 0
          then f\<lparr>f_import := info, f_names := (f_names f)[0 := fieldUtf8 info], numNames := 1\<rparr> else f
      | None \<Rightarrow> f)"

definition set_signature :: "u32 \<Rightarrow> u32 \<Rightarrow> m3_importInfo option \<Rightarrow> (unit, 'p::len word m3_state) m3_op" where
  "set_signature index i_typeIndex i_importInfo s =
     throwif (m3Err_message ''type sig index out of bounds'') (i_typeIndex \<ge> numFuncTypes (mdl s))
       (\<lambda>s. case (funcTypes (mdl s), Module_GetFunction index s) of
              (Some fts, Some i) \<Rightarrow>
                if unat i_typeIndex < length fts
                then upd_function i (\<lambda>f. set_import i_importInfo (f\<lparr>f_funcType := fts ! unat i_typeIndex\<rparr>)) s
                else None
            | _ \<Rightarrow> None) s"

definition Module_AddFunction :: "(nat \<Rightarrow> bool) \<Rightarrow> u32 \<Rightarrow> m3_importInfo option \<Rightarrow> (unit, 'p::len word m3_state) m3_op" where
  "Module_AddFunction heap i_typeIndex i_importInfo s =
     (let index = numFunctions (mdl s); s = upd_mod (\<lambda>md. md\<lparr>numFunctions := index + 1\<rparr>) s
      in try_op (Module_PreallocFunctions heap (index + 1)) (\<lambda>_. set_signature index i_typeIndex i_importInfo) s)"

text \<open>Returns the index of the new global.\<close>

definition Module_AddGlobal :: "(nat \<Rightarrow> bool) \<Rightarrow> u8 \<Rightarrow> bool \<Rightarrow> bool \<Rightarrow> (nat, 'p::len word m3_state) m3_op" where
  "Module_AddGlobal heap i_type i_mutable i_isImported s =
     (let index = numGlobals (mdl s);
          (ok, t) = m3_Malloc heap (unat (index + 1)) s;
          old = (case globals (mdl s) of None \<Rightarrow> [] | Some gs \<Rightarrow> gs);
          new = (if ok then Some (old @ replicate (unat (index + 1) - length old) zero_global) else None);
          t = upd_mod (\<lambda>md. md\<lparr>numGlobals := index + 1, globals := new\<rparr>) t
      in throwif m3Err_mallocFailed (new = None)
           (try_op (upd_global (unat index) (\<lambda>g. g\<lparr>g_type := i_type, g_imported := i_isImported, g_isMutable := i_mutable\<rparr>))
              (\<lambda>_. ret (unat index))) t)"

text \<open>
  Releasing a module walks the functions and the globals it counts; a NULL array with a count above zero is an access through NULL.
\<close>

definition m3_FreeModule :: "'p::len word m3_state \<Rightarrow> 'p word m3_state option" where
  "m3_FreeModule s =
     (if numFunctions (mdl s) > 0 \<and> funcs (mdl s) = None \<or> numGlobals (mdl s) > 0 \<and> globals (mdl s) = None then None
      else Some (upd_mod (\<lambda>_. zero_module) s))"

section \<open>The list of function types\<close>

text \<open>
  Every type is in the list once, so that wasm3 may compare types by comparing pointers. Pointers of the list come from requests made so far.
\<close>

definition ft_ok :: "m3_funcType \<Rightarrow> bool" where
  "ft_ok t \<longleftrightarrow> unat (numRets t) + unat (numArgs t) \<le> length (ft_types t)"

definition env_ok :: "m3_environment \<Rightarrow> nat \<Rightarrow> bool" where
  "env_ok e n \<longleftrightarrow>
     distinct (map fst (env_funcTypes e)) \<and> (\<forall>p \<in> set (map fst (env_funcTypes e)). 0 < p \<and> p \<le> n) \<and>
     (\<forall>x \<in> set (env_funcTypes e). \<forall>y \<in> set (env_funcTypes e). AreFuncTypesEqual (snd x) (snd y) \<longrightarrow> x = y)"

abbreviation types_of :: "m3_environment \<Rightarrow> ft_ptr set" where
  "types_of e \<equiv> fst ` set (env_funcTypes e)"

lemma AreFuncTypesEqual_sym: "AreFuncTypesEqual a b \<Longrightarrow> AreFuncTypesEqual b a"
  by (auto simp: AreFuncTypesEqual_def Let_def)

lemma AreFuncTypesEqual_trans: "AreFuncTypesEqual a b \<Longrightarrow> AreFuncTypesEqual b c \<Longrightarrow> AreFuncTypesEqual a c"
  by (auto simp: AreFuncTypesEqual_def Let_def)

lemma AreFuncTypesEqual_refl [simp]: "AreFuncTypesEqual a a"
  by (simp add: AreFuncTypesEqual_def Let_def)

lemma env_ok_later: "env_ok e n \<Longrightarrow> n \<le> k \<Longrightarrow> env_ok e k"
  by (auto simp: env_ok_def)

lemma AddFuncType_ok:
  assumes env: "env_ok e n" and new: "n < p" and add: "Environment_AddFuncType e (p, t) = (q, e')"
  shows "env_ok e' p \<and> types_of e \<subseteq> types_of e' \<and> q \<in> types_of e' \<and>
    (\<exists>u. ft_of e' q = Some u \<and> AreFuncTypesEqual u t) \<and> (\<forall>r \<in> types_of e. ft_of e' r = ft_of e r)"
proof (cases "find (\<lambda>x. AreFuncTypesEqual (snd x) t) (env_funcTypes e)")
  case None
  then have e': "e' = e\<lparr>env_funcTypes := (p, t) # env_funcTypes e\<rparr>" "q = p"
    using add by (auto simp: Environment_AddFuncType_def)
  have diff: "\<not> AreFuncTypesEqual (snd x) t" "\<not> AreFuncTypesEqual t (snd x)" if "x \<in> set (env_funcTypes e)" for x
    using None that AreFuncTypesEqual_sym [of t "snd x"] by (cases x; auto simp: find_None_iff)+
  have fresh: "p \<notin> types_of e" using env new by (fastforce simp: env_ok_def)
  show ?thesis using env new diff fresh by (auto simp: e' env_ok_def ft_of_def)
next
  case (Some x)
  then have e': "e' = e" "q = fst x" using add by (auto simp: Environment_AddFuncType_def)
  have x: "x \<in> set (env_funcTypes e)" "AreFuncTypesEqual (snd x) t" using Some by (auto simp: find_Some_iff)
  have "ft_of e q = Some (snd x)"
    using env x(1) e'(2) by (simp add: ft_of_def env_ok_def)
  then show ?thesis using env_ok_later [OF env, of p] new x e' by auto
qed

text \<open>The types of simple blocks, and the table of them that an environment keeps.\<close>

definition block_type :: "u8 \<Rightarrow> m3_funcType" where
  "block_type t = \<lparr>numRets = if t = c_m3Type_none then 0 else 1, numArgs = 0, ft_types = [t]\<rparr>"

definition block_types_ok :: "m3_environment \<Rightarrow> nat \<Rightarrow> bool" where
  "block_types_ok e k \<longleftrightarrow> length (retFuncTypes e) = 5 \<and>
     (\<forall>i < k. \<exists>u. ft_of e (retFuncTypes e ! i) = Some u \<and> AreFuncTypesEqual u (block_type (of_nat i)))"

lemma ft_of_types: "ft_of e p = Some u \<Longrightarrow> p \<in> types_of e"
  by (force simp: ft_of_def dest: map_of_SomeD)

lemma AddFuncType_blocks:
  assumes "env_ok e n" "n < p" "Environment_AddFuncType e (p, t) = (q, e')" "block_types_ok e k"
  shows "block_types_ok e' k \<and> retFuncTypes e' = retFuncTypes e"
proof -
  have r: "retFuncTypes e' = retFuncTypes e" using assms(3) by (auto simp: Environment_AddFuncType_def split: option.splits)
  have "\<forall>r \<in> types_of e. ft_of e' r = ft_of e r" using AddFuncType_ok [OF assms(1-3)] by blast
  then show ?thesis using assms(4) ft_of_types [of e] r by (fastforce simp: block_types_ok_def)
qed

lemma ft_of_retFuncTypes [simp]: "ft_of (e\<lparr>retFuncTypes := xs\<rparr>) p = ft_of e p" "env_ok (e\<lparr>retFuncTypes := xs\<rparr>) n = env_ok e n"
  by (simp_all add: ft_of_def env_ok_def)

lemma ret_types_loop_ok:
  "ret_types_loop hp (map of_nat [k..<5]) s = Some (Inr (), t) \<Longrightarrow> k \<le> 5 \<Longrightarrow>
   env_ok (env s) (tick s) \<Longrightarrow> block_types_ok (env s) k \<Longrightarrow> env_ok (env t) (tick t) \<and> block_types_ok (env t) 5"
proof (induction "5 - k" arbitrary: k s)
  case 0
  then show ?case by (simp add: ret_def)
next
  case (Suc d)
  then have k: "k < 5" by simp
  let ?ft = "\<lparr>numRets = if (of_nat k :: u8) = c_m3Type_none then 0 else 1, numArgs = 0, ft_types = [of_nat k]\<rparr>"
  have kk: "unat (of_nat k :: u8) = k" using k by (simp add: unat_of_nat)
  have l: "map of_nat [k..<5] = of_nat k # (map of_nat [Suc k..<5] :: u8 list)" using k by (simp add: upt_rec)
  obtain q e' where add: "Environment_AddFuncType (env s) (Suc (tick s), ?ft) = (q, e')" by fastforce
  let ?s = "s\<lparr>tick := Suc (tick s), env := e'\<lparr>retFuncTypes := (retFuncTypes e')[k := q]\<rparr>\<rparr>"
  have run: "ret_types_loop hp (map of_nat [Suc k..<5]) ?s = Some (Inr (), t)"
    using Suc.prems(1) add kk unfolding l
    by (auto simp: try_op_def AllocFuncType_def m3_Malloc_def Let_def split: if_splits option.splits)
  note ok = AddFuncType_ok [OF Suc.prems(3) _ add] AddFuncType_blocks [OF Suc.prems(3) _ add Suc.prems(4)]
  have "env_ok (env ?s) (tick ?s)" using ok(1) by auto
  moreover have "block_types_ok (env ?s) (Suc k)" using ok k by (auto simp: block_types_ok_def less_Suc_eq block_type_def)
  ultimately show ?case using Suc.hyps(1) [OF _ run] Suc.hyps(2) k by auto
qed

lemma m3_NewEnvironment_ok:
  assumes "m3_NewEnvironment hp s = Some (True, t)"
  shows "env_ok (env t) (tick t) \<and> block_types_ok (env t) 5"
proof -
  let ?s = "s\<lparr>tick := Suc (tick s), env := \<lparr>env_funcTypes = [], retFuncTypes = replicate 5 0\<rparr>\<rparr>"
  have "[c_m3Type_none, c_m3Type_i32, c_m3Type_i64, c_m3Type_f32, c_m3Type_f64] = map of_nat [0..<5]" by (simp add: zconst upt_rec)
  then have "ret_types_loop hp (map of_nat [0..<5]) ?s = Some (Inr (), t)"
    using assms by (auto simp: m3_NewEnvironment_def m3_Malloc_def Let_def split: if_splits option.splits sum.splits)
  moreover have "env_ok (env ?s) (tick ?s)" "block_types_ok (env ?s) 0" by (simp_all add: env_ok_def block_types_ok_def)
  ultimately show ?thesis by (intro ret_types_loop_ok [of hp 0 ?s t]) simp_all
qed

text \<open>The environments a program can build: a new one, and after each entry of a type whose block was just allocated.\<close>

inductive env_built :: "(nat \<Rightarrow> bool) \<Rightarrow> 'p::len word m3_state \<Rightarrow> bool" for hp where
  env_new: "m3_NewEnvironment hp s = Some (True, t) \<Longrightarrow> env_built hp t"
| env_add: "env_built hp s \<Longrightarrow> AllocFuncType hp n s = Some (Inr (p, ft), t) \<Longrightarrow> Environment_AddFuncType (env t) (p, ft') = (q, e) \<Longrightarrow>
    env_built hp (t\<lparr>env := e\<rparr>)"

lemma env_built_ok: "env_built hp s \<Longrightarrow> env_ok (env s) (tick s) \<and> block_types_ok (env s) 5"
proof (induction rule: env_built.induct)
  case (env_new s t)
  then show ?case by (rule m3_NewEnvironment_ok)
next
  case (env_add s n p ft t ft' q e)
  then have "t = s\<lparr>tick := Suc (tick s)\<rparr>" "p = Suc (tick s)"
    by (auto simp: AllocFuncType_def m3_Malloc_def Let_def split: if_splits)
  then show ?case using env_add AddFuncType_ok [of "env s" "tick s" p ft' q e] AddFuncType_blocks [of "env s" "tick s" p ft' q e 5] by simp
qed


lemma new_environment_types:
  "\<exists>t :: 32 word m3_state. m3_NewEnvironment (\<lambda>_. True) \<lparr>mdl = zero_module, env = \<lparr>env_funcTypes = [], retFuncTypes = []\<rparr>, tick = 0\<rparr> = Some (True, t) \<and>
     env_funcTypes (env t) = [(6, block_type 4), (5, block_type 3), (4, block_type 2), (3, block_type 1), (2, block_type 0)]"
  by (simp add: m3_NewEnvironment_def m3_Malloc_def AllocFuncType_def try_op_def ret_def Environment_AddFuncType_def AreFuncTypesEqual_def zconst block_type_def)


section \<open>A logic for the operations\<close>

text \<open>
  What an operation ends with: its value and state in \<open>Q\<close>, or an error and a state in \<open>E\<close>; with \<open>w\<close> also that it has a defined outcome.
\<close>

fun outcome :: "bool \<Rightarrow> ('a \<Rightarrow> 's \<Rightarrow> bool) \<Rightarrow> ('s \<Rightarrow> bool) \<Rightarrow> ((m3_error + 'a) \<times> 's) option \<Rightarrow> bool" where
  "outcome w Q E None \<longleftrightarrow> \<not> w"
| "outcome w Q E (Some (Inl r, t)) \<longleftrightarrow> E t"
| "outcome w Q E (Some (Inr v, t)) \<longleftrightarrow> Q v t"

lemma outcome_weaken:
  "outcome w Q E x \<Longrightarrow> (\<And>v t. Q v t \<Longrightarrow> Q' v t) \<Longrightarrow> (\<And>t. E t \<Longrightarrow> E' t) \<Longrightarrow> outcome w Q' E' x"
  by (induction w Q E x rule: outcome.induct) auto

lemma outcome_defined: "outcome w Q E x \<Longrightarrow> w \<Longrightarrow> x \<noteq> None"
  by (cases x) auto

lemma outcome_ret: "Q v s \<Longrightarrow> outcome w Q E (ret v s)"
  by (simp add: ret_def)

lemma outcome_throw: "E s \<Longrightarrow> outcome w Q E (throw r s)"
  by (simp add: throw_def)

lemma outcome_throwif:
  "(c \<Longrightarrow> E s) \<Longrightarrow> (\<not> c \<Longrightarrow> outcome w Q E (k s)) \<Longrightarrow> outcome w Q E (throwif r c k s)"
  by (simp add: throwif_def)

lemma outcome_try_read:
  "E s \<Longrightarrow> (\<And>v q. x = (None, v, q) \<Longrightarrow> outcome w Q E (k v q s)) \<Longrightarrow> outcome w Q E (try_read x k s)"
  unfolding try_read_def by (cases x; cases "fst x") auto

lemma outcome_try_op:
  assumes "outcome w R E (f s)" "\<And>v t. R v t \<Longrightarrow> outcome w Q E (k v t)"
  shows "outcome w Q E (try_op f k s)"
  using assms(1)
proof (cases "f s" rule: option.exhaust)
  case (Some x)
  then show ?thesis using assms by (cases x; cases "fst x") (auto simp: try_op_def)
qed (auto simp: try_op_def)

lemma outcome_try_pair:
  "outcome w R E (f s) \<Longrightarrow> (\<And>u v t. R (u, v) t \<Longrightarrow> outcome w Q E (k u v t)) \<Longrightarrow> outcome w Q E (try_op f (\<lambda>(u, v). k u v) s)"
  by (rule outcome_try_op [where R = R]) auto

lemma outcome_modify: "outcome w Q E (k (f s)) \<Longrightarrow> outcome w Q E (modify f k s)"
  by (simp add: modify_def)

lemma outcome_If: "(c \<Longrightarrow> outcome w Q E x) \<Longrightarrow> (\<not> c \<Longrightarrow> outcome w Q E y) \<Longrightarrow> outcome w Q E (if c then x else y)"
  by simp

lemma outcome_If_op:
  "(c \<Longrightarrow> outcome w Q E (f s)) \<Longrightarrow> (\<not> c \<Longrightarrow> outcome w Q E (g s)) \<Longrightarrow> outcome w Q E ((if c then f else g) s)"
  by simp

text \<open>For evaluation on concrete bytes: one step at a time, the continuation last.\<close>

lemma step_congs:
  "x = y \<Longrightarrow> try_read x k = try_read y k" "f = g \<Longrightarrow> try_op f k' = try_op g k'"
  "c = d \<Longrightarrow> throwif r c k'' = throwif r d k''" "modify h kk = modify h kk"
  by simp_all

lemma step_simps:
  "try_read (None, v, p) k s = k v p s" "try_read (Some r, v, p) k s = Some (Inl r, s)"
  "throwif r c k' s = (if c then Some (Inl r, s) else k' s)" "modify h k' s = k' (h s)" "ret v' s = Some (Inr v', s)"
  by (simp_all add: try_read_def throwif_def modify_def ret_def)

lemmas outcome_rules = outcome_ret outcome_throw outcome_throwif outcome_try_read outcome_modify outcome_If

section \<open>Well-formed modules\<close>

text \<open>An array and the field that counts its elements.\<close>

definition elems :: "'a list option \<Rightarrow> 'a list" where
  "elems arr = (case arr of None \<Rightarrow> [] | Some xs \<Rightarrow> xs)"

lemma elems_simps [simp]: "elems None = []" "elems (Some xs) = xs"
  by (simp_all add: elems_def)

lemma upd_elem_Some:
  "i < length (elems arr) \<Longrightarrow> upd_elem arr i f = Some ((elems arr)[i := f (elems arr ! i)])"
  by (cases arr) (auto simp: upd_elem_def)

definition fn_ok :: "m3_environment \<Rightarrow> 'p::len word m3_function \<Rightarrow> bool" where
  "fn_ok e f \<longleftrightarrow> f_funcType f \<in> types_of e"

definition names_ok :: "'p::len word m3_function \<Rightarrow> bool" where
  "names_ok f \<longleftrightarrow> length (f_names f) = 3 \<and> numNames f \<le> d_m3MaxDuplicateFunctionImpl"

definition wf_module :: "m3_environment \<Rightarrow> 'p::len word m3_module \<Rightarrow> bool" where
  "wf_module e md \<longleftrightarrow>
     length (elems (funcTypes md)) = unat (numFuncTypes md) \<and> set (elems (funcTypes md)) \<subseteq> types_of e \<and>
     length (elems (funcs md)) = unat (allFunctions md) \<and> numFunctions md \<le> allFunctions md \<and>
     (\<forall>i < unat (numFunctions md). fn_ok e (elems (funcs md) ! i)) \<and>
     (\<forall>f \<in> set (elems (funcs md)). names_ok f) \<and>
     length (elems (globals md)) = unat (numGlobals md) \<and> length (elems (dataSegments md)) = unat (numDataSegments md) \<and>
     numFuncImports md \<le> numFunctions md \<and> (startFunction md = - 1 \<or> startFunction md < numFunctions md)"

text \<open>The places a module points to lie inside its bytes.\<close>

definition code_inside :: "'p::len word \<Rightarrow> 'p word \<Rightarrow> 'p word m3_function \<Rightarrow> bool" where
  "code_inside b e f \<longleftrightarrow> f_wasmEnd f = 0 \<or> b \<le> f_wasm f \<and> f_wasm f < f_wasmEnd f \<and> f_wasmEnd f \<le> e"

definition data_inside :: "'p::len word \<Rightarrow> 'p word \<Rightarrow> 'p word m3_dataSegment \<Rightarrow> bool" where
  "data_inside b e d \<longleftrightarrow> d_size d = 0 \<or> b \<le> d_data d \<and> unat (d_data d) + unat (d_size d) \<le> unat e"

definition inside :: "'p::len word m3_module \<Rightarrow> bool" where
  "inside md \<longleftrightarrow>
     (\<forall>f \<in> set (elems (funcs md)). code_inside (wasmStart md) (wasmEnd md) f) \<and>
     (\<forall>d \<in> set (elems (dataSegments md)). data_inside (wasmStart md) (wasmEnd md) d) \<and>
     (elementSectionEnd md = 0 \<or> wasmStart md \<le> elementSection md \<and> elementSection md \<le> elementSectionEnd md \<and> elementSectionEnd md \<le> wasmEnd md)"

definition m3_inv :: "bool \<Rightarrow> 'p::len word m3_state \<Rightarrow> bool" where
  "m3_inv w s \<longleftrightarrow> env_ok (env s) (tick s) \<and> wf_module (env s) (mdl s) \<and> (w \<longrightarrow> inside (mdl s))"

text \<open>A module that may be released: no array is NULL while its count is not zero.\<close>

definition free_ok :: "bool \<Rightarrow> 'p::len word m3_state \<Rightarrow> bool" where
  "free_ok w s \<longleftrightarrow> (w \<longrightarrow> m3_FreeModule s \<noteq> None)"

lemma m3_inv_free: "m3_inv w s \<Longrightarrow> free_ok w s"
  by (cases "funcs (mdl s)"; cases "globals (mdl s)")
     (auto simp: m3_inv_def wf_module_def free_ok_def m3_FreeModule_def word_less_nat_alt word_le_nat_alt)

text \<open>The invariant with the module's bytes and bounds on its counts, so that no count wraps.\<close>

definition m3_at :: "bool \<Rightarrow> 'p::len word \<Rightarrow> 'p word \<Rightarrow> nat \<Rightarrow> nat \<Rightarrow> 'p word m3_state \<Rightarrow> bool" where
  "m3_at w b e nf ng s \<longleftrightarrow>
     m3_inv w s \<and> wasmStart (mdl s) = b \<and> wasmEnd (mdl s) = e \<and>
     unat (numFunctions (mdl s)) \<le> nf \<and> unat (numGlobals (mdl s)) \<le> ng"

lemma m3_at_free: "m3_at w b e nf ng s \<Longrightarrow> free_ok w s"
  by (simp add: m3_at_def m3_inv_free)

lemma m3_at_mono: "m3_at w b e nf ng s \<Longrightarrow> nf \<le> nf' \<Longrightarrow> ng \<le> ng' \<Longrightarrow> m3_at w b e nf' ng' s"
  by (auto simp: m3_at_def)

lemma m3_at_tick: "m3_at w b e nf ng s \<Longrightarrow> tick s \<le> k \<Longrightarrow> m3_at w b e nf ng (s\<lparr>tick := k\<rparr>)"
  by (auto simp: m3_at_def m3_inv_def intro: env_ok_later)

lemmas m3_at_defs = m3_at_def m3_inv_def wf_module_def inside_def

lemma upd_mod_simps [simp]:
  "mdl (upd_mod f s) = f (mdl s)" "env (upd_mod f s) = env s" "tick (upd_mod f s) = tick s"
  by (simp_all add: upd_mod_def)

lemma set_update_cases: "x \<in> set (xs[i := y]) \<Longrightarrow> (x = y \<Longrightarrow> P) \<Longrightarrow> (x \<in> set xs \<Longrightarrow> P) \<Longrightarrow> P"
  using set_update_subset_insert [of xs i y] by auto

lemma upd_function_ok:
  assumes s: "m3_at w b e nf ng s" and i: "i < unat (numFunctions (mdl s))"
    and f: "\<And>g. fn_ok (env s) g \<Longrightarrow> names_ok g \<Longrightarrow> fn_ok (env s) (f g) \<and> names_ok (f g)"
    and rng: "\<And>g. w \<Longrightarrow> code_inside b e g \<Longrightarrow> code_inside b e (f g)"
  shows "outcome w (\<lambda>_ t. m3_at w b e nf ng t \<and> numFunctions (mdl t) = numFunctions (mdl s) \<and>
    numFuncImports (mdl t) = numFuncImports (mdl s)) (free_ok w) (upd_function i f s)"
proof -
  let ?fs = "elems (funcs (mdl s))"
  let ?t = "upd_mod (\<lambda>md. md\<lparr>funcs := Some (?fs[i := f (?fs ! i)])\<rparr>) s"
  have len: "i < length ?fs" using s i by (auto simp: m3_at_defs word_le_nat_alt)
  have at: "fn_ok (env s) (?fs ! i)" "names_ok (?fs ! i)" "w \<Longrightarrow> code_inside b e (?fs ! i)"
    using s i len by (auto simp: m3_at_defs)
  have "\<forall>j < unat (numFunctions (mdl s)). fn_ok (env s) (?fs[i := f (?fs ! i)] ! j)"
    using s len f [OF at(1,2)] by (auto simp: m3_at_defs nth_list_update)
  moreover have "\<forall>g \<in> set (?fs[i := f (?fs ! i)]). names_ok g"
    using s f [OF at(1,2)] by (auto simp: m3_at_defs elim!: set_update_cases)
  moreover have "\<forall>g \<in> set (?fs[i := f (?fs ! i)]). code_inside b e g" if w
    using s rng [OF that at(3)] that by (auto simp: m3_at_defs elim!: set_update_cases)
  ultimately have "m3_at w b e nf ng ?t"
    using s unfolding m3_at_defs by auto
  then show ?thesis by (simp add: upd_function_def upd_elem_Some [OF len])
qed

lemma upd_global_ok:
  assumes s: "m3_at w b e nf ng s" and i: "i < unat (numGlobals (mdl s))"
  shows "outcome w (\<lambda>_ t. m3_at w b e nf ng t \<and> numGlobals (mdl t) = numGlobals (mdl s)) (free_ok w) (upd_global i f s)"
proof -
  have len: "i < length (elems (globals (mdl s)))" using s i by (simp add: m3_at_defs)
  show ?thesis using s unfolding m3_at_defs
    by (auto simp: upd_global_def upd_elem_Some [OF len])
qed

lemma upd_segment_ok:
  assumes s: "m3_at w b e nf ng s" and i: "i < unat (numDataSegments (mdl s))"
    and f: "\<And>d. w \<Longrightarrow> data_inside b e d \<Longrightarrow> data_inside b e (f d)"
  shows "outcome w (\<lambda>_ t. m3_at w b e nf ng t \<and> numDataSegments (mdl t) = numDataSegments (mdl s)) (free_ok w) (upd_segment i f s)"
proof -
  let ?ds = "elems (dataSegments (mdl s))"
  have len: "i < length ?ds" using s i by (simp add: m3_at_defs)
  have "\<forall>d \<in> set (?ds[i := f (?ds ! i)]). data_inside b e d" if w
    using s len that f [OF that] by (auto simp: m3_at_defs elim!: set_update_cases)
  then show ?thesis using s unfolding m3_at_defs
    by (auto simp: upd_segment_def upd_elem_Some [OF len])
qed

lemma upd_segment_free:
  assumes s: "m3_at w b e nf ng s" and i: "i < unat (numDataSegments (mdl s))"
  shows "outcome w (\<lambda>_ t. free_ok w t) (free_ok w) (upd_segment i f s)"
proof -
  have len: "i < length (elems (dataSegments (mdl s)))" using s i by (simp add: m3_at_defs)
  show ?thesis using m3_at_free [OF s]
    by (auto simp: upd_segment_def upd_elem_Some [OF len] free_ok_def m3_FreeModule_def split: if_splits)
qed

text \<open>Growing the array of functions: with memory, zeroed elements are added; without, the array is lost.\<close>

definition grown :: "u32 \<Rightarrow> 'p::len word m3_state \<Rightarrow> 'p word m3_state" where
  "grown n s = s\<lparr>tick := tick s + 1, mdl := (mdl s)\<lparr>
     funcs := Some (elems (funcs (mdl s)) @ replicate (unat n - length (elems (funcs (mdl s)))) zero_function), allFunctions := n\<rparr>\<rparr>"

lemma Prealloc_cases:
  "Module_PreallocFunctions hp n s =
     (if n > allFunctions (mdl s)
      then if hp (tick s) then Some (Inr (), grown n s)
           else Some (Inl m3Err_mallocFailed, s\<lparr>tick := tick s + 1, mdl := (mdl s)\<lparr>funcs := None, allFunctions := n\<rparr>\<rparr>)
      else Some (Inr (), s))"
proof -
  have "n > allFunctions (mdl s) \<Longrightarrow> unat n \<noteq> 0" by (auto simp: word_less_nat_alt)
  then show ?thesis
    by (simp add: Module_PreallocFunctions_def m3_Malloc_def throwif_def ret_def upd_mod_def grown_def elems_def split: option.split)
qed

lemma grown_ok:
  assumes "m3_at w b e nf ng s" "n > allFunctions (mdl s)"
  shows "m3_at w b e nf ng (grown n s)"
proof -
  let ?fs = "elems (funcs (mdl s))"
  have le: "length ?fs \<le> unat n" "unat (numFunctions (mdl s)) \<le> length ?fs" "numFunctions (mdl s) \<le> n"
    using assms by (auto simp: m3_at_defs word_less_nat_alt word_le_nat_alt)
  show ?thesis using assms le unfolding m3_at_defs grown_def
    by (auto simp: nth_append zero_function_def names_ok_def code_inside_def intro: env_ok_later)
qed

lemma Prealloc_ok:
  assumes "m3_at w b e nf ng s" "w \<Longrightarrow> \<forall>k. hp k"
  shows "outcome w (\<lambda>_ t. m3_at w b e nf ng t) (free_ok w) (Module_PreallocFunctions hp n s)"
  using assms grown_ok [OF assms(1)] by (auto simp: Prealloc_cases free_ok_def)

lemma push_function_ok:
  assumes s: "m3_at w b e nf ng s" and i: "unat (numFunctions (mdl s)) < length (elems (funcs (mdl s)))"
    and f: "\<And>g. names_ok g \<Longrightarrow> fn_ok (env s) (f g) \<and> names_ok (f g)"
    and rng: "\<And>g. w \<Longrightarrow> code_inside b e g \<Longrightarrow> code_inside b e (f g)"
  shows "m3_at w b e (Suc nf) ng (upd_mod (\<lambda>md. md\<lparr>numFunctions := numFunctions md + 1,
      funcs := Some ((elems (funcs md))[unat (numFunctions md) := f (elems (funcs md) ! unat (numFunctions md))])\<rparr>) s) \<and>
    numFuncImports (mdl s) < numFunctions (mdl s) + 1"
proof -
  let ?fs = "elems (funcs (mdl s))" and ?n = "numFunctions (mdl s)"
  let ?g = "f (?fs ! unat ?n)"
  have len: "length ?fs = unat (allFunctions (mdl s))" using s by (simp add: m3_at_defs)
  then have lt: "?n < allFunctions (mdl s)" using i by (simp add: word_less_nat_alt)
  note n1 = unat_Suc_less [OF lt] word_less_Suc_le [OF lt] word_less_Suc_gr [OF lt]
  have at: "names_ok (?fs ! unat ?n)" "w \<Longrightarrow> code_inside b e (?fs ! unat ?n)" using s i by (auto simp: m3_at_defs)
  have "\<forall>j < unat (?n + 1). fn_ok (env s) (?fs[unat ?n := ?g] ! j)"
    using s i f [OF at(1)] n1(1) by (auto simp: m3_at_defs nth_list_update less_Suc_eq)
  moreover have "\<forall>g \<in> set (?fs[unat ?n := ?g]). names_ok g"
    using s f [OF at(1)] by (auto simp: m3_at_defs elim!: set_update_cases)
  moreover have "\<forall>g \<in> set (?fs[unat ?n := ?g]). code_inside b e g" if w
    using s rng [OF that at(2)] that by (auto simp: m3_at_defs elim!: set_update_cases)
  moreover have "numFuncImports (mdl s) < ?n + 1" "startFunction (mdl s) = - 1 \<or> startFunction (mdl s) < ?n + 1"
    using s n1(3) by (auto simp: m3_at_defs)
  ultimately show ?thesis using s n1 unfolding m3_at_defs by auto
qed

lemma set_import_names: "names_ok g \<Longrightarrow> names_ok (set_import imp (g\<lparr>f_funcType := t\<rparr>))"
  by (auto simp: names_ok_def set_import_def d_m3MaxDuplicateFunctionImpl_def split: option.split)

lemma set_import_rest:
  "f_funcType (set_import imp g) = f_funcType g" "code_inside b e (set_import imp g) = code_inside b e g"
  "code_inside b e (g\<lparr>f_funcType := t\<rparr>) = code_inside b e g"
  by (auto simp: set_import_def code_inside_def split: option.split)

text \<open>Adding a function, once there is room for it.\<close>

lemma add_with_room:
  assumes s: "m3_at w b e nf ng s" and i: "unat (numFunctions (mdl s)) < length (elems (funcs (mdl s)))"
  shows "outcome w (\<lambda>_ t. m3_at w b e (Suc nf) ng t \<and> numFuncImports (mdl t) < numFunctions (mdl t)) (free_ok w)
    (set_signature (numFunctions (mdl s)) ti imp (upd_mod (\<lambda>md. md\<lparr>numFunctions := numFunctions md + 1\<rparr>) s))"
proof -
  let ?n = "numFunctions (mdl s)"
  let ?s = "upd_mod (\<lambda>md. md\<lparr>numFunctions := ?n + 1\<rparr>) s"
  have lt: "?n < ?n + 1" using s i by (intro word_less_Suc_gr [of _ "allFunctions (mdl s)"]) (auto simp: m3_at_defs word_less_nat_alt)
  have free: "free_ok w ?s" using m3_at_free [OF s] i by (auto simp: free_ok_def m3_FreeModule_def elems_def split: option.splits if_splits)
  show ?thesis
  proof (cases "ti < numFuncTypes (mdl s)")
    case True
    then obtain fts where fts: "funcTypes (mdl s) = Some fts" "unat ti < length fts"
      using s by (cases "funcTypes (mdl s)") (auto simp: m3_at_defs word_less_nat_alt)
    then have "fts ! unat ti \<in> types_of (env s)" using s by (auto simp: m3_at_defs dest!: nth_mem)
    then have "m3_at w b e (Suc nf) ng (upd_mod (\<lambda>md. md\<lparr>numFunctions := numFunctions md + 1,
        funcs := Some ((elems (funcs md))[unat (numFunctions md) :=
          set_import imp ((elems (funcs md) ! unat (numFunctions md))\<lparr>f_funcType := fts ! unat ti\<rparr>)])\<rparr>) s) \<and>
        numFuncImports (mdl s) < numFunctions (mdl s) + 1"
      by (intro push_function_ok [OF s i]) (auto simp: set_import_names set_import_rest fn_ok_def)
    moreover have "(numFuncTypes (mdl s) \<le> ti) = False" using True by simp
    ultimately show ?thesis using fts lt i
      by (simp add: set_signature_def throwif_def Module_GetFunction_def upd_function_def upd_elem_Some upd_mod_def)
  qed (use free in \<open>simp add: not_less set_signature_def throwif_def upd_mod_def\<close>)
qed

lemma AddFunction_ok:
  assumes s: "m3_at w b e nf ng s" and hp: "w \<Longrightarrow> \<forall>k. hp k" and nf: "nf < 2 ^ 32 - 1"
  shows "outcome w (\<lambda>_ t. m3_at w b e (Suc nf) ng t \<and> numFuncImports (mdl t) < numFunctions (mdl t)) (free_ok w)
    (Module_AddFunction hp ti imp s)"
proof -
  let ?n = "numFunctions (mdl s)"
  let ?s = "upd_mod (\<lambda>md. md\<lparr>numFunctions := ?n + 1\<rparr>) s"
  have "unat ?n \<le> nf" using s by (simp add: m3_at_def)
  then have n1: "unat (?n + 1) = Suc (unat ?n)" using nf by (intro unat_Suc_less [of _ 4294967295]) (simp add: word_less_nat_alt)
  have len: "length (elems (funcs (mdl s))) = unat (allFunctions (mdl s))" "unat ?n \<le> unat (allFunctions (mdl s))"
    using s by (auto simp: m3_at_defs word_le_nat_alt)
  show ?thesis
  proof (cases "?n + 1 > allFunctions (mdl s)")
    case grow: True
    show ?thesis
    proof (cases "hp (tick s)")
      case True
      have eq: "grown (?n + 1) ?s = upd_mod (\<lambda>md. md\<lparr>numFunctions := numFunctions md + 1\<rparr>) (grown (?n + 1) s)"
        "numFunctions (mdl (grown (?n + 1) s)) = ?n" by (simp_all add: grown_def upd_mod_def)
      have "length (elems (funcs (mdl (grown (?n + 1) s)))) = Suc (unat ?n)"
        using len grow n1 by (auto simp: grown_def word_less_nat_alt)
      then have "outcome w (\<lambda>_ t. m3_at w b e (Suc nf) ng t \<and> numFuncImports (mdl t) < numFunctions (mdl t)) (free_ok w)
          (set_signature ?n ti imp (grown (?n + 1) ?s))"
        using add_with_room [OF grown_ok [OF s grow], of ti imp] unfolding eq by simp
      then show ?thesis using grow True by (simp add: Module_AddFunction_def try_op_def Prealloc_cases Let_def)
    next
      case False
      then show ?thesis using hp grow by (auto simp: Module_AddFunction_def try_op_def Prealloc_cases Let_def free_ok_def)
    qed
  next
    case False
    then have "unat ?n < length (elems (funcs (mdl s)))" using len n1 by (simp add: word_less_nat_alt)
    then show ?thesis using add_with_room [OF s, of ti imp] False
      by (simp add: Module_AddFunction_def try_op_def Prealloc_cases Let_def upd_mod_def)
  qed
qed

lemma AddGlobal_ok:
  assumes s: "m3_at w b e nf ng s" and hp: "w \<Longrightarrow> \<forall>k. hp k" and ng: "ng < 2 ^ 32 - 1"
  shows "outcome w (\<lambda>i t. m3_at w b e nf (Suc ng) t \<and> i < unat (numGlobals (mdl t))) (free_ok w) (Module_AddGlobal hp ty mu im s)"
proof -
  let ?n = "numGlobals (mdl s)"
  let ?gs = "elems (globals (mdl s))"
  let ?t = "\<lambda>new. upd_mod (\<lambda>md. md\<lparr>numGlobals := ?n + 1, globals := new\<rparr>) (s\<lparr>tick := tick s + 1\<rparr>)"
  have "unat ?n \<le> ng" using s by (simp add: m3_at_def)
  then have n1: "unat (?n + 1) = Suc (unat ?n)" using ng by (intro unat_Suc_less [of _ 4294967295]) (simp add: word_less_nat_alt)
  have len: "length ?gs = unat ?n" using s by (simp add: m3_at_defs)
  show ?thesis
  proof (cases "hp (tick s)")
    case True
    have at: "m3_at w b e nf (Suc ng) (?t (Some (?gs @ [zero_global])))"
      using s n1 len unfolding m3_at_defs by (auto intro: env_ok_later)
    have "Module_AddGlobal hp ty mu im s = try_op (upd_global (unat ?n) (\<lambda>g. g\<lparr>g_type := ty, g_imported := im, g_isMutable := mu\<rparr>))
        (\<lambda>_. ret (unat ?n)) (?t (Some (?gs @ [zero_global])))"
      using True n1 len by (simp add: Module_AddGlobal_def m3_Malloc_def Let_def throwif_def elems_def split: option.splits)
    moreover have "outcome w (\<lambda>i t. m3_at w b e nf (Suc ng) t \<and> i < unat (numGlobals (mdl t))) (free_ok w)
        (try_op (upd_global (unat ?n) (\<lambda>g. g\<lparr>g_type := ty, g_imported := im, g_isMutable := mu\<rparr>))
        (\<lambda>_. ret (unat ?n)) (?t (Some (?gs @ [zero_global]))))"
      by (rule outcome_try_op, rule upd_global_ok [OF at]) (use n1 in \<open>auto intro!: outcome_ret\<close>)
    ultimately show ?thesis by simp
  next
    case False
    then show ?thesis using hp by (auto simp: Module_AddGlobal_def m3_Malloc_def Let_def throwif_def free_ok_def)
  qed
qed

end
