(* ===== verification/Wasm3_Parse.thy ===== *)
theory Wasm3_Parse
  imports Wasm3_Module
begin

text \<open>
  The module parser of wasm3 (\<^verbatim>\<open>kernel/lib/wasm3/m3_parse.c\<close>), section by section, and \<^verbatim>\<open>m3_ParseModule\<close>. Its input comes
  from outside the kernel, so what it accepts decides what later code may rely on. Three things the parser uses are arguments: the
  heap's answers, the walk over an initialiser expression (\<^verbatim>\<open>CompileBlockStatements\<close>, which returns a result code and the
  position it stopped at) and the handler of custom sections, NULL in the kernel. \<open>garbage\<close> is the value an
  uninitialised \<^verbatim>\<open>result\<close> happens to have.
\<close>

section \<open>The sections\<close>

record 'q m3_ctx =
  bytes :: mem
  heap :: "nat \<Rightarrow> bool"
  compile_block :: "mem \<Rightarrow> 'q m3_module \<Rightarrow> 'q \<Rightarrow> 'q \<Rightarrow> m3_error option \<times> unit \<times> 'q"
  customSectionHandler :: "(cstr \<Rightarrow> 'q \<Rightarrow> 'q \<Rightarrow> (unit, 'q m3_state) m3_op) option"
  garbage :: "m3_error option"

definition d_m3MaxSaneTypesCount :: u32 where [zconst]: "d_m3MaxSaneTypesCount = 1000000"
definition d_m3MaxSaneFunctionsCount :: u32 where [zconst]: "d_m3MaxSaneFunctionsCount = 1000000"
definition d_m3MaxSaneImportsCount :: u32 where [zconst]: "d_m3MaxSaneImportsCount = 100000"
definition d_m3MaxSaneExportsCount :: u32 where [zconst]: "d_m3MaxSaneExportsCount = 100000"
definition d_m3MaxSaneGlobalsCount :: u32 where [zconst]: "d_m3MaxSaneGlobalsCount = 1000000"
definition d_m3MaxSaneElementSegments :: u32 where [zconst]: "d_m3MaxSaneElementSegments = 10000000"
definition d_m3MaxSaneDataSegments :: u32 where [zconst]: "d_m3MaxSaneDataSegments = 100000"
definition d_m3MaxSaneFunctionArgRetCount :: u32 where [zconst]: "d_m3MaxSaneFunctionArgRetCount = 1000"

text \<open>
  The fields are written as they are read, also before an error. A shift by the page size's logarithm takes the
  count modulo 32, as the processor does.
\<close>

definition ParseType_Memory :: "mem \<Rightarrow> m3_memoryInfo \<Rightarrow> 'p::len word \<Rightarrow> 'p word \<Rightarrow> (m3_memoryInfo, 'p) m3_read" where
  "ParseType_Memory m o_memory p e =
     (case ReadLEB_u7 m p e of
        (Some r, flag, p) \<Rightarrow> (Some r, o_memory, p)
      | (None, flag, p) \<Rightarrow>
          (case ReadLEB_u32 m p e of
             (Some r, v, p) \<Rightarrow> (Some r, o_memory\<lparr>initPages := v\<rparr>, p)
           | (None, v, p) \<Rightarrow>
               (let o_memory = o_memory\<lparr>initPages := v, maxPages := 0\<rparr>
                in case (if flag AND 1 \<noteq> 0
                         then (case ReadLEB_u32 m p e of (r, v, p) \<Rightarrow> (r, o_memory\<lparr>maxPages := v\<rparr>, p))
                         else (None, o_memory, p)) of
                     (Some r, o_memory, p) \<Rightarrow> (Some r, o_memory, p)
                   | (None, o_memory, p) \<Rightarrow>
                       (let o_memory = o_memory\<lparr>pageSize := 0\<rparr>
                        in if flag AND 8 \<noteq> 0
                           then (case ReadLEB_u32 m p e of
                                   (Some r, logPageSize, p) \<Rightarrow> (Some r, o_memory, p)
                                 | (None, logPageSize, p) \<Rightarrow>
                                     (None, o_memory\<lparr>pageSize := push_bit (unat (logPageSize AND 31)) 1\<rparr>, p))
                           else (None, o_memory, p)))))"

text \<open>One entry of the type section: read, and entered into the environment's list and the module's table.\<close>

definition type_entry :: "'p::len word m3_ctx \<Rightarrow> nat \<Rightarrow> 'p word \<Rightarrow> 'p word \<Rightarrow> ('p word, 'p word m3_state) m3_op" where
  "type_entry c i p e =
     try_read (ReadLEB_i7 (bytes c) p e) (\<lambda>form p.
     throwif m3Err_wasmMalformed (form \<noteq> - 32) (
     try_read (ReadLEB_u32 (bytes c) p e) (\<lambda>nArgs p.
     throwif m3Err_tooManyArgsRets (nArgs > d_m3MaxSaneFunctionArgRetCount) (
     try_read (read_many read_value_type (unat nArgs) (bytes c) p e) (\<lambda>argTypes p.
     try_read (ReadLEB_u32 (bytes c) p e) (\<lambda>nRets p.
     throwif m3Err_tooManyArgsRets (unat nRets + unat nArgs > unat d_m3MaxSaneFunctionArgRetCount) (
     try_op (AllocFuncType (heap c) (nRets + nArgs)) (\<lambda>(ptr, ftype).
     try_read (read_many read_value_type (unat nRets) (bytes c) p e) (\<lambda>retTypes p s.
       let ftype = ftype\<lparr>numArgs := ucast nArgs, numRets := ucast nRets, ft_types := retTypes @ argTypes\<rparr>;
           (ptr, en) = Environment_AddFuncType (env s) (ptr, ftype);
           s = s\<lparr>env := en\<rparr>
       in case upd_elem (funcTypes (mdl s)) i (\<lambda>_. ptr) of
            None \<Rightarrow> None
          | Some fts \<Rightarrow> ret p (upd_mod (\<lambda>md. md\<lparr>funcTypes := Some fts\<rparr>) s))))))))))"

fun type_loop :: "'p::len word m3_ctx \<Rightarrow> nat \<Rightarrow> nat \<Rightarrow> 'p word \<Rightarrow> 'p word \<Rightarrow> (unit, 'p word m3_state) m3_op" where
  "type_loop c i 0 p e = ret ()"
| "type_loop c i (Suc n) p e = try_op (type_entry c i p e) (\<lambda>p. type_loop c (Suc i) n p e)"

definition type_section :: "'p::len word m3_ctx \<Rightarrow> 'p word \<Rightarrow> 'p word \<Rightarrow> (unit, 'p word m3_state) m3_op" where
  "type_section c p e =
     try_read (ReadLEB_u32 (bytes c) p e) (\<lambda>numTypes p.
     throwif (m3Err_message ''too many types'') (numTypes > d_m3MaxSaneTypesCount) (\<lambda>s.
     if numTypes \<noteq> 0
     then let (ok, s) = m3_Malloc (heap c) (unat numTypes) s;
              s = upd_mod (\<lambda>md. md\<lparr>funcTypes := if ok then Some (replicate (unat numTypes) 0) else None\<rparr>) s
          in throwif m3Err_mallocFailed (\<not> ok)
               (modify (upd_mod (\<lambda>md. md\<lparr>numFuncTypes := numTypes\<rparr>)) (type_loop c 0 (unat numTypes) p e)) s
     else ret () s))"

definition ParseSection_Type :: "'p::len word m3_ctx \<Rightarrow> 'p word \<Rightarrow> 'p word \<Rightarrow> (unit, 'p word m3_state) m3_op" where
  "ParseSection_Type c p e s =
     (case type_section c p e s of
        Some (Inl r, s) \<Rightarrow> Some (Inl r, upd_mod (\<lambda>md. md\<lparr>funcTypes := None, numFuncTypes := 0\<rparr>) s)
      | x \<Rightarrow> x)"

fun function_loop :: "'p::len word m3_ctx \<Rightarrow> nat \<Rightarrow> 'p word \<Rightarrow> 'p word \<Rightarrow> (unit, 'p word m3_state) m3_op" where
  "function_loop c 0 p e = ret ()"
| "function_loop c (Suc n) p e =
     try_read (ReadLEB_u32 (bytes c) p e) (\<lambda>funcTypeIndex p.
     try_op (Module_AddFunction (heap c) funcTypeIndex None) (\<lambda>_. function_loop c n p e))"

definition ParseSection_Function :: "'p::len word m3_ctx \<Rightarrow> 'p word \<Rightarrow> 'p word \<Rightarrow> (unit, 'p word m3_state) m3_op" where
  "ParseSection_Function c p e =
     try_read (ReadLEB_u32 (bytes c) p e) (\<lambda>n p.
     throwif (m3Err_message ''too many functions'') (n > d_m3MaxSaneFunctionsCount) (\<lambda>s.
     try_op (Module_PreallocFunctions (heap c) (numFunctions (mdl s) + n)) (\<lambda>_. function_loop c (unat n) p e) s))"

text \<open>A string and the request for its copy.\<close>

definition read_utf8_op :: "'p::len word m3_ctx \<Rightarrow> 'p word \<Rightarrow> 'p word \<Rightarrow> (cstr option \<times> 'p word, 'p word m3_state) m3_op" where
  "read_utf8_op c p e s =
     (let (ok, t) = m3_Malloc (heap c) 1 s
      in case Read_utf8 ok (bytes c) p e of
           (None, v, p) \<Rightarrow> Some (Inr (v, p), t)
         | (Some r, v, p) \<Rightarrow> Some (Inl r, s))"

definition import_function :: "'p::len word m3_ctx \<Rightarrow> m3_importInfo \<Rightarrow> 'p word \<Rightarrow> 'p word \<Rightarrow> ('p word, 'p word m3_state) m3_op" where
  "import_function c import p e =
     try_read (ReadLEB_u32 (bytes c) p e) (\<lambda>typeIndex p.
     try_op (Module_AddFunction (heap c) typeIndex (Some import)) (\<lambda>_.
     modify (upd_mod (\<lambda>md. md\<lparr>numFuncImports := numFuncImports md + 1\<rparr>)) (ret p)))"

definition import_memory :: "'p::len word m3_ctx \<Rightarrow> m3_importInfo \<Rightarrow> 'p word \<Rightarrow> 'p word \<Rightarrow> ('p word, 'p word m3_state) m3_op" where
  "import_memory c import p e s =
     (case ParseType_Memory (bytes c) (memoryInfo (mdl s)) p e of
        (r, info, p) \<Rightarrow>
          try_read (r, (), p) (\<lambda>_ p.
            modify (upd_mod (\<lambda>md. md\<lparr>memoryImported := True, memoryImport := import\<rparr>)) (ret p))
            (upd_mod (\<lambda>md. md\<lparr>memoryInfo := info\<rparr>) s))"

definition import_global :: "'p::len word m3_ctx \<Rightarrow> m3_importInfo \<Rightarrow> 'p word \<Rightarrow> 'p word \<Rightarrow> ('p word, 'p word m3_state) m3_op" where
  "import_global c import p e =
     try_read (read_value_type (bytes c) p e) (\<lambda>ty p.
     try_read (ReadLEB_u7 (bytes c) p e) (\<lambda>isMutable p.
     try_op (Module_AddGlobal (heap c) ty (isMutable \<noteq> 0) True) (\<lambda>i.
     try_op (upd_global i (\<lambda>g. g\<lparr>g_import := import\<rparr>)) (\<lambda>_. ret p))))"

text \<open>One import by its kind. A table import is accepted, but its type is not read.\<close>

definition import_item :: "'p::len word m3_ctx \<Rightarrow> m3_importInfo \<Rightarrow> u8 \<Rightarrow> 'p word \<Rightarrow> 'p word \<Rightarrow> ('p word, 'p word m3_state) m3_op" where
  "import_item c import importKind p e =
     (if importKind = 0 then import_function c import p e
      else if importKind = 1 then ret p
      else if importKind = 2 then import_memory c import p e
      else if importKind = 3 then import_global c import p e
      else throw m3Err_wasmMalformed)"

definition import_entry :: "'p::len word m3_ctx \<Rightarrow> 'p word \<Rightarrow> 'p word \<Rightarrow> ('p word, 'p word m3_state) m3_op" where
  "import_entry c p e =
     try_op (read_utf8_op c p e) (\<lambda>(mname, p).
     try_op (read_utf8_op c p e) (\<lambda>(fname, p).
     try_read (Read_u8 (bytes c) p e) (\<lambda>importKind p.
     import_item c \<lparr>moduleUtf8 = mname, fieldUtf8 = fname\<rparr> importKind p e)))"

fun import_loop :: "'p::len word m3_ctx \<Rightarrow> nat \<Rightarrow> 'p word \<Rightarrow> 'p word \<Rightarrow> (unit, 'p word m3_state) m3_op" where
  "import_loop c 0 p e = ret ()"
| "import_loop c (Suc n) p e = try_op (import_entry c p e) (\<lambda>p. import_loop c n p e)"

definition ParseSection_Import :: "'p::len word m3_ctx \<Rightarrow> 'p word \<Rightarrow> 'p word \<Rightarrow> (unit, 'p word m3_state) m3_op" where
  "ParseSection_Import c p e =
     try_read (ReadLEB_u32 (bytes c) p e) (\<lambda>numImports p.
     throwif (m3Err_message ''too many imports'') (numImports > d_m3MaxSaneImportsCount) (
     try_op (Module_PreallocFunctions (heap c) numImports) (\<lambda>_. import_loop c (unat numImports) p e)))"

definition add_export_name :: "cstr option \<Rightarrow> 'p::len word m3_function \<Rightarrow> 'p word m3_function" where
  "add_export_name utf8 f =
     (if numNames f < d_m3MaxDuplicateFunctionImpl
      then f\<lparr>f_names := (f_names f)[unat (numNames f) := utf8], numNames := numNames f + 1, export_name := utf8\<rparr>
      else f)"

definition export_item :: "cstr option \<Rightarrow> u8 \<Rightarrow> u32 \<Rightarrow> (unit, 'p::len word m3_state) m3_op" where
  "export_item utf8 exportKind index s =
     (if exportKind = 0
      then throwif m3Err_wasmMalformed (index \<ge> numFunctions (mdl s)) (upd_function (unat index) (add_export_name utf8)) s
      else if exportKind = 3
      then throwif m3Err_wasmMalformed (index \<ge> numGlobals (mdl s)) (upd_global (unat index) (\<lambda>g. g\<lparr>g_name := utf8\<rparr>)) s
      else if exportKind = 2 then ret () (upd_mod (\<lambda>md. md\<lparr>memoryExportName := utf8\<rparr>) s)
      else if exportKind = 1 then ret () (upd_mod (\<lambda>md. md\<lparr>table0ExportName := utf8\<rparr>) s)
      else ret () s)"

definition export_entry :: "'p::len word m3_ctx \<Rightarrow> 'p word \<Rightarrow> 'p word \<Rightarrow> ('p word, 'p word m3_state) m3_op" where
  "export_entry c p e =
     try_op (read_utf8_op c p e) (\<lambda>(utf8, p).
     try_read (Read_u8 (bytes c) p e) (\<lambda>exportKind p.
     try_read (ReadLEB_u32 (bytes c) p e) (\<lambda>index p.
     try_op (export_item utf8 exportKind index) (\<lambda>_. ret p))))"

fun export_loop :: "'p::len word m3_ctx \<Rightarrow> nat \<Rightarrow> 'p word \<Rightarrow> 'p word \<Rightarrow> (unit, 'p word m3_state) m3_op" where
  "export_loop c 0 p e = ret ()"
| "export_loop c (Suc n) p e = try_op (export_entry c p e) (\<lambda>p. export_loop c n p e)"

definition ParseSection_Export :: "'p::len word m3_ctx \<Rightarrow> 'p word \<Rightarrow> 'p word \<Rightarrow> (unit, 'p word m3_state) m3_op" where
  "ParseSection_Export c p e =
     try_read (ReadLEB_u32 (bytes c) p e) (\<lambda>numExports p.
     throwif (m3Err_message ''too many exports'') (numExports > d_m3MaxSaneExportsCount)
       (export_loop c (unat numExports) p e))"

definition ParseSection_Start :: "'p::len word m3_ctx \<Rightarrow> 'p word \<Rightarrow> 'p word \<Rightarrow> (unit, 'p word m3_state) m3_op" where
  "ParseSection_Start c p e =
     try_read (ReadLEB_u32 (bytes c) p e) (\<lambda>startFuncIndex p s.
     if startFuncIndex < numFunctions (mdl s)
     then ret () (upd_mod (\<lambda>md. md\<lparr>startFunction := startFuncIndex\<rparr>) s)
     else throw (m3Err_message ''start function index out of bounds'') s)"

definition Parse_InitExpr :: "'p::len word m3_ctx \<Rightarrow> 'p word m3_module \<Rightarrow> 'p word \<Rightarrow> 'p word \<Rightarrow> (unit, 'p) m3_read" where
  "Parse_InitExpr c md p e = compile_block c (bytes c) md p e"

definition ParseSection_Element :: "'p::len word m3_ctx \<Rightarrow> 'p word \<Rightarrow> 'p word \<Rightarrow> (unit, 'p word m3_state) m3_op" where
  "ParseSection_Element c p e =
     try_read (ReadLEB_u32 (bytes c) p e) (\<lambda>numSegments p.
     throwif (m3Err_message ''too many element segments'') (numSegments > d_m3MaxSaneElementSegments)
       (modify (upd_mod (\<lambda>md. md\<lparr>elementSection := p, elementSectionEnd := e, numElementSegments := numSegments\<rparr>)) (ret ())))"

text \<open>One body of the code section: its size and, unless the size is zero, the bytes it occupies.\<close>

definition code_entry :: "'p::len word m3_ctx \<Rightarrow> u32 \<Rightarrow> 'p word \<Rightarrow> 'p word \<Rightarrow> ('p word, 'p word m3_state) m3_op" where
  "code_entry c f p e =
     (let start = p
      in try_read (ReadLEB_u32 (bytes c) p e) (\<lambda>sz p s.
         if sz \<noteq> 0
         then let p = p + ucast sz
              in if p \<le> e
                 then case Module_GetFunction (f + numFuncImports (mdl s)) s of
                        None \<Rightarrow> None
                      | Some i \<Rightarrow>
                          try_op (upd_function i (\<lambda>g. g\<lparr>f_module := True, f_wasm := start, f_wasmEnd := p\<rparr>)) (\<lambda>_. ret p) s
                 else throw m3Err_wasmSectionOverrun s
         else ret p s))"

fun code_loop :: "'p::len word m3_ctx \<Rightarrow> u32 \<Rightarrow> nat \<Rightarrow> 'p word \<Rightarrow> 'p word \<Rightarrow> ('p word, 'p word m3_state) m3_op" where
  "code_loop c f 0 p e = ret p"
| "code_loop c f (Suc n) p e = try_op (code_entry c f p e) (\<lambda>p. code_loop c (f + 1) n p e)"

definition ParseSection_Code :: "'p::len word m3_ctx \<Rightarrow> 'p word \<Rightarrow> 'p word \<Rightarrow> (unit, 'p word m3_state) m3_op" where
  "ParseSection_Code c p e =
     try_read (ReadLEB_u32 (bytes c) p e) (\<lambda>n p s.
     throwif (m3Err_message ''mismatched function count in code section'')
       (n \<noteq> numFunctions (mdl s) - numFuncImports (mdl s))
       (try_op (code_loop c 0 (unat n) p e) (\<lambda>p. throwif m3Err_wasmSectionUnderrun (p \<noteq> e) (ret ()))) s)"

text \<open>One data segment; its fields are written as they are read.\<close>

definition data_entry :: "'p::len word m3_ctx \<Rightarrow> nat \<Rightarrow> 'p word \<Rightarrow> 'p word \<Rightarrow> ('p word, 'p word m3_state) m3_op" where
  "data_entry c i p e =
     try_read (ReadLEB_u32 (bytes c) p e) (\<lambda>region p.
     try_op (upd_segment i (\<lambda>d. d\<lparr>d_memoryRegion := region, d_initExpr := p\<rparr>)) (\<lambda>_ s.
     try_read (Parse_InitExpr c (mdl s) p e) (\<lambda>_ q.
     let initExprSize = (ucast (q - p) :: u32)
     in try_op (upd_segment i (\<lambda>d. d\<lparr>d_initExprSize := initExprSize\<rparr>)) (\<lambda>_.
     throwif m3Err_wasmMissingInitExpr (initExprSize \<le> 1) (
     try_read (ReadLEB_u32 (bytes c) q e) (\<lambda>sz p.
     try_op (upd_segment i (\<lambda>d. d\<lparr>d_size := sz, d_data := p\<rparr>)) (\<lambda>_.
     let p = p + ucast sz
     in throwif (m3Err_message ''data segment underflow'') (p > e) (ret p)))))) s))"

fun data_loop :: "'p::len word m3_ctx \<Rightarrow> nat \<Rightarrow> nat \<Rightarrow> 'p word \<Rightarrow> 'p word \<Rightarrow> (unit, 'p word m3_state) m3_op" where
  "data_loop c i 0 p e = ret ()"
| "data_loop c i (Suc n) p e = try_op (data_entry c i p e) (\<lambda>p. data_loop c (Suc i) n p e)"

definition ParseSection_Data :: "'p::len word m3_ctx \<Rightarrow> 'p word \<Rightarrow> 'p word \<Rightarrow> (unit, 'p word m3_state) m3_op" where
  "ParseSection_Data c p e =
     try_read (ReadLEB_u32 (bytes c) p e) (\<lambda>n p.
     throwif (m3Err_message ''too many data segments'') (n > d_m3MaxSaneDataSegments) (\<lambda>s.
     let (ok, s) = m3_Malloc (heap c) (unat n) s;
         s = upd_mod (\<lambda>md. md\<lparr>dataSegments := if ok then Some (replicate (unat n) zero_dataSegment) else None\<rparr>) s
     in throwif m3Err_mallocFailed (\<not> ok)
          (modify (upd_mod (\<lambda>md. md\<lparr>numDataSegments := n\<rparr>)) (data_loop c 0 (unat n) p e)) s))"

text \<open>The result of \<^verbatim>\<open>ParseType_Memory\<close> is dropped.\<close>

definition ParseSection_Memory :: "'p::len word m3_ctx \<Rightarrow> 'p word \<Rightarrow> 'p word \<Rightarrow> (unit, 'p word m3_state) m3_op" where
  "ParseSection_Memory c p e =
     try_read (ReadLEB_u32 (bytes c) p e) (\<lambda>numMemories p.
     throwif m3Err_tooManyMemorySections (numMemories \<noteq> 1) (\<lambda>s.
     case ParseType_Memory (bytes c) (memoryInfo (mdl s)) p e of
       (r, info, p) \<Rightarrow> ret () (upd_mod (\<lambda>md. md\<lparr>memoryInfo := info\<rparr>) s)))"

definition global_entry :: "'p::len word m3_ctx \<Rightarrow> 'p word \<Rightarrow> 'p word \<Rightarrow> ('p word, 'p word m3_state) m3_op" where
  "global_entry c p e =
     try_read (read_value_type (bytes c) p e) (\<lambda>ty p.
     try_read (ReadLEB_u7 (bytes c) p e) (\<lambda>isMutable p.
     try_op (Module_AddGlobal (heap c) ty (isMutable \<noteq> 0) False) (\<lambda>i.
     try_op (upd_global i (\<lambda>g. g\<lparr>g_initExpr := p\<rparr>)) (\<lambda>_ s.
     try_read (Parse_InitExpr c (mdl s) p e) (\<lambda>_ q.
     let initExprSize = (ucast (q - p) :: u32)
     in try_op (upd_global i (\<lambda>g. g\<lparr>g_initExprSize := initExprSize\<rparr>)) (\<lambda>_.
        throwif m3Err_wasmMissingInitExpr (initExprSize \<le> 1) (ret q))) s))))"

fun global_loop :: "'p::len word m3_ctx \<Rightarrow> nat \<Rightarrow> 'p word \<Rightarrow> 'p word \<Rightarrow> (unit, 'p word m3_state) m3_op" where
  "global_loop c 0 p e = ret ()"
| "global_loop c (Suc n) p e = try_op (global_entry c p e) (\<lambda>p. global_loop c n p e)"

definition ParseSection_Global :: "'p::len word m3_ctx \<Rightarrow> 'p word \<Rightarrow> 'p word \<Rightarrow> (unit, 'p word m3_state) m3_op" where
  "ParseSection_Global c p e =
     try_read (ReadLEB_u32 (bytes c) p e) (\<lambda>n p.
     throwif (m3Err_message ''too many globals'') (n > d_m3MaxSaneGlobalsCount) (global_loop c (unat n) p e))"

text \<open>One name of the name section, given to a function that has none.\<close>

definition name_entry :: "'p::len word m3_ctx \<Rightarrow> 'p word \<Rightarrow> 'p word \<Rightarrow> ('p word, 'p word m3_state) m3_op" where
  "name_entry c p e =
     try_read (ReadLEB_u32 (bytes c) p e) (\<lambda>index p.
     try_op (read_utf8_op c p e) (\<lambda>(name, p) s.
     if index < numFunctions (mdl s)
     then try_op (upd_function (unat index)
            (\<lambda>f. if numNames f = 0 then f\<lparr>f_names := (f_names f)[0 := name], numNames := 1\<rparr> else f)) (\<lambda>_. ret p) s
     else ret p s))"

fun name_entries :: "'p::len word m3_ctx \<Rightarrow> nat \<Rightarrow> 'p word \<Rightarrow> 'p word \<Rightarrow> ('p word, 'p word m3_state) m3_op" where
  "name_entries c 0 p e = ret p"
| "name_entries c (Suc n) p e = try_op (name_entry c p e) (\<lambda>p. name_entries c n p e)"

text \<open>One subsection: the next one starts where its length says, wherever the names ended.\<close>

definition name_step :: "'p::len word m3_ctx \<Rightarrow> 'p word \<Rightarrow> 'p word \<Rightarrow> ('p word, 'p word m3_state) m3_op" where
  "name_step c p e =
     try_read (ReadLEB_u7 (bytes c) p e) (\<lambda>nameType p.
     try_read (ReadLEB_u32 (bytes c) p e) (\<lambda>payloadLength start.
     if nameType = 1
     then try_read (ReadLEB_u32 (bytes c) start e) (\<lambda>n p.
          throwif (m3Err_message ''too many names'') (n > d_m3MaxSaneFunctionsCount)
            (try_op (name_entries c (unat n) p e) (\<lambda>_. ret (start + ucast payloadLength))))
     else ret (start + ucast payloadLength)))"

partial_function (option) name_loop ::
  "'p::len word m3_ctx \<Rightarrow> m3_error option \<Rightarrow> 'p word \<Rightarrow> 'p word \<Rightarrow> 'p word m3_state \<Rightarrow> ((m3_error + unit) \<times> 'p word m3_state) option" where
  "name_loop c res p e s =
     (if p < e
      then case name_step c p e s of
             None \<Rightarrow> None
           | Some x \<Rightarrow> (case fst x of Inl r \<Rightarrow> Some (Inl r, snd x) | Inr q \<Rightarrow> name_loop c None q e (snd x))
      else Some (case res of None \<Rightarrow> Inr () | Some r \<Rightarrow> Inl r, s))"

definition ParseSection_Name :: "'p::len word m3_ctx \<Rightarrow> 'p word \<Rightarrow> 'p word \<Rightarrow> (unit, 'p word m3_state) m3_op" where
  "ParseSection_Name c p e s = name_loop c (garbage c) p e s"

text \<open>\<^verbatim>\<open>strcmp\<close> reads the name, so a NULL name is an access through NULL.\<close>

definition ParseSection_Custom :: "'p::len word m3_ctx \<Rightarrow> 'p word \<Rightarrow> 'p word \<Rightarrow> (unit, 'p word m3_state) m3_op" where
  "ParseSection_Custom c p e =
     try_op (read_utf8_op c p e) (\<lambda>(name, p) s.
     case name of
       None \<Rightarrow> None
     | Some n \<Rightarrow>
         if takeWhile (\<lambda>b. b \<noteq> 0) n = text_bytes ''name'' then ParseSection_Name c p e s
         else (case customSectionHandler c of None \<Rightarrow> ret () s | Some h \<Rightarrow> h n p e s))"

section \<open>The module\<close>

definition s_parsers :: "u8 \<Rightarrow> ('p::len word m3_ctx \<Rightarrow> 'p word \<Rightarrow> 'p word \<Rightarrow> (unit, 'p word m3_state) m3_op) option" where
  "s_parsers i =
     (if i = 0 then Some ParseSection_Custom else if i = 1 then Some ParseSection_Type
      else if i = 2 then Some ParseSection_Import else if i = 3 then Some ParseSection_Function
      else if i = 5 then Some ParseSection_Memory else if i = 6 then Some ParseSection_Global
      else if i = 7 then Some ParseSection_Export else if i = 8 then Some ParseSection_Start
      else if i = 9 then Some ParseSection_Element else if i = 10 then Some ParseSection_Code
      else if i = 11 then Some ParseSection_Data else None)"

definition ParseModuleSection :: "'p::len word m3_ctx \<Rightarrow> u8 \<Rightarrow> 'p word \<Rightarrow> u32 \<Rightarrow> (unit, 'p word m3_state) m3_op" where
  "ParseModuleSection c i_sectionType i_bytes i_numBytes =
     (case s_parsers i_sectionType of
        Some parser \<Rightarrow> parser c i_bytes (i_bytes + ucast i_numBytes)
      | None \<Rightarrow> ret ())"

definition sectionsOrder :: "u8 list" where
  "sectionsOrder = [1, 2, 3, 4, 5, 6, 7, 8, 9, 12, 10, 11, 0]"

text \<open>The search for the next section in the order; an index past the table is an access outside it.\<close>

function match_section :: "nat \<Rightarrow> u8 \<Rightarrow> (m3_error + nat) option" where
  "match_section expectedSection sect =
     (if expectedSection < length sectionsOrder
      then if sectionsOrder ! expectedSection = sect then Some (Inr (expectedSection + 1))
           else if expectedSection + 1 \<ge> 12 then Some (Inl m3Err_misorderedWasmSection)
           else match_section (expectedSection + 1) sect
      else None)"
  by pat_completeness auto
termination by (relation "measure (\<lambda>(i, s). 13 - i)") (auto simp: sectionsOrder_def)

declare match_section.simps [simp del]

text \<open>One section: its id, its length, its contents.\<close>

definition section_step :: "'p::len word m3_ctx \<Rightarrow> nat \<Rightarrow> 'p word \<Rightarrow> 'p word \<Rightarrow> (nat \<times> 'p word, 'p word m3_state) m3_op" where
  "section_step c expectedSection pos e =
     try_read (ReadLEB_u7 (bytes c) pos e) (\<lambda>sect pos s.
     case (if sect \<noteq> 0 then match_section expectedSection sect else Some (Inr expectedSection)) of
       None \<Rightarrow> None
     | Some (Inl r) \<Rightarrow> throw r s
     | Some (Inr expectedSection) \<Rightarrow>
         try_read (ReadLEB_u32 (bytes c) pos e) (\<lambda>sectionLength pos.
         throwif m3Err_wasmMalformed (pos + ucast sectionLength > e) (
         try_op (ParseModuleSection c sect pos sectionLength) (\<lambda>_. ret (expectedSection, pos + ucast sectionLength)))) s)"

partial_function (option) section_loop ::
  "'p::len word m3_ctx \<Rightarrow> nat \<Rightarrow> 'p word \<Rightarrow> 'p word \<Rightarrow> 'p word m3_state \<Rightarrow> ((m3_error + unit) \<times> 'p word m3_state) option" where
  "section_loop c expectedSection pos e s =
     (if pos < e
      then case section_step c expectedSection pos e s of
             None \<Rightarrow> None
           | Some x \<Rightarrow> (case fst x of Inl r \<Rightarrow> Some (Inl r, snd x)
                                     | Inr y \<Rightarrow> section_loop c (fst y) (snd y) e (snd x))
      else Some (Inr (), s))"

definition parse_body :: "'p::len word m3_ctx \<Rightarrow> 'p word \<Rightarrow> 'p word \<Rightarrow> (unit, 'p word m3_state) m3_op" where
  "parse_body c pos e =
     try_read (Read_u32 (bytes c) pos e) (\<lambda>magic pos.
     try_read (Read_u32 (bytes c) pos e) (\<lambda>version pos.
     throwif m3Err_wasmMalformed (magic \<noteq> 0x6d736100) (
     throwif m3Err_incompatibleWasmVersion (version \<noteq> 1) (section_loop c 0 pos e))))"

text \<open>On an error the module built so far is released.\<close>

definition m3_ParseModule :: "'p::len word m3_ctx \<Rightarrow> 'p word \<Rightarrow> u32 \<Rightarrow> (unit, 'p word m3_state) m3_op" where
  "m3_ParseModule c i_bytes i_numBytes s =
     (let (ok, s) = m3_Malloc (heap c) 1 s; e = i_bytes + ucast i_numBytes
      in if \<not> ok then Some (Inl m3Err_mallocFailed, s)
         else case parse_body c i_bytes e (s\<lparr>mdl := zero_module\<lparr>startFunction := - 1, wasmStart := i_bytes, wasmEnd := e\<rparr>\<rparr>) of
                None \<Rightarrow> None
              | Some (Inr u, s) \<Rightarrow> Some (Inr (), s)
              | Some (Inl r, s) \<Rightarrow> (case m3_FreeModule s of None \<Rightarrow> None | Some s \<Rightarrow> Some (Inl r, s)))"

section \<open>Every section keeps the module well-formed\<close>

text \<open>
  What the parser relies on. With \<open>w\<close>, that is when the outcome must be defined and every pointer inside the module: the heap grants every request and the
  walk over an expression stops inside its input. The kernel installs no handler of custom sections.
\<close>

definition ctx_ok :: "bool \<Rightarrow> 'p::len word m3_ctx \<Rightarrow> bool" where
  "ctx_ok w c \<longleftrightarrow>
     customSectionHandler c = None \<and>
     (w \<longrightarrow> (\<forall>k. heap c k) \<and> (\<forall>m md p e q. compile_block c m md p e = (None, (), q) \<longrightarrow> p \<le> q \<and> q \<le> e))"

text \<open>A section's bytes inside the module's, and pointers wide enough that a 32-bit length added to one does not wrap.\<close>

definition bounded :: "bool \<Rightarrow> 'p::len word \<Rightarrow> 'p word \<Rightarrow> 'p word \<Rightarrow> 'p word \<Rightarrow> bool" where
  "bounded w b E p e \<longleftrightarrow> (w \<longrightarrow> b \<le> p \<and> p \<le> e \<and> e \<le> E \<and> unat E + 2 ^ 32 \<le> 2 ^ LENGTH('p))"

lemma bounded_step: "bounded w b E p e \<Longrightarrow> p < q \<and> q \<le> e \<Longrightarrow> bounded w b E q e"
  by (auto simp: bounded_def)

lemma bounded_le: "bounded w b E p e \<Longrightarrow> (w \<Longrightarrow> p \<le> q \<and> q \<le> e) \<Longrightarrow> bounded w b E q e"
  by (auto simp: bounded_def)

lemma ctx_heap: "ctx_ok w c \<Longrightarrow> w \<Longrightarrow> \<forall>k. heap c k"
  by (simp add: ctx_ok_def)

lemma ucast_len:
  fixes p e E :: "'p::len word"
  assumes "bounded w b E p e" w
  shows "unat (p + ucast (n :: u32)) = unat p + unat n"
proof -
  have lt: "unat n < 2 ^ 32" using unsigned_less [of n, where ?'a = nat] by simp
  have pE: "unat p \<le> unat E" "unat E + 2 ^ 32 \<le> 2 ^ LENGTH('p)" using assms by (auto simp: bounded_def word_le_nat_alt)
  have lt': "unat n < 2 ^ LENGTH('p)" "unat p + unat n < 2 ^ LENGTH('p)" using lt pE by linarith+
  then have "unat (ucast n :: 'p word) = unat n" by (simp only: unat_ucast mod_less)
  then show ?thesis using lt'(2) by (simp only: unat_word_ariths mod_less)
qed

lemma ReadLEB_u32_step: "bounded w b E p e \<Longrightarrow> ReadLEB_u32 m p e = (None, v, q) \<Longrightarrow> bounded w b E q e"
  by (rule bounded_step) (auto dest: leb_u32.progress)

lemma ReadLEB_u7_step: "bounded w b E p e \<Longrightarrow> ReadLEB_u7 m p e = (None, v, q) \<Longrightarrow> bounded w b E q e"
  by (rule bounded_step) (auto dest: leb_u7.progress)

lemma Read_u8_step: "bounded w b E p e \<Longrightarrow> Read_u8 m p e = (None, v, q) \<Longrightarrow> bounded w b E q e"
  by (rule bounded_step) (auto dest: u8_reader.progress)

text \<open>Fields that the invariant does not read.\<close>

lemma m3_at_fields [simp]:
  "m3_at w b e nf ng (upd_mod (\<lambda>md. md\<lparr>memoryInfo := a\<rparr>) s) = m3_at w b e nf ng s"
  "m3_at w b e nf ng (upd_mod (\<lambda>md. md\<lparr>memoryImported := x, memoryImport := y\<rparr>) s) = m3_at w b e nf ng s"
  "m3_at w b e nf ng (upd_mod (\<lambda>md. md\<lparr>memoryExportName := u\<rparr>) s) = m3_at w b e nf ng s"
  "m3_at w b e nf ng (upd_mod (\<lambda>md. md\<lparr>table0ExportName := u\<rparr>) s) = m3_at w b e nf ng s"
  unfolding m3_at_defs by simp_all

lemma start_ok:
  assumes "m3_at w b E nf ng s"
  shows "outcome w (\<lambda>_ t. m3_at w b E nf ng t) (free_ok w) (ParseSection_Start c p e s)"
  unfolding ParseSection_Start_def
proof (intro outcome_rules m3_at_free [OF assms])
  fix i q
  assume "i < numFunctions (mdl s)"
  then show "m3_at w b E nf ng (upd_mod (\<lambda>md. md\<lparr>startFunction := i\<rparr>) s)"
    using assms unfolding m3_at_defs by auto
qed

lemma element_ok:
  assumes "m3_at w b E nf ng s" "bounded w b E p e"
  shows "outcome w (\<lambda>_ t. m3_at w b E nf ng t) (free_ok w) (ParseSection_Element c p e s)"
  unfolding ParseSection_Element_def
proof (intro outcome_rules m3_at_free [OF assms(1)])
  fix n q
  assume "ReadLEB_u32 (bytes c) p e = (None, n, q)"
  then have "bounded w b E q e" by (rule ReadLEB_u32_step [OF assms(2)])
  then show "m3_at w b E nf ng
      (upd_mod (\<lambda>md. md\<lparr>elementSection := q, elementSectionEnd := e, numElementSegments := n\<rparr>) s)"
    using assms(1) unfolding m3_at_defs bounded_def by auto
qed

lemma memory_ok:
  assumes "m3_at w b E nf ng s"
  shows "outcome w (\<lambda>_ t. m3_at w b E nf ng t) (free_ok w) (ParseSection_Memory c p e s)"
  unfolding ParseSection_Memory_def using assms
  by (auto intro!: outcome_rules m3_at_free [OF assms] split: prod.splits)

lemma function_loop_ok:
  "m3_at w b E nf ng s \<Longrightarrow> ctx_ok w c \<Longrightarrow> nf + n < 2 ^ 32 - 1 \<Longrightarrow>
   outcome w (\<lambda>_ t. m3_at w b E (nf + n) ng t) (free_ok w) (function_loop c n p e s)"
proof (induction n arbitrary: nf p s)
  case (Suc n)
  note free = m3_at_free [OF Suc.prems(1)]
  have "outcome w (\<lambda>_ t. m3_at w b E (nf + Suc n) ng t) (free_ok w)
      (try_op (Module_AddFunction (heap c) i None) (\<lambda>_. function_loop c n q e) s)" for i q
  proof (rule outcome_try_op, rule AddFunction_ok [OF Suc.prems(1) ctx_heap [OF Suc.prems(2)]])
    fix v t
    assume "m3_at w b E (Suc nf) ng t \<and> numFuncImports (mdl t) < numFunctions (mdl t)"
    then show "outcome w (\<lambda>_ t. m3_at w b E (nf + Suc n) ng t) (free_ok w) (function_loop c n q e t)"
      using Suc.IH [of "Suc nf" t q] Suc.prems by simp
  qed (use Suc.prems in auto)
  then show ?case by (auto intro!: outcome_rules free)
qed (auto intro: outcome_ret)

lemma function_ok:
  assumes "m3_at w b E nf ng s" "ctx_ok w c" "nf \<le> 100000"
  shows "outcome w (\<lambda>_ t. m3_at w b E 1100000 ng t) (free_ok w) (ParseSection_Function c p e s)"
  unfolding ParseSection_Function_def
proof (intro outcome_rules m3_at_free [OF assms(1)])
  fix n q
  assume "\<not> n > d_m3MaxSaneFunctionsCount"
  then have n: "unat n \<le> 1000000" by (simp add: d_m3MaxSaneFunctionsCount_def word_less_nat_alt)
  show "outcome w (\<lambda>_ t. m3_at w b E 1100000 ng t) (free_ok w)
      (try_op (Module_PreallocFunctions (heap c) (numFunctions (mdl s) + n)) (\<lambda>_. function_loop c (unat n) q e) s)"
  proof (rule outcome_try_op, rule Prealloc_ok [OF assms(1) ctx_heap [OF assms(2)]])
    fix v t
    assume "m3_at w b E nf ng t"
    from function_loop_ok [OF this assms(2), of "unat n" q e]
    show "outcome w (\<lambda>_ t. m3_at w b E 1100000 ng t) (free_ok w) (function_loop c (unat n) q e t)"
      by (rule outcome_weaken) (use n assms(3) in \<open>auto intro: m3_at_mono\<close>)
  qed
qed

lemma Read_utf8_step:
  assumes sp: "bounded w b E p e" and rd: "Read_utf8 g m p e = (None, v, q)"
  shows "bounded w b E q e" "w \<Longrightarrow> p < q"
proof -
  obtain n p1 where n: "ReadLEB_u32 m p e = (None, n, p1)" "q = p1 + ucast n" "q \<le> e"
    using rd by (auto simp: Read_utf8_def Let_def split: prod.splits option.splits if_splits)
  have sp1: "bounded w b E p1 e" by (rule ReadLEB_u32_step [OF sp n(1)])
  have "p < p1" using leb_u32.progress [OF n(1)] by simp
  moreover have "p1 \<le> q" if w
    using ucast_len [OF sp1 that, of n] n(2) by (simp add: word_le_nat_alt)
  ultimately show "bounded w b E q e" "w \<Longrightarrow> p < q"
    using sp n(3) by (auto simp: bounded_def)
qed

lemma utf8_ok:
  assumes "m3_at w b E nf ng s" "bounded w b E p e" "ctx_ok w c"
  shows "outcome w (\<lambda>(v, q) t. m3_at w b E nf ng t \<and> bounded w b E q e \<and> (w \<longrightarrow> p < q \<and> v \<noteq> None)) (free_ok w) (read_utf8_op c p e s)"
proof -
  obtain r v q where rd: "Read_utf8 (heap c (tick s)) (bytes c) p e = (r, v, q)"
    by (cases "Read_utf8 (heap c (tick s)) (bytes c) p e")
  have "w \<Longrightarrow> r = None \<Longrightarrow> v \<noteq> None"
    using rd assms(3) by (auto simp: ctx_ok_def Read_utf8_def Let_def split: prod.splits option.splits if_splits)
  then show ?thesis
    using rd Read_utf8_step [OF assms(2), of "heap c (tick s)" "bytes c" v q] m3_at_tick [OF assms(1), of "Suc (tick s)"] m3_at_free [OF assms(1)]
    by (cases r) (auto simp: read_utf8_op_def m3_Malloc_def)
qed

lemma add_export_ok: "fn_ok en g \<Longrightarrow> names_ok g \<Longrightarrow> fn_ok en (add_export_name u g) \<and> names_ok (add_export_name u g)"
  unfolding add_export_name_def fn_ok_def names_ok_def d_m3MaxDuplicateFunctionImpl_def
  using word_less_Suc_le [of "numNames g" 3] by auto

lemma add_export_inside: "code_inside b e (add_export_name u g) = code_inside b e g"
  by (simp add: code_inside_def add_export_name_def)

lemma export_item_ok:
  assumes at: "m3_at w b E nf ng s"
  shows "outcome w (\<lambda>_ t. m3_at w b E nf ng t) (free_ok w) (export_item u k i s)"
proof -
  have "outcome w (\<lambda>_ t. m3_at w b E nf ng t) (free_ok w) (upd_function (unat i) (add_export_name u) s)" if "\<not> numFunctions (mdl s) \<le> i"
    by (rule outcome_weaken, rule upd_function_ok [OF at]) (use that in \<open>auto simp: not_le word_less_nat_alt add_export_ok add_export_inside\<close>)
  moreover have "outcome w (\<lambda>_ t. m3_at w b E nf ng t) (free_ok w) (upd_global (unat i) f s)" if "\<not> numGlobals (mdl s) \<le> i" for f
    by (rule outcome_weaken [OF upd_global_ok [OF at]]) (use that in \<open>auto simp: not_le word_less_nat_alt\<close>)
  ultimately show ?thesis
    unfolding export_item_def by (intro outcome_rules m3_at_free [OF at]) (use at in auto)
qed

lemma export_entry_ok:
  assumes "m3_at w b E nf ng s" "bounded w b E p e" "ctx_ok w c"
  shows "outcome w (\<lambda>q t. m3_at w b E nf ng t \<and> bounded w b E q e) (free_ok w) (export_entry c p e s)"
  unfolding export_entry_def
proof (rule outcome_try_pair, rule utf8_ok [OF assms], unfold case_prod_conv)
  fix u :: "cstr option" and q t
  assume t: "m3_at w b E nf ng t \<and> bounded w b E q e \<and> (w \<longrightarrow> p < q \<and> u \<noteq> None)"
  show "outcome w (\<lambda>q t. m3_at w b E nf ng t \<and> bounded w b E q e) (free_ok w)
      (try_read (Read_u8 (bytes c) q e) (\<lambda>k p. try_read (ReadLEB_u32 (bytes c) p e) (\<lambda>i p.
        try_op (export_item u k i) (\<lambda>_. ret p))) t)"
  proof (intro outcome_try_read m3_at_free [OF conjunct1 [OF t]])
    fix k q1 i q2
    assume "Read_u8 (bytes c) q e = (None, k, q1)" "ReadLEB_u32 (bytes c) q1 e = (None, i, q2)"
    then have sp: "bounded w b E q2 e" using t by (auto intro: ReadLEB_u32_step Read_u8_step)
    show "outcome w (\<lambda>q t. m3_at w b E nf ng t \<and> bounded w b E q e) (free_ok w) (try_op (export_item u k i) (\<lambda>_. ret q2) t)"
      by (rule outcome_try_op, rule export_item_ok [OF conjunct1 [OF t]]) (simp add: outcome_ret sp)
  qed
qed

text \<open>A counted loop of entries.\<close>

lemma export_loop_ok:
  "m3_at w b E nf ng s \<Longrightarrow> bounded w b E p e \<Longrightarrow> ctx_ok w c \<Longrightarrow>
   outcome w (\<lambda>_ t. m3_at w b E nf ng t) (free_ok w) (export_loop c n p e s)"
proof (induction n arbitrary: p s)
  case (Suc n)
  show ?case unfolding export_loop.simps
    by (rule outcome_try_op, rule export_entry_ok [OF Suc.prems]) (use Suc in auto)
qed (auto intro: outcome_ret)

lemma export_ok:
  assumes "m3_at w b E nf ng s" "bounded w b E p e" "ctx_ok w c"
  shows "outcome w (\<lambda>_ t. m3_at w b E nf ng t) (free_ok w) (ParseSection_Export c p e s)"
  unfolding ParseSection_Export_def
  by (intro outcome_rules m3_at_free [OF assms(1)] export_loop_ok [OF assms(1) _ assms(3)] ReadLEB_u32_step [OF assms(2)])

lemma ParseType_Memory_progress: "ParseType_Memory m i p e = (None, j, q) \<Longrightarrow> p < q \<and> q \<le> e"
  unfolding ParseType_Memory_def Let_def
  by (force split: prod.splits option.splits if_splits dest: leb_u7.progress leb_u32.progress)

lemma import_function_ok:
  assumes "m3_at w b E nf ng s" "bounded w b E p e" "ctx_ok w c" "nf < 2 ^ 32 - 1"
  shows "outcome w (\<lambda>q t. m3_at w b E (Suc nf) ng t \<and> bounded w b E q e) (free_ok w) (import_function c imp p e s)"
  unfolding import_function_def
proof (intro outcome_try_read m3_at_free [OF assms(1)])
  fix i q
  assume "ReadLEB_u32 (bytes c) p e = (None, i, q)"
  then have sp: "bounded w b E q e" by (rule ReadLEB_u32_step [OF assms(2)])
  show "outcome w (\<lambda>q t. m3_at w b E (Suc nf) ng t \<and> bounded w b E q e) (free_ok w)
      (try_op (Module_AddFunction (heap c) i (Some imp))
        (\<lambda>_. modify (upd_mod (\<lambda>md. md\<lparr>numFuncImports := numFuncImports md + 1\<rparr>)) (ret q)) s)"
  proof (rule outcome_try_op, rule AddFunction_ok [OF assms(1) ctx_heap [OF assms(3)]], simp, rule assms(4), intro outcome_modify outcome_ret)
    fix v t
    assume t: "m3_at w b E (Suc nf) ng t \<and> numFuncImports (mdl t) < numFunctions (mdl t)"
    then have "numFuncImports (mdl t) + 1 \<le> numFunctions (mdl t)" by (simp add: word_less_Suc_le)
    then show "m3_at w b E (Suc nf) ng (upd_mod (\<lambda>md. md\<lparr>numFuncImports := numFuncImports md + 1\<rparr>) t) \<and> bounded w b E q e"
      using t sp unfolding m3_at_defs by auto
  qed
qed

lemma import_memory_ok:
  assumes "m3_at w b E nf ng s" "bounded w b E p e"
  shows "outcome w (\<lambda>q t. m3_at w b E nf ng t \<and> bounded w b E q e) (free_ok w) (import_memory c imp p e s)"
proof -
  obtain r i q where rd: "ParseType_Memory (bytes c) (memoryInfo (mdl s)) p e = (r, i, q)"
    by (cases "ParseType_Memory (bytes c) (memoryInfo (mdl s)) p e")
  have sp: "bounded w b E q e" if "r = None"
    using ParseType_Memory_progress [of "bytes c" "memoryInfo (mdl s)" p e i q] rd that assms(2) by (auto intro: bounded_step)
  have at: "m3_at w b E nf ng (upd_mod (\<lambda>md. md\<lparr>memoryInfo := i\<rparr>) s)" using assms(1) by simp
  show ?thesis
    unfolding import_memory_def rd prod.case
    by (intro outcome_try_read outcome_modify outcome_ret m3_at_free [OF at]) (use at sp in auto)
qed

text \<open>A new global with more of its fields set.\<close>

lemma import_global_ok:
  assumes "m3_at w b E nf ng s" "bounded w b E p e" "ctx_ok w c" "ng < 2 ^ 32 - 1"
  shows "outcome w (\<lambda>q t. m3_at w b E nf (Suc ng) t \<and> bounded w b E q e) (free_ok w) (import_global c imp p e s)"
  unfolding import_global_def
proof (intro outcome_try_read m3_at_free [OF assms(1)])
  fix ty q1 mu q
  assume "read_value_type (bytes c) p e = (None, ty, q1)" "ReadLEB_u7 (bytes c) q1 e = (None, mu, q)"
  then have sp: "bounded w b E q e" using assms(2) by (auto intro: ReadLEB_u7_step bounded_step dest: value_type.progress)
  show "outcome w (\<lambda>q t. m3_at w b E nf (Suc ng) t \<and> bounded w b E q e) (free_ok w)
      (try_op (Module_AddGlobal (heap c) ty (mu \<noteq> 0) True) (\<lambda>i. try_op (upd_global i (\<lambda>g. g\<lparr>g_import := imp\<rparr>)) (\<lambda>_. ret q)) s)"
  proof (rule outcome_try_op, rule AddGlobal_ok [OF assms(1) ctx_heap [OF assms(3)]], simp, rule assms(4))
    fix i t
    assume t: "m3_at w b E nf (Suc ng) t \<and> i < unat (numGlobals (mdl t))"
    show "outcome w (\<lambda>q t. m3_at w b E nf (Suc ng) t \<and> bounded w b E q e) (free_ok w)
        (try_op (upd_global i (\<lambda>g. g\<lparr>g_import := imp\<rparr>)) (\<lambda>_. ret q) t)"
      by (rule outcome_try_op, rule upd_global_ok) (use t sp in \<open>auto intro!: outcome_ret\<close>)
  qed
qed

lemma import_item_ok:
  assumes "m3_at w b E nf ng s" "bounded w b E p e" "ctx_ok w c" "nf < 2 ^ 32 - 1" "ng < 2 ^ 32 - 1"
  shows "outcome w (\<lambda>q t. m3_at w b E (Suc nf) (Suc ng) t \<and> bounded w b E q e) (free_ok w) (import_item c imp k p e s)"
proof -
  have "outcome w (\<lambda>q t. m3_at w b E (Suc nf) (Suc ng) t \<and> bounded w b E q e) (free_ok w) (import_function c imp p e s)"
    by (rule outcome_weaken [OF import_function_ok [OF assms(1-4)]]) (auto intro: m3_at_mono)
  moreover have "outcome w (\<lambda>q t. m3_at w b E (Suc nf) (Suc ng) t \<and> bounded w b E q e) (free_ok w) (import_memory c imp p e s)"
    by (rule outcome_weaken [OF import_memory_ok [OF assms(1,2)]]) (auto intro: m3_at_mono)
  moreover have "outcome w (\<lambda>q t. m3_at w b E (Suc nf) (Suc ng) t \<and> bounded w b E q e) (free_ok w) (import_global c imp p e s)"
    by (rule outcome_weaken [OF import_global_ok [OF assms(1-3,5)]]) (auto intro: m3_at_mono)
  moreover have "m3_at w b E (Suc nf) (Suc ng) s" by (rule m3_at_mono [OF assms(1)]) simp_all
  ultimately show ?thesis using assms(2) by (auto simp: import_item_def intro!: outcome_ret outcome_throw intro: m3_at_free)
qed

lemma import_entry_ok:
  assumes "m3_at w b E nf ng s" "bounded w b E p e" "ctx_ok w c" "nf < 2 ^ 32 - 1" "ng < 2 ^ 32 - 1"
  shows "outcome w (\<lambda>q t. m3_at w b E (Suc nf) (Suc ng) t \<and> bounded w b E q e) (free_ok w) (import_entry c p e s)"
  unfolding import_entry_def
proof (rule outcome_try_pair, rule utf8_ok [OF assms(1-3)], rule outcome_try_pair, rule utf8_ok [OF _ _ assms(3)], unfold case_prod_conv)
  fix u v :: "cstr option" and q1 q2 x
  assume x: "m3_at w b E nf ng x \<and> bounded w b E q2 e \<and> (w \<longrightarrow> q1 < q2 \<and> v \<noteq> None)"
  show "outcome w (\<lambda>q t. m3_at w b E (Suc nf) (Suc ng) t \<and> bounded w b E q e) (free_ok w)
      (try_read (Read_u8 (bytes c) q2 e) (\<lambda>k p. import_item c \<lparr>moduleUtf8 = u, fieldUtf8 = v\<rparr> k p e) x)"
    by (intro outcome_try_read m3_at_free [OF conjunct1 [OF x]] import_item_ok [OF conjunct1 [OF x] _ assms(3-)]
        Read_u8_step [OF conjunct1 [OF conjunct2 [OF x]]])
qed auto

lemma import_loop_ok:
  "m3_at w b E nf ng s \<Longrightarrow> bounded w b E p e \<Longrightarrow> ctx_ok w c \<Longrightarrow> nf + n < 2 ^ 32 - 1 \<Longrightarrow> ng + n < 2 ^ 32 - 1 \<Longrightarrow>
   outcome w (\<lambda>_ t. m3_at w b E (nf + n) (ng + n) t) (free_ok w) (import_loop c n p e s)"
proof (induction n arbitrary: p s nf ng)
  case (Suc n)
  show ?case unfolding import_loop.simps
  proof (rule outcome_try_op, rule import_entry_ok [OF Suc.prems(1-3)])
    fix q t
    assume "m3_at w b E (Suc nf) (Suc ng) t \<and> bounded w b E q e"
    then show "outcome w (\<lambda>_ t. m3_at w b E (nf + Suc n) (ng + Suc n) t) (free_ok w) (import_loop c n q e t)"
      using Suc.IH [of "Suc nf" "Suc ng" t q] Suc.prems by simp
  qed (use Suc.prems in auto)
qed (auto intro: outcome_ret)

lemma import_ok:
  assumes "m3_at w b E 0 0 s" "bounded w b E p e" "ctx_ok w c"
  shows "outcome w (\<lambda>_ t. m3_at w b E 100000 100000 t) (free_ok w) (ParseSection_Import c p e s)"
  unfolding ParseSection_Import_def
proof (intro outcome_try_read outcome_throwif m3_at_free [OF assms(1)])
  fix n q
  assume rd: "ReadLEB_u32 (bytes c) p e = (None, n, q)" and "\<not> n > d_m3MaxSaneImportsCount"
  then have n: "unat n \<le> 100000" by (simp add: d_m3MaxSaneImportsCount_def word_less_nat_alt)
  show "outcome w (\<lambda>_ t. m3_at w b E 100000 100000 t) (free_ok w)
      (try_op (Module_PreallocFunctions (heap c) n) (\<lambda>_. import_loop c (unat n) q e) s)"
  proof (rule outcome_try_op, rule Prealloc_ok [OF assms(1) ctx_heap [OF assms(3)]], simp)
    fix v t
    assume t: "m3_at w b E 0 0 t"
    from import_loop_ok [OF t ReadLEB_u32_step [OF assms(2) rd] assms(3), of "unat n"]
    show "outcome w (\<lambda>_ t. m3_at w b E 100000 100000 t) (free_ok w) (import_loop c (unat n) q e t)"
      by (rule outcome_weaken) (use n in \<open>auto intro: m3_at_mono\<close>)
  qed
qed

text \<open>An initialiser expression ends inside the section.\<close>

lemma InitExpr_step:
  assumes "bounded w b E p e" "ctx_ok w c" "Parse_InitExpr c md p e = (None, u, q)"
  shows "bounded w b E q e"
  by (rule bounded_le [OF assms(1)]) (use assms(2,3) in \<open>auto simp: ctx_ok_def Parse_InitExpr_def\<close>)

lemma global_entry_ok:
  assumes "m3_at w b E nf ng s" "bounded w b E p e" "ctx_ok w c" "ng < 2 ^ 32 - 1"
  shows "outcome w (\<lambda>q t. m3_at w b E nf (Suc ng) t \<and> bounded w b E q e) (free_ok w) (global_entry c p e s)"
  unfolding global_entry_def
proof (intro outcome_try_read m3_at_free [OF assms(1)], rule outcome_try_op, rule AddGlobal_ok [OF assms(1) ctx_heap [OF assms(3)]],
    simp, rule assms(4), rule outcome_try_op, rule upd_global_ok [OF conjunct1 conjunct2], assumption, assumption)
  fix ty q1 mu q i t v x
  assume "read_value_type (bytes c) p e = (None, ty, q1)" "ReadLEB_u7 (bytes c) q1 e = (None, mu, q)"
  then have sp: "bounded w b E q e" using assms(2) by (auto intro: ReadLEB_u7_step bounded_step dest: value_type.progress)
  assume "m3_at w b E nf (Suc ng) t \<and> i < unat (numGlobals (mdl t))" and "m3_at w b E nf (Suc ng) x \<and> numGlobals (mdl x) = numGlobals (mdl t)"
  then have at: "m3_at w b E nf (Suc ng) x" "i < unat (numGlobals (mdl x))" by auto
  show "outcome w (\<lambda>q t. m3_at w b E nf (Suc ng) t \<and> bounded w b E q e) (free_ok w)
      (try_read (Parse_InitExpr c (mdl x) q e) (\<lambda>_ r. let initExprSize = (ucast (r - q) :: u32)
        in try_op (upd_global i (\<lambda>g. g\<lparr>g_initExprSize := initExprSize\<rparr>)) (\<lambda>_. throwif m3Err_wasmMissingInitExpr (initExprSize \<le> 1) (ret r))) x)"
    unfolding Let_def
    by (intro outcome_try_read m3_at_free [OF at(1)], rule outcome_try_op, rule upd_global_ok [OF at])
       (auto intro!: outcome_throwif outcome_ret intro: m3_at_free InitExpr_step [OF sp assms(3)])
qed

lemma global_loop_ok:
  "m3_at w b E nf ng s \<Longrightarrow> bounded w b E p e \<Longrightarrow> ctx_ok w c \<Longrightarrow> ng + n < 2 ^ 32 - 1 \<Longrightarrow>
   outcome w (\<lambda>_ t. m3_at w b E nf (ng + n) t) (free_ok w) (global_loop c n p e s)"
proof (induction n arbitrary: p s ng)
  case (Suc n)
  show ?case unfolding global_loop.simps
  proof (rule outcome_try_op, rule global_entry_ok [OF Suc.prems(1-3)])
    fix q t
    assume "m3_at w b E nf (Suc ng) t \<and> bounded w b E q e"
    then show "outcome w (\<lambda>_ t. m3_at w b E nf (ng + Suc n) t) (free_ok w) (global_loop c n q e t)"
      using Suc.IH [of "Suc ng" t q] Suc.prems by simp
  qed (use Suc.prems in auto)
qed (auto intro: outcome_ret)

lemma global_ok:
  assumes "m3_at w b E nf ng s" "bounded w b E p e" "ctx_ok w c" "ng \<le> 100000"
  shows "outcome w (\<lambda>_ t. m3_at w b E nf 1100000 t) (free_ok w) (ParseSection_Global c p e s)"
  unfolding ParseSection_Global_def
proof (intro outcome_try_read outcome_throwif m3_at_free [OF assms(1)])
  fix n q
  assume rd: "ReadLEB_u32 (bytes c) p e = (None, n, q)" and "\<not> n > d_m3MaxSaneGlobalsCount"
  then have n: "unat n \<le> 1000000" by (simp add: d_m3MaxSaneGlobalsCount_def word_less_nat_alt)
  from global_loop_ok [OF assms(1) ReadLEB_u32_step [OF assms(2) rd] assms(3), of "unat n"]
  show "outcome w (\<lambda>_ t. m3_at w b E nf 1100000 t) (free_ok w) (global_loop c (unat n) q e s)"
    by (rule outcome_weaken) (use n assms(4) in \<open>auto intro: m3_at_mono\<close>)
qed

text \<open>The code section: the body of function \<open>f\<close> of those that are not imported.\<close>

lemma code_entry_ok:
  assumes at: "m3_at w b E nf ng s" and sp: "bounded w b E p e" and f: "unat f < unat (numFunctions (mdl s) - numFuncImports (mdl s))"
  shows "outcome w (\<lambda>q t. m3_at w b E nf ng t \<and> numFunctions (mdl t) = numFunctions (mdl s) \<and>
    numFuncImports (mdl t) = numFuncImports (mdl s) \<and> bounded w b E q e) (free_ok w) (code_entry c f p e s)"
  unfolding code_entry_def Let_def
proof (intro outcome_try_read m3_at_free [OF at] outcome_If outcome_throw)
  fix sz q1
  assume rd: "ReadLEB_u32 (bytes c) p e = (None, sz, q1)"
  note sp1 = ReadLEB_u32_step [OF sp rd] and lt = leb_u32.progress [OF rd]
  show "outcome w (\<lambda>q t. m3_at w b E nf ng t \<and> numFunctions (mdl t) = numFunctions (mdl s) \<and>
    numFuncImports (mdl t) = numFuncImports (mdl s) \<and> bounded w b E q e) (free_ok w) (ret q1 s)"
    using at sp1 by (simp add: outcome_ret)
  let ?i = "f + numFuncImports (mdl s)" and ?q = "q1 + ucast sz"
  assume le: "?q \<le> e"
  have imp: "unat (numFuncImports (mdl s)) \<le> unat (numFunctions (mdl s))" using at by (simp add: m3_at_defs word_le_nat_alt)
  then have "unat (numFunctions (mdl s) - numFuncImports (mdl s)) = unat (numFunctions (mdl s)) - unat (numFuncImports (mdl s))"
    by (simp add: unat_sub word_le_nat_alt)
  then have sum: "unat f + unat (numFuncImports (mdl s)) < unat (numFunctions (mdl s))" using f imp by linarith
  then have "unat f + unat (numFuncImports (mdl s)) < 2 ^ LENGTH(32)"
    using unsigned_less [of "numFunctions (mdl s)", where ?'a = nat] by linarith
  then have "unat ?i = unat f + unat (numFuncImports (mdl s))" by (simp only: unat_word_ariths mod_less)
  then have i: "Module_GetFunction ?i s = Some (unat ?i)" "unat ?i < unat (numFunctions (mdl s))"
    using sum by (simp_all add: Module_GetFunction_def word_less_nat_alt)
  have q: "q1 \<le> ?q" if w using ucast_len [OF sp1 that, of sz] by (simp add: word_le_nat_alt)
  show "outcome w (\<lambda>q t. m3_at w b E nf ng t \<and> numFunctions (mdl t) = numFunctions (mdl s) \<and>
      numFuncImports (mdl t) = numFuncImports (mdl s) \<and> bounded w b E q e) (free_ok w)
      (case Module_GetFunction ?i s of None \<Rightarrow> None
       | Some i \<Rightarrow> try_op (upd_function i (\<lambda>g. g\<lparr>f_module := True, f_wasm := p, f_wasmEnd := ?q\<rparr>)) (\<lambda>_. ret ?q) s)"
    unfolding i(1) option.case
  proof (rule outcome_try_op, rule upd_function_ok [OF at i(2)])
    show "code_inside b E (g\<lparr>f_module := True, f_wasm := p, f_wasmEnd := ?q\<rparr>)" if w for g
      using sp q [OF that] lt le that by (auto simp: code_inside_def bounded_def)
  qed (use sp1 q le in \<open>auto simp: fn_ok_def names_ok_def intro!: outcome_ret intro: bounded_le\<close>)
qed

lemma code_loop_ok:
  "m3_at w b E nf ng s \<Longrightarrow> bounded w b E p e \<Longrightarrow> unat f + n \<le> unat (numFunctions (mdl s) - numFuncImports (mdl s)) \<Longrightarrow>
   outcome w (\<lambda>q t. m3_at w b E nf ng t) (free_ok w) (code_loop c f n p e s)"
proof (induction n arbitrary: p s f)
  case (Suc n)
  have f: "unat f < unat (numFunctions (mdl s) - numFuncImports (mdl s))" using Suc.prems(3) by simp
  then have f1: "unat (f + 1) = Suc (unat f)" by (intro unat_Suc_less) (simp add: word_less_nat_alt)
  show ?case unfolding code_loop.simps
  proof (rule outcome_try_op, rule code_entry_ok [OF Suc.prems(1,2) f])
    fix q t
    assume "m3_at w b E nf ng t \<and> numFunctions (mdl t) = numFunctions (mdl s) \<and>
      numFuncImports (mdl t) = numFuncImports (mdl s) \<and> bounded w b E q e"
    then show "outcome w (\<lambda>q t. m3_at w b E nf ng t) (free_ok w) (code_loop c (f + 1) n q e t)"
      using Suc.IH [of t q "f + 1"] Suc.prems(3) f1 by simp
  qed
qed (auto intro: outcome_ret)

lemma code_ok:
  assumes "m3_at w b E nf ng s" "bounded w b E p e"
  shows "outcome w (\<lambda>_ t. m3_at w b E nf ng t) (free_ok w) (ParseSection_Code c p e s)"
  unfolding ParseSection_Code_def
proof (intro outcome_try_read outcome_throwif m3_at_free [OF assms(1)])
  fix n q
  assume rd: "ReadLEB_u32 (bytes c) p e = (None, n, q)" and n: "\<not> n \<noteq> numFunctions (mdl s) - numFuncImports (mdl s)"
  show "outcome w (\<lambda>_ t. m3_at w b E nf ng t) (free_ok w)
      (try_op (code_loop c 0 (unat n) q e) (\<lambda>p. throwif m3Err_wasmSectionUnderrun (p \<noteq> e) (ret ())) s)"
    by (rule outcome_try_op, rule code_loop_ok [OF assms(1) ReadLEB_u32_step [OF assms(2) rd]])
       (use n in \<open>auto intro!: outcome_throwif outcome_ret m3_at_free\<close>)
qed

text \<open>The data section. A segment is checked after it has been written.\<close>

lemma data_bytes_ok:
  assumes at: "m3_at w b E nf ng s" and sp: "bounded w b E p e" and i: "i < unat (numDataSegments (mdl s))"
  shows "outcome w (\<lambda>q t. m3_at w b E nf ng t \<and> numDataSegments (mdl t) = numDataSegments (mdl s) \<and> bounded w b E q e) (free_ok w)
    (try_op (upd_segment i (\<lambda>d. d\<lparr>d_size := sz, d_data := p\<rparr>))
      (\<lambda>_. throwif (m3Err_message ''data segment underflow'') (p + ucast sz > e) (ret (p + ucast sz))) s)"
proof (cases "p + ucast sz > e")
  case True
  show ?thesis
    by (rule outcome_try_op, rule upd_segment_free [OF at i]) (use True in \<open>simp add: throwif_def\<close>)
next
  case False
  have "unat (p + ucast sz) = unat p + unat sz" if w by (rule ucast_len [OF sp that])
  then have q: "w \<Longrightarrow> p \<le> p + ucast sz" "w \<Longrightarrow> unat p + unat sz \<le> unat e"
    using False by (auto simp: word_le_nat_alt not_less)
  show ?thesis
  proof (rule outcome_try_op, rule upd_segment_ok [OF at i])
    show "data_inside b E (d\<lparr>d_size := sz, d_data := p\<rparr>)" if w for d
      using sp q(2) [OF that] that by (auto simp: data_inside_def bounded_def word_le_nat_alt)
  qed (use False sp q in \<open>auto simp: throwif_def not_less intro!: outcome_ret intro: bounded_le\<close>)
qed

lemma data_entry_ok:
  assumes at: "m3_at w b E nf ng s" and sp: "bounded w b E p e" and i: "i < unat (numDataSegments (mdl s))" and c: "ctx_ok w c"
  shows "outcome w (\<lambda>q t. m3_at w b E nf ng t \<and> numDataSegments (mdl t) = numDataSegments (mdl s) \<and> bounded w b E q e) (free_ok w)
    (data_entry c i p e s)"
  unfolding data_entry_def Let_def
proof (intro outcome_try_read m3_at_free [OF at], rule outcome_try_op, rule upd_segment_ok [OF at i])
  fix region q1
  assume "ReadLEB_u32 (bytes c) p e = (None, region, q1)"
  then have sp1: "bounded w b E q1 e" by (rule ReadLEB_u32_step [OF sp])
  show "data_inside b E (d\<lparr>d_memoryRegion := region, d_initExpr := q1\<rparr>)" if "data_inside b E d" for d
    using that by (simp add: data_inside_def)
  fix v t
  assume t: "m3_at w b E nf ng t \<and> numDataSegments (mdl t) = numDataSegments (mdl s)"
  have it: "m3_at w b E nf ng t" "i < unat (numDataSegments (mdl t))" using t i by auto
  show "outcome w (\<lambda>q t. m3_at w b E nf ng t \<and> numDataSegments (mdl t) = numDataSegments (mdl s) \<and> bounded w b E q e) (free_ok w)
      (try_read (Parse_InitExpr c (mdl t) q1 e) (\<lambda>_ q.
        try_op (upd_segment i (\<lambda>d. d\<lparr>d_initExprSize := ucast (q - q1)\<rparr>)) (\<lambda>_.
        throwif m3Err_wasmMissingInitExpr ((ucast (q - q1) :: u32) \<le> 1) (
        try_read (ReadLEB_u32 (bytes c) q e) (\<lambda>sz p.
        try_op (upd_segment i (\<lambda>d. d\<lparr>d_size := sz, d_data := p\<rparr>)) (\<lambda>_.
        throwif (m3Err_message ''data segment underflow'') (p + ucast sz > e) (ret (p + ucast sz))))))) t)"
  proof (intro outcome_try_read m3_at_free [OF it(1)], rule outcome_try_op, rule upd_segment_ok [OF it])
    fix u q2
    assume "Parse_InitExpr c (mdl t) q1 e = (None, u, q2)"
    then have sp2: "bounded w b E q2 e" by (rule InitExpr_step [OF sp1 c])
    show "data_inside b E (d\<lparr>d_initExprSize := ucast (q2 - q1)\<rparr>)" if "data_inside b E d" for d
      using that by (simp add: data_inside_def)
    fix v' x
    assume x: "m3_at w b E nf ng x \<and> numDataSegments (mdl x) = numDataSegments (mdl t)"
    show "outcome w (\<lambda>q t. m3_at w b E nf ng t \<and> numDataSegments (mdl t) = numDataSegments (mdl s) \<and> bounded w b E q e) (free_ok w)
      (throwif m3Err_wasmMissingInitExpr ((ucast (q2 - q1) :: u32) \<le> 1) (
        try_read (ReadLEB_u32 (bytes c) q2 e) (\<lambda>sz p.
        try_op (upd_segment i (\<lambda>d. d\<lparr>d_size := sz, d_data := p\<rparr>)) (\<lambda>_.
        throwif (m3Err_message ''data segment underflow'') (p + ucast sz > e) (ret (p + ucast sz))))) x)"
      by (intro outcome_throwif outcome_try_read m3_at_free [OF conjunct1 [OF x]], rule outcome_weaken,
          rule data_bytes_ok [OF conjunct1 [OF x] ReadLEB_u32_step [OF sp2]]) (use x t i in auto)
  qed
qed

lemma data_loop_ok:
  "m3_at w b E nf ng s \<Longrightarrow> bounded w b E p e \<Longrightarrow> ctx_ok w c \<Longrightarrow> i + n \<le> unat (numDataSegments (mdl s)) \<Longrightarrow>
   outcome w (\<lambda>_ t. m3_at w b E nf ng t) (free_ok w) (data_loop c i n p e s)"
proof (induction n arbitrary: p s i)
  case (Suc n)
  show ?case unfolding data_loop.simps
    by (rule outcome_try_op, rule data_entry_ok [OF Suc.prems(1,2) _ Suc.prems(3)]) (use Suc in auto)
qed (auto intro: outcome_ret)

lemma data_ok:
  assumes at: "m3_at w b E nf ng s" and sp: "bounded w b E p e" and c: "ctx_ok w c"
  shows "outcome w (\<lambda>_ t. m3_at w b E nf ng t) (free_ok w) (ParseSection_Data c p e s)"
  unfolding ParseSection_Data_def
proof (intro outcome_try_read outcome_throwif m3_at_free [OF at])
  fix n q
  assume rd: "ReadLEB_u32 (bytes c) p e = (None, n, q)"
  let ?s = "\<lambda>ds. upd_mod (\<lambda>md. md\<lparr>dataSegments := ds\<rparr>) (s\<lparr>tick := tick s + 1\<rparr>)"
  let ?t = "upd_mod (\<lambda>md. md\<lparr>numDataSegments := n\<rparr>) (?s (Some (replicate (unat n) zero_dataSegment)))"
  have free: "free_ok w (?s ds)" for ds
    using m3_at_free [OF at] by (auto simp: free_ok_def m3_FreeModule_def upd_mod_def split: if_splits)
  have "m3_at w b E nf ng ?t"
    using at unfolding m3_at_defs by (auto simp: data_inside_def zero_dataSegment_def intro: env_ok_later)
  from data_loop_ok [OF this ReadLEB_u32_step [OF sp rd] c, of 0 "unat n"]
  have "outcome w (\<lambda>_ t. m3_at w b E nf ng t) (free_ok w) (data_loop c 0 (unat n) q e ?t)" by simp
  then show "outcome w (\<lambda>_ t. m3_at w b E nf ng t) (free_ok w)
      (let (ok, s) = m3_Malloc (heap c) (unat n) s;
           s = upd_mod (\<lambda>md. md\<lparr>dataSegments := if ok then Some (replicate (unat n) zero_dataSegment) else None\<rparr>) s
       in throwif m3Err_mallocFailed (\<not> ok) (modify (upd_mod (\<lambda>md. md\<lparr>numDataSegments := n\<rparr>)) (data_loop c 0 (unat n) q e)) s)"
    using free by (simp add: m3_Malloc_def throwif_def modify_def)
qed

text \<open>The name section.\<close>

lemma name_entry_ok:
  assumes at: "m3_at w b E nf ng s" and sp: "bounded w b E p e" and c: "ctx_ok w c"
  shows "outcome w (\<lambda>q t. m3_at w b E nf ng t \<and> bounded w b E q e) (free_ok w) (name_entry c p e s)"
  unfolding name_entry_def
proof (intro outcome_try_read m3_at_free [OF at], rule outcome_try_pair, rule utf8_ok [OF at ReadLEB_u32_step [OF sp] c], assumption, unfold case_prod_conv)
  fix i q1 q and n :: "cstr option" and t :: "'a word m3_state"
  assume t: "m3_at w b E nf ng t \<and> bounded w b E q e \<and> (w \<longrightarrow> q1 < q \<and> n \<noteq> None)"
  let ?f = "\<lambda>f :: 'a word m3_function. if numNames f = 0 then f\<lparr>f_names := (f_names f)[0 := n], numNames := 1\<rparr> else f"
  have "outcome w (\<lambda>q t. m3_at w b E nf ng t \<and> bounded w b E q e) (free_ok w) (try_op (upd_function (unat i) ?f) (\<lambda>_. ret q) t)"
    if "i < numFunctions (mdl t)"
    by (rule outcome_try_op, rule upd_function_ok [OF conjunct1 [OF t]])
       (use that t in \<open>auto simp: word_less_nat_alt fn_ok_def names_ok_def code_inside_def d_m3MaxDuplicateFunctionImpl_def intro!: outcome_ret\<close>)
  then show "outcome w (\<lambda>q t. m3_at w b E nf ng t \<and> bounded w b E q e) (free_ok w)
      (if i < numFunctions (mdl t) then try_op (upd_function (unat i) ?f) (\<lambda>_. ret q) t else ret q t)"
    using t by (auto intro: outcome_ret)
qed

lemma name_entries_ok:
  "m3_at w b E nf ng s \<Longrightarrow> bounded w b E p e \<Longrightarrow> ctx_ok w c \<Longrightarrow>
   outcome w (\<lambda>_ t. m3_at w b E nf ng t) (free_ok w) (name_entries c n p e s)"
proof (induction n arbitrary: p s)
  case (Suc n)
  show ?case unfolding name_entries.simps
    by (rule outcome_try_op, rule name_entry_ok [OF Suc.prems]) (use Suc in auto)
qed (auto intro: outcome_ret)

lemma name_step_ok:
  assumes at: "m3_at w b E nf ng s" and sp: "bounded w b E p e" and c: "ctx_ok w c"
  shows "outcome w (\<lambda>q t. m3_at w b E nf ng t \<and> (w \<longrightarrow> b \<le> q \<and> p < q)) (free_ok w) (name_step c p e s)"
  unfolding name_step_def
proof (intro outcome_try_read outcome_If_op outcome_throwif m3_at_free [OF at])
  fix ty q1 len q2
  assume rd: "ReadLEB_u7 (bytes c) p e = (None, ty, q1)" "ReadLEB_u32 (bytes c) q1 e = (None, len, q2)"
  have sp2: "bounded w b E q2 e" by (rule ReadLEB_u32_step [OF ReadLEB_u7_step [OF sp rd(1)] rd(2)])
  have "p < q2" using leb_u7.progress [OF rd(1)] leb_u32.progress [OF rd(2)] by auto
  then have step: "b \<le> q2 + ucast len \<and> p < q2 + ucast len" if w
    using ucast_len [OF sp2 that, of len] sp2 that by (auto simp: bounded_def word_le_nat_alt word_less_nat_alt)
  then have fin: "outcome w (\<lambda>q t. m3_at w b E nf ng t \<and> (w \<longrightarrow> b \<le> q \<and> p < q)) (free_ok w) (ret (q2 + ucast len) t)"
    if "m3_at w b E nf ng t" for t
    using that by (simp add: outcome_ret)
  show "outcome w (\<lambda>q t. m3_at w b E nf ng t \<and> (w \<longrightarrow> b \<le> q \<and> p < q)) (free_ok w) (ret (q2 + ucast len) s)"
    by (rule fin [OF at])
  fix n q3
  assume rd3: "ReadLEB_u32 (bytes c) q2 e = (None, n, q3)"
  show "outcome w (\<lambda>q t. m3_at w b E nf ng t \<and> (w \<longrightarrow> b \<le> q \<and> p < q)) (free_ok w)
      (try_op (name_entries c (unat n) q3 e) (\<lambda>_. ret (q2 + ucast len)) s)"
    by (rule outcome_try_op, rule name_entries_ok [OF at ReadLEB_u32_step [OF sp2 rd3] c]) (rule fin)
qed

lemma name_loop_partial:
  assumes "name_loop c r p e s = Some (Inr u, t)" "m3_at False b E nf ng s" "ctx_ok False c"
  shows "m3_at False b E nf ng t"
proof -
  have "\<forall>u t. y = (Inr u, t) \<longrightarrow> m3_at False b E nf ng s \<longrightarrow> ctx_ok False c \<longrightarrow> m3_at False b E nf ng t"
    if "name_loop c r p e s = Some y" for y
  proof (rule name_loop.raw_induct [of "\<lambda>c r p e s y. \<forall>u t. y = (Inr u, t) \<longrightarrow> m3_at False b E nf ng s \<longrightarrow> ctx_ok False c \<longrightarrow> m3_at False b E nf ng t", OF _ that])
    fix loop :: "'a word m3_ctx \<Rightarrow> m3_error option \<Rightarrow> 'a word \<Rightarrow> 'a word \<Rightarrow> 'a word m3_state \<Rightarrow> ((m3_error + unit) \<times> 'a word m3_state) option"
      and c r p e s y
    assume IH: "\<And>c r p e s y. loop c r p e s = Some y \<Longrightarrow>
        \<forall>u t. y = (Inr u, t) \<longrightarrow> m3_at False b E nf ng s \<longrightarrow> ctx_ok False c \<longrightarrow> m3_at False b E nf ng t"
      and body: "(if p < e
        then case name_step c p e s of None \<Rightarrow> None
             | Some x \<Rightarrow> (case fst x of Inl r \<Rightarrow> Some (Inl r, snd x) | Inr q \<Rightarrow> loop c None q e (snd x))
        else Some (case r of None \<Rightarrow> Inr () | Some r \<Rightarrow> Inl r, s)) = Some y"
    show "\<forall>u t. y = (Inr u, t) \<longrightarrow> m3_at False b E nf ng s \<longrightarrow> ctx_ok False c \<longrightarrow> m3_at False b E nf ng t"
    proof (intro allI impI)
      fix u t
      assume y: "y = (Inr u, t)" and at: "m3_at False b E nf ng s" and c: "ctx_ok False c"
      show "m3_at False b E nf ng t"
      proof (cases "p < e")
        case True
        obtain q x where st: "name_step c p e s = Some (Inr q, x)" and lp: "loop c None q e x = Some y"
          using body y True by (auto split: option.splits sum.splits)
        have "bounded False b E p e" by (simp add: bounded_def)
        from name_step_ok [OF at this c] have "m3_at False b E nf ng x" by (simp add: st)
        then show ?thesis using IH [OF lp] y c by blast
      qed (use body y at in \<open>auto split: option.splits\<close>)
    qed
  qed
  then show ?thesis using assms by blast
qed

lemma name_loop_total:
  assumes "m3_at True b E nf ng s" "bounded True b E p e \<or> \<not> p < e" "ctx_ok True c" "b \<le> e" "e \<le> E" "unat E + 2 ^ 32 \<le> 2 ^ LENGTH('p)"
  shows "outcome True (\<lambda>_ t. m3_at True b E nf ng t) (free_ok True) (name_loop c r (p :: 'p::len word) e s)"
  using assms
proof (induction "unat e - unat p" arbitrary: p r s rule: less_induct)
  case less
  show ?case
  proof (cases "p < e")
    case True
    then have sp: "bounded True b E p e" using less.prems(2) by simp
    have "outcome True (\<lambda>q t. m3_at True b E nf ng t \<and> (True \<longrightarrow> b \<le> q \<and> p < q)) (free_ok True) (name_step c p e s)"
      by (rule name_step_ok [OF less.prems(1) sp less.prems(3)])
    then show ?thesis
    proof (cases "name_step c p e s" rule: option.exhaust)
      case (Some x)
      show ?thesis
      proof (cases "fst x")
        case (Inr q)
        then have x: "x = (Inr q, snd x)" by (cases x) simp
        have q: "m3_at True b E nf ng (snd x)" "b \<le> q" "p < q"
          using name_step_ok [OF less.prems(1) sp less.prems(3)] Some x by (metis outcome.simps(3))+
        have "bounded True b E q e \<or> \<not> q < e" using q less.prems(5,6) by (auto simp: bounded_def)
        moreover have "unat e - unat q < unat e - unat p" using q(3) True by (auto simp: word_less_nat_alt)
        ultimately have "outcome True (\<lambda>_ t. m3_at True b E nf ng t) (free_ok True) (name_loop c None q e (snd x))"
          using less.hyps q(1) less.prems by blast
        then show ?thesis using True Some Inr by (subst name_loop.simps) simp
      next
        case (Inl r')
        then have "x = (Inl r', snd x)" by (cases x) simp
        then have "free_ok True (snd x)"
          using name_step_ok [OF less.prems(1) sp less.prems(3)] Some by (metis outcome.simps(2))
        then show ?thesis using True Some Inl by (subst name_loop.simps) simp
      qed
    qed simp
  next
    case False
    then show ?thesis using less.prems(1) m3_at_free [OF less.prems(1)]
      by (subst name_loop.simps) (simp split: option.split)
  qed
qed

lemma name_ok:
  assumes at: "m3_at w b E nf ng s" and sp: "bounded w b E p e" and c: "ctx_ok w c"
  shows "outcome w (\<lambda>_ t. m3_at w b E nf ng t) (free_ok w) (ParseSection_Name c p e s)"
proof (cases w)
  case True
  then show ?thesis using name_loop_total [of b E nf ng s p e c "garbage c"] assms
    by (auto simp: ParseSection_Name_def bounded_def)
next
  case False
  show ?thesis
  proof (cases "ParseSection_Name c p e s")
    case (Some y)
    obtain z t where y: "y = (z, t)" by (cases y)
    show ?thesis
    proof (cases z)
      case (Inr u)
      then show ?thesis using name_loop_partial [of c "garbage c" p e s u t b E nf ng] assms Some y False
        by (simp add: ParseSection_Name_def)
    qed (use Some y False in \<open>simp add: free_ok_def\<close>)
  qed (use False in simp)
qed

lemma custom_ok:
  assumes at: "m3_at w b E nf ng s" and sp: "bounded w b E p e" and c: "ctx_ok w c"
  shows "outcome w (\<lambda>_ t. m3_at w b E nf ng t) (free_ok w) (ParseSection_Custom c p e s)"
  unfolding ParseSection_Custom_def
proof (rule outcome_try_pair, rule utf8_ok [OF assms], unfold case_prod_conv)
  fix n :: "cstr option" and q t
  assume t: "m3_at w b E nf ng t \<and> bounded w b E q e \<and> (w \<longrightarrow> p < q \<and> n \<noteq> None)"
  then have "outcome w (\<lambda>_ t. m3_at w b E nf ng t) (free_ok w) (ParseSection_Name c q e t)" by (intro name_ok c) auto
  then show "outcome w (\<lambda>_ t. m3_at w b E nf ng t) (free_ok w)
      (case n of None \<Rightarrow> None
       | Some n \<Rightarrow> if takeWhile (\<lambda>b. b \<noteq> 0) n = text_bytes ''name'' then ParseSection_Name c q e t
           else (case customSectionHandler c of None \<Rightarrow> ret () t | Some h \<Rightarrow> h n q e t))"
    using t c by (auto simp: ctx_ok_def split: option.split intro!: outcome_ret)
qed

text \<open>The type section: while its table is being filled, the module without the table is well-formed.\<close>

definition no_types :: "'p::len word m3_state \<Rightarrow> 'p word m3_state" where
  "no_types = upd_mod (\<lambda>md. md\<lparr>funcTypes := None, numFuncTypes := 0\<rparr>)"

definition filling :: "bool \<Rightarrow> 'p::len word \<Rightarrow> 'p word \<Rightarrow> nat \<Rightarrow> nat \<Rightarrow> nat \<Rightarrow> nat \<Rightarrow> 'p word m3_state \<Rightarrow> bool" where
  "filling w b E nf ng n i s \<longleftrightarrow>
     m3_at w b E nf ng (no_types s) \<and> unat (numFuncTypes (mdl s)) = n \<and>
     length (elems (funcTypes (mdl s))) = n \<and> set (take i (elems (funcTypes (mdl s)))) \<subseteq> types_of (env s)"

lemma no_types_same [simp]: "no_types (upd_mod (\<lambda>md. md\<lparr>funcTypes := x\<rparr>) s) = no_types s"
  "no_types (upd_mod (\<lambda>md. md\<lparr>numFuncTypes := y\<rparr>) s) = no_types s"
  "no_types (s\<lparr>tick := k\<rparr>) = (no_types s)\<lparr>tick := k\<rparr>" "env (no_types s) = env s" "tick (no_types s) = tick s"
  by (simp_all add: no_types_def upd_mod_def)

lemma m3_at_env:
  assumes "m3_at w b E nf ng s" "env_ok en k" "types_of (env s) \<subseteq> types_of en"
  shows "m3_at w b E nf ng (s\<lparr>env := en, tick := k\<rparr>)"
proof -
  have "fn_ok (env s) f \<Longrightarrow> fn_ok en f" for f :: "'a word m3_function" using assms(3) by (auto simp: fn_ok_def)
  then show ?thesis using assms unfolding m3_at_defs by auto
qed

lemma enter_type_ok:
  assumes fl: "filling w b E nf ng n i s" and i: "i < n"
    and add: "Environment_AddFuncType (env s) (ptr, t) = (q, en)" and ptr: "ptr = tick s" "\<forall>k \<in> types_of (env s). k < ptr" "0 < ptr"
  shows "\<exists>fts. upd_elem (funcTypes (mdl s)) i (\<lambda>_. q) = Some fts \<and>
    filling w b E nf ng n (Suc i) (upd_mod (\<lambda>md. md\<lparr>funcTypes := Some fts\<rparr>) (s\<lparr>env := en\<rparr>))"
proof -
  let ?fts = "elems (funcTypes (mdl s))"
  have len: "i < length ?fts" using fl i by (simp add: filling_def)
  have "env_ok (env s) (tick s)" using fl by (simp add: filling_def m3_at_defs no_types_def)
  then have "env_ok (env s) (ptr - 1)" using ptr by (fastforce simp: env_ok_def)
  then have en: "env_ok en ptr" "types_of (env s) \<subseteq> types_of en" "q \<in> types_of en"
    using AddFuncType_ok [OF _ _ add] ptr(3) by auto
  have "no_types (s\<lparr>env := en\<rparr>) = (no_types s)\<lparr>env := en, tick := tick s\<rparr>" by (simp add: no_types_def upd_mod_def)
  then have "m3_at w b E nf ng (no_types (s\<lparr>env := en\<rparr>))"
    using m3_at_env [of w b E nf ng "no_types s" en "tick s"] fl en ptr(1) by (simp add: filling_def)
  moreover have "set (take (Suc i) (?fts[i := q])) \<subseteq> types_of en"
    using fl en len by (auto simp: filling_def take_Suc_conv_app_nth)
  ultimately show ?thesis using fl by (auto simp: filling_def upd_elem_Some [OF len])
qed

lemma type_entry_ok:
  assumes fl: "filling w b E nf ng n i s" and i: "i < n" and c: "ctx_ok w c"
  shows "outcome w (\<lambda>q t. filling w b E nf ng n (Suc i) t) (\<lambda>t. m3_at w b E nf ng (no_types t)) (type_entry c i p e s)"
proof -
  have at: "m3_at w b E nf ng (no_types s)" using fl by (simp add: filling_def)
  let ?s = "s\<lparr>tick := tick s + 1\<rparr>"
  have fl1: "filling w b E nf ng n i ?s"
    using fl m3_at_tick [OF at, of "tick s + 1"] by (simp add: filling_def)
  then have at1: "m3_at w b E nf ng (no_types ?s)" by (simp add: filling_def)
  have fresh: "\<forall>k \<in> types_of (env ?s). k < Suc (tick s)"
    using at by (auto simp: m3_at_defs env_ok_def no_types_def less_Suc_eq_le)
  have enter: "outcome w (\<lambda>q t. filling w b E nf ng n (Suc i) t) (\<lambda>t. m3_at w b E nf ng (no_types t))
      (let (q, en) = Environment_AddFuncType (env ?s) (Suc (tick s), ft); t = ?s\<lparr>env := en\<rparr>
       in case upd_elem (funcTypes (mdl t)) i (\<lambda>_. q) of None \<Rightarrow> None
          | Some fts \<Rightarrow> ret r (upd_mod (\<lambda>md. md\<lparr>funcTypes := Some fts\<rparr>) t))" for ft and r :: "'a word"
  proof -
    obtain q en where add: "Environment_AddFuncType (env ?s) (Suc (tick s), ft) = (q, en)"
      by (cases "Environment_AddFuncType (env ?s) (Suc (tick s), ft)")
    from enter_type_ok [OF fl1 i add _ fresh] show ?thesis using add by (auto simp: ret_def)
  qed
  have alloc: "AllocFuncType (heap c) k s = (if heap c (tick s) then Some (Inr (Suc (tick s), \<lparr>numRets = 0, numArgs = 0, ft_types = replicate (unat k) 0\<rparr>), ?s)
      else Some (Inl m3Err_mallocFailed, ?s))" for k
    by (simp add: AllocFuncType_def m3_Malloc_def)
  show ?thesis
    unfolding type_entry_def
  proof (intro outcome_try_read outcome_throwif at)
    fix form q1 na q2 ats q3 nr q4
    show "outcome w (\<lambda>q t. filling w b E nf ng n (Suc i) t) (\<lambda>t. m3_at w b E nf ng (no_types t))
      (try_op (AllocFuncType (heap c) (nr + na)) (\<lambda>(ptr, ftype).
        try_read (read_many read_value_type (unat nr) (bytes c) q4 e) (\<lambda>retTypes p s.
          let ftype = ftype\<lparr>numArgs := ucast na, numRets := ucast nr, ft_types := retTypes @ ats\<rparr>;
              (ptr, en) = Environment_AddFuncType (env s) (ptr, ftype);
              s = s\<lparr>env := en\<rparr>
          in case upd_elem (funcTypes (mdl s)) i (\<lambda>_. ptr) of None \<Rightarrow> None
             | Some fts \<Rightarrow> ret p (upd_mod (\<lambda>md. md\<lparr>funcTypes := Some fts\<rparr>) s))) s)"
    proof (cases "heap c (tick s)")
      case True
      then show ?thesis unfolding try_op_def alloc
        using enter at1 by (auto intro!: outcome_try_read)
    next
      case False
      then show ?thesis using at1 unfolding try_op_def alloc by simp
    qed
  qed
qed

lemma type_loop_ok:
  "filling w b E nf ng n i s \<Longrightarrow> i + k = n \<Longrightarrow> ctx_ok w c \<Longrightarrow>
   outcome w (\<lambda>_ t. filling w b E nf ng n n t) (\<lambda>t. m3_at w b E nf ng (no_types t)) (type_loop c i k p e s)"
proof (induction k arbitrary: p s i)
  case (Suc k)
  show ?case unfolding type_loop.simps
    by (rule outcome_try_op, rule type_entry_ok [OF Suc.prems(1) _ Suc.prems(3)]) (use Suc in auto)
qed (auto intro: outcome_ret)

lemma filling_full: "filling w b E nf ng n n s \<Longrightarrow> m3_at w b E nf ng s"
  unfolding filling_def m3_at_defs no_types_def by auto

lemma type_section_ok:
  assumes at: "m3_at w b E nf ng s" and c: "ctx_ok w c"
  shows "outcome w (\<lambda>_ t. m3_at w b E nf ng t) (\<lambda>t. m3_at w b E nf ng (no_types t)) (type_section c p e s)"
proof -
  have at0: "m3_at w b E nf ng (no_types s)" using at unfolding m3_at_defs no_types_def by auto
  have at1: "m3_at w b E nf ng (no_types (s\<lparr>tick := Suc (tick s)\<rparr>))"
    using m3_at_tick [OF at0, of "Suc (tick s)"] by simp
  have "filling w b E nf ng (unat n) 0
      (upd_mod (\<lambda>md. md\<lparr>numFuncTypes := n\<rparr>) (upd_mod (\<lambda>md. md\<lparr>funcTypes := Some (replicate (unat n) 0)\<rparr>) (s\<lparr>tick := Suc (tick s)\<rparr>)))" for n
    using at1 by (simp add: filling_def)
  from type_loop_ok [OF this _ c]
  have loop: "outcome w (\<lambda>_ t. m3_at w b E nf ng t) (\<lambda>t. m3_at w b E nf ng (no_types t)) (type_loop c 0 (unat n) q e
      (upd_mod (\<lambda>md. md\<lparr>numFuncTypes := n\<rparr>) (upd_mod (\<lambda>md. md\<lparr>funcTypes := Some (replicate (unat n) 0)\<rparr>) (s\<lparr>tick := Suc (tick s)\<rparr>))))" for n q
    by (rule outcome_weaken) (auto intro: filling_full)
  show ?thesis unfolding type_section_def
    by (intro outcome_try_read outcome_throwif at0)
       (use at at1 loop in \<open>auto simp: m3_Malloc_def throwif_def modify_def intro!: outcome_ret\<close>)
qed

lemma type_ok:
  assumes at: "m3_at w b E nf ng s" and c: "ctx_ok w c"
  shows "outcome w (\<lambda>_ t. m3_at w b E nf ng t) (free_ok w) (ParseSection_Type c p e s)"
  using type_section_ok [OF assms, of p e]
  by (auto simp: ParseSection_Type_def no_types_def split: option.splits prod.splits sum.splits intro: m3_at_free)

section \<open>What an accepted module satisfies\<close>

text \<open>How many functions and globals there can be, by how far the order of sections has come.\<close>

definition max_funcs :: "nat \<Rightarrow> nat" where
  "max_funcs ex = (if ex \<le> 1 then 0 else if ex \<le> 2 then 100000 else 1100000)"

definition max_globals :: "nat \<Rightarrow> nat" where
  "max_globals ex = (if ex \<le> 1 then 0 else if ex \<le> 5 then 100000 else 1100000)"

lemma match_section_sound:
  "match_section ex sect = Some (Inr ex') \<Longrightarrow> ex < ex' \<and> ex' \<le> length sectionsOrder \<and> sectionsOrder ! (ex' - 1) = sect"
proof (induction ex sect rule: match_section.induct)
  case (1 ex sect)
  show ?case
  proof (cases "ex < length sectionsOrder \<and> sectionsOrder ! ex \<noteq> sect \<and> \<not> ex + 1 \<ge> 12")
    case True
    then show ?thesis using 1 by (subst (asm) match_section.simps) (auto split: if_splits)
  next
    case False
    then show ?thesis using "1.prems" by (subst (asm) match_section.simps) (auto split: if_splits)
  qed
qed

lemma match_section_defined: "ex \<le> 12 \<Longrightarrow> match_section ex sect \<noteq> None"
proof (induction ex sect rule: match_section.induct)
  case (1 ex sect)
  then show ?case by (subst match_section.simps) (auto simp: sectionsOrder_def)
qed

lemma match_section_le: "match_section ex sect = Some (Inr ex') \<Longrightarrow> sect \<noteq> 0 \<Longrightarrow> ex' \<le> 12"
  using match_section_sound [of ex sect ex'] by (cases "ex' = 13") (auto simp: sectionsOrder_def)

text \<open>The number of a section decides where in the order it stands.\<close>

lemma section_position:
  assumes "match_section ex sect = Some (Inr ex')" "sect \<noteq> 0"
  shows "sect = 2 \<Longrightarrow> ex' = 2" "sect = 3 \<Longrightarrow> ex' = 3" "sect = 6 \<Longrightarrow> ex' = 6"
proof -
  have ex: "0 < ex'" "ex' \<le> 12" "sectionsOrder ! (ex' - 1) = sect"
    using match_section_sound [OF assms(1)] match_section_le [OF assms] by auto
  have "\<forall>k \<in> set [0..<12]. (sectionsOrder ! k = 2 \<longrightarrow> k = 1) \<and> (sectionsOrder ! k = 3 \<longrightarrow> k = 2) \<and> (sectionsOrder ! k = 6 \<longrightarrow> k = 5)"
    by code_simp
  moreover have "ex' - 1 \<in> set [0..<12]" using ex by auto
  ultimately show "sect = 2 \<Longrightarrow> ex' = 2" "sect = 3 \<Longrightarrow> ex' = 3" "sect = 6 \<Longrightarrow> ex' = 6"
    using ex by fastforce+
qed

lemma max_mono: "ex \<le> ex' \<Longrightarrow> max_funcs ex \<le> max_funcs ex'" "ex \<le> ex' \<Longrightarrow> max_globals ex \<le> max_globals ex'"
  by (auto simp: max_funcs_def max_globals_def)

lemma ParseModuleSection_ok:
  assumes at: "m3_at w b E (max_funcs ex) (max_globals ex) s" and sp: "bounded w b E p (p + ucast n)" and c: "ctx_ok w c"
    and ex: "sect = 0 \<and> ex' = ex \<or> sect \<noteq> 0 \<and> match_section ex sect = Some (Inr ex')"
  shows "outcome w (\<lambda>_ t. m3_at w b E (max_funcs ex') (max_globals ex') t) (free_ok w) (ParseModuleSection c sect p n s)"
proof -
  have le: "ex \<le> ex'" using ex match_section_sound [of ex sect ex'] by auto
  have at': "m3_at w b E (max_funcs ex') (max_globals ex') s" by (rule m3_at_mono [OF at max_mono [OF le]])
  note same = custom_ok [OF at' sp c] type_ok [OF at' c] memory_ok [OF at'] export_ok [OF at' sp c] start_ok [OF at']
    element_ok [OF at' sp] code_ok [OF at' sp] data_ok [OF at' sp c]
  have pos: "sect = 2 \<Longrightarrow> ex' = 2 \<and> ex < 2" "sect = 3 \<Longrightarrow> ex' = 3 \<and> ex < 3" "sect = 6 \<Longrightarrow> ex' = 6 \<and> ex < 6"
    using ex section_position [of ex sect ex'] match_section_sound [of ex sect ex'] by auto
  have imp: "outcome w (\<lambda>_ t. m3_at w b E (max_funcs ex') (max_globals ex') t) (free_ok w) (ParseSection_Import c p (p + ucast n) s)" if "sect = 2"
    using import_ok [of w b E s p "p + ucast n" c] at sp c pos(1) [OF that] by (auto simp: max_funcs_def max_globals_def)
  have fn: "outcome w (\<lambda>_ t. m3_at w b E (max_funcs ex') (max_globals ex') t) (free_ok w) (ParseSection_Function c p (p + ucast n) s)" if "sect = 3"
    by (rule outcome_weaken [OF function_ok [OF at c]]) (use pos(2) [OF that] max_mono(2) [OF le] in \<open>auto simp: max_funcs_def intro: m3_at_mono\<close>)
  have gl: "outcome w (\<lambda>_ t. m3_at w b E (max_funcs ex') (max_globals ex') t) (free_ok w) (ParseSection_Global c p (p + ucast n) s)" if "sect = 6"
    by (rule outcome_weaken [OF global_ok [OF at sp c]]) (use pos(3) [OF that] max_mono(1) [OF le] in \<open>auto simp: max_globals_def intro: m3_at_mono\<close>)
  show ?thesis
    using same imp fn gl at' by (auto simp: ParseModuleSection_def s_parsers_def intro!: outcome_ret)
qed

lemma section_step_ok:
  assumes at: "m3_at w b E (max_funcs ex) (max_globals ex) s" and sp: "bounded w b E p E" and c: "ctx_ok w c" and ex: "ex \<le> 12"
  shows "outcome w (\<lambda>y t. m3_at w b E (max_funcs (fst y)) (max_globals (fst y)) t \<and> fst y \<le> 12 \<and>
    bounded w b E (snd y) E \<and> (w \<longrightarrow> p < snd y)) (free_ok w) (section_step c ex p E s)"
  unfolding section_step_def
proof (intro outcome_try_read m3_at_free [OF at])
  fix sect q1
  assume rd1: "ReadLEB_u7 (bytes c) p E = (None, sect, q1)"
  let ?x = "if sect \<noteq> 0 then match_section ex sect else Some (Inr ex)"
  have sp1: "bounded w b E q1 E" by (rule ReadLEB_u7_step [OF sp rd1])
  have body: "outcome w (\<lambda>y t. m3_at w b E (max_funcs (fst y)) (max_globals (fst y)) t \<and> fst y \<le> 12 \<and>
      bounded w b E (snd y) E \<and> (w \<longrightarrow> p < snd y)) (free_ok w)
      (try_read (ReadLEB_u32 (bytes c) q1 E) (\<lambda>len q2. throwif m3Err_wasmMalformed (q2 + ucast len > E) (
         try_op (ParseModuleSection c sect q2 len) (\<lambda>_. ret (ex', q2 + ucast len)))) s)" if x: "?x = Some (Inr ex')" for ex'
  proof (intro outcome_try_read outcome_throwif m3_at_free [OF at])
    fix len q2
    assume rd2: "ReadLEB_u32 (bytes c) q1 E = (None, len, q2)" and le: "\<not> q2 + ucast len > E"
    have sp2: "bounded w b E q2 E" by (rule ReadLEB_u32_step [OF sp1 rd2])
    have lt: "p < q2" using leb_u7.progress [OF rd1] leb_u32.progress [OF rd2] by auto
    have q: "q2 \<le> q2 + ucast len" if w using ucast_len [OF sp2 that, of len] by (simp add: word_le_nat_alt)
    have sec: "bounded w b E q2 (q2 + ucast len)" using sp2 q le by (auto simp: bounded_def)
    have step: "sect = 0 \<and> ex' = ex \<or> sect \<noteq> 0 \<and> match_section ex sect = Some (Inr ex')" using x by (auto split: if_splits)
    have "ex' \<le> 12" using step ex match_section_le [of ex sect ex'] by auto
    moreover have "bounded w b E (q2 + ucast len) E" "w \<longrightarrow> p < q2 + ucast len" using sp2 q le lt by (auto simp: bounded_def)
    ultimately show "outcome w (\<lambda>y t. m3_at w b E (max_funcs (fst y)) (max_globals (fst y)) t \<and> fst y \<le> 12 \<and>
        bounded w b E (snd y) E \<and> (w \<longrightarrow> p < snd y)) (free_ok w)
        (try_op (ParseModuleSection c sect q2 len) (\<lambda>_. ret (ex', q2 + ucast len)) s)"
      by - (rule outcome_try_op, rule ParseModuleSection_ok [OF at sec c step], simp add: outcome_ret)
  qed
  have "?x \<noteq> None" using match_section_defined [OF ex, of sect] by simp
  then show "outcome w (\<lambda>y t. m3_at w b E (max_funcs (fst y)) (max_globals (fst y)) t \<and> fst y \<le> 12 \<and>
      bounded w b E (snd y) E \<and> (w \<longrightarrow> p < snd y)) (free_ok w)
      (case ?x of None \<Rightarrow> None | Some (Inl r) \<Rightarrow> throw r s
       | Some (Inr ex') \<Rightarrow> try_read (ReadLEB_u32 (bytes c) q1 E) (\<lambda>len q2. throwif m3Err_wasmMalformed (q2 + ucast len > E) (
         try_op (ParseModuleSection c sect q2 len) (\<lambda>_. ret (ex', q2 + ucast len)))) s)"
    using body m3_at_free [OF at] by (auto split: option.split sum.split intro: outcome_throw)
qed

lemma section_loop_partial:
  assumes "section_loop c ex p e s = Some (Inr u, t)" "m3_at False b e (max_funcs ex) (max_globals ex) s" "ctx_ok False c" "ex \<le> 12"
  shows "\<exists>nf ng. m3_at False b e nf ng t"
proof -
  have "\<forall>u t. y = (Inr u, t) \<longrightarrow> m3_at False b e (max_funcs ex) (max_globals ex) s \<longrightarrow> ctx_ok False c \<longrightarrow> ex \<le> 12 \<longrightarrow> (\<exists>nf ng. m3_at False b e nf ng t)"
    if "section_loop c ex p e s = Some y" for y
  proof (rule section_loop.raw_induct [of "\<lambda>c ex p e s y. \<forall>u t. y = (Inr u, t) \<longrightarrow> m3_at False b e (max_funcs ex) (max_globals ex) s \<longrightarrow>
      ctx_ok False c \<longrightarrow> ex \<le> 12 \<longrightarrow> (\<exists>nf ng. m3_at False b e nf ng t)", OF _ that])
    fix loop :: "'a word m3_ctx \<Rightarrow> nat \<Rightarrow> 'a word \<Rightarrow> 'a word \<Rightarrow> 'a word m3_state \<Rightarrow> ((m3_error + unit) \<times> 'a word m3_state) option"
      and c ex p e s y
    assume IH: "\<And>c ex p e s y. loop c ex p e s = Some y \<Longrightarrow> \<forall>u t. y = (Inr u, t) \<longrightarrow>
        m3_at False b e (max_funcs ex) (max_globals ex) s \<longrightarrow> ctx_ok False c \<longrightarrow> ex \<le> 12 \<longrightarrow> (\<exists>nf ng. m3_at False b e nf ng t)"
      and body: "(if p < e
        then case section_step c ex p e s of None \<Rightarrow> None
             | Some x \<Rightarrow> (case fst x of Inl r \<Rightarrow> Some (Inl r, snd x) | Inr y \<Rightarrow> loop c (fst y) (snd y) e (snd x))
        else Some (Inr (), s)) = Some y"
    show "\<forall>u t. y = (Inr u, t) \<longrightarrow> m3_at False b e (max_funcs ex) (max_globals ex) s \<longrightarrow> ctx_ok False c \<longrightarrow> ex \<le> 12 \<longrightarrow> (\<exists>nf ng. m3_at False b e nf ng t)"
    proof (intro allI impI)
      fix u t
      assume y: "y = (Inr u, t)" and at: "m3_at False b e (max_funcs ex) (max_globals ex) s" and c: "ctx_ok False c" and ex: "ex \<le> 12"
      show "\<exists>nf ng. m3_at False b e nf ng t"
      proof (cases "p < e")
        case True
        obtain z x where st: "section_step c ex p e s = Some (Inr z, x)" and lp: "loop c (fst z) (snd z) e x = Some y"
          using body y True by (auto split: option.splits sum.splits)
        have "bounded False b e p e" by (simp add: bounded_def)
        from section_step_ok [OF at this c ex]
        have "m3_at False b e (max_funcs (fst z)) (max_globals (fst z)) x" "fst z \<le> 12" by (simp_all add: st)
        then show ?thesis using IH [OF lp] y c by blast
      qed (use body y at in auto)
    qed
  qed
  then show ?thesis using assms by blast
qed

lemma section_loop_total:
  assumes "m3_at True b e (max_funcs ex) (max_globals ex) s" "bounded True b e p e" "ctx_ok True c" "ex \<le> 12"
  shows "outcome True (\<lambda>_ t. \<exists>nf ng. m3_at True b e nf ng t) (free_ok True) (section_loop c ex (p :: 'p::len word) e s)"
  using assms
proof (induction "unat e - unat p" arbitrary: p ex s rule: less_induct)
  case less
  note step = section_step_ok [OF less.prems]
  show ?case
  proof (cases "p < e")
    case True
    show ?thesis
    proof (cases "section_step c ex p e s")
      case (Some x)
      obtain z t where x: "x = (z, t)" by (cases x)
      show ?thesis
      proof (cases z)
        case (Inr y)
        have t: "m3_at True b e (max_funcs (fst y)) (max_globals (fst y)) t" "bounded True b e (snd y) e" "fst y \<le> 12" "p < snd y"
          using step Some x Inr by simp_all
        have "unat e - unat (snd y) < unat e - unat p" using t(4) True by (auto simp: word_less_nat_alt)
        from less.hyps [OF this t(1,2) less.prems(3) t(3)] show ?thesis
          using True Some x Inr by (subst section_loop.simps) simp
      qed (use step Some x True in \<open>subst section_loop.simps, simp\<close>)
    qed (use step in simp)
  next
    case False
    then show ?thesis using less.prems(1) by (subst section_loop.simps) auto
  qed
qed

lemma Read_u32_step: "bounded w b E p e \<Longrightarrow> Read_u32 m p e = (None, v, q) \<Longrightarrow> bounded w b E q e"
  using ucast_len [of w b E p e 4]
  by (auto simp: bounded_def Read_u32_def Let_def word_le_nat_alt split: if_splits)

lemma fresh_module_ok:
  assumes "env_ok (env s) (tick s)"
  shows "m3_at w b e 0 0 (s\<lparr>mdl := zero_module\<lparr>startFunction := - 1, wasmStart := b, wasmEnd := e\<rparr>\<rparr>)"
  using assms unfolding m3_at_defs by (simp add: zero_module_def)



section \<open>Reading back a type section\<close>

text \<open>A signature: the types of the results and of the arguments; its entry in the section and its value in memory.\<close>

type_synonym signature = "u8 list \<times> u8 list"

definition enc_ft :: "signature \<Rightarrow> u8 list" where
  "enc_ft ft = [0x60] @ uleb (length (snd ft)) @ concat (map enc_type (snd ft)) @ uleb (length (fst ft)) @ concat (map enc_type (fst ft))"

definition mk_ft :: "signature \<Rightarrow> m3_funcType" where
  "mk_ft ft = \<lparr>numRets = of_nat (length (fst ft)), numArgs = of_nat (length (snd ft)), ft_types = fst ft @ snd ft\<rparr>"

definition sig_ok :: "signature \<Rightarrow> bool" where
  "sig_ok ft \<longleftrightarrow> length (fst ft) + length (snd ft) \<le> 1000 \<and> (\<forall>t \<in> set (fst ft) \<union> set (snd ft). t \<le> c_m3Type_f64)"

definition enter_type :: "nat \<Rightarrow> signature \<Rightarrow> 'p::len word \<Rightarrow> ('p word, 'p word m3_state) m3_op" where
  "enter_type i ft q s =
     (let (ptr, en) = Environment_AddFuncType (env s) (Suc (tick s), mk_ft ft); s = s\<lparr>tick := tick s + 1, env := en\<rparr>
      in case upd_elem (funcTypes (mdl s)) i (\<lambda>_. ptr) of
           None \<Rightarrow> None
         | Some fts \<Rightarrow> ret q (upd_mod (\<lambda>md. md\<lparr>funcTypes := Some fts\<rparr>) s))"

lemma type_entry_decode:
  fixes p e :: "'p::len word"
  assumes ok: "sig_ok ft" and m: "holds (bytes c) (unat p) (enc_ft ft)" and e: "unat p + length (enc_ft ft) \<le> unat e" and hp: "heap c (tick s)"
  shows "type_entry c i p e s = enter_type i ft (p + of_nat (length (enc_ft ft))) s"
proof -
  obtain rets args where ft: "ft = (rets, args)" by (cases ft)
  let ?na = "of_nat (length args) :: u32" and ?nr = "of_nat (length rets) :: u32"
  let ?a = "concat (map enc_type args)" and ?r = "concat (map enc_type rets)"
  let ?p1 = "p + of_nat 1" let ?p2 = "?p1 + of_nat (length (uleb (length args)))" let ?p3 = "?p2 + of_nat (length ?a)"
  let ?p4 = "?p3 + of_nat (length (uleb (length rets)))"
  have len: "length args \<le> 1000" "length rets \<le> 1000" "length rets + length args \<le> 1000" using ok by (auto simp: sig_ok_def ft)
  have n: "unat ?na = length args" "unat ?nr = length rets" using len by (simp_all add: unat_of_nat)
  have all: "length (enc_ft ft) = 1 + length (uleb (length args)) + length ?a + length (uleb (length rets)) + length ?r"
    by (simp add: enc_ft_def ft)
  have u1: "unat ?p1 = unat p + 1" by (rule unat_after [of _ _ e]) (use e all in simp)
  have u2: "unat ?p2 = unat ?p1 + length (uleb (length args))" by (rule unat_after [of _ _ e]) (use e all u1 in simp)
  have u3: "unat ?p3 = unat ?p2 + length ?a" by (rule unat_after [of _ _ e]) (use e all u1 u2 in simp)
  have u4: "unat ?p4 = unat ?p3 + length (uleb (length rets))" by (rule unat_after [of _ _ e]) (use e all u1 u2 u3 in simp)
  have h: "bytes c (unat p) = 0x60" "holds (bytes c) (unat ?p1) (uleb (length args))" "holds (bytes c) (unat ?p2) ?a"
    "holds (bytes c) (unat ?p3) (uleb (length rets))" "holds (bytes c) (unat ?p4) ?r"
    using m unfolding u4 u3 u2 u1 by (simp_all add: enc_ft_def ft add.assoc [symmetric])
  have r0: "ReadLEB_i7 (bytes c) p e = (None, - 32, ?p1)"
    using leb_i7.decode [of "- 32" "bytes c" p e] h(1) e all by (simp add: sleb.simps)
  have r1: "ReadLEB_u32 (bytes c) ?p1 e = (None, ?na, ?p2)"
    using leb_u32.decode [of "bytes c" ?p1 ?na e] h(2) e all u1 by (simp add: n)
  have r2: "read_many read_value_type (unat ?na) (bytes c) ?p2 e = (None, args, ?p3)"
    unfolding n by (rule value_type.decode_many) (use ok h(3) e all u1 u2 in \<open>auto simp: sig_ok_def ft\<close>)
  have r3: "ReadLEB_u32 (bytes c) ?p3 e = (None, ?nr, ?p4)"
    using leb_u32.decode [of "bytes c" ?p3 ?nr e] h(4) e all u1 u2 u3 by (simp add: n)
  have r4: "read_many read_value_type (unat ?nr) (bytes c) ?p4 e = (None, rets, p + of_nat (length (enc_ft ft)))"
    unfolding n by (subst value_type.decode_many) (use ok h(5) e all u1 u2 u3 u4 in \<open>auto simp: sig_ok_def ft add.assoc\<close>)
  have uc: "(ucast ?na :: u16) = of_nat (length args)" "(ucast ?nr :: u16) = of_nat (length rets)"
    using len n by (simp_all add: word_unat_eq_iff unat_of_nat unat_ucast)
  have "\<not> ?na > d_m3MaxSaneFunctionArgRetCount" using len n by (simp add: zconst word_less_nat_alt)
  then show ?thesis
    using r0 r1 r2 r3 r4 len hp
    by (simp add: type_entry_def step_simps try_op_def AllocFuncType_def m3_Malloc_def enter_type_def mk_ft_def ft n zconst uc cong: step_congs split: prod.split)
qed

text \<open>The first \<open>i\<close> entries of the module's table point to these signatures.\<close>

definition table_of :: "signature list \<Rightarrow> nat \<Rightarrow> 'p::len word m3_state \<Rightarrow> bool" where
  "table_of fts i s \<longleftrightarrow> env_ok (env s) (tick s) \<and> length (elems (funcTypes (mdl s))) = length fts \<and>
     (\<forall>j < i. \<exists>u. ft_of (env s) (elems (funcTypes (mdl s)) ! j) = Some u \<and> AreFuncTypesEqual u (mk_ft (fts ! j)))"

lemma enter_type_table:
  assumes t: "table_of fts i s" and i: "i < length fts"
  shows "\<exists>t. enter_type i (fts ! i) q s = Some (Inr q, t) \<and> table_of fts (Suc i) t \<and> numFuncTypes (mdl t) = numFuncTypes (mdl s)"
proof -
  obtain ptr en where add: "Environment_AddFuncType (env s) (Suc (tick s), mk_ft (fts ! i)) = (ptr, en)"
    by (cases "Environment_AddFuncType (env s) (Suc (tick s), mk_ft (fts ! i))")
  have en: "env_ok en (Suc (tick s))" "\<exists>u. ft_of en ptr = Some u \<and> AreFuncTypesEqual u (mk_ft (fts ! i))"
    "\<forall>r \<in> types_of (env s). ft_of en r = ft_of (env s) r"
    using AddFuncType_ok [OF _ _ add] t by (auto simp: table_of_def)
  let ?fs = "elems (funcTypes (mdl s))"
  have len: "i < length ?fs" using t i by (simp add: table_of_def)
  have "\<exists>u. ft_of en (?fs[i := ptr] ! j) = Some u \<and> AreFuncTypesEqual u (mk_ft (fts ! j))" if j: "j < Suc i" for j
  proof (cases "j = i")
    case False
    then obtain u where u: "ft_of (env s) (?fs ! j) = Some u" "AreFuncTypesEqual u (mk_ft (fts ! j))"
      using t j unfolding table_of_def by (metis less_SucE)
    then have "?fs ! j \<in> types_of (env s)" by (auto simp: ft_of_def dest!: map_of_SomeD intro: rev_image_eqI)
    then have "ft_of en (?fs ! j) = Some u" using bspec [OF en(3)] u(1) by simp
    then show ?thesis using False u(2) by simp
  qed (use en(2) len in simp)
  then show ?thesis
    using add len en(1) t by (simp add: enter_type_def upd_elem_Some ret_def table_of_def)
qed

lemma type_loop_decode:
  assumes "\<And>ft. ft \<in> set fts \<Longrightarrow> sig_ok ft" "\<And>k. heap c k"
  shows "holds (bytes c) (unat p) (concat (map enc_ft (drop i fts))) \<Longrightarrow> unat p + length (concat (map enc_ft (drop i fts))) \<le> unat e \<Longrightarrow>
    table_of fts i s \<Longrightarrow> i + k = length fts \<Longrightarrow>
    \<exists>t. type_loop c i k p e s = Some (Inr (), t) \<and> table_of fts (length fts) t \<and> numFuncTypes (mdl t) = numFuncTypes (mdl s)"
proof (induction k arbitrary: i p s)
  case (Suc k)
  let ?ft = "fts ! i" let ?q = "p + of_nat (length (enc_ft ?ft))"
  have dr: "drop i fts = ?ft # drop (Suc i) fts" using Suc.prems(4) by (simp add: Cons_nth_drop_Suc)
  have "type_entry c i p e s = enter_type i ?ft ?q s"
    by (rule type_entry_decode) (use Suc.prems dr assms in auto)
  moreover obtain t where t: "enter_type i ?ft ?q s = Some (Inr ?q, t)" "table_of fts (Suc i) t" "numFuncTypes (mdl t) = numFuncTypes (mdl s)"
    using enter_type_table [OF Suc.prems(3)] Suc.prems(4) by auto
  moreover have "unat ?q = unat p + length (enc_ft ?ft)" by (rule unat_after [of _ _ e]) (use Suc.prems(2) dr in simp)
  ultimately show ?case using Suc.IH [of ?q "Suc i" t] Suc.prems dr by (simp add: try_op_def)
qed (simp add: ret_def)

text \<open>
  C25: Reading back a type section gives the signatures that were written. For every list of valid signatures and bytes that hold its encoding,
  \<^verbatim>\<open>ParseSection_Type\<close> succeeds and the table it builds has, at every index, a pointer to a type with exactly the results and arguments of that
  signature, although equal signatures share one entry of the environment's list.
\<close>

theorem type_section_roundtrip:
  fixes p e :: "'p::len word"
  assumes "fts \<noteq> []" "length fts \<le> 1000000" and sigs: "\<And>ft. ft \<in> set fts \<Longrightarrow> sig_ok ft" and hp: "\<And>k. heap c k"
    and m: "holds (bytes c) (unat p) (uleb (length fts) @ concat (map enc_ft fts))"
    and e: "unat p + length (uleb (length fts) @ concat (map enc_ft fts)) \<le> unat e" and env: "env_ok (env s) (tick s)"
  shows "\<exists>t. ParseSection_Type c p e s = Some (Inr (), t) \<and> unat (numFuncTypes (mdl t)) = length fts \<and>
    (\<forall>i < length fts. \<exists>u. ft_of (env t) (elems (funcTypes (mdl t)) ! i) = Some u \<and> AreFuncTypesEqual u (mk_ft (fts ! i)))"
proof -
  let ?n = "of_nat (length fts) :: u32" and ?q = "p + of_nat (length (uleb (length fts)))"
  have n: "unat ?n = length fts" "?n \<noteq> 0" "\<not> ?n > d_m3MaxSaneTypesCount"
    using assms(1,2) by (simp_all add: unat_of_nat word_unat_eq_iff zconst word_less_nat_alt)
  have rd: "ReadLEB_u32 (bytes c) p e = (None, ?n, ?q)" using leb_u32.decode [of "bytes c" p ?n e] m e n(1) by simp
  have q: "unat ?q = unat p + length (uleb (length fts))" by (rule unat_after [of _ _ e]) (use e in simp)
  let ?s = "upd_mod (\<lambda>md. md\<lparr>numFuncTypes := ?n\<rparr>) (upd_mod (\<lambda>md. md\<lparr>funcTypes := Some (replicate (unat ?n) 0)\<rparr>) (s\<lparr>tick := Suc (tick s)\<rparr>))"
  have "table_of fts 0 ?s" using env_ok_later [OF env] n by (simp add: table_of_def)
  then obtain t where t: "type_loop c 0 (length fts) ?q e ?s = Some (Inr (), t)" "table_of fts (length fts) t" "numFuncTypes (mdl t) = ?n"
    using type_loop_decode [where fts = fts and c = c and i = 0 and p = ?q and e = e and s = ?s and k = "length fts", OF sigs hp] m e q by auto
  have "ParseSection_Type c p e s = Some (Inr (), t)"
    using rd n t(1) hp assms(1) by (simp add: ParseSection_Type_def type_section_def step_simps m3_Malloc_def)
  then show ?thesis using t(2,3) n(1) by (auto simp: table_of_def)
qed

section \<open>Examples\<close>

definition bytes_at :: "nat \<Rightarrow> u8 list \<Rightarrow> mem" where
  "bytes_at a bs = (\<lambda>k. if a \<le> k \<and> k < a + length bs then bs ! (k - a) else 0)"

definition all_granted :: "mem \<Rightarrow> 'p::len word m3_ctx" where
  "all_granted m = \<lparr>bytes = m, heap = (\<lambda>_. True), compile_block = (\<lambda>m md p e. if unat p + 3 \<le> unat e then (None, (), p + 3) else (Some m3Err_wasmUnderrun, (), p)),
     customSectionHandler = None, garbage = None\<rparr>"

definition blank_state :: "'p::len word m3_state" where
  "blank_state = \<lparr>mdl = zero_module, env = \<lparr>env_funcTypes = [], retFuncTypes = []\<rparr>, tick = 0\<rparr>"

definition accepted :: "((m3_error + unit) \<times> 's) option \<Rightarrow> bool" where
  "accepted x = (case x of Some (Inr _, _) \<Rightarrow> True | _ \<Rightarrow> False)"

text \<open>One type, one function of that type exported as \<open>run\<close>, its body and a data segment.\<close>

definition sample_module :: "u8 list" where
  "sample_module = [0, 0x61, 0x73, 0x6d, 1, 0, 0, 0,
     1, 6, 1, 0x60, 1, 0x7f, 1, 0x7f,  3, 2, 1, 0,  5, 3, 1, 0, 1,
     7, 7, 1, 3, 0x72, 0x75, 0x6e, 0, 0,  10, 6, 1, 4, 0, 0x20, 0, 0x0b,  11, 8, 1, 0, 0x41, 0, 0x0b, 2, 7, 9]"

definition wrapping_data :: "u8 list" where
  "wrapping_data = [0, 0x61, 0x73, 0x6d, 1, 0, 0, 0,  11, 10, 1, 0, 0x41, 0, 0x0b, 0xf0, 0xff, 0xff, 0xff, 0x0f]"

lemma Read_magic: "Read_u32 m p e = (if p + 4 \<le> e then (None, rd32 m (unat p), p + 4) else (Some m3Err_wasmUnderrun, 0, p))"
  by (simp add: Read_u32_def Let_def)

lemma rd32_bytes: "rd32 m a = ucast (m a) OR push_bit 8 (ucast (m (a + 1)) OR push_bit 8 (ucast (m (a + 2)) OR push_bit 8 (ucast (m (a + 3)))))"
  by (simp add: rd32_def numeral_eq_Suc)

lemmas parse_eval = leb_defs ReadLebUnsigned_def ReadLebSigned_def narrow_def leb_unsigned_loop.simps leb_signed_loop.simps Let_def
  Read_magic rd32_bytes Read_u8_def read_value_type_def NormalizeType_def zconst step_simps
  m3_ParseModule_def m3_Malloc_def parse_body_def section_loop.simps section_step_def match_section.simps sectionsOrder_def
  ParseModuleSection_def s_parsers_def try_op_def upd_elem_def upd_mod_def zero_module_def bytes_at_def all_granted_def blank_state_def
  Parse_InitExpr_def

lemma three_le_one: "((3::u32) \<le> 1) = False" by (simp add: word_le_nat_alt)

lemma wrapping_data_accepted:
  "(case m3_ParseModule (all_granted (bytes_at 4096 wrapping_data) :: 32 word m3_ctx) 4096 (of_nat (length wrapping_data)) blank_state of
      Some (Inr _, t) \<Rightarrow> (\<forall>d \<in> set (elems (dataSegments (mdl t))). d_size d = 0xfffffff0 \<and> d_data d = 4116) \<and> wasmEnd (mdl t) = 4116
        \<and> elems (dataSegments (mdl t)) \<noteq> []
    | _ \<Rightarrow> False)"
  by (simp add: parse_eval three_le_one ParseSection_Data_def data_entry_def upd_segment_def wrapping_data_def cong: step_congs)
lemma sign_eval: "(ucast (96 OR NOT (mask 7) :: u64) :: u8) = - 32" "(ucast (127 OR NOT (mask 7) :: u64) :: u8) = - 1"
  by code_simp+

lemma sample_accepted: "accepted (m3_ParseModule (all_granted (bytes_at 4096 sample_module) :: 64 word m3_ctx) 4096 (of_nat (length sample_module)) blank_state)"
  by (simp add: sign_eval parse_eval three_le_one sample_module_def accepted_def
     ParseSection_Type_def type_section_def type_entry_def AllocFuncType_def Environment_AddFuncType_def AreFuncTypesEqual_def
     ParseSection_Function_def Module_AddFunction_def Prealloc_cases grown_def elems_def zero_function_def set_import_def add_export_name_def bytes_of_def set_signature_def Module_GetFunction_def upd_function_def
     ParseSection_Memory_def ParseType_Memory_def ParseSection_Export_def export_entry_def export_item_def read_utf8_op_def Read_utf8_def
     ParseSection_Code_def code_entry_def
     ParseSection_Data_def data_entry_def upd_segment_def cong: step_congs)

lemma name_step_back:
  fixes p e :: "32 word"
  assumes m: "holds (bytes c) (unat p) [0, 0xfa, 0xff, 0xff, 0xff, 0x0f]" and e: "unat p + 6 \<le> unat e"
  shows "name_step c p e s = Some (Inr p, s)"
proof -
  have p1: "unat (p + 1) = unat p + 1" using unat_after [of p 1 e] e by simp
  have "ReadLEB_u7 (bytes c) p e = (None, 0, p + 1)"
    using leb_u7.decode [of 0 "bytes c" p e] m e by (simp add: uleb.simps)
  moreover have "uleb (unat (0xfffffffa :: u32)) = [0xfa, 0xff, 0xff, 0xff, 0x0f]" by (simp add: uleb.simps)
  then have "ReadLEB_u32 (bytes c) (p + 1) e = (None, 0xfffffffa, p + 6)"
    using leb_u32.decode [of "bytes c" "p + 1" "0xfffffffa" e] m e p1 by (simp add: add.commute)
  ultimately show ?thesis by (simp add: name_step_def step_simps)
qed

lemma name_section_hangs:
  fixes p e :: "32 word"
  assumes m: "holds (bytes c) (unat p) [0, 0xfa, 0xff, 0xff, 0xff, 0x0f]" and e: "unat p + 6 \<le> unat e"
  shows "ParseSection_Name c p e s = None"
proof -
  have "\<not> (holds (bytes c) (unat p) [0, 0xfa, 0xff, 0xff, 0xff, 0x0f] \<and> unat p + 6 \<le> unat e)"
    if "name_loop c r p e s = Some y" for r y
  proof (rule name_loop.raw_induct [of "\<lambda>c r p e s y.
      \<not> (holds (bytes c) (unat p) [0, 0xfa, 0xff, 0xff, 0xff, 0x0f] \<and> unat p + 6 \<le> unat e)", OF _ that], rule notI)
    fix loop and c :: "32 word m3_ctx" and r p e s y
    assume IH: "\<And>c r p e s y. loop c r p e s = Some y \<Longrightarrow>
        \<not> (holds (bytes c) (unat p) [0, 0xfa, 0xff, 0xff, 0xff, 0x0f] \<and> unat p + 6 \<le> unat e)"
      and body: "(if p < e
        then case name_step c p e s of None \<Rightarrow> None
             | Some x \<Rightarrow> (case fst x of Inl r \<Rightarrow> Some (Inl r, snd x) | Inr q \<Rightarrow> loop c None q e (snd x))
        else Some (case r of None \<Rightarrow> Inr () | Some r \<Rightarrow> Inl r, s)) = Some y"
      and at: "holds (bytes c) (unat p) [0, 0xfa, 0xff, 0xff, 0xff, 0x0f] \<and> unat p + 6 \<le> unat e"
    have "p < e" using at by (simp add: word_less_nat_alt)
    then have "loop c None p e s = Some y" using body name_step_back [of c p e s] at by simp
    then show False using IH at by blast
  qed
  then show ?thesis using m e unfolding ParseSection_Name_def by (cases "name_loop c (garbage c) p e s") auto
qed

definition looping_names :: "u8 list" where
  "looping_names = [0, 0x61, 0x73, 0x6d, 1, 0, 0, 0,  0, 11, 4, 0x6e, 0x61, 0x6d, 0x65, 0, 0xfa, 0xff, 0xff, 0xff, 0x0f]"

lemma looping_module: "m3_ParseModule (all_granted (bytes_at 4096 looping_names) :: 32 word m3_ctx) 4096 (of_nat (length looping_names)) blank_state = None"
proof -
  let ?c = "all_granted (bytes_at 4096 looping_names) :: 32 word m3_ctx"
  have "ParseSection_Name ?c 4111 4117 s = None" for s
    by (rule name_section_hangs) (simp_all add: all_granted_def bytes_at_def looping_names_def)
  then show ?thesis
    by (simp add: parse_eval ParseSection_Custom_def read_utf8_op_def Read_utf8_def bytes_of_def text_bytes_def looping_names_def upt_rec cong: step_congs)
qed


text \<open>The theorems at work on the sample.\<close>

lemma blank_env_ok: "env_ok (env blank_state) (tick blank_state)"
  by (simp add: blank_state_def env_ok_def)

lemma all_granted_ok: "ctx_ok True (all_granted m :: 'p::len word m3_ctx)"
proof -
  have "p \<le> p + 3 \<and> p + 3 \<le> e" if "unat p + 3 \<le> unat e" for p e :: "'p word"
    using unat_after [OF that] that by (simp add: word_le_nat_alt)
  then show ?thesis by (auto simp: ctx_ok_def all_granted_def split: if_splits)
qed



theorem type_section_roundtrip_witness:
  "\<exists>t. ParseSection_Type (all_granted (bytes_at 4096 [1, 0x60, 2, 0x7f, 0x7e, 1, 0x7d]) :: 32 word m3_ctx) 4096 4103 blank_state = Some (Inr (), t) \<and>
    numFuncTypes (mdl t) = 1 \<and>
    (\<exists>u. ft_of (env t) (elems (funcTypes (mdl t)) ! 0) = Some u \<and>
      AreFuncTypesEqual u \<lparr>numRets = 1, numArgs = 2, ft_types = [c_m3Type_f32, c_m3Type_i32, c_m3Type_i64]\<rparr>)"
proof -
  let ?c = "all_granted (bytes_at 4096 [1, 0x60, 2, 0x7f, 0x7e, 1, 0x7d]) :: 32 word m3_ctx"
  have "enc_ft ([3], [1, 2]) = [0x60, 2, 0x7f, 0x7e, 1, 0x7d]" by (simp add: enc_ft_def enc_type_def uleb.simps zconst)
  moreover have "sig_ok ([3], [1, 2])" by (simp add: sig_ok_def zconst word_le_nat_alt)
  moreover have "bytes ?c = bytes_at 4096 [1, 0x60, 2, 0x7f, 0x7e, 1, 0x7d]" "\<And>k. heap ?c k" by (simp_all add: all_granted_def)
  ultimately obtain t where t: "ParseSection_Type ?c 4096 4103 blank_state = Some (Inr (), t)" "unat (numFuncTypes (mdl t)) = 1"
      "\<exists>u. ft_of (env t) (elems (funcTypes (mdl t)) ! 0) = Some u \<and> AreFuncTypesEqual u (mk_ft ([3], [1, 2]))"
    using type_section_roundtrip [of "[([3], [1, 2])]" ?c "4096 :: 32 word" 4103 blank_state] blank_env_ok
    by (auto simp: uleb.simps bytes_at_def)
  then show ?thesis by (auto simp: mk_ft_def zconst word_unat_eq_iff)
qed

end
