(* ===== verification/Spec2Isabelle.thy ===== *)
theory Spec2Isabelle
  imports Div64 Sha256 Contracts Ipc Episode Ifr Sched Kheap Bridge Context_Switch Libc Console Descriptors Pic Keyboard Shell Syscall Wasm_Loader Wasm3_Parse
begin

text \<open>
  A verification development of ZENEDGE, an i386 kernel that runs inference jobs under resource contracts next
  to a Linux host. This text says what the program consists of, which theory models which part, what the lemmas
  show, and what is left out.

  \<^bold>\<open>The program.\<close> The kernel manages page frames on two simulated NUMA nodes (\<^verbatim>\<open>kernel/mm/pmm.c\<close>), page tables
  (\<^verbatim>\<open>kernel/mm/vmm.c\<close>) and a heap (\<^verbatim>\<open>kernel/mm/kheap.c\<close>). A job is a graph of steps (\<^verbatim>\<open>kernel/job/job_graph.c\<close>); it is
  admitted against a contract, and its memory and processor time are charged to that contract
  (\<^verbatim>\<open>kernel/contracts.c\<close>). The scheduler (\<^verbatim>\<open>kernel/sched/sched_core.c\<close>) runs the steps and offloads compute steps to
  the host through rings in a shared window (\<^verbatim>\<open>kernel/ipc/ipc.c\<close>); tensors travel in a heap in the same window
  (\<^verbatim>\<open>kernel/ipc/heap.c\<close>). On the host the bridge daemon answers (\<^verbatim>\<open>tools/bridge/bridge.c\<close>). Everything is recorded
  in a flight recorder (\<^verbatim>\<open>kernel/trace/flightrec.c\<close>), whose records are hashed (\<^verbatim>\<open>kernel/trace/ifr.c\<close>,
  \<^verbatim>\<open>kernel/lib/sha256.c\<close>). Processes (\<^verbatim>\<open>kernel/sched/process.c\<close>, \<^verbatim>\<open>kernel/arch/switch.s\<close>) are switched by the timer, and
  a tuning engine (\<^verbatim>\<open>kernel/engine/episode.c\<close>) tries clock settings on a device. Interrupts come in through the descriptor
  tables (\<^verbatim>\<open>kernel/arch/idt.c\<close>) and the interrupt controller (\<^verbatim>\<open>kernel/arch/pic.c\<close>); the shell (\<^verbatim>\<open>kernel/shell.c\<close>) reads the
  keyboard and writes to the console; user programs enter by system calls (\<^verbatim>\<open>kernel/arch/syscall.c\<close>), and agents run as
  WebAssembly guests (\<^verbatim>\<open>kernel/wasm_loader.c\<close>) that infer with weights from the shared heap. A guest is a module that the
  vendored interpreter wasm3 (\<^verbatim>\<open>kernel/lib/wasm3\<close>) parses, compiles and runs.

  \<^bold>\<open>Conventions.\<close> C integers are words of their width, so arithmetic wraps as in the code. The state of a component
  is a record, and the record of a component that calls another extends the record of the callee: clock, flight
  recorder, frame allocator, virtual memory, processes. An operation takes the state and returns it updated. What
  lives in shared or physical memory is bytes of a memory at the offsets the C structures have, so that aliasing
  and overlap are visible. A page fault, a division by zero and a loop that does not end are the value \<open>None\<close>;
  error codes are results. Hardware and the other side of the window (time-stamp counter, host clock, what the
  peer writes between two accesses, addresses of symbols) are arguments; the chips behind ports (interrupt controller,
  PCI configuration space, serial line) are small models of the hardware in the theory of their driver. Messages of
  the kernel about its own progress are left out except where output is the purpose: panic text, shell, user and guest.

  \<^bold>\<open>Theories.\<close>

  \<^item> \<open>Zen_Prelude\<close>, \<open>Zen_Memory\<close>, \<open>Zen_Bitmap\<close>: word and loop vocabulary; byte memory; the bitmap interface (locale
    \<open>bitmap\<close>) that the frame allocator and the shared heap interpret.
  \<^item> \<open>Div64\<close>: \<^verbatim>\<open>lib/divdi3.c\<close>. The shift-and-subtract routines compute quotient and remainder.
  \<^item> \<open>Sha256\<close>: \<^verbatim>\<open>lib/sha256.c\<close>. Equivalence with an independent statement of FIPS 180-4; streaming; constants.
  \<^item> \<open>Flightrec\<close>: \<^verbatim>\<open>time/time.c\<close>, \<^verbatim>\<open>trace/flightrec.c\<close>. The ring buffer refines the list of the last 256 events.
  \<^item> \<open>Pmm\<close>: \<^verbatim>\<open>mm/pmm.c\<close>. Invariant \<open>pmm_wf\<close> (bitmap, counters and node accounting agree), established by \<open>pmm_init\<close>
    and kept by every operation; allocation and release change the set \<open>frames\<close> by exactly what they hand out.
  \<^item> \<open>Zalloc\<close>, \<open>Job_Graph\<close>, \<open>Contracts\<close>: \<^verbatim>\<open>zenedge_alloc.c\<close>, \<^verbatim>\<open>job/job_graph.c\<close>, \<^verbatim>\<open>contracts.c\<close> with registry and oracle.
    Graph invariant, exact charging, monotone escalation, admission, verdicts. The registry contract is the locale
    \<open>keyed_registry\<close>.
  \<^item> \<open>Ipc_Heap\<close>, \<open>Ipc_Ring\<close>, \<open>Ipc\<close>: the shared window. The locale \<open>spsc_ring\<close> holds the queue that a ring stands for and
    the interleaving of one producer and one consumer access by access; the four rings interpret it. The heap has
    an invariant over disjoint reserved runs and a first-fit specification.
  \<^item> \<open>Bridge\<close>: the host side, and the remote call from the kernel through the bridge and back.
  \<^item> \<open>Episode\<close>: \<^verbatim>\<open>engine/episode.c\<close> with \<^verbatim>\<open>drivers/mock_gpu.c\<close> (locale \<open>tunable_device\<close>). Every proposal ends, guardrails roll
    back.
  \<^item> \<open>Ifr\<close>: \<^verbatim>\<open>trace/ifr.c\<close>. Built records verify, changed ones only with a hash collision.
  \<^item> \<open>Sched\<close>: \<open>sched_run_job\<close>. Termination, order and completeness of the execution of a job.
  \<^item> \<open>Vmm\<close>: \<^verbatim>\<open>mm/vmm.c\<close> with a model of the page walk, CR3 and the TLB. Mapping and unmapping change the translation of one
    page, and no sequence of operations leaves a stale cached translation.
  \<^item> \<open>Kheap\<close>: \<^verbatim>\<open>mm/kheap.c\<close> on bytes. Refinement of first fit with coalescing on the list of blocks; \<open>krealloc\<close> keeps the data.
  \<^item> \<open>Process\<close>, \<open>Context_Switch\<close>: \<^verbatim>\<open>sched/process.c\<close>, \<^verbatim>\<open>arch/switch.s\<close> and \<open>schedule\<close>. Creation is all-or-nothing, the switch
    resumes what was parked, the quantum is respected.
  \<^item> \<open>Libc\<close>: \<^verbatim>\<open>lib/string.c\<close>, \<open>strtoul\<close>. Copies with overlap, strings, numbers.
  \<^item> \<open>Console\<close>: \<^verbatim>\<open>console.c\<close>. Refinement of a terminal with a serial copy; printed numbers read back.
  \<^item> \<open>Descriptors\<close>: \<^verbatim>\<open>arch/gdt.c\<close>, \<^verbatim>\<open>arch/idt.c\<close>. What is packed is what the processor unpacks; segments, gates and dispatch.
  \<^item> \<open>Pic\<close>: \<^verbatim>\<open>arch/pic.c\<close>, \<^verbatim>\<open>arch/pit.c\<close> against the two chips. Initialisation from any state, acknowledgement before the handler,
    masks, spurious interrupts; the divisor of the timer and the sleep.
  \<^item> \<open>Keyboard\<close>, \<open>Shell\<close>: what is typed is what is read; a line runs its command and its effect on the command ring.
  \<^item> \<open>Pci\<close>, \<open>Ivshmem\<close>: \<^verbatim>\<open>arch/pci.c\<close>, \<^verbatim>\<open>drivers/ivshmem.c\<close>, \<^verbatim>\<open>arch/x86_64/apic.c\<close>. Search, size of a register, MSI; the shared-memory
    device on virtual memory, its doorbell and the fate of its interrupts.
  \<^item> \<open>Syscall\<close>: \<^verbatim>\<open>arch/syscall.c\<close>. Which pages a tensor is mapped to and where the tensor then is.
  \<^item> \<open>Wasm_Loader\<close>: \<^verbatim>\<open>wasm_loader.c\<close>, \<^verbatim>\<open>wasm/host_funcs.c\<close> over an arbitrary interpreter. Rules of the interpreter's interface on
    every path, what a guest can reach, and inference with the cache of weights over both heaps.
  \<^item> \<open>Wasm3_Reader\<close>, \<open>Wasm3_Module\<close>, \<open>Wasm3_Parse\<close>: the front end of wasm3 (\<^verbatim>\<open>m3_core.c\<close>, \<^verbatim>\<open>m3_module.c\<close>, \<^verbatim>\<open>m3_function.c\<close>,
    \<^verbatim>\<open>m3_parse.c\<close>), for pointers of any width. Readers stay inside their input (locale \<open>reader\<close>) and invert the encoders (locale
    \<open>codec\<close>); function types are entered once; what the parser accepts is well-formed, and on pointers that a 32-bit length cannot
    wrap it always ends and stays inside the module. On 32-bit pointers, as in this kernel, it does neither, which is shown by two modules.

  \<^bold>\<open>Bounds and fuel.\<close> Loops over arrays are structural (\<open>wfor\<close>, \<open>wfind\<close>). Loops that may run forever are
  \<open>partial_function\<close>s or recursions over an explicit schedule of the environment: the scheduler loop, the free-list
  walks of \<open>Kheap\<close>, the recursion of \<open>pmm_alloc_pages\<close>, the waits for the serial line, a key or a tick, the walk over PCI
  capabilities, the section loops of the parser and the guest return \<open>None\<close> when they do not end, and the theorems that promise a result state \<open>Some\<close>.
  \<open>poll_loop\<close> of the bridge and the loop of the shell run for as many rounds as their argument says.

  \<^bold>\<open>Not modelled.\<close> Of the vendored wasm3 the compiler to threaded code, the interpreter operations and the system interfaces are
  outside the model: \<open>Wasm_Loader\<close> takes the whole interpreter as a parameter, as \<open>Wasm3_Parse\<close> takes the walk of the compiler
  over an initialiser expression. Floating-point arithmetic is a parameter too; \<^verbatim>\<open>lib/math.c\<close> otherwise wraps compiler built-ins. The boot assembly, the register-saving stubs of \<^verbatim>\<open>arch/isr.s\<close>,
  the 64-bit stubs, the order of the initialisation calls in \<^verbatim>\<open>kmain.c\<close> and the Python bridge are outside the model, as are
  the functions that only print tables. Access rights of pages are not part of the page walk, and
  \<open>enter_user_mode\<close> ends the model of a switch, since user code is not modelled.
\<close>

end
